(* ===== verification/Prelude.thy ===== *)
theory Prelude
  imports Main "HOL-Library.Word" "HOL-Library.Monad_Syntax"
begin

text \<open>
  What the components of the development share: the C integer types the code uses, its
  memory accesses with their bounds, and the lemmas and hint collections the proofs of
  the other theories rest on.

  A C buffer is a list of bytes of the buffer's allocated size.  Reading or writing
  outside of it is undefined in C; every access goes through \<open>peek\<close>, \<open>poke\<close>,
  \<open>memread\<close> or \<open>memwrite\<close>, whose result is \<open>None\<close> then, and \<open>None\<close> is
  carried to the result of the operation by the option monad.  So an operation of the
  model that returns \<open>Some\<close> is one whose run in C stays inside its buffers.
\<close>

unbundle bit_operations_syntax

section \<open>Types\<close>

type_synonym u8 = "8 word"
type_synonym u16 = "16 word"
type_synonym u32 = "32 word"

section \<open>Hint collections\<close>

named_theorems mem_simps \<open>bounds and values of memory accesses\<close>
named_theorems inv_intros \<open>operations that keep an invariant\<close>
named_theorems ts_simps \<open>fields of transport stream packets\<close>
named_theorems psi_simps \<open>fields of sections\<close>

section \<open>Memory accesses\<close>

definition peek :: "'a list \<Rightarrow> nat \<Rightarrow> 'a option" where
  "peek xs i = (if i < length xs then Some (xs ! i) else None)"

definition poke :: "'a list \<Rightarrow> nat \<Rightarrow> 'a \<Rightarrow> 'a list option" where
  "poke xs i x = (if i < length xs then Some (xs[i := x]) else None)"

definition memread :: "'a list \<Rightarrow> nat \<Rightarrow> nat \<Rightarrow> 'a list option" where
  "memread xs off n = (if off + n \<le> length xs then Some (take n (drop off xs)) else None)"

definition memwrite :: "'a list \<Rightarrow> nat \<Rightarrow> 'a list \<Rightarrow> 'a list option" where
  "memwrite xs off ys =
     (if off + length ys \<le> length xs
      then Some (take off xs @ ys @ drop (off + length ys) xs) else None)"

lemma peek_Some [mem_simps]: "i < length xs \<Longrightarrow> peek xs i = Some (xs ! i)"
  by (simp add: peek_def)

lemma peek_eq_Some: "peek xs i = Some x \<longleftrightarrow> i < length xs \<and> x = xs ! i"
  by (auto simp: peek_def)

lemma poke_Some [mem_simps]: "i < length xs \<Longrightarrow> poke xs i x = Some (xs[i := x])"
  by (simp add: poke_def)

lemma memread_Some [mem_simps]:
  "off + n \<le> length xs \<Longrightarrow> memread xs off n = Some (take n (drop off xs))"
  by (simp add: memread_def)

lemma memread_None: "length xs < off + n \<Longrightarrow> memread xs off n = None"
  by (simp add: memread_def)

lemma memwrite_Some [mem_simps]:
  "off + length ys \<le> length xs \<Longrightarrow>
   memwrite xs off ys = Some (take off xs @ ys @ drop (off + length ys) xs)"
  by (simp add: memwrite_def)

lemma memwrite_None: "length xs < off + length ys \<Longrightarrow> memwrite xs off ys = None"
  by (simp add: memwrite_def)

lemma memread_length: "memread xs off n = Some ys \<Longrightarrow> length ys = n"
  by (auto simp: memread_def split: if_splits)

lemma memwrite_length: "memwrite xs off ys = Some zs \<Longrightarrow> length zs = length xs"
  by (auto simp: memwrite_def split: if_splits)

lemma poke_length: "poke xs i x = Some ys \<Longrightarrow> length ys = length xs"
  by (auto simp: poke_def split: if_splits)

lemma memwrite_read_back:
  "memwrite xs off ys = Some zs \<Longrightarrow> memread zs off (length ys) = Some ys"
  by (auto simp: memwrite_def memread_def split: if_splits)

lemma memwrite_take:
  "memwrite xs off ys = Some zs \<Longrightarrow> take (off + length ys) zs = take off xs @ ys"
  by (auto simp: memwrite_def split: if_splits)

lemma memwrite_nth:
  "memwrite xs off ys = Some zs \<Longrightarrow>
   zs ! i = (if off \<le> i \<and> i < off + length ys then ys ! (i - off) else xs ! i)"
  by (auto simp: memwrite_def nth_append split: if_splits)

lemma memread_nth: "memread xs off n = Some ys \<Longrightarrow> i < n \<Longrightarrow> ys ! i = xs ! (off + i)"
  by (auto simp: memread_def split: if_splits)

lemma memread_obtain:
  assumes "off + n \<le> length xs"
  obtains ys where "memread xs off n = Some ys" "length ys = n"
  using assms by (simp add: memread_def)

lemma memwrite_obtain:
  assumes "off + length ys \<le> length xs"
  obtains zs where "memwrite xs off ys = Some zs" "length zs = length xs"
  using assms by (simp add: memwrite_def)

lemma take_take_append: "take n (take n xs @ ys) = take n (xs @ ys)"
  by (cases "n \<le> length xs") auto

section \<open>C integers\<close>

text \<open>Unsigned 32 bit subtraction, and the conversion of an \<open>int\<close> to \<open>unsigned int\<close>.\<close>

definition usub32 :: "nat \<Rightarrow> nat \<Rightarrow> nat" where
  "usub32 a b = (a + 2 ^ 32 - b) mod 2 ^ 32"

definition u32_of_int :: "int \<Rightarrow> nat" where
  "u32_of_int i = nat (i mod 2 ^ 32)"

lemma usub32_le: "b \<le> a \<Longrightarrow> a < 2 ^ 32 \<Longrightarrow> usub32 a b = a - b"
proof -
  assume "b \<le> a" "a < 2 ^ 32"
  then have "a + 2 ^ 32 - b = (a - b) + 2 ^ 32" and "a - b < 2 ^ 32" by simp_all
  then show ?thesis by (simp only: usub32_def mod_add_self2 mod_less)
qed

lemma usub32_gt: "a < b \<Longrightarrow> b < 2 ^ 32 \<Longrightarrow> usub32 a b = a + 2 ^ 32 - b"
  by (simp add: usub32_def)

lemma u32_of_int_nonneg: "0 \<le> i \<Longrightarrow> i < 2 ^ 32 \<Longrightarrow> u32_of_int i = nat i"
  by (simp add: u32_of_int_def)

lemma u32_of_int_neg: "i < 0 \<Longrightarrow> - (2 ^ 32) \<le> i \<Longrightarrow> u32_of_int i = nat (i + 2 ^ 32)"
proof -
  assume i: "i < 0" "- (2 ^ 32) \<le> i"
  have "i mod 2 ^ 32 = (i + 2 ^ 32) mod 2 ^ 32" by simp
  also have "\<dots> = i + 2 ^ 32" using i by (intro mod_pos_pos_trivial) simp_all
  finally show ?thesis by (simp add: u32_of_int_def)
qed

text \<open>Division of \<open>int\<close>s in C truncates, and the remainder has the sign of the dividend.\<close>

definition cdiv :: "int \<Rightarrow> int \<Rightarrow> int" where
  "cdiv x y = (if x < 0 then - ((- x) div y) else x div y)"

definition cmod :: "int \<Rightarrow> int \<Rightarrow> int" where
  "cmod x y = x - y * cdiv x y"

text \<open>Big-endian fields of two bytes, as the code assembles them with shifts, and masks.\<close>

definition be16 :: "u8 \<Rightarrow> u8 \<Rightarrow> nat" where
  "be16 hi lo = push_bit 8 (unat hi) OR unat lo"

lemma unat_u8 [simp]: "unat (w :: u8) < 256"
  using unsigned_less [of w, where ?'a = nat] by simp

lemma unat_u8_le [simp]: "unat (w :: u8) \<le> 255"
  using unat_u8 [of w] by linarith

lemma be16_eq: "be16 hi lo = unat hi * 256 + unat lo"
proof -
  have l: "bit (unat lo) n \<Longrightarrow> n < 8" for n
    by (rule ccontr) (simp add: bit_iff_odd div_less less_le_trans [OF unat_u8] 
      power_increasing [of 8 n "2::nat", simplified])
  have "push_bit 8 (unat hi) OR unat lo = push_bit 8 (unat hi) + unat lo"
    by (rule disjunctive_add [symmetric]) (auto simp: bit_push_bit_iff dest: l)
  then show ?thesis by (simp add: be16_def push_bit_eq_mult)
qed

lemma be16_bound: "be16 hi lo < 65536"
  using unat_u8 [of hi] unat_u8 [of lo] unfolding be16_eq by linarith

lemma nat_and_mask [simp]: "(x :: nat) AND 0xfff = x mod 4096" "x AND 0x1fff = x mod 8192"
  "x AND 0xff = x mod 256" "x AND 0xf = x mod 16"
proof -
  have m: "x AND mask n = x mod 2 ^ n" for n by (simp flip: take_bit_eq_mask add: take_bit_eq_mod)
  show "x AND 0xfff = x mod 4096" using m [of 12] by (simp add: mask_eq_exp_minus_1)
  show "x AND 0x1fff = x mod 8192" using m [of 13] by (simp add: mask_eq_exp_minus_1)
  show "x AND 0xff = x mod 256" using m [of 8] by (simp add: mask_eq_exp_minus_1)
  show "x AND 0xf = x mod 16" using m [of 4] by (simp add: mask_eq_exp_minus_1)
qed

text \<open>Exclusive or is a group.\<close>

lemma xor_eq_0: "(x :: 'a::len word) XOR y = 0 \<longleftrightarrow> x = y"
  by (metis xor.assoc xor.left_neutral xor.right_neutral xor_self_eq)

lemma xor_right_cancel: "(x :: 'a::len word) XOR z = y XOR z \<longleftrightarrow> x = y"
  by (metis xor.assoc xor.right_neutral xor_self_eq)

lemma xor_left_cancel: "(z :: 'a::len word) XOR x = z XOR y \<longleftrightarrow> x = y"
  by (metis xor_right_cancel xor.commute)

section \<open>Lists\<close>

lemma length_4E:
  assumes "length xs = 4"
  obtains a b c d where "xs = [a, b, c, d]"
  using assms by (auto simp: eval_nat_numeral length_Suc_conv)

lemma take_drop_append_nth:
  "i < length xs \<Longrightarrow> take (Suc i) xs = take i xs @ [xs ! i]"
  by (rule take_Suc_conv_app_nth)

lemma nth_take_drop: "i < n \<Longrightarrow> off + n \<le> length xs \<Longrightarrow> take n (drop off xs) ! i = xs ! (off + i)"
  by simp

lemma take_drop_join:
  "take a (drop i xs) @ take b (drop (i + a) xs) = take (a + b) (drop i xs)"
  by (metis add.commute drop_drop take_add)

section \<open>Decimal numbers\<close>

fun dec_nat :: "nat \<Rightarrow> string" where
  "dec_nat n = (if n < 10 then [char_of (48 + n)] else dec_nat (n div 10) @ [char_of (48 + n mod 10)])"

declare dec_nat.simps [simp del]

definition dec_int :: "int \<Rightarrow> string" where
  "dec_int i = (if i < 0 then ''-'' @ dec_nat (nat (- i)) else dec_nat (nat i))"

fun dec_value :: "nat \<Rightarrow> string \<Rightarrow> nat" where
  "dec_value v [] = v"
| "dec_value v (c # s) = dec_value (10 * v + (of_char c - 48)) s"

lemma dec_value_append: "dec_value v (s @ t) = dec_value (dec_value v s) t"
  by (induction v s rule: dec_value.induct) auto

lemma dec_value_nat: "dec_value 0 (dec_nat n) = n"
proof (induction n rule: dec_nat.induct)
  case (1 n)
  show ?case using 1 by (cases "n < 10") (simp_all add: dec_nat.simps [of n] dec_value_append)
qed

lemma dec_nat_inj: "dec_nat m = dec_nat n \<Longrightarrow> m = n"
  by (metis dec_value_nat)

lemma dec_nat_digits: "c \<in> set (dec_nat n) \<Longrightarrow> 48 \<le> (of_char c :: nat) \<and> (of_char c :: nat) \<le> 57"
proof (induction n rule: dec_nat.induct)
  case (1 n)
  show ?case using 1 by (cases "n < 10") (auto simp: dec_nat.simps [of n])
qed

lemma dec_nat_not_empty [simp]: "dec_nat n \<noteq> []"
  by (simp add: dec_nat.simps [of n])

end
