(* ===== verification/Fe.thy ===== *)
theory Fe
  imports Prelude
begin

text \<open>
  \<^verbatim>\<open>fe.c\<close>: tuning the frontend, for the DVB API without multiproto (the branch
  \<^verbatim>\<open>#else\<close> of \<^verbatim>\<open>getstream.h\<close>) and the options of the build, \<^verbatim>\<open>KLK_SOURCE\<close>.

  The kernel.  Every call (\<^verbatim>\<open>ioctl\<close>, \<^verbatim>\<open>open\<close>, \<^verbatim>\<open>close\<close>, \<^verbatim>\<open>time\<close>, the sleeps) is appended
  to the log \<open>fe_sys\<close>; its result is \<open>fe_ret\<close> of the log that ends with it, the error number
  \<open>fe_errno\<close>, the status word it stores \<open>fe_status\<close>, and the card \<^verbatim>\<open>FE_GET_INFO\<close> describes
  \<open>fe_card\<close>: arbitrary functions.  Timers and events are flags that say whether they are
  pending.
\<close>

section \<open>Constants and structures\<close>

text \<open>Of \<^verbatim>\<open>linux/dvb/frontend.h\<close> and \<^verbatim>\<open>errno.h\<close>.\<close>

definition FE_HAS_SIGNAL :: nat where "FE_HAS_SIGNAL = 0x01"
definition FE_HAS_CARRIER :: nat where "FE_HAS_CARRIER = 0x02"
definition FE_HAS_VITERBI :: nat where "FE_HAS_VITERBI = 0x04"
definition FE_HAS_SYNC :: nat where "FE_HAS_SYNC = 0x08"
definition FE_HAS_LOCK :: nat where "FE_HAS_LOCK = 0x10"
definition FE_TIMEDOUT :: nat where "FE_TIMEDOUT = 0x20"
definition FE_REINIT :: nat where "FE_REINIT = 0x40"
definition EINVAL :: int where "EINVAL = 22"
definition EOVERFLOW :: int where "EOVERFLOW = 75"

datatype voltage = SEC_VOLTAGE_13 | SEC_VOLTAGE_18 | SEC_VOLTAGE_OFF
datatype tone = SEC_TONE_ON | SEC_TONE_OFF
datatype minicmd = SEC_MINI_A | SEC_MINI_B
datatype modulation = QPSK | QAM_16 | QAM_32 | QAM_64 | QAM_128 | QAM_256 | QAM_AUTO
datatype fec = FEC_NONE | FEC_1_2 | FEC_2_3 | FEC_3_4 | FEC_4_5 | FEC_5_6 | FEC_6_7 | FEC_7_8 | FEC_8_9 | FEC_AUTO
datatype bandwidth = BANDWIDTH_8_MHZ | BANDWIDTH_7_MHZ | BANDWIDTH_6_MHZ | BANDWIDTH_AUTO
datatype transmode = TRANSMISSION_MODE_2K | TRANSMISSION_MODE_8K | TRANSMISSION_MODE_AUTO
datatype guard = GUARD_INTERVAL_1_32 | GUARD_INTERVAL_1_16 | GUARD_INTERVAL_1_8 | GUARD_INTERVAL_1_4 | GUARD_INTERVAL_AUTO
datatype hierarchy = HIERARCHY_NONE | HIERARCHY_1 | HIERARCHY_2 | HIERARCHY_4 | HIERARCHY_AUTO
datatype inversion = INVERSION_OFF | INVERSION_ON | INVERSION_AUTO

text \<open>The members of the union \<^verbatim>\<open>u\<close> of \<^verbatim>\<open>struct dvb_frontend_parameters\<close>.  After the
  \<^verbatim>\<open>memset\<close> they are zero, the first value of each enumeration.\<close>

datatype feu =
    U_none
  | U_qpsk nat fec
  | U_qam nat fec modulation
  | U_ofdm bandwidth fec fec modulation transmode guard hierarchy

record feparams =
  fp_frequency :: nat
  fp_inversion :: inversion
  fp_u :: feu

datatype adapter_type = AT_DVBS | AT_DVBS2 | AT_DVBT | AT_DVBC

datatype fe_type = FE_QPSK | FE_QAM | FE_OFDM | FE_OTHER nat

record diseqc_cmd =
  dc_msg :: "u8 list"
  dc_len :: nat
  dc_wait :: nat

datatype fe_call =
    Fe_open nat
  | Fe_close int
  | Fe_time
  | Fe_sleep nat
  | Fe_set_tone tone
  | Fe_set_voltage voltage
  | Fe_diseqc_master "u8 list" nat
  | Fe_diseqc_burst minicmd
  | Fe_set_frontend feparams
  | Fe_read_status
  | Fe_get_event
  | Fe_get_info

record dvbs =
  s_lnbsharing :: bool
  s_lof1 :: nat
  s_lof2 :: nat
  s_slof :: nat
  s_freq :: nat
  s_pol_h :: bool
  s_srate :: nat
  s_diseqc :: int

record dvbt =
  t_freq :: nat
  t_bandwidth :: int
  t_tmode :: int
  t_modulation :: int
  t_guard :: int
  t_hierarchy :: int

record dvbc =
  c_freq :: nat
  c_srate :: nat
  c_modulation :: int
  c_fec :: int

record fe =
  fe_no :: nat
  fe_atype :: adapter_type
  fe_fd :: int
  fe_timer :: bool
  fe_eventset :: bool
  fe_tunelast :: int
  fe_dvbs :: dvbs
  fe_dvbt :: dvbt
  fe_dvbc :: dvbc
  fe_sys :: "fe_call list"
  fe_ret :: "fe_call list \<Rightarrow> int"
  fe_errno :: "fe_call list \<Rightarrow> int"
  fe_status :: "fe_call list \<Rightarrow> nat"
  fe_card :: "fe_call list \<Rightarrow> fe_type"

definition fe_do :: "fe_call \<Rightarrow> fe \<Rightarrow> fe \<times> int" where
  "fe_do c f = (f\<lparr>fe_sys := fe_sys f @ [c]\<rparr>, fe_ret f (fe_sys f @ [c]))"

definition fe_ignore :: "fe_call \<Rightarrow> fe \<Rightarrow> fe" where
  "fe_ignore c f = fst (fe_do c f)"

section \<open>Switches\<close>

definition switch_cmds :: "diseqc_cmd list" where
  "switch_cmds = map (\<lambda>b. \<lparr>dc_msg = [0xe0, 0x10, 0x38, b, 0x00, 0x00], dc_len = 4, dc_wait = 0\<rparr>)
     [0xf0, 0xf2, 0xf1, 0xf3, 0xf4, 0xf6, 0xf5, 0xf7, 0xf8, 0xfa, 0xf9, 0xfb, 0xfc, 0xfe, 0xfd, 0xff]"

text \<open>The loop over the commands; its result is \<open>Inl\<close> of the error that ends it.\<close>

fun diseqc_send_cmds :: "diseqc_cmd list \<Rightarrow> fe \<Rightarrow> fe \<times> (int + unit)" where
  "diseqc_send_cmds [] f = (f, Inr ())"
| "diseqc_send_cmds (cmd # cmds) f =
     (let (f, err) = fe_do (Fe_diseqc_master (dc_msg cmd) (dc_len cmd)) f
      in if err \<noteq> 0 then (f, Inl err)
      else diseqc_send_cmds cmds (fe_ignore (Fe_sleep (dc_wait cmd)) f))"

definition diseqc_send_msg :: "voltage \<Rightarrow> diseqc_cmd list \<Rightarrow> tone \<Rightarrow> minicmd \<Rightarrow> fe \<Rightarrow> fe \<times> int" where
  "diseqc_send_msg v cmd t b f =
     (let (f, err) = fe_do (Fe_set_tone SEC_TONE_OFF) f
      in if err \<noteq> 0 then (f, err)
      else
        let (f, err) = fe_do (Fe_set_voltage v) f
        in if err \<noteq> 0 then (f, err)
        else
          let f = fe_ignore (Fe_sleep 15) f;
              (f, r) = diseqc_send_cmds cmd f
          in case r of
            Inl err \<Rightarrow> (f, err)
          | Inr _ \<Rightarrow>
              let f = fe_ignore (Fe_sleep 15) f;
                  (f, err) = fe_do (Fe_diseqc_burst b) f
              in if err \<noteq> 0 then (f, err)
              else fe_do (Fe_set_tone t) (fe_ignore (Fe_sleep 15) f))"

definition setup_switch :: "int \<Rightarrow> bool \<Rightarrow> bool \<Rightarrow> fe \<Rightarrow> fe \<times> int" where
  "setup_switch switch_pos voltage_18 hiband f =
     (let i = 4 * switch_pos + 2 * (if hiband then 1 else 0) + (if voltage_18 then 1 else 0)
      in if i < 0 \<or> i \<ge> int (length switch_cmds) then (f, - EINVAL)
      else diseqc_send_msg (if i mod 2 \<noteq> 0 then SEC_VOLTAGE_18 else SEC_VOLTAGE_13)
             [switch_cmds ! nat i]
             (if (i div 2) mod 2 \<noteq> 0 then SEC_TONE_ON else SEC_TONE_OFF)
             (if (i div 4) mod 2 \<noteq> 0 then SEC_MINI_B else SEC_MINI_A) f)"

section \<open>Status\<close>

definition fe_decode_status :: "nat \<Rightarrow> string" where
  "fe_decode_status status =
     (let str = '''';
          str = (if status AND FE_HAS_SIGNAL \<noteq> 0 then str @ ''HAS_SIGNAL '' else str);
          str = (if status AND FE_HAS_CARRIER \<noteq> 0 then str @ ''HAS_CARRIER '' else str);
          str = (if status AND FE_HAS_VITERBI \<noteq> 0 then str @ ''HAS_VITERBI '' else str);
          str = (if status AND FE_HAS_SYNC \<noteq> 0 then str @ ''HAS_SYNC '' else str);
          str = (if status AND FE_HAS_LOCK \<noteq> 0 then str @ ''HAS_LOCK '' else str);
          str = (if status AND FE_TIMEDOUT \<noteq> 0 then str @ ''TIMEDOUT '' else str);
          str = (if status AND FE_REINIT \<noteq> 0 then str @ ''REINIT '' else str)
      in if length str > 0 then butlast str else str)"

section \<open>Tuning\<close>

text \<open>\<^verbatim>\<open>fe_tune_dvbs\<close>: the intermediate frequency and the tone that selects the band.\<close>

definition dvbs_band :: "dvbs \<Rightarrow> nat \<times> tone" where
  "dvbs_band s =
     (if s_freq s > 2200000 then
        if s_slof s \<noteq> 0 then
          if s_freq s < s_slof s then (u32_of_int (int (s_freq s) - int (s_lof1 s)), SEC_TONE_OFF)
          else (u32_of_int (int (s_freq s) - int (s_lof2 s)), SEC_TONE_ON)
        else if s_lof2 s \<noteq> 0 then
          if s_pol_h s then (u32_of_int (int (s_lof2 s) - int (s_freq s)), SEC_TONE_OFF)
          else (u32_of_int (int (s_lof1 s) - int (s_freq s)), SEC_TONE_OFF)
        else (u32_of_int (int (s_lof1 s) - int (s_freq s)), SEC_TONE_OFF)
      else (u32_of_int (int (s_freq s)), SEC_TONE_OFF))"

text \<open>Switching the voltage and the tone; \<open>False\<close> when the DiSEqC switch failed.\<close>

definition dvbs_switch :: "voltage \<Rightarrow> tone \<Rightarrow> fe \<Rightarrow> fe \<times> bool" where
  "dvbs_switch voltage tone f =
     (let s = fe_dvbs f
      in if s_lnbsharing s then
           let f = fe_ignore (Fe_set_tone SEC_TONE_OFF) f;
               (f, r) = fe_do (Fe_set_voltage SEC_VOLTAGE_OFF) f;
               f = (if r < 0 \<and> fe_errno f (fe_sys f) = EINVAL then fe_ignore (Fe_set_voltage voltage) f else f)
           in (f, True)
         else if s_diseqc s \<noteq> 0 then
           let (f, r) = setup_switch (s_diseqc s - 1) (voltage \<noteq> SEC_VOLTAGE_13) (tone = SEC_TONE_ON) f
           in if r \<noteq> 0 then (f, False) else (fe_ignore (Fe_sleep 1000) f, True)
         else
           let f = fe_ignore (Fe_set_voltage voltage) f
           in (fe_ignore (Fe_set_tone tone) f, True))"

definition fe_tune_dvbs :: "fe \<Rightarrow> fe \<times> int" where
  "fe_tune_dvbs f =
     (let s = fe_dvbs f;
          voltage = (if s_pol_h s then SEC_VOLTAGE_18 else SEC_VOLTAGE_13);
          (frequency, tone) = dvbs_band s;
          params = \<lparr>fp_frequency = frequency, fp_inversion = INVERSION_AUTO,
                    fp_u = (if fe_atype f = AT_DVBS2 then U_none else U_qpsk (u32_of_int (int (s_srate s))) FEC_AUTO)\<rparr>;
          (f, ok) = dvbs_switch voltage tone f
      in if \<not> ok then (f, -1)
      else
        let (f, r) = fe_do (Fe_set_frontend params) f
        in (f, if r < 0 then -1 else 0))"

definition dvbt_bandwidth :: "int \<Rightarrow> bandwidth option" where
  "dvbt_bandwidth x =
     (if x = 3 then Some BANDWIDTH_AUTO else if x = 2 then Some BANDWIDTH_6_MHZ
      else if x = 1 then Some BANDWIDTH_7_MHZ else if x = 0 then Some BANDWIDTH_8_MHZ else None)"

definition dvbt_modulation :: "int \<Rightarrow> modulation option" where
  "dvbt_modulation x =
     (if x = 0 then Some QPSK else if x = 1 then Some QAM_16 else if x = 2 then Some QAM_32
      else if x = 3 then Some QAM_64 else if x = 4 then Some QAM_128 else if x = 5 then Some QAM_256
      else if x = 6 then Some QAM_AUTO else None)"

definition dvbt_tmode :: "int \<Rightarrow> transmode option" where
  "dvbt_tmode x =
     (if x = 2 then Some TRANSMISSION_MODE_AUTO else if x = 0 then Some TRANSMISSION_MODE_2K
      else if x = 1 then Some TRANSMISSION_MODE_8K else None)"

definition dvbt_guard :: "int \<Rightarrow> guard option" where
  "dvbt_guard x =
     (if x = 4 then Some GUARD_INTERVAL_AUTO else if x = 3 then Some GUARD_INTERVAL_1_4
      else if x = 2 then Some GUARD_INTERVAL_1_8 else if x = 1 then Some GUARD_INTERVAL_1_16
      else if x = 0 then Some GUARD_INTERVAL_1_32 else None)"

definition dvbt_hierarchy :: "int \<Rightarrow> hierarchy option" where
  "dvbt_hierarchy x =
     (if x = 0 then Some HIERARCHY_NONE else if x = 4 then Some HIERARCHY_AUTO
      else if x = 1 then Some HIERARCHY_1 else if x = 2 then Some HIERARCHY_2
      else if x = 3 then Some HIERARCHY_4 else None)"

text \<open>Each \<^verbatim>\<open>switch\<close> returns -1 on an unknown value, before anything is sent to the card.\<close>

definition fe_tune_dvbt :: "fe \<Rightarrow> fe \<times> int" where
  "fe_tune_dvbt f =
     (let t = fe_dvbt f
      in case do {
           bw \<leftarrow> dvbt_bandwidth (t_bandwidth t);
           m \<leftarrow> dvbt_modulation (t_modulation t);
           tm \<leftarrow> dvbt_tmode (t_tmode t);
           g \<leftarrow> dvbt_guard (t_guard t);
           h \<leftarrow> dvbt_hierarchy (t_hierarchy t);
           Some \<lparr>fp_frequency = u32_of_int (int (t_freq t)), fp_inversion = INVERSION_AUTO,
                 fp_u = U_ofdm bw FEC_AUTO FEC_AUTO m tm g h\<rparr>
         } of
           None \<Rightarrow> (f, -1)
         | Some params \<Rightarrow>
             let (f, r) = fe_do (Fe_set_frontend params) f
             in (f, if r < 0 then -1 else 0))"

definition dvbc_modulation :: "int \<Rightarrow> modulation option" where
  "dvbc_modulation x =
     (if x = -1 then Some QPSK else if x = 0 then Some QAM_AUTO else if x = 16 then Some QAM_16
      else if x = 32 then Some QAM_32 else if x = 64 then Some QAM_64 else if x = 128 then Some QAM_128
      else if x = 256 then Some QAM_256 else None)"

definition dvbc_fec :: "int \<Rightarrow> fec option" where
  "dvbc_fec x =
     (if x = 0 then Some FEC_NONE else if x = 1 then Some FEC_1_2 else if x = 2 then Some FEC_2_3
      else if x = 3 then Some FEC_3_4 else if x = 4 then Some FEC_4_5 else if x = 5 then Some FEC_5_6
      else if x = 6 then Some FEC_6_7 else if x = 7 then Some FEC_7_8 else if x = 8 then Some FEC_8_9
      else if x = 9 then Some FEC_AUTO else None)"

definition fe_tune_dvbc :: "fe \<Rightarrow> fe \<times> int" where
  "fe_tune_dvbc f =
     (let c = fe_dvbc f
      in case do {
           m \<leftarrow> dvbc_modulation (c_modulation c);
           x \<leftarrow> dvbc_fec (c_fec c);
           Some \<lparr>fp_frequency = u32_of_int (int (c_freq c)), fp_inversion = INVERSION_AUTO,
                 fp_u = U_qam (u32_of_int (int (c_srate c))) x m\<rparr>
         } of
           None \<Rightarrow> (f, -1)
         | Some params \<Rightarrow>
             let (f, r) = fe_do (Fe_set_frontend params) f
             in (f, if r < 0 then -1 else 0))"

definition fe_tune :: "fe \<Rightarrow> fe \<times> int" where
  "fe_tune f =
     (let (f, rc) = (case fe_atype f of
            AT_DVBS2 \<Rightarrow> fe_tune_dvbs f
          | AT_DVBS \<Rightarrow> fe_tune_dvbs f
          | AT_DVBT \<Rightarrow> fe_tune_dvbt f
          | AT_DVBC \<Rightarrow> fe_tune_dvbc f);
          (f, now) = fe_do Fe_time f
      in (f\<lparr>fe_tunelast := now\<rparr>, rc))"

definition FE_TUNE_MINDELAY :: int where "FE_TUNE_MINDELAY = 5"

definition fe_retune :: "fe \<Rightarrow> fe" where
  "fe_retune f =
     (let (f, now) = fe_do Fe_time f
      in if fe_tunelast f + FE_TUNE_MINDELAY > now then f else fst (fe_tune f))"

section \<open>Events\<close>

definition fe_timer_init :: "fe \<Rightarrow> fe" where
  "fe_timer_init f = f\<lparr>fe_timer := True\<rparr>"

text \<open>The timer has expired when it calls \<^verbatim>\<open>fe_check_status\<close>, which sets it again.\<close>

definition fe_check_status :: "fe \<Rightarrow> fe" where
  "fe_check_status f =
     (let (f, res) = fe_do Fe_read_status (f\<lparr>fe_timer := False\<rparr>);
          status = fe_status f (fe_sys f);
          f = (if res = 0 \<and> status AND FE_HAS_LOCK = 0 then fe_retune f else f)
      in fe_timer_init f)"

definition fe_event :: "fe \<Rightarrow> fe" where
  "fe_event f =
     (let (f, res) = fe_do Fe_get_event f
      in if res < 0 \<and> fe_errno f (fe_sys f) \<noteq> EOVERFLOW then f
      else
        let status = fe_status f (fe_sys f)
        in if res \<ge> 0 \<and> status \<noteq> 0 \<and> status AND FE_TIMEDOUT = 0 \<and> status AND FE_HAS_LOCK = 0
           then fe_retune f else f)"

definition fe_checkcap :: "fe \<Rightarrow> fe \<times> int" where
  "fe_checkcap f =
     (let (f, r) = fe_do Fe_get_info f
      in if r \<noteq> 0 then (f, -1)
      else case fe_card f (fe_sys f) of
          FE_QPSK \<Rightarrow> (f, if fe_atype f = AT_DVBS then 0 else -1)
        | FE_OFDM \<Rightarrow> (f, if fe_atype f = AT_DVBT then 0 else -1)
        | FE_QAM \<Rightarrow> (f, if fe_atype f = AT_DVBC then 0 else -1)
        | FE_OTHER _ \<Rightarrow> (f, 0))"

definition fe_tune_init :: "fe \<Rightarrow> fe \<times> int" where
  "fe_tune_init f =
     (let (f, fd) = fe_do (Fe_open (fe_no f)) f;
          f = f\<lparr>fe_fd := fd\<rparr>
      in if fd < 0 then (f, -1)
      else
        let (f, r) = fe_checkcap f
        in if r \<noteq> 0 then (f, -1)
        else
          let (f, r) = fe_tune f
          in if r \<noteq> 0 then (f, -1)
          else (fe_timer_init (f\<lparr>fe_eventset := True\<rparr>), 0))"

definition fe_tune_deinit :: "fe \<Rightarrow> fe" where
  "fe_tune_deinit f =
     (let f = f\<lparr>fe_eventset := False, fe_timer := False\<rparr>
      in if fe_fd f \<ge> 0 then fe_ignore (Fe_close (fe_fd f)) f else f)"

section \<open>Scripts\<close>

text \<open>The reference for the DiSEqC sequence: a list of calls run in order up to the first
  one that fails; the sleeps do not fail.\<close>

fun run_script :: "fe_call list \<Rightarrow> fe \<Rightarrow> fe \<times> int" where
  "run_script [] f = (f, 0)"
| "run_script (c # cs) f =
     (let (f, r) = fe_do c f
      in if r \<noteq> 0 \<and> (\<forall>n. c \<noteq> Fe_sleep n) then (f, r) else run_script cs f)"

definition switch_script :: "nat \<Rightarrow> bool \<Rightarrow> bool \<Rightarrow> fe_call list" where
  "switch_script pos v hi =
     [Fe_set_tone SEC_TONE_OFF, Fe_set_voltage (if v then SEC_VOLTAGE_18 else SEC_VOLTAGE_13), Fe_sleep 15,
      Fe_diseqc_master [0xe0, 0x10, 0x38, of_nat (0xf0 + 4 * pos + (if v then 2 else 0) + (if hi then 1 else 0)), 0, 0] 4,
      Fe_sleep 0, Fe_sleep 15, Fe_diseqc_burst (if odd pos then SEC_MINI_B else SEC_MINI_A), Fe_sleep 15,
      Fe_set_tone (if hi then SEC_TONE_ON else SEC_TONE_OFF)]"

lemma run_script_Cons_sleep: "run_script (Fe_sleep n # cs) f = run_script cs (fe_ignore (Fe_sleep n) f)"
  by (simp add: fe_ignore_def split_def Let_def)

lemma run_script_Cons: "\<forall>n. c \<noteq> Fe_sleep n \<Longrightarrow> run_script (c # cs) f =
    (let (f, r) = fe_do c f in if r \<noteq> 0 then (f, r) else run_script cs f)"
  by (simp add: split_def Let_def)

lemma run_script_last: "\<forall>n. c \<noteq> Fe_sleep n \<Longrightarrow> run_script [c] f = fe_do c f"
  by (auto simp: split_def Let_def prod_eq_iff)

lemma diseqc_send_msg_script:
  "diseqc_send_msg v [cmd] t b = run_script [Fe_set_tone SEC_TONE_OFF, Fe_set_voltage v, Fe_sleep 15,
     Fe_diseqc_master (dc_msg cmd) (dc_len cmd), Fe_sleep (dc_wait cmd), Fe_sleep 15, Fe_diseqc_burst b, Fe_sleep 15,
     Fe_set_tone t]"
proof
  fix f
  show "diseqc_send_msg v [cmd] t b f = run_script [Fe_set_tone SEC_TONE_OFF, Fe_set_voltage v, Fe_sleep 15,
     Fe_diseqc_master (dc_msg cmd) (dc_len cmd), Fe_sleep (dc_wait cmd), Fe_sleep 15, Fe_diseqc_burst b, Fe_sleep 15,
     Fe_set_tone t] f"
    unfolding diseqc_send_msg_def
    by (subst run_script_Cons, simp, subst run_script_Cons, simp, subst run_script_Cons_sleep, subst run_script_Cons, simp,
      subst run_script_Cons_sleep, subst run_script_Cons_sleep, subst run_script_Cons, simp, subst run_script_Cons_sleep,
      subst run_script_last, simp) (simp add: split_def Let_def)
qed

lemma run_script_log:
  "\<exists>k \<le> length cs. fe_sys (fst (run_script cs f)) = fe_sys f @ take k cs \<and>
     (snd (run_script cs f) = 0 \<longrightarrow> k = length cs)"
proof (induction cs arbitrary: f)
  case (Cons c cs)
  define g where "g = fst (fe_do c f)"
  have g: "fe_sys g = fe_sys f @ [c]" by (simp add: g_def fe_do_def)
  obtain k where k: "k \<le> length cs" "fe_sys (fst (run_script cs g)) = fe_sys g @ take k cs"
    "snd (run_script cs g) = 0 \<longrightarrow> k = length cs" using Cons.IH [of g] by blast
  show ?case
  proof (cases "snd (fe_do c f) \<noteq> 0 \<and> (\<forall>n. c \<noteq> Fe_sleep n)")
    case True
    then have "run_script (c # cs) f = (g, snd (fe_do c f))" by (simp add: g_def split_def Let_def)
    then show ?thesis using g True by (intro exI [of _ 1]) simp
  next
    case False
    have "run_script (c # cs) f = run_script cs g"
      unfolding run_script.simps Let_def split_def g_def by (simp only: False if_False)
    then show ?thesis using g k by (intro exI [of _ "Suc k"]) simp
  qed
qed simp

section \<open>Properties\<close>

lemma switch_cmds_length [simp]: "length switch_cmds = 16" by (simp add: switch_cmds_def)

lemma setup_switch_script: "pos < 4 \<Longrightarrow> setup_switch (int pos) v hi = run_script (switch_script pos v hi)"
proof -
  assume "pos < 4"
  then have "pos = 0 \<or> pos = 1 \<or> pos = 2 \<or> pos = 3" by linarith
  then show ?thesis
    by (elim disjE; cases v; cases hi)
      (simp_all add: fun_eq_iff setup_switch_def diseqc_send_msg_script switch_script_def Let_def switch_cmds_def
        del: run_script.simps)
qed

text \<open>The DiSEqC switch.  For the positions 0 to 3 the sequence of calls is the script:
  tone off, voltage, the command whose last nibble codes position, polarisation and band, the
  burst, and the tone of the band; it stops at the first call that fails and returns its
  result.  Another position is refused without a call.\<close>

theorem setup_switch_sequence:
  "(pos < 4 \<longrightarrow> setup_switch (int pos) v hi f = run_script (switch_script pos v hi) f \<and>
     (\<exists>k \<le> 9. fe_sys (fst (setup_switch (int pos) v hi f)) = fe_sys f @ take k (switch_script pos v hi) \<and>
       (snd (setup_switch (int pos) v hi f) = 0 \<longrightarrow> k = 9))) \<and>
   (x < 0 \<or> 4 \<le> x \<longrightarrow> setup_switch x v hi f = (f, - EINVAL))"
proof (intro conjI impI)
  assume p: "pos < 4"
  show "setup_switch (int pos) v hi f = run_script (switch_script pos v hi) f" by (simp only: setup_switch_script [OF p])
  have "length (switch_script pos v hi) = 9" by (simp add: switch_script_def)
  then show "\<exists>k \<le> 9. fe_sys (fst (setup_switch (int pos) v hi f)) = fe_sys f @ take k (switch_script pos v hi) \<and>
       (snd (setup_switch (int pos) v hi f) = 0 \<longrightarrow> k = 9)"
    unfolding setup_switch_script [OF p] using run_script_log [of "switch_script pos v hi" f] by simp
next
  assume "x < 0 \<or> 4 \<le> x"
  then show "setup_switch x v hi f = (f, - EINVAL)"
    by (auto simp: setup_switch_def Let_def)
qed

definition example_fe :: fe where
  "example_fe = \<lparr>fe_no = 0, fe_atype = AT_DVBS, fe_fd = 3, fe_timer = False, fe_eventset = False, fe_tunelast = 0,
     fe_dvbs = \<lparr>s_lnbsharing = False, s_lof1 = 9750000, s_lof2 = 10600000, s_slof = 11700000, s_freq = 11836000,
       s_pol_h = True, s_srate = 27500000, s_diseqc = 0\<rparr>,
     fe_dvbt = \<lparr>t_freq = 0, t_bandwidth = 0, t_tmode = 0, t_modulation = 0, t_guard = 0, t_hierarchy = 0\<rparr>,
     fe_dvbc = \<lparr>c_freq = 0, c_srate = 0, c_modulation = 0, c_fec = 0\<rparr>,
     fe_sys = [], fe_ret = \<lambda>_. 0, fe_errno = \<lambda>_. 0, fe_status = \<lambda>_. 0, fe_card = \<lambda>_. FE_QPSK\<rparr>"

theorem setup_switch_sequence_witness:
  "setup_switch 2 True False example_fe = run_script (switch_script 2 True False) example_fe"
  using setup_switch_sequence [of 2 True False example_fe 0] by simp

lemma fe_do_sel [simp]: "fe_dvbs (fst (fe_do c f)) = fe_dvbs f" "fe_atype (fst (fe_do c f)) = fe_atype f"
  "fe_tunelast (fst (fe_do c f)) = fe_tunelast f" "fe_ret (fst (fe_do c f)) = fe_ret f"
  "fe_sys (fst (fe_do c f)) = fe_sys f @ [c]" "fe_timer (fst (fe_do c f)) = fe_timer f"
  by (simp_all add: fe_do_def)

text \<open>Tuning a Ku band transponder without a DiSEqC switch: the voltage selects the
  polarisation, the tone the band, and the card is tuned to the transponder's frequency less the local
  oscillator of that band; the result is 0 exactly if the card accepts the parameters.  A DVB-S2
  adapter gets the frequency only, without the symbol rate.\<close>

theorem fe_tune_dvbs_ku:
  assumes "2200000 < s_freq s" "s_slof s \<noteq> 0" "s_freq s < 2 ^ 32" "s_srate s < 2 ^ 32"
    and "lof = (if s_freq s < s_slof s then s_lof1 s else s_lof2 s)" "lof \<le> s_freq s"
    and "\<not> s_lnbsharing s" "s_diseqc s = 0" "fe_dvbs f = s"
  shows "let log = fe_sys f @ [Fe_set_voltage (if s_pol_h s then SEC_VOLTAGE_18 else SEC_VOLTAGE_13),
        Fe_set_tone (if s_freq s < s_slof s then SEC_TONE_OFF else SEC_TONE_ON),
        Fe_set_frontend \<lparr>fp_frequency = s_freq s - lof, fp_inversion = INVERSION_AUTO,
          fp_u = (if fe_atype f = AT_DVBS2 then U_none else U_qpsk (s_srate s) FEC_AUTO)\<rparr>]
    in fe_sys (fst (fe_tune_dvbs f)) = log \<and> snd (fe_tune_dvbs f) = (if fe_ret f log < 0 then -1 else 0)"
proof -
  have "u32_of_int (int (s_freq s) - int lof) = s_freq s - lof" "u32_of_int (int (s_srate s)) = s_srate s"
    using assms(3,4,6) by (simp_all add: u32_of_int_def nat_diff_distrib flip: of_nat_diff)
  then have "dvbs_band s = (s_freq s - lof, if s_freq s < s_slof s then SEC_TONE_OFF else SEC_TONE_ON)"
    "u32_of_int (int (s_srate s)) = s_srate s"
    using assms(1,2,5) by (auto simp: dvbs_band_def)
  then show ?thesis
    using assms(7,8,9) by (simp add: fe_tune_dvbs_def dvbs_switch_def Let_def fe_ignore_def fe_do_def)
qed

lemma example_fe_sel: "fe_sys example_fe = []" "fe_atype example_fe = AT_DVBS" "fe_tunelast example_fe = 0"
  "fe_ret example_fe log = 0"
  "s_lnbsharing (fe_dvbs example_fe) = False" "s_lof1 (fe_dvbs example_fe) = 9750000"
  "s_lof2 (fe_dvbs example_fe) = 10600000" "s_slof (fe_dvbs example_fe) = 11700000"
  "s_freq (fe_dvbs example_fe) = 11836000" "s_pol_h (fe_dvbs example_fe) = True"
  "s_srate (fe_dvbs example_fe) = 27500000" "s_diseqc (fe_dvbs example_fe) = 0"
  by (simp_all add: example_fe_def)

theorem fe_tune_dvbs_ku_witness:
  "fe_sys (fst (fe_tune_dvbs example_fe)) = [Fe_set_voltage SEC_VOLTAGE_18, Fe_set_tone SEC_TONE_ON,
     Fe_set_frontend \<lparr>fp_frequency = 1236000, fp_inversion = INVERSION_AUTO, fp_u = U_qpsk 27500000 FEC_AUTO\<rparr>]"
  using fe_tune_dvbs_ku [of "fe_dvbs example_fe" 10600000 example_fe] by (simp add: example_fe_sel Let_def)

lemma fe_tune_last:
  "\<exists>log. fe_tunelast (fst (fe_tune f)) = fe_ret (fst (fe_tune f)) log \<and> last log = Fe_time"
proof -
  define g where "g = fst (case fe_atype f of AT_DVBS2 \<Rightarrow> fe_tune_dvbs f | AT_DVBS \<Rightarrow> fe_tune_dvbs f
      | AT_DVBT \<Rightarrow> fe_tune_dvbt f | AT_DVBC \<Rightarrow> fe_tune_dvbc f)"
  have "fst (fe_tune f) = (fst (fe_do Fe_time g))\<lparr>fe_tunelast := snd (fe_do Fe_time g)\<rparr>"
    by (simp add: fe_tune_def g_def split_def Let_def)
  then show ?thesis by (intro exI [of _ "fe_sys g @ [Fe_time]"]) (simp add: fe_do_def)
qed

text \<open>Retuning is debounced.  Within five seconds after the last tuning a lost lock makes
  the timer and the event only ask for the time and the status; the timer is set again in every
  case, and the time of the last tuning is one the clock has told.\<close>

theorem fe_retune_debounced:
  "(fe_ret f (fe_sys f @ [Fe_time]) < fe_tunelast f + 5 \<longrightarrow>
     fe_retune f = f\<lparr>fe_sys := fe_sys f @ [Fe_time]\<rparr>) \<and>
   (fe_tunelast f + 5 \<le> fe_ret f (fe_sys f @ [Fe_time]) \<longrightarrow>
     (\<exists>log. fe_tunelast (fe_retune f) = fe_ret (fe_retune f) log \<and> last log = Fe_time)) \<and>
   fe_timer (fe_check_status f) \<and>
   (fe_status f (fe_sys f @ [Fe_read_status]) AND FE_HAS_LOCK \<noteq> 0 \<longrightarrow>
     fe_check_status f = f\<lparr>fe_sys := fe_sys f @ [Fe_read_status], fe_timer := True\<rparr>)"
proof (intro conjI impI)
  show "fe_ret f (fe_sys f @ [Fe_time]) < fe_tunelast f + 5 \<Longrightarrow> fe_retune f = f\<lparr>fe_sys := fe_sys f @ [Fe_time]\<rparr>"
    by (simp add: fe_retune_def fe_do_def FE_TUNE_MINDELAY_def)
  assume "fe_tunelast f + 5 \<le> fe_ret f (fe_sys f @ [Fe_time])"
  then have "fe_retune f = fst (fe_tune (fst (fe_do Fe_time f)))"
    by (simp add: fe_retune_def fe_do_def FE_TUNE_MINDELAY_def)
  then show "\<exists>log. fe_tunelast (fe_retune f) = fe_ret (fe_retune f) log \<and> last log = Fe_time"
    using fe_tune_last by simp
next
  show "fe_timer (fe_check_status f)" by (simp add: fe_check_status_def fe_timer_init_def Let_def split_def)
  show "fe_status f (fe_sys f @ [Fe_read_status]) AND FE_HAS_LOCK \<noteq> 0 \<Longrightarrow>
     fe_check_status f = f\<lparr>fe_sys := fe_sys f @ [Fe_read_status], fe_timer := True\<rparr>"
    by (simp add: fe_check_status_def fe_timer_init_def fe_do_def)
qed

theorem fe_retune_debounced_witness:
  "fe_retune example_fe = example_fe\<lparr>fe_sys := [Fe_time]\<rparr>"
  using fe_retune_debounced [of example_fe] by (simp add: example_fe_sel)

end
