(* ===== verification/Ts.thy ===== *)
theory Ts
  imports Prelude
begin

text \<open>
  The transport stream packet accessors of \<^verbatim>\<open>getstream.h\<close>.  A pointer to a packet is
  modelled by the list of the bytes that can be read from it on: the 188 bytes of the packet
  and whatever follows it in the buffer the packet lies in.  The accessors look at the first
  five bytes only, which every packet has; an access at a computed offset is a \<open>peek\<close> or a
  \<open>memread\<close> of the operation that makes it.
\<close>

definition TS_PACKET_SIZE :: nat where "TS_PACKET_SIZE = 188"

definition PID_MAX :: nat where "PID_MAX = 0x1fff"

definition ts_afc :: "u8 list \<Rightarrow> u8" where
  "ts_afc ts = drop_bit 4 (ts ! 3 AND 0x30)"

definition ts_has_payload :: "u8 list \<Rightarrow> bool" where
  "ts_has_payload ts \<longleftrightarrow> ts_afc ts AND 1 \<noteq> 0"

definition ts_has_af :: "u8 list \<Rightarrow> bool" where
  "ts_has_af ts \<longleftrightarrow> ts_afc ts AND 2 \<noteq> 0"

definition ts_af_len :: "u8 list \<Rightarrow> nat" where
  "ts_af_len ts = (if ts_has_af ts then unat (ts ! 4) + 1 else 0)"

definition ts_payload_start :: "u8 list \<Rightarrow> nat" where
  "ts_payload_start ts = ts_af_len ts + 4"

definition ts_pusi :: "u8 list \<Rightarrow> bool" where
  "ts_pusi ts \<longleftrightarrow> ts ! 1 AND 0x40 \<noteq> 0"

definition ts_pid :: "u8 list \<Rightarrow> nat" where
  "ts_pid ts = be16 (ts ! 1) (ts ! 2) AND 0x1fff"

definition ts_tei :: "u8 list \<Rightarrow> bool" where
  "ts_tei ts \<longleftrightarrow> ts ! 1 AND 0x80 \<noteq> 0"

definition ts_cc :: "u8 list \<Rightarrow> nat" where
  "ts_cc ts = unat (ts ! 3 AND 0xf)"

section \<open>Bounds\<close>

lemma ts_pid_bound [ts_simps]: "ts_pid ts \<le> PID_MAX"
  by (simp add: ts_pid_def PID_MAX_def) 

lemma ts_cc_bound: "ts_cc ts < 16"
  using word_and_le1 [of "ts ! 3" "0xf"] by (simp add: ts_cc_def word_le_nat_alt)

lemma ts_payload_start_bounds: "4 \<le> ts_payload_start ts \<and> ts_payload_start ts \<le> 260"
  by (simp add: ts_payload_start_def ts_af_len_def)

lemma bit_of_nat_u8: "bit (of_nat k :: u8) n \<longleftrightarrow> n < 8 \<and> bit k n"
  by (simp add: bit_of_nat_iff)

lemma small_not_bit: "k < 2 ^ n \<Longrightarrow> n \<le> m \<Longrightarrow> \<not> bit (k :: nat) m"
proof -
  assume "k < 2 ^ n" "n \<le> m"
  then have "k < 2 ^ m" by (meson less_le_trans one_le_numeral power_increasing)
  then show ?thesis by (simp add: bit_iff_odd)
qed

end
