(* ===== verification/Crc32.thy ===== *)
theory Crc32
  imports Prelude
begin

text \<open>
  \<^verbatim>\<open>crc32.c\<close>: the CRC of sections.  The code is configured by \<^verbatim>\<open>CRC_LE_BITS\<close> and
  \<^verbatim>\<open>CRC_BE_BITS\<close>; both default to 8, the table driven version that reads the buffer a
  word at a time.  \<open>crc32_be\<close> and \<open>crc32_le\<close> model that version (on the
  \<^verbatim>\<open>__LITTLE_ENDIAN\<close> branch, which \<^verbatim>\<open>endian.h\<close> always selects), with the address of
  the buffer modulo 4 as a parameter, since the code first walks to an aligned address.
  \<open>crc32_be_bitwise\<close> and \<open>crc32_le_bitwise\<close> are the versions of the source for
  \<^verbatim>\<open>CRC_BE_BITS == 1\<close> and \<^verbatim>\<open>CRC_LE_BITS == 1\<close>, which are the definition of the CRC.
  The theorems show that the two agree on every buffer, that a message followed by its
  CRC has the CRC 0, and that damage confined to four consecutive bytes is always seen.
\<close>

section \<open>Constants and tables\<close>

definition CRCPOLY_LE :: u32 where "CRCPOLY_LE = 0xedb88320"

definition CRCPOLY_BE :: u32 where "CRCPOLY_BE = 0x04c11db7"

definition swab32 :: "u32 \<Rightarrow> u32" where
  "swab32 x =
     (push_bit 24 (x AND 0x000000ff)) OR (push_bit 8 (x AND 0x0000ff00)) OR
     (drop_bit 8 (x AND 0x00ff0000)) OR (drop_bit 24 (x AND 0xff000000))"

definition crc32table_le :: "u32 list" where
  "crc32table_le =
  [0x00000000, 0x77073096, 0xee0e612c, 0x990951ba, 0x076dc419, 0x706af48f,
   0xe963a535, 0x9e6495a3, 0x0edb8832, 0x79dcb8a4, 0xe0d5e91e, 0x97d2d988,
   0x09b64c2b, 0x7eb17cbd, 0xe7b82d07, 0x90bf1d91, 0x1db71064, 0x6ab020f2,
   0xf3b97148, 0x84be41de, 0x1adad47d, 0x6ddde4eb, 0xf4d4b551, 0x83d385c7,
   0x136c9856, 0x646ba8c0, 0xfd62f97a, 0x8a65c9ec, 0x14015c4f, 0x63066cd9,
   0xfa0f3d63, 0x8d080df5, 0x3b6e20c8, 0x4c69105e, 0xd56041e4, 0xa2677172,
   0x3c03e4d1, 0x4b04d447, 0xd20d85fd, 0xa50ab56b, 0x35b5a8fa, 0x42b2986c,
   0xdbbbc9d6, 0xacbcf940, 0x32d86ce3, 0x45df5c75, 0xdcd60dcf, 0xabd13d59,
   0x26d930ac, 0x51de003a, 0xc8d75180, 0xbfd06116, 0x21b4f4b5, 0x56b3c423,
   0xcfba9599, 0xb8bda50f, 0x2802b89e, 0x5f058808, 0xc60cd9b2, 0xb10be924,
   0x2f6f7c87, 0x58684c11, 0xc1611dab, 0xb6662d3d, 0x76dc4190, 0x01db7106,
   0x98d220bc, 0xefd5102a, 0x71b18589, 0x06b6b51f, 0x9fbfe4a5, 0xe8b8d433,
   0x7807c9a2, 0x0f00f934, 0x9609a88e, 0xe10e9818, 0x7f6a0dbb, 0x086d3d2d,
   0x91646c97, 0xe6635c01, 0x6b6b51f4, 0x1c6c6162, 0x856530d8, 0xf262004e,
   0x6c0695ed, 0x1b01a57b, 0x8208f4c1, 0xf50fc457, 0x65b0d9c6, 0x12b7e950,
   0x8bbeb8ea, 0xfcb9887c, 0x62dd1ddf, 0x15da2d49, 0x8cd37cf3, 0xfbd44c65,
   0x4db26158, 0x3ab551ce, 0xa3bc0074, 0xd4bb30e2, 0x4adfa541, 0x3dd895d7,
   0xa4d1c46d, 0xd3d6f4fb, 0x4369e96a, 0x346ed9fc, 0xad678846, 0xda60b8d0,
   0x44042d73, 0x33031de5, 0xaa0a4c5f, 0xdd0d7cc9, 0x5005713c, 0x270241aa,
   0xbe0b1010, 0xc90c2086, 0x5768b525, 0x206f85b3, 0xb966d409, 0xce61e49f,
   0x5edef90e, 0x29d9c998, 0xb0d09822, 0xc7d7a8b4, 0x59b33d17, 0x2eb40d81,
   0xb7bd5c3b, 0xc0ba6cad, 0xedb88320, 0x9abfb3b6, 0x03b6e20c, 0x74b1d29a,
   0xead54739, 0x9dd277af, 0x04db2615, 0x73dc1683, 0xe3630b12, 0x94643b84,
   0x0d6d6a3e, 0x7a6a5aa8, 0xe40ecf0b, 0x9309ff9d, 0x0a00ae27, 0x7d079eb1,
   0xf00f9344, 0x8708a3d2, 0x1e01f268, 0x6906c2fe, 0xf762575d, 0x806567cb,
   0x196c3671, 0x6e6b06e7, 0xfed41b76, 0x89d32be0, 0x10da7a5a, 0x67dd4acc,
   0xf9b9df6f, 0x8ebeeff9, 0x17b7be43, 0x60b08ed5, 0xd6d6a3e8, 0xa1d1937e,
   0x38d8c2c4, 0x4fdff252, 0xd1bb67f1, 0xa6bc5767, 0x3fb506dd, 0x48b2364b,
   0xd80d2bda, 0xaf0a1b4c, 0x36034af6, 0x41047a60, 0xdf60efc3, 0xa867df55,
   0x316e8eef, 0x4669be79, 0xcb61b38c, 0xbc66831a, 0x256fd2a0, 0x5268e236,
   0xcc0c7795, 0xbb0b4703, 0x220216b9, 0x5505262f, 0xc5ba3bbe, 0xb2bd0b28,
   0x2bb45a92, 0x5cb36a04, 0xc2d7ffa7, 0xb5d0cf31, 0x2cd99e8b, 0x5bdeae1d,
   0x9b64c2b0, 0xec63f226, 0x756aa39c, 0x026d930a, 0x9c0906a9, 0xeb0e363f,
   0x72076785, 0x05005713, 0x95bf4a82, 0xe2b87a14, 0x7bb12bae, 0x0cb61b38,
   0x92d28e9b, 0xe5d5be0d, 0x7cdcefb7, 0x0bdbdf21, 0x86d3d2d4, 0xf1d4e242,
   0x68ddb3f8, 0x1fda836e, 0x81be16cd, 0xf6b9265b, 0x6fb077e1, 0x18b74777,
   0x88085ae6, 0xff0f6a70, 0x66063bca, 0x11010b5c, 0x8f659eff, 0xf862ae69,
   0x616bffd3, 0x166ccf45, 0xa00ae278, 0xd70dd2ee, 0x4e048354, 0x3903b3c2,
   0xa7672661, 0xd06016f7, 0x4969474d, 0x3e6e77db, 0xaed16a4a, 0xd9d65adc,
   0x40df0b66, 0x37d83bf0, 0xa9bcae53, 0xdebb9ec5, 0x47b2cf7f, 0x30b5ffe9,
   0xbdbdf21c, 0xcabac28a, 0x53b39330, 0x24b4a3a6, 0xbad03605, 0xcdd70693,
   0x54de5729, 0x23d967bf, 0xb3667a2e, 0xc4614ab8, 0x5d681b02, 0x2a6f2b94,
   0xb40bbe37, 0xc30c8ea1, 0x5a05df1b, 0x2d02ef8d]"

text \<open>The entries as the source writes them, and as \<^verbatim>\<open>tobe\<close> stores them.\<close>

definition crc32table_be_raw :: "u32 list" where
  "crc32table_be_raw =
  [0x00000000, 0x04c11db7, 0x09823b6e, 0x0d4326d9, 0x130476dc, 0x17c56b6b,
   0x1a864db2, 0x1e475005, 0x2608edb8, 0x22c9f00f, 0x2f8ad6d6, 0x2b4bcb61,
   0x350c9b64, 0x31cd86d3, 0x3c8ea00a, 0x384fbdbd, 0x4c11db70, 0x48d0c6c7,
   0x4593e01e, 0x4152fda9, 0x5f15adac, 0x5bd4b01b, 0x569796c2, 0x52568b75,
   0x6a1936c8, 0x6ed82b7f, 0x639b0da6, 0x675a1011, 0x791d4014, 0x7ddc5da3,
   0x709f7b7a, 0x745e66cd, 0x9823b6e0, 0x9ce2ab57, 0x91a18d8e, 0x95609039,
   0x8b27c03c, 0x8fe6dd8b, 0x82a5fb52, 0x8664e6e5, 0xbe2b5b58, 0xbaea46ef,
   0xb7a96036, 0xb3687d81, 0xad2f2d84, 0xa9ee3033, 0xa4ad16ea, 0xa06c0b5d,
   0xd4326d90, 0xd0f37027, 0xddb056fe, 0xd9714b49, 0xc7361b4c, 0xc3f706fb,
   0xceb42022, 0xca753d95, 0xf23a8028, 0xf6fb9d9f, 0xfbb8bb46, 0xff79a6f1,
   0xe13ef6f4, 0xe5ffeb43, 0xe8bccd9a, 0xec7dd02d, 0x34867077, 0x30476dc0,
   0x3d044b19, 0x39c556ae, 0x278206ab, 0x23431b1c, 0x2e003dc5, 0x2ac12072,
   0x128e9dcf, 0x164f8078, 0x1b0ca6a1, 0x1fcdbb16, 0x018aeb13, 0x054bf6a4,
   0x0808d07d, 0x0cc9cdca, 0x7897ab07, 0x7c56b6b0, 0x71159069, 0x75d48dde,
   0x6b93dddb, 0x6f52c06c, 0x6211e6b5, 0x66d0fb02, 0x5e9f46bf, 0x5a5e5b08,
   0x571d7dd1, 0x53dc6066, 0x4d9b3063, 0x495a2dd4, 0x44190b0d, 0x40d816ba,
   0xaca5c697, 0xa864db20, 0xa527fdf9, 0xa1e6e04e, 0xbfa1b04b, 0xbb60adfc,
   0xb6238b25, 0xb2e29692, 0x8aad2b2f, 0x8e6c3698, 0x832f1041, 0x87ee0df6,
   0x99a95df3, 0x9d684044, 0x902b669d, 0x94ea7b2a, 0xe0b41de7, 0xe4750050,
   0xe9362689, 0xedf73b3e, 0xf3b06b3b, 0xf771768c, 0xfa325055, 0xfef34de2,
   0xc6bcf05f, 0xc27dede8, 0xcf3ecb31, 0xcbffd686, 0xd5b88683, 0xd1799b34,
   0xdc3abded, 0xd8fba05a, 0x690ce0ee, 0x6dcdfd59, 0x608edb80, 0x644fc637,
   0x7a089632, 0x7ec98b85, 0x738aad5c, 0x774bb0eb, 0x4f040d56, 0x4bc510e1,
   0x46863638, 0x42472b8f, 0x5c007b8a, 0x58c1663d, 0x558240e4, 0x51435d53,
   0x251d3b9e, 0x21dc2629, 0x2c9f00f0, 0x285e1d47, 0x36194d42, 0x32d850f5,
   0x3f9b762c, 0x3b5a6b9b, 0x0315d626, 0x07d4cb91, 0x0a97ed48, 0x0e56f0ff,
   0x1011a0fa, 0x14d0bd4d, 0x19939b94, 0x1d528623, 0xf12f560e, 0xf5ee4bb9,
   0xf8ad6d60, 0xfc6c70d7, 0xe22b20d2, 0xe6ea3d65, 0xeba91bbc, 0xef68060b,
   0xd727bbb6, 0xd3e6a601, 0xdea580d8, 0xda649d6f, 0xc423cd6a, 0xc0e2d0dd,
   0xcda1f604, 0xc960ebb3, 0xbd3e8d7e, 0xb9ff90c9, 0xb4bcb610, 0xb07daba7,
   0xae3afba2, 0xaafbe615, 0xa7b8c0cc, 0xa379dd7b, 0x9b3660c6, 0x9ff77d71,
   0x92b45ba8, 0x9675461f, 0x8832161a, 0x8cf30bad, 0x81b02d74, 0x857130c3,
   0x5d8a9099, 0x594b8d2e, 0x5408abf7, 0x50c9b640, 0x4e8ee645, 0x4a4ffbf2,
   0x470cdd2b, 0x43cdc09c, 0x7b827d21, 0x7f436096, 0x7200464f, 0x76c15bf8,
   0x68860bfd, 0x6c47164a, 0x61043093, 0x65c52d24, 0x119b4be9, 0x155a565e,
   0x18197087, 0x1cd86d30, 0x029f3d35, 0x065e2082, 0x0b1d065b, 0x0fdc1bec,
   0x3793a651, 0x3352bbe6, 0x3e119d3f, 0x3ad08088, 0x2497d08d, 0x2056cd3a,
   0x2d15ebe3, 0x29d4f654, 0xc5a92679, 0xc1683bce, 0xcc2b1d17, 0xc8ea00a0,
   0xd6ad50a5, 0xd26c4d12, 0xdf2f6bcb, 0xdbee767c, 0xe3a1cbc1, 0xe760d676,
   0xea23f0af, 0xeee2ed18, 0xf0a5bd1d, 0xf464a0aa, 0xf9278673, 0xfde69bc4,
   0x89b8fd09, 0x8d79e0be, 0x803ac667, 0x84fbdbd0, 0x9abc8bd5, 0x9e7d9662,
   0x933eb0bb, 0x97ffad0c, 0xafb010b1, 0xab710d06, 0xa6322bdf, 0xa2f33668,
   0xbcb4666d, 0xb8757bda, 0xb5365d03, 0xb1f740b4]"

definition crc32table_be :: "u32 list" where
  "crc32table_be = map swab32 crc32table_be_raw"

section \<open>The table driven CRC\<close>

text \<open>The macro \<^verbatim>\<open>DO_CRC\<close>.\<close>

definition DO_CRC :: "u32 list \<Rightarrow> u32 \<Rightarrow> u32 \<Rightarrow> u32" where
  "DO_CRC tab crc x = tab ! unat ((crc XOR x) AND 255) XOR drop_bit 8 crc"

text \<open>The loop up to an aligned address: the address modulo 4 and the bytes that are left.\<close>

fun crc_align :: "u32 list \<Rightarrow> u32 \<Rightarrow> nat \<Rightarrow> u8 list \<Rightarrow> u32 \<times> u8 list" where
  "crc_align tab crc a [] = (crc, [])"
| "crc_align tab crc a (x # xs) =
     (if a mod 4 \<noteq> 0 then crc_align tab (DO_CRC tab crc (ucast x)) (a + 1) xs
      else (crc, x # xs))"

text \<open>A 32 bit load on a little endian machine, and the loop over whole words.\<close>

definition load32 :: "u8 \<Rightarrow> u8 \<Rightarrow> u8 \<Rightarrow> u8 \<Rightarrow> u32" where
  "load32 a b c d =
     ucast a OR push_bit 8 (ucast b) OR push_bit 16 (ucast c) OR push_bit 24 (ucast d)"

fun crc_words :: "u32 list \<Rightarrow> u32 \<Rightarrow> u8 list \<Rightarrow> u32 \<times> u8 list" where
  "crc_words tab crc (a # b # c # d # xs) =
     crc_words tab
       (DO_CRC tab (DO_CRC tab (DO_CRC tab (DO_CRC tab (crc XOR load32 a b c d) 0) 0) 0) 0) xs"
| "crc_words tab crc xs = (crc, xs)"

fun crc_bytes :: "u32 list \<Rightarrow> u32 \<Rightarrow> u8 list \<Rightarrow> u32" where
  "crc_bytes tab crc [] = crc"
| "crc_bytes tab crc (x # xs) = crc_bytes tab (DO_CRC tab crc (ucast x)) xs"

definition crc_run :: "u32 list \<Rightarrow> u32 \<Rightarrow> nat \<Rightarrow> u8 list \<Rightarrow> u32" where
  "crc_run tab crc a p =
     (let (crc, p) = crc_align tab crc a p;
          (crc, p) = crc_words tab crc p
      in crc_bytes tab crc p)"

definition crc32_le :: "nat \<Rightarrow> u32 \<Rightarrow> u8 list \<Rightarrow> u32" where
  "crc32_le a crc p = crc_run crc32table_le crc a p"

definition crc32_be :: "nat \<Rightarrow> u32 \<Rightarrow> u8 list \<Rightarrow> u32" where
  "crc32_be a crc p = swab32 (crc_run crc32table_be (swab32 crc) a p)"

section \<open>The bitwise CRC\<close>

definition crc_be_bit :: "u32 \<Rightarrow> u32" where
  "crc_be_bit crc = push_bit 1 crc XOR (if crc AND 0x80000000 \<noteq> 0 then CRCPOLY_BE else 0)"

definition crc_le_bit :: "u32 \<Rightarrow> u32" where
  "crc_le_bit crc = drop_bit 1 crc XOR (if crc AND 1 \<noteq> 0 then CRCPOLY_LE else 0)"

fun crc32_be_bitwise :: "u32 \<Rightarrow> u8 list \<Rightarrow> u32" where
  "crc32_be_bitwise crc [] = crc"
| "crc32_be_bitwise crc (x # xs) =
     crc32_be_bitwise ((crc_be_bit ^^ 8) (crc XOR push_bit 24 (ucast x))) xs"

fun crc32_le_bitwise :: "u32 \<Rightarrow> u8 list \<Rightarrow> u32" where
  "crc32_le_bitwise crc [] = crc"
| "crc32_le_bitwise crc (x # xs) =
     crc32_le_bitwise ((crc_le_bit ^^ 8) (crc XOR ucast x)) xs"

text \<open>The 32 bit value of four bytes in network order.\<close>

definition be_word :: "u8 \<Rightarrow> u8 \<Rightarrow> u8 \<Rightarrow> u8 \<Rightarrow> u32" where
  "be_word a b c d =
     push_bit 24 (ucast a) OR push_bit 16 (ucast b) OR push_bit 8 (ucast c) OR ucast d"

section \<open>The bit reversal\<close>

definition bitreverse :: "u32 \<Rightarrow> u32" where
  "bitreverse x0 =
     (let x = drop_bit 16 x0 OR push_bit 16 x0;
          x = (drop_bit 8 x AND 0x00ff00ff) OR (push_bit 8 x AND 0xff00ff00);
          x = (drop_bit 4 x AND 0x0f0f0f0f) OR (push_bit 4 x AND 0xf0f0f0f0);
          x = (drop_bit 2 x AND 0x33333333) OR (push_bit 2 x AND 0xcccccccc)
      in (drop_bit 1 x AND 0x55555555) OR (push_bit 1 x AND 0xaaaaaaaa))"

section \<open>The steps on bits\<close>


lemma and_msb: "(x :: u32) AND 0x80000000 \<noteq> 0 \<longleftrightarrow> bit x 31"
  using bit_iff_and_push_bit_not_eq_0 [of x 31] by simp

lemma and_lsb: "(x :: u32) AND 1 \<noteq> 0 \<longleftrightarrow> bit x 0"
  using bit_iff_and_push_bit_not_eq_0 [of x 0] by simp

lemma be_lin: "crc_be_bit (x XOR y) = crc_be_bit x XOR crc_be_bit y"
  unfolding crc_be_bit_def and_msb
  by (rule bit_word_eqI) (auto simp: bit_simps)

lemma le_lin: "crc_le_bit (x XOR y) = crc_le_bit x XOR crc_le_bit y"
  unfolding crc_le_bit_def and_lsb
  by (rule bit_word_eqI) (auto simp: bit_simps)

lemma be_inj: "crc_be_bit x = 0 \<Longrightarrow> x = 0"
proof -
  assume z: "crc_be_bit x = 0"
  have b0: "bit (crc_be_bit x) 0 = bit x 31"
    unfolding crc_be_bit_def and_msb by (simp only: bit_xor_iff bit_push_bit_iff) (simp add: CRCPOLY_BE_def)
  with z have n: "\<not> bit x 31" by simp
  show "x = 0"
  proof (rule bit_word_eqI)
    fix n assume "n < LENGTH(32)"
    then show "bit x n = bit (0::u32) n"
      using n arg_cong [OF z, of "\<lambda>w. bit w (Suc n)"]
      unfolding crc_be_bit_def and_msb bit_xor_iff bit_push_bit_iff
      by (cases "n = 31") auto
  qed
qed

lemma le_inj: "crc_le_bit x = 0 \<Longrightarrow> x = 0"
proof -
  assume z: "crc_le_bit x = 0"
  have b0: "bit (crc_le_bit x) 31 = bit x 0"
    by (auto simp: crc_le_bit_def and_lsb bit_simps CRCPOLY_LE_def dest: bit_imp_le_length)
  with z have n: "\<not> bit x 0" by simp
  show "x = 0"
  proof (rule bit_word_eqI)
    fix n assume "n < LENGTH(32)"
    then show "bit x n = bit (0::u32) n"
      using n arg_cong [OF z, of "\<lambda>w. bit w (n - 1)"]
      unfolding crc_le_bit_def and_lsb bit_xor_iff bit_drop_bit_eq
      by (cases "n = 0") auto
  qed
qed

lemma bit_255: "bit (255 :: int) n \<longleftrightarrow> n < 8"
proof -
  have "(255 :: int) = mask 8" by (simp add: mask_eq_exp_minus_1)
  then show ?thesis by (simp only: bit_mask_iff) simp
qed

lemma DO_CRC_word: "DO_CRC tab (c XOR v) 0 = DO_CRC tab c (v AND 255) XOR drop_bit 8 v"
proof -
  have "(c XOR v XOR 0) AND 255 = (c XOR (v AND 255)) AND (255 :: u32)"
    by (rule bit_word_eqI) (auto simp: bit_simps)
  then show ?thesis by (simp add: DO_CRC_def xor.assoc drop_bit_xor)
qed

lemma crc_words_step:
  "DO_CRC tab (DO_CRC tab (DO_CRC tab (DO_CRC tab (crc XOR load32 a b c d) 0) 0) 0) 0 =
   DO_CRC tab (DO_CRC tab (DO_CRC tab (DO_CRC tab crc (ucast a)) (ucast b)) (ucast c)) (ucast d)"
proof -
  have 1: "load32 a b c d AND 255 = ucast a"
    and 2: "drop_bit 8 (load32 a b c d) AND 255 = ucast b"
    and 3: "drop_bit 16 (load32 a b c d) AND 255 = ucast c"
    and 4: "drop_bit 24 (load32 a b c d) AND 255 = ucast d"
    and 5: "drop_bit 32 (load32 a b c d) = 0"
    unfolding load32_def atomize_conj
    by (intro conjI; rule bit_word_eqI) (auto simp: bit_simps bit_255 dest: bit_imp_le_length)
  show ?thesis by (simp add: DO_CRC_word 1 2 3 4 5)
qed

lemma crc_words_eq:
  "crc_words tab crc xs = (crc', ys) \<Longrightarrow> crc_bytes tab crc' ys = crc_bytes tab crc xs"
  by (induction tab crc xs rule: crc_words.induct) (auto simp: crc_words_step)

lemma crc_align_eq:
  "crc_align tab crc a xs = (crc', ys) \<Longrightarrow> crc_bytes tab crc' ys = crc_bytes tab crc xs"
  by (induction tab crc a xs rule: crc_align.induct) (auto split: if_splits)

lemma crc_run_eq: "crc_run tab crc a p = crc_bytes tab crc p"
proof -
  obtain c1 p1 where 1: "crc_align tab crc a p = (c1, p1)" by fastforce
  obtain c2 p2 where 2: "crc_words tab c1 p1 = (c2, p2)" by fastforce
  show ?thesis
    using crc_align_eq [OF 1] crc_words_eq [OF 2] by (simp add: crc_run_def 1 2)
qed

lemma bit_ff00: "bit (0xff00 :: int) n \<longleftrightarrow> 8 \<le> n \<and> n < 16"
proof -
  have "(0xff00 :: int) = push_bit 8 (mask 8)" by (simp add: mask_eq_exp_minus_1)
  then show ?thesis by (simp only: bit_mask_iff bit_push_bit_iff_int) auto
qed

lemma bit_ff0000: "bit (0xff0000 :: int) n \<longleftrightarrow> 16 \<le> n \<and> n < 24"
proof -
  have "(0xff0000 :: int) = push_bit 16 (mask 8)" by (simp add: mask_eq_exp_minus_1)
  then show ?thesis by (simp only: bit_mask_iff bit_push_bit_iff_int) auto
qed

lemma bit_ff000000: "bit (0xff000000 :: int) n \<longleftrightarrow> 24 \<le> n \<and> n < 32"
proof -
  have "(0xff000000 :: int) = push_bit 24 (mask 8)" by (simp add: mask_eq_exp_minus_1)
  then show ?thesis by (simp only: bit_mask_iff bit_push_bit_iff_int) auto
qed

lemma bit_swab32_gen:
  "n < 32 \<Longrightarrow> bit (swab32 x) n =
     ((24 \<le> n \<and> bit x (n - 24) \<and> n - 24 < 8) \<or> (8 \<le> n \<and> bit x (n - 8) \<and> 8 \<le> n - 8 \<and> n - 8 < 16) \<or>
      (bit x (8 + n) \<and> 16 \<le> 8 + n \<and> 8 + n < 24) \<or> (bit x (24 + n) \<and> 24 \<le> 24 + n \<and> 24 + n < 32))"
  unfolding swab32_def
  by (simp add: bit_or_iff bit_and_iff bit_push_bit_iff bit_drop_bit_eq bit_simps bit_255 bit_ff00 bit_ff0000 bit_ff000000) auto

lemma bit_swab32:
  assumes "k < 8"
  shows "bit (swab32 x) k = bit x (k + 24)" "bit (swab32 x) (k + 8) = bit x (k + 16)"
    "bit (swab32 x) (k + 16) = bit x (k + 8)" "bit (swab32 x) (k + 24) = bit x k"
  using assms by (simp_all add: bit_swab32_gen add.commute)

lemma bytes_eqI:
  assumes "\<And>k. k < 8 \<Longrightarrow> bit (x :: u32) k = bit y k"
    "\<And>k. k < 8 \<Longrightarrow> bit x (k + 8) = bit y (k + 8)"
    "\<And>k. k < 8 \<Longrightarrow> bit x (k + 16) = bit y (k + 16)"
    "\<And>k. k < 8 \<Longrightarrow> bit x (k + 24) = bit y (k + 24)"
  shows "x = y"
proof (rule bit_word_eqI)
  fix n assume n: "n < LENGTH(32)"
  consider "n < 8" | "8 \<le> n" "n - 8 < 8" | "16 \<le> n" "n - 16 < 8" | "24 \<le> n" "n - 24 < 8"
    using n by fastforce
  then show "bit x n = bit y n"
    using assms(1) [of n] assms(2) [of "n - 8"] assms(3) [of "n - 16"] assms(4) [of "n - 24"]
    by cases simp_all
qed

lemma swab32_swab32 [simp]: "swab32 (swab32 x) = x"
  by (rule bytes_eqI) (simp_all add: bit_swab32)

lemma swab32_xor: "swab32 (x XOR y) = swab32 x XOR swab32 y"
  by (rule bytes_eqI) (simp_all add: bit_swab32 bit_xor_iff)

lemma bit_big: "32 \<le> n \<Longrightarrow> \<not> bit (x :: u32) n"
  by (auto dest: bit_imp_le_length)

lemma swab32_drop8: "swab32 (drop_bit 8 x) = push_bit 8 (swab32 x)"
proof (rule bytes_eqI)
  fix k :: nat assume k: "k < 8"
  have d: "bit (drop_bit 8 x) n = bit x (n + 8)" for n by (simp add: bit_drop_bit_eq add.commute)
  have e: "k + 24 + 8 = k + 32" "k + 16 + 8 = k + 24" "k + 8 + 8 = k + 16" by simp_all
  have p: "bit (push_bit 8 (swab32 x)) (n + 8) = bit (swab32 x) n" if "n < 24" for n
    using that by (simp add: bit_push_bit_iff)
  show "bit (swab32 (drop_bit 8 x)) k = bit (push_bit 8 (swab32 x)) k"
    using k by (simp only: bit_swab32 d e) (simp add: bit_push_bit_iff bit_big)
  show "bit (swab32 (drop_bit 8 x)) (k + 8) = bit (push_bit 8 (swab32 x)) (k + 8)"
    using k p [of k] by (simp only: bit_swab32 d e)
  show "bit (swab32 (drop_bit 8 x)) (k + 16) = bit (push_bit 8 (swab32 x)) (k + 16)"
    using k p [of "k + 8"] by (simp only: bit_swab32 d e)
  show "bit (swab32 (drop_bit 8 x)) (k + 24) = bit (push_bit 8 (swab32 x)) (k + 24)"
    using k p [of "k + 16"] by (simp only: bit_swab32 d e)
qed

lemma swab32_split: "swab32 c XOR push_bit 24 (ucast (x :: u8)) =
   push_bit 24 ((c XOR ucast x) AND 255) XOR (swab32 c AND mask 24)"
  by (rule bytes_eqI) (simp_all add: bit_swab32 bit_push_bit_iff bit_simps bit_255 bit_ff000000)

lemma push_mask: "push_bit 8 (y AND mask 24) = push_bit 8 (y :: u32)"
  by (rule bit_word_eqI) (auto simp: bit_simps)

lemma be_pow_lin: "(crc_be_bit ^^ n) (x XOR y) = (crc_be_bit ^^ n) x XOR (crc_be_bit ^^ n) y"
  by (induction n) (simp_all add: be_lin)

lemma le_pow_lin: "(crc_le_bit ^^ n) (x XOR y) = (crc_le_bit ^^ n) x XOR (crc_le_bit ^^ n) y"
  by (induction n) (simp_all add: le_lin)

lemma be_pow_shift: "(\<forall>k. 32 - n \<le> k \<longrightarrow> \<not> bit y k) \<Longrightarrow> (crc_be_bit ^^ n) y = push_bit n y"
proof (induction n)
  case (Suc n)
  then have *: "(crc_be_bit ^^ n) y = push_bit n y" by (simp add: le_diff_conv)
  have "\<not> bit (push_bit n y) 31"
    using Suc.prems by (auto simp: bit_push_bit_iff)
  then show ?case by (simp only: funpow.simps comp_apply *) (simp add: crc_be_bit_def and_msb push_bit_push_bit del: push_bit_Suc)
qed simp

lemma le_pow_shift: "(\<forall>k. k < n \<longrightarrow> \<not> bit y k) \<Longrightarrow> (crc_le_bit ^^ n) y = drop_bit n y"
proof (induction n)
  case (Suc n)
  then have *: "(crc_le_bit ^^ n) y = drop_bit n y" by simp
  have "\<not> bit (drop_bit n y) 0"
    using Suc.prems by (auto simp: bit_drop_bit_eq)
  then show ?case by (simp only: funpow.simps comp_apply *) (simp add: crc_le_bit_def and_lsb drop_bit_drop_bit del: drop_bit_Suc)
qed simp

fun pairs_ok :: "('a \<Rightarrow> 'a \<Rightarrow> 'a \<Rightarrow> bool) \<Rightarrow> 'a list \<Rightarrow> 'a list \<Rightarrow> bool" where
  "pairs_ok P (x # xs) (y # z # zs) = (P x y z \<and> pairs_ok P xs zs)"
| "pairs_ok P xs ys = (ys = [])"

lemma pairs_ok_nth:
  "pairs_ok P xs ys \<Longrightarrow> i < length xs \<Longrightarrow> 2 * i + 1 < length ys \<Longrightarrow>
   P (xs ! i) (ys ! (2 * i)) (ys ! (2 * i + 1))"
  by (induction P xs ys arbitrary: i rule: pairs_ok.induct) (auto simp: nth_Cons' numeral_eq_Suc less_Suc_eq_0_disj)

lemma be_table_pairs:
  "pairs_ok (\<lambda>x y z. y = crc_be_bit x \<and> z = y XOR CRCPOLY_BE) crc32table_be_raw crc32table_be_raw"
  by (simp add: crc32table_be_raw_def crc_be_bit_def CRCPOLY_BE_def)

lemma le_table_pairs:
  "pairs_ok (\<lambda>x y z. crc_le_bit y = x \<and> z = y XOR 0x77073096) crc32table_le crc32table_le"
  by (simp add: crc32table_le_def crc_le_bit_def CRCPOLY_LE_def)

section \<open>The tables\<close>


lemma funpow_8: "(f ^^ 8) x = f (f (f (f (f (f (f (f x)))))))"
  by (simp add: eval_nat_numeral)

lemma be_pow_1: "(crc_be_bit ^^ 8) (push_bit 24 1) = CRCPOLY_BE"
  unfolding funpow_8 by (simp add: crc_be_bit_def CRCPOLY_BE_def)

lemma le_pow_1: "(crc_le_bit ^^ 8) 1 = 0x77073096"
  unfolding funpow_8 by (simp add: crc_le_bit_def CRCPOLY_LE_def)

lemma of_nat_odd: "(of_nat (2 * j + 1) :: u32) = of_nat (2 * j) XOR 1"
  by (simp add: xor_one_eq)

lemma not_bit_small: "j < 2 ^ n \<Longrightarrow> n \<le> k \<Longrightarrow> \<not> bit (of_nat j :: u32) k"
proof -
  assume "j < 2 ^ n" "n \<le> k"
  then have "j < 2 ^ k" by (meson less_le_trans one_le_numeral power_increasing)
  then have "\<not> bit j k" by (simp add: bit_iff_odd)
  then show ?thesis by (simp add: bit_of_nat_iff)
qed

lemma be_dbl: "j < 128 \<Longrightarrow> push_bit 24 (of_nat (2 * j) :: u32) = crc_be_bit (push_bit 24 (of_nat j))"
proof -
  assume "j < 128"
  then have "\<not> bit (push_bit 24 (of_nat j :: u32)) 31"
    using not_bit_small [of j 7 7] by (simp only: bit_push_bit_iff) simp
  then have "crc_be_bit (push_bit 24 (of_nat j)) = push_bit 1 (push_bit 24 (of_nat j))"
    by (simp only: crc_be_bit_def and_msb if_False xor.right_neutral)
  then show ?thesis by (simp add: push_bit_eq_mult)
qed

lemma le_dbl: "j < 128 \<Longrightarrow> crc_le_bit (of_nat (2 * j)) = of_nat j"
proof -
  assume j: "j < 128"
  have "crc_le_bit (of_nat (2 * j)) = drop_bit 1 (of_nat (2 * j) :: u32)"
    by (simp add: crc_le_bit_def and_lsb bit_0)
  also have "\<dots> = of_nat j"
  proof (rule bit_word_eqI)
    fix n assume "n < LENGTH(32)"
    moreover have "bit (2 * j) (1 + n) = bit j n" by (simp add: bit_double_iff)
    ultimately show "bit (drop_bit 1 (of_nat (2 * j) :: u32)) n = bit (of_nat j :: u32) n"
      using not_bit_small [of j 7 31] j
      by (cases "n = 31") (auto simp del: of_nat_mult simp: bit_drop_bit_eq bit_of_nat_iff bit_big)
  qed
  finally show ?thesis .
qed

lemma be_table_nth: "i < 256 \<Longrightarrow> crc32table_be_raw ! i = (crc_be_bit ^^ 8) (push_bit 24 (of_nat i))"
proof (induction i rule: less_induct)
  case (less i)
  have len: "length crc32table_be_raw = 256" and z: "crc32table_be_raw ! 0 = 0"
    by (simp_all add: crc32table_be_raw_def)
  define j where "j = i div 2"
  have i: "i = 2 * j \<or> i = 2 * j + 1" and j: "j < 128" using less.prems by (auto simp: j_def)
  have pair: "crc32table_be_raw ! (2 * j) = crc_be_bit (crc32table_be_raw ! j)"
    "crc32table_be_raw ! (2 * j + 1) = crc32table_be_raw ! (2 * j) XOR CRCPOLY_BE"
    using pairs_ok_nth [OF be_table_pairs, of j] j len by auto
  have even: "crc32table_be_raw ! (2 * j) = (crc_be_bit ^^ 8) (push_bit 24 (of_nat (2 * j)))"
  proof (cases "j = 0")
    case True
    then show ?thesis using z be_pow_shift [of 8 0] by simp
  next
    case False
    then have "j < i" using i by auto
    from less.IH [OF this] j show ?thesis by (simp only: pair be_dbl funpow_swap1)
  qed
  show ?case
    using i
  proof
    assume "i = 2 * j" then show ?thesis using even by simp
  next
    assume "i = 2 * j + 1"
    then show ?thesis using even by (simp only: pair of_nat_odd push_bit_xor be_pow_lin be_pow_1)
  qed
qed

lemma le_eqI: "crc_le_bit x = crc_le_bit y \<Longrightarrow> x = y"
  using le_inj [of "x XOR y"] by (simp add: le_lin xor_eq_0)

lemma le_table_nth: "i < 256 \<Longrightarrow> crc32table_le ! i = (crc_le_bit ^^ 8) (of_nat i)"
proof (induction i rule: less_induct)
  case (less i)
  have len: "length crc32table_le = 256" and z: "crc32table_le ! 0 = 0"
    by (simp_all add: crc32table_le_def)
  define j where "j = i div 2"
  have i: "i = 2 * j \<or> i = 2 * j + 1" and j: "j < 128" using less.prems by (auto simp: j_def)
  have pair: "crc_le_bit (crc32table_le ! (2 * j)) = crc32table_le ! j"
    "crc32table_le ! (2 * j + 1) = crc32table_le ! (2 * j) XOR 0x77073096"
    using pairs_ok_nth [OF le_table_pairs, of j] j len by auto
  have even: "crc32table_le ! (2 * j) = (crc_le_bit ^^ 8) (of_nat (2 * j))"
  proof (cases "j = 0")
    case True
    then show ?thesis using z le_pow_shift [of 8 0] by simp
  next
    case False
    then have "j < i" using i by auto
    from less.IH [OF this] j have IH: "crc32table_le ! j = (crc_le_bit ^^ 8) (of_nat j)" by simp
    have "crc_le_bit ((crc_le_bit ^^ 8) (of_nat (2 * j))) = (crc_le_bit ^^ 8) (of_nat j)"
      by (simp only: funpow_swap1 [of crc_le_bit 8] le_dbl [OF j])
    then have "crc_le_bit (crc32table_le ! (2 * j)) = crc_le_bit ((crc_le_bit ^^ 8) (of_nat (2 * j)))"
      using pair(1) IH by (simp only:)
    then show ?thesis by (rule le_eqI)
  qed
  show ?case
    using i
  proof
    assume "i = 2 * j" then show ?thesis using even by simp
  next
    assume "i = 2 * j + 1"
    then show ?thesis using even by (simp only: pair of_nat_odd le_pow_lin le_pow_1)
  qed
qed

lemma tab_index: "push_bit n (of_nat (unat (v AND 255)) :: u32) = push_bit n (v AND 255)"
  by simp

lemma index_less: "unat ((v :: u32) AND 255) < 256"
proof -
  have "v AND 255 \<le> 255" by (rule word_and_le1)
  then show ?thesis by (simp add: word_le_nat_alt)
qed

lemma DO_CRC_be:
  "swab32 (DO_CRC crc32table_be c (ucast (x :: u8))) = (crc_be_bit ^^ 8) (swab32 c XOR push_bit 24 (ucast x))"
proof -
  define v where "v = (c XOR ucast x) AND 255"
  have len: "length crc32table_be_raw = 256" by (simp add: crc32table_be_raw_def)
  have i: "unat v < 256" unfolding v_def by (rule index_less)
  have s: "(crc_be_bit ^^ 8) (swab32 c AND mask 24) = push_bit 8 (swab32 c)"
    by (subst be_pow_shift) (auto simp: bit_simps push_mask simp del: push_bit_and)
  show ?thesis
    using i len unfolding swab32_split be_pow_lin s
    by (simp add: DO_CRC_def v_def [symmetric] crc32table_be_def swab32_xor swab32_drop8 be_table_nth)
qed

lemma DO_CRC_le:
  "DO_CRC crc32table_le c (ucast (x :: u8)) = (crc_le_bit ^^ 8) (c XOR ucast x)"
proof -
  define v where "v = (c XOR ucast x) AND 255"
  have i: "unat v < 256" unfolding v_def by (rule index_less)
  have h: "bit x n \<Longrightarrow> n < 8" for n by (auto dest: bit_imp_le_length)
  have c: "c XOR ucast x = v XOR push_bit 8 (drop_bit 8 c)"
    unfolding v_def by (rule bit_word_eqI) (auto simp: bit_simps bit_255 dest: h)
  have h2: "bit c (8 + n) \<Longrightarrow> n < 24" for n by (auto dest: bit_imp_le_length)
  have s: "(crc_le_bit ^^ 8) (push_bit 8 (drop_bit 8 c)) = drop_bit 8 c"
    by (subst le_pow_shift) (auto simp: bit_simps dest: h2 intro!: bit_word_eqI)
  show ?thesis
    unfolding c le_pow_lin s using i
    by (simp add: DO_CRC_def v_def [symmetric] le_table_nth)
qed

section \<open>The algebra of a bitwise CRC\<close>



lemma DO_CRC_be_run: "swab32 (crc_bytes crc32table_be c p) = crc32_be_bitwise (swab32 c) p"
  by (induction p arbitrary: c) (simp_all add: DO_CRC_be)

lemma DO_CRC_le_run: "crc_bytes crc32table_le c p = crc32_le_bitwise c p"
  by (induction p arbitrary: c) (simp_all add: DO_CRC_le)

locale bitwise_crc =
  fixes bit1 :: "u32 \<Rightarrow> u32" and place :: "nat \<Rightarrow> u8 \<Rightarrow> u32" and run :: "u32 \<Rightarrow> u8 list \<Rightarrow> u32"
  assumes bit1_xor: "bit1 (x XOR y) = bit1 x XOR bit1 y"
    and bit1_eq_0: "bit1 x = 0 \<Longrightarrow> x = 0"
    and place_xor: "place k (a XOR b) = place k a XOR place k b"
    and place_slide: "k < 3 \<Longrightarrow> (bit1 ^^ 8) (place (Suc k) a) = place k a"
    and place_eq_0: "place 0 a XOR place 1 b XOR place 2 c XOR place 3 d = 0 \<Longrightarrow>
        a = 0 \<and> b = 0 \<and> c = 0 \<and> d = 0"
    and run_Nil: "run r [] = r"
    and run_Cons: "run r (a # p) = run ((bit1 ^^ 8) (r XOR place 0 a)) p"
begin

definition word_of :: "u8 \<Rightarrow> u8 \<Rightarrow> u8 \<Rightarrow> u8 \<Rightarrow> u32" where
  "word_of a b c d = place 0 a XOR place 1 b XOR place 2 c XOR place 3 d"

lemma pow_xor: "(bit1 ^^ n) (x XOR y) = (bit1 ^^ n) x XOR (bit1 ^^ n) y"
  by (induction n) (simp_all add: bit1_xor)

lemma pow_eq_0: "(bit1 ^^ n) x = 0 \<Longrightarrow> x = 0"
  by (induction n) (auto dest: bit1_eq_0)

lemma pow_0 [simp]: "(bit1 ^^ n) 0 = 0"
  using pow_xor [of n 0 0] by simp

lemma pow_inj: "(bit1 ^^ n) x = (bit1 ^^ n) y \<Longrightarrow> x = y"
  using pow_eq_0 [of n "x XOR y"] by (simp add: pow_xor xor_eq_0)

lemma run_append: "run c (p @ q) = run (run c p) q"
  by (induction p arbitrary: c) (simp_all add: run_Nil run_Cons)

lemma run_inj: "run c p = run c' p \<Longrightarrow> c = c'"
proof (induction p arbitrary: c c')
  case (Cons a p)
  from Cons.prems have "(bit1 ^^ 8) (c XOR place 0 a) = (bit1 ^^ 8) (c' XOR place 0 a)"
    unfolding run_Cons by (rule Cons.IH)
  from pow_inj [OF this] show ?case by (simp only: xor_right_cancel)
qed (simp add: run_Nil)

lemma run_4: "run c [x, y, z, w] = (bit1 ^^ 32) (c XOR word_of x y z w)"
proof -
  let ?b = "bit1 ^^ 8"
  have 1: "place 0 y = ?b (place 1 y)" "place 0 z = ?b (?b (place 2 z))"
    "place 0 w = ?b (?b (?b (place 3 w)))"
    using place_slide [of 0] place_slide [of 1] place_slide [of 2]
    by (simp_all add: numeral_2_eq_2 numeral_3_eq_3)
  have 2: "(bit1 ^^ 32) v = ?b (?b (?b (?b v)))" for v
    by (simp flip: funpow_add comp_apply [of "bit1 ^^ _" "bit1 ^^ _"] )
  show ?thesis
    unfolding run_Cons run_Nil 2 word_of_def 1
    by (simp only: pow_xor xor.assoc)
qed

lemma run_checksum: "run c (p @ [x, y, z, w]) = 0 \<longleftrightarrow> word_of x y z w = run c p"
proof -
  have "run c (p @ [x, y, z, w]) = 0 \<longleftrightarrow> run c p XOR word_of x y z w = 0"
    unfolding run_append run_4 by (rule iffI, erule pow_eq_0) (simp only: pow_0)
  also have "\<dots> \<longleftrightarrow> run c p = word_of x y z w"
    by (rule xor_eq_0)
  finally show ?thesis by (simp only: eq_commute [of "word_of x y z w"])
qed

lemma word_of_xor:
  "word_of a b c d XOR word_of a' b' c' d' = word_of (a XOR a') (b XOR b') (c XOR c') (d XOR d')"
  unfolding word_of_def place_xor by (simp only: ac_simps)

lemma word_of_inj:
  assumes "word_of a b c d = word_of a' b' c' d'"
  shows "a = a' \<and> b = b' \<and> c = c' \<and> d = d'"
proof -
  have "word_of (a XOR a') (b XOR b') (c XOR c') (d XOR d') = 0"
    using assms by (simp flip: word_of_xor)
  then show ?thesis
    using place_eq_0 [of "a XOR a'" "b XOR b'" "c XOR c'" "d XOR d'"] unfolding word_of_def xor_eq_0 by blast
qed

lemma run_burst:
  assumes "length v = 4" "length w = 4" "run c (p @ v @ s) = run c (p @ w @ s)"
  shows "v = w"
proof -
  obtain a b d e where v: "v = [a, b, d, e]" using assms(1) by (rule length_4E)
  obtain a' b' d' e' where w: "w = [a', b', d', e']" using assms(2) by (rule length_4E)
  have "run (run c p) v = run (run c p) w"
    using assms(3) unfolding run_append by (rule run_inj)
  then have "run c p XOR word_of a b d e = run c p XOR word_of a' b' d' e'"
    unfolding v w run_4 by (rule pow_inj)
  then have "word_of a b d e = word_of a' b' d' e'"
    by (simp only: xor_left_cancel)
  then show ?thesis unfolding v w by (auto dest: word_of_inj)
qed

end

definition be_place :: "nat \<Rightarrow> u8 \<Rightarrow> u32" where
  "be_place k a = push_bit (24 - 8 * k) (ucast a)"

definition le_place :: "nat \<Rightarrow> u8 \<Rightarrow> u32" where
  "le_place k a = push_bit (8 * k) (ucast a)"

lemma byte_bits: "bit (a :: u8) n \<Longrightarrow> n < 8"
  by (auto dest: bit_imp_le_length)

lemma byte_high: "8 \<le> n \<Longrightarrow> \<not> bit (a :: u8) n"
  using byte_bits by fastforce

lemma be_place_bytes:
  assumes "k < 8" and w: "w = be_place 0 a XOR be_place 1 b XOR be_place 2 c XOR be_place 3 d"
  shows "bit w (k + 24) = bit a k" "bit w (k + 16) = bit b k"
    "bit w (k + 8) = bit c k" "bit w k = bit d k"
  using assms
  by (auto simp: w be_place_def bit_xor_iff bit_push_bit_iff bit_ucast_iff byte_high)

lemma le_place_bytes:
  assumes "k < 8" and w: "w = le_place 0 a XOR le_place 1 b XOR le_place 2 c XOR le_place 3 d"
  shows "bit w (k + 24) = bit d k" "bit w (k + 16) = bit c k"
    "bit w (k + 8) = bit b k" "bit w k = bit a k"
  using assms
  by (auto simp: w le_place_def bit_xor_iff bit_push_bit_iff bit_ucast_iff byte_high)

lemma byte_eq_0I: "(\<And>k. k < 8 \<Longrightarrow> \<not> bit (a :: u8) k) \<Longrightarrow> a = 0"
  by (rule bit_word_eqI) simp

interpretation be: bitwise_crc crc_be_bit be_place crc32_be_bitwise
proof
  show "crc_be_bit (x XOR y) = crc_be_bit x XOR crc_be_bit y" for x y by (rule be_lin)
  show "crc_be_bit x = 0 \<Longrightarrow> x = 0" for x by (rule be_inj)
  show "be_place k (a XOR b) = be_place k a XOR be_place k b" for k a b
    unfolding be_place_def by (rule bit_word_eqI) (auto simp: bit_simps)
  show "(crc_be_bit ^^ 8) (be_place (Suc k) a) = be_place k a" if "k < 3" for k a
  proof -
    have "\<not> bit (be_place (Suc k) a) n" if "24 \<le> n" for n
      using that \<open>k < 3\<close> byte_bits [of a "n - (24 - 8 * Suc k)"]
      by (auto simp: be_place_def bit_push_bit_iff bit_ucast_iff)
    then have "(crc_be_bit ^^ 8) (be_place (Suc k) a) = push_bit 8 (be_place (Suc k) a)"
      by (intro be_pow_shift) auto
    also have "8 + (24 - 8 * Suc k) = 24 - 8 * k" using \<open>k < 3\<close> by simp
    then have "push_bit 8 (be_place (Suc k) a) = be_place k a"
      by (simp only: be_place_def push_bit_push_bit)
    finally show ?thesis .
  qed
  show "a = 0 \<and> b = 0 \<and> c = 0 \<and> d = 0"
    if "be_place 0 a XOR be_place 1 b XOR be_place 2 c XOR be_place 3 d = 0" for a b c d
    using be_place_bytes [OF _ that [symmetric]]
    by (auto intro!: byte_eq_0I)
qed (simp_all add: be_place_def)

interpretation le: bitwise_crc crc_le_bit le_place crc32_le_bitwise
proof
  show "crc_le_bit (x XOR y) = crc_le_bit x XOR crc_le_bit y" for x y by (rule le_lin)
  show "crc_le_bit x = 0 \<Longrightarrow> x = 0" for x by (rule le_inj)
  show "le_place k (a XOR b) = le_place k a XOR le_place k b" for k a b
    unfolding le_place_def by (rule bit_word_eqI) (auto simp: bit_simps)
  show "(crc_le_bit ^^ 8) (le_place (Suc k) a) = le_place k a" if "k < 3" for k a
  proof -
    have "(crc_le_bit ^^ 8) (le_place (Suc k) a) = drop_bit 8 (le_place (Suc k) a)"
      by (intro le_pow_shift) (auto simp: le_place_def bit_push_bit_iff)
    also have "\<dots> = le_place k a"
    proof (rule bit_word_eqI)
      fix n assume "n < LENGTH(32)"
      then show "bit (drop_bit 8 (le_place (Suc k) a)) n = bit (le_place k a) n"
        using \<open>k < 3\<close> byte_bits [of a "n - 8 * k"]
        by (auto simp: le_place_def bit_drop_bit_eq bit_push_bit_iff bit_ucast_iff)
    qed
    finally show ?thesis .
  qed
  show "a = 0 \<and> b = 0 \<and> c = 0 \<and> d = 0"
    if "le_place 0 a XOR le_place 1 b XOR le_place 2 c XOR le_place 3 d = 0" for a b c d
    using le_place_bytes [OF _ that [symmetric]]
    by (auto intro!: byte_eq_0I)
qed (simp_all add: le_place_def)

lemma be_word_place: "be_word a b c d = be.word_of a b c d"
  by (rule bytes_eqI)
    (simp_all add: be_place_bytes [OF _ be.word_of_def] be_word_def bit_or_iff bit_push_bit_iff
      bit_ucast_iff byte_high)

lemma crc32_be_eq: "crc32_be a crc p = crc32_be_bitwise crc p"
  by (simp add: crc32_be_def crc_run_eq DO_CRC_be_run)

lemma crc32_le_eq: "crc32_le a crc p = crc32_le_bitwise crc p"
  by (simp add: crc32_le_def crc_run_eq DO_CRC_le_run)

text \<open>\<^verbatim>\<open>bitreverse\<close>, bit by bit.\<close>

lemma less_32: "n < 32 \<Longrightarrow> n \<in> {0, 1, 2, 3, 4, 5, 6, 7, 8, 9, 10, 11, 12, 13, 14, 15,
     16, 17, 18, 19, 20, 21, 22, 23, 24, 25, 26, 27, 28, 29, 30, 31 :: nat}"
  by (simp, presburger)

lemma bitreverse_bit: "n < 32 \<Longrightarrow> bit (bitreverse x) n = bit x (31 - n)"
  apply (drule less_32)
  unfolding bitreverse_def Let_def bit_or_iff bit_and_iff bit_push_bit_iff bit_drop_bit_eq
  apply (elim insertE emptyE)
                                  apply (simp_all only:)
                                apply (simp_all add: bit_big)
  done

section \<open>Properties\<close>

text \<open>C36: The table driven \<^verbatim>\<open>crc32_be\<close> and \<^verbatim>\<open>crc32_le\<close>, with their walk to an
  aligned address, their 32 bit loads and their tail loop, compute the bitwise CRC of the
  polynomials \<^verbatim>\<open>CRCPOLY_BE\<close> and \<^verbatim>\<open>CRCPOLY_LE\<close>: for every buffer, every seed and every
  alignment of the buffer.\<close>

theorem crc32_table_driven:
  "crc32_be a crc p = crc32_be_bitwise crc p \<and> crc32_le a crc p = crc32_le_bitwise crc p"
  by (simp add: crc32_be_eq crc32_le_eq)

text \<open>A message followed by four bytes has the CRC 0 exactly when these bytes are the CRC
  of the message in network order, whatever the two buffers' alignments.\<close>

theorem crc32_be_residue:
  "crc32_be a crc (p @ [w, x, y, z]) = 0 \<longleftrightarrow> be_word w x y z = crc32_be a' crc p"
  unfolding crc32_be_eq be_word_place by (rule be.run_checksum)

text \<open>Damage confined to four consecutive bytes never goes unseen: two buffers that
  differ there and nowhere else have different CRCs.\<close>

theorem crc32_be_burst:
  assumes "length v = 4" "length w = 4" "v \<noteq> w"
  shows "crc32_be a crc (p @ v @ s) \<noteq> crc32_be a' crc (p @ w @ s)"
  using assms be.run_burst [of v w crc p s] by (auto simp: crc32_be_eq)

theorem crc32_be_burst_witness:
  "crc32_be 0 0 ([] @ [1, 2, 3, 4] @ [7]) \<noteq> crc32_be 1 0 ([] @ [1, 2, 3, 5] @ [7])"
  by (rule crc32_be_burst) simp_all

text \<open>Reversing the bits of a word twice gives it back: \<^verbatim>\<open>bitreverse\<close> moves bit
  \<open>n\<close> to bit \<open>31 - n\<close>.\<close>

theorem bitreverse_involution:
  "bitreverse (bitreverse x) = x \<and> (\<forall>n. bit (bitreverse x) n = (n < 32 \<and> bit x (31 - n)))"
proof
  show "bitreverse (bitreverse x) = x"
    by (rule bit_word_eqI) (simp add: bitreverse_bit)
  show "\<forall>n. bit (bitreverse x) n = (n < 32 \<and> bit x (31 - n))"
    by (meson bit_big bitreverse_bit not_le_imp_less)
qed

end
