(* ===== verification/Psi.thy ===== *)
theory Psi
  imports Ts Crc32
begin

text \<open>
  \<^verbatim>\<open>psi.c\<close>: sections of program specific information, their reassembly from transport
  stream packets, their segmentation into packets, and the table of the sections seen.

  A section is a record with the fields of \<^verbatim>\<open>struct psisec_s\<close>; its data is a list of
  \<^verbatim>\<open>PSI_MAX_SIZE\<close> bytes and its counters are \<open>unsigned int\<close>s, whose
  subtraction wraps (\<open>usub32\<close>).  The operations that copy bytes return \<open>None\<close> when
  the C code would access memory outside of the section's data or of the readable bytes of
  the packet buffer.
\<close>

section \<open>Sections\<close>

definition PSI_MAX_SIZE :: nat where "PSI_MAX_SIZE = 4096"

definition PSI_HDR_LEN :: nat where "PSI_HDR_LEN = 8"

definition CRC32_LEN :: nat where "CRC32_LEN = 4"

definition PSI_SECTION_MAX :: nat where "PSI_SECTION_MAX = 255"

definition PSI_RC_OK :: int where "PSI_RC_OK = 0"

definition PSI_RC_TEI :: int where "PSI_RC_TEI = -1"

definition PSI_RC_NOPAYLOAD :: int where "PSI_RC_NOPAYLOAD = -2"

definition PSI_RC_INCOMPLETE :: int where "PSI_RC_INCOMPLETE = -3"

definition PSI_RC_CRCFAIL :: int where "PSI_RC_CRCFAIL = -4"

definition PSI_RC_CCFAIL :: int where "PSI_RC_CCFAIL = -5"

definition PSI_RC_LENFAIL :: int where "PSI_RC_LENFAIL = -6"

definition PSI_RC_CORRUPT :: int where "PSI_RC_CORRUPT = -7"

lemmas psi_rc_defs =
  PSI_RC_OK_def PSI_RC_TEI_def PSI_RC_NOPAYLOAD_def PSI_RC_INCOMPLETE_def PSI_RC_CRCFAIL_def
  PSI_RC_CCFAIL_def PSI_RC_LENFAIL_def PSI_RC_CORRUPT_def

record psisec =
  sec_len :: nat
  sec_valid :: nat
  sec_pid :: nat
  sec_cc :: nat
  sec_data :: "u8 list"

text \<open>The field macros of \<^verbatim>\<open>psi.h\<close>, on the bytes of a section.\<close>

definition psi_version :: "u8 list \<Rightarrow> nat" where
  "psi_version d = unat (drop_bit 1 (d ! 5 AND 0x3e))"

definition psi_section_number :: "u8 list \<Rightarrow> nat" where
  "psi_section_number d = unat (d ! 6)"

definition psi_last_section_number :: "u8 list \<Rightarrow> nat" where
  "psi_last_section_number d = unat (d ! 7)"

definition psi_currentnext :: "u8 list \<Rightarrow> bool" where
  "psi_currentnext d \<longleftrightarrow> d ! 5 AND 1 \<noteq> 0"

definition psi_tableid :: "u8 list \<Rightarrow> nat" where
  "psi_tableid d = unat (d ! 0)"

definition psi_len :: "u8 list \<Rightarrow> nat" where
  "psi_len d = (be16 (d ! 1) (d ! 2) AND 0xfff) + 3"

text \<open>\<^verbatim>\<open>psi_section_new\<close>, \<^verbatim>\<open>psi_section_clear\<close> and \<^verbatim>\<open>psi_section_clone\<close>.\<close>

definition psi_section_new :: psisec where
  "psi_section_new = \<lparr>sec_len = 0, sec_valid = 0, sec_pid = 0, sec_cc = 0,
                      sec_data = replicate PSI_MAX_SIZE 0\<rparr>"

definition psi_section_clear :: "psisec \<Rightarrow> psisec" where
  "psi_section_clear s = s\<lparr>sec_valid := 0, sec_len := 0\<rparr>"

definition psi_section_clone :: "psisec \<Rightarrow> psisec" where
  "psi_section_clone s = s"

section \<open>The CRC of a section\<close>

text \<open>With a length below 4 the code reads in front of the data, with one above 4096 behind
  it.  The data lies 16 bytes into a structure of \<open>int\<close>s, so its address is aligned.\<close>

definition psi_crc :: "psisec \<Rightarrow> u32 option" where
  "psi_crc s =
     (if psi_len (sec_data s) < 4 then None
      else do {
        p \<leftarrow> memread (sec_data s) (psi_len (sec_data s) - 4) 4;
        Some (be_word (p ! 0) (p ! 1) (p ! 2) (p ! 3))
      })"

definition psi_ccrc :: "psisec \<Rightarrow> u32 option" where
  "psi_ccrc s =
     (if psi_len (sec_data s) < 4 then None
      else do {
        p \<leftarrow> memread (sec_data s) 0 (psi_len (sec_data s) - 4);
        Some (crc32_be 0 0xffffffff p)
      })"

definition psi_crc_valid :: "psisec \<Rightarrow> bool option" where
  "psi_crc_valid s = do { c \<leftarrow> psi_crc s; cc \<leftarrow> psi_ccrc s; Some (c = cc) }"

section \<open>Reassembly\<close>

text \<open>The two parts of \<^verbatim>\<open>psi_reassemble_continue\<close>: completing the header, which tells the
  length of the section, and copying what the packet has of the section.  The offset the
  function returns is the \<open>int\<close> result of the code; when the header ends behind the packet,
  \<^verbatim>\<open>TS_PACKET_SIZE-off\<close> is negative and \<^verbatim>\<open>MIN\<close> compares it as an unsigned value.\<close>

definition psi_complete_header :: "psisec \<Rightarrow> u8 list \<Rightarrow> nat \<Rightarrow> (psisec \<times> nat) option" where
  "psi_complete_header s ts off =
     (if sec_len s = 0
      then do {
        let copylen = usub32 PSI_HDR_LEN (sec_valid s);
        chunk \<leftarrow> memread ts off copylen;
        data \<leftarrow> memwrite (sec_data s) (sec_valid s) chunk;
        Some (s\<lparr>sec_data := data, sec_valid := sec_valid s + copylen, sec_len := psi_len data\<rparr>,
              off + copylen)
      }
      else Some (s, off))"

definition psi_copy_body :: "psisec \<Rightarrow> u8 list \<Rightarrow> nat \<Rightarrow> (psisec \<times> int) option" where
  "psi_copy_body s ts off = do {
     let copylen = min (u32_of_int (int TS_PACKET_SIZE - int off)) (usub32 (sec_len s) (sec_valid s));
     chunk \<leftarrow> memread ts off copylen;
     data \<leftarrow> memwrite (sec_data s) (sec_valid s) chunk;
     Some (s\<lparr>sec_data := data, sec_valid := sec_valid s + copylen, sec_cc := ts_cc ts\<rparr>,
           int (off + copylen))
   }"

definition psi_reassemble_continue :: "psisec \<Rightarrow> u8 list \<Rightarrow> nat \<Rightarrow> (psisec \<times> int) option" where
  "psi_reassemble_continue s ts off =
     (let ccexp = (sec_cc s + 1) AND 0xf; cc = ts_cc ts
      in if ccexp \<noteq> cc then Some (psi_section_clear s, PSI_RC_CCFAIL)
      else do { (s, off) \<leftarrow> psi_complete_header s ts off; psi_copy_body s ts off })"

definition psi_reassemble_start :: "psisec \<Rightarrow> u8 list \<Rightarrow> nat \<Rightarrow> (psisec \<times> int) option" where
  "psi_reassemble_start s ts off =
     (let s = (psi_section_clear s)\<lparr>sec_cc := ts_cc ts, sec_pid := ts_pid ts\<rparr>;
          room = TS_PACKET_SIZE - off;
          (len, copylen) =
            (if room > PSI_HDR_LEN then (psi_len (drop off ts), min (psi_len (drop off ts)) room)
             else (0, room))
      in do {
        chunk \<leftarrow> memread ts off copylen;
        data \<leftarrow> memwrite (sec_data s) 0 chunk;
        Some (s\<lparr>sec_len := len, sec_data := data, sec_valid := copylen\<rparr>, int (off + copylen))
      })"

text \<open>The first part of \<^verbatim>\<open>psi_reassemble\<close>: where the payload begins, or the error.\<close>

definition psi_payload :: "u8 list \<Rightarrow> nat \<Rightarrow> (int + nat) option" where
  "psi_payload ts off =
     (if off \<noteq> 0 then do {
        b \<leftarrow> peek ts off;
        Some (if b = 0xff then Inl PSI_RC_NOPAYLOAD else Inr off)
      }
      else if ts_tei ts then Some (Inl PSI_RC_TEI)
      else if \<not> ts_has_payload ts then Some (Inl PSI_RC_NOPAYLOAD)
      else do {
        let payload = ts_payload_start ts;
        payload \<leftarrow> (if ts_pusi ts then do { b \<leftarrow> peek ts payload; Some (payload + unat b + 1) }
                    else Some payload);
        Some (if payload \<ge> TS_PACKET_SIZE then Inl PSI_RC_CORRUPT else Inr payload)
      })"

definition psi_finish :: "psisec \<Rightarrow> int \<Rightarrow> (psisec \<times> int) option" where
  "psi_finish s noff =
     (if sec_len s \<noteq> sec_valid s \<or> sec_valid s < PSI_HDR_LEN then Some (s, PSI_RC_INCOMPLETE)
      else do {
        ok \<leftarrow> psi_crc_valid s;
        Some (s, if ok then noff else PSI_RC_CRCFAIL)
      })"

definition psi_reassemble :: "psisec \<Rightarrow> u8 list \<Rightarrow> nat \<Rightarrow> (psisec \<times> int) option" where
  "psi_reassemble s ts off = do {
     pl \<leftarrow> psi_payload ts off;
     case pl of
       Inl rc \<Rightarrow> Some (s, rc)
     | Inr payload \<Rightarrow>
         if \<not> ts_pusi ts then
           if sec_valid s = 0 then Some (s, PSI_RC_NOPAYLOAD)
           else do { (s, noff) \<leftarrow> psi_reassemble_continue s ts payload; psi_finish s noff }
         else do { (s, noff) \<leftarrow> psi_reassemble_start s ts payload; psi_finish s noff }
   }"

section \<open>Sections from a buffer\<close>

definition psi_section_valid :: "nat \<Rightarrow> psisec \<Rightarrow> nat \<Rightarrow> (psisec \<times> int) option" where
  "psi_section_valid pid s len =
     (let s = s\<lparr>sec_pid := pid, sec_len := len, sec_valid := 0\<rparr>
      in do {
        ok \<leftarrow> psi_crc_valid s;
        Some (s, if \<not> ok then PSI_RC_CRCFAIL
                 else if psi_len (sec_data s) \<noteq> len then PSI_RC_LENFAIL else PSI_RC_OK)
      })"

definition psi_section_fromdata :: "psisec \<Rightarrow> nat \<Rightarrow> u8 list \<Rightarrow> nat \<Rightarrow> (psisec \<times> int) option" where
  "psi_section_fromdata s pid data len = do {
     chunk \<leftarrow> memread data 0 len;
     d \<leftarrow> memwrite (sec_data s) 0 chunk;
     psi_section_valid pid ((psi_section_clear s)\<lparr>sec_data := d\<rparr>) len
   }"

section \<open>Segmentation\<close>

text \<open>One packet of \<^verbatim>\<open>psi_segment_and_send\<close>: filled with ones, then the header bytes, then
  the chunk of the section.\<close>

definition psi_ts_packet :: "nat \<Rightarrow> nat \<Rightarrow> nat \<Rightarrow> u8 list \<Rightarrow> u8 list" where
  "psi_ts_packet pid cc pkts chunk =
     (let ts = replicate TS_PACKET_SIZE 0xff;
          ts = ts[0 := 0x47];
          ts = ts[1 := of_nat (drop_bit 8 pid)];
          ts = ts[2 := of_nat (pid AND 0xff)];
          ts = ts[3 := push_bit 4 1];
          ts = ts[3 := ts ! 3 OR of_nat ((cc + pkts) AND 0xf)];
          off = (if pkts = 0 then 5 else 4);
          ts = (if pkts = 0 then (ts[1 := ts ! 1 OR 0x40])[4 := 0] else ts)
      in take off ts @ chunk @ drop (off + length chunk) ts)"

function psi_segment_loop ::
  "u8 list \<Rightarrow> nat \<Rightarrow> nat \<Rightarrow> nat \<Rightarrow> nat \<Rightarrow> (u8 list \<Rightarrow> 's \<Rightarrow> 's option) \<Rightarrow> nat \<Rightarrow> 's \<Rightarrow> ('s \<times> nat) option"
where
  "psi_segment_loop data pid cc plen left callback pkts arg =
     (let copylen = min left (TS_PACKET_SIZE - (if pkts = 0 then 5 else 4))
      in do {
        chunk \<leftarrow> memread data (plen - left) copylen;
        arg \<leftarrow> callback (psi_ts_packet pid cc pkts chunk) arg;
        if left - copylen = 0 then Some (arg, pkts + 1)
        else psi_segment_loop data pid cc plen (left - copylen) callback (pkts + 1) arg
      })"
  by pat_completeness auto
termination
  by (relation "measure (\<lambda>(data, pid, cc, plen, left, callback, pkts, arg). left)")
    (auto simp: TS_PACKET_SIZE_def)

declare psi_segment_loop.simps [simp del]

definition psi_segment_and_send ::
  "psisec \<Rightarrow> nat \<Rightarrow> nat \<Rightarrow> (u8 list \<Rightarrow> 's \<Rightarrow> 's option) \<Rightarrow> 's \<Rightarrow> ('s \<times> nat) option" where
  "psi_segment_and_send s pid cc callback arg =
     (let plen = psi_len (sec_data s)
      in psi_segment_loop (sec_data s) pid cc plen plen callback 0 arg)"

section \<open>The table of sections\<close>

type_synonym psi = "psisec option list"

definition psi_new :: psi where "psi_new = replicate PSI_SECTION_MAX None"

definition psi_update_table :: "psi \<Rightarrow> psisec \<Rightarrow> (psi \<times> bool) option" where
  "psi_update_table psi s =
     (let secnum = psi_section_number (sec_data s); version = psi_version (sec_data s)
      in do {
        old \<leftarrow> peek psi secnum;
        if (case old of Some o1 \<Rightarrow> version = psi_version (sec_data o1) | None \<Rightarrow> False)
        then Some (psi, False)
        else do {
          psi \<leftarrow> poke psi secnum (Some (psi_section_clone s));
          Some (psi, True)
        }
      })"

section \<open>The invariant of reassembly\<close>

text \<open>\<open>psi_wf\<close> is the state a section is in between two calls: nothing or a part of the
  header collected, or the length known and no more collected than that.  \<open>psi_fits\<close> says
  of the packet at hand that the length it announces fits the section's buffer and, when it
  completes a header, that the header ends within the packet.\<close>

definition psi_wf :: "psisec \<Rightarrow> bool" where
  "psi_wf s \<longleftrightarrow> length (sec_data s) = PSI_MAX_SIZE \<and>
     (sec_len s = 0 \<and> sec_valid s \<le> PSI_HDR_LEN \<or>
      sec_len s = psi_len (sec_data s) \<and> 3 \<le> sec_valid s \<and> sec_valid s \<le> sec_len s \<and>
      sec_len s \<le> PSI_MAX_SIZE)"

definition psi_fits :: "psisec \<Rightarrow> u8 list \<Rightarrow> nat \<Rightarrow> bool" where
  "psi_fits s ts payload \<longleftrightarrow>
     (if ts_pusi ts
      then TS_PACKET_SIZE - payload > PSI_HDR_LEN \<longrightarrow> psi_len (drop payload ts) \<le> PSI_MAX_SIZE
      else sec_len s = 0 \<longrightarrow>
        payload + (PSI_HDR_LEN - sec_valid s) \<le> TS_PACKET_SIZE \<and>
        (let len = psi_len (take (sec_valid s) (sec_data s) @ drop payload ts)
         in PSI_HDR_LEN \<le> len \<and> len \<le> PSI_MAX_SIZE))"

lemmas size_defs = PSI_MAX_SIZE_def PSI_HDR_LEN_def TS_PACKET_SIZE_def CRC32_LEN_def

lemma psi_len_bounds [psi_simps]: "3 \<le> psi_len d" "psi_len d \<le> 4098"
  by (simp_all add: psi_len_def)
 

lemma psi_len_cong: "d ! 1 = d' ! 1 \<Longrightarrow> d ! 2 = d' ! 2 \<Longrightarrow> psi_len d = psi_len d'"
  by (simp add: psi_len_def)

lemma psi_clear_wf [inv_intros]: "psi_wf s \<Longrightarrow> psi_wf (psi_section_clear s)"
  by (auto simp: psi_wf_def psi_section_clear_def)

lemma psi_new_wf: "psi_wf psi_section_new"
  by (simp add: psi_wf_def psi_section_new_def)

lemma psi_payload_total:
  "261 \<le> length ts \<Longrightarrow> off < TS_PACKET_SIZE \<Longrightarrow> \<exists>r. psi_payload ts off = Some r"
  using ts_payload_start_bounds [of ts]
  by (auto simp: psi_payload_def peek_def size_defs Let_def)

lemma psi_payload_bounds:
  "psi_payload ts off = Some (Inr p) \<Longrightarrow> off < TS_PACKET_SIZE \<Longrightarrow>
   p < TS_PACKET_SIZE \<and> (if off = 0 then 4 \<le> p else p = off)"
  using ts_payload_start_bounds [of ts]
  by (auto simp: psi_payload_def Let_def split: if_splits bind_splits)

lemma psi_payload_error:
  "psi_payload ts off = Some (Inl rc) \<Longrightarrow> rc < 0"
  by (auto simp: psi_payload_def Let_def psi_rc_defs split: if_splits bind_splits)

lemma psi_start_wf:
  assumes wf: "psi_wf s" and p: "p < TS_PACKET_SIZE" "TS_PACKET_SIZE \<le> length ts"
    and fits: "psi_fits s ts p" "ts_pusi ts"
  obtains s' n where "psi_reassemble_start s ts p = Some (s', int n)" "psi_wf s'"
    "p < n" "n \<le> TS_PACKET_SIZE"
proof (cases "TS_PACKET_SIZE - p > PSI_HDR_LEN")
  case True
  define len where "len = psi_len (drop p ts)"
  define n where "n = min len (TS_PACKET_SIZE - p)"
  have len: "3 \<le> len" "len \<le> PSI_MAX_SIZE"
    using fits True psi_len_bounds by (auto simp: len_def psi_fits_def)
  have "p + n \<le> length ts" using p by (auto simp: n_def min_def)
  then obtain chunk where c: "memread ts p n = Some chunk" and cl: "length chunk = n"
    by (rule memread_obtain)
  have "0 + length chunk \<le> length (sec_data s)"
    using wf len cl by (simp add: n_def psi_wf_def)
  then obtain d where d: "memwrite (sec_data s) 0 chunk = Some d" "length d = length (sec_data s)"
    by (rule memwrite_obtain)
  have n3: "3 \<le> n" using len True by (simp add: n_def size_defs)
  have "psi_len d = len"
    unfolding len_def using memwrite_nth [OF d(1)] memread_nth [OF c] n3 cl p
    by (intro psi_len_cong) (auto simp: size_defs)
  moreover have "length d = PSI_MAX_SIZE" using d(2) wf by (simp add: psi_wf_def)
  ultimately show ?thesis
    using that [of "s\<lparr>sec_valid := n, sec_len := len, sec_cc := ts_cc ts, sec_pid := ts_pid ts, sec_data := d\<rparr>" "p + n"]
      True len n3 c d
    by (simp add: psi_reassemble_start_def psi_section_clear_def Let_def psi_wf_def n_def len_def)
next
  case False
  define n where "n = TS_PACKET_SIZE - p"
  have n: "0 < n" "n \<le> 8" using False p by (auto simp: n_def size_defs)
  have "p + n \<le> length ts" using p by (simp add: n_def)
  then obtain chunk where c: "memread ts p n = Some chunk" and cl: "length chunk = n"
    by (rule memread_obtain)
  have "0 + length chunk \<le> length (sec_data s)"
    using wf n cl by (simp add: psi_wf_def size_defs)
  then obtain d where d: "memwrite (sec_data s) 0 chunk = Some d" "length d = length (sec_data s)"
    by (rule memwrite_obtain)
  moreover have "length d = PSI_MAX_SIZE" using d(2) wf by (simp add: psi_wf_def)
  ultimately show ?thesis
    using that [of "s\<lparr>sec_valid := n, sec_len := 0, sec_cc := ts_cc ts, sec_pid := ts_pid ts, sec_data := d\<rparr>" "p + n"]
      False c n p
    by (simp add: psi_reassemble_start_def psi_section_clear_def Let_def psi_wf_def n_def PSI_HDR_LEN_def)
qed

lemma psi_continue_wf:
  assumes wf: "psi_wf s" and v: "0 < sec_valid s" and p: "p < TS_PACKET_SIZE" "TS_PACKET_SIZE \<le> length ts"
    and fits: "psi_fits s ts p" "\<not> ts_pusi ts"
  obtains s' r where "psi_reassemble_continue s ts p = Some (s', r)" "psi_wf s'"
    "r < 0 \<and> sec_valid s' = 0 \<or> int p \<le> r \<and> r \<le> int TS_PACKET_SIZE \<and> sec_cc s' = ts_cc ts"
proof (cases "(sec_cc s + 1) AND 0xf = ts_cc ts")
  case False
  then show ?thesis
    using that [of "psi_section_clear s" PSI_RC_CCFAIL] psi_clear_wf [OF wf]
    by (simp add: psi_reassemble_continue_def psi_section_clear_def psi_rc_defs)
next
  case cc: True
  note main = that
  have complete: ?thesis
    if pre: "psi_complete_header s ts p = Some (s1, p1)"
      and wf1: "psi_wf s1" "sec_len s1 \<noteq> 0" and p1: "p \<le> p1" "p1 \<le> TS_PACKET_SIZE" for s1 p1
  proof -
    define n where "n = min (TS_PACKET_SIZE - p1) (sec_len s1 - sec_valid s1)"
    have 1: "u32_of_int (int TS_PACKET_SIZE - int p1) = TS_PACKET_SIZE - p1"
      using p1 by (subst u32_of_int_nonneg) (auto simp: size_defs)
    have 2: "usub32 (sec_len s1) (sec_valid s1) = sec_len s1 - sec_valid s1"
      using wf1 by (intro usub32_le) (auto simp: psi_wf_def size_defs)
    have "p1 + n \<le> length ts" using p p1 by (auto simp: n_def min_def)
    then obtain chunk where c: "memread ts p1 n = Some chunk" and cl: "length chunk = n"
      by (rule memread_obtain)
    have "sec_valid s1 + length chunk \<le> length (sec_data s1)"
      using wf1 cl by (auto simp: n_def psi_wf_def)
    then obtain d where d: "memwrite (sec_data s1) (sec_valid s1) chunk = Some d" "length d = length (sec_data s1)"
      by (rule memwrite_obtain)
    have "psi_len d = psi_len (sec_data s1)"
      using memwrite_nth [OF d(1)] wf1 by (intro psi_len_cong) (auto simp: psi_wf_def)
    then have "psi_wf (s1\<lparr>sec_data := d, sec_valid := sec_valid s1 + n, sec_cc := ts_cc ts\<rparr>)"
      using wf1 d(2) by (auto simp: psi_wf_def n_def)
    moreover have "psi_reassemble_continue s ts p =
        Some (s1\<lparr>sec_data := d, sec_valid := sec_valid s1 + n, sec_cc := ts_cc ts\<rparr>, int (p1 + n))"
      using cc pre c d(1)
      by (simp add: psi_reassemble_continue_def psi_copy_body_def 1 2 Let_def n_def)
    ultimately show ?thesis
      using p1 by (intro main) (auto simp: n_def min_def)
  qed
  show ?thesis
  proof (cases "sec_len s = 0")
    case False
    then show ?thesis using complete [of s p] wf p by (simp add: psi_complete_header_def)
  next
    case True
    define k where "k = 8 - sec_valid s"
    have v8: "sec_valid s \<le> 8" using wf True psi_len_bounds(1) [of "sec_data s"] by (auto simp: psi_wf_def PSI_HDR_LEN_def)
    have k: "usub32 PSI_HDR_LEN (sec_valid s) = k"
      using v8 by (simp add: k_def PSI_HDR_LEN_def usub32_le)
    have pk: "p + k \<le> TS_PACKET_SIZE" using fits True by (simp add: psi_fits_def k_def PSI_HDR_LEN_def)
    then have "p + k \<le> length ts" using p by simp
    then obtain chunk where c: "memread ts p k = Some chunk" and cl: "length chunk = k"
      by (rule memread_obtain)
    have len4096: "length (sec_data s) = 4096" using wf by (simp add: psi_wf_def PSI_MAX_SIZE_def)
    then have "sec_valid s + length chunk \<le> length (sec_data s)"
      using v8 cl by (simp add: k_def)
    then obtain d where d: "memwrite (sec_data s) (sec_valid s) chunk = Some d" "length d = length (sec_data s)"
      by (rule memwrite_obtain)
    have "psi_len d = psi_len (take (sec_valid s) (sec_data s) @ drop p ts)"
      using memwrite_nth [OF d(1)] memread_nth [OF c] cl v8 len4096 p
      by (intro psi_len_cong) (auto simp: k_def nth_append size_defs)
    with fits True have "8 \<le> psi_len d" "psi_len d \<le> PSI_MAX_SIZE"
      by (auto simp: psi_fits_def Let_def PSI_HDR_LEN_def)
    then show ?thesis
      using complete [of "s\<lparr>sec_data := d, sec_valid := sec_valid s + k, sec_len := psi_len d\<rparr>" "p + k"]
        True k c d v8 pk len4096
      by (simp add: psi_complete_header_def psi_wf_def k_def PSI_MAX_SIZE_def)
  qed
qed

lemma psi_crc_valid_total:
  assumes "length (sec_data s) = PSI_MAX_SIZE" "4 \<le> psi_len (sec_data s)" "psi_len (sec_data s) \<le> PSI_MAX_SIZE"
  shows "\<exists>b. psi_crc_valid s = Some b"
  using assms by (auto simp: psi_crc_valid_def psi_crc_def psi_ccrc_def memread_def)

lemma psi_finish_wf:
  assumes "psi_wf s"
  obtains r where "psi_finish s n = Some (s, r)"
    "r < 0 \<or> r = n \<and> sec_len s = sec_valid s \<and> PSI_HDR_LEN \<le> sec_valid s \<and> psi_crc_valid s = Some True"
proof (cases "sec_len s \<noteq> sec_valid s \<or> sec_valid s < PSI_HDR_LEN")
  case True
  then show ?thesis using that by (simp add: psi_finish_def psi_rc_defs)
next
  case False
  then have "sec_len s = psi_len (sec_data s)" using assms by (auto simp: psi_wf_def PSI_HDR_LEN_def)
  with False assms obtain b where "psi_crc_valid s = Some b"
    using psi_crc_valid_total [of s] by (auto simp: psi_wf_def PSI_HDR_LEN_def)
  then show ?thesis using that False by (cases b) (simp_all add: psi_finish_def psi_rc_defs)
qed

section \<open>The packets the segmentation builds\<close>

lemma replicate_188: "replicate 188 x = x # x # x # x # x # replicate 183 x"
proof -
  have "replicate (5 + 183) x = replicate 5 x @ replicate 183 x" by (rule replicate_add)
  then show ?thesis by (simp add: eval_nat_numeral(3) numeral_eq_Suc)
qed

lemma update_4:
  "(a # xs)[0 := y] = y # xs" "(a # b # xs)[1 := y] = a # y # xs"
  "(a # b # c # xs)[2 := y] = a # b # y # xs" "(a # b # c # d # xs)[3 := y] = a # b # c # y # xs"
  "(a # b # c # d # e # xs)[4 := y] = a # b # c # d # y # xs"
  "(a # b # c # d # xs) ! 3 = d" "(a # b # xs) ! 1 = b" 
  "take 4 (a # b # c # d # xs) = [a, b, c, d]" "take 5 (a # b # c # d # e # xs) = [a, b, c, d, e]"
  "drop (4 + n) (a # b # c # d # xs) = drop n xs" "drop (5 + n) (a # b # c # d # e # xs) = drop n xs"
  by (simp_all add: eval_nat_numeral)

lemma psi_ts_packet_first:
  "psi_ts_packet pid cc 0 chunk =
     [0x47, of_nat (pid div 256) OR 0x40, of_nat (pid mod 256), 0x10 OR of_nat (cc mod 16), 0] @ chunk @
      replicate (183 - length chunk) 0xff"
  unfolding psi_ts_packet_def TS_PACKET_SIZE_def replicate_188 Let_def update_4 if_True refl if_P [OF refl]
  by (simp add: drop_bit_eq_div)

lemma psi_ts_packet_next:
  "0 < pkts \<Longrightarrow> psi_ts_packet pid cc pkts chunk =
     [0x47, of_nat (pid div 256), of_nat (pid mod 256), 0x10 OR of_nat ((cc + pkts) mod 16)] @ chunk @
      replicate (184 - length chunk) 0xff"
proof -
  assume "0 < pkts"
  then have p: "(pkts = 0) = False" by simp
  have r: "0xff # replicate 183 (0xff :: u8) = replicate 184 0xff" by (simp flip: replicate_Suc)
  show ?thesis
  unfolding psi_ts_packet_def TS_PACKET_SIZE_def replicate_188 Let_def update_4 p if_False r
  by (simp add: drop_bit_eq_div)
qed

lemma byte_bit_test:
  "(w :: u8) AND 0x40 \<noteq> 0 \<longleftrightarrow> bit w 6" "w AND 0x80 \<noteq> 0 \<longleftrightarrow> bit w 7"
  "w AND 1 \<noteq> 0 \<longleftrightarrow> bit w 0" "w AND 2 \<noteq> 0 \<longleftrightarrow> bit w 1"
  using bit_iff_and_push_bit_not_eq_0 [of w 6] bit_iff_and_push_bit_not_eq_0 [of w 7]
    bit_iff_and_push_bit_not_eq_0 [of w 0] bit_iff_and_push_bit_not_eq_0 [of w 1]
  by simp_all

lemma pid_hi: "pid \<le> PID_MAX \<Longrightarrow> n \<ge> 5 \<Longrightarrow> \<not> bit (pid div 256) n"
  by (rule small_not_bit [of _ 5]) (auto simp: PID_MAX_def)

lemma cc_hi: "n \<ge> 4 \<Longrightarrow> \<not> bit (k mod 16 :: nat) n"
  by (rule small_not_bit [of _ 4]) auto

lemma bit_div_256: "bit (k div 256 :: nat) n = bit k (n + 8)"
  using bit_drop_bit_eq [of 8 k] by (simp add: drop_bit_eq_div fun_eq_iff add.commute)

lemma bit_mod_256: "bit (k mod 256 :: nat) n = (n < 8 \<and> bit k n)"
  using bit_take_bit_iff [of 8 k n] by (simp add: take_bit_eq_mod)

lemma bit_0x40: "bit (0x40 :: u8) n \<longleftrightarrow> n = 6"
  using bit_exp_iff [where ?'a = "8 word", of 6 n] by auto

lemma bit_0x10: "bit (0x10 :: u8) n \<longleftrightarrow> n = 4"
  using bit_exp_iff [where ?'a = "8 word", of 4 n] by auto

lemma bit_0x30: "bit (0x30 :: u8) n \<longleftrightarrow> n = 4 \<or> n = 5"
proof -
  have "(0x30 :: u8) = 0x10 OR 0x20" by simp
  moreover have "bit (0x20 :: u8) n \<longleftrightarrow> n = 5" using bit_exp_iff [where ?'a = "8 word", of 5 n] by auto
  ultimately show ?thesis by (simp only: bit_or_iff bit_0x10) 
qed

lemma bit_0x0f: "bit (0xf :: u8) n \<longleftrightarrow> n < 4"
proof -
  have "(0xf :: u8) = mask 4" by (simp add: mask_eq_exp_minus_1)
  then show ?thesis by (simp only: bit_mask_iff) auto
qed

lemma head_fields:
  assumes pid: "pid \<le> PID_MAX"
    and ts: "ts ! 1 = of_nat (pid div 256) OR (if f then 0x40 else 0)" "ts ! 2 = of_nat (pid mod 256)"
      "ts ! 3 = 0x10 OR of_nat (c mod 16)"
  shows "\<not> ts_tei ts" "ts_pusi ts = f" "ts_pid ts = pid" "ts_cc ts = c mod 16"
    "ts_has_payload ts" "ts_payload_start ts = 4"
proof -
  show "\<not> ts_tei ts" "ts_pusi ts = f"
    unfolding ts_tei_def ts_pusi_def byte_bit_test ts
    by (auto simp: bit_or_iff bit_of_nat_u8 pid_hi [OF pid])
  have afc: "bit (ts_afc ts) n \<longleftrightarrow> n = 0" for n
    unfolding ts_afc_def ts
    by (auto simp: bit_drop_bit_eq bit_and_iff bit_or_iff bit_of_nat_u8 cc_hi bit_0x10 bit_0x30 bit_1_iff)
  then show "ts_has_payload ts" "ts_payload_start ts = 4"
    by (simp_all add: ts_has_payload_def ts_payload_start_def ts_af_len_def ts_has_af_def byte_bit_test)
  have "bit (unat (ts ! 3 AND 0xf)) n = bit (c mod 16) n" for n
    unfolding ts bit_unsigned_iff bit_and_iff bit_or_iff bit_of_nat_u8 bit_0x10 bit_0x0f
    using cc_hi [of n c] by (cases "n < 4") auto
  then show "ts_cc ts = c mod 16" unfolding ts_cc_def by (rule bit_eqI)
  have p13: "13 \<le> n \<Longrightarrow> \<not> bit pid n" for n
    using pid by (intro small_not_bit [of _ 13]) (auto simp: PID_MAX_def)
  have m: "bit (0x1fff :: nat) n \<longleftrightarrow> n < 13" for n
  proof -
    have "(0x1fff :: nat) = mask 13" by (simp add: mask_eq_exp_minus_1)
    then show ?thesis by (simp only: bit_mask_iff) auto
  qed
  have b40: "bit (if f then 0x40 else 0 :: u8) k \<longleftrightarrow> f \<and> k = 6" for k
    by (cases f; simp only: bit_0x40 bit_0_eq bot_apply bot_bool_def if_True if_False simp_thms)
  have "bit (be16 (ts ! 1) (ts ! 2) AND 0x1fff) n = bit pid n" for n
    unfolding ts be16_def bit_unsigned_iff bit_and_iff bit_or_iff bit_push_bit_iff bit_of_nat_u8 m bit_div_256 bit_mod_256
      b40
    using p13 [of n] by (cases "n < 8"; cases "n < 13") (simp_all, linarith?)
  then show "ts_pid ts = pid" unfolding ts_pid_def by (rule bit_eqI)
qed

lemma packet_fields:
  fixes pid cc pkts chunk
  defines "ts \<equiv> psi_ts_packet pid cc pkts chunk"
  assumes pid: "pid \<le> PID_MAX"
  shows "\<not> ts_tei ts" "ts_pusi ts = (pkts = 0)" "ts_pid ts = pid" "ts_cc ts = (cc + pkts) mod 16"
    "ts_has_payload ts" "ts_payload_start ts = 4"
proof -
  have "ts ! 1 = of_nat (pid div 256) OR (if pkts = 0 then 0x40 else 0)" "ts ! 2 = of_nat (pid mod 256)"
      "ts ! 3 = 0x10 OR of_nat ((cc + pkts) mod 16)"
    by (cases "pkts = 0"; simp add: ts_def psi_ts_packet_first psi_ts_packet_next)+
  note f = head_fields [OF pid this]
  show "\<not> ts_tei ts" "ts_pusi ts = (pkts = 0)" "ts_pid ts = pid" "ts_cc ts = (cc + pkts) mod 16"
    "ts_has_payload ts" "ts_payload_start ts = 4" by (rule f)+
qed

definition psi_receive :: "u8 list \<Rightarrow> psisec \<times> int list \<Rightarrow> (psisec \<times> int list) option" where
  "psi_receive ts = (\<lambda>(t, rs). do { (t, r) \<leftarrow> psi_reassemble t ts 0; Some (t, rs @ [r]) })"

lemma packet_length:
  "length chunk \<le> (if pkts = 0 then 183 else 184) \<Longrightarrow> length (psi_ts_packet pid cc pkts chunk) = 188"
  by (cases "pkts = 0") (simp_all add: psi_ts_packet_first psi_ts_packet_next)

lemma packet_chunk:
  assumes "length chunk \<le> (if pkts = 0 then 183 else 184)"
  shows "memread (psi_ts_packet pid cc pkts chunk) (if pkts = 0 then 5 else 4) (length chunk) = Some chunk"
proof -
  have d: "drop (if pkts = 0 then 5 else 4) (psi_ts_packet pid cc pkts chunk) =
    chunk @ replicate ((if pkts = 0 then 183 else 184) - length chunk) 0xff"
    using update_4(10) [of 0] update_4(11) [of 0]
    by (cases "pkts = 0") (simp_all add: psi_ts_packet_first psi_ts_packet_next)
  show ?thesis
    using assms packet_length [OF assms, of pid cc] unfolding memread_def d by (cases "pkts = 0") simp_all
qed

lemma packet_payload:
  assumes "pid \<le> PID_MAX" "length chunk \<le> (if pkts = 0 then 183 else 184)"
  shows "psi_payload (psi_ts_packet pid cc pkts chunk) 0 = Some (Inr (if pkts = 0 then 5 else 4))"
proof -
  have "pkts = 0 \<Longrightarrow> psi_ts_packet pid cc pkts chunk ! 4 = 0"
    by (simp add: psi_ts_packet_first)
  then show ?thesis
    using packet_length [OF assms(2), of pid cc]
    by (cases "pkts = 0") (simp_all add: psi_payload_def packet_fields [OF assms(1)] peek_def TS_PACKET_SIZE_def)
qed

definition psi_partial :: "u8 list \<Rightarrow> nat \<Rightarrow> nat \<Rightarrow> nat \<Rightarrow> psisec \<Rightarrow> bool" where
  "psi_partial d pid cc v t \<longleftrightarrow> length (sec_data t) = PSI_MAX_SIZE \<and> sec_len t = psi_len d \<and>
     sec_valid t = v \<and> 8 \<le> v \<and> v \<le> psi_len d \<and> take v (sec_data t) = take v d \<and> sec_pid t = pid \<and>
     sec_cc t = cc mod 16"

lemma psi_partial_len: "psi_partial d pid cc v t \<Longrightarrow> psi_len (sec_data t) = psi_len d"
proof (rule psi_len_cong)
  assume t: "psi_partial d pid cc v t"
  then have n: "i < v \<Longrightarrow> sec_data t ! i = d ! i" for i
    unfolding psi_partial_def by (metis nth_take)
  show "sec_data t ! 1 = d ! 1" "sec_data t ! 2 = d ! 2"
    using t by (auto intro!: n simp: psi_partial_def)
qed

lemma psi_receive_first:
  assumes pid: "pid \<le> PID_MAX" and d: "length d = PSI_MAX_SIZE" "8 \<le> psi_len d" "psi_len d \<le> PSI_MAX_SIZE"
    and t: "length (sec_data t) = PSI_MAX_SIZE" and n: "n = min (psi_len d) 183"
  obtains t' where "psi_reassemble_start t (psi_ts_packet pid cc 0 (take n d)) 5 = Some (t', int (5 + n))"
    "psi_partial d pid cc n t'"
proof -
  define ts where "ts = psi_ts_packet pid cc 0 (take n d)"
  have ch: "length (take n d) \<le> (if (0::nat) = 0 then 183 else 184)" and ln: "length (take n d) = n" using n d by auto
  have dl: "psi_len (drop 5 ts) = psi_len d"
    using n d update_4(11) [of 0]
    by (intro psi_len_cong) (simp_all add: ts_def psi_ts_packet_first nth_append)
  have rd: "memread ts 5 n = Some (take n d)"
    using packet_chunk [OF ch, of pid cc] ln by (simp add: ts_def)
  have "0 + length (take n d) \<le> length (sec_data t)" using n d t by simp
  then obtain dd where w: "memwrite (sec_data t) 0 (take n d) = Some dd" "length dd = length (sec_data t)"
    by (rule memwrite_obtain)
  have dd: "take n dd = take n d" using memwrite_take [OF w(1)] ln by simp
  show ?thesis
    using that [of "t\<lparr>sec_valid := n, sec_len := psi_len d, sec_cc := ts_cc ts, sec_pid := ts_pid ts, sec_data := dd\<rparr>"]
      packet_fields [OF pid, of cc 0 "take n d"] n d t w rd dl dd
    by (simp add: psi_reassemble_start_def Let_def psi_section_clear_def psi_partial_def PSI_HDR_LEN_def
       TS_PACKET_SIZE_def ts_def)
qed

lemma psi_receive_next:
  assumes pid: "pid \<le> PID_MAX" and pk: "0 < pkts" and d: "length d = PSI_MAX_SIZE" "psi_len d \<le> PSI_MAX_SIZE"
    and t: "psi_partial d pid (cc + pkts - 1) v t" and n: "n = min (psi_len d - v) 184"
  obtains t' where
    "psi_reassemble_continue t (psi_ts_packet pid cc pkts (take n (drop v d))) 4 = Some (t', int (4 + n))"
    "psi_partial d pid (cc + pkts) (v + n) t'"
proof -
  define ts where "ts = psi_ts_packet pid cc pkts (take n (drop v d))"
  have p0: "(pkts = 0) = False" using pk by simp
  have ch: "length (take n (drop v d)) \<le> (if pkts = 0 then 183 else 184)" and ln: "length (take n (drop v d)) = n"
    using n d p0 by auto
  have rd: "memread ts 4 n = Some (take n (drop v d))"
    using packet_chunk [OF ch, of pid cc] ln p0 by (simp add: ts_def)
  have v: "sec_valid t = v" "sec_len t = psi_len d" "8 \<le> v" "v \<le> psi_len d" using t by (auto simp: psi_partial_def)
  have "v + length (take n (drop v d)) \<le> length (sec_data t)" using n d t v by (auto simp: psi_partial_def)
  then obtain dd where w: "memwrite (sec_data t) v (take n (drop v d)) = Some dd" "length dd = length (sec_data t)"
    by (rule memwrite_obtain)
  have tk: "take (v + n) dd = take (v + n) d"
    using memwrite_take [OF w(1)] ln t by (simp add: psi_partial_def take_add)
  have cc: "ts_cc ts = (cc + pkts) mod 16" using packet_fields [OF pid] by (simp add: ts_def)
  have cc1: "(sec_cc t + 1) mod 16 = (cc + pkts) mod 16"
    using pk t by (simp add: psi_partial_def mod_Suc_eq)
  have u: "u32_of_int (int TS_PACKET_SIZE - int 4) = 184" "usub32 (psi_len d) v = psi_len d - v"
    using v d by (simp_all add: u32_of_int_def TS_PACKET_SIZE_def usub32_le PSI_MAX_SIZE_def)
  have n': "min 184 (psi_len d - v) = n" using n by simp
  have vn: "v + n \<le> psi_len d" using n v by simp
  have l0: "sec_len t \<noteq> 0" using v by simp
  have eq: "psi_reassemble_continue t ts 4 =
      Some (t\<lparr>sec_data := dd, sec_valid := v + n, sec_cc := ts_cc ts\<rparr>, int (4 + n))"
    unfolding psi_reassemble_continue_def psi_complete_header_def psi_copy_body_def Let_def nat_and_mask cc cc1
      if_not_P [OF l0]
    by (simp only: bind.bind_lunit prod.case v u n' rd w(1) not_True_eq_False if_False simp_thms)
  have "psi_partial d pid (cc + pkts) (v + n) (t\<lparr>sec_data := dd, sec_valid := v + n, sec_cc := ts_cc ts\<rparr>)"
    using t v w(2) tk cc vn by (simp add: psi_partial_def)
  then show ?thesis using that eq unfolding ts_def by blast
qed

lemma psi_finish_partial:
  assumes s: "length (sec_data s) = PSI_MAX_SIZE" "psi_crc_valid s = Some True" "psi_len (sec_data s) \<le> PSI_MAX_SIZE"
    and t: "psi_partial (sec_data s) pid c v t"
  shows "psi_finish t e = Some (t, if v = psi_len (sec_data s) then e else PSI_RC_INCOMPLETE)"
proof (cases "v = psi_len (sec_data s)")
  case True
  have l: "psi_len (sec_data t) = psi_len (sec_data s)" using psi_partial_len [OF t] .
  have tk: "take v (sec_data t) = take v (sec_data s)" using t by (simp add: psi_partial_def)
  have m: "memread (sec_data t) off n = memread (sec_data s) off n" if "off + n \<le> v" for off n
  proof -
    have "take n (drop off (take v (sec_data t))) = take n (drop off (take v (sec_data s)))" by (simp only: tk)
    then show ?thesis using that s t by (simp add: memread_def drop_take min_absorb1 psi_partial_def)
  qed
  have "psi_crc_valid t = psi_crc_valid s"
    unfolding psi_crc_valid_def psi_crc_def psi_ccrc_def l using m True t by (simp add: psi_partial_def)
  then show ?thesis using t True s by (simp add: psi_finish_def psi_partial_def PSI_HDR_LEN_def)
next
  case False
  then show ?thesis using t by (auto simp: psi_finish_def psi_partial_def)
qed

lemma packet_sync: "psi_ts_packet pid cc pkts chunk ! 0 = 0x47"
  by (cases "pkts = 0") (simp_all add: psi_ts_packet_first psi_ts_packet_next)

lemma packet_fill:
  assumes "length chunk \<le> (if pkts = 0 then 183 else 184)" "e = (if pkts = 0 then 5 else 4) + length chunk"
  shows "e = 188 \<or> e < 188 \<and> psi_ts_packet pid cc pkts chunk ! e = 0xff"
proof -
  have d: "drop (if pkts = 0 then 5 else 4) (psi_ts_packet pid cc pkts chunk) =
    chunk @ replicate ((if pkts = 0 then 183 else 184) - length chunk) 0xff"
    using update_4(10) [of 0] update_4(11) [of 0]
    by (cases "pkts = 0") (simp_all add: psi_ts_packet_first psi_ts_packet_next)
  have "psi_ts_packet pid cc pkts chunk ! e =
    drop (if pkts = 0 then 5 else 4) (psi_ts_packet pid cc pkts chunk) ! length chunk"
    using packet_length [OF assms(1), of pid cc] assms by (cases "pkts = 0") (simp_all del: nth_drop add: nth_drop)
  then have "e < 188 \<Longrightarrow> psi_ts_packet pid cc pkts chunk ! e = 0xff"
    unfolding d using assms by (cases "pkts = 0") (simp_all add: nth_append)
  then show ?thesis using assms by (cases "pkts = 0") auto
qed

text \<open>The receiving end, as an interface.  A receiver of the packets of a pid has a section
  \<open>t\<close> it is collecting, has got the results \<open>rs\<close> from \<^verbatim>\<open>psi_reassemble\<close> and has completed the
  sections \<open>ds\<close>; the relation \<open>R\<close> says so of its state.  Its only law is that it passes each
  packet to \<^verbatim>\<open>psi_reassemble\<close>, where a section that is completed ends at the end of the packet
  or is followed by filling.  Every such receiver gets what
  \<^verbatim>\<open>psi_segment_and_send\<close> sends.\<close>

locale psi_receiver =
  fixes recv :: "u8 list \<Rightarrow> 's \<Rightarrow> 's option"
    and R :: "psisec \<Rightarrow> int list \<Rightarrow> psisec list \<Rightarrow> 's \<Rightarrow> bool"
    and pid :: nat
  assumes recv_packet:
    "R t rs ds a \<Longrightarrow> length ts = 188 \<Longrightarrow> ts ! 0 = 0x47 \<Longrightarrow> ts_pid ts = pid \<Longrightarrow>
     psi_reassemble t ts 0 = Some (t', r) \<Longrightarrow>
     r < 0 \<or> r = 188 \<or> 0 < r \<and> r < 188 \<and> ts ! nat r = 0xff \<Longrightarrow>
     \<exists>a'. recv ts a = Some a' \<and> R t' (rs @ [r]) (ds @ (if r < 0 then [] else [t'])) a'"
begin

lemma recv_part:
  assumes pid: "pid \<le> PID_MAX" and R: "R t rs ds a" and ch: "length chunk \<le> (if pkts = 0 then 183 else 184)"
    and re: "psi_reassemble t (psi_ts_packet pid cc pkts chunk) 0 = Some (t', PSI_RC_INCOMPLETE)"
  shows "\<exists>a'. recv (psi_ts_packet pid cc pkts chunk) a = Some a' \<and> R t' (rs @ [PSI_RC_INCOMPLETE]) ds a'"
  using recv_packet [OF R packet_length [OF ch] packet_sync packet_fields(3) [OF pid] re]
  by (simp add: PSI_RC_INCOMPLETE_def)

lemma recv_last:
  assumes pid: "pid \<le> PID_MAX" and R: "R t rs ds a" and ch: "length chunk \<le> (if pkts = 0 then 183 else 184)"
    and re: "psi_reassemble t (psi_ts_packet pid cc pkts chunk) 0 = Some (t', int e)"
    and e: "e = (if pkts = 0 then 5 else 4) + length chunk"
  shows "\<exists>a'. recv (psi_ts_packet pid cc pkts chunk) a = Some a' \<and> R t' (rs @ [int e]) (ds @ [t']) a'"
proof -
  have "0 < e" using e by simp
  then have "int e < 0 \<or> int e = 188 \<or> 0 < int e \<and> int e < 188 \<and> psi_ts_packet pid cc pkts chunk ! nat (int e) = 0xff"
    using packet_fill [OF ch e, of pid cc] by auto
  from recv_packet [OF R packet_length [OF ch] packet_sync packet_fields(3) [OF pid] re this]
  show ?thesis by simp
qed

lemma recv_loop:
  assumes pid: "pid \<le> PID_MAX"
    and s: "length (sec_data s) = PSI_MAX_SIZE" "psi_crc_valid s = Some True" "psi_len (sec_data s) \<le> PSI_MAX_SIZE"
  shows "0 < pkts \<Longrightarrow> 0 < left \<Longrightarrow> left + v = psi_len (sec_data s) \<Longrightarrow>
    psi_partial (sec_data s) pid (cc + pkts - 1) v t \<Longrightarrow> R t rs ds a \<Longrightarrow>
    \<exists>a' t' e. psi_segment_loop (sec_data s) pid cc (psi_len (sec_data s)) left recv pkts a =
        Some (a', pkts + (left - 1) div 184 + 1) \<and>
      R t' (rs @ replicate ((left - 1) div 184) PSI_RC_INCOMPLETE @ [int e]) (ds @ [t']) a' \<and>
      psi_partial (sec_data s) pid (cc + pkts + (left - 1) div 184) (psi_len (sec_data s)) t' \<and> 4 < e"
proof (induction left arbitrary: pkts v t rs a rule: less_induct)
  case (less left)
  let ?d = "sec_data s" and ?L = "psi_len (sec_data s)"
  define n where "n = min left 184"
  have p0: "(pkts = 0) = False" using less.prems by simp
  have nv: "n = min (?L - v) 184" and vL: "?L - left = v" using less.prems by (auto simp: n_def)
  obtain t1 where t1: "psi_reassemble_continue t (psi_ts_packet pid cc pkts (take n (drop v ?d))) 4 = Some (t1, int (4 + n))"
    "psi_partial ?d pid (cc + pkts) (v + n) t1"
    using psi_receive_next [OF pid less.prems(1) s(1,3) less.prems(4) nv] .
  have rd: "memread ?d v n = Some (take n (drop v ?d))"
    using less.prems s by (simp add: memread_def n_def)
  have l: "length (take n (drop v ?d)) = n" using less.prems(3) s nv by simp
  have ln: "length (take n (drop v ?d)) \<le> (if pkts = 0 then 183 else 184)" using p0 by (auto simp: n_def)
  have tv: "sec_valid t \<noteq> 0" using less.prems(4) by (auto simp: psi_partial_def)
  note fin = psi_finish_partial [OF s t1(2), of "int (4 + n)"]
  have re: "psi_reassemble t (psi_ts_packet pid cc pkts (take n (drop v ?d))) 0 =
      Some (t1, if v + n = ?L then int (4 + n) else PSI_RC_INCOMPLETE)"
    using packet_payload [OF pid ln] packet_fields [OF pid] t1(1) fin tv p0 by (simp add: psi_reassemble_def)
  have step: "psi_segment_loop ?d pid cc ?L left recv pkts a =
      (if left - n = 0 then Some (a1, pkts + 1) else psi_segment_loop ?d pid cc ?L (left - n) recv (pkts + 1) a1)"
    if "recv (psi_ts_packet pid cc pkts (take n (drop v ?d))) a = Some a1" for a1
    using rd that less.prems(3) vL p0 unfolding psi_segment_loop.simps [of ?d pid cc ?L left]
    by (auto simp: n_def TS_PACKET_SIZE_def Let_def)
  show ?case
  proof (cases "left \<le> 184")
    case True
    then have z: "(left - 1) div 184 = 0" "n = left" "v + n = ?L" using less.prems(3) by (simp_all add: n_def)
    have e: "4 + n = (if pkts = 0 then 5 else 4) + length (take n (drop v ?d))" using l p0 by simp
    obtain a1 where a1: "recv (psi_ts_packet pid cc pkts (take n (drop v ?d))) a = Some a1"
      "R t1 (rs @ [int (4 + n)]) (ds @ [t1]) a1"
      using recv_last [OF pid less.prems(5) ln _ e, of cc t1] re z(3) by auto
    then show ?thesis using step [OF a1(1)] t1(2) z less.prems(2)
      by - (rule exI [of _ a1], rule exI [of _ t1], rule exI [of _ "4 + n"], simp)
  next
    case False
    then have n: "n = 184" and lt: "left - 184 < left" by (simp_all add: n_def)
    have k: "(left - 1) div 184 = Suc ((left - 184 - 1) div 184)" using False by (simp add: div_if)
    have "v + n \<noteq> ?L" using False n less.prems(3) by simp
    then obtain a1 where a1: "recv (psi_ts_packet pid cc pkts (take n (drop v ?d))) a = Some a1"
      "R t1 (rs @ [PSI_RC_INCOMPLETE]) ds a1"
      using recv_part [OF pid less.prems(5) ln, of cc t1] re by auto
    have ih: "0 < pkts + 1" "0 < left - 184" "left - 184 + (v + 184) = ?L" "psi_partial ?d pid (cc + (pkts + 1) - 1) (v + 184) t1"
      using less.prems t1(2) n False by simp_all
    obtain a' t' e where r: "psi_segment_loop ?d pid cc ?L (left - 184) recv (pkts + 1) a1 =
        Some (a', pkts + 1 + (left - 184 - 1) div 184 + 1)"
      "R t' ((rs @ [PSI_RC_INCOMPLETE]) @ replicate ((left - 184 - 1) div 184) PSI_RC_INCOMPLETE @ [int e]) (ds @ [t']) a'"
      "psi_partial ?d pid (cc + (pkts + 1) + (left - 184 - 1) div 184) ?L t'" "4 < e"
      using less.IH [OF lt ih a1(2)] by blast
    show ?thesis
      using step [OF a1(1)] r n k False
      by - (rule exI [of _ a'], rule exI [of _ t'], rule exI [of _ e], simp)
  qed
qed

lemma recv_sent:
  assumes "pid \<le> PID_MAX" "length (sec_data s) = PSI_MAX_SIZE" "psi_crc_valid s = Some True"
    "PSI_HDR_LEN \<le> psi_len (sec_data s)" "psi_len (sec_data s) \<le> PSI_MAX_SIZE"
    and "length (sec_data t0) = PSI_MAX_SIZE" and R: "R t0 rs ds a"
  obtains a' t e n where "psi_segment_and_send s pid cc recv a = Some (a', n)"
    "R t (rs @ replicate (n - 1) PSI_RC_INCOMPLETE @ [int e]) (ds @ [t]) a'"
    "n = (psi_len (sec_data s) + 184) div 184" "0 < e" "sec_pid t = pid" "psi_crc_valid t = Some True"
    "sec_len t = psi_len (sec_data s)" "sec_valid t = sec_len t"
    "take (sec_len t) (sec_data t) = take (psi_len (sec_data s)) (sec_data s)"
    "length (sec_data t) = PSI_MAX_SIZE"
proof -
  let ?d = "sec_data s" and ?L = "psi_len (sec_data s)"
  have L8: "8 \<le> ?L" using assms by (simp add: PSI_HDR_LEN_def)
  define n where "n = min ?L 183"
  obtain t1 where t1: "psi_reassemble_start t0 (psi_ts_packet pid cc 0 (take n ?d)) 5 = Some (t1, int (5 + n))"
    "psi_partial ?d pid cc n t1"
    using psi_receive_first [OF assms(1,2) L8 assms(5,6) n_def] .
  have rd: "memread ?d 0 n = Some (take n ?d)" using assms by (simp add: memread_def n_def)
  have ln: "length (take n ?d) \<le> (if (0::nat) = 0 then 183 else 184)" by (simp add: n_def)
  have l: "length (take n ?d) = n" using assms by (simp add: n_def)
  note fin = psi_finish_partial [OF assms(2,3,5) t1(2), of "int (5 + n)"]
  have re: "psi_reassemble t0 (psi_ts_packet pid cc 0 (take n ?d)) 0 =
      Some (t1, if n = ?L then int (5 + n) else PSI_RC_INCOMPLETE)"
    using packet_payload [OF assms(1) ln, of cc] packet_fields [OF assms(1), of cc 0 "take n ?d"] t1(1) fin
    by (simp add: psi_reassemble_def)
  have step: "psi_segment_and_send s pid cc recv a =
      (if ?L \<le> 183 then Some (a1, 1) else psi_segment_loop ?d pid cc ?L (?L - 183) recv 1 a1)"
    if "recv (psi_ts_packet pid cc 0 (take n ?d)) a = Some a1" for a1
    using rd that unfolding psi_segment_and_send_def Let_def psi_segment_loop.simps [of ?d pid cc ?L ?L]
    by (auto simp: n_def TS_PACKET_SIZE_def Let_def min_def split: if_splits)
  have done1: "sec_pid t = pid \<and> psi_crc_valid t = Some True \<and> sec_len t = ?L \<and> sec_valid t = sec_len t \<and>
     take (sec_len t) (sec_data t) = take ?L ?d \<and> length (sec_data t) = PSI_MAX_SIZE" if "psi_partial ?d pid c ?L t" for c t
  proof -
    have p: "psi_finish t 0 = Some (t, 0)" using psi_finish_partial [OF assms(2,3,5) that, of 0] by simp
    then have "psi_crc_valid t = Some True"
      by (auto simp: psi_finish_def psi_rc_defs split: if_splits bind_splits)
    with that show ?thesis by (simp add: psi_partial_def)
  qed
  note main = that
  show ?thesis
  proof (cases "?L \<le> 183")
    case True
    then have z: "n = ?L" "(?L + 184) div 184 = 1" using L8 by (simp_all add: n_def)
    have e: "5 + n = (if (0::nat) = 0 then 5 else 4) + length (take n ?d)" using l by simp
    obtain a1 where a1: "recv (psi_ts_packet pid cc 0 (take n ?d)) a = Some a1" "R t1 (rs @ [int (5 + n)]) (ds @ [t1]) a1"
      using recv_last [OF assms(1) R ln _ e, of cc t1] re z(1) by auto
    then have r2: "R t1 (rs @ replicate (1 - 1) PSI_RC_INCOMPLETE @ [int (5 + n)]) (ds @ [t1]) a1" by simp
    have "psi_partial ?d pid cc ?L t1" using t1(2) z by simp
    from done1 [OF this] show ?thesis
      by (intro main [OF _ r2]) (use step [OF a1(1)] True z in auto)
  next
    case False
    then have n: "n = 183" "n \<noteq> ?L" by (simp_all add: n_def)
    obtain a1 where a1: "recv (psi_ts_packet pid cc 0 (take n ?d)) a = Some a1" "R t1 (rs @ [PSI_RC_INCOMPLETE]) ds a1"
      using recv_part [OF assms(1) R ln, of cc t1] re n by auto
    have "psi_partial ?d pid (cc + 1 - 1) 183 t1" using t1(2) n by simp
    then obtain a' t e where r: "psi_segment_loop ?d pid cc ?L (?L - 183) recv 1 a1 =
        Some (a', 1 + (?L - 183 - 1) div 184 + 1)"
      "R t ((rs @ [PSI_RC_INCOMPLETE]) @ replicate ((?L - 183 - 1) div 184) PSI_RC_INCOMPLETE @ [int e]) (ds @ [t]) a'"
      "psi_partial ?d pid (cc + 1 + (?L - 183 - 1) div 184) ?L t" "4 < e"
      using recv_loop [OF assms(1,2,3,5), of 1 "?L - 183" 183 cc t1 "rs @ [PSI_RC_INCOMPLETE]" ds a1] False a1(2) by auto
    have k: "(?L + 184) div 184 = (?L - 183 - 1) div 184 + 2" using False by (simp add: div_if)
    have r2: "R t (rs @ replicate ((?L - 183 - 1) div 184 + 2 - 1) PSI_RC_INCOMPLETE @ [int e]) (ds @ [t]) a'"
      using r(2) by simp
    show ?thesis
      by (rule main [OF _ r2]) (use step [OF a1(1)] False r(1,4) done1 [OF r(3)] k in auto)
  qed
qed

end

text \<open>The simplest receiver: the result of each packet is recorded.\<close>

interpretation psi_log: psi_receiver psi_receive "\<lambda>t rs ds a. a = (t, rs)" pid for pid
  by unfold_locales (simp add: psi_receive_def)

lemma psi_receive_sent:
  assumes "pid \<le> PID_MAX" "length (sec_data s) = PSI_MAX_SIZE" "psi_crc_valid s = Some True"
    "PSI_HDR_LEN \<le> psi_len (sec_data s)" "psi_len (sec_data s) \<le> PSI_MAX_SIZE"
    and "length (sec_data t0) = PSI_MAX_SIZE"
  shows "\<exists>t e n. psi_segment_and_send s pid cc psi_receive (t0, []) =
      Some ((t, replicate (n - 1) PSI_RC_INCOMPLETE @ [int e]), n) \<and>
    n = (psi_len (sec_data s) + 184) div 184 \<and> 0 < e \<and> sec_pid t = pid \<and> psi_crc_valid t = Some True \<and>
    sec_len t = psi_len (sec_data s) \<and> sec_valid t = sec_len t \<and>
    take (sec_len t) (sec_data t) = take (psi_len (sec_data s)) (sec_data s) \<and>
    length (sec_data t) = PSI_MAX_SIZE"
proof -
  obtain a' t e n where "psi_segment_and_send s pid cc psi_receive (t0, []) = Some (a', n)"
    "a' = (t, [] @ replicate (n - 1) PSI_RC_INCOMPLETE @ [int e])"
    "n = (psi_len (sec_data s) + 184) div 184" "0 < e" "sec_pid t = pid" "psi_crc_valid t = Some True"
    "sec_len t = psi_len (sec_data s)" "sec_valid t = sec_len t"
    "take (sec_len t) (sec_data t) = take (psi_len (sec_data s)) (sec_data s)"
    "length (sec_data t) = PSI_MAX_SIZE"
    by (rule psi_log.recv_sent [OF assms, of "(t0, [])" "[]" cc]) (rule refl, blast)
  then show ?thesis by - (rule exI [of _ t], rule exI [of _ e], rule exI [of _ n], simp)
qed

section \<open>Sections that run away\<close>

text \<open>When a header is split over two packets and announces a length below 8, the section
  has collected more than its length: the difference wraps, and each further packet is
  appended as a whole.\<close>

fun psi_receive_all :: "u8 list list \<Rightarrow> psisec \<times> int list \<Rightarrow> (psisec \<times> int list) option" where
  "psi_receive_all [] st = Some st"
| "psi_receive_all (ts # rest) st = do { st \<leftarrow> psi_receive ts st; psi_receive_all rest st }"

lemma psi_receive_all_append:
  "psi_receive_all (xs @ ys) st = psi_receive_all xs st \<bind> psi_receive_all ys"
  by (induction xs arbitrary: st) (auto split: bind_splits)

definition runaway :: "nat \<Rightarrow> nat \<Rightarrow> psisec \<Rightarrow> bool" where
  "runaway cc v t \<longleftrightarrow> length (sec_data t) = PSI_MAX_SIZE \<and> 0 < sec_len t \<and> sec_len t < PSI_HDR_LEN \<and>
     sec_valid t = v \<and> PSI_HDR_LEN \<le> v \<and> sec_cc t = cc mod 16"

abbreviation plain_packet :: "nat \<Rightarrow> u8 list" where
  "plain_packet cc \<equiv> psi_ts_packet 0 0 cc (replicate 184 0)"

lemma plain_fields:
  assumes "0 < cc"
  shows "\<not> ts_pusi (plain_packet cc)" "ts_cc (plain_packet cc) = cc mod 16"
    "psi_payload (plain_packet cc) 0 = Some (Inr 4)" "length (plain_packet cc) = 188"
    "memread (plain_packet cc) 4 184 = Some (replicate 184 0)"
  using assms packet_fields [of 0 0 cc "replicate 184 0"] packet_payload [of 0 "replicate 184 0" cc 0]
    packet_length [of "replicate 184 0" cc 0 0] packet_chunk [of "replicate 184 0" cc 0 0]
  by (simp_all add: PID_MAX_def)

lemma runaway_step:
  assumes t: "runaway cc v t" and v: "v \<le> PSI_MAX_SIZE"
  shows "if v + 184 \<le> PSI_MAX_SIZE
    then \<exists>t'. psi_receive (plain_packet (cc + 1)) (t, rs) = Some (t', rs @ [PSI_RC_INCOMPLETE]) \<and>
      runaway (cc + 1) (v + 184) t'
    else psi_receive (plain_packet (cc + 1)) (t, rs) = None"
proof -
  have f: "0 < cc + 1" by simp
  note ts = plain_fields [OF f]
  have u: "min (u32_of_int (int TS_PACKET_SIZE - int 4)) (usub32 (sec_len t) (sec_valid t)) = 184"
  proof -
    have "sec_len t < v" "v \<le> 4096" using t v by (auto simp: runaway_def PSI_MAX_SIZE_def)
    then have "usub32 (sec_len t) v = sec_len t + 2 ^ 32 - v" by (intro usub32_gt) auto
    moreover have "184 \<le> sec_len t + 2 ^ 32 - v" using \<open>v \<le> 4096\<close> by simp
    ultimately show ?thesis using t by (simp add: runaway_def u32_of_int_def TS_PACKET_SIZE_def)
  qed
  have cc: "(sec_cc t + 1) AND 0xf = ts_cc (plain_packet (cc + 1))"
    using t by (simp only: nat_and_mask ts runaway_def) (simp add: mod_Suc_eq)
  have c: "psi_reassemble_continue t (plain_packet (cc + 1)) 4 = psi_copy_body t (plain_packet (cc + 1)) 4"
    unfolding psi_reassemble_continue_def Let_def cc
    using t by (simp add: psi_complete_header_def runaway_def)
  have r: "psi_receive (plain_packet (cc + 1)) (t, rs) =
     do { (t, r) \<leftarrow> psi_copy_body t (plain_packet (cc + 1)) 4; (t, r) \<leftarrow> psi_finish t r; Some (t, rs @ [r]) }"
    using ts(1,3) c t by (simp add: psi_receive_def psi_reassemble_def runaway_def PSI_HDR_LEN_def split: bind_splits)
  show ?thesis
  proof (cases "v + 184 \<le> PSI_MAX_SIZE")
    case True
    have "sec_valid t + length (replicate 184 (0 :: u8)) \<le> length (sec_data t)" using True t by (simp add: runaway_def)
    then obtain d where d: "memwrite (sec_data t) (sec_valid t) (replicate 184 0) = Some d" "length d = length (sec_data t)"
      by (rule memwrite_obtain)
    define t' where "t' = t\<lparr>sec_data := d, sec_valid := v + 184, sec_cc := (cc + 1) mod 16\<rparr>"
    have "psi_copy_body t (plain_packet (cc + 1)) 4 = Some (t', int (4 + 184))"
      using d(1) t unfolding psi_copy_body_def u Let_def ts by (simp add: t'_def runaway_def)
    moreover have "runaway (cc + 1) (v + 184) t'" using t d(2) by (simp add: runaway_def t'_def)
    moreover have "sec_len t' \<noteq> sec_valid t'" using t by (simp add: t'_def runaway_def)
    ultimately show ?thesis using True r by (simp add: psi_finish_def)
  next
    case False
    have "length (sec_data t) < sec_valid t + length (replicate 184 (0 :: u8))" using False t by (simp add: runaway_def)
    then have "memwrite (sec_data t) (sec_valid t) (replicate 184 0) = None" by (rule memwrite_None)
    then have "psi_copy_body t (plain_packet (cc + 1)) 4 = None"
      unfolding psi_copy_body_def u Let_def ts by simp
    then show ?thesis using False r by simp
  qed
qed

lemma runaway_run:
  "runaway cc v t \<Longrightarrow> v + 184 * n \<le> PSI_MAX_SIZE \<Longrightarrow>
   \<exists>t' rs'. psi_receive_all (map plain_packet [cc + 1..<cc + 1 + n]) (t, rs) = Some (t', rs') \<and>
     runaway (cc + n) (v + 184 * n) t'"
proof (induction n)
  case (Suc n)
  obtain t1 rs1 where 1: "psi_receive_all (map plain_packet [cc + 1..<cc + 1 + n]) (t, rs) = Some (t1, rs1)"
    "runaway (cc + n) (v + 184 * n) t1"
    using Suc by auto
  have le: "v + 184 * n + 184 \<le> PSI_MAX_SIZE" "v + 184 * n \<le> PSI_MAX_SIZE" using Suc.prems by auto
  obtain t2 where "psi_receive (plain_packet (cc + n + 1)) (t1, rs1) = Some (t2, rs1 @ [PSI_RC_INCOMPLETE])"
    "runaway (cc + n + 1) (v + 184 * n + 184) t2"
    using runaway_step [OF 1(2) le(2)] le(1) by auto
  then show ?case using 1 by (simp add: psi_receive_all_append algebra_simps)
qed simp

definition runt_packet :: "u8 list" where
  "runt_packet = (psi_ts_packet 0 0 0 [])[4 := 182]"

lemma runt_receive:
  "psi_receive runt_packet (psi_section_new, []) =
     Some (psi_section_new\<lparr>sec_valid := 1, sec_data := 0xff # replicate 4095 0\<rparr>, [PSI_RC_INCOMPLETE])"
proof -
  have eq: "runt_packet = [0x47, 0x40, 0, 0x10, 182] @ replicate 183 0xff"
    by (simp add: runt_packet_def psi_ts_packet_first update_4)
  have "\<not> ts_tei runt_packet" "ts_pusi runt_packet" "ts_has_payload runt_packet" "ts_cc runt_packet = 0"
    "ts_payload_start runt_packet = 4" "ts_pid runt_packet = 0" "runt_packet ! 4 = 182" "length runt_packet = 188"
    by (simp_all add: eq ts_tei_def ts_pusi_def ts_has_payload_def ts_cc_def ts_payload_start_def ts_af_len_def
       ts_has_af_def ts_afc_def ts_pid_def be16_def)
  moreover have "memread runt_packet 187 1 = Some [0xff]"
    by (simp add: eq memread_def)
  moreover have "memwrite (sec_data psi_section_new) 0 [0xff] = Some (0xff # replicate 4095 0)"
    by (simp add: memwrite_def psi_section_new_def PSI_MAX_SIZE_def)
  ultimately show ?thesis
    by (simp add: psi_receive_def psi_reassemble_def psi_payload_def peek_def psi_reassemble_start_def size_defs
      psi_finish_def psi_section_clear_def psi_section_new_def)
qed

lemma runt_continue:
  "\<exists>t rs. psi_receive (plain_packet 1) (psi_section_new\<lparr>sec_valid := 1, sec_data := 0xff # replicate 4095 0\<rparr>, rs0) =
     Some (t, rs) \<and> runaway 1 185 t"
proof -
  have f: "0 < (1::nat)" by simp
  note ts = plain_fields [OF f]
  have d4: "drop 4 (plain_packet 1) = replicate 184 0"
    using update_4(10) [of 0] by (simp add: psi_ts_packet_next)
  have rd: "memread (plain_packet 1) (4 + a) n = Some (replicate n 0)" if "a + n \<le> 184" for a n
  proof -
    have "drop (4 + a) (plain_packet 1) = drop a (drop 4 (plain_packet 1))"
      by (simp only: drop_drop add.commute [of a 4])
    then have "drop (4 + a) (plain_packet 1) = drop a (replicate 184 0)" by (simp only: d4)
    then show ?thesis using that ts(4) by (simp add: memread_def min_def)
  qed
  have w1: "memwrite (0xff # replicate 4095 0) 1 (replicate 7 0) = Some ((0xff :: u8) # replicate 4095 0)"
    by (simp add: memwrite_def flip: replicate_add)
  have "\<exists>d. memwrite ((0xff :: u8) # replicate 4095 0) 8 (replicate 177 0) = Some d \<and> length d = 4096"
    by (simp add: memwrite_def)
  then obtain d where d: "memwrite ((0xff :: u8) # replicate 4095 0) 8 (replicate 177 0) = Some d" "length d = 4096"
    by blast
  have len: "psi_len (0xff # replicate 4095 0) = 3" by (simp add: psi_len_def be16_def)
  define t0 where "t0 = psi_section_new\<lparr>sec_valid := 1, sec_data := 0xff # replicate 4095 0\<rparr>"
  have t0: "sec_len t0 = 0" "sec_valid t0 = 1" "sec_data t0 = 0xff # replicate 4095 0" "sec_cc t0 = 0"
    by (simp_all add: t0_def psi_section_new_def)
  have h: "psi_complete_header t0 (plain_packet 1) 4 = Some (t0\<lparr>sec_valid := 8, sec_len := 3\<rparr>, 11)"
  proof -
    have u: "usub32 PSI_HDR_LEN 1 = 7" by (simp add: usub32_def PSI_HDR_LEN_def)
    have "t0\<lparr>sec_data := 0xff # replicate 4095 0, sec_valid := 8, sec_len := 3\<rparr> = t0\<lparr>sec_valid := 8, sec_len := 3\<rparr>"
      using t0(3) by simp
    then show ?thesis unfolding psi_complete_header_def t0 u Let_def
      using rd [of 0 7] w1 len by simp
  qed
  have b: "psi_copy_body (t0\<lparr>sec_valid := 8, sec_len := 3\<rparr>) (plain_packet 1) 11 =
      Some (t0\<lparr>sec_valid := 185, sec_len := 3, sec_data := d, sec_cc := 1\<rparr>, 188)"
  proof -
    have u: "min (u32_of_int (int TS_PACKET_SIZE - int 11)) (usub32 3 8) = 177"
      by (simp add: usub32_def u32_of_int_def TS_PACKET_SIZE_def)
    have "memread (plain_packet 1) 11 177 = Some (replicate 177 0)" using rd [of 7 177] by simp
    then show ?thesis using u d(1) t0 ts(2) unfolding psi_copy_body_def Let_def by simp
  qed
  have "psi_receive (plain_packet 1) (t0, rs0) =
      Some (t0\<lparr>sec_valid := 185, sec_len := 3, sec_data := d, sec_cc := 1\<rparr>, rs0 @ [PSI_RC_INCOMPLETE])"
    using ts h b t0 by (simp add: psi_receive_def psi_reassemble_def psi_reassemble_continue_def psi_finish_def)
  then show ?thesis unfolding t0_def [symmetric] using d(2)
    by (simp add: runaway_def PSI_MAX_SIZE_def PSI_HDR_LEN_def)
qed

lemma psi_crc_valid_iff:
  assumes "psi_crc_valid s = Some b"
  shows "b \<longleftrightarrow> crc32_be 0 0xffffffff (take (psi_len (sec_data s)) (sec_data s)) = 0"
proof -
  let ?L = "psi_len (sec_data s)" and ?d = "sec_data s"
  from assms have L: "4 \<le> ?L" "?L \<le> length ?d"
    by (auto simp: psi_crc_valid_def psi_crc_def memread_def split: if_splits bind_splits)
  obtain w x y z where q: "take 4 (drop (?L - 4) ?d) = [w, x, y, z]"
  proof -
    have "length (take 4 (drop (?L - 4) ?d)) = 4" using L by simp
    then show ?thesis using that by (rule length_4E)
  qed
  have "take ?L ?d = take (?L - 4) ?d @ [w, x, y, z]"
    using take_add [of "?L - 4" 4 ?d] L q by simp
  then have "crc32_be 0 0xffffffff (take ?L ?d) = 0 \<longleftrightarrow> be_word w x y z = crc32_be 0 0xffffffff (take (?L - 4) ?d)"
    unfolding crc32_be_eq be_word_place by (simp only: be.run_checksum)
  moreover have "psi_crc s = Some (be_word w x y z)" "psi_ccrc s = Some (crc32_be 0 0xffffffff (take (?L - 4) ?d))"
    using L q by (auto simp: psi_crc_def psi_ccrc_def memread_def)
  ultimately show ?thesis using assms by (simp add: psi_crc_valid_def)
qed

section \<open>A section for examples\<close>

definition sec12 :: psisec where
  "sec12 = psi_section_new\<lparr>sec_data := [0, 0, 9, 0, 0, 0, 0, 0, 0xab, 0x6c, 0xdd, 0xe1] @ replicate 4084 0\<rparr>"

lemma sec12_len: "psi_len (sec_data sec12) = 12" "length (sec_data sec12) = PSI_MAX_SIZE"
  by (simp_all add: sec12_def psi_len_def be16_def PSI_MAX_SIZE_def)

lemma sec12_crc: "psi_crc_valid sec12 = Some True"
proof -
  have "take 8 (sec_data sec12) = [0, 0, 9, 0, 0, 0, 0, 0]" "take 4 (drop 8 (sec_data sec12)) = [0xab, 0x6c, 0xdd, 0xe1]"
    "length (sec_data sec12) = 4096"
    by (simp_all add: sec12_def)
  then show ?thesis
    unfolding psi_crc_valid_def psi_crc_def psi_ccrc_def sec12_len memread_def
    by (simp add: crc32_be_eq be_word_def funpow_8 crc_be_bit_def CRCPOLY_BE_def)
qed

section \<open>Properties\<close>



text \<open>C6: Segmentation and reassembly are inverse: when the callback of
  \<^verbatim>\<open>psi_segment_and_send\<close> hands each packet to \<^verbatim>\<open>psi_reassemble\<close>, every call but the
  last one answers that the section is incomplete, and the last one completes a section with
  the same bytes, length and pid and a valid CRC, whatever the receiver held before.  It
  takes one packet per 184 bytes, the pointer field included.\<close>

theorem psi_segment_reassemble:
  assumes "pid \<le> PID_MAX" "length (sec_data s) = PSI_MAX_SIZE" "psi_crc_valid s = Some True"
    "PSI_HDR_LEN \<le> psi_len (sec_data s)" "psi_len (sec_data s) \<le> PSI_MAX_SIZE"
    and "length (sec_data t0) = PSI_MAX_SIZE"
  shows "\<exists>t e n. psi_segment_and_send s pid cc psi_receive (t0, []) =
      Some ((t, replicate (n - 1) PSI_RC_INCOMPLETE @ [int e]), n) \<and>
    n = (psi_len (sec_data s) + 184) div 184 \<and> 0 < e \<and> sec_pid t = pid \<and> psi_crc_valid t = Some True \<and>
    sec_len t = psi_len (sec_data s) \<and> sec_valid t = sec_len t \<and>
    take (sec_len t) (sec_data t) = take (psi_len (sec_data s)) (sec_data s)"
  using psi_receive_sent [OF assms, of cc] by blast


theorem psi_segment_reassemble_witness:
  "\<exists>t e n. psi_segment_and_send sec12 17 5 psi_receive (psi_section_new, []) =
      Some ((t, replicate (n - 1) PSI_RC_INCOMPLETE @ [int e]), n)"
  using psi_segment_reassemble [of 17 sec12 psi_section_new 5] sec12_crc sec12_len
  by (auto simp: PID_MAX_def PSI_HDR_LEN_def PSI_MAX_SIZE_def psi_section_new_def)

text \<open>Reassembly writes behind the section's buffer on a stream a sender can make: a
  packet that carries one byte of a header, then packets whose payload is zero, so that the
  completed header announces 3 bytes.  After 23 packets the section holds 4049 of its 4096
  bytes, and the next packet's 184 bytes are written over its end.\<close>

theorem psi_reassemble_overflow:
  "psi_receive_all (runt_packet # map plain_packet [1..<23]) (psi_section_new, []) \<noteq> None \<and>
   psi_receive_all (runt_packet # map plain_packet [1..<24]) (psi_section_new, []) = None"
proof -
  obtain t rs where 1: "psi_receive (plain_packet 1) (psi_section_new\<lparr>sec_valid := 1, sec_data := 0xff # replicate 4095 0\<rparr>, [PSI_RC_INCOMPLETE]) =
     Some (t, rs)" "runaway 1 185 t" using runt_continue by blast
  have "\<exists>t' rs'. psi_receive_all (map plain_packet [1 + 1..<1 + 1 + 21]) (t, rs) = Some (t', rs') \<and> runaway (1 + 21) (185 + 184 * 21) t'"
    by (rule runaway_run [OF 1(2)]) (simp add: PSI_MAX_SIZE_def)
  then obtain t' rs' where 2: "psi_receive_all (map plain_packet [1 + 1..<1 + 1 + 21]) (t, rs) = Some (t', rs')" "runaway (1 + 21) (185 + 184 * 21) t'"
    by blast
  have "185 + 184 * 21 \<le> PSI_MAX_SIZE" "\<not> 185 + 184 * 21 + 184 \<le> PSI_MAX_SIZE" by (simp_all add: PSI_MAX_SIZE_def)
  then have 3: "psi_receive (plain_packet (1 + 21 + 1)) (t', rs') = None"
    using runaway_step [OF 2(2), of rs'] by presburger
  have u: "[1..<23] = 1 # [1 + 1..<1 + 1 + 21]" "[1..<24] = 1 # [1 + 1..<1 + 1 + 21] @ [1 + 21 + 1]" by (simp_all add: upt_rec)
  show ?thesis
    unfolding u list.map map_append psi_receive_all.simps psi_receive_all_append runt_receive bind.bind_lunit 1(1) 2(1) 3
    by simp
qed

text \<open>A section damaged within four consecutive bytes is rejected: if its CRC was right
  before, it is not afterwards (the three bytes up to the length field apart).\<close>

theorem psi_crc_detects_burst:
  assumes "psi_crc_valid s = Some True"
    and "take (psi_len (sec_data s)) (sec_data s) = p @ v @ q" "sec_data s' = p @ w @ q @ r"
    and "length v = 4" "length w = 4" "v \<noteq> w" "3 \<le> length p"
    and "length (sec_data s') = PSI_MAX_SIZE"
  shows "psi_crc_valid s' = Some False"
proof -
  let ?L = "psi_len (sec_data s)"
  have ok: "4 \<le> ?L" "?L \<le> length (sec_data s)" 
    using assms(1) by (auto simp: psi_crc_valid_def psi_crc_def memread_def split: if_splits bind_splits)
  have L: "?L = length p + 4 + length q"
    using arg_cong [OF assms(2), of length] assms(4) ok by simp
  have "sec_data s = (p @ v @ q) @ drop ?L (sec_data s)"
    using append_take_drop_id [of ?L "sec_data s"] assms(2) by simp
  then have d: "i < length p \<Longrightarrow> sec_data s ! i = p ! i" for i
    by (metis append_assoc nth_append)
  have L': "psi_len (sec_data s') = ?L"
    using d assms(3,7) by (intro psi_len_cong) (simp_all add: nth_append)
  have tk: "take ?L (sec_data s') = p @ w @ q" using assms(3,5) L by simp
  obtain b where b: "psi_crc_valid s' = Some b"
    using psi_crc_valid_total [of s'] assms(8,3,5) ok L L' by auto
  have "\<not> b"
  proof
    assume b
    then have "crc32_be 0 0xffffffff (p @ w @ q) = 0"
      using psi_crc_valid_iff [OF b] L' tk by simp
    moreover have "crc32_be 0 0xffffffff (p @ v @ q) = 0"
      using psi_crc_valid_iff [OF assms(1)] assms(2) by simp
    ultimately show False using be.run_burst [OF assms(4,5), of "0xffffffff" p q] assms(6) by (simp add: crc32_be_eq)
  qed
  with b show ?thesis by simp
qed

theorem psi_crc_detects_burst_witness:
  "psi_crc_valid (psi_section_new\<lparr>sec_data :=
     [0, 0, 9] @ [1, 0, 0, 0] @ [0, 0xab, 0x6c, 0xdd, 0xe1] @ replicate 4084 0\<rparr>) = Some False"
  by (rule psi_crc_detects_burst [of sec12 "[0, 0, 9]" "[0, 0, 0, 0]" "[0, 0xab, 0x6c, 0xdd, 0xe1]"
        _ "[1, 0, 0, 0]" "replicate 4084 0"])
    (simp_all add: sec12_crc sec12_len, simp_all add: sec12_def PSI_MAX_SIZE_def)

text \<open>The section table: the update reports a change exactly when the table had no
  section of that number or one of another version, it then holds the given section, no
  other entry changes, and the only section number the code's array has no room for
  is 255.\<close>

theorem psi_update_table_spec:
  assumes "length psi = PSI_SECTION_MAX"
  defines "n s \<equiv> psi_section_number (sec_data s)"
  shows "case psi_update_table psi s of
      None \<Rightarrow> n s = 255
    | Some (psi', new) \<Rightarrow>
        length psi' = PSI_SECTION_MAX \<and>
        (\<forall>i. i \<noteq> n s \<longrightarrow> psi' ! i = psi ! i) \<and>
        (\<exists>t. psi' ! n s = Some t \<and> psi_version (sec_data t) = psi_version (sec_data s) \<and>
          (new \<longrightarrow> t = s) \<and> (\<not> new \<longrightarrow> psi ! n s = Some t)) \<and>
        (new \<longleftrightarrow> (\<forall>t. psi ! n s = Some t \<longrightarrow> psi_version (sec_data t) \<noteq> psi_version (sec_data s)))"
proof -
  have lt: "n s < 256" by (simp add: n_def psi_section_number_def)
  show ?thesis
    using assms(1) lt
    by (auto simp: psi_update_table_def n_def [symmetric] peek_def poke_def PSI_SECTION_MAX_def Let_def
        psi_section_clone_def split: option.splits if_splits bind_splits)
qed

theorem psi_update_table_spec_witness:
  "\<exists>psi'. psi_update_table psi_new sec12 = Some (psi', True)"
  using psi_update_table_spec [of psi_new sec12]
  by (simp add: psi_new_def sec12_def psi_section_number_def PSI_SECTION_MAX_def split: option.splits prod.splits)

text \<open>A section taken from a buffer is accepted exactly when the buffer's length is the
  announced one and the CRC over all of it is 0; the copy is exact, and the only buffers on
  which the function reads outside of the section are those that announce fewer than 4 or
  more than 4096 bytes.\<close>

theorem psi_section_fromdata_spec:
  assumes "length (sec_data s) = PSI_MAX_SIZE" "3 \<le> len" "len \<le> PSI_MAX_SIZE" "len \<le> length data"
  shows "case psi_section_fromdata s pid data len of
      None \<Rightarrow> psi_len data < 4 \<or> PSI_MAX_SIZE < psi_len data
    | Some (s', rc) \<Rightarrow>
        sec_pid s' = pid \<and> sec_len s' = len \<and> sec_valid s' = 0 \<and> take len (sec_data s') = take len data \<and>
        (rc = PSI_RC_OK \<longleftrightarrow> psi_len data = len \<and> crc32_be 0 0xffffffff (take len data) = 0)"
proof -
  have r: "memread data 0 len = Some (take len data)" using assms by (simp add: memread_def)
  have "0 + length (take len data) \<le> length (sec_data s)" using assms by simp
  then obtain d where d: "memwrite (sec_data s) 0 (take len data) = Some d" "length d = length (sec_data s)"
    by (rule memwrite_obtain)
  have tk: "take len d = take len data" using memwrite_take [OF d(1)] assms by simp
  have nth: "d ! i = data ! i" if "i < len" for i using that tk by (metis nth_take)
  have L: "psi_len d = psi_len data"
    using nth assms(2) by (intro psi_len_cong) simp_all
  define s' where "s' = (psi_section_clear s)\<lparr>sec_data := d, sec_pid := pid, sec_len := len, sec_valid := 0\<rparr>"
  have eq: "psi_section_fromdata s pid data len = do { ok \<leftarrow> psi_crc_valid s';
        Some (s', if \<not> ok then PSI_RC_CRCFAIL else if psi_len d \<noteq> len then PSI_RC_LENFAIL else PSI_RC_OK) }"
    by (simp add: psi_section_fromdata_def r d psi_section_valid_def Let_def s'_def)
  show ?thesis
  proof (cases "psi_crc_valid s'")
    case None
    then show ?thesis using eq psi_crc_valid_total [of s'] assms d(2) L by (fastforce simp: s'_def)
  next
    case (Some b)
    then show ?thesis
      using eq psi_crc_valid_iff [OF Some] L tk by (cases b) (auto simp: s'_def psi_rc_defs)
  qed
qed

theorem psi_section_fromdata_spec_witness:
  "case psi_section_fromdata psi_section_new 18 [0, 0, 9, 0, 0, 0, 0, 0, 0xab, 0x6c, 0xdd, 0xe1] 12 of
     None \<Rightarrow> False | Some (s', rc) \<Rightarrow> sec_pid s' = 18 \<and> sec_len s' = 12"
  using psi_section_fromdata_spec [of psi_section_new 12 "[0, 0, 9, 0, 0, 0, 0, 0, 0xab, 0x6c, 0xdd, 0xe1]" 18]
  by (auto simp: psi_section_new_def PSI_MAX_SIZE_def psi_len_def be16_def split: option.splits prod.splits)

end
