(* ===== verification/Fifo.thy ===== *)
theory Fifo
  imports Prelude
begin

text \<open>
  The contract of the packet buffers the outputs collect packets in: atoms of a fixed size
  are appended until the buffer is full.  \<open>slots\<close> reads the atoms out of a byte array, the
  locale \<open>bounded_fifo\<close> states what an \<open>add\<close> operation promises, and its lemmas say what
  any sequence of additions leaves in the buffer.
\<close>

section \<open>Byte arrays as atoms\<close>

definition slots :: "nat \<Rightarrow> 'a list \<Rightarrow> nat \<Rightarrow> 'a list list" where
  "slots sz xs n = map (\<lambda>i. take sz (drop (i * sz) xs)) [0..<n]"

lemma slots_length [simp]: "length (slots sz xs n) = n"
  by (simp add: slots_def)

lemma slots_nth: "i < n \<Longrightarrow> slots sz xs n ! i = take sz (drop (i * sz) xs)"
  by (simp add: slots_def)

lemma slots_0 [simp]: "slots sz xs 0 = []"
  by (simp add: slots_def)

lemma slots_append: "slots sz xs (m + n) = slots sz xs m @ slots sz (drop (m * sz) xs) n"
  by (rule nth_equalityI) (auto simp: slots_nth nth_append add_mult_distrib algebra_simps)

lemma slots_take: "k \<le> n \<Longrightarrow> take k (slots sz xs n) = slots sz xs k"
  by (rule nth_equalityI) (auto simp: slots_nth)

lemma slots_take_min: "take k (slots sz xs n) = slots sz xs (min k n)"
  by (rule nth_equalityI) (auto simp: slots_nth)

lemma slots_cong:
  "(\<And>i. i < n \<Longrightarrow> take sz (drop (i * sz) xs) = take sz (drop (i * sz) ys)) \<Longrightarrow> slots sz xs n = slots sz ys n"
  by (simp add: slots_def)

lemma concat_slots: "n * sz \<le> length xs \<Longrightarrow> concat (slots sz xs n) = take (n * sz) xs"
proof (induction n)
  case (Suc n)
  then have "concat (slots sz xs n) = take (n * sz) xs" by simp
  then show ?case
    using slots_append [of sz xs n 1] by (simp add: slots_def add.commute [of sz] take_add)
qed simp

text \<open>Writing whole atoms.\<close>

lemma memwrite_slot:
  assumes w: "memwrite xs (h * sz) ys = Some zs" and n: "length ys = n * sz" and l: "length xs = m * sz"
    and i: "i < m"
  shows "take sz (drop (i * sz) zs) =
    (if h \<le> i \<and> i < h + n then take sz (drop ((i - h) * sz) ys) else take sz (drop (i * sz) xs))"
proof (cases "sz = 0")
  case False
  then have sz: "0 < sz" by simp
  have ib: "i * sz \<le> m * sz" using i by simp
  have lz: "length zs = m * sz" using memwrite_length [OF w] l by simp
  have fits: "i * sz + sz \<le> m * sz" using i by (metis Suc_leI mult_Suc mult_le_mono1 add.commute)
  have nz: "zs ! j = (if h * sz \<le> j \<and> j < h * sz + n * sz then ys ! (j - h * sz) else xs ! j)" for j
    using memwrite_nth [OF w, of j] n by simp
  have hn: "h + n \<le> m"
    using w l n sz by (auto simp: memwrite_def simp flip: add_mult_distrib split: if_splits)
  show ?thesis
  proof (cases "h \<le> i \<and> i < h + n")
    case True
    then have "Suc (i - h) \<le> n" by linarith
    then have b: "(i - h) * sz + sz \<le> n * sz" by (metis mult_Suc mult_le_mono1 add.commute)
    have e: "i * sz = h * sz + (i - h) * sz" using True by (simp flip: add_mult_distrib)
    show ?thesis
      using True b e fits ib lz n by (intro nth_equalityI) (auto simp: nz)
  next
    case False
    then have "i < h \<or> h + n \<le> i" by auto
    then have "i * sz + sz \<le> h * sz \<or> h * sz + n * sz \<le> i * sz"
      by (metis Suc_leI add_mult_distrib mult_Suc mult_le_mono1 add.commute)
    then show ?thesis
      using False fits ib lz l by (intro nth_equalityI) (auto simp: nz)
  qed
qed simp

section \<open>The contract\<close>

locale bounded_fifo =
  fixes wf :: "'s \<Rightarrow> bool"
    and items :: "'s \<Rightarrow> 'a list list"
    and cap :: "'s \<Rightarrow> nat"
    and asize :: "'s \<Rightarrow> nat"
    and add :: "'s \<Rightarrow> 'a list \<Rightarrow> nat \<Rightarrow> ('s \<times> nat) option"
  assumes items_bound: "wf s \<Longrightarrow> length (items s) \<le> cap s"
    and add_ok: "wf s \<Longrightarrow> num * asize s \<le> length src \<Longrightarrow>
      \<exists>s'. add s src num = Some (s', min num (cap s - length (items s))) \<and> wf s' \<and>
        items s' = items s @ slots (asize s) src (min num (cap s - length (items s))) \<and>
        cap s' = cap s \<and> asize s' = asize s"
begin

fun add_all :: "('a list \<times> nat) list \<Rightarrow> 's \<Rightarrow> 's option" where
  "add_all [] s = Some s"
| "add_all ((src, num) # reqs) s = do { (s, _) \<leftarrow> add s src num; add_all reqs s }"

lemma add_items:
  assumes "wf s" "num * asize s \<le> length src"
  obtains s' k where "add s src num = Some (s', k)" "wf s'" "cap s' = cap s" "asize s' = asize s"
    "items s' = take (cap s) (items s @ slots (asize s) src num)"
    "k = min num (cap s - length (items s))"
  using add_ok [OF assms] items_bound [OF assms(1)]
  by (auto simp: slots_take_min min.commute)

lemma add_all_items:
  "wf s \<Longrightarrow> \<forall>(src, num) \<in> set reqs. num * asize s \<le> length src \<Longrightarrow>
   \<exists>s'. add_all reqs s = Some s' \<and> wf s' \<and> cap s' = cap s \<and>
     items s' = take (cap s) (items s @ concat (map (\<lambda>(src, num). slots (asize s) src num) reqs))"
proof (induction reqs arbitrary: s)
  case Nil
  then show ?case using items_bound by simp
next
  case (Cons r reqs)
  obtain src num where r: "r = (src, num)" by fastforce
  obtain s1 k where s1: "add s src num = Some (s1, k)" "wf s1" "cap s1 = cap s" "asize s1 = asize s"
    "items s1 = take (cap s) (items s @ slots (asize s) src num)"
    using add_items Cons.prems r by (metis (mono_tags, lifting) case_prodD list.set_intros(1))
  have "\<forall>(src, num) \<in> set reqs. num * asize s1 \<le> length src" using Cons.prems s1 by simp
  from Cons.IH [OF s1(2) this] obtain s' where s': "add_all reqs s1 = Some s'" "wf s'" "cap s' = cap s1"
    "items s' = take (cap s1) (items s1 @ concat (map (\<lambda>(src, num). slots (asize s1) src num) reqs))"
    by blast
  have "items s' = take (cap s) (items s @ concat (map (\<lambda>(src, num). slots (asize s) src num) (r # reqs)))"
    unfolding s'(4) s1(3,4,5) take_take_append r by simp
  with s1 s' r show ?case by simp
qed

lemma add_full: "wf s \<Longrightarrow> num * asize s \<le> length src \<Longrightarrow> length (items s) = cap s \<Longrightarrow>
   \<exists>s'. add s src num = Some (s', 0) \<and> items s' = items s"
  using add_ok [of s num src] by auto

end

section \<open>Outputs that send a full buffer\<close>

text \<open>An output takes packets one by one; it queues them and, when no further one would fit,
  sends the whole queue as one batch.  The consequence for a sequence of packets: nothing is
  lost, doubled or reordered, and every batch is full.\<close>

locale batcher =
  fixes ok :: "'s \<Rightarrow> bool"
    and good :: "'a \<Rightarrow> bool"
    and queued :: "'s \<Rightarrow> 'a list"
    and sent :: "'s \<Rightarrow> 'a list list"
    and cap :: nat
    and put :: "'a \<Rightarrow> 's \<Rightarrow> 's option"
  assumes queued_bound: "ok s \<Longrightarrow> length (queued s) < cap"
    and put_ok: "ok s \<Longrightarrow> good x \<Longrightarrow> \<exists>s'. put x s = Some s' \<and> ok s' \<and>
      (if Suc (length (queued s)) < cap then queued s' = queued s @ [x] \<and> sent s' = sent s
       else queued s' = [] \<and> sent s' = sent s @ [queued s @ [x]])"
begin

fun put_all :: "'a list \<Rightarrow> 's \<Rightarrow> 's option" where
  "put_all [] s = Some s"
| "put_all (x # xs) s = Option.bind (put x s) (put_all xs)"

lemma put_all_batches:
  "ok s \<Longrightarrow> \<forall>x \<in> set xs. good x \<Longrightarrow>
   \<exists>s' new. put_all xs s = Some s' \<and> ok s' \<and> sent s' = sent s @ new \<and>
     (\<forall>b \<in> set new. length b = cap) \<and> concat new @ queued s' = queued s @ xs"
proof (induction xs arbitrary: s)
  case (Cons x xs)
  have "good x" using Cons.prems(2) by simp
  then obtain s1 where s1: "put x s = Some s1" "ok s1"
    and c: "if Suc (length (queued s)) < cap then queued s1 = queued s @ [x] \<and> sent s1 = sent s
      else queued s1 = [] \<and> sent s1 = sent s @ [queued s @ [x]]"
    using put_ok [OF Cons.prems(1)] by blast
  obtain s' new where s': "put_all xs s1 = Some s'" "ok s'" "sent s' = sent s1 @ new"
    "\<forall>b \<in> set new. length b = cap" "concat new @ queued s' = queued s1 @ xs"
    using Cons.IH [OF s1(2)] Cons.prems(2) by auto
  show ?case
  proof (cases "Suc (length (queued s)) < cap")
    case True
    then show ?thesis using s1 s' c by (intro exI [of _ s'] exI [of _ new]) simp
  next
    case False
    have "length (queued s @ [x]) = cap" using False queued_bound [OF Cons.prems(1)] by simp
    then show ?thesis
      using False s1 s' c by (intro exI [of _ s'] exI [of _ "(queued s @ [x]) # new"]) simp
  qed
qed simp

lemma concat_length_cap: "\<forall>b \<in> set bs. length b = cap \<Longrightarrow> length (concat bs) = cap * length bs"
  by (induction bs) simp_all

lemma put_all_count:
  assumes "ok s" "\<forall>x \<in> set xs. good x" "put_all xs s = Some s'"
  shows "length (sent s') = length (sent s) + (length (queued s) + length xs) div cap"
proof -
  obtain new where n: "ok s'" "sent s' = sent s @ new" "\<forall>b \<in> set new. length b = cap"
    "concat new @ queued s' = queued s @ xs"
    using put_all_batches [OF assms(1,2)] assms(3) by auto
  have "length (queued s) + length xs = cap * length new + length (queued s')"
    using arg_cong [OF n(4), of length] concat_length_cap [OF n(3)] by simp
  moreover have "length (queued s') < cap" using queued_bound [OF n(1)] .
  ultimately show ?thesis using n(2) by simp
qed

lemma put_all_append: "put_all (xs @ ys) s = Option.bind (put_all xs s) (put_all ys)"
  by (induction xs arbitrary: s) (auto split: Option.bind_splits)

end

end
