(* ===== verification/Ringbuffer.thy ===== *)
theory Ringbuffer
  imports Fifo
begin

text \<open>
  \<^verbatim>\<open>ringbuffer.c\<close>: a ring of atoms.  The record has the fields of
  \<^verbatim>\<open>struct ringbuffer_s\<close>; \<open>None\<close> stands for a failed \<^verbatim>\<open>assert\<close> or a copy outside of
  the buffer.  \<open>rb_items\<close> is the abstraction: the atoms from the tail on, in order.  The
  invariant \<open>rb_wf\<close> ties head, tail and fill level together, and the buffer is an
  implementation of \<open>bounded_fifo\<close>.
\<close>

record ringbuffer =
  rb_buffer :: "u8 list"
  rb_atoms :: nat
  rb_atomsize :: nat
  rb_used :: nat
  rb_head :: nat
  rb_tail :: nat

text \<open>\<^verbatim>\<open>malloc\<close> leaves the bytes undefined: they are the argument \<open>junk\<close>.\<close>

definition ringbuffer_init :: "u8 list \<Rightarrow> nat \<Rightarrow> nat \<Rightarrow> ringbuffer" where
  "ringbuffer_init junk atoms atomsize =
     \<lparr>rb_buffer = take (atomsize * atoms) (junk @ replicate (atomsize * atoms) 0),
      rb_atoms = atoms, rb_atomsize = atomsize, rb_used = 0, rb_head = 0, rb_tail = 0\<rparr>"

definition ringbuffer_headroom :: "ringbuffer \<Rightarrow> nat" where
  "ringbuffer_headroom rb =
     (if rb_used rb \<ge> rb_atoms rb then 0
      else if rb_tail rb > rb_head rb then rb_tail rb - rb_head rb
      else rb_atoms rb - rb_head rb)"

definition ringbuffer_push :: "ringbuffer \<Rightarrow> nat \<Rightarrow> ringbuffer option" where
  "ringbuffer_push rb num =
     (let head = rb_head rb + num;
          head = (if head \<ge> rb_atoms rb then head - rb_atoms rb else head);
          used = rb_used rb + num
      in if used \<le> rb_atoms rb then Some (rb\<lparr>rb_head := head, rb_used := used\<rparr>) else None)"

definition ringbuffer_add_atoms :: "ringbuffer \<Rightarrow> u8 list \<Rightarrow> nat \<Rightarrow> (ringbuffer \<times> nat) option" where
  "ringbuffer_add_atoms rb atom num =
     (let headroom = ringbuffer_headroom rb
      in if headroom = 0 then Some (rb, 0)
      else do {
        let atoms = min headroom num;
        chunk \<leftarrow> memread atom 0 (atoms * rb_atomsize rb);
        buffer \<leftarrow> memwrite (rb_buffer rb) (rb_head rb * rb_atomsize rb) chunk;
        rb \<leftarrow> ringbuffer_push (rb\<lparr>rb_buffer := buffer\<rparr>) atoms;
        Some (rb, atoms)
      })"

definition ringbuffer_add :: "ringbuffer \<Rightarrow> u8 list \<Rightarrow> nat \<Rightarrow> (ringbuffer \<times> nat) option" where
  "ringbuffer_add rb atom num = do {
     (rb, atoms) \<leftarrow> ringbuffer_add_atoms rb atom num;
     if atoms \<ge> num then Some (rb, atoms)
     else do {
       (rb, more) \<leftarrow> ringbuffer_add_atoms rb (drop (atoms * rb_atomsize rb) atom) (num - atoms);
       Some (rb, atoms + more)
     }
   }"

section \<open>Invariant and abstraction\<close>

definition rb_wf :: "ringbuffer \<Rightarrow> bool" where
  "rb_wf rb \<longleftrightarrow> length (rb_buffer rb) = rb_atoms rb * rb_atomsize rb \<and>
     rb_used rb \<le> rb_atoms rb \<and> rb_tail rb < rb_atoms rb \<and>
     rb_head rb = (rb_tail rb + rb_used rb) mod rb_atoms rb"

definition rb_slot :: "ringbuffer \<Rightarrow> nat \<Rightarrow> u8 list" where
  "rb_slot rb i = take (rb_atomsize rb) (drop (i * rb_atomsize rb) (rb_buffer rb))"

definition rb_items :: "ringbuffer \<Rightarrow> u8 list list" where
  "rb_items rb = map (\<lambda>i. rb_slot rb ((rb_tail rb + i) mod rb_atoms rb)) [0..<rb_used rb]"

lemma rb_items_length [simp]: "length (rb_items rb) = rb_used rb"
  by (simp add: rb_items_def)

lemma ringbuffer_init_wf: "0 < atoms \<Longrightarrow> rb_wf (ringbuffer_init junk atoms sz) \<and> rb_items (ringbuffer_init junk atoms sz) = []"
  by (simp add: ringbuffer_init_def rb_wf_def rb_items_def mult.commute)

lemma mod_wrap: "a < n \<Longrightarrow> b \<le> n \<Longrightarrow> (a + b) mod n = (if a + b < n then a + b else a + b - n)" for a b n :: nat
  by (simp add: mod_if)

text \<open>The headroom is the number of free slots in a row from the head on.\<close>

lemma rb_headroom:
  assumes "rb_wf rb"
  shows "ringbuffer_headroom rb =
    (if rb_tail rb + rb_used rb < rb_atoms rb then min (rb_atoms rb - rb_used rb) (rb_atoms rb - rb_head rb)
     else rb_atoms rb - rb_used rb)"
    "rb_head rb < rb_atoms rb" "rb_head rb + ringbuffer_headroom rb \<le> rb_atoms rb"
  using assms mod_wrap [of "rb_tail rb" "rb_atoms rb" "rb_used rb"]
  by (auto simp: ringbuffer_headroom_def rb_wf_def)

lemma rb_add_atoms:
  assumes wf: "rb_wf rb" and src: "num * rb_atomsize rb \<le> length atom"
  obtains rb' where
    "ringbuffer_add_atoms rb atom num = Some (rb', min (ringbuffer_headroom rb) num)" "rb_wf rb'"
    "rb_items rb' = rb_items rb @ slots (rb_atomsize rb) atom (min (ringbuffer_headroom rb) num)"
    "rb_atoms rb' = rb_atoms rb" "rb_atomsize rb' = rb_atomsize rb" "rb_tail rb' = rb_tail rb"
    "rb_used rb' = rb_used rb + min (ringbuffer_headroom rb) num"
proof (cases "ringbuffer_headroom rb = 0")
  case True
  then show ?thesis using that [of rb] wf by (simp add: ringbuffer_add_atoms_def)
next
  case False
  define n where "n = min (ringbuffer_headroom rb) num"
  define h where "h = rb_head rb"
  let ?sz = "rb_atomsize rb" and ?m = "rb_atoms rb"
  note room = rb_headroom [OF wf]
  have "n \<le> ringbuffer_headroom rb" by (simp add: n_def)
  then have hn: "h + n \<le> ?m" "h < ?m" using room(2,3) unfolding h_def by linarith+
  have un: "rb_used rb + n \<le> ?m" using room(1) wf by (auto simp: n_def rb_wf_def split: if_splits)
  have "n * ?sz \<le> num * ?sz" unfolding n_def by (intro mult_le_mono1) simp
  then have "n * ?sz \<le> length atom" using src by linarith
  then have rd: "memread atom 0 (n * ?sz) = Some (take (n * ?sz) atom)" and
    lt: "length (take (n * ?sz) atom) = n * ?sz"
    by (simp_all add: memread_def)
  have "h * ?sz + n * ?sz \<le> ?m * ?sz" using hn by (simp flip: add_mult_distrib)
  then have "h * ?sz + length (take (n * ?sz) atom) \<le> length (rb_buffer rb)"
    using wf lt by (simp add: rb_wf_def)
  then obtain b where b: "memwrite (rb_buffer rb) (h * ?sz) (take (n * ?sz) atom) = Some b"
      "length b = length (rb_buffer rb)"
    by (rule memwrite_obtain)
  define rb' where "rb' = rb\<lparr>rb_buffer := b, rb_head := (if h + n \<ge> ?m then h + n - ?m else h + n),
      rb_used := rb_used rb + n\<rparr>"
  have eq: "ringbuffer_add_atoms rb atom num = Some (rb', n)"
    using False rd b un by (simp add: ringbuffer_add_atoms_def n_def [symmetric] h_def [symmetric] ringbuffer_push_def rb'_def)
  have head: "rb_head rb' = (rb_tail rb + (rb_used rb + n)) mod ?m"
  proof -
    have "(rb_tail rb + (rb_used rb + n)) mod ?m = (h + n) mod ?m"
      using wf by (simp add: rb_wf_def h_def mod_add_left_eq add.assoc [symmetric])
    then show ?thesis using hn by (simp add: rb'_def mod_if)
  qed
  then have wf': "rb_wf rb'" using wf b un by (simp add: rb_wf_def rb'_def)
  have slot: "rb_slot rb' i = (if h \<le> i \<and> i < h + n then take ?sz (drop ((i - h) * ?sz) atom) else rb_slot rb i)"
    if "i < ?m" for i
  proof -
    have s: "rb_slot rb' i = (if h \<le> i \<and> i < h + n
        then take ?sz (drop ((i - h) * ?sz) (take (n * ?sz) atom)) else rb_slot rb i)"
      using memwrite_slot [OF b(1) lt _ that] wf by (simp add: rb_slot_def rb'_def rb_wf_def)
    have "take ?sz (drop ((i - h) * ?sz) (take (n * ?sz) atom)) = take ?sz (drop ((i - h) * ?sz) atom)"
      if "h \<le> i" "i < h + n"
    proof -
      have "Suc (i - h) \<le> n" using that by linarith
      then have "?sz + (i - h) * ?sz \<le> n * ?sz" by (metis mult_Suc mult_le_mono1)
      then have "min ?sz (n * ?sz - (i - h) * ?sz) = ?sz" by linarith
      then show ?thesis by (simp add: drop_take)
    qed
    then show ?thesis using s by simp
  qed
  have old: "(rb_tail rb + i) mod ?m < h \<or> h + n \<le> (rb_tail rb + i) mod ?m" if "i < rb_used rb" for i
  proof (cases "rb_tail rb + rb_used rb < ?m")
    case True
    then show ?thesis using that wf by (simp add: h_def rb_wf_def)
  next
    case False
    then have "h = rb_tail rb + rb_used rb - ?m" and t: "rb_tail rb < ?m" and u: "rb_used rb \<le> ?m"
      using wf mod_wrap [of "rb_tail rb" ?m "rb_used rb"] by (simp_all add: h_def rb_wf_def)
    moreover have "n \<le> ?m - rb_used rb" using room(1) False \<open>n \<le> ringbuffer_headroom rb\<close> by simp
    moreover have "(rb_tail rb + i) mod ?m = (if rb_tail rb + i < ?m then rb_tail rb + i else rb_tail rb + i - ?m)"
      using mod_wrap [OF t, of i] that u by linarith
    ultimately show ?thesis using that False u by (cases "rb_tail rb + i < ?m") (simp_all, linarith+)
  qed
  have new: "(rb_tail rb + (rb_used rb + i)) mod ?m = h + i" if "i < n" for i
  proof -
    have "(rb_tail rb + (rb_used rb + i)) mod ?m = (h + i) mod ?m"
      using wf by (simp add: rb_wf_def h_def mod_add_left_eq add.assoc [symmetric])
    then show ?thesis using that hn by simp
  qed
  have m0: "0 < ?m" using hn by simp
  have "rb_items rb' = rb_items rb @ slots ?sz atom n"
  proof (rule nth_equalityI)
    show "length (rb_items rb') = length (rb_items rb @ slots ?sz atom n)" by (simp add: rb'_def)
    fix i assume "i < length (rb_items rb')"
    then have i: "i < rb_used rb + n" by (simp add: rb'_def)
    have "rb_items rb' ! i = rb_slot rb' ((rb_tail rb + i) mod ?m)"
      using i by (simp add: rb_items_def rb'_def)
    also have "\<dots> = (rb_items rb @ slots ?sz atom n) ! i"
    proof (cases "i < rb_used rb")
      case True
      then show ?thesis using slot [of "(rb_tail rb + i) mod ?m"] old [of i] m0
        by (auto simp: nth_append rb_items_def)
    next
      case False
      then obtain j where j: "i = rb_used rb + j" "j < n" using i by (metis add_less_cancel_left le_Suc_ex not_le)
      then have "(rb_tail rb + i) mod ?m = h + j" "h + j < ?m" using new [of j] hn by simp_all
      then show ?thesis using slot [of "h + j"] j by (simp add: nth_append slots_nth)
    qed
    finally show "rb_items rb' ! i = (rb_items rb @ slots ?sz atom n) ! i" .
  qed
  then show ?thesis using that [of rb'] eq wf' by (simp add: n_def rb'_def)
qed

lemma rb_add:
  assumes wf: "rb_wf rb" and src: "num * rb_atomsize rb \<le> length atom"
  defines "k \<equiv> min num (rb_atoms rb - rb_used rb)"
  shows "\<exists>rb'. ringbuffer_add rb atom num = Some (rb', k) \<and> rb_wf rb' \<and>
    rb_items rb' = rb_items rb @ slots (rb_atomsize rb) atom k \<and> rb_atoms rb' = rb_atoms rb \<and>
    rb_atomsize rb' = rb_atomsize rb"
proof -
  let ?sz = "rb_atomsize rb"
  define a where "a = min (ringbuffer_headroom rb) num"
  obtain rb1 where 1: "ringbuffer_add_atoms rb atom num = Some (rb1, a)" "rb_wf rb1"
    "rb_items rb1 = rb_items rb @ slots ?sz atom a" "rb_atoms rb1 = rb_atoms rb"
    "rb_atomsize rb1 = ?sz" "rb_tail rb1 = rb_tail rb" "rb_used rb1 = rb_used rb + a"
    using rb_add_atoms [OF wf src] unfolding a_def by blast
  note room = rb_headroom [OF wf]
  have "ringbuffer_headroom rb \<le> rb_atoms rb - rb_used rb" using room(1) by (auto split: if_splits)
  then have ak: "num \<le> a \<Longrightarrow> a = k" by (simp add: a_def k_def)
  show ?thesis
  proof (cases "num \<le> a")
    case True
    then show ?thesis using 1 ak by (simp add: ringbuffer_add_def)
  next
    case False
    then have a: "a = ringbuffer_headroom rb" by (simp add: a_def)
    define c where "c = min (ringbuffer_headroom rb1) (num - a)"
    have "(num - a) * ?sz \<le> length (drop (a * ?sz) atom)"
      using src by (simp add: diff_mult_distrib)
    then obtain rb2 where 2: "ringbuffer_add_atoms rb1 (drop (a * ?sz) atom) (num - a) = Some (rb2, c)" "rb_wf rb2"
      "rb_items rb2 = rb_items rb1 @ slots ?sz (drop (a * ?sz) atom) c" "rb_atoms rb2 = rb_atoms rb" "rb_atomsize rb2 = ?sz"
      using rb_add_atoms [OF 1(2), of "num - a" "drop (a * ?sz) atom"] 1 unfolding c_def by auto
    have "a + ringbuffer_headroom rb1 = rb_atoms rb - rb_used rb"
    proof (cases "rb_tail rb + rb_used rb < rb_atoms rb")
      case True
      then have h: "rb_head rb = rb_tail rb + rb_used rb" using wf by (simp add: rb_wf_def)
      then have "a = rb_atoms rb - rb_head rb" using a room(1) True by simp
      moreover from this have "ringbuffer_headroom rb1 = rb_tail rb"
        using rb_headroom(1) [OF 1(2)] 1(4,6,7) h True by simp
      ultimately show ?thesis using h True by simp
    next
      case False
      then have "a = rb_atoms rb - rb_used rb" using a room(1) by simp
      moreover from this have "ringbuffer_headroom rb1 = 0"
        using 1(4,7) by (simp add: ringbuffer_headroom_def)
      ultimately show ?thesis by simp
    qed
    then have "a + c = k" using False unfolding c_def k_def by linarith
    then show ?thesis using 1 2 False slots_append [of ?sz atom a c] by (simp add: ringbuffer_add_def)
  qed
qed

interpretation rb_fifo: bounded_fifo rb_wf rb_items rb_atoms rb_atomsize ringbuffer_add
  by unfold_locales (use rb_add in \<open>auto simp: rb_wf_def\<close>)

section \<open>Properties\<close>



end
