(* ===== verification/Simplebuffer.thy ===== *)
theory Simplebuffer
  imports Fifo
begin

text \<open>
  \<^verbatim>\<open>simplebuffer.c\<close>: a buffer of atoms behind a reserved headroom, which the outputs fill
  with packets and hand out as one block.  \<open>None\<close> stands for a copy outside of the buffer
  or of a negative length.  The counters are \<open>int\<close>s in C; the invariant \<open>sb_wf\<close> keeps
  them between 0 and their bounds, so they are natural numbers here and the one place
  that may go below 0, dropping more atoms than there are, is a \<open>None\<close>.
\<close>

record simplebuffer =
  sb_buffer :: "u8 list"
  sb_atomsize :: nat
  sb_atoms :: nat
  sb_fill :: nat
  sb_headroom :: nat

definition sb_init :: "u8 list \<Rightarrow> nat \<Rightarrow> nat \<Rightarrow> nat \<Rightarrow> simplebuffer" where
  "sb_init junk atoms atomsize headroom =
     (let size = atoms * atomsize + headroom
      in \<lparr>sb_buffer = take size (junk @ replicate size 0), sb_atomsize = atomsize,
         sb_atoms = atoms, sb_fill = 0, sb_headroom = headroom\<rparr>)"

definition sb_used_atoms :: "simplebuffer \<Rightarrow> nat" where
  "sb_used_atoms sb = sb_fill sb"

definition sb_free_atoms :: "simplebuffer \<Rightarrow> nat" where
  "sb_free_atoms sb = sb_atoms sb - sb_fill sb"

definition sb_add_atoms :: "simplebuffer \<Rightarrow> u8 list \<Rightarrow> nat \<Rightarrow> (simplebuffer \<times> nat) option" where
  "sb_add_atoms sb atom atoms =
     (let copy = min atoms (sb_free_atoms sb)
      in do {
        chunk \<leftarrow> memread atom 0 (copy * sb_atomsize sb);
        buffer \<leftarrow> memwrite (sb_buffer sb) (sb_fill sb * sb_atomsize sb + sb_headroom sb) chunk;
        Some (sb\<lparr>sb_buffer := buffer, sb_fill := sb_fill sb + copy\<rparr>, copy)
      })"

definition sb_buflen :: "simplebuffer \<Rightarrow> nat" where
  "sb_buflen sb = sb_fill sb * sb_atomsize sb + sb_headroom sb"

definition sb_zap :: "simplebuffer \<Rightarrow> simplebuffer" where
  "sb_zap sb = sb\<lparr>sb_fill := 0\<rparr>"

definition sb_drop_atoms :: "simplebuffer \<Rightarrow> nat \<Rightarrow> simplebuffer option" where
  "sb_drop_atoms sb atoms =
     (if atoms > sb_fill sb then None
      else do {
        chunk \<leftarrow> memread (sb_buffer sb) (sb_headroom sb + atoms * sb_atomsize sb)
                   ((sb_fill sb - atoms) * sb_atomsize sb);
        buffer \<leftarrow> memwrite (sb_buffer sb) (sb_headroom sb) chunk;
        Some (sb\<lparr>sb_buffer := buffer, sb_fill := sb_fill sb - atoms\<rparr>)
      })"

text \<open>The block an output sends: \<^verbatim>\<open>sb_buflen\<close> bytes from \<^verbatim>\<open>sb_bufptr\<close> on.\<close>

definition sb_bufptr :: "simplebuffer \<Rightarrow> u8 list" where
  "sb_bufptr sb = sb_buffer sb"

definition sb_block :: "simplebuffer \<Rightarrow> u8 list" where
  "sb_block sb = take (sb_buflen sb) (sb_bufptr sb)"

section \<open>Invariant and abstraction\<close>

definition sb_wf :: "simplebuffer \<Rightarrow> bool" where
  "sb_wf sb \<longleftrightarrow> length (sb_buffer sb) = sb_atoms sb * sb_atomsize sb + sb_headroom sb \<and>
     sb_fill sb \<le> sb_atoms sb"

definition sb_items :: "simplebuffer \<Rightarrow> u8 list list" where
  "sb_items sb = slots (sb_atomsize sb) (drop (sb_headroom sb) (sb_buffer sb)) (sb_fill sb)"

lemma sb_items_length [simp]: "length (sb_items sb) = sb_fill sb"
  by (simp add: sb_items_def)

lemma sb_fill_le: "sb_wf sb \<Longrightarrow> sb_fill sb * sb_atomsize sb \<le> sb_atoms sb * sb_atomsize sb"
  by (simp add: sb_wf_def)

lemma slots_prefix: "n * sz \<le> length xs \<Longrightarrow> slots sz (xs @ ys) n = slots sz xs n"
proof (rule slots_cong)
  fix i assume n: "n * sz \<le> length xs" and "i < n"
  then have "Suc i * sz \<le> n * sz" by (metis Suc_leI mult_le_mono1)
  then show "take sz (drop (i * sz) (xs @ ys)) = take sz (drop (i * sz) xs)" using n by simp
qed

lemma slots_take_bytes: "n * sz \<le> length xs \<Longrightarrow> slots sz (take (n * sz) xs) n = slots sz xs n"
  using slots_prefix [of n sz "take (n * sz) xs" "drop (n * sz) xs"] by simp

lemma slots_concat: "\<forall>x \<in> set xss. length x = sz \<Longrightarrow> slots sz (concat xss) (length xss) = xss"
proof (induction xss)
  case (Cons x xss)
  then show ?case using slots_append [of sz "x @ concat xss" 1 "length xss"] by (simp add: slots_def)
qed simp

lemma sb_init_wf: "sb_wf (sb_init junk atoms sz room)" "sb_items (sb_init junk atoms sz room) = []"
  by (simp_all add: sb_init_def sb_wf_def sb_items_def Let_def)

lemma sb_add:
  assumes wf: "sb_wf sb" and src: "num * sb_atomsize sb \<le> length atom"
  defines "k \<equiv> min num (sb_atoms sb - sb_fill sb)"
  obtains sb' where "sb_add_atoms sb atom num = Some (sb', k)" "sb_wf sb'"
    "sb_items sb' = sb_items sb @ slots (sb_atomsize sb) atom k"
    "take (sb_headroom sb) (sb_buffer sb') = take (sb_headroom sb) (sb_buffer sb)"
    "sb_atoms sb' = sb_atoms sb" "sb_atomsize sb' = sb_atomsize sb" "sb_headroom sb' = sb_headroom sb"
    "sb_fill sb' = sb_fill sb + k"
proof -
  let ?sz = "sb_atomsize sb" and ?o = "sb_fill sb * sb_atomsize sb + sb_headroom sb"
  have kf: "k = min num (sb_free_atoms sb)" by (simp add: k_def sb_free_atoms_def)
  have "k * ?sz \<le> num * ?sz" unfolding k_def by (intro mult_le_mono1) simp
  then have "k * ?sz \<le> length atom" using src by linarith
  then have rd: "memread atom 0 (k * ?sz) = Some (take (k * ?sz) atom)" and
    lk: "length (take (k * ?sz) atom) = k * ?sz"
    by (simp_all add: memread_def)
  have "sb_fill sb + k \<le> sb_atoms sb" using wf unfolding k_def sb_wf_def by linarith
  then have "(sb_fill sb + k) * ?sz \<le> sb_atoms sb * ?sz" by (rule mult_le_mono1)
  then have room: "?o + length (take (k * ?sz) atom) \<le> length (sb_buffer sb)"
    using wf lk by (simp add: sb_wf_def add_mult_distrib)
  then obtain b where b: "memwrite (sb_buffer sb) ?o (take (k * ?sz) atom) = Some b"
      "length b = length (sb_buffer sb)"
    by (rule memwrite_obtain)
  define sb' where "sb' = sb\<lparr>sb_buffer := b, sb_fill := sb_fill sb + k\<rparr>"
  have tk: "take (?o + k * ?sz) b = take ?o (sb_buffer sb) @ take (k * ?sz) atom"
    using memwrite_take [OF b(1)] lk by simp
  have old: "drop (sb_headroom sb) (take ?o (sb_buffer sb)) = take (sb_fill sb * ?sz) (drop (sb_headroom sb) (sb_buffer sb))"
    by (simp add: drop_take)
  define d where "d = drop (sb_headroom sb) (sb_buffer sb)"
  have ld: "sb_fill sb * ?sz \<le> length d" using wf sb_fill_le [OF wf] by (simp add: d_def sb_wf_def)
  have "take ((sb_fill sb + k) * ?sz) (drop (sb_headroom sb) b) = take (sb_fill sb * ?sz) d @ take (k * ?sz) atom"
    using arg_cong [OF tk, of "drop (sb_headroom sb)"] room lk
    by (simp add: drop_take add_mult_distrib d_def)
  then obtain r where r: "drop (sb_headroom sb) b = (take (sb_fill sb * ?sz) d @ take (k * ?sz) atom) @ r"
    by (metis append_take_drop_id)
  have "slots ?sz (drop (sb_headroom sb) b) (sb_fill sb) = slots ?sz (take (sb_fill sb * ?sz) d) (sb_fill sb)"
    unfolding r append_assoc using ld by (intro slots_prefix) simp
  also have "\<dots> = slots ?sz d (sb_fill sb)"
    using slots_prefix [of "sb_fill sb" ?sz "take (sb_fill sb * ?sz) d" "drop (sb_fill sb * ?sz) d"] ld by simp
  finally have 1: "slots ?sz (drop (sb_headroom sb) b) (sb_fill sb) = sb_items sb"
    by (simp add: sb_items_def d_def)
  have "drop (sb_fill sb * ?sz) (drop (sb_headroom sb) b) = take (k * ?sz) atom @ r"
    unfolding r using ld by simp
  then have 2: "slots ?sz (drop (sb_fill sb * ?sz) (drop (sb_headroom sb) b)) k = slots ?sz atom k"
    using slots_prefix [of k ?sz "take (k * ?sz) atom" r] slots_prefix [of k ?sz "take (k * ?sz) atom" "drop (k * ?sz) atom"] lk
    by simp
  have "sb_items sb' = sb_items sb @ slots ?sz atom k"
    using 1 2 slots_append [of ?sz "drop (sb_headroom sb) b" "sb_fill sb" k] by (simp add: sb_items_def sb'_def)
  moreover have "take (sb_headroom sb) b = take (sb_headroom sb) (sb_buffer sb)"
    using arg_cong [OF tk, of "take (sb_headroom sb)"] room by (simp add: min_def)
  moreover have "sb_wf sb'" using wf b(2) \<open>sb_fill sb + k \<le> sb_atoms sb\<close> by (simp add: sb_wf_def sb'_def)
  moreover have "sb_add_atoms sb atom num = Some (sb', k)"
    by (simp add: sb_add_atoms_def kf [symmetric] rd b sb'_def)
  ultimately show ?thesis using that [of sb'] by (simp add: sb'_def)
qed

interpretation sb_fifo: bounded_fifo sb_wf sb_items sb_atoms sb_atomsize sb_add_atoms
proof
  fix s num and src :: "u8 list"
  show "sb_wf s \<Longrightarrow> length (sb_items s) \<le> sb_atoms s" by (simp add: sb_wf_def)
  assume "sb_wf s" "num * sb_atomsize s \<le> length src"
  then show "\<exists>s'. sb_add_atoms s src num = Some (s', min num (sb_atoms s - length (sb_items s))) \<and> sb_wf s' \<and>
      sb_items s' = sb_items s @ slots (sb_atomsize s) src (min num (sb_atoms s - length (sb_items s))) \<and>
      sb_atoms s' = sb_atoms s \<and> sb_atomsize s' = sb_atomsize s"
    by (rule sb_add) auto
qed

lemma sb_drop:
  assumes wf: "sb_wf sb" and n: "n \<le> sb_fill sb"
  obtains sb' where "sb_drop_atoms sb n = Some sb'" "sb_wf sb'" "sb_items sb' = drop n (sb_items sb)"
    "sb_atoms sb' = sb_atoms sb" "sb_atomsize sb' = sb_atomsize sb" "sb_headroom sb' = sb_headroom sb"
    "take (sb_headroom sb) (sb_buffer sb') = take (sb_headroom sb) (sb_buffer sb)"
proof -
  let ?sz = "sb_atomsize sb" and ?h = "sb_headroom sb" and ?m = "sb_fill sb - n"
  define c where "c = take (?m * ?sz) (drop (?h + n * ?sz) (sb_buffer sb))"
  have e: "n * ?sz + ?m * ?sz = sb_fill sb * ?sz" using n by (simp flip: add_mult_distrib)
  then have room: "?h + n * ?sz + ?m * ?sz \<le> length (sb_buffer sb)"
    using wf sb_fill_le [OF wf] by (simp add: sb_wf_def)
  then have rd: "memread (sb_buffer sb) (?h + n * ?sz) (?m * ?sz) = Some c" and lc: "length c = ?m * ?sz"
    by (simp_all add: memread_def c_def)
  have "?h + length c \<le> length (sb_buffer sb)" using room lc by simp
  then obtain b where b: "memwrite (sb_buffer sb) ?h c = Some b" "length b = length (sb_buffer sb)"
    by (rule memwrite_obtain)
  have tk: "take (?h + ?m * ?sz) b = take ?h (sb_buffer sb) @ c" using memwrite_take [OF b(1)] lc by simp
  have "take (?m * ?sz) (drop ?h b) = c"
    using arg_cong [OF tk, of "drop ?h"] room by (simp add: drop_take)
  then obtain r where r: "drop ?h b = c @ r" by (metis append_take_drop_id)
  have "slots ?sz (drop ?h b) ?m = slots ?sz c ?m" unfolding r using lc by (intro slots_prefix) simp
  also have "\<dots> = slots ?sz (drop (n * ?sz) (drop ?h (sb_buffer sb))) ?m"
    using slots_take_bytes [of ?m ?sz "drop (?h + n * ?sz) (sb_buffer sb)"] room
    by (simp add: c_def add.commute)
  also have "\<dots> = drop n (sb_items sb)"
    using slots_append [of ?sz "drop ?h (sb_buffer sb)" n ?m] n by (simp add: sb_items_def)
  finally have items: "slots ?sz (drop ?h b) ?m = drop n (sb_items sb)" .
  have "take ?h b = take ?h (sb_buffer sb)"
    using arg_cong [OF tk, of "take ?h"] room by (simp add: min_def)
  moreover have "?m \<le> sb_atoms sb" using wf unfolding sb_wf_def by linarith
  ultimately show ?thesis
    using that [of "sb\<lparr>sb_buffer := b, sb_fill := ?m\<rparr>"] items rd b n wf
    by (simp add: sb_drop_atoms_def sb_items_def sb_wf_def)
qed

lemma sb_block_items:
  assumes "sb_wf sb"
  shows "sb_block sb = take (sb_headroom sb) (sb_buffer sb) @ concat (sb_items sb)"
proof -
  have "sb_fill sb * sb_atomsize sb \<le> length (drop (sb_headroom sb) (sb_buffer sb))"
    using assms sb_fill_le [OF assms] by (simp add: sb_wf_def)
  from concat_slots [OF this] show ?thesis
    by (simp add: sb_block_def sb_buflen_def sb_bufptr_def sb_items_def add.commute [of _ "sb_headroom sb"] take_add)
qed

section \<open>Properties\<close>

text \<open>Additions and a drop on the packet buffer are queue operations: an addition
  appends as many atoms as fit and says how many, dropping \<open>n\<close> atoms removes the oldest
  \<open>n\<close>, zapping empties it, the headroom's bytes never change, and the block handed out
  is the headroom followed by the queued atoms in order.\<close>

theorem simplebuffer_queue:
  assumes "sb_wf sb" "num * sb_atomsize sb \<le> length atom" "n \<le> sb_fill sb"
  shows "(\<exists>sb1 k. sb_add_atoms sb atom num = Some (sb1, k) \<and> sb_wf sb1 \<and>
      k = min num (sb_free_atoms sb) \<and>
      sb_block sb1 = sb_block sb @ concat (slots (sb_atomsize sb) atom k)) \<and>
    (\<exists>sb2. sb_drop_atoms sb n = Some sb2 \<and> sb_wf sb2 \<and>
      sb_block sb2 = take (sb_headroom sb) (sb_block sb) @ concat (drop n (sb_items sb))) \<and>
    sb_wf (sb_zap sb) \<and> sb_block (sb_zap sb) = take (sb_headroom sb) (sb_block sb)"
proof (intro conjI)
  have hd: "take (sb_headroom sb) (sb_block sb) = take (sb_headroom sb) (sb_buffer sb)"
    using assms(1) by (simp add: sb_block_items sb_wf_def)
  obtain sb1 where "sb_add_atoms sb atom num = Some (sb1, min num (sb_free_atoms sb))" "sb_wf sb1"
    "sb_items sb1 = sb_items sb @ slots (sb_atomsize sb) atom (min num (sb_free_atoms sb))"
    "take (sb_headroom sb1) (sb_buffer sb1) = take (sb_headroom sb) (sb_buffer sb)"
    by (rule sb_add [OF assms(1,2)]) (simp add: sb_free_atoms_def)
  then show "\<exists>sb1 k. sb_add_atoms sb atom num = Some (sb1, k) \<and> sb_wf sb1 \<and>
      k = min num (sb_free_atoms sb) \<and> sb_block sb1 = sb_block sb @ concat (slots (sb_atomsize sb) atom k)"
    using assms(1) by (auto simp: sb_block_items)
  obtain sb2 where "sb_drop_atoms sb n = Some sb2" "sb_wf sb2" "sb_items sb2 = drop n (sb_items sb)"
    "take (sb_headroom sb2) (sb_buffer sb2) = take (sb_headroom sb) (sb_buffer sb)"
    by (rule sb_drop [OF assms(1,3)]) simp
  then show "\<exists>sb2. sb_drop_atoms sb n = Some sb2 \<and> sb_wf sb2 \<and>
      sb_block sb2 = take (sb_headroom sb) (sb_block sb) @ concat (drop n (sb_items sb))"
    unfolding hd by (auto simp: sb_block_items)
  show wf: "sb_wf (sb_zap sb)" using assms(1) by (simp add: sb_wf_def sb_zap_def)
  show "sb_block (sb_zap sb) = take (sb_headroom sb) (sb_block sb)"
    unfolding hd sb_block_items [OF wf] by (simp add: sb_zap_def sb_items_def)
qed

theorem simplebuffer_queue_witness:
  "\<exists>sb1 k. sb_add_atoms (sb_init [9, 9, 9, 9, 9] 2 2 1) [1, 2, 3, 4, 5, 6] 3 = Some (sb1, k) \<and> k = 2 \<and>
     sb_block sb1 = [9, 1, 2, 3, 4]"
proof -
  let ?sb = "sb_init [9, 9, 9, 9, 9] 2 2 1"
  have "sb_block ?sb = [9]" "sb_free_atoms ?sb = 2" "sb_atomsize ?sb = 2" "sb_fill ?sb = 0"
    by (simp_all add: sb_init_def sb_block_def sb_buflen_def sb_bufptr_def sb_free_atoms_def Let_def)
  moreover have "slots 2 [1, 2, 3, 4, 5, 6 :: u8] 2 = [[1, 2], [3, 4]]" by (simp add: slots_def upt_rec)
  ultimately show ?thesis
    using simplebuffer_queue [of ?sb 3 "[1, 2, 3, 4, 5, 6]" 0] sb_init_wf by simp blast
qed

end
