(* ===== verification/Adapter.thy ===== *)
theory Adapter
  imports Psi Fe
begin

text \<open>
  The state of one DVB adapter, \<^verbatim>\<open>struct adapter_s\<close> of \<^verbatim>\<open>getstream.h\<close> with the
  structures of \<^verbatim>\<open>dvr.c\<close>, \<^verbatim>\<open>pat.c\<close> and \<^verbatim>\<open>pmt.c\<close> it points to.

  Pointers.  The callback entries (\<^verbatim>\<open>struct pidcallback_s\<close>) and the programs
  (\<^verbatim>\<open>struct program_s\<close>) are shared between lists, so they live in stores, maps from
  an identifier to the structure; \<^verbatim>\<open>free\<close> removes the entry, and a use of an identifier
  without entry is a use after free, \<open>None\<close>.  A \<^verbatim>\<open>GList\<close> of pointers is a list of
  identifiers.  The arrays indexed by a pid are functions on the pids of their range; the
  operations check the range.

  Callbacks.  A function pointer with its argument is a value of \<open>callback\<close>: the
  functions of this program that are registered are constructors; every other one is
  \<open>CB_external\<close> with the identity of its argument, and calling it appends the packet to the
  log \<open>a_out\<close>, which is what the streams then consume.

  Timers are the time set for them, \<open>None\<close> when not pending.  The buffer \<^verbatim>\<open>dvr.buffer.ptr\<close> is
  \<open>a_buf\<close>, \<open>None\<close> for the null pointer.

  The kernel.  System calls are appended to the log \<open>dmx_sys\<close>; the result of a call
  is \<open>dmx_ret\<close> of the log that ends with it, an arbitrary function.
\<close>

section \<open>The demultiplexer device\<close>

datatype syscall =
    Sys_open nat
  | Sys_set_pes_filter int nat nat
  | Sys_close int
  | Sys_dmx_stop int
  | Sys_dmx_start int

record dmx =
  dmx_no :: nat
  dmx_budgetmode :: bool
  dmx_fd :: "nat \<Rightarrow> int"
  dmx_type :: "nat \<Rightarrow> nat"
  dmx_sys :: "syscall list"
  dmx_ret :: "syscall list \<Rightarrow> int"

text \<open>The table has \<open>PID_MAX + 2\<close> entries; the last one is the pseudo pid 0x2000.\<close>

definition DMX_ALL :: nat where "DMX_ALL = 0x2000"

section \<open>Callbacks by pid\<close>

type_synonym cookie = nat
type_synonym progid = nat

datatype callback = CB_external nat | CB_reassemble nat | CB_pat | CB_pmt progid

datatype cbtype = DVRCB_TS | DVRCB_SECTION

datatype pidt = PID_NONE | PID_PAT | PID_PMT | PID_PCR | PID_VIDEO | PID_AUDIO | PID_PRIVATE |
  PID_USER | PID_STATIC | PID_REASSEMBLE | PID_OTHER

record pidcallback =
  pcb_callback :: callback
  pcb_pid :: nat
  pcb_type :: cbtype
  pcb_pidt :: pidt

record dvrpt =
  pt_callback :: "cookie list"
  pt_sectioncallback :: "cookie list"
  pt_packets :: nat
  pt_section :: psisec
  pt_secuser :: nat
  pt_seccb :: "cookie option"

section \<open>PAT and PMT\<close>

record patprog =
  pp_pnr :: nat
  pp_pid :: nat

record pat =
  pat_progcount :: nat
  pat_program :: "patprog list"

record pmtes =
  es_streamtype :: u8
  es_pid :: nat

record pmt =
  pmt_pcrpid :: nat
  pmt_es :: "pmtes list"

record program =
  prog_pnr :: nat
  prog_pmtpid :: nat
  prog_pmtpidcb :: "cookie option"
  prog_pids :: "nat \<Rightarrow> cookie list"
  prog_psi :: psi
  prog_last :: "pmt option"
  prog_current :: "pmt option"
  prog_cbl :: "nat list"

section \<open>The adapter\<close>

record adapter =
  a_dmx :: dmx
  a_fullcb :: "cookie list"
  a_pt :: "nat \<Rightarrow> dvrpt"
  a_pcbs :: "cookie \<rightharpoonup> pidcallback"
  a_nextpcb :: cookie
  a_fe :: fe
  a_dvrfd :: int
  a_dvrevent :: bool
  a_bufsize :: nat
  a_buf :: "u8 list option"
  a_reads :: nat
  a_statinterval :: int
  a_stattimer :: "int option"
  a_stuckinterval :: int
  a_stucktimer :: "(int \<times> int) option"
  a_klkcount :: nat
  a_patcbc :: "cookie option"
  a_patpsi :: psi
  a_patlast :: "pat option"
  a_patcurrent :: "pat option"
  a_pnrlist :: "progid list"
  a_progs :: "progid \<rightharpoonup> program"
  a_nextprog :: progid
  a_klknewprog :: bool
  a_out :: "(nat \<times> u8 list) list"

text \<open>Changing one entry of the pid table.\<close>

definition upd_pt :: "nat \<Rightarrow> (dvrpt \<Rightarrow> dvrpt) \<Rightarrow> adapter \<Rightarrow> adapter" where
  "upd_pt pid f a = a\<lparr>a_pt := (a_pt a)(pid := f (a_pt a pid))\<rparr>"

lemma upd_pt_sel [simp]:
  "a_pt (upd_pt pid f a) = (a_pt a)(pid := f (a_pt a pid))"
  "a_dmx (upd_pt pid f a) = a_dmx a" "a_fullcb (upd_pt pid f a) = a_fullcb a"
  "a_pcbs (upd_pt pid f a) = a_pcbs a" "a_nextpcb (upd_pt pid f a) = a_nextpcb a"
  "a_out (upd_pt pid f a) = a_out a" "a_progs (upd_pt pid f a) = a_progs a"
  "a_pnrlist (upd_pt pid f a) = a_pnrlist a" "a_nextprog (upd_pt pid f a) = a_nextprog a"
  "a_patcbc (upd_pt pid f a) = a_patcbc a" "a_patpsi (upd_pt pid f a) = a_patpsi a"
  "a_patlast (upd_pt pid f a) = a_patlast a" "a_patcurrent (upd_pt pid f a) = a_patcurrent a"
  "a_klknewprog (upd_pt pid f a) = a_klknewprog a"
  by (simp_all add: upd_pt_def)

text \<open>An adapter without filters, callbacks and programs, whose kernel answers the \<open>n\<close>-th system
  call with \<open>n\<close>: the concrete state of the examples.\<close>

definition example_dmx :: dmx where
  "example_dmx = \<lparr>dmx_no = 0, dmx_budgetmode = False, dmx_fd = \<lambda>_. -1, dmx_type = \<lambda>_. 0, dmx_sys = [], dmx_ret = \<lambda>cs. int (length cs)\<rparr>"

definition example_adapter :: adapter where
  "example_adapter = \<lparr>a_dmx = example_dmx,
     a_fullcb = [], a_pt = \<lambda>_. \<lparr>pt_callback = [], pt_sectioncallback = [], pt_packets = 0, pt_section = psi_section_new,
       pt_secuser = 0, pt_seccb = None\<rparr>,
     a_pcbs = \<lambda>_. None, a_nextpcb = 0, a_fe = example_fe, a_dvrfd = 3, a_dvrevent = False,
     a_bufsize = 2, a_buf = Some (replicate 376 0), a_reads = 0, a_statinterval = 60, a_stattimer = None, a_stuckinterval = 0,
     a_stucktimer = None, a_klkcount = 0, a_patcbc = None,
     a_patpsi = psi_new, a_patlast = None, a_patcurrent = None, a_pnrlist = [], a_progs = \<lambda>_. None,
     a_nextprog = 0, a_klknewprog = False, a_out = []\<rparr>"

end
