(* ===== verification/Dmx.thy ===== *)
theory Dmx
  imports Adapter
begin

text \<open>
  \<^verbatim>\<open>dmx.c\<close>: the filters of the demultiplexer device.  A filter is an open file
  descriptor per pid, -1 for none.  The operations append their system calls to the
  log of the state; the properties relate the table to what the log leaves open.
\<close>

definition DMX_PES_OTHER :: nat where "DMX_PES_OTHER = 20"

definition syscall :: "syscall \<Rightarrow> dmx \<Rightarrow> dmx \<times> int" where
  "syscall c d = (d\<lparr>dmx_sys := dmx_sys d @ [c]\<rparr>, dmx_ret d (dmx_sys d @ [c]))"

definition dmx_set_pes_filter :: "int \<Rightarrow> nat \<Rightarrow> nat \<Rightarrow> dmx \<Rightarrow> dmx \<times> bool" where
  "dmx_set_pes_filter fd pid pestype d =
     (let (d, r) = syscall (Sys_set_pes_filter fd pid pestype) d in (d, \<not> r < 0))"

definition dmx_leave_pid :: "nat \<Rightarrow> dmx \<Rightarrow> dmx option" where
  "dmx_leave_pid pid d =
     (if pid > DMX_ALL then None
      else
        let d = (if dmx_fd d pid \<ge> 0 then fst (syscall (Sys_close (dmx_fd d pid)) d) else d)
        in Some (d\<lparr>dmx_fd := (dmx_fd d)(pid := -1)\<rparr>))"

definition dmx_join_pid :: "nat \<Rightarrow> nat \<Rightarrow> dmx \<Rightarrow> (dmx \<times> bool) option" where
  "dmx_join_pid pid type d =
     (if dmx_budgetmode d \<and> dmx_fd d DMX_ALL \<ge> 0 then Some (d, True)
      else if pid > DMX_ALL then None
      else if dmx_fd d pid \<ge> 0 then Some (d, True)
      else
        let (d, fd) = syscall (Sys_open (dmx_no d)) d
        in if fd < 0 then Some (d, False)
        else
          let (d, ok) = dmx_set_pes_filter fd pid type d
          in if \<not> ok then Some (fst (syscall (Sys_close fd) d), False)
          else Some (d\<lparr>dmx_fd := (dmx_fd d)(pid := fd), dmx_type := (dmx_type d)(pid := type)\<rparr>, True))"

text \<open>The two loops of \<^verbatim>\<open>dmx_bounce_filter\<close>, over all entries of the table.\<close>

fun dmx_bounce_loop :: "(int \<Rightarrow> syscall) \<Rightarrow> nat list \<Rightarrow> dmx \<Rightarrow> dmx" where
  "dmx_bounce_loop c [] d = d"
| "dmx_bounce_loop c (i # is) d =
     (if dmx_fd d i < 0 then dmx_bounce_loop c is d
      else dmx_bounce_loop c is (fst (syscall (c (dmx_fd d i)) d)))"

definition dmx_bounce_filter :: "dmx \<Rightarrow> dmx" where
  "dmx_bounce_filter d =
     dmx_bounce_loop Sys_dmx_start [0..<DMX_ALL + 1] (dmx_bounce_loop Sys_dmx_stop [0..<DMX_ALL + 1] d)"

definition dmx_init :: "dmx \<Rightarrow> dmx" where
  "dmx_init d = d\<lparr>dmx_fd := \<lambda>pid. if pid \<le> DMX_ALL then -1 else dmx_fd d pid\<rparr>"

fun dmx_deinit_loop :: "nat list \<Rightarrow> dmx \<Rightarrow> dmx" where
  "dmx_deinit_loop [] d = d"
| "dmx_deinit_loop (i # is) d =
     (if dmx_fd d i \<ge> 0
      then dmx_deinit_loop is ((fst (syscall (Sys_close (dmx_fd d i)) d))\<lparr>dmx_fd := (dmx_fd d)(i := -1)\<rparr>)
      else dmx_deinit_loop is d)"

definition dmx_deinit :: "dmx \<Rightarrow> dmx" where
  "dmx_deinit d = dmx_deinit_loop [0..<DMX_ALL + 1] d"

section \<open>Open descriptors\<close>

text \<open>The descriptors the log leaves open: those opened successfully and not closed since.
  \<open>dmx_wf\<close> says that these are the ones in the table, each once.\<close>

fun open_fds :: "(syscall list \<Rightarrow> int) \<Rightarrow> syscall list \<Rightarrow> int list" where
  "open_fds ret [] = []"
| "open_fds ret (c # cs) =
     (case c of
        Sys_open _ \<Rightarrow> (if ret (rev (c # cs)) < 0 then open_fds ret cs else ret (rev (c # cs)) # open_fds ret cs)
      | Sys_close fd \<Rightarrow> removeAll fd (open_fds ret cs)
      | _ \<Rightarrow> open_fds ret cs)"

definition dmx_open :: "dmx \<Rightarrow> int list" where
  "dmx_open d = open_fds (dmx_ret d) (rev (dmx_sys d))"

definition joined :: "(nat \<Rightarrow> int) \<Rightarrow> nat set" where
  "joined f = {pid. 0 \<le> f pid}"

definition dmx_wf :: "dmx \<Rightarrow> bool" where
  "dmx_wf d \<longleftrightarrow> joined (dmx_fd d) \<subseteq> {..DMX_ALL} \<and>
     set (dmx_open d) = dmx_fd d ` joined (dmx_fd d) \<and> inj_on (dmx_fd d) (joined (dmx_fd d))"

lemma joined_leave:
  assumes "inj_on f (joined f)" and g: "g = f(pid := -1)"
  shows "joined g = joined f - {pid}" "inj_on g (joined g)"
    "0 \<le> f pid \<Longrightarrow> g ` joined g = f ` joined f - {f pid}"
    "f pid < 0 \<Longrightarrow> g ` joined g = f ` joined f"
proof -
  show j: "joined g = joined f - {pid}" by (auto simp: joined_def g)
  have eq: "g p = f p" if "p \<in> joined g" for p
  proof -
    have "p \<noteq> pid" using that j by simp
    then show ?thesis by (simp add: g)
  qed
  have im: "g ` joined g = f ` (joined f - {pid})" unfolding j [symmetric] using eq by (rule image_cong [OF refl])
  show "inj_on g (joined g)"
    using inj_on_subset [OF assms(1), of "joined g"] eq unfolding j by (auto simp: inj_on_def)
  show "g ` joined g = f ` joined f - {f pid}" if "0 \<le> f pid"
    unfolding im using that inj_on_image_set_diff [OF assms(1), of "joined f" "{pid}"] by (simp add: joined_def)
  show "g ` joined g = f ` joined f" if "f pid < 0"
  proof -
    have "pid \<notin> joined f" using that by (simp add: joined_def)
    then show ?thesis unfolding im by simp
  qed
qed

lemma joined_join:
  assumes "inj_on f (joined f)" and g: "g = f(pid := fd)" and fd: "0 \<le> fd" "fd \<notin> f ` joined f" and "f pid < 0"
  shows "joined g = insert pid (joined f)" "inj_on g (joined g)" "g ` joined g = insert fd (f ` joined f)"
proof -
  have p: "pid \<notin> joined f" using assms by (simp add: joined_def)
  show j: "joined g = insert pid (joined f)" using fd by (auto simp: joined_def g)
  have im: "g ` joined f = f ` joined f" using p by (intro image_cong) (auto simp: g)
  show "g ` joined g = insert fd (f ` joined f)" using im by (simp only: j image_insert) (simp add: g)
  show "inj_on g (joined g)"
    unfolding j using assms(1) p fd im by (simp add: g) (metis fun_upd_image inj_on_fun_updI)
qed

text \<open>What the kernel guarantees: a descriptor \<^verbatim>\<open>open\<close> returns is not one that is open.\<close>

definition kernel_fresh :: "dmx \<Rightarrow> bool" where
  "kernel_fresh d \<longleftrightarrow> (\<forall>cs no. dmx_ret d (cs @ [Sys_open no]) \<notin> set (open_fds (dmx_ret d) (rev cs)))"

lemma kernel_fresh_cong: "dmx_ret d' = dmx_ret d \<Longrightarrow> kernel_fresh d' = kernel_fresh d"
  by (simp add: kernel_fresh_def)

lemma dmx_open_syscall:
  "dmx_open (fst (syscall c d)) =
     (case c of
        Sys_open _ \<Rightarrow> (if snd (syscall c d) < 0 then dmx_open d else snd (syscall c d) # dmx_open d)
      | Sys_close fd \<Rightarrow> removeAll fd (dmx_open d)
      | _ \<Rightarrow> dmx_open d)"
  by (cases c) (simp_all add: dmx_open_def syscall_def)

lemma syscall_sel [simp]:
  "dmx_fd (fst (syscall c d)) = dmx_fd d" "dmx_type (fst (syscall c d)) = dmx_type d"
  "dmx_no (fst (syscall c d)) = dmx_no d" "dmx_budgetmode (fst (syscall c d)) = dmx_budgetmode d"
  "dmx_ret (fst (syscall c d)) = dmx_ret d"
  by (simp_all add: syscall_def)

lemma dmx_open_upd [simp]: "dmx_open (d\<lparr>dmx_fd := f\<rparr>) = dmx_open d" "dmx_open (d\<lparr>dmx_type := t\<rparr>) = dmx_open d"
  by (simp_all add: dmx_open_def)

lemma dmx_leave_wf:
  assumes wf: "dmx_wf d" and pid: "pid \<le> DMX_ALL"
  obtains d' where "dmx_leave_pid pid d = Some d'" "dmx_wf d'" "dmx_fd d' = (dmx_fd d)(pid := -1)" "dmx_ret d' = dmx_ret d"
proof -
  define g where "g = (dmx_fd d)(pid := -1)"
  have inj: "inj_on (dmx_fd d) (joined (dmx_fd d))" using wf by (simp add: dmx_wf_def)
  note j = joined_leave [OF inj g_def]
  define d' where "d' = (if dmx_fd d pid \<ge> 0 then fst (syscall (Sys_close (dmx_fd d pid)) d) else d)\<lparr>dmx_fd := g\<rparr>"
  have "set (dmx_open d') = g ` joined g"
    using wf j(3,4) by (auto simp: d'_def dmx_open_syscall dmx_wf_def)
  moreover have "joined g \<subseteq> {..DMX_ALL}" using wf unfolding j(1) by (auto simp: dmx_wf_def)
  moreover have "dmx_fd d' = g" by (simp add: d'_def)
  ultimately have "dmx_wf d'" using j(2) by (simp add: dmx_wf_def)
  moreover have "dmx_leave_pid pid d = Some d'" using pid by (simp add: dmx_leave_pid_def d'_def g_def Let_def)
  moreover have "dmx_ret d' = dmx_ret d" by (simp add: d'_def)
  ultimately show ?thesis using that \<open>dmx_fd d' = g\<close> g_def by blast
qed

lemma dmx_join_wf:
  assumes wf: "dmx_wf d" and pid: "pid \<le> DMX_ALL" and fresh: "kernel_fresh d"
  obtains d' ok where "dmx_join_pid pid t d = Some (d', ok)" "dmx_wf d'"
    "ok \<longrightarrow> dmx_fd d' pid \<ge> 0 \<or> dmx_budgetmode d \<and> dmx_fd d DMX_ALL \<ge> 0"
    "\<not> ok \<longrightarrow> dmx_fd d' = dmx_fd d" "\<forall>q. q \<noteq> pid \<longrightarrow> dmx_fd d' q = dmx_fd d q"
    "dmx_ret d' = dmx_ret d"
proof -
  define d1 where "d1 = fst (syscall (Sys_open (dmx_no d)) d)"
  define fd where "fd = snd (syscall (Sys_open (dmx_no d)) d)"
  define d2 where "d2 = fst (syscall (Sys_set_pes_filter fd pid t) d1)"
  define ok where "ok = (\<not> snd (syscall (Sys_set_pes_filter fd pid t) d1) < 0)"
  have o: "syscall (Sys_open (dmx_no d)) d = (d1, fd)" "dmx_set_pes_filter fd pid t d1 = (d2, ok)"
    by (simp_all add: d1_def fd_def d2_def ok_def dmx_set_pes_filter_def split_def Let_def)
  have sel: "dmx_fd d1 = dmx_fd d" "dmx_fd d2 = dmx_fd d" "dmx_ret d1 = dmx_ret d" "dmx_ret d2 = dmx_ret d" by (simp_all add: d1_def d2_def)
  have open1: "dmx_open d1 = (if fd < 0 then dmx_open d else fd # dmx_open d)"
    by (simp add: d1_def fd_def dmx_open_syscall)
  have open2: "dmx_open d2 = dmx_open d1" by (simp add: d2_def dmx_open_syscall)
  have nfd: "fd \<notin> set (dmx_open d)" using fresh by (simp add: kernel_fresh_def fd_def syscall_def dmx_open_def)
  consider "dmx_budgetmode d \<and> dmx_fd d DMX_ALL \<ge> 0 \<or> dmx_fd d pid \<ge> 0"
    | "\<not> (dmx_budgetmode d \<and> dmx_fd d DMX_ALL \<ge> 0)" "dmx_fd d pid < 0" "fd < 0"
    | "\<not> (dmx_budgetmode d \<and> dmx_fd d DMX_ALL \<ge> 0)" "dmx_fd d pid < 0" "0 \<le> fd" "\<not> ok"
    | "\<not> (dmx_budgetmode d \<and> dmx_fd d DMX_ALL \<ge> 0)" "dmx_fd d pid < 0" "0 \<le> fd" "ok"
    by linarith
  then show ?thesis
  proof cases
    case 1
    then show ?thesis using that [of d True] wf pid by (auto simp: dmx_join_pid_def)
  next
    case 2
    have "dmx_wf d1" using wf sel open1 2 by (simp add: dmx_wf_def)
    then show ?thesis using that [of d1 False] 2 pid sel by (auto simp: dmx_join_pid_def o)
  next
    case 3
    let ?d = "fst (syscall (Sys_close fd) d2)"
    have "set (dmx_open ?d) = set (dmx_open d)" using open1 open2 nfd 3 by (simp add: dmx_open_syscall)
    then have "dmx_wf ?d" using wf sel by (simp add: dmx_wf_def)
    then show ?thesis using that [of ?d False] 3 pid sel by (auto simp: dmx_join_pid_def o)
  next
    case 4
    let ?d = "d2\<lparr>dmx_fd := (dmx_fd d)(pid := fd), dmx_type := (dmx_type d2)(pid := t)\<rparr>"
    have inj: "inj_on (dmx_fd d) (joined (dmx_fd d))" and f: "fd \<notin> dmx_fd d ` joined (dmx_fd d)"
      using wf nfd by (simp_all add: dmx_wf_def)
    note j = joined_join [OF inj refl 4(3) f 4(2)]
    have "set (dmx_open ?d) = insert fd (set (dmx_open d))" using open1 open2 4 by simp
    then have "dmx_wf ?d" using wf j pid by (simp add: dmx_wf_def)
    then show ?thesis using that [of ?d True] 4 pid sel by (auto simp: dmx_join_pid_def o)
  qed
qed

lemma dmx_deinit_loop_spec:
  "dmx_wf d \<Longrightarrow> dmx_wf (dmx_deinit_loop is d) \<and>
   joined (dmx_fd (dmx_deinit_loop is d)) = joined (dmx_fd d) - set is"
proof (induction "is" arbitrary: d)
  case (Cons i "is")
  show ?case
  proof (cases "dmx_fd d i \<ge> 0")
    case True
    define g where "g = (dmx_fd d)(i := -1)"
    let ?d = "(fst (syscall (Sys_close (dmx_fd d i)) d))\<lparr>dmx_fd := g\<rparr>"
    have i: "i \<le> DMX_ALL" using Cons.prems True by (auto simp: dmx_wf_def joined_def)
    have "dmx_leave_pid i d = Some ?d" using i True by (simp add: dmx_leave_pid_def g_def)
    then have wf: "dmx_wf ?d" using dmx_leave_wf [OF Cons.prems i] by auto
    have "joined g = joined (dmx_fd d) - {i}" by (auto simp: joined_def g_def)
    moreover have "dmx_deinit_loop (i # is) d = dmx_deinit_loop is ?d" using True by (simp add: g_def)
    ultimately show ?thesis using Cons.IH [OF wf] by auto
  next
    case False
    then have "i \<notin> joined (dmx_fd d)" by (simp add: joined_def)
    then show ?thesis using False Cons by auto
  qed
qed simp

section \<open>Properties\<close>

text \<open>C37: Joining and leaving pids leaks no descriptor of the demultiplexer: the
  descriptors the table holds are exactly the open ones, one per pid, after every join
  that succeeds or fails at either system call, after every leave, and none is open
  after the shutdown.\<close>

theorem dmx_descriptors:
  assumes "dmx_wf d" "kernel_fresh d" "pid \<le> DMX_ALL"
  shows "(\<exists>d' ok. dmx_join_pid pid t d = Some (d', ok) \<and> dmx_wf d' \<and>
      (ok \<longrightarrow> dmx_fd d' pid \<ge> 0 \<or> dmx_budgetmode d \<and> dmx_fd d DMX_ALL \<ge> 0) \<and>
      (\<not> ok \<longrightarrow> set (dmx_open d') = set (dmx_open d))) \<and>
    (\<exists>d'. dmx_leave_pid pid d = Some d' \<and> dmx_wf d' \<and> dmx_fd d' pid = -1) \<and>
    dmx_open (dmx_deinit d) = []"
proof (intro conjI)
  obtain d' ok where "dmx_join_pid pid t d = Some (d', ok)" "dmx_wf d'"
    "ok \<longrightarrow> dmx_fd d' pid \<ge> 0 \<or> dmx_budgetmode d \<and> dmx_fd d DMX_ALL \<ge> 0" "\<not> ok \<longrightarrow> dmx_fd d' = dmx_fd d"
    using dmx_join_wf [OF assms(1,3,2)] by metis
  then show "\<exists>d' ok. dmx_join_pid pid t d = Some (d', ok) \<and> dmx_wf d' \<and>
      (ok \<longrightarrow> dmx_fd d' pid \<ge> 0 \<or> dmx_budgetmode d \<and> dmx_fd d DMX_ALL \<ge> 0) \<and>
      (\<not> ok \<longrightarrow> set (dmx_open d') = set (dmx_open d))"
    using assms(1) by (intro exI [of _ d'] exI [of _ ok]) (simp add: dmx_wf_def)
  show "\<exists>d'. dmx_leave_pid pid d = Some d' \<and> dmx_wf d' \<and> dmx_fd d' pid = -1"
    by (rule dmx_leave_wf [OF assms(1,3)]) simp
  have all: "set [0..<DMX_ALL + 1] = {..DMX_ALL}" by auto
  have "dmx_wf (dmx_deinit d)" "joined (dmx_fd (dmx_deinit d)) = joined (dmx_fd d) - {..DMX_ALL}"
    using dmx_deinit_loop_spec [OF assms(1), of "[0..<DMX_ALL + 1]"] all by (simp_all only: dmx_deinit_def)
  moreover have "joined (dmx_fd d) - {..DMX_ALL} = {}" using assms(1) by (auto simp: dmx_wf_def)
  ultimately have "set (dmx_open (dmx_deinit d)) = {}" by (simp add: dmx_wf_def)
  then show "dmx_open (dmx_deinit d) = []" by simp
qed

lemma open_fds_length: "x \<in> set (open_fds (\<lambda>cs. int (length cs)) cs) \<Longrightarrow> x \<le> int (length cs)"
  by (induction cs) (auto split: syscall.splits if_splits)

lemma example_dmx_ok: "dmx_wf example_dmx" "kernel_fresh example_dmx"
proof -
  show "dmx_wf example_dmx" by (simp add: example_dmx_def dmx_wf_def joined_def dmx_open_def)
  show "kernel_fresh example_dmx"
    unfolding kernel_fresh_def example_dmx_def using open_fds_length by fastforce
qed

theorem dmx_descriptors_witness:
  "\<exists>d' ok. dmx_join_pid 17 DMX_PES_OTHER example_dmx = Some (d', ok) \<and> dmx_wf d'"
  using dmx_descriptors [of example_dmx 17 DMX_PES_OTHER]
  example_dmx_ok by (auto simp: DMX_ALL_def)

end
