(* ===== verification/Pat.thy ===== *)
theory Pat
  imports Adapter
begin

text \<open>
  The tables of \<^verbatim>\<open>pat.c\<close>: building and sending a program association table, and
  parsing the sections received.  What the adapter does when its table changes
  (\<^verbatim>\<open>pat_update\<close>, \<^verbatim>\<open>pat_section_cb\<close>, \<^verbatim>\<open>pat_init\<close>) is in \<open>Dispatch\<close>, since
  it calls the program map code.

  \<open>pat_section\<close> is the part of \<^verbatim>\<open>pat_send\<close> that fills the section; the loop of the code
  makes exactly one pass, because the inner loop always runs to the end of the program list.
  \<open>None\<close> stands for a write or read outside of the section's data.
\<close>

definition PID_MASK :: nat where "PID_MASK = 0x1fff"
definition PAT_HDR_LEN :: nat where "PAT_HDR_LEN = 8"
definition PAT_PNR_LEN :: nat where "PAT_PNR_LEN = 4"
definition PAT_TABLE_ID :: nat where "PAT_TABLE_ID = 0"

definition pat_new :: pat where
  "pat_new = \<lparr>pat_progcount = 0, pat_program = []\<rparr>"

definition pat_add_program :: "pat \<Rightarrow> nat \<Rightarrow> nat \<Rightarrow> pat" where
  "pat_add_program pat pnr pid = pat\<lparr>pat_program := pat_program pat @ [\<lparr>pp_pnr = pnr, pp_pid = pid\<rparr>]\<rparr>"

definition pat_findpnr :: "pat \<Rightarrow> nat \<Rightarrow> patprog option" where
  "pat_findpnr pat pnr = find (\<lambda>prog. pp_pnr prog = pnr) (pat_program pat)"

section \<open>Sending\<close>

fun pat_fill :: "u8 list \<Rightarrow> nat \<Rightarrow> patprog list \<Rightarrow> (u8 list \<times> nat) option" where
  "pat_fill p i [] = Some (p, i)"
| "pat_fill p i (pp # pl) = do {
     p \<leftarrow> poke p (PAT_HDR_LEN + i * 4 + 0) (of_nat (drop_bit 8 (pp_pnr pp)));
     p \<leftarrow> poke p (PAT_HDR_LEN + i * 4 + 1) (of_nat (pp_pnr pp AND 0xff));
     p \<leftarrow> poke p (PAT_HDR_LEN + i * 4 + 2) (of_nat (drop_bit 8 (pp_pid pp)));
     p \<leftarrow> poke p (PAT_HDR_LEN + i * 4 + 3) (of_nat (pp_pid pp AND 0xff));
     pat_fill p (i + 1) pl
   }"

definition pat_section :: "pat \<Rightarrow> nat \<Rightarrow> nat \<Rightarrow> psisec option" where
  "pat_section pat version tid = do {
     let p = sec_data psi_section_new;
     p \<leftarrow> memwrite p 0 (replicate PSI_SECTION_MAX 0xff);
     let p = p[0 := of_nat PAT_TABLE_ID];
     let p = p[3 := of_nat (drop_bit 8 tid)];
     let p = p[4 := of_nat (tid AND 0xff)];
     let p = p[5 := of_nat (push_bit 1 (version AND 0x1f) OR 1)];
     let p = p[6 := 0];
     let p = p[7 := 0];
     (p, i) \<leftarrow> pat_fill p 0 (pat_program pat);
     let patlen = PAT_HDR_LEN + i * 4 + CRC32_LEN;
     let seclen = (patlen - 3) AND 0xfff;
     let p = p[1 := 0x80 OR of_nat (drop_bit 8 seclen)];
     let p = p[2 := of_nat (seclen AND 0xff)];
     msg \<leftarrow> memread p 0 (patlen - CRC32_LEN);
     let ccrc = crc32_be 0 0xffffffff msg;
     p \<leftarrow> poke p (patlen - CRC32_LEN + 0) (ucast (drop_bit 24 ccrc AND 0xff));
     p \<leftarrow> poke p (patlen - CRC32_LEN + 1) (ucast (drop_bit 16 ccrc AND 0xff));
     p \<leftarrow> poke p (patlen - CRC32_LEN + 2) (ucast (drop_bit 8 ccrc AND 0xff));
     p \<leftarrow> poke p (patlen - CRC32_LEN + 3) (ucast (ccrc AND 0xff));
     Some (psi_section_new\<lparr>sec_data := p\<rparr>)
   }"

definition pat_send ::
  "pat \<Rightarrow> nat \<Rightarrow> nat \<Rightarrow> nat \<Rightarrow> (u8 list \<Rightarrow> 's \<Rightarrow> 's option) \<Rightarrow> 's \<Rightarrow> ('s \<times> nat) option" where
  "pat_send pat cc version tid callback arg = do {
     section \<leftarrow> pat_section pat version tid;
     psi_segment_and_send section 0 (cc mod 256) callback arg
   }"

section \<open>Parsing\<close>

definition psi_payload_len :: "u8 list \<Rightarrow> int" where
  "psi_payload_len d = int (psi_len d) - int PSI_HDR_LEN - int CRC32_LEN"

definition pat_pnrno :: "u8 list \<Rightarrow> int" where
  "pat_pnrno d = cdiv (psi_payload_len d) (int PAT_PNR_LEN)"

definition pat_pnrfrompat :: "u8 list \<Rightarrow> nat \<Rightarrow> nat option" where
  "pat_pnrfrompat d i = do {
     hi \<leftarrow> peek d (PAT_HDR_LEN + i * 4 + 0);
     lo \<leftarrow> peek d (PAT_HDR_LEN + i * 4 + 1);
     Some (be16 hi lo)
   }"

definition pat_pidfrompat :: "u8 list \<Rightarrow> nat \<Rightarrow> nat option" where
  "pat_pidfrompat d i = do {
     hi \<leftarrow> peek d (PAT_HDR_LEN + i * 4 + 2);
     lo \<leftarrow> peek d (PAT_HDR_LEN + i * 4 + 3);
     Some (be16 hi lo AND PID_MASK)
   }"

text \<open>The inner loop: \<open>pnr\<close> is unsigned, so the bound is compared as an unsigned value.  The
  index cannot wrap, because the data ends before.\<close>

function pat_parse_section :: "u8 list \<Rightarrow> nat \<Rightarrow> pat \<Rightarrow> pat option" where
  "pat_parse_section d pnr next =
     (if pnr \<le> u32_of_int (pat_pnrno d) then do {
        number \<leftarrow> pat_pnrfrompat d pnr;
        pid \<leftarrow> pat_pidfrompat d pnr;
        let next = pat_add_program next number pid;
        pat_parse_section d (pnr + 1) (next\<lparr>pat_progcount := pat_progcount next + 1\<rparr>)
      }
      else Some next)"
  by pat_completeness auto
termination
  by (relation "measure (\<lambda>(d, pnr, next). u32_of_int (pat_pnrno d) + 1 - pnr)") auto

declare pat_parse_section.simps [simp del]

function pat_parse_loop :: "psi \<Rightarrow> nat \<Rightarrow> nat \<Rightarrow> pat \<Rightarrow> pat option" where
  "pat_parse_loop psi lastsecnum secnum next =
     (if secnum \<le> lastsecnum then do {
        s \<leftarrow> peek psi secnum;
        next \<leftarrow> (case s of None \<Rightarrow> Some next | Some s \<Rightarrow> pat_parse_section (sec_data s) 0 next);
        pat_parse_loop psi lastsecnum (secnum + 1) next
      }
      else Some next)"
  by pat_completeness auto
termination
  by (relation "measure (\<lambda>(psi, lastsecnum, secnum, next). lastsecnum + 1 - secnum)") auto

declare pat_parse_loop.simps [simp del]

definition pat_parse :: "psi \<Rightarrow> pat option option" where
  "pat_parse psi = do {
     first \<leftarrow> peek psi 0;
     case first of
       None \<Rightarrow> Some None
     | Some s \<Rightarrow> do {
         next \<leftarrow> pat_parse_loop psi (psi_last_section_number (sec_data s)) 0 pat_new;
         Some (Some next)
       }
   }"

section \<open>The section that is built\<close>

lemma poke_4:
  assumes "off + 4 \<le> length p"
  shows "do { p \<leftarrow> poke p (off + 0) a; p \<leftarrow> poke p (off + 1) b; p \<leftarrow> poke p (off + 2) c; p \<leftarrow> poke p (off + 3) d; f p } =
    f (take off p @ [a, b, c, d] @ drop (off + 4) p)"
proof -
  have "p[off := a, off + 1 := b, off + 2 := c, off + 3 := d] = take off p @ [a, b, c, d] @ drop (off + 4) p"
    using assms by (intro nth_equalityI) (auto simp: nth_append nth_list_update nth_Cons' )
  then show ?thesis using assms by (simp add: mem_simps)
qed

definition pat_entry :: "patprog \<Rightarrow> u8 list" where
  "pat_entry pp = [of_nat (drop_bit 8 (pp_pnr pp)), of_nat (pp_pnr pp AND 0xff),
     of_nat (drop_bit 8 (pp_pid pp)), of_nat (pp_pid pp AND 0xff)]"

lemma pat_entry_length [simp]: "length (pat_entry pp) = 4"
  by (simp add: pat_entry_def)

lemma pat_entries_length [simp]: "length (concat (map pat_entry pl)) = 4 * length pl"
  by (induction pl) (simp_all add: pat_entry_def)

lemma pat_fill_eq:
  "8 + 4 * (i + length pl) \<le> length p \<Longrightarrow>
   pat_fill p i pl = Some (take (8 + 4 * i) p @ concat (map pat_entry pl) @ drop (8 + 4 * (i + length pl)) p, i + length pl)"
proof (induction pl arbitrary: p i)
  case (Cons pp pl)
  define q where "q = take (8 + i * 4) p @ pat_entry pp @ drop (8 + i * 4 + 4) p"
  have "pat_fill p i (pp # pl) = pat_fill q (i + 1) pl"
    using Cons.prems poke_4 [of "8 + i * 4" p, where f = "\<lambda>p. pat_fill p (i + 1) pl"]
    by (simp add: PAT_HDR_LEN_def q_def pat_entry_def)
  moreover have "length q = length p" using Cons.prems by (simp add: q_def)
  moreover have "take (8 + 4 * (i + 1)) q = take (8 + 4 * i) p @ pat_entry pp"
    using Cons.prems by (simp add: q_def mult.commute)
  moreover have "drop (8 + 4 * (i + 1 + length pl)) q = drop (8 + 4 * (i + length (pp # pl))) p"
    using Cons.prems by (simp add: q_def mult.commute algebra_simps)
  ultimately show ?case using Cons.IH [of "i + 1" q] Cons.prems by simp
qed simp


text \<open>The bytes of the section: header, entries, CRC.\<close>

definition pat_header :: "nat \<Rightarrow> nat \<Rightarrow> nat \<Rightarrow> u8 list" where
  "pat_header n version tid =
     (let seclen = 9 + 4 * n
      in [0, 0x80 OR of_nat (drop_bit 8 seclen), of_nat (seclen AND 0xff), of_nat (drop_bit 8 tid),
          of_nat (tid AND 0xff), of_nat (push_bit 1 (version AND 0x1f) OR 1), 0, 0])"

definition pat_message :: "pat \<Rightarrow> nat \<Rightarrow> nat \<Rightarrow> u8 list" where
  "pat_message pat version tid =
     pat_header (length (pat_program pat)) version tid @ concat (map pat_entry (pat_program pat))"

definition crc_bytes_of :: "u32 \<Rightarrow> u8 list" where
  "crc_bytes_of w = [ucast (drop_bit 24 w AND 0xff), ucast (drop_bit 16 w AND 0xff),
     ucast (drop_bit 8 w AND 0xff), ucast (w AND 0xff)]"

lemma pat_message_length: "length (pat_message pat v t) = 8 + 4 * length (pat_program pat)"
  by (simp add: pat_message_def pat_header_def Let_def)

lemma take_8E:
  assumes "8 \<le> length p"
  obtains a b c d e f g h q where "p = a # b # c # d # e # f # g # h # q"
  using assms by (auto simp: Suc_le_length_iff eval_nat_numeral)

lemma update_8:
  "(a # b # c # d # e # f # g # h # q)[0 := x] = x # b # c # d # e # f # g # h # q"
  "(a # b # c # d # e # f # g # h # q)[1 := x] = a # x # c # d # e # f # g # h # q"
  "(a # b # c # d # e # f # g # h # q)[2 := x] = a # b # x # d # e # f # g # h # q"
  "(a # b # c # d # e # f # g # h # q)[3 := x] = a # b # c # x # e # f # g # h # q"
  "(a # b # c # d # e # f # g # h # q)[4 := x] = a # b # c # d # x # f # g # h # q"
  "(a # b # c # d # e # f # g # h # q)[5 := x] = a # b # c # d # e # x # g # h # q"
  "(a # b # c # d # e # f # g # h # q)[6 := x] = a # b # c # d # e # f # x # h # q"
  "(a # b # c # d # e # f # g # h # q)[7 := x] = a # b # c # d # e # f # g # x # q"
  by (simp_all add: eval_nat_numeral)

lemma pat_section_eq:
  assumes n: "length (pat_program pat) \<le> 1021"
  obtains rest where "pat_section pat version tid = Some (psi_section_new\<lparr>sec_data :=
      pat_message pat version tid @ crc_bytes_of (crc32_be 0 0xffffffff (pat_message pat version tid)) @ rest\<rparr>)"
    "length (pat_message pat version tid) + 4 + length rest = PSI_MAX_SIZE"
proof -
  let ?n = "length (pat_program pat)" and ?es = "concat (map pat_entry (pat_program pat))"
  have "0 + length (replicate PSI_SECTION_MAX (0xff :: u8)) \<le> length (sec_data psi_section_new)"
    by (simp add: psi_section_new_def PSI_SECTION_MAX_def PSI_MAX_SIZE_def)
  then obtain p0 where p0: "memwrite (sec_data psi_section_new) 0 (replicate PSI_SECTION_MAX 0xff) = Some p0"
    "length p0 = length (sec_data psi_section_new)"
    by (rule memwrite_obtain)
  then have l0: "length p0 = 4096" by (simp add: psi_section_new_def PSI_MAX_SIZE_def)
  then have "8 \<le> length p0" by simp
  then obtain a b c d e f g h q where p0': "p0 = a # b # c # d # e # f # g # h # q"
    by (rule take_8E)
  define h1 where "h1 = [0, b, c, of_nat (drop_bit 8 tid), of_nat (tid AND 0xff),
      of_nat (push_bit 1 (version AND 0x1f) OR 1), 0, 0 :: u8]"
  have lh: "length h1 = 8" by (simp add: h1_def)
  have lq: "length q = 4088" using l0 p0' by simp
  define rest where "rest = drop 4 (drop (4 * ?n) q)"
  have fill: "pat_fill (h1 @ q) 0 (pat_program pat) = Some (h1 @ ?es @ drop (4 * ?n) q, ?n)"
    using pat_fill_eq [of 0 "pat_program pat" "h1 @ q"] n lq lh by simp
  have h1: "p0[0 := of_nat PAT_TABLE_ID, 3 := of_nat (drop_bit 8 tid), 4 := of_nat (tid AND 0xff),
      5 := of_nat (push_bit 1 (version AND 0x1f) OR 1), 6 := 0, 7 := 0] = h1 @ q"
    unfolding p0' update_8 by (simp add: h1_def PAT_TABLE_ID_def)
  have sl: "(PAT_HDR_LEN + ?n * 4 + CRC32_LEN - 3) AND 0xfff = 9 + 4 * ?n"
    using n by (simp add: PAT_HDR_LEN_def CRC32_LEN_def)
  have pl: "PAT_HDR_LEN + ?n * 4 + CRC32_LEN - CRC32_LEN = 8 + 4 * ?n"
    by (simp add: PAT_HDR_LEN_def)
  define p where "p = pat_message pat version tid @ drop (4 * ?n) q"
  have upd: "(h1 @ ?es @ drop (4 * ?n) q)[1 := 0x80 OR of_nat (drop_bit 8 (9 + 4 * ?n)), 2 := of_nat ((9 + 4 * ?n) AND 0xff)] = p"
    by (simp add: p_def pat_message_def pat_header_def h1_def Let_def update_8 del: nat_and_mask)
  have lm: "length (pat_message pat version tid) = 8 + 4 * ?n" by (rule pat_message_length)
  have rd: "memread p 0 (8 + 4 * ?n) = Some (pat_message pat version tid)"
    using lm by (simp add: p_def memread_def)
  have lp: "8 + 4 * ?n + 4 \<le> length p" using lm lq n by (simp add: p_def)
  have tp: "take (8 + 4 * ?n) p = pat_message pat version tid" "drop (8 + 4 * ?n + 4) p = rest"
    using lm by (simp_all add: p_def rest_def)
  have "pat_section pat version tid = Some (psi_section_new\<lparr>sec_data :=
      pat_message pat version tid @ crc_bytes_of (crc32_be 0 0xffffffff (pat_message pat version tid)) @ rest\<rparr>)"
    unfolding pat_section_def Let_def p0(1) bind.bind_lunit h1 fill
      prod.case sl pl upd rd poke_4 [OF lp] tp
    by (simp add: crc_bytes_of_def)
  moreover have "length (pat_message pat version tid) + 4 + length rest = PSI_MAX_SIZE"
    using lm lq n by (simp add: rest_def PSI_MAX_SIZE_def)
  ultimately show ?thesis using that by blast
qed

lemma be16_bytes: "k < 65536 \<Longrightarrow> be16 (of_nat (drop_bit 8 k)) (of_nat (k AND 0xff)) = k"
proof (rule bit_eqI)
  fix n assume "k < 65536"
  then have hi: "16 \<le> n \<Longrightarrow> \<not> bit k n" by (intro small_not_bit [of _ 16]) simp_all
  show "bit (be16 (of_nat (drop_bit 8 k)) (of_nat (k AND 0xff))) n = bit k n"
    unfolding nat_and_mask be16_def bit_or_iff bit_push_bit_iff bit_unsigned_iff bit_of_nat_u8 bit_mod_256 bit_drop_bit_eq comp_def
    using hi by (cases "n < 8"; cases "n < 16") auto
qed

lemma bit_0x80: "bit (0x80 :: u8) n \<longleftrightarrow> n = 7"
  using bit_exp_iff [where ?'a = "8 word", of 7 n] by auto

lemma be16_seclen: "k < 4096 \<Longrightarrow> be16 (0x80 OR of_nat (drop_bit 8 k)) (of_nat (k AND 0xff)) AND 0xfff = k"
proof (rule bit_eqI)
  fix n assume "k < 4096"
  then have hi: "12 \<le> n \<Longrightarrow> \<not> bit k n" by (intro small_not_bit [of _ 12]) simp_all
  have m: "bit (0xfff :: nat) n \<longleftrightarrow> n < 12"
  proof -
    have "(0xfff :: nat) = mask 12" by (simp add: mask_eq_exp_minus_1)
    then show ?thesis by (simp only: bit_mask_iff) auto
  qed
  have k: "k AND 0xff = k mod 256" by simp
  show "bit (be16 (0x80 OR of_nat (drop_bit 8 k)) (of_nat (k AND 0xff)) AND 0xfff) n = bit k n"
    unfolding k bit_and_iff m be16_def bit_or_iff bit_push_bit_iff bit_unsigned_iff bit_of_nat_u8 bit_mod_256 bit_drop_bit_eq
      comp_def bit_0x80
    using hi by (cases "n < 8"; cases "n < 12") auto
qed

lemma be_word_bytes: "crc_bytes_of w = [a, b, c, d] \<Longrightarrow> be_word a b c d = w"
  unfolding crc_bytes_of_def be_word_def
  by (rule bytes_eqI) (auto simp: bit_or_iff bit_push_bit_iff bit_ucast_iff bit_and_iff bit_drop_bit_eq bit_255 add.commute byte_high bit_simps)


section \<open>What the parser reads\<close>

definition pat_entry_at :: "u8 list \<Rightarrow> nat \<Rightarrow> patprog" where
  "pat_entry_at d i = \<lparr>pp_pnr = be16 (d ! (8 + i * 4)) (d ! (8 + i * 4 + 1)),
     pp_pid = be16 (d ! (8 + i * 4 + 2)) (d ! (8 + i * 4 + 3)) AND PID_MASK\<rparr>"

lemma pat_parse_step:
  assumes "i \<le> u32_of_int (pat_pnrno d)" "8 + i * 4 + 4 \<le> length d"
  shows "pat_parse_section d i \<lparr>pat_progcount = c, pat_program = ps\<rparr> =
    pat_parse_section d (i + 1) \<lparr>pat_progcount = c + 1, pat_program = ps @ [pat_entry_at d i]\<rparr>"
  using assms pat_parse_section.simps [of d i]
  by (simp add: pat_pnrfrompat_def pat_pidfrompat_def mem_simps PAT_HDR_LEN_def pat_add_program_def pat_entry_at_def)

lemma pat_parse_entries:
  assumes n: "u32_of_int (pat_pnrno d) = n" and l: "8 + n * 4 + 4 \<le> length d"
  shows "i \<le> n + 1 \<Longrightarrow> pat_parse_section d i \<lparr>pat_progcount = c, pat_program = ps\<rparr> =
    Some \<lparr>pat_progcount = c + (n + 1 - i), pat_program = ps @ map (pat_entry_at d) [i..<n + 1]\<rparr>"
proof (induction "n + 1 - i" arbitrary: i c ps)
  case 0
  then show ?case using n by (simp add: pat_parse_section.simps)
next
  case (Suc k)
  then have i: "i \<le> n" by linarith
  then have "i * 4 \<le> n * 4" by simp
  then have "8 + i * 4 + 4 \<le> length d" using l by linarith
  then have "pat_parse_section d i \<lparr>pat_progcount = c, pat_program = ps\<rparr> =
      pat_parse_section d (i + 1) \<lparr>pat_progcount = c + 1, pat_program = ps @ [pat_entry_at d i]\<rparr>"
    using i n by (intro pat_parse_step) simp_all
  also have "\<dots> = Some \<lparr>pat_progcount = c + 1 + (n + 1 - (i + 1)),
      pat_program = (ps @ [pat_entry_at d i]) @ map (pat_entry_at d) [i + 1..<n + 1]\<rparr>"
    using Suc.hyps(2) i by (intro Suc.hyps(1)) linarith+
  also have "[i..<n + 1] = i # [i + 1..<n + 1]" using i by (simp add: upt_conv_Cons)
  then have "(ps @ [pat_entry_at d i]) @ map (pat_entry_at d) [i + 1..<n + 1] = ps @ map (pat_entry_at d) [i..<n + 1]"
    by simp
  also have "c + 1 + (n + 1 - (i + 1)) = c + (n + 1 - i)" using i by simp
  finally show ?case .
qed

lemma pat_pnrno_eq: "12 \<le> psi_len d \<Longrightarrow> u32_of_int (pat_pnrno d) = (psi_len d - 12) div 4"
proof -
  assume l: "12 \<le> psi_len d"
  then have "psi_payload_len d = int (psi_len d - 12)"
    by (simp add: psi_payload_len_def PSI_HDR_LEN_def CRC32_LEN_def)
  then have p: "pat_pnrno d = int ((psi_len d - 12) div 4)"
    by (simp add: pat_pnrno_def cdiv_def PAT_PNR_LEN_def zdiv_int)
  have "(psi_len d - 12) div 4 < 2 ^ 32" using psi_len_bounds(2) [of d] by simp
  then show ?thesis unfolding p by (subst u32_of_int_nonneg) simp_all
qed

lemma pat_parse_8_faults:
  assumes "psi_len d = 8" "length d = PSI_MAX_SIZE" "i \<le> 1022"
  shows "pat_parse_section d i next = None"
proof -
  have n: "u32_of_int (pat_pnrno d) = 2 ^ 32 - 1"
    using assms by (simp add: pat_pnrno_def cdiv_def psi_payload_len_def PAT_PNR_LEN_def PSI_HDR_LEN_def CRC32_LEN_def u32_of_int_def)
  have "i \<le> 1022 \<Longrightarrow> pat_parse_section d i next = None" for i "next"
  proof (induction "1022 - i" arbitrary: i "next")
    case 0
    then have i: "i = 1022" by simp
    show ?case using assms n unfolding i pat_parse_section.simps [of d 1022]
      by (simp add: pat_pnrfrompat_def peek_def PAT_HDR_LEN_def PSI_MAX_SIZE_def)
  next
    case (Suc k)
    then have i: "i < 1022" by linarith
    have "i \<le> u32_of_int (pat_pnrno d)" "8 + i * 4 + 4 \<le> length d" using i n assms(2) by (auto simp: PSI_MAX_SIZE_def)
    from pat_parse_step [OF this] show ?case
      using Suc i by (cases "next") simp
  qed
  then show ?thesis using assms(3) .
qed

lemma pat_header_len:
  assumes "n \<le> 1021" "d = pat_header n v t @ r"
  shows "psi_len d = 12 + 4 * n"
proof -
  have "psi_len d = (be16 (0x80 OR of_nat (drop_bit 8 (9 + 4 * n))) (of_nat ((9 + 4 * n) AND 0xff)) AND 0xfff) + 3"
    by (simp add: assms(2) pat_header_def psi_len_def Let_def nth_append del: nat_and_mask)
  also have "\<dots> = 12 + 4 * n" using be16_seclen [of "9 + 4 * n"] assms(1) by simp
  finally show ?thesis .
qed

lemma concat_entry_nth:
  assumes "i < length pl" "k < 4"
  shows "concat (map pat_entry pl) ! (i * 4 + k) = pat_entry (pl ! i) ! k"
  using assms
proof (induction pl arbitrary: i)
  case (Cons pp pl)
  then show ?case by (cases i) (auto simp: nth_append)
qed simp

lemma pat_entry_at_sent:
  assumes d: "d = pat_message pat v t @ r" and i: "i < length (pat_program pat)"
    and pp: "pp_pnr (pat_program pat ! i) < 65536" "pp_pid (pat_program pat ! i) < 8192"
  shows "pat_entry_at d i = pat_program pat ! i"
proof -
  have h: "length (pat_header n v t) = 8" for n by (simp add: pat_header_def Let_def)
  have n: "d ! (8 + i * 4 + k) = pat_entry (pat_program pat ! i) ! k" if "k < 4" for k
    using concat_entry_nth [OF i that] that i
    by (simp add: d pat_message_def nth_append h)
  have "PID_MASK = 0x1fff" by (simp add: PID_MASK_def)
  then show ?thesis
    using n [of 0] n [of 1] n [of 2] n [of 3] pp be16_bytes [of "pp_pnr (pat_program pat ! i)"] be16_bytes [of "pp_pid (pat_program pat ! i)"]
    by (cases "pat_program pat ! i") (simp add: pat_entry_at_def pat_entry_def PID_MASK_def del: nat_and_mask(3))
qed

section \<open>Properties\<close>

lemma pat_sent:
  assumes n: "length (pat_program pat) \<le> 1021"
    and pp: "\<forall>pp \<in> set (pat_program pat). pp_pnr pp < 65536 \<and> pp_pid pp < 8192"
  shows "\<exists>t rs e k crc. pat_send pat cc version tid psi_receive (psi_section_new, []) = Some ((t, rs @ [e]), k) \<and>
    0 < e \<and> psi_crc_valid t = Some True \<and>
    pat_parse_section (sec_data t) 0 pat_new =
      Some \<lparr>pat_progcount = length (pat_program pat) + 1, pat_program = pat_program pat @ [crc]\<rparr> \<and>
    psi_crc t = Some (be_word (sec_data t ! (psi_len (sec_data t) - 4)) (sec_data t ! (psi_len (sec_data t) - 3))
      (sec_data t ! (psi_len (sec_data t) - 2)) (sec_data t ! (psi_len (sec_data t) - 1))) \<and>
    pp_pnr crc = be16 (sec_data t ! (psi_len (sec_data t) - 4)) (sec_data t ! (psi_len (sec_data t) - 3))"
proof -
  let ?n = "length (pat_program pat)" and ?m = "pat_message pat version tid"
  obtain rest where s: "pat_section pat version tid = Some (psi_section_new\<lparr>sec_data := ?m @ crc_bytes_of (crc32_be 0 0xffffffff ?m) @ rest\<rparr>)"
    "length ?m + 4 + length rest = PSI_MAX_SIZE"
    using pat_section_eq [OF n] .
  define d where "d = ?m @ crc_bytes_of (crc32_be 0 0xffffffff ?m) @ rest"
  define s where "s = psi_section_new\<lparr>sec_data := d\<rparr>"
  have sd: "sec_data s = d" by (simp add: s_def)
  have lm: "length ?m = 8 + 4 * ?n" by (rule pat_message_length)
  have L: "psi_len d = 12 + 4 * ?n"
    using pat_header_len [OF n, of d version tid] by (simp add: d_def pat_message_def)
  have ld: "length d = PSI_MAX_SIZE" using s(2) by (simp add: d_def crc_bytes_of_def)
  have crc: "psi_crc_valid s = Some True"
  proof -
    have lc: "length (crc_bytes_of w) = 4" for w by (simp add: crc_bytes_of_def)
    have "take 4 (drop (psi_len d - 4) d) = crc_bytes_of (crc32_be 0 0xffffffff ?m)" "take (psi_len d - 4) d = ?m"
      using lm L by (simp_all add: d_def lc)
    moreover have "psi_len d \<le> length d" using L n ld by (simp add: PSI_MAX_SIZE_def)
    moreover obtain a b c e where q: "crc_bytes_of (crc32_be 0 0xffffffff ?m) = [a, b, c, e]"
      using length_4E [OF lc] by blast
    ultimately show ?thesis
      using L be_word_bytes [OF q] by (simp add: psi_crc_valid_def psi_crc_def psi_ccrc_def sd memread_def)
  qed
  have "0 \<le> PID_MAX" "length (sec_data s) = PSI_MAX_SIZE" "PSI_HDR_LEN \<le> psi_len (sec_data s)"
    "psi_len (sec_data s) \<le> PSI_MAX_SIZE" "length (sec_data psi_section_new) = PSI_MAX_SIZE"
    using ld L n by (simp_all add: sd PSI_HDR_LEN_def PSI_MAX_SIZE_def psi_section_new_def)
  note rt = psi_receive_sent [OF this(1,2) crc this(3-5), of "cc mod 256"]
  then obtain t e k where t: "psi_segment_and_send s 0 (cc mod 256) psi_receive (psi_section_new, []) =
      Some ((t, replicate (k - 1) PSI_RC_INCOMPLETE @ [int e]), k)" "0 < e" "psi_crc_valid t = Some True"
    "take (psi_len d) (sec_data t) = take (psi_len d) d" "sec_len t = psi_len d" "length (sec_data t) = PSI_MAX_SIZE"
    by (auto simp: sd)
  define td where "td = sec_data t"
  have L12: "12 \<le> psi_len d" "psi_len d \<le> length td" using L n t(6) by (simp_all add: td_def PSI_MAX_SIZE_def)
  obtain r where td: "td = take (psi_len d) d @ r" using t(4) unfolding td_def by (metis append_take_drop_id)
  have "take (psi_len d) d = ?m @ crc_bytes_of (crc32_be 0 0xffffffff ?m)"
    using lm L by (simp add: d_def crc_bytes_of_def)
  then have td': "td = ?m @ crc_bytes_of (crc32_be 0 0xffffffff ?m) @ r" using td by simp
  have Lt: "psi_len td = 12 + 4 * ?n"
    using pat_header_len [OF n, of td version tid] by (simp add: td' pat_message_def)
  have no: "u32_of_int (pat_pnrno td) = ?n" using pat_pnrno_eq [of td] Lt by simp
  have parse: "pat_parse_section td 0 pat_new =
      Some \<lparr>pat_progcount = ?n + 1, pat_program = map (pat_entry_at td) [0..<?n + 1]\<rparr>"
    using pat_parse_entries [OF no, of 0 0 "[]"] Lt L L12 by (simp add: pat_new_def)
  have "map (pat_entry_at td) [0..<?n] = pat_program pat"
    using pp pat_entry_at_sent [OF td'] by (intro nth_equalityI) auto
  then have parse': "pat_parse_section td 0 pat_new =
      Some \<lparr>pat_progcount = ?n + 1, pat_program = pat_program pat @ [pat_entry_at td ?n]\<rparr>"
    using parse by simp
  have "psi_crc t = Some (be_word (td ! (psi_len td - 4)) (td ! (psi_len td - 3)) (td ! (psi_len td - 2)) (td ! (psi_len td - 1)))"
    using Lt L12 L by (simp add: psi_crc_def td_def [symmetric] memread_def)
  moreover have "pp_pnr (pat_entry_at td ?n) = be16 (td ! (psi_len td - 4)) (td ! (psi_len td - 3))"
    using Lt by (simp add: pat_entry_at_def mult.commute)
  moreover have "pat_send pat cc version tid psi_receive (psi_section_new, []) =
      Some ((t, replicate (k - 1) PSI_RC_INCOMPLETE @ [int e]), k)"
    using s(1) t(1) by (simp add: pat_send_def s_def d_def)
  ultimately show ?thesis
    using t(2,3) parse' unfolding td_def by (metis of_nat_0_less_iff)
qed

text \<open>A program association table that is sent and received arrives complete and in
  order, with one program too many: the parser's loop runs to the program count included,
  and takes the four bytes of the CRC for a program.\<close>

theorem pat_send_parse:
  assumes "length (pat_program pat) \<le> 1021"
    and "\<forall>pp \<in> set (pat_program pat). pp_pnr pp < 65536 \<and> pp_pid pp < 8192"
  shows "\<exists>t rs e k crc. pat_send pat cc version tid psi_receive (psi_section_new, []) = Some ((t, rs @ [e]), k) \<and>
    0 < e \<and> psi_crc_valid t = Some True \<and>
    pat_parse_section (sec_data t) 0 pat_new =
      Some \<lparr>pat_progcount = length (pat_program pat) + 1, pat_program = pat_program pat @ [crc]\<rparr> \<and>
    psi_crc t = Some (be_word (sec_data t ! (psi_len (sec_data t) - 4)) (sec_data t ! (psi_len (sec_data t) - 3))
      (sec_data t ! (psi_len (sec_data t) - 2)) (sec_data t ! (psi_len (sec_data t) - 1))) \<and>
    pp_pnr crc = be16 (sec_data t ! (psi_len (sec_data t) - 4)) (sec_data t ! (psi_len (sec_data t) - 3))"
  using pat_sent [OF assms] .

theorem pat_send_parse_witness:
  "\<exists>t rs e k crc. pat_send \<lparr>pat_progcount = 1, pat_program = [\<lparr>pp_pnr = 28106, pp_pid = 100\<rparr>]\<rparr> 3 1 7
      psi_receive (psi_section_new, []) = Some ((t, rs @ [e]), k) \<and>
    pat_parse_section (sec_data t) 0 pat_new =
      Some \<lparr>pat_progcount = 1 + 1, pat_program = [\<lparr>pp_pnr = 28106, pp_pid = 100\<rparr>, crc]\<rparr>"
  using pat_send_parse [of "\<lparr>pat_progcount = 1, pat_program = [\<lparr>pp_pnr = 28106, pp_pid = 100\<rparr>]\<rparr>" 3 1 7]
  by (simp only: pat.simps list.size set_simps ball_simps patprog.simps) auto

text \<open>A section of 8 bytes, which is what an empty header with a CRC in place of its last
  four bytes is, makes the parser run out of the section's data: the program count is -1,
  and is compared as an unsigned number.\<close>

theorem pat_parse_short_section:
  assumes "psi_len (sec_data s) = 8" "length (sec_data s) = PSI_MAX_SIZE"
  shows "pat_parse (psi_new[0 := Some s]) = None"
proof -
  have "pat_parse_loop (psi_new[0 := Some s]) n 0 pat_new = None" for n
    using pat_parse_8_faults [OF assms, of 0]
    by (simp add: pat_parse_loop.simps psi_new_def peek_def PSI_SECTION_MAX_def)
  then show ?thesis by (simp add: pat_parse_def peek_def psi_new_def PSI_SECTION_MAX_def)
qed

theorem pat_parse_short_section_witness:
  "pat_parse (psi_new[0 := Some (psi_section_new\<lparr>sec_data := [0, 0, 5] @ replicate 4093 0\<rparr>)]) = None"
  by (rule pat_parse_short_section) (simp_all add: psi_len_def be16_def PSI_MAX_SIZE_def)

end
