(* ===== verification/Dvr.thy ===== *)
theory Dvr
  imports Dmx
begin

text \<open>
  The registration of callbacks in \<^verbatim>\<open>dvr.c\<close>: \<^verbatim>\<open>dvr_add_pcb\<close> and
  \<^verbatim>\<open>dvr_del_pcb\<close>.  A section callback makes the pid's entry collect sections, for which it
  registers the reassembly as a callback for the packets of the same pid; the first
  packet callback of a pid joins it at the demultiplexer and the last one leaves it.

  \<open>None\<close> stands for a use of a callback entry that has been freed or an index outside of
  the pid table.  \<open>dvr_wf\<close> is the invariant of the table; its last part says when a pid is
  joined.  The calls nest at most once: the callback that an entry registers for
  itself is a packet callback.
\<close>

section \<open>Adding\<close>

definition new_pcb :: "pidcallback \<Rightarrow> adapter \<Rightarrow> cookie \<times> adapter" where
  "new_pcb pcb a = (a_nextpcb a,
     a\<lparr>a_pcbs := (a_pcbs a)(a_nextpcb a \<mapsto> pcb), a_nextpcb := a_nextpcb a + 1\<rparr>)"

text \<open>The case \<^verbatim>\<open>DVRCB_TS\<close> of \<^verbatim>\<open>dvr_add_pcb\<close>: the call the case \<^verbatim>\<open>DVRCB_SECTION\<close> makes.\<close>

definition dvr_add_ts :: "adapter \<Rightarrow> nat \<Rightarrow> pidt \<Rightarrow> callback \<Rightarrow> (cookie \<times> adapter) option" where
  "dvr_add_ts a pid pidt callback =
     (let (pcb, a) = new_pcb \<lparr>pcb_callback = callback, pcb_pid = pid mod 2 ^ 16, pcb_type = DVRCB_TS, pcb_pidt = pidt\<rparr> a
      in if pid = PID_MAX + 1 then Some (pcb, a\<lparr>a_fullcb := a_fullcb a @ [pcb]\<rparr>)
      else if pid > PID_MAX then None
      else do {
        a \<leftarrow> (if pt_callback (a_pt a pid) = []
             then do { (d, _) \<leftarrow> dmx_join_pid pid DMX_PES_OTHER (a_dmx a); Some (a\<lparr>a_dmx := d\<rparr>) }
             else Some a);
        Some (pcb, upd_pt pid (\<lambda>e. e\<lparr>pt_callback := pt_callback e @ [pcb]\<rparr>) a)
      })"

definition dvr_add_section :: "adapter \<Rightarrow> nat \<Rightarrow> pidt \<Rightarrow> callback \<Rightarrow> (cookie \<times> adapter) option" where
  "dvr_add_section a pid pidt callback =
     (let (pcb, a) = new_pcb \<lparr>pcb_callback = callback, pcb_pid = pid mod 2 ^ 16, pcb_type = DVRCB_SECTION, pcb_pidt = pidt\<rparr> a
      in if pid = PID_MAX + 1 then Some (pcb, a\<lparr>a_fullcb := a_fullcb a @ [pcb]\<rparr>)
      else if pid > PID_MAX then None
      else do {
        a \<leftarrow> (if pt_secuser (a_pt a pid) = 0
             then do {
               let a = upd_pt pid (\<lambda>e. e\<lparr>pt_section := psi_section_new\<rparr>) a;
               (cb, a) \<leftarrow> dvr_add_ts a pid PID_REASSEMBLE (CB_reassemble pid);
               Some (upd_pt pid (\<lambda>e. e\<lparr>pt_seccb := Some cb\<rparr>) a)
             }
             else Some a);
        Some (pcb, upd_pt pid (\<lambda>e. e\<lparr>pt_secuser := (pt_secuser e + 1) mod 2 ^ 32,
                                     pt_sectioncallback := pt_sectioncallback e @ [pcb]\<rparr>) a)
      })"

definition dvr_add_pcb :: "adapter \<Rightarrow> nat \<Rightarrow> cbtype \<Rightarrow> pidt \<Rightarrow> callback \<Rightarrow> (cookie \<times> adapter) option" where
  "dvr_add_pcb a pid type pidt callback =
     (case type of
        DVRCB_SECTION \<Rightarrow> dvr_add_section a pid pidt callback
      | DVRCB_TS \<Rightarrow> dvr_add_ts a pid pidt callback)"

section \<open>Removing\<close>

definition free_pcb :: "cookie \<Rightarrow> adapter \<Rightarrow> adapter" where
  "free_pcb c a = a\<lparr>a_pcbs := (a_pcbs a)(c := None)\<rparr>"

definition dvr_del_ts :: "adapter \<Rightarrow> nat \<Rightarrow> cookie \<Rightarrow> adapter option" where
  "dvr_del_ts a pid pcb =
     (let a = upd_pt pid (\<lambda>e. e\<lparr>pt_callback := remove1 pcb (pt_callback e)\<rparr>) a
      in if pt_callback (a_pt a pid) = []
         then do { d \<leftarrow> dmx_leave_pid pid (a_dmx a); Some (a\<lparr>a_dmx := d\<rparr>) }
         else Some a)"

text \<open>The fuel counts the nested calls.  In the nested call the user count is 0 and
  wraps, so there is no third one: \<^verbatim>\<open>dvr_del_pcb\<close> is the function with fuel 2.\<close>

fun dvr_del_rec :: "nat \<Rightarrow> adapter \<Rightarrow> nat \<Rightarrow> cookie option \<Rightarrow> adapter option" where
  "dvr_del_rec 0 a pid c = None"
| "dvr_del_rec (Suc fuel) a pid None = None"
| "dvr_del_rec (Suc fuel) a pid (Some pcb) =
     (if pid > PID_MAX then None
      else do {
        e \<leftarrow> a_pcbs a pcb;
        a \<leftarrow> (case pcb_type e of
               DVRCB_SECTION \<Rightarrow> do {
                 let a = upd_pt pid (\<lambda>e. e\<lparr>pt_secuser := usub32 (pt_secuser e) 1\<rparr>) a;
                 a \<leftarrow> (if pt_secuser (a_pt a pid) = 0
                      then do {
                        a \<leftarrow> dvr_del_rec fuel a pid (pt_seccb (a_pt a pid));
                        Some (upd_pt pid (\<lambda>e. e\<lparr>pt_seccb := None\<rparr>) a)
                      }
                      else Some a);
                 Some (upd_pt pid (\<lambda>e. e\<lparr>pt_sectioncallback := remove1 pcb (pt_sectioncallback e)\<rparr>) a)
               }
             | DVRCB_TS \<Rightarrow> dvr_del_ts a pid pcb);
        Some (free_pcb pcb a)
      })"

definition dvr_del_pcb :: "adapter \<Rightarrow> nat \<Rightarrow> cookie option \<Rightarrow> adapter option" where
  "dvr_del_pcb a pid c = dvr_del_rec 2 a pid c"

section \<open>The invariant of the table\<close>

text \<open>An entry of the pid table: its lists hold live callbacks of their type and of this pid,
  without repetition; the user count is the number of section callbacks; while there
  are any, the reassembly is among the packet callbacks; and a pid without packet
  callbacks is not joined.\<close>

definition live :: "(cookie \<rightharpoonup> pidcallback) \<Rightarrow> nat \<Rightarrow> cbtype \<Rightarrow> cookie \<Rightarrow> bool" where
  "live m pid type c \<longleftrightarrow> (\<exists>e. m c = Some e \<and> pcb_pid e = pid \<and> pcb_type e = type)"

definition lists_ok :: "(cookie \<rightharpoonup> pidcallback) \<Rightarrow> nat \<Rightarrow> dvrpt \<Rightarrow> bool" where
  "lists_ok m pid e \<longleftrightarrow> distinct (pt_callback e) \<and> distinct (pt_sectioncallback e) \<and>
     (\<forall>c \<in> set (pt_callback e). live m pid DVRCB_TS c) \<and>
     (\<forall>c \<in> set (pt_sectioncallback e). live m pid DVRCB_SECTION c)"

definition reassembles :: "(cookie \<rightharpoonup> pidcallback) \<Rightarrow> nat \<Rightarrow> dvrpt \<Rightarrow> cookie \<Rightarrow> bool" where
  "reassembles m pid e c \<longleftrightarrow> c \<in> set (pt_callback e) \<and> (\<exists>p. m c = Some p \<and> pcb_callback p = CB_reassemble pid)"

definition users_ok :: "(cookie \<rightharpoonup> pidcallback) \<Rightarrow> nat \<Rightarrow> dvrpt \<Rightarrow> bool" where
  "users_ok m pid e \<longleftrightarrow> pt_secuser e = length (pt_sectioncallback e) \<and> pt_secuser e < 2 ^ 32 \<and>
     (case pt_seccb e of None \<Rightarrow> pt_secuser e = 0 | Some c \<Rightarrow> pt_secuser e \<noteq> 0 \<and> reassembles m pid e c)"

definition entry_wf :: "(cookie \<rightharpoonup> pidcallback) \<Rightarrow> nat \<Rightarrow> dvrpt \<Rightarrow> int \<Rightarrow> bool" where
  "entry_wf m pid e fd \<longleftrightarrow> lists_ok m pid e \<and> users_ok m pid e \<and> (pt_callback e = [] \<longrightarrow> fd < 0)"

definition dvr_wf :: "adapter \<Rightarrow> bool" where
  "dvr_wf a \<longleftrightarrow> kernel_fresh (a_dmx a) \<and> dmx_wf (a_dmx a) \<and> (\<forall>c \<ge> a_nextpcb a. a_pcbs a c = None) \<and>
     (\<forall>pid \<le> PID_MAX. entry_wf (a_pcbs a) pid (a_pt a pid) (dmx_fd (a_dmx a) pid))"

subsection \<open>One entry\<close>

lemma live_mono:
  assumes "\<And>c p. m c = Some p \<Longrightarrow> pcb_pid p = pid \<Longrightarrow> m' c = Some p" and "live m pid t c"
  shows "live m' pid t c" "m' c = m c"
  using assms by (auto simp: live_def)

lemma entry_wf_mono:
  assumes m: "\<And>c p. m c = Some p \<Longrightarrow> pcb_pid p = pid \<Longrightarrow> m' c = Some p" and wf: "entry_wf m pid e fd"
  shows "entry_wf m' pid e fd"
proof -
  have l: "lists_ok m pid e" using wf by (simp add: entry_wf_def)
  then have l': "lists_ok m' pid e" using live_mono(1) [of m pid m', OF m] by (simp add: lists_ok_def)
  have "reassembles m pid e c \<Longrightarrow> reassembles m' pid e c" for c
    using l live_mono(2) [of m pid m', OF m] by (auto simp: lists_ok_def reassembles_def)
  then have "users_ok m' pid e" using wf by (auto simp: entry_wf_def users_ok_def split: option.splits)
  with l' wf show ?thesis by (simp add: entry_wf_def)
qed

lemma entry_add_ts:
  assumes "entry_wf m pid e fd" "m c = Some p" "pcb_pid p = pid" "pcb_type p = DVRCB_TS" "c \<notin> set (pt_callback e)"
  shows "entry_wf m pid (e\<lparr>pt_callback := pt_callback e @ [c]\<rparr>) fd'"
  using assms by (auto simp: entry_wf_def lists_ok_def users_ok_def reassembles_def live_def split: option.splits)

lemma entry_del_ts:
  assumes "entry_wf m pid e fd" "pt_seccb e \<noteq> Some c"
  shows "entry_wf m pid (e\<lparr>pt_callback := remove1 c (pt_callback e)\<rparr>) (if remove1 c (pt_callback e) = [] then -1 else fd)"
  using assms
  by (auto simp: entry_wf_def lists_ok_def users_ok_def reassembles_def split: option.splits)

lemma entry_free:
  assumes "entry_wf m pid e fd" "c \<notin> set (pt_callback e)" "c \<notin> set (pt_sectioncallback e)"
  shows "entry_wf (m(c := None)) pid e fd"
  using assms by (auto simp: entry_wf_def lists_ok_def users_ok_def reassembles_def live_def split: option.splits)

lemma lists_ok_dom:
  assumes l: "lists_ok m pid e" and "m c = None"
  shows "c \<notin> set (pt_callback e) \<and> c \<notin> set (pt_sectioncallback e)"
proof -
  have "\<not> live m pid t c" for t using assms(2) by (simp add: live_def)
  then show ?thesis using l unfolding lists_ok_def by blast
qed

subsection \<open>The operations keep the invariant\<close>

lemma pid_mod: "pid \<le> PID_MAX \<Longrightarrow> pid mod 2 ^ 16 = pid" "pid \<le> PID_MAX \<Longrightarrow> pid \<le> DMX_ALL"
  by (simp_all add: PID_MAX_def DMX_ALL_def)

lemma dvr_wf_I:
  assumes "kernel_fresh (a_dmx a)" "dmx_wf (a_dmx a)" "\<And>c. a_nextpcb a \<le> c \<Longrightarrow> a_pcbs a c = None"
    and "entry_wf (a_pcbs a) pid (a_pt a pid) (dmx_fd (a_dmx a) pid)"
    and "\<And>q. q \<le> PID_MAX \<Longrightarrow> q \<noteq> pid \<Longrightarrow> entry_wf (a_pcbs a) q (a_pt a q) (dmx_fd (a_dmx a) q)"
  shows "dvr_wf a"
  unfolding dvr_wf_def using assms by (metis)

lemma dvr_wf_alloc:
  assumes wf: "dvr_wf a" and n: "new_pcb p a = (c, a')"
  shows "dvr_wf a'" "a_pcbs a' = (a_pcbs a)(c \<mapsto> p)" "a_pcbs a c = None" "a_pt a' = a_pt a" "a_dmx a' = a_dmx a"
    "a_progs a' = a_progs a"
    "pid \<le> PID_MAX \<Longrightarrow> c \<notin> set (pt_callback (a_pt a pid)) \<and> c \<notin> set (pt_sectioncallback (a_pt a pid))"
proof -
  have c: "c = a_nextpcb a" and a': "a' = a\<lparr>a_pcbs := (a_pcbs a)(c \<mapsto> p), a_nextpcb := c + 1\<rparr>"
    using n by (auto simp: new_pcb_def)
  show nc: "a_pcbs a c = None" using wf by (simp add: c dvr_wf_def)
  show pcbs: "a_pcbs a' = (a_pcbs a)(c \<mapsto> p)" "a_pt a' = a_pt a" "a_dmx a' = a_dmx a" by (simp_all add: a')
  show "a_progs a' = a_progs a" by (simp add: a')
  show "c \<notin> set (pt_callback (a_pt a pid)) \<and> c \<notin> set (pt_sectioncallback (a_pt a pid))" if "pid \<le> PID_MAX"
  proof -
    have "lists_ok (a_pcbs a) pid (a_pt a pid)" using wf that by (simp add: dvr_wf_def entry_wf_def)
    from lists_ok_dom [OF this nc] show ?thesis .
  qed
  have "entry_wf (a_pcbs a') q (a_pt a' q) (dmx_fd (a_dmx a') q)" if "q \<le> PID_MAX" for q
  proof -
    have "entry_wf (a_pcbs a) q (a_pt a q) (dmx_fd (a_dmx a) q)" using wf that by (simp add: dvr_wf_def)
    moreover have "a_pcbs a x = Some y \<Longrightarrow> ((a_pcbs a)(c \<mapsto> p)) x = Some y" for x y using nc by auto
    ultimately show ?thesis unfolding pcbs by (rule entry_wf_mono [rotated])
  qed
  then show "dvr_wf a'" using wf by (simp add: dvr_wf_def a' c)
qed

lemma dvr_add_ts_wf:
  assumes wf: "dvr_wf a" and pid: "pid \<le> PID_MAX"
  obtains c a' where "dvr_add_ts a pid pidt cb = Some (c, a')" "dvr_wf a'" "a_pcbs a c = None"
    "a_pt a' = (a_pt a)(pid := (a_pt a pid)\<lparr>pt_callback := pt_callback (a_pt a pid) @ [c]\<rparr>)"
    "a_pcbs a' = (a_pcbs a)(c \<mapsto> \<lparr>pcb_callback = cb, pcb_pid = pid, pcb_type = DVRCB_TS, pcb_pidt = pidt\<rparr>)"
    "a_progs a' = a_progs a"
proof -
  define p where "p = \<lparr>pcb_callback = cb, pcb_pid = pid, pcb_type = DVRCB_TS, pcb_pidt = pidt\<rparr>"
  obtain c a1 where n: "new_pcb p a = (c, a1)" by fastforce
  note al = dvr_wf_alloc [OF wf n]
  have pm: "pid \<noteq> PID_MAX + 1" "\<not> pid > PID_MAX" using pid by simp_all
  have fresh: "kernel_fresh (a_dmx a)" using wf by (simp add: dvr_wf_def)
  obtain d where d: "(if pt_callback (a_pt a1 pid) = []
         then do { (d, _) \<leftarrow> dmx_join_pid pid DMX_PES_OTHER (a_dmx a1); Some (a1\<lparr>a_dmx := d\<rparr>) }
         else Some a1) = Some (a1\<lparr>a_dmx := d\<rparr>)" "dmx_wf d" "\<forall>q. q \<noteq> pid \<longrightarrow> dmx_fd d q = dmx_fd (a_dmx a) q"
    "dmx_ret d = dmx_ret (a_dmx a)"
  proof (cases "pt_callback (a_pt a1 pid) = []")
    case True
    have "dmx_wf (a_dmx a)" using wf by (simp add: dvr_wf_def)
    then obtain d ok where "dmx_join_pid pid DMX_PES_OTHER (a_dmx a) = Some (d, ok)" "dmx_wf d"
      "\<forall>q. q \<noteq> pid \<longrightarrow> dmx_fd d q = dmx_fd (a_dmx a) q" "dmx_ret d = dmx_ret (a_dmx a)"
      by (rule dmx_join_wf [OF _ pid_mod(2) [OF pid] fresh])
    then show ?thesis using that True al(5) by simp
  next
    case False
    then show ?thesis using that [of "a_dmx a1"] al(5) wf by (simp add: dvr_wf_def)
  qed
  define e where "e = (a_pt a pid)\<lparr>pt_callback := pt_callback (a_pt a pid) @ [c]\<rparr>"
  define a' where "a' = upd_pt pid (\<lambda>e. e\<lparr>pt_callback := pt_callback e @ [c]\<rparr>) (a1\<lparr>a_dmx := d\<rparr>)"
  have eq: "dvr_add_ts a pid pidt cb = Some (c, a')"
    unfolding dvr_add_ts_def pid_mod(1) [OF pid] p_def [symmetric] n Let_def prod.case
    using pm d(1) by (simp add: a'_def)
  have sel: "a_pcbs a' = a_pcbs a1" "a_pt a' = (a_pt a)(pid := e)" "a_dmx a' = d" "a_nextpcb a' = a_nextpcb a1"
    "a_progs a' = a_progs a"
    by (simp_all add: a'_def al e_def)
  have w1: "entry_wf (a_pcbs a1) q (a_pt a q) (dmx_fd (a_dmx a) q)" if "q \<le> PID_MAX" for q
    using al(1) that unfolding dvr_wf_def al(4,5) by blast
  have "dvr_wf a'"
  proof (rule dvr_wf_I [of _ pid])
    show "kernel_fresh (a_dmx a')" using fresh kernel_fresh_cong [OF d(4)] sel by simp
    show "dmx_wf (a_dmx a')" using d(2) sel by simp
    show "a_nextpcb a' \<le> x \<Longrightarrow> a_pcbs a' x = None" for x using al(1) by (simp add: sel dvr_wf_def)
    have "entry_wf (a_pcbs a1) pid e (dmx_fd d pid)"
      unfolding e_def using al(2,7) pid by (intro entry_add_ts [OF w1, of _ c p]) (auto simp: p_def)
    then show "entry_wf (a_pcbs a') pid (a_pt a' pid) (dmx_fd (a_dmx a') pid)" by (simp add: sel)
    show "entry_wf (a_pcbs a') q (a_pt a' q) (dmx_fd (a_dmx a') q)" if "q \<le> PID_MAX" "q \<noteq> pid" for q
      using w1 [OF that(1)] that(2) d(3) by (simp add: sel)
  qed
  then show ?thesis using that [of c a'] eq al(2,3) by (simp add: sel e_def p_def)
qed

lemma entry_section [simp]:
  "entry_wf m pid (e\<lparr>pt_section := x\<rparr>) fd = entry_wf m pid e fd"
  "entry_wf m pid (e\<lparr>pt_packets := n\<rparr>) fd = entry_wf m pid e fd"
  by (simp_all add: entry_wf_def lists_ok_def users_ok_def reassembles_def split: option.split)

lemma entry_add_section:
  assumes "entry_wf m pid e fd" "m c = Some p" "pcb_pid p = pid" "pcb_type p = DVRCB_SECTION"
    and "c \<notin> set (pt_sectioncallback e)" "pt_secuser e < 2 ^ 32 - 1"
    and "if pt_secuser e = 0 then reassembles m pid e r else pt_seccb e = Some r"
  shows "entry_wf m pid (e\<lparr>pt_seccb := Some r, pt_secuser := (pt_secuser e + 1) mod 2 ^ 32,
           pt_sectioncallback := pt_sectioncallback e @ [c]\<rparr>) fd"
proof -
  have "(pt_secuser e + 1) mod 2 ^ 32 = pt_secuser e + 1" using assms(6) by simp
  then show ?thesis
    using assms by (auto simp: entry_wf_def lists_ok_def users_ok_def reassembles_def live_def split: if_splits option.splits)
qed

lemma dvr_wf_upd:
  assumes wf: "dvr_wf a" and e: "pid \<le> PID_MAX \<Longrightarrow> entry_wf (a_pcbs a) pid (f (a_pt a pid)) (dmx_fd (a_dmx a) pid)"
  shows "dvr_wf (upd_pt pid f a)"
  using assms by (simp add: dvr_wf_def)

lemma dvr_add_section_wf:
  assumes wf: "dvr_wf a" and pid: "pid \<le> PID_MAX"
    and room: "pt_secuser (a_pt a pid) < 2 ^ 32 - 1"
  obtains c a' where "dvr_add_section a pid pidt cb = Some (c, a')" "dvr_wf a'" "a_pcbs a c = None"
    "pt_sectioncallback (a_pt a' pid) = pt_sectioncallback (a_pt a pid) @ [c]"
    "\<exists>p. a_pcbs a' c = Some p \<and> pcb_callback p = cb" "\<And>q. q \<noteq> pid \<Longrightarrow> a_pt a' q = a_pt a q"
    "pt_callback (a_pt a' pid) = (if pt_secuser (a_pt a pid) = 0
       then pt_callback (a_pt a pid) @ (case pt_seccb (a_pt a' pid) of Some r \<Rightarrow> [r] | None \<Rightarrow> []) else pt_callback (a_pt a pid))"
    "pt_secuser (a_pt a' pid) = pt_secuser (a_pt a pid) + 1"
    "\<forall>r. pt_secuser (a_pt a pid) = 0 \<longrightarrow> pt_seccb (a_pt a' pid) = Some r \<longrightarrow> r \<notin> set (pt_callback (a_pt a pid))"
    "pt_seccb (a_pt a' pid) \<noteq> None"
proof -
  define p where "p = \<lparr>pcb_callback = cb, pcb_pid = pid, pcb_type = DVRCB_SECTION, pcb_pidt = pidt\<rparr>"
  obtain c a1 where n: "new_pcb p a = (c, a1)" by fastforce
  note al = dvr_wf_alloc [OF wf n]
  have pm: "pid \<noteq> PID_MAX + 1" "\<not> pid > PID_MAX" using pid by simp_all
  have cn: "c \<notin> set (pt_sectioncallback (a_pt a pid))" using al(7) pid by blast
  let ?add = "\<lambda>r e. e\<lparr>pt_seccb := Some r, pt_secuser := (pt_secuser e + 1) mod 2 ^ 32,
           pt_sectioncallback := pt_sectioncallback e @ [c]\<rparr>"
  show ?thesis
  proof (cases "pt_secuser (a_pt a pid) = 0")
    case True
    define a2 where "a2 = upd_pt pid (\<lambda>e. e\<lparr>pt_section := psi_section_new\<rparr>) a1"
    have w2: "dvr_wf a2" unfolding a2_def using al(1) by (intro dvr_wf_upd) (simp_all add: dvr_wf_def)
    obtain r a3 where a3: "dvr_add_ts a2 pid PID_REASSEMBLE (CB_reassemble pid) = Some (r, a3)" "dvr_wf a3" "a_pcbs a2 r = None"
      "a_pt a3 = (a_pt a2)(pid := (a_pt a2 pid)\<lparr>pt_callback := pt_callback (a_pt a2 pid) @ [r]\<rparr>)"
      "a_pcbs a3 = (a_pcbs a2)(r \<mapsto> \<lparr>pcb_callback = CB_reassemble pid, pcb_pid = pid, pcb_type = DVRCB_TS, pcb_pidt = PID_REASSEMBLE\<rparr>)"
      using dvr_add_ts_wf [OF w2 pid] by blast
    have rc: "r \<noteq> c" using a3(3) al(2) by (auto simp: a2_def)
    have u3: "pt_secuser (a_pt a3 pid) = 0" "pt_sectioncallback (a_pt a3 pid) = pt_sectioncallback (a_pt a pid)"
      "pt_callback (a_pt a3 pid) = pt_callback (a_pt a pid) @ [r]"
      using True by (simp_all add: a3(4) a2_def al)
    have "a_pcbs a r = None" using a3(3) rc by (simp add: a2_def al(2))
    moreover have "lists_ok (a_pcbs a) pid (a_pt a pid)" using wf pid by (simp add: dvr_wf_def entry_wf_def)
    ultimately have rn: "r \<notin> set (pt_callback (a_pt a pid))" using lists_ok_dom by blast
    have m3: "a_pcbs a3 c = Some p" using rc al(2) by (simp add: a3(5) a2_def)
    define a4 where "a4 = upd_pt pid (?add r) a3"
    have "dvr_wf a4" unfolding a4_def
    proof (rule dvr_wf_upd [OF a3(2)], rule entry_add_section)
      show "entry_wf (a_pcbs a3) pid (a_pt a3 pid) (dmx_fd (a_dmx a3) pid)" using a3(2) pid by (simp add: dvr_wf_def)
      show "a_pcbs a3 c = Some p" by (rule m3)
      show "if pt_secuser (a_pt a3 pid) = 0 then reassembles (a_pcbs a3) pid (a_pt a3 pid) r
        else pt_seccb (a_pt a3 pid) = Some r" using u3 by (simp add: reassembles_def a3(5))
    qed (use cn u3 in \<open>simp_all add: p_def\<close>)
    moreover have "dvr_add_section a pid pidt cb = Some (c, a4)"
      unfolding dvr_add_section_def pid_mod(1) [OF pid] p_def [symmetric] n Let_def prod.case
      using pm True a3(1) by (simp add: al a2_def a4_def upd_pt_def)
    moreover have "a_pt a4 q = a_pt a q" if "q \<noteq> pid" for q using that by (simp add: a4_def a3(4) a2_def al)
    ultimately show ?thesis
      using that [of c a4] al(3) u3 m3 True rn by (simp add: a4_def p_def)
  next
    case False
    have e: "entry_wf (a_pcbs a1) pid (a_pt a1 pid) (dmx_fd (a_dmx a1) pid)" using al(1) pid by (simp add: dvr_wf_def)
    then obtain r where r: "pt_seccb (a_pt a1 pid) = Some r"
      using False by (auto simp: entry_wf_def users_ok_def al split: option.splits)
    define a4 where "a4 = upd_pt pid (?add r) a1"
    have "dvr_wf a4" unfolding a4_def
    proof (rule dvr_wf_upd [OF al(1)], rule entry_add_section [OF e])
      show "a_pcbs a1 c = Some p" by (simp add: al)
    qed (use cn room False r in \<open>simp_all add: p_def al\<close>)
    moreover have "dvr_add_section a pid pidt cb = Some (c, a4)"
    proof -
      have "a_pt a1 pid = (a_pt a1 pid)\<lparr>pt_seccb := Some r\<rparr>" using r by (simp flip: r)
      then have u: "upd_pt pid (\<lambda>e. e\<lparr>pt_secuser := (pt_secuser e + 1) mod 2 ^ 32,
           pt_sectioncallback := pt_sectioncallback e @ [c]\<rparr>) a1 = a4"
        by (simp add: a4_def upd_pt_def)
      show ?thesis
        unfolding dvr_add_section_def pid_mod(1) [OF pid] p_def [symmetric] n Let_def prod.case
        using pm False u by (simp add: al)
    qed
    moreover have "a_pt a4 q = a_pt a q" if "q \<noteq> pid" for q using that by (simp add: a4_def al)
    ultimately show ?thesis
      using that [of c a4] al False room by (simp add: a4_def p_def)
  qed
qed

lemma dvr_del_ts_wf:
  assumes wf: "dvr_wf a" and pid: "pid \<le> PID_MAX" and c: "pt_seccb (a_pt a pid) \<noteq> Some c"
  obtains a' where "dvr_del_ts a pid c = Some a'" "dvr_wf a'" "a_pcbs a' = a_pcbs a" "a_progs a' = a_progs a"
    "a_pt a' = (a_pt a)(pid := (a_pt a pid)\<lparr>pt_callback := remove1 c (pt_callback (a_pt a pid))\<rparr>)"
proof -
  define e where "e = (a_pt a pid)\<lparr>pt_callback := remove1 c (pt_callback (a_pt a pid))\<rparr>"
  have dwf: "dmx_wf (a_dmx a)" using wf by (simp add: dvr_wf_def)
  have e0: "entry_wf (a_pcbs a) pid (a_pt a pid) (dmx_fd (a_dmx a) pid)" using wf pid by (simp add: dvr_wf_def)
  note e1 = entry_del_ts [OF e0 c, folded e_def]
  obtain d where d: "dmx_leave_pid pid (a_dmx a) = Some d" "dmx_wf d" "dmx_fd d = (dmx_fd (a_dmx a))(pid := -1)"
    "dmx_ret d = dmx_ret (a_dmx a)"
    using dmx_leave_wf [OF dwf pid_mod(2) [OF pid]] .
  define a' where "a' = a\<lparr>a_pt := (a_pt a)(pid := e), a_dmx := (if pt_callback e = [] then d else a_dmx a)\<rparr>"
  have "dvr_del_ts a pid c = Some a'"
    using d(1) by (simp add: dvr_del_ts_def Let_def a'_def e_def upd_pt_def)
  moreover have "dvr_wf a'"
  proof (rule dvr_wf_I [of _ pid])
    show "kernel_fresh (a_dmx a')" using wf kernel_fresh_cong [OF d(4)] by (simp add: a'_def dvr_wf_def)
    show "dmx_wf (a_dmx a')" using d(2) dwf by (simp add: a'_def)
    show "a_nextpcb a' \<le> x \<Longrightarrow> a_pcbs a' x = None" for x using wf by (simp add: a'_def dvr_wf_def)
    show "entry_wf (a_pcbs a') pid (a_pt a' pid) (dmx_fd (a_dmx a') pid)"
      using e1 d(3) by (cases "pt_callback e = []") (simp_all add: a'_def e_def)
    show "entry_wf (a_pcbs a') q (a_pt a' q) (dmx_fd (a_dmx a') q)" if "q \<le> PID_MAX" "q \<noteq> pid" for q
      using wf that d(3) by (simp add: a'_def dvr_wf_def)
  qed
  ultimately show ?thesis using that [of a'] by (simp add: a'_def e_def)
qed

lemma dvr_wf_free:
  assumes wf: "dvr_wf a" and "\<And>q. q \<le> PID_MAX \<Longrightarrow> c \<notin> set (pt_callback (a_pt a q)) \<and> c \<notin> set (pt_sectioncallback (a_pt a q))"
  shows "dvr_wf (free_pcb c a)"
  using assms unfolding dvr_wf_def free_pcb_def by (auto intro!: entry_free)

lemma live_unique: "live m p t c \<Longrightarrow> live m q u c \<Longrightarrow> p = q \<and> t = u"
  by (auto simp: live_def)

lemma dvr_wf_members:
  assumes wf: "dvr_wf a" and pid: "pid \<le> PID_MAX"
  shows "c \<in> set (pt_callback (a_pt a pid)) \<Longrightarrow> live (a_pcbs a) pid DVRCB_TS c"
    "c \<in> set (pt_sectioncallback (a_pt a pid)) \<Longrightarrow> live (a_pcbs a) pid DVRCB_SECTION c"
    "distinct (pt_callback (a_pt a pid))" "distinct (pt_sectioncallback (a_pt a pid))"
proof -
  have l: "lists_ok (a_pcbs a) pid (a_pt a pid)" using wf pid by (simp add: dvr_wf_def entry_wf_def)
  show "c \<in> set (pt_callback (a_pt a pid)) \<Longrightarrow> live (a_pcbs a) pid DVRCB_TS c"
    "c \<in> set (pt_sectioncallback (a_pt a pid)) \<Longrightarrow> live (a_pcbs a) pid DVRCB_SECTION c"
    "distinct (pt_callback (a_pt a pid))" "distinct (pt_sectioncallback (a_pt a pid))"
    using l unfolding lists_ok_def by blast+
qed

text \<open>Removing a packet callback that is not the pid's own reassembly.\<close>

lemma dvr_del_pcb_ts:
  assumes wf: "dvr_wf a" and pid: "pid \<le> PID_MAX" and c: "pt_seccb (a_pt a pid) \<noteq> Some c"
    and m: "c \<in> set (pt_callback (a_pt a pid))"
  obtains a' where "dvr_del_rec (Suc fuel) a pid (Some c) = Some a'" "dvr_wf a'" "a_pcbs a' = (a_pcbs a)(c := None)"
    "a_progs a' = a_progs a"
    "a_pt a' = (a_pt a)(pid := (a_pt a pid)\<lparr>pt_callback := remove1 c (pt_callback (a_pt a pid))\<rparr>)"
proof -
  note lv = dvr_wf_members [OF wf]
  obtain p where p: "a_pcbs a c = Some p" "pcb_type p = DVRCB_TS" using lv(1) [OF pid m] by (auto simp: live_def)
  obtain a1 where a1: "dvr_del_ts a pid c = Some a1" "dvr_wf a1" "a_pcbs a1 = a_pcbs a" "a_progs a1 = a_progs a"
    "a_pt a1 = (a_pt a)(pid := (a_pt a pid)\<lparr>pt_callback := remove1 c (pt_callback (a_pt a pid))\<rparr>)"
    using dvr_del_ts_wf [OF wf pid c] .
  have "c \<notin> set (pt_callback (a_pt a1 q)) \<and> c \<notin> set (pt_sectioncallback (a_pt a1 q))" if q: "q \<le> PID_MAX" for q
  proof -
    have "live (a_pcbs a) pid DVRCB_TS c" using lv(1) [OF pid m] .
    then have "c \<notin> set (pt_sectioncallback (a_pt a q))" "q \<noteq> pid \<Longrightarrow> c \<notin> set (pt_callback (a_pt a q))"
      using lv(1,2) [OF q] live_unique by blast+
    then show ?thesis using lv(3) [OF pid] by (cases "q = pid") (simp_all add: a1(5) set_remove1_eq)
  qed
  then have "dvr_wf (free_pcb c a1)" by (rule dvr_wf_free [OF a1(2)])
  moreover have "dvr_del_rec (Suc fuel) a pid (Some c) = Some (free_pcb c a1)"
    using p a1(1) pid by simp
  ultimately show ?thesis using that a1(3,4,5) by (simp add: free_pcb_def)
qed

text \<open>Removing a section callback: the last one of a pid removes the pid's reassembly too.\<close>

lemma upd_pt_upd [simp]: "upd_pt pid f (upd_pt pid g a) = upd_pt pid (f \<circ> g) a"
  by (simp add: upd_pt_def)

lemma upd_pt_cong: "f (a_pt a pid) = g (a_pt a pid) \<Longrightarrow> upd_pt pid f a = upd_pt pid g a"
  by (simp add: upd_pt_def)

lemma upd_pt_free [simp]: "upd_pt pid f (free_pcb c a) = free_pcb c (upd_pt pid f a)"
  by (simp add: upd_pt_def free_pcb_def)

lemma dvr_del_ts_upd:
  assumes "\<And>e f. h (e\<lparr>pt_callback := f\<rparr>) = (h e)\<lparr>pt_callback := f\<rparr>" "\<And>e. pt_callback (h e) = pt_callback e"
  shows "dvr_del_ts (upd_pt pid h a) pid c = map_option (upd_pt pid h) (dvr_del_ts a pid c)"
proof -
  have "h ((a_pt a pid)\<lparr>pt_callback := remove1 c (pt_callback (a_pt a pid))\<rparr>) =
    (h (a_pt a pid))\<lparr>pt_callback := remove1 c (pt_callback (a_pt a pid))\<rparr>" using assms(1) .
  then show ?thesis
    by (cases "dmx_leave_pid pid (a_dmx a)") (auto simp: dvr_del_ts_def Let_def assms(2) upd_pt_def)
qed

lemma entry_no_users:
  assumes "entry_wf m pid e fd"
  shows "entry_wf m pid (e\<lparr>pt_secuser := 0, pt_seccb := None, pt_sectioncallback := []\<rparr>) fd"
  using assms by (simp add: entry_wf_def lists_ok_def users_ok_def)

lemma entry_del_section:
  assumes "entry_wf m pid e fd" "c \<in> set (pt_sectioncallback e)" "pt_secuser e \<noteq> 1"
  shows "usub32 (pt_secuser e) 1 = pt_secuser e - 1" "usub32 (pt_secuser e) 1 \<noteq> 0"
    "entry_wf m pid (e\<lparr>pt_secuser := pt_secuser e - 1, pt_sectioncallback := remove1 c (pt_sectioncallback e)\<rparr>) fd"
proof -
  have u: "pt_secuser e = length (pt_sectioncallback e)" "pt_secuser e < 2 ^ 32"
    using assms(1) by (simp_all add: entry_wf_def users_ok_def)
  then have "pt_secuser e \<noteq> 0" using assms(2) by auto
  then have g: "1 < pt_secuser e" using assms(3) by linarith
  show us: "usub32 (pt_secuser e) 1 = pt_secuser e - 1" by (rule usub32_le) (use g u in simp_all)
  show "usub32 (pt_secuser e) 1 \<noteq> 0" using us g by simp
  have l: "lists_ok m pid (e\<lparr>pt_secuser := pt_secuser e - 1, pt_sectioncallback := remove1 c (pt_sectioncallback e)\<rparr>)"
    using assms(1) by (auto simp: entry_wf_def lists_ok_def dest: notin_set_remove1)
  have "users_ok m pid (e\<lparr>pt_secuser := pt_secuser e - 1, pt_sectioncallback := remove1 c (pt_sectioncallback e)\<rparr>)"
    using assms(1,2) u g by (auto simp: entry_wf_def users_ok_def reassembles_def length_remove1 split: option.splits)
  with l show "entry_wf m pid (e\<lparr>pt_secuser := pt_secuser e - 1, pt_sectioncallback := remove1 c (pt_sectioncallback e)\<rparr>) fd"
    using assms(1) by (simp add: entry_wf_def)
qed

lemma dvr_not_member:
  assumes wf: "dvr_wf a" and q: "q \<le> PID_MAX" and l: "live (a_pcbs a) pid t c"
  shows "t = DVRCB_SECTION \<Longrightarrow> c \<notin> set (pt_callback (a_pt a q))"
    "t = DVRCB_TS \<Longrightarrow> c \<notin> set (pt_sectioncallback (a_pt a q))"
    "q \<noteq> pid \<Longrightarrow> c \<notin> set (pt_callback (a_pt a q)) \<and> c \<notin> set (pt_sectioncallback (a_pt a q))"
  using dvr_wf_members(1,2) [OF wf q, of c] live_unique [OF l] by blast+

lemma dvr_del_pcb_section:
  assumes wf: "dvr_wf a" and pid: "pid \<le> PID_MAX" and c: "c \<in> set (pt_sectioncallback (a_pt a pid))"
  obtains a' where "dvr_del_rec (Suc (Suc fuel)) a pid (Some c) = Some a'" "dvr_wf a'" "a_pcbs a' c = None"
    "pt_sectioncallback (a_pt a' pid) = remove1 c (pt_sectioncallback (a_pt a pid))"
    "pt_callback (a_pt a' pid) = (case pt_seccb (a_pt a pid) of
       Some r \<Rightarrow> if pt_secuser (a_pt a pid) = 1 then remove1 r (pt_callback (a_pt a pid)) else pt_callback (a_pt a pid)
     | None \<Rightarrow> pt_callback (a_pt a pid))"
    "\<And>q. q \<noteq> pid \<Longrightarrow> a_pt a' q = a_pt a q"
proof -
  let ?e = "a_pt a pid"
  note lv = dvr_wf_members(2) [OF wf pid c]
  obtain p where p: "a_pcbs a c = Some p" "pcb_type p = DVRCB_SECTION" using lv by (auto simp: live_def)
  have ew: "entry_wf (a_pcbs a) pid ?e (dmx_fd (a_dmx a) pid)" using wf pid by (simp add: dvr_wf_def)
  have dist: "distinct (pt_sectioncallback ?e)" by (rule dvr_wf_members(4) [OF wf pid])
  have u: "pt_secuser ?e = length (pt_sectioncallback ?e)" "pt_secuser ?e < 2 ^ 32"
    using ew by (simp_all add: entry_wf_def users_ok_def)
  have npid: "\<not> pid > PID_MAX" using pid by simp
  show ?thesis
  proof (cases "pt_secuser ?e = 1")
    case True
    then obtain r where r: "pt_seccb ?e = Some r" "r \<in> set (pt_callback ?e)"
      using ew by (auto simp: entry_wf_def users_ok_def reassembles_def split: option.splits)
    have sl: "pt_sectioncallback ?e = [c]" using True u(1) c by (auto simp: length_Suc_conv)
    define h :: "dvrpt \<Rightarrow> dvrpt" where "h = (\<lambda>e. e\<lparr>pt_secuser := 0, pt_seccb := None, pt_sectioncallback := []\<rparr>)"
    define a1 where "a1 = upd_pt pid h a"
    have w1: "dvr_wf a1" unfolding a1_def h_def
      by (rule dvr_wf_upd [OF wf], rule entry_no_users, use wf in \<open>simp add: dvr_wf_def\<close>)
    have s1: "pt_callback (a_pt a1 pid) = pt_callback ?e" "pt_seccb (a_pt a1 pid) = None"
      "a_pcbs a1 = a_pcbs a" by (simp_all add: a1_def h_def)
    have r1: "r \<in> set (pt_callback (a_pt a1 pid))" using r(2) s1 by simp
    have nr: "pt_seccb (a_pt a1 pid) \<noteq> Some r" using s1 by simp
    obtain a2 where a2: "dvr_del_rec (Suc fuel) a1 pid (Some r) = Some a2" "dvr_wf a2"
      "a_pcbs a2 = (a_pcbs a1)(r := None)"
      "a_pt a2 = (a_pt a1)(pid := (a_pt a1 pid)\<lparr>pt_callback := remove1 r (pt_callback (a_pt a1 pid))\<rparr>)"
      using dvr_del_pcb_ts [OF w1 pid nr r1] .
    obtain pr where pr: "a_pcbs a r = Some pr" "pcb_type pr = DVRCB_TS"
      using dvr_wf_members(1) [OF wf pid r(2)] by (auto simp: live_def)
    obtain a3 where a3: "dvr_del_ts a pid r = Some a3" "a_pt a3 = (a_pt a)(pid := ?e\<lparr>pt_callback := remove1 r (pt_callback ?e)\<rparr>)"
    proof -
      have "dvr_del_ts a1 pid r \<noteq> None" using a2(1) pr s1(3) npid by (auto split: bind_splits)
      then have "dvr_del_ts a pid r \<noteq> None"
        unfolding a1_def by (subst (asm) dvr_del_ts_upd) (simp_all add: h_def)
      then obtain a3 where a3: "dvr_del_ts a pid r = Some a3" by auto
      moreover have "a_pt a3 = (a_pt a)(pid := ?e\<lparr>pt_callback := remove1 r (pt_callback ?e)\<rparr>)"
        using a3 by (auto simp: dvr_del_ts_def Let_def split: if_splits bind_splits)
      ultimately show ?thesis using that by blast
    qed
    have a23: "a2 = free_pcb r (upd_pt pid h a3)"
    proof -
      have "dvr_del_ts a1 pid r = Some (upd_pt pid h a3)"
        unfolding a1_def by (subst dvr_del_ts_upd) (simp_all add: h_def a3)
      then show ?thesis using a2(1) pr s1(3) npid by simp
    qed
    have z: "usub32 (Suc 0) (Suc 0) = 0" by (simp add: usub32_def)
    define b where "b = upd_pt pid (\<lambda>e. e\<lparr>pt_secuser := usub32 (pt_secuser e) 1\<rparr>) a"
    have b0: "pt_secuser (a_pt b pid) = 0" "pt_seccb (a_pt b pid) = Some r" "a_pcbs b = a_pcbs a"
      using True z r by (simp_all add: b_def)
    have bt: "dvr_del_ts b pid r = Some (upd_pt pid (\<lambda>e. e\<lparr>pt_secuser := 0\<rparr>) a3)"
    proof -
      have "b = upd_pt pid (\<lambda>e. e\<lparr>pt_secuser := 0\<rparr>) a"
        unfolding b_def by (rule upd_pt_cong) (use True z in simp)
      then show ?thesis using dvr_del_ts_upd [of "\<lambda>e. e\<lparr>pt_secuser := 0\<rparr>" pid a r] a3(1) by simp
    qed
    have br: "dvr_del_rec (Suc fuel) b pid (Some r) = Some (free_pcb r (upd_pt pid (\<lambda>e. e\<lparr>pt_secuser := 0\<rparr>) a3))"
      using bt pr b0 npid by simp
    have del: "dvr_del_rec (Suc (Suc fuel)) a pid (Some c) =
      Some (free_pcb c (upd_pt pid (\<lambda>e. e\<lparr>pt_sectioncallback := remove1 c (pt_sectioncallback e)\<rparr>)
        (upd_pt pid (\<lambda>e. e\<lparr>pt_seccb := None\<rparr>) (free_pcb r (upd_pt pid (\<lambda>e. e\<lparr>pt_secuser := 0\<rparr>) a3)))))"
      apply (subst dvr_del_rec.simps)
      unfolding b_def [symmetric] Let_def
      using p npid b0 br by (simp del: dvr_del_rec.simps add: Let_def)
    have "upd_pt pid (\<lambda>e. e\<lparr>pt_sectioncallback := remove1 c (pt_sectioncallback e)\<rparr>)
        (upd_pt pid (\<lambda>e. e\<lparr>pt_seccb := None\<rparr>) (free_pcb r (upd_pt pid (\<lambda>e. e\<lparr>pt_secuser := 0\<rparr>) a3))) = a2"
      unfolding a23 upd_pt_free upd_pt_upd
      by (rule arg_cong [of _ _ "free_pcb r"], rule upd_pt_cong) (simp add: h_def a3(2) sl)
    then have eq: "dvr_del_rec (Suc (Suc fuel)) a pid (Some c) = Some (free_pcb c a2)" using del by simp
    have lc: "live (a_pcbs a1) pid DVRCB_SECTION c" using lv s1(3) by simp
    have "c \<notin> set (pt_callback (a_pt a2 q)) \<and> c \<notin> set (pt_sectioncallback (a_pt a2 q))" if "q \<le> PID_MAX" for q
    proof (cases "q = pid")
      case True
      then show ?thesis using dvr_not_member(1) [OF w1 pid lc] notin_set_remove1
        by (simp add: a2(4)) (simp add: a1_def h_def)
    next
      case False
      then show ?thesis using dvr_not_member(3) [OF w1 that lc] by (simp add: a2(4))
    qed
    then have "dvr_wf (free_pcb c a2)" by (rule dvr_wf_free [OF a2(2)])
    then show ?thesis
      using that [OF eq] a2(4) sl r True by (simp add: free_pcb_def a1_def h_def)
  next
    case False
    note es = entry_del_section [OF ew c False]
    define b where "b = upd_pt pid (\<lambda>e. e\<lparr>pt_secuser := pt_secuser e - 1, pt_sectioncallback := remove1 c (pt_sectioncallback e)\<rparr>) a"
    have eq: "dvr_del_rec (Suc (Suc fuel)) a pid (Some c) = Some (free_pcb c b)"
    proof -
      have "upd_pt pid ((\<lambda>e. e\<lparr>pt_sectioncallback := remove1 c (pt_sectioncallback e)\<rparr>) \<circ>
          (\<lambda>e. e\<lparr>pt_secuser := usub32 (pt_secuser e) 1\<rparr>)) a = b"
        unfolding b_def by (rule upd_pt_cong) (use es(1) in simp)
      then show ?thesis using p npid es(2) by simp
    qed
    have w: "dvr_wf b" unfolding b_def
      by (rule dvr_wf_upd [OF wf]) (use es(3) in simp)
    have lb: "live (a_pcbs b) pid DVRCB_SECTION c" using lv by (simp add: b_def)
    have "c \<notin> set (pt_callback (a_pt b q)) \<and> c \<notin> set (pt_sectioncallback (a_pt b q))" if "q \<le> PID_MAX" for q
      using dvr_not_member(1,3) [OF w that lb] dist by (cases "q = pid") (auto simp: b_def)
    then have "dvr_wf (free_pcb c b)" by (rule dvr_wf_free [OF w])
    then show ?thesis
      using that [OF eq] False by (simp add: free_pcb_def b_def split: option.split)
  qed
qed

section \<open>Properties\<close>

lemma dvr_add_then_del:
  assumes wf: "dvr_wf a" and pid: "pid \<le> PID_MAX"
    and room: "pt_secuser (a_pt a pid) < 2 ^ 32 - 1"
  obtains c a' a'' where "dvr_add_pcb a pid type pidt cb = Some (c, a')" "dvr_wf a'"
    "a_pcbs a c = None" "dvr_del_pcb a' pid (Some c) = Some a''" "dvr_wf a''" "a_pcbs a'' c = None"
    "pt_callback (a_pt a'' pid) = pt_callback (a_pt a pid)"
    "pt_sectioncallback (a_pt a'' pid) = pt_sectioncallback (a_pt a pid)"
proof (cases type)
  case DVRCB_TS
  obtain c a' where a': "dvr_add_ts a pid pidt cb = Some (c, a')" "dvr_wf a'" "a_pcbs a c = None"
    "a_pt a' = (a_pt a)(pid := (a_pt a pid)\<lparr>pt_callback := pt_callback (a_pt a pid) @ [c]\<rparr>)"
    using dvr_add_ts_wf [OF wf pid] by metis
  have l: "lists_ok (a_pcbs a) pid (a_pt a pid)" "users_ok (a_pcbs a) pid (a_pt a pid)"
    using wf pid by (simp_all add: dvr_wf_def entry_wf_def)
  note nc = lists_ok_dom [OF l(1) a'(3)]
  have r: "pt_seccb (a_pt a' pid) \<noteq> Some c" using l(2) nc by (auto simp: a'(4) users_ok_def reassembles_def)
  have m: "c \<in> set (pt_callback (a_pt a' pid))" by (simp add: a'(4))
  obtain a'' where "dvr_del_pcb a' pid (Some c) = Some a''" "dvr_wf a''" "a_pcbs a'' = (a_pcbs a')(c := None)"
    "a_pt a'' = (a_pt a')(pid := (a_pt a' pid)\<lparr>pt_callback := remove1 c (pt_callback (a_pt a' pid))\<rparr>)"
    unfolding dvr_del_pcb_def numeral_2_eq_2
    by (rule dvr_del_pcb_ts [OF a'(2) pid r m, of "Suc 0"]) blast
  then show ?thesis
    using that [of c a' a''] a' DVRCB_TS nc by (simp add: dvr_add_pcb_def remove1_append)
next
  case DVRCB_SECTION
  obtain c a' where a': "dvr_add_section a pid pidt cb = Some (c, a')" "dvr_wf a'" "a_pcbs a c = None"
    "pt_sectioncallback (a_pt a' pid) = pt_sectioncallback (a_pt a pid) @ [c]"
    "pt_callback (a_pt a' pid) = (if pt_secuser (a_pt a pid) = 0
       then pt_callback (a_pt a pid) @ (case pt_seccb (a_pt a' pid) of Some r \<Rightarrow> [r] | None \<Rightarrow> []) else pt_callback (a_pt a pid))"
    "pt_secuser (a_pt a' pid) = pt_secuser (a_pt a pid) + 1"
    "\<forall>r. pt_secuser (a_pt a pid) = 0 \<longrightarrow> pt_seccb (a_pt a' pid) = Some r \<longrightarrow> r \<notin> set (pt_callback (a_pt a pid))"
    "pt_seccb (a_pt a' pid) \<noteq> None"
    by (rule dvr_add_section_wf [OF wf pid room, of pidt cb]) (rule that; assumption)
  have l: "lists_ok (a_pcbs a) pid (a_pt a pid)" using wf pid by (simp add: dvr_wf_def entry_wf_def)
  note nc = lists_ok_dom [OF l a'(3)]
  have m: "c \<in> set (pt_sectioncallback (a_pt a' pid))" by (simp add: a'(4))
  obtain a'' where "dvr_del_pcb a' pid (Some c) = Some a''" "dvr_wf a''" "a_pcbs a'' c = None"
    "pt_sectioncallback (a_pt a'' pid) = remove1 c (pt_sectioncallback (a_pt a' pid))"
    "pt_callback (a_pt a'' pid) = (case pt_seccb (a_pt a' pid) of
       Some r \<Rightarrow> if pt_secuser (a_pt a' pid) = 1 then remove1 r (pt_callback (a_pt a' pid)) else pt_callback (a_pt a' pid)
     | None \<Rightarrow> pt_callback (a_pt a' pid))"
    unfolding dvr_del_pcb_def numeral_2_eq_2
    by (rule dvr_del_pcb_section [OF a'(2) pid m, of 0]) blast
  then show ?thesis
    using that [of c a' a''] a' DVRCB_SECTION nc
    by (auto simp: dvr_add_pcb_def remove1_append split: option.splits)
qed

text \<open>Registering and removing callbacks keeps the table of pids consistent: every list
  holds live entries only, of the pid and the type of the list; the number of users of a pid's
  sections is the number of its section callbacks; the reassembly is registered while there
  are any; and a pid without callbacks is not joined.  A removed entry is freed and is in no
  list.  No operation uses a freed entry, and removing the callback just added restores
  the lists.\<close>

theorem dvr_callbacks_consistent:
  assumes "dvr_wf a" "pid \<le> PID_MAX" "pt_secuser (a_pt a pid) < 2 ^ 32 - 1"
  shows "(\<exists>c a' a''. dvr_add_pcb a pid type pidt cb = Some (c, a') \<and> dvr_wf a' \<and> a_pcbs a c = None \<and>
      dvr_del_pcb a' pid (Some c) = Some a'' \<and> dvr_wf a'' \<and> a_pcbs a'' c = None \<and>
      pt_callback (a_pt a'' pid) = pt_callback (a_pt a pid) \<and>
      pt_sectioncallback (a_pt a'' pid) = pt_sectioncallback (a_pt a pid)) \<and>
    (\<forall>c. c \<in> set (pt_sectioncallback (a_pt a pid)) \<or>
         c \<in> set (pt_callback (a_pt a pid)) \<and> pt_seccb (a_pt a pid) \<noteq> Some c \<longrightarrow>
       (\<exists>a'. dvr_del_pcb a pid (Some c) = Some a' \<and> dvr_wf a' \<and> a_pcbs a' c = None))"
proof (intro conjI allI impI)
  show "\<exists>c a' a''. dvr_add_pcb a pid type pidt cb = Some (c, a') \<and> dvr_wf a' \<and> a_pcbs a c = None \<and>
      dvr_del_pcb a' pid (Some c) = Some a'' \<and> dvr_wf a'' \<and> a_pcbs a'' c = None \<and>
      pt_callback (a_pt a'' pid) = pt_callback (a_pt a pid) \<and>
      pt_sectioncallback (a_pt a'' pid) = pt_sectioncallback (a_pt a pid)"
    by (rule dvr_add_then_del [OF assms, of type pidt cb]) blast
  fix c
  assume c: "c \<in> set (pt_sectioncallback (a_pt a pid)) \<or>
    c \<in> set (pt_callback (a_pt a pid)) \<and> pt_seccb (a_pt a pid) \<noteq> Some c"
  then show "\<exists>a'. dvr_del_pcb a pid (Some c) = Some a' \<and> dvr_wf a' \<and> a_pcbs a' c = None"
  proof
    assume m: "c \<in> set (pt_sectioncallback (a_pt a pid))"
    show ?thesis
      unfolding dvr_del_pcb_def numeral_2_eq_2
      by (rule dvr_del_pcb_section [OF assms(1,2) m, of 0]) blast
  next
    assume m: "c \<in> set (pt_callback (a_pt a pid)) \<and> pt_seccb (a_pt a pid) \<noteq> Some c"
    show ?thesis
      unfolding dvr_del_pcb_def numeral_2_eq_2
      by (rule dvr_del_pcb_ts [OF assms(1,2) conjunct2 [OF m] conjunct1 [OF m], of "Suc 0"]) simp
  qed
qed

lemma example_adapter_wf: "dvr_wf example_adapter"
  using example_dmx_ok
  by (simp add: dvr_wf_def entry_wf_def lists_ok_def users_ok_def example_adapter_def example_dmx_def)

theorem dvr_callbacks_consistent_witness:
  "\<exists>c a' a''. dvr_add_pcb example_adapter 18 DVRCB_SECTION PID_OTHER (CB_external 1) = Some (c, a') \<and>
      dvr_del_pcb a' 18 (Some c) = Some a'' \<and> dvr_wf a''"
  using dvr_callbacks_consistent [OF example_adapter_wf, of 18 DVRCB_SECTION PID_OTHER "CB_external 1"]
  by (force simp: PID_MAX_def example_adapter_def)

end
