(* ===== verification/Pmt.thy ===== *)
theory Pmt
  imports Dvr Pat
begin

text \<open>
  \<^verbatim>\<open>pmt.c\<close>: the programs somebody has joined.  A program is an entry of the
  adapter's store \<open>a_progs\<close>; the list \<open>a_pnrlist\<close> has the identifiers.  Its PMT tells the
  pids of its streams; the program joins them for its callbacks and leaves those that
  disappear.

  \<open>None\<close> stands for a use of a program that has been freed, an access outside of an array,
  or a use of the null pointer that \<^verbatim>\<open>pmt_parse\<close> returns when section 0 is missing.
  \<^verbatim>\<open>pidtable\<close> has \<open>PID_MAX\<close> entries here, so pid 0x1fff is outside of it.
\<close>

definition PMT_TABLE_ID :: nat where "PMT_TABLE_ID = 2"
definition PMT_PI_OFF :: nat where "PMT_PI_OFF = 12"
definition PMT_PILEN_MASK :: nat where "PMT_PILEN_MASK = 0x03ff"
definition ESINFO_LEN_OFF :: nat where "ESINFO_LEN_OFF = 3"
definition ESINFO_LEN_MASK :: nat where "ESINFO_LEN_MASK = 0x0fff"
definition ESINFO_MIN_LEN :: nat where "ESINFO_MIN_LEN = 5"
definition ES_PID_OFF :: nat where "ES_PID_OFF = 1"

definition upd_prog :: "progid \<Rightarrow> (program \<Rightarrow> program) \<Rightarrow> adapter \<Rightarrow> adapter option" where
  "upd_prog p f a = do { prog \<leftarrow> a_progs a p; Some (a\<lparr>a_progs := (a_progs a)(p \<mapsto> f prog)\<rparr>) }"

section \<open>Joining and leaving a pid\<close>

definition pmt_prog_gets_pid :: "program \<Rightarrow> nat \<Rightarrow> bool option" where
  "pmt_prog_gets_pid prog pid = (if pid < PID_MAX then Some (prog_pids prog pid \<noteq> []) else None)"

fun pmt_join_loop :: "nat list \<Rightarrow> progid \<Rightarrow> nat \<Rightarrow> pidt \<Rightarrow> adapter \<Rightarrow> adapter option" where
  "pmt_join_loop [] p pid type a = Some a"
| "pmt_join_loop (pcb # pcbl) p pid type a = do {
     (cbc, a) \<leftarrow> dvr_add_pcb a pid DVRCB_TS type (CB_external pcb);
     if pid < PID_MAX then do {
       a \<leftarrow> upd_prog p (\<lambda>prog. prog\<lparr>prog_pids := (prog_pids prog)(pid := prog_pids prog pid @ [cbc])\<rparr>) a;
       pmt_join_loop pcbl p pid type a
     }
     else None
   }"

definition pmt_prog_join_pid :: "progid \<Rightarrow> nat \<Rightarrow> pidt \<Rightarrow> adapter \<Rightarrow> adapter option" where
  "pmt_prog_join_pid p pid type a = do { prog \<leftarrow> a_progs a p; pmt_join_loop (prog_cbl prog) p pid type a }"

fun pmt_leave_loop :: "cookie list \<Rightarrow> nat \<Rightarrow> adapter \<Rightarrow> adapter option" where
  "pmt_leave_loop [] pid a = Some a"
| "pmt_leave_loop (cbc # cbcl) pid a = do { a \<leftarrow> dvr_del_pcb a pid (Some cbc); pmt_leave_loop cbcl pid a }"

definition pmt_prog_leave_pid :: "progid \<Rightarrow> nat \<Rightarrow> adapter \<Rightarrow> adapter option" where
  "pmt_prog_leave_pid p pid a =
     (if pid < PID_MAX then do {
        prog \<leftarrow> a_progs a p;
        a \<leftarrow> pmt_leave_loop (prog_pids prog pid) pid a;
        upd_prog p (\<lambda>prog. prog\<lparr>prog_pids := (prog_pids prog)(pid := [])\<rparr>) a
      }
      else None)"

section \<open>Parsing\<close>

definition pmt_pnr :: "u8 list \<Rightarrow> nat" where
  "pmt_pnr d = be16 (d ! 3) (d ! 4)"

definition pmt_mapstreamtype :: "u8 \<Rightarrow> pidt" where
  "pmt_mapstreamtype type =
     (if type \<in> {1, 2, 27} then PID_VIDEO
      else if type \<in> {3, 4} then PID_AUDIO
      else if type \<in> {5, 6} then PID_PRIVATE
      else if type \<in> {7, 8, 9, 10, 11, 12, 13, 14} then PID_OTHER
      else if type AND 0x80 \<noteq> 0 then PID_USER
      else PID_OTHER)"

definition pmt_pcr :: "u8 list \<Rightarrow> nat" where
  "pmt_pcr d = be16 (d ! 8) (d ! 9) AND PID_MASK"

definition pmt_pinfo_len :: "u8 list \<Rightarrow> nat" where
  "pmt_pinfo_len d = be16 (d ! 10) (d ! 11) AND PMT_PILEN_MASK"

definition pmt_es_infolen :: "u8 list \<Rightarrow> nat \<Rightarrow> nat option" where
  "pmt_es_infolen d es = do {
     hi \<leftarrow> peek d (es + ESINFO_LEN_OFF);
     lo \<leftarrow> peek d (es + ESINFO_LEN_OFF + 1);
     Some (be16 hi lo AND ESINFO_LEN_MASK)
   }"

definition pmt_next_es :: "u8 list \<Rightarrow> nat \<Rightarrow> nat option" where
  "pmt_next_es d es = do {
     n \<leftarrow> pmt_es_infolen d es;
     let nes = es + n + ESINFO_MIN_LEN;
     Some (if int nes \<ge> int (psi_len d) - int CRC32_LEN then 0 else nes)
   }"

definition pmt_first_es :: "u8 list \<Rightarrow> nat" where
  "pmt_first_es d = PMT_PI_OFF + pmt_pinfo_len d"

definition pmt_es_type :: "u8 list \<Rightarrow> nat \<Rightarrow> u8 option" where
  "pmt_es_type d es = peek d es"

definition pmt_es_pid :: "u8 list \<Rightarrow> nat \<Rightarrow> nat option" where
  "pmt_es_pid d es = do {
     hi \<leftarrow> peek d (es + ES_PID_OFF);
     lo \<leftarrow> peek d (es + ES_PID_OFF + 1);
     Some (be16 hi lo AND PID_MASK)
   }"

definition pmt_get_pmtpid :: "program \<Rightarrow> nat" where
  "pmt_get_pmtpid prog = prog_pmtpid prog"

definition pmt_new :: pmt where
  "pmt_new = \<lparr>pmt_pcrpid = 0, pmt_es = []\<rparr>"

definition pmt_add_es :: "pmt \<Rightarrow> u8 \<Rightarrow> nat \<Rightarrow> pmt" where
  "pmt_add_es pmt type pid = pmt\<lparr>pmt_es := pmt_es pmt @ [\<lparr>es_streamtype = type, es_pid = pid\<rparr>]\<rparr>"

lemma pmt_next_es_progress:
  "pmt_next_es d es = Some nes \<Longrightarrow> nes \<noteq> 0 \<Longrightarrow> es < nes \<and> nes < psi_len d"
  by (auto simp: pmt_next_es_def Let_def ESINFO_MIN_LEN_def CRC32_LEN_def split: if_splits bind_splits)

text \<open>The loop over the elementary streams of a section runs at least once.\<close>

function pmt_es_loop :: "u8 list \<Rightarrow> nat \<Rightarrow> pmt \<Rightarrow> pmt option" where
  "pmt_es_loop d esoff pmt =
     do {
       type \<leftarrow> pmt_es_type d esoff;
       pid \<leftarrow> pmt_es_pid d esoff;
       let pmt = pmt_add_es pmt type pid;
       esoff \<leftarrow> pmt_next_es d esoff;
       if esoff \<noteq> 0 then pmt_es_loop d esoff pmt else Some pmt
     }"
  by pat_completeness auto
termination
  by (relation "measure (\<lambda>(d, esoff, pmt). psi_len d - esoff)") (auto dest!: pmt_next_es_progress)

declare pmt_es_loop.simps [simp del]

function pmt_parse_loop :: "psi \<Rightarrow> nat \<Rightarrow> nat \<Rightarrow> pmt \<Rightarrow> pmt option" where
  "pmt_parse_loop psi lastsecnum secnum pmt =
     (if secnum \<le> lastsecnum then do {
        s \<leftarrow> peek psi secnum;
        pmt \<leftarrow> (case s of
            None \<Rightarrow> Some pmt
          | Some s \<Rightarrow>
              let pmt = (if pmt_pcr (sec_data s) \<noteq> PID_MAX then pmt\<lparr>pmt_pcrpid := pmt_pcr (sec_data s)\<rparr> else pmt)
              in pmt_es_loop (sec_data s) (pmt_first_es (sec_data s)) pmt);
        pmt_parse_loop psi lastsecnum (secnum + 1) pmt
      }
      else Some pmt)"
  by pat_completeness auto
termination
  by (relation "measure (\<lambda>(psi, lastsecnum, secnum, pmt). lastsecnum + 1 - secnum)") auto

declare pmt_parse_loop.simps [simp del]

definition pmt_parse :: "program \<Rightarrow> pmt option option" where
  "pmt_parse prog = do {
     first \<leftarrow> peek (prog_psi prog) 0;
     case first of
       None \<Rightarrow> Some None
     | Some s \<Rightarrow> do {
         pmt \<leftarrow> pmt_parse_loop (prog_psi prog) (psi_last_section_number (sec_data s)) 0 pmt_new;
         Some (Some pmt)
       }
   }"

definition pmt_find_es :: "pmt \<Rightarrow> nat \<Rightarrow> pmtes option" where
  "pmt_find_es pmt pid = find (\<lambda>es. es_pid es = pid) (pmt_es pmt)"

section \<open>A changed PMT\<close>

text \<open>The first loop joins the streams that are new.\<close>

fun pmt_update_join :: "pmtes list \<Rightarrow> pmt option \<Rightarrow> progid \<Rightarrow> adapter \<Rightarrow> adapter option" where
  "pmt_update_join [] lst p a = Some a"
| "pmt_update_join (escur # esl) lst p a =
     (if (case lst of Some l \<Rightarrow> pmt_find_es l (es_pid escur) \<noteq> None | None \<Rightarrow> False)
      then pmt_update_join esl lst p a
      else do {
        prog \<leftarrow> a_progs a p;
        gets \<leftarrow> pmt_prog_gets_pid prog (es_pid escur);
        a \<leftarrow> (if \<not> gets then pmt_prog_join_pid p (es_pid escur) (pmt_mapstreamtype (es_streamtype escur)) a
             else Some a);
        pmt_update_join esl lst p a
      })"

text \<open>The last loop leaves the pids that are not needed any more.\<close>

fun pmt_update_leave :: "nat list \<Rightarrow> pmt \<Rightarrow> progid \<Rightarrow> adapter \<Rightarrow> adapter option" where
  "pmt_update_leave [] current p a = Some a"
| "pmt_update_leave (i # is) current p a = do {
     prog \<leftarrow> a_progs a p;
     gets \<leftarrow> pmt_prog_gets_pid prog i;
     a \<leftarrow> (if gets then
             if pmt_pcrpid current = i then Some a
             else if prog_pmtpid prog = i then Some a
             else if pmt_find_es current i \<noteq> None then Some a
             else pmt_prog_leave_pid p i a
           else Some a);
     pmt_update_leave is current p a
   }"

definition pmt_update :: "progid \<Rightarrow> adapter \<Rightarrow> adapter option" where
  "pmt_update p a = do {
     prog \<leftarrow> a_progs a p;
     current \<leftarrow> prog_current prog;
     a \<leftarrow> pmt_update_join (pmt_es current) (prog_last prog) p a;
     a \<leftarrow> (if pmt_pcrpid current \<noteq> PID_MAX then do {
             prog \<leftarrow> a_progs a p;
             gets \<leftarrow> pmt_prog_gets_pid prog (pmt_pcrpid current);
             if \<not> gets then pmt_prog_join_pid p (pmt_pcrpid current) PID_PCR a else Some a
           }
           else Some a);
     pmt_update_leave [0..<PID_MAX] current p a
   }"

text \<open>The callback for the sections of the program's PMT pid.\<close>

definition pmt_dvr_pmt_cb :: "psisec \<Rightarrow> progid \<Rightarrow> adapter \<Rightarrow> adapter option" where
  "pmt_dvr_pmt_cb section p a = do {
     prog \<leftarrow> a_progs a p;
     if \<not> psi_currentnext (sec_data section) then Some a
     else if psi_tableid (sec_data section) \<noteq> PMT_TABLE_ID then Some a
     else if pmt_pnr (sec_data section) \<noteq> prog_pnr prog then Some a
     else do {
       (psi, new) \<leftarrow> psi_update_table (prog_psi prog) section;
       a \<leftarrow> upd_prog p (\<lambda>prog. prog\<lparr>prog_psi := psi\<rparr>) a;
       if \<not> new then Some a
       else do {
         prog \<leftarrow> a_progs a p;
         pmt \<leftarrow> pmt_parse prog;
         a \<leftarrow> upd_prog p (\<lambda>prog. prog\<lparr>prog_last := prog_current prog, prog_current := pmt\<rparr>) a;
         pmt_update p a
       }
     }
   }"

section \<open>Programs\<close>

fun pmt_find_prog :: "progid list \<Rightarrow> (progid \<rightharpoonup> program) \<Rightarrow> nat \<Rightarrow> progid option option" where
  "pmt_find_prog [] progs pnr = Some None"
| "pmt_find_prog (p # pl) progs pnr = do {
     prog \<leftarrow> progs p;
     if prog_pnr prog = pnr then Some (Some p) else pmt_find_prog pl progs pnr
   }"

definition pmt_prog_from_pnr :: "adapter \<Rightarrow> nat \<Rightarrow> progid option option" where
  "pmt_prog_from_pnr a pnr = pmt_find_prog (a_pnrlist a) (a_progs a) pnr"

definition pmt_pidfrompat :: "nat \<Rightarrow> nat \<Rightarrow> adapter \<Rightarrow> adapter option" where
  "pmt_pidfrompat pnr pmtpid a = do {
     found \<leftarrow> pmt_prog_from_pnr a pnr;
     case found of
       None \<Rightarrow> Some a
     | Some p \<Rightarrow> do {
         prog \<leftarrow> a_progs a p;
         if prog_pmtpid prog = pmtpid then Some a
         else do {
           a \<leftarrow> (if prog_pmtpid prog \<noteq> 0 then do {
                   a \<leftarrow> dvr_del_pcb a (prog_pmtpid prog) (prog_pmtpidcb prog);
                   pmt_prog_leave_pid p (prog_pmtpid prog) a
                 }
                 else Some a);
           a \<leftarrow> (if pmtpid \<noteq> 0 then do {
                   (cbc, a) \<leftarrow> dvr_add_pcb a pmtpid DVRCB_SECTION PID_PMT (CB_pmt p);
                   a \<leftarrow> upd_prog p (\<lambda>prog. prog\<lparr>prog_pmtpidcb := Some cbc\<rparr>) a;
                   pmt_prog_join_pid p pmtpid PID_PMT a
                 }
                 else Some a);
           upd_prog p (\<lambda>prog. prog\<lparr>prog_pmtpid := pmtpid mod 2 ^ 16\<rparr>) a
         }
       }
   }"

definition pmt_prog_new :: "nat \<Rightarrow> adapter \<Rightarrow> progid \<times> adapter" where
  "pmt_prog_new pnr a =
     (let prog = \<lparr>prog_pnr = pnr, prog_pmtpid = 0, prog_pmtpidcb = None, prog_pids = \<lambda>_. [], prog_psi = psi_new,
                  prog_last = None, prog_current = None, prog_cbl = []\<rparr>
      in (a_nextprog a,
          a\<lparr>a_progs := (a_progs a)(a_nextprog a \<mapsto> prog), a_nextprog := a_nextprog a + 1,
            a_pnrlist := a_pnrlist a @ [a_nextprog a]\<rparr>))"

definition pmt_prog_add_cb :: "progid \<Rightarrow> nat \<Rightarrow> adapter \<Rightarrow> adapter option" where
  "pmt_prog_add_cb p cb a = upd_prog p (\<lambda>prog. prog\<lparr>prog_cbl := prog_cbl prog @ [cb]\<rparr>) a"

text \<open>\<^verbatim>\<open>pat_init\<close> of \<^verbatim>\<open>pat.c\<close>, which \<^verbatim>\<open>pmt_join_pnr\<close> calls.\<close>

definition pat_init :: "adapter \<Rightarrow> adapter option" where
  "pat_init a =
     (if a_patcbc a \<noteq> None then Some a
      else do {
        (cbc, a) \<leftarrow> dvr_add_pcb a 0 DVRCB_SECTION PID_PAT CB_pat;
        Some (a\<lparr>a_patcbc := Some cbc\<rparr>)
      })"

definition pmt_join_pnr :: "nat \<Rightarrow> nat \<Rightarrow> adapter \<Rightarrow> (progid \<times> adapter) option" where
  "pmt_join_pnr pnr cb a = do {
     found \<leftarrow> pmt_prog_from_pnr a pnr;
     let (p, a) = (case found of Some p \<Rightarrow> (p, a) | None \<Rightarrow> pmt_prog_new pnr a);
     a \<leftarrow> pmt_prog_add_cb p cb a;
     a \<leftarrow> pat_init a;
     Some (p, a)
   }"

fun pmt_leave_all :: "nat list \<Rightarrow> progid \<Rightarrow> adapter \<Rightarrow> adapter option" where
  "pmt_leave_all [] p a = Some a"
| "pmt_leave_all (i # is) p a = do {
     prog \<leftarrow> a_progs a p;
     gets \<leftarrow> pmt_prog_gets_pid prog i;
     a \<leftarrow> (if gets then pmt_prog_leave_pid p i a else Some a);
     pmt_leave_all is p a
   }"

definition pmt_prog_del_cb :: "progid \<Rightarrow> adapter \<Rightarrow> adapter option" where
  "pmt_prog_del_cb p a = do {
     prog \<leftarrow> a_progs a p;
     if prog_pmtpid prog \<noteq> 0 then do {
       a \<leftarrow> pmt_leave_all [0..<PID_MAX] p a;
       dvr_del_pcb a (prog_pmtpid prog) (prog_pmtpidcb prog)
     }
     else Some a
   }"

definition pmt_leave_pnr :: "nat \<Rightarrow> adapter \<Rightarrow> adapter option" where
  "pmt_leave_pnr pnr a = do {
     found \<leftarrow> pmt_prog_from_pnr a pnr;
     case found of
       None \<Rightarrow> Some a
     | Some p \<Rightarrow> do {
         a \<leftarrow> pmt_prog_del_cb p a;
         Some (a\<lparr>a_progs := (a_progs a)(p := None)\<rparr>)
       }
   }"

section \<open>The pids a program has joined\<close>

text \<open>The cookies a program remembers are callbacks of their pid, each once, and none is the
  pid's own reassembly.\<close>

definition owned :: "(nat \<Rightarrow> dvrpt) \<Rightarrow> (nat \<Rightarrow> cookie list) \<Rightarrow> bool" where
  "owned pt pids \<longleftrightarrow> (\<forall>pid \<ge> PID_MAX. pids pid = []) \<and>
     (\<forall>pid < PID_MAX. distinct (pids pid) \<and>
        (\<forall>c \<in> set (pids pid). c \<in> set (pt_callback (pt pid)) \<and> pt_seccb (pt pid) \<noteq> Some c))"

definition gets :: "(nat \<Rightarrow> cookie list) \<Rightarrow> nat set" where
  "gets pids = {pid. pids pid \<noteq> []}"

text \<open>The state a proof about one program keeps: the adapter is well formed, the program is there
  and differs from \<open>prog\<close> in the table only.\<close>

definition prog_state :: "adapter \<Rightarrow> progid \<Rightarrow> program \<Rightarrow> adapter \<Rightarrow> (nat \<Rightarrow> cookie list) \<Rightarrow> bool" where
  "prog_state a0 p prog a pids \<longleftrightarrow> dvr_wf a \<and> a_progs a = (a_progs a0)(p \<mapsto> prog\<lparr>prog_pids := pids\<rparr>) \<and> owned (a_pt a) pids"

lemma join_loop_state:
  assumes pid: "pid < PID_MAX"
  shows "prog_state a0 p prog a pids \<Longrightarrow>
    \<exists>a' cs. pmt_join_loop cbs p pid type a = Some a' \<and> length cs = length cbs \<and>
      prog_state a0 p prog a' (pids(pid := pids pid @ cs))"
proof (induction cbs arbitrary: a pids)
  case Nil
  then show ?case by (intro exI [of _ a] exI [of _ "[]"]) simp
next
  case (Cons cb cbs)
  have st: "dvr_wf a" "a_progs a = (a_progs a0)(p \<mapsto> prog\<lparr>prog_pids := pids\<rparr>)" "owned (a_pt a) pids"
    using Cons.prems by (simp_all add: prog_state_def)
  have pm: "pid \<le> PID_MAX" using pid by simp
  obtain c a1 where a1: "dvr_add_ts a pid type (CB_external cb) = Some (c, a1)" "dvr_wf a1" "a_pcbs a c = None"
    "a_pt a1 = (a_pt a)(pid := (a_pt a pid)\<lparr>pt_callback := pt_callback (a_pt a pid) @ [c]\<rparr>)"
    "a_pcbs a1 = (a_pcbs a)(c \<mapsto> \<lparr>pcb_callback = CB_external cb, pcb_pid = pid, pcb_type = DVRCB_TS, pcb_pidt = type\<rparr>)"
    "a_progs a1 = a_progs a"
    using dvr_add_ts_wf [OF st(1) pm] .
  define pids1 where "pids1 = pids(pid := pids pid @ [c])"
  define a2 where "a2 = a1\<lparr>a_progs := (a_progs a0)(p \<mapsto> prog\<lparr>prog_pids := pids1\<rparr>)\<rparr>"
  have l: "lists_ok (a_pcbs a) pid (a_pt a pid)" "users_ok (a_pcbs a) pid (a_pt a pid)"
    using st(1) pm by (simp_all add: dvr_wf_def entry_wf_def)
  have nc: "c \<notin> set (pt_callback (a_pt a pid))" using lists_ok_dom [OF l(1) a1(3)] by blast
  have r: "pt_seccb (a_pt a pid) \<noteq> Some c" using l(2) nc by (auto simp: users_ok_def reassembles_def)
  have "owned (a_pt a2) pids1"
    using st(3) nc r pid by (auto simp: owned_def pids1_def a2_def a1(4))
  moreover have "dvr_wf a2" using a1(2) by (simp add: a2_def dvr_wf_def)
  ultimately have "prog_state a0 p prog a2 pids1" by (simp add: prog_state_def a2_def)
  then obtain a' cs where a': "pmt_join_loop cbs p pid type a2 = Some a'" "length cs = length cbs"
    "prog_state a0 p prog a' (pids1(pid := pids1 pid @ cs))" using Cons.IH by blast
  have "upd_prog p (\<lambda>prog. prog\<lparr>prog_pids := (prog_pids prog)(pid := prog_pids prog pid @ [c])\<rparr>) a1 = Some a2"
    using st(2) by (simp add: upd_prog_def a1(6) a2_def pids1_def)
  then have "pmt_join_loop (cb # cbs) p pid type a = Some a'"
    using a1(1) a'(1) pid by (simp add: dvr_add_pcb_def)
  moreover have "pids1(pid := pids1 pid @ cs) = pids(pid := pids pid @ c # cs)" by (auto simp: fun_eq_iff pids1_def)
  ultimately show ?case using a'(2,3) by (metis length_Cons)
qed

lemma join_pid_state:
  assumes pid: "pid < PID_MAX" and st: "prog_state a0 p prog a pids" and cb: "prog_cbl prog \<noteq> []"
  obtains a' pids' where "pmt_prog_join_pid p pid type a = Some a'" "prog_state a0 p prog a' pids'"
    "gets pids' = insert pid (gets pids)"
proof -
  obtain a' cs where a': "pmt_join_loop (prog_cbl prog) p pid type a = Some a'" "length cs = length (prog_cbl prog)"
    "prog_state a0 p prog a' (pids(pid := pids pid @ cs))" using join_loop_state [OF pid st] by blast
  have "cs \<noteq> []" using a'(2) cb by auto
  then have "gets (pids(pid := pids pid @ cs)) = insert pid (gets pids)" by (auto simp: gets_def)
  moreover have "pmt_prog_join_pid p pid type a = Some a'"
    using a'(1) st by (simp add: pmt_prog_join_pid_def prog_state_def)
  ultimately show ?thesis using that a'(3) by blast
qed

lemma leave_loop_state:
  assumes pid: "pid < PID_MAX"
  shows "dvr_wf a \<Longrightarrow> owned (a_pt a) (pids(pid := cs)) \<Longrightarrow>
    \<exists>a'. pmt_leave_loop cs pid a = Some a' \<and> dvr_wf a' \<and> a_progs a' = a_progs a \<and> owned (a_pt a') (pids(pid := []))"
proof (induction cs arbitrary: a)
  case (Cons c cs)
  have pm: "pid \<le> PID_MAX" using pid by simp
  have c: "c \<in> set (pt_callback (a_pt a pid))" "pt_seccb (a_pt a pid) \<noteq> Some c" "c \<notin> set cs"
    using Cons.prems(2) pid by (auto simp: owned_def)
  obtain a1 where a1: "dvr_del_pcb a pid (Some c) = Some a1" "dvr_wf a1" "a_progs a1 = a_progs a"
    "a_pt a1 = (a_pt a)(pid := (a_pt a pid)\<lparr>pt_callback := remove1 c (pt_callback (a_pt a pid))\<rparr>)"
    unfolding dvr_del_pcb_def numeral_2_eq_2 using dvr_del_pcb_ts [OF Cons.prems(1) pm c(2,1)] by metis
  have d: "distinct (pt_callback (a_pt a pid))" by (rule dvr_wf_members(3) [OF Cons.prems(1) pm])
  have "owned (a_pt a1) (pids(pid := cs))"
    using Cons.prems(2) c(3) d pid by (auto simp: owned_def a1(4))
  from Cons.IH [OF a1(2) this] show ?case unfolding pmt_leave_loop.simps a1(1,3) bind.bind_lunit .
qed auto

lemma leave_pid_state:
  assumes pid: "pid < PID_MAX" and st: "prog_state a0 p prog a pids"
  obtains a' where "pmt_prog_leave_pid p pid a = Some a'" "prog_state a0 p prog a' (pids(pid := []))"
proof -
  have "owned (a_pt a) (pids(pid := pids pid))" "dvr_wf a" using st by (simp_all add: prog_state_def)
  then obtain a1 where a1: "pmt_leave_loop (pids pid) pid a = Some a1" "dvr_wf a1" "a_progs a1 = a_progs a"
    "owned (a_pt a1) (pids(pid := []))" using leave_loop_state [OF pid] by blast
  define a2 where "a2 = a1\<lparr>a_progs := (a_progs a0)(p \<mapsto> prog\<lparr>prog_pids := pids(pid := [])\<rparr>)\<rparr>"
  have "upd_prog p (\<lambda>prog. prog\<lparr>prog_pids := (prog_pids prog)(pid := [])\<rparr>) a1 = Some a2"
    using st by (simp add: upd_prog_def a1(3) a2_def prog_state_def)
  then have "pmt_prog_leave_pid p pid a = Some a2"
    using a1(1) st pid by (simp add: pmt_prog_leave_pid_def prog_state_def)
  moreover have "prog_state a0 p prog a2 (pids(pid := []))"
    using a1(2,4) unfolding prog_state_def by (simp add: a2_def dvr_wf_def)
  ultimately show ?thesis using that by blast
qed

lemma gets_leave [simp]: "gets (pids(pid := [])) = gets pids - {pid}"
  by (auto simp: gets_def)

definition es_pids :: "pmt \<Rightarrow> nat set" where
  "es_pids pmt = es_pid ` set (pmt_es pmt)"

lemma pmt_find_es_iff: "pmt_find_es pmt pid \<noteq> None \<longleftrightarrow> pid \<in> es_pids pmt"
  by (auto simp: pmt_find_es_def es_pids_def find_None_iff)

lemma prog_gets: "pid < PID_MAX \<Longrightarrow> pmt_prog_gets_pid (prog\<lparr>prog_pids := pids\<rparr>) pid = Some (pid \<in> gets pids)"
  by (simp add: pmt_prog_gets_pid_def gets_def)

lemma update_join_state:
  assumes cb: "prog_cbl prog \<noteq> []" and l: "case lst of None \<Rightarrow> True | Some l \<Rightarrow> es_pids l \<subseteq> gets pids0"
  shows "prog_state a0 p prog a pids \<Longrightarrow> gets pids0 \<subseteq> gets pids \<Longrightarrow> \<forall>e \<in> set es. es_pid e < PID_MAX \<Longrightarrow>
    \<exists>a' pids'. pmt_update_join es lst p a = Some a' \<and> prog_state a0 p prog a' pids' \<and>
      gets pids' = gets pids \<union> es_pid ` set es"
proof (induction es arbitrary: a pids)
  case Nil
  then show ?case by auto
next
  case (Cons e es)
  let ?pid = "es_pid e"
  have pr: "a_progs a p = Some (prog\<lparr>prog_pids := pids\<rparr>)" using Cons.prems(1) by (simp add: prog_state_def)
  have lt: "?pid < PID_MAX" using Cons.prems(3) by simp
  obtain a1 pids1 where a1: "pmt_update_join (e # es) lst p a = pmt_update_join es lst p a1" "prog_state a0 p prog a1 pids1"
    "gets pids1 = insert ?pid (gets pids)"
  proof (cases "(case lst of Some l \<Rightarrow> pmt_find_es l ?pid \<noteq> None | None \<Rightarrow> False)")
    case True
    then obtain l' where "lst = Some l'" "pmt_find_es l' ?pid \<noteq> None" by (cases lst) simp_all
    then have "lst = Some l'" "?pid \<in> es_pids l'" using pmt_find_es_iff by blast+
    then have "?pid \<in> gets pids" using l Cons.prems(2) by auto
    then show ?thesis using that [of a pids] True Cons.prems(1) by (simp add: insert_absorb)
  next
    case False
    show ?thesis
    proof (cases "?pid \<in> gets pids")
      case True
      then show ?thesis
        using that [of a pids] False Cons.prems(1) pr lt by (simp add: prog_gets insert_absorb)
    next
      case ng: False
      obtain a1 pids1 where "pmt_prog_join_pid p ?pid (pmt_mapstreamtype (es_streamtype e)) a = Some a1"
        "prog_state a0 p prog a1 pids1" "gets pids1 = insert ?pid (gets pids)"
        using join_pid_state [OF lt Cons.prems(1) cb] .
      then show ?thesis using that [of a1 pids1] False ng pr lt by (simp add: prog_gets)
    qed
  qed
  obtain a' pids' where "pmt_update_join es lst p a1 = Some a'" "prog_state a0 p prog a' pids'"
    "gets pids' = gets pids1 \<union> es_pid ` set es"
    using Cons.IH [OF a1(2)] a1(3) Cons.prems(2,3) by auto
  then show ?case using a1(1,3) by (intro exI [of _ a'] exI [of _ pids']) simp
qed

lemma update_leave_state:
  shows "prog_state a0 p prog a pids \<Longrightarrow> \<forall>i \<in> set is. i < PID_MAX \<Longrightarrow>
    \<exists>a' pids'. pmt_update_leave is current p a = Some a' \<and> prog_state a0 p prog a' pids' \<and>
      gets pids' = gets pids - {i \<in> set is. i \<noteq> pmt_pcrpid current \<and> i \<noteq> prog_pmtpid prog \<and> i \<notin> es_pids current}"
proof (induction "is" arbitrary: a pids)
  case Nil
  then show ?case by auto
next
  case (Cons i "is")
  have pr: "a_progs a p = Some (prog\<lparr>prog_pids := pids\<rparr>)" using Cons.prems(1) by (simp add: prog_state_def)
  have lt: "i < PID_MAX" using Cons.prems(2) by simp
  define drop where "drop = (i \<noteq> pmt_pcrpid current \<and> i \<noteq> prog_pmtpid prog \<and> i \<notin> es_pids current)"
  obtain a1 pids1 where a1: "pmt_update_leave (i # is) current p a = pmt_update_leave is current p a1" "prog_state a0 p prog a1 pids1"
    "gets pids1 = gets pids - (if drop then {i} else {})"
  proof (cases "i \<in> gets pids \<and> drop")
    case True
    obtain a1 where "pmt_prog_leave_pid p i a = Some a1" "prog_state a0 p prog a1 (pids(i := []))"
      using leave_pid_state [OF lt Cons.prems(1)] .
    then show ?thesis using that [of a1 "pids(i := [])"] True pr lt
      by (auto simp: prog_gets drop_def simp flip: pmt_find_es_iff)
  next
    case False
    then show ?thesis using that [of a pids] Cons.prems(1) pr lt
      by (auto simp: prog_gets drop_def simp flip: pmt_find_es_iff)
  qed
  obtain a' pids' where "pmt_update_leave is current p a1 = Some a'" "prog_state a0 p prog a' pids'"
    "gets pids' = gets pids1 - {i \<in> set is. i \<noteq> pmt_pcrpid current \<and> i \<noteq> prog_pmtpid prog \<and> i \<notin> es_pids current}"
    using Cons.IH [OF a1(2)] Cons.prems(2) by auto
  then show ?case using a1(1,3) by (intro exI [of _ a'] exI [of _ pids']) (auto simp: drop_def)
qed

section \<open>What the parser reads\<close>

text \<open>An elementary stream as it is laid out in a section: type, pid, length of its
  descriptors and the descriptors.\<close>

definition es_bytes :: "pmtes \<Rightarrow> u8 list \<Rightarrow> u8 list" where
  "es_bytes e info = [es_streamtype e, of_nat (drop_bit 8 (es_pid e)), of_nat (es_pid e AND 0xff),
     of_nat (drop_bit 8 (length info)), of_nat (length info AND 0xff)] @ info"

definition es_layout :: "(pmtes \<times> u8 list) list \<Rightarrow> u8 list" where
  "es_layout es = concat (map (\<lambda>(e, info). es_bytes e info) es)"

definition es_valid :: "pmtes \<times> u8 list \<Rightarrow> bool" where
  "es_valid x \<longleftrightarrow> es_pid (fst x) < 8192 \<and> length (snd x) < 4096"

lemma es_bytes_length [simp]: "length (es_bytes e info) = 5 + length info"
  by (simp add: es_bytes_def)

lemma es_read:
  assumes "es_valid (e, info)" "d = pre @ es_bytes e info @ post"
  shows "pmt_es_type d (length pre) = Some (es_streamtype e)" "pmt_es_pid d (length pre) = Some (es_pid e)"
    "pmt_es_infolen d (length pre) = Some (length info)"
proof -
  have v: "es_pid e < 8192" "length info < 4096" using assms(1) by (simp_all add: es_valid_def)
  have n: "d ! (length pre) = es_streamtype e" "d ! (length pre + 1) = of_nat (drop_bit 8 (es_pid e))"
    "d ! (length pre + 2) = of_nat (es_pid e AND 0xff)" "d ! (length pre + 3) = of_nat (drop_bit 8 (length info))"
    "d ! (length pre + 3 + 1) = of_nat (length info AND 0xff)" and l: "length pre + 5 \<le> length d"
    by (simp_all add: assms(2) es_bytes_def nth_append)
  show "pmt_es_type d (length pre) = Some (es_streamtype e)" using l n(1) by (simp add: pmt_es_type_def peek_def)
  have "be16 (d ! (length pre + 1)) (d ! (length pre + 2)) = es_pid e" unfolding n by (rule be16_bytes) (use v in simp)
  then show "pmt_es_pid d (length pre) = Some (es_pid e)"
    using l v by (simp add: pmt_es_pid_def peek_def ES_PID_OFF_def PID_MASK_def)
  have "be16 (d ! (length pre + 3)) (d ! (length pre + 3 + 1)) = length info" unfolding n by (rule be16_bytes) (use v in simp)
  then show "pmt_es_infolen d (length pre) = Some (length info)"
    using l v by (simp add: pmt_es_infolen_def peek_def ESINFO_LEN_OFF_def ESINFO_LEN_MASK_def)
qed

lemma es_loop_layout:
  "es \<noteq> [] \<Longrightarrow> \<forall>x \<in> set es. es_valid x \<Longrightarrow> d = pre @ es_layout es @ post \<Longrightarrow>
   psi_len d = length pre + length (es_layout es) + 4 \<Longrightarrow>
   pmt_es_loop d (length pre) pmt = Some (pmt\<lparr>pmt_es := pmt_es pmt @ map fst es\<rparr>)"
proof (induction es arbitrary: pre pmt)
  case (Cons x es)
  obtain e info where x: "x = (e, info)" by fastforce
  have d: "d = pre @ es_bytes e info @ (es_layout es @ post)" using Cons.prems(3) by (simp add: es_layout_def x)
  have v: "es_valid (e, info)" using Cons.prems(2) x by simp
  note r = es_read [OF v d]
  let ?n = "length pre + length info + 5"
  have len: "psi_len d = ?n + length (es_layout es) + 4" using Cons.prems(4) by (simp add: es_layout_def x)
  have nxt: "pmt_next_es d (length pre) = Some (if es = [] then 0 else ?n)"
  proof (cases es)
    case (Cons y ys)
    obtain e2 i2 where "y = (e2, i2)" by fastforce
    then have "0 < length (es_layout es)" using Cons by (simp add: es_layout_def)
    then show ?thesis using r(3) len Cons by (simp add: pmt_next_es_def ESINFO_MIN_LEN_def CRC32_LEN_def)
  qed (use r(3) len in \<open>simp add: pmt_next_es_def ESINFO_MIN_LEN_def CRC32_LEN_def es_layout_def\<close>)
  have step: "pmt_es_loop d (length pre) pmt =
      (if es = [] then Some (pmt_add_es pmt (es_streamtype e) (es_pid e))
       else pmt_es_loop d ?n (pmt_add_es pmt (es_streamtype e) (es_pid e)))"
    using r(1,2) nxt by (subst pmt_es_loop.simps) simp
  have add: "pmt_add_es pmt (es_streamtype e) (es_pid e) = pmt\<lparr>pmt_es := pmt_es pmt @ [e]\<rparr>" by (simp add: pmt_add_es_def)
  show ?case
  proof (cases "es = []")
    case True
    then show ?thesis using step add x by simp
  next
    case False
    have "d = (pre @ es_bytes e info) @ es_layout es @ post" using d by simp
    moreover have "psi_len d = length (pre @ es_bytes e info) + length (es_layout es) + 4" using len by simp
    ultimately have "pmt_es_loop d (length (pre @ es_bytes e info)) (pmt\<lparr>pmt_es := pmt_es pmt @ [e]\<rparr>) =
        Some (pmt\<lparr>pmt_es := (pmt_es pmt @ [e]) @ map fst es\<rparr>)"
      using Cons.IH [of "pre @ es_bytes e info" "pmt\<lparr>pmt_es := pmt_es pmt @ [e]\<rparr>"] False Cons.prems(2) by simp
    then show ?thesis using step False add x by (simp add: add.commute add.left_commute)
  qed
qed simp

section \<open>Properties\<close>

text \<open>Parsing a PMT of one section: every stream of the section is found, in order, with
  its type and pid, whatever descriptors the program and the streams have; but of a section
  without streams the parser makes a stream out of the CRC.\<close>

theorem pmt_parse_layout:
  assumes "prog_psi prog = psi_new[0 := Some s]" "psi_last_section_number (sec_data s) = 0"
    and "sec_data s = hdr @ es_layout es @ crc @ rest" "length hdr = pmt_first_es (sec_data s)" "length crc = 4" "rest \<noteq> []"
    and "psi_len (sec_data s) = length hdr + length (es_layout es) + 4" "\<forall>x \<in> set es. es_valid x"
    and "pcr = pmt_pcr (sec_data s)"
  shows "pmt_parse prog = Some (Some \<lparr>pmt_pcrpid = (if pcr = PID_MAX then 0 else pcr),
    pmt_es = (if es = [] then [\<lparr>es_streamtype = crc ! 0, es_pid = be16 (crc ! 1) (crc ! 2) AND PID_MASK\<rparr>]
              else map fst es)\<rparr>)"
proof -
  let ?d = "sec_data s" and ?p = "\<lparr>pmt_pcrpid = (if pcr = PID_MAX then 0 else pcr), pmt_es = []\<rparr>"
  have first: "peek (prog_psi prog) 0 = Some (Some s)" using assms(1) by (simp add: peek_def psi_new_def PSI_SECTION_MAX_def)
  have "pmt_es_loop ?d (length hdr) ?p = Some (?p\<lparr>pmt_es :=
      (if es = [] then [\<lparr>es_streamtype = crc ! 0, es_pid = be16 (crc ! 1) (crc ! 2) AND PID_MASK\<rparr>] else map fst es)\<rparr>)"
  proof (cases "es = []")
    case True
    then have d: "?d = hdr @ crc @ rest" using assms(3) by (simp add: es_layout_def)
    have n: "?d ! (length hdr + i) = crc ! i" if "i < 4" for i using that assms(5) by (simp add: d nth_append)
    have l: "length hdr + 4 < length ?d" using assms(5,6) by (simp add: d)
    have r: "pmt_es_type ?d (length hdr) = Some (crc ! 0)"
      "pmt_es_pid ?d (length hdr) = Some (be16 (crc ! 1) (crc ! 2) AND PID_MASK)"
      using l n [of 0] n [of 1] n [of 2] by (simp_all add: pmt_es_type_def pmt_es_pid_def ES_PID_OFF_def peek_def)
    obtain k where k: "pmt_es_infolen ?d (length hdr) = Some k"
      using l by (simp add: pmt_es_infolen_def ESINFO_LEN_OFF_def peek_def)
    have "pmt_next_es ?d (length hdr) = Some 0"
      using k assms(7) True by (simp add: pmt_next_es_def ESINFO_MIN_LEN_def CRC32_LEN_def es_layout_def)
    then show ?thesis using True r by (subst pmt_es_loop.simps) (simp add: pmt_add_es_def)
  next
    case False
    then show ?thesis using es_loop_layout [of es ?d hdr "crc @ rest" ?p] assms(3,7,8) by simp
  qed
  then show ?thesis
    using first assms(2,4) unfolding assms(9)
    by (cases "pmt_pcr ?d = PID_MAX") (simp_all add: pmt_parse_def pmt_parse_loop.simps [of _ 0 0] pmt_parse_loop.simps [of _ 0 "Suc 0"] pmt_new_def)
qed

definition example_pmt :: psisec where
  "example_pmt = psi_section_new\<lparr>sec_data := [2, 0x80, 23, 0, 1, 1, 0, 0, 0xe1, 0x00, 0xf0, 0x00] @
     es_layout [(\<lparr>es_streamtype = 2, es_pid = 0x100\<rparr>, []), (\<lparr>es_streamtype = 4, es_pid = 0x101\<rparr>, [])] @
     [0xde, 0xad, 0xbe, 0xef] @ replicate 4070 0\<rparr>"

theorem pmt_parse_layout_witness:
  "pmt_parse \<lparr>prog_pnr = 1, prog_pmtpid = 0, prog_pmtpidcb = None, prog_pids = \<lambda>_. [], prog_psi = psi_new[0 := Some example_pmt],
     prog_last = None, prog_current = None, prog_cbl = []\<rparr> =
   Some (Some \<lparr>pmt_pcrpid = 0x100, pmt_es = [\<lparr>es_streamtype = 2, es_pid = 0x100\<rparr>, \<lparr>es_streamtype = 4, es_pid = 0x101\<rparr>]\<rparr>)"
proof -
  define hdr :: "u8 list" where "hdr = [2, 0x80, 23, 0, 1, 1, 0, 0, 0xe1, 0x00, 0xf0, 0x00]"
  define es :: "(pmtes \<times> u8 list) list" where
    "es = [(\<lparr>es_streamtype = 2, es_pid = 0x100\<rparr>, []), (\<lparr>es_streamtype = 4, es_pid = 0x101\<rparr>, [])]"
  have d: "sec_data example_pmt = hdr @ es_layout es @ [0xde, 0xad, 0xbe, 0xef] @ replicate 4070 0"
    by (simp add: example_pmt_def hdr_def es_def)
  have lh: "length hdr = 12" by (simp add: hdr_def)
  have l: "length (es_layout es) = 10" by (simp add: es_layout_def es_def)
  have n: "sec_data example_pmt ! i = hdr ! i" if "i < 12" for i
    using that lh unfolding d by (simp add: nth_append)
  have "psi_last_section_number (sec_data example_pmt) = 0" "pmt_first_es (sec_data example_pmt) = 12"
    "pmt_pcr (sec_data example_pmt) = 0x100" "psi_len (sec_data example_pmt) = 26"
    using n by (simp_all add: psi_last_section_number_def pmt_first_es_def pmt_pinfo_len_def pmt_pcr_def psi_len_def hdr_def
        be16_eq PMT_PI_OFF_def PMT_PILEN_MASK_def PID_MASK_def)
  then show ?thesis
    using pmt_parse_layout [of _ example_pmt hdr es "[0xde, 0xad, 0xbe, 0xef]" "replicate 4070 0"] d l
    by (simp add: hdr_def es_def es_valid_def PID_MAX_def)
qed

text \<open>C14: A change of a program's PMT: afterwards the program receives exactly the pids of the
  new PMT's streams, the PCR's pid, and its PMT pid if it did before, each with one callback per
  receiver that it owns; the pid table stays consistent and no other program changes.  So
  the condition on the previous PMT holds again at the next change.\<close>

theorem pmt_update_pids:
  assumes "dvr_wf a" "a_progs a p = Some prog" "owned (a_pt a) (prog_pids prog)" "prog_cbl prog \<noteq> []"
    and "prog_current prog = Some cur" "\<forall>e \<in> set (pmt_es cur). es_pid e < PID_MAX" "pmt_pcrpid cur \<le> PID_MAX"
    and "case prog_last prog of None \<Rightarrow> True | Some l \<Rightarrow> es_pids l \<subseteq> gets (prog_pids prog)"
  shows "\<exists>a' pids'. pmt_update p a = Some a' \<and> dvr_wf a' \<and>
    a_progs a' = (a_progs a)(p \<mapsto> prog\<lparr>prog_pids := pids'\<rparr>) \<and> owned (a_pt a') pids' \<and>
    gets pids' = es_pids cur \<union> (if pmt_pcrpid cur = PID_MAX then {} else {pmt_pcrpid cur}) \<union>
      ({prog_pmtpid prog} \<inter> gets (prog_pids prog)) \<and>
    es_pids cur \<subseteq> gets pids'"
proof -
  let ?pcr = "if pmt_pcrpid cur = PID_MAX then {} else {pmt_pcrpid cur}"
  have "a_progs a = (a_progs a)(p \<mapsto> prog\<lparr>prog_pids := prog_pids prog\<rparr>)" using assms(2) by auto
  then have st: "prog_state a p prog a (prog_pids prog)" using assms(1,3) by (simp add: prog_state_def)
  obtain a1 pids1 where a1: "pmt_update_join (pmt_es cur) (prog_last prog) p a = Some a1" "prog_state a p prog a1 pids1"
    "gets pids1 = gets (prog_pids prog) \<union> es_pids cur"
    using update_join_state [OF assms(4,8) st order_refl assms(6)] unfolding es_pids_def by blast
  have pr: "a_progs a1 p = Some (prog\<lparr>prog_pids := pids1\<rparr>)" using a1(2) by (simp add: prog_state_def)
  obtain a2 pids2 where a2: "(if pmt_pcrpid cur \<noteq> PID_MAX then do {
             prog \<leftarrow> a_progs a1 p;
             gets \<leftarrow> pmt_prog_gets_pid prog (pmt_pcrpid cur);
             if \<not> gets then pmt_prog_join_pid p (pmt_pcrpid cur) PID_PCR a1 else Some a1
           }
           else Some a1) = Some a2" "prog_state a p prog a2 pids2" "gets pids2 = gets pids1 \<union> ?pcr"
  proof (cases "pmt_pcrpid cur = PID_MAX \<or> pmt_pcrpid cur \<in> gets pids1")
    case True
    then show ?thesis using that [of a1 pids1] a1(2) assms(7) pr by (auto simp: prog_gets insert_absorb)
  next
    case False
    then have lt: "pmt_pcrpid cur < PID_MAX" using assms(7) by simp
    obtain a2 pids2 where "pmt_prog_join_pid p (pmt_pcrpid cur) PID_PCR a1 = Some a2" "prog_state a p prog a2 pids2"
      "gets pids2 = insert (pmt_pcrpid cur) (gets pids1)" using join_pid_state [OF lt a1(2) assms(4)] .
    then show ?thesis using that [of a2 pids2] False lt pr by (simp add: prog_gets)
  qed
  obtain a3 pids3 where a3: "pmt_update_leave [0..<PID_MAX] cur p a2 = Some a3" "prog_state a p prog a3 pids3"
    "gets pids3 = gets pids2 - {i \<in> set [0..<PID_MAX]. i \<noteq> pmt_pcrpid cur \<and> i \<noteq> prog_pmtpid prog \<and> i \<notin> es_pids cur}"
    using update_leave_state [OF a2(2), of "[0..<PID_MAX]" cur] by auto
  have "gets pids3 \<subseteq> {..<PID_MAX}" using a3(2) by (auto simp: prog_state_def owned_def gets_def) (meson not_le)
  then have g: "gets pids3 = es_pids cur \<union> ?pcr \<union> ({prog_pmtpid prog} \<inter> gets (prog_pids prog))"
    using a3(3) a2(3) a1(3) by auto
  have "pmt_update p a = Some a3"
    using assms(2,5) a1(1) a2(1) a3(1) by (simp add: pmt_update_def)
  then show ?thesis
    using a3(2) g by - (rule exI [of _ a3], rule exI [of _ pids3], auto simp: prog_state_def)
qed

definition example_prog :: program where
  "example_prog = \<lparr>prog_pnr = 1, prog_pmtpid = 0x20, prog_pmtpidcb = None, prog_pids = \<lambda>_. [], prog_psi = psi_new,
     prog_last = None, prog_current = Some \<lparr>pmt_pcrpid = 0x102, pmt_es = [\<lparr>es_streamtype = 2, es_pid = 0x100\<rparr>]\<rparr>,
     prog_cbl = [5]\<rparr>"

theorem pmt_update_pids_witness:
  "\<exists>a' pids'. pmt_update 0 (example_adapter\<lparr>a_progs := [0 \<mapsto> example_prog]\<rparr>) = Some a' \<and> dvr_wf a' \<and>
     gets pids' = {0x100, 0x102}"
proof -
  have "dvr_wf (example_adapter\<lparr>a_progs := [0 \<mapsto> example_prog]\<rparr>)" using example_adapter_wf by (simp add: dvr_wf_def)
  moreover have "prog_current example_prog = Some \<lparr>pmt_pcrpid = 0x102, pmt_es = [\<lparr>es_streamtype = 2, es_pid = 0x100\<rparr>]\<rparr>"
    "prog_cbl example_prog = [5]" "prog_last example_prog = None" "prog_pids example_prog = (\<lambda>_. [])"
    by (simp_all add: example_prog_def)
  moreover have "gets (\<lambda>_. []) = {}" "owned pt (\<lambda>_. [])" for pt by (simp_all add: gets_def owned_def)
  ultimately show ?thesis
    using pmt_update_pids [of "example_adapter\<lparr>a_progs := [0 \<mapsto> example_prog]\<rparr>" 0 example_prog]
    by (auto simp: PID_MAX_def es_pids_def insert_commute)
qed

lemma free_pcb_pnrlist [simp]: "a_pnrlist (free_pcb c a) = a_pnrlist a"
  by (simp add: free_pcb_def)

lemma dvr_del_pnrlist: "dvr_del_rec n a pid c = Some a' \<Longrightarrow> a_pnrlist a' = a_pnrlist a"
proof (induction n arbitrary: a c a')
  case (Suc n)
  have ts: "dvr_del_ts a pid pcb = Some b \<Longrightarrow> a_pnrlist b = a_pnrlist a" for a pcb b
    by (auto simp: dvr_del_ts_def Let_def split: if_splits bind_splits)
  show ?case
  proof (cases c)
    case (Some pcb)
    then show ?thesis
      using Suc.prems by (auto simp: Let_def dest!: Suc.IH ts split: if_splits bind_splits cbtype.splits)
  qed (use Suc.prems in simp)
qed simp

lemma pmt_leave_loop_pnrlist: "pmt_leave_loop cs pid a = Some a' \<Longrightarrow> a_pnrlist a' = a_pnrlist a"
  by (induction cs arbitrary: a) (auto simp: dvr_del_pcb_def dest!: dvr_del_pnrlist split: bind_splits)

lemma upd_prog_pnrlist: "upd_prog p f a = Some a' \<Longrightarrow> a_pnrlist a' = a_pnrlist a"
  by (auto simp: upd_prog_def split: bind_splits)

lemma pmt_leave_pid_pnrlist: "pmt_prog_leave_pid p pid a = Some a' \<Longrightarrow> a_pnrlist a' = a_pnrlist a"
  by (auto simp: pmt_prog_leave_pid_def dest!: pmt_leave_loop_pnrlist upd_prog_pnrlist split: bind_splits if_splits)

lemma pmt_leave_all_pnrlist: "pmt_leave_all is p a = Some a' \<Longrightarrow> a_pnrlist a' = a_pnrlist a"
  by (induction "is" arbitrary: a) (auto dest!: pmt_leave_pid_pnrlist split: bind_splits if_splits)

text \<open>Leaving a program leaves a dangling pointer: the program is freed but stays in the
  adapter's list, and the next search that reaches it, of any number, by a join, a leave or a PAT,
  uses the freed program.\<close>

theorem pmt_leave_pnr_dangling:
  assumes "a_pnrlist a = p # ps" "a_progs a p = Some prog" "pmt_leave_pnr (prog_pnr prog) a = Some a'"
  shows "a_progs a' p = None \<and> p \<in> set (a_pnrlist a') \<and>
    pmt_join_pnr q cb a' = None \<and> pmt_leave_pnr q a' = None \<and> pmt_pidfrompat q pid a' = None"
proof -
  have f: "pmt_prog_from_pnr a (prog_pnr prog) = Some (Some p)" using assms(1,2) by (simp add: pmt_prog_from_pnr_def)
  then obtain a1 where a1: "pmt_prog_del_cb p a = Some a1" "a' = a1\<lparr>a_progs := (a_progs a1)(p := None)\<rparr>"
    using assms(3) by (auto simp: pmt_leave_pnr_def split: bind_splits)
  have "a_pnrlist a1 = a_pnrlist a"
    using a1(1) assms(2)
    by (auto simp: pmt_prog_del_cb_def dvr_del_pcb_def dest!: dvr_del_pnrlist pmt_leave_all_pnrlist split: bind_splits if_splits)
  then have "a_pnrlist a' = p # ps" "a_progs a' p = None" using a1(2) assms(1) by simp_all
  moreover from this have "pmt_prog_from_pnr a' q = None" for q by (simp add: pmt_prog_from_pnr_def)
  ultimately show ?thesis by (simp add: pmt_join_pnr_def pmt_leave_pnr_def pmt_pidfrompat_def)
qed

theorem pmt_leave_pnr_dangling_witness:
  "\<exists>a'. pmt_leave_pnr 1 (snd (pmt_prog_new 1 example_adapter)) = Some a' \<and> pmt_join_pnr 2 5 a' = None"
proof -
  let ?a = "snd (pmt_prog_new 1 example_adapter)"
  obtain prog where p: "a_pnrlist ?a = [0]" "a_progs ?a 0 = Some prog" "prog_pnr prog = 1" "prog_pmtpid prog = 0"
    by (simp add: pmt_prog_new_def example_adapter_def)
  then have "pmt_leave_pnr (prog_pnr prog) ?a = Some (?a\<lparr>a_progs := (a_progs ?a)(0 := None)\<rparr>)"
    by (simp add: pmt_leave_pnr_def pmt_prog_from_pnr_def pmt_prog_del_cb_def)
  from pmt_leave_pnr_dangling [OF p(1,2) this, of 2 5 0] this show ?thesis unfolding p(3) by blast
qed

end
