(* ===== verification/Dispatch.thy ===== *)
theory Dispatch
  imports Pmt
begin

text \<open>
  The flow of packets through an adapter: \<^verbatim>\<open>dvr_read\<close>, \<^verbatim>\<open>dvr_input_ts\<close>, the reassembly of
  sections in \<^verbatim>\<open>dvr.c\<close>, and the callback for the sections of the PAT in \<^verbatim>\<open>pat.c\<close>.

  A callback may change the list of callbacks that is being walked.  The walk is that of the
  \<^verbatim>\<open>GList\<close>: after a call the next node is the one that follows the current node in the list as
  it is then, so nodes that are appended meanwhile are visited; if the current node has been
  removed, its link is read after being freed, \<open>None\<close>.  The walk and the loop over the
  sections of a packet are partial functions; \<open>None\<close> also stands for not ending.
\<close>

section \<open>A changed PAT\<close>

fun pat_update_new :: "patprog list \<Rightarrow> pat option \<Rightarrow> adapter \<Rightarrow> adapter option" where
  "pat_update_new [] lst a = Some a"
| "pat_update_new (pcur # pl) lst a = do {
     a \<leftarrow> (case lst of
             None \<Rightarrow> pmt_pidfrompat (pp_pnr pcur) (pp_pid pcur) a
           | Some l \<Rightarrow>
               (case pat_findpnr l (pp_pnr pcur) of
                  Some plast \<Rightarrow> if pp_pid plast \<noteq> pp_pid pcur then pmt_pidfrompat (pp_pnr pcur) (pp_pid pcur) a
                                else Some a
                | None \<Rightarrow> Some a));
     pat_update_new pl lst a
   }"

fun pat_update_gone :: "patprog list \<Rightarrow> pat \<Rightarrow> adapter \<Rightarrow> adapter option" where
  "pat_update_gone [] current a = Some a"
| "pat_update_gone (plast # pl) current a = do {
     a \<leftarrow> (if pat_findpnr current (pp_pnr plast) = None then pmt_pidfrompat (pp_pnr plast) 0 a else Some a);
     pat_update_gone pl current a
   }"

definition pat_update :: "adapter \<Rightarrow> adapter option" where
  "pat_update a = do {
     current \<leftarrow> a_patcurrent a;
     let lst = a_patlast a;
     a \<leftarrow> pat_update_new (pat_program current) lst a;
     case lst of None \<Rightarrow> Some a | Some l \<Rightarrow> pat_update_gone (pat_program l) current a
   }"

definition pat_section_cb :: "psisec \<Rightarrow> adapter \<Rightarrow> adapter option" where
  "pat_section_cb section a =
     (if \<not> psi_currentnext (sec_data section) then Some a
      else if psi_tableid (sec_data section) \<noteq> PAT_TABLE_ID then Some a
      else do {
        let newprog = a_klknewprog a;
        let a = (if newprog then a\<lparr>a_patcurrent := None, a_patlast := None\<rparr> else a);
        (psi, changed) \<leftarrow> psi_update_table (a_patpsi a) section;
        let a = a\<lparr>a_patpsi := psi, a_klknewprog := False\<rparr>;
        if \<not> newprog \<and> \<not> changed then Some a
        else do {
          let a = a\<lparr>a_patlast := a_patcurrent a\<rparr>;
          pat \<leftarrow> pat_parse (a_patpsi a);
          pat_update (a\<lparr>a_patcurrent := pat\<rparr>)
        }
      })"

section \<open>Calling the callbacks\<close>

text \<open>The node after a node of a list: \<open>None\<close> if the node is not in the list.\<close>

fun g_next :: "cookie list \<Rightarrow> cookie \<Rightarrow> cookie option option" where
  "g_next [] c = None"
| "g_next (x # xs) c = (if x = c then Some (case xs of [] \<Rightarrow> None | y # _ \<Rightarrow> Some y) else g_next xs c)"

definition g_first :: "cookie list \<Rightarrow> cookie option" where
  "g_first xs = (case xs of [] \<Rightarrow> None | x # _ \<Rightarrow> Some x)"

partial_function (option) walk ::
  "(adapter \<Rightarrow> cookie list) \<Rightarrow> (callback \<Rightarrow> adapter \<Rightarrow> adapter option) \<Rightarrow> cookie option \<Rightarrow> adapter \<Rightarrow> adapter option"
where
  "walk l call c a =
     (case c of
        None \<Rightarrow> Some a
      | Some c \<Rightarrow>
          Option.bind (a_pcbs a c) (\<lambda>pcb.
          Option.bind (call (pcb_callback pcb) a) (\<lambda>a.
          Option.bind (g_next (l a) c) (\<lambda>next. walk l call next a))))"

text \<open>A callback for sections gets the section of its pid's entry.\<close>

definition call_section :: "nat \<Rightarrow> callback \<Rightarrow> adapter \<Rightarrow> adapter option" where
  "call_section pid cb a =
     (let section = pt_section (a_pt a pid)
      in case cb of
        CB_external n \<Rightarrow> Some (a\<lparr>a_out := a_out a @ [(n, sec_data section)]\<rparr>)
      | CB_pat \<Rightarrow> pat_section_cb section a
      | CB_pmt p \<Rightarrow> pmt_dvr_pmt_cb section p a
      | CB_reassemble _ \<Rightarrow> None)"

partial_function (option) dvr_reassemble_loop :: "nat \<Rightarrow> u8 list \<Rightarrow> nat \<Rightarrow> adapter \<Rightarrow> adapter option" where
  "dvr_reassemble_loop pid ts off a =
     (if off < TS_PACKET_SIZE then
        Option.bind (psi_reassemble (pt_section (a_pt a pid)) ts off) (\<lambda>(section, off).
          (let a = upd_pt pid (\<lambda>e. e\<lparr>pt_section := section\<rparr>) a
           in if off < 0 then Some a
              else
                Option.bind (walk (\<lambda>a. pt_sectioncallback (a_pt a pid)) (call_section pid)
                  (g_first (pt_sectioncallback (a_pt a pid))) a)
                (\<lambda>a. dvr_reassemble_loop pid ts (nat off) a)))
      else Some a)"

definition dvr_section_reassemble :: "u8 list \<Rightarrow> nat \<Rightarrow> adapter \<Rightarrow> adapter option" where
  "dvr_section_reassemble ts pid a = dvr_reassemble_loop pid ts 0 a"

text \<open>A callback for packets.  The section callbacks are not registered for packets.\<close>

definition call_ts :: "u8 list \<Rightarrow> callback \<Rightarrow> adapter \<Rightarrow> adapter option" where
  "call_ts ts cb a =
     (case cb of
        CB_external n \<Rightarrow> Some (a\<lparr>a_out := a_out a @ [(n, take TS_PACKET_SIZE ts)]\<rparr>)
      | CB_reassemble pid \<Rightarrow> dvr_section_reassemble ts pid a
      | CB_pat \<Rightarrow> None
      | CB_pmt _ \<Rightarrow> None)"

definition dvr_input_ts :: "adapter \<Rightarrow> u8 list \<Rightarrow> adapter option" where
  "dvr_input_ts a ts =
     (if ts ! 0 \<noteq> 0x47 then Some a
      else do {
        a \<leftarrow> walk a_fullcb (call_ts ts) (g_first (a_fullcb a)) a;
        let pid = ts_pid ts;
        let a = upd_pt pid (\<lambda>e. e\<lparr>pt_packets := (pt_packets e + 1) mod 2 ^ 64\<rparr>) a;
        walk (\<lambda>a. pt_callback (a_pt a pid)) (call_ts ts) (g_first (pt_callback (a_pt a pid))) a
      })"

section \<open>Reading the device\<close>

text \<open>The results of the calls of \<^verbatim>\<open>read\<close>: the data it delivers, or the empty list for the end of
  the stream or an error; when the list of results is used up there is nothing to read
  (\<^verbatim>\<open>EAGAIN\<close>).\<close>

fun dvr_packets :: "nat \<Rightarrow> nat \<Rightarrow> u8 list \<Rightarrow> adapter \<Rightarrow> adapter option" where
  "dvr_packets 0 i db a = Some a"
| "dvr_packets (Suc n) i db a = do {
     a \<leftarrow> dvr_input_ts a (drop i db);
     dvr_packets n (i + TS_PACKET_SIZE) db a
   }"

fun dvr_read :: "u8 list list \<Rightarrow> adapter \<Rightarrow> adapter option" where
  "dvr_read [] a = Some (a\<lparr>a_reads := (a_reads a + 1) mod 2 ^ 32\<rparr>)"
| "dvr_read (data # rest) a = do {
     buf \<leftarrow> a_buf a;
     db \<leftarrow> memwrite buf 0 data;
     let len = length data;
     let a = a\<lparr>a_buf := Some db, a_reads := (a_reads a + 1) mod 2 ^ 32, a_klkcount := (a_klkcount a + len) mod 2 ^ 32\<rparr>;
     if len = 0 then Some a
     else do {
       a \<leftarrow> dvr_packets ((len + TS_PACKET_SIZE - 1) div TS_PACKET_SIZE) 0 db a;
       if len = a_bufsize a * TS_PACKET_SIZE then dvr_read rest a else Some a
     }
   }"

section \<open>Timers\<close>

text \<open>The numbers \<^verbatim>\<open>dvr_stat_timer\<close> logs: the pids seen and their packets.  The loops end before
  \<open>PID_MAX\<close>.\<close>

definition dvr_stat :: "adapter \<Rightarrow> nat \<times> nat" where
  "dvr_stat a =
     fold (\<lambda>i (pids, total). if pt_packets (a_pt a i) \<noteq> 0 then (pids + 1, total + pt_packets (a_pt a i)) else (pids, total))
       [0..<PID_MAX] (0, 0)"

definition dvr_init_stat_timer :: "adapter \<Rightarrow> adapter" where
  "dvr_init_stat_timer a =
     (if a_statinterval a = 0 then a else a\<lparr>a_stattimer := Some (a_statinterval a)\<rparr>)"

definition dvr_stat_timer :: "adapter \<Rightarrow> adapter" where
  "dvr_stat_timer a =
     (let a = a\<lparr>a_stattimer := None\<rparr>;
          a = a\<lparr>a_pt := \<lambda>i. if i < PID_MAX then (a_pt a i)\<lparr>pt_packets := 0\<rparr> else a_pt a i\<rparr>
      in dvr_init_stat_timer a)"

definition dvr_stuck_init :: "adapter \<Rightarrow> adapter" where
  "dvr_stuck_init a =
     (if a_stuckinterval a = 0 then a
      else a\<lparr>a_stucktimer := Some (cdiv (a_stuckinterval a) 1000, cmod (a_stuckinterval a) 1000 * 1000)\<rparr>)"

definition dvr_stuck_timer :: "adapter \<Rightarrow> adapter" where
  "dvr_stuck_timer a =
     (let a = a\<lparr>a_stucktimer := None\<rparr>;
          a = (if a_reads a = 0
               then a\<lparr>a_fe := fe_retune (a_fe a), a_dmx := dmx_bounce_filter (a_dmx a)\<rparr>
               else a);
          a = a\<lparr>a_reads := 0\<rparr>
      in dvr_stuck_init a)"

text \<open>\<open>dvrfd\<close> is the result of opening the device, \<open>junk\<close> what \<^verbatim>\<open>malloc\<close> finds in memory.
  The result of \<^verbatim>\<open>dvr_deinit\<close> is the descriptor that is closed.\<close>

definition dvr_init :: "int \<Rightarrow> (nat \<Rightarrow> u8) \<Rightarrow> adapter \<Rightarrow> (adapter \<times> bool) option" where
  "dvr_init dvrfd junk a =
     (let a = a\<lparr>a_buf := Some (map junk [0..<a_bufsize a * TS_PACKET_SIZE])\<rparr>
      in if dvrfd < 0 then Some (a, False)
      else do {
        let a = a\<lparr>a_dvrevent := True\<rparr>;
        a \<leftarrow> (if dmx_budgetmode (a_dmx a) then do {
                (d, ok) \<leftarrow> dmx_join_pid 0x2000 DMX_PES_OTHER (a_dmx a);
                Some (a\<lparr>a_dmx := (if ok then d else d\<lparr>dmx_budgetmode := False\<rparr>)\<rparr>)
              }
              else Some a);
        let a = a\<lparr>a_dvrfd := dvrfd\<rparr>;
        Some (dvr_stuck_init (dvr_init_stat_timer a), True)
      })"

definition dvr_deinit :: "adapter \<Rightarrow> adapter \<times> int" where
  "dvr_deinit a =
     (a\<lparr>a_dvrevent := False, a_stattimer := None, a_stucktimer := None, a_buf := None\<rparr>, a_dvrfd a)"

section \<open>Walking a list that the calls do not change\<close>

lemma g_next_distinct: "distinct (ys @ x # xs) \<Longrightarrow> g_next (ys @ x # xs) x = Some (g_first xs)"
  by (induction ys) (auto simp: g_first_def)

lemma walk_None [simp]: "walk l call None a = Some a"
  by (subst walk.simps) simp

text \<open>\<open>J i\<close> holds when the first \<open>i\<close> nodes have been called.\<close>

lemma walk_all:
  assumes d: "distinct zs" and l: "\<And>i a. J i a \<Longrightarrow> l a = zs"
    and step: "\<And>i a. i < length zs \<Longrightarrow> J i a \<Longrightarrow>
      \<exists>p a'. a_pcbs a (zs ! i) = Some p \<and> call (pcb_callback p) a = Some a' \<and> J (Suc i) a'"
    and J: "J 0 a"
  shows "\<exists>a'. walk l call (g_first zs) a = Some a' \<and> J (length zs) a'"
proof -
  have "ys @ xs = zs \<Longrightarrow> J (length ys) b \<Longrightarrow> \<exists>a'. walk l call (g_first xs) b = Some a' \<and> J (length zs) a'" for ys xs b
  proof (induction xs arbitrary: ys b)
    case Nil
    then show ?case by (auto simp: g_first_def)
  next
    case (Cons x xs)
    have "zs = ys @ x # xs" using Cons.prems(1) by simp
    then have i: "length ys < length zs" "zs ! length ys = x" by simp_all
    obtain p a' where a': "a_pcbs b x = Some p" "call (pcb_callback p) b = Some a'" "J (Suc (length ys)) a'"
      using step [OF i(1) Cons.prems(2)] i(2) by blast
    have "g_next (l a') x = Some (g_first xs)"
      using g_next_distinct [of ys x xs] d Cons.prems(1) l [OF a'(3)] by simp
    then have w: "walk l call (g_first (x # xs)) b = walk l call (g_first xs) a'"
      using a'(1,2) by (subst walk.simps) (simp add: g_first_def)
    show ?case unfolding w using Cons.IH [of "ys @ [x]" a'] Cons.prems(1) a'(3) by simp
  qed
  then show ?thesis using J by force
qed

definition ext :: "(cookie \<rightharpoonup> pidcallback) \<Rightarrow> cookie \<Rightarrow> nat \<Rightarrow> bool" where
  "ext m c n \<longleftrightarrow> (\<exists>p. m c = Some p \<and> pcb_callback p = CB_external n)"

definition put :: "u8 list \<Rightarrow> nat list \<Rightarrow> adapter \<Rightarrow> adapter" where
  "put d ns a = a\<lparr>a_out := a_out a @ map (\<lambda>n. (n, d)) ns\<rparr>"

lemma put_sel [simp]:
  "a_pcbs (put d ns a) = a_pcbs a" "a_pt (put d ns a) = a_pt a" "a_fullcb (put d ns a) = a_fullcb a"
  "a_out (put d ns a) = a_out a @ map (\<lambda>n. (n, d)) ns"
  by (simp_all add: put_def)

lemma put_put: "put d [n] (put d ns a) = put d (ns @ [n]) a" "put d [] a = a"
  "put d ms (put d ns a) = put d (ns @ ms) a"
  by (simp_all add: put_def)

text \<open>A list of callbacks into the streams: each gets the data, once and in order.\<close>

lemma walk_ext:
  assumes d: "distinct zs" and e: "list_all2 (ext (a_pcbs a)) zs ns"
    and call: "\<And>n b. call (CB_external n) b = Some (put (d b) [n] b)"
    and inv: "l a = zs" "\<And>ms. l (put (d a) ms a) = l a" "\<And>ms. d (put (d a) ms a) = d a"
  shows "walk l call (g_first zs) a = Some (put (d a) ns a)"
proof -
  have ln: "length zs = length ns" using e by (rule list_all2_lengthD)
  have "\<exists>a'. walk l call (g_first zs) a = Some a' \<and> a' = put (d a) (take (length zs) ns) a"
  proof (rule walk_all [OF d, where J = "\<lambda>i b. b = put (d a) (take i ns) a"])
    show "l b = zs" if "b = put (d a) (take i ns) a" for i b using that inv by simp
    show "\<exists>p a'. a_pcbs b (zs ! i) = Some p \<and> call (pcb_callback p) b = Some a' \<and> a' = put (d a) (take (Suc i) ns) a"
      if i: "i < length zs" and b: "b = put (d a) (take i ns) a" for i b
    proof -
      have "ext (a_pcbs a) (zs ! i) (ns ! i)" using e i by (rule list_all2_nthD)
      then obtain p where p: "a_pcbs a (zs ! i) = Some p" "pcb_callback p = CB_external (ns ! i)" by (auto simp: ext_def)
      then show ?thesis
        using b inv(3) i ln by (simp add: call put_put take_Suc_conv_app_nth)
    qed
  qed (simp add: put_put)
  then show ?thesis using ln by simp
qed

lemma call_ts_ext: "call_ts ts (CB_external n) b = Some (put (take TS_PACKET_SIZE ts) [n] b)"
  by (simp add: call_ts_def put_def)

lemma call_section_ext: "call_section pid (CB_external n) b = Some (put (sec_data (pt_section (a_pt b pid))) [n] b)"
  by (simp add: call_section_def put_def)

lemma upd_pt_put [simp]: "upd_pt pid f (put d ns a) = put d ns (upd_pt pid f a)"
  by (simp add: upd_pt_def put_def)

lemma upd_pt_out [simp]: "a_out (upd_pt pid f a) = a_out a"
  by (simp add: upd_pt_def)

lemma dvr_input_routed:
  assumes "distinct (a_fullcb a)" "list_all2 (ext (a_pcbs a)) (a_fullcb a) ns"
    and "distinct (pt_callback (a_pt a (ts_pid ts)))" "list_all2 (ext (a_pcbs a)) (pt_callback (a_pt a (ts_pid ts))) ms"
  shows "dvr_input_ts a ts =
    Some (if ts ! 0 = 0x47
          then upd_pt (ts_pid ts) (\<lambda>e. e\<lparr>pt_packets := (pt_packets e + 1) mod 2 ^ 64\<rparr>)
                 (put (take TS_PACKET_SIZE ts) (ns @ ms) a)
          else a)"
proof (cases "ts ! 0 = 0x47")
  case True
  let ?p = "take TS_PACKET_SIZE ts" and ?f = "\<lambda>e. e\<lparr>pt_packets := (pt_packets e + 1) mod 2 ^ 64\<rparr> :: dvrpt"
  have w1: "walk a_fullcb (call_ts ts) (g_first (a_fullcb a)) a = Some (put ?p ns a)"
    by (rule walk_ext [OF assms(1,2), where d = "\<lambda>_. ?p"]) (simp_all add: call_ts_ext)
  let ?b = "put ?p ns (upd_pt (ts_pid ts) ?f a)"
  have zs: "pt_callback (a_pt ?b (ts_pid ts)) = pt_callback (a_pt a (ts_pid ts))" by simp
  have w2: "walk (\<lambda>a. pt_callback (a_pt a (ts_pid ts))) (call_ts ts) (g_first (pt_callback (a_pt a (ts_pid ts)))) ?b =
      Some (put ?p ms ?b)"
    by (rule walk_ext [OF assms(3), where d = "\<lambda>_. ?p"]) (use assms(4) in \<open>simp_all add: call_ts_ext\<close>)
  show ?thesis using True w1 w2 zs by (simp add: dvr_input_ts_def Let_def put_put)
qed (simp add: dvr_input_ts_def)

text \<open>A packet for streams: every callback for the full stream and then every callback
  registered for its pid gets the packet exactly once, in the order of registration, and the
  pid's counter is increased; a packet without the sync byte has no effect.\<close>

theorem dvr_input_delivers:
  assumes "distinct (a_fullcb a)" "list_all2 (ext (a_pcbs a)) (a_fullcb a) ns"
    and "distinct (pt_callback (a_pt a (ts_pid ts)))" "list_all2 (ext (a_pcbs a)) (pt_callback (a_pt a (ts_pid ts))) ms"
  shows "dvr_input_ts a ts =
    Some (if ts ! 0 = 0x47
          then upd_pt (ts_pid ts) (\<lambda>e. e\<lparr>pt_packets := (pt_packets e + 1) mod 2 ^ 64\<rparr>)
                 (put (take TS_PACKET_SIZE ts) (ns @ ms) a)
          else a)"
  using dvr_input_routed [OF assms] .

definition example_tables :: adapter where
  "example_tables = example_adapter\<lparr>
     a_pcbs := [0 \<mapsto> \<lparr>pcb_callback = CB_external 7, pcb_pid = 17, pcb_type = DVRCB_SECTION, pcb_pidt = PID_OTHER\<rparr>,
                1 \<mapsto> \<lparr>pcb_callback = CB_reassemble 17, pcb_pid = 17, pcb_type = DVRCB_TS, pcb_pidt = PID_REASSEMBLE\<rparr>,
                2 \<mapsto> \<lparr>pcb_callback = CB_external 3, pcb_pid = 18, pcb_type = DVRCB_TS, pcb_pidt = PID_VIDEO\<rparr>,
                3 \<mapsto> \<lparr>pcb_callback = CB_external 4, pcb_pid = 18, pcb_type = DVRCB_TS, pcb_pidt = PID_STATIC\<rparr>],
     a_nextpcb := 4,
     a_pt := (a_pt example_adapter)
       (17 := (a_pt example_adapter 17)\<lparr>pt_sectioncallback := [0], pt_callback := [1], pt_secuser := 1, pt_seccb := Some 1\<rparr>,
        18 := (a_pt example_adapter 18)\<lparr>pt_callback := [2, 3]\<rparr>)\<rparr>"

lemma example_tables_sel:
  "a_fullcb example_tables = []" "a_out example_tables = []"
  "pt_callback (a_pt example_tables 17) = [1]" "pt_sectioncallback (a_pt example_tables 17) = [0]"
  "pt_section (a_pt example_tables 17) = psi_section_new" "pt_callback (a_pt example_tables 18) = [2, 3]"
  "a_pcbs example_tables = [0 \<mapsto> \<lparr>pcb_callback = CB_external 7, pcb_pid = 17, pcb_type = DVRCB_SECTION, pcb_pidt = PID_OTHER\<rparr>,
                1 \<mapsto> \<lparr>pcb_callback = CB_reassemble 17, pcb_pid = 17, pcb_type = DVRCB_TS, pcb_pidt = PID_REASSEMBLE\<rparr>,
                2 \<mapsto> \<lparr>pcb_callback = CB_external 3, pcb_pid = 18, pcb_type = DVRCB_TS, pcb_pidt = PID_VIDEO\<rparr>,
                3 \<mapsto> \<lparr>pcb_callback = CB_external 4, pcb_pid = 18, pcb_type = DVRCB_TS, pcb_pidt = PID_STATIC\<rparr>]"
  by (simp_all add: example_tables_def example_adapter_def)

theorem dvr_input_delivers_witness:
  "\<exists>a. dvr_input_ts example_tables (psi_ts_packet 18 0 1 []) = Some a \<and>
     a_out a = [(3, take 188 (psi_ts_packet 18 0 1 [])), (4, take 188 (psi_ts_packet 18 0 1 []))]"
proof -
  have "ts_pid (psi_ts_packet 18 0 1 []) = 18" by (rule packet_fields(3)) (simp add: PID_MAX_def)
  then show ?thesis
    using dvr_input_delivers [of example_tables "[]" "psi_ts_packet 18 0 1 []" "[3, 4]"]
    by (simp add: example_tables_sel packet_sync ext_def TS_PACKET_SIZE_def)
qed

section \<open>Sections\<close>

text \<open>What a stream with the identifiers \<open>ids\<close> has got.\<close>

definition got :: "nat set \<Rightarrow> adapter \<Rightarrow> (nat \<times> u8 list) list" where
  "got ids a = filter (\<lambda>(n, d). n \<in> ids) (a_out a)"

lemma got_put: "got ids (put d ns a) = got ids a @ map (\<lambda>n. (n, d)) (filter (\<lambda>n. n \<in> ids) ns)"
  by (induction ns rule: rev_induct) (auto simp: got_def put_def)

lemma got_upd [simp]: "got ids (upd_pt pid f a) = got ids a"
  by (simp add: got_def)

text \<open>The registrations of a pid whose sections go to the identifiers \<open>ns\<close>: one callback
  collects the sections, every other one is a stream that is not among \<open>ids\<close>.\<close>

definition sections_to :: "nat \<Rightarrow> nat set \<Rightarrow> nat list \<Rightarrow> adapter \<Rightarrow> bool" where
  "sections_to pid ids ns a \<longleftrightarrow>
     distinct (a_fullcb a) \<and> (\<exists>ms. list_all2 (ext (a_pcbs a)) (a_fullcb a) ms \<and> set ms \<inter> ids = {}) \<and>
     distinct (pt_sectioncallback (a_pt a pid)) \<and> list_all2 (ext (a_pcbs a)) (pt_sectioncallback (a_pt a pid)) ns \<and>
     set ns \<subseteq> ids \<and> distinct (pt_callback (a_pt a pid)) \<and>
     (\<exists>r \<in> set (pt_callback (a_pt a pid)). (\<exists>p. a_pcbs a r = Some p \<and> pcb_callback p = CB_reassemble pid) \<and>
       (\<forall>c \<in> set (pt_callback (a_pt a pid)). c \<noteq> r \<longrightarrow> (\<exists>n. ext (a_pcbs a) c n \<and> n \<notin> ids)))"

definition same_lists :: "nat \<Rightarrow> adapter \<Rightarrow> adapter \<Rightarrow> bool" where
  "same_lists pid a b \<longleftrightarrow> a_fullcb b = a_fullcb a \<and> a_pcbs b = a_pcbs a \<and>
     pt_callback (a_pt b pid) = pt_callback (a_pt a pid) \<and>
     pt_sectioncallback (a_pt b pid) = pt_sectioncallback (a_pt a pid)"

lemma sections_to_cong: "same_lists pid a b \<Longrightarrow> sections_to pid ids ns b = sections_to pid ids ns a"
  by (simp add: same_lists_def sections_to_def)

lemma same_lists_trans: "same_lists pid a b \<Longrightarrow> same_lists pid b c \<Longrightarrow> same_lists pid a c"
  by (simp add: same_lists_def)

lemma same_lists_put [simp]: "same_lists pid a (put d ns b) = same_lists pid a b"
  by (simp add: same_lists_def)

text \<open>One call of the reassembly, on a packet that completes at most one section.\<close>

lemma reassemble_call:
  assumes s: "sections_to pid ids ns a" and re: "psi_reassemble (pt_section (a_pt a pid)) ts 0 = Some (t', r)"
    and r: "r < 0 \<or> r = 188 \<or> 0 < r \<and> r < 188 \<and> ts ! nat r = 0xff" and l: "length ts = 188"
  obtains a' where "call_ts ts (CB_reassemble pid) a = Some a'" "same_lists pid a a'"
    "pt_section (a_pt a' pid) = t'"
    "got ids a' = got ids a @ (if r < 0 then [] else map (\<lambda>n. (n, sec_data t')) ns)"
proof -
  let ?b = "upd_pt pid (\<lambda>e. e\<lparr>pt_section := t'\<rparr>) a"
  have sl: "same_lists pid a ?b" by (simp add: same_lists_def)
  have bt: "pt_section (a_pt ?b pid) = t'" by simp
  show ?thesis
  proof (cases "r < 0")
    case True
    then have "call_ts ts (CB_reassemble pid) a = Some ?b"
      using re by (simp add: call_ts_def dvr_section_reassemble_def dvr_reassemble_loop.simps [of pid ts 0] TS_PACKET_SIZE_def Let_def)
    then show ?thesis using that [of ?b] sl bt True by simp
  next
    case False
    let ?c = "put (sec_data t') ns ?b"
    have d: "distinct (pt_sectioncallback (a_pt ?b pid))" "list_all2 (ext (a_pcbs ?b)) (pt_sectioncallback (a_pt ?b pid)) ns"
      "set ns \<subseteq> ids"
      using s by (simp_all add: sections_to_def)
    have "walk (\<lambda>a. pt_sectioncallback (a_pt a pid)) (call_section pid) (g_first (pt_sectioncallback (a_pt ?b pid))) ?b =
        Some (put (sec_data (pt_section (a_pt ?b pid))) ns ?b)"
      by (rule walk_ext [OF d(1,2), where d = "\<lambda>b. sec_data (pt_section (a_pt b pid))"]) (simp_all add: call_section_ext)
    then have w: "walk (\<lambda>a. pt_sectioncallback (a_pt a pid)) (call_section pid) (g_first (pt_sectioncallback (a_pt a pid))) ?b = Some ?c"
      by simp
    have fin: "dvr_reassemble_loop pid ts (nat r) ?c = Some ?c"
    proof (cases "r = 188")
      case True
      then show ?thesis by (simp add: dvr_reassemble_loop.simps [of pid ts 188] TS_PACKET_SIZE_def)
    next
      case False
      then have r2: "0 < r" "r < 188" "ts ! nat r = 0xff" using r \<open>\<not> r < 0\<close> by auto
      then have pl: "psi_payload ts (nat r) = Some (Inl PSI_RC_NOPAYLOAD)" using l by (simp add: psi_payload_def peek_def)
      have re2: "psi_reassemble t' ts (nat r) = Some (t', PSI_RC_NOPAYLOAD)" by (simp add: psi_reassemble_def pl)
      have "upd_pt pid (\<lambda>e. e\<lparr>pt_section := t'\<rparr>) ?c = ?c" by (simp add: upd_pt_def put_def)
      then show ?thesis
        using r2 re2 by (subst dvr_reassemble_loop.simps) (simp add: TS_PACKET_SIZE_def PSI_RC_NOPAYLOAD_def Let_def)
    qed
    have "call_ts ts (CB_reassemble pid) a = Some ?c"
      using re False w fin
      by (simp add: call_ts_def dvr_section_reassemble_def dvr_reassemble_loop.simps [of pid ts 0] TS_PACKET_SIZE_def Let_def)
    moreover have "filter (\<lambda>n. n \<in> ids) ns = ns" using d(3) by (auto simp: filter_id_conv)
    ultimately show ?thesis using that [of ?c] sl bt False by (simp add: got_put)
  qed
qed

definition collected :: "nat \<Rightarrow> nat set \<Rightarrow> nat list \<Rightarrow> (nat \<times> u8 list) list \<Rightarrow> psisec \<Rightarrow> psisec list \<Rightarrow> adapter \<Rightarrow> bool" where
  "collected pid ids ns old t ds a \<longleftrightarrow> sections_to pid ids ns a \<and> pt_section (a_pt a pid) = t \<and>
     got ids a = old @ concat (map (\<lambda>s. map (\<lambda>n. (n, sec_data s)) ns) ds)"

lemma dvr_input_collects:
  assumes R: "collected pid ids ns old t ds a" and ts: "length ts = 188" "ts ! 0 = 0x47" "ts_pid ts = pid"
    and re: "psi_reassemble t ts 0 = Some (t', r)"
    and r: "r < 0 \<or> r = 188 \<or> 0 < r \<and> r < 188 \<and> ts ! nat r = 0xff"
  shows "\<exists>a'. dvr_input_ts a ts = Some a' \<and> collected pid ids ns old t' (ds @ (if r < 0 then [] else [t'])) a'"
proof -
  have s: "sections_to pid ids ns a" and t: "pt_section (a_pt a pid) = t" using R by (simp_all add: collected_def)
  obtain ms where ms: "list_all2 (ext (a_pcbs a)) (a_fullcb a) ms" "set ms \<inter> ids = {}" and df: "distinct (a_fullcb a)"
    using s by (auto simp: sections_to_def)
  let ?p = "take TS_PACKET_SIZE ts" and ?f = "\<lambda>e. e\<lparr>pt_packets := (pt_packets e + 1) mod 2 ^ 64\<rparr> :: dvrpt"
  have w1: "walk a_fullcb (call_ts ts) (g_first (a_fullcb a)) a = Some (put ?p ms a)"
    by (rule walk_ext [OF df ms(1), where d = "\<lambda>_. ?p"]) (simp_all add: call_ts_ext)
  let ?b = "put ?p ms (upd_pt pid ?f a)" and ?zs = "pt_callback (a_pt a pid)"
  have "filter (\<lambda>n. n \<in> ids) ms = []" using ms(2) by (auto simp: filter_empty_conv)
  then have gb: "got ids ?b = got ids a" by (simp add: got_put)
  have slb: "same_lists pid a ?b" by (simp add: same_lists_def)
  obtain c0 where c0: "c0 \<in> set ?zs" "\<exists>p. a_pcbs a c0 = Some p \<and> pcb_callback p = CB_reassemble pid"
    "\<forall>c \<in> set ?zs. c \<noteq> c0 \<longrightarrow> (\<exists>n. ext (a_pcbs a) c n \<and> n \<notin> ids)" and dz: "distinct ?zs"
    using s by (auto simp: sections_to_def)
  define J where "J = (\<lambda>i b. same_lists pid a b \<and>
    pt_section (a_pt b pid) = (if c0 \<in> set (take i ?zs) then t' else t) \<and>
    got ids b = got ids a @ (if c0 \<in> set (take i ?zs) \<and> 0 \<le> r then map (\<lambda>n. (n, sec_data t')) ns else []))"
  have "\<exists>a'. walk (\<lambda>a. pt_callback (a_pt a pid)) (call_ts ts) (g_first ?zs) ?b = Some a' \<and> J (length ?zs) a'"
  proof (rule walk_all [OF dz])
    show "pt_callback (a_pt b pid) = ?zs" if "J i b" for i b using that by (simp add: J_def same_lists_def)
    show "J 0 ?b" using slb gb t by (simp add: J_def)
    show "\<exists>p a'. a_pcbs b (?zs ! i) = Some p \<and> call_ts ts (pcb_callback p) b = Some a' \<and> J (Suc i) a'"
      if i: "i < length ?zs" and b: "J i b" for i b
    proof -
      have sl: "same_lists pid a b" and pc: "a_pcbs b = a_pcbs a" using b by (auto simp: J_def same_lists_def)
      have tk: "take (Suc i) ?zs = take i ?zs @ [?zs ! i]" using i by (rule take_Suc_conv_app_nth)
      have ni: "?zs ! i \<notin> set (take i ?zs)" using dz i by (metis distinct_take tk distinct.simps(2) not_distinct_conv_prefix)
      show ?thesis
      proof (cases "?zs ! i = c0")
        case True
        then have tb: "pt_section (a_pt b pid) = t" and gb: "got ids b = got ids a" using b ni by (simp_all add: J_def)
        have sb: "sections_to pid ids ns b" using s sections_to_cong [OF sl] by simp
        obtain a' where "call_ts ts (CB_reassemble pid) b = Some a'" "same_lists pid b a'" "pt_section (a_pt a' pid) = t'"
          "got ids a' = got ids b @ (if r < 0 then [] else map (\<lambda>n. (n, sec_data t')) ns)"
          using reassemble_call [OF sb _ r ts(1)] re tb by metis
        then show ?thesis
          using True tk c0(2) pc gb same_lists_trans [OF sl] by (auto simp: J_def)
      next
        case False
        then obtain n where n: "ext (a_pcbs a) (?zs ! i) n" "n \<notin> ids" using c0(3) i nth_mem by blast
        then show ?thesis
          using b False tk pc sl by (auto simp: J_def ext_def call_ts_ext got_put)
      qed
    qed
  qed
  then obtain a' where a': "walk (\<lambda>a. pt_callback (a_pt a pid)) (call_ts ts) (g_first ?zs) ?b = Some a'" "J (length ?zs) a'"
    by blast
  have "dvr_input_ts a ts = Some a'"
    using ts w1 a'(1) by (simp add: dvr_input_ts_def Let_def)
  moreover have "collected pid ids ns old t' (ds @ (if r < 0 then [] else [t'])) a'"
    using a'(2) R c0(1) sections_to_cong [of pid a a' ids ns] by (auto simp: J_def collected_def)
  ultimately show ?thesis by blast
qed

text \<open>So an adapter is a receiver of sections.\<close>

interpretation dvr_recv: psi_receiver "\<lambda>ts a. dvr_input_ts a ts" "\<lambda>t rs ds a. collected pid ids ns old t ds a" pid
  for pid ids ns old
  by unfold_locales (rule dvr_input_collects)



subsection \<open>The loop over the sections of a packet ends\<close>

lemma psi_second_call:
  assumes s: "psi_wf s" "sec_cc s = ts_cc ts" and ts: "\<not> ts_pusi ts" "261 \<le> length ts" and off: "0 < off" "off < 188"
  obtains s' r where "psi_reassemble s ts off = Some (s', r)" "psi_wf s'" "r < 0"
proof -
  have "off < TS_PACKET_SIZE" using off by (simp add: TS_PACKET_SIZE_def)
  then obtain pl where pl: "psi_payload ts off = Some pl" using psi_payload_total ts(2) by blast
  show ?thesis
  proof (cases pl)
    case (Inl rc)
    then show ?thesis using that [of s rc] psi_payload_error pl s by (simp add: psi_reassemble_def)
  next
    case (Inr p)
    show ?thesis
    proof (cases "sec_valid s = 0")
      case True
      then show ?thesis using that [of s PSI_RC_NOPAYLOAD] pl Inr ts s by (simp add: psi_reassemble_def PSI_RC_NOPAYLOAD_def)
    next
      case False
      have "ts_cc ts < 16" by (rule ts_cc_bound)
      then have "(sec_cc s + 1) mod 16 \<noteq> ts_cc ts" using s(2) by (cases "ts_cc ts = 15") auto
      then have "psi_reassemble s ts off = Some (psi_section_clear s, PSI_RC_INCOMPLETE)"
        using False pl Inr ts
        by (simp add: psi_reassemble_def psi_reassemble_continue_def psi_finish_def psi_section_clear_def PSI_HDR_LEN_def)
      then show ?thesis using that psi_clear_wf [OF s(1)] by (simp add: PSI_RC_INCOMPLETE_def)
    qed
  qed
qed

definition lengths_fit :: "u8 list \<Rightarrow> bool" where
  "lengths_fit ts \<longleftrightarrow> (\<forall>p < TS_PACKET_SIZE. TS_PACKET_SIZE - p > PSI_HDR_LEN \<longrightarrow> psi_len (drop p ts) \<le> PSI_MAX_SIZE)"

text \<open>What one round of the loop does to the adapter.\<close>

definition round_ok :: "nat \<Rightarrow> nat set \<Rightarrow> nat list \<Rightarrow> adapter \<Rightarrow> psisec list \<Rightarrow> adapter \<Rightarrow> bool" where
  "round_ok pid ids ns a ds b \<longleftrightarrow> same_lists pid a b \<and> psi_wf (pt_section (a_pt b pid)) \<and>
     got ids b = got ids a @ concat (map (\<lambda>s. map (\<lambda>n. (n, sec_data s)) ns) ds) \<and>
     (\<forall>s \<in> set ds. psi_crc_valid s = Some True \<and> sec_len s = psi_len (sec_data s) \<and> sec_valid s = sec_len s)"

lemma round_ok_append:
  "round_ok pid ids ns a ds b \<Longrightarrow> round_ok pid ids ns b es c \<Longrightarrow> round_ok pid ids ns a (ds @ es) c"
  by (auto simp: round_ok_def intro: same_lists_trans)

lemma reassemble_round:
  assumes s: "sections_to pid ids ns a" and re: "psi_reassemble (pt_section (a_pt a pid)) ts off = Some (t', r)"
    and off: "off < TS_PACKET_SIZE" and wf: "psi_wf t'"
    and fin: "0 \<le> r \<longrightarrow> psi_crc_valid t' = Some True \<and> sec_len t' = psi_len (sec_data t') \<and> sec_valid t' = sec_len t'"
  obtains b ds where "round_ok pid ids ns a ds b" "pt_section (a_pt b pid) = t'" "sections_to pid ids ns b"
    "dvr_reassemble_loop pid ts off a = (if r < 0 then Some b else dvr_reassemble_loop pid ts (nat r) b)"
proof -
  let ?b = "upd_pt pid (\<lambda>e. e\<lparr>pt_section := t'\<rparr>) a"
  have sl: "same_lists pid a ?b" by (simp add: same_lists_def)
  note sb = sections_to_cong [OF sl, of ids ns]
  show ?thesis
  proof (cases "r < 0")
    case True
    show ?thesis
      by (rule that [of "[]" ?b]) (use True re off s sb wf sl in \<open>simp_all add: round_ok_def dvr_reassemble_loop.simps [of pid ts off] Let_def\<close>)
  next
    case False
    let ?c = "put (sec_data t') ns ?b"
    have d: "distinct (pt_sectioncallback (a_pt ?b pid))" "list_all2 (ext (a_pcbs ?b)) (pt_sectioncallback (a_pt ?b pid)) ns"
      "filter (\<lambda>n. n \<in> ids) ns = ns"
      using s by (auto simp: sections_to_def filter_id_conv)
    have "walk (\<lambda>a. pt_sectioncallback (a_pt a pid)) (call_section pid) (g_first (pt_sectioncallback (a_pt ?b pid))) ?b =
        Some (put (sec_data (pt_section (a_pt ?b pid))) ns ?b)"
      by (rule walk_ext [OF d(1,2), where d = "\<lambda>b. sec_data (pt_section (a_pt b pid))"]) (simp_all add: call_section_ext)
    then have w: "walk (\<lambda>a. pt_sectioncallback (a_pt a pid)) (call_section pid) (g_first (pt_sectioncallback (a_pt a pid))) ?b = Some ?c"
      by simp
    have "sections_to pid ids ns ?c" using s sections_to_cong [of pid a ?c ids ns] sl by simp
    then show ?thesis
      using that [of "[t']" ?c] False re off w wf sl fin d(3)
      by (simp add: round_ok_def dvr_reassemble_loop.simps [of pid ts off] Let_def got_put)
  qed
qed

lemma reassemble_loop_start:
  assumes ts: "ts_pusi ts" "261 \<le> length ts" "lengths_fit ts"
  shows "sections_to pid ids ns a \<Longrightarrow> psi_wf (pt_section (a_pt a pid)) \<Longrightarrow>
    \<exists>b ds. dvr_reassemble_loop pid ts off a = Some b \<and> round_ok pid ids ns a ds b"
proof (induction "TS_PACKET_SIZE - off" arbitrary: off a rule: less_induct)
  case less
  let ?s = "pt_section (a_pt a pid)"
  show ?case
  proof (cases "off < TS_PACKET_SIZE")
    case False
    then show ?thesis
      using less.prems by (intro exI [of _ a] exI [of _ "[]"]) (simp add: dvr_reassemble_loop.simps [of pid ts off] round_ok_def same_lists_def)
  next
    case True
    obtain pl where pl: "psi_payload ts off = Some pl" using psi_payload_total ts(2) True by blast
    have "\<exists>t' r. psi_reassemble ?s ts off = Some (t', r) \<and> psi_wf t' \<and> (0 \<le> r \<longrightarrow> off < nat r \<and>
        psi_crc_valid t' = Some True \<and> sec_len t' = psi_len (sec_data t') \<and> sec_valid t' = sec_len t')"
    proof (cases pl)
      case (Inl rc)
      then show ?thesis using psi_payload_error pl less.prems(2) by (fastforce simp: psi_reassemble_def)
    next
      case (Inr p)
      note p = psi_payload_bounds [OF pl [unfolded Inr] True]
      have fits: "psi_fits ?s ts p" using ts p by (auto simp: psi_fits_def lengths_fit_def)
      have tl: "TS_PACKET_SIZE \<le> length ts" using ts by (simp add: TS_PACKET_SIZE_def)
      obtain s1 n where s1: "psi_reassemble_start ?s ts p = Some (s1, int n)" "psi_wf s1" "p < n"
        using psi_start_wf [OF less.prems(2) conjunct1 [OF p] tl fits ts(1)] .
      obtain r where "psi_finish s1 (int n) = Some (s1, r)"
        "r < 0 \<or> r = int n \<and> sec_len s1 = sec_valid s1 \<and> PSI_HDR_LEN \<le> sec_valid s1 \<and> psi_crc_valid s1 = Some True"
        using s1(2) by (rule psi_finish_wf)
      then show ?thesis
        using s1 p Inr pl ts(1) by (intro exI [of _ s1] exI [of _ r]) (auto simp: psi_reassemble_def psi_wf_def PSI_HDR_LEN_def split: if_splits)
    qed
    then obtain t' r where re: "psi_reassemble ?s ts off = Some (t', r)" "psi_wf t'" "0 \<le> r \<longrightarrow> off < nat r"
      "0 \<le> r \<longrightarrow> psi_crc_valid t' = Some True \<and> sec_len t' = psi_len (sec_data t') \<and> sec_valid t' = sec_len t'" by blast
    obtain b ds where b: "round_ok pid ids ns a ds b" "pt_section (a_pt b pid) = t'" "sections_to pid ids ns b"
      "dvr_reassemble_loop pid ts off a = (if r < 0 then Some b else dvr_reassemble_loop pid ts (nat r) b)"
      using reassemble_round [OF less.prems(1) re(1) True re(2,4)] .
    show ?thesis
    proof (cases "r < 0")
      case True
      then show ?thesis using b(1,4) by auto
    next
      case False
      then have "TS_PACKET_SIZE - nat r < TS_PACKET_SIZE - off" using re(3) True by linarith
      then obtain c es where "dvr_reassemble_loop pid ts (nat r) b = Some c" "round_ok pid ids ns b es c"
        using less.hyps [of "nat r" b] b(2,3) re(2) by blast
      then show ?thesis using b(4) False round_ok_append [OF b(1)] by auto
    qed
  qed
qed

lemma reassemble_loop_continue:
  assumes ts: "\<not> ts_pusi ts" "261 \<le> length ts"
    and a: "sections_to pid ids ns a" "psi_wf (pt_section (a_pt a pid))"
    and fits: "\<And>p. psi_payload ts 0 = Some (Inr p) \<Longrightarrow> psi_fits (pt_section (a_pt a pid)) ts p"
  shows "\<exists>b ds. dvr_reassemble_loop pid ts 0 a = Some b \<and> round_ok pid ids ns a ds b"
proof -
  let ?s = "pt_section (a_pt a pid)"
  have o: "0 < TS_PACKET_SIZE" by (simp add: TS_PACKET_SIZE_def)
  obtain pl where pl: "psi_payload ts 0 = Some pl" using psi_payload_total ts(2) o by blast
  have "\<exists>t' r. psi_reassemble ?s ts 0 = Some (t', r) \<and> psi_wf t' \<and> (0 \<le> r \<longrightarrow> 0 < nat r \<and> r \<le> 188 \<and> sec_cc t' = ts_cc ts \<and>
      psi_crc_valid t' = Some True \<and> sec_len t' = psi_len (sec_data t') \<and> sec_valid t' = sec_len t')"
  proof (cases pl)
    case (Inl rc)
    then show ?thesis using psi_payload_error pl a(2) by (fastforce simp: psi_reassemble_def)
  next
    case (Inr p)
    note p = psi_payload_bounds [OF pl [unfolded Inr] o]
    have tl: "TS_PACKET_SIZE \<le> length ts" using ts by (simp add: TS_PACKET_SIZE_def)
    show ?thesis
    proof (cases "sec_valid ?s = 0")
      case True
      then show ?thesis using pl Inr ts a(2) by (simp add: psi_reassemble_def PSI_RC_NOPAYLOAD_def)
    next
      case False
      then have v: "0 < sec_valid ?s" by simp
      obtain s1 n where s1: "psi_reassemble_continue ?s ts p = Some (s1, n)" "psi_wf s1"
        "n < 0 \<and> sec_valid s1 = 0 \<or> int p \<le> n \<and> n \<le> int TS_PACKET_SIZE \<and> sec_cc s1 = ts_cc ts"
        using psi_continue_wf [OF a(2) v conjunct1 [OF p] tl fits [OF pl [unfolded Inr]] ts(1)] .
      obtain r where "psi_finish s1 n = Some (s1, r)"
        "r < 0 \<or> r = n \<and> sec_len s1 = sec_valid s1 \<and> PSI_HDR_LEN \<le> sec_valid s1 \<and> psi_crc_valid s1 = Some True"
        using s1(2) by (rule psi_finish_wf)
      then show ?thesis
        using s1 p Inr pl ts(1) False
        by (intro exI [of _ s1] exI [of _ r]) (auto simp: psi_reassemble_def psi_wf_def PSI_HDR_LEN_def TS_PACKET_SIZE_def)
    qed
  qed
  then obtain t' r where re: "psi_reassemble ?s ts 0 = Some (t', r)" "psi_wf t'" "0 \<le> r \<longrightarrow> 0 < nat r \<and> r \<le> 188 \<and> sec_cc t' = ts_cc ts"
    "0 \<le> r \<longrightarrow> psi_crc_valid t' = Some True \<and> sec_len t' = psi_len (sec_data t') \<and> sec_valid t' = sec_len t'" by blast
  obtain b ds where b: "round_ok pid ids ns a ds b" "pt_section (a_pt b pid) = t'" "sections_to pid ids ns b"
    "dvr_reassemble_loop pid ts 0 a = (if r < 0 then Some b else dvr_reassemble_loop pid ts (nat r) b)"
    using reassemble_round [OF a(1) re(1) o re(2,4)] .
  consider "r < 0" | "r = 188" | "0 \<le> r" "0 < nat r" "nat r < 188" using re(3) by linarith
  then show ?thesis
  proof cases
    case 1
    then show ?thesis using b(1,4) by auto
  next
    case 2
    then show ?thesis using b(1,4) by (auto simp: dvr_reassemble_loop.simps [of pid ts 188] TS_PACKET_SIZE_def)
  next
    case 3
    then have cc: "sec_cc t' = ts_cc ts" using re(3) by blast
    obtain t2 r2 where t2: "psi_reassemble t' ts (nat r) = Some (t2, r2)" "psi_wf t2" "r2 < 0"
      using psi_second_call [OF re(2) cc ts 3(2,3)] .
    have o2: "nat r < TS_PACKET_SIZE" using 3 by (simp add: TS_PACKET_SIZE_def)
    have n2: "0 \<le> r2 \<longrightarrow> psi_crc_valid t2 = Some True \<and> sec_len t2 = psi_len (sec_data t2) \<and> sec_valid t2 = sec_len t2"
      using t2(3) by simp
    obtain c es where c: "round_ok pid ids ns b es c"
      "dvr_reassemble_loop pid ts (nat r) b = (if r2 < 0 then Some c else dvr_reassemble_loop pid ts (nat r2) c)"
      using reassemble_round [OF b(3) _ o2 t2(2) n2, of ts] t2(1) b(2) by metis
    then show ?thesis using b(4) 3(1) t2(3) round_ok_append [OF b(1) c(1)] by auto
  qed
qed

text \<open>The loop over the sections of a packet ends and stays inside its buffers, when the
  lengths the packet announces fit the section buffer and a header it completes ends within
  it.  Each section it hands to the callbacks has the length it announces and a valid CRC, and
  goes to every callback in order.\<close>

theorem dvr_section_reassemble_total:
  assumes "sections_to pid ids ns a" "psi_wf (pt_section (a_pt a pid))" "261 \<le> length ts"
    and "if ts_pusi ts then lengths_fit ts
      else \<forall>p. psi_payload ts 0 = Some (Inr p) \<longrightarrow> psi_fits (pt_section (a_pt a pid)) ts p"
  shows "\<exists>b ds. dvr_section_reassemble ts pid a = Some b \<and> psi_wf (pt_section (a_pt b pid)) \<and>
    sections_to pid ids ns b \<and> got ids b = got ids a @ concat (map (\<lambda>s. map (\<lambda>n. (n, sec_data s)) ns) ds) \<and>
    (\<forall>s \<in> set ds. psi_crc_valid s = Some True \<and> sec_len s = psi_len (sec_data s) \<and> sec_valid s = sec_len s)"
proof -
  obtain b ds where "dvr_reassemble_loop pid ts 0 a = Some b" "round_ok pid ids ns a ds b"
    using reassemble_loop_start [of ts pid ids ns a 0] reassemble_loop_continue [of ts pid ids ns a] assms
    by (cases "ts_pusi ts") auto
  then show ?thesis
    using assms(1) sections_to_cong [of pid a b ids ns]
    by - (rule exI [of _ b], rule exI [of _ ds], simp add: round_ok_def dvr_section_reassemble_def)
qed

definition quiet_packet :: "u8 list" where
  "quiet_packet = [0x47, 0x40, 17, 0x10] @ replicate 257 0"

lemma quiet_packet_fits: "ts_pusi quiet_packet" "length quiet_packet = 261" "lengths_fit quiet_packet"
proof -
  show "ts_pusi quiet_packet" by (simp add: ts_pusi_def quiet_packet_def)
  show "length quiet_packet = 261" by (simp add: quiet_packet_def)
  have z: "quiet_packet ! i = 0" if "4 \<le> i" "i < 261" for i
    using that by (simp add: quiet_packet_def nth_append)
  show "lengths_fit quiet_packet"
    unfolding lengths_fit_def
  proof (intro allI impI)
    fix p assume p: "p < TS_PACKET_SIZE" "TS_PACKET_SIZE - p > PSI_HDR_LEN"
    consider "p = 0" | "p = 1" | "p = 2" | "3 \<le> p" by linarith
    then show "psi_len (drop p quiet_packet) \<le> PSI_MAX_SIZE"
    proof cases
      case 4
      then have "drop p quiet_packet ! 1 = 0" "drop p quiet_packet ! 2 = 0"
        using p z [of "p + 1"] z [of "p + 2"] by (simp_all add: TS_PACKET_SIZE_def quiet_packet_def)
      then show ?thesis by (simp add: psi_len_def be16_eq PSI_MAX_SIZE_def)
    qed (simp_all add: psi_len_def be16_eq PSI_MAX_SIZE_def quiet_packet_def)
  qed
qed

theorem dvr_section_reassemble_total_witness:
  "\<exists>b. dvr_section_reassemble quiet_packet 17 example_tables = Some b"
proof -
  have s: "sections_to 17 {7} [7] example_tables" by (simp add: sections_to_def example_tables_sel ext_def)
  show ?thesis
    using dvr_section_reassemble_total [OF s, of quiet_packet] quiet_packet_fits psi_new_wf by (auto simp: example_tables_sel)
qed

text \<open>A section that arrives before section 0 of its table is a null pointer access: the
  parser returns no table, and the update of the programs uses it.  It happens with the
  first section of an adapter's PAT, and equally with the first section of a program's PMT.\<close>

theorem section_before_first_crashes:
  assumes "psi_currentnext (sec_data s)" "0 < psi_section_number (sec_data s)" "psi_section_number (sec_data s) < PSI_SECTION_MAX"
    and "psi_tableid (sec_data s) = PAT_TABLE_ID" "a_patpsi a = psi_new"
    and "psi_currentnext (sec_data m)" "0 < psi_section_number (sec_data m)" "psi_section_number (sec_data m) < PSI_SECTION_MAX"
    and "psi_tableid (sec_data m) = PMT_TABLE_ID" "a_progs a p = Some prog" "prog_psi prog = psi_new"
    and "pmt_pnr (sec_data m) = prog_pnr prog"
  shows "pat_section_cb s a = None \<and> pmt_dvr_pmt_cb m p a = None"
proof
  have new: "peek psi_new k = Some None" if "k < PSI_SECTION_MAX" for k using that by (simp add: psi_new_def peek_def)
  have up: "psi_update_table psi_new s = Some (psi_new[k := Some s], True)"
    if "psi_section_number (sec_data s) = k" "k < PSI_SECTION_MAX" for s k
    using that new by (simp add: psi_update_table_def Let_def psi_section_clone_def poke_def psi_new_def)
  have first: "peek (psi_new[k := Some s]) 0 = Some None" if "0 < k" for k s
    using that by (simp add: peek_def psi_new_def PSI_SECTION_MAX_def)
  have "pat_parse (psi_new[psi_section_number (sec_data s) := Some s]) = Some None"
    using first [OF assms(2)] by (simp add: pat_parse_def)
  then show "pat_section_cb s a = None"
    using assms(1,3,4,5) up [OF refl assms(3)] by (simp add: pat_section_cb_def Let_def pat_update_def)
  have "pmt_parse (prog\<lparr>prog_psi := psi_new[psi_section_number (sec_data m) := Some m]\<rparr>) = Some None"
    using first [OF assms(7)] by (simp add: pmt_parse_def)
  then show "pmt_dvr_pmt_cb m p a = None"
    using assms(6,8-12) up [OF refl assms(8)] by (simp add: pmt_dvr_pmt_cb_def upd_prog_def pmt_update_def)
qed

definition second_section :: "u8 \<Rightarrow> psisec" where
  "second_section table = psi_section_new\<lparr>sec_data := [table, 0, 0, 0, 0, 1, 1, 1] @ replicate 4088 0\<rparr>"

theorem section_before_first_crashes_witness:
  "pat_section_cb (second_section 0) (snd (pmt_prog_new 0 example_adapter)) = None \<and>
   pmt_dvr_pmt_cb (second_section 2) 0 (snd (pmt_prog_new 0 example_adapter)) = None"
  by (rule section_before_first_crashes, simp_all add: second_section_def psi_currentnext_def psi_section_number_def
      psi_tableid_def PSI_SECTION_MAX_def PAT_TABLE_ID_def PMT_TABLE_ID_def pmt_prog_new_def Let_def example_adapter_def
      pmt_pnr_def be16_eq) simp_all

end
