(* ===== verification/Socket.thy ===== *)
theory Socket
  imports Prelude
begin

text \<open>
  \<^verbatim>\<open>socket.c\<close>: the UDP sockets of the outputs and of the announcements, and the part of
  \<^verbatim>\<open>util.c\<close> that looks at addresses.

  The network is a log of system calls \<open>net_log\<close>; the result of a call is \<open>net_ret\<close> of the
  log that ends with it, an arbitrary function, so a theorem about an operation holds for
  every behaviour of the kernel.  \<open>net_sid\<close> is the static counter of \<^verbatim>\<open>sap.c\<close>.

  Addresses are numbers, their first octet the highest; \<open>inet_aton\<close> is the C library's
  function for the notations with one to four parts, each decimal, octal or hexadecimal,
  where white space ends the address.  \<^verbatim>\<open>htons\<close> keeps the low 16 bits of a port.
\<close>

section \<open>The C library\<close>

definition digit_of :: "nat \<Rightarrow> char \<Rightarrow> nat option" where
  "digit_of base c =
     (let n = of_char c;
          d = (if 48 \<le> n \<and> n \<le> 57 then n - 48 else if 97 \<le> n \<and> n \<le> 102 then n - 87
               else if 65 \<le> n \<and> n \<le> 70 then n - 55 else 16)
      in if d < base then Some d else None)"

fun digits :: "nat \<Rightarrow> nat \<Rightarrow> string \<Rightarrow> nat \<times> string" where
  "digits base acc [] = (acc, [])"
| "digits base acc (c # cs) =
     (case digit_of base c of Some d \<Rightarrow> digits base (acc * base + d) cs | None \<Rightarrow> (acc, c # cs))"

fun c_number :: "string \<Rightarrow> (nat \<times> string) option" where
  "c_number [] = None"
| "c_number (c # cs) =
     (if digit_of 10 c = None then None
      else if c = CHR ''0'' then
        (case cs of
           x # y # r \<Rightarrow> if x \<in> {CHR ''x'', CHR ''X''} \<and> digit_of 16 y \<noteq> None then Some (digits 16 0 (y # r))
                       else Some (digits 8 0 cs)
         | _ \<Rightarrow> Some (digits 8 0 cs))
      else Some (digits 10 0 (c # cs)))"

definition c_isspace :: "char \<Rightarrow> bool" where
  "c_isspace c \<longleftrightarrow> (let n = (of_char c :: nat) in n = 32 \<or> (9 \<le> n \<and> n \<le> 13))"

fun inet_parts :: "nat \<Rightarrow> string \<Rightarrow> (nat list \<times> string) option" where
  "inet_parts 0 s = None"
| "inet_parts (Suc k) s = do {
     (v, r) \<leftarrow> c_number s;
     if v > 0xffffffff then None
     else if r \<noteq> [] \<and> hd r = CHR ''.'' then
       if k = 0 \<or> v > 0xff then None
       else do { (vs, r) \<leftarrow> inet_parts k (tl r); Some (v # vs, r) }
     else Some ([v], r)
   }"

fun inet_value :: "nat \<Rightarrow> nat list \<Rightarrow> nat option" where
  "inet_value k [] = None"
| "inet_value k [v] = (if v < 256 ^ Suc k then Some v else None)"
| "inet_value k (v # vs) = do { w \<leftarrow> inet_value (k - 1) vs; Some (v * 256 ^ k + w) }"

definition inet_aton :: "string \<Rightarrow> nat option" where
  "inet_aton s = do {
     (vs, r) \<leftarrow> inet_parts 4 s;
     if r \<noteq> [] \<and> \<not> c_isspace (hd r) then None else inet_value 3 vs
   }"

definition htons :: "int \<Rightarrow> nat" where
  "htons port = nat (port mod 65536)"

definition IN_MULTICAST :: "nat \<Rightarrow> bool" where
  "IN_MULTICAST addr \<longleftrightarrow> addr AND 0xf0000000 = 0xe0000000"

definition INADDR_ANY :: nat where "INADDR_ANY = 0"

section \<open>System calls\<close>

datatype netcall =
    Net_socket
  | Net_bind int nat nat
  | Net_close int
  | Net_getfl int
  | Net_setfl int u32
  | Net_ttl int int
  | Net_add_membership int nat
  | Net_drop_membership int nat
  | Net_connect int nat nat
  | Net_send int "u8 list"
  | Net_sendto int "u8 list" nat nat
  | Net_open string
  | Net_write int "u8 list"

record net =
  net_log :: "netcall list"
  net_ret :: "netcall list \<Rightarrow> int"
  net_sid :: int

definition net_call :: "netcall \<Rightarrow> net \<Rightarrow> net \<times> int" where
  "net_call c n = (n\<lparr>net_log := net_log n @ [c]\<rparr>, net_ret n (net_log n @ [c]))"

section \<open>Sockets\<close>

definition socket_close :: "int \<Rightarrow> net \<Rightarrow> net" where
  "socket_close sock n = fst (net_call (Net_close sock) n)"

definition socket_open :: "string option \<Rightarrow> int \<Rightarrow> net \<Rightarrow> net \<times> int" where
  "socket_open laddr port n =
     (let (n, sock) = net_call Net_socket n
      in if sock < 0 then (n, sock)
      else
        let addr = (case laddr of None \<Rightarrow> INADDR_ANY
                    | Some s \<Rightarrow> (case inet_aton s of None \<Rightarrow> INADDR_ANY | Some a \<Rightarrow> a));
            (n, r) = net_call (Net_bind sock addr (htons port)) n
        in if r \<noteq> 0 then (socket_close sock n, -1) else (n, sock))"

definition O_NONBLOCK :: u32 where "O_NONBLOCK = 0x800"

definition socket_set_nonblock :: "int \<Rightarrow> net \<Rightarrow> net \<times> int" where
  "socket_set_nonblock sock n =
     (let (n, flags) = net_call (Net_getfl sock) n
      in net_call (Net_setfl sock (word_of_int flags OR O_NONBLOCK)) n)"

definition socket_set_ttl :: "int \<Rightarrow> int \<Rightarrow> net \<Rightarrow> net \<times> int" where
  "socket_set_ttl sock ttl n = (if ttl \<noteq> 0 then net_call (Net_ttl sock ttl) n else (n, 0))"

definition socket_join_multicast :: "int \<Rightarrow> string \<Rightarrow> net \<Rightarrow> net \<times> int" where
  "socket_join_multicast sock addr n =
     (case inet_aton addr of
        None \<Rightarrow> (n, -1)
      | Some maddr \<Rightarrow> if \<not> IN_MULTICAST maddr then (n, 0) else net_call (Net_add_membership sock maddr) n)"

definition socket_connect :: "int \<Rightarrow> string option \<Rightarrow> int \<Rightarrow> net \<Rightarrow> net \<times> int" where
  "socket_connect sock addr port n =
     (let raddr = (case addr of None \<Rightarrow> INADDR_ANY
                   | Some s \<Rightarrow> (case inet_aton s of None \<Rightarrow> INADDR_ANY | Some a \<Rightarrow> a))
      in net_call (Net_connect sock raddr (htons port)) n)"

definition socket_leave_multicast :: "int \<Rightarrow> string \<Rightarrow> net \<Rightarrow> net" where
  "socket_leave_multicast sock addr n =
     (case inet_aton addr of
        None \<Rightarrow> n
      | Some maddr \<Rightarrow> if \<not> IN_MULTICAST maddr then n else fst (net_call (Net_drop_membership sock maddr) n))"

text \<open>\<^verbatim>\<open>addr_is_mcast\<close> of \<^verbatim>\<open>util.c\<close> applies the test to the address as it lies in memory,
  whose first octet is the lowest on the machines the program runs on; \<open>junk\<close> is the
  variable's content when the address is not one.\<close>

definition swap32 :: "nat \<Rightarrow> nat" where
  "swap32 a = (a mod 256) * 2 ^ 24 + (a div 2 ^ 8 mod 256) * 2 ^ 16 + (a div 2 ^ 16 mod 256) * 2 ^ 8 + a div 2 ^ 24 mod 256"

definition addr_is_mcast :: "nat \<Rightarrow> string \<Rightarrow> bool" where
  "addr_is_mcast junk addr = IN_MULTICAST (case inet_aton addr of None \<Rightarrow> junk | Some a \<Rightarrow> swap32 a)"

section \<open>Open descriptors and joined groups\<close>

text \<open>The sockets a log leaves open, with the groups each has joined.\<close>

definition net_step :: "(netcall list \<Rightarrow> int) \<Rightarrow> netcall list \<Rightarrow> netcall \<Rightarrow> int set \<Rightarrow> int set" where
  "net_step ret l c s =
     (case c of
        Net_socket \<Rightarrow> if ret (l @ [c]) < 0 then s else insert (ret (l @ [c])) s
      | Net_close fd \<Rightarrow> s - {fd}
      | _ \<Rightarrow> s)"

definition open_socks :: "net \<Rightarrow> int set" where
  "open_socks n = fold (\<lambda>i. net_step (net_ret n) (take i (net_log n)) (net_log n ! i)) [0..<length (net_log n)] {}"

lemma net_call_simps [simp]:
  "net_log (fst (net_call c n)) = net_log n @ [c]" "net_ret (fst (net_call c n)) = net_ret n"
  "net_sid (fst (net_call c n)) = net_sid n" "snd (net_call c n) = net_ret n (net_log n @ [c])"
  by (simp_all add: net_call_def)

lemma open_socks_call:
  "open_socks (fst (net_call c n)) = net_step (net_ret n) (net_log n) c (open_socks n)"
proof -
  have "fold (\<lambda>i. net_step (net_ret n) (take i (net_log n @ [c])) ((net_log n @ [c]) ! i)) [0..<length (net_log n)] {} =
      open_socks n"
    unfolding open_socks_def by (rule fold_cong) (auto simp: nth_append)
  then show ?thesis by (simp add: open_socks_def net_call_def)
qed

lemma open_socks_calls [simp]:
  "open_socks (fst (net_call (Net_bind s a p) n)) = open_socks n"
  "open_socks (fst (net_call (Net_close s) n)) = open_socks n - {s}"
  "open_socks (fst (net_call (Net_getfl s) n)) = open_socks n"
  "open_socks (fst (net_call (Net_setfl s f) n)) = open_socks n"
  "open_socks (fst (net_call (Net_ttl s i) n)) = open_socks n"
  "open_socks (fst (net_call (Net_add_membership s a) n)) = open_socks n"
  "open_socks (fst (net_call (Net_drop_membership s a) n)) = open_socks n"
  "open_socks (fst (net_call (Net_connect s a p) n)) = open_socks n"
  "open_socks (fst (net_call (Net_send s d) n)) = open_socks n"
  by (simp_all add: open_socks_call net_step_def)

text \<open>The kernel gives a new socket a descriptor that is not open.\<close>

definition net_fresh :: "net \<Rightarrow> bool" where
  "net_fresh n \<longleftrightarrow> snd (net_call Net_socket n) \<notin> open_socks n"

lemma socket_open_socks:
  assumes "net_fresh n"
  shows "open_socks (fst (socket_open laddr port n)) =
    (if snd (socket_open laddr port n) < 0 then open_socks n
     else insert (snd (socket_open laddr port n)) (open_socks n))"
proof -
  obtain n1 sock where c: "net_call Net_socket n = (n1, sock)" by fastforce
  then have o1: "open_socks n1 = (if sock < 0 then open_socks n else insert sock (open_socks n))"
    using open_socks_call [of Net_socket n] by (auto simp: net_step_def net_call_def)
  have "sock \<notin> open_socks n" using assms c by (simp add: net_fresh_def)
  then show ?thesis
    using o1 by (auto simp: socket_open_def c socket_close_def Let_def split_beta)
qed

lemma socket_calls_socks [simp]:
  "open_socks (fst (socket_set_nonblock s n)) = open_socks n"
  "open_socks (fst (socket_set_ttl s i n)) = open_socks n"
  "open_socks (fst (socket_join_multicast s a n)) = open_socks n"
  "open_socks (fst (socket_connect s r p n)) = open_socks n"
  "open_socks (socket_leave_multicast s a n) = open_socks n"
  "open_socks (socket_close s n) = open_socks n - {s}"
  by (simp_all add: socket_set_nonblock_def socket_set_ttl_def socket_join_multicast_def socket_connect_def
      socket_leave_multicast_def socket_close_def split_beta split: option.splits)

end
