(* ===== verification/Sap.thy ===== *)
theory Sap
  imports Socket Simplebuffer
begin

text \<open>
  The outputs of a stream, \<^verbatim>\<open>struct output_s\<close> of \<^verbatim>\<open>output.h\<close>, and their announcement by the
  session announcement protocol, \<^verbatim>\<open>sap.c\<close>.

  The pointer to the packet buffer of an output is \<open>bufptr\<close>, which tells a freed buffer
  from the null pointer; a use of either is \<open>None\<close>.  \<open>o_klkstat\<close> says whether the output
  has a counter, the one of its stream.  The functions of an announcement get the output
  it belongs to, \<^verbatim>\<open>sap->output\<close>, and the name of the output's stream.

  In the announcement functions \<open>None\<close> stands for a text longer than its buffer, a null
  pointer, or \<^verbatim>\<open>exit\<close>.
\<close>

section \<open>Outputs\<close>

datatype otype = OTYPE_UDP | OTYPE_RTP | OTYPE_RTCP | OTYPE_HTTP | OTYPE_PIPE

datatype bufptr = Buf_null | Buf_freed | Buf simplebuffer

record rtp_receiver =
  rr_addr :: string
  rr_port :: int
  rr_sin_addr :: nat
  rr_sin_port :: nat
  rr_lastrr :: int
  rr_ssrc :: u32

datatype sap_scope = SAP_SCOPE_NONE | SAP_SCOPE_GLOBAL | SAP_SCOPE_ORG | SAP_SCOPE_LOCAL | SAP_SCOPE_LINK

record sap =
  sap_scope :: sap_scope
  sap_group :: "string option"
  sap_port :: int
  sap_playgroup :: "string option"
  sap_interval :: int
  sap_uri :: "string option"
  sap_description :: "string option"
  sap_emaillist :: "string list"
  sap_phonelist :: "string list"
  sap_attributelist :: "string list"
  sap_fd :: int
  sap_ttl :: int
  sap_event :: "int option"
  sap_sid :: int
  sap_cdata :: "string option"
  sap_mdata :: "string option"
  sap_odata :: "string option"
  sap_originatingaddr :: nat

record outp =
  o_type :: otype
  o_buffer :: bufptr
  o_remoteaddr :: "string option"
  o_remoteport :: int
  o_ttl :: int
  o_localaddr :: "string option"
  o_sap :: "sap option"
  o_receiver :: int
  o_sockfd :: int
  o_rtpreceiver :: "rtp_receiver list"
  o_rtpseq :: u16
  o_rtpssrc :: u32
  o_rtpport :: int
  o_pipe_filename :: string
  o_pipe_fd :: int
  o_pipe_event :: "int option"
  o_klkstat :: bool

definition SAP_V4_GLOBAL_ADDRESS :: string where "SAP_V4_GLOBAL_ADDRESS = ''224.2.127.254''"
definition SAP_V4_ORG_ADDRESS :: string where "SAP_V4_ORG_ADDRESS = ''239.195.255.255''"
definition SAP_V4_LOCAL_ADDRESS :: string where "SAP_V4_LOCAL_ADDRESS = ''239.255.255.255''"
definition SAP_V4_LINK_ADDRESS :: string where "SAP_V4_LINK_ADDRESS = ''224.0.0.255''"
definition SAP_PORT :: int where "SAP_PORT = 9875"
definition SAP_MAX_SIZE :: nat where "SAP_MAX_SIZE = 1024"

section \<open>Printing\<close>

text \<open>\<^verbatim>\<open>sprintf\<close> of a text into an array of \<open>size\<close> bytes.\<close>

definition sprintf :: "nat \<Rightarrow> string \<Rightarrow> string option" where
  "sprintf sz s = (if length s < sz then Some s else None)"

definition CRLF :: string where "CRLF = [CHR 0x0D, CHR 0x0A]"

text \<open>The packet being built, with the position of the end: the text and its terminator.\<close>

type_synonym sappkt = "u8 list \<times> nat"

definition sap_puts :: "string \<Rightarrow> sappkt \<Rightarrow> sappkt option" where
  "sap_puts s st = do {
     pkt \<leftarrow> memwrite (fst st) (snd st) (map of_char s @ [0]);
     Some (pkt, snd st + length s)
   }"

definition sap_line :: "string \<Rightarrow> string \<Rightarrow> sappkt \<Rightarrow> sappkt option" where
  "sap_line key s = sap_puts (key @ s @ CRLF)"

definition sap_line_opt :: "string \<Rightarrow> string option \<Rightarrow> sappkt \<Rightarrow> sappkt option" where
  "sap_line_opt key s st = (case s of None \<Rightarrow> Some st | Some s \<Rightarrow> sap_line key s st)"

fun sap_lines :: "string \<Rightarrow> string list \<Rightarrow> sappkt \<Rightarrow> sappkt option" where
  "sap_lines key [] st = Some st"
| "sap_lines key (s # ss) st = do { st \<leftarrow> sap_line key s st; sap_lines key ss st }"

section \<open>Sending\<close>

definition sap_init_timer_single :: "sap \<Rightarrow> sap" where
  "sap_init_timer_single sap = sap\<lparr>sap_event := Some (sap_interval sap)\<rparr>"

definition sap_header :: "sap \<Rightarrow> u8 list" where
  "sap_header sap =
     [push_bit 5 1, 0, word_of_int (drop_bit 8 (sap_sid sap) AND 0xff), word_of_int (sap_sid sap AND 0xff),
      of_nat (sap_originatingaddr sap AND 0xff), of_nat (drop_bit 8 (sap_originatingaddr sap) AND 0xff),
      of_nat (drop_bit 16 (sap_originatingaddr sap) AND 0xff), of_nat (drop_bit 24 (sap_originatingaddr sap) AND 0xff)]"

definition sap_send :: "sap \<Rightarrow> string option \<Rightarrow> net \<Rightarrow> (sap \<times> net) option" where
  "sap_send sap name n = do {
     let pkt = replicate SAP_MAX_SIZE 0;
     pkt \<leftarrow> memwrite pkt 0 (sap_header sap);
     st \<leftarrow> sap_line ''v='' ''0'' (pkt, 8);
     odata \<leftarrow> sap_odata sap;
     st \<leftarrow> sap_line ''o='' odata st;
     st \<leftarrow> sap_line_opt ''s='' name st;
     st \<leftarrow> sap_line_opt ''i='' (sap_description sap) st;
     st \<leftarrow> sap_line_opt ''u='' (sap_uri sap) st;
     st \<leftarrow> sap_lines ''e='' (sap_emaillist sap) st;
     st \<leftarrow> sap_lines ''p='' (sap_phonelist sap) st;
     st \<leftarrow> sap_line ''t='' ''0 0'' st;
     st \<leftarrow> sap_line ''a='' ''type:broadcast'' st;
     st \<leftarrow> sap_lines ''a='' (sap_attributelist sap) st;
     mdata \<leftarrow> sap_mdata sap;
     st \<leftarrow> sap_line ''m='' mdata st;
     cdata \<leftarrow> sap_cdata sap;
     st \<leftarrow> sap_line ''c='' cdata st;
     st \<leftarrow> sap_line_opt ''a=x-plgroup:'' (sap_playgroup sap) st;
     data \<leftarrow> memread (fst st) 0 (snd st);
     let n = fst (net_call (Net_send (sap_fd sap) data) n);
     Some (sap_init_timer_single sap, n)
   }"

section \<open>Setting up\<close>

definition sap_maddr :: "sap \<Rightarrow> string" where
  "sap_maddr sap =
     (case sap_group sap of
        Some g \<Rightarrow> g
      | None \<Rightarrow>
          (case sap_scope sap of
             SAP_SCOPE_GLOBAL \<Rightarrow> SAP_V4_GLOBAL_ADDRESS
           | SAP_SCOPE_ORG \<Rightarrow> SAP_V4_ORG_ADDRESS
           | SAP_SCOPE_LOCAL \<Rightarrow> SAP_V4_LOCAL_ADDRESS
           | SAP_SCOPE_LINK \<Rightarrow> SAP_V4_LINK_ADDRESS
           | SAP_SCOPE_NONE \<Rightarrow> SAP_V4_GLOBAL_ADDRESS))"

definition sap_init_socket_single :: "sap \<Rightarrow> outp \<Rightarrow> net \<Rightarrow> (sap \<times> net) option" where
  "sap_init_socket_single sap out n =
     (let (n, fd) = socket_open None 0 n;
          sap = sap\<lparr>sap_fd := fd\<rparr>
      in if fd = -1 then None
      else
        let maddr = sap_maddr sap;
            port = (if sap_port sap \<noteq> 0 then sap_port sap else SAP_PORT);
            ttl = (if sap_ttl sap \<ge> 0 then sap_ttl sap else o_ttl out);
            n = fst (socket_join_multicast fd maddr n);
            n = fst (socket_connect fd (Some maddr) port n);
            n = fst (socket_set_ttl fd ttl n)
        in Some (sap, n))"

definition sap_init_cdata :: "outp \<Rightarrow> string \<Rightarrow> string option" where
  "sap_init_cdata out hname =
     (case o_type out of
        OTYPE_RTCP \<Rightarrow>
          (case o_localaddr out of
             Some addr \<Rightarrow> sprintf 128 (''IN IP4 '' @ addr @ ''/'' @ dec_int (o_ttl out))
           | None \<Rightarrow> do { hname \<leftarrow> sprintf 80 hname; sprintf 128 (''IN IP4 '' @ hname @ ''/'' @ dec_int (o_ttl out)) })
      | OTYPE_HTTP \<Rightarrow> None
      | OTYPE_PIPE \<Rightarrow> None
      | _ \<Rightarrow> do { addr \<leftarrow> o_remoteaddr out; sprintf 128 (''IN IP4 '' @ addr @ ''/'' @ dec_int (o_ttl out)) })"

definition sap_init_mdata :: "outp \<Rightarrow> string option" where
  "sap_init_mdata out =
     (case o_type out of
        OTYPE_UDP \<Rightarrow> sprintf 128 (''video '' @ dec_int (o_remoteport out) @ '' udp 33'')
      | OTYPE_RTP \<Rightarrow> sprintf 128 (''video '' @ dec_int (o_remoteport out) @ '' RTP/AVP 33'')
      | OTYPE_RTCP \<Rightarrow> sprintf 128 (''video '' @ dec_int (o_rtpport out) @ '' RTP/AVP 33'')
      | _ \<Rightarrow> None)"

definition sap_init_odata :: "sap \<Rightarrow> outp \<Rightarrow> string \<Rightarrow> nat \<Rightarrow> string option" where
  "sap_init_odata sap out hname now =
     (case o_type out of
        OTYPE_RTCP \<Rightarrow>
          (case o_localaddr out of
             Some addr \<Rightarrow> sprintf 128 (''IN IP4 '' @ addr)
           | None \<Rightarrow> do {
               hname \<leftarrow> sprintf 80 hname;
               sprintf 128 (''- '' @ dec_int (sap_sid sap) @ '' '' @ dec_nat now @ '' IN IP4 '' @ hname)
             })
      | OTYPE_HTTP \<Rightarrow> None
      | OTYPE_PIPE \<Rightarrow> None
      | _ \<Rightarrow> do {
          addr \<leftarrow> o_remoteaddr out;
          sprintf 128 (''- '' @ dec_int (sap_sid sap) @ '' '' @ dec_nat now @ '' IN IP4 '' @ addr)
        })"

text \<open>\<^verbatim>\<open>inet_addr\<close> gives the address as it lies in memory, all ones if it is none.  \<open>hname\<close> and
  \<open>now\<close> are the host's name and the time.\<close>

definition inet_addr :: "string \<Rightarrow> nat" where
  "inet_addr s = (case inet_aton s of None \<Rightarrow> 0xffffffff | Some a \<Rightarrow> swap32 a)"

definition sap_init :: "sap \<Rightarrow> outp \<Rightarrow> string \<Rightarrow> nat \<Rightarrow> net \<Rightarrow> (sap \<times> net) option" where
  "sap_init sap out hname now n = do {
     let sap = sap\<lparr>sap_sid := net_sid n\<rparr>;
     let n = n\<lparr>net_sid := net_sid n + 1\<rparr>;
     let sap = (case o_remoteaddr out of None \<Rightarrow> sap | Some addr \<Rightarrow> sap\<lparr>sap_originatingaddr := inet_addr addr\<rparr>);
     (sap, n) \<leftarrow> sap_init_socket_single sap out n;
     cdata \<leftarrow> sap_init_cdata out hname;
     let sap = sap\<lparr>sap_cdata := Some cdata\<rparr>;
     mdata \<leftarrow> sap_init_mdata out;
     let sap = sap\<lparr>sap_mdata := Some mdata\<rparr>;
     odata \<leftarrow> sap_init_odata sap out hname now;
     let sap = sap\<lparr>sap_odata := Some odata\<rparr>;
     Some (sap_init_timer_single sap, n)
   }"

section \<open>The text of an announcement\<close>

text \<open>The lines of the session description, each a key and a value.\<close>

definition sdp_opt :: "string \<Rightarrow> string option \<Rightarrow> (string \<times> string) list" where
  "sdp_opt key s = (case s of None \<Rightarrow> [] | Some s \<Rightarrow> [(key, s)])"

definition sdp_all :: "string \<Rightarrow> string list \<Rightarrow> (string \<times> string) list" where
  "sdp_all key ss = map (Pair key) ss"

definition sdp :: "sap \<Rightarrow> string option \<Rightarrow> string \<Rightarrow> string \<Rightarrow> string \<Rightarrow> (string \<times> string) list" where
  "sdp sap name odata mdata cdata =
     [(''v='', ''0'')] @ [(''o='', odata)] @ sdp_opt ''s='' name @ sdp_opt ''i='' (sap_description sap) @
     sdp_opt ''u='' (sap_uri sap) @ sdp_all ''e='' (sap_emaillist sap) @ sdp_all ''p='' (sap_phonelist sap) @
     [(''t='', ''0 0'')] @ [(''a='', ''type:broadcast'')] @ sdp_all ''a='' (sap_attributelist sap) @
     [(''m='', mdata)] @ [(''c='', cdata)] @ sdp_opt ''a=x-plgroup:'' (sap_playgroup sap)"

definition sdp_text :: "(string \<times> string) list \<Rightarrow> string" where
  "sdp_text ls = concat (map (\<lambda>(key, s). key @ s @ CRLF) ls)"

fun sap_put_all :: "(string \<times> string) list \<Rightarrow> sappkt \<Rightarrow> sappkt option" where
  "sap_put_all [] st = Some st"
| "sap_put_all ((key, s) # ls) st = do { st \<leftarrow> sap_line key s st; sap_put_all ls st }"

lemma sap_put_all_append: "sap_put_all (ls @ ms) st = do { st \<leftarrow> sap_put_all ls st; sap_put_all ms st }"
  by (induction ls arbitrary: st) (auto split: bind_splits)

lemma sap_line_put: "sap_line key s st = sap_put_all [(key, s)] st"
  by (cases "sap_line key s st") simp_all

lemma sap_line_opt_put: "sap_line_opt key s st = sap_put_all (sdp_opt key s) st"
  by (cases s) (simp_all add: sap_line_opt_def sdp_opt_def sap_line_put del: sap_put_all.simps(2))

lemma sap_lines_put: "sap_lines key ss st = sap_put_all (sdp_all key ss) st"
proof (induction ss arbitrary: st)
  case (Cons s ss)
  then show ?case by (cases "sap_line key s st") (simp_all add: sdp_all_def)
qed (simp add: sdp_all_def)

text \<open>The packet with a header and a text: the rest is still zero.\<close>

definition sap_pkt :: "u8 list \<Rightarrow> string \<Rightarrow> sappkt" where
  "sap_pkt h t = (h @ map of_char t @ replicate (1016 - length t) 0, 8 + length t)"

lemma sap_puts_pkt:
  assumes h: "length h = 8" and t: "length t \<le> 1016"
  shows "sap_puts s (sap_pkt h t) = (if 8 + length t + length s < SAP_MAX_SIZE then Some (sap_pkt h (t @ s)) else None)"
proof (cases "8 + length t + length s < SAP_MAX_SIZE")
  case True
  let ?p = "h @ map of_char t @ replicate (1016 - length t) (0 :: u8)"
  have l: "length ?p = 1024" using h t by simp
  have tk: "take (8 + length t) ?p = h @ map of_char t" using h by simp
  have n: "1016 - length t = (length s + 1) + (1016 - length t - (length s + 1))"
    "1016 - length t - length s = Suc (1016 - length t - (length s + 1))"
    using True by (simp_all add: SAP_MAX_SIZE_def)
  have "replicate (1016 - length t) (0 :: u8) = replicate (length s + 1) 0 @ replicate (1016 - length t - (length s + 1)) 0"
    by (subst n(1)) (rule replicate_add)
  then have dr: "drop (8 + length t + (length s + 1)) ?p = replicate (1016 - length t - (length s + 1)) 0"
    using h by (simp add: drop_append)
  have "memwrite ?p (8 + length t) (map of_char s @ [0]) =
      Some ((h @ map of_char t) @ (map of_char s @ [0]) @ replicate (1016 - length t - (length s + 1)) 0)"
    using True l tk dr by (simp add: memwrite_def SAP_MAX_SIZE_def)
  moreover have "[0] @ replicate (1016 - length t - (length s + 1)) (0 :: u8) = replicate (1016 - length t - length s) 0"
    unfolding n(2) by simp
  ultimately show ?thesis
    using True by (simp add: sap_puts_def sap_pkt_def)
next
  case False
  then show ?thesis using h t by (simp add: sap_puts_def sap_pkt_def memwrite_def SAP_MAX_SIZE_def)
qed

lemma sap_put_all_pkt:
  assumes h: "length h = 8"
  shows "8 + length t < SAP_MAX_SIZE \<Longrightarrow> sap_put_all ls (sap_pkt h t) =
    (if 8 + length t + length (sdp_text ls) < SAP_MAX_SIZE then Some (sap_pkt h (t @ sdp_text ls)) else None)"
proof (induction ls arbitrary: t)
  case Nil
  then show ?case by (simp add: sdp_text_def)
next
  case (Cons l ls)
  obtain key s where l: "l = (key, s)" by fastforce
  have "length t \<le> 1016" using Cons.prems by (simp add: SAP_MAX_SIZE_def)
  note p = sap_puts_pkt [OF h this, of "key @ s @ CRLF"]
  show ?case
    using Cons.IH [of "t @ key @ s @ CRLF"]
    by (auto simp: l sap_line_def p sdp_text_def)
qed

lemma sap_send_put:
  assumes "sap_odata sap = Some odata" "sap_mdata sap = Some mdata" "sap_cdata sap = Some cdata"
  shows "sap_send sap name n = do {
    st \<leftarrow> sap_put_all (sdp sap name odata mdata cdata) (sap_pkt (sap_header sap) []);
    data \<leftarrow> memread (fst st) 0 (snd st);
    Some (sap_init_timer_single sap, fst (net_call (Net_send (sap_fd sap) data) n))
  }"
proof -
  have "memwrite (replicate SAP_MAX_SIZE 0) 0 (sap_header sap) = Some (sap_header sap @ replicate 1016 0)"
    by (simp add: memwrite_def SAP_MAX_SIZE_def sap_header_def)
  then show ?thesis
    by (simp only: sap_send_def Let_def assms bind.bind_lunit sap_line_put sap_line_opt_put sap_lines_put sdp_def
        sap_put_all_append bind_assoc sap_pkt_def list.size list.map append_Nil diff_zero add_0_right)
qed

section \<open>Properties\<close>

text \<open>An announcement is one datagram of eight header bytes, with the session number and the
  originating address in it, and the lines of the description in their order; it is sent
  exactly when it is shorter than the packet buffer, and one that is not writes outside of
  the buffer.\<close>

theorem sap_send_layout:
  assumes "sap_odata sap = Some odata" "sap_mdata sap = Some mdata" "sap_cdata sap = Some cdata"
  shows "sap_send sap name n =
    (let text = sdp_text (sdp sap name odata mdata cdata)
     in if 8 + length text < SAP_MAX_SIZE
        then Some (sap\<lparr>sap_event := Some (sap_interval sap)\<rparr>,
          n\<lparr>net_log := net_log n @ [Net_send (sap_fd sap) (sap_header sap @ map of_char text)]\<rparr>)
        else None)"
proof -
  have h: "length (sap_header sap) = 8" by (simp add: sap_header_def)
  show ?thesis
    unfolding sap_send_put [OF assms] Let_def
    by (simp add: sap_put_all_pkt [OF h, of "[]"] SAP_MAX_SIZE_def)
      (simp add: sap_pkt_def memread_def h sap_init_timer_single_def net_call_def)
qed

theorem sap_send_layout_witness:
  "sap_send \<lparr>sap_scope = SAP_SCOPE_NONE, sap_group = None, sap_port = 0, sap_playgroup = Some ''tv'', sap_interval = 5,
      sap_uri = None, sap_description = None, sap_emaillist = [], sap_phonelist = [], sap_attributelist = [''x''],
      sap_fd = 4, sap_ttl = -1, sap_event = None, sap_sid = 258, sap_cdata = Some ''c'', sap_mdata = Some ''m'',
      sap_odata = Some ''o'', sap_originatingaddr = 0x0100007f\<rparr> (Some ''one'') \<lparr>net_log = [], net_ret = \<lambda>_. 0, net_sid = 1\<rparr> \<noteq> None"
  (is "sap_send ?s _ _ \<noteq> None")
proof -
  have "length (sdp_text (sdp ?s (Some ''one'') ''o'' ''m'' ''c'')) < 200"
    by (simp add: sdp_text_def sdp_def sdp_opt_def sdp_all_def CRLF_def)
  then show ?thesis
    using sap_send_layout [of ?s "''o''" "''m''" "''c''" "Some ''one''"] by (simp add: Let_def SAP_MAX_SIZE_def)
qed

end
