(* ===== verification/Output.thy ===== *)
theory Output
  imports Sap Ts
begin

text \<open>
  The outputs: \<^verbatim>\<open>output.c\<close> and \<^verbatim>\<open>output_udp.c\<close>, which the program is built with, and
  \<^verbatim>\<open>output_rtp.c\<close>, the part of it that is not switched off, which is left out of the build.

  An output collects packets in its buffer and sends the buffer when no further packet
  fits.  The counter an output adds the bytes sent to belongs to its stream; the
  operations get it and give it back.  \<open>None\<close> stands for a use of the null pointer or of a
  freed buffer, or for freeing a buffer twice.
\<close>

definition buf_get :: "bufptr \<Rightarrow> simplebuffer option" where
  "buf_get b = (case b of Buf sb \<Rightarrow> Some sb | _ \<Rightarrow> None)"

lemma buf_get_simps [simp]: "buf_get (Buf sb) = Some sb" "buf_get Buf_null = None" "buf_get Buf_freed = None"
  by (simp_all add: buf_get_def)

section \<open>UDP\<close>

definition UDP_MAX_TS :: nat where "UDP_MAX_TS = (1500 - 40) div TS_PACKET_SIZE"

text \<open>\<open>junk\<close> is what \<^verbatim>\<open>malloc\<close> finds in memory.  An error leaves the pointer to the freed buffer.\<close>

definition output_init_udp :: "u8 list \<Rightarrow> outp \<Rightarrow> net \<Rightarrow> (outp \<times> net \<times> bool) option" where
  "output_init_udp junk out n =
     (let out = out\<lparr>o_buffer := Buf (sb_init junk UDP_MAX_TS TS_PACKET_SIZE 0)\<rparr>;
          (n, fd) = socket_open (o_localaddr out) 0 n;
          out = out\<lparr>o_sockfd := fd\<rparr>
      in if fd < 0 then Some (out\<lparr>o_buffer := Buf_freed\<rparr>, n, False)
      else
        let n = fst (socket_set_nonblock fd n);
            (n, r) = socket_connect fd (o_remoteaddr out) (o_remoteport out) n
        in if r \<noteq> 0 then Some (out\<lparr>o_buffer := Buf_freed\<rparr>, socket_close fd n, False)
        else do {
          addr \<leftarrow> o_remoteaddr out;
          let n = fst (socket_join_multicast fd addr n);
          let n = (if o_ttl out \<noteq> 0 then fst (socket_set_ttl fd (o_ttl out) n) else n);
          Some (out\<lparr>o_receiver := 1\<rparr>, n, True)
        })"

definition output_send_udp :: "outp \<Rightarrow> u8 list \<Rightarrow> net \<Rightarrow> nat \<Rightarrow> (outp \<times> net \<times> nat) option" where
  "output_send_udp out tsp n count = do {
     sb \<leftarrow> buf_get (o_buffer out);
     (sb, _) \<leftarrow> sb_add_atoms sb tsp 1;
     if sb_free_atoms sb \<noteq> 0 then Some (out\<lparr>o_buffer := Buf sb\<rparr>, n, count)
     else
       let (n, len) = net_call (Net_send (o_sockfd out) (sb_block sb)) n;
           sb = sb_zap sb;
           count = (if len > 0 \<and> o_klkstat out then (count + nat len) mod 2 ^ 32 else count)
       in Some (out\<lparr>o_buffer := Buf sb\<rparr>, n, count)
   }"

definition output_deinit_udp :: "outp \<Rightarrow> net \<Rightarrow> (outp \<times> net) option" where
  "output_deinit_udp out n = do {
     addr \<leftarrow> o_remoteaddr out;
     let n = socket_leave_multicast (o_sockfd out) addr n;
     let n = (if o_sockfd out \<ge> 0 then fst (net_call (Net_close (o_sockfd out)) n) else n);
     case o_buffer out of
       Buf_null \<Rightarrow> Some (out, n)
     | Buf_freed \<Rightarrow> None
     | Buf _ \<Rightarrow> Some (out\<lparr>o_buffer := Buf_freed\<rparr>, n)
   }"

section \<open>The outputs of the build\<close>

definition output_send :: "outp \<Rightarrow> u8 list \<Rightarrow> net \<Rightarrow> nat \<Rightarrow> (outp \<times> net \<times> nat) option" where
  "output_send out tsp n count =
     (if o_receiver out = 0 then Some (out, n, count)
      else if o_type out = OTYPE_UDP then output_send_udp out tsp n count
      else Some (out, n, count))"

text \<open>The result of \<^verbatim>\<open>output_init_udp\<close> is not looked at, and the one of \<^verbatim>\<open>output_init\<close> is always 1.\<close>

definition output_init :: "u8 list \<Rightarrow> string \<Rightarrow> nat \<Rightarrow> outp \<Rightarrow> net \<Rightarrow> (outp \<times> net) option" where
  "output_init junk hname now out n = do {
     (out, n) \<leftarrow> (if o_type out = OTYPE_UDP
                  then do { (out, n, _) \<leftarrow> output_init_udp junk out n; Some (out, n) }
                  else Some (out, n));
     case o_sap out of
       None \<Rightarrow> Some (out, n)
     | Some sap \<Rightarrow> do {
         (sap, n) \<leftarrow> sap_init sap out hname now n;
         Some (out\<lparr>o_sap := Some sap\<rparr>, n)
       }
   }"

definition output_deinit :: "outp \<Rightarrow> net \<Rightarrow> (outp \<times> net) option" where
  "output_deinit out n = (if o_type out = OTYPE_UDP then output_deinit_udp out n else Some (out, n))"

section \<open>RTP\<close>

definition RTP_PT_MP2T :: u8 where "RTP_PT_MP2T = 33"
definition RTP_MAX_PAYLOAD :: nat where "RTP_MAX_PAYLOAD = 1000"
definition RTP_MAX_TS :: nat where "RTP_MAX_TS = RTP_MAX_PAYLOAD div TS_PACKET_SIZE"
definition RTP_HEADROOM :: nat where "RTP_HEADROOM = 12"

definition output_rtp_new_receiver :: "outp \<Rightarrow> string \<Rightarrow> int \<Rightarrow> u32 \<Rightarrow> int \<Rightarrow> outp" where
  "output_rtp_new_receiver out addr port ssrc now =
     (let r = \<lparr>rr_addr = addr, rr_port = port,
               rr_sin_addr = (case inet_aton addr of None \<Rightarrow> 0 | Some a \<Rightarrow> a), rr_sin_port = htons port,
               rr_lastrr = now, rr_ssrc = ssrc\<rparr>
      in out\<lparr>o_rtpreceiver := r # o_rtpreceiver out, o_receiver := o_receiver out + 1\<rparr>)"

text \<open>\<open>rnd\<close> is the result of \<^verbatim>\<open>random\<close>.\<close>

definition output_init_rtp :: "u8 list \<Rightarrow> int \<Rightarrow> int \<Rightarrow> outp \<Rightarrow> net \<Rightarrow> (outp \<times> net \<times> int) option" where
  "output_init_rtp junk rnd now out n =
     (let (n, fd) = socket_open (o_localaddr out) 0 n;
          out = out\<lparr>o_sockfd := fd\<rparr>
      in if fd < 0 then Some (out, n, -1)
      else do {
        let n = fst (socket_set_nonblock fd n);
        let n = fst (socket_set_ttl fd (o_ttl out) n);
        addr \<leftarrow> o_remoteaddr out;
        let n = fst (socket_join_multicast fd addr n);
        let out = out\<lparr>o_rtpssrc := word_of_int rnd, o_buffer := Buf (sb_init junk RTP_MAX_TS TS_PACKET_SIZE RTP_HEADROOM)\<rparr>;
        Some (output_rtp_new_receiver out addr (o_remoteport out) 0 now, n, 0)
      })"

text \<open>The header of a packet sent at \<open>sec\<close> seconds and \<open>usec\<close> microseconds.\<close>

definition rtp_msec :: "int \<Rightarrow> int \<Rightarrow> int" where
  "rtp_msec sec usec = cmod sec 1000000 * 1000 + cdiv usec 1000"

definition rtp_header :: "u16 \<Rightarrow> int \<Rightarrow> u32 \<Rightarrow> u8 list" where
  "rtp_header rtpseq msec ssrc =
     [0x80, RTP_PT_MP2T,
      ucast (drop_bit 8 rtpseq AND 0xff), ucast (rtpseq AND 0xff),
      word_of_int (drop_bit 24 msec AND 0xff), word_of_int (drop_bit 16 msec AND 0xff),
      word_of_int (drop_bit 8 msec AND 0xff), word_of_int (msec AND 0xff),
      ucast (drop_bit 24 ssrc AND 0xff), ucast (drop_bit 16 ssrc AND 0xff),
      ucast (drop_bit 8 ssrc AND 0xff), ucast (ssrc AND 0xff)]"

fun rtp_sendto :: "int \<Rightarrow> u8 list \<Rightarrow> rtp_receiver list \<Rightarrow> net \<Rightarrow> net" where
  "rtp_sendto fd data [] n = n"
| "rtp_sendto fd data (r # rs) n =
     rtp_sendto fd data rs (fst (net_call (Net_sendto fd data (rr_sin_addr r) (rr_sin_port r)) n))"

definition output_send_rtp :: "outp \<Rightarrow> u8 list \<Rightarrow> int \<Rightarrow> int \<Rightarrow> net \<Rightarrow> (outp \<times> net) option" where
  "output_send_rtp out tsp sec usec n = do {
     sb \<leftarrow> buf_get (o_buffer out);
     (sb, _) \<leftarrow> sb_add_atoms sb tsp 1;
     if sb_free_atoms sb \<noteq> 0 then Some (out\<lparr>o_buffer := Buf sb\<rparr>, n)
     else do {
       b \<leftarrow> memwrite (sb_bufptr sb) 0 (rtp_header (o_rtpseq out) (rtp_msec sec usec) (o_rtpssrc out));
       let sb = sb\<lparr>sb_buffer := b\<rparr>;
       let n = rtp_sendto (o_sockfd out) (sb_block sb) (o_rtpreceiver out) n;
       Some (out\<lparr>o_buffer := Buf (sb_zap sb), o_rtpseq := o_rtpseq out + 1\<rparr>, n)
     }
   }"

section \<open>What has been sent\<close>

text \<open>The data sent on a socket, and to a receiver on a socket.\<close>

fun sent_on :: "int \<Rightarrow> netcall list \<Rightarrow> u8 list list" where
  "sent_on fd [] = []"
| "sent_on fd (Net_send s d # cs) = (if s = fd then d # sent_on fd cs else sent_on fd cs)"
| "sent_on fd (c # cs) = sent_on fd cs"

fun sent_to :: "int \<Rightarrow> rtp_receiver \<Rightarrow> netcall list \<Rightarrow> u8 list list" where
  "sent_to fd r [] = []"
| "sent_to fd r (Net_sendto s d addr port # cs) =
     (if s = fd \<and> addr = rr_sin_addr r \<and> port = rr_sin_port r then d # sent_to fd r cs else sent_to fd r cs)"
| "sent_to fd r (c # cs) = sent_to fd r cs"

lemma sent_on_append [simp]: "sent_on fd (cs @ ds) = sent_on fd cs @ sent_on fd ds"
  by (induction fd cs rule: sent_on.induct) auto

lemma sent_to_append [simp]: "sent_to fd r (cs @ ds) = sent_to fd r cs @ sent_to fd r ds"
  by (induction fd r cs rule: sent_to.induct) auto

text \<open>The packets in a datagram of a given number of packets, and a buffer for packets.\<close>

definition pkts_of :: "nat \<Rightarrow> u8 list \<Rightarrow> u8 list list" where
  "pkts_of num d = slots TS_PACKET_SIZE d num"

definition pktbuf :: "nat \<Rightarrow> nat \<Rightarrow> simplebuffer \<Rightarrow> bool" where
  "pktbuf num room sb \<longleftrightarrow> sb_wf sb \<and> sb_atoms sb = num \<and> sb_atomsize sb = TS_PACKET_SIZE \<and> sb_headroom sb = room \<and>
     sb_fill sb < num"

definition o_items :: "outp \<Rightarrow> u8 list list" where
  "o_items out = (case o_buffer out of Buf sb \<Rightarrow> sb_items sb | _ \<Rightarrow> [])"

lemma pktbuf_init: "0 < num \<Longrightarrow> pktbuf num room (sb_init junk num TS_PACKET_SIZE room)"
  by (simp add: pktbuf_def sb_init_wf) (simp add: sb_init_def Let_def)

lemma pktbuf_zap: "sb_wf sb \<Longrightarrow> sb_atoms sb = num \<Longrightarrow> sb_atomsize sb = TS_PACKET_SIZE \<Longrightarrow> sb_headroom sb = room \<Longrightarrow>
    0 < num \<Longrightarrow> pktbuf num room (sb_zap sb)"
  by (simp add: pktbuf_def sb_wf_def sb_zap_def)

lemma sb_items_zap [simp]: "sb_items (sb_zap sb) = []"
  by (simp add: sb_items_def sb_zap_def)

lemma slots_one: "slots (length x) x 1 = [x]"
  by (simp add: slots_def)

text \<open>One packet more: the new content, and the block when it is full.\<close>

lemma pktbuf_add:
  assumes b: "pktbuf num room sb" and x: "length x = TS_PACKET_SIZE"
  obtains sb' where "sb_add_atoms sb x 1 = Some (sb', 1)" "sb_wf sb'" "sb_items sb' = sb_items sb @ [x]"
    "sb_atoms sb' = num" "sb_atomsize sb' = TS_PACKET_SIZE" "sb_headroom sb' = room" "sb_fill sb' = sb_fill sb + 1"
    "sb_free_atoms sb' = num - (sb_fill sb + 1)" "\<forall>y \<in> set (sb_items sb'). length y = TS_PACKET_SIZE"
proof -
  have wf: "sb_wf sb" and f: "sb_fill sb < num" and n: "sb_atoms sb = num" "sb_atomsize sb = TS_PACKET_SIZE" "sb_headroom sb = room"
    using b by (simp_all add: pktbuf_def)
  have m: "min 1 (sb_atoms sb - sb_fill sb) = 1" using f n(1) by simp
  obtain sb' where a: "sb_add_atoms sb x 1 = Some (sb', 1)" "sb_wf sb'" "sb_items sb' = sb_items sb @ [x]"
    "sb_atoms sb' = num" "sb_atomsize sb' = TS_PACKET_SIZE" "sb_headroom sb' = room" "sb_fill sb' = sb_fill sb + 1"
    by (rule sb_add [OF wf, of 1 x]) (use x n m slots_one [of x] in simp_all)
  have "length y = TS_PACKET_SIZE" if y: "y \<in> set (sb_items sb')" for y
  proof -
    obtain i where i: "i < sb_fill sb'" "y = take TS_PACKET_SIZE (drop (i * TS_PACKET_SIZE) (drop room (sb_buffer sb')))"
      using y a(5,6) by (auto simp: sb_items_def slots_def simp del: drop_drop)
    have "Suc i \<le> num" using i(1) a(2,4) by (simp add: sb_wf_def)
    then have "Suc i * TS_PACKET_SIZE \<le> num * TS_PACKET_SIZE" by (rule mult_le_mono1)
    then show ?thesis using i(2) a(2,4,5,6) by (simp add: sb_wf_def)
  qed
  then show ?thesis using that a by (simp add: sb_free_atoms_def)
qed

lemma concat_pkts_length: "\<forall>y \<in> set ys. length y = TS_PACKET_SIZE \<Longrightarrow> length (concat ys) = length ys * TS_PACKET_SIZE"
  by (induction ys) simp_all

lemma concat_pkts_of: "length d = num * TS_PACKET_SIZE \<Longrightarrow> concat (pkts_of num d) = d"
  by (simp add: pkts_of_def concat_slots)

lemma pkts_of_concat: "\<forall>y \<in> set ys. length y = TS_PACKET_SIZE \<Longrightarrow> length ys = num \<Longrightarrow> pkts_of num (concat ys) = ys"
  using slots_concat [of ys TS_PACKET_SIZE] by (simp add: pkts_of_def)

subsection \<open>UDP\<close>

type_synonym outst = "outp \<times> net \<times> nat"

definition udp_ok :: "outst \<Rightarrow> bool" where
  "udp_ok s = (case s of (out, n, count) \<Rightarrow> o_type out = OTYPE_UDP \<and> o_receiver out \<noteq> 0 \<and>
     (case o_buffer out of Buf sb \<Rightarrow> pktbuf UDP_MAX_TS 0 sb | _ \<Rightarrow> False))"

definition udp_sent :: "int \<Rightarrow> outst \<Rightarrow> u8 list list list" where
  "udp_sent fd s = (case s of (out, n, count) \<Rightarrow> map (pkts_of UDP_MAX_TS) (sent_on fd (net_log n)))"

definition udp_put :: "u8 list \<Rightarrow> outst \<Rightarrow> outst option" where
  "udp_put tsp s = (case s of (out, n, count) \<Rightarrow> output_send out tsp n count)"

lemma udp_send_step:
  assumes ok: "udp_ok (out, n, count)" and x: "length x = TS_PACKET_SIZE"
  obtains out' n' count' where "output_send out x n count = Some (out', n', count')" "udp_ok (out', n', count')"
    "o_sockfd out' = o_sockfd out"
    "if Suc (length (o_items out)) < UDP_MAX_TS then o_items out' = o_items out @ [x] \<and> n' = n
     else o_items out' = [] \<and> n' = fst (net_call (Net_send (o_sockfd out) (concat (o_items out @ [x]))) n) \<and>
       pkts_of UDP_MAX_TS (concat (o_items out @ [x])) = o_items out @ [x] \<and>
       length (concat (o_items out @ [x])) = UDP_MAX_TS * TS_PACKET_SIZE"
proof -
  obtain sb where sb: "o_buffer out = Buf sb" "pktbuf UDP_MAX_TS 0 sb" and ty: "o_type out = OTYPE_UDP" "o_receiver out \<noteq> 0"
    using ok by (auto simp: udp_ok_def split: bufptr.splits)
  obtain sb' where a: "sb_add_atoms sb x 1 = Some (sb', 1)" "sb_wf sb'" "sb_items sb' = sb_items sb @ [x]"
    "sb_atoms sb' = UDP_MAX_TS" "sb_atomsize sb' = TS_PACKET_SIZE" "sb_headroom sb' = 0" "sb_fill sb' = sb_fill sb + 1"
    "sb_free_atoms sb' = UDP_MAX_TS - (sb_fill sb + 1)" and len: "\<forall>y \<in> set (sb_items sb'). length y = TS_PACKET_SIZE"
    by (rule pktbuf_add [OF sb(2) x])
  have it: "o_items out = sb_items sb" using sb(1) by (simp add: o_items_def)
  have f: "sb_fill sb < UDP_MAX_TS" using sb(2) by (simp add: pktbuf_def)
  show ?thesis
  proof (cases "Suc (length (o_items out)) < UDP_MAX_TS")
    case True
    let ?o = "out\<lparr>o_buffer := Buf sb'\<rparr>"
    have "output_send out x n count = Some (?o, n, count)"
      using True ty sb(1) a it by (simp add: output_send_def output_send_udp_def)
    moreover have "udp_ok (?o, n, count)" using True ty a it by (simp add: udp_ok_def pktbuf_def)
    ultimately show ?thesis using that [of ?o n count] True a(3) it by (simp add: o_items_def)
  next
    case False
    let ?o = "out\<lparr>o_buffer := Buf (sb_zap sb')\<rparr>"
    have full: "length (sb_items sb') = UDP_MAX_TS" using False f a(3) it by simp
    have blk: "sb_block sb' = concat (sb_items sb')" using sb_block_items [OF a(2)] a(6) by simp
    define n' where "n' = fst (net_call (Net_send (o_sockfd out) (sb_block sb')) n)"
    obtain count' where "output_send out x n count = Some (?o, n', count')"
      using False f ty sb(1) a it by (simp add: output_send_def output_send_udp_def n'_def split_beta Let_def)
    moreover have "udp_ok (?o, n', count')" for count'
      using ty pktbuf_zap [OF a(2,4,5,6)] by (simp add: udp_ok_def UDP_MAX_TS_def TS_PACKET_SIZE_def)
    moreover have "pkts_of UDP_MAX_TS (concat (sb_items sb')) = sb_items sb'"
      "length (concat (sb_items sb')) = UDP_MAX_TS * TS_PACKET_SIZE"
      using pkts_of_concat [OF len full] concat_pkts_length [OF len] full by simp_all
    ultimately show ?thesis using that [of ?o n' count'] False a(3) it blk by (simp add: o_items_def n'_def)
  qed
qed

definition udp_ok_on :: "int \<Rightarrow> outst \<Rightarrow> bool" where
  "udp_ok_on fd s \<longleftrightarrow> udp_ok s \<and> o_sockfd (fst s) = fd \<and>
     (\<forall>d \<in> set (sent_on fd (net_log (fst (snd s)))). length d = UDP_MAX_TS * TS_PACKET_SIZE)"

interpretation udp: batcher "udp_ok_on fd" "\<lambda>x. length x = TS_PACKET_SIZE" "\<lambda>s. o_items (fst s)"
  "udp_sent fd" UDP_MAX_TS udp_put for fd
proof
  fix s :: outst and x :: "u8 list"
  obtain out n count where s: "s = (out, n, count)" by (cases s) auto
  show "length (o_items (fst s)) < UDP_MAX_TS" if "udp_ok_on fd s"
    using that by (auto simp: udp_ok_on_def udp_ok_def s o_items_def pktbuf_def split: bufptr.splits)
  assume ok: "udp_ok_on fd s" and x: "length x = TS_PACKET_SIZE"
  have ok': "udp_ok (out, n, count)" using ok s by (simp add: udp_ok_on_def)
  obtain out' n' count' where st: "output_send out x n count = Some (out', n', count')" "udp_ok (out', n', count')"
    "o_sockfd out' = o_sockfd out" and
    c: "if Suc (length (o_items out)) < UDP_MAX_TS then o_items out' = o_items out @ [x] \<and> n' = n
     else o_items out' = [] \<and> n' = fst (net_call (Net_send (o_sockfd out) (concat (o_items out @ [x]))) n) \<and>
       pkts_of UDP_MAX_TS (concat (o_items out @ [x])) = o_items out @ [x] \<and>
       length (concat (o_items out @ [x])) = UDP_MAX_TS * TS_PACKET_SIZE"
    by (rule udp_send_step [OF ok' x])
  show "\<exists>s'. udp_put x s = Some s' \<and> udp_ok_on fd s' \<and>
      (if Suc (length (o_items (fst s))) < UDP_MAX_TS then o_items (fst s') = o_items (fst s) @ [x] \<and> udp_sent fd s' = udp_sent fd s
       else o_items (fst s') = [] \<and> udp_sent fd s' = udp_sent fd s @ [o_items (fst s) @ [x]])"
    using st c ok by (intro exI [of _ "(out', n', count')"]) (auto simp: udp_put_def s udp_sent_def udp_ok_on_def)
qed

subsection \<open>RTP\<close>

text \<open>An output with one receiver, the one it starts with.  The clock is a function of what has
  happened on the network.\<close>

definition rtp_ok :: "rtp_receiver \<Rightarrow> int \<Rightarrow> u32 \<Rightarrow> u16 \<Rightarrow> outp \<times> net \<Rightarrow> bool" where
  "rtp_ok r fd ssrc seq0 s = (case s of (out, n) \<Rightarrow>
     o_rtpreceiver out = [r] \<and> o_sockfd out = fd \<and> o_rtpssrc out = ssrc \<and>
     o_rtpseq out = seq0 + of_nat (length (sent_to fd r (net_log n))) \<and>
     (\<forall>i < length (sent_to fd r (net_log n)). \<exists>ms.
        take RTP_HEADROOM (sent_to fd r (net_log n) ! i) = rtp_header (seq0 + of_nat i) ms ssrc) \<and>
     (\<forall>d \<in> set (sent_to fd r (net_log n)). length d = RTP_HEADROOM + RTP_MAX_TS * TS_PACKET_SIZE) \<and>
     (case o_buffer out of Buf sb \<Rightarrow> pktbuf RTP_MAX_TS RTP_HEADROOM sb | _ \<Rightarrow> False))"

definition rtp_sent :: "rtp_receiver \<Rightarrow> int \<Rightarrow> outp \<times> net \<Rightarrow> u8 list list list" where
  "rtp_sent r fd s = (case s of (out, n) \<Rightarrow> map (\<lambda>d. pkts_of RTP_MAX_TS (drop RTP_HEADROOM d)) (sent_to fd r (net_log n)))"

definition rtp_put :: "(netcall list \<Rightarrow> int \<times> int) \<Rightarrow> u8 list \<Rightarrow> outp \<times> net \<Rightarrow> (outp \<times> net) option" where
  "rtp_put clock tsp s = (case s of (out, n) \<Rightarrow>
     output_send_rtp out tsp (fst (clock (net_log n))) (snd (clock (net_log n))) n)"

lemma rtp_header_length [simp]: "length (rtp_header rtpseq ms ssrc) = RTP_HEADROOM"
  by (simp add: rtp_header_def RTP_HEADROOM_def)

text \<open>Writing the headroom of a full buffer.\<close>

lemma sb_headroom_block:
  assumes wf: "sb_wf sb" and h: "length h = sb_headroom sb"
  obtains b where "memwrite (sb_bufptr sb) 0 h = Some b" "sb_block (sb\<lparr>sb_buffer := b\<rparr>) = h @ concat (sb_items sb)"
    "sb_wf (sb\<lparr>sb_buffer := b\<rparr>)"
proof -
  define b where "b = h @ drop (length h) (sb_buffer sb)"
  have w: "memwrite (sb_bufptr sb) 0 h = Some b"
    using wf h by (simp add: memwrite_def sb_bufptr_def sb_wf_def b_def)
  let ?sb = "sb\<lparr>sb_buffer := b\<rparr>"
  have wf': "sb_wf ?sb" using wf h by (simp add: sb_wf_def b_def)
  have "sb_items ?sb = sb_items sb" "take (sb_headroom ?sb) (sb_buffer ?sb) = h"
    using h by (simp_all add: sb_items_def b_def)
  then have "sb_block ?sb = h @ concat (sb_items sb)" using sb_block_items [OF wf'] by simp
  with w wf' show ?thesis using that by blast
qed

lemma rtp_send_step:
  assumes sb: "o_buffer out = Buf sb" "pktbuf RTP_MAX_TS RTP_HEADROOM sb" and r: "o_rtpreceiver out = [r]"
    and x: "length x = TS_PACKET_SIZE"
  obtains out' n' sb' where "output_send_rtp out x sec usec n = Some (out', n')"
    "o_buffer out' = Buf sb'" "pktbuf RTP_MAX_TS RTP_HEADROOM sb'"
    "o_rtpreceiver out' = [r]" "o_sockfd out' = o_sockfd out" "o_rtpssrc out' = o_rtpssrc out"
    "if Suc (length (o_items out)) < RTP_MAX_TS
     then o_items out' = o_items out @ [x] \<and> n' = n \<and> o_rtpseq out' = o_rtpseq out
     else o_items out' = [] \<and> o_rtpseq out' = o_rtpseq out + 1 \<and>
       sent_to (o_sockfd out) r (net_log n') = sent_to (o_sockfd out) r (net_log n) @
         [rtp_header (o_rtpseq out) (rtp_msec sec usec) (o_rtpssrc out) @ concat (o_items out @ [x])] \<and>
       pkts_of RTP_MAX_TS (concat (o_items out @ [x])) = o_items out @ [x] \<and>
       length (concat (o_items out @ [x])) = RTP_MAX_TS * TS_PACKET_SIZE"
proof -
  obtain sb' where a: "sb_add_atoms sb x 1 = Some (sb', 1)" "sb_wf sb'" "sb_items sb' = sb_items sb @ [x]"
    "sb_atoms sb' = RTP_MAX_TS" "sb_atomsize sb' = TS_PACKET_SIZE" "sb_headroom sb' = RTP_HEADROOM" "sb_fill sb' = sb_fill sb + 1"
    "sb_free_atoms sb' = RTP_MAX_TS - (sb_fill sb + 1)" and len: "\<forall>y \<in> set (sb_items sb'). length y = TS_PACKET_SIZE"
    by (rule pktbuf_add [OF sb(2) x])
  have it: "o_items out = sb_items sb" using sb(1) by (simp add: o_items_def)
  have f: "sb_fill sb < RTP_MAX_TS" using sb(2) by (simp add: pktbuf_def)
  show ?thesis
  proof (cases "Suc (length (o_items out)) < RTP_MAX_TS")
    case True
    let ?o = "out\<lparr>o_buffer := Buf sb'\<rparr>"
    have "output_send_rtp out x sec usec n = Some (?o, n)" using True sb(1) a it by (simp add: output_send_rtp_def)
    moreover have "pktbuf RTP_MAX_TS RTP_HEADROOM sb'" using True a it by (simp add: pktbuf_def)
    ultimately show ?thesis using that [of ?o n sb'] True a(3) it r by (simp add: o_items_def)
  next
    case False
    let ?h = "rtp_header (o_rtpseq out) (rtp_msec sec usec) (o_rtpssrc out)"
    have full: "length (sb_items sb') = RTP_MAX_TS" using False f a(3) it by simp
    have lh: "length ?h = sb_headroom sb'" using a(6) by simp
    obtain b where b: "memwrite (sb_bufptr sb') 0 ?h = Some b" "sb_block (sb'\<lparr>sb_buffer := b\<rparr>) = ?h @ concat (sb_items sb')"
      "sb_wf (sb'\<lparr>sb_buffer := b\<rparr>)"
      by (rule sb_headroom_block [OF a(2) lh])
    define sb2 where "sb2 = sb_zap (sb'\<lparr>sb_buffer := b\<rparr>)"
    let ?o = "out\<lparr>o_buffer := Buf sb2, o_rtpseq := o_rtpseq out + 1\<rparr>"
    define n' where "n' = fst (net_call (Net_sendto (o_sockfd out) (?h @ concat (sb_items sb')) (rr_sin_addr r) (rr_sin_port r)) n)"
    have "output_send_rtp out x sec usec n = Some (?o, n')"
      using False f sb(1) a it b r by (simp add: output_send_rtp_def n'_def sb2_def)
    moreover have "pktbuf RTP_MAX_TS RTP_HEADROOM sb2"
      unfolding sb2_def using a by (intro pktbuf_zap [OF b(3)]) (simp_all add: RTP_MAX_TS_def RTP_MAX_PAYLOAD_def TS_PACKET_SIZE_def)
    moreover have "pkts_of RTP_MAX_TS (concat (sb_items sb')) = sb_items sb'"
      "length (concat (sb_items sb')) = RTP_MAX_TS * TS_PACKET_SIZE"
      using pkts_of_concat [OF len full] concat_pkts_length [OF len] full by simp_all
    ultimately show ?thesis
      using that [of ?o n' sb2] False a(3) it r by (simp add: o_items_def n'_def sb2_def)
  qed
qed

interpretation rtp: batcher "rtp_ok r fd ssrc seq0" "\<lambda>x. length x = TS_PACKET_SIZE" "\<lambda>s. o_items (fst s)"
  "rtp_sent r fd" RTP_MAX_TS "rtp_put clock" for r fd ssrc seq0 clock
proof
  fix s :: "outp \<times> net" and x :: "u8 list"
  obtain out n where s: "s = (out, n)" by (cases s) auto
  show "length (o_items (fst s)) < RTP_MAX_TS" if "rtp_ok r fd ssrc seq0 s"
    using that by (auto simp: rtp_ok_def s o_items_def pktbuf_def split: bufptr.splits)
  assume "rtp_ok r fd ssrc seq0 s" and x: "length x = TS_PACKET_SIZE"
  then obtain sb where sb: "o_buffer out = Buf sb" "pktbuf RTP_MAX_TS RTP_HEADROOM sb"
    and r: "o_rtpreceiver out = [r]" "o_sockfd out = fd" "o_rtpssrc out = ssrc"
    and sq: "o_rtpseq out = seq0 + of_nat (length (sent_to fd r (net_log n)))"
    and hd: "\<forall>i < length (sent_to fd r (net_log n)). \<exists>ms.
        take RTP_HEADROOM (sent_to fd r (net_log n) ! i) = rtp_header (seq0 + of_nat i) ms ssrc"
    and ln: "\<forall>d \<in> set (sent_to fd r (net_log n)). length d = RTP_HEADROOM + RTP_MAX_TS * TS_PACKET_SIZE"
    by (auto simp: rtp_ok_def s split: bufptr.splits)
  obtain out' n' sb' where st: "output_send_rtp out x (fst (clock (net_log n))) (snd (clock (net_log n))) n = Some (out', n')"
    "o_buffer out' = Buf sb'" "pktbuf RTP_MAX_TS RTP_HEADROOM sb'"
    "o_rtpreceiver out' = [r]" "o_sockfd out' = fd" "o_rtpssrc out' = ssrc" and
    c: "if Suc (length (o_items out)) < RTP_MAX_TS
     then o_items out' = o_items out @ [x] \<and> n' = n \<and> o_rtpseq out' = o_rtpseq out
     else o_items out' = [] \<and> o_rtpseq out' = o_rtpseq out + 1 \<and>
       sent_to fd r (net_log n') = sent_to fd r (net_log n) @
         [rtp_header (o_rtpseq out) (rtp_msec (fst (clock (net_log n))) (snd (clock (net_log n)))) ssrc @ concat (o_items out @ [x])] \<and>
       pkts_of RTP_MAX_TS (concat (o_items out @ [x])) = o_items out @ [x] \<and>
       length (concat (o_items out @ [x])) = RTP_MAX_TS * TS_PACKET_SIZE"
    by (rule rtp_send_step [OF sb r(1) x, unfolded r(2,3)])
  have "rtp_ok r fd ssrc seq0 (out', n')"
    using st c sq hd ln by (auto simp: rtp_ok_def nth_append less_Suc_eq split: if_splits)
  then show "\<exists>s'. rtp_put clock x s = Some s' \<and> rtp_ok r fd ssrc seq0 s' \<and>
      (if Suc (length (o_items (fst s))) < RTP_MAX_TS then o_items (fst s') = o_items (fst s) @ [x] \<and> rtp_sent r fd s' = rtp_sent r fd s
       else o_items (fst s') = [] \<and> rtp_sent r fd s' = rtp_sent r fd s @ [o_items (fst s) @ [x]])"
    using st c by (intro exI [of _ "(out', n')"]) (auto simp: rtp_put_def s rtp_sent_def)
qed

section \<open>Properties\<close>

fun output_send_all :: "u8 list list \<Rightarrow> outst \<Rightarrow> outst option" where
  "output_send_all [] s = Some s"
| "output_send_all (tsp # tsps) (out, n, count) = do { s \<leftarrow> output_send out tsp n count; output_send_all tsps s }"

lemma output_send_all_put: "output_send_all ps s = udp.put_all ps s"
proof (induction ps arbitrary: s)
  case (Cons p ps)
  obtain out n count where "s = (out, n, count)" by (cases s) auto
  moreover have "udp_put p (out, n, count) = output_send out p n count" by (simp add: udp_put_def)
  ultimately show ?case using Cons by (cases "output_send out p n count") simp_all
qed simp

lemma udp_run:
  assumes ok: "udp_ok_on fd (out, n, count)" and ps: "\<forall>p \<in> set ps. length p = TS_PACKET_SIZE"
  obtains out' n' count' bs where "output_send_all ps (out, n, count) = Some (out', n', count')"
    "udp_ok_on fd (out', n', count')" "sent_on fd (net_log n') = sent_on fd (net_log n) @ map concat bs"
    "\<forall>b \<in> set bs. length b = UDP_MAX_TS" "concat bs @ o_items out' = o_items out @ ps"
    "length (o_items out') < UDP_MAX_TS"
proof -
  obtain s' bs where r: "udp.put_all ps (out, n, count) = Some s'" "udp_ok_on fd s'"
    "udp_sent fd s' = udp_sent fd (out, n, count) @ bs" "\<forall>b \<in> set bs. length b = UDP_MAX_TS"
    "concat bs @ o_items (fst s') = o_items out @ ps"
    using udp.put_all_batches [OF ok ps] by auto
  obtain out' n' count' where s': "s' = (out', n', count')" by (cases s') auto
  have c: "map concat (udp_sent fd s) = sent_on fd (net_log (fst (snd s)))" if "udp_ok_on fd s" for s
    using that by (auto simp: udp_sent_def udp_ok_on_def concat_pkts_of comp_def split_beta intro!: map_idI)
  have "sent_on fd (net_log n') = sent_on fd (net_log n) @ map concat bs"
    using c [OF r(2)] c [OF ok] arg_cong [OF r(3), of "map concat"] s' by simp
  then show ?thesis
    using that [of out' n' count' bs] r s' udp.queued_bound [OF r(2)] by (simp add: output_send_all_put)
qed

text \<open>What a UDP output sends: packets leave in their order, none lost or doubled, in datagrams
  of exactly seven, and fewer than seven wait in the buffer.  This does not depend on the
  results of the \<^verbatim>\<open>send\<close> calls.\<close>

theorem udp_datagrams:
  assumes "udp_ok_on fd (out, n, count)" "\<forall>p \<in> set ps. length p = TS_PACKET_SIZE"
  shows "\<exists>out' n' count' bs. output_send_all ps (out, n, count) = Some (out', n', count') \<and>
    sent_on fd (net_log n') = sent_on fd (net_log n) @ map concat bs \<and>
    (\<forall>b \<in> set bs. length b = 7) \<and> concat bs @ o_items out' = o_items out @ ps \<and> length (o_items out') < 7"
proof -
  have "UDP_MAX_TS = 7" by (simp add: UDP_MAX_TS_def TS_PACKET_SIZE_def)
  then show ?thesis by - (rule udp_run [OF assms], simp, blast)
qed

definition example_net :: net where
  "example_net = \<lparr>net_log = [], net_ret = \<lambda>l. int (length l) - 1, net_sid = 1\<rparr>"

definition example_out :: outp where
  "example_out = \<lparr>o_type = OTYPE_UDP, o_buffer = Buf (sb_init [] 7 188 0), o_remoteaddr = Some ''224.1.1.1'', o_remoteport = 1234,
     o_ttl = 15, o_localaddr = None, o_sap = None, o_receiver = 1, o_sockfd = 5, o_rtpreceiver = [], o_rtpseq = 0,
     o_rtpssrc = 0, o_rtpport = 0, o_pipe_filename = [], o_pipe_fd = -1, o_pipe_event = None, o_klkstat = True\<rparr>"

lemma example_out_ok: "udp_ok_on 5 (example_out, example_net, 0)" "o_items example_out = []" "sent_on 5 (net_log example_net) = []"
  using pktbuf_init [of 7 0 "[]"]
  by (simp_all add: udp_ok_on_def udp_ok_def example_out_def example_net_def UDP_MAX_TS_def TS_PACKET_SIZE_def o_items_def sb_init_wf)

theorem udp_datagrams_witness:
  "\<exists>out' n' count' bs. output_send_all (replicate 15 (replicate 188 0x47)) (example_out, example_net, 0) = Some (out', n', count') \<and>
    sent_on 5 (net_log n') = map concat bs \<and> concat bs @ o_items out' = replicate 15 (replicate 188 0x47)"
  using udp_datagrams [OF example_out_ok(1), of "replicate 15 (replicate 188 0x47)"] example_out_ok
  by (simp only: length_replicate TS_PACKET_SIZE_def set_replicate_conv_if ball_simps) (simp del: replicate.simps, blast)

fun rtp_send_all :: "(netcall list \<Rightarrow> int \<times> int) \<Rightarrow> u8 list list \<Rightarrow> outp \<times> net \<Rightarrow> (outp \<times> net) option" where
  "rtp_send_all clock [] s = Some s"
| "rtp_send_all clock (tsp # tsps) (out, n) = do {
     s \<leftarrow> output_send_rtp out tsp (fst (clock (net_log n))) (snd (clock (net_log n))) n;
     rtp_send_all clock tsps s
   }"

lemma rtp_send_all_put: "rtp_send_all clock ps s = rtp.put_all clock ps s"
proof (induction ps arbitrary: s)
  case (Cons p ps)
  obtain out n where "s = (out, n)" by (cases s) auto
  moreover have "rtp_put clock p (out, n) = output_send_rtp out p (fst (clock (net_log n))) (snd (clock (net_log n))) n"
    by (simp add: rtp_put_def)
  ultimately show ?case
    using Cons by (cases "output_send_rtp out p (fst (clock (net_log n))) (snd (clock (net_log n))) n") simp_all
qed simp

text \<open>C38: What an RTP output that has not sent anything sends to its receiver: the \<open>k\<close>-th datagram
  has the header with sequence number \<open>k\<close> more than the first, modulo \<open>2\<^sup>1\<^sup>6\<close>, and the output's
  source identifier, and carries the next five packets.\<close>

theorem rtp_numbered:
  assumes buf: "o_buffer out = Buf sb" "pktbuf RTP_MAX_TS RTP_HEADROOM sb" and r: "o_rtpreceiver out = [r]"
    and fresh: "sent_to (o_sockfd out) r (net_log n) = []" and ps: "\<forall>p \<in> set ps. length p = TS_PACKET_SIZE"
  shows "\<exists>out' n' bs mss. rtp_send_all clock ps (out, n) = Some (out', n') \<and>
    length bs = (length (o_items out) + length ps) div 5 \<and> length mss = length bs \<and>
    sent_to (o_sockfd out) r (net_log n') =
      map (\<lambda>k. rtp_header (o_rtpseq out + of_nat k) (mss ! k) (o_rtpssrc out) @ concat (bs ! k)) [0..<length bs] \<and>
    (\<forall>b \<in> set bs. length b = 5) \<and> concat bs @ o_items out' = o_items out @ ps"
proof -
  let ?fd = "o_sockfd out" and ?q = "o_rtpseq out" and ?ssrc = "o_rtpssrc out"
  have five: "RTP_MAX_TS = 5" by (simp add: RTP_MAX_TS_def RTP_MAX_PAYLOAD_def TS_PACKET_SIZE_def)
  have ok: "rtp_ok r ?fd ?ssrc ?q (out, n)" using assms by (simp add: rtp_ok_def)
  obtain s' bs where st: "rtp.put_all clock ps (out, n) = Some s'" "rtp_ok r ?fd ?ssrc ?q s'"
    "rtp_sent r ?fd s' = rtp_sent r ?fd (out, n) @ bs" "\<forall>b \<in> set bs. length b = RTP_MAX_TS"
    "concat bs @ o_items (fst s') = o_items (fst (out, n)) @ ps"
    using rtp.put_all_batches [OF ok ps] by blast
  obtain out' n' where s': "s' = (out', n')" by (cases s') auto
  define ds where "ds = sent_to ?fd r (net_log n')"
  have bs: "bs = map (\<lambda>d. pkts_of RTP_MAX_TS (drop RTP_HEADROOM d)) ds"
    using st(3) fresh by (simp add: rtp_sent_def s' ds_def)
  have hd: "\<forall>i < length ds. \<exists>ms. take RTP_HEADROOM (ds ! i) = rtp_header (?q + of_nat i) ms ?ssrc"
    and ln: "\<forall>d \<in> set ds. length d = RTP_HEADROOM + RTP_MAX_TS * TS_PACKET_SIZE"
    using st(2) by (simp_all add: rtp_ok_def s' ds_def)
  obtain ms where ms: "\<forall>i < length ds. take RTP_HEADROOM (ds ! i) = rtp_header (?q + of_nat i) (ms i) ?ssrc"
    using hd by metis
  have d: "ds ! k = rtp_header (?q + of_nat k) (ms k) ?ssrc @ concat (bs ! k)" if k: "k < length ds" for k
  proof -
    have "concat (bs ! k) = drop RTP_HEADROOM (ds ! k)" using k ln by (simp add: bs concat_pkts_of)
    then show ?thesis using ms k append_take_drop_id [of RTP_HEADROOM "ds ! k"] by simp
  qed
  have lb: "length bs = length ds" by (simp add: bs)
  have "ds = map (\<lambda>k. rtp_header (?q + of_nat k) (map ms [0..<length bs] ! k) ?ssrc @ concat (bs ! k)) [0..<length bs]"
    using d lb by (intro nth_equalityI) simp_all
  moreover have "length bs = (length (o_items out) + length ps) div 5"
    using rtp.put_all_count [OF ok ps st(1)] st(3) five by simp
  ultimately show ?thesis
    using st(1,4,5) by (intro exI [of _ out'] exI [of _ n'] exI [of _ bs] exI [of _ "map ms [0..<length bs]"])
      (simp add: rtp_send_all_put s' ds_def five)
qed

theorem rtp_numbered_witness:
  "\<exists>out' n' bs. rtp_send_all (\<lambda>_. (1, 2)) (replicate 11 (replicate 188 0x47))
      (example_out\<lparr>o_buffer := Buf (sb_init [] RTP_MAX_TS TS_PACKET_SIZE RTP_HEADROOM), o_rtpseq := 65535,
        o_rtpreceiver := [\<lparr>rr_addr = [], rr_port = 1, rr_sin_addr = 1, rr_sin_port = 1, rr_lastrr = 0, rr_ssrc = 0\<rparr>]\<rparr>, example_net) =
      Some (out', n') \<and> length (bs :: u8 list list list) = 2 \<and> concat bs @ o_items out' = replicate 11 (replicate 188 0x47)"
  (is "\<exists>out' n' bs. rtp_send_all ?c ?ps (?out, _) = _ \<and> _ \<and> _")
proof -
  let ?r = "\<lparr>rr_addr = [], rr_port = 1, rr_sin_addr = 1, rr_sin_port = 1, rr_lastrr = 0, rr_ssrc = 0\<rparr>"
  have "o_buffer ?out = Buf (sb_init [] RTP_MAX_TS TS_PACKET_SIZE RTP_HEADROOM)" "o_rtpreceiver ?out = [?r]" "o_items ?out = []"
    "sent_to (o_sockfd ?out) ?r (net_log example_net) = []" "\<forall>p \<in> set ?ps. length p = TS_PACKET_SIZE"
    by (simp_all add: example_net_def TS_PACKET_SIZE_def o_items_def sb_init_wf)
  moreover have "pktbuf RTP_MAX_TS RTP_HEADROOM (sb_init [] RTP_MAX_TS TS_PACKET_SIZE RTP_HEADROOM)"
    by (rule pktbuf_init) (simp add: RTP_MAX_TS_def RTP_MAX_PAYLOAD_def TS_PACKET_SIZE_def)
  ultimately obtain out' n' bs where "rtp_send_all ?c ?ps (?out, example_net) = Some (out', n')"
    "length bs = (length (o_items ?out) + length ?ps) div 5" "concat bs @ o_items out' = o_items ?out @ ?ps"
    using rtp_numbered [of ?out "sb_init [] RTP_MAX_TS TS_PACKET_SIZE RTP_HEADROOM" ?r example_net ?ps ?c] by blast
  moreover have "length ?ps = 11" "o_items ?out = []" by (simp_all add: o_items_def sb_init_wf)
  ultimately have "rtp_send_all ?c ?ps (?out, example_net) = Some (out', n') \<and> length bs = 2 \<and> concat bs @ o_items out' = ?ps"
    by simp
  then show ?thesis by blast
qed

text \<open>Opening a UDP output either works, and then it has one socket more, an empty buffer for
  seven packets and takes packets, and closing it frees the buffer and closes the socket; or it
  fails, and then no socket stays open and it takes no packets, but the pointer to the freed
  buffer stays, so closing the output, which the stream does for all of its outputs, frees it
  again.\<close>

theorem udp_init_outcome:
  assumes fresh: "net_fresh n" and init: "output_init_udp junk out n = Some (out', n', ok)"
  shows "if ok
    then o_receiver out' = 1 \<and> o_sockfd out' \<notin> open_socks n \<and> open_socks n' = insert (o_sockfd out') (open_socks n) \<and>
      (\<exists>sb. o_buffer out' = Buf sb \<and> pktbuf 7 0 sb \<and> sb_items sb = []) \<and>
      (\<exists>out2 n2. output_deinit_udp out' n' = Some (out2, n2) \<and> open_socks n2 = open_socks n)
    else o_receiver out' = o_receiver out \<and> open_socks n' = open_socks n \<and> (\<forall>m. output_deinit_udp out' m = None)"
proof -
  have U: "UDP_MAX_TS = 7" by (simp add: UDP_MAX_TS_def TS_PACKET_SIZE_def)
  define o1 where "o1 = out\<lparr>o_buffer := Buf (sb_init junk UDP_MAX_TS TS_PACKET_SIZE 0)\<rparr>"
  obtain n1 fd where op: "socket_open (o_localaddr out) 0 n = (n1, fd)" by fastforce
  have s1: "open_socks n1 = (if fd < 0 then open_socks n else insert fd (open_socks n))"
    using socket_open_socks [OF fresh, of "o_localaddr out" 0] by (simp add: op)
  have free: "\<forall>m. output_deinit_udp (x\<lparr>o_buffer := Buf_freed\<rparr>) m = None" for x
    by (cases "o_remoteaddr x") (simp_all add: output_deinit_udp_def Let_def)
  show ?thesis
  proof (cases "fd < 0")
    case True
    then have "out' = o1\<lparr>o_sockfd := fd\<rparr>\<lparr>o_buffer := Buf_freed\<rparr>" "n' = n1" "\<not> ok"
      using init op by (simp_all add: output_init_udp_def o1_def)
    then show ?thesis using s1 True free by (simp add: o1_def)
  next
    case False
    have notin: "fd \<notin> open_socks n"
      using fresh False op by (auto simp: net_fresh_def socket_open_def Let_def split_beta split: if_splits)
    define n2 where "n2 = fst (socket_set_nonblock fd n1)"
    obtain n3 r where cn: "socket_connect fd (o_remoteaddr out) (o_remoteport out) n2 = (n3, r)" by fastforce
    have s3: "open_socks n3 = insert fd (open_socks n)"
    proof -
      have "n3 = fst (socket_connect fd (o_remoteaddr out) (o_remoteport out) n2)" by (simp add: cn)
      then show ?thesis using s1 False by (simp add: n2_def)
    qed
    show ?thesis
    proof (cases "r = 0")
      case False': False
      then have "out' = o1\<lparr>o_sockfd := fd\<rparr>\<lparr>o_buffer := Buf_freed\<rparr>" "n' = socket_close fd n3" "\<not> ok"
        using init False cn op by (simp_all add: output_init_udp_def o1_def n2_def)
      then show ?thesis using s3 free notin by (simp add: o1_def)
    next
      case True
      obtain addr where ad: "o_remoteaddr out = Some addr"
        using init False True cn op by (cases "o_remoteaddr out") (simp_all add: output_init_udp_def n2_def)
      have e: "out' = o1\<lparr>o_sockfd := fd\<rparr>\<lparr>o_receiver := 1\<rparr>" "ok"
        "n' = (let m = fst (socket_join_multicast fd addr n3) in if o_ttl out \<noteq> 0 then fst (socket_set_ttl fd (o_ttl out) m) else m)"
        using init False True cn op ad by (auto simp: output_init_udp_def n2_def o1_def Let_def)
      have s': "open_socks n' = insert fd (open_socks n)" using s3 by (simp add: e(3) Let_def)
      have "\<exists>out2 n2. output_deinit_udp out' n' = Some (out2, n2) \<and> open_socks n2 = open_socks n"
        using False ad s' notin by (simp add: e(1) output_deinit_udp_def o1_def Let_def)
      moreover have "pktbuf 7 0 (sb_init junk UDP_MAX_TS TS_PACKET_SIZE 0)" unfolding U by (rule pktbuf_init) simp
      ultimately show ?thesis using e(1,2) s' notin by (simp add: o1_def sb_init_wf)
    qed
  qed
qed

theorem udp_init_outcome_witness:
  "\<exists>out' n'. output_init_udp [] example_out (example_net\<lparr>net_ret := \<lambda>l. if length l = 2 then -1 else 5\<rparr>) = Some (out', n', False) \<and>
    output_deinit_udp out' n' = None"
proof -
  let ?n = "example_net\<lparr>net_ret := \<lambda>l. if length l = 2 then -1 else 5\<rparr>"
  have "net_fresh ?n" by (simp add: net_fresh_def open_socks_def example_net_def)
  moreover obtain out' n' where "output_init_udp [] example_out ?n = Some (out', n', False)"
    by (simp add: output_init_udp_def socket_open_def net_call_def example_net_def example_out_def)
  ultimately show ?thesis using udp_init_outcome [of ?n "[]" example_out out' n' False] by simp
qed

end
