(* ===== verification/Pipe.thy ===== *)
theory Pipe
  imports Output
begin

text \<open>
  The output into a named pipe, \<^verbatim>\<open>output_pipe.c\<close>.  It collects bytes and offers all it has
  to the reader after every packet; it tries to open the pipe every five seconds until there
  is a reader.

  The result of \<^verbatim>\<open>write\<close> is the number of bytes taken, or the negated \<^verbatim>\<open>errno\<close>.  \<open>None\<close>
  stands for a use of a buffer that is not there, or a count of more bytes than were offered.
\<close>

definition PIPE_BUFFER :: nat where "PIPE_BUFFER = 32768"
definition PIPE_INTERVAL :: int where "PIPE_INTERVAL = 5"
definition EAGAIN :: int where "EAGAIN = 11"

definition output_pipe_event_init :: "outp \<Rightarrow> outp" where
  "output_pipe_event_init out = out\<lparr>o_pipe_event := Some PIPE_INTERVAL\<rparr>"

definition output_pipe_tryopen :: "outp \<Rightarrow> net \<Rightarrow> (outp \<times> net \<times> bool) option" where
  "output_pipe_tryopen out n =
     (let (n, fd) = net_call (Net_open (o_pipe_filename out)) n;
          out = out\<lparr>o_pipe_fd := fd\<rparr>
      in if fd \<ge> 0 then do {
           let out = out\<lparr>o_receiver := o_receiver out + 1\<rparr>;
           sb \<leftarrow> buf_get (o_buffer out);
           Some (out\<lparr>o_buffer := Buf (sb_zap sb)\<rparr>, n, True)
         }
         else Some (out, n, False))"

text \<open>The timer has fired, so it is not pending any more.\<close>

definition output_pipe_open_event :: "outp \<Rightarrow> net \<Rightarrow> (outp \<times> net) option" where
  "output_pipe_open_event out n = do {
     (out, n, ok) \<leftarrow> output_pipe_tryopen (out\<lparr>o_pipe_event := None\<rparr>) n;
     Some (if ok then out else output_pipe_event_init out, n)
   }"

definition output_pipe_close :: "outp \<Rightarrow> net \<Rightarrow> outp \<times> net" where
  "output_pipe_close out n =
     (let out = out\<lparr>o_receiver := o_receiver out - 1\<rparr>;
          n = fst (net_call (Net_close (o_pipe_fd out)) n)
      in (output_pipe_event_init out, n))"

text \<open>\<open>lstat\<close> is the result of \<^verbatim>\<open>lstat\<close>: whether the file is a pipe, or \<open>None\<close>; \<open>mknod\<close> whether
  making the pipe works.\<close>

definition output_init_pipe :: "u8 list \<Rightarrow> (string \<Rightarrow> bool option) \<Rightarrow> (string \<Rightarrow> bool) \<Rightarrow> outp \<Rightarrow> outp \<times> bool" where
  "output_init_pipe junk lstat mknod out =
     (if (case lstat (o_pipe_filename out) of Some fifo \<Rightarrow> fifo | None \<Rightarrow> mknod (o_pipe_filename out))
      then (output_pipe_event_init (out\<lparr>o_buffer := Buf (sb_init junk PIPE_BUFFER 1 0)\<rparr>), True)
      else (out, False))"

definition output_send_pipe :: "outp \<Rightarrow> u8 list \<Rightarrow> net \<Rightarrow> (outp \<times> net) option" where
  "output_send_pipe out tsp n = do {
     sb \<leftarrow> buf_get (o_buffer out);
     if sb_free_atoms sb < TS_PACKET_SIZE then Some (output_pipe_close out n)
     else do {
       (sb, _) \<leftarrow> sb_add_atoms sb tsp TS_PACKET_SIZE;
       let out = out\<lparr>o_buffer := Buf sb\<rparr>;
       let (n, len) = net_call (Net_write (o_pipe_fd out) (sb_block sb)) n;
       if len < 0 then if len = - EAGAIN then Some (out, n) else Some (output_pipe_close out n)
       else do {
         sb \<leftarrow> sb_drop_atoms sb (nat len);
         Some (out\<lparr>o_buffer := Buf sb\<rparr>, n)
       }
     }
   }"

section \<open>The bytes of the pipe\<close>

definition bytebuf :: "simplebuffer \<Rightarrow> bool" where
  "bytebuf sb \<longleftrightarrow> sb_wf sb \<and> sb_atoms sb = PIPE_BUFFER \<and> sb_atomsize sb = 1 \<and> sb_headroom sb = 0"

definition o_bytes :: "outp \<Rightarrow> u8 list" where
  "o_bytes out = (case o_buffer out of Buf sb \<Rightarrow> sb_block sb | _ \<Rightarrow> [])"

lemma slots_1: "n \<le> length xs \<Longrightarrow> slots 1 xs n = map (\<lambda>x. [x]) (take n xs)"
  by (rule nth_equalityI) (auto simp: slots_nth take_Suc_conv_app_nth hd_drop_conv_nth take_Suc hd_conv_nth)

lemma bytebuf_length: "bytebuf sb \<Longrightarrow> length (sb_block sb) = sb_fill sb"
  by (simp add: bytebuf_def sb_block_def sb_buflen_def sb_bufptr_def sb_wf_def)

lemma bytebuf_block: "bytebuf sb \<Longrightarrow> sb_block sb = concat (sb_items sb)"
  using sb_block_items [of sb] by (simp add: bytebuf_def)

lemma bytebuf_init: "bytebuf (sb_init junk PIPE_BUFFER 1 0)"
  by (simp add: bytebuf_def sb_init_wf) (simp add: sb_init_def Let_def)

lemma bytebuf_items: "bytebuf sb \<Longrightarrow> sb_items sb = map (\<lambda>x. [x]) (sb_block sb)"
proof -
  assume b: "bytebuf sb"
  then have "sb_fill sb \<le> length (sb_buffer sb)" by (simp add: bytebuf_def sb_wf_def)
  then show ?thesis using b slots_1 [of "sb_fill sb" "sb_buffer sb"]
    by (simp add: sb_items_def bytebuf_def sb_block_def sb_buflen_def sb_bufptr_def)
qed

lemma bytebuf_add:
  assumes b: "bytebuf sb" and x: "length x = TS_PACKET_SIZE" and room: "TS_PACKET_SIZE \<le> sb_free_atoms sb"
  obtains sb' k where "sb_add_atoms sb x TS_PACKET_SIZE = Some (sb', k)" "bytebuf sb'" "sb_block sb' = sb_block sb @ x"
proof -
  have m: "min TS_PACKET_SIZE (sb_atoms sb - sb_fill sb) = TS_PACKET_SIZE" using room by (simp add: sb_free_atoms_def)
  have wf: "sb_wf sb" "TS_PACKET_SIZE * sb_atomsize sb \<le> length x" using b x by (simp_all add: bytebuf_def)
  obtain sb' where a: "sb_add_atoms sb x TS_PACKET_SIZE = Some (sb', TS_PACKET_SIZE)" "sb_wf sb'"
    "sb_items sb' = sb_items sb @ slots (sb_atomsize sb) x TS_PACKET_SIZE"
    "sb_atoms sb' = sb_atoms sb" "sb_atomsize sb' = sb_atomsize sb" "sb_headroom sb' = sb_headroom sb"
    by (rule sb_add [OF wf]) (simp only: m)
  have b': "bytebuf sb'" using a b by (simp add: bytebuf_def)
  have "concat (slots 1 x TS_PACKET_SIZE) = x" using concat_slots [of TS_PACKET_SIZE 1 x] x by simp
  then have "sb_block sb' = sb_block sb @ x"
    using a b b' bytebuf_block [OF b] bytebuf_block [OF b'] by (simp add: bytebuf_def)
  then show ?thesis using that a(1) b' by blast
qed

lemma bytebuf_drop:
  assumes b: "bytebuf sb" and k: "k \<le> length (sb_block sb)"
  obtains sb' where "sb_drop_atoms sb k = Some sb'" "bytebuf sb'" "sb_block sb' = drop k (sb_block sb)"
proof -
  have wf: "sb_wf sb" "k \<le> sb_fill sb" using b k bytebuf_length [OF b] by (simp_all add: bytebuf_def)
  obtain sb' where d: "sb_drop_atoms sb k = Some sb'" "sb_wf sb'" "sb_items sb' = drop k (sb_items sb)"
    "sb_atoms sb' = sb_atoms sb" "sb_atomsize sb' = sb_atomsize sb" "sb_headroom sb' = sb_headroom sb"
    by (rule sb_drop [OF wf])
  have b': "bytebuf sb'" using d b by (simp add: bytebuf_def)
  have "concat (drop k (map (\<lambda>x. [x]) ys)) = drop k ys" for ys :: "u8 list"
    by (simp add: drop_map)
  then have "sb_block sb' = drop k (sb_block sb)"
    using d(3) bytebuf_block [OF b'] bytebuf_items [OF b] by simp
  then show ?thesis using that d(1) b' by blast
qed

section \<open>Properties\<close>

text \<open>One packet into a pipe: it is refused, and the pipe closed, when it does not fit behind
  what waits; otherwise everything that waits and the packet are offered in order.  What the
  reader took leaves the buffer, the rest stays in order; when the reader is not ready all of
  it stays, and after any other error the pipe is closed and the timer for opening it set.\<close>

theorem pipe_send_step:
  assumes buf: "o_buffer out = Buf sb" "bytebuf sb" and x: "length x = TS_PACKET_SIZE"
    and d: "d = o_bytes out @ x" and r: "r = net_ret n (net_log n @ [Net_write (o_pipe_fd out) d])" "r \<le> int (length d)"
  shows "\<exists>out' n' sb'. output_send_pipe out x n = Some (out', n') \<and> o_buffer out' = Buf sb' \<and> bytebuf sb' \<and>
    (if length d > PIPE_BUFFER
     then o_bytes out' = o_bytes out \<and> net_log n' = net_log n @ [Net_close (o_pipe_fd out)] \<and>
       o_receiver out' = o_receiver out - 1 \<and> o_pipe_event out' = Some 5
     else if 0 \<le> r
     then d = take (nat r) d @ o_bytes out' \<and> net_log n' = net_log n @ [Net_write (o_pipe_fd out) d] \<and>
       o_receiver out' = o_receiver out
     else if r = - EAGAIN
     then o_bytes out' = d \<and> net_log n' = net_log n @ [Net_write (o_pipe_fd out) d] \<and> o_receiver out' = o_receiver out
     else net_log n' = net_log n @ [Net_write (o_pipe_fd out) d, Net_close (o_pipe_fd out)] \<and>
       o_receiver out' = o_receiver out - 1 \<and> o_pipe_event out' = Some 5)"
proof -
  have ob: "o_bytes out = sb_block sb" using buf by (simp add: o_bytes_def)
  have fill: "length (o_bytes out) = sb_fill sb" using bytebuf_length [OF buf(2)] ob by simp
  have at: "sb_atoms sb = PIPE_BUFFER" "sb_fill sb \<le> PIPE_BUFFER" using buf(2) by (simp_all add: bytebuf_def sb_wf_def)
  have full: "sb_free_atoms sb < TS_PACKET_SIZE \<longleftrightarrow> length d > PIPE_BUFFER"
    using at fill x d by (simp add: sb_free_atoms_def) linarith
  show ?thesis
  proof (cases "length d > PIPE_BUFFER")
    case True
    then have "output_send_pipe out x n = Some (output_pipe_close out n)" using full buf by (simp add: output_send_pipe_def)
    moreover obtain out' n' where c: "output_pipe_close out n = (out', n')" by fastforce
    moreover from c have "o_buffer out' = Buf sb" "o_bytes out' = o_bytes out" "net_log n' = net_log n @ [Net_close (o_pipe_fd out)]"
      "o_receiver out' = o_receiver out - 1" "o_pipe_event out' = Some 5"
      using buf(1) by (auto simp: output_pipe_close_def Let_def output_pipe_event_init_def o_bytes_def PIPE_INTERVAL_def)
    ultimately show ?thesis using buf(2) True by (intro exI [of _ out'] exI [of _ n'] exI [of _ sb]) simp
  next
    case False
    then have nf: "\<not> sb_free_atoms sb < TS_PACKET_SIZE" using full by blast
    then obtain sb1 k where a: "sb_add_atoms sb x TS_PACKET_SIZE = Some (sb1, k)" "bytebuf sb1" "sb_block sb1 = d"
      using bytebuf_add [OF buf(2) x] ob d by (metis not_less)
    define n1 where "n1 = fst (net_call (Net_write (o_pipe_fd out) d) n)"
    have n1: "net_call (Net_write (o_pipe_fd out) d) n = (n1, r)" "net_log n1 = net_log n @ [Net_write (o_pipe_fd out) d]"
      by (simp_all add: n1_def prod_eq_iff r(1))
    have e: "output_send_pipe out x n =
      (let out = out\<lparr>o_buffer := Buf sb1\<rparr> in
       if r < 0 then if r = - EAGAIN then Some (out, n1) else Some (output_pipe_close out n1)
       else do { sb \<leftarrow> sb_drop_atoms sb1 (nat r); Some (out\<lparr>o_buffer := Buf sb\<rparr>, n1) })"
      using nf buf a n1 by (simp add: output_send_pipe_def)
    consider "0 \<le> r" | "r < 0" "r = - EAGAIN" | "r < 0" "r \<noteq> - EAGAIN" by linarith
    then show ?thesis
    proof cases
      case 1
      have "nat r \<le> length (sb_block sb1)" unfolding a(3) using 1 r(2) by linarith
      then obtain sb2 where "sb_drop_atoms sb1 (nat r) = Some sb2" "bytebuf sb2" "sb_block sb2 = drop (nat r) (sb_block sb1)"
        by (rule bytebuf_drop [OF a(2)])
      then show ?thesis
        using 1 e n1 a(3) False
        by (intro exI [of _ "out\<lparr>o_buffer := Buf sb2\<rparr>"] exI [of _ n1] exI [of _ sb2]) (simp add: o_bytes_def)
    next
      case 2
      then show ?thesis
        using e n1 a False by (intro exI [of _ "out\<lparr>o_buffer := Buf sb1\<rparr>"] exI [of _ n1] exI [of _ sb1]) (simp add: o_bytes_def)
    next
      case 3
      obtain out' n' where c: "output_pipe_close (out\<lparr>o_buffer := Buf sb1\<rparr>) n1 = (out', n')" by fastforce
      then have "o_buffer out' = Buf sb1" "net_log n' = net_log n @ [Net_write (o_pipe_fd out) d, Net_close (o_pipe_fd out)]"
        "o_receiver out' = o_receiver out - 1" "o_pipe_event out' = Some 5"
        using n1(2) by (auto simp: output_pipe_close_def Let_def output_pipe_event_init_def PIPE_INTERVAL_def)
      then show ?thesis
        using 3 e c a(2) False by (intro exI [of _ out'] exI [of _ n'] exI [of _ sb1]) simp
    qed
  qed
qed

theorem pipe_send_step_witness:
  "\<exists>out' n'. output_send_pipe (example_out\<lparr>o_buffer := Buf (sb_init [] PIPE_BUFFER 1 0)\<rparr>) (replicate 188 0x47)
      (example_net\<lparr>net_ret := \<lambda>_. 100\<rparr>) = Some (out', n') \<and> replicate 188 0x47 = replicate 100 0x47 @ o_bytes out'"
proof -
  let ?out = "example_out\<lparr>o_buffer := Buf (sb_init [] PIPE_BUFFER 1 0)\<rparr>" and ?n = "example_net\<lparr>net_ret := \<lambda>_. 100\<rparr>"
    and ?x = "replicate 188 0x47 :: u8 list"
  have b: "o_buffer ?out = Buf (sb_init [] PIPE_BUFFER 1 0)" "o_bytes ?out = []" "length ?x = TS_PACKET_SIZE"
    by (simp_all add: o_bytes_def sb_block_def sb_buflen_def sb_init_def Let_def TS_PACKET_SIZE_def)
  have t: "take 100 ?x = replicate 100 0x47" by (simp only: take_replicate) simp
  show ?thesis
    using pipe_send_step [OF b(1) bytebuf_init b(3), of ?x 100 ?n] b(2) t
    by (simp add: PIPE_BUFFER_def del: replicate.simps) blast
qed

end
