(* ===== verification/Stream.thy ===== *)
theory Stream
  imports Output Dispatch
begin

text \<open>
  The streams, \<^verbatim>\<open>stream.c\<close> and \<^verbatim>\<open>input.c\<close>: a stream hands every packet that its inputs
  deliver to all of its outputs, and sends a program association table of its own every half
  second.

  A stream is known to the adapter by a number; \<open>CB_external n\<close> is \<^verbatim>\<open>stream_send\<close> with stream
  \<open>n\<close> as its argument.  \<open>system_deliver\<close> composes adapter and streams: it gives each stream the
  packets that the adapter has logged for it, in the order of the log.  In the program the call
  happens where the adapter logs it; a stream never touches the adapter then.

  \<open>None\<close> stands for what it stands for in the outputs, and for a use of the program of a
  program input that has not been joined or has been freed.
\<close>

section \<open>Inputs\<close>

datatype input_type = INPUT_NONE | INPUT_PID | INPUT_PNR | INPUT_FULL

record input =
  in_type :: input_type
  in_pid :: nat
  in_cbkey :: "cookie option"
  in_pnr :: nat
  in_program :: "progid option"

definition input_init_pnr :: "nat \<Rightarrow> input \<Rightarrow> adapter \<Rightarrow> (input \<times> adapter) option" where
  "input_init_pnr stream inp a = do {
     (p, a) \<leftarrow> pmt_join_pnr (in_pnr inp) stream a;
     Some (inp\<lparr>in_program := Some p\<rparr>, a)
   }"

definition input_init_pid :: "nat \<Rightarrow> input \<Rightarrow> adapter \<Rightarrow> (input \<times> adapter) option" where
  "input_init_pid stream inp a = do {
     (c, a) \<leftarrow> dvr_add_pcb a (in_pid inp) DVRCB_TS PID_STATIC (CB_external stream);
     Some (inp\<lparr>in_cbkey := Some c\<rparr>, a)
   }"

definition input_init_full :: "nat \<Rightarrow> input \<Rightarrow> adapter \<Rightarrow> (input \<times> adapter) option" where
  "input_init_full stream inp a = do {
     (c, a) \<leftarrow> dvr_add_pcb a (PID_MAX + 1) DVRCB_TS PID_STATIC (CB_external stream);
     Some (inp\<lparr>in_cbkey := Some c\<rparr>, a)
   }"

definition input_init :: "nat \<Rightarrow> input \<Rightarrow> adapter \<Rightarrow> (input \<times> adapter) option" where
  "input_init stream inp a =
     (case in_type inp of
        INPUT_PNR \<Rightarrow> input_init_pnr stream inp a
      | INPUT_PID \<Rightarrow> input_init_pid stream inp a
      | INPUT_FULL \<Rightarrow> input_init_full stream inp a
      | INPUT_NONE \<Rightarrow> Some (inp, a))"

text \<open>Whatever the type of the input, it leaves a program.\<close>

definition input_deinit :: "input \<Rightarrow> adapter \<Rightarrow> adapter option" where
  "input_deinit inp a = pmt_leave_pnr (in_pnr inp) a"

section \<open>Streams\<close>

record stream =
  st_name :: "string option"
  st_output :: "outp list"
  st_input :: "input list"
  st_psineeded :: bool
  st_patcc :: nat
  st_patevent :: "(int \<times> int) option"
  st_klkcount :: nat

fun stream_outputs :: "outp list \<Rightarrow> u8 list \<Rightarrow> net \<Rightarrow> nat \<Rightarrow> (outp list \<times> net \<times> nat) option" where
  "stream_outputs [] tsp n count = Some ([], n, count)"
| "stream_outputs (out # ol) tsp n count = do {
     (out, n, count) \<leftarrow> output_send out tsp n count;
     (ol, n, count) \<leftarrow> stream_outputs ol tsp n count;
     Some (out # ol, n, count)
   }"

definition stream_send :: "u8 list \<Rightarrow> stream \<times> net \<Rightarrow> (stream \<times> net) option" where
  "stream_send tsp = (\<lambda>(st, n). do {
     (ol, n, count) \<leftarrow> stream_outputs (st_output st) tsp n (st_klkcount st);
     Some (st\<lparr>st_output := ol, st_klkcount := count\<rparr>, n)
   })"

definition PAT_INTERVAL :: int where "PAT_INTERVAL = 500"

definition TS_CC_MASK :: nat where "TS_CC_MASK = 0xf"

definition stream_init_pat :: "stream \<Rightarrow> stream" where
  "stream_init_pat st = st\<lparr>st_patevent := Some (0, PAT_INTERVAL * 1000)\<rparr>"

fun stream_programs :: "input list \<Rightarrow> (progid \<rightharpoonup> program) \<Rightarrow> pat \<Rightarrow> pat option" where
  "stream_programs [] progs pat = Some pat"
| "stream_programs (inp # il) progs pat =
     (if in_type inp = INPUT_PNR then do {
        p \<leftarrow> in_program inp;
        prog \<leftarrow> progs p;
        stream_programs il progs (pat_add_program pat (in_pnr inp) (pmt_get_pmtpid prog mod 2 ^ 16))
      }
      else stream_programs il progs pat)"

definition stream_send_pat :: "(progid \<rightharpoonup> program) \<Rightarrow> stream \<times> net \<Rightarrow> (stream \<times> net) option" where
  "stream_send_pat progs = (\<lambda>(st, n). do {
     let st = st\<lparr>st_patevent := None\<rparr>;
     pat \<leftarrow> stream_programs (st_input st) progs pat_new;
     ((st, n), pkts) \<leftarrow> pat_send pat (st_patcc st) 0 0 stream_send (st, n);
     let st = st\<lparr>st_patcc := (st_patcc st + pkts) AND TS_CC_MASK\<rparr>;
     Some (stream_init_pat st, n)
   })"

fun stream_init_outputs :: "(outp \<Rightarrow> u8 list) \<Rightarrow> string \<Rightarrow> nat \<Rightarrow> outp list \<Rightarrow> net \<Rightarrow> (outp list \<times> net) option" where
  "stream_init_outputs junk hname now [] n = Some ([], n)"
| "stream_init_outputs junk hname now (out # ol) n = do {
     (out, n) \<leftarrow> output_init (junk out) hname now out n;
     (ol, n) \<leftarrow> stream_init_outputs junk hname now ol n;
     Some (out # ol, n)
   }"

fun stream_init_inputs :: "nat \<Rightarrow> input list \<Rightarrow> adapter \<Rightarrow> (input list \<times> adapter) option" where
  "stream_init_inputs stream [] a = Some ([], a)"
| "stream_init_inputs stream (inp # il) a = do {
     (inp, a) \<leftarrow> input_init stream inp a;
     (il, a) \<leftarrow> stream_init_inputs stream il a;
     Some (inp # il, a)
   }"

definition stream_init ::
  "(outp \<Rightarrow> u8 list) \<Rightarrow> string \<Rightarrow> nat \<Rightarrow> nat \<Rightarrow> stream \<Rightarrow> net \<Rightarrow> adapter \<Rightarrow> (stream \<times> net \<times> adapter) option" where
  "stream_init junk hname now stream st n a = do {
     (ol, n) \<leftarrow> stream_init_outputs junk hname now (st_output st) n;
     (il, a) \<leftarrow> stream_init_inputs stream (st_input st) a;
     let st = st\<lparr>st_output := ol, st_input := il\<rparr>;
     Some (if st_psineeded st then stream_init_pat st else st, n, a)
   }"

fun stream_deinit_inputs :: "input list \<Rightarrow> adapter \<Rightarrow> adapter option" where
  "stream_deinit_inputs [] a = Some a"
| "stream_deinit_inputs (inp # il) a = do { a \<leftarrow> input_deinit inp a; stream_deinit_inputs il a }"

fun stream_deinit_outputs :: "outp list \<Rightarrow> net \<Rightarrow> (outp list \<times> net) option" where
  "stream_deinit_outputs [] n = Some ([], n)"
| "stream_deinit_outputs (out # ol) n = do {
     (out, n) \<leftarrow> output_deinit out n;
     let out = (case o_sap out of None \<Rightarrow> out | Some sap \<Rightarrow> out\<lparr>o_sap := Some (sap\<lparr>sap_event := None\<rparr>)\<rparr>);
     (ol, n) \<leftarrow> stream_deinit_outputs ol n;
     Some (out # ol, n)
   }"

definition stream_deinit :: "stream \<Rightarrow> net \<Rightarrow> adapter \<Rightarrow> (stream \<times> net \<times> adapter) option" where
  "stream_deinit st n a = do {
     a \<leftarrow> stream_deinit_inputs (st_input st) a;
     (ol, n) \<leftarrow> stream_deinit_outputs (st_output st) n;
     let st = st\<lparr>st_output := ol\<rparr>;
     Some (if st_psineeded st then st\<lparr>st_patevent := None\<rparr> else st, n, a)
   }"

section \<open>Adapter and streams together\<close>

record system =
  sys_adapter :: adapter
  sys_streams :: "nat \<rightharpoonup> stream"
  sys_net :: net

fun deliver_all :: "(nat \<times> u8 list) list \<Rightarrow> (nat \<rightharpoonup> stream) \<times> net \<Rightarrow> ((nat \<rightharpoonup> stream) \<times> net) option" where
  "deliver_all [] s = Some s"
| "deliver_all ((k, tsp) # ps) (streams, n) = do {
     st \<leftarrow> streams k;
     (st, n) \<leftarrow> stream_send tsp (st, n);
     deliver_all ps (streams(k \<mapsto> st), n)
   }"

definition system_input :: "u8 list \<Rightarrow> system \<Rightarrow> system option" where
  "system_input ts sys = do {
     a \<leftarrow> dvr_input_ts (sys_adapter sys) ts;
     (streams, n) \<leftarrow> deliver_all (a_out a) (sys_streams sys, sys_net sys);
     Some \<lparr>sys_adapter = a\<lparr>a_out := []\<rparr>, sys_streams = streams, sys_net = n\<rparr>
   }"

fun system_run :: "u8 list list \<Rightarrow> system \<Rightarrow> system option" where
  "system_run [] sys = Some sys"
| "system_run (ts # tss) sys = do { sys \<leftarrow> system_input ts sys; system_run tss sys }"

section \<open>The packets of a section\<close>

text \<open>The packets that \<^verbatim>\<open>psi_segment_and_send\<close> makes do not depend on what takes them.\<close>

fun cb_all :: "('p \<Rightarrow> 's \<Rightarrow> 's option) \<Rightarrow> 'p list \<Rightarrow> 's \<Rightarrow> 's option" where
  "cb_all cb [] s = Some s"
| "cb_all cb (p # ps) s = do { s \<leftarrow> cb p s; cb_all cb ps s }"

function psi_packets :: "u8 list \<Rightarrow> nat \<Rightarrow> nat \<Rightarrow> nat \<Rightarrow> nat \<Rightarrow> nat \<Rightarrow> u8 list list option" where
  "psi_packets data pid cc plen left pkts =
     (let copylen = min left (TS_PACKET_SIZE - (if pkts = 0 then 5 else 4))
      in do {
        chunk \<leftarrow> memread data (plen - left) copylen;
        if left - copylen = 0 then Some [psi_ts_packet pid cc pkts chunk]
        else do {
          ps \<leftarrow> psi_packets data pid cc plen (left - copylen) (pkts + 1);
          Some (psi_ts_packet pid cc pkts chunk # ps)
        }
      })"
  by pat_completeness auto
termination
  by (relation "measure (\<lambda>(data, pid, cc, plen, left, pkts). left)") (auto simp: TS_PACKET_SIZE_def)

declare psi_packets.simps [simp del]

lemma psi_segment_packets:
  "psi_segment_loop data pid cc plen left cb pkts arg = do {
     ps \<leftarrow> psi_packets data pid cc plen left pkts;
     arg \<leftarrow> cb_all cb ps arg;
     Some (arg, pkts + length ps)
   }"
proof (induction left arbitrary: pkts arg rule: less_induct)
  case (less left)
  define k where "k = min left (TS_PACKET_SIZE - (if pkts = 0 then 5 else 4))"
  show ?case
  proof (cases "left - k = 0")
    case True
    then show ?thesis
      by (simp add: psi_segment_loop.simps [of data pid cc plen left] psi_packets.simps [of data pid cc plen left] Let_def
          flip: k_def)
  next
    case False
    then have "left - k < left" by (auto simp: k_def TS_PACKET_SIZE_def)
    note IH = less.IH [OF this, of "Suc pkts"]
    show ?thesis
      using False
      by (simp add: psi_segment_loop.simps [of data pid cc plen left] psi_packets.simps [of data pid cc plen left] Let_def IH
          flip: k_def) (auto split: bind_splits)
  qed
qed

lemma psi_packets_fields:
  assumes "pid \<le> PID_MAX"
  shows "psi_packets data pid cc plen left pkts = Some ps \<Longrightarrow> i < length ps \<Longrightarrow>
    length (ps ! i) = TS_PACKET_SIZE \<and> ts_pid (ps ! i) = pid \<and> ts_cc (ps ! i) = (cc + pkts + i) mod 16"
proof (induction left arbitrary: pkts ps i rule: less_induct)
  case (less left)
  define k where "k = min left (TS_PACKET_SIZE - (if pkts = 0 then 5 else 4))"
  obtain chunk where c: "memread data (plen - left) k = Some chunk"
    and ps: "ps = [psi_ts_packet pid cc pkts chunk] \<or>
      (left - k \<noteq> 0 \<and> (\<exists>ps'. psi_packets data pid cc plen (left - k) (pkts + 1) = Some ps' \<and> ps = psi_ts_packet pid cc pkts chunk # ps'))"
    using less.prems(1) unfolding psi_packets.simps [of data pid cc plen left] Let_def
    by (auto simp flip: k_def split: bind_splits if_splits)
  have "length chunk \<le> (if pkts = 0 then 183 else 184)"
    using memread_length [OF c] by (simp add: k_def TS_PACKET_SIZE_def)
  then have first: "length (psi_ts_packet pid cc pkts chunk) = TS_PACKET_SIZE" using packet_length by (simp add: TS_PACKET_SIZE_def)
  show ?case
  proof (cases i)
    case 0
    then show ?thesis using first ps packet_fields(3,4) [OF assms, of cc pkts chunk] by auto
  next
    case (Suc j)
    then obtain ps' where ps': "left - k \<noteq> 0" "psi_packets data pid cc plen (left - k) (pkts + 1) = Some ps'" "ps ! i = ps' ! j" "j < length ps'"
      using ps less.prems(2) by auto
    have "left - k < left" using ps'(1) by (auto simp: k_def TS_PACKET_SIZE_def)
    from less.IH [OF this ps'(2,4)] show ?thesis using Suc ps'(3) by (simp add: algebra_simps)
  qed
qed

section \<open>A stream with one UDP output\<close>

lemma stream_send_one:
  assumes "st_output st = [out]"
  shows "stream_send p (st, n) = do {
    (out, n, count) \<leftarrow> output_send out p n (st_klkcount st);
    Some (st\<lparr>st_output := [out], st_klkcount := count\<rparr>, n)
  }"
  using assms by (cases "output_send out p n (st_klkcount st)") (auto simp: stream_send_def)

lemma cb_all_stream:
  "st_output st = [out] \<Longrightarrow> cb_all stream_send ps (st, n) = do {
     (out, n, count) \<leftarrow> output_send_all ps (out, n, st_klkcount st);
     Some (st\<lparr>st_output := [out], st_klkcount := count\<rparr>, n)
   }"
proof (induction ps arbitrary: st out n)
  case (Cons p ps)
  show ?case
  proof (cases "output_send out p n (st_klkcount st)")
    case (Some r)
    obtain out' n' count' where r: "r = (out', n', count')" by (cases r) auto
    let ?st = "st\<lparr>st_output := [out'], st_klkcount := count'\<rparr>"
    have "cb_all stream_send ps (?st, n') = do {
       (out, n, count) \<leftarrow> output_send_all ps (out', n', count');
       Some (?st\<lparr>st_output := [out], st_klkcount := count\<rparr>, n) }"
      using Cons.IH [of ?st out' n'] by simp
    then show ?thesis using Some r by (simp add: stream_send_one [OF Cons.prems])
  qed (simp add: stream_send_one [OF Cons.prems])
qed simp

text \<open>A stream that has received the packets \<open>recv\<close> since its socket had sent \<open>base\<close>.\<close>

definition stream_at :: "u8 list list \<Rightarrow> int \<Rightarrow> u8 list list \<Rightarrow> stream \<Rightarrow> net \<Rightarrow> bool" where
  "stream_at base fd recv st n \<longleftrightarrow> (\<exists>out bs. st_output st = [out] \<and> udp_ok_on fd (out, n, st_klkcount st) \<and>
     sent_on fd (net_log n) = base @ map concat bs \<and> (\<forall>b \<in> set bs. length b = UDP_MAX_TS) \<and> concat bs @ o_items out = recv)"

lemma stream_at_frame:
  assumes "stream_at base fd recv st n" "sent_on fd (net_log n') = sent_on fd (net_log n)"
  shows "stream_at base fd recv st n'"
  using assms by (auto simp: stream_at_def udp_ok_on_def udp_ok_def)

lemma stream_at_send:
  assumes at: "stream_at base fd recv st n" and p: "length p = TS_PACKET_SIZE"
  obtains st' n' where "stream_send p (st, n) = Some (st', n')" "stream_at base fd (recv @ [p]) st' n'"
    "\<forall>fd'. fd' \<noteq> fd \<longrightarrow> sent_on fd' (net_log n') = sent_on fd' (net_log n)"
proof -
  obtain out bs where st: "st_output st = [out]" and ok: "udp_ok_on fd (out, n, st_klkcount st)"
    and bs: "sent_on fd (net_log n) = base @ map concat bs" "\<forall>b \<in> set bs. length b = UDP_MAX_TS" "concat bs @ o_items out = recv"
    using at by (auto simp: stream_at_def)
  have pp: "\<forall>q \<in> set [p]. length q = TS_PACKET_SIZE" using p by simp
  obtain out' n' count' bs' where r: "output_send_all [p] (out, n, st_klkcount st) = Some (out', n', count')"
    "udp_ok_on fd (out', n', count')" "sent_on fd (net_log n') = sent_on fd (net_log n) @ map concat bs'"
    "\<forall>b \<in> set bs'. length b = UDP_MAX_TS" "concat bs' @ o_items out' = o_items out @ [p]"
    by (rule udp_run [OF ok pp])
  have s: "output_send out p n (st_klkcount st) = Some (out', n', count')" using r(1) by (auto split: bind_splits)
  have "udp_ok (out, n, st_klkcount st)" "o_sockfd out = fd" using ok by (simp_all add: udp_ok_on_def)
  then have frame: "\<forall>fd'. fd' \<noteq> fd \<longrightarrow> sent_on fd' (net_log n') = sent_on fd' (net_log n)"
    using s by - (rule udp_send_step [OF _ p, of out n "st_klkcount st"], auto split: if_splits)
  let ?st = "st\<lparr>st_output := [out'], st_klkcount := count'\<rparr>"
  have "stream_send p (st, n) = Some (?st, n')" using s by (simp add: stream_send_one [OF st])
  moreover have "stream_at base fd (recv @ [p]) ?st n'"
    unfolding stream_at_def using r bs by (intro exI [of _ out'] exI [of _ "bs @ bs'"]) auto
  ultimately show ?thesis using frame that by blast
qed

section \<open>Delivery to many streams\<close>

text \<open>Every stream of a system has one UDP output, on a socket of its own.\<close>

definition streams_at :: "(nat \<Rightarrow> u8 list list) \<Rightarrow> (nat \<Rightarrow> int) \<Rightarrow> (nat \<Rightarrow> u8 list list) \<Rightarrow> (nat \<rightharpoonup> stream) \<Rightarrow> net \<Rightarrow> bool" where
  "streams_at base fds recv streams n \<longleftrightarrow> inj_on fds (dom streams) \<and>
     (\<forall>k st. streams k = Some st \<longrightarrow> stream_at (base k) (fds k) (recv k) st n)"

definition packets_for :: "nat \<Rightarrow> (nat \<times> u8 list) list \<Rightarrow> u8 list list" where
  "packets_for k ps = map snd (filter (\<lambda>p. fst p = k) ps)"

lemma packets_for_simps [simp]: "packets_for k [] = []" "packets_for k ((j, p) # ps) = (if j = k then [p] else []) @ packets_for k ps"
  by (simp_all add: packets_for_def)

lemma deliver_all_streams:
  "streams_at base fds recv streams n \<Longrightarrow> \<forall>(k, p) \<in> set ps. k \<in> dom streams \<and> length p = TS_PACKET_SIZE \<Longrightarrow>
   \<exists>streams' n'. deliver_all ps (streams, n) = Some (streams', n') \<and> dom streams' = dom streams \<and>
     streams_at base fds (\<lambda>k. recv k @ packets_for k ps) streams' n'"
proof (induction ps arbitrary: recv streams n)
  case (Cons kp ps)
  obtain k p where kp: "kp = (k, p)" by fastforce
  obtain st where st: "streams k = Some st" and p: "length p = TS_PACKET_SIZE" using Cons.prems(2) kp by auto
  have "stream_at (base k) (fds k) (recv k) st n" using Cons.prems(1) st by (simp add: streams_at_def)
  then obtain st' n' where s: "stream_send p (st, n) = Some (st', n')" "stream_at (base k) (fds k) (recv k @ [p]) st' n'"
    "\<forall>fd'. fd' \<noteq> fds k \<longrightarrow> sent_on fd' (net_log n') = sent_on fd' (net_log n)"
    by (rule stream_at_send [OF _ p])
  let ?streams = "streams(k \<mapsto> st')" and ?recv = "\<lambda>j. recv j @ (if j = k then [p] else [])"
  have d: "dom ?streams = dom streams" using st by auto
  have "stream_at (base j) (fds j) (?recv j) x n'" if "?streams j = Some x" for j x
  proof (cases "j = k")
    case True
    then show ?thesis using s(2) that by simp
  next
    case False
    then have j: "streams j = Some x" using that by simp
    then have "fds j \<noteq> fds k" using False st Cons.prems(1) by (auto simp: streams_at_def dest: inj_onD)
    moreover have "stream_at (base j) (fds j) (recv j) x n" using Cons.prems(1) j by (simp add: streams_at_def)
    ultimately show ?thesis using False s(3) stream_at_frame by simp
  qed
  then have "streams_at base fds ?recv ?streams n'" using Cons.prems(1) unfolding streams_at_def d by blast
  moreover have "\<forall>(k, p) \<in> set ps. k \<in> dom ?streams \<and> length p = TS_PACKET_SIZE" unfolding d using Cons.prems(2) by simp
  ultimately obtain streams' n'' where "deliver_all ps (?streams, n') = Some (streams', n'')" "dom streams' = dom ?streams"
    "streams_at base fds (\<lambda>j. ?recv j @ packets_for j ps) streams' n''"
    using Cons.IH by blast
  moreover have "(\<lambda>j. ?recv j @ packets_for j ps) = (\<lambda>j. recv j @ packets_for j (kp # ps))" by (rule ext) (simp add: kp)
  ultimately show ?case unfolding d using s(1) st kp by simp
qed simp

text \<open>The routes of an adapter: the streams registered for everything, and for each pid.\<close>

definition routes :: "adapter \<Rightarrow> nat list \<Rightarrow> (nat \<Rightarrow> nat list) \<Rightarrow> bool" where
  "routes a full route \<longleftrightarrow> distinct (a_fullcb a) \<and> list_all2 (ext (a_pcbs a)) (a_fullcb a) full \<and>
     (\<forall>pid \<le> PID_MAX. distinct (pt_callback (a_pt a pid)) \<and> list_all2 (ext (a_pcbs a)) (pt_callback (a_pt a pid)) (route pid))"

definition routed :: "nat list \<Rightarrow> (nat \<Rightarrow> nat list) \<Rightarrow> nat \<Rightarrow> u8 list \<Rightarrow> u8 list list" where
  "routed full route k ts =
     (if ts ! 0 = 0x47 then replicate (count_list (full @ route (ts_pid ts)) k) (take TS_PACKET_SIZE ts) else [])"

lemma packets_for_map: "packets_for k (map (\<lambda>n. (n, d)) ns) = replicate (count_list ns k) d"
  by (induction ns) (simp_all add: packets_for_def)

lemma dvr_input_routes:
  assumes r: "routes a full route"
  obtains a' where "dvr_input_ts a ts = Some a'" "routes (a'\<lparr>a_out := []\<rparr>) full route"
    "a_out a' = a_out a @ (if ts ! 0 = 0x47 then map (\<lambda>n. (n, take TS_PACKET_SIZE ts)) (full @ route (ts_pid ts)) else [])"
proof -
  have f: "distinct (a_fullcb a)" "list_all2 (ext (a_pcbs a)) (a_fullcb a) full"
    "distinct (pt_callback (a_pt a (ts_pid ts)))" "list_all2 (ext (a_pcbs a)) (pt_callback (a_pt a (ts_pid ts))) (route (ts_pid ts))"
    using r ts_pid_bound [of ts] by (simp_all add: routes_def)
  define a' where "a' = (if ts ! 0 = 0x47
          then upd_pt (ts_pid ts) (\<lambda>e. e\<lparr>pt_packets := (pt_packets e + 1) mod 2 ^ 64\<rparr>)
                 (put (take TS_PACKET_SIZE ts) (full @ route (ts_pid ts)) a)
          else a)"
  have "dvr_input_ts a ts = Some a'" unfolding a'_def by (rule dvr_input_routed [OF f])
  moreover have "routes (a'\<lparr>a_out := []\<rparr>) full route" using r by (simp add: routes_def a'_def put_def)
  ultimately show ?thesis using that by (auto simp: a'_def)
qed

lemma system_run_routes:
  assumes dom: "\<forall>k. k \<in> set full \<or> (\<exists>pid \<le> PID_MAX. k \<in> set (route pid)) \<longrightarrow> k \<in> dom (sys_streams sys)"
  shows "routes (sys_adapter sys) full route \<Longrightarrow> a_out (sys_adapter sys) = [] \<Longrightarrow>
    streams_at base fds recv (sys_streams sys) (sys_net sys) \<Longrightarrow> \<forall>ts \<in> set tss. TS_PACKET_SIZE \<le> length ts \<Longrightarrow>
    \<exists>sys'. system_run tss sys = Some sys' \<and> dom (sys_streams sys') = dom (sys_streams sys) \<and>
      streams_at base fds (\<lambda>k. recv k @ concat (map (routed full route k) tss)) (sys_streams sys') (sys_net sys')"
  using dom
proof (induction tss arbitrary: sys recv)
  case (Cons ts tss)
  obtain a' where a': "dvr_input_ts (sys_adapter sys) ts = Some a'" "routes (a'\<lparr>a_out := []\<rparr>) full route"
    "a_out a' = (if ts ! 0 = 0x47 then map (\<lambda>n. (n, take TS_PACKET_SIZE ts)) (full @ route (ts_pid ts)) else [])"
    using dvr_input_routes [OF Cons.prems(1), of ts] Cons.prems(2) by auto
  have "length ts \<ge> TS_PACKET_SIZE" using Cons.prems(4) by simp
  then have "\<forall>(k, p) \<in> set (a_out a'). k \<in> dom (sys_streams sys) \<and> length p = TS_PACKET_SIZE"
    using Cons.prems(5) ts_pid_bound [of ts] by (auto simp: a'(3))
  from deliver_all_streams [OF Cons.prems(3) this]
  obtain streams' n' where d: "deliver_all (a_out a') (sys_streams sys, sys_net sys) = Some (streams', n')"
    "dom streams' = dom (sys_streams sys)" "streams_at base fds (\<lambda>k. recv k @ packets_for k (a_out a')) streams' n'"
    by blast
  have pf: "packets_for k (a_out a') = routed full route k ts" for k
    using packets_for_map [of k "take TS_PACKET_SIZE ts" "full @ route (ts_pid ts)"] by (simp add: a'(3) routed_def)
  define sys1 where "sys1 = \<lparr>sys_adapter = a'\<lparr>a_out := []\<rparr>, sys_streams = streams', sys_net = n'\<rparr>"
  have s1: "system_input ts sys = Some sys1" using a'(1) d(1) by (simp add: system_input_def sys1_def)
  have "\<exists>sys'. system_run tss sys1 = Some sys' \<and> dom (sys_streams sys') = dom (sys_streams sys1) \<and>
      streams_at base fds (\<lambda>k. (recv k @ routed full route k ts) @ concat (map (routed full route k) tss)) (sys_streams sys') (sys_net sys')"
  proof (rule Cons.IH)
    show "routes (sys_adapter sys1) full route" "a_out (sys_adapter sys1) = []" using a'(2) by (simp_all add: sys1_def)
    show "streams_at base fds (\<lambda>k. recv k @ routed full route k ts) (sys_streams sys1) (sys_net sys1)"
      using d(3) pf by (simp add: sys1_def)
    show "\<forall>ts \<in> set tss. TS_PACKET_SIZE \<le> length ts" using Cons.prems(4) by simp
    show "\<forall>k. k \<in> set full \<or> (\<exists>pid \<le> PID_MAX. k \<in> set (route pid)) \<longrightarrow> k \<in> dom (sys_streams sys1)"
      using Cons.prems(5) d(2) by (simp add: sys1_def)
  qed
  then show ?case using s1 d(2) by (simp add: sys1_def)
qed simp

section \<open>Properties\<close>

text \<open>The programs of a stream's inputs, with the pids of their program maps.\<close>

definition pnr_inputs :: "(progid \<rightharpoonup> program) \<Rightarrow> input list \<Rightarrow> patprog list" where
  "pnr_inputs progs il = map (\<lambda>inp. \<lparr>pp_pnr = in_pnr inp, pp_pid = prog_pmtpid (the (progs (the (in_program inp))))\<rparr>)
     (filter (\<lambda>inp. in_type inp = INPUT_PNR) il)"

definition input_ok :: "(progid \<rightharpoonup> program) \<Rightarrow> input \<Rightarrow> bool" where
  "input_ok progs inp \<longleftrightarrow> in_type inp = INPUT_PNR \<longrightarrow> in_pnr inp < 65536 \<and>
     (\<exists>p prog. in_program inp = Some p \<and> progs p = Some prog \<and> prog_pmtpid prog < 8192)"

lemma stream_programs_eq:
  "\<forall>inp \<in> set il. input_ok progs inp \<Longrightarrow>
   stream_programs il progs pat = Some (pat\<lparr>pat_program := pat_program pat @ pnr_inputs progs il\<rparr>)"
proof (induction il arbitrary: pat)
  case (Cons inp il)
  have "input_ok progs inp" using Cons.prems by simp
  then show ?case
    using Cons by (auto simp: input_ok_def pnr_inputs_def pat_add_program_def pmt_get_pmtpid_def)
qed (simp add: pnr_inputs_def)

lemma pat_new_programs: "pat_new\<lparr>pat_program := pat_program pat_new @ ps\<rparr> = \<lparr>pat_progcount = 0, pat_program = ps\<rparr>"
  by (simp add: pat_new_def)

text \<open>C19: The table a stream sends: packets of pid 0, numbered on from the last table, modulo 16,
  that go out in order with the stream's other packets; a receiver completes one section from
  them and finds the stream's program inputs in it, each with the pid of its program map, and the
  CRC as one program more.  The next table is due after half a second.\<close>

theorem stream_pat_sent:
  assumes out: "st_output st = [out]" "udp_ok_on fd (out, n, st_klkcount st)"
    and inp: "\<forall>inp \<in> set (st_input st). input_ok progs inp" "length (pnr_inputs progs (st_input st)) \<le> 1021"
    and cc: "st_patcc st < 16"
  shows "\<exists>st' n' out' ps bs t rs e crc. stream_send_pat progs (st, n) = Some (st', n') \<and> st_output st' = [out'] \<and>
    sent_on fd (net_log n') = sent_on fd (net_log n) @ map concat bs \<and> concat bs @ o_items out' = o_items out @ ps \<and>
    (\<forall>i < length ps. ts_pid (ps ! i) = 0 \<and> ts_cc (ps ! i) = (st_patcc st + i) mod 16) \<and>
    st_patcc st' = (st_patcc st + length ps) mod 16 \<and> st_patevent st' = Some (0, 500000) \<and>
    cb_all psi_receive ps (psi_section_new, []) = Some (t, rs @ [e]) \<and> 0 < e \<and>
    pat_parse_section (sec_data t) 0 pat_new = Some \<lparr>pat_progcount = length (pnr_inputs progs (st_input st)) + 1,
      pat_program = pnr_inputs progs (st_input st) @ [crc]\<rparr>"
proof -
  let ?pl = "pnr_inputs progs (st_input st)"
  define pat where "pat = \<lparr>pat_progcount = 0, pat_program = ?pl\<rparr>"
  have pl: "pat_program pat = ?pl" by (simp add: pat_def)
  have n: "length (pat_program pat) \<le> 1021" using inp(2) by (simp add: pl)
  have pp: "\<forall>pp \<in> set (pat_program pat). pp_pnr pp < 65536 \<and> pp_pid pp < 8192"
    using inp(1) by (auto simp: pl pnr_inputs_def input_ok_def)
  obtain t rs e k crc where t: "pat_send pat (st_patcc st) 0 0 psi_receive (psi_section_new, []) = Some ((t, rs @ [e]), k)" "0 < e"
    "pat_parse_section (sec_data t) 0 pat_new =
      Some \<lparr>pat_progcount = length (pat_program pat) + 1, pat_program = pat_program pat @ [crc]\<rparr>"
    using pat_sent [OF n pp, of "st_patcc st" 0 0] by blast
  obtain s where s: "pat_section pat 0 0 = Some s" using t(1) by (auto simp: pat_send_def split: bind_splits)
  let ?L = "psi_len (sec_data s)" and ?cc = "st_patcc st mod 256"
  have snd: "pat_send pat (st_patcc st) 0 0 cb arg = do {
     ps \<leftarrow> psi_packets (sec_data s) 0 ?cc ?L ?L 0; arg \<leftarrow> cb_all cb ps arg; Some (arg, length ps) }"
    for cb :: "u8 list \<Rightarrow> 'x \<Rightarrow> 'x option" and arg
    using s by (simp add: pat_send_def psi_segment_and_send_def psi_segment_packets Let_def)
  obtain ps where ps: "psi_packets (sec_data s) 0 ?cc ?L ?L 0 = Some ps"
    "cb_all psi_receive ps (psi_section_new, []) = Some (t, rs @ [e])"
    using t(1) unfolding snd by (auto split: bind_splits)
  have f: "length (ps ! i) = TS_PACKET_SIZE \<and> ts_pid (ps ! i) = 0 \<and> ts_cc (ps ! i) = (st_patcc st + i) mod 16" if "i < length ps" for i
    using psi_packets_fields [OF _ ps(1) that] cc by simp
  have l188: "\<forall>p \<in> set ps. length p = TS_PACKET_SIZE" using f by (metis in_set_conv_nth)
  let ?st = "st\<lparr>st_patevent := None\<rparr>"
  have o0: "st_output ?st = [out]" "st_klkcount ?st = st_klkcount st" using out(1) by simp_all
  obtain out' n' count' bs where r: "output_send_all ps (out, n, st_klkcount st) = Some (out', n', count')"
    "sent_on fd (net_log n') = sent_on fd (net_log n) @ map concat bs" "concat bs @ o_items out' = o_items out @ ps"
    by (rule udp_run [OF out(2) l188])
  have "pat_send pat (st_patcc st) 0 0 stream_send (?st, n) =
      Some ((?st\<lparr>st_output := [out'], st_klkcount := count'\<rparr>, n'), length ps)"
    unfolding snd using ps(1) r(1) o0(2) by (simp add: cb_all_stream [OF o0(1)])
  moreover have "stream_programs (st_input ?st) progs pat_new = Some pat"
    using stream_programs_eq [OF inp(1), of pat_new] pat_new_programs by (simp add: pat_def)
  ultimately have "stream_send_pat progs (st, n) =
      Some (?st\<lparr>st_output := [out'], st_klkcount := count', st_patcc := (st_patcc st + length ps) mod 16,
        st_patevent := Some (0, 500000)\<rparr>, n')" (is "_ = Some (?st', _)")
    by (simp add: stream_send_pat_def stream_init_pat_def TS_CC_MASK_def PAT_INTERVAL_def)
  moreover have "st_output ?st' = [out']" "st_patcc ?st' = (st_patcc st + length ps) mod 16" "st_patevent ?st' = Some (0, 500000)"
    by simp_all
  ultimately show ?thesis using r(2,3) f ps(2) t(2,3) unfolding pl by blast
qed

definition example_stream :: stream where
  "example_stream = \<lparr>st_name = None, st_output = [example_out],
     st_input = [\<lparr>in_type = INPUT_PNR, in_pid = 0, in_cbkey = None, in_pnr = 28106, in_program = Some 0\<rparr>], st_psineeded = True,
     st_patcc = 15, st_patevent = None, st_klkcount = 0\<rparr>"

definition example_prog :: program where
  "example_prog = \<lparr>prog_pnr = 28106, prog_pmtpid = 100, prog_pmtpidcb = None, prog_pids = \<lambda>_. [], prog_psi = psi_new,
     prog_last = None, prog_current = None, prog_cbl = []\<rparr>"

theorem stream_pat_sent_witness:
  "\<exists>st' n' ps t rs e crc. stream_send_pat [0 \<mapsto> example_prog] (example_stream, example_net) = Some (st', n') \<and>
    cb_all psi_receive ps (psi_section_new, []) = Some (t, rs @ [e]) \<and> st_patcc st' = (15 + length ps) mod 16 \<and>
    pat_parse_section (sec_data t) 0 pat_new =
      Some \<lparr>pat_progcount = 1 + 1, pat_program = [\<lparr>pp_pnr = 28106, pp_pid = 100\<rparr>, crc]\<rparr>"
proof -
  have o: "st_output example_stream = [example_out]" "st_klkcount example_stream = 0" "st_patcc example_stream = 15"
    by (simp_all add: example_stream_def)
  have i: "\<forall>inp \<in> set (st_input example_stream). input_ok [0 \<mapsto> example_prog] inp"
    "pnr_inputs [0 \<mapsto> example_prog] (st_input example_stream) = [\<lparr>pp_pnr = 28106, pp_pid = 100\<rparr>]"
    by (simp_all add: example_stream_def input_ok_def pnr_inputs_def example_prog_def)
  have ok: "udp_ok_on 5 (example_out, example_net, st_klkcount example_stream)"
    using example_out_ok by (simp add: example_stream_def)
  have l: "length (pnr_inputs [0 \<mapsto> example_prog] (st_input example_stream)) \<le> 1021" "st_patcc example_stream < 16"
    using i o by simp_all
  from stream_pat_sent [OF o(1) ok i(1) l] show ?thesis unfolding i(2) o(3) by (simp only: list.size append.simps) force
qed

end
