(* ===== verification/Steps.thy ===== *)
theory Steps
  imports Dispatch
begin

text \<open>
  The life of an adapter with clients of its own: the relation \<open>adapter_step\<close> has a step for
  every event that the event loop or a client brings about (a callback registered or
  removed, a packet, the two timers), in any order.  \<open>adapter_inv\<close> holds in every state that is
  reached.  Programs are not among the steps; what a program's tables do is in \<open>Pmt\<close>.
\<close>

section \<open>The steps\<close>

text \<open>A client may remove what it has registered, not the reassembly that the table registers for
  itself.\<close>

definition registered :: "adapter \<Rightarrow> nat \<Rightarrow> cookie \<Rightarrow> bool" where
  "registered a pid c \<longleftrightarrow> pid \<le> PID_MAX \<and>
     (c \<in> set (pt_sectioncallback (a_pt a pid)) \<or> c \<in> set (pt_callback (a_pt a pid)) \<and> pt_seccb (a_pt a pid) \<noteq> Some c)"

inductive adapter_step :: "adapter \<Rightarrow> adapter \<Rightarrow> bool" where
  join: "pid \<le> PID_MAX \<Longrightarrow> pt_secuser (a_pt a pid) < 2 ^ 32 - 1 \<Longrightarrow>
    dvr_add_pcb a pid type pidt (CB_external k) = Some (c, a') \<Longrightarrow> adapter_step a a'"
| full: "dvr_add_pcb a (PID_MAX + 1) DVRCB_TS pidt (CB_external k) = Some (c, a') \<Longrightarrow> adapter_step a a'"
| leave: "registered a pid c \<Longrightarrow> dvr_del_pcb a pid (Some c) = Some a' \<Longrightarrow> adapter_step a a'"
| packet: "dvr_input_ts a ts = Some a' \<Longrightarrow> adapter_step a a'"
| stat: "adapter_step a (dvr_stat_timer a)"
| stuck: "adapter_step a (dvr_stuck_timer a)"

inductive_cases adapter_stepE: "adapter_step a a'"

definition own_callback :: "callback \<Rightarrow> bool" where
  "own_callback cb \<longleftrightarrow> (\<exists>k. cb = CB_external k) \<or> (\<exists>pid. cb = CB_reassemble pid)"

definition only_own :: "(cookie \<rightharpoonup> pidcallback) \<Rightarrow> bool" where
  "only_own m \<longleftrightarrow> (\<forall>c p. m c = Some p \<longrightarrow> own_callback (pcb_callback p))"

definition adapter_inv :: "adapter \<Rightarrow> bool" where
  "adapter_inv a \<longleftrightarrow> dvr_wf a \<and> only_own (a_pcbs a)"

lemma only_own_upd: "only_own m \<Longrightarrow> own_callback (pcb_callback p) \<Longrightarrow> only_own (m(c \<mapsto> p))"
  by (simp add: only_own_def)

lemma only_own_del: "only_own m \<Longrightarrow> only_own (m(c := None))"
  by (simp add: only_own_def)

section \<open>Packets\<close>

text \<open>What every call keeps, a walk over a list of callbacks keeps.\<close>

lemma walk_inv:
  assumes "walk l call c a = Some a'" "J a"
    and step: "\<And>c p b b'. J b \<Longrightarrow> a_pcbs b c = Some p \<Longrightarrow> call (pcb_callback p) b = Some b' \<Longrightarrow> J b'"
  shows "J a'"
proof -
  have "call' = call \<longrightarrow> J b \<longrightarrow> J b'" if "walk l' call' c' b = Some b'" for l' call' c' b b'
  proof (rule walk.raw_induct [OF _ that, where P = "\<lambda>l' call' c' b b'. call' = call \<longrightarrow> J b \<longrightarrow> J b'"])
    fix w l' call' c' b b'
    assume IH: "\<And>l' call' c' b b'. w l' call' c' b = Some b' \<Longrightarrow> call' = call \<longrightarrow> J b \<longrightarrow> J b'"
      and eq: "(case c' of None \<Rightarrow> Some b
          | Some c \<Rightarrow> Option.bind (a_pcbs b c) (\<lambda>pcb. Option.bind (call' (pcb_callback pcb) b)
              (\<lambda>a. Option.bind (g_next (l' a) c) (\<lambda>next. w l' call' next a)))) = Some b'"
    show "call' = call \<longrightarrow> J b \<longrightarrow> J b'"
    proof (cases c')
      case (Some x)
      then obtain q b1 y where q: "a_pcbs b x = Some q" "call' (pcb_callback q) b = Some b1" "w l' call' y b1 = Some b'"
        using eq by (auto split: Option.bind_splits)
      show ?thesis using IH [OF q(3)] step [OF _ q(1)] q(2) by blast
    qed (use eq in simp)
  qed
  then show ?thesis using assms(1,2) by blast
qed

lemma reassemble_loop_inv:
  assumes "dvr_reassemble_loop pid ts off a = Some a'" "J a"
    and sec: "\<And>b x. J b \<Longrightarrow> J (upd_pt pid (\<lambda>e. e\<lparr>pt_section := x\<rparr>) b)"
    and step: "\<And>c p b b'. J b \<Longrightarrow> a_pcbs b c = Some p \<Longrightarrow> call_section pid (pcb_callback p) b = Some b' \<Longrightarrow> J b'"
  shows "J a'"
proof -
  have "q = pid \<longrightarrow> J b \<longrightarrow> J b'" if "dvr_reassemble_loop q ts' off' b = Some b'" for q ts' off' b b'
  proof (rule dvr_reassemble_loop.raw_induct [OF _ that, where P = "\<lambda>q ts' off' b b'. q = pid \<longrightarrow> J b \<longrightarrow> J b'"])
    fix w q ts' off' b b'
    assume IH: "\<And>q ts' off' b b'. w q ts' off' b = Some b' \<Longrightarrow> q = pid \<longrightarrow> J b \<longrightarrow> J b'"
      and eq: "(if off' < TS_PACKET_SIZE then
        Option.bind (psi_reassemble (pt_section (a_pt b q)) ts' off') (\<lambda>(section, off).
          (let a = upd_pt q (\<lambda>e. e\<lparr>pt_section := section\<rparr>) b
           in if off < 0 then Some a
              else
                Option.bind (walk (\<lambda>a. pt_sectioncallback (a_pt a q)) (call_section q)
                  (g_first (pt_sectioncallback (a_pt a q))) a)
                (\<lambda>a. w q ts' (nat off) a)))
      else Some b) = Some b'"
    show "q = pid \<longrightarrow> J b \<longrightarrow> J b'"
    proof (intro impI)
      assume q: "q = pid" and J: "J b"
      show "J b'"
      proof (cases "off' < TS_PACKET_SIZE")
        case True
        then obtain x off where r: "psi_reassemble (pt_section (a_pt b pid)) ts' off' = Some (x, off)"
          using eq q by (auto split: Option.bind_splits)
        let ?b = "upd_pt pid (\<lambda>e. e\<lparr>pt_section := x\<rparr>) b"
        have Jb: "J ?b" by (rule sec [OF J])
        show ?thesis
        proof (cases "off < 0")
          case True
          then show ?thesis using eq q r \<open>off' < TS_PACKET_SIZE\<close> Jb by simp
        next
          case False
          then obtain a1 where w1: "walk (\<lambda>a. pt_sectioncallback (a_pt a pid)) (call_section pid)
              (g_first (pt_sectioncallback (a_pt ?b pid))) ?b = Some a1" "w pid ts' (nat off) a1 = Some b'"
            using eq q r True by (auto simp: Let_def split: Option.bind_splits)
          have "J a1" using w1(1) Jb step by (rule walk_inv)
          then show ?thesis using IH [OF w1(2)] by simp
        qed
      qed (use eq J in simp)
    qed
  qed
  then show ?thesis using assms(1,2) by blast
qed

lemma inv_upd:
  assumes "adapter_inv a" and "\<And>e m pid fd. entry_wf m pid (f e) fd = entry_wf m pid e fd"
  shows "adapter_inv (upd_pt pid f a)"
proof -
  have "dvr_wf (upd_pt pid f a)"
    by (rule dvr_wf_upd) (use assms in \<open>auto simp: adapter_inv_def dvr_wf_def\<close>)
  then show ?thesis using assms(1) by (simp add: adapter_inv_def)
qed

lemma inv_out: "adapter_inv a \<Longrightarrow> adapter_inv (a\<lparr>a_out := out\<rparr>)"
  by (simp add: adapter_inv_def dvr_wf_def)

lemma call_section_inv:
  assumes "adapter_inv b" "a_pcbs b c = Some p" "call_section pid (pcb_callback p) b = Some b'"
  shows "adapter_inv b'"
proof -
  have "own_callback (pcb_callback p)" using assms(1,2) by (simp add: adapter_inv_def only_own_def)
  then show ?thesis using assms(1,3) inv_out by (auto simp: own_callback_def call_section_def Let_def)
qed

lemma call_ts_inv:
  assumes "adapter_inv b" "a_pcbs b c = Some p" "call_ts ts (pcb_callback p) b = Some b'"
  shows "adapter_inv b'"
proof -
  have "own_callback (pcb_callback p)" using assms(1,2) by (simp add: adapter_inv_def only_own_def)
  then consider k where "pcb_callback p = CB_external k" | pid where "pcb_callback p = CB_reassemble pid"
    by (auto simp: own_callback_def)
  then show ?thesis
  proof cases
    case 1
    then show ?thesis using assms(1,3) inv_out by (auto simp: call_ts_def)
  next
    case 2
    then have "dvr_reassemble_loop pid ts 0 b = Some b'" using assms(3) by (simp add: call_ts_def dvr_section_reassemble_def)
    then show ?thesis using assms(1) inv_upd [OF _ entry_section(1)] call_section_inv by (rule reassemble_loop_inv)
  qed
qed

lemma packet_inv:
  assumes "adapter_inv a" "dvr_input_ts a ts = Some a'"
  shows "adapter_inv a'"
proof (cases "ts ! 0 = 0x47")
  case True
  then obtain a1 where w: "walk a_fullcb (call_ts ts) (g_first (a_fullcb a)) a = Some a1"
    "walk (\<lambda>a. pt_callback (a_pt a (ts_pid ts))) (call_ts ts) (g_first (pt_callback (a_pt a1 (ts_pid ts))))
       (upd_pt (ts_pid ts) (\<lambda>e. e\<lparr>pt_packets := (pt_packets e + 1) mod 2 ^ 64\<rparr>) a1) = Some a'"
    using assms(2) by (auto simp: dvr_input_ts_def Let_def split: bind_splits)
  have "adapter_inv a1" using w(1) assms(1) call_ts_inv by (rule walk_inv)
  then have "adapter_inv (upd_pt (ts_pid ts) (\<lambda>e. e\<lparr>pt_packets := (pt_packets e + 1) mod 2 ^ 64\<rparr>) a1)"
    by (rule inv_upd) simp
  with w(2) show ?thesis using call_ts_inv by (rule walk_inv)
qed (use assms in \<open>simp add: dvr_input_ts_def\<close>)

section \<open>Timers\<close>

lemma stat_inv: "adapter_inv a \<Longrightarrow> adapter_inv (dvr_stat_timer a)"
proof -
  assume a: "adapter_inv a"
  let ?s = "dvr_stat_timer a"
  have s: "a_dmx ?s = a_dmx a" "a_pcbs ?s = a_pcbs a" "a_nextpcb ?s = a_nextpcb a"
    "a_pt ?s = (\<lambda>i. if i < PID_MAX then (a_pt a i)\<lparr>pt_packets := 0\<rparr> else a_pt a i)"
    by (simp_all add: dvr_stat_timer_def dvr_init_stat_timer_def Let_def fun_eq_iff)
  show ?thesis using a by (simp add: adapter_inv_def dvr_wf_def s)
qed

lemma bounce_loop:
  assumes c: "\<And>fd. c fd \<in> {Sys_dmx_stop fd, Sys_dmx_start fd}"
  shows "dmx_fd (dmx_bounce_loop c is d) = dmx_fd d \<and> dmx_ret (dmx_bounce_loop c is d) = dmx_ret d \<and>
    dmx_open (dmx_bounce_loop c is d) = dmx_open d"
proof (induction "is" arbitrary: d)
  case (Cons i "is")
  have "dmx_open (fst (syscall (c fd) d)) = dmx_open d" for fd using c [of fd] by (auto simp: dmx_open_syscall)
  then show ?case using Cons by simp
qed simp

lemma bounce_filter:
  "dmx_fd (dmx_bounce_filter d) = dmx_fd d" "dmx_ret (dmx_bounce_filter d) = dmx_ret d" "dmx_open (dmx_bounce_filter d) = dmx_open d"
  using bounce_loop [of Sys_dmx_start "[0..<DMX_ALL + 1]"] bounce_loop [of Sys_dmx_stop "[0..<DMX_ALL + 1]"]
  by (simp_all add: dmx_bounce_filter_def del: upt_Suc)

lemma stuck_inv: "adapter_inv a \<Longrightarrow> adapter_inv (dvr_stuck_timer a)"
proof -
  assume a: "adapter_inv a"
  let ?s = "dvr_stuck_timer a"
  have s: "a_dmx ?s = (if a_reads a = 0 then dmx_bounce_filter (a_dmx a) else a_dmx a)" "a_pcbs ?s = a_pcbs a"
    "a_nextpcb ?s = a_nextpcb a" "a_pt ?s = a_pt a"
    by (simp_all add: dvr_stuck_timer_def dvr_stuck_init_def Let_def)
  have "dmx_fd (a_dmx ?s) = dmx_fd (a_dmx a)" "dmx_wf (a_dmx ?s) = dmx_wf (a_dmx a)" "kernel_fresh (a_dmx ?s) = kernel_fresh (a_dmx a)"
    using bounce_filter [of "a_dmx a"] by (simp_all add: s dmx_wf_def kernel_fresh_def)
  then show ?thesis using a by (simp add: adapter_inv_def dvr_wf_def s)
qed

section \<open>Registering and removing\<close>

text \<open>The callbacks in the store only come from the operation.\<close>

lemma add_ts_own:
  assumes "only_own (a_pcbs a)" "own_callback cb" "dvr_add_ts a pid pidt cb = Some (c, a')"
  shows "only_own (a_pcbs a')"
  using assms by (auto simp: dvr_add_ts_def new_pcb_def Let_def intro!: only_own_upd split: if_splits bind_splits)

lemma add_own:
  assumes "only_own (a_pcbs a)" "dvr_add_pcb a pid type pidt (CB_external k) = Some (c, a')"
  shows "only_own (a_pcbs a')"
proof (cases type)
  case DVRCB_TS
  then show ?thesis using add_ts_own [OF assms(1), of "CB_external k"] assms(2) by (auto simp: dvr_add_pcb_def own_callback_def)
next
  case DVRCB_SECTION
  define p where "p = \<lparr>pcb_callback = CB_external k, pcb_pid = pid mod 2 ^ 16, pcb_type = DVRCB_SECTION, pcb_pidt = pidt\<rparr>"
  obtain c1 a1 where n: "new_pcb p a = (c1, a1)" by fastforce
  have o1: "only_own (a_pcbs a1)"
    using n assms(1) only_own_upd [of "a_pcbs a" p] by (auto simp: new_pcb_def p_def own_callback_def)
  have s: "(if pid = PID_MAX + 1 then Some (c1, a1\<lparr>a_fullcb := a_fullcb a1 @ [c1]\<rparr>)
      else if pid > PID_MAX then None
      else do {
        a2 \<leftarrow> (if pt_secuser (a_pt a1 pid) = 0
             then do {
               (cb, a3) \<leftarrow> dvr_add_ts (upd_pt pid (\<lambda>e. e\<lparr>pt_section := psi_section_new\<rparr>) a1) pid PID_REASSEMBLE (CB_reassemble pid);
               Some (upd_pt pid (\<lambda>e. e\<lparr>pt_seccb := Some cb\<rparr>) a3)
             }
             else Some a1);
        Some (c1, upd_pt pid (\<lambda>e. e\<lparr>pt_secuser := (pt_secuser e + 1) mod 2 ^ 32,
                                     pt_sectioncallback := pt_sectioncallback e @ [c1]\<rparr>) a2)
      }) = Some (c, a')"
    using assms(2) DVRCB_SECTION unfolding dvr_add_pcb_def cbtype.case dvr_add_section_def p_def [symmetric] n Let_def prod.case
    by simp
  show ?thesis
  proof (cases "pid = PID_MAX + 1 \<or> pid > PID_MAX \<or> pt_secuser (a_pt a1 pid) \<noteq> 0")
    case True
    then have "a_pcbs a' = a_pcbs a1" using s by (auto split: if_splits)
    then show ?thesis using o1 by simp
  next
    case False
    then obtain r a3 where t: "dvr_add_ts (upd_pt pid (\<lambda>e. e\<lparr>pt_section := psi_section_new\<rparr>) a1) pid PID_REASSEMBLE (CB_reassemble pid)
        = Some (r, a3)" "a_pcbs a' = a_pcbs a3"
      using s by (auto split: bind_splits)
    have "only_own (a_pcbs a3)" using o1 by (intro add_ts_own [OF _ _ t(1)]) (simp_all add: own_callback_def)
    then show ?thesis using t(2) by simp
  qed
qed

lemma del_own: "dvr_del_rec fuel a pid c = Some a' \<Longrightarrow> only_own (a_pcbs a) \<Longrightarrow> only_own (a_pcbs a')"
proof (induction fuel arbitrary: a c a')
  case (Suc fuel)
  have ts: "dvr_del_ts b pid x = Some b' \<Longrightarrow> a_pcbs b' = a_pcbs b" for b x b'
    by (auto simp: dvr_del_ts_def Let_def split: if_splits bind_splits)
  have fr: "only_own (a_pcbs b) \<Longrightarrow> only_own (a_pcbs (free_pcb x b))" for b x
    by (simp add: free_pcb_def only_own_del)
  show ?case
  proof (cases c)
    case (Some x)
    then show ?thesis
      using Suc.prems by (auto simp: Let_def intro!: fr dest!: Suc.IH ts split: if_splits bind_splits cbtype.splits)
  qed (use Suc.prems in simp)
qed simp

lemma full_inv:
  assumes a: "adapter_inv a" and s: "dvr_add_pcb a (PID_MAX + 1) DVRCB_TS pidt (CB_external k) = Some (c, a')"
  shows "adapter_inv a'"
proof -
  define p where "p = \<lparr>pcb_callback = CB_external k, pcb_pid = (PID_MAX + 1) mod 2 ^ 16, pcb_type = DVRCB_TS, pcb_pidt = pidt\<rparr>"
  obtain c1 a1 where n: "new_pcb p a = (c1, a1)" by fastforce
  have "dvr_wf a1" using dvr_wf_alloc(1) [OF _ n] a by (simp add: adapter_inv_def)
  moreover have "a' = a1\<lparr>a_fullcb := a_fullcb a1 @ [c1]\<rparr>"
    using s unfolding dvr_add_pcb_def cbtype.case dvr_add_ts_def p_def [symmetric] n Let_def prod.case by auto
  ultimately have "dvr_wf a'" by (simp add: dvr_wf_def)
  then show ?thesis using add_own [OF _ s] a by (simp add: adapter_inv_def)
qed

lemma leave_some:
  assumes "dvr_wf a" "registered a pid c"
  obtains a' where "dvr_del_pcb a pid (Some c) = Some a'" "dvr_wf a'"
proof -
  have pid: "pid \<le> PID_MAX" using assms(2) by (simp add: registered_def)
  consider "c \<in> set (pt_sectioncallback (a_pt a pid))" | "c \<in> set (pt_callback (a_pt a pid))" "pt_seccb (a_pt a pid) \<noteq> Some c"
    using assms(2) by (auto simp: registered_def)
  then show ?thesis
  proof cases
    case 1
    show ?thesis
      using that unfolding dvr_del_pcb_def numeral_2_eq_2
      by (rule dvr_del_pcb_section [OF assms(1) pid 1, of 0]) 
  next
    case 2
    show ?thesis
      using that unfolding dvr_del_pcb_def numeral_2_eq_2
      by (rule dvr_del_pcb_ts [OF assms(1) pid 2(2,1), of "Suc 0"])
  qed
qed

lemma step_inv: "adapter_step a a' \<Longrightarrow> adapter_inv a \<Longrightarrow> adapter_inv a'"
proof (induction rule: adapter_step.induct)
  case (join pid a type pidt k c a')
  then have "dvr_wf a" by (simp add: adapter_inv_def)
  then have "dvr_wf a'" by (rule dvr_add_then_del [OF _ join(1,2), of type pidt "CB_external k"]) (use join(3) in simp)
  then show ?case using add_own [OF _ join(3)] join(4) by (simp add: adapter_inv_def)
next
  case (leave a pid c a')
  then have "dvr_wf a" by (simp add: adapter_inv_def)
  then obtain b where "dvr_del_pcb a pid (Some c) = Some b" "dvr_wf b" by (rule leave_some [OF _ leave(1)])
  then have "dvr_wf a'" using leave(2) by simp
  then show ?case using leave(2,3) del_own by (simp add: adapter_inv_def dvr_del_pcb_def)
qed (rule full_inv packet_inv stat_inv stuck_inv; assumption)+

section \<open>Properties\<close>



end
