(* ===== verification/Cstring.thy ===== *)
theory Cstring
  imports Prelude "HOL-Library.Sublist"
begin

text \<open>
  The functions of the C library on strings.  A string is the list of its characters without the
  terminating zero.  A comparison gives a number less than, equal to or greater than 0; the standard
  leaves its size open, so here it is -1, 0 or 1.  Upper and lower case are those of the C locale.
\<close>

definition NUL :: char where "NUL = CHR 0x00"
definition TAB :: char where "TAB = CHR 0x09"
definition NL :: char where "NL = CHR 0x0A"
definition CR :: char where "CR = CHR 0x0D"
definition DQ :: char where "DQ = CHR 0x22"
definition BSL :: char where "BSL = CHR 0x5C"

lemmas char_defs = NUL_def TAB_def NL_def CR_def DQ_def BSL_def

section \<open>Characters\<close>

definition c_tolower :: "char \<Rightarrow> char" where
  "c_tolower c = (let n = of_char c :: nat in if 65 \<le> n \<and> n \<le> 90 then char_of (n + 32) else c)"

definition c_toupper :: "char \<Rightarrow> char" where
  "c_toupper c = (let n = of_char c :: nat in if 97 \<le> n \<and> n \<le> 122 then char_of (n - 32) else c)"

definition c_isspace :: "char \<Rightarrow> bool" where
  "c_isspace c \<longleftrightarrow> (let n = of_char c :: nat in n = 32 \<or> (9 \<le> n \<and> n \<le> 13))"

definition c_low :: "char \<Rightarrow> nat" where
  "c_low c = of_char (c_tolower c)"

lemma c_tolower_code: "of_char (c_tolower c) = (let n = of_char c :: nat in if 65 \<le> n \<and> n \<le> 90 then n + 32 else n)"
  by (simp add: c_tolower_def Let_def)

lemma c_toupper_code: "of_char (c_toupper c) = (let n = of_char c :: nat in if 97 \<le> n \<and> n \<le> 122 then n - 32 else n)"
proof -
  have "of_char c < (256 :: nat)" by simp
  then show ?thesis by (auto simp: c_toupper_def Let_def)
qed

text \<open>Two characters agree in lower case if and only if they agree in upper case.\<close>

lemma c_low_eq_iff: "c_low c = c_low d \<longleftrightarrow> c_toupper c = c_toupper d"
proof -
  have "(if 65 \<le> m \<and> m \<le> 90 then m + 32 else m) = (if 65 \<le> n \<and> n \<le> 90 then n + 32 else n) \<longleftrightarrow>
      (if 97 \<le> m \<and> m \<le> 122 then m - 32 else m) = (if 97 \<le> n \<and> n \<le> 122 then n - 32 else n)" for m n :: nat
    by auto
  then have "c_low c = c_low d \<longleftrightarrow> of_char (c_toupper c) = (of_char (c_toupper d) :: nat)"
    by (simp only: c_low_def c_tolower_code c_toupper_code Let_def)
  then show ?thesis by simp
qed

section \<open>Comparison\<close>

fun cmp_by :: "(char \<Rightarrow> nat) \<Rightarrow> string \<Rightarrow> string \<Rightarrow> int" where
  "cmp_by f [] [] = 0"
| "cmp_by f [] (d # t) = -1"
| "cmp_by f (c # s) [] = 1"
| "cmp_by f (c # s) (d # t) = (if f c = f d then cmp_by f s t else if f c < f d then -1 else 1)"

definition c_strcmp :: "string \<Rightarrow> string \<Rightarrow> int" where
  "c_strcmp = cmp_by of_char"

definition c_strcasecmp :: "string \<Rightarrow> string \<Rightarrow> int" where
  "c_strcasecmp = cmp_by c_low"

definition c_strncasecmp :: "string \<Rightarrow> string \<Rightarrow> nat \<Rightarrow> int" where
  "c_strncasecmp s t n = cmp_by c_low (take n s) (take n t)"

text \<open>A string without regard to case.\<close>

definition fold_case :: "string \<Rightarrow> nat list" where
  "fold_case s = map c_low s"

lemma fold_case_simps [simp]: "fold_case [] = []" "fold_case (c # s) = c_low c # fold_case s"
  "fold_case (s @ t) = fold_case s @ fold_case t" "length (fold_case s) = length s"
  by (simp_all add: fold_case_def)

lemma cmp_by_0: "cmp_by f s t = 0 \<longleftrightarrow> map f s = map f t"
  by (induction f s t rule: cmp_by.induct) simp_all

lemma cmp_by_flip: "cmp_by f t s = - cmp_by f s t"
  by (induction f s t rule: cmp_by.induct) auto

lemma c_strcmp_0: "c_strcmp s t = 0 \<longleftrightarrow> s = t"
  by (simp add: c_strcmp_def cmp_by_0 inj_map_eq_map inj_of_char)

lemma c_strcasecmp_0: "c_strcasecmp s t = 0 \<longleftrightarrow> fold_case s = fold_case t"
  by (simp add: c_strcasecmp_def cmp_by_0 fold_case_def)

lemma c_strcasecmp_refl [simp]: "c_strcasecmp s s = 0"
  by (simp add: c_strcasecmp_0)

lemma c_strncasecmp_0: "c_strncasecmp s t n = 0 \<longleftrightarrow> take n (fold_case s) = take n (fold_case t)"
  by (simp add: c_strncasecmp_def cmp_by_0 fold_case_def take_map)

text \<open>Comparing with the length of the first string is the test for a prefix.\<close>

lemma c_strncasecmp_prefix: "c_strncasecmp s t (length s) = 0 \<longleftrightarrow> prefix (fold_case s) (fold_case t)"
proof -
  have "take (length s) (fold_case s) = fold_case s" by simp
  then show ?thesis unfolding c_strncasecmp_0 by (metis fold_case_simps(4) prefix_def append_eq_conv_conj take_is_prefix)
qed

section \<open>Copies\<close>

text \<open>\<open>c_str\<close> is the string that starts a buffer; \<open>strncat\<close> appends at most \<open>n\<close> characters.\<close>

definition c_str :: "string \<Rightarrow> string" where
  "c_str s = takeWhile (\<lambda>c. c \<noteq> NUL) s"

definition c_strncat :: "string \<Rightarrow> string \<Rightarrow> nat \<Rightarrow> string" where
  "c_strncat dest src n = dest @ take n src"

lemma c_str_stops: "NUL \<notin> set s \<Longrightarrow> c_str (s @ NUL # r) = s"
  by (induction s) (auto simp: c_str_def)

lemma c_str_id: "NUL \<notin> set s \<Longrightarrow> c_str s = s"
  unfolding c_str_def by (rule takeWhile_eq_all_conv [THEN iffD2]) auto

section \<open>Numbers\<close>

text \<open>\<^verbatim>\<open>strtol\<close>: the number and the text behind it.  A number outside of the range of a \<^verbatim>\<open>long\<close> gives the
  bound; a text without a digit gives 0 and all of the text.\<close>

definition c_digit :: "char \<Rightarrow> nat" where
  "c_digit c = (let n = of_char c in
     if 48 \<le> n \<and> n \<le> 57 then n - 48 else if 97 \<le> n \<and> n \<le> 122 then n - 87 else if 65 \<le> n \<and> n \<le> 90 then n - 55 else 36)"

definition digits_value :: "nat \<Rightarrow> string \<Rightarrow> int" where
  "digits_value b ds = foldl (\<lambda>v c. v * int b + int (c_digit c)) 0 ds"

definition long_clamp :: "int \<Rightarrow> int" where
  "long_clamp v = max (- (2 ^ 63)) (min (2 ^ 63 - 1) v)"

definition has_0x :: "string \<Rightarrow> bool" where
  "has_0x s \<longleftrightarrow> 3 \<le> length s \<and> s ! 0 = CHR ''0'' \<and> c_tolower (s ! 1) = CHR ''x'' \<and> c_digit (s ! 2) < 16"

definition strtol_sign :: "string \<Rightarrow> bool \<times> string" where
  "strtol_sign s = (if s \<noteq> [] \<and> hd s = CHR ''-'' then (True, tl s) else if s \<noteq> [] \<and> hd s = CHR ''+'' then (False, tl s) else (False, s))"

definition strtol_base :: "nat \<Rightarrow> string \<Rightarrow> nat" where
  "strtol_base base s = (if base \<noteq> 0 then base else if has_0x s then 16 else if s \<noteq> [] \<and> hd s = CHR ''0'' then 8 else 10)"

definition c_strtol :: "nat \<Rightarrow> string \<Rightarrow> int \<times> string" where
  "c_strtol base s =
     (let (neg, t) = strtol_sign (dropWhile c_isspace s);
          b = strtol_base base t;
          t = (if b = 16 \<and> has_0x t then drop 2 t else t);
          ds = takeWhile (\<lambda>c. c_digit c < b) t;
          v = digits_value b ds
      in if ds = [] then (0, s) else (long_clamp (if neg then - v else v), dropWhile (\<lambda>c. c_digit c < b) t))"

lemma long_clamp_range: "- (2 ^ 63) \<le> long_clamp v" "long_clamp v < 2 ^ 63"
  by (auto simp: long_clamp_def)

lemma long_clamp_id: "- (2 ^ 63) \<le> v \<Longrightarrow> v < 2 ^ 63 \<Longrightarrow> long_clamp v = v"
  by (simp add: long_clamp_def)

lemma c_strtol_range: "c_strtol b s = (v, r) \<Longrightarrow> - (2 ^ 63) \<le> v \<and> v < 2 ^ 63"
  using long_clamp_range by (auto simp: c_strtol_def Let_def split: prod.splits if_splits)

text \<open>A \<^verbatim>\<open>long\<close> put into an \<^verbatim>\<open>int\<close>.\<close>

definition to_int :: "int \<Rightarrow> int" where
  "to_int v = sint (word_of_int v :: 32 word)"

end
