(* ===== verification/Libconf.thy ===== *)
theory Libconf
  imports Cstring
begin

text \<open>
  The reader of configuration files, \<^verbatim>\<open>libconf.c\<close>: a tokeniser, a parser that builds a tree of
  entries.

  The text and the offset into it are the text that is left.  The token buffer has 256 bytes; a
  longer token writes outside of it, which is \<open>None\<close>.  The entries live in a store, a map from
  identifiers; \<open>prev\<close>, \<open>next\<close>, \<open>child\<close> and \<open>parent\<close> are identifiers or the null pointer.
  \<^verbatim>\<open>strdup\<close> copies up to the first zero byte.
\<close>

section \<open>Tokens\<close>

datatype token = TOKEN_STRING | TOKEN_QSTRING | TOKEN_COLON | TOKEN_OBRACKET | TOKEN_CBRACKET | TOKEN_NEWLINE |
  TOKEN_EOF | TOKEN_QSTRING_EOL | TOKEN_QSTRING_EOF | TOKEN_QSTRING_BROKEN

definition tb_put :: "string \<Rightarrow> char \<Rightarrow> string option" where
  "tb_put tb c = (if length tb < 256 then Some (tb @ [c]) else None)"

text \<open>The token found, the content of the token buffer and the text behind the token.  The
  terminating zero is written, but not part of the content.\<close>

type_synonym lexed = "token \<times> string \<times> string"

fun quoted :: "string \<Rightarrow> string \<Rightarrow> lexed option" where
  "quoted tb [] = Some (TOKEN_QSTRING_EOF, tb, [])"
| "quoted tb (c # cs) =
     (if c = NL then Some (TOKEN_QSTRING_EOL, tb, c # cs)
      else if c = DQ then do { _ \<leftarrow> tb_put tb NUL; Some (TOKEN_QSTRING, tb, cs) }
      else do { tb \<leftarrow> tb_put tb c; quoted tb cs })"

definition ends_token :: "char \<Rightarrow> bool" where
  "ends_token c \<longleftrightarrow> c \<in> {CHR '';'', CHR ''}'', CHR ''{'', NL, CHR '' '', TAB, CHR ''#''}"

fun unquoted :: "string \<Rightarrow> string \<Rightarrow> lexed option" where
  "unquoted tb [] = Some (TOKEN_EOF, tb, [])"
| "unquoted tb (c # cs) =
     (if ends_token c then do { _ \<leftarrow> tb_put tb NUL; Some (TOKEN_STRING, tb, c # cs) }
      else do { tb \<leftarrow> tb_put tb c; unquoted tb cs })"

function gettoken :: "string \<Rightarrow> lexed option" where
  "gettoken [] = Some (TOKEN_EOF, [], [])"
| "gettoken (c # cs) =
     (if c = CHR '' '' \<or> c = TAB then gettoken cs
      else if c = CHR ''#'' then
        (let r = dropWhile (\<lambda>c. c \<noteq> NL) cs in if r = [] then Some (TOKEN_EOF, [], []) else gettoken r)
      else if c = DQ then quoted [] cs
      else if c = NL then Some (TOKEN_NEWLINE, [], cs)
      else if c = CHR '';'' then Some (TOKEN_COLON, [], cs)
      else if c = CHR ''}'' then Some (TOKEN_CBRACKET, [], cs)
      else if c = CHR ''{'' then Some (TOKEN_OBRACKET, [], cs)
      else unquoted [] (c # cs))"
  by pat_completeness auto
termination
  by (relation "measure length") (auto simp: less_Suc_eq_le length_dropWhile_le)

lemma quoted_shorter: "quoted tb s = Some (t, tb', r) \<Longrightarrow> t \<notin> {TOKEN_QSTRING_EOF, TOKEN_QSTRING_EOL} \<Longrightarrow> length r < length s"
  by (induction tb s rule: quoted.induct) (auto split: if_splits bind_splits dest: less_SucI)

lemma unquoted_shorter: "unquoted tb s = Some (t, tb', r) \<Longrightarrow> t \<noteq> TOKEN_EOF \<Longrightarrow> length r \<le> length s"
  by (induction tb s rule: unquoted.induct) (auto split: if_splits bind_splits dest: le_SucI)

lemma gettoken_shorter:
  "gettoken s = Some (t, tb, r) \<Longrightarrow> t \<notin> {TOKEN_EOF, TOKEN_QSTRING_EOF, TOKEN_QSTRING_EOL} \<Longrightarrow> length r < length s"
proof (induction s rule: gettoken.induct)
  case (2 c cs)
  note prems = this
  have dw: "length (dropWhile (\<lambda>c. c \<noteq> NL) cs) \<le> length cs" by (rule length_dropWhile_le)
  consider "c = CHR '' '' \<or> c = TAB" | "\<not> (c = CHR '' '' \<or> c = TAB)" "c = CHR ''#''" |
    "\<not> (c = CHR '' '' \<or> c = TAB)" "c \<noteq> CHR ''#''" by blast
  then show ?case
  proof cases
    case 1
    then show ?thesis using prems by auto
  next
    case 2
    then show ?thesis using prems dw by (auto simp: Let_def split: if_splits)
  next
    case 3
    then show ?thesis
      using prems(3,4) quoted_shorter [of "[]" cs t tb r] unquoted_shorter [of "[c]" cs t tb r]
      by (auto simp: ends_token_def tb_put_def split: if_splits)
  qed
qed simp

section \<open>Entries\<close>

datatype lcv = LCV_NONE | LCV_NUM | LCV_BOOL | LCV_HEX | LCV_STRING | LCV_IPV4ADDR | LCV_IPV6ADDR | LCV_IPADDR

text \<open>A table of options is the list of its entries, up to the one without a name.  The callback of
  an option is a number.\<close>

datatype ventry = Ventry (ve_name: string) (ve_min: int) (ve_max: int) (ve_type: lcv) (ve_opt: nat)
  (ve_child: "ventry list option") (ve_cback: "nat option")

datatype lc_value = Lc_none | Lc_num int | Lc_string string

type_synonym cid = nat

text \<open>The pointer to the option of an entry is its place in its table and the option.\<close>

record centry =
  ce_prev :: "cid option"
  ce_next :: "cid option"
  ce_child :: "cid option"
  ce_parent :: "cid option"
  ce_token :: "string option"
  ce_value :: "string option"
  ce_closed :: bool
  ce_tline :: nat
  ce_vline :: nat
  ce_noce :: nat
  ce_ventry :: "(nat \<times> ventry) option"
  ce_cbvalue :: lc_value

type_synonym cheap = "cid \<rightharpoonup> centry"

definition centry_new :: centry where
  "centry_new = \<lparr>ce_prev = None, ce_next = None, ce_child = None, ce_parent = None, ce_token = None, ce_value = None,
     ce_closed = False, ce_tline = 0, ce_vline = 0, ce_noce = 0, ce_ventry = None, ce_cbvalue = Lc_none\<rparr>"

section \<open>The parser\<close>

record pstate =
  ps_heap :: cheap
  ps_free :: cid
  ps_cce :: cid
  ps_line :: nat

definition upd_ce :: "cid \<Rightarrow> (centry \<Rightarrow> centry) \<Rightarrow> cheap \<Rightarrow> cheap option" where
  "upd_ce i f h = do { e \<leftarrow> h i; Some (h(i \<mapsto> f e)) }"

definition ps_alloc :: "centry \<Rightarrow> pstate \<Rightarrow> pstate" where
  "ps_alloc e st = st\<lparr>ps_heap := (ps_heap st)(ps_free st \<mapsto> e), ps_free := ps_free st + 1, ps_cce := ps_free st\<rparr>"

text \<open>A new entry behind one that is closed.\<close>

definition parse_sibling :: "pstate \<Rightarrow> pstate option" where
  "parse_sibling st = do {
     e \<leftarrow> ps_heap st (ps_cce st);
     if ce_closed e then do {
       let lce = ps_cce st;
       let st = ps_alloc (centry_new\<lparr>ce_prev := Some lce, ce_parent := ce_parent e\<rparr>) st;
       h \<leftarrow> upd_ce lce (\<lambda>e. e\<lparr>ce_next := Some (ps_cce st)\<rparr>) (ps_heap st);
       Some (st\<lparr>ps_heap := h\<rparr>)
     }
     else Some st
   }"

definition parse_value :: "string \<Rightarrow> pstate \<Rightarrow> pstate option option" where
  "parse_value tb st = do {
     e \<leftarrow> ps_heap st (ps_cce st);
     if ce_value e = None then do {
       h \<leftarrow> upd_ce (ps_cce st) (\<lambda>e. e\<lparr>ce_value := Some (c_str tb), ce_vline := ps_line st\<rparr>) (ps_heap st);
       Some (Some (st\<lparr>ps_heap := h\<rparr>))
     }
     else Some None
   }"

text \<open>One token; the outer option is the memory fault, the inner one a rejected configuration.\<close>

definition parse_token :: "token \<Rightarrow> string \<Rightarrow> pstate \<Rightarrow> pstate option option" where
  "parse_token te tb st =
     (case te of
        TOKEN_NEWLINE \<Rightarrow> Some (Some (st\<lparr>ps_line := ps_line st + 1\<rparr>))
      | TOKEN_OBRACKET \<Rightarrow> do {
          let lce = ps_cce st;
          let st = ps_alloc (centry_new\<lparr>ce_parent := Some lce\<rparr>) st;
          h \<leftarrow> upd_ce lce (\<lambda>e. e\<lparr>ce_child := Some (ps_cce st)\<rparr>) (ps_heap st);
          Some (Some (st\<lparr>ps_heap := h\<rparr>))
        }
      | TOKEN_CBRACKET \<Rightarrow> do {
          e \<leftarrow> ps_heap st (ps_cce st);
          case ce_parent e of
            None \<Rightarrow> Some None
          | Some p \<Rightarrow>
              if ce_token e = None \<and> ce_value e = None then do {
                pe \<leftarrow> ps_heap st p;
                let h = (case ce_child pe of None \<Rightarrow> ps_heap st | Some c \<Rightarrow> (ps_heap st)(c := None));
                h \<leftarrow> upd_ce p (\<lambda>e. e\<lparr>ce_child := None\<rparr>) h;
                Some (Some (st\<lparr>ps_heap := h, ps_cce := p\<rparr>))
              }
              else if \<not> ce_closed e then Some None
              else Some (Some (st\<lparr>ps_cce := p\<rparr>))
        }
      | TOKEN_COLON \<Rightarrow> do {
          h \<leftarrow> upd_ce (ps_cce st) (\<lambda>e. e\<lparr>ce_closed := True\<rparr>) (ps_heap st);
          Some (Some (st\<lparr>ps_heap := h\<rparr>))
        }
      | TOKEN_STRING \<Rightarrow> do {
          st \<leftarrow> parse_sibling st;
          e \<leftarrow> ps_heap st (ps_cce st);
          if ce_token e = None then do {
            h \<leftarrow> upd_ce (ps_cce st) (\<lambda>e. e\<lparr>ce_token := Some (c_str tb), ce_tline := ps_line st\<rparr>) (ps_heap st);
            Some (Some (st\<lparr>ps_heap := h\<rparr>))
          }
          else parse_value tb st
        }
      | TOKEN_QSTRING \<Rightarrow> do {
          e \<leftarrow> ps_heap st (ps_cce st);
          if ce_token e = None then Some None else parse_value tb st
        }
      | _ \<Rightarrow> Some None)"

function parse_loop :: "string \<Rightarrow> pstate \<Rightarrow> pstate option option" where
  "parse_loop s st =
     (case gettoken s of
        None \<Rightarrow> None
      | Some (te, tb, r) \<Rightarrow>
          if te = TOKEN_EOF then Some (Some st)
          else if te \<in> {TOKEN_QSTRING_EOF, TOKEN_QSTRING_EOL} then Some None
          else
            (case parse_token te tb st of
               None \<Rightarrow> None
             | Some None \<Rightarrow> Some None
             | Some (Some st) \<Rightarrow> parse_loop r st))"
  by pat_completeness auto
termination
  by (relation "measure (\<lambda>(s, st). length s)") (auto dest: gettoken_shorter)

declare parse_loop.simps [simp del]

definition parse_start :: pstate where
  "parse_start = \<lparr>ps_heap = [0 \<mapsto> centry_new], ps_free = 1, ps_cce = 0, ps_line = 1\<rparr>"

text \<open>The store and the first entry, or \<open>None\<close> for the null pointer.\<close>

definition libconf_parse :: "string \<Rightarrow> (cheap \<times> cid) option option" where
  "libconf_parse s = do {
     st \<leftarrow> parse_loop s parse_start;
     Some (map_option (\<lambda>st. (ps_heap st, 0)) st)
   }"

section \<open>Configurations as trees\<close>

datatype ctree = Ctree (ct_token: string) (ct_value: "string option") (ct_child: "ctree list")

text \<open>A list of entries in the store, from entry \<open>p\<close> on.  Its identifiers are at least \<open>lo\<close> and
  less than \<open>hi\<close>; those of an entry, of its children and of the entries behind it follow each
  other, so no entry is in two places.\<close>

fun conf_rep :: "cheap \<Rightarrow> cid \<Rightarrow> cid \<Rightarrow> cid option \<Rightarrow> cid option \<Rightarrow> cid option \<Rightarrow> ctree list \<Rightarrow> bool" where
  "conf_rep h lo hi par prv p [] = (p = None)"
| "conf_rep h lo hi par prv p (Ctree t v ch # ts) =
     (\<exists>i e m. p = Some i \<and> lo \<le> i \<and> i < m \<and> m \<le> hi \<and> h i = Some e \<and> ce_token e = Some t \<and> ce_value e = v \<and>
        ce_closed e \<and> ce_prev e = prv \<and> ce_parent e = par \<and>
        conf_rep h (Suc i) m (Some i) None (ce_child e) ch \<and> conf_rep h m hi par (Some i) (ce_next e) ts)"

text \<open>The text of a configuration, with \<open>sep\<close> between its tokens.\<close>

fun print_conf :: "string \<Rightarrow> ctree list \<Rightarrow> string" where
  "print_conf sep [] = []"
| "print_conf sep (Ctree t v ch # ts) =
     t @ sep @ (case v of None \<Rightarrow> [] | Some v \<Rightarrow> [DQ] @ v @ [DQ] @ sep) @
     (if ch = [] then [] else ''{'' @ sep @ print_conf sep ch @ ''}'' @ sep) @ '';'' @ sep @ print_conf sep ts"

definition blanks :: "string \<Rightarrow> bool" where
  "blanks sep \<longleftrightarrow> sep \<noteq> [] \<and> (\<forall>c \<in> set sep. c \<in> {CHR '' '', TAB, NL})"

definition good_token :: "string \<Rightarrow> bool" where
  "good_token t \<longleftrightarrow> t \<noteq> [] \<and> hd t \<noteq> DQ \<and> (\<forall>c \<in> set t. \<not> ends_token c \<and> c \<noteq> NUL) \<and> length t < 256"

definition good_value :: "string \<Rightarrow> bool" where
  "good_value v \<longleftrightarrow> (\<forall>c \<in> set v. c \<notin> {NL, DQ, NUL}) \<and> length v < 256"

fun good_conf :: "ctree list \<Rightarrow> bool" where
  "good_conf [] = True"
| "good_conf (Ctree t v ch # ts) =
     (good_token t \<and> (case v of None \<Rightarrow> True | Some v \<Rightarrow> good_value v) \<and> good_conf ch \<and> good_conf ts)"

section \<open>Reading a printed token\<close>

lemma chars_distinct: "NL \<noteq> TAB" "NL \<noteq> DQ" "DQ \<noteq> TAB" "NL \<noteq> CHR '' ''" "NL \<noteq> CHR ''#''" "NL \<noteq> CHR '';''"
  "NL \<noteq> CHR ''}''" "NL \<noteq> CHR ''{''" "DQ \<noteq> CHR '' ''" "DQ \<noteq> CHR ''#''" "TAB \<noteq> CHR '' ''" "CHR '';'' \<noteq> TAB" "CHR ''}'' \<noteq> TAB"
  "CHR ''{'' \<noteq> TAB" "CHR '';'' \<noteq> DQ" "CHR ''}'' \<noteq> DQ" "CHR ''{'' \<noteq> DQ" "CHR '';'' \<noteq> NL" "CHR ''}'' \<noteq> NL" "CHR ''{'' \<noteq> NL"
  by (simp_all add: NL_def TAB_def DQ_def)

lemma unquoted_word:
  "\<forall>x \<in> set t. \<not> ends_token x \<Longrightarrow> length tb + length t < 256 \<Longrightarrow> ends_token c \<Longrightarrow>
   unquoted tb (t @ c # r) = Some (TOKEN_STRING, tb @ t, c # r)"
  by (induction t arbitrary: tb) (simp_all add: tb_put_def)

lemma quoted_value:
  "\<forall>x \<in> set v. x \<noteq> NL \<and> x \<noteq> DQ \<Longrightarrow> length tb + length v < 256 \<Longrightarrow>
   quoted tb (v @ DQ # r) = Some (TOKEN_QSTRING, tb @ v, r)"
  by (induction v arbitrary: tb) (simp_all add: tb_put_def chars_distinct(2) [symmetric])

lemma gettoken_word:
  assumes "good_token t" "ends_token c"
  shows "gettoken (t @ c # r) = Some (TOKEN_STRING, t, c # r)"
proof -
  obtain x t' where t: "t = x # t'" using assms(1) by (cases t) (auto simp: good_token_def)
  have "\<not> ends_token x" "x \<noteq> DQ" using assms(1) by (simp_all add: good_token_def t)
  then have "gettoken (t @ c # r) = unquoted [] (t @ c # r)" by (auto simp: t ends_token_def)
  then show ?thesis using unquoted_word [of t "[]" c r] assms by (simp add: good_token_def)
qed

lemma gettoken_simple:
  "gettoken ('';'' @ r) = Some (TOKEN_COLON, [], r)" "gettoken (''}'' @ r) = Some (TOKEN_CBRACKET, [], r)"
  "gettoken (''{'' @ r) = Some (TOKEN_OBRACKET, [], r)" "gettoken (NL # r) = Some (TOKEN_NEWLINE, [], r)"
  "gettoken (DQ # r) = quoted [] r" "gettoken (CHR '' '' # r) = gettoken r" "gettoken (TAB # r) = gettoken r"
  using chars_distinct by simp_all

lemma strdup_token: "good_token t \<Longrightarrow> c_str t = t" "good_value t \<Longrightarrow> c_str t = t"
  by (auto simp: good_token_def good_value_def c_str_def takeWhile_eq_all_conv)

section \<open>Reading a printed configuration\<close>

lemma parse_loop_tok:
  assumes "gettoken s = Some (te, tb, r)" "te \<in> {TOKEN_STRING, TOKEN_QSTRING, TOKEN_COLON, TOKEN_OBRACKET, TOKEN_CBRACKET, TOKEN_NEWLINE}"
    and "parse_token te tb st = Some (Some st')"
  shows "parse_loop s st = parse_loop r st'"
  using assms by (subst parse_loop.simps) auto

lemma parse_blanks:
  assumes "\<forall>c \<in> set sep. c \<in> {CHR '' '', TAB, NL}"
  obtains l where "parse_loop (sep @ s) st = parse_loop s (st\<lparr>ps_line := l\<rparr>)"
proof -
  have "\<exists>l. parse_loop (sep @ s) st = parse_loop s (st\<lparr>ps_line := l\<rparr>)" using assms
  proof (induction sep arbitrary: st)
    case Nil
    show ?case by (intro exI [of _ "ps_line st"]) simp
  next
    case (Cons c sep)
    show ?case
    proof (cases "c = NL")
      case True
      let ?st = "st\<lparr>ps_line := ps_line st + 1\<rparr>"
      have "parse_token TOKEN_NEWLINE [] st = Some (Some ?st)" by (simp add: parse_token_def)
      then have "parse_loop ((c # sep) @ s) st = parse_loop (sep @ s) ?st"
        unfolding True append_Cons by (intro parse_loop_tok [OF gettoken_simple(4)]) simp_all
      moreover obtain l where "parse_loop (sep @ s) ?st = parse_loop s (?st\<lparr>ps_line := l\<rparr>)"
        using Cons.IH [of ?st] Cons.prems by auto
      ultimately show ?thesis by auto
    next
      case False
      then have "gettoken ((c # sep) @ s) = gettoken (sep @ s)" using Cons.prems gettoken_simple(6,7) by auto
      then have "parse_loop ((c # sep) @ s) st = parse_loop (sep @ s) st" by (simp add: parse_loop.simps)
      then show ?thesis using Cons.IH [of st] Cons.prems by auto
    qed
  qed
  then show ?thesis using that by blast
qed

lemma blanks_cons:
  assumes "blanks sep"
  obtains c r where "sep = c # r" "ends_token c"
  using assms by (cases sep) (auto simp: blanks_def ends_token_def)

text \<open>A token or a bracket and the blanks behind it.\<close>

lemma parse_tok_blanks:
  assumes sep: "blanks sep" and g: "gettoken (s @ sep @ r) = Some (te, tb, sep @ r)"
    and te: "te \<in> {TOKEN_STRING, TOKEN_QSTRING, TOKEN_COLON, TOKEN_OBRACKET, TOKEN_CBRACKET}"
    and p: "parse_token te tb st = Some (Some st')"
  obtains l where "parse_loop (s @ sep @ r) st = parse_loop r (st'\<lparr>ps_line := l\<rparr>)"
proof -
  have "parse_loop (s @ sep @ r) st = parse_loop (sep @ r) st'" by (rule parse_loop_tok [OF g _ p]) (use te in blast)
  moreover have "\<forall>c \<in> set sep. c \<in> {CHR '' '', TAB, NL}" using sep by (simp add: blanks_def)
  then obtain l where "parse_loop (sep @ r) st' = parse_loop r (st'\<lparr>ps_line := l\<rparr>)" by (rule parse_blanks)
  ultimately show ?thesis using that by simp
qed

text \<open>An entry that has been made and not filled in.\<close>

definition blank_at :: "pstate \<Rightarrow> cid \<Rightarrow> centry \<Rightarrow> bool" where
  "blank_at st i e \<longleftrightarrow> ps_cce st = i \<and> ps_heap st i = Some e \<and> i < ps_free st \<and> (\<forall>j \<ge> ps_free st. ps_heap st j = None) \<and>
     ce_token e = None \<and> ce_value e = None \<and> ce_child e = None \<and> ce_next e = None \<and> \<not> ce_closed e"

lemma parse_entry_head:
  assumes sep: "blanks sep" and b: "blank_at st i e" and t: "good_token t" and v: "case v of None \<Rightarrow> True | Some v \<Rightarrow> good_value v"
  obtains e1 l where "parse_loop (t @ sep @ (case v of None \<Rightarrow> [] | Some v \<Rightarrow> [DQ] @ v @ [DQ] @ sep) @ r) st =
      parse_loop r (st\<lparr>ps_heap := (ps_heap st)(i \<mapsto> e1), ps_line := l\<rparr>)"
    "ce_token e1 = Some t" "ce_value e1 = v" "ce_child e1 = None" "ce_next e1 = None" "ce_prev e1 = ce_prev e"
    "ce_parent e1 = ce_parent e" "\<not> ce_closed e1"
proof -
  define ev where "ev = e\<lparr>ce_token := Some t, ce_tline := ps_line st\<rparr>"
  define st1 where "st1 = st\<lparr>ps_heap := (ps_heap st)(i \<mapsto> ev)\<rparr>"
  have p1: "parse_token TOKEN_STRING t st = Some (Some st1)"
    using b strdup_token(1) [OF t] by (simp add: parse_token_def parse_sibling_def blank_at_def upd_ce_def st1_def ev_def)
  let ?r = "(case v of None \<Rightarrow> [] | Some v \<Rightarrow> [DQ] @ v @ [DQ] @ sep) @ r"
  have g1: "gettoken (t @ sep @ ?r) = Some (TOKEN_STRING, t, sep @ ?r)"
  proof -
    obtain c s where "sep = c # s" "ends_token c" by (rule blanks_cons [OF sep])
    then show ?thesis using gettoken_word [OF t] by simp
  qed
  obtain l1 where l1: "parse_loop (t @ sep @ ?r) st = parse_loop ?r (st1\<lparr>ps_line := l1\<rparr>)"
    by (rule parse_tok_blanks [OF sep g1 _ p1]) simp
  show ?thesis
  proof (cases v)
    case None
    have "st1\<lparr>ps_line := l1\<rparr> = st\<lparr>ps_heap := (ps_heap st)(i \<mapsto> ev), ps_line := l1\<rparr>" by (simp add: st1_def)
    then show ?thesis using that [of l1 ev] l1 None b by (simp add: ev_def blank_at_def)
  next
    case (Some w)
    then have w: "good_value w" using v by simp
    define ew where "ew = ev\<lparr>ce_value := Some w, ce_vline := l1\<rparr>"
    define st2 where "st2 = st1\<lparr>ps_line := l1, ps_heap := (ps_heap st)(i \<mapsto> ew)\<rparr>"
    have "ce_value ev = None" "ps_cce st = i" using b by (simp_all add: ev_def blank_at_def)
    then have p2: "parse_token TOKEN_QSTRING w (st1\<lparr>ps_line := l1\<rparr>) = Some (Some st2)"
      using strdup_token(2) [OF w] by (simp add: parse_token_def parse_value_def upd_ce_def st1_def st2_def ew_def) (simp add: ev_def)
    have g2: "gettoken (([DQ] @ w @ [DQ]) @ sep @ r) = Some (TOKEN_QSTRING, w, sep @ r)"
      using w quoted_value [of w "[]" "sep @ r"] gettoken_simple(5) by (simp add: good_value_def)
    obtain l2 where l2: "parse_loop (([DQ] @ w @ [DQ]) @ sep @ r) (st1\<lparr>ps_line := l1\<rparr>) = parse_loop r (st2\<lparr>ps_line := l2\<rparr>)"
      by (rule parse_tok_blanks [OF sep g2 _ p2]) simp
    have "st2\<lparr>ps_line := l2\<rparr> = st\<lparr>ps_heap := (ps_heap st)(i \<mapsto> ew), ps_line := l2\<rparr>" by (simp add: st2_def st1_def)
    then show ?thesis using that [of l2 ew] l1 l2 Some b by (simp add: ew_def ev_def blank_at_def)
  qed
qed

text \<open>The entry at \<open>i\<close> and those behind it, where the identifiers of the latter and of all children
  are from \<open>lo\<close> on.\<close>

definition entry_rep :: "cheap \<Rightarrow> cid \<Rightarrow> cid \<Rightarrow> cid \<Rightarrow> cid option \<Rightarrow> cid option \<Rightarrow> ctree list \<Rightarrow> bool" where
  "entry_rep h lo hi i par prv ts \<longleftrightarrow> (\<exists>e t ts' m. h i = Some e \<and> ts = t # ts' \<and> ce_token e = Some (ct_token t) \<and>
     ce_value e = ct_value t \<and> ce_closed e \<and> ce_prev e = prv \<and> ce_parent e = par \<and> lo \<le> m \<and> m \<le> hi \<and>
     conf_rep h lo m (Some i) None (ce_child e) (ct_child t) \<and> conf_rep h m hi par (Some i) (ce_next e) ts')"

lemma conf_rep_mono: "conf_rep h lo hi par prv p ts \<Longrightarrow> lo' \<le> lo \<Longrightarrow> conf_rep h lo' hi par prv p ts"
  by (cases "(h, lo, hi, par, prv, p, ts)" rule: conf_rep.cases) auto

lemma conf_rep_frame:
  "conf_rep h lo hi par prv p ts \<Longrightarrow> \<forall>j. lo \<le> j \<longrightarrow> j < hi \<longrightarrow> h' j = h j \<Longrightarrow> conf_rep h' lo hi par prv p ts"
proof (induction ts arbitrary: lo hi par prv p rule: measure_induct_rule [of "size_list size"])
  case (less ts)
  show ?case
  proof (cases ts)
    case (Cons tr ts')
    obtain t v ch where tr: "tr = Ctree t v ch" by (cases tr)
    obtain i e m where i: "p = Some i" "lo \<le> i" "i < m" "m \<le> hi" "h i = Some e" "ce_token e = Some t" "ce_value e = v"
      "ce_closed e" "ce_prev e = prv" "ce_parent e = par"
      and r: "conf_rep h (Suc i) m (Some i) None (ce_child e) ch" "conf_rep h m hi par (Some i) (ce_next e) ts'"
      using less.prems(1) by (auto simp: Cons tr)
    have sz: "size_list size ch < size_list size ts" "size_list size ts' < size_list size ts" by (simp_all add: Cons tr)
    have "conf_rep h' (Suc i) m (Some i) None (ce_child e) ch" "conf_rep h' m hi par (Some i) (ce_next e) ts'"
      using less.IH [OF sz(1) r(1)] less.IH [OF sz(2) r(2)] less.prems(2) i(2,3,4) by simp_all
    then show ?thesis using i less.prems(2) by (auto simp: Cons tr)
  qed (use less.prems in simp)
qed

lemma entry_rep_conf:
  assumes "entry_rep h lo' hi i par prv ts" "lo \<le> i" "i < lo'"
  shows "conf_rep h lo hi par prv (Some i) ts"
proof -
  obtain e t ts' m where e: "h i = Some e" "ts = t # ts'" "ce_token e = Some (ct_token t)" "ce_value e = ct_value t" "ce_closed e"
    "ce_prev e = prv" "ce_parent e = par" "lo' \<le> m" "m \<le> hi" "conf_rep h lo' m (Some i) None (ce_child e) (ct_child t)"
    "conf_rep h m hi par (Some i) (ce_next e) ts'"
    using assms(1) by (auto simp: entry_rep_def)
  obtain a b c where "t = Ctree a b c" by (cases t)
  then show ?thesis using e assms(2,3) conf_rep_mono [OF e(10), of "Suc i"] by (auto intro!: exI [of _ m])
qed

text \<open>The last entry read.\<close>

definition closed_at :: "pstate \<Rightarrow> cid option \<Rightarrow> bool" where
  "closed_at st par \<longleftrightarrow> (\<forall>j \<ge> ps_free st. ps_heap st j = None) \<and>
     (\<exists>e. ps_heap st (ps_cce st) = Some e \<and> ce_closed e \<and> ce_token e \<noteq> None \<and> ce_parent e = par \<and> ce_next e = None)"

definition same_below :: "cid \<Rightarrow> cid \<Rightarrow> cheap \<Rightarrow> cheap \<Rightarrow> bool" where
  "same_below n i h h' \<longleftrightarrow> (\<forall>j < n. j \<noteq> i \<longrightarrow> h' j = h j)"

definition reads :: "string \<Rightarrow> ctree list \<Rightarrow> bool" where
  "reads sep ts \<longleftrightarrow> (\<forall>st i e r. blank_at st i e \<longrightarrow>
     (\<exists>st2. parse_loop (print_conf sep ts @ r) st = parse_loop r st2 \<and>
        entry_rep (ps_heap st2) (ps_free st) (ps_free st2) i (ce_parent e) (ce_prev e) ts \<and> closed_at st2 (ce_parent e) \<and>
        ps_free st \<le> ps_free st2 \<and> same_below (ps_free st) i (ps_heap st) (ps_heap st2)))"

lemma parse_children:
  assumes sep: "blanks sep" and cce: "ps_cce st = i" and e: "ps_heap st i = Some e" "ce_child e = None"
    and i: "i < ps_free st" and bd: "\<forall>j \<ge> ps_free st. ps_heap st j = None" and ch: "ch \<noteq> [] \<Longrightarrow> reads sep ch"
  obtains st2 c where
    "parse_loop ((if ch = [] then [] else ''{'' @ sep @ print_conf sep ch @ ''}'' @ sep) @ r) st = parse_loop r st2"
    "ps_cce st2 = i" "ps_heap st2 i = Some (e\<lparr>ce_child := c\<rparr>)" "conf_rep (ps_heap st2) (ps_free st) (ps_free st2) (Some i) None c ch"
    "\<forall>j \<ge> ps_free st2. ps_heap st2 j = None" "ps_free st \<le> ps_free st2" "same_below (ps_free st) i (ps_heap st) (ps_heap st2)"
proof (cases "ch = []")
  case True
  have "e\<lparr>ce_child := None\<rparr> = e" using e(2) by simp
  then show ?thesis using that [of st None] True assms by (simp add: same_below_def)
next
  case False
  define c where "c = ps_free st"
  define h1 where "h1 = (ps_heap st)(c \<mapsto> centry_new\<lparr>ce_parent := Some i\<rparr>, i \<mapsto> e\<lparr>ce_child := Some c\<rparr>)"
  define st1 where "st1 = st\<lparr>ps_heap := h1, ps_free := c + 1, ps_cce := c\<rparr>"
  have ic: "i < c" using i by (simp add: c_def)
  have p1: "parse_token TOKEN_OBRACKET [] st = Some (Some st1)"
    using cce e i by (simp add: parse_token_def ps_alloc_def upd_ce_def st1_def h1_def c_def)
  let ?r = "''}'' @ sep @ r"
  obtain l1 where l1: "parse_loop (''{'' @ sep @ print_conf sep ch @ ?r) st = parse_loop (print_conf sep ch @ ?r) (st1\<lparr>ps_line := l1\<rparr>)"
    by (rule parse_tok_blanks [OF sep gettoken_simple(3) _ p1]) simp
  have b1: "blank_at (st1\<lparr>ps_line := l1\<rparr>) c (centry_new\<lparr>ce_parent := Some i\<rparr>)"
    using bd ic by (auto simp: blank_at_def st1_def h1_def centry_new_def c_def)
  obtain st2 where st2: "parse_loop (print_conf sep ch @ ?r) (st1\<lparr>ps_line := l1\<rparr>) = parse_loop ?r st2"
    "entry_rep (ps_heap st2) (c + 1) (ps_free st2) c (Some i) None ch" "closed_at st2 (Some i)" "c + 1 \<le> ps_free st2"
    "same_below (c + 1) c h1 (ps_heap st2)"
  proof -
    have "\<exists>st2. parse_loop (print_conf sep ch @ ?r) (st1\<lparr>ps_line := l1\<rparr>) = parse_loop ?r st2 \<and>
      entry_rep (ps_heap st2) (c + 1) (ps_free st2) c (Some i) None ch \<and> closed_at st2 (Some i) \<and> c + 1 \<le> ps_free st2 \<and>
      same_below (c + 1) c h1 (ps_heap st2)"
      using ch [OF False, unfolded reads_def, rule_format, OF b1, of ?r] by (simp add: st1_def centry_new_def)
    then show ?thesis using that by blast
  qed
  obtain ec where ec: "ps_heap st2 (ps_cce st2) = Some ec" "ce_closed ec" "ce_token ec \<noteq> None" "ce_parent ec = Some i"
    and bd2: "\<forall>j \<ge> ps_free st2. ps_heap st2 j = None"
    using st2(3) by (auto simp: closed_at_def)
  define st3 where "st3 = st2\<lparr>ps_cce := i\<rparr>"
  have p3: "parse_token TOKEN_CBRACKET [] st2 = Some (Some st3)" using ec by (auto simp: parse_token_def st3_def)
  obtain l3 where l3: "parse_loop (''}'' @ sep @ r) st2 = parse_loop r (st3\<lparr>ps_line := l3\<rparr>)"
    by (rule parse_tok_blanks [OF sep gettoken_simple(2) _ p3]) simp
  have hi: "ps_heap st2 i = Some (e\<lparr>ce_child := Some c\<rparr>)" using st2(5) ic by (simp add: same_below_def h1_def)
  have cr: "conf_rep (ps_heap st2) (ps_free st) (ps_free st2) (Some i) None (Some c) ch"
    by (rule entry_rep_conf [OF st2(2)]) (simp_all add: c_def)
  have sb: "same_below (ps_free st) i (ps_heap st) (ps_heap st2)"
    using st2(5) ic by (auto simp: same_below_def h1_def c_def)
  show ?thesis
    by (rule that [of "st3\<lparr>ps_line := l3\<rparr>" "Some c"])
      (use False l1 st2(1,4) l3 hi cr sb bd2 ic in \<open>simp_all add: st3_def c_def\<close>)
qed

lemma parse_sibling_step:
  assumes g: "gettoken s = Some (TOKEN_STRING, tb, r)" and s: "parse_sibling st = Some st'" "parse_sibling st' = Some st'"
  shows "parse_loop s st = parse_loop s st'"
proof -
  have "parse_token TOKEN_STRING tb st = parse_token TOKEN_STRING tb st'" using s by (simp add: parse_token_def)
  then show ?thesis using g by (simp add: parse_loop.simps [of s])
qed

lemma print_first:
  assumes "blanks sep" "good_conf ts" "ts \<noteq> []"
  obtains tb r' where "gettoken (print_conf sep ts @ r) = Some (TOKEN_STRING, tb, r')"
proof -
  obtain t v ch ts' where ts: "ts = Ctree t v ch # ts'" using assms(3) by (metis ctree.exhaust list.exhaust)
  obtain c s where "sep = c # s" "ends_token c" by (rule blanks_cons [OF assms(1)])
  then show ?thesis using that gettoken_word [of t c] assms(2) ts by simp
qed

text \<open>The next entry behind the closed entry \<open>i\<close>.\<close>

lemma parse_next:
  assumes e: "ps_cce st = i" "ps_heap st i = Some e" "ce_closed e" and i: "i < ps_free st"
    and bd: "\<forall>j \<ge> ps_free st. ps_heap st j = None" and rd: "reads sep ts" "blanks sep" "good_conf ts" "ts \<noteq> []"
  obtains st2 where "parse_loop (print_conf sep ts @ r) st = parse_loop r st2" "closed_at st2 (ce_parent e)"
    "ps_heap st2 i = Some (e\<lparr>ce_next := Some (ps_free st)\<rparr>)"
    "conf_rep (ps_heap st2) (ps_free st) (ps_free st2) (ce_parent e) (Some i) (Some (ps_free st)) ts" "ps_free st \<le> ps_free st2"
    "same_below (ps_free st) i (ps_heap st) (ps_heap st2)"
proof -
  define k where "k = ps_free st"
  define n where "n = centry_new\<lparr>ce_prev := Some i, ce_parent := ce_parent e\<rparr>"
  define h1 where "h1 = (ps_heap st)(k \<mapsto> n, i \<mapsto> e\<lparr>ce_next := Some k\<rparr>)"
  define st1 where "st1 = st\<lparr>ps_heap := h1, ps_free := k + 1, ps_cce := k\<rparr>"
  have ik: "i < k" using i by (simp add: k_def)
  have "parse_sibling st = Some st1"
    using e i by (simp add: parse_sibling_def ps_alloc_def upd_ce_def st1_def h1_def k_def n_def)
  moreover have "parse_sibling st1 = Some st1"
    using ik by (simp add: parse_sibling_def st1_def h1_def n_def centry_new_def)
  moreover obtain tb r' where "gettoken (print_conf sep ts @ r) = Some (TOKEN_STRING, tb, r')"
    by (rule print_first [OF rd(2-4)])
  ultimately have nx: "parse_loop (print_conf sep ts @ r) st = parse_loop (print_conf sep ts @ r) st1"
    by (intro parse_sibling_step)
  have b: "blank_at st1 k n" using bd ik by (auto simp: blank_at_def st1_def h1_def n_def centry_new_def k_def)
  have "\<exists>st2. parse_loop (print_conf sep ts @ r) st1 = parse_loop r st2 \<and>
      entry_rep (ps_heap st2) (k + 1) (ps_free st2) k (ce_parent e) (Some i) ts \<and> closed_at st2 (ce_parent e) \<and> k + 1 \<le> ps_free st2 \<and>
      same_below (k + 1) k h1 (ps_heap st2)"
    using rd(1) [unfolded reads_def, rule_format, OF b, of r] by (simp add: st1_def n_def)
  then obtain st2 where st2: "parse_loop (print_conf sep ts @ r) st1 = parse_loop r st2"
      "entry_rep (ps_heap st2) (k + 1) (ps_free st2) k (ce_parent e) (Some i) ts" "closed_at st2 (ce_parent e)" "k + 1 \<le> ps_free st2"
      "same_below (k + 1) k h1 (ps_heap st2)" by blast
  have "conf_rep (ps_heap st2) k (ps_free st2) (ce_parent e) (Some i) (Some k) ts" by (rule entry_rep_conf [OF st2(2)]) simp_all
  moreover have "same_below k i (ps_heap st) (ps_heap st2)" "ps_heap st2 i = Some (e\<lparr>ce_next := Some k\<rparr>)"
    using st2(5) ik by (auto simp: same_below_def h1_def)
  ultimately show ?thesis using that [of st2] nx st2(1,3,4) by (simp add: k_def)
qed

lemma reads_conf: "blanks sep \<Longrightarrow> good_conf ts \<Longrightarrow> ts \<noteq> [] \<Longrightarrow> reads sep ts"
proof (induction sep ts rule: print_conf.induct)
  case (2 sep t v ch ts)
  note sep = \<open>blanks sep\<close>
  have good: "good_token t" "case v of None \<Rightarrow> True | Some v \<Rightarrow> good_value v" "good_conf ch" "good_conf ts"
    using \<open>good_conf (Ctree t v ch # ts)\<close> by simp_all
  have "\<exists>st2. parse_loop (print_conf sep (Ctree t v ch # ts) @ r) st = parse_loop r st2 \<and>
        entry_rep (ps_heap st2) (ps_free st) (ps_free st2) i (ce_parent e) (ce_prev e) (Ctree t v ch # ts) \<and> closed_at st2 (ce_parent e) \<and>
        ps_free st \<le> ps_free st2 \<and> same_below (ps_free st) i (ps_heap st) (ps_heap st2)"
    if b: "blank_at st i e" for st i e r
  proof -
    let ?r3 = "print_conf sep ts @ r"
    let ?r2 = "'';'' @ sep @ ?r3"
    let ?r1 = "(if ch = [] then [] else ''{'' @ sep @ print_conf sep ch @ ''}'' @ sep) @ ?r2"
    have i: "i < ps_free st" and bd: "\<forall>j \<ge> ps_free st. ps_heap st j = None" using b by (simp_all add: blank_at_def)
    obtain e1 l where hd: "parse_loop (t @ sep @ (case v of None \<Rightarrow> [] | Some v \<Rightarrow> [DQ] @ v @ [DQ] @ sep) @ ?r1) st =
        parse_loop ?r1 (st\<lparr>ps_heap := (ps_heap st)(i \<mapsto> e1), ps_line := l\<rparr>)" (is "_ = parse_loop _ ?st1") and
      e1: "ce_token e1 = Some t" "ce_value e1 = v" "ce_child e1 = None" "ce_next e1 = None" "ce_prev e1 = ce_prev e"
      "ce_parent e1 = ce_parent e" "\<not> ce_closed e1"
      by (rule parse_entry_head [OF sep b good(1,2)])
    have st1: "ps_cce ?st1 = i" "ps_heap ?st1 i = Some e1" "i < ps_free ?st1" "\<forall>j \<ge> ps_free ?st1. ps_heap ?st1 j = None"
      using b i by (auto simp: blank_at_def)
    have rch: "ch \<noteq> [] \<Longrightarrow> reads sep ch" using 2(1) sep good(3) by blast
    obtain st2 c where st2: "parse_loop ?r1 ?st1 = parse_loop ?r2 st2" "ps_cce st2 = i" "ps_heap st2 i = Some (e1\<lparr>ce_child := c\<rparr>)"
      "conf_rep (ps_heap st2) (ps_free ?st1) (ps_free st2) (Some i) None c ch" "\<forall>j \<ge> ps_free st2. ps_heap st2 j = None"
      "ps_free ?st1 \<le> ps_free st2" "same_below (ps_free ?st1) i (ps_heap ?st1) (ps_heap st2)"
      by (rule parse_children [OF sep st1(1,2) e1(3) st1(3,4) rch])
    define e3 where "e3 = e1\<lparr>ce_child := c, ce_closed := True\<rparr>"
    define st3 where "st3 = st2\<lparr>ps_heap := (ps_heap st2)(i \<mapsto> e3)\<rparr>"
    have p3: "parse_token TOKEN_COLON [] st2 = Some (Some st3)"
      using st2(2,3) by (simp add: parse_token_def upd_ce_def st3_def e3_def)
    obtain l3 where l3: "parse_loop ?r2 st2 = parse_loop ?r3 (st3\<lparr>ps_line := l3\<rparr>)" (is "_ = parse_loop _ ?st3")
      by (rule parse_tok_blanks [OF sep gettoken_simple(1) _ p3]) simp
    have rd: "parse_loop (print_conf sep (Ctree t v ch # ts) @ r) st = parse_loop ?r3 ?st3"
      using hd st2(1) l3 by (cases v; cases "ch = []") simp_all
    have s3: "ps_cce ?st3 = i" "ps_heap ?st3 i = Some e3" "ps_free ?st3 = ps_free st2" "i < ps_free ?st3"
      "\<forall>j \<ge> ps_free ?st3. ps_heap ?st3 j = None" "same_below (ps_free st) i (ps_heap st) (ps_heap ?st3)"
      using st2 i by (auto simp: st3_def same_below_def)
    have c3: "conf_rep (ps_heap ?st3) (ps_free st) (ps_free ?st3) (Some i) None c ch"
      using conf_rep_frame [OF st2(4), of "ps_heap ?st3"] i s3(3) by (simp add: st3_def)
    have f3: "ce_closed e3" "ce_token e3 = Some t" "ce_value e3 = v" "ce_prev e3 = ce_prev e" "ce_parent e3 = ce_parent e"
      "ce_child e3 = c" "ce_next e3 = None" using e1 by (simp_all add: e3_def)
    show ?thesis
    proof (cases "ts = []")
      case True
      have "entry_rep (ps_heap ?st3) (ps_free st) (ps_free ?st3) i (ce_parent e) (ce_prev e) (Ctree t v ch # ts)"
        unfolding entry_rep_def using s3(2) c3 f3 True
        by (intro exI [of _ e3] exI [of _ "Ctree t v ch"] exI [of _ ts] exI [of _ "ps_free ?st3"]) (use st2(6) s3(3) in simp)
      moreover have "closed_at ?st3 (ce_parent e)" using s3 f3 by (simp add: closed_at_def)
      ultimately show ?thesis using rd True s3 st2(6) by (intro exI [of _ ?st3]) simp
    next
      case False
      have rts: "reads sep ts" using 2(2) sep good(4) False by blast
      obtain st4 where st4: "parse_loop ?r3 ?st3 = parse_loop r st4" "closed_at st4 (ce_parent e3)"
        "ps_heap st4 i = Some (e3\<lparr>ce_next := Some (ps_free ?st3)\<rparr>)"
        "conf_rep (ps_heap st4) (ps_free ?st3) (ps_free st4) (ce_parent e3) (Some i) (Some (ps_free ?st3)) ts" "ps_free ?st3 \<le> ps_free st4"
        "same_below (ps_free ?st3) i (ps_heap ?st3) (ps_heap st4)"
        by (rule parse_next [OF s3(1,2) f3(1) s3(4,5) rts sep good(4) False])
      have le: "ps_free st \<le> ps_free ?st3" using s3(3) st2(6) by simp
      have c4: "conf_rep (ps_heap st4) (ps_free st) (ps_free ?st3) (Some i) None c ch"
        using conf_rep_frame [OF c3, of "ps_heap st4"] st4(6) i by (simp add: same_below_def)
      have "entry_rep (ps_heap st4) (ps_free st) (ps_free st4) i (ce_parent e) (ce_prev e) (Ctree t v ch # ts)"
        unfolding entry_rep_def using st4(3,4,5) c4 f3 le
        by (intro exI [of _ "e3\<lparr>ce_next := Some (ps_free ?st3)\<rparr>"] exI [of _ "Ctree t v ch"] exI [of _ ts] exI [of _ "ps_free ?st3"]) simp
      moreover have "same_below (ps_free st) i (ps_heap st) (ps_heap st4)"
        using s3(6) st4(6) le by (auto simp: same_below_def)
      ultimately show ?thesis using rd st4(1,2,5) le f3 by (intro exI [of _ st4]) simp
    qed
  qed
  then show ?case unfolding reads_def by blast
qed simp

section \<open>Properties\<close>

lemma parse_print_conf:
  assumes "blanks sep" "good_conf ts" "ts \<noteq> []"
  shows "\<exists>h i n. libconf_parse (print_conf sep ts) = Some (Some (h, i)) \<and> conf_rep h 0 n None None (Some i) ts"
proof -
  have b: "blank_at parse_start 0 centry_new" by (simp add: blank_at_def parse_start_def centry_new_def)
  obtain st2 where st2: "parse_loop (print_conf sep ts @ []) parse_start = parse_loop [] st2"
    "entry_rep (ps_heap st2) (ps_free parse_start) (ps_free st2) 0 None None ts"
    using reads_conf [OF assms, unfolded reads_def, rule_format, OF b, of "[]"] by (auto simp: centry_new_def)
  have "parse_loop [] st2 = Some (Some st2)" by (simp add: parse_loop.simps)
  then have "libconf_parse (print_conf sep ts) = Some (Some (ps_heap st2, 0))" using st2(1) by (simp add: libconf_parse_def)
  moreover have "conf_rep (ps_heap st2) 0 (ps_free st2) None None (Some 0) ts" by (rule entry_rep_conf [OF st2(2)]) (simp_all add: parse_start_def)
  ultimately show ?thesis by blast
qed

text \<open>C18: Reading what was printed: any configuration, of any depth, whose tokens and values are
  short enough and free of special characters, is read as the same configuration, whatever
  blanks and line ends separate the tokens; all links of the structure are right.\<close>

theorem libconf_parse_print:
  assumes "blanks sep" "good_conf ts" "ts \<noteq> []"
  shows "\<exists>h i n. libconf_parse (print_conf sep ts) = Some (Some (h, i)) \<and> conf_rep h 0 n None None (Some i) ts"
  by (rule parse_print_conf [OF assms])

theorem libconf_parse_print_witness:
  "\<exists>h i n. libconf_parse (print_conf [NL, CHR '' ''] [Ctree ''adapter'' (Some ''0'') [Ctree ''stuck'' (Some ''5 s'') []]]) = Some (Some (h, i)) \<and>
     conf_rep h 0 n None None (Some i) [Ctree ''adapter'' (Some ''0'') [Ctree ''stuck'' (Some ''5 s'') []]]"
  by (rule libconf_parse_print)
    (simp_all add: blanks_def good_token_def good_value_def ends_token_def NL_def TAB_def DQ_def NUL_def)

text \<open>The last token of a file that is not quoted and has nothing behind it is lost: the file is
  read as if it ended before it.\<close>

theorem libconf_last_token_lost:
  assumes "blanks sep" "\<forall>c \<in> set t. \<not> ends_token c \<and> c \<noteq> DQ" "t \<noteq> []" "length t \<le> 256"
  shows "libconf_parse (sep @ t) = Some (Some ([0 \<mapsto> centry_new], 0))"
proof -
  have u: "\<forall>c \<in> set x. \<not> ends_token c \<Longrightarrow> length tb + length x \<le> 256 \<Longrightarrow> unquoted tb x = Some (TOKEN_EOF, tb @ x, [])" for tb x
    by (induction x arbitrary: tb) (simp_all add: tb_put_def)
  obtain c t' where t: "t = c # t'" using assms(3) by (cases t) auto
  have "gettoken t = unquoted [] t" using assms(2) by (auto simp: t ends_token_def)
  then have g: "gettoken t = Some (TOKEN_EOF, t, [])" using u [of t "[]"] assms(2,4) by simp
  have "\<forall>c \<in> set sep. c \<in> {CHR '' '', TAB, NL}" using assms(1) by (simp add: blanks_def)
  then obtain l where "parse_loop (sep @ t) parse_start = parse_loop t (parse_start\<lparr>ps_line := l\<rparr>)" by (rule parse_blanks)
  then show ?thesis using g by (simp add: libconf_parse_def parse_loop.simps [of t] parse_start_def)
qed

theorem libconf_last_token_lost_witness: "libconf_parse (''  '' @ ''option'') = Some (Some ([0 \<mapsto> centry_new], 0))"
  by (rule libconf_last_token_lost) (simp_all add: blanks_def ends_token_def NL_def TAB_def DQ_def)

end
