(* ===== verification/Libconf_Validate.thy ===== *)
theory Libconf_Validate
  imports Libconf
begin

text \<open>
  The checks of a parsed configuration, the second half of \<^verbatim>\<open>libconf.c\<close>: every entry is looked up in
  the table of its level, its value is read as the type the table asks for, the entries of an option
  are counted, and the callbacks of the application are called.

  The loops follow the links of the store, which could be a cycle, so they are partial functions:
  \<open>None\<close> is a loop that does not end or a memory fault.  \<^verbatim>\<open>getaddrinfo\<close> is the function \<open>gai\<close>, which
  gives the family of the first address; the callbacks are a predicate \<open>cb\<close> on the list of all
  calls up to the present one, which is true if the callback returns a number that is not zero.
\<close>

section \<open>Values\<close>

definition PF_INET :: int where "PF_INET = 2"
definition PF_INET6 :: int where "PF_INET6 = 10"

definition LCO_OPTIONAL :: nat where "LCO_OPTIONAL = 0"
definition LCO_UNIQ :: nat where "LCO_UNIQ = 1"
definition LCO_LATECB :: nat where "LCO_LATECB = 2"

text \<open>A flag is given by the place of its bit.\<close>

definition has_opt :: "nat \<Rightarrow> ventry \<Rightarrow> bool" where
  "has_opt k ve = odd (ve_opt ve div 2 ^ k)"

type_synonym getaddrinfo = "string \<Rightarrow> int option"

text \<open>The switch over the type: the value for the callback, or \<open>None\<close> for a value that is rejected.\<close>

definition read_value :: "getaddrinfo \<Rightarrow> lcv \<Rightarrow> string \<Rightarrow> lc_value option" where
  "read_value gai ty v =
     (case ty of
        LCV_NONE \<Rightarrow> None
      | LCV_STRING \<Rightarrow> Some (Lc_string v)
      | LCV_BOOL \<Rightarrow>
          if c_strcasecmp ''true'' v = 0 \<or> c_strcasecmp ''yes'' v = 0 \<or> c_strcasecmp ''on'' v = 0 \<or> c_strcasecmp ''1'' v = 0
          then Some (Lc_num 1)
          else if c_strcasecmp ''false'' v = 0 \<or> c_strcasecmp ''no'' v = 0 \<or> c_strcasecmp ''off'' v = 0 \<or> c_strcasecmp ''0'' v = 0
          then Some (Lc_num 0)
          else None
      | LCV_NUM \<Rightarrow> (case c_strtol 0 v of (n, r) \<Rightarrow> if r \<noteq> [] then None else Some (Lc_num n))
      | LCV_HEX \<Rightarrow> (case c_strtol 16 v of (n, r) \<Rightarrow> if r \<noteq> [] then None else Some (Lc_num n))
      | _ \<Rightarrow>
          (case gai v of
             None \<Rightarrow> None
           | Some fam \<Rightarrow>
               if ty = LCV_IPV6ADDR \<and> fam \<noteq> PF_INET6 then None
               else if ty = LCV_IPV4ADDR \<and> fam \<noteq> PF_INET then None
               else Some (Lc_string v)))"

text \<open>An option of a table always has a name; the entry without one ends the table.\<close>

definition libconf_validate_value :: "getaddrinfo \<Rightarrow> cid \<Rightarrow> ventry \<Rightarrow> cheap \<Rightarrow> (bool \<times> cheap) option" where
  "libconf_validate_value gai i ve h = do {
     e \<leftarrow> h i;
     if ve_type ve \<noteq> LCV_NONE \<and> ce_value e = None \<and> \<not> has_opt LCO_OPTIONAL ve then Some (False, h)
     else
       (case ce_value e of
          None \<Rightarrow> Some (True, h)
        | Some v \<Rightarrow>
            (case read_value gai (ve_type ve) v of
               None \<Rightarrow> Some (False, h)
             | Some x \<Rightarrow> do { h \<leftarrow> upd_ce i (\<lambda>e. e\<lparr>ce_cbvalue := x\<rparr>) h; Some (True, h) }))
   }"

section \<open>The passes over the tree\<close>

fun find_token :: "string \<Rightarrow> nat \<Rightarrow> ventry list \<Rightarrow> (nat \<times> ventry) option" where
  "find_token t k [] = None"
| "find_token t k (ve # tbl) = (if c_strcasecmp t (ve_name ve) = 0 then Some (k, ve) else find_token t (k + 1) tbl)"

definition libconf_find_token :: "centry \<Rightarrow> ventry list \<Rightarrow> (nat \<times> ventry) option option" where
  "libconf_find_token e tbl = (if tbl = [] then Some None else do { t \<leftarrow> ce_token e; Some (find_token t 0 tbl) })"

text \<open>\<open>first\<close> is the first entry of the list, which holds the number of entries.\<close>

partial_function (option) validate_token_loop :: "cid \<Rightarrow> ventry list \<Rightarrow> cid option \<Rightarrow> cheap \<Rightarrow> (bool \<times> cheap) option" where
  "validate_token_loop first tbl ce h =
     (case ce of
        None \<Rightarrow> Some (True, h)
      | Some i \<Rightarrow> do {
          e \<leftarrow> h i;
          fv \<leftarrow> libconf_find_token e tbl;
          case fv of
            None \<Rightarrow> Some (False, h)
          | Some kve \<Rightarrow> do {
              h \<leftarrow> upd_ce i (\<lambda>e. e\<lparr>ce_ventry := Some kve\<rparr>) h;
              r \<leftarrow> (case ce_child e of
                      None \<Rightarrow> Some (True, h)
                    | Some c \<Rightarrow>
                        (case ve_child (snd kve) of
                           None \<Rightarrow> Some (False, h)
                         | Some sub \<Rightarrow> validate_token_loop c sub (Some c) h));
              if \<not> fst r then Some (False, snd r)
              else do {
                h \<leftarrow> upd_ce first (\<lambda>e. e\<lparr>ce_noce := ce_noce e + 1\<rparr>) (snd r);
                e \<leftarrow> h i;
                validate_token_loop first tbl (ce_next e) h
              }
            }
        })"

definition libconf_validate_token :: "cid option \<Rightarrow> ventry list \<Rightarrow> cheap \<Rightarrow> (bool \<times> cheap) option" where
  "libconf_validate_token ce tbl h = (case ce of None \<Rightarrow> Some (True, h) | Some i \<Rightarrow> validate_token_loop i tbl (Some i) h)"

partial_function (option) libconf_validate_values :: "getaddrinfo \<Rightarrow> cid option \<Rightarrow> cheap \<Rightarrow> (bool \<times> cheap) option" where
  "libconf_validate_values gai ce h =
     (case ce of
        None \<Rightarrow> Some (True, h)
      | Some i \<Rightarrow> do {
          e \<leftarrow> h i;
          kve \<leftarrow> ce_ventry e;
          r \<leftarrow> libconf_validate_value gai i (snd kve) h;
          if \<not> fst r then Some (False, snd r)
          else do {
            r \<leftarrow> (case ce_child e of None \<Rightarrow> Some (True, snd r) | Some c \<Rightarrow> libconf_validate_values gai (Some c) (snd r));
            if \<not> fst r then Some (False, snd r)
            else do { e \<leftarrow> snd r i; libconf_validate_values gai (ce_next e) (snd r) }
          }
        })"

text \<open>The entries of the option at place \<open>k\<close>: the inner \<open>None\<close> is a value that is there twice.  The
  array of values has room for one more than the count of the first entry.\<close>

partial_function (option) valueopt_scan ::
    "nat \<Rightarrow> nat \<Rightarrow> ventry \<Rightarrow> cheap \<Rightarrow> cid option \<Rightarrow> nat \<Rightarrow> string list \<Rightarrow> nat option option" where
  "valueopt_scan room k ve h ce optcount tuval =
     (case ce of
        None \<Rightarrow> Some (Some optcount)
      | Some i \<Rightarrow> do {
          e \<leftarrow> h i;
          if ce_ventry e \<noteq> Some (k, ve) then valueopt_scan room k ve h (ce_next e) optcount tuval
          else
            (case ce_value e of
               None \<Rightarrow> valueopt_scan room k ve h (ce_next e) (optcount + 1) tuval
             | Some v \<Rightarrow>
                 if \<not> has_opt LCO_UNIQ ve then valueopt_scan room k ve h (ce_next e) (optcount + 1) tuval
                 else if \<exists>u \<in> set tuval. c_strcasecmp v u = 0 then Some None
                 else if room \<le> length tuval then None
                 else valueopt_scan room k ve h (ce_next e) (optcount + 1) (tuval @ [v]))
        })"

definition count_ok :: "ventry \<Rightarrow> nat \<Rightarrow> bool" where
  "count_ok ve n \<longleftrightarrow> \<not> (ve_max ve \<noteq> 0 \<and> int n > ve_max ve) \<and> \<not> (ve_min ve \<noteq> 0 \<and> int n < ve_min ve)"

fun valueopt_table :: "nat \<Rightarrow> nat \<Rightarrow> ventry list \<Rightarrow> cheap \<Rightarrow> cid option \<Rightarrow> bool option" where
  "valueopt_table room k [] h ce = Some True"
| "valueopt_table room k (ve # tbl) h ce = do {
     n \<leftarrow> valueopt_scan room k ve h ce 0 [];
     case n of
       None \<Rightarrow> Some False
     | Some n \<Rightarrow> if count_ok ve n then valueopt_table room (k + 1) tbl h ce else Some False
   }"

definition valueopt_level :: "cheap \<Rightarrow> cid \<Rightarrow> ventry list \<Rightarrow> bool option" where
  "valueopt_level h c tbl = do { e \<leftarrow> h c; valueopt_table (ce_noce e + 1) 0 tbl h (Some c) }"

partial_function (option) valueopt_children :: "cheap \<Rightarrow> cid option \<Rightarrow> bool option" where
  "valueopt_children h ce =
     (case ce of
        None \<Rightarrow> Some True
      | Some i \<Rightarrow> do {
          e \<leftarrow> h i;
          ok \<leftarrow> (case ce_child e of
                   None \<Rightarrow> Some True
                 | Some c \<Rightarrow> do {
                     kve \<leftarrow> ce_ventry e;
                     sub \<leftarrow> ve_child (snd kve);
                     ok \<leftarrow> valueopt_level h c sub;
                     if ok then valueopt_children h (Some c) else Some False
                   });
          if ok then valueopt_children h (ce_next e) else Some False
        })"

definition libconf_validate_valueopt :: "cid \<Rightarrow> ventry list \<Rightarrow> cheap \<Rightarrow> bool option" where
  "libconf_validate_valueopt c tbl h = do {
     ok \<leftarrow> valueopt_level h c tbl;
     if ok then valueopt_children h (Some c) else Some False
   }"

text \<open>A call is the callback, the entry and the value, which is \<open>None\<close> for the late call.  Callbacks
  read the entries and do not change them.\<close>

type_synonym call = "nat \<times> cid \<times> lc_value option"

definition do_call :: "(call list \<Rightarrow> bool) \<Rightarrow> call \<Rightarrow> call list \<Rightarrow> bool \<times> call list" where
  "do_call cb c log = (cb (log @ [c]), log @ [c])"

partial_function (option) libconf_validate_callback ::
    "(call list \<Rightarrow> bool) \<Rightarrow> cheap \<Rightarrow> cid option \<Rightarrow> call list \<Rightarrow> (bool \<times> call list) option" where
  "libconf_validate_callback cb h ce log =
     (case ce of
        None \<Rightarrow> Some (True, log)
      | Some i \<Rightarrow> do {
          e \<leftarrow> h i;
          kve \<leftarrow> ce_ventry e;
          let r = (case ve_cback (snd kve) of None \<Rightarrow> (True, log) | Some f \<Rightarrow> do_call cb (f, i, Some (ce_cbvalue e)) log);
          if \<not> fst r then Some r
          else do {
            r \<leftarrow> (case ce_child e of None \<Rightarrow> Some r | Some c \<Rightarrow> libconf_validate_callback cb h (Some c) (snd r));
            if \<not> fst r then Some r
            else do {
              r \<leftarrow> (if has_opt LCO_LATECB (snd kve)
                    then do { f \<leftarrow> ve_cback (snd kve); Some (do_call cb (f, i, None) (snd r)) } else Some r);
              if \<not> fst r then Some r else libconf_validate_callback cb h (ce_next e) (snd r)
            }
          }
        })"

definition libconf_validate ::
    "getaddrinfo \<Rightarrow> (call list \<Rightarrow> bool) \<Rightarrow> cid \<Rightarrow> ventry list \<Rightarrow> cheap \<Rightarrow> (bool \<times> cheap \<times> call list) option" where
  "libconf_validate gai cb ce tbl h = do {
     (ok, h) \<leftarrow> libconf_validate_token (Some ce) tbl h;
     if \<not> ok then Some (False, h, [])
     else do {
       (ok, h) \<leftarrow> libconf_validate_values gai (Some ce) h;
       if \<not> ok then Some (False, h, [])
       else do {
         ok \<leftarrow> libconf_validate_valueopt ce tbl h;
         if \<not> ok then Some (False, h, [])
         else do { (ok, log) \<leftarrow> libconf_validate_callback cb h (Some ce) []; Some (ok, h, log) }
       }
     }
   }"

text \<open>Freeing an entry takes it out of the store; an entry that is not there is a memory fault.\<close>

partial_function (option) libconf_free :: "cid option \<Rightarrow> cheap \<Rightarrow> cheap option" where
  "libconf_free ce h =
     (case ce of
        None \<Rightarrow> Some h
      | Some i \<Rightarrow> do {
          e \<leftarrow> h i;
          h \<leftarrow> (case ce_child e of None \<Rightarrow> Some h | Some c \<Rightarrow> libconf_free (Some c) h);
          e \<leftarrow> h i;
          libconf_free (ce_next e) (h(i := None))
        })"

section \<open>What a configuration promises\<close>

definition sub_of :: "ventry \<Rightarrow> ventry list" where
  "sub_of ve = (case ve_child ve of None \<Rightarrow> [] | Some t \<Rightarrow> t)"

text \<open>Every option is in the table of its level, and options with a block are those that may have one.\<close>

fun tokens_ok :: "ventry list \<Rightarrow> ctree list \<Rightarrow> bool" where
  "tokens_ok tbl [] = True"
| "tokens_ok tbl (Ctree t v ch # ts) =
     (case find_token t 0 tbl of
        None \<Rightarrow> False
      | Some (k, ve) \<Rightarrow> (ch \<noteq> [] \<longrightarrow> ve_child ve \<noteq> None \<and> tokens_ok (sub_of ve) ch) \<and> tokens_ok tbl ts)"

definition value_ok :: "getaddrinfo \<Rightarrow> ventry \<Rightarrow> string option \<Rightarrow> bool" where
  "value_ok gai ve v =
     (case v of
        None \<Rightarrow> ve_type ve = LCV_NONE \<or> has_opt LCO_OPTIONAL ve
      | Some v \<Rightarrow> read_value gai (ve_type ve) v \<noteq> None)"

fun values_ok :: "getaddrinfo \<Rightarrow> ventry list \<Rightarrow> ctree list \<Rightarrow> bool" where
  "values_ok gai tbl [] = True"
| "values_ok gai tbl (Ctree t v ch # ts) =
     (case find_token t 0 tbl of
        None \<Rightarrow> False
      | Some (k, ve) \<Rightarrow> value_ok gai ve v \<and> values_ok gai (sub_of ve) ch \<and> values_ok gai tbl ts)"

definition entries_of :: "ventry list \<Rightarrow> nat \<Rightarrow> ctree list \<Rightarrow> ctree list" where
  "entries_of tbl k ts = filter (\<lambda>c. find_token (ct_token c) 0 tbl = Some (k, tbl ! k)) ts"

definition level_ok :: "ventry list \<Rightarrow> ctree list \<Rightarrow> bool" where
  "level_ok tbl ts \<longleftrightarrow> (\<forall>k < length tbl. count_ok (tbl ! k) (length (entries_of tbl k ts)) \<and>
     (has_opt LCO_UNIQ (tbl ! k) \<longrightarrow> distinct (map fold_case (List.map_filter ct_value (entries_of tbl k ts)))))"

fun counts_below :: "ventry list \<Rightarrow> ctree list \<Rightarrow> bool" where
  "counts_below tbl [] = True"
| "counts_below tbl (Ctree t v ch # ts) =
     ((case find_token t 0 tbl of
         None \<Rightarrow> False
       | Some (k, ve) \<Rightarrow> ch \<noteq> [] \<longrightarrow> level_ok (sub_of ve) ch \<and> counts_below (sub_of ve) ch) \<and> counts_below tbl ts)"

definition conf_valid :: "getaddrinfo \<Rightarrow> ventry list \<Rightarrow> ctree list \<Rightarrow> bool" where
  "conf_valid gai tbl ts \<longleftrightarrow> tokens_ok tbl ts \<and> values_ok gai tbl ts \<and> level_ok tbl ts \<and> counts_below tbl ts"

text \<open>The calls a valid configuration asks for, an entry before its block and the late call behind it.\<close>

definition cb_value :: "getaddrinfo \<Rightarrow> ventry \<Rightarrow> string option \<Rightarrow> lc_value \<Rightarrow> lc_value" where
  "cb_value gai ve v old = (case v of None \<Rightarrow> old | Some v \<Rightarrow> the (read_value gai (ve_type ve) v))"

fun calls_by :: "(ventry \<Rightarrow> string option \<Rightarrow> lc_value \<Rightarrow> lc_value) \<Rightarrow> cheap \<Rightarrow> ventry list \<Rightarrow> cid option \<Rightarrow> ctree list \<Rightarrow> call list" where
  "calls_by F h tbl p [] = []"
| "calls_by F h tbl p (Ctree t v ch # ts) =
     (case (p, find_token t 0 tbl) of
        (Some i, Some (k, ve)) \<Rightarrow>
          (case h i of
             None \<Rightarrow> []
           | Some e \<Rightarrow>
               (case ve_cback ve of None \<Rightarrow> [] | Some f \<Rightarrow> [(f, i, Some (F ve v (ce_cbvalue e)))]) @
               calls_by F h (sub_of ve) (ce_child e) ch @
               (if has_opt LCO_LATECB ve then (case ve_cback ve of None \<Rightarrow> [] | Some f \<Rightarrow> [(f, i, None)]) else []) @
               calls_by F h tbl (ce_next e) ts)
      | _ \<Rightarrow> [])"

definition conf_calls :: "getaddrinfo \<Rightarrow> cheap \<Rightarrow> ventry list \<Rightarrow> cid option \<Rightarrow> ctree list \<Rightarrow> call list" where
  "conf_calls gai = calls_by (cb_value gai)"

text \<open>The calls that are made, up to the first one that is refused.\<close>

fun run_calls :: "(call list \<Rightarrow> bool) \<Rightarrow> call list \<Rightarrow> call list \<Rightarrow> bool \<times> call list" where
  "run_calls cb log [] = (True, log)"
| "run_calls cb log (c # cs) = (if cb (log @ [c]) then run_calls cb (log @ [c]) cs else (False, log @ [c]))"

text \<open>Options with a late call have a callback.\<close>

fun late_ok :: "ventry list \<Rightarrow> ctree list \<Rightarrow> bool" where
  "late_ok tbl [] = True"
| "late_ok tbl (Ctree t v ch # ts) =
     ((case find_token t 0 tbl of
         None \<Rightarrow> True
       | Some (k, ve) \<Rightarrow> (has_opt LCO_LATECB ve \<longrightarrow> ve_cback ve \<noteq> None) \<and> late_ok (sub_of ve) ch) \<and> late_ok tbl ts)"

section \<open>Stores that hold the same configuration\<close>

definition links :: "centry \<Rightarrow> centry" where
  "links e = e\<lparr>ce_noce := 0, ce_ventry := None, ce_cbvalue := Lc_none\<rparr>"

lemma links_eq: "links e = links e' \<longleftrightarrow> ce_prev e = ce_prev e' \<and> ce_next e = ce_next e' \<and> ce_child e = ce_child e' \<and>
    ce_parent e = ce_parent e' \<and> ce_token e = ce_token e' \<and> ce_value e = ce_value e' \<and> ce_closed e = ce_closed e' \<and>
    ce_tline e = ce_tline e' \<and> ce_vline e = ce_vline e'"
  by (cases e; cases e') (auto simp: links_def)

text \<open>Every entry of the first store is in the second one, with the fields that \<open>Q\<close> compares.\<close>

definition store_le :: "(cid \<Rightarrow> centry \<Rightarrow> centry \<Rightarrow> bool) \<Rightarrow> cheap \<Rightarrow> cheap \<Rightarrow> bool" where
  "store_le Q h h' \<longleftrightarrow> (\<forall>j e. h j = Some e \<longrightarrow> (\<exists>e'. h' j = Some e' \<and> links e' = links e \<and> Q j e e'))"

lemma store_leD: "store_le Q h h' \<Longrightarrow> h j = Some e \<Longrightarrow> \<exists>e'. h' j = Some e' \<and> links e' = links e \<and> Q j e e'"
  by (simp add: store_le_def)

lemma store_le_refl: "(\<And>j e. Q j e e) \<Longrightarrow> store_le Q h h"
  by (simp add: store_le_def)

lemma store_le_mono: "store_le Q h h' \<Longrightarrow> (\<And>j e e'. Q j e e' \<Longrightarrow> R j e e') \<Longrightarrow> store_le R h h'"
  unfolding store_le_def by blast

lemma store_le_trans:
  assumes "store_le Q h h1" "store_le R h1 h2" "\<And>j a b c. Q j a b \<Longrightarrow> R j b c \<Longrightarrow> S j a c"
  shows "store_le S h h2"
  unfolding store_le_def
proof (intro allI impI)
  fix j e
  assume "h j = Some e"
  then obtain e1 where e1: "h1 j = Some e1" "links e1 = links e" "Q j e e1" using store_leD [OF assms(1)] by blast
  then obtain e2 where "h2 j = Some e2" "links e2 = links e1" "R j e1 e2" using store_leD [OF assms(2)] by blast
  then show "\<exists>e'. h2 j = Some e' \<and> links e' = links e \<and> S j e e'" using e1 assms(3) by auto
qed

lemma store_le_upd: "h i = Some e \<Longrightarrow> links e' = links e \<Longrightarrow> Q i e e' \<Longrightarrow> (\<And>j e. Q j e e) \<Longrightarrow> store_le Q h (h(i \<mapsto> e'))"
  by (auto simp: store_le_def)

lemma ctrees_induct [case_names Nil Cons]:
  assumes "P []" "\<And>t v ch ts. P ch \<Longrightarrow> P ts \<Longrightarrow> P (Ctree t v ch # ts)"
  shows "P ts"
  by (induction ts rule: good_conf.induct) (use assms in auto)

lemma conf_rep_consE:
  assumes "conf_rep h lo hi par prv p (Ctree t v ch # ts)"
  obtains i e m where "p = Some i" "lo \<le> i" "i < m" "m \<le> hi" "h i = Some e" "ce_token e = Some t" "ce_value e = v"
    "conf_rep h (Suc i) m (Some i) None (ce_child e) ch" "conf_rep h m hi par (Some i) (ce_next e) ts"
  using assms by auto

lemma conf_rep_links: "conf_rep h lo hi par prv p ts \<Longrightarrow> store_le Q h h' \<Longrightarrow> conf_rep h' lo hi par prv p ts"
proof (induction ts arbitrary: lo hi par prv p rule: ctrees_induct)
  case (Cons t v ch ts)
  obtain i e m where i: "p = Some i" "lo \<le> i" "i < m" "m \<le> hi" "h i = Some e" "ce_token e = Some t" "ce_value e = v"
    "ce_closed e" "ce_prev e = prv" "ce_parent e = par"
    "conf_rep h (Suc i) m (Some i) None (ce_child e) ch" "conf_rep h m hi par (Some i) (ce_next e) ts"
    using Cons.prems(1) by auto
  obtain e' where "h' i = Some e'" "links e' = links e" using store_leD [OF Cons.prems(2) i(5)] by blast
  then show ?case using i Cons.IH(1) [OF i(11) Cons.prems(2)] Cons.IH(2) [OF i(12) Cons.prems(2)] by (auto simp: links_eq)
qed simp

lemma conf_rep_first: "conf_rep h lo hi par prv p ts \<Longrightarrow> p = None \<longleftrightarrow> ts = []"
  by (cases ts rule: good_conf.cases) auto

lemma conf_rep_first_in: "conf_rep h lo hi par prv (Some c) ts \<Longrightarrow> lo \<le> c \<and> c < hi \<and> (\<exists>e. h c = Some e)"
  by (cases ts rule: good_conf.cases) auto

section \<open>The pass over the options\<close>

text \<open>What this pass leaves: every entry points to its option, and the first entry of a list knows
  how many there are.\<close>

fun annot :: "cheap \<Rightarrow> ventry list \<Rightarrow> cid option \<Rightarrow> ctree list \<Rightarrow> bool" where
  "annot h tbl p [] = True"
| "annot h tbl p (Ctree t v ch # ts) = (\<exists>i e kve. p = Some i \<and> h i = Some e \<and> find_token t 0 tbl = Some kve \<and>
     ce_ventry e = Some kve \<and>
     (ch \<noteq> [] \<longrightarrow> ve_child (snd kve) \<noteq> None \<and> (\<exists>c ec. ce_child e = Some c \<and> h c = Some ec \<and> length ch \<le> ce_noce ec) \<and>
        annot h (sub_of (snd kve)) (ce_child e) ch) \<and>
     annot h tbl (ce_next e) ts)"

lemma annot_frame:
  assumes "conf_rep h lo hi par prv p ts" "annot h tbl p ts"
    and "store_le (\<lambda>j e e'. ce_noce e \<le> ce_noce e' \<and> (lo \<le> j \<and> j < hi \<longrightarrow> ce_ventry e' = ce_ventry e)) h h'"
  shows "annot h' tbl p ts"
  using assms
proof (induction ts arbitrary: lo hi par prv p tbl rule: ctrees_induct)
  case (Cons t v ch ts)
  let ?Q = "\<lambda>lo hi j e e'. ce_noce e \<le> ce_noce e' \<and> (lo \<le> j \<and> j < hi \<longrightarrow> ce_ventry e' = ce_ventry e)"
  obtain i e m where i: "p = Some i" "lo \<le> i" "i < m" "m \<le> hi" "h i = Some e"
    and r: "conf_rep h (Suc i) m (Some i) None (ce_child e) ch" "conf_rep h m hi par (Some i) (ce_next e) ts"
    by (rule conf_rep_consE [OF Cons.prems(1)])
  obtain kve where a: "find_token t 0 tbl = Some kve" "ce_ventry e = Some kve" "annot h tbl (ce_next e) ts"
    and ach: "ch \<noteq> [] \<Longrightarrow> ve_child (snd kve) \<noteq> None \<and> (\<exists>c ec. ce_child e = Some c \<and> h c = Some ec \<and> length ch \<le> ce_noce ec) \<and>
        annot h (sub_of (snd kve)) (ce_child e) ch"
    using Cons.prems(2) i by auto
  have fr: "store_le (?Q (Suc i) m) h h'" "store_le (?Q m hi) h h'"
    using i by (auto intro: store_le_mono [OF Cons.prems(3)])
  obtain e' where e': "h' i = Some e'" "links e' = links e" "ce_ventry e' = ce_ventry e"
    using store_leD [OF Cons.prems(3) i(5)] i by auto
  have tl: "annot h' tbl (ce_next e) ts" by (rule Cons.IH(2) [OF r(2) a(3) fr(2)])
  have "ve_child (snd kve) \<noteq> None \<and> (\<exists>c ec. ce_child e = Some c \<and> h' c = Some ec \<and> length ch \<le> ce_noce ec) \<and>
      annot h' (sub_of (snd kve)) (ce_child e) ch" if ne: "ch \<noteq> []"
  proof -
    obtain c ec where c: "ce_child e = Some c" "h c = Some ec" "length ch \<le> ce_noce ec" using ach [OF ne] by blast
    obtain ec' where "h' c = Some ec'" "ce_noce ec \<le> ce_noce ec'" using store_leD [OF Cons.prems(3) c(2)] by blast
    moreover have "annot h' (sub_of (snd kve)) (ce_child e) ch" using Cons.IH(1) [OF r(1) _ fr(1)] ach [OF ne] by blast
    ultimately show ?thesis using ach [OF ne] c by auto
  qed
  then show ?case using i e' a tl by (auto simp: links_eq)
qed simp

abbreviation tok_frame :: "cid \<Rightarrow> cid \<Rightarrow> cid \<Rightarrow> centry \<Rightarrow> centry \<Rightarrow> bool" where
  "tok_frame lo hi j e e' \<equiv> ce_cbvalue e' = ce_cbvalue e \<and> ce_noce e \<le> ce_noce e' \<and> (lo \<le> j \<and> j < hi \<or> ce_ventry e' = ce_ventry e)"

lemma find_token_entry: "ce_token e = Some t \<Longrightarrow> libconf_find_token e tbl = Some (find_token t 0 tbl)"
  by (simp add: libconf_find_token_def)

lemma validate_token_tree:
  "conf_rep h lo hi par prv p ts \<Longrightarrow> h f = Some ef \<Longrightarrow>
   \<exists>ok h'. validate_token_loop f tbl p h = Some (ok, h') \<and> store_le (tok_frame lo hi) h h' \<and> ok = tokens_ok tbl ts \<and>
     (ok \<longrightarrow> annot h' tbl p ts \<and> (\<exists>ef'. h' f = Some ef' \<and> ce_noce ef + length ts \<le> ce_noce ef'))"
proof (induction ts arbitrary: lo hi par prv p f ef h tbl rule: ctrees_induct)
  case Nil
  then show ?case by (subst validate_token_loop.simps) (auto simp: store_le_refl)
next
  case (Cons t v ch ts)
  obtain i e m where i: "p = Some i" "lo \<le> i" "i < m" "m \<le> hi" "h i = Some e" "ce_token e = Some t"
    and r: "conf_rep h (Suc i) m (Some i) None (ce_child e) ch" "conf_rep h m hi par (Some i) (ce_next e) ts"
    by (rule conf_rep_consE [OF Cons.prems(1)])
  show ?case
  proof (cases "find_token t 0 tbl")
    case None
    then show ?thesis using i find_token_entry [OF i(6)]
      by (subst validate_token_loop.simps) (auto simp: store_le_refl)
  next
    case (Some kve)
    define e1 where "e1 = e\<lparr>ce_ventry := Some kve\<rparr>"
    define h1 where "h1 = h(i \<mapsto> e1)"
    define sub where "sub = sub_of (snd kve)"
    have f1: "store_le (tok_frame lo hi) h h1" unfolding h1_def
      by (rule store_le_upd [where e = e]) (use i in \<open>auto simp: e1_def links_eq\<close>)
    have r1: "conf_rep h1 (Suc i) m (Some i) None (ce_child e) ch" "conf_rep h1 m hi par (Some i) (ce_next e) ts"
      using r f1 by (auto intro: conf_rep_links)
    let ?child = "case ce_child e of None \<Rightarrow> Some (True, h1) | Some c \<Rightarrow>
        (case ve_child (snd kve) of None \<Rightarrow> Some (False, h1) | Some sub \<Rightarrow> validate_token_loop c sub (Some c) h1)"
    have u1: "upd_ce i (\<lambda>e. e\<lparr>ce_ventry := Some kve\<rparr>) h = Some h1" using i(5) by (simp add: upd_ce_def h1_def e1_def)
    have loop: "validate_token_loop f tbl p h = do {
        r \<leftarrow> ?child;
        if \<not> fst r then Some (False, snd r)
        else do {
          h \<leftarrow> upd_ce f (\<lambda>e. e\<lparr>ce_noce := ce_noce e + 1\<rparr>) (snd r);
          e \<leftarrow> h i;
          validate_token_loop f tbl (ce_next e) h
        }
      }"
      using i find_token_entry [OF i(6)] Some
      by (subst validate_token_loop.simps) (simp add: u1)
    have "\<exists>ok h2. ?child = Some (ok, h2) \<and> store_le (tok_frame (Suc i) m) h1 h2 \<and>
        ok = (ch \<noteq> [] \<longrightarrow> ve_child (snd kve) \<noteq> None \<and> tokens_ok sub ch) \<and>
        (ok \<longrightarrow> ch \<noteq> [] \<longrightarrow> ve_child (snd kve) \<noteq> None \<and> annot h2 sub (ce_child e) ch \<and>
           (\<exists>c ec. ce_child e = Some c \<and> h2 c = Some ec \<and> length ch \<le> ce_noce ec))"
    proof (cases "ce_child e")
      case None
      then show ?thesis using conf_rep_first [OF r(1)] by (auto simp: store_le_refl)
    next
      case c: (Some c)
      then have ne: "ch \<noteq> []" using conf_rep_first [OF r(1)] by simp
      obtain ec where ec: "h1 c = Some ec" using conf_rep_first_in r1(1) c by metis
      show ?thesis
      proof (cases "ve_child (snd kve)")
        case None
        then show ?thesis using c ne by (auto simp: store_le_refl)
      next
        case s: (Some s)
        then have "s = sub" by (simp add: sub_def sub_of_def)
        then show ?thesis using Cons.IH(1) [OF r1(1) ec, of sub] c s ne by fastforce
      qed
    qed
    then obtain ok h2 where h2: "?child = Some (ok, h2)" "store_le (tok_frame (Suc i) m) h1 h2"
        "ok = (ch \<noteq> [] \<longrightarrow> ve_child (snd kve) \<noteq> None \<and> tokens_ok sub ch)"
      and ach: "ok \<Longrightarrow> ch \<noteq> [] \<Longrightarrow> ve_child (snd kve) \<noteq> None \<and> annot h2 sub (ce_child e) ch \<and>
           (\<exists>c ec. ce_child e = Some c \<and> h2 c = Some ec \<and> length ch \<le> ce_noce ec)" by auto
    have f2: "store_le (tok_frame lo hi) h h2"
      by (rule store_le_trans [OF f1 h2(2)]) (use i in auto)
    have spec: "tokens_ok tbl (Ctree t v ch # ts) = (ok \<and> tokens_ok tbl ts)"
      using Some h2(3) by (cases kve) (simp add: sub_def)
    show ?thesis
    proof (cases ok)
      case False
      then have "validate_token_loop f tbl p h = Some (False, h2)" using loop h2(1) by simp
      then show ?thesis using False f2 spec by blast
    next
      case True
      obtain ef2 where ef2: "h2 f = Some ef2" "ce_noce ef \<le> ce_noce ef2" using store_leD [OF f2 Cons.prems(2)] by blast
      define ef3 where "ef3 = ef2\<lparr>ce_noce := ce_noce ef2 + 1\<rparr>"
      define h3 where "h3 = h2(f \<mapsto> ef3)"
      have f3: "store_le (\<lambda>j e e'. ce_cbvalue e' = ce_cbvalue e \<and> ce_noce e \<le> ce_noce e' \<and> ce_ventry e' = ce_ventry e) h2 h3"
        unfolding h3_def by (rule store_le_upd [where e = ef2]) (use ef2(1) in \<open>auto simp: ef3_def links_eq\<close>)
      have f03: "store_le (tok_frame lo hi) h h3" by (rule store_le_trans [OF f2 f3]) auto
      obtain e3 where e3: "h3 i = Some e3" "links e3 = links e" using store_leD [OF f03 i(5)] by blast
      have nx: "ce_next e3 = ce_next e" using e3(2) by (simp add: links_eq)
      have r3: "conf_rep h3 m hi par (Some i) (ce_next e) ts" by (rule conf_rep_links [OF r(2) f03])
      have "h3 f = Some ef3" by (simp add: h3_def)
      then obtain ok' h4 where h4: "validate_token_loop f tbl (ce_next e) h3 = Some (ok', h4)" "store_le (tok_frame m hi) h3 h4"
        "ok' = tokens_ok tbl ts"
        and a4: "ok' \<Longrightarrow> annot h4 tbl (ce_next e) ts \<and> (\<exists>ef4. h4 f = Some ef4 \<and> ce_noce ef3 + length ts \<le> ce_noce ef4)"
        using Cons.IH(2) [OF r3] by blast
      have res: "validate_token_loop f tbl p h = Some (ok', h4)"
        using loop h2(1) True ef2(1) e3(1) nx h4(1) by (simp add: upd_ce_def h3_def ef3_def)
      have f4: "store_le (tok_frame lo hi) h h4"
        by (rule store_le_trans [OF f03 h4(2)]) (use i in auto)
      have f24: "store_le (tok_frame m hi) h2 h4" by (rule store_le_trans [OF f3 h4(2)]) auto
      have f14: "store_le (tok_frame (Suc i) hi) h1 h4"
        by (rule store_le_trans [OF h2(2) f24]) (use i in auto)
      have "h1 i = Some e1" by (simp add: h1_def)
      then obtain e4 where e4: "h4 i = Some e4" "links e4 = links e" "ce_ventry e4 = Some kve"
        using store_leD [OF f14] by (fastforce simp: e1_def links_eq)
      have "ve_child (snd kve) \<noteq> None \<and> (\<exists>c ec. ce_child e = Some c \<and> h4 c = Some ec \<and> length ch \<le> ce_noce ec) \<and>
          annot h4 sub (ce_child e) ch" if ne: "ch \<noteq> []"
      proof -
        obtain c ec where c: "ce_child e = Some c" "h2 c = Some ec" "length ch \<le> ce_noce ec" "annot h2 sub (ce_child e) ch"
          "ve_child (snd kve) \<noteq> None"
          using ach True ne by blast
        obtain ec' where "h4 c = Some ec'" "ce_noce ec \<le> ce_noce ec'" using store_leD [OF f24 c(2)] by blast
        moreover have "annot h4 sub (ce_child e) ch"
          by (rule annot_frame [OF conf_rep_links [OF r1(1) h2(2)] c(4)], rule store_le_mono [OF f24]) (use i in auto)
        ultimately show ?thesis using c by auto
      qed
      then have "ok' \<Longrightarrow> annot h4 tbl p (Ctree t v ch # ts)"
        using i(1) e4 Some a4 by (auto simp: links_eq sub_def)
      moreover have "ok' \<Longrightarrow> \<exists>ef4. h4 f = Some ef4 \<and> ce_noce ef + length (Ctree t v ch # ts) \<le> ce_noce ef4"
        using a4 ef2(2) by (fastforce simp: ef3_def)
      ultimately show ?thesis using res f4 spec True h4(3) by blast
    qed
  qed
qed

section \<open>The pass over the values\<close>

lemma validate_value_eq:
  assumes "h i = Some e"
  shows "libconf_validate_value gai i ve h = Some (value_ok gai ve (ce_value e),
    if value_ok gai ve (ce_value e) then h(i \<mapsto> e\<lparr>ce_cbvalue := cb_value gai ve (ce_value e) (ce_cbvalue e)\<rparr>) else h)"
proof (cases "ce_value e")
  case None
  have "h(i \<mapsto> e) = h" using assms by (rule map_upd_triv)
  then show ?thesis using assms None by (simp add: libconf_validate_value_def value_ok_def cb_value_def)
next
  case (Some v)
  then show ?thesis using assms
    by (cases "read_value gai (ve_type ve) v") (simp_all add: libconf_validate_value_def value_ok_def cb_value_def upd_ce_def)
qed

lemma calls_frame:
  "conf_rep h lo hi par prv p ts \<Longrightarrow> store_le (\<lambda>j e e'. lo \<le> j \<and> j < hi \<longrightarrow> ce_cbvalue e' = ce_cbvalue e) h h' \<Longrightarrow>
   calls_by F h' tbl p ts = calls_by F h tbl p ts"
proof (induction ts arbitrary: lo hi par prv p tbl rule: ctrees_induct)
  case (Cons t v ch ts)
  obtain i e m where i: "p = Some i" "lo \<le> i" "i < m" "m \<le> hi" "h i = Some e"
    and r: "conf_rep h (Suc i) m (Some i) None (ce_child e) ch" "conf_rep h m hi par (Some i) (ce_next e) ts"
    by (rule conf_rep_consE [OF Cons.prems(1)])
  obtain e' where e': "h' i = Some e'" "links e' = links e" "ce_cbvalue e' = ce_cbvalue e"
    using store_leD [OF Cons.prems(2) i(5)] i by auto
  have "calls_by F h' tbl (ce_child e) ch = calls_by F h tbl (ce_child e) ch" for tbl
    by (rule Cons.IH(1) [OF r(1)], rule store_le_mono [OF Cons.prems(2)]) (use i in auto)
  moreover have "calls_by F h' tbl (ce_next e) ts = calls_by F h tbl (ce_next e) ts"
    by (rule Cons.IH(2) [OF r(2)], rule store_le_mono [OF Cons.prems(2)]) (use i in auto)
  ultimately show ?case using i e' by (auto simp: links_eq split: option.split)
qed simp

abbreviation val_frame :: "cid \<Rightarrow> cid \<Rightarrow> cid \<Rightarrow> centry \<Rightarrow> centry \<Rightarrow> bool" where
  "val_frame lo hi j e e' \<equiv> ce_noce e' = ce_noce e \<and> ce_ventry e' = ce_ventry e \<and> (lo \<le> j \<and> j < hi \<or> ce_cbvalue e' = ce_cbvalue e)"

abbreviation stored_calls :: "cheap \<Rightarrow> ventry list \<Rightarrow> cid option \<Rightarrow> ctree list \<Rightarrow> call list" where
  "stored_calls \<equiv> calls_by (\<lambda>_ _ x. x)"

lemma validate_values_tree:
  "conf_rep h lo hi par prv p ts \<Longrightarrow> annot h tbl p ts \<Longrightarrow>
   \<exists>h'. libconf_validate_values gai p h = Some (values_ok gai tbl ts, h') \<and> store_le (val_frame lo hi) h h' \<and>
     (values_ok gai tbl ts \<longrightarrow> stored_calls h' tbl p ts = conf_calls gai h tbl p ts)"
proof (induction ts arbitrary: lo hi par prv p h tbl rule: ctrees_induct)
  case Nil
  then show ?case by (subst libconf_validate_values.simps) (auto simp: store_le_refl conf_calls_def)
next
  case (Cons t v ch ts)
  obtain i e m where i: "p = Some i" "lo \<le> i" "i < m" "m \<le> hi" "h i = Some e" "ce_token e = Some t" "ce_value e = v"
    and r: "conf_rep h (Suc i) m (Some i) None (ce_child e) ch" "conf_rep h m hi par (Some i) (ce_next e) ts"
    by (rule conf_rep_consE [OF Cons.prems(1)])
  obtain k ve where a: "find_token t 0 tbl = Some (k, ve)" "ce_ventry e = Some (k, ve)" "annot h tbl (ce_next e) ts"
    and ach: "annot h (sub_of ve) (ce_child e) ch"
    using Cons.prems(2) i by (cases "ch = []") auto
  let ?rest = "\<lambda>r. if \<not> fst r then Some (False, snd r)
          else do {
            r \<leftarrow> (case ce_child e of None \<Rightarrow> Some (True, snd r) | Some c \<Rightarrow> libconf_validate_values gai (Some c) (snd r));
            if \<not> fst r then Some (False, snd r)
            else do { e \<leftarrow> snd r i; libconf_validate_values gai (ce_next e) (snd r) }
          }"
  have loop: "libconf_validate_values gai p h = libconf_validate_value gai i ve h \<bind> ?rest"
    using i(1,5) a(2) by (subst libconf_validate_values.simps) simp
  note val = validate_value_eq [where h = h and i = i and gai = gai and ve = ve, OF i(5), unfolded i(7)]
  show ?case
  proof (cases "value_ok gai ve v")
    case False
    then have "libconf_validate_values gai p h = Some (False, h)" using loop val by simp
    then show ?thesis using False a(1) by (auto simp: store_le_refl)
  next
    case True
    define e1 where "e1 = e\<lparr>ce_cbvalue := cb_value gai ve v (ce_cbvalue e)\<rparr>"
    define h1 where "h1 = h(i \<mapsto> e1)"
    have val1: "libconf_validate_value gai i ve h = Some (True, h1)" using val True by (simp add: h1_def e1_def)
    have f1: "store_le (val_frame i (Suc i)) h h1" unfolding h1_def
      by (rule store_le_upd [where e = e]) (use i in \<open>auto simp: e1_def links_eq\<close>)
    have r1: "conf_rep h1 (Suc i) m (Some i) None (ce_child e) ch" by (rule conf_rep_links [OF r(1) f1])
    have a1: "annot h1 (sub_of ve) (ce_child e) ch"
      by (rule annot_frame [OF r(1) ach], rule store_le_mono [OF f1]) auto
    have c1: "conf_calls gai h1 (sub_of ve) (ce_child e) ch = conf_calls gai h (sub_of ve) (ce_child e) ch" unfolding conf_calls_def
      by (rule calls_frame [OF r(1)], rule store_le_mono [OF f1]) auto
    obtain h2 where h2: "libconf_validate_values gai (ce_child e) h1 = Some (values_ok gai (sub_of ve) ch, h2)"
      "store_le (val_frame (Suc i) m) h1 h2"
      "values_ok gai (sub_of ve) ch \<Longrightarrow> stored_calls h2 (sub_of ve) (ce_child e) ch = conf_calls gai h (sub_of ve) (ce_child e) ch"
      using Cons.IH(1) [OF r1 a1] c1 by auto
    have child: "(case ce_child e of None \<Rightarrow> Some (True, snd (True, h1)) | Some c \<Rightarrow> libconf_validate_values gai (Some c) (snd (True, h1))) =
        Some (values_ok gai (sub_of ve) ch, h2)"
      using h2(1) by (cases "ce_child e") (simp_all add: libconf_validate_values.simps [of gai None])
    have f2: "store_le (val_frame i m) h h2" by (rule store_le_trans [OF f1 h2(2)]) (use i in auto)
    show ?thesis
    proof (cases "values_ok gai (sub_of ve) ch")
      case False
      then have "libconf_validate_values gai p h = Some (False, h2)" using loop val1 child by simp
      moreover have "store_le (val_frame lo hi) h h2" by (rule store_le_mono [OF f2]) (use i in auto)
      ultimately show ?thesis using False a(1) True by auto
    next
      case ok2: True
      obtain e2 where e2: "h2 i = Some e2" "links e2 = links e" using store_leD [OF f2 i(5)] by blast
      have nx: "ce_next e2 = ce_next e" using e2(2) by (simp add: links_eq)
      have r2: "conf_rep h2 m hi par (Some i) (ce_next e) ts" by (rule conf_rep_links [OF r(2) f2])
      have a2: "annot h2 tbl (ce_next e) ts" by (rule annot_frame [OF r(2) a(3)], rule store_le_mono [OF f2]) auto
      have c2: "conf_calls gai h2 tbl (ce_next e) ts = conf_calls gai h tbl (ce_next e) ts" unfolding conf_calls_def
        by (rule calls_frame [OF r(2)], rule store_le_mono [OF f2]) auto
      obtain h3 where h3: "libconf_validate_values gai (ce_next e) h2 = Some (values_ok gai tbl ts, h3)"
        "store_le (val_frame m hi) h2 h3"
        "values_ok gai tbl ts \<Longrightarrow> stored_calls h3 tbl (ce_next e) ts = conf_calls gai h tbl (ce_next e) ts"
        using Cons.IH(2) [OF r2 a2] c2 by auto
      have res: "libconf_validate_values gai p h = Some (values_ok gai tbl ts, h3)"
        using loop val1 child ok2 e2(1) nx h3(1) by simp
      have f3: "store_le (val_frame lo hi) h h3" by (rule store_le_trans [OF f2 h3(2)]) (use i in auto)
      have f13: "store_le (val_frame (Suc i) hi) h1 h3" by (rule store_le_trans [OF h2(2) h3(2)]) (use i in auto)
      have "h1 i = Some e1" by (simp add: h1_def)
      then obtain e3 where e3: "h3 i = Some e3" "links e3 = links e1" "ce_cbvalue e3 = ce_cbvalue e1"
        using store_leD [OF f13] by fastforce
      have l3: "ce_child e3 = ce_child e" "ce_next e3 = ce_next e" using e3(2) by (simp_all add: links_eq e1_def)
      have "stored_calls h3 (sub_of ve) (ce_child e) ch = stored_calls h2 (sub_of ve) (ce_child e) ch"
        by (rule calls_frame [OF conf_rep_links [OF r1 h2(2)]], rule store_le_mono [OF h3(2)]) (use i in auto)
      then have "values_ok gai tbl ts \<Longrightarrow> stored_calls h3 tbl p (Ctree t v ch # ts) = conf_calls gai h tbl p (Ctree t v ch # ts)"
        using h2(3) [OF ok2] h3(3) i e3 a(1) l3 by (simp add: conf_calls_def e1_def split: option.split)
      then show ?thesis using res f3 a(1) True ok2 by auto
    qed
  qed
qed

section \<open>The pass over the counts\<close>

lemma entries_of_simps: "entries_of tbl k [] = []"
  "entries_of tbl k (c # ts) = (if find_token (ct_token c) 0 tbl = Some (k, tbl ! k) then c # entries_of tbl k ts else entries_of tbl k ts)"
  by (simp_all add: entries_of_def)

lemma entries_of_length: "length (entries_of tbl k ts) \<le> length ts"
  by (simp add: entries_of_def)

lemma distinct_snoc_fold: "distinct (map fold_case (tu @ v # vs)) \<Longrightarrow> \<not> (\<exists>u \<in> set tu. c_strcasecmp v u = 0)"
  by (force simp: c_strcasecmp_0)

lemma valueopt_scan_tree:
  "conf_rep h lo hi par prv p ts \<Longrightarrow> annot h tbl p ts \<Longrightarrow> length tu + length (entries_of tbl k ts) < room \<Longrightarrow>
   distinct (map fold_case tu) \<Longrightarrow>
   valueopt_scan room k (tbl ! k) h p n tu =
     Some (if has_opt LCO_UNIQ (tbl ! k) \<and> \<not> distinct (map fold_case (tu @ List.map_filter ct_value (entries_of tbl k ts)))
           then None else Some (n + length (entries_of tbl k ts)))"
proof (induction ts arbitrary: lo hi par prv p n tu rule: ctrees_induct)
  case Nil
  then show ?case by (subst valueopt_scan.simps) (simp add: entries_of_simps map_filter_simps)
next
  case (Cons t v ch ts)
  obtain i e m where i: "p = Some i" "h i = Some e" "ce_value e = v"
    and r: "conf_rep h m hi par (Some i) (ce_next e) ts"
    by (rule conf_rep_consE [OF Cons.prems(1)])
  have a: "ce_ventry e = find_token t 0 tbl" "annot h tbl (ce_next e) ts" using Cons.prems(2) i by auto
  note IH = Cons.IH(2) [OF r a(2)]
  show ?case
  proof (cases "find_token t 0 tbl = Some (k, tbl ! k)")
    case False
    then show ?thesis using i a(1) IH [of tu n] Cons.prems(3,4)
      by (subst valueopt_scan.simps) (simp add: entries_of_simps)
  next
    case True
    show ?thesis
    proof (cases "v \<noteq> None \<and> has_opt LCO_UNIQ (tbl ! k)")
      case False
      then show ?thesis using i a(1) True IH [of tu "n + 1"] Cons.prems(3,4)
        by (subst valueopt_scan.simps) (auto simp: entries_of_simps map_filter_simps split: option.split)
    next
      case uq: True
      then obtain w where w: "v = Some w" by blast
      show ?thesis
      proof (cases "\<exists>u \<in> set tu. c_strcasecmp w u = 0")
        case dup: True
        then have "\<not> distinct (map fold_case (tu @ w # List.map_filter ct_value (entries_of tbl k ts)))"
          using distinct_snoc_fold by blast
        then show ?thesis using i a(1) True uq w dup
          by (subst valueopt_scan.simps) (simp add: entries_of_simps map_filter_simps)
      next
        case new: False
        then have "distinct (map fold_case (tu @ [w]))" using Cons.prems(4) by (auto simp: c_strcasecmp_0)
        then show ?thesis using i a(1) True uq w new IH [of "tu @ [w]" "n + 1"] Cons.prems(3)
          by (subst valueopt_scan.simps) (simp add: entries_of_simps map_filter_simps)
      qed
    qed
  qed
qed

lemma valueopt_table_tree:
  assumes "conf_rep h lo hi par prv p ts" "annot h tbl p ts" "length ts < room"
  shows "valueopt_table room k (drop k tbl) h p = Some (\<forall>j < length tbl. k \<le> j \<longrightarrow>
     count_ok (tbl ! j) (length (entries_of tbl j ts)) \<and>
     (has_opt LCO_UNIQ (tbl ! j) \<longrightarrow> distinct (map fold_case (List.map_filter ct_value (entries_of tbl j ts)))))"
proof (induction "length tbl - k" arbitrary: k)
  case 0
  then show ?case by simp
next
  case (Suc n)
  then have k: "k < length tbl" by simp
  then have dr: "drop k tbl = tbl ! k # drop (k + 1) tbl" by (simp add: Cons_nth_drop_Suc)
  have "length (entries_of tbl k ts) < room" using entries_of_length [of tbl k ts] assms(3) by simp
  then have sc: "valueopt_scan room k (tbl ! k) h p 0 [] =
      Some (if has_opt LCO_UNIQ (tbl ! k) \<and> \<not> distinct (map fold_case (List.map_filter ct_value (entries_of tbl k ts)))
           then None else Some (length (entries_of tbl k ts)))"
    using valueopt_scan_tree [OF assms(1,2), of "[]" k room 0] by simp
  have split: "(\<forall>j < length tbl. k \<le> j \<longrightarrow> P j) \<longleftrightarrow> P k \<and> (\<forall>j < length tbl. k + 1 \<le> j \<longrightarrow> P j)" for P
    using k by (auto simp: le_less Suc_le_eq)
  show ?case unfolding dr split [of "\<lambda>j. count_ok (tbl ! j) (length (entries_of tbl j ts)) \<and> (has_opt LCO_UNIQ (tbl ! j) \<longrightarrow>
      distinct (map fold_case (List.map_filter ct_value (entries_of tbl j ts))))"]
    using Suc.hyps(1) [of "k + 1"] Suc.hyps(2) k sc by auto
qed

lemma valueopt_level_tree:
  assumes "conf_rep h lo hi par prv (Some c) ts" "annot h tbl (Some c) ts" "h c = Some ec" "length ts \<le> ce_noce ec"
  shows "valueopt_level h c tbl = Some (level_ok tbl ts)"
  using valueopt_table_tree [OF assms(1,2), of "ce_noce ec + 1" 0] assms(3,4)
  by (simp add: valueopt_level_def level_ok_def)

lemma valueopt_children_tree:
  "conf_rep h lo hi par prv p ts \<Longrightarrow> annot h tbl p ts \<Longrightarrow> valueopt_children h p = Some (counts_below tbl ts)"
proof (induction ts arbitrary: lo hi par prv p tbl rule: ctrees_induct)
  case Nil
  then show ?case by (subst valueopt_children.simps) simp
next
  case (Cons t v ch ts)
  obtain i e m where i: "p = Some i" "h i = Some e"
    and r: "conf_rep h (Suc i) m (Some i) None (ce_child e) ch" "conf_rep h m hi par (Some i) (ce_next e) ts"
    by (rule conf_rep_consE [OF Cons.prems(1)])
  obtain k ve where a: "find_token t 0 tbl = Some (k, ve)" "ce_ventry e = Some (k, ve)" "annot h tbl (ce_next e) ts"
    and ach: "ch \<noteq> [] \<Longrightarrow> ve_child ve \<noteq> None \<and> (\<exists>c ec. ce_child e = Some c \<and> h c = Some ec \<and> length ch \<le> ce_noce ec) \<and>
        annot h (sub_of ve) (ce_child e) ch"
    using Cons.prems(2) i by auto
  note IH = Cons.IH(2) [OF r(2) a(3)]
  show ?case
  proof (cases "ch = []")
    case True
    then have "ce_child e = None" using conf_rep_first [OF r(1)] by simp
    then show ?thesis using True i a IH by (subst valueopt_children.simps) simp
  next
    case False
    obtain c ec sub where c: "ce_child e = Some c" "h c = Some ec" "length ch \<le> ce_noce ec" "ve_child ve = Some sub"
      "annot h (sub_of ve) (Some c) ch"
      using ach [OF False] by auto
    have sub: "sub_of ve = sub" using c(4) by (simp add: sub_of_def)
    have "valueopt_level h c sub = Some (level_ok sub ch)"
      by (rule valueopt_level_tree) (use r(1) c sub in auto)
    moreover have "valueopt_children h (Some c) = Some (counts_below sub ch)"
      using Cons.IH(1) [OF r(1), of sub] c sub by simp
    ultimately show ?thesis using False i a(1,2) c IH sub
      by (subst valueopt_children.simps) simp
  qed
qed

section \<open>The callbacks\<close>

lemma run_calls_append:
  "run_calls cb log (xs @ ys) = (let r = run_calls cb log xs in if fst r then run_calls cb (snd r) ys else r)"
  by (induction xs arbitrary: log) simp_all

lemma do_call_run: "do_call cb c log = run_calls cb log [c]"
  by (simp add: do_call_def)

lemma validate_callback_tree:
  "conf_rep h lo hi par prv p ts \<Longrightarrow> annot h tbl p ts \<Longrightarrow> late_ok tbl ts \<Longrightarrow>
   libconf_validate_callback cb h p log = Some (run_calls cb log (stored_calls h tbl p ts))"
proof (induction ts arbitrary: lo hi par prv p tbl log rule: ctrees_induct)
  case Nil
  then show ?case by (subst libconf_validate_callback.simps) simp
next
  case (Cons t v ch ts)
  obtain i e m where i: "p = Some i" "h i = Some e"
    and r: "conf_rep h (Suc i) m (Some i) None (ce_child e) ch" "conf_rep h m hi par (Some i) (ce_next e) ts"
    by (rule conf_rep_consE [OF Cons.prems(1)])
  obtain k ve where a: "find_token t 0 tbl = Some (k, ve)" "ce_ventry e = Some (k, ve)" "annot h tbl (ce_next e) ts"
    and ach: "annot h (sub_of ve) (ce_child e) ch"
    using Cons.prems(2) i by (cases "ch = []") auto
  have late: "has_opt LCO_LATECB ve \<Longrightarrow> ve_cback ve \<noteq> None" "late_ok (sub_of ve) ch" "late_ok tbl ts"
    using Cons.prems(3) a(1) by auto
  define c1 where "c1 = (case ve_cback ve of None \<Rightarrow> [] | Some f \<Rightarrow> [(f, i, Some (ce_cbvalue e))])"
  define c2 where "c2 = stored_calls h (sub_of ve) (ce_child e) ch"
  define c3 where "c3 = (if has_opt LCO_LATECB ve then (case ve_cback ve of None \<Rightarrow> [] | Some f \<Rightarrow> [(f, i, None :: lc_value option)]) else [])"
  have p1: "(case ve_cback ve of None \<Rightarrow> (True, log) | Some f \<Rightarrow> do_call cb (f, i, Some (ce_cbvalue e)) log) = run_calls cb log c1" for log
    by (simp add: c1_def do_call_run split: option.split)
  have p2: "(case ce_child e of None \<Rightarrow> Some r | Some c \<Rightarrow> libconf_validate_callback cb h (Some c) (snd r)) =
      Some (run_calls cb (snd r) c2)" if ok: "fst r" for r
  proof (cases "ce_child e")
    case None
    then have "ch = []" using conf_rep_first [OF r(1)] by simp
    then show ?thesis using None ok by (cases r) (simp add: c2_def)
  next
    case (Some c)
    then show ?thesis using Cons.IH(1) [OF r(1) ach late(2), of "snd r"] by (simp add: c2_def)
  qed
  have p3: "(if has_opt LCO_LATECB ve then do { f \<leftarrow> ve_cback ve; Some (do_call cb (f, i, None) (snd r)) } else Some r) =
      Some (run_calls cb (snd r) c3)" if ok: "fst r" for r
    using late(1) ok by (cases r) (auto simp: c3_def do_call_run)
  have "stored_calls h tbl p (Ctree t v ch # ts) = c1 @ c2 @ c3 @ stored_calls h tbl (ce_next e) ts"
    using i a(1) by (simp add: c1_def c2_def c3_def)
  then have rhs: "run_calls cb log (stored_calls h tbl p (Ctree t v ch # ts)) =
      (let r1 = run_calls cb log c1 in if fst r1 then
         let r2 = run_calls cb (snd r1) c2 in if fst r2 then
           let r3 = run_calls cb (snd r2) c3 in if fst r3 then run_calls cb (snd r3) (stored_calls h tbl (ce_next e) ts) else r3
         else r2 else r1)"
    by (simp only: run_calls_append Let_def)
  have "libconf_validate_callback cb h p log = (let r = run_calls cb log c1 in
      if \<not> fst r then Some r
      else do {
        r \<leftarrow> (case ce_child e of None \<Rightarrow> Some r | Some c \<Rightarrow> libconf_validate_callback cb h (Some c) (snd r));
        if \<not> fst r then Some r
        else do {
          r \<leftarrow> (if has_opt LCO_LATECB ve then do { f \<leftarrow> ve_cback ve; Some (do_call cb (f, i, None) (snd r)) } else Some r);
          if \<not> fst r then Some r else libconf_validate_callback cb h (ce_next e) (snd r)
        }
      })"
    using i a(2) p1 by (subst libconf_validate_callback.simps) (simp, simp only: snd_conv)
  also have "\<dots> = Some (run_calls cb log (stored_calls h tbl p (Ctree t v ch # ts)))"
    unfolding rhs Let_def using Cons.IH(2) [OF r(2) a(3) late(3)] by (simp add: p2 p3)
  finally show ?case .
qed

section \<open>Validation as a whole\<close>

lemma libconf_validate_tree:
  assumes rep: "conf_rep h lo hi par prv (Some i) ts" and late: "late_ok tbl ts"
  obtains h' where "conf_rep h' lo hi par prv (Some i) ts"
    "libconf_validate gai cb i tbl h =
     (let r = if conf_valid gai tbl ts then run_calls cb [] (conf_calls gai h tbl (Some i) ts) else (False, [])
      in Some (fst r, h', snd r))"
proof -
  obtain e where e: "h i = Some e" using conf_rep_first_in [OF rep] by blast
  obtain h1 where h1: "validate_token_loop i tbl (Some i) h = Some (tokens_ok tbl ts, h1)" "store_le (tok_frame lo hi) h h1"
    and a1: "tokens_ok tbl ts \<Longrightarrow> annot h1 tbl (Some i) ts \<and> (\<exists>e'. h1 i = Some e' \<and> ce_noce e + length ts \<le> ce_noce e')"
    using validate_token_tree [OF rep e] by blast
  have t1: "libconf_validate_token (Some i) tbl h = Some (tokens_ok tbl ts, h1)" using h1(1) by (simp add: libconf_validate_token_def)
  have r1: "conf_rep h1 lo hi par prv (Some i) ts" by (rule conf_rep_links [OF rep h1(2)])
  show ?thesis
  proof (cases "tokens_ok tbl ts")
    case False
    then show ?thesis using that [OF r1] t1 by (simp add: libconf_validate_def conf_valid_def)
  next
    case tok: True
    then obtain e1 where a: "annot h1 tbl (Some i) ts" and e1: "h1 i = Some e1" "length ts \<le> ce_noce e1" using a1 by auto
    obtain h2 where h2: "libconf_validate_values gai (Some i) h1 = Some (values_ok gai tbl ts, h2)" "store_le (val_frame lo hi) h1 h2"
      "values_ok gai tbl ts \<Longrightarrow> stored_calls h2 tbl (Some i) ts = conf_calls gai h1 tbl (Some i) ts"
      using validate_values_tree [OF r1 a] by blast
    have r2: "conf_rep h2 lo hi par prv (Some i) ts" by (rule conf_rep_links [OF r1 h2(2)])
    have a2: "annot h2 tbl (Some i) ts" by (rule annot_frame [OF r1 a], rule store_le_mono [OF h2(2)]) auto
    have c1: "conf_calls gai h1 tbl (Some i) ts = conf_calls gai h tbl (Some i) ts"
      unfolding conf_calls_def by (rule calls_frame [OF rep], rule store_le_mono [OF h1(2)]) auto
    obtain e2 where e2: "h2 i = Some e2" "length ts \<le> ce_noce e2" using store_leD [OF h2(2) e1(1)] e1(2) by auto
    have opt: "libconf_validate_valueopt i tbl h2 = Some (level_ok tbl ts \<and> counts_below tbl ts)"
      using valueopt_level_tree [OF r2 a2 e2] valueopt_children_tree [OF r2 a2] by (simp add: libconf_validate_valueopt_def)
    have call: "libconf_validate_callback cb h2 (Some i) [] = Some (run_calls cb [] (stored_calls h2 tbl (Some i) ts))"
      by (rule validate_callback_tree [OF r2 a2 late])
    show ?thesis
      by (rule that [OF r2])
        (use t1 tok h2(1,3) opt call c1 in \<open>simp add: libconf_validate_def conf_valid_def Let_def split: prod.split\<close>)
  qed
qed


text \<open>A port with a value that is a number in hexadecimal digits.\<close>

definition port_table :: "ventry list" where
  "port_table = [Ventry ''host'' 0 1 LCV_STRING 0 None None, Ventry ''port'' 1 1 LCV_NUM 0 None (Some 7)]"

definition port_entry :: centry where
  "port_entry = centry_new\<lparr>ce_token := Some ''Port'', ce_value := Some ''0x1F'', ce_closed := True\<rparr>"

lemma port_rep: "conf_rep [0 \<mapsto> port_entry] 0 1 None None (Some 0) [Ctree ''Port'' (Some ''0x1F'') []]"
  by (auto simp: port_entry_def centry_new_def)

lemma port_valid: "conf_valid gai port_table [Ctree ''Port'' (Some ''0x1F'') []] \<and> late_ok port_table [Ctree ''Port'' (Some ''0x1F'') []] \<and>
    conf_calls gai [0 \<mapsto> port_entry] port_table (Some 0) [Ctree ''Port'' (Some ''0x1F'') []] = [(7, 0, Some (Lc_num 31))]"
  by code_simp


section \<open>The types of the values\<close>

text \<open>The value a callback is given for an option of a type and the text of its value.\<close>

definition lc_typed :: "lcv \<Rightarrow> string \<Rightarrow> lc_value \<Rightarrow> bool" where
  "lc_typed ty v x =
     (case ty of
        LCV_NONE \<Rightarrow> False
      | LCV_NUM \<Rightarrow> \<exists>n. x = Lc_num n \<and> - (2 ^ 63) \<le> n \<and> n < 2 ^ 63
      | LCV_HEX \<Rightarrow> \<exists>n. x = Lc_num n \<and> - (2 ^ 63) \<le> n \<and> n < 2 ^ 63
      | LCV_BOOL \<Rightarrow> x = Lc_num 0 \<or> x = Lc_num 1
      | _ \<Rightarrow> x = Lc_string v)"

text \<open>The options of a table and of the tables below it.\<close>

inductive option_in :: "ventry list \<Rightarrow> ventry \<Rightarrow> bool" where
  here: "ve \<in> set tbl \<Longrightarrow> option_in tbl ve"
| below: "ve \<in> set tbl \<Longrightarrow> option_in (sub_of ve) ve' \<Longrightarrow> option_in tbl ve'"

lemma find_token_in: "find_token t k tbl = Some (j, ve) \<Longrightarrow> ve \<in> set tbl \<and> c_strcasecmp t (ve_name ve) = 0"
  by (induction t k tbl rule: find_token.induct) (auto split: if_splits)

lemma read_value_typed: "read_value gai ty v = Some x \<Longrightarrow> lc_typed ty v x"
  using c_strtol_range by (cases ty) (auto simp: read_value_def lc_typed_def split: prod.splits option.splits if_splits)

definition call_typed :: "cheap \<Rightarrow> ventry list \<Rightarrow> nat \<Rightarrow> cid \<Rightarrow> lc_value \<Rightarrow> bool" where
  "call_typed h tbl f i x \<longleftrightarrow> (\<exists>e t ve. h i = Some e \<and> ce_token e = Some t \<and> option_in tbl ve \<and>
     c_strcasecmp t (ve_name ve) = 0 \<and> ve_cback ve = Some f \<and>
     (case ce_value e of
        None \<Rightarrow> (ve_type ve = LCV_NONE \<or> has_opt LCO_OPTIONAL ve) \<and> x = ce_cbvalue e
      | Some v \<Rightarrow> lc_typed (ve_type ve) v x))"

lemma conf_calls_typed:
  "conf_rep h lo hi par prv p ts \<Longrightarrow> values_ok gai tbl ts \<Longrightarrow> (f, j, Some x) \<in> set (conf_calls gai h tbl p ts) \<Longrightarrow>
   call_typed h tbl f j x"
proof (induction ts arbitrary: lo hi par prv p tbl rule: ctrees_induct)
  case (Cons t v ch ts)
  obtain i e m where i: "p = Some i" "h i = Some e" "ce_token e = Some t" "ce_value e = v"
    and r: "conf_rep h (Suc i) m (Some i) None (ce_child e) ch" "conf_rep h m hi par (Some i) (ce_next e) ts"
    by (rule conf_rep_consE [OF Cons.prems(1)])
  obtain k ve where a: "find_token t 0 tbl = Some (k, ve)" "value_ok gai ve v" "values_ok gai (sub_of ve) ch" "values_ok gai tbl ts"
    using Cons.prems(2) by (auto split: option.splits)
  note ft = find_token_in [OF a(1)]
  have "ve_cback ve = Some f \<and> j = i \<and> x = cb_value gai ve v (ce_cbvalue e) \<or>
    (f, j, Some x) \<in> set (conf_calls gai h (sub_of ve) (ce_child e) ch) \<or> (f, j, Some x) \<in> set (conf_calls gai h tbl (ce_next e) ts)"
    using Cons.prems(3) i(1,2) a(1)
    by (cases "ve_cback ve"; cases "has_opt LCO_LATECB ve") (simp_all add: conf_calls_def, blast+)
  then consider "ve_cback ve = Some f" "j = i" "x = cb_value gai ve v (ce_cbvalue e)" |
    "(f, j, Some x) \<in> set (conf_calls gai h (sub_of ve) (ce_child e) ch)" |
    "(f, j, Some x) \<in> set (conf_calls gai h tbl (ce_next e) ts)" by blast
  then show ?case
  proof cases
    case 1
    have "case v of None \<Rightarrow> (ve_type ve = LCV_NONE \<or> has_opt LCO_OPTIONAL ve) \<and> x = ce_cbvalue e | Some v \<Rightarrow> lc_typed (ve_type ve) v x"
      using a(2) 1(3) read_value_typed by (cases v) (auto simp: value_ok_def cb_value_def)
    then show ?thesis using 1 i ft option_in.here by (auto simp: call_typed_def)
  next
    case 2
    have "call_typed h (sub_of ve) f j x" by (rule Cons.IH(1) [OF r(1) a(3) 2])
    then show ?thesis using option_in.below ft unfolding call_typed_def by blast
  next
    case 3
    show ?thesis by (rule Cons.IH(2) [OF r(2) a(4) 3])
  qed
qed (simp add: conf_calls_def)

lemma run_calls_log: "set (snd (run_calls cb log cs)) \<subseteq> set log \<union> set cs"
proof (induction cs arbitrary: log)
  case (Cons c cs)
  show ?case using Cons [of "log @ [c]"] by auto
qed simp

text \<open>C16: Every value a callback is given has the type of the option it is registered for: a number
  that fits into a long for a number, 0 or 1 for a truth value, the text of the file for a string or
  an address.  An option without a value is passed on only if it needs none.\<close>

theorem libconf_callback_types:
  assumes "conf_rep h lo hi par prv (Some i) ts" "late_ok tbl ts"
    and "libconf_validate gai cb i tbl h = Some (ok, h', log)" "(f, j, Some x) \<in> set log"
  shows "\<exists>e t ve. h j = Some e \<and> ce_token e = Some t \<and> option_in tbl ve \<and> c_strcasecmp t (ve_name ve) = 0 \<and>
    ve_cback ve = Some f \<and>
    (case ce_value e of
       None \<Rightarrow> (ve_type ve = LCV_NONE \<or> has_opt LCO_OPTIONAL ve) \<and> x = ce_cbvalue e
     | Some v \<Rightarrow> lc_typed (ve_type ve) v x)"
proof -
  obtain h2 where "libconf_validate gai cb i tbl h =
     (let r = if conf_valid gai tbl ts then run_calls cb [] (conf_calls gai h tbl (Some i) ts) else (False, [])
      in Some (fst r, h2, snd r))"
    by (rule libconf_validate_tree [OF assms(1,2)])
  then have "conf_valid gai tbl ts" "(f, j, Some x) \<in> set (conf_calls gai h tbl (Some i) ts)"
    using assms(3,4) run_calls_log [of cb "[]"] by (auto simp: Let_def split: if_splits)
  then have "call_typed h tbl f j x" using conf_calls_typed [OF assms(1)] by (auto simp: conf_valid_def)
  then show ?thesis by (simp add: call_typed_def)
qed

theorem libconf_callback_types_witness:
  "\<exists>e t ve. [0 \<mapsto> port_entry] (0 :: cid) = Some e \<and> ce_token e = Some t \<and> option_in port_table ve \<and> c_strcasecmp t (ve_name ve) = 0 \<and>
    ve_cback ve = Some 7 \<and>
    (case ce_value e of
       None \<Rightarrow> (ve_type ve = LCV_NONE \<or> has_opt LCO_OPTIONAL ve) \<and> Lc_num 31 = ce_cbvalue e
     | Some v \<Rightarrow> lc_typed (ve_type ve) v (Lc_num 31))"
proof -
  obtain h2 where h2: "libconf_validate (\<lambda>_. None) (\<lambda>_. True) 0 port_table [0 \<mapsto> port_entry] =
     (let r = if conf_valid (\<lambda>_. None) port_table [Ctree ''Port'' (Some ''0x1F'') []]
        then run_calls (\<lambda>_. True) [] (conf_calls (\<lambda>_. None) [0 \<mapsto> port_entry] port_table (Some 0) [Ctree ''Port'' (Some ''0x1F'') []])
        else (False, []) in Some (fst r, h2, snd r))"
    by (rule libconf_validate_tree [OF port_rep]) (use port_valid in blast)+
  then have v: "libconf_validate (\<lambda>_. None) (\<lambda>_. True) 0 port_table [0 \<mapsto> port_entry] = Some (True, h2, [(7, 0, Some (Lc_num 31))])"
    using port_valid by simp
  show ?thesis by (rule libconf_callback_types [OF port_rep _ v]) (use port_valid in auto)
qed

text \<open>A value without a digit is a number.\<close>

theorem libconf_empty_number: "read_value gai LCV_NUM [] = Some (Lc_num 0) \<and> read_value gai LCV_HEX [] = Some (Lc_num 0)"
  by (simp add: read_value_def c_strtol_def strtol_sign_def strtol_base_def has_0x_def Let_def)

section \<open>Freeing a configuration\<close>

fun conf_ids :: "cheap \<Rightarrow> cid option \<Rightarrow> ctree list \<Rightarrow> cid list" where
  "conf_ids h p [] = []"
| "conf_ids h p (Ctree t v ch # ts) =
     (case p of
        None \<Rightarrow> []
      | Some i \<Rightarrow> (case h i of None \<Rightarrow> [] | Some e \<Rightarrow> i # conf_ids h (ce_child e) ch @ conf_ids h (ce_next e) ts))"

lemma conf_ids_range: "conf_rep h lo hi par prv p ts \<Longrightarrow> set (conf_ids h p ts) \<subseteq> {lo..<hi}"
proof (induction ts arbitrary: lo hi par prv p rule: ctrees_induct)
  case (Cons t v ch ts)
  obtain i e m where i: "p = Some i" "lo \<le> i" "i < m" "m \<le> hi" "h i = Some e"
    and r: "conf_rep h (Suc i) m (Some i) None (ce_child e) ch" "conf_rep h m hi par (Some i) (ce_next e) ts"
    by (rule conf_rep_consE [OF Cons.prems(1)])
  show ?case using Cons.IH(1) [OF r(1)] Cons.IH(2) [OF r(2)] i by fastforce
qed simp

lemma conf_ids_frame:
  "conf_rep h lo hi par prv p ts \<Longrightarrow> \<forall>j. lo \<le> j \<longrightarrow> j < hi \<longrightarrow> h' j = h j \<Longrightarrow> conf_ids h' p ts = conf_ids h p ts"
proof (induction ts arbitrary: lo hi par prv p rule: ctrees_induct)
  case (Cons t v ch ts)
  obtain i e m where i: "p = Some i" "lo \<le> i" "i < m" "m \<le> hi" "h i = Some e"
    and r: "conf_rep h (Suc i) m (Some i) None (ce_child e) ch" "conf_rep h m hi par (Some i) (ce_next e) ts"
    by (rule conf_rep_consE [OF Cons.prems(1)])
  have "h' i = Some e" using Cons.prems(2) i by simp
  moreover have "conf_ids h' (ce_child e) ch = conf_ids h (ce_child e) ch"
    by (rule Cons.IH(1) [OF r(1)]) (use Cons.prems(2) i in simp)
  moreover have "conf_ids h' (ce_next e) ts = conf_ids h (ce_next e) ts"
    by (rule Cons.IH(2) [OF r(2)]) (use Cons.prems(2) i in simp)
  ultimately show ?case using i by simp
qed simp

lemma libconf_free_tree:
  "conf_rep h lo hi par prv p ts \<Longrightarrow> libconf_free p h = Some (h |` (- set (conf_ids h p ts)))"
proof (induction ts arbitrary: lo hi par prv p h rule: ctrees_induct)
  case Nil
  then show ?case by (subst libconf_free.simps) (auto simp: restrict_map_def)
next
  case (Cons t v ch ts)
  obtain i e m where i: "p = Some i" "lo \<le> i" "i < m" "m \<le> hi" "h i = Some e"
    and r: "conf_rep h (Suc i) m (Some i) None (ce_child e) ch" "conf_rep h m hi par (Some i) (ce_next e) ts"
    by (rule conf_rep_consE [OF Cons.prems(1)])
  define h1 where "h1 = h |` (- set (conf_ids h (ce_child e) ch))"
  have ids: "set (conf_ids h (ce_child e) ch) \<subseteq> {Suc i..<m}" by (rule conf_ids_range [OF r(1)])
  have child: "(case ce_child e of None \<Rightarrow> Some h | Some c \<Rightarrow> libconf_free (Some c) h) = Some h1"
    using Cons.IH(1) [OF r(1)] by (cases "ce_child e") (simp_all add: h1_def libconf_free.simps [of None])
  have h1i: "h1 i = Some e" using ids i by (auto simp: h1_def restrict_map_def)
  define h2 where "h2 = h1(i := None)"
  have same: "\<forall>j. m \<le> j \<longrightarrow> j < hi \<longrightarrow> h2 j = h j" using ids i by (auto simp: h2_def h1_def restrict_map_def)
  have r2: "conf_rep h2 m hi par (Some i) (ce_next e) ts" by (rule conf_rep_frame [OF r(2) same])
  have "libconf_free p h = libconf_free (ce_next e) h2"
    using i(1,5) child h1i by (subst libconf_free.simps) (simp add: h2_def)
  also have "\<dots> = Some (h2 |` (- set (conf_ids h (ce_next e) ts)))"
    using Cons.IH(2) [OF r2] conf_ids_frame [OF r(2) same] by simp
  also have "h2 |` (- set (conf_ids h (ce_next e) ts)) = h |` (- set (conf_ids h p (Ctree t v ch # ts)))"
    using i(1,5) by (auto simp: h2_def h1_def restrict_map_def fun_eq_iff)
  finally show ?case .
qed

text \<open>Freeing a configuration frees each of its entries, those of all blocks included, once, and
  nothing else.\<close>

theorem libconf_free_spec:
  assumes "conf_rep h lo hi par prv p ts"
  shows "libconf_free p h = Some (h |` (- set (conf_ids h p ts)))"
  by (rule libconf_free_tree [OF assms])

theorem libconf_free_spec_witness:
  "libconf_free (Some 0) [0 \<mapsto> port_entry] = Some Map.empty"
  using libconf_free_spec [OF port_rep] by (simp add: port_entry_def centry_new_def restrict_map_def fun_eq_iff)

end
