(* ===== verification/Getconf.thy ===== *)
theory Getconf
  imports Libconf_Validate Sap Fe
begin

text \<open>
  \<^verbatim>\<open>config.c\<close>: the tables of options of a configuration file, their callbacks, which build the
  adapters, streams, inputs and outputs, and \<^verbatim>\<open>readconfig\<close>.

  The objects that are built are named by numbers in the order in which they are made.  The static
  variables \<^verbatim>\<open>adapter\<close>, \<^verbatim>\<open>stream\<close>, \<^verbatim>\<open>output\<close> and \<^verbatim>\<open>sap\<close> are the objects that are being built; the
  announcement \<^verbatim>\<open>sap\<close> is a part of its output, so the variable is the number of the output.
  \<open>None\<close> is the use of a null pointer.  The records have the members that a configuration sets.
\<close>

section \<open>State\<close>

record cfsap =
  cp_scope :: sap_scope
  cp_group :: "string option"
  cp_port :: int
  cp_announcehost :: "string option"
  cp_announceport :: int
  cp_playgroup :: "string option"
  cp_interval :: int
  cp_uri :: "string option"
  cp_description :: "string option"
  cp_emaillist :: "string list"
  cp_phonelist :: "string list"
  cp_attributelist :: "string list"
  cp_ttl :: int

record cfoutput =
  co_type :: otype
  co_remoteaddr :: "string option"
  co_remoteport :: int
  co_ttl :: int
  co_localaddr :: "string option"
  co_sap :: "cfsap option"
  co_stream :: "nat option"
  co_url :: "string option"
  co_filename :: "string option"

datatype cfinput = In_pid nat | In_pnr nat | In_full

record cfstream =
  ct_name :: "string option"
  ct_adapter :: "nat option"
  ct_output :: "nat list"
  ct_input :: "cfinput list"
  ct_psineeded :: bool

text \<open>The union of the three kinds of frontends; its bytes are not followed any more when two members
  have been written.\<close>

datatype cffe = Fe_zero | Fe_s dvbs | Fe_t dvbt | Fe_c dvbc | Fe_mixed

record cfadapter =
  ca_no :: int
  ca_type :: adapter_type
  ca_budgetmode :: int
  ca_stuckinterval :: int
  ca_buffersize :: int
  ca_statinterval :: int
  ca_fe :: cffe
  ca_streams :: "nat list"

record cfstate =
  cf_http_port :: int
  cf_adapters :: "nat list"
  cf_new :: nat
  cf_ad :: "nat \<rightharpoonup> cfadapter"
  cf_st :: "nat \<rightharpoonup> cfstream"
  cf_out :: "nat \<rightharpoonup> cfoutput"
  cf_adapter :: "nat option"
  cf_stream :: "nat option"
  cf_output :: "nat option"
  cf_sap :: "nat option"

definition cfstate_new :: cfstate where
  "cfstate_new = \<lparr>cf_http_port = 0, cf_adapters = [], cf_new = 0, cf_ad = Map.empty, cf_st = Map.empty, cf_out = Map.empty,
     cf_adapter = None, cf_stream = None, cf_output = None, cf_sap = None\<rparr>"

text \<open>A callback gets the value and gives its result, 0 for a value it refuses.\<close>

type_synonym cfcall = "lc_value \<Rightarrow> cfstate \<Rightarrow> (bool \<times> cfstate) option"

definition val_num :: "lc_value \<Rightarrow> int option" where
  "val_num v = (case v of Lc_num n \<Rightarrow> Some n | _ \<Rightarrow> None)"

definition val_string :: "lc_value \<Rightarrow> string option" where
  "val_string v = (case v of Lc_string s \<Rightarrow> Some s | _ \<Rightarrow> None)"

definition to_ulong :: "int \<Rightarrow> nat" where
  "to_ulong n = nat (n mod 2 ^ 64)"

definition on_adapter :: "(cfadapter \<Rightarrow> cfadapter) \<Rightarrow> cfstate \<Rightarrow> (bool \<times> cfstate) option" where
  "on_adapter f st = do { i \<leftarrow> cf_adapter st; a \<leftarrow> cf_ad st i; Some (True, st\<lparr>cf_ad := (cf_ad st)(i \<mapsto> f a)\<rparr>) }"

definition on_stream :: "(cfstream \<Rightarrow> cfstream) \<Rightarrow> cfstate \<Rightarrow> (bool \<times> cfstate) option" where
  "on_stream f st = do { i \<leftarrow> cf_stream st; s \<leftarrow> cf_st st i; Some (True, st\<lparr>cf_st := (cf_st st)(i \<mapsto> f s)\<rparr>) }"

definition on_output :: "(cfoutput \<Rightarrow> cfoutput) \<Rightarrow> cfstate \<Rightarrow> (bool \<times> cfstate) option" where
  "on_output f st = do { i \<leftarrow> cf_output st; x \<leftarrow> cf_out st i; Some (True, st\<lparr>cf_out := (cf_out st)(i \<mapsto> f x)\<rparr>) }"

definition on_sap :: "(cfsap \<Rightarrow> cfsap) \<Rightarrow> cfstate \<Rightarrow> (bool \<times> cfstate) option" where
  "on_sap f st = do {
     i \<leftarrow> cf_sap st;
     x \<leftarrow> cf_out st i;
     sap \<leftarrow> co_sap x;
     Some (True, st\<lparr>cf_out := (cf_out st)(i \<mapsto> x\<lparr>co_sap := Some (f sap)\<rparr>)\<rparr>)
   }"

section \<open>Adapters\<close>

definition DVR_DEFAULT_STUCKINT :: int where "DVR_DEFAULT_STUCKINT = 5000"
definition DVR_BUFFER_DEFAULT :: int where "DVR_BUFFER_DEFAULT = 50"

definition cf_adapter_start :: cfcall where
  "cf_adapter_start v st = do {
     n \<leftarrow> val_num v;
     let i = cf_new st;
     Some (True, st\<lparr>cf_new := i + 1, cf_adapter := Some i, cf_adapters := cf_adapters st @ [i],
       cf_ad := (cf_ad st)(i \<mapsto> \<lparr>ca_no = to_int n, ca_type = AT_DVBS, ca_budgetmode = 1, ca_stuckinterval = DVR_DEFAULT_STUCKINT,
         ca_buffersize = DVR_BUFFER_DEFAULT * 188, ca_statinterval = 0, ca_fe = Fe_zero, ca_streams = []\<rparr>)\<rparr>)
   }"

definition cf_adapter_budget :: cfcall where
  "cf_adapter_budget v st = do { n \<leftarrow> val_num v; on_adapter (\<lambda>a. a\<lparr>ca_budgetmode := to_int n\<rparr>) st }"
definition cf_adapter_packetbuffer :: cfcall where
  "cf_adapter_packetbuffer v st = do { n \<leftarrow> val_num v; on_adapter (\<lambda>a. a\<lparr>ca_buffersize := to_int n\<rparr>) st }"
definition cf_adapter_statinterval :: cfcall where
  "cf_adapter_statinterval v st = do { n \<leftarrow> val_num v; on_adapter (\<lambda>a. a\<lparr>ca_statinterval := to_int n\<rparr>) st }"
definition cf_adapter_stuckinterval :: cfcall where
  "cf_adapter_stuckinterval v st = do { n \<leftarrow> val_num v; on_adapter (\<lambda>a. a\<lparr>ca_stuckinterval := to_int n\<rparr>) st }"

definition cf_dvbs :: cfcall where "cf_dvbs v st = on_adapter (\<lambda>a. a\<lparr>ca_type := AT_DVBS\<rparr>) st"
definition cf_dvbs2 :: cfcall where "cf_dvbs2 v st = on_adapter (\<lambda>a. a\<lparr>ca_type := AT_DVBS2\<rparr>) st"
definition cf_dvbt :: cfcall where "cf_dvbt v st = on_adapter (\<lambda>a. a\<lparr>ca_type := AT_DVBT\<rparr>) st"
definition cf_dvbc :: cfcall where "cf_dvbc v st = on_adapter (\<lambda>a. a\<lparr>ca_type := AT_DVBC\<rparr>) st"

section \<open>Frontends\<close>

text \<open>The members of the union, of which the memory was zero at the beginning.\<close>

definition dvbs_zero :: dvbs where
  "dvbs_zero = \<lparr>s_lnbsharing = False, s_lof1 = 0, s_lof2 = 0, s_slof = 0, s_freq = 0, s_pol_h = True, s_srate = 0, s_diseqc = 0\<rparr>"
definition dvbt_zero :: dvbt where
  "dvbt_zero = \<lparr>t_freq = 0, t_bandwidth = 0, t_tmode = 0, t_modulation = 0, t_guard = 0, t_hierarchy = 0\<rparr>"
definition dvbc_zero :: dvbc where
  "dvbc_zero = \<lparr>c_freq = 0, c_srate = 0, c_modulation = 0, c_fec = 0\<rparr>"

definition on_dvbs :: "(dvbs \<Rightarrow> dvbs) \<Rightarrow> cfstate \<Rightarrow> (bool \<times> cfstate) option" where
  "on_dvbs f = on_adapter (\<lambda>a. case ca_fe a of
     Fe_zero \<Rightarrow> a\<lparr>ca_fe := Fe_s (f dvbs_zero)\<rparr> | Fe_s s \<Rightarrow> a\<lparr>ca_fe := Fe_s (f s)\<rparr> | _ \<Rightarrow> a\<lparr>ca_fe := Fe_mixed\<rparr>)"
definition on_dvbt :: "(dvbt \<Rightarrow> dvbt) \<Rightarrow> cfstate \<Rightarrow> (bool \<times> cfstate) option" where
  "on_dvbt f = on_adapter (\<lambda>a. case ca_fe a of
     Fe_zero \<Rightarrow> a\<lparr>ca_fe := Fe_t (f dvbt_zero)\<rparr> | Fe_t s \<Rightarrow> a\<lparr>ca_fe := Fe_t (f s)\<rparr> | _ \<Rightarrow> a\<lparr>ca_fe := Fe_mixed\<rparr>)"
definition on_dvbc :: "(dvbc \<Rightarrow> dvbc) \<Rightarrow> cfstate \<Rightarrow> (bool \<times> cfstate) option" where
  "on_dvbc f = on_adapter (\<lambda>a. case ca_fe a of
     Fe_zero \<Rightarrow> a\<lparr>ca_fe := Fe_c (f dvbc_zero)\<rparr> | Fe_c s \<Rightarrow> a\<lparr>ca_fe := Fe_c (f s)\<rparr> | _ \<Rightarrow> a\<lparr>ca_fe := Fe_mixed\<rparr>)"

definition cf_dvbs_trans_pol :: cfcall where
  "cf_dvbs_trans_pol v st = do {
     s \<leftarrow> val_string v;
     if c_strcasecmp s ''h'' = 0 then on_dvbs (\<lambda>d. d\<lparr>s_pol_h := True\<rparr>) st
     else if c_strcasecmp s ''v'' = 0 then on_dvbs (\<lambda>d. d\<lparr>s_pol_h := False\<rparr>) st
     else Some (False, st)
   }"

definition cf_dvbs_trans_freq :: cfcall where
  "cf_dvbs_trans_freq v st = do { n \<leftarrow> val_num v; on_dvbs (\<lambda>d. d\<lparr>s_freq := to_ulong n\<rparr>) st }"
definition cf_dvbs_trans_srate :: cfcall where
  "cf_dvbs_trans_srate v st = do { n \<leftarrow> val_num v; on_dvbs (\<lambda>d. d\<lparr>s_srate := to_ulong n\<rparr>) st }"
definition cf_dvbs_trans_diseqc :: cfcall where
  "cf_dvbs_trans_diseqc v st = do { n \<leftarrow> val_num v; on_dvbs (\<lambda>d. d\<lparr>s_diseqc := to_int n\<rparr>) st }"
definition cf_dvbs_lnbsharing :: cfcall where
  "cf_dvbs_lnbsharing v st = do { n \<leftarrow> val_num v; on_dvbs (\<lambda>d. d\<lparr>s_lnbsharing := (to_int n \<noteq> 0)\<rparr>) st }"
definition cf_dvbs_lnb_lof1 :: cfcall where
  "cf_dvbs_lnb_lof1 v st = do { n \<leftarrow> val_num v; on_dvbs (\<lambda>d. d\<lparr>s_lof1 := to_ulong n\<rparr>) st }"
definition cf_dvbs_lnb_lof2 :: cfcall where
  "cf_dvbs_lnb_lof2 v st = do { n \<leftarrow> val_num v; on_dvbs (\<lambda>d. d\<lparr>s_lof2 := to_ulong n\<rparr>) st }"
definition cf_dvbs_lnb_slof :: cfcall where
  "cf_dvbs_lnb_slof v st = do { n \<leftarrow> val_num v; on_dvbs (\<lambda>d. d\<lparr>s_slof := to_ulong n\<rparr>) st }"

text \<open>The parameters of DVB-T: a word for 0, or a number that is one of a list.\<close>

definition dvbt_choice :: "int list \<Rightarrow> (int \<Rightarrow> dvbt \<Rightarrow> dvbt) \<Rightarrow> cfcall" where
  "dvbt_choice ns put v st = do {
     s \<leftarrow> val_string v;
     if c_strcasecmp ''auto'' s = 0 then on_dvbt (put 0) st
     else
       let n = to_int (fst (c_strtol 10 s))
       in if n \<notin> set ns then Some (False, st) else on_dvbt (put n) st
   }"

definition cf_dvbt_bandwidth :: cfcall where
  "cf_dvbt_bandwidth = dvbt_choice [6, 7, 8] (\<lambda>n d. d\<lparr>t_bandwidth := n\<rparr>)"
definition cf_dvbt_tmode :: cfcall where
  "cf_dvbt_tmode = dvbt_choice [2, 8] (\<lambda>n d. d\<lparr>t_tmode := n\<rparr>)"
definition cf_dvbt_modulation :: cfcall where
  "cf_dvbt_modulation = dvbt_choice [16, 32, 64, 128, 256] (\<lambda>n d. d\<lparr>t_modulation := n\<rparr>)"
definition cf_dvbt_guard :: cfcall where
  "cf_dvbt_guard = dvbt_choice [4, 8, 16, 32] (\<lambda>n d. d\<lparr>t_guard := n\<rparr>)"

definition cf_dvbt_hierarchy :: cfcall where
  "cf_dvbt_hierarchy v st = do {
     s \<leftarrow> val_string v;
     if c_strcasecmp ''none'' s = 0 then on_dvbt (\<lambda>d. d\<lparr>t_hierarchy := -1\<rparr>) st
     else if c_strcasecmp ''auto'' s = 0 then on_dvbt (\<lambda>d. d\<lparr>t_hierarchy := 0\<rparr>) st
     else
       let h = to_int (fst (c_strtol 0 s))
       in if h \<notin> {1, 2, 4} then Some (False, st) else on_dvbt (\<lambda>d. d\<lparr>t_hierarchy := h\<rparr>) st
   }"

definition cf_dvbt_freq :: cfcall where
  "cf_dvbt_freq v st = do { n \<leftarrow> val_num v; on_dvbt (\<lambda>d. d\<lparr>t_freq := to_ulong n\<rparr>) st }"

definition cf_dvbc_freq :: cfcall where
  "cf_dvbc_freq v st = do { n \<leftarrow> val_num v; on_dvbc (\<lambda>d. d\<lparr>c_freq := to_ulong n\<rparr>) st }"
definition cf_dvbc_modulation :: cfcall where
  "cf_dvbc_modulation v st = do { n \<leftarrow> val_num v; on_dvbc (\<lambda>d. d\<lparr>c_modulation := to_int n\<rparr>) st }"
definition cf_dvbc_trans_srate :: cfcall where
  "cf_dvbc_trans_srate v st = do { n \<leftarrow> val_num v; on_dvbc (\<lambda>d. d\<lparr>c_srate := to_ulong n\<rparr>) st }"
definition cf_dvbc_fec :: cfcall where
  "cf_dvbc_fec v st = do { n \<leftarrow> val_num v; on_dvbc (\<lambda>d. d\<lparr>c_fec := to_int n\<rparr>) st }"

section \<open>Streams and inputs\<close>

definition cf_stream_start :: cfcall where
  "cf_stream_start v st =
     (let i = cf_new st
      in do {
        (ok, st) \<leftarrow> on_adapter (\<lambda>a. a\<lparr>ca_streams := ca_streams a @ [i]\<rparr>) st;
        Some (True, st\<lparr>cf_new := i + 1, cf_stream := Some i,
          cf_st := (cf_st st)(i \<mapsto> \<lparr>ct_name = None, ct_adapter = cf_adapter st, ct_output = [], ct_input = [], ct_psineeded = False\<rparr>)\<rparr>)
      })"

definition cf_stream_name :: cfcall where
  "cf_stream_name v st = do { s \<leftarrow> val_string v; on_stream (\<lambda>x. x\<lparr>ct_name := Some s\<rparr>) st }"

definition to_u16 :: "int \<Rightarrow> nat" where
  "to_u16 n = nat (n mod 2 ^ 16)"

definition cf_input_start :: "cfinput \<Rightarrow> cfstate \<Rightarrow> (bool \<times> cfstate) option" where
  "cf_input_start inp = on_stream (\<lambda>s. s\<lparr>ct_input := ct_input s @ [inp]\<rparr>)"

definition cf_input_pid :: cfcall where
  "cf_input_pid v st = do { n \<leftarrow> val_num v; cf_input_start (In_pid (to_u16 n)) st }"
definition cf_input_pnr :: cfcall where
  "cf_input_pnr v st = do { n \<leftarrow> val_num v; (ok, st) \<leftarrow> cf_input_start (In_pnr (to_u16 n)) st; on_stream (\<lambda>s. s\<lparr>ct_psineeded := True\<rparr>) st }"
definition cf_input_full :: cfcall where
  "cf_input_full v st = cf_input_start In_full st"

section \<open>Outputs\<close>

definition cf_output_start :: "otype \<Rightarrow> cfstate \<Rightarrow> (bool \<times> cfstate) option" where
  "cf_output_start ty st =
     (let i = cf_new st
      in do {
        (ok, st) \<leftarrow> on_stream (\<lambda>s. s\<lparr>ct_output := ct_output s @ [i]\<rparr>) st;
        Some (True, st\<lparr>cf_new := i + 1, cf_output := Some i,
          cf_out := (cf_out st)(i \<mapsto> \<lparr>co_type = ty, co_remoteaddr = None, co_remoteport = 0, co_ttl = 15, co_localaddr = None,
            co_sap = None, co_stream = cf_stream st, co_url = None, co_filename = None\<rparr>)\<rparr>)
      })"

definition cf_output_udp_start :: cfcall where "cf_output_udp_start v = cf_output_start OTYPE_UDP"
definition cf_output_rtp_start :: cfcall where "cf_output_rtp_start v = cf_output_start OTYPE_RTP"
definition cf_output_http_start :: cfcall where "cf_output_http_start v = cf_output_start OTYPE_HTTP"
definition cf_output_pipe_start :: cfcall where "cf_output_pipe_start v = cf_output_start OTYPE_PIPE"

definition cf_output_remoteport :: cfcall where
  "cf_output_remoteport v st = do { n \<leftarrow> val_num v; on_output (\<lambda>x. x\<lparr>co_remoteport := to_int n\<rparr>) st }"
definition cf_output_remoteaddr :: cfcall where
  "cf_output_remoteaddr v st = do { s \<leftarrow> val_string v; on_output (\<lambda>x. x\<lparr>co_remoteaddr := Some s\<rparr>) st }"
definition cf_output_localaddr :: cfcall where
  "cf_output_localaddr v st = do { s \<leftarrow> val_string v; on_output (\<lambda>x. x\<lparr>co_localaddr := Some s\<rparr>) st }"
definition cf_output_ttl :: cfcall where
  "cf_output_ttl v st = do { n \<leftarrow> val_num v; on_output (\<lambda>x. x\<lparr>co_ttl := to_int n\<rparr>) st }"
definition cf_output_url :: cfcall where
  "cf_output_url v st = do { s \<leftarrow> val_string v; on_output (\<lambda>x. x\<lparr>co_url := Some s\<rparr>) st }"
definition cf_pipe_filename :: cfcall where
  "cf_pipe_filename v st = do { s \<leftarrow> val_string v; on_output (\<lambda>x. x\<lparr>co_filename := Some s\<rparr>) st }"

definition cf_http_port_set :: cfcall where
  "cf_http_port_set v st = do { n \<leftarrow> val_num v; Some (True, st\<lparr>cf_http_port := to_int n\<rparr>) }"

section \<open>Announcements\<close>

definition cfsap_new :: cfsap where
  "cfsap_new = \<lparr>cp_scope = SAP_SCOPE_NONE, cp_group = None, cp_port = 0, cp_announcehost = None, cp_announceport = 0,
     cp_playgroup = None, cp_interval = 10, cp_uri = None, cp_description = None, cp_emaillist = [], cp_phonelist = [],
     cp_attributelist = [], cp_ttl = -1\<rparr>"

definition cf_sap_start :: cfcall where
  "cf_sap_start v st = do {
     (ok, st) \<leftarrow> on_output (\<lambda>x. x\<lparr>co_sap := Some cfsap_new\<rparr>) st;
     Some (True, st\<lparr>cf_sap := cf_output st\<rparr>)
   }"

definition cf_sap_scope :: cfcall where
  "cf_sap_scope v st = do {
     s \<leftarrow> val_string v;
     if c_strcasecmp s ''global'' = 0 then on_sap (\<lambda>p. p\<lparr>cp_scope := SAP_SCOPE_GLOBAL\<rparr>) st
     else if c_strcasecmp s ''org'' = 0 then on_sap (\<lambda>p. p\<lparr>cp_scope := SAP_SCOPE_ORG\<rparr>) st
     else if c_strcasecmp s ''local'' = 0 then on_sap (\<lambda>p. p\<lparr>cp_scope := SAP_SCOPE_LOCAL\<rparr>) st
     else if c_strcasecmp s ''link'' = 0 then on_sap (\<lambda>p. p\<lparr>cp_scope := SAP_SCOPE_LINK\<rparr>) st
     else Some (False, st)
   }"

definition cf_sap_sap_group :: cfcall where
  "cf_sap_sap_group v st = do { s \<leftarrow> val_string v; on_sap (\<lambda>p. p\<lparr>cp_group := Some s\<rparr>) st }"
definition cf_sap_sap_port :: cfcall where
  "cf_sap_sap_port v st = do { n \<leftarrow> val_num v; on_sap (\<lambda>p. p\<lparr>cp_port := to_int n\<rparr>) st }"
definition cf_sap_ttl :: cfcall where
  "cf_sap_ttl v st = do { n \<leftarrow> val_num v; on_sap (\<lambda>p. p\<lparr>cp_ttl := to_int n\<rparr>) st }"
definition cf_sap_interval :: cfcall where
  "cf_sap_interval v st = do { n \<leftarrow> val_num v; on_sap (\<lambda>p. p\<lparr>cp_interval := to_int n\<rparr>) st }"
definition cf_sap_playgroup :: cfcall where
  "cf_sap_playgroup v st = do { s \<leftarrow> val_string v; on_sap (\<lambda>p. p\<lparr>cp_playgroup := Some s\<rparr>) st }"
definition cf_sap_announce_host :: cfcall where
  "cf_sap_announce_host v st = do { s \<leftarrow> val_string v; on_sap (\<lambda>p. p\<lparr>cp_announcehost := Some s\<rparr>) st }"
definition cf_sap_announce_port :: cfcall where
  "cf_sap_announce_port v st = do { n \<leftarrow> val_num v; on_sap (\<lambda>p. p\<lparr>cp_announceport := to_int n\<rparr>) st }"
definition cf_sap_uri :: cfcall where
  "cf_sap_uri v st = do { s \<leftarrow> val_string v; on_sap (\<lambda>p. p\<lparr>cp_uri := Some s\<rparr>) st }"
definition cf_sap_description :: cfcall where
  "cf_sap_description v st = do { s \<leftarrow> val_string v; on_sap (\<lambda>p. p\<lparr>cp_description := Some s\<rparr>) st }"
definition cf_sap_email :: cfcall where
  "cf_sap_email v st = do { s \<leftarrow> val_string v; on_sap (\<lambda>p. p\<lparr>cp_emaillist := cp_emaillist p @ [s]\<rparr>) st }"
definition cf_sap_phone :: cfcall where
  "cf_sap_phone v st = do { s \<leftarrow> val_string v; on_sap (\<lambda>p. p\<lparr>cp_phonelist := cp_phonelist p @ [s]\<rparr>) st }"
definition cf_sap_attribute :: cfcall where
  "cf_sap_attribute v st = do { s \<leftarrow> val_string v; on_sap (\<lambda>p. p\<lparr>cp_attributelist := cp_attributelist p @ [s]\<rparr>) st }"


section \<open>The tables\<close>

text \<open>The functions that a table may name.  The address of a function is its place in this list.\<close>

definition cf_functions :: "(string \<times> cfcall) list" where
  "cf_functions = [
     (''cf_adapter_start'', cf_adapter_start),
     (''cf_adapter_budget'', cf_adapter_budget),
     (''cf_adapter_packetbuffer'', cf_adapter_packetbuffer),
     (''cf_adapter_statinterval'', cf_adapter_statinterval),
     (''cf_adapter_stuckinterval'', cf_adapter_stuckinterval),
     (''cf_dvbs'', cf_dvbs),
     (''cf_dvbs2'', cf_dvbs2),
     (''cf_dvbt'', cf_dvbt),
     (''cf_dvbc'', cf_dvbc),
     (''cf_dvbs_trans_pol'', cf_dvbs_trans_pol),
     (''cf_dvbs_trans_freq'', cf_dvbs_trans_freq),
     (''cf_dvbs_trans_srate'', cf_dvbs_trans_srate),
     (''cf_dvbs_trans_diseqc'', cf_dvbs_trans_diseqc),
     (''cf_dvbs_lnbsharing'', cf_dvbs_lnbsharing),
     (''cf_dvbs_lnb_lof1'', cf_dvbs_lnb_lof1),
     (''cf_dvbs_lnb_lof2'', cf_dvbs_lnb_lof2),
     (''cf_dvbs_lnb_slof'', cf_dvbs_lnb_slof),
     (''cf_dvbt_bandwidth'', cf_dvbt_bandwidth),
     (''cf_dvbt_tmode'', cf_dvbt_tmode),
     (''cf_dvbt_modulation'', cf_dvbt_modulation),
     (''cf_dvbt_guard'', cf_dvbt_guard),
     (''cf_dvbt_hierarchy'', cf_dvbt_hierarchy),
     (''cf_dvbt_freq'', cf_dvbt_freq),
     (''cf_dvbc_freq'', cf_dvbc_freq),
     (''cf_dvbc_modulation'', cf_dvbc_modulation),
     (''cf_dvbc_trans_srate'', cf_dvbc_trans_srate),
     (''cf_dvbc_fec'', cf_dvbc_fec),
     (''cf_stream_start'', cf_stream_start),
     (''cf_stream_name'', cf_stream_name),
     (''cf_input_pid'', cf_input_pid),
     (''cf_input_pnr'', cf_input_pnr),
     (''cf_input_full'', cf_input_full),
     (''cf_output_udp_start'', cf_output_udp_start),
     (''cf_output_rtp_start'', cf_output_rtp_start),
     (''cf_output_http_start'', cf_output_http_start),
     (''cf_output_pipe_start'', cf_output_pipe_start),
     (''cf_output_remoteport'', cf_output_remoteport),
     (''cf_output_remoteaddr'', cf_output_remoteaddr),
     (''cf_output_localaddr'', cf_output_localaddr),
     (''cf_output_ttl'', cf_output_ttl),
     (''cf_output_url'', cf_output_url),
     (''cf_pipe_filename'', cf_pipe_filename),
     (''cf_http_port_set'', cf_http_port_set),
     (''cf_sap_start'', cf_sap_start),
     (''cf_sap_scope'', cf_sap_scope),
     (''cf_sap_sap_group'', cf_sap_sap_group),
     (''cf_sap_sap_port'', cf_sap_sap_port),
     (''cf_sap_ttl'', cf_sap_ttl),
     (''cf_sap_interval'', cf_sap_interval),
     (''cf_sap_playgroup'', cf_sap_playgroup),
     (''cf_sap_announce_host'', cf_sap_announce_host),
     (''cf_sap_announce_port'', cf_sap_announce_port),
     (''cf_sap_uri'', cf_sap_uri),
     (''cf_sap_description'', cf_sap_description),
     (''cf_sap_email'', cf_sap_email),
     (''cf_sap_phone'', cf_sap_phone),
     (''cf_sap_attribute'', cf_sap_attribute)]"

fun place_of :: "string \<Rightarrow> nat \<Rightarrow> (string \<times> cfcall) list \<Rightarrow> nat option" where
  "place_of n k [] = None"
| "place_of n k ((m, f) # fs) = (if n = m then Some k else place_of n (k + 1) fs)"

definition fp :: "string \<Rightarrow> nat option" where
  "fp n = place_of n 0 cf_functions"

definition conf_sap :: "ventry list" where
  "conf_sap = [
     Ventry ''scope'' 0 1 LCV_STRING 0 None (fp ''cf_sap_scope''),
     Ventry ''sap-group'' 0 1 LCV_IPV4ADDR 0 None (fp ''cf_sap_sap_group''),
     Ventry ''sap-port'' 0 1 LCV_NUM 0 None (fp ''cf_sap_sap_port''),
     Ventry ''announce-host'' 0 1 LCV_STRING 0 None (fp ''cf_sap_announce_host''),
     Ventry ''announce-port'' 0 1 LCV_NUM 0 None (fp ''cf_sap_announce_port''),
     Ventry ''ttl'' 0 1 LCV_NUM 0 None (fp ''cf_sap_ttl''),
     Ventry ''interval'' 0 1 LCV_NUM 0 None (fp ''cf_sap_interval''),
     Ventry ''playgroup'' 0 1 LCV_STRING 0 None (fp ''cf_sap_playgroup''),
     Ventry ''uri'' 0 1 LCV_STRING 0 None (fp ''cf_sap_uri''),
     Ventry ''description'' 0 1 LCV_STRING 0 None (fp ''cf_sap_description''),
     Ventry ''email'' 0 0 LCV_STRING 0 None (fp ''cf_sap_email''),
     Ventry ''phone'' 0 0 LCV_STRING 0 None (fp ''cf_sap_phone''),
     Ventry ''attribute'' 0 0 LCV_STRING 0 None (fp ''cf_sap_attribute'')]"

definition conf_output_udp :: "ventry list" where
  "conf_output_udp = [
     Ventry ''local-address'' 0 1 LCV_IPV4ADDR 0 None (fp ''cf_output_localaddr''),
     Ventry ''remote-address'' 1 1 LCV_IPADDR 0 None (fp ''cf_output_remoteaddr''),
     Ventry ''remote-port'' 1 1 LCV_NUM 0 None (fp ''cf_output_remoteport''),
     Ventry ''ttl'' 0 1 LCV_NUM 0 None (fp ''cf_output_ttl''),
     Ventry ''sap'' 0 1 LCV_NONE 0 (Some conf_sap) (fp ''cf_sap_start'')]"

definition conf_output_rtp :: "ventry list" where
  "conf_output_rtp = [
     Ventry ''local-address'' 0 1 LCV_IPV4ADDR 0 None (fp ''cf_output_localaddr''),
     Ventry ''remote-address'' 1 1 LCV_IPV4ADDR 0 None (fp ''cf_output_remoteaddr''),
     Ventry ''remote-port'' 1 1 LCV_NUM 0 None (fp ''cf_output_remoteport''),
     Ventry ''ttl'' 0 1 LCV_NUM 0 None (fp ''cf_output_ttl''),
     Ventry ''sap'' 0 1 LCV_NONE 0 (Some conf_sap) (fp ''cf_sap_start'')]"

definition conf_output_http :: "ventry list" where
  "conf_output_http = [
     Ventry ''url'' 1 1 LCV_STRING 0 None (fp ''cf_output_url'')]"

definition conf_output_pipe :: "ventry list" where
  "conf_output_pipe = [
     Ventry ''filename'' 1 1 LCV_STRING 0 None (fp ''cf_pipe_filename'')]"

definition conf_input :: "ventry list" where
  "conf_input = [
     Ventry ''pid'' 0 0 LCV_NUM 2 None (fp ''cf_input_pid''),
     Ventry ''pnr'' 0 1 LCV_NUM 2 None (fp ''cf_input_pnr''),
     Ventry ''full'' 0 1 LCV_NONE 2 None (fp ''cf_input_full'')]"

definition conf_stream :: "ventry list" where
  "conf_stream = [
     Ventry ''name'' 1 1 LCV_STRING 0 None (fp ''cf_stream_name''),
     Ventry ''sap'' 0 1 LCV_NONE 0 (Some conf_sap) (fp ''cf_sap_start''),
     Ventry ''input'' 0 1 LCV_NONE 0 (Some conf_input) None,
     Ventry ''output-udp'' 0 0 LCV_NONE 0 (Some conf_output_udp) (fp ''cf_output_udp_start''),
     Ventry ''output-rtp'' 0 0 LCV_NONE 0 (Some conf_output_rtp) (fp ''cf_output_rtp_start''),
     Ventry ''output-http'' 0 0 LCV_NONE 0 (Some conf_output_http) (fp ''cf_output_http_start''),
     Ventry ''output-pipe'' 0 0 LCV_NONE 0 (Some conf_output_pipe) (fp ''cf_output_pipe_start'')]"

definition conf_dvbs_transponder :: "ventry list" where
  "conf_dvbs_transponder = [
     Ventry ''frequency'' 1 1 LCV_NUM 0 None (fp ''cf_dvbs_trans_freq''),
     Ventry ''polarisation'' 1 1 LCV_STRING 0 None (fp ''cf_dvbs_trans_pol''),
     Ventry ''symbol-rate'' 1 1 LCV_NUM 0 None (fp ''cf_dvbs_trans_srate''),
     Ventry ''diseqc'' 0 1 LCV_NUM 0 None (fp ''cf_dvbs_trans_diseqc'')]"

definition conf_dvbs_lnb :: "ventry list" where
  "conf_dvbs_lnb = [
     Ventry ''lof1'' 1 1 LCV_NUM 0 None (fp ''cf_dvbs_lnb_lof1''),
     Ventry ''lof2'' 0 1 LCV_NUM 0 None (fp ''cf_dvbs_lnb_lof2''),
     Ventry ''slof'' 0 1 LCV_NUM 0 None (fp ''cf_dvbs_lnb_slof'')]"

definition conf_dvbs :: "ventry list" where
  "conf_dvbs = [
     Ventry ''lnb-sharing'' 0 1 LCV_BOOL 0 None (fp ''cf_dvbs_lnbsharing''),
     Ventry ''lnb'' 1 1 LCV_NONE 0 (Some conf_dvbs_lnb) None,
     Ventry ''transponder'' 1 1 LCV_NONE 0 (Some conf_dvbs_transponder) None]"

definition conf_dvbt :: "ventry list" where
  "conf_dvbt = [
     Ventry ''bandwidth'' 0 1 LCV_STRING 0 None (fp ''cf_dvbt_bandwidth''),
     Ventry ''frequency'' 1 1 LCV_NUM 0 None (fp ''cf_dvbt_freq''),
     Ventry ''transmission-mode'' 0 1 LCV_STRING 0 None (fp ''cf_dvbt_tmode''),
     Ventry ''modulation'' 0 1 LCV_STRING 0 None (fp ''cf_dvbt_modulation''),
     Ventry ''guard-interval'' 0 1 LCV_STRING 0 None (fp ''cf_dvbt_guard''),
     Ventry ''hierarchy'' 0 1 LCV_STRING 0 None (fp ''cf_dvbt_hierarchy'')]"

definition conf_dvbc :: "ventry list" where
  "conf_dvbc = [
     Ventry ''frequency'' 1 1 LCV_NUM 0 None (fp ''cf_dvbc_freq''),
     Ventry ''modulation'' 0 1 LCV_NUM 0 None (fp ''cf_dvbc_modulation''),
     Ventry ''symbol-rate'' 1 1 LCV_NUM 0 None (fp ''cf_dvbc_trans_srate''),
     Ventry ''fec'' 0 1 LCV_NUM 0 None (fp ''cf_dvbc_fec'')]"

definition conf_adapter :: "ventry list" where
  "conf_adapter = [
     Ventry ''budget-mode'' 0 1 LCV_BOOL 0 None (fp ''cf_adapter_budget''),
     Ventry ''packet-buffer'' 0 1 LCV_NUM 0 None (fp ''cf_adapter_packetbuffer''),
     Ventry ''stat-interval'' 0 1 LCV_NUM 0 None (fp ''cf_adapter_statinterval''),
     Ventry ''stuck-interval'' 0 1 LCV_NUM 0 None (fp ''cf_adapter_stuckinterval''),
     Ventry ''stream'' 0 0 LCV_NONE 0 (Some conf_stream) (fp ''cf_stream_start''),
     Ventry ''dvb-s'' 0 1 LCV_NONE 0 (Some conf_dvbs) (fp ''cf_dvbs''),
     Ventry ''dvb-s2'' 0 1 LCV_NONE 0 (Some conf_dvbs) (fp ''cf_dvbs2''),
     Ventry ''dvb-t'' 0 1 LCV_NONE 0 (Some conf_dvbt) (fp ''cf_dvbt''),
     Ventry ''dvb-c'' 0 1 LCV_NONE 0 (Some conf_dvbc) (fp ''cf_dvbc'')]"

definition conf_http :: "ventry list" where
  "conf_http = [
     Ventry ''port'' 1 1 LCV_NUM 0 None (fp ''cf_http_port_set'')]"

definition conf_main :: "ventry list" where
  "conf_main = [
     Ventry ''adapter'' 1 0 LCV_NUM 2 (Some conf_adapter) (fp ''cf_adapter_start''),
     Ventry ''http'' 1 1 LCV_NONE 0 (Some conf_http) None]"

section \<open>Reading a configuration\<close>

text \<open>The loops of the checks, so that concrete files can be read.\<close>

declare validate_token_loop.simps [code]
declare libconf_validate_values.simps [code]
declare valueopt_scan.simps [code]
declare valueopt_children.simps [code]
declare libconf_validate_callback.simps [code]
declare libconf_free.simps [code]

text \<open>A callback gets the entry too, of which it uses only the line for a message.  The late call has
  no value; no option of the tables asks for it.\<close>

definition cf_call :: "call \<Rightarrow> cfstate \<Rightarrow> (bool \<times> cfstate) option" where
  "cf_call c st =
     (case c of (f, i, v) \<Rightarrow>
        if f < length cf_functions then snd (cf_functions ! f) (case v of None \<Rightarrow> Lc_none | Some v \<Rightarrow> v) st else None)"

text \<open>The calls up to the first that is refused, from the state at the beginning.\<close>

fun cf_run :: "call list \<Rightarrow> cfstate \<Rightarrow> (bool \<times> cfstate) option" where
  "cf_run [] st = Some (True, st)"
| "cf_run (c # cs) st = do { (ok, st) \<leftarrow> cf_call c st; if ok then cf_run cs st else Some (False, st) }"

definition cf_accepts :: "call list \<Rightarrow> bool" where
  "cf_accepts log = (case cf_run log cfstate_new of None \<Rightarrow> False | Some (ok, st) \<Rightarrow> ok)"

text \<open>The file is its bytes, or \<open>None\<close> if it cannot be opened.  The result is the configuration or the
  null pointer; \<open>None\<close> is a crash.\<close>

definition readconfig :: "getaddrinfo \<Rightarrow> string option \<Rightarrow> cfstate option option" where
  "readconfig gai file =
     (case file of
        None \<Rightarrow> Some None
      | Some ctext \<Rightarrow> do {
          c \<leftarrow> libconf_parse ctext;
          (case c of
             None \<Rightarrow> Some None
           | Some (h, i) \<Rightarrow> do {
               (ok, h, log) \<leftarrow> libconf_validate gai cf_accepts i conf_main h;
               (_, st) \<leftarrow> cf_run log cfstate_new;
               if \<not> ok then do { h \<leftarrow> libconf_free (Some i) h; Some None } else Some (Some st)
             })
        })"

end
