(* ===== verification/Getconf_Safe.thy ===== *)
theory Getconf_Safe
  imports Getconf
begin

text \<open>
  What \<^verbatim>\<open>readconfig\<close> promises.  Every callback is described by the static variables it needs, those it
  sets, and the type of its value; the tables are checked once against these descriptions, as a type
  checker does, and the calls that a file gives can then be followed without their effects.
\<close>

section \<open>The objects and their links\<close>

definition conf_ok :: "cfstate \<Rightarrow> bool" where
  "conf_ok st \<longleftrightarrow>
     (\<forall>i a. cf_ad st i = Some a \<longrightarrow> i < cf_new st \<and> (\<forall>s \<in> set (ca_streams a). \<exists>x. cf_st st s = Some x \<and> ct_adapter x = Some i)) \<and>
     (\<forall>s x. cf_st st s = Some x \<longrightarrow> s < cf_new st \<and>
        (\<forall>k \<in> set (ct_output x). \<exists>y. cf_out st k = Some y \<and> co_stream y = Some s) \<and>
        (ct_psineeded x \<longleftrightarrow> (\<exists>n. In_pnr n \<in> set (ct_input x)))) \<and>
     (\<forall>k y. cf_out st k = Some y \<longrightarrow> k < cf_new st) \<and>
     (\<forall>i \<in> set (cf_adapters st). cf_ad st i \<noteq> None) \<and>
     (\<forall>i. cf_adapter st = Some i \<longrightarrow> cf_ad st i \<noteq> None) \<and>
     (\<forall>i. cf_stream st = Some i \<longrightarrow> cf_st st i \<noteq> None) \<and>
     (\<forall>i. cf_output st = Some i \<longrightarrow> cf_out st i \<noteq> None) \<and>
     (\<forall>i. cf_sap st = Some i \<longrightarrow> (\<exists>x. cf_out st i = Some x \<and> co_sap x \<noteq> None))"

text \<open>The numbers of the adapters.\<close>

definition adapter_nos :: "cfstate \<Rightarrow> int option list" where
  "adapter_nos st = map (\<lambda>i. map_option ca_no (cf_ad st i)) (cf_adapters st)"

datatype cfvar = V_adapter | V_stream | V_output | V_sap
datatype cfkind = K_num | K_string | K_any

fun avail :: "cfstate \<Rightarrow> cfvar \<Rightarrow> bool" where
  "avail st V_adapter = (cf_adapter st \<noteq> None)"
| "avail st V_stream = (cf_stream st \<noteq> None)"
| "avail st V_output = (cf_output st \<noteq> None)"
| "avail st V_sap = (cf_sap st \<noteq> None)"

fun of_kind :: "cfkind \<Rightarrow> lc_value \<Rightarrow> bool" where
  "of_kind K_num v = (val_num v \<noteq> None)"
| "of_kind K_string v = (val_string v \<noteq> None)"
| "of_kind K_any v = True"

text \<open>The variables a function needs, the type of its value, and the variables it sets.\<close>

type_synonym cfsig = "cfvar list \<times> cfkind \<times> cfvar list"

definition keeps :: "cfvar list \<Rightarrow> cfstate \<Rightarrow> (bool \<times> cfstate) option \<Rightarrow> bool" where
  "keeps gives st r \<longleftrightarrow> (\<exists>ok st'. r = Some (ok, st') \<and> conf_ok st' \<and> (\<forall>x. avail st x \<or> (ok \<and> x \<in> set gives) \<longrightarrow> avail st' x) \<and>
     (V_adapter \<notin> set gives \<longrightarrow> adapter_nos st' = adapter_nos st))"

definition sound :: "cfsig \<Rightarrow> cfcall \<Rightarrow> bool" where
  "sound sg f \<longleftrightarrow> (case sg of (needs, k, gives) \<Rightarrow>
     \<forall>v st. conf_ok st \<longrightarrow> of_kind k v \<longrightarrow> (\<forall>x \<in> set needs. avail st x) \<longrightarrow> keeps gives st (f v st))"

lemma soundI:
  "(\<And>v st. conf_ok st \<Longrightarrow> of_kind k v \<Longrightarrow> (\<forall>x \<in> set needs. avail st x) \<Longrightarrow> keeps gives st (f v st)) \<Longrightarrow> sound (needs, k, gives) f"
  by (simp add: sound_def)

lemma avail_cases: "(\<forall>x. P x) \<longleftrightarrow> P V_adapter \<and> P V_stream \<and> P V_output \<and> P V_sap"
  by (metis cfvar.exhaust)

lemma keeps_refuse [simp]: "conf_ok st \<Longrightarrow> keeps gives st (Some (False, st))"
  by (auto simp: keeps_def)

lemma keeps_adapter:
  assumes "conf_ok st" "cf_adapter st \<noteq> None" "\<And>a. ca_streams (f a) = ca_streams a" "\<And>a. ca_no (f a) = ca_no a"
  shows "keeps [] st (on_adapter f st)"
proof -
  obtain i a where i: "cf_adapter st = Some i" "cf_ad st i = Some a" using assms(1,2) by (auto simp: conf_ok_def)
  have "conf_ok (st\<lparr>cf_ad := (cf_ad st)(i \<mapsto> f a)\<rparr>)" using assms(1,3) i by (auto simp: conf_ok_def)
  moreover have "adapter_nos (st\<lparr>cf_ad := (cf_ad st)(i \<mapsto> f a)\<rparr>) = adapter_nos st" using assms(4) i by (auto simp: adapter_nos_def)
  ultimately show ?thesis using i by (auto simp: on_adapter_def keeps_def avail_cases)
qed

lemma keeps_stream:
  assumes "conf_ok st" "cf_stream st \<noteq> None" "\<And>x. ct_adapter (f x) = ct_adapter x" "\<And>x. ct_output (f x) = ct_output x"
    and "\<And>x. (ct_psineeded x \<longleftrightarrow> (\<exists>n. In_pnr n \<in> set (ct_input x))) \<Longrightarrow> ct_psineeded (f x) \<longleftrightarrow> (\<exists>n. In_pnr n \<in> set (ct_input (f x)))"
  shows "keeps [] st (on_stream f st)"
proof -
  obtain i x where i: "cf_stream st = Some i" "cf_st st i = Some x" using assms(1,2) by (auto simp: conf_ok_def)
  have "conf_ok (st\<lparr>cf_st := (cf_st st)(i \<mapsto> f x)\<rparr>)"
    using assms(1) i assms(5) [of x] unfolding conf_ok_def by (auto simp: assms(3,4)) fastforce+
  then show ?thesis using i by (auto simp: on_stream_def keeps_def avail_cases adapter_nos_def)
qed

lemma keeps_output:
  assumes "conf_ok st" "cf_output st \<noteq> None" "\<And>x. co_stream (f x) = co_stream x" "\<And>x. co_sap x \<noteq> None \<Longrightarrow> co_sap (f x) \<noteq> None"
  shows "keeps [] st (on_output f st)"
proof -
  obtain i x where i: "cf_output st = Some i" "cf_out st i = Some x" using assms(1,2) by (auto simp: conf_ok_def)
  have "conf_ok (st\<lparr>cf_out := (cf_out st)(i \<mapsto> f x)\<rparr>)"
    using assms(1) i assms(4) [of x] unfolding conf_ok_def by (auto simp: assms(3)) fastforce+
  then show ?thesis using i by (auto simp: on_output_def keeps_def avail_cases adapter_nos_def)
qed

lemma keeps_sap:
  assumes "conf_ok st" "cf_sap st \<noteq> None"
  shows "keeps [] st (on_sap f st)"
proof -
  obtain i x p where i: "cf_sap st = Some i" "cf_out st i = Some x" "co_sap x = Some p" using assms by (auto simp: conf_ok_def)
  have "conf_ok (st\<lparr>cf_out := (cf_out st)(i \<mapsto> x\<lparr>co_sap := Some (f p)\<rparr>)\<rparr>)"
    using assms(1) i unfolding conf_ok_def by auto fastforce+
  then show ?thesis using i by (auto simp: on_sap_def keeps_def avail_cases adapter_nos_def)
qed

section \<open>Every callback is sound\<close>

lemmas keeps_on = keeps_adapter keeps_stream keeps_output keeps_sap

lemma keeps_dvb:
  assumes "conf_ok st" "cf_adapter st \<noteq> None"
  shows "keeps [] st (on_dvbs f st)" "keeps [] st (on_dvbt g st)" "keeps [] st (on_dvbc k st)"
  unfolding on_dvbs_def on_dvbt_def on_dvbc_def using assms by (auto intro!: keeps_adapter split: cffe.split)

lemma sound_choice: "sound ([V_adapter], K_string, []) (dvbt_choice ns put)"
  by (rule soundI) (auto simp: dvbt_choice_def Let_def intro!: keeps_dvb)

lemma sound_num:
  "sound ([V_adapter], K_num, []) cf_adapter_budget" "sound ([V_adapter], K_num, []) cf_adapter_packetbuffer"
  "sound ([V_adapter], K_num, []) cf_adapter_statinterval" "sound ([V_adapter], K_num, []) cf_adapter_stuckinterval"
  by (rule soundI; auto simp: cf_adapter_budget_def cf_adapter_packetbuffer_def cf_adapter_statinterval_def
      cf_adapter_stuckinterval_def intro!: keeps_adapter)+

lemma sound_kind:
  "sound ([V_adapter], K_any, []) cf_dvbs" "sound ([V_adapter], K_any, []) cf_dvbs2"
  "sound ([V_adapter], K_any, []) cf_dvbt" "sound ([V_adapter], K_any, []) cf_dvbc"
  by (rule soundI; auto simp: cf_dvbs_def cf_dvbs2_def cf_dvbt_def cf_dvbc_def intro!: keeps_adapter)+

lemma sound_dvb:
  "sound ([V_adapter], K_string, []) cf_dvbs_trans_pol" "sound ([V_adapter], K_num, []) cf_dvbs_trans_freq"
  "sound ([V_adapter], K_num, []) cf_dvbs_trans_srate" "sound ([V_adapter], K_num, []) cf_dvbs_trans_diseqc"
  "sound ([V_adapter], K_num, []) cf_dvbs_lnbsharing" "sound ([V_adapter], K_num, []) cf_dvbs_lnb_lof1"
  "sound ([V_adapter], K_num, []) cf_dvbs_lnb_lof2" "sound ([V_adapter], K_num, []) cf_dvbs_lnb_slof"
  "sound ([V_adapter], K_string, []) cf_dvbt_hierarchy" "sound ([V_adapter], K_num, []) cf_dvbt_freq"
  "sound ([V_adapter], K_num, []) cf_dvbc_freq" "sound ([V_adapter], K_num, []) cf_dvbc_modulation"
  "sound ([V_adapter], K_num, []) cf_dvbc_trans_srate" "sound ([V_adapter], K_num, []) cf_dvbc_fec"
  by (rule soundI; auto simp: cf_dvbs_trans_pol_def cf_dvbs_trans_freq_def cf_dvbs_trans_srate_def cf_dvbs_trans_diseqc_def
      cf_dvbs_lnbsharing_def cf_dvbs_lnb_lof1_def cf_dvbs_lnb_lof2_def cf_dvbs_lnb_slof_def cf_dvbt_hierarchy_def cf_dvbt_freq_def
      cf_dvbc_freq_def cf_dvbc_modulation_def cf_dvbc_trans_srate_def cf_dvbc_fec_def Let_def intro!: keeps_dvb)+

lemma sound_output:
  "sound ([V_output], K_num, []) cf_output_remoteport" "sound ([V_output], K_string, []) cf_output_remoteaddr"
  "sound ([V_output], K_string, []) cf_output_localaddr" "sound ([V_output], K_num, []) cf_output_ttl"
  "sound ([V_output], K_string, []) cf_output_url" "sound ([V_output], K_string, []) cf_pipe_filename"
  by (rule soundI; auto simp: cf_output_remoteport_def cf_output_remoteaddr_def cf_output_localaddr_def cf_output_ttl_def
      cf_output_url_def cf_pipe_filename_def intro!: keeps_output)+

lemma sound_sap:
  "sound ([V_sap], K_string, []) cf_sap_scope" "sound ([V_sap], K_string, []) cf_sap_sap_group"
  "sound ([V_sap], K_num, []) cf_sap_sap_port" "sound ([V_sap], K_num, []) cf_sap_ttl" "sound ([V_sap], K_num, []) cf_sap_interval"
  "sound ([V_sap], K_string, []) cf_sap_playgroup" "sound ([V_sap], K_string, []) cf_sap_announce_host"
  "sound ([V_sap], K_num, []) cf_sap_announce_port" "sound ([V_sap], K_string, []) cf_sap_uri"
  "sound ([V_sap], K_string, []) cf_sap_description" "sound ([V_sap], K_string, []) cf_sap_email"
  "sound ([V_sap], K_string, []) cf_sap_phone" "sound ([V_sap], K_string, []) cf_sap_attribute"
  by (rule soundI; auto simp: cf_sap_scope_def cf_sap_sap_group_def cf_sap_sap_port_def cf_sap_ttl_def cf_sap_interval_def
      cf_sap_playgroup_def cf_sap_announce_host_def cf_sap_announce_port_def cf_sap_uri_def cf_sap_description_def
      cf_sap_email_def cf_sap_phone_def cf_sap_attribute_def intro!: keeps_sap)+

text \<open>The functions that make an object.\<close>

lemma sound_sap_start: "sound ([V_output], K_any, [V_sap]) cf_sap_start"
proof (rule soundI)
  fix v st
  assume st: "conf_ok st" "\<forall>x \<in> set [V_output]. avail st x"
  then obtain i x where i: "cf_output st = Some i" "cf_out st i = Some x" by (auto simp: conf_ok_def)
  have "conf_ok (st\<lparr>cf_out := (cf_out st)(i \<mapsto> x\<lparr>co_sap := Some cfsap_new\<rparr>), cf_sap := Some i\<rparr>)"
    using st(1) i by (auto simp: conf_ok_def) fastforce
  then show "keeps [V_sap] st (cf_sap_start v st)" using i by (auto simp: cf_sap_start_def on_output_def keeps_def avail_cases adapter_nos_def)
qed

lemma conf_ok_fresh:
  assumes "conf_ok st"
  shows "cf_ad st (cf_new st) = None" "cf_st st (cf_new st) = None" "cf_out st (cf_new st) = None"
  using assms unfolding conf_ok_def by (metis less_irrefl option.exhaust)+

lemma sound_adapter_start: "sound ([], K_num, [V_adapter]) cf_adapter_start"
proof (rule soundI)
  fix v st
  assume st: "conf_ok st" "of_kind K_num v"
  then obtain n where "val_num v = Some n" by auto
  moreover have "conf_ok (st\<lparr>cf_new := cf_new st + 1, cf_adapter := Some (cf_new st), cf_adapters := cf_adapters st @ [cf_new st],
       cf_ad := (cf_ad st)(cf_new st \<mapsto> a)\<rparr>)" if "ca_streams a = []" for a
    using st(1) conf_ok_fresh [OF st(1)] that by (simp add: conf_ok_def less_Suc_eq)
  ultimately show "keeps [V_adapter] st (cf_adapter_start v st)" by (auto simp: cf_adapter_start_def keeps_def avail_cases Let_def)
qed

lemma sound_stream_start: "sound ([V_adapter], K_any, [V_stream]) cf_stream_start"
proof (rule soundI)
  fix v st
  assume st: "conf_ok st" "\<forall>x \<in> set [V_adapter]. avail st x"
  then obtain i a where i: "cf_adapter st = Some i" "cf_ad st i = Some a" by (auto simp: conf_ok_def)
  have "conf_ok (st\<lparr>cf_ad := (cf_ad st)(i \<mapsto> a\<lparr>ca_streams := ca_streams a @ [cf_new st]\<rparr>), cf_new := cf_new st + 1,
      cf_stream := Some (cf_new st), cf_st := (cf_st st)(cf_new st \<mapsto> x)\<rparr>)"
    if "ct_adapter x = Some i" "ct_output x = []" "ct_input x = []" "\<not> ct_psineeded x" for x
    using st(1) conf_ok_fresh [OF st(1)] i that by (auto simp: conf_ok_def less_Suc_eq) fastforce+
  then show "keeps [V_stream] st (cf_stream_start v st)"
    using i by (auto simp: cf_stream_start_def on_adapter_def keeps_def avail_cases adapter_nos_def Let_def)
qed

lemma sound_output_start: "sound ([V_stream], K_any, [V_output]) (\<lambda>v. cf_output_start ty)"
proof (rule soundI)
  fix v st
  assume st: "conf_ok st" "\<forall>x \<in> set [V_stream]. avail st x"
  then obtain i s where i: "cf_stream st = Some i" "cf_st st i = Some s" by (auto simp: conf_ok_def)
  have "conf_ok (st\<lparr>cf_st := (cf_st st)(i \<mapsto> s\<lparr>ct_output := ct_output s @ [cf_new st]\<rparr>), cf_new := cf_new st + 1,
      cf_output := Some (cf_new st), cf_out := (cf_out st)(cf_new st \<mapsto> x)\<rparr>)"
    if "co_stream x = Some i" for x
    using st(1) conf_ok_fresh [OF st(1)] i that by (auto simp: conf_ok_def less_Suc_eq) fastforce+
  then show "keeps [V_output] st (cf_output_start ty st)"
    using i by (auto simp: cf_output_start_def on_stream_def keeps_def avail_cases adapter_nos_def Let_def)
qed

lemma keeps_stream_same:
  assumes "conf_ok st" "cf_stream st \<noteq> None" "\<And>x. ct_adapter (f x) = ct_adapter x" "\<And>x. ct_output (f x) = ct_output x"
    and "\<And>x. ct_psineeded (f x) = ct_psineeded x" "\<And>x n. In_pnr n \<in> set (ct_input (f x)) \<longleftrightarrow> In_pnr n \<in> set (ct_input x)"
  shows "keeps [] st (on_stream f st)"
  by (rule keeps_stream) (simp_all add: assms)

lemma sound_stream:
  "sound ([V_stream], K_string, []) cf_stream_name" "sound ([V_stream], K_num, []) cf_input_pid" "sound ([V_stream], K_any, []) cf_input_full"
  by (rule soundI; auto simp: cf_stream_name_def cf_input_pid_def cf_input_full_def cf_input_start_def intro!: keeps_stream_same)+

lemma sound_input_pnr: "sound ([V_stream], K_num, []) cf_input_pnr"
proof (rule soundI)
  fix v st
  assume st: "conf_ok st" "of_kind K_num v" "\<forall>x \<in> set [V_stream]. avail st x"
  then obtain n where n: "val_num v = Some n" by auto
  have "cf_input_pnr v st = on_stream (\<lambda>s. s\<lparr>ct_input := ct_input s @ [In_pnr (to_u16 n)], ct_psineeded := True\<rparr>) st"
    using n by (cases "cf_stream st"; cases "cf_st st (the (cf_stream st))")
      (simp_all add: cf_input_pnr_def cf_input_start_def on_stream_def)
  moreover have "keeps [] st (on_stream (\<lambda>s. s\<lparr>ct_input := ct_input s @ [In_pnr (to_u16 n)], ct_psineeded := True\<rparr>) st)"
    by (rule keeps_stream) (use st in auto)
  ultimately show "keeps [] st (cf_input_pnr v st)" by simp
qed

lemma sound_http_port: "sound ([], K_num, []) cf_http_port_set"
  by (rule soundI) (auto simp: cf_http_port_set_def keeps_def avail_cases conf_ok_def adapter_nos_def)

section \<open>The descriptions of all functions\<close>

definition cf_sigs :: "cfsig list" where
  "cf_sigs = [
     ([], K_num, [V_adapter]), ([V_adapter], K_num, []), ([V_adapter], K_num, []), ([V_adapter], K_num, []),
     ([V_adapter], K_num, []), ([V_adapter], K_any, []), ([V_adapter], K_any, []), ([V_adapter], K_any, []),
     ([V_adapter], K_any, []), ([V_adapter], K_string, []), ([V_adapter], K_num, []), ([V_adapter], K_num, []),
     ([V_adapter], K_num, []), ([V_adapter], K_num, []), ([V_adapter], K_num, []), ([V_adapter], K_num, []),
     ([V_adapter], K_num, []), ([V_adapter], K_string, []), ([V_adapter], K_string, []), ([V_adapter], K_string, []),
     ([V_adapter], K_string, []), ([V_adapter], K_string, []), ([V_adapter], K_num, []), ([V_adapter], K_num, []),
     ([V_adapter], K_num, []), ([V_adapter], K_num, []), ([V_adapter], K_num, []), ([V_adapter], K_any, [V_stream]),
     ([V_stream], K_string, []), ([V_stream], K_num, []), ([V_stream], K_num, []), ([V_stream], K_any, []),
     ([V_stream], K_any, [V_output]), ([V_stream], K_any, [V_output]), ([V_stream], K_any, [V_output]), ([V_stream], K_any, [V_output]),
     ([V_output], K_num, []), ([V_output], K_string, []), ([V_output], K_string, []), ([V_output], K_num, []),
     ([V_output], K_string, []), ([V_output], K_string, []), ([], K_num, []), ([V_output], K_any, [V_sap]),
     ([V_sap], K_string, []), ([V_sap], K_string, []), ([V_sap], K_num, []), ([V_sap], K_num, []),
     ([V_sap], K_num, []), ([V_sap], K_string, []), ([V_sap], K_string, []), ([V_sap], K_num, []),
     ([V_sap], K_string, []), ([V_sap], K_string, []), ([V_sap], K_string, []), ([V_sap], K_string, []),
     ([V_sap], K_string, [])]"

lemma output_starts:
  "cf_output_udp_start = (\<lambda>v. cf_output_start OTYPE_UDP)" "cf_output_rtp_start = (\<lambda>v. cf_output_start OTYPE_RTP)"
  "cf_output_http_start = (\<lambda>v. cf_output_start OTYPE_HTTP)" "cf_output_pipe_start = (\<lambda>v. cf_output_start OTYPE_PIPE)"
  by (simp_all add: fun_eq_iff cf_output_udp_start_def cf_output_rtp_start_def cf_output_http_start_def cf_output_pipe_start_def)

lemma cf_sigs_sound: "list_all2 sound cf_sigs (map snd cf_functions)"
  unfolding cf_sigs_def cf_functions_def output_starts cf_dvbt_bandwidth_def cf_dvbt_tmode_def cf_dvbt_modulation_def cf_dvbt_guard_def
  by (simp add: numeral_eq_Suc sound_num sound_kind sound_dvb sound_output sound_sap sound_sap_start sound_adapter_start
      sound_stream_start sound_output_start sound_stream sound_input_pnr sound_http_port sound_choice)

lemma cf_sigs_length: "length cf_sigs = length cf_functions"
  using list_all2_lengthD [OF cf_sigs_sound] by simp

definition needs_of :: "nat \<Rightarrow> cfvar set" where "needs_of f = set (fst (cf_sigs ! f))"
definition kind_of :: "nat \<Rightarrow> cfkind" where "kind_of f = fst (snd (cf_sigs ! f))"
definition gives_of :: "nat \<Rightarrow> cfvar set" where "gives_of f = set (snd (snd (cf_sigs ! f)))"

lemma cf_call_sound:
  assumes "f < length cf_functions" "conf_ok st" "of_kind (kind_of f) x" "\<forall>y \<in> needs_of f. avail st y"
  shows "\<exists>ok st'. cf_call (f, i, Some x) st = Some (ok, st') \<and> conf_ok st' \<and> (\<forall>y. avail st y \<or> (ok \<and> y \<in> gives_of f) \<longrightarrow> avail st' y) \<and>
    (V_adapter \<notin> gives_of f \<longrightarrow> adapter_nos st' = adapter_nos st)"
proof -
  have "sound (cf_sigs ! f) (snd (cf_functions ! f))"
    using list_all2_nthD2 [OF cf_sigs_sound, of f] assms(1) by simp
  then show ?thesis
    using assms by (cases "cf_sigs ! f") (auto simp: sound_def keeps_def cf_call_def needs_of_def kind_of_def gives_of_def)
qed

section \<open>Following the calls\<close>

fun flow :: "cfvar set \<Rightarrow> nat list \<Rightarrow> bool" where
  "flow V [] = True"
| "flow V (f # fs) \<longleftrightarrow> f < length cf_functions \<and> needs_of f \<subseteq> V \<and>
     (V_adapter \<in> gives_of f \<longleftrightarrow> Some f = fp ''cf_adapter_start'') \<and> flow (V \<union> gives_of f) fs"

definition call_kind :: "call \<Rightarrow> bool" where
  "call_kind c \<longleftrightarrow> (case c of (f, i, v) \<Rightarrow> \<exists>x. v = Some x \<and> of_kind (kind_of f) x)"

text \<open>The numbers of the adapters that are begun.\<close>

definition call_nos :: "call list \<Rightarrow> int option list" where
  "call_nos cs = map (\<lambda>(f, i, v). map_option to_int (Option.bind v val_num)) (filter (\<lambda>c. Some (fst c) = fp ''cf_adapter_start'') cs)"

lemma adapter_start_nos:
  assumes "Some f = fp ''cf_adapter_start''" "conf_ok st" "cf_call (f, i, Some x) st = Some (ok, st')"
  shows "ok \<and> adapter_nos st' = adapter_nos st @ call_nos [(f, i, Some x)]"
proof -
  have f: "f = 0" "fp ''cf_adapter_start'' = Some 0" using assms(1) by (simp_all add: fp_def cf_functions_def)
  have "cf_call (f, i, Some x) st = cf_adapter_start x st" by (simp add: cf_call_def f(1) cf_functions_def)
  moreover have "\<forall>i \<in> set (cf_adapters st). i \<noteq> cf_new st" using assms(2) conf_ok_fresh(1) [OF assms(2)] unfolding conf_ok_def by metis
  ultimately show ?thesis using assms(3) f
    by (auto simp: cf_adapter_start_def call_nos_def adapter_nos_def Let_def split: Option.bind_splits)
qed

lemma flow_run:
  "flow V (map fst cs) \<Longrightarrow> conf_ok st \<Longrightarrow> \<forall>x \<in> V. avail st x \<Longrightarrow> \<forall>c \<in> set cs. call_kind c \<Longrightarrow>
   \<exists>ok st'. cf_run cs st = Some (ok, st') \<and> conf_ok st' \<and> (ok \<longrightarrow> adapter_nos st' = adapter_nos st @ call_nos cs)"
proof (induction cs arbitrary: V st)
  case (Cons c cs)
  obtain f i x where c: "c = (f, i, Some x)" "of_kind (kind_of f) x" using Cons.prems(4) by (auto simp: call_kind_def)
  have "f < length cf_functions" "\<forall>y \<in> needs_of f. avail st y" using Cons.prems(1,3) c by auto
  then obtain ok st' where st': "cf_call c st = Some (ok, st')" "conf_ok st'"
    "\<And>y. avail st y \<or> (ok \<and> y \<in> gives_of f) \<Longrightarrow> avail st' y" "V_adapter \<notin> gives_of f \<Longrightarrow> adapter_nos st' = adapter_nos st"
    using cf_call_sound [OF _ Cons.prems(2) c(2)] c(1) by blast
  have nos: "adapter_nos st' = adapter_nos st @ call_nos [c]"
  proof (cases "Some f = fp ''cf_adapter_start''")
    case True
    then show ?thesis using adapter_start_nos [OF _ Cons.prems(2)] st'(1) c(1) by blast
  next
    case False
    then have "V_adapter \<notin> gives_of f" using Cons.prems(1) c(1) by simp
    then show ?thesis using st'(4) False c(1) by (simp add: call_nos_def)
  qed
  show ?case
  proof (cases ok)
    case True
    have "\<exists>ok st2. cf_run cs st' = Some (ok, st2) \<and> conf_ok st2 \<and> (ok \<longrightarrow> adapter_nos st2 = adapter_nos st' @ call_nos cs)"
      by (rule Cons.IH [of "V \<union> gives_of f"]) (use Cons.prems c True st' in auto)
    moreover have "call_nos (c # cs) = call_nos [c] @ call_nos cs" by (simp add: call_nos_def)
    ultimately show ?thesis using st'(1) True nos by auto
  qed (use st' in auto)
qed (auto simp: call_nos_def)

lemma flow_append: "flow V (xs @ ys) \<longleftrightarrow> flow V xs \<and> flow (V \<union> (\<Union>f \<in> set xs. gives_of f)) ys"
  by (induction xs arbitrary: V) (auto simp: Un_assoc)

text \<open>The functions a file has called, in order.\<close>

fun cbs :: "ventry list \<Rightarrow> ctree list \<Rightarrow> nat list" where
  "cbs tbl [] = []"
| "cbs tbl (Ctree t v ch # ts) =
     (case find_token t 0 tbl of
        None \<Rightarrow> []
      | Some (k, ve) \<Rightarrow> (case ve_cback ve of None \<Rightarrow> [] | Some f \<Rightarrow> [f]) @ cbs (sub_of ve) ch) @ cbs tbl ts"

text \<open>No announcement begins before an output has begun, at any place of the file.\<close>

definition output_fns :: "nat option list" where
  "output_fns = [fp ''cf_output_udp_start'', fp ''cf_output_rtp_start'', fp ''cf_output_http_start'', fp ''cf_output_pipe_start'']"

fun sap_behind :: "bool \<Rightarrow> nat list \<Rightarrow> bool" where
  "sap_behind b [] = True"
| "sap_behind b (f # fs) \<longleftrightarrow> (Some f = fp ''cf_sap_start'' \<longrightarrow> b) \<and> sap_behind (b \<or> Some f \<in> set output_fns) fs"

lemma sap_behind_append:
  "sap_behind b (xs @ ys) \<longleftrightarrow> sap_behind b xs \<and> sap_behind (b \<or> (\<exists>f \<in> set xs. Some f \<in> set output_fns)) ys"
  by (induction xs arbitrary: b) (auto simp: disj_assoc)

section \<open>The tables are well typed\<close>

fun kind_fits :: "cfkind \<Rightarrow> lcv \<Rightarrow> bool" where
  "kind_fits K_any ty = True"
| "kind_fits K_num ty = (ty \<in> {LCV_NUM, LCV_HEX, LCV_BOOL})"
| "kind_fits K_string ty = (ty \<in> {LCV_STRING, LCV_IPADDR, LCV_IPV4ADDR, LCV_IPV6ADDR})"

text \<open>The variables that the function of an option needs are set by the options it stands in; only the
  output of an announcement may be missing.\<close>

definition cb_ok :: "cfvar set \<Rightarrow> lcv \<Rightarrow> nat option \<Rightarrow> bool" where
  "cb_ok V ty cb = (case cb of None \<Rightarrow> True | Some f \<Rightarrow> f < length cf_functions \<and> kind_fits (kind_of f) ty \<and>
     needs_of f \<subseteq> V \<union> (if Some f = fp ''cf_sap_start'' then {V_output} else {}) \<and>
     (V_output \<in> gives_of f \<longleftrightarrow> Some f \<in> set output_fns) \<and> (V_adapter \<in> gives_of f \<longleftrightarrow> Some f = fp ''cf_adapter_start''))"

definition cb_gives :: "nat option \<Rightarrow> cfvar set" where
  "cb_gives cb = (case cb of None \<Rightarrow> {} | Some f \<Rightarrow> gives_of f)"

fun tbl_ok :: "cfvar set \<Rightarrow> ventry list \<Rightarrow> bool" where
  "tbl_ok V [] = True"
| "tbl_ok V (Ventry n mi ma ty opt ch f # ves) \<longleftrightarrow> opt \<in> {0, 2} \<and> cb_ok V ty f \<and>
     (case ch of None \<Rightarrow> True | Some t \<Rightarrow> tbl_ok (V \<union> cb_gives f) t) \<and> tbl_ok V ves"

lemma tbl_ok_option:
  "tbl_ok V tbl \<Longrightarrow> ve \<in> set tbl \<Longrightarrow>
   cb_ok V (ve_type ve) (ve_cback ve) \<and> tbl_ok (V \<union> cb_gives (ve_cback ve)) (sub_of ve) \<and>
   \<not> has_opt LCO_LATECB ve \<and> \<not> has_opt LCO_OPTIONAL ve"
  by (induction V tbl rule: tbl_ok.induct)
    (auto simp: sub_of_def has_opt_def LCO_LATECB_def LCO_OPTIONAL_def split: option.splits)

lemma fp_values_a:
  "fp ''cf_adapter_start'' = Some 0" "fp ''cf_adapter_budget'' = Some 1" "fp ''cf_adapter_packetbuffer'' = Some 2"
  "fp ''cf_adapter_statinterval'' = Some 3" "fp ''cf_adapter_stuckinterval'' = Some 4" "fp ''cf_dvbs'' = Some 5"
  "fp ''cf_dvbs2'' = Some 6" "fp ''cf_dvbt'' = Some 7" "fp ''cf_dvbc'' = Some 8"
  "fp ''cf_dvbs_trans_pol'' = Some 9" "fp ''cf_dvbs_trans_freq'' = Some 10" "fp ''cf_dvbs_trans_srate'' = Some 11"
  "fp ''cf_dvbs_trans_diseqc'' = Some 12" "fp ''cf_dvbs_lnbsharing'' = Some 13" "fp ''cf_dvbs_lnb_lof1'' = Some 14"
  by (simp_all add: fp_def cf_functions_def)

lemma fp_values_b:
  "fp ''cf_dvbs_lnb_lof2'' = Some 15" "fp ''cf_dvbs_lnb_slof'' = Some 16" "fp ''cf_dvbt_bandwidth'' = Some 17"
  "fp ''cf_dvbt_tmode'' = Some 18" "fp ''cf_dvbt_modulation'' = Some 19" "fp ''cf_dvbt_guard'' = Some 20"
  "fp ''cf_dvbt_hierarchy'' = Some 21" "fp ''cf_dvbt_freq'' = Some 22" "fp ''cf_dvbc_freq'' = Some 23"
  "fp ''cf_dvbc_modulation'' = Some 24" "fp ''cf_dvbc_trans_srate'' = Some 25" "fp ''cf_dvbc_fec'' = Some 26"
  "fp ''cf_stream_start'' = Some 27" "fp ''cf_stream_name'' = Some 28" "fp ''cf_input_pid'' = Some 29"
  by (simp_all add: fp_def cf_functions_def)

lemma fp_values_c:
  "fp ''cf_input_pnr'' = Some 30" "fp ''cf_input_full'' = Some 31" "fp ''cf_output_udp_start'' = Some 32"
  "fp ''cf_output_rtp_start'' = Some 33" "fp ''cf_output_http_start'' = Some 34" "fp ''cf_output_pipe_start'' = Some 35"
  "fp ''cf_output_remoteport'' = Some 36" "fp ''cf_output_remoteaddr'' = Some 37" "fp ''cf_output_localaddr'' = Some 38"
  "fp ''cf_output_ttl'' = Some 39" "fp ''cf_output_url'' = Some 40" "fp ''cf_pipe_filename'' = Some 41"
  "fp ''cf_http_port_set'' = Some 42" "fp ''cf_sap_start'' = Some 43" "fp ''cf_sap_scope'' = Some 44"
  by (simp_all add: fp_def cf_functions_def)

lemma fp_values_d:
  "fp ''cf_sap_sap_group'' = Some 45" "fp ''cf_sap_sap_port'' = Some 46" "fp ''cf_sap_ttl'' = Some 47"
  "fp ''cf_sap_interval'' = Some 48" "fp ''cf_sap_playgroup'' = Some 49" "fp ''cf_sap_announce_host'' = Some 50"
  "fp ''cf_sap_announce_port'' = Some 51" "fp ''cf_sap_uri'' = Some 52" "fp ''cf_sap_description'' = Some 53"
  "fp ''cf_sap_email'' = Some 54" "fp ''cf_sap_phone'' = Some 55" "fp ''cf_sap_attribute'' = Some 56"
  by (simp_all add: fp_def cf_functions_def)

lemmas fp_simps = fp_values_a fp_values_b fp_values_c fp_values_d

lemma cf_functions_length: "length cf_functions = 57"
  by (simp add: cf_functions_def)

lemma sig_simps:
  "needs_of f = set (fst (cf_sigs ! f))" "kind_of f = fst (snd (cf_sigs ! f))" "gives_of f = set (snd (snd (cf_sigs ! f)))"
  by (simp_all add: needs_of_def kind_of_def gives_of_def)

lemma cf_sigs_nth:
  "cf_sigs ! 0 = ([], K_num, [V_adapter])" "cf_sigs ! Suc 0 = ([V_adapter], K_num, [])"
  "cf_sigs ! 2 = ([V_adapter], K_num, [])" "cf_sigs ! 3 = ([V_adapter], K_num, [])"
  "cf_sigs ! 4 = ([V_adapter], K_num, [])" "cf_sigs ! 5 = ([V_adapter], K_any, [])"
  "cf_sigs ! 6 = ([V_adapter], K_any, [])" "cf_sigs ! 7 = ([V_adapter], K_any, [])"
  "cf_sigs ! 8 = ([V_adapter], K_any, [])" "cf_sigs ! 9 = ([V_adapter], K_string, [])"
  "cf_sigs ! 10 = ([V_adapter], K_num, [])" "cf_sigs ! 11 = ([V_adapter], K_num, [])"
  "cf_sigs ! 12 = ([V_adapter], K_num, [])" "cf_sigs ! 13 = ([V_adapter], K_num, [])"
  "cf_sigs ! 14 = ([V_adapter], K_num, [])" "cf_sigs ! 15 = ([V_adapter], K_num, [])"
  "cf_sigs ! 16 = ([V_adapter], K_num, [])" "cf_sigs ! 17 = ([V_adapter], K_string, [])"
  "cf_sigs ! 18 = ([V_adapter], K_string, [])" "cf_sigs ! 19 = ([V_adapter], K_string, [])"
  "cf_sigs ! 20 = ([V_adapter], K_string, [])" "cf_sigs ! 21 = ([V_adapter], K_string, [])"
  "cf_sigs ! 22 = ([V_adapter], K_num, [])" "cf_sigs ! 23 = ([V_adapter], K_num, [])"
  "cf_sigs ! 24 = ([V_adapter], K_num, [])" "cf_sigs ! 25 = ([V_adapter], K_num, [])"
  "cf_sigs ! 26 = ([V_adapter], K_num, [])" "cf_sigs ! 27 = ([V_adapter], K_any, [V_stream])"
  "cf_sigs ! 28 = ([V_stream], K_string, [])" "cf_sigs ! 29 = ([V_stream], K_num, [])"
  "cf_sigs ! 30 = ([V_stream], K_num, [])" "cf_sigs ! 31 = ([V_stream], K_any, [])"
  "cf_sigs ! 32 = ([V_stream], K_any, [V_output])" "cf_sigs ! 33 = ([V_stream], K_any, [V_output])"
  "cf_sigs ! 34 = ([V_stream], K_any, [V_output])" "cf_sigs ! 35 = ([V_stream], K_any, [V_output])"
  "cf_sigs ! 36 = ([V_output], K_num, [])" "cf_sigs ! 37 = ([V_output], K_string, [])"
  "cf_sigs ! 38 = ([V_output], K_string, [])" "cf_sigs ! 39 = ([V_output], K_num, [])"
  "cf_sigs ! 40 = ([V_output], K_string, [])" "cf_sigs ! 41 = ([V_output], K_string, [])"
  "cf_sigs ! 42 = ([], K_num, [])" "cf_sigs ! 43 = ([V_output], K_any, [V_sap])"
  "cf_sigs ! 44 = ([V_sap], K_string, [])" "cf_sigs ! 45 = ([V_sap], K_string, [])"
  "cf_sigs ! 46 = ([V_sap], K_num, [])" "cf_sigs ! 47 = ([V_sap], K_num, [])"
  "cf_sigs ! 48 = ([V_sap], K_num, [])" "cf_sigs ! 49 = ([V_sap], K_string, [])"
  "cf_sigs ! 50 = ([V_sap], K_string, [])" "cf_sigs ! 51 = ([V_sap], K_num, [])"
  "cf_sigs ! 52 = ([V_sap], K_string, [])" "cf_sigs ! 53 = ([V_sap], K_string, [])"
  "cf_sigs ! 54 = ([V_sap], K_string, [])" "cf_sigs ! 55 = ([V_sap], K_string, [])"
  "cf_sigs ! 56 = ([V_sap], K_string, [])"
  by (simp_all add: cf_sigs_def)

lemmas typing_simps = cb_ok_def cb_gives_def output_fns_def fp_simps sig_simps cf_sigs_nth cf_functions_length

lemma conf_sap_ok: "{V_sap} \<subseteq> V \<Longrightarrow> tbl_ok V conf_sap"
  by (auto simp: conf_sap_def typing_simps)

lemma conf_outputs_ok:
  assumes "{V_output} \<subseteq> V"
  shows "tbl_ok V conf_output_udp" "tbl_ok V conf_output_rtp" "tbl_ok V conf_output_http" "tbl_ok V conf_output_pipe"
  using assms by (auto simp: conf_output_udp_def conf_output_rtp_def conf_output_http_def conf_output_pipe_def typing_simps
      intro!: conf_sap_ok)

lemma conf_stream_ok: "{V_stream} \<subseteq> V \<Longrightarrow> tbl_ok V conf_stream"
  by (auto simp: conf_stream_def conf_input_def typing_simps intro!: conf_sap_ok conf_outputs_ok)

lemma conf_dvb_ok:
  assumes "{V_adapter} \<subseteq> V"
  shows "tbl_ok V conf_dvbs" "tbl_ok V conf_dvbt" "tbl_ok V conf_dvbc"
  using assms by (auto simp: conf_dvbs_def conf_dvbs_lnb_def conf_dvbs_transponder_def conf_dvbt_def conf_dvbc_def typing_simps)

lemma conf_main_ok: "tbl_ok {} conf_main"
  by (auto simp: conf_main_def conf_adapter_def conf_http_def typing_simps intro!: conf_stream_ok conf_dvb_ok)

lemma value_kind:
  assumes "value_ok gai ve v" "\<not> has_opt LCO_OPTIONAL ve" "kind_fits k (ve_type ve)"
  shows "of_kind k (cb_value gai ve v old)"
proof (cases v)
  case None
  then show ?thesis using assms by (cases k) (auto simp: value_ok_def)
next
  case (Some w)
  then obtain x where x: "read_value gai (ve_type ve) w = Some x" using assms(1) by (auto simp: value_ok_def)
  then have "lc_typed (ve_type ve) w x" by (rule read_value_typed)
  then have "of_kind k x" using assms(3) by (cases k) (auto simp: lc_typed_def val_num_def val_string_def)
  then show ?thesis using Some x by (simp add: cb_value_def)
qed

section \<open>A file without a stray announcement\<close>

lemma flow_prefix_gives: "b = (V_output \<in> W) \<Longrightarrow> \<forall>f \<in> set xs. V_output \<in> gives_of f \<longleftrightarrow> Some f \<in> set output_fns \<Longrightarrow>
   (b \<or> (\<exists>f \<in> set xs. Some f \<in> set output_fns)) = (V_output \<in> W \<union> (\<Union>f \<in> set xs. gives_of f))"
  by auto

text \<open>The calls of a block, when the functions it stands in have set \<open>W\<close>.\<close>

lemma conf_calls_flow:
  assumes "conf_rep h lo hi par prv p ts" "values_ok gai tbl ts" "tbl_ok V tbl" "V \<subseteq> W" "sap_behind (V_output \<in> W) (cbs tbl ts)"
  shows "map fst (conf_calls gai h tbl p ts) = cbs tbl ts \<and> (\<forall>c \<in> set (conf_calls gai h tbl p ts). call_kind c) \<and> flow W (cbs tbl ts) \<and>
     (\<forall>f \<in> set (cbs tbl ts). V_output \<in> gives_of f \<longleftrightarrow> Some f \<in> set output_fns)"
  using assms
proof (induction ts arbitrary: lo hi par prv p tbl V W rule: ctrees_induct)
  case (Cons t v ch ts)
  obtain i e m where i: "p = Some i" "h i = Some e"
    and r: "conf_rep h (Suc i) m (Some i) None (ce_child e) ch" "conf_rep h m hi par (Some i) (ce_next e) ts"
    by (rule conf_rep_consE [OF Cons.prems(1)])
  obtain k ve where a: "find_token t 0 tbl = Some (k, ve)" "value_ok gai ve v" "values_ok gai (sub_of ve) ch" "values_ok gai tbl ts"
    using Cons.prems(2) by (auto split: option.splits)
  note ve = tbl_ok_option [OF Cons.prems(3) conjunct1 [OF find_token_in [OF a(1)]]]
  let ?own = "case ve_cback ve of None \<Rightarrow> [] | Some f \<Rightarrow> [f]"
  let ?W = "W \<union> (\<Union>f \<in> set ?own. gives_of f)"
  let ?W' = "?W \<union> (\<Union>f \<in> set (cbs (sub_of ve) ch). gives_of f)"
  have split: "cbs tbl (Ctree t v ch # ts) = ?own @ cbs (sub_of ve) ch @ cbs tbl ts" using a(1) by simp
  have own: "\<forall>f \<in> set ?own. V_output \<in> gives_of f \<longleftrightarrow> Some f \<in> set output_fns" using ve by (auto simp: cb_ok_def split: option.splits)
  have sap: "sap_behind (V_output \<in> W) ?own" "sap_behind (V_output \<in> ?W) (cbs (sub_of ve) ch @ cbs tbl ts)"
    using Cons.prems(5) flow_prefix_gives [OF refl own, of W] by (simp_all only: split sap_behind_append)
  have fl: "flow W ?own" using sap(1) ve Cons.prems(4) by (auto simp: cb_ok_def split: option.splits if_splits)
  have sub: "V \<union> cb_gives (ve_cback ve) \<subseteq> ?W" using Cons.prems(4) by (auto simp: cb_gives_def split: option.splits)
  have 1: "map fst (conf_calls gai h (sub_of ve) (ce_child e) ch) = cbs (sub_of ve) ch \<and>
      (\<forall>c \<in> set (conf_calls gai h (sub_of ve) (ce_child e) ch). call_kind c) \<and> flow ?W (cbs (sub_of ve) ch) \<and>
      (\<forall>f \<in> set (cbs (sub_of ve) ch). V_output \<in> gives_of f \<longleftrightarrow> Some f \<in> set output_fns)"
    by (rule Cons.IH(1) [OF r(1) a(3) _ sub]) (use ve sap(2) in \<open>simp_all only: sap_behind_append\<close>)
  have "sap_behind (V_output \<in> ?W') (cbs tbl ts)"
    using sap(2) flow_prefix_gives [OF refl conjunct2 [OF conjunct2 [OF conjunct2 [OF 1]]], of ?W] by (simp only: sap_behind_append)
  then have 2: "map fst (conf_calls gai h tbl (ce_next e) ts) = cbs tbl ts \<and>
      (\<forall>c \<in> set (conf_calls gai h tbl (ce_next e) ts). call_kind c) \<and> flow ?W' (cbs tbl ts) \<and>
      (\<forall>f \<in> set (cbs tbl ts). V_output \<in> gives_of f \<longleftrightarrow> Some f \<in> set output_fns)"
    by (rule Cons.IH(2) [OF r(2) a(4) Cons.prems(3), rotated]) (use Cons.prems(4) in auto)
  have calls: "conf_calls gai h tbl p (Ctree t v ch # ts) =
      (case ve_cback ve of None \<Rightarrow> [] | Some f \<Rightarrow> [(f, i, Some (cb_value gai ve v (ce_cbvalue e)))]) @
      conf_calls gai h (sub_of ve) (ce_child e) ch @ conf_calls gai h tbl (ce_next e) ts"
    using i a(1) ve by (simp add: conf_calls_def)
  have kind: "call_kind (f, i, Some (cb_value gai ve v (ce_cbvalue e)))" if "ve_cback ve = Some f" for f
    using value_kind [OF a(2)] ve that by (auto simp: call_kind_def cb_ok_def)
  have "flow W (?own @ cbs (sub_of ve) ch @ cbs tbl ts)" using fl 1 2 by (simp only: flow_append)
  then show ?case unfolding split calls using 1 2 own kind by (cases "ve_cback ve") auto
qed (simp add: conf_calls_def)

lemma conf_ok_new: "conf_ok cfstate_new"
  by (simp add: conf_ok_def cfstate_new_def)

lemma cf_run_append:
  "cf_run (xs @ ys) st = (case cf_run xs st of None \<Rightarrow> None | Some (ok, st) \<Rightarrow> if ok then cf_run ys st else Some (False, st))"
  by (induction xs arbitrary: st) (auto split: Option.bind_splits option.splits)

text \<open>The calls that are made are those up to the first that is refused.\<close>

lemma run_calls_cf_run:
  "cf_run log cfstate_new = Some (True, st) \<Longrightarrow> cf_run cs st = Some (ok, st') \<Longrightarrow>
   \<exists>log'. run_calls cf_accepts log cs = (ok, log') \<and> cf_run log' cfstate_new = Some (ok, st')"
proof (induction cs arbitrary: log st)
  case (Cons c cs)
  obtain ok1 st1 where c: "cf_call c st = Some (ok1, st1)" "if ok1 then cf_run cs st1 = Some (ok, st') else \<not> ok \<and> st' = st1"
    using Cons.prems(2) by (auto split: Option.bind_splits if_splits)
  have "cf_run (log @ [c]) cfstate_new = Some (ok1, st1)" using Cons.prems(1) c(1) by (simp add: cf_run_append)
  then show ?case using Cons.IH [of "log @ [c]" st1] c(2) by (auto simp: cf_accepts_def split: if_splits)
qed simp

lemma late_ok_tbl: "tbl_ok V tbl \<Longrightarrow> late_ok tbl ts"
proof (induction ts arbitrary: V tbl rule: ctrees_induct)
  case (Cons t v ch ts)
  show ?case using Cons.IH Cons.prems tbl_ok_option find_token_in
    by (fastforce split: option.splits prod.splits)
qed simp

lemma readconfig_tree:
  assumes "libconf_parse s = Some (Some (h, i))" "conf_rep h lo hi par prv (Some i) ts"
    and "conf_valid gai conf_main ts \<Longrightarrow> cf_run (conf_calls gai h conf_main (Some i) ts) cfstate_new = Some (ok, st)"
  shows "readconfig gai (Some s) = Some (if conf_valid gai conf_main ts \<and> ok then Some st else None)"
proof -
  obtain h' where h': "conf_rep h' lo hi par prv (Some i) ts"
    "libconf_validate gai cf_accepts i conf_main h =
     (let r = if conf_valid gai conf_main ts then run_calls cf_accepts [] (conf_calls gai h conf_main (Some i) ts) else (False, [])
      in Some (fst r, h', snd r))"
    by (rule libconf_validate_tree [OF assms(2) late_ok_tbl [OF conf_main_ok]])
  show ?thesis
  proof (cases "conf_valid gai conf_main ts")
    case True
    obtain log where log: "run_calls cf_accepts [] (conf_calls gai h conf_main (Some i) ts) = (ok, log)" "cf_run log cfstate_new = Some (ok, st)"
      using run_calls_cf_run [of "[]" cfstate_new, OF _ assms(3) [OF True]] by auto
    show ?thesis using assms(1) h'(2) True log libconf_free_tree [OF h'(1)] by (simp add: readconfig_def)
  next
    case False
    then show ?thesis using assms(1) h'(2) libconf_free_tree [OF h'(1)] by (simp add: readconfig_def)
  qed
qed

section \<open>The adapters of the result\<close>

text \<open>All functions a table has, those of the tables below it included.\<close>

fun tbl_fns :: "ventry list \<Rightarrow> nat option list" where
  "tbl_fns [] = []"
| "tbl_fns (Ventry n mi ma ty opt ch f # ves) = f # (case ch of None \<Rightarrow> [] | Some t \<Rightarrow> tbl_fns t) @ tbl_fns ves"

lemma tbl_fns_option: "ve \<in> set tbl \<Longrightarrow> ve_cback ve \<in> set (tbl_fns tbl) \<and> set (tbl_fns (sub_of ve)) \<subseteq> set (tbl_fns tbl)"
  by (induction tbl rule: tbl_fns.induct) (auto simp: sub_of_def split: option.splits)

lemma cbs_tbl_fns: "f \<in> set (cbs tbl ts) \<Longrightarrow> Some f \<in> set (tbl_fns tbl)"
proof (induction ts arbitrary: tbl rule: ctrees_induct)
  case (Cons t v ch ts)
  show ?case
  proof (cases "find_token t 0 tbl")
    case None
    then show ?thesis using Cons.prems Cons.IH(2) by simp
  next
    case (Some kve)
    obtain k ve where k: "kve = (k, ve)" by force
    note ve = tbl_fns_option [OF conjunct1 [OF find_token_in [OF Some [unfolded k]]]]
    consider "ve_cback ve = Some f" | "f \<in> set (cbs (sub_of ve) ch)" | "f \<in> set (cbs tbl ts)"
      using Cons.prems Some k by (auto split: option.splits)
    then show ?thesis
    proof cases
      case 1
      then show ?thesis using ve by metis
    next
      case 2
      then show ?thesis using ve Cons.IH(1) by blast
    next
      case 3
      then show ?thesis by (rule Cons.IH(2))
    qed
  qed
qed simp

lemma no_adapter_below:
  "fp ''cf_adapter_start'' \<notin> set (tbl_fns conf_adapter)" "fp ''cf_adapter_start'' \<notin> set (tbl_fns conf_http)"
  by (simp_all add: conf_adapter_def conf_http_def conf_stream_def conf_input_def conf_sap_def conf_output_udp_def conf_output_rtp_def
      conf_output_http_def conf_output_pipe_def conf_dvbs_def conf_dvbs_lnb_def conf_dvbs_transponder_def conf_dvbt_def
      conf_dvbc_def fp_simps)

text \<open>The numbers that the options \<open>adapter\<close> of a file have.\<close>

definition file_nos :: "ctree list \<Rightarrow> int option list" where
  "file_nos ts = map (\<lambda>c. map_option (\<lambda>v. to_int (fst (c_strtol 0 v))) (ct_value c))
     (filter (\<lambda>c. c_strcasecmp (ct_token c) ''adapter'' = 0) ts)"

lemma call_nos_append: "call_nos (xs @ ys) = call_nos xs @ call_nos ys"
  by (simp add: call_nos_def)

lemma call_nos_none: "\<forall>f \<in> set (map fst cs). Some f \<noteq> fp ''cf_adapter_start'' \<Longrightarrow> call_nos cs = []"
  by (auto simp: call_nos_def filter_empty_conv)

lemma conf_calls_cbs:
  "conf_rep h lo hi par prv p ts \<Longrightarrow> values_ok gai tbl ts \<Longrightarrow> tbl_ok V tbl \<Longrightarrow> map fst (conf_calls gai h tbl p ts) = cbs tbl ts"
proof (induction ts arbitrary: lo hi par prv p tbl V rule: ctrees_induct)
  case (Cons t v ch ts)
  obtain i e m where i: "p = Some i" "h i = Some e"
    and r: "conf_rep h (Suc i) m (Some i) None (ce_child e) ch" "conf_rep h m hi par (Some i) (ce_next e) ts"
    by (rule conf_rep_consE [OF Cons.prems(1)])
  obtain k ve where a: "find_token t 0 tbl = Some (k, ve)" "values_ok gai (sub_of ve) ch" "values_ok gai tbl ts"
    using Cons.prems(2) by (auto split: option.splits)
  note ve = tbl_ok_option [OF Cons.prems(3) conjunct1 [OF find_token_in [OF a(1)]]]
  have "map fst (conf_calls gai h (sub_of ve) (ce_child e) ch) = cbs (sub_of ve) ch"
    by (rule Cons.IH(1) [OF r(1) a(2)]) (use ve in blast)
  then show ?case using i a(1) ve Cons.IH(2) [OF r(2) a(3) Cons.prems(3)]
    by (simp add: conf_calls_def split: option.split)
qed (simp add: conf_calls_def)

lemma conf_calls_nos:
  "conf_rep h lo hi par prv p ts \<Longrightarrow> values_ok gai conf_main ts \<Longrightarrow> call_nos (conf_calls gai h conf_main p ts) = file_nos ts"
proof (induction ts arbitrary: lo hi par prv p)
  case (Cons c ts)
  obtain t v ch where c: "c = Ctree t v ch" by (cases c)
  obtain i e m where i: "p = Some i" "h i = Some e"
    and r: "conf_rep h (Suc i) m (Some i) None (ce_child e) ch" "conf_rep h m hi par (Some i) (ce_next e) ts"
    by (rule conf_rep_consE [OF Cons.prems(1) [unfolded c]])
  obtain k ve where a: "find_token t 0 conf_main = Some (k, ve)" "value_ok gai ve v" "values_ok gai (sub_of ve) ch" "values_ok gai conf_main ts"
    using Cons.prems(2) c by (auto split: option.splits)
  note ve = tbl_ok_option [OF conf_main_ok conjunct1 [OF find_token_in [OF a(1)]]]
  have sub: "Some f \<noteq> fp ''cf_adapter_start''" if "f \<in> set (cbs (sub_of ve) ch)" for f
  proof -
    have "sub_of ve = conf_adapter \<or> sub_of ve = conf_http" using a(1) by (auto simp: conf_main_def sub_of_def split: if_splits)
    then show ?thesis using cbs_tbl_fns [OF that] no_adapter_below by metis
  qed
  have "map fst (conf_calls gai h (sub_of ve) (ce_child e) ch) = cbs (sub_of ve) ch"
    by (rule conf_calls_cbs [OF r(1) a(3)]) (use ve in blast)
  then have below: "call_nos (conf_calls gai h (sub_of ve) (ce_child e) ch) = []" using sub by (intro call_nos_none) simp
  let ?own = "case ve_cback ve of None \<Rightarrow> [] | Some f \<Rightarrow> [(f, i, Some (cb_value gai ve v (ce_cbvalue e)))]"
  have calls: "conf_calls gai h conf_main p (c # ts) = ?own @ conf_calls gai h (sub_of ve) (ce_child e) ch @ conf_calls gai h conf_main (ce_next e) ts"
    using i a(1) ve by (simp add: conf_calls_def c)
  have "call_nos ?own = file_nos [c]"
    using a(1,2) by (cases v) (auto simp: call_nos_def file_nos_def c conf_main_def fp_simps cb_value_def value_ok_def read_value_def
        has_opt_def LCO_OPTIONAL_def val_num_def split: if_splits prod.splits)
  then show ?case using Cons.IH [OF r(2) a(4)] below by (simp only: calls call_nos_append) (simp add: file_nos_def)
qed (simp add: conf_calls_def call_nos_def file_nos_def)

section \<open>What reading a configuration promises\<close>

text \<open>For reading a concrete file the addresses of the functions in the tables are computed once.\<close>

lemmas conf_sap_code [code] = conf_sap_def [unfolded fp_simps]
lemmas conf_output_udp_code [code] = conf_output_udp_def [unfolded fp_simps]
lemmas conf_output_rtp_code [code] = conf_output_rtp_def [unfolded fp_simps]
lemmas conf_output_http_code [code] = conf_output_http_def [unfolded fp_simps]
lemmas conf_output_pipe_code [code] = conf_output_pipe_def [unfolded fp_simps]
lemmas conf_input_code [code] = conf_input_def [unfolded fp_simps]
lemmas conf_stream_code [code] = conf_stream_def [unfolded fp_simps]
lemmas conf_dvbs_transponder_code [code] = conf_dvbs_transponder_def [unfolded fp_simps]
lemmas conf_dvbs_lnb_code [code] = conf_dvbs_lnb_def [unfolded fp_simps]
lemmas conf_dvbs_code [code] = conf_dvbs_def [unfolded fp_simps]
lemmas conf_dvbt_code [code] = conf_dvbt_def [unfolded fp_simps]
lemmas conf_dvbc_code [code] = conf_dvbc_def [unfolded fp_simps]
lemmas conf_adapter_code [code] = conf_adapter_def [unfolded fp_simps]
lemmas conf_http_code [code] = conf_http_def [unfolded fp_simps]
lemmas conf_main_code [code] = conf_main_def [unfolded fp_simps]


text \<open>A file with two adapters, of which one has a stream with an announced output.\<close>

definition two_adapters :: "ctree list" where
  "two_adapters = [
     Ctree ''adapter'' (Some ''0x1'') [Ctree ''dvb-t'' None [Ctree ''frequency'' (Some ''7'') []]],
     Ctree ''adapter'' (Some ''2'') [Ctree ''stream'' None [
       Ctree ''name'' (Some ''x'') [], Ctree ''output-pipe'' None [Ctree ''filename'' (Some ''p'') []], Ctree ''sap'' None []]],
     Ctree ''http'' None [Ctree ''port'' (Some ''80'') []]]"

lemma two_adapters_read: "Option.bind (readconfig (\<lambda>_. Some 2) (Some (print_conf [CHR '' ''] two_adapters))) id \<noteq> None"
  by code_simp

lemma two_adapters_file:
  "\<exists>h i n. libconf_parse (print_conf [CHR '' ''] two_adapters) = Some (Some (h, i)) \<and> conf_rep h 0 n None None (Some i) two_adapters"
  by (rule parse_print_conf)
    (simp_all add: two_adapters_def blanks_def good_token_def good_value_def ends_token_def NL_def TAB_def DQ_def NUL_def)


text \<open>An announcement of the stream before the first output uses a null pointer.\<close>

theorem readconfig_stray_sap:
  "readconfig (\<lambda>_. Some 2) (Some ''adapter 0 { stream { name x; sap; }; }; http { port 80; };'') = None"
  by code_simp

text \<open>Options that a block has to have are not asked for if the block is empty, and an adapter may
  be there twice if its number is written in two ways.\<close>

theorem readconfig_empty_blocks:
  "map_option (map_option adapter_nos) (readconfig (\<lambda>_. Some 2) (Some ''adapter 0; adapter 0x0; http;'')) = Some (Some [Some 0, Some 0])"
  by code_simp

end
