(* ===== verification/Cli_Args.thy ===== *)
theory Cli_Args
  imports Cstring
begin

text \<open>
  The words of a command line, \<^verbatim>\<open>src/client/clidriver.c\<close>: splitting a line into arguments
  (\<^verbatim>\<open>parse_args\<close>) and putting words together in a buffer of bounded size (\<^verbatim>\<open>join\<close>, \<^verbatim>\<open>join2\<close>).

  \<^verbatim>\<open>parse_args\<close> writes the arguments, each with a zero behind it, into a copy of the line.  The
  model has the characters written so far and the offsets of the arguments in them; an argument is
  the string at its offset.
\<close>

section \<open>Splitting a line\<close>

record pargs =
  pa_buf :: string
  pa_argv :: "nat list"
  pa_quoted :: bool
  pa_escaped :: bool
  pa_whitespace :: bool

definition pargs_init :: pargs where
  "pargs_init = \<lparr>pa_buf = [], pa_argv = [], pa_quoted = False, pa_escaped = False, pa_whitespace = True\<rparr>"

text \<open>A new argument; \<open>None\<close> if there is no room for it.\<close>

definition pa_start :: "nat \<Rightarrow> pargs \<Rightarrow> pargs option" where
  "pa_start mx p =
     (if mx - 1 \<le> length (pa_argv p) then None
      else Some (p\<lparr>pa_argv := pa_argv p @ [length (pa_buf p)], pa_whitespace := False\<rparr>))"

text \<open>One character; \<open>None\<close> leaves the loop.\<close>

definition parse_args_char :: "nat \<Rightarrow> char \<Rightarrow> pargs \<Rightarrow> pargs option" where
  "parse_args_char mx c p =
     (if c = DQ \<and> \<not> pa_escaped p then do {
        let p = p\<lparr>pa_quoted := \<not> pa_quoted p\<rparr>;
        p \<leftarrow> (if pa_quoted p \<and> pa_whitespace p then pa_start mx p else Some p);
        Some (p\<lparr>pa_escaped := False\<rparr>)
      }
      else if (c = CHR '' '' \<or> c = TAB) \<and> \<not> (pa_quoted p \<or> pa_escaped p) then
        Some (if \<not> pa_whitespace p then p\<lparr>pa_buf := pa_buf p @ [NUL], pa_whitespace := True\<rparr> else p)
      else if c = BSL \<and> \<not> pa_escaped p then Some (p\<lparr>pa_escaped := True\<rparr>)
      else do {
        p \<leftarrow> (if pa_whitespace p then pa_start mx p else Some p);
        Some (p\<lparr>pa_buf := pa_buf p @ [c], pa_escaped := False\<rparr>)
      })"

fun parse_args_loop :: "nat \<Rightarrow> string \<Rightarrow> pargs \<Rightarrow> pargs" where
  "parse_args_loop mx [] p = p"
| "parse_args_loop mx (c # s) p =
     (case parse_args_char mx c p of None \<Rightarrow> p | Some p \<Rightarrow> parse_args_loop mx s p)"

text \<open>What is written into the copy, the offsets of the arguments, and whether the line ends in
  white space.\<close>

definition parse_args :: "nat \<Rightarrow> string \<Rightarrow> string \<times> nat list \<times> bool" where
  "parse_args mx s =
     (let p = parse_args_loop mx s pargs_init in (pa_buf p @ [NUL], pa_argv p, pa_whitespace p))"

lemma parse_args_char_len: "parse_args_char mx c p = Some q \<Longrightarrow> length (pa_buf q) \<le> length (pa_buf p) + 1"
  by (auto simp: parse_args_char_def pa_start_def Let_def split: if_splits bind_splits)

lemma parse_args_bound: "length (pa_buf (parse_args_loop mx s p)) \<le> length (pa_buf p) + length s"
  by (induction mx s p rule: parse_args_loop.induct) (fastforce split: option.splits dest: parse_args_char_len)+

definition argv_of :: "string \<Rightarrow> nat list \<Rightarrow> string list" where
  "argv_of buf argv = map (\<lambda>off. c_str (drop off buf)) argv"

definition AST_MAX_ARGS :: nat where "AST_MAX_ARGS = 16"

section \<open>Putting words together\<close>

text \<open>\<open>join_words\<close> is the loop; \<open>x\<close> says that the word is not the first one.\<close>

fun join_words :: "nat \<Rightarrow> bool \<Rightarrow> string \<Rightarrow> string list \<Rightarrow> string" where
  "join_words n x dest [] = dest"
| "join_words n x dest (w # ws) =
     (let dest = (if x then c_strncat dest '' '' (n - length dest - 1) else dest);
          dest = c_strncat dest w (n - length dest - 1)
      in join_words n True dest ws)"

definition join :: "nat \<Rightarrow> string list \<Rightarrow> bool \<Rightarrow> string" where
  "join n ws tws =
     (let dest = join_words n False [] ws
      in if tws \<and> dest \<noteq> [] then c_strncat dest '' '' (n - length dest - 1) else dest)"

fun join2_words :: "nat \<Rightarrow> string \<Rightarrow> string list \<Rightarrow> string" where
  "join2_words n dest [] = dest"
| "join2_words n dest (w # ws) = join2_words n (c_strncat dest w (n - length dest - 1)) ws"

definition join2 :: "nat \<Rightarrow> string list \<Rightarrow> string" where
  "join2 n ws = join2_words n [] ws"

section \<open>The words of a buffer\<close>

fun spaced :: "string list \<Rightarrow> string" where
  "spaced [] = []"
| "spaced [w] = w"
| "spaced (w # ws) = w @ '' '' @ spaced ws"

lemma append_space: "(@) [c] = (#) c"
  by (rule ext) simp

lemma join_words_spaced:
  "length dest < n \<Longrightarrow> join_words n True dest ws = take (n - 1) (dest @ concat (map (\<lambda>w. '' '' @ w) ws))"
proof (induction ws arbitrary: dest)
  case (Cons w ws)
  let ?d = "c_strncat dest '' '' (n - length dest - 1)"
  let ?d' = "c_strncat ?d w (n - length ?d - 1)"
  have d: "?d = take (n - 1) (dest @ '' '')" using Cons.prems by (auto simp: c_strncat_def)
  then have l: "length ?d < n" using Cons.prems by auto
  have d': "?d' = take (n - 1) (?d @ w)" using l by (auto simp: c_strncat_def)
  then have l': "length ?d' < n" using Cons.prems by (simp add: min_less_iff_disj)
  have "take (n - 1) (?d @ w) = take (n - 1) (dest @ '' '' @ w)" unfolding d take_take_append by simp
  with d' have e: "?d' = take (n - 1) (dest @ '' '' @ w)" by (rule trans)
  have "join_words n True dest (w # ws) = join_words n True ?d' ws" by (simp only: join_words.simps Let_def if_True)
  also have "\<dots> = take (n - 1) (?d' @ concat (map (\<lambda>w. '' '' @ w) ws))" by (rule Cons.IH [OF l'])
  also have "\<dots> = take (n - 1) (dest @ concat (map (\<lambda>w. '' '' @ w) (w # ws)))"
    unfolding e take_take_append by (simp add: append_space)
  finally show ?case .
qed simp

lemma spaced_Cons: "spaced (w # ws) = w @ concat (map (\<lambda>w. '' '' @ w) ws)"
  by (induction ws arbitrary: w) simp_all

text \<open>\<^verbatim>\<open>join\<close> gives the words with spaces between them, cut off where the buffer ends.\<close>

lemma join_take:
  assumes "0 < n"
  shows "join n ws False = take (n - 1) (spaced ws)"
proof (cases ws)
  case (Cons w ws')
  have "length (take (n - 1) w) < n" using assms by (simp add: min_less_iff_disj)
  then have "join_words n True (take (n - 1) w) ws' = take (n - 1) (w @ concat (map (\<lambda>w. '' '' @ w) ws'))"
    by (subst join_words_spaced) (simp_all only: take_take_append)
  then show ?thesis by (simp add: Cons join_def c_strncat_def spaced_Cons del: spaced.simps)
qed (simp add: join_def)

lemma join_tws:
  assumes "0 < n"
  shows "join n ws True = (if take (n - 1) (spaced ws) = [] then [] else take (n - 1) (spaced ws @ '' ''))"
proof -
  have "join_words n False [] ws = take (n - 1) (spaced ws)" using join_take [OF assms, of ws] by (simp add: join_def)
  moreover have "take (n - 1) xs @ take (n - length (take (n - 1) xs) - 1) '' '' = take (n - 1) (xs @ '' '')" for xs :: string
    using assms by (cases "length xs < n") (auto simp: min_def)
  ultimately show ?thesis by (simp add: join_def c_strncat_def Let_def)
qed

lemma join_bound: "0 < n \<Longrightarrow> length (join n ws tws) < n"
  by (cases tws) (auto simp: join_take join_tws min_less_iff_disj)

lemma join2_take: "length dest < n \<Longrightarrow> join2_words n dest ws = take (n - 1) (dest @ concat ws)"
proof (induction ws arbitrary: dest)
  case (Cons w ws)
  let ?d = "c_strncat dest w (n - length dest - 1)"
  have d: "?d = take (n - 1) (dest @ w)" using Cons.prems by (auto simp: c_strncat_def)
  then have "length ?d < n" using Cons.prems by auto
  then have "join2_words n ?d ws = take (n - 1) (?d @ concat ws)" by (rule Cons.IH)
  also have "\<dots> = take (n - 1) (dest @ concat (w # ws))"
    unfolding d take_take_append by (rule arg_cong [where f = "take _"]) simp
  finally show ?case by simp
qed simp

section \<open>The words are no longer than the line\<close>

fun offsets :: "nat \<Rightarrow> string list \<Rightarrow> nat list" where
  "offsets n [] = []"
| "offsets n (w # ws) = n # offsets (n + length w + 1) ws"

definition terminated :: "string list \<Rightarrow> string" where
  "terminated ws = concat (map (\<lambda>w. w @ [NUL]) ws)"

lemma offsets_snoc: "offsets n (ws @ [w]) = offsets n ws @ [n + length (terminated ws)]"
  by (induction ws arbitrary: n) (simp_all add: terminated_def)

text \<open>The arguments lie behind each other, each in front of a zero.\<close>

definition laid_out :: "pargs \<Rightarrow> bool" where
  "laid_out p \<longleftrightarrow> (\<exists>ws. pa_argv p = offsets 0 ws \<and>
     pa_buf p @ (if pa_whitespace p then [] else [NUL]) = terminated ws \<and> (pa_whitespace p \<or> ws \<noteq> []))"

lemma laid_out_start:
  assumes "laid_out p" "pa_whitespace p" "pa_start mx p = Some q"
  shows "laid_out q" "\<not> pa_whitespace q" "pa_buf q = pa_buf p"
proof -
  obtain ws where "pa_argv p = offsets 0 ws" "pa_buf p = terminated ws" using assms(1,2) by (auto simp: laid_out_def)
  then show "laid_out q" using assms(3)
    by (auto simp: laid_out_def pa_start_def offsets_snoc terminated_def split: if_splits intro!: exI [of _ "ws @ [[]]"])
  show "\<not> pa_whitespace q" "pa_buf q = pa_buf p" using assms(3) by (auto simp: pa_start_def split: if_splits)
qed

lemma laid_out_put:
  assumes "laid_out p" "\<not> pa_whitespace p"
  shows "laid_out (p\<lparr>pa_buf := pa_buf p @ [c], pa_escaped := b\<rparr>)"
proof -
  obtain ws where ws: "pa_argv p = offsets 0 ws" "pa_buf p @ [NUL] = terminated ws" "ws \<noteq> []"
    using assms by (auto simp: laid_out_def)
  obtain us w where "ws = us @ [w]" using ws(3) by (cases ws rule: rev_cases) auto
  then show ?thesis using ws assms(2)
    by (auto simp: laid_out_def offsets_snoc terminated_def intro!: exI [of _ "us @ [w @ [c]]"])
qed

lemma laid_out_flags [simp]: "laid_out (p\<lparr>pa_quoted := b\<rparr>) = laid_out p" "laid_out (p\<lparr>pa_escaped := b\<rparr>) = laid_out p"
  by (simp_all add: laid_out_def)

lemma laid_out_char:
  assumes "laid_out p" "parse_args_char mx c p = Some q"
  shows "laid_out q"
proof -
  consider (quote) "c = DQ \<and> \<not> pa_escaped p"
    | (blank) "\<not> (c = DQ \<and> \<not> pa_escaped p)" "(c = CHR '' '' \<or> c = TAB) \<and> \<not> (pa_quoted p \<or> pa_escaped p)"
    | (escape) "\<not> (c = DQ \<and> \<not> pa_escaped p)" "\<not> ((c = CHR '' '' \<or> c = TAB) \<and> \<not> (pa_quoted p \<or> pa_escaped p))" "c = BSL \<and> \<not> pa_escaped p"
    | (other) "\<not> (c = DQ \<and> \<not> pa_escaped p)" "\<not> ((c = CHR '' '' \<or> c = TAB) \<and> \<not> (pa_quoted p \<or> pa_escaped p))" "\<not> (c = BSL \<and> \<not> pa_escaped p)"
    by blast
  then show ?thesis
  proof cases
    case quote
    let ?p = "p\<lparr>pa_quoted := \<not> pa_quoted p\<rparr>"
    obtain r where r: "(if pa_quoted ?p \<and> pa_whitespace ?p then pa_start mx ?p else Some ?p) = Some r" "q = r\<lparr>pa_escaped := False\<rparr>"
      using assms(2) quote by (simp add: parse_args_char_def Let_def split: bind_splits)
    have "laid_out ?p" using assms(1) by simp
    then have "laid_out r" using r(1) laid_out_start(1) [of ?p mx r] by (auto split: if_splits)
    then show ?thesis by (simp add: r(2))
  next
    case blank
    have "laid_out (p\<lparr>pa_buf := pa_buf p @ [NUL], pa_whitespace := True\<rparr>)" if "\<not> pa_whitespace p"
      using assms(1) that by (auto simp: laid_out_def)
    then show ?thesis using assms blank by (auto simp: parse_args_char_def)
  next
    case escape
    then have "q = p\<lparr>pa_escaped := True\<rparr>" using assms(2) by (simp add: parse_args_char_def split: if_splits)
    then show ?thesis using assms(1) by simp
  next
    case other
    obtain r where r: "(if pa_whitespace p then pa_start mx p else Some p) = Some r" "q = r\<lparr>pa_buf := pa_buf r @ [c], pa_escaped := False\<rparr>"
      using assms(2) unfolding parse_args_char_def by (simp only: other if_False) (simp split: bind_splits)
    have "laid_out r \<and> \<not> pa_whitespace r" using r(1) laid_out_start(1,2) [OF assms(1), of mx r] assms(1) by (auto split: if_splits)
    then show ?thesis using laid_out_put by (simp add: r(2))
  qed
qed

lemma laid_out_loop: "laid_out p \<Longrightarrow> laid_out (parse_args_loop mx s p)"
  by (induction mx s p rule: parse_args_loop.induct) (auto split: option.splits dest: laid_out_char)

lemma c_str_short: "length (c_str (w @ NUL # r)) \<le> length w"
  by (induction w) (simp_all add: c_str_def)

lemma args_short:
  "list_all2 (\<lambda>a w. length a \<le> length w) (argv_of (pre @ terminated ws @ r) (offsets (length pre) ws)) ws"
proof (induction ws arbitrary: pre)
  case (Cons w ws)
  from Cons.IH [of "pre @ w @ [NUL]"] show ?case
    using c_str_short [of w "terminated ws @ r"] by (simp add: argv_of_def terminated_def)
qed (simp add: argv_of_def)

lemma spaced_short: "list_all2 (\<lambda>a w. length a \<le> length w) as ws \<Longrightarrow> length (spaced as) \<le> length (terminated ws) - 1"
proof (induction "as" arbitrary: ws rule: spaced.induct)
  case (3 a b "as")
  then obtain w ws' where ws: "ws = w # ws'" "length a \<le> length w" "list_all2 (\<lambda>a w. length a \<le> length w) (b # as) ws'"
    by (cases ws) auto
  then have "ws' \<noteq> []" by auto
  then have "0 < length (terminated ws')" by (cases ws') (simp_all add: terminated_def)
  moreover have "length (terminated ws) = length w + 1 + length (terminated ws')" "length (spaced (a # b # as)) = length a + 1 + length (spaced (b # as))"
    by (simp_all add: ws(1) terminated_def)
  ultimately show ?case using 3(1) [OF ws(3)] ws(2) by linarith
qed (auto simp: terminated_def list_all2_Cons1)

lemma join_parsed_short:
  assumes "parse_args mx s = (buf, offs, tws)" "0 < n"
  shows "length (join n (argv_of buf offs) tws) \<le> length s"
proof -
  let ?p = "parse_args_loop mx s pargs_init"
  have p: "buf = pa_buf ?p @ [NUL]" "offs = pa_argv ?p" "tws = pa_whitespace ?p" using assms(1) by (auto simp: parse_args_def Let_def)
  have "laid_out ?p" by (rule laid_out_loop) (auto simp: laid_out_def pargs_init_def terminated_def intro!: exI [of _ "[]"])
  then obtain ws where ws: "offs = offsets 0 ws" "pa_buf ?p @ (if tws then [] else [NUL]) = terminated ws"
    unfolding p laid_out_def by blast
  have "length (pa_buf ?p) \<le> length s" using parse_args_bound [of mx s pargs_init] by (simp add: pargs_init_def)
  then have l: "length (terminated ws) \<le> length s + (if tws then 0 else 1)" unfolding ws(2) [symmetric] by simp
  have "buf = [] @ terminated ws @ (if tws then [NUL] else [])" using ws(2) p(1) by (auto split: if_splits)
  then have sp: "length (spaced (argv_of buf offs)) \<le> length (terminated ws) - 1"
    using spaced_short [OF args_short [of "[]" ws "if tws then [NUL] else []"]] ws(1) by simp
  show ?thesis
  proof (cases tws)
    case True
    then have j: "join n (argv_of buf offs) tws =
        (if take (n - 1) (spaced (argv_of buf offs)) = [] then [] else take (n - 1) (spaced (argv_of buf offs) @ '' ''))"
      using join_tws [OF assms(2)] by simp
    have "length (join n (argv_of buf offs) tws) \<le> length (spaced (argv_of buf offs)) + 1"
      unfolding j by (auto simp: min_def)
    moreover have "spaced (argv_of buf offs) = [] \<Longrightarrow> join n (argv_of buf offs) tws = []" unfolding j by simp
    ultimately show ?thesis using sp l True by (cases "spaced (argv_of buf offs)") auto
  next
    case False
    then show ?thesis using sp l by (simp add: join_take [OF assms(2)] min.coboundedI1)
  qed
qed

section \<open>Splitting what was quoted\<close>

definition plain :: "char \<Rightarrow> bool" where
  "plain c \<longleftrightarrow> c \<notin> {DQ, BSL, CHR '' '', TAB, NUL}"

definition escape :: "char \<Rightarrow> string" where
  "escape c = (if c = DQ \<or> c = BSL then [BSL, c] else [c])"

definition quote_word :: "string \<Rightarrow> string" where
  "quote_word w = DQ # concat (map escape w) @ [DQ]"

text \<open>A text that stands for a word: the word in quotes, or as it is if it has no special character.\<close>

definition renders :: "string \<Rightarrow> string \<Rightarrow> bool" where
  "renders t w \<longleftrightarrow> NUL \<notin> set w \<and> (t = quote_word w \<or> (t = w \<and> w \<noteq> [] \<and> (\<forall>c \<in> set w. plain c)))"

definition white :: "string \<Rightarrow> bool" where
  "white b \<longleftrightarrow> (\<forall>c \<in> set b. c = CHR '' '' \<or> c = TAB)"

text \<open>A line: texts, each with the white space behind it and the word it stands for.\<close>

type_synonym line_words = "(string \<times> string \<times> string) list"

fun good_line :: "line_words \<Rightarrow> bool" where
  "good_line [] = True"
| "good_line ((t, b, w) # l) = (renders t w \<and> white b \<and> (l \<noteq> [] \<longrightarrow> b \<noteq> []) \<and> good_line l)"

definition line_text :: "line_words \<Rightarrow> string" where
  "line_text l = concat (map (\<lambda>(t, b, w). t @ b) l)"

definition line_args :: "line_words \<Rightarrow> string list" where
  "line_args l = map (\<lambda>(t, b, w). w) l"

lemmas pa_defs = parse_args_char_def pa_start_def

text \<open>The state between two words, and the state in a word.\<close>

lemma loop_plain:
  "\<forall>c \<in> set w. plain c \<Longrightarrow> \<not> pa_quoted p \<Longrightarrow> \<not> pa_escaped p \<Longrightarrow> \<not> pa_whitespace p \<Longrightarrow>
   parse_args_loop mx (w @ s) p = parse_args_loop mx s (p\<lparr>pa_buf := pa_buf p @ w\<rparr>)"
proof (induction w arbitrary: p)
  case (Cons c w)
  have "parse_args_char mx c p = Some (p\<lparr>pa_buf := pa_buf p @ [c]\<rparr>)"
    using Cons.prems by (cases p) (auto simp: parse_args_char_def plain_def)
  then show ?case using Cons.prems Cons.IH [of "p\<lparr>pa_buf := pa_buf p @ [c]\<rparr>"] by simp
qed simp

lemma loop_escape:
  "pa_quoted p \<Longrightarrow> \<not> pa_escaped p \<Longrightarrow> \<not> pa_whitespace p \<Longrightarrow>
   parse_args_loop mx (concat (map escape w) @ s) p = parse_args_loop mx s (p\<lparr>pa_buf := pa_buf p @ w\<rparr>)"
proof (induction w arbitrary: p)
  case (Cons c w)
  have "parse_args_loop mx (escape c @ r) p = parse_args_loop mx r (p\<lparr>pa_buf := pa_buf p @ [c]\<rparr>)" for r
    using Cons.prems by (cases p) (auto simp: escape_def parse_args_char_def char_defs)
  then show ?case using Cons.prems Cons.IH [of "p\<lparr>pa_buf := pa_buf p @ [c]\<rparr>"] by simp
qed simp

definition between :: "pargs \<Rightarrow> bool" where
  "between p \<longleftrightarrow> pa_whitespace p \<and> \<not> pa_quoted p \<and> \<not> pa_escaped p"

definition word_read :: "string \<Rightarrow> pargs \<Rightarrow> pargs" where
  "word_read w p = p\<lparr>pa_buf := pa_buf p @ w, pa_argv := pa_argv p @ [length (pa_buf p)], pa_whitespace := False\<rparr>"

lemma loop_word:
  assumes "renders t w" "between p" "length (pa_argv p) < mx - 1"
  shows "parse_args_loop mx (t @ s) p = parse_args_loop mx s (word_read w p)"
proof -
  consider "t = quote_word w" | "t = w" "w \<noteq> []" "\<forall>c \<in> set w. plain c" using assms(1) by (auto simp: renders_def)
  then show ?thesis
  proof cases
    case 1
    let ?p = "p\<lparr>pa_quoted := True, pa_argv := pa_argv p @ [length (pa_buf p)], pa_whitespace := False\<rparr>"
    have "parse_args_char mx DQ p = Some ?p" using assms(2,3) by (cases p) (auto simp: pa_defs between_def)
    then have "parse_args_loop mx (t @ s) p = parse_args_loop mx (DQ # s) (?p\<lparr>pa_buf := pa_buf p @ w\<rparr>)"
      using loop_escape [of ?p mx w "DQ # s"] assms(2) by (simp add: 1 quote_word_def between_def)
    also have "\<dots> = parse_args_loop mx s (word_read w p)"
      using assms(2) by (cases p) (simp add: parse_args_char_def between_def word_read_def)
    finally show ?thesis .
  next
    case 2
    then obtain c w' where w: "w = c # w'" by (cases w) auto
    have "parse_args_char mx c p = Some (word_read [c] p)"
      using 2(3) assms(2,3) by (cases p) (auto simp: w pa_defs between_def plain_def word_read_def)
    then show ?thesis using 2 loop_plain [of w' "word_read [c] p" mx s] assms(2)
      by (cases p) (simp add: w word_read_def between_def)
  qed
qed

lemma loop_word_full:
  assumes "renders t w" "between p" "mx - 1 \<le> length (pa_argv p)"
  obtains q where "parse_args_loop mx (t @ s) p = p\<lparr>pa_quoted := q\<rparr>"
proof -
  obtain c t' where t: "t = c # t'" using assms(1) by (cases t) (auto simp: renders_def quote_word_def)
  have "c = DQ \<or> plain c" using assms(1) by (auto simp: t renders_def quote_word_def)
  then have "parse_args_char mx c p = None" using assms(2,3) by (cases p) (auto simp: pa_defs between_def plain_def)
  then show ?thesis using that [of "pa_quoted p"] by (simp add: t)
qed

lemma loop_white:
  "white b \<Longrightarrow> between p \<Longrightarrow> parse_args_loop mx (b @ s) p = parse_args_loop mx s p"
proof (induction b)
  case (Cons c b)
  have "parse_args_char mx c p = Some p" using Cons.prems by (cases p) (auto simp: parse_args_char_def white_def between_def char_defs)
  then show ?case using Cons by (simp add: white_def)
qed simp

text \<open>The arguments found, when the words before the line are \<open>ws\<close>: those of the line, as many as
  there is room for.  Each has its place in what is written.\<close>

definition places :: "string list \<Rightarrow> pargs \<Rightarrow> bool" where
  "places ws p \<longleftrightarrow> length (pa_argv p) = length ws \<and>
     (\<forall>r. argv_of (pa_buf p @ (if pa_whitespace p then [] else [NUL]) @ r) (pa_argv p) = ws)"

lemma places_word:
  assumes "places ws p" "pa_whitespace p" "NUL \<notin> set w"
  shows "places (ws @ [w]) (word_read w p)"
proof -
  have "argv_of (pa_buf p @ r) (pa_argv p) = ws" for r using assms(1,2) by (simp add: places_def)
  moreover have "argv_of buf (xs @ [length (pa_buf p)]) = argv_of buf xs @ [c_str (drop (length (pa_buf p)) buf)]" for buf xs
    by (simp add: argv_of_def)
  moreover have "c_str (drop (length xs) (xs @ w @ NUL # r)) = w" for xs r using assms(3) by (simp add: c_str_stops)
  ultimately show ?thesis using assms by (simp add: places_def word_read_def del: drop_append)
qed

lemma places_white:
  assumes "places ws p" "\<not> pa_whitespace p"
  shows "places ws (p\<lparr>pa_buf := pa_buf p @ [NUL], pa_whitespace := True\<rparr>)"
  using assms by (simp add: places_def)

lemma loop_line:
  "good_line l \<Longrightarrow> between p \<Longrightarrow> places ws p \<Longrightarrow> length ws \<le> mx - 1 \<Longrightarrow>
   places (take (mx - 1) (ws @ line_args l)) (parse_args_loop mx (line_text l) p) \<and>
   (pa_whitespace (parse_args_loop mx (line_text l) p) \<longleftrightarrow>
     l = [] \<or> mx - 1 < length (ws @ line_args l) \<or> fst (snd (last l)) \<noteq> [])"
proof (induction l arbitrary: p ws rule: good_line.induct)
  case (2 t b w l)
  have l: "renders t w" "white b" "l \<noteq> [] \<longrightarrow> b \<noteq> []" "good_line l" using "2.prems"(1) by simp_all
  have n: "length (pa_argv p) = length ws" using "2.prems"(3) by (simp add: places_def)
  let ?s = "b @ line_text l"
  have tx: "line_text ((t, b, w) # l) = t @ ?s" "line_args ((t, b, w) # l) = w # line_args l"
    by (simp_all add: line_text_def line_args_def)
  show ?case
  proof (cases "length ws < mx - 1")
    case False
    then obtain q where "parse_args_loop mx (t @ ?s) p = p\<lparr>pa_quoted := q\<rparr>"
      using loop_word_full [OF l(1) "2.prems"(2)] n by (metis not_less)
    then show ?thesis using False "2.prems"(2-4) by (auto simp: tx places_def between_def)
  next
    case True
    let ?p = "word_read w p"
    have p: "parse_args_loop mx (t @ ?s) p = parse_args_loop mx ?s ?p"
      using loop_word [OF l(1) "2.prems"(2)] True n by simp
    have pl: "places (ws @ [w]) ?p" using places_word "2.prems"(2,3) l(1) by (simp add: between_def renders_def)
    have nw: "\<not> pa_whitespace ?p" "\<not> pa_quoted ?p" "\<not> pa_escaped ?p" using "2.prems"(2) by (simp_all add: word_read_def between_def)
    show ?thesis
    proof (cases b)
      case Nil
      then have "l = []" using l(3) by simp
      then show ?thesis using p pl nw True by (simp add: tx Nil line_text_def line_args_def)
    next
      case (Cons c b')
      let ?q = "?p\<lparr>pa_buf := pa_buf ?p @ [NUL], pa_whitespace := True\<rparr>"
      have "parse_args_char mx c ?p = Some ?q"
        using l(2) nw by (cases ?p) (auto simp: Cons white_def parse_args_char_def char_defs)
      moreover have q: "between ?q" "places (ws @ [w]) ?q" using nw places_white [OF pl] by (simp_all add: between_def)
      ultimately have e: "parse_args_loop mx (t @ ?s) p = parse_args_loop mx (line_text l) ?q"
        using p loop_white [of b' ?q mx "line_text l"] l(2) by (simp add: Cons white_def)
      have "length (ws @ [w]) \<le> mx - 1" using True by simp
      from "2.IH" [OF l(4) q this] show ?thesis unfolding tx e by (cases "l = []") (simp_all add: Cons line_args_def)
    qed
  qed
qed (simp add: line_text_def line_args_def between_def)

text \<open>The arguments are the words of the line, as many as there is room for.\<close>

lemma parse_args_line:
  assumes "good_line l" "white lead" "parse_args mx (lead @ line_text l) = (buf, argv, tws)"
  shows "argv_of buf argv = take (mx - 1) (line_args l)"
    "tws \<longleftrightarrow> l = [] \<or> mx - 1 < length l \<or> fst (snd (last l)) \<noteq> []"
    "length buf \<le> length (lead @ line_text l) + 1"
proof -
  let ?p = "parse_args_loop mx (line_text l) pargs_init"
  have i: "between pargs_init" "places [] pargs_init" by (simp_all add: between_def places_def pargs_init_def argv_of_def)
  have p: "buf = pa_buf ?p @ [NUL]" "argv = pa_argv ?p" "tws = pa_whitespace ?p"
    using assms(3) loop_white [OF assms(2) i(1)] by (auto simp: parse_args_def Let_def)
  have r: "places (take (mx - 1) (line_args l)) ?p"
    "pa_whitespace ?p \<longleftrightarrow> l = [] \<or> mx - 1 < length (line_args l) \<or> fst (snd (last l)) \<noteq> []"
    using loop_line [OF assms(1) i, of mx] by simp_all
  have "argv_of (pa_buf ?p @ [NUL]) argv = take (mx - 1) (line_args l)"
    using r(1) [unfolded places_def, THEN conjunct2, rule_format, of "if pa_whitespace ?p then [NUL] else []"]
    by (simp add: p(2) split: if_splits)
  moreover have "length (pa_buf ?p) \<le> length (line_text l)"
    using parse_args_bound [of mx "line_text l" pargs_init] by (simp add: pargs_init_def)
  ultimately show "argv_of buf argv = take (mx - 1) (line_args l)" "tws \<longleftrightarrow> l = [] \<or> mx - 1 < length l \<or> fst (snd (last l)) \<noteq> []"
    "length buf \<le> length (lead @ line_text l) + 1" using r(2) by (simp_all add: p line_args_def)
qed

section \<open>Properties\<close>

text \<open>C25: Splitting a command line gives back the words it was made of, each quoted with its special
  characters escaped or, where it has none, as it is, with any white space before, between and behind
  them; of more words than there is room for the first ones.  What is written fits into the copy
  of the line.\<close>

theorem parse_args_words:
  assumes "good_line l" "white lead" "parse_args mx (lead @ line_text l) = (buf, argv, tws)"
  shows "argv_of buf argv = take (mx - 1) (line_args l) \<and>
    (tws \<longleftrightarrow> l = [] \<or> mx - 1 < length l \<or> fst (snd (last l)) \<noteq> []) \<and>
    length buf \<le> length (lead @ line_text l) + 1"
  using parse_args_line [OF assms] by simp

theorem parse_args_words_witness:
  "\<exists>buf argv. parse_args 16 ('' help  '' @ quote_word ''a b'' @ '' '') = (buf, argv, True) \<and>
     argv_of buf argv = [''help'', ''a b'']"
proof -
  let ?l = "[(''help'', ''  '', ''help''), (quote_word ''a b'', '' '', ''a b'')]"
  obtain buf argv tws where p: "parse_args 16 ('' '' @ line_text ?l) = (buf, argv, tws)" by (metis prod_cases3)
  have "argv_of buf argv = take (16 - 1) (line_args ?l) \<and> (tws \<longleftrightarrow> ?l = [] \<or> 16 - 1 < length ?l \<or> fst (snd (last ?l)) \<noteq> []) \<and>
      length buf \<le> length ('' '' @ line_text ?l) + 1"
    by (rule parse_args_words [OF _ _ p]) (auto simp: renders_def white_def plain_def char_defs)
  then show ?thesis using p by (simp add: line_args_def line_text_def)
qed

end
