(* ===== verification/Cli.thy ===== *)
theory Cli
  imports Cli_Args "HOL-Library.Multiset"
begin

text \<open>
  The command line driver of the client, \<^verbatim>\<open>src/client/clidriver.c\<close>: the table of commands, finding
  the command of a line, running it, and \<^verbatim>\<open>help\<close>.

  The commands other than \<^verbatim>\<open>help\<close> are entries in memory, a store, linked by their \<^verbatim>\<open>next\<close>
  pointers from \<^verbatim>\<open>helpers\<close> on; an entry that was freed is not in the store, and using it is \<open>None\<close>.
  A pointer to an entry is its identifier; the entries of the static array have an index.  The words
  of a command are those before the null pointer.  A handler outside of the driver is a
  function that, from the state and the arguments it gets, gives the operations it performs on the
  driver and its result.  Output is the list of the strings given to \<^verbatim>\<open>ast_cli\<close>.
\<close>

section \<open>State\<close>

datatype cli_handler = Handle_help | Handle_external nat

datatype cli_generator = Generate_none | Generate_help | Generate_external nat

record cli_entry =
  cmda :: "string list"
  handler :: cli_handler
  summary :: string
  usage :: "string option"
  generator :: cli_generator
  cnext :: "nat option"
  inuse :: int
  klkname :: "string option"
  klkmsgid :: "string option"
  klkmodnameused :: int

type_synonym cli_heap = "nat \<rightharpoonup> cli_entry"

record cli =
  cli_heap :: cli_heap
  cli_free :: nat
  helpers :: "nat option"
  cli_builtins :: "cli_entry list"
  cli_out :: "string list"

datatype cli_ref = Helper nat | Builtin nat

definition builtins :: "cli_entry list" where
  "builtins = [\<lparr>cmda = [''help''], handler = Handle_help,
     summary = ''Display help list, or specific help on a command'',
     usage = Some (''Usage: help [topic]'' @ [NL]), generator = Generate_help, cnext = None, inuse = 0,
     klkname = None, klkmsgid = None, klkmodnameused = 0\<rparr>]"

definition cli_init :: cli where
  "cli_init = \<lparr>cli_heap = (\<lambda>_. None), cli_free = 0, helpers = None, cli_builtins = builtins, cli_out = []\<rparr>"

definition ast_cli :: "string \<Rightarrow> cli \<Rightarrow> cli" where
  "ast_cli s st = st\<lparr>cli_out := cli_out st @ [s]\<rparr>"

definition get_entry :: "cli \<Rightarrow> cli_ref \<Rightarrow> cli_entry option" where
  "get_entry st r =
     (case r of Helper i \<Rightarrow> cli_heap st i
      | Builtin k \<Rightarrow> peek (cli_builtins st) k)"

definition upd_entry :: "cli_ref \<Rightarrow> (cli_entry \<Rightarrow> cli_entry) \<Rightarrow> cli \<Rightarrow> cli option" where
  "upd_entry r f st = do {
     e \<leftarrow> get_entry st r;
     Some (case r of Helper i \<Rightarrow> st\<lparr>cli_heap := (cli_heap st)(i \<mapsto> f e)\<rparr>
           | Builtin k \<Rightarrow> st\<lparr>cli_builtins := (cli_builtins st)[k := f e]\<rparr>)
   }"

section \<open>Finding a command\<close>

text \<open>The loop over the words: \<open>exact\<close> is 1 for the same words, 0 for a command that starts the
  words, -1 for a command that the words start.\<close>

fun words_match :: "int \<Rightarrow> string list \<Rightarrow> string list \<Rightarrow> bool" where
  "words_match exact [] ws = (exact > -1 \<longrightarrow> ws = [])"
| "words_match exact (c # cs) [] = (exact = 0)"
| "words_match exact (c # cs) (w # ws) = (c_strcasecmp w c = 0 \<and> words_match exact cs ws)"

partial_function (option) find_helper :: "cli_heap \<Rightarrow> nat option \<Rightarrow> int \<Rightarrow> string list \<Rightarrow> nat option option" where
  "find_helper h p exact cmds =
     (case p of
        None \<Rightarrow> Some None
      | Some i \<Rightarrow> do {
          e \<leftarrow> h i;
          if words_match exact cmds (cmda e) then Some (Some i)
          else find_helper h (cnext e) exact cmds
        })"

fun find_builtin :: "nat \<Rightarrow> cli_entry list \<Rightarrow> int \<Rightarrow> string list \<Rightarrow> nat option" where
  "find_builtin x [] exact cmds = None"
| "find_builtin x (e # es) exact cmds =
     (if words_match exact cmds (cmda e) then Some x else find_builtin (x + 1) es exact cmds)"

definition find_cli :: "cli \<Rightarrow> int \<Rightarrow> string list \<Rightarrow> cli_ref option option" where
  "find_cli st exact cmds = do {
     e \<leftarrow> find_helper (cli_heap st) (helpers st) exact cmds;
     Some (case e of
             Some i \<Rightarrow> Some (Helper i)
           | None \<Rightarrow> map_option Builtin (find_builtin 0 (cli_builtins st) exact cmds))
   }"

section \<open>Registering and removing commands\<close>

partial_function (option) register_walk :: "nat \<Rightarrow> string \<Rightarrow> nat option \<Rightarrow> nat option \<Rightarrow> cli \<Rightarrow> cli option" where
  "register_walk i fulle l cur st =
     (case cur of
        None \<Rightarrow> do {
          st \<leftarrow> (case l of
                  Some l \<Rightarrow> upd_entry (Helper l) (\<lambda>e. e\<lparr>cnext := Some i\<rparr>) st
                | None \<Rightarrow> Some (st\<lparr>helpers := Some i\<rparr>));
          upd_entry (Helper i) (\<lambda>e. e\<lparr>cnext := None\<rparr>) st
        }
      | Some c \<Rightarrow> do {
          e \<leftarrow> cli_heap st c;
          let fulltst = join2 80 (cmda e);
          let len = min (length fulltst) (length fulle);
          if c_strncasecmp fulle fulltst len < 0 then
            (case l of
               Some l \<Rightarrow> do {
                 le \<leftarrow> cli_heap st l;
                 st \<leftarrow> upd_entry (Helper i) (\<lambda>e. e\<lparr>cnext := cnext le\<rparr>) st;
                 upd_entry (Helper l) (\<lambda>e. e\<lparr>cnext := Some i\<rparr>) st
               }
             | None \<Rightarrow> do {
                 st \<leftarrow> upd_entry (Helper i) (\<lambda>e. e\<lparr>cnext := helpers st\<rparr>) st;
                 Some (st\<lparr>helpers := Some i\<rparr>)
               })
          else register_walk i fulle (Some c) (cnext e) st
        })"

definition ast_cli_register :: "nat \<Rightarrow> cli \<Rightarrow> (int \<times> cli) option" where
  "ast_cli_register i st = do {
     e \<leftarrow> cli_heap st i;
     let fulle = join2 80 (cmda e);
     r \<leftarrow> find_cli st (-1) (cmda e);
     if r \<noteq> None then Some (-1, st)
     else do {
       st \<leftarrow> register_walk i fulle None (helpers st) st;
       Some (0, st)
     }
   }"

partial_function (option) unregister_walk :: "nat \<Rightarrow> nat option \<Rightarrow> nat option \<Rightarrow> cli \<Rightarrow> cli option" where
  "unregister_walk i l cur st =
     (case cur of
        None \<Rightarrow> Some st
      | Some c \<Rightarrow> do {
          ce \<leftarrow> cli_heap st c;
          if i = c \<and> inuse ce = 0 then do {
            st \<leftarrow> (case l of
                    Some l \<Rightarrow> upd_entry (Helper l) (\<lambda>e. e\<lparr>cnext := cnext ce\<rparr>) st
                  | None \<Rightarrow> Some (st\<lparr>helpers := cnext ce\<rparr>));
            upd_entry (Helper i) (\<lambda>e. e\<lparr>cnext := None\<rparr>) st
          }
          else unregister_walk i (Some c) (cnext ce) st
        })"

definition ast_cli_unregister :: "nat \<Rightarrow> cli \<Rightarrow> (int \<times> cli) option" where
  "ast_cli_unregister i st = do { st \<leftarrow> unregister_walk i None (helpers st) st; Some (0, st) }"

fun ast_cli_register_multiple :: "nat list \<Rightarrow> cli \<Rightarrow> cli option" where
  "ast_cli_register_multiple [] st = Some st"
| "ast_cli_register_multiple (i # is) st = do {
     (_, st) \<leftarrow> ast_cli_register i st;
     ast_cli_register_multiple is st
   }"

fun ast_cli_unregister_multiple :: "nat list \<Rightarrow> cli \<Rightarrow> cli option" where
  "ast_cli_unregister_multiple [] st = Some st"
| "ast_cli_unregister_multiple (i # is) st = do {
     (_, st) \<leftarrow> ast_cli_unregister i st;
     ast_cli_unregister_multiple is st
   }"

section \<open>What handlers do\<close>

text \<open>\<open>Op_new\<close> and \<open>Op_free\<close> are \<^verbatim>\<open>Garbage::allocEntry\<close> and \<^verbatim>\<open>Garbage::freeEntry\<close> of
  \<^verbatim>\<open>garbage.cpp\<close>, which unregisters an entry and frees it, and ignores pointers it does not know.\<close>

datatype cli_op = Op_print string | Op_new cli_entry | Op_register nat | Op_unregister nat | Op_free nat

definition alloc_entry :: "cli_entry \<Rightarrow> cli \<Rightarrow> cli" where
  "alloc_entry e st = st\<lparr>cli_heap := (cli_heap st)(cli_free st \<mapsto> e\<lparr>cnext := None, inuse := 0\<rparr>), cli_free := cli_free st + 1\<rparr>"

definition free_entry :: "nat \<Rightarrow> cli \<Rightarrow> cli option" where
  "free_entry i st =
     (if cli_heap st i = None then Some st
      else do {
        (_, st) \<leftarrow> ast_cli_unregister i st;
        Some (st\<lparr>cli_heap := (cli_heap st)(i := None)\<rparr>)
      })"

fun run_op :: "cli_op \<Rightarrow> cli \<Rightarrow> cli option" where
  "run_op (Op_print s) st = Some (ast_cli s st)"
| "run_op (Op_new e) st = Some (alloc_entry e st)"
| "run_op (Op_register i) st = map_option snd (ast_cli_register i st)"
| "run_op (Op_unregister i) st = map_option snd (ast_cli_unregister i st)"
| "run_op (Op_free i) st = free_entry i st"

fun run_ops :: "cli_op list \<Rightarrow> cli \<Rightarrow> cli option" where
  "run_ops [] st = Some st"
| "run_ops (op # ops) st = do { st \<leftarrow> run_op op st; run_ops ops st }"

section \<open>Help\<close>

definition pad_left :: "nat \<Rightarrow> string \<Rightarrow> string" where
  "pad_left n s = replicate (n - length s) CHR '' '' @ s"

text \<open>\<^verbatim>\<open>%30.30s  %s\n\<close>\<close>

definition help_line :: "string \<Rightarrow> cli_entry \<Rightarrow> string" where
  "help_line fullcmd e = pad_left 30 (take 30 fullcmd) @ ''  '' @ summary e @ [NL]"

definition help_entry :: "string option \<Rightarrow> string \<Rightarrow> cli_entry \<Rightarrow> cli \<Rightarrow> cli" where
  "help_entry mt fullcmd e st =
     (if fullcmd \<noteq> [] \<and> hd fullcmd = CHR ''_'' then st
      else case mt of
        Some m \<Rightarrow> if c_strncasecmp m fullcmd (length m) \<noteq> 0 then st else ast_cli (help_line fullcmd e) st
      | None \<Rightarrow> ast_cli (help_line fullcmd e) st)"

text \<open>The loop merges the array and the list by the names of the commands.\<close>

partial_function (option) help_walk :: "string option \<Rightarrow> cli_entry list \<Rightarrow> nat option \<Rightarrow> cli \<Rightarrow> cli option" where
  "help_walk mt e1 e2 st =
     (case e2 of
        Some i \<Rightarrow> do {
          e \<leftarrow> cli_heap st i;
          let fullcmd2 = join 80 (cmda e) False;
          case e1 of
            [] \<Rightarrow> help_walk mt [] (cnext e) (help_entry mt fullcmd2 e st)
          | b # bs \<Rightarrow>
              (let fullcmd1 = join 80 (cmda b) False
               in if c_strcmp fullcmd2 fullcmd1 < 0
                  then help_walk mt (b # bs) (cnext e) (help_entry mt fullcmd2 e st)
                  else help_walk mt bs (Some i) (help_entry mt fullcmd1 b st))
        }
      | None \<Rightarrow>
          (case e1 of
             [] \<Rightarrow> Some st
           | b # bs \<Rightarrow> help_walk mt bs None (help_entry mt (join 80 (cmda b) False) b st)))"

definition RESULT_SUCCESS :: int where "RESULT_SUCCESS = 0"
definition RESULT_SHOWUSAGE :: int where "RESULT_SHOWUSAGE = 1"

definition help_workhorse :: "string list option \<Rightarrow> cli \<Rightarrow> (int \<times> cli) option" where
  "help_workhorse mt st = do {
     st \<leftarrow> help_walk (map_option (\<lambda>m. join 80 m False) mt) (cli_builtins st) (helpers st) st;
     Some (0, st)
   }"

definition handle_help :: "string list \<Rightarrow> cli \<Rightarrow> (int \<times> cli) option" where
  "handle_help argv st =
     (if length argv < 1 then Some (RESULT_SHOWUSAGE, st)
      else if length argv > 1 then do {
        r \<leftarrow> find_cli st 1 (tl argv);
        case r of
          Some r \<Rightarrow> do {
            e \<leftarrow> get_entry st r;
            Some (RESULT_SUCCESS,
              ast_cli (case usage e of Some u \<Rightarrow> u
                       | None \<Rightarrow> ''No help text available for '' @ [CHR 0x27] @ join 80 (tl argv) False @ [CHR 0x27, CHR ''.'', NL]) st)
          }
        | None \<Rightarrow> do {
            r \<leftarrow> find_cli st (-1) (tl argv);
            if r \<noteq> None then help_workhorse (Some (tl argv)) st
            else Some (RESULT_SUCCESS,
              ast_cli (''No such command '' @ [CHR 0x27] @ join 80 (tl argv) False @ [CHR 0x27, CHR ''.'', NL]) st)
          }
      }
      else help_workhorse None st)"

section \<open>Running a command\<close>

type_synonym cli_external =
  "nat \<Rightarrow> cli \<Rightarrow> string list \<Rightarrow> string option \<Rightarrow> string option \<Rightarrow> int \<Rightarrow> cli_op list \<times> int"

definition call_handler :: "cli_external \<Rightarrow> cli_entry \<Rightarrow> string list \<Rightarrow> cli \<Rightarrow> (int \<times> cli) option" where
  "call_handler ext e argv st =
     (case handler e of
        Handle_help \<Rightarrow> handle_help argv st
      | Handle_external k \<Rightarrow>
          (let (ops, res) = ext k st argv (klkname e) (klkmsgid e) (klkmodnameused e)
           in do { st \<leftarrow> run_ops ops st; Some (res, st) }))"

text \<open>The words up to the first one that no command goes on with.\<close>

fun find_best_words :: "cli \<Rightarrow> string list \<Rightarrow> string list \<Rightarrow> string list option" where
  "find_best_words st my [] = Some my"
| "find_best_words st my (a # as) = do {
     r \<leftarrow> find_cli st (-1) (my @ [a]);
     if r = None then Some (my @ [a]) else find_best_words st (my @ [a]) as
   }"

definition find_best :: "cli \<Rightarrow> string list \<Rightarrow> string option" where
  "find_best st argv = do { ws \<leftarrow> find_best_words st [] argv; Some (join 80 ws False) }"

definition run_command :: "cli_external \<Rightarrow> cli_ref \<Rightarrow> string list \<Rightarrow> cli \<Rightarrow> cli option" where
  "run_command ext r argv st = do {
     st \<leftarrow> upd_entry r (\<lambda>e. e\<lparr>inuse := inuse e + 1\<rparr>) st;
     e \<leftarrow> get_entry st r;
     (res, st) \<leftarrow> call_handler ext e argv st;
     st \<leftarrow> (if res = RESULT_SHOWUSAGE then do {
              e \<leftarrow> get_entry st r;
              Some (ast_cli (case usage e of Some u \<Rightarrow> u
                             | None \<Rightarrow> ''Invalid usage, but no usage information available.'' @ [NL]) st)
            }
            else Some st);
     upd_entry r (\<lambda>e. e\<lparr>inuse := inuse e - 1\<rparr>) st
   }"

definition ast_cli_command :: "cli_external \<Rightarrow> string \<Rightarrow> cli \<Rightarrow> cli option" where
  "ast_cli_command ext s st =
     (let (buf, offs, tws) = parse_args AST_MAX_ARGS s; argv = argv_of buf offs
      in if argv = [] then Some st
         else do {
           r \<leftarrow> find_cli st 0 argv;
           case r of
             Some r \<Rightarrow> run_command ext r argv st
           | None \<Rightarrow> do {
               b \<leftarrow> find_best st argv;
               Some (ast_cli (''No such command '' @ [CHR 0x27] @ b @ [CHR 0x27] @ '' (type '' @ [CHR 0x27] @ ''help'' @ [CHR 0x27] @ '' for help)'' @ [NL]) st)
             }
         })"

end
