(* ===== verification/Cli_Table.thy ===== *)
theory Cli_Table
  imports Cli
begin

text \<open>
  The table of commands of \<open>Cli\<close>: the entries reachable from \<open>helpers\<close> form a list, and what
  finding, registering and removing a command do to this list.
\<close>

section \<open>Linked entries\<close>

fun chain :: "cli_heap \<Rightarrow> nat option \<Rightarrow> nat list \<Rightarrow> nat option \<Rightarrow> bool" where
  "chain h p [] q = (p = q)"
| "chain h p (i # is) q = (p = Some i \<and> (\<exists>e. h i = Some e \<and> chain h (cnext e) is q))"

lemma chain_append: "chain h p (xs @ ys) q \<longleftrightarrow> (\<exists>r. chain h p xs r \<and> chain h r ys q)"
  by (induction xs arbitrary: p) auto

lemma chain_upd: "i \<notin> set xs \<Longrightarrow> chain (h(i := v)) p xs q = chain h p xs q"
  by (induction xs arbitrary: p) auto

lemma chain_snoc: "chain h p (xs @ [l]) q \<longleftrightarrow> chain h p xs (Some l) \<and> (\<exists>e. h l = Some e \<and> cnext e = q)"
  by (auto simp: chain_append)

lemma chain_in_heap: "chain h p xs q \<Longrightarrow> i \<in> set xs \<Longrightarrow> \<exists>e. h i = Some e"
  by (induction xs arbitrary: p) auto

lemma chain_unique: "chain h p xs None \<Longrightarrow> chain h p ys None \<Longrightarrow> xs = ys"
proof (induction xs arbitrary: p ys)
  case Nil
  then show ?case by (cases ys) auto
next
  case (Cons x xs)
  then show ?case by (cases ys) auto
qed

lemma chain_distinct: "chain h p xs None \<Longrightarrow> distinct xs"
proof (induction xs arbitrary: p)
  case (Cons x xs)
  then obtain e where e: "h x = Some e" "chain h (cnext e) xs None" by auto
  have "x \<notin> set xs"
  proof
    assume "x \<in> set xs"
    then obtain us vs where "xs = us @ x # vs" by (auto simp: in_set_conv_decomp)
    then have "chain h (Some x) (x # vs) None" using e(2) by (auto simp: chain_append)
    moreover have "chain h (Some x) (x # xs) None" using e by simp
    ultimately have "x # vs = x # xs" by (rule chain_unique)
    then show False using \<open>xs = us @ x # vs\<close> by auto
  qed
  then show ?case using Cons.IH e(2) by simp
qed simp

text \<open>Two states that differ in the links only.\<close>

definition unlinked :: "cli_entry \<Rightarrow> cli_entry" where
  "unlinked e = e\<lparr>cnext := None\<rparr>"

definition relinked :: "cli \<Rightarrow> cli \<Rightarrow> bool" where
  "relinked st st' \<longleftrightarrow> (\<forall>i. map_option unlinked (cli_heap st' i) = map_option unlinked (cli_heap st i)) \<and>
     cli_free st' = cli_free st \<and> cli_builtins st' = cli_builtins st \<and> cli_out st' = cli_out st"

lemma relinked_refl [simp]: "relinked st st"
  by (simp add: relinked_def)

lemma relinked_upd:
  assumes "cli_heap st i = Some e"
  shows "relinked st (st\<lparr>cli_heap := (cli_heap st)(i \<mapsto> e\<lparr>cnext := p\<rparr>)\<rparr>)"
  using assms by (auto simp: relinked_def unlinked_def)

lemma relinked_trans: "relinked a b \<Longrightarrow> relinked b c \<Longrightarrow> relinked a c"
  by (simp add: relinked_def)

lemma relinked_helpers: "relinked a b \<Longrightarrow> relinked a (b\<lparr>helpers := p\<rparr>)"
  by (simp add: relinked_def)

lemma relinked_entry:
  assumes "relinked st st'" "cli_heap st i = Some e"
  obtains p where "cli_heap st' i = Some (e\<lparr>cnext := p\<rparr>)"
proof -
  have "map_option unlinked (cli_heap st' i) = Some (unlinked e)" using assms by (simp add: relinked_def)
  then obtain e' where e': "cli_heap st' i = Some e'" "unlinked e' = unlinked e" by auto
  have "e' = (unlinked e')\<lparr>cnext := cnext e'\<rparr>" by (simp add: unlinked_def)
  also have "\<dots> = e\<lparr>cnext := cnext e'\<rparr>" unfolding e'(2) by (simp add: unlinked_def)
  finally show thesis using that e'(1) by metis
qed

lemma relinked_None: "relinked st st' \<Longrightarrow> cli_heap st' i = None \<longleftrightarrow> cli_heap st i = None"
  unfolding relinked_def by (metis map_option_is_None)

lemma upd_helper: "cli_heap st i = Some e \<Longrightarrow>
    upd_entry (Helper i) f st = Some (st\<lparr>cli_heap := (cli_heap st)(i \<mapsto> f e)\<rparr>)"
  by (simp add: upd_entry_def get_entry_def)

section \<open>Finding a command\<close>

definition folded :: "string list \<Rightarrow> nat list list" where
  "folded ws = map fold_case ws"

lemma words_match_iff:
  "words_match 1 cs ws \<longleftrightarrow> folded cs = folded ws"
  "words_match 0 cs ws \<longleftrightarrow> prefix (folded ws) (folded cs)"
  "words_match (- 1) cs ws \<longleftrightarrow> prefix (folded cs) (folded ws)"
proof -
  show "words_match 1 cs ws \<longleftrightarrow> folded cs = folded ws"
    by (induction "1 :: int" cs ws rule: words_match.induct) (auto simp: folded_def c_strcasecmp_0)
  show "words_match 0 cs ws \<longleftrightarrow> prefix (folded ws) (folded cs)"
    by (induction "0 :: int" cs ws rule: words_match.induct) (auto simp: folded_def c_strcasecmp_0)
  show "words_match (- 1) cs ws \<longleftrightarrow> prefix (folded cs) (folded ws)"
    by (induction "- 1 :: int" cs ws rule: words_match.induct) (auto simp: folded_def c_strcasecmp_0)
qed

definition entry_words :: "cli \<Rightarrow> nat \<Rightarrow> string list" where
  "entry_words st i = cmda (the (cli_heap st i))"

lemma find_helper_chain:
  "chain h p is None \<Longrightarrow>
   find_helper h p exact cmds = Some (List.find (\<lambda>i. words_match exact cmds (cmda (the (h i)))) is)"
proof (induction "is" arbitrary: p)
  case Nil
  then show ?case by (simp add: find_helper.simps)
next
  case (Cons i "is")
  then show ?case by (subst find_helper.simps) auto
qed

lemma find_builtin_None: "find_builtin x es exact cmds = None \<longleftrightarrow> (\<forall>e \<in> set es. \<not> words_match exact cmds (cmda e))"
  by (induction es arbitrary: x) auto

lemma find_builtin_Some:
  "find_builtin x es exact cmds = Some k \<Longrightarrow> x \<le> k \<and> k - x < length es \<and> words_match exact cmds (cmda (es ! (k - x)))"
  by (induction es arbitrary: x) (fastforce split: if_splits simp: nth_Cons')+

lemma find_cli_chain:
  assumes "chain (cli_heap st) (helpers st) is None"
  shows "find_cli st exact cmds =
    Some (case List.find (\<lambda>i. words_match exact cmds (entry_words st i)) is of
            Some i \<Rightarrow> Some (Helper i)
          | None \<Rightarrow> map_option Builtin (find_builtin 0 (cli_builtins st) exact cmds))"
  by (simp add: find_cli_def find_helper_chain [OF assms] entry_words_def)

section \<open>Registering\<close>

text \<open>The place of a new command: before the first one whose words, written together, come later
  in the alphabet as far as both go.\<close>

definition before :: "string list \<Rightarrow> string list \<Rightarrow> bool" where
  "before ws vs \<longleftrightarrow> (let a = join2 80 ws; b = join2 80 vs in c_strncasecmp a b (min (length b) (length a)) < 0)"

fun insert_before :: "('a \<Rightarrow> bool) \<Rightarrow> 'a \<Rightarrow> 'a list \<Rightarrow> 'a list" where
  "insert_before P i [] = [i]"
| "insert_before P i (c # cs) = (if P c then i # c # cs else c # insert_before P i cs)"

lemma set_insert_before: "set (insert_before P i cs) = insert i (set cs)"
  by (induction cs) auto

lemma mset_insert_before: "mset (insert_before P i cs) = add_mset i (mset cs)"
  by (induction cs) auto

lemma distinct_map_insert_before: "distinct (map f (insert_before P i cs)) \<longleftrightarrow> f i \<notin> f ` set cs \<and> distinct (map f cs)"
  by (induction cs) (auto simp: set_insert_before)

definition lastp :: "nat list \<Rightarrow> nat option" where
  "lastp pre = (if pre = [] then None else Some (last pre))"

text \<open>Linking \<open>i\<close> between what was walked over and the rest.\<close>

lemma link_between:
  assumes ch: "chain (cli_heap st) (helpers st) pre cur" "chain (cli_heap st) cur rest None"
    and i: "cli_heap st i = Some e" "i \<notin> set pre" "i \<notin> set rest" and d: "distinct (pre @ rest)"
  obtains st' where "(case lastp pre of
        Some l \<Rightarrow> do { st \<leftarrow> upd_entry (Helper i) (\<lambda>e. e\<lparr>cnext := cur\<rparr>) st; upd_entry (Helper l) (\<lambda>e. e\<lparr>cnext := Some i\<rparr>) st }
      | None \<Rightarrow> do { st \<leftarrow> upd_entry (Helper i) (\<lambda>e. e\<lparr>cnext := cur\<rparr>) st; Some (st\<lparr>helpers := Some i\<rparr>) }) = Some st'"
    "chain (cli_heap st') (helpers st') (pre @ i # rest) None" "relinked st st'"
proof -
  let ?st = "st\<lparr>cli_heap := (cli_heap st)(i \<mapsto> e\<lparr>cnext := cur\<rparr>)\<rparr>"
  have u: "upd_entry (Helper i) (\<lambda>e. e\<lparr>cnext := cur\<rparr>) st = Some ?st" using i(1) by (rule upd_helper)
  have r: "relinked st ?st" using i(1) by (rule relinked_upd)
  show thesis
  proof (cases pre rule: rev_cases)
    case Nil
    show thesis
      by (rule that [of "?st\<lparr>helpers := Some i\<rparr>"])
        (use u r ch i(3) in \<open>simp_all add: Nil lastp_def chain_upd relinked_helpers\<close>)
  next
    case (snoc pre' l)
    obtain le where le: "cli_heap st l = Some le" using ch(1) by (auto simp: snoc chain_snoc)
    have li: "l \<noteq> i" using i(2) by (auto simp: snoc)
    let ?st' = "?st\<lparr>cli_heap := (cli_heap ?st)(l \<mapsto> le\<lparr>cnext := Some i\<rparr>)\<rparr>"
    have "upd_entry (Helper l) (\<lambda>e. e\<lparr>cnext := Some i\<rparr>) ?st = Some ?st'" using le li by (intro upd_helper) simp
    moreover have "relinked st ?st'" using relinked_trans [OF r relinked_upd] le li by simp
    moreover have "chain (cli_heap ?st') (helpers ?st') (pre @ i # rest) None"
      using ch i d le li by (simp add: snoc chain_append chain_upd chain_snoc)
    ultimately show thesis using that [of ?st'] u by (simp add: snoc lastp_def)
  qed
qed

lemma register_walk_chain:
  assumes "chain (cli_heap st) (helpers st) pre cur" "chain (cli_heap st) cur rest None"
    and "cli_heap st i = Some e" "i \<notin> set pre" "i \<notin> set rest" "distinct (pre @ rest)"
  shows "\<exists>st'. register_walk i (join2 80 (cmda e)) (lastp pre) cur st = Some st' \<and> relinked st st' \<and>
    chain (cli_heap st') (helpers st') (pre @ insert_before (\<lambda>c. before (cmda e) (entry_words st c)) i rest) None"
  using assms
proof (induction rest arbitrary: pre cur)
  case Nil
  have cur: "cur = None" using Nil.prems(2) by simp
  obtain st' where st': "(case lastp pre of
        Some l \<Rightarrow> do { st \<leftarrow> upd_entry (Helper i) (\<lambda>e. e\<lparr>cnext := cur\<rparr>) st; upd_entry (Helper l) (\<lambda>e. e\<lparr>cnext := Some i\<rparr>) st }
      | None \<Rightarrow> do { st \<leftarrow> upd_entry (Helper i) (\<lambda>e. e\<lparr>cnext := cur\<rparr>) st; Some (st\<lparr>helpers := Some i\<rparr>) }) = Some st'"
    "chain (cli_heap st') (helpers st') (pre @ [i]) None" "relinked st st'"
    by (rule link_between [OF Nil.prems])
  have "register_walk i (join2 80 (cmda e)) (lastp pre) cur st = Some st'"
  proof (cases "lastp pre")
    case None
    then show ?thesis using st'(1) Nil.prems(3)
      by (cases st) (simp add: register_walk.simps cur upd_entry_def get_entry_def)
  next
    case (Some l)
    then have l: "l \<in> set pre" by (auto simp: lastp_def split: if_splits)
    then obtain le where le: "cli_heap st l = Some le" using chain_in_heap [OF Nil.prems(1)] by blast
    have "l \<noteq> i" using l Nil.prems(4) by auto
    then show ?thesis using st'(1) Nil.prems(3) le Some
      by (simp add: register_walk.simps cur upd_entry_def get_entry_def fun_upd_twist)
  qed
  then show ?case using st' by simp
next
  case (Cons c rest)
  obtain ce where ce: "cur = Some c" "cli_heap st c = Some ce" "chain (cli_heap st) (cnext ce) rest None" using Cons.prems(2) by auto
  have w: "entry_words st c = cmda ce" using ce(2) by (simp add: entry_words_def)
  show ?case
  proof (cases "before (cmda e) (entry_words st c)")
    case True
    obtain st' where st': "(case lastp pre of
        Some l \<Rightarrow> do { st \<leftarrow> upd_entry (Helper i) (\<lambda>e. e\<lparr>cnext := cur\<rparr>) st; upd_entry (Helper l) (\<lambda>e. e\<lparr>cnext := Some i\<rparr>) st }
      | None \<Rightarrow> do { st \<leftarrow> upd_entry (Helper i) (\<lambda>e. e\<lparr>cnext := cur\<rparr>) st; Some (st\<lparr>helpers := Some i\<rparr>) }) = Some st'"
      "chain (cli_heap st') (helpers st') (pre @ i # c # rest) None" "relinked st st'"
      by (rule link_between [OF Cons.prems])
    have p: "lastp pre = None \<Longrightarrow> helpers st = cur" "lastp pre = Some l \<Longrightarrow> \<exists>le. cli_heap st l = Some le \<and> cnext le = cur" for l
      using Cons.prems(1) by (cases pre rule: rev_cases; auto simp: lastp_def chain_snoc)+
    have "register_walk i (join2 80 (cmda e)) (lastp pre) cur st = Some st'"
      using st'(1) ce True p by (cases "lastp pre") (auto simp: register_walk.simps [of i _ _ "Some c"] before_def w Let_def)
    then show ?thesis using st' True by simp
  next
    case False
    have ch: "chain (cli_heap st) (helpers st) (pre @ [c]) (cnext ce)" using Cons.prems(1) ce by (auto simp: chain_snoc)
    have "register_walk i (join2 80 (cmda e)) (lastp pre) cur st =
        register_walk i (join2 80 (cmda e)) (lastp (pre @ [c])) (cnext ce) st"
      using ce False by (subst register_walk.simps) (simp add: before_def w Let_def lastp_def)
    then show ?thesis using Cons.IH [OF ch ce(3) Cons.prems(3)] Cons.prems(4-6) False by simp
  qed
qed

section \<open>Removing\<close>

lemma unregister_walk_chain:
  assumes "chain (cli_heap st) (helpers st) pre cur" "chain (cli_heap st) cur rest None" "i \<notin> set pre" "distinct (pre @ rest)"
  shows "\<exists>st'. unregister_walk i (lastp pre) cur st = Some st' \<and> relinked st st' \<and>
    chain (cli_heap st') (helpers st')
      (pre @ (if \<exists>e. cli_heap st i = Some e \<and> inuse e = 0 then removeAll i rest else rest)) None"
  using assms
proof (induction rest arbitrary: pre cur)
  case Nil
  then show ?case by (auto simp: unregister_walk.simps chain_append)
next
  case (Cons c rest)
  obtain ce where ce: "cur = Some c" "cli_heap st c = Some ce" "chain (cli_heap st) (cnext ce) rest None" using Cons.prems(2) by auto
  show ?case
  proof (cases "i = c \<and> inuse ce = 0")
    case False
    have ch: "chain (cli_heap st) (helpers st) (pre @ [c]) (cnext ce)" using Cons.prems(1) ce by (auto simp: chain_snoc)
    have st: "unregister_walk i (lastp pre) cur st = unregister_walk i (lastp (pre @ [c])) (cnext ce) st"
      using ce False by (subst unregister_walk.simps) (auto simp: lastp_def)
    show ?thesis
    proof (cases "i = c")
      case True
      then have "i \<notin> set rest" "inuse ce \<noteq> 0" using Cons.prems(4) False by auto
      have k: "unregister_walk i l p st = Some st" if "chain (cli_heap st) p rest None" for l p
        using that \<open>i \<notin> set rest\<close>
        by (induction rest arbitrary: l p) (auto simp: unregister_walk.simps [of i _ None] unregister_walk.simps [of i _ "Some _"])
      have "unregister_walk i (lastp pre) cur st = Some st" unfolding st by (rule k [OF ce(3)])
      moreover have "chain (cli_heap st) (helpers st) (pre @ c # rest) None" using Cons.prems(1,2) by (auto simp: chain_append)
      ultimately show ?thesis using True \<open>inuse ce \<noteq> 0\<close> ce(2) by auto
    next
      case no: False
      have "i \<notin> set (pre @ [c])" "distinct ((pre @ [c]) @ rest)" using no Cons.prems(3,4) by auto
      from Cons.IH [OF ch ce(3) this] show ?thesis unfolding st using no by (cases "\<exists>e. cli_heap st i = Some e \<and> inuse e = 0") (simp_all only: append_assoc append_Cons append_Nil if_True if_False removeAll.simps)
    qed
  next
    case True
    then have ic: "i = c" and c: "c \<notin> set pre" "c \<notin> set rest" using Cons.prems(4) by auto
    have rm: "removeAll c rest = rest" using c(2) by simp
    have gone: "(if \<exists>e. cli_heap st i = Some e \<and> inuse e = 0 then removeAll i (c # rest) else c # rest) = rest"
      using True ce(2) rm by simp
    let ?drop = "\<lambda>st. st\<lparr>cli_heap := (cli_heap st)(c \<mapsto> ce\<lparr>cnext := None\<rparr>)\<rparr>"
    show ?thesis
    proof (cases pre rule: rev_cases)
      case Nil
      let ?st = "?drop (st\<lparr>helpers := cnext ce\<rparr>)"
      have "unregister_walk i (lastp pre) cur st = Some ?st"
        using True ce by (subst unregister_walk.simps) (simp add: Nil lastp_def upd_entry_def get_entry_def)
      moreover have "relinked st ?st" using ce(2) by (auto simp: relinked_def unlinked_def)
      moreover have "chain (cli_heap ?st) (helpers ?st) (pre @ rest) None" using ce(3) c(2) by (simp add: Nil chain_upd)
      ultimately show ?thesis unfolding gone by blast
    next
      case (snoc pre' l)
      obtain le where le: "cli_heap st l = Some le" using Cons.prems(1) by (auto simp: snoc chain_snoc)
      have lc: "l \<noteq> c" using c(1) by (auto simp: snoc)
      let ?st = "?drop (st\<lparr>cli_heap := (cli_heap st)(l \<mapsto> le\<lparr>cnext := cnext ce\<rparr>)\<rparr>)"
      have "unregister_walk i (lastp pre) cur st = Some ?st"
        using True ce le lc by (subst unregister_walk.simps) (simp add: snoc lastp_def upd_entry_def get_entry_def)
      moreover have "relinked st ?st" using ce(2) le by (auto simp: relinked_def unlinked_def)
      moreover have "chain (cli_heap ?st) (helpers ?st) (pre @ rest) None"
        using Cons.prems(1,4) ce(3) le lc c by (simp add: snoc chain_append chain_upd chain_snoc)
      ultimately show ?thesis unfolding gone by blast
    qed
  qed
qed

section \<open>The invariant\<close>

text \<open>The commands registered are the list \<open>is\<close>: no two have the same words, whatever their case,
  and none has the words of a built in one.  No entry is stored behind the free ones.\<close>

definition cli_ok :: "cli \<Rightarrow> nat list \<Rightarrow> bool" where
  "cli_ok st is \<longleftrightarrow> chain (cli_heap st) (helpers st) is None \<and> (\<forall>j \<ge> cli_free st. cli_heap st j = None) \<and>
     map cmda (cli_builtins st) = map cmda builtins \<and> distinct (map (\<lambda>i. folded (entry_words st i)) is) \<and>
     (\<forall>i \<in> set is. \<forall>b \<in> set builtins. folded (entry_words st i) \<noteq> folded (cmda b))"

lemma cli_ok_init: "cli_ok cli_init []"
  by (simp add: cli_ok_def cli_init_def)

lemma relinked_words:
  assumes "relinked st st'"
  shows "entry_words st' i = entry_words st i"
proof (cases "cli_heap st i")
  case None
  then have "cli_heap st' i = None" using relinked_None [OF assms] by simp
  with None show ?thesis by (simp add: entry_words_def)
next
  case (Some e)
  then obtain p where "cli_heap st' i = Some (e\<lparr>cnext := p\<rparr>)" by (rule relinked_entry [OF assms])
  then show ?thesis using Some by (simp add: entry_words_def)
qed

text \<open>A command is in the list once, and in memory.\<close>

lemma cli_ok_entry: "cli_ok st is \<Longrightarrow> i \<in> set is \<Longrightarrow> \<exists>e. cli_heap st i = Some e"
  using chain_in_heap by (auto simp: cli_ok_def)

lemma cli_ok_distinct: "cli_ok st is \<Longrightarrow> distinct is"
  by (simp add: cli_ok_def distinct_map)

lemma cli_ok_find: "cli_ok st is \<Longrightarrow> find_cli st exact cmds =
    Some (case List.find (\<lambda>i. words_match exact cmds (entry_words st i)) is of
            Some i \<Rightarrow> Some (Helper i)
          | None \<Rightarrow> map_option Builtin (find_builtin 0 (cli_builtins st) exact cmds))"
  by (rule find_cli_chain) (simp add: cli_ok_def)

lemma builtins_words: "cli_ok st is \<Longrightarrow> b \<in> set (cli_builtins st) \<Longrightarrow> cmda b \<in> cmda ` set builtins"
  unfolding cli_ok_def by (metis image_eqI list.set_map)

text \<open>What is found is a command that is registered, or built in.\<close>

lemma cli_ok_found:
  assumes "cli_ok st is" "find_cli st exact cmds = Some (Some r)"
  obtains e where "get_entry st r = Some e" "words_match exact cmds (cmda e)" "\<And>i. r = Helper i \<Longrightarrow> i \<in> set is"
proof (cases r)
  case (Helper i)
  then have "List.find (\<lambda>i. words_match exact cmds (entry_words st i)) is = Some i"
    using assms(2) by (auto simp: cli_ok_find [OF assms(1)] split: option.splits)
  then have "i \<in> set is" "words_match exact cmds (entry_words st i)" by (auto simp: find_Some_iff)
  then show thesis using that cli_ok_entry [OF assms(1)] by (fastforce simp: Helper get_entry_def entry_words_def)
next
  case (Builtin k)
  then have "find_builtin 0 (cli_builtins st) exact cmds = Some k"
    using assms(2) by (auto simp: cli_ok_find [OF assms(1)] split: option.splits)
  from find_builtin_Some [OF this] show thesis using that by (simp add: Builtin get_entry_def peek_def)
qed

lemma cli_ok_relinked:
  assumes "cli_ok st is" "relinked st st'" "chain (cli_heap st') (helpers st') is' None"
    and "distinct (map (\<lambda>i. folded (entry_words st i)) is')"
    and "\<forall>i \<in> set is' - set is. \<forall>b \<in> set builtins. folded (entry_words st i) \<noteq> folded (cmda b)"
  shows "cli_ok st' is'"
proof -
  have "\<forall>j \<ge> cli_free st'. cli_heap st' j = None" "map cmda (cli_builtins st') = map cmda builtins"
    using assms(1,2) relinked_None [OF assms(2)] by (auto simp: cli_ok_def relinked_def)
  moreover have "\<forall>i \<in> set is'. \<forall>b \<in> set builtins. folded (entry_words st i) \<noteq> folded (cmda b)"
    using assms(1,5) unfolding cli_ok_def by blast
  ultimately show ?thesis using assms(3,4) by (simp add: cli_ok_def relinked_words [OF assms(2)])
qed

lemma register_ok:
  assumes "cli_ok st is" "cli_heap st i = Some e"
  shows "\<exists>res st' is'. ast_cli_register i st = Some (res, st') \<and> cli_ok st' is' \<and> relinked st st' \<and>
    (if \<exists>c \<in> cmda ` set builtins \<union> entry_words st ` set is. prefix (folded (cmda e)) (folded c)
     then res = -1 \<and> is' = is else res = 0 \<and> is' = insert_before (\<lambda>c. before (cmda e) (entry_words st c)) i is)"
proof -
  let ?P = "\<exists>c \<in> cmda ` set builtins \<union> entry_words st ` set is. prefix (folded (cmda e)) (folded c)"
  have b: "cmda ` set (cli_builtins st) = cmda ` set builtins" using assms(1) unfolding cli_ok_def by (metis list.set_map)
  obtain r where r: "find_cli st (-1) (cmda e) = Some r" using cli_ok_find [OF assms(1)] by blast
  have "r = None \<longleftrightarrow> (\<forall>i \<in> set is. \<not> words_match (-1) (cmda e) (entry_words st i)) \<and>
      (\<forall>b \<in> set (cli_builtins st). \<not> words_match (-1) (cmda e) (cmda b))"
    using r by (auto simp: cli_ok_find [OF assms(1)] find_None_iff find_Some_iff find_builtin_None split: option.splits)
  also have "\<dots> \<longleftrightarrow> \<not> ?P" unfolding b [symmetric] by (auto simp: words_match_iff)
  finally have r_iff: "r = None \<longleftrightarrow> \<not> ?P" .
  show ?thesis
  proof (cases r)
    case (Some x)
    then show ?thesis using assms r r_iff by (auto simp: ast_cli_register_def)
  next
    case None
    have no: "\<not> prefix (folded (cmda e)) (folded c)" if "c \<in> cmda ` set builtins \<union> entry_words st ` set is" for c
      using r_iff None that by blast
    have w: "entry_words st i = cmda e" using assms(2) by (simp add: entry_words_def)
    have i: "i \<notin> set is" using no w by (metis UnI2 imageI prefix_order.refl)
    obtain st' where st': "register_walk i (join2 80 (cmda e)) None (helpers st) st = Some st'" "relinked st st'"
      "chain (cli_heap st') (helpers st') (insert_before (\<lambda>c. before (cmda e) (entry_words st c)) i is) None"
      using register_walk_chain [of st "[]" "helpers st" "is" i e] assms i cli_ok_distinct [OF assms(1)]
      by (auto simp: cli_ok_def lastp_def)
    have "cli_ok st' (insert_before (\<lambda>c. before (cmda e) (entry_words st c)) i is)"
    proof (rule cli_ok_relinked [OF assms(1) st'(2,3)])
      have "folded (cmda e) \<noteq> folded (entry_words st c)" if "c \<in> set is" for c using no [of "entry_words st c"] that by auto
      then show "distinct (map (\<lambda>i. folded (entry_words st i)) (insert_before (\<lambda>c. before (cmda e) (entry_words st c)) i is))"
        using assms(1) by (auto simp: distinct_map_insert_before w cli_ok_def)
      show "\<forall>j \<in> set (insert_before (\<lambda>c. before (cmda e) (entry_words st c)) i is) - set is.
          \<forall>b \<in> set builtins. folded (entry_words st j) \<noteq> folded (cmda b)"
        using no by (force simp: set_insert_before w)
    qed
    then show ?thesis using assms(2) r r_iff None st' by (auto simp: ast_cli_register_def)
  qed
qed

lemma unregister_ok:
  assumes "cli_ok st is"
  shows "\<exists>st' is'. ast_cli_unregister i st = Some (0, st') \<and> cli_ok st' is' \<and> relinked st st' \<and>
    is' = (if \<exists>e. cli_heap st i = Some e \<and> inuse e = 0 then removeAll i is else is)"
proof -
  let ?is = "if \<exists>e. cli_heap st i = Some e \<and> inuse e = 0 then removeAll i is else is"
  obtain st' where st': "unregister_walk i None (helpers st) st = Some st'" "relinked st st'"
    "chain (cli_heap st') (helpers st') ?is None"
    using unregister_walk_chain [of st "[]" "helpers st" "is" i] assms cli_ok_distinct [OF assms]
    by (auto simp: cli_ok_def lastp_def)
  have "set ?is \<subseteq> set is" "distinct (map f ?is)" if "distinct (map f is)" for f :: "nat \<Rightarrow> nat list list"
    using that by (auto simp: removeAll_filter_not_eq distinct_map_filter)
  then have "cli_ok st' ?is" using assms by (intro cli_ok_relinked [OF assms st'(2,3)]) (auto simp: cli_ok_def)
  then show ?thesis using st' by (auto simp: ast_cli_unregister_def)
qed

end
