(* ===== verification/Cli_Run.thy ===== *)
theory Cli_Run
  imports Cli_Table
begin

text \<open>
  Properties of the command line driver: looking commands up, running them, and help.
\<close>

section \<open>Looking commands up\<close>

lemma find_exact:
  assumes "cli_ok st is" "i \<in> set is" "folded (entry_words st i) = folded ws"
  shows "find_cli st 1 ws = Some (Some (Helper i))"
proof -
  have inj: "inj_on (\<lambda>i. folded (entry_words st i)) (set is)" using assms(1) by (simp add: cli_ok_def distinct_map)
  have "find_cli st 1 ws \<noteq> None" by (simp add: cli_ok_find [OF assms(1)])
  have "List.find (\<lambda>i. words_match 1 ws (entry_words st i)) is = Some i"
  proof (cases "List.find (\<lambda>i. words_match 1 ws (entry_words st i)) is")
    case None
    then show ?thesis using assms(2,3) by (auto simp: find_None_iff words_match_iff)
  next
    case (Some j)
    then have "j \<in> set is" "folded (entry_words st j) = folded ws" by (auto simp: find_Some_iff words_match_iff)
    then have "j = i" using inj_onD [OF inj, of j i] assms(2,3) by simp
    then show ?thesis using Some by simp
  qed
  then show ?thesis by (simp add: cli_ok_find [OF assms(1)])
qed

lemma find_builtin_cmda: "map cmda es = map cmda fs \<Longrightarrow> find_builtin x es exact ws = find_builtin x fs exact ws"
proof (induction es arbitrary: fs x)
  case (Cons e es)
  then obtain f fs' where "fs = f # fs'" "cmda f = cmda e" "map cmda es = map cmda fs'" by (cases fs) auto
  then show ?case using Cons.IH by simp
qed simp

lemma find_exact_other:
  assumes "cli_ok st is" "\<forall>i \<in> set is. folded (entry_words st i) \<noteq> folded ws"
  shows "find_cli st 1 ws = Some (map_option Builtin (find_builtin 0 builtins 1 ws))"
proof -
  have "List.find (\<lambda>i. words_match 1 ws (entry_words st i)) is = None" using assms(2) by (auto simp: find_None_iff words_match_iff)
  moreover have "find_builtin 0 (cli_builtins st) 1 ws = find_builtin 0 builtins 1 ws"
    by (rule find_builtin_cmda) (use assms(1) in \<open>simp add: cli_ok_def\<close>)
  ultimately show ?thesis by (simp add: cli_ok_find [OF assms(1)])
qed

text \<open>The same commands, found before, are found after.\<close>

lemma find_exact_same:
  assumes "cli_ok st is" "cli_ok st' is'" "set is - {i} = set is' - {i}" "\<forall>j. entry_words st' j = entry_words st j"
    and "folded (entry_words st i) \<noteq> folded ws"
  shows "find_cli st' 1 ws = find_cli st 1 ws"
proof (cases "\<exists>j \<in> set is. folded (entry_words st j) = folded ws")
  case True
  then obtain j where j: "j \<in> set is" "folded (entry_words st j) = folded ws" by blast
  have "j \<in> set is'" using j assms(3,5) by auto
  then show ?thesis using find_exact [OF assms(1) j] find_exact [OF assms(2), of j ws] j(2) assms(4) by simp
next
  case False
  then have "\<forall>j \<in> set is'. folded (entry_words st' j) \<noteq> folded ws" using assms(3,4,5) by auto
  then show ?thesis using False find_exact_other [OF assms(1), of ws] find_exact_other [OF assms(2), of ws] by auto
qed

section \<open>Running operations\<close>

text \<open>What the application has to observe: it registers entries that are in memory and frees none
  that is in use.\<close>

fun op_ok :: "cli_op \<Rightarrow> cli \<Rightarrow> bool" where
  "op_ok (Op_register i) st = (cli_heap st i \<noteq> None)"
| "op_ok (Op_free i) st = (case cli_heap st i of None \<Rightarrow> True | Some e \<Rightarrow> inuse e = 0)"
| "op_ok _ st = True"

fun ops_ok :: "cli_op list \<Rightarrow> cli \<Rightarrow> bool" where
  "ops_ok [] st = True"
| "ops_ok (op # ops) st = (op_ok op st \<and> (case run_op op st of None \<Rightarrow> False | Some st \<Rightarrow> ops_ok ops st))"

text \<open>The entries in use, without their links.\<close>

definition used :: "cli \<Rightarrow> nat \<Rightarrow> cli_entry option" where
  "used st i = do { e \<leftarrow> map_option unlinked (cli_heap st i); if inuse e \<noteq> 0 then Some e else None }"

definition keeps_used :: "cli \<Rightarrow> cli \<Rightarrow> bool" where
  "keeps_used st st' \<longleftrightarrow> cli_builtins st' = cli_builtins st \<and> used st' = used st"

lemma keeps_used_refl [simp]: "keeps_used st st"
  by (simp add: keeps_used_def)

lemma keeps_used_trans: "keeps_used a b \<Longrightarrow> keeps_used b c \<Longrightarrow> keeps_used a c"
  by (simp add: keeps_used_def)

lemma relinked_keeps: "relinked st st' \<Longrightarrow> keeps_used st st'"
  by (simp add: keeps_used_def used_def relinked_def fun_eq_iff)

lemma used_simps: "cli_heap st i = None \<Longrightarrow> used st i = None"
  "cli_heap st i = Some e \<Longrightarrow> used st i = (if inuse e \<noteq> 0 then Some (unlinked e) else None)"
  by (simp_all add: used_def unlinked_def)

lemma alloc_ok:
  assumes "cli_ok st is"
  shows "cli_ok (alloc_entry e st) is \<and> keeps_used st (alloc_entry e st)"
proof -
  let ?st = "alloc_entry e st"
  have f: "cli_heap ?st = (cli_heap st)(cli_free st \<mapsto> e\<lparr>cnext := None, inuse := 0\<rparr>)" "helpers ?st = helpers st"
    "cli_free ?st = cli_free st + 1" "cli_builtins ?st = cli_builtins st" by (simp_all add: alloc_entry_def)
  have new: "cli_free st \<notin> set is" using assms cli_ok_entry [OF assms, of "cli_free st"] by (auto simp: cli_ok_def)
  then have w: "entry_words ?st i = entry_words st i" if "i \<in> set is" for i using that by (auto simp: entry_words_def f)
  then have m: "map (\<lambda>i. folded (entry_words ?st i)) is = map (\<lambda>i. folded (entry_words st i)) is" by simp
  have "distinct (map (\<lambda>i. folded (entry_words ?st i)) is)" unfolding m using assms by (simp add: cli_ok_def)
  then have "cli_ok ?st is" using assms new w unfolding cli_ok_def by (simp add: f chain_upd)
  moreover have "cli_heap st (cli_free st) = None" using assms by (simp add: cli_ok_def)
  then have "keeps_used st ?st" by (auto simp: keeps_used_def used_def f unlinked_def fun_eq_iff)
  ultimately show ?thesis by simp
qed

lemma free_ok:
  assumes "cli_ok st is" "case cli_heap st i of None \<Rightarrow> True | Some e \<Rightarrow> inuse e = 0"
  shows "\<exists>st'. free_entry i st = Some st' \<and> cli_ok st' (removeAll i is) \<and> keeps_used st st'"
proof (cases "cli_heap st i")
  case None
  then have "i \<notin> set is" using cli_ok_entry [OF assms(1), of i] by auto
  then have "removeAll i is = is" by simp
  then show ?thesis using None assms(1) by (simp add: free_entry_def)
next
  case (Some e)
  then obtain st' where st': "ast_cli_unregister i st = Some (0, st')" "cli_ok st' (removeAll i is)" "relinked st st'"
    using unregister_ok [OF assms(1), of i] assms(2) by auto
  let ?st = "st'\<lparr>cli_heap := (cli_heap st')(i := None)\<rparr>"
  have w: "entry_words ?st j = entry_words st' j" if "j \<noteq> i" for j using that by (simp add: entry_words_def)
  then have m: "map (\<lambda>j. folded (entry_words ?st j)) (removeAll i is) = map (\<lambda>j. folded (entry_words st' j)) (removeAll i is)" by simp
  have "distinct (map (\<lambda>j. folded (entry_words ?st j)) (removeAll i is))" unfolding m using st'(2) by (simp add: cli_ok_def)
  then have "cli_ok ?st (removeAll i is)" using st'(2) w unfolding cli_ok_def by (simp add: chain_upd)
  moreover have "used st i = None" using Some assms(2) by (simp add: used_simps)
  then have "keeps_used st ?st" using relinked_keeps [OF st'(3)] by (auto simp: keeps_used_def used_def fun_eq_iff)
  ultimately show ?thesis using st'(1) Some by (simp add: free_entry_def)
qed

lemma run_op_ok:
  assumes "cli_ok st is" "op_ok op st"
  shows "\<exists>st' is'. run_op op st = Some st' \<and> cli_ok st' is' \<and> keeps_used st st'"
proof (cases op)
  case (Op_print s)
  then show ?thesis using assms(1) by (auto simp: ast_cli_def cli_ok_def keeps_used_def used_def entry_words_def fun_eq_iff)
next
  case (Op_new e)
  then show ?thesis using alloc_ok [OF assms(1)] by auto
next
  case (Op_register i)
  then obtain e where "cli_heap st i = Some e" using assms(2) by auto
  from register_ok [OF assms(1) this] obtain res st' is' where "ast_cli_register i st = Some (res, st')" "cli_ok st' is'" "relinked st st'"
    by blast
  then show ?thesis using relinked_keeps by (auto simp: Op_register)
next
  case (Op_unregister i)
  obtain st' is' where "ast_cli_unregister i st = Some (0, st')" "cli_ok st' is'" "relinked st st'"
    using unregister_ok [OF assms(1), of i] by blast
  then show ?thesis using relinked_keeps by (auto simp: Op_unregister)
next
  case (Op_free i)
  then show ?thesis using free_ok [OF assms(1), of i] assms(2) by auto
qed

lemma run_ops_ok:
  "cli_ok st is \<Longrightarrow> ops_ok ops st \<Longrightarrow> \<exists>st' is'. run_ops ops st = Some st' \<and> cli_ok st' is' \<and> keeps_used st st'"
proof (induction ops arbitrary: st "is")
  case Nil
  then show ?case by auto
next
  case (Cons op ops)
  have "op_ok op st" using Cons.prems(2) by simp
  from run_op_ok [OF Cons.prems(1) this] obtain st1 is1 where st1: "run_op op st = Some st1" "cli_ok st1 is1" "keeps_used st st1" by blast
  have "ops_ok ops st1" using Cons.prems(2) st1(1) by simp
  from Cons.IH [OF st1(2) this] obtain st2 is2 where st2: "run_ops ops st1 = Some st2" "cli_ok st2 is2" "keeps_used st1 st2" by blast
  show ?case using st1(1) st2(1,2) keeps_used_trans [OF st1(3) st2(3)] by auto
qed

section \<open>Help\<close>

definition help_shown :: "string option \<Rightarrow> cli_entry \<Rightarrow> bool" where
  "help_shown mt e \<longleftrightarrow> (let f = join 80 (cmda e) False
     in \<not> (f \<noteq> [] \<and> hd f = CHR ''_'') \<and> (case mt of None \<Rightarrow> True | Some m \<Rightarrow> prefix (fold_case m) (fold_case f)))"

definition help_text :: "cli_entry \<Rightarrow> string" where
  "help_text e = help_line (join 80 (cmda e) False) e"

lemma help_entry_shown:
  "help_entry mt (join 80 (cmda e) False) e st = (if help_shown mt e then ast_cli (help_text e) st else st)"
  by (simp add: help_entry_def help_shown_def help_text_def Let_def c_strncasecmp_prefix split: option.splits)

lemma help_walk_lines:
  "chain (cli_heap st) e2 is None \<Longrightarrow>
   \<exists>lines. help_walk mt e1 e2 st = Some (st\<lparr>cli_out := cli_out st @ lines\<rparr>) \<and>
     mset lines = mset (map help_text (filter (help_shown mt) (e1 @ map (\<lambda>i. the (cli_heap st i)) is)))"
proof (induction "length e1 + length is" arbitrary: e1 e2 "is" st rule: less_induct)
  case less
  have step: "\<exists>lines. help_walk mt e1' e2' (help_entry mt (join 80 (cmda e) False) e st) = Some (st\<lparr>cli_out := cli_out st @ lines\<rparr>) \<and>
      mset lines = mset (map help_text (filter (help_shown mt) (e # e1' @ map (\<lambda>i. the (cli_heap st i)) is')))"
    if ch: "chain (cli_heap st) e2' is' None" and less: "length e1' + length is' < length e1 + length is" for e e1' e2' is'
  proof -
    let ?st = "help_entry mt (join 80 (cmda e) False) e st"
    have h: "cli_heap ?st = cli_heap st" by (simp add: help_entry_shown ast_cli_def)
    obtain lines where "help_walk mt e1' e2' ?st = Some (?st\<lparr>cli_out := cli_out ?st @ lines\<rparr>)"
      "mset lines = mset (map help_text (filter (help_shown mt) (e1' @ map (\<lambda>i. the (cli_heap st i)) is')))"
      using less.hyps [OF less, of ?st e2'] ch unfolding h by blast
    then show ?thesis
      by (intro exI [of _ "(if help_shown mt e then [help_text e] else []) @ lines"]) (simp add: help_entry_shown ast_cli_def)
  qed
  show ?case
  proof (cases "is")
    case Nil
    then have e2: "e2 = None" using less.prems by simp
    show ?thesis
    proof (cases e1)
      case Nil
      then show ?thesis using \<open>is = []\<close> e2 by (intro exI [of _ "[]"]) (simp add: help_walk.simps)
    next
      case (Cons b bs)
      then show ?thesis using step [of None "[]" bs b] \<open>is = []\<close> e2 by (subst help_walk.simps) simp
    qed
  next
    case (Cons i is')
    then obtain e where e: "e2 = Some i" "cli_heap st i = Some e" "chain (cli_heap st) (cnext e) is' None" using less.prems by auto
    show ?thesis
    proof (cases "\<exists>b bs. e1 = b # bs \<and> \<not> c_strcmp (join 80 (cmda e) False) (join 80 (cmda b) False) < 0")
      case True
      then obtain b bs where b: "e1 = b # bs" "\<not> c_strcmp (join 80 (cmda e) False) (join 80 (cmda b) False) < 0" by blast
      have "help_walk mt e1 e2 st = help_walk mt bs e2 (help_entry mt (join 80 (cmda b) False) b st)"
        using b e by (subst help_walk.simps) (simp add: Let_def)
      then show ?thesis using step [OF less.prems, of bs b] b(1) by simp
    next
      case False
      have "help_walk mt e1 e2 st = help_walk mt e1 (cnext e) (help_entry mt (join 80 (cmda e) False) e st)"
        using False e by (subst help_walk.simps) (cases e1; simp add: Let_def)
      then show ?thesis using step [OF e(3), of e1 e] Cons e(2) by (cases "help_shown mt e") simp_all
    qed
  qed
qed

lemma handle_help_ok:
  assumes "cli_ok st is"
  shows "\<exists>res out. handle_help argv st = Some (res, st\<lparr>cli_out := out\<rparr>)"
proof -
  have ch: "chain (cli_heap st) (helpers st) is None" using assms by (simp add: cli_ok_def)
  have w: "\<exists>out. help_workhorse mt st = Some (0, st\<lparr>cli_out := out\<rparr>)" for mt
    using help_walk_lines [OF ch, of "map_option (\<lambda>m. join 80 m False) mt" "cli_builtins st"] by (auto simp: help_workhorse_def)
  have f: "\<exists>r. find_cli st exact ws = Some r \<and> (\<forall>x. r = Some x \<longrightarrow> get_entry st x \<noteq> None)" for exact ws
    using cli_ok_find [OF assms] cli_ok_found [OF assms] by (metis option.distinct(1))
  consider "length argv < 1" | "length argv = 1" | "length argv > 1" by linarith
  then show ?thesis
  proof cases
    case 1
    then have "handle_help argv st = Some (RESULT_SHOWUSAGE, st\<lparr>cli_out := cli_out st\<rparr>)" by (simp add: handle_help_def)
    then show ?thesis by blast
  next
    case 2
    then show ?thesis using w [of None] by (auto simp: handle_help_def)
  next
    case 3
    obtain r where r: "find_cli st 1 (tl argv) = Some r" "\<forall>x. r = Some x \<longrightarrow> get_entry st x \<noteq> None" using f by blast
    obtain r' where r': "find_cli st (-1) (tl argv) = Some r'" using f by blast
    show ?thesis using 3 r r' w [of "Some (tl argv)"]
      by (cases r; cases r') (auto simp: handle_help_def ast_cli_def)
  qed
qed

section \<open>Commands\<close>

text \<open>Between two commands no entry is in use.\<close>

definition idle :: "cli \<Rightarrow> bool" where
  "idle st \<longleftrightarrow> (\<forall>i. used st i = None)"

lemma upd_inuse:
  assumes "cli_ok st is" "get_entry st r = Some e"
  obtains st' where "upd_entry r (\<lambda>e. e\<lparr>inuse := f (inuse e)\<rparr>) st = Some st'" "cli_ok st' is"
    "get_entry st' r = Some (e\<lparr>inuse := f (inuse e)\<rparr>)" "\<And>i. r \<noteq> Helper i \<Longrightarrow> used st' i = used st i"
    "\<And>j. entry_words st' j = entry_words st j" "cli_out st' = cli_out st"
proof (cases r)
  case (Helper i)
  then have h: "cli_heap st i = Some e" using assms(2) by (simp add: get_entry_def)
  let ?st = "st\<lparr>cli_heap := (cli_heap st)(i \<mapsto> e\<lparr>inuse := f (inuse e)\<rparr>)\<rparr>"
  have c: "chain ((cli_heap st)(i \<mapsto> e\<lparr>inuse := n\<rparr>)) p xs q = chain (cli_heap st) p xs q" for n p xs q
    by (induction xs arbitrary: p) (auto simp: h)
  have w: "entry_words ?st j = entry_words st j" for j by (simp add: entry_words_def h)
  have "cli_ok ?st is" using assms(1) h unfolding cli_ok_def w by (auto simp: c)
  moreover have "used ?st j = used st j" if "j \<noteq> i" for j using that by (simp add: used_def)
  ultimately show thesis using that [of ?st] w h by (simp add: Helper upd_helper get_entry_def)
next
  case (Builtin k)
  then have k: "k < length (cli_builtins st)" "cli_builtins st ! k = e"
    using assms(2) by (auto simp: get_entry_def peek_def split: if_splits)
  let ?st = "st\<lparr>cli_builtins := (cli_builtins st)[k := e\<lparr>inuse := f (inuse e)\<rparr>]\<rparr>"
  have w: "entry_words ?st j = entry_words st j" for j by (simp add: entry_words_def)
  have "map cmda ((cli_builtins st)[k := e\<lparr>inuse := f (inuse e)\<rparr>]) = map cmda (cli_builtins st)"
    using k by (simp add: map_update list_update_same_conv)
  then have "cli_ok ?st is" using assms(1) unfolding cli_ok_def w by simp
  moreover have "used ?st j = used st j" for j by (simp add: used_def)
  ultimately show thesis using that [of ?st] w k by (simp add: Builtin upd_entry_def get_entry_def peek_def)
qed

text \<open>A handler may not free the entry of the command that runs.\<close>

definition polite :: "cli_external \<Rightarrow> bool" where
  "polite ext \<longleftrightarrow> (\<forall>k st is argv n m u. cli_ok st is \<longrightarrow> ops_ok (fst (ext k st argv n m u)) st)"

lemma call_handler_ok:
  assumes "cli_ok st is" "polite ext"
  shows "\<exists>res st' is'. call_handler ext e argv st = Some (res, st') \<and> cli_ok st' is' \<and> keeps_used st st'"
proof (cases "handler e")
  case Handle_help
  obtain res out where "handle_help argv st = Some (res, st\<lparr>cli_out := out\<rparr>)" using handle_help_ok [OF assms(1)] by blast
  moreover have "cli_ok (st\<lparr>cli_out := out\<rparr>) is" using assms(1) by (simp add: cli_ok_def entry_words_def)
  moreover have "keeps_used st (st\<lparr>cli_out := out\<rparr>)" by (simp add: keeps_used_def used_def fun_eq_iff)
  ultimately show ?thesis using Handle_help by (auto simp: call_handler_def)
next
  case (Handle_external k)
  obtain ops res where o: "ext k st argv (klkname e) (klkmsgid e) (klkmodnameused e) = (ops, res)" by (metis prod.exhaust)
  then have "ops_ok ops st" using assms unfolding polite_def by (metis fst_conv)
  from run_ops_ok [OF assms(1) this] show ?thesis using Handle_external o by (auto simp: call_handler_def)
qed

lemma run_command_ok:
  assumes "cli_ok st is" "idle st" "polite ext" "get_entry st r = Some e"
  shows "\<exists>st' is'. run_command ext r argv st = Some st' \<and> cli_ok st' is' \<and> idle st'"
proof -
  obtain st1 where st1: "upd_entry r (\<lambda>e. e\<lparr>inuse := inuse e + 1\<rparr>) st = Some st1" "cli_ok st1 is"
    "get_entry st1 r = Some (e\<lparr>inuse := inuse e + 1\<rparr>)" "\<And>i. r \<noteq> Helper i \<Longrightarrow> used st1 i = used st i"
    by (rule upd_inuse [OF assms(1,4)]) (rule that)
  let ?e = "e\<lparr>inuse := inuse e + 1\<rparr>"
  obtain res st2 is2 where st2: "call_handler ext ?e argv st1 = Some (res, st2)" "cli_ok st2 is2" "keeps_used st1 st2"
    using call_handler_ok [OF st1(2) assms(3)] by blast
  have "\<exists>e2. get_entry st2 r = Some e2 \<and> (\<forall>i. r = Helper i \<longrightarrow> inuse e2 = 1)"
  proof (cases r)
    case (Helper i)
    have h: "cli_heap st i = Some e" "cli_heap st1 i = Some ?e" using assms(4) st1(3) by (simp_all add: Helper get_entry_def)
    then have "inuse e = 0" using assms(2) used_simps(2) [OF h(1)] by (auto simp: idle_def split: if_splits)
    then have "used st2 i = Some (unlinked ?e)" using st2(3) used_simps(2) [OF h(2)] by (simp add: keeps_used_def)
    then obtain e2 where "cli_heap st2 i = Some e2" "unlinked e2 = unlinked ?e"
      by (auto simp: used_def split: if_splits bind_splits option.splits)
    moreover have "inuse (unlinked e2) = inuse e2" "inuse (unlinked ?e) = 1" using \<open>inuse e = 0\<close> by (simp_all add: unlinked_def)
    ultimately show ?thesis by (simp add: Helper get_entry_def)
  next
    case (Builtin k)
    then show ?thesis using st1(3) st2(3) by (simp add: get_entry_def keeps_used_def)
  qed
  then obtain e2 where e2: "get_entry st2 r = Some e2" "\<And>i. r = Helper i \<Longrightarrow> inuse e2 = 1" by blast
  define out where "out = (if res = RESULT_SHOWUSAGE then cli_out st2 @ [case usage e2 of Some u \<Rightarrow> u
                             | None \<Rightarrow> ''Invalid usage, but no usage information available.'' @ [NL]] else cli_out st2)"
  let ?st3 = "st2\<lparr>cli_out := out\<rparr>"
  have ok3: "cli_ok ?st3 is2" "get_entry ?st3 r = Some e2" "\<And>i. used ?st3 i = used st2 i"
    using st2(2) e2 by (simp_all add: cli_ok_def entry_words_def get_entry_def used_def split: cli_ref.splits)
  obtain st4 where st4: "upd_entry r (\<lambda>e. e\<lparr>inuse := inuse e - 1\<rparr>) ?st3 = Some st4" "cli_ok st4 is2"
    "get_entry st4 r = Some (e2\<lparr>inuse := inuse e2 - 1\<rparr>)" "\<And>i. r \<noteq> Helper i \<Longrightarrow> used st4 i = used ?st3 i"
    by (rule upd_inuse [OF ok3(1,2)]) (rule that)
  have "used st4 i = None" for i
  proof (cases "r = Helper i")
    case True
    then have "cli_heap st4 i = Some (e2\<lparr>inuse := 0\<rparr>)" using st4(3) e2(2) by (simp add: get_entry_def)
    then show ?thesis by (simp add: used_simps)
  next
    case False
    then show ?thesis using st4(4) ok3(3) st2(3) st1(4) assms(2) by (simp add: keeps_used_def idle_def)
  qed
  then have "idle st4" by (simp add: idle_def)
  moreover have "run_command ext r argv st = Some st4"
    using st1(1,3) st2(1) st4(1) e2(1) by (auto simp: run_command_def out_def ast_cli_def)
  ultimately show ?thesis using st4(2) by blast
qed

lemma find_best_ok: "cli_ok st is \<Longrightarrow> \<exists>ws. find_best_words st my argv = Some ws"
  by (induction argv arbitrary: my) (auto simp: cli_ok_find)

text \<open>Running a command line.\<close>

lemma command_ok:
  assumes "cli_ok st is" "idle st" "polite ext"
  shows "\<exists>st' is'. ast_cli_command ext s st = Some st' \<and> cli_ok st' is' \<and> idle st'"
proof -
  obtain buf offs tws where p: "parse_args AST_MAX_ARGS s = (buf, offs, tws)" by (metis prod_cases3)
  let ?argv = "argv_of buf offs"
  obtain r where r: "find_cli st 0 ?argv = Some r" using cli_ok_find [OF assms(1)] by blast
  show ?thesis
  proof (cases "?argv = []")
    case True
    then show ?thesis using assms p by (auto simp: ast_cli_command_def)
  next
    case ne: False
    show ?thesis
    proof (cases r)
      case None
      obtain ws where "find_best_words st [] ?argv = Some ws" using find_best_ok [OF assms(1)] by blast
      moreover have "cli_ok (ast_cli t st) is" "idle (ast_cli t st)" for t
        using assms(1,2) by (simp_all add: ast_cli_def cli_ok_def entry_words_def idle_def used_def)
      ultimately show ?thesis using ne p r None by (auto simp: ast_cli_command_def find_best_def)
    next
      case (Some x)
      obtain e where "get_entry st x = Some e" using cli_ok_found [OF assms(1)] r Some by metis
      from run_command_ok [OF assms this] show ?thesis using ne p r Some by (auto simp: ast_cli_command_def)
    qed
  qed
qed

section \<open>Properties\<close>

text \<open>C33: Registering a command: unless a command is registered, or built in, whose words go on from
  the new command's words, the new command is found by its words, whatever their case, and all other
  words find what they found before; otherwise nothing changes.\<close>

theorem cli_register_lookup:
  assumes "cli_ok st is" "cli_heap st i = Some e"
  shows "\<exists>res st'. ast_cli_register i st = Some (res, st') \<and>
    (if \<exists>c \<in> cmda ` set builtins \<union> entry_words st ` set is. prefix (folded (cmda e)) (folded c)
     then res = -1 \<and> (\<forall>ws. find_cli st' 1 ws = find_cli st 1 ws)
     else res = 0 \<and> (\<forall>ws. find_cli st' 1 ws =
       (if folded ws = folded (cmda e) then Some (Some (Helper i)) else find_cli st 1 ws)))"
proof -
  let ?clash = "\<exists>c \<in> cmda ` set builtins \<union> entry_words st ` set is. prefix (folded (cmda e)) (folded c)"
  obtain res st' is' where r: "ast_cli_register i st = Some (res, st')" "cli_ok st' is'" "relinked st st'"
    "if ?clash then res = -1 \<and> is' = is else res = 0 \<and> is' = insert_before (\<lambda>c. before (cmda e) (entry_words st c)) i is"
    using register_ok [OF assms] by blast
  have w: "\<forall>j. entry_words st' j = entry_words st j" using relinked_words [OF r(3)] by simp
  show ?thesis
  proof (cases ?clash)
    case True
    then have same: "is' = is" "res = -1" using r(4) by simp_all
    have "find_cli st' 1 ws = find_cli st 1 ws" for ws
    proof (cases "\<exists>j \<in> set is. folded (entry_words st j) = folded ws")
      case True
      then show ?thesis using find_exact [OF assms(1)] find_exact [OF r(2)] w same(1) by force
    next
      case False
      then show ?thesis using find_exact_other [OF assms(1), of ws] find_exact_other [OF r(2), of ws] w same(1) by simp
    qed
    then show ?thesis using r(1) True same(2) by auto
  next
    case False
    then have is': "res = 0" "set is' = insert i (set is)" using r(4) by (simp_all add: set_insert_before)
    have ei: "entry_words st i = cmda e" using assms(2) by (simp add: entry_words_def)
    have "find_cli st' 1 ws = (if folded ws = folded (cmda e) then Some (Some (Helper i)) else find_cli st 1 ws)" for ws
      using find_exact [OF r(2), of i ws] find_exact_same [OF assms(1) r(2) _ w, of i ws] is'(2) w ei by auto
    then show ?thesis using r(1) False is'(1) by auto
  qed
qed

definition example_entry :: "string list \<Rightarrow> cli_entry" where
  "example_entry ws = \<lparr>cmda = ws, handler = Handle_external 0, summary = ''example'', usage = None, generator = Generate_none,
     cnext = None, inuse = 0, klkname = None, klkmsgid = None, klkmodnameused = 0\<rparr>"

definition example_cli :: cli where
  "example_cli = alloc_entry (example_entry [''dvb'', ''scan'']) cli_init"

lemma example_cli_ok: "cli_ok example_cli []"
  using alloc_ok [OF cli_ok_init] by (simp add: example_cli_def)

lemma example_cli_entry: "cli_heap example_cli 0 = Some (example_entry [''dvb'', ''scan''])"
  by (simp add: example_cli_def alloc_entry_def cli_init_def example_entry_def)

theorem cli_register_lookup_witness:
  "\<exists>st'. ast_cli_register 0 example_cli = Some (0, st') \<and> find_cli st' 1 [''DVB'', ''Scan''] = Some (Some (Helper 0))"
proof -
  have n: "\<not> (\<exists>c \<in> cmda ` set builtins \<union> entry_words example_cli ` set []. prefix (folded [''dvb'', ''scan'']) (folded c))"
    by (simp add: builtins_def folded_def fold_case_def c_low_def c_tolower_def)
  have "folded [''DVB'', ''Scan''] = folded [''dvb'', ''scan'']"
    by (simp add: folded_def fold_case_def c_low_def c_tolower_def)
  then show ?thesis using cli_register_lookup [OF example_cli_ok example_cli_entry] n by (auto simp: example_entry_def)
qed

text \<open>A table with one command, and handlers, used in examples.\<close>

definition example_table :: cli where
  "example_table = example_cli\<lparr>helpers := Some 0\<rparr>"

lemma example_table_entry: "cli_heap example_table 0 = Some (example_entry [''dvb'', ''scan''])"
  using example_cli_entry by (simp add: example_table_def)

lemma example_table_words: "entry_words example_table 0 = [''dvb'', ''scan'']"
  by (simp add: entry_words_def example_table_entry example_entry_def)

lemma example_table_ok: "cli_ok example_table [0]"
proof -
  have "cnext (example_entry ws) = None" for ws by (simp add: example_entry_def)
  then have "chain (cli_heap example_table) (helpers example_table) [0] None"
    using example_table_entry by (simp add: example_table_def)
  moreover have "\<forall>j \<ge> cli_free example_table. cli_heap example_table j = None" "cli_builtins example_table = builtins"
    using example_cli_ok by (simp_all add: cli_ok_def example_table_def) (simp add: example_cli_def alloc_entry_def cli_init_def)
  ultimately show ?thesis
    by (simp add: cli_ok_def example_table_words) (simp add: folded_def builtins_def)
qed

lemma example_table_idle: "idle example_table"
  by (auto simp: idle_def used_def example_table_def example_cli_def alloc_entry_def cli_init_def unlinked_def)

definition removes_itself :: cli_external where
  "removes_itself k st argv name msgid modname = ([Op_free 0], 0)"

definition quiet :: cli_external where
  "quiet k st argv name msgid modname = ([Op_print ''done''], 0)"

lemma quiet_polite: "polite quiet"
  by (simp add: polite_def quiet_def)

lemma idle_init: "idle cli_init"
  by (simp add: idle_def cli_init_def used_def)

text \<open>C20: A command line runs the first command in the table whose words start the words of the
  line, whatever their case, and the handler gets the words as they were written, quotes and escapes
  removed.\<close>

theorem cli_dispatch:
  assumes "cli_ok st is" "good_line l" "white lead" "i \<in> set is"
    and "prefix (folded (entry_words st i)) (folded (take 15 (line_args l)))"
    and "\<forall>j \<in> set (takeWhile (\<lambda>j. j \<noteq> i) is). \<not> prefix (folded (entry_words st j)) (folded (take 15 (line_args l)))"
    and "l \<noteq> []"
  shows "ast_cli_command ext (lead @ line_text l) st = run_command ext (Helper i) (take 15 (line_args l)) st"
proof -
  obtain buf offs tws where p: "parse_args AST_MAX_ARGS (lead @ line_text l) = (buf, offs, tws)" by (metis prod_cases3)
  have argv: "argv_of buf offs = take 15 (line_args l)"
    using parse_args_line [OF assms(2,3) p] by (simp add: AST_MAX_ARGS_def)
  have ne: "take 15 (line_args l) \<noteq> []" using assms(7) by (simp add: line_args_def)
  have "is = takeWhile (\<lambda>j. j \<noteq> i) is @ i # tl (dropWhile (\<lambda>j. j \<noteq> i) is)"
    using assms(4) by (metis (mono_tags, lifting) append_self_conv dropWhile_eq_Nil_conv hd_Cons_tl hd_dropWhile takeWhile_dropWhile_id)
  then obtain ys where split: "is = takeWhile (\<lambda>j. j \<noteq> i) is @ i # ys" by blast
  have "List.find P (xs @ i # ys) = Some i" if "P i" "\<forall>j \<in> set xs. \<not> P j" for P xs
    using that by (induction xs) auto
  then have "List.find (\<lambda>j. words_match 0 (take 15 (line_args l)) (entry_words st j)) is = Some i"
    using assms(5,6) by (subst split) (simp add: words_match_iff)
  then show ?thesis using ne by (simp add: ast_cli_command_def p argv cli_ok_find [OF assms(1)])
qed

theorem cli_dispatch_witness:
  "ast_cli_command quiet ('' '' @ ''DVB'' @ '' '' @ ''Scan'' @ '' '' @ quote_word ''a b'') example_table =
   run_command quiet (Helper 0) [''DVB'', ''Scan'', ''a b''] example_table"
proof -
  let ?l = "[(''DVB'', '' '', ''DVB''), (''Scan'', '' '', ''Scan''), (quote_word ''a b'', [], ''a b'')]"
  have "good_line ?l" by (simp add: renders_def white_def plain_def char_defs)
  moreover have "line_args ?l = [''DVB'', ''Scan'', ''a b'']" by (simp add: line_args_def)
  moreover have "prefix (folded [''dvb'', ''scan'']) (folded [''DVB'', ''Scan'', ''a b''])"
    by (simp add: folded_def fold_case_def c_low_def c_tolower_def)
  ultimately have "ast_cli_command quiet ('' '' @ line_text ?l) example_table = run_command quiet (Helper 0) (take 15 (line_args ?l)) example_table"
    by (intro cli_dispatch [OF example_table_ok]) (simp_all add: white_def example_table_words)
  then show ?thesis by (simp add: line_text_def line_args_def)
qed

text \<open>A handler that has the entry of its own command removed and freed makes the driver use
  freed memory: removing an entry that is in use reports success, but leaves it in the table.\<close>

theorem cli_free_in_use:
  assumes "cli_ok st is" "i \<in> set is" "cli_heap st i = Some e" "0 \<le> inuse e" "handler e = Handle_external k"
    and "\<forall>st. ext k st argv (klkname e) (klkmsgid e) (klkmodnameused e) = ([Op_free i], res)"
  shows "(\<exists>st'. ast_cli_unregister i (st\<lparr>cli_heap := (cli_heap st)(i \<mapsto> e\<lparr>inuse := inuse e + 1\<rparr>)\<rparr>) = Some (0, st') \<and> cli_ok st' is) \<and>
    run_command ext (Helper i) argv st = None"
proof -
  let ?e = "e\<lparr>inuse := inuse e + 1\<rparr>"
  let ?st1 = "st\<lparr>cli_heap := (cli_heap st)(i \<mapsto> ?e)\<rparr>"
  have g: "get_entry st (Helper i) = Some e" using assms(3) by (simp add: get_entry_def)
  have u: "upd_entry (Helper i) (\<lambda>e. e\<lparr>inuse := inuse e + 1\<rparr>) st = Some ?st1" using assms(3) by (rule upd_helper)
  obtain st1 where "upd_entry (Helper i) (\<lambda>e. e\<lparr>inuse := inuse e + 1\<rparr>) st = Some st1" "cli_ok st1 is"
    by (rule upd_inuse [OF assms(1) g]) (rule that)
  then have ok: "cli_ok ?st1 is" using u by simp
  obtain st' where st': "ast_cli_unregister i ?st1 = Some (0, st')" "cli_ok st' is"
    using unregister_ok [OF ok, of i] assms(4) by auto
  have "get_entry ?st1 (Helper i) = Some ?e" by (simp add: get_entry_def)
  moreover have "call_handler ext ?e argv ?st1 = Some (res, st'\<lparr>cli_heap := (cli_heap st')(i := None)\<rparr>)"
    using assms(5,6) st'(1) by (simp add: call_handler_def free_entry_def)
  ultimately have "run_command ext (Helper i) argv st = None"
    using u by (simp add: run_command_def get_entry_def upd_entry_def ast_cli_def)
  then show ?thesis using st' by blast
qed

theorem cli_free_in_use_witness:
  "(\<exists>st st'. ast_cli_unregister 0 st = Some (0, st') \<and> cli_ok st' [0]) \<and> run_command removes_itself (Helper 0) [''dvb'', ''scan''] example_table = None"
  using cli_free_in_use [OF example_table_ok _ example_table_entry, of 0 removes_itself "[''dvb'', ''scan'']" 0]
  by (auto simp: example_entry_def removes_itself_def)

text \<open>A command whose words go on from those of a command before it in the table is never run: its
  command lines run the shorter command.\<close>

theorem cli_longer_shadowed:
  assumes "cli_ok st (xs @ j # ys)" "i \<in> set ys" "prefix (folded (entry_words st j)) (folded (entry_words st i))"
  shows "find_cli st 0 argv \<noteq> Some (Some (Helper i))"
proof
  assume "find_cli st 0 argv = Some (Some (Helper i))"
  then have f: "List.find (\<lambda>k. words_match 0 argv (entry_words st k)) (xs @ j # ys) = Some i"
    by (auto simp: cli_ok_find [OF assms(1)] split: option.splits)
  then have i: "words_match 0 argv (entry_words st i)" by (auto simp: find_Some_iff)
  then have "words_match 0 argv (entry_words st j)" using assms(3) by (auto simp: words_match_iff)
  moreover have "List.find P (us @ k # vs) = Some m \<Longrightarrow> P k \<Longrightarrow> m \<in> set (us @ [k])" for P m k and us vs :: "nat list"
    by (induction us) (auto split: if_splits)
  ultimately have "i \<in> set (xs @ [j])" using f by blast
  then show False using cli_ok_distinct [OF assms(1)] assms(2) by auto
qed

definition two_commands :: "cli option" where
  "two_commands = ast_cli_register_multiple [0, 1]
     (alloc_entry (example_entry [''dvb'', ''scan'']) (alloc_entry (example_entry [''dvb'']) cli_init))"

lemma two_commands_table:
  obtains st where "two_commands = Some st" "cli_ok st [0, 1]" "entry_words st 0 = [''dvb'']" "entry_words st 1 = [''dvb'', ''scan'']"
proof -
  let ?st = "alloc_entry (example_entry [''dvb'', ''scan'']) (alloc_entry (example_entry [''dvb'']) cli_init)"
  have ok: "cli_ok ?st []" using alloc_ok cli_ok_init by blast
  have e: "cli_heap ?st 0 = Some (example_entry [''dvb''])" "cli_heap ?st 1 = Some (example_entry [''dvb'', ''scan''])"
    by (simp_all add: alloc_entry_def cli_init_def example_entry_def)
  have c: "cmda (example_entry ws) = ws" for ws by (simp add: example_entry_def)
  have n: "\<not> prefix (folded (''dvb'' # ws)) (folded [''help''])" "\<not> prefix (folded [''dvb'', ''scan'']) (folded [''dvb''])" for ws
    by (simp_all add: folded_def fold_case_def c_low_def c_tolower_def)
  obtain st1 where st1: "ast_cli_register 0 ?st = Some (0, st1)" "cli_ok st1 [0]" "relinked ?st st1"
    using register_ok [OF ok e(1)] n(1) by (auto simp: c builtins_def)
  have w: "entry_words st1 0 = [''dvb'']" "entry_words st1 1 = [''dvb'', ''scan'']"
    using e relinked_words [OF st1(3)] by (simp_all add: entry_words_def c)
  obtain e1 where e1: "cli_heap st1 1 = Some e1" using relinked_entry [OF st1(3) e(2)] by blast
  then have c1: "cmda e1 = [''dvb'', ''scan'']" using w(2) by (simp add: entry_words_def)
  have "\<not> before [''dvb'', ''scan''] [''dvb'']"
    by (simp add: before_def join2_def c_strncat_def c_strncasecmp_def)
  then obtain st2 where "ast_cli_register 1 st1 = Some (0, st2)" "cli_ok st2 [0, 1]" "relinked st1 st2"
    using register_ok [OF st1(2) e1] n by (auto simp: c1 w builtins_def)
  then show thesis using that st1(1) w relinked_words [of st1 st2] by (simp add: two_commands_def)
qed

theorem cli_longer_shadowed_witness:
  "\<exists>st. two_commands = Some st \<and> entry_words st 1 = [''dvb'', ''scan''] \<and> find_cli st 0 [''dvb'', ''scan''] \<noteq> Some (Some (Helper 1))"
proof -
  obtain st where st: "two_commands = Some st" "cli_ok st [0, 1]" "entry_words st 0 = [''dvb'']" "entry_words st 1 = [''dvb'', ''scan'']"
    by (rule two_commands_table)
  have "find_cli st 0 [''dvb'', ''scan''] \<noteq> Some (Some (Helper 1))"
    by (rule cli_longer_shadowed [of _ "[]" 0 "[1]"]) (use st in \<open>simp_all add: folded_def\<close>)
  then show ?thesis using st by blast
qed

text \<open>Help lists every command, built in or registered, whose name starts with the words asked for,
  once, except those whose name starts with an underscore.\<close>

theorem help_lists_commands:
  assumes "cli_ok st is"
  shows "\<exists>lines. help_workhorse mt st = Some (0, st\<lparr>cli_out := cli_out st @ lines\<rparr>) \<and>
    mset lines = mset (map help_text
      (filter (help_shown (map_option (\<lambda>m. join 80 m False) mt)) (cli_builtins st @ map (\<lambda>i. the (cli_heap st i)) is)))"
proof -
  have "chain (cli_heap st) (helpers st) is None" using assms by (simp add: cli_ok_def)
  from help_walk_lines [OF this] obtain lines where
    "help_walk (map_option (\<lambda>m. join 80 m False) mt) (cli_builtins st) (helpers st) st = Some (st\<lparr>cli_out := cli_out st @ lines\<rparr>)"
    "mset lines = mset (map help_text
      (filter (help_shown (map_option (\<lambda>m. join 80 m False) mt)) (cli_builtins st @ map (\<lambda>i. the (cli_heap st i)) is)))"
    by blast
  then show ?thesis by (auto simp: help_workhorse_def)
qed

theorem help_lists_commands_witness:
  "\<exists>lines. help_workhorse None cli_init = Some (0, cli_init\<lparr>cli_out := cli_out cli_init @ lines\<rparr>) \<and>
    mset lines = {#help_text (hd builtins)#}"
  using help_lists_commands [OF cli_ok_init, of None]
  by (simp add: cli_init_def builtins_def help_shown_def join_def c_strncat_def)

end
