(* ===== verification/Cli_Complete.thy ===== *)
theory Cli_Complete
  imports Cli_Run
begin

text \<open>
  Completing command lines, \<^verbatim>\<open>src/client/clidriver.c\<close>: the words a line can go on with, what they have
  in common, what the line editor is told to do, and how the words are displayed.

  A generator outside of the driver is a function of the line, the word, the position, the number
  of matches to skip and the message id.  The editor is the list of the operations it is given.
\<close>

section \<open>The words a line can go on with\<close>

type_synonym cli_egen = "nat \<Rightarrow> string \<Rightarrow> string \<Rightarrow> int \<Rightarrow> nat \<Rightarrow> string option \<Rightarrow> string option"

text \<open>The next entry of the array and the list, by name, its name, and what is left of both.\<close>

definition merge_next :: "bool \<Rightarrow> cli_heap \<Rightarrow> cli_entry list \<Rightarrow> nat option \<Rightarrow>
    (cli_entry \<times> string \<times> cli_entry list \<times> nat option) option option" where
  "merge_next tws h e1 e2 =
     (case e2 of
        Some i \<Rightarrow> do {
          e \<leftarrow> h i;
          let fullcmd2 = join 80 (cmda e) tws;
          case e1 of
            [] \<Rightarrow> Some (Some (e, fullcmd2, [], cnext e))
          | b # bs \<Rightarrow>
              (let fullcmd1 = join 80 (cmda b) tws
               in if c_strcmp fullcmd2 fullcmd1 < 0 then Some (Some (e, fullcmd2, b # bs, cnext e))
                  else Some (Some (b, fullcmd1, bs, Some i)))
        }
      | None \<Rightarrow>
          (case e1 of
             [] \<Rightarrow> Some None
           | b # bs \<Rightarrow> Some (Some (b, join 80 (cmda b) tws, bs, None))))"

text \<open>The word of an entry that completes the line, if its name starts with the line.\<close>

definition next_word :: "string \<Rightarrow> string \<Rightarrow> nat \<Rightarrow> cli_entry \<Rightarrow> string \<Rightarrow> string option" where
  "next_word matchstr word x e fullcmd =
     (if \<not> (fullcmd \<noteq> [] \<and> hd fullcmd = CHR ''_'') \<and> c_strncasecmp matchstr fullcmd (length matchstr) = 0
      then peek (cmda e) (if word \<noteq> [] \<and> x > 0 then x - 1 else x)
      else None)"

partial_function (option) gen_walk ::
  "(cli_entry \<Rightarrow> string option option) \<Rightarrow> string \<Rightarrow> string \<Rightarrow> nat \<Rightarrow> bool \<Rightarrow> nat \<Rightarrow> cli_heap \<Rightarrow> cli_entry list \<Rightarrow> nat option \<Rightarrow> nat
    \<Rightarrow> string option option" where
  "gen_walk gen matchstr word x tws state h e1 e2 matchnum = do {
     m \<leftarrow> merge_next tws h e1 e2;
     case m of
       None \<Rightarrow> Some None
     | Some (e, fullcmd, e1', e2') \<Rightarrow>
         (let w = next_word matchstr word x e fullcmd;
              matchnum' = (if w = None then matchnum else matchnum + 1)
          in if w \<noteq> None \<and> matchnum' > state then Some w
             else do {
               g \<leftarrow> (if generator e \<noteq> Generate_none \<and> c_strncasecmp matchstr fullcmd (length fullcmd) = 0 then gen e else Some None);
               if g \<noteq> None then Some g
               else gen_walk gen matchstr word x tws state h e1' e2' matchnum'
             })
   }"

text \<open>\<open>fuel\<close> bounds how often \<^verbatim>\<open>complete_help\<close> starts again with the line behind \<^verbatim>\<open>help\<close>.\<close>

fun ast_cli_generator_fuel :: "nat \<Rightarrow> cli_egen \<Rightarrow> cli \<Rightarrow> string \<Rightarrow> string \<Rightarrow> nat \<Rightarrow> string option option" where
  "ast_cli_generator_fuel 0 egen st inp word state = None"
| "ast_cli_generator_fuel (Suc fuel) egen st inp word state =
     (let (buf, offs, tws) = parse_args AST_MAX_ARGS inp;
          argv = argv_of buf offs; x = length argv;
          matchstr = join 80 argv tws
      in gen_walk
           (\<lambda>e. case generator e of
                  Generate_none \<Rightarrow> Some None
                | Generate_help \<Rightarrow> ast_cli_generator_fuel fuel egen st (drop (min 5 (length matchstr)) matchstr) word state
                | Generate_external k \<Rightarrow>
                    Some (egen k matchstr word (if word \<noteq> [] then int x - 1 else int x) state (klkmsgid e)))
           matchstr word x tws state (cli_heap st) (cli_builtins st) (helpers st) 0)"

definition ast_cli_generator :: "cli_egen \<Rightarrow> cli \<Rightarrow> string \<Rightarrow> string \<Rightarrow> nat \<Rightarrow> string option option" where
  "ast_cli_generator egen st inp word state = ast_cli_generator_fuel (length inp + 2) egen st inp word state"

text \<open>The number of matches, not counting one that is the same as the one before it.\<close>

partial_function (option) nummatches_loop :: "(nat \<Rightarrow> string option option) \<Rightarrow> nat \<Rightarrow> string option \<Rightarrow> nat \<Rightarrow> nat option" where
  "nummatches_loop g i oldbuf n = do {
     buf \<leftarrow> g i;
     case buf of
       None \<Rightarrow> Some n
     | Some b \<Rightarrow> nummatches_loop g (i + 1) (Some b) (if oldbuf = None \<or> oldbuf \<noteq> Some b then n + 1 else n)
   }"

definition ast_cli_generatornummatches :: "cli_egen \<Rightarrow> cli \<Rightarrow> string \<Rightarrow> string \<Rightarrow> nat option" where
  "ast_cli_generatornummatches egen st inp word = nummatches_loop (ast_cli_generator egen st inp word) 0 None 0"

section \<open>What the matches have in common\<close>

text \<open>The array of matches grows by doubling; \<open>len\<close> is its length, and \<open>None\<close> a match that would be
  written outside of it.\<close>

partial_function (option) matches_loop :: "(nat \<Rightarrow> string option option) \<Rightarrow> string list \<Rightarrow> nat \<Rightarrow> (string list \<times> nat) option" where
  "matches_loop g ms len = do {
     r \<leftarrow> g (length ms);
     case r of
       None \<Rightarrow> Some (ms, len)
     | Some s \<Rightarrow>
         (let len = (if length ms + 1 \<ge> len then 2 * len else len)
          in if length ms + 1 < len then matches_loop g (ms @ [s]) len else None)
   }"

fun equal_upto :: "nat \<Rightarrow> string \<Rightarrow> string \<Rightarrow> nat" where
  "equal_upto (Suc n) (c # s) (d # t) = (if c_toupper c = c_toupper d then Suc (equal_upto n s t) else 0)"
| "equal_upto n s t = 0"

fun max_equal :: "string \<Rightarrow> nat \<Rightarrow> string list \<Rightarrow> nat" where
  "max_equal prevstr n [] = n"
| "max_equal prevstr n (m # ms) = max_equal prevstr (equal_upto n prevstr m) ms"

text \<open>The matches behind their common beginning, or the null pointer.\<close>

definition ast_cli_completion_matches :: "cli_egen \<Rightarrow> cli \<Rightarrow> string \<Rightarrow> string \<Rightarrow> string list option option" where
  "ast_cli_completion_matches egen st inp word = do {
     (ms, len) \<leftarrow> matches_loop (ast_cli_generator egen st inp word) [] 1;
     case ms of
       [] \<Rightarrow> Some None
     | m # ms' \<Rightarrow>
         (let n = max_equal m (length m) ms';
              len = (if length ms + 1 \<ge> len then len + 1 else len)
          in if length ms + 1 < len then Some (Some (take n m # ms)) else None)
   }"

section \<open>Completing\<close>

datatype el_op = El_deletestr nat | El_insertstr string | El_display "string list" nat nat

datatype el_result = CC_REFRESH | CC_ERROR | CC_REDISPLAY

text \<open>The word that ends at the cursor: looking backwards from it for white space, but not at the
  first character.\<close>

fun word_start :: "string \<Rightarrow> nat \<Rightarrow> nat" where
  "word_start s 0 = 0"
| "word_start s (Suc n) = (if Suc n < length s \<and> c_isspace (s ! Suc n) then Suc (Suc n) else word_start s n)"

definition cli_complete :: "cli_egen \<Rightarrow> cli \<Rightarrow> string \<Rightarrow> (el_op list \<times> el_result) option" where
  "cli_complete egen st line =
     (let ptr = word_start line (length line); word = drop ptr line; len = length line - ptr
      in do {
        nummatches \<leftarrow> ast_cli_generatornummatches egen st line word;
        matches \<leftarrow> ast_cli_completion_matches egen st line word;
        case matches of
          None \<Rightarrow> Some ([], CC_ERROR)
        | Some [] \<Rightarrow> None
        | Some (c # ms) \<Rightarrow>
            (let ops = (if c \<noteq> [] then [El_deletestr len, El_insertstr c] else [])
             in if nummatches = 1 then Some (ops @ [El_insertstr '' ''], CC_REFRESH)
                else
                  (let maxlen = foldl (\<lambda>mx m. max mx (length m)) 0 ms
                   in if length ms > 1 then Some (ops @ [El_display (c # ms) nummatches maxlen], CC_REDISPLAY)
                      else Some (ops @ [El_insertstr '' ''], CC_REFRESH)))
      })"

section \<open>Displaying matches\<close>

text \<open>One line of at most \<open>limit\<close> matches; the first of two equal ones is skipped.\<close>

fun match_line :: "nat \<Rightarrow> string list \<Rightarrow> string list \<times> string list" where
  "match_line 0 ms = ([], ms)"
| "match_line (Suc n) [] = ([], [])"
| "match_line (Suc n) [m] = ([m], [])"
| "match_line (Suc n) (m # m' # ms) =
     (if m = m' then match_line (Suc n) (m' # ms)
      else (let (p, r) = match_line n (m' # ms) in (m # p, r)))"

fun match_lines :: "nat \<Rightarrow> nat \<Rightarrow> string list \<Rightarrow> string list list" where
  "match_lines limit 0 ms = []"
| "match_lines limit (Suc k) ms =
     (let (p, r) = match_line limit ms in (if p = [] then [] else [p]) @ match_lines limit k r)"

text \<open>\<open>qsort\<close> is the sorting of the C library with \<^verbatim>\<open>strcasecmp\<close>; it sorts the first \<open>len + 1\<close> elements.\<close>

definition ast_cli_display_match_list ::
  "(string list \<Rightarrow> string list) \<Rightarrow> int \<Rightarrow> string list \<Rightarrow> nat \<Rightarrow> nat \<Rightarrow> string list list" where
  "ast_cli_display_match_list qsort screenwidth matches len mx =
     (let limit = (if screenwidth < int mx + 2 then 1 else nat (screenwidth div (int mx + 2)));
          count = len div limit;
          count = (if count * limit < len then count + 1 else count);
          sorted = qsort (take (len + 1) matches) @ drop (len + 1) matches
      in match_lines limit count (tl sorted))"

section \<open>Writing\<close>

text \<open>The kernel gives the result of the last call of a log: bytes written, or -1 and whether the
  error was \<^verbatim>\<open>EAGAIN\<close>; the result of \<^verbatim>\<open>poll\<close>.\<close>

datatype wcall = W_write string | W_poll int

type_synonym wkernel = "wcall list \<Rightarrow> int \<times> bool"

partial_function (option) ast_carefulwrite :: "wkernel \<Rightarrow> string \<Rightarrow> int \<Rightarrow> wcall list \<Rightarrow> (int \<times> wcall list) option" where
  "ast_carefulwrite k s timeoutms log =
     (if s = [] then Some (0, log)
      else (let log = log @ [W_write s]; (res, again) = k log
       in if res < 0 \<and> \<not> again then Some (-1, log)
          else (let res = max res 0; s = drop (nat res) s
           in if s = [] then Some (0, log)
              else (let log = log @ [W_poll timeoutms]
               in if fst (k log) < 1 then Some (-1, log) else ast_carefulwrite k s timeoutms log))))"

section \<open>Lemmas\<close>

abbreviation entries_of :: "cli_heap \<Rightarrow> nat list \<Rightarrow> cli_entry list" where
  "entries_of h is \<equiv> map (\<lambda>i. the (h i)) is"

text \<open>Merging takes one entry after the other.\<close>

lemma merge_next_chain:
  assumes "chain h e2 is None"
  obtains "e1 = []" "is = []" "merge_next tws h e1 e2 = Some None"
  | e e1' e2' is' where "merge_next tws h e1 e2 = Some (Some (e, join 80 (cmda e) tws, e1', e2'))" "chain h e2' is' None"
    "mset (e1 @ entries_of h is) = add_mset e (mset (e1' @ entries_of h is'))"
proof (cases "is")
  case Nil
  then have e2: "e2 = None" using assms by simp
  show thesis
  proof (cases e1)
    case Nil
    then show thesis using \<open>is = []\<close> e2 that(1) by (simp add: merge_next_def)
  next
    case (Cons b bs)
    show thesis by (rule that(2) [of b bs None "[]"]) (simp_all add: Cons \<open>is = []\<close> e2 merge_next_def)
  qed
next
  case (Cons i is')
  then obtain e where e: "e2 = Some i" "h i = Some e" "chain h (cnext e) is' None" using assms by auto
  show thesis
  proof (cases "\<exists>b bs. e1 = b # bs \<and> \<not> c_strcmp (join 80 (cmda e) tws) (join 80 (cmda b) tws) < 0")
    case True
    then obtain b bs where b: "e1 = b # bs" "\<not> c_strcmp (join 80 (cmda e) tws) (join 80 (cmda b) tws) < 0" by blast
    show thesis by (rule that(2) [of b bs e2 "is"]) (use b e assms in \<open>simp_all add: merge_next_def Let_def\<close>)
  next
    case False
    have "merge_next tws h e1 e2 = Some (Some (e, join 80 (cmda e) tws, e1, cnext e))"
      using False e by (cases e1) (simp_all add: merge_next_def Let_def)
    then show thesis using that(2) e(2,3) Cons by simp
  qed
qed

definition candidate :: "string \<Rightarrow> string \<Rightarrow> nat \<Rightarrow> bool \<Rightarrow> cli_entry \<Rightarrow> string option" where
  "candidate matchstr word x tws e = next_word matchstr word x e (join 80 (cmda e) tws)"

definition applies :: "string \<Rightarrow> bool \<Rightarrow> cli_entry \<Rightarrow> bool" where
  "applies matchstr tws e \<longleftrightarrow> generator e \<noteq> Generate_none \<and>
     c_strncasecmp matchstr (join 80 (cmda e) tws) (length (join 80 (cmda e) tws)) = 0"

lemma mset_map_filter: "mset (List.map_filter f xs) = image_mset (\<lambda>x. the (f x)) (filter_mset (\<lambda>x. f x \<noteq> None) (mset xs))"
  by (induction xs) (auto simp: map_filter_simps split: option.splits)

lemma gen_walk_words:
  assumes "chain h e2 is None" "\<forall>e \<in> set (e1 @ entries_of h is). \<not> applies matchstr tws e"
  shows "\<exists>ws. mset ws = mset (List.map_filter (candidate matchstr word x tws) (e1 @ entries_of h is)) \<and>
    (\<forall>gen state matchnum. matchnum \<le> state \<longrightarrow> gen_walk gen matchstr word x tws state h e1 e2 matchnum =
       Some (if state - matchnum < length ws then Some (ws ! (state - matchnum)) else None))"
  using assms
proof (induction "size (mset (e1 @ entries_of h is))" arbitrary: e1 e2 "is")
  case 0
  then have "e1 = []" "is = []" by simp_all
  then show ?case using "0.prems"(1)
    by (intro exI [of _ "[]"]) (simp add: gen_walk.simps merge_next_def map_filter_simps)
next
  case (Suc n)
  show ?case
  proof (rule merge_next_chain [OF Suc.prems(1), of e1 tws])
    assume "e1 = []" "is = []"
    then show ?thesis using Suc.hyps(2) by simp
  next
    fix e e1' e2' is'
    assume m: "merge_next tws h e1 e2 = Some (Some (e, join 80 (cmda e) tws, e1', e2'))" "chain h e2' is' None"
      "mset (e1 @ entries_of h is) = add_mset e (mset (e1' @ entries_of h is'))"
    have st: "set (e1 @ entries_of h is) = insert e (set (e1' @ entries_of h is'))"
      using arg_cong [OF m(3), of set_mset] by simp
    have sz: "n = size (mset (e1' @ entries_of h is'))" using Suc.hyps(2) arg_cong [OF m(3), of size] by simp
    have "\<forall>e \<in> set (e1' @ entries_of h is'). \<not> applies matchstr tws e" using Suc.prems(2) unfolding st by simp
    from Suc.hyps(1) [OF sz m(2) this] obtain ws where ws:
      "mset ws = mset (List.map_filter (candidate matchstr word x tws) (e1' @ entries_of h is'))"
      "\<And>gen state matchnum. matchnum \<le> state \<Longrightarrow> gen_walk gen matchstr word x tws state h e1' e2' matchnum =
         Some (if state - matchnum < length ws then Some (ws ! (state - matchnum)) else None)"
      by blast
    have na: "\<not> (generator e \<noteq> Generate_none \<and> c_strncasecmp matchstr (join 80 (cmda e) tws) (length (join 80 (cmda e) tws)) = 0)"
      using Suc.prems(2) unfolding st by (simp add: applies_def)
    define ws' where "ws' = (case candidate matchstr word x tws e of None \<Rightarrow> ws | Some w \<Rightarrow> w # ws)"
    have "mset ws' = mset (List.map_filter (candidate matchstr word x tws) (e # e1' @ entries_of h is'))"
      using ws(1) by (simp add: ws'_def map_filter_simps split: option.splits)
    also have "\<dots> = mset (List.map_filter (candidate matchstr word x tws) (e1 @ entries_of h is))"
      unfolding mset_map_filter m(3) by simp
    finally have "mset ws' = mset (List.map_filter (candidate matchstr word x tws) (e1 @ entries_of h is))" .
    moreover have "gen_walk gen matchstr word x tws state h e1 e2 matchnum =
        Some (if state - matchnum < length ws' then Some (ws' ! (state - matchnum)) else None)" if le: "matchnum \<le> state" for gen state matchnum
    proof (cases "candidate matchstr word x tws e")
      case None
      then show ?thesis using na ws(2) [OF le]
        by (subst gen_walk.simps) (auto simp: m(1) candidate_def [symmetric] ws'_def)
    next
      case (Some w)
      show ?thesis
      proof (cases "matchnum = state")
        case True
        then show ?thesis using Some by (subst gen_walk.simps) (simp add: m(1) candidate_def [symmetric] ws'_def)
      next
        case False
        then have "Suc matchnum \<le> state" using le by simp
        from ws(2) [OF this] show ?thesis using Some na False le
          by (subst gen_walk.simps) (auto simp: m(1) candidate_def [symmetric] ws'_def nth_Cons' Suc_diff_Suc)
      qed
    qed
    ultimately show ?thesis by blast
  qed
qed

section \<open>The loops over the matches\<close>

text \<open>A generator that gives the matches \<open>ms\<close>, one by one.\<close>

definition yields :: "(nat \<Rightarrow> string option option) \<Rightarrow> string list \<Rightarrow> bool" where
  "yields g ms \<longleftrightarrow> (\<forall>i < length ms. g i = Some (Some (ms ! i))) \<and> g (length ms) = Some None"

text \<open>The walk over the entries, for every number of matches to skip.\<close>

lemma words_yield:
  assumes "chain h e2 is None" "\<forall>e \<in> set (e1 @ entries_of h is). \<not> applies matchstr tws e"
  obtains ws where "mset ws = mset (List.map_filter (candidate matchstr word x tws) (e1 @ entries_of h is))"
    "\<And>g gen. (\<And>state. g state = gen_walk (gen state) matchstr word x tws state h e1 e2 0) \<Longrightarrow> yields g ws"
proof -
  obtain ws where ws: "mset ws = mset (List.map_filter (candidate matchstr word x tws) (e1 @ entries_of h is))"
    "\<forall>gen state matchnum. matchnum \<le> state \<longrightarrow> gen_walk gen matchstr word x tws state h e1 e2 matchnum =
       Some (if state - matchnum < length ws then Some (ws ! (state - matchnum)) else None)"
    using gen_walk_words [OF assms] by blast
  show thesis by (rule that [OF ws(1)]) (simp add: yields_def ws(2))
qed

lemma nummatches_loop_old:
  "\<forall>j < length ms. g (i + j) = Some (Some (ms ! j)) \<Longrightarrow> g (i + length ms) = Some None \<Longrightarrow>
   nummatches_loop g i (Some x) (Suc n) = Some (n + length (remdups_adj (x # ms)))"
proof (induction ms arbitrary: i x n)
  case Nil
  then show ?case by (simp add: nummatches_loop.simps)
next
  case (Cons m ms)
  have g: "g i = Some (Some m)" using Cons.prems(1) by force
  have "\<forall>j < length ms. g (Suc i + j) = Some (Some (ms ! j))" "g (Suc i + length ms) = Some None"
    using Cons.prems by (force, simp)
  from Cons.IH [OF this] show ?case by (subst nummatches_loop.simps) (simp add: g)
qed

lemma nummatches_loop_yields:
  assumes "yields g ms"
  shows "nummatches_loop g 0 None 0 = Some (length (remdups_adj ms))"
proof (cases ms)
  case Nil
  then show ?thesis using assms by (simp add: yields_def nummatches_loop.simps)
next
  case (Cons m ms')
  have g: "g 0 = Some (Some m)" "\<forall>j < length ms'. g (1 + j) = Some (Some (ms' ! j))" "g (1 + length ms') = Some None"
    using assms by (auto simp: Cons yields_def)
  from nummatches_loop_old [OF g(2,3), of m 0] show ?thesis by (subst nummatches_loop.simps) (simp add: g(1) Cons)
qed

lemma matches_loop_yields:
  assumes "yields g ms" "k \<le> length ms" "k < len"
  shows "\<exists>len'. matches_loop g (take k ms) len = Some (ms, len') \<and> length ms < len'"
  using assms(2,3)
proof (induction "length ms - k" arbitrary: k len)
  case 0
  then have "k = length ms" by simp
  then show ?case using assms(1) 0 by (subst matches_loop.simps) (simp add: yields_def)
next
  case (Suc n)
  then have k: "k < length ms" by simp
  then have g: "g k = Some (Some (ms ! k))" and t: "take k ms @ [ms ! k] = take (Suc k) ms" "min (length ms) k = k"
    using assms(1) by (simp_all add: yields_def take_Suc_conv_app_nth)
  let ?len = "if k + 1 \<ge> len then 2 * len else len"
  have "Suc k < ?len" using Suc.prems(2) by auto
  moreover have "n = length ms - Suc k" "Suc k \<le> length ms" using Suc.hyps(2) k by simp_all
  ultimately obtain len' where "matches_loop g (take (Suc k) ms) ?len = Some (ms, len')" "length ms < len'"
    using Suc.hyps(1) [of "Suc k" ?len] by blast
  then show ?case using \<open>Suc k < ?len\<close> by (subst matches_loop.simps) (simp add: g t Let_def)
qed

text \<open>The characters that are compared are the longest common beginning.\<close>

lemma equal_upto_prefix:
  "n \<le> length s \<Longrightarrow> prefix q (take (equal_upto n s t) (fold_case s)) \<longleftrightarrow> prefix q (take n (fold_case s)) \<and> prefix q (fold_case t)"
proof (induction n s t arbitrary: q rule: equal_upto.induct)
  case (1 n c s d t)
  then show ?case using c_low_eq_iff [of c d] by (cases q) auto
qed auto

lemma equal_upto_le: "equal_upto n s t \<le> n"
  by (induction n s t rule: equal_upto.induct) auto

lemma max_equal_prefix:
  "n \<le> length s \<Longrightarrow> max_equal s n ms \<le> n \<and>
   (prefix q (take (max_equal s n ms) (fold_case s)) \<longleftrightarrow> prefix q (take n (fold_case s)) \<and> (\<forall>m \<in> set ms. prefix q (fold_case m)))"
proof (induction ms arbitrary: n)
  case (Cons m ms)
  have le: "equal_upto n s m \<le> n" by (rule equal_upto_le)
  then show ?case using Cons.IH [of "equal_upto n s m"] Cons.prems equal_upto_prefix [OF Cons.prems, of q m] by auto
qed simp

lemma fold_case_take: "fold_case (take n s) = take n (fold_case s)"
  by (simp add: fold_case_def take_map)

definition common_beginning :: "string \<Rightarrow> string list \<Rightarrow> bool" where
  "common_beginning c ms \<longleftrightarrow> (\<forall>q. prefix q (fold_case c) \<longleftrightarrow> (\<forall>m \<in> set ms. prefix q (fold_case m)))"

lemma completion_yields:
  assumes "yields (ast_cli_generator egen st inp word) (m # ms)"
  shows "\<exists>c. ast_cli_completion_matches egen st inp word = Some (Some (c # m # ms)) \<and> prefix c m \<and> common_beginning c (m # ms)"
proof -
  obtain len where l: "matches_loop (ast_cli_generator egen st inp word) [] 1 = Some (m # ms, len)" "length (m # ms) < len"
    using matches_loop_yields [OF assms, of 0 1] by auto
  let ?n = "max_equal m (length m) ms"
  have "ast_cli_completion_matches egen st inp word = Some (Some (take ?n m # m # ms))"
    using l by (auto simp: ast_cli_completion_matches_def Let_def)
  moreover have "common_beginning (take ?n m) (m # ms)"
    using max_equal_prefix [of "length m" m ms] by (auto simp: common_beginning_def fold_case_take)
  ultimately show ?thesis using take_is_prefix by blast
qed

lemma completion_none:
  "yields (ast_cli_generator egen st inp word) [] \<Longrightarrow> ast_cli_completion_matches egen st inp word = Some None"
  by (simp add: ast_cli_completion_matches_def matches_loop.simps yields_def)

section \<open>Properties\<close>

text \<open>C11: Completing a command line that is not yet a whole command with a generator: the matches are
  exactly the next words of the commands, built in or registered, whose names start with the line,
  and what is inserted is the longest beginning that all of them share, whatever their case.\<close>

theorem completion_commands:
  assumes "cli_ok st is" "parse_args AST_MAX_ARGS inp = (buf, offs, tws)" "matchstr = join 80 (argv_of buf offs) tws"
    and "\<forall>e \<in> set (cli_builtins st @ entries_of (cli_heap st) is). \<not> applies matchstr tws e"
  shows "\<exists>ms. mset ms = mset (List.map_filter (candidate matchstr word (length offs) tws) (cli_builtins st @ entries_of (cli_heap st) is)) \<and>
    ast_cli_generatornummatches egen st inp word = Some (length (remdups_adj ms)) \<and>
    (if ms = [] then ast_cli_completion_matches egen st inp word = Some None
     else \<exists>c. ast_cli_completion_matches egen st inp word = Some (Some (c # ms)) \<and> prefix c (hd ms) \<and> common_beginning c ms)"
proof -
  have ch: "chain (cli_heap st) (helpers st) is None" using assms(1) by (simp add: cli_ok_def)
  let ?gen = "\<lambda>n state e. case generator e of
                  Generate_none \<Rightarrow> Some None
                | Generate_help \<Rightarrow> ast_cli_generator_fuel n egen st (drop (min 5 (length matchstr)) matchstr) word state
                | Generate_external k \<Rightarrow>
                    Some (egen k matchstr word (if word \<noteq> [] then int (length offs) - 1 else int (length offs)) state (klkmsgid e))"
  have l: "length (argv_of buf offs) = length offs" by (simp add: argv_of_def)
  have "ast_cli_generator_fuel (Suc n) egen st inp word state = gen_walk (?gen n state) matchstr word (length offs) tws state
      (cli_heap st) (cli_builtins st) (helpers st) 0" for n state
    by (simp only: ast_cli_generator_fuel.simps assms(2,3) Let_def prod.case l)
  from this [of "length inp + 1"] have g: "ast_cli_generator egen st inp word state = gen_walk (?gen (length inp + 1) state)
      matchstr word (length offs) tws state (cli_heap st) (cli_builtins st) (helpers st) 0" for state
    by (simp add: ast_cli_generator_def)
  obtain ms where ms: "mset ms = mset (List.map_filter (candidate matchstr word (length offs) tws) (cli_builtins st @ entries_of (cli_heap st) is))"
    "\<And>g gen. (\<And>state. g state = gen_walk (gen state) matchstr word (length offs) tws state (cli_heap st) (cli_builtins st) (helpers st) 0) \<Longrightarrow> yields g ms"
    by (rule words_yield [OF ch assms(4)]) blast
  have y: "yields (ast_cli_generator egen st inp word) ms" by (rule ms(2)) (rule g)
  show ?thesis
  proof (intro exI conjI)
    show "ast_cli_generatornummatches egen st inp word = Some (length (remdups_adj ms))"
      unfolding ast_cli_generatornummatches_def by (rule nummatches_loop_yields [OF y])
    show "if ms = [] then ast_cli_completion_matches egen st inp word = Some None
      else \<exists>c. ast_cli_completion_matches egen st inp word = Some (Some (c # ms)) \<and> prefix c (hd ms) \<and> common_beginning c ms"
      using completion_yields completion_none y by (cases ms) auto
  qed (rule ms(1))
qed

theorem completion_commands_witness:
  "ast_cli_completion_matches (\<lambda>k l w pos n m. None) example_table ''D'' ''D'' = Some (Some [''dvb'', ''dvb''])"
proof -
  have pa: "parse_args AST_MAX_ARGS ''D'' = ([CHR ''D'', NUL], [0], False)"
    by (simp add: parse_args_def parse_args_char_def pa_start_def pargs_init_def AST_MAX_ARGS_def char_defs)
  have m: "''D'' = join 80 (argv_of [CHR ''D'', NUL] [0]) False"
    by (simp add: argv_of_def join_def c_strncat_def c_str_def char_defs)
  have b: "cli_builtins example_table = builtins" by (simp add: example_table_def example_cli_def alloc_entry_def cli_init_def)
  have es: "cli_builtins example_table @ entries_of (cli_heap example_table) [0] = builtins @ [example_entry [''dvb'', ''scan'']]"
    unfolding b by (simp add: example_table_entry)
  have na: "\<forall>e \<in> set (cli_builtins example_table @ entries_of (cli_heap example_table) [0]). \<not> applies ''D'' False e"
    unfolding es by (simp add: builtins_def example_entry_def applies_def join_def c_strncat_def c_strncasecmp_def c_low_def c_tolower_def)
  have cand: "List.map_filter (candidate ''D'' ''D'' (length [0 :: nat]) False) (builtins @ [example_entry [''dvb'', ''scan'']]) = [''dvb'']"
    by (simp add: builtins_def example_entry_def candidate_def next_word_def map_filter_simps join_def c_strncat_def
        c_strncasecmp_def c_low_def c_tolower_def peek_def)
  from completion_commands [OF example_table_ok pa m na, of "''D''" "\<lambda>k l w pos n m. None"]
  obtain c where c: "ast_cli_completion_matches (\<lambda>k l w pos n m. None) example_table ''D'' ''D'' = Some (Some (c # [''dvb'']))"
    "prefix c ''dvb''" "common_beginning c [''dvb'']"
    unfolding es cand by auto
  then have "prefix (fold_case ''dvb'') (fold_case c)" by (simp add: common_beginning_def)
  then have "length ''dvb'' \<le> length c" using prefix_length_le [of "fold_case ''dvb''" "fold_case c"] by simp
  moreover obtain zs where z: "''dvb'' = c @ zs" using c(2) by (auto simp: prefix_def)
  ultimately have "length zs = 0" using arg_cong [OF z, of length] by simp
  then have "c = ''dvb''" using z by simp
  then show ?thesis using c(1) by simp
qed

section \<open>Displaying and writing\<close>

lemma remdups_adj_skip: "remdups_adj (m # m' # ms) = (if m = m' then remdups_adj (m' # ms) else m # remdups_adj (m' # ms))"
  by simp

lemma match_line_take:
  "fst (match_line n ms) = take n (remdups_adj ms) \<and> remdups_adj (snd (match_line n ms)) = drop n (remdups_adj ms)"
  by (induction n ms rule: match_line.induct) (simp_all add: split_beta Let_def del: remdups_adj.simps add: remdups_adj.simps(1,2) remdups_adj_skip)

lemma match_lines_concat:
  "concat (match_lines limit k ms) = take (k * limit) (remdups_adj ms) \<and> (\<forall>l \<in> set (match_lines limit k ms). l \<noteq> [] \<and> length l \<le> limit)"
proof (induction k arbitrary: ms)
  case (Suc k)
  obtain p r where pr: "match_line limit ms = (p, r)" by (metis prod.exhaust)
  then have "p = take limit (remdups_adj ms)" "remdups_adj r = drop limit (remdups_adj ms)"
    using match_line_take [of limit ms] by simp_all
  then show ?case using Suc.IH [of r] pr by (auto simp: take_add)
qed simp

text \<open>When the sorting of the C library leaves the common beginning in front, the list of matches
  is displayed completely: every line has as many words as fit, and all words behind the first one
  are shown in order, repeated ones once.\<close>

theorem display_matches:
  assumes "qsort (take (len + 1) (c # ms)) = c # ms'" "length (remdups_adj (ms' @ drop len ms)) \<le> len"
  shows "let lines = ast_cli_display_match_list qsort screenwidth (c # ms) len mx
    in concat lines = remdups_adj (ms' @ drop len ms) \<and>
      (\<forall>l \<in> set lines. l \<noteq> [] \<and> (length l = 1 \<or> int (length l) * (int mx + 2) \<le> screenwidth))"
proof -
  define limit where "limit = (if screenwidth < int mx + 2 then 1 else nat (screenwidth div (int mx + 2)))"
  define k where "k = (if len div limit * limit < len then len div limit + 1 else len div limit)"
  have pos: "0 < limit" by (auto simp: limit_def pos_imp_zdiv_pos_iff)
  have fit: "limit = 1 \<or> int limit * (int mx + 2) \<le> screenwidth"
    by (auto simp: limit_def minus_mod_eq_div_mult [symmetric])
  have "len \<le> len div limit * limit + limit"
    using div_mult_mod_eq [of len limit] mod_less_divisor [OF pos, of len] by linarith
  then have "len \<le> k * limit" by (auto simp: k_def)
  then have all: "take (k * limit) (remdups_adj (ms' @ drop len ms)) = remdups_adj (ms' @ drop len ms)" using assms(2) by simp
  have "tl (qsort (take (len + 1) (c # ms)) @ drop (len + 1) (c # ms)) = ms' @ drop len ms" unfolding assms(1) by simp
  then have lines: "ast_cli_display_match_list qsort screenwidth (c # ms) len mx = match_lines limit k (ms' @ drop len ms)"
    by (simp only: ast_cli_display_match_list_def Let_def limit_def [symmetric] k_def [symmetric])
  have "length l = 1 \<or> int (length l) * (int mx + 2) \<le> screenwidth" if "l \<noteq> []" "length l \<le> limit" for l :: "string list"
  proof -
    have "0 < length l" using that(1) by simp
    moreover have "int (length l) * (int mx + 2) \<le> int limit * (int mx + 2)" using that(2) by (simp add: mult_right_mono)
    ultimately show ?thesis using fit that(2) by linarith
  qed
  then show ?thesis using match_lines_concat [of limit k "ms' @ drop len ms"] all unfolding lines Let_def by auto
qed

theorem display_matches_witness:
  "concat (ast_cli_display_match_list (\<lambda>ms. ms) 10 [''st'', ''start'', ''start'', ''stop''] 3 5) = [''start'', ''stop'']"
  using display_matches [of "\<lambda>ms. ms" 3 "''st''" "[''start'', ''start'', ''stop'']" "[''start'', ''start'', ''stop'']" 10 5]
  by (simp add: Let_def)

text \<open>What the kernel took of the data, by a log of calls.\<close>

fun written :: "wkernel \<Rightarrow> wcall list \<Rightarrow> wcall list \<Rightarrow> string" where
  "written k pre [] = []"
| "written k pre (c # cs) = (case c of W_write s \<Rightarrow> take (nat (fst (k (pre @ [c])))) s | W_poll t \<Rightarrow> []) @ written k (pre @ [c]) cs"

lemma written_append: "written k pre (xs @ ys) = written k pre xs @ written k (pre @ xs) ys"
  by (induction xs arbitrary: pre) auto

text \<open>Behind a \<^verbatim>\<open>poll\<close> that says the descriptor is ready, a write takes something or fails.\<close>

definition write_progress :: "wkernel \<Rightarrow> bool" where
  "write_progress k \<longleftrightarrow> (\<forall>log t s. s \<noteq> [] \<and> 1 \<le> fst (k (log @ [W_poll t])) \<longrightarrow>
     1 \<le> fst (k (log @ [W_poll t, W_write s])) \<or> (fst (k (log @ [W_poll t, W_write s])) < 0 \<and> \<not> snd (k (log @ [W_poll t, W_write s]))))"

definition write_result :: "wkernel \<Rightarrow> string \<Rightarrow> wcall list \<Rightarrow> (int \<times> wcall list) option \<Rightarrow> bool" where
  "write_result k s log r \<longleftrightarrow> (\<exists>res calls t u. r = Some (res, log @ calls) \<and> s = t @ u \<and> written k log calls = t \<and>
     (if u = [] then res = 0 else res = -1))"

text \<open>One round of the loop, and the rounds behind a \<^verbatim>\<open>poll\<close>.\<close>

lemma carefulwrite_round:
  assumes "s \<noteq> []" "n = nat (fst (k (log @ [W_write s])))"
    and "drop n s \<noteq> [] \<Longrightarrow> 1 \<le> fst (k (log @ [W_write s, W_poll t])) \<Longrightarrow>
      write_result k (drop n s) (log @ [W_write s, W_poll t]) (ast_carefulwrite k (drop n s) t (log @ [W_write s, W_poll t]))"
  shows "write_result k s log (ast_carefulwrite k s t log)"
proof -
  obtain res again where r: "k (log @ [W_write s]) = (res, again)" by (metis prod.exhaust)
  have n: "n = nat res" "nat (max res 0) = n" using assms(2) r by simp_all
  have st: "ast_carefulwrite k s t log =
      (if res < 0 \<and> \<not> again then Some (-1, log @ [W_write s])
       else if drop n s = [] then Some (0, log @ [W_write s])
       else if fst (k (log @ [W_write s, W_poll t])) < 1 then Some (-1, log @ [W_write s, W_poll t])
       else ast_carefulwrite k (drop n s) t (log @ [W_write s, W_poll t]))"
    using assms(1) by (subst ast_carefulwrite.simps) (simp add: r Let_def n(2))
  have w: "written k log [W_write s] = take n s" "written k log [W_write s, W_poll t] = take n s" by (simp_all add: r n(1))
  show ?thesis
  proof (cases "res < 0 \<and> \<not> again")
    case True
    then have "n = 0" by (simp add: n(1))
    then show ?thesis unfolding write_result_def st using True w(1) assms(1)
      by (intro exI [of _ "-1"] exI [of _ "[W_write s]"] exI [of _ "[]"] exI [of _ s]) simp
  next
    case ok: False
    show ?thesis
    proof (cases "drop n s = []")
      case True
      then show ?thesis unfolding write_result_def st using ok w(1)
        by (intro exI [of _ 0] exI [of _ "[W_write s]"] exI [of _ s] exI [of _ "[]"]) simp
    next
      case rest: False
      show ?thesis
      proof (cases "fst (k (log @ [W_write s, W_poll t])) < 1")
        case True
        then show ?thesis unfolding write_result_def st using ok rest w(2)
          by (intro exI [of _ "-1"] exI [of _ "[W_write s, W_poll t]"] exI [of _ "take n s"] exI [of _ "drop n s"]) simp
      next
        case False
        then obtain res' calls v u where a: "ast_carefulwrite k (drop n s) t (log @ [W_write s, W_poll t]) =
            Some (res', (log @ [W_write s, W_poll t]) @ calls)" "drop n s = v @ u"
          "written k (log @ [W_write s, W_poll t]) calls = v" "if u = [] then res' = 0 else res' = -1"
          using assms(3) [OF rest] by (auto simp: write_result_def)
        have "s = (take n s @ v) @ u" using a(2) by (metis append.assoc append_take_drop_id)
        moreover have "written k log ([W_write s, W_poll t] @ calls) = take n s @ v"
          unfolding written_append w(2) a(3) ..
        moreover have "ast_carefulwrite k s t log = Some (res', log @ [W_write s, W_poll t] @ calls)"
          unfolding st using ok rest False a(1) by (simp only: if_False append_assoc)
        ultimately show ?thesis unfolding write_result_def using a(4) by blast
      qed
    qed
  qed
qed

lemma carefulwrite_ready:
  assumes "write_progress k" "1 \<le> fst (k (log @ [W_poll t']))"
  shows "write_result k s (log @ [W_poll t']) (ast_carefulwrite k s t (log @ [W_poll t']))"
  using assms(2)
proof (induction "length s" arbitrary: s log t' rule: less_induct)
  case less
  show ?case
  proof (cases "s = []")
    case True
    then show ?thesis by (simp add: ast_carefulwrite.simps write_result_def)
  next
    case ne: False
    let ?log = "log @ [W_poll t']"
    define n where "n = nat (fst (k (?log @ [W_write s])))"
    have p: "1 \<le> fst (k (?log @ [W_write s])) \<or> (fst (k (?log @ [W_write s])) < 0 \<and> \<not> snd (k (?log @ [W_write s])))"
      using assms(1) ne less.prems by (simp add: write_progress_def)
    show ?thesis
    proof (cases "1 \<le> fst (k (?log @ [W_write s]))")
      case True
      then have "length (drop n s) < length s" using ne by (simp add: n_def)
      from less.hyps [OF this, of "?log @ [W_write s]" t] show ?thesis
        by (intro carefulwrite_round [of s n k ?log t, OF ne n_def]) simp
    next
      case False
      then have "ast_carefulwrite k s t ?log = Some (-1, ?log @ [W_write s])" "nat (fst (k (?log @ [W_write s]))) = 0"
        using p ne by (auto simp: ast_carefulwrite.simps Let_def split_beta)
      then show ?thesis unfolding write_result_def using ne
        by (intro exI [of _ "-1"] exI [of _ "[W_write s]"] exI [of _ "[]"] exI [of _ s]) simp
    qed
  qed
qed

text \<open>Output is written completely and in order, whatever parts of it the kernel takes at a time; if
  an error or the time limit ends it, what was taken is a beginning of it and the result is -1.  It ends
  if the kernel takes something, or fails, when it says that the descriptor is ready.\<close>

theorem carefulwrite_complete:
  assumes "write_progress k"
  shows "\<exists>res log t u. ast_carefulwrite k s timeoutms [] = Some (res, log) \<and> s = t @ u \<and> written k [] log = t \<and>
    (if u = [] then res = 0 else res = -1)"
proof -
  have "write_result k s [] (ast_carefulwrite k s timeoutms [])"
  proof (cases "s = []")
    case True
    then show ?thesis by (simp add: ast_carefulwrite.simps write_result_def)
  next
    case False
    show ?thesis
      by (rule carefulwrite_round [OF False refl])
        (use carefulwrite_ready [OF assms, of "[W_write s]"] in simp)
  qed
  then show ?thesis by (auto simp: write_result_def)
qed

definition slow_kernel :: wkernel where
  "slow_kernel log = (case last log of W_write s \<Rightarrow> (min 3 (int (length s)), False) | W_poll t \<Rightarrow> (1, False))"

theorem carefulwrite_complete_witness:
  "\<exists>log. ast_carefulwrite slow_kernel ''No such command'' 100 [] = Some (0, log) \<and> written slow_kernel [] log = ''No such command''"
proof -
  have "write_progress slow_kernel" by (auto simp: write_progress_def slow_kernel_def Suc_le_eq)
  from carefulwrite_complete [OF this, of "''No such command''" 100]
  obtain res log t u where r: "ast_carefulwrite slow_kernel ''No such command'' 100 [] = Some (res, log)" "''No such command'' = t @ u"
    "written slow_kernel [] log = t" "if u = [] then res = 0 else res = -1" by blast
  have "\<exists>log. ast_carefulwrite slow_kernel ''No such command'' 100 [] = Some (0, log)"
    by (simp add: ast_carefulwrite.simps slow_kernel_def)
  then have "u = []" using r(1,4) by (auto split: if_splits)
  then show ?thesis using r by auto
qed

section \<open>Completing ends\<close>

text \<open>The generators outside of the driver stop after \<open>N\<close> matches, and no registered command has the
  one of \<^verbatim>\<open>help\<close>.\<close>

definition stops :: "cli_egen \<Rightarrow> nat \<Rightarrow> bool" where
  "stops egen N \<longleftrightarrow> (\<forall>k l w pos n m. N \<le> n \<longrightarrow> egen k l w pos n m = None)"

lemma gen_walk_ends:
  assumes "chain h e2 is None" "\<forall>e \<in> set (e1 @ entries_of h is). applies matchstr tws e \<longrightarrow> gen e \<noteq> None"
  shows "gen_walk gen matchstr word x tws state h e1 e2 matchnum \<noteq> None \<and>
    ((\<forall>e \<in> set (e1 @ entries_of h is). applies matchstr tws e \<longrightarrow> gen e = Some None) \<longrightarrow>
      matchnum + length (e1 @ entries_of h is) \<le> state \<longrightarrow>
      gen_walk gen matchstr word x tws state h e1 e2 matchnum = Some None)"
  using assms
proof (induction "size (mset (e1 @ entries_of h is))" arbitrary: e1 e2 "is" matchnum)
  case 0
  then have "e1 = []" "is = []" by simp_all
  then show ?case using "0.prems"(1) by (simp add: gen_walk.simps merge_next_def)
next
  case (Suc n)
  show ?case
  proof (rule merge_next_chain [OF Suc.prems(1), of e1 tws])
    assume "e1 = []" "is = []"
    then show ?thesis using Suc.hyps(2) by simp
  next
    fix e e1' e2' is'
    assume m: "merge_next tws h e1 e2 = Some (Some (e, join 80 (cmda e) tws, e1', e2'))" "chain h e2' is' None"
      "mset (e1 @ entries_of h is) = add_mset e (mset (e1' @ entries_of h is'))"
    have st: "set (e1 @ entries_of h is) = insert e (set (e1' @ entries_of h is'))"
      using arg_cong [OF m(3), of set_mset] by simp
    have sz: "n = size (mset (e1' @ entries_of h is'))" using Suc.hyps(2) arg_cong [OF m(3), of size] by simp
    have ln: "length (e1 @ entries_of h is) = Suc (length (e1' @ entries_of h is'))" using arg_cong [OF m(3), of size] by simp
    have r: "\<forall>e \<in> set (e1' @ entries_of h is'). applies matchstr tws e \<longrightarrow> gen e \<noteq> None" using Suc.prems(2) unfolding st by simp
    define w where "w = next_word matchstr word x e (join 80 (cmda e) tws)"
    define mn where "mn = (if w = None then matchnum else matchnum + 1)"
    have "applies matchstr tws e \<longrightarrow> gen e \<noteq> None" using Suc.prems(2) unfolding st by simp
    then obtain g where g: "(if applies matchstr tws e then gen e else Some None) = Some g" by (cases "applies matchstr tws e") auto
    have eq: "gen_walk gen matchstr word x tws state h e1 e2 matchnum =
        (if w \<noteq> None \<and> mn > state then Some w
         else if g \<noteq> None then Some g else gen_walk gen matchstr word x tws state h e1' e2' mn)"
      using g by (subst gen_walk.simps) (simp add: m(1) w_def mn_def Let_def applies_def)
    note ih = Suc.hyps(1) [OF sz m(2) r, of mn]
    have "g = None" if "\<forall>e \<in> set (e1 @ entries_of h is). applies matchstr tws e \<longrightarrow> gen e = Some None"
      using g that unfolding st by (simp split: if_splits)
    moreover have "mn \<le> matchnum + 1" by (simp add: mn_def)
    ultimately show ?thesis using ih unfolding eq st ln by auto
  qed
qed

lemma generator_fuel_ends:
  assumes "cli_ok st is" "\<forall>i \<in> set is. generator (the (cli_heap st i)) \<noteq> Generate_help"
  shows "length inp < fuel \<Longrightarrow> ast_cli_generator_fuel fuel egen st inp word state \<noteq> None \<and>
    (stops egen N \<longrightarrow> max N (length builtins + length is) \<le> state \<longrightarrow>
      ast_cli_generator_fuel fuel egen st inp word state = Some None)"
proof (induction fuel arbitrary: inp)
  case (Suc fuel)
  obtain buf offs tws where p: "parse_args AST_MAX_ARGS inp = (buf, offs, tws)" by (metis prod_cases3)
  let ?m = "join 80 (argv_of buf offs) tws" and ?x = "length (argv_of buf offs)"
  let ?gen = "\<lambda>e. case generator e of
                  Generate_none \<Rightarrow> Some None
                | Generate_help \<Rightarrow> ast_cli_generator_fuel fuel egen st (drop (min 5 (length ?m)) ?m) word state
                | Generate_external k \<Rightarrow>
                    Some (egen k ?m word (if word \<noteq> [] then int ?x - 1 else int ?x) state (klkmsgid e))"
  let ?es = "cli_builtins st @ entries_of (cli_heap st) is"
  have ch: "chain (cli_heap st) (helpers st) is None" using assms(1) by (simp add: cli_ok_def)
  have b: "map cmda (cli_builtins st) = map cmda builtins" using assms(1) by (simp add: cli_ok_def)
  have short: "length ?m \<le> length inp" by (rule join_parsed_short [OF p]) simp
  have shorter: "length (drop (min 5 (length ?m)) ?m) < fuel"
    if "e \<in> set ?es" "applies ?m tws e" "generator e = Generate_help" for e
  proof -
    have "e \<in> set (cli_builtins st)" using that(1,3) assms(2) by auto
    then have "cmda e \<in> set (map cmda builtins)" unfolding b [symmetric] by simp
    then have "join 80 (cmda e) tws \<noteq> []" by (cases tws) (simp_all add: builtins_def join_def c_strncat_def)
    moreover have "take (length (join 80 (cmda e) tws)) (fold_case ?m) = fold_case (join 80 (cmda e) tws)"
      using that(2) by (simp add: applies_def c_strncasecmp_0)
    ultimately have "?m \<noteq> []" by (metis fold_case_simps(1,4) length_0_conv take_Nil)
    then show ?thesis using short Suc.prems by (cases ?m) auto
  qed
  have gen: "?gen e \<noteq> None \<and> (stops egen N \<longrightarrow> max N (length builtins + length is) \<le> state \<longrightarrow> ?gen e = Some None)"
    if "e \<in> set ?es" "applies ?m tws e" for e
    using Suc.IH [OF shorter [OF that]] by (cases "generator e") (auto simp: stops_def)
  have eq: "ast_cli_generator_fuel (Suc fuel) egen st inp word state =
      gen_walk ?gen ?m word ?x tws state (cli_heap st) (cli_builtins st) (helpers st) 0"
    by (simp only: ast_cli_generator_fuel.simps p Let_def prod.case)
  have "length (cli_builtins st) = length builtins" using arg_cong [OF b, of length] by simp
  then show ?case unfolding eq
    using gen_walk_ends [OF ch, of "cli_builtins st" ?m tws ?gen word ?x state 0] gen by (auto simp del: option.case)
qed simp

lemma yields_ex:
  assumes "\<forall>n. g n \<noteq> None" "g M = Some None"
  obtains ms where "yields g ms"
proof -
  let ?n = "LEAST n. g n = Some None"
  have "g ?n = Some None" using assms(2) by (rule LeastI)
  moreover have "\<exists>m. g i = Some (Some m)" if "i < ?n" for i
    using not_less_Least [OF that] assms(1) [THEN spec, of i] by auto
  ultimately have "yields g (map (\<lambda>i. the (the (g i))) [0..<?n])" by (fastforce simp: yields_def)
  then show thesis by (rule that)
qed

text \<open>Pressing the key for completion always gets an answer: the search, which \<^verbatim>\<open>help\<close> starts again
  for the rest of the line, ends, the loops over the matches end, and the array of matches is never
  written outside of its bounds, if the other generators stop giving matches.\<close>

theorem cli_complete_returns:
  assumes "cli_ok st is" "\<forall>i \<in> set is. generator (the (cli_heap st i)) \<noteq> Generate_help" "stops egen N"
  shows "\<exists>ops res. cli_complete egen st line = Some (ops, res)"
proof -
  define word where "word = drop (word_start line (length line)) line"
  let ?g = "ast_cli_generator egen st line word"
  have "?g n \<noteq> None" "max N (length builtins + length is) \<le> n \<Longrightarrow> ?g n = Some None" for n
    using generator_fuel_ends [OF assms(1,2), of line "length line + 2" egen word n N] assms(3)
    by (simp_all only: ast_cli_generator_def) simp_all
  then obtain ms where ms: "yields ?g ms" using yields_ex [of ?g "max N (length builtins + length is)"] by blast
  have n: "ast_cli_generatornummatches egen st line word = Some (length (remdups_adj ms))"
    unfolding ast_cli_generatornummatches_def by (rule nummatches_loop_yields [OF ms])
  have "\<exists>r. ast_cli_completion_matches egen st line word = Some r \<and> r \<noteq> Some []"
    using completion_yields completion_none ms by (cases ms) fastforce+
  then obtain r where "ast_cli_completion_matches egen st line word = Some r" "r \<noteq> Some []" by blast
  then show ?thesis using n
    by (cases r) (auto simp: cli_complete_def Let_def word_def [symmetric] split: list.splits)
qed

theorem cli_complete_returns_witness:
  "\<exists>ops res. cli_complete (\<lambda>k l w pos n m. if n < 2 then Some ''on'' else None) example_table ''help dvb'' = Some (ops, res)"
  by (rule cli_complete_returns [OF example_table_ok, where N = 2])
    (simp_all add: example_table_entry example_entry_def stops_def)

end
