(* ===== verification/Cli_Worker.thy ===== *)
theory Cli_Worker
  imports Cli_Complete
begin

text \<open>
  The main loop of the client, \<^verbatim>\<open>ast_cli_worker\<close> in \<^verbatim>\<open>src/client/clidriver.c\<close>.  The lines the
  editor returns are a list.  The tokenizer of the editor's library is a function of the
  line, that gives whether the line goes on and its words; what the history is told is a list of calls.
\<close>

section \<open>The loop\<close>

type_synonym tokenizer = "string \<Rightarrow> bool \<times> string list"

datatype hist_op = H_ENTER string | H_APPEND string | H_LIST | H_CLEAR | H_LOAD string | H_SAVE string | H_BAD

definition worker_history :: "string list \<Rightarrow> hist_op list" where
  "worker_history av =
     (case length av of
        Suc 0 \<Rightarrow> [H_LIST]
      | Suc (Suc 0) \<Rightarrow> if av ! 1 = ''clear'' then [H_CLEAR] else [H_BAD]
      | Suc (Suc (Suc 0)) \<Rightarrow>
          if av ! 1 = ''load'' then [H_LOAD (av ! 2)] else if av ! 1 = ''save'' then [H_SAVE (av ! 2)] else []
      | _ \<Rightarrow> [H_BAD])"

definition worker_strip :: "string \<Rightarrow> string" where
  "worker_strip buf = (if buf \<noteq> [] \<and> last buf \<in> {NL, CR} then butlast buf else buf)"

text \<open>\<open>None\<close> is the use of the null pointer for the first word of a line that has none.\<close>

fun ast_cli_worker :: "cli_external \<Rightarrow> tokenizer \<Rightarrow> string list \<Rightarrow> bool \<Rightarrow> cli \<Rightarrow> hist_op list \<Rightarrow> (cli \<times> hist_op list) option" where
  "ast_cli_worker ext tok [] continuation st hs = Some (st, hs)"
| "ast_cli_worker ext tok (buf # bufs) continuation st hs =
     (if buf = [] then Some (st, hs)
      else if \<not> continuation \<and> length buf = 1 then ast_cli_worker ext tok bufs continuation st hs
      else
        (let (ncontinuation, av) = tok buf;
             hs = hs @ [if continuation then H_APPEND buf else H_ENTER buf]
         in if av = [] then None
            else if hd av = ''exit'' then Some (st, hs)
            else do {
              let hs = (if hd av = ''history'' then hs @ worker_history av else hs);
              st \<leftarrow> ast_cli_command ext (worker_strip buf) st;
              ast_cli_worker ext tok bufs ncontinuation st hs
            }))"

section \<open>Properties\<close>


definition whole_line :: tokenizer where
  "whole_line buf = (False, [worker_strip buf])"


text \<open>A line of white space stops the client: the library gives no word for it, and the first
  letter of the first word is looked at.\<close>

theorem cli_blank_line_crashes:
  assumes "tok buf = (n, [])" "length buf > 1"
  shows "ast_cli_worker ext tok (buf # bufs) continuation st hs = None"
  using assms by auto

theorem cli_blank_line_crashes_witness:
  "ast_cli_worker quiet (\<lambda>buf. (False, filter (\<lambda>w. w \<noteq> []) [worker_strip (dropWhile c_isspace buf)])) ['' '' @ [NL]] False example_table [] = None"
  by (rule cli_blank_line_crashes [where n = False]) (simp_all add: worker_strip_def c_isspace_def NL_def)

end
