(* ===== verification/Moddep.thy ===== *)
theory Moddep
  imports Prelude
begin

text \<open>
  The dependencies between modules, \<^verbatim>\<open>src/common/mod/dep.cpp\<close>: a directed graph with the names of
  the modules at its vertices and an edge from each module to those it needs.

  The graph is a list of names and a list of the targets of each vertex, in the order in which they
  were added, as in the adjacency list of the Boost library.  The two searches of that library are
  parameters: \<open>cyc\<close> is true if a depth first search meets an edge back to a vertex it has not left,
  \<open>topo\<close> is a topological sort, \<open>None\<close> if it throws.  The locale \<open>graph_library\<close> states what the
  library promises of them; it is interpreted on a search that takes out one vertex at a time.  The
  lock around every operation makes each of them one step.
\<close>

section \<open>Graphs\<close>

datatype result = OK | ERROR

record depgraph =
  dg_names :: "string list"
  dg_out :: "nat list list"
  dg_count :: "32 word"

definition dg_new :: depgraph where
  "dg_new = \<lparr>dg_names = [], dg_out = [], dg_count = 0\<rparr>"

definition add_vertex :: "string \<Rightarrow> depgraph \<Rightarrow> nat \<times> depgraph" where
  "add_vertex n g = (length (dg_names g), g\<lparr>dg_names := dg_names g @ [n], dg_out := dg_out g @ [[]], dg_count := dg_count g + 1\<rparr>)"

definition add_edge :: "nat \<Rightarrow> nat \<Rightarrow> depgraph \<Rightarrow> depgraph" where
  "add_edge u v g = g\<lparr>dg_out := (dg_out g)[u := dg_out g ! u @ [v]]\<rparr>"

definition remove_edge :: "nat \<Rightarrow> nat \<Rightarrow> depgraph \<Rightarrow> depgraph" where
  "remove_edge u v g = g\<lparr>dg_out := (dg_out g)[u := filter (\<lambda>w. w \<noteq> v) (dg_out g ! u)]\<rparr>"

text \<open>The first vertex with a name.\<close>

fun find_vertex :: "nat \<Rightarrow> string \<Rightarrow> string list \<Rightarrow> nat option" where
  "find_vertex k n [] = None"
| "find_vertex k n (m # ms) = (if m = n then Some k else find_vertex (k + 1) n ms)"

definition getVertexID :: "string \<Rightarrow> depgraph \<Rightarrow> nat option" where
  "getVertexID n g = find_vertex 0 n (dg_names g)"

definition hasVertex :: "string \<Rightarrow> depgraph \<Rightarrow> bool" where
  "hasVertex n g \<longleftrightarrow> (\<exists>m \<in> set (dg_names g). m = n)"

definition getDependency :: "string \<Rightarrow> depgraph \<Rightarrow> string list" where
  "getDependency n g = (case getVertexID n g of None \<Rightarrow> [] | Some u \<Rightarrow> map (\<lambda>v. dg_names g ! v) (dg_out g ! u))"

text \<open>The vertex of a name, which is added if there is none.\<close>

definition vertex_for :: "string \<Rightarrow> depgraph \<Rightarrow> (nat \<times> depgraph) option" where
  "vertex_for n g = (if hasVertex n g then do { u \<leftarrow> getVertexID n g; Some (u, g) } else Some (add_vertex n g))"

text \<open>\<open>None\<close> is an assertion that fails.\<close>

definition addDependency :: "(depgraph \<Rightarrow> bool) \<Rightarrow> string \<Rightarrow> string \<Rightarrow> depgraph \<Rightarrow> (result \<times> depgraph) option" where
  "addDependency cyc child parent g =
     (if child = parent then Some (OK, g)
      else if parent \<in> set (getDependency child g) then Some (OK, g)
      else do {
        (c, g) \<leftarrow> vertex_for child g;
        (p, g) \<leftarrow> vertex_for parent g;
        let g = add_edge c p g;
        if cyc g then Some (ERROR, remove_edge c p g) else Some (OK, g)
      })"

text \<open>A name without a vertex is an assertion that fails; the exception is caught.\<close>

definition rmDependency :: "string \<Rightarrow> string \<Rightarrow> depgraph \<Rightarrow> depgraph" where
  "rmDependency child parent g =
     (case (getVertexID child g, getVertexID parent g) of
        (Some c, Some p) \<Rightarrow> remove_edge c p g
      | _ \<Rightarrow> g)"

definition getSortedList :: "(depgraph \<Rightarrow> nat list option) \<Rightarrow> depgraph \<Rightarrow> string list option" where
  "getSortedList topo g = do { c \<leftarrow> topo g; Some (map (\<lambda>u. dg_names g ! u) (rev c)) }"

definition dep_clear :: "depgraph \<Rightarrow> depgraph" where
  "dep_clear g = g\<lparr>dg_count := 0, dg_names := [], dg_out := []\<rparr>"

section \<open>The relation a graph stands for\<close>

definition dg_edges :: "depgraph \<Rightarrow> (nat \<times> nat) set" where
  "dg_edges g = {(u, v). u < length (dg_out g) \<and> v \<in> set (dg_out g ! u)}"

definition dg_wf :: "depgraph \<Rightarrow> bool" where
  "dg_wf g \<longleftrightarrow> length (dg_out g) = length (dg_names g) \<and> distinct (dg_names g) \<and>
     (\<forall>(u, v) \<in> dg_edges g. v < length (dg_names g)) \<and> (\<forall>vs \<in> set (dg_out g). distinct vs)"

definition depends :: "depgraph \<Rightarrow> (string \<times> string) set" where
  "depends g = (\<lambda>(u, v). (dg_names g ! u, dg_names g ! v)) ` dg_edges g"

definition dep_ok :: "depgraph \<Rightarrow> bool" where
  "dep_ok g \<longleftrightarrow> dg_wf g \<and> acyclic (depends g)"

text \<open>No element needs one that is before it.\<close>

definition later_first :: "('a \<times> 'a) set \<Rightarrow> 'a list \<Rightarrow> bool" where
  "later_first r xs \<longleftrightarrow> sorted_wrt (\<lambda>a b. (b, a) \<notin> r) xs"

section \<open>What the graph library promises\<close>

locale graph_library =
  fixes cyc :: "depgraph \<Rightarrow> bool" and topo :: "depgraph \<Rightarrow> nat list option"
  assumes cyc: "dg_wf g \<Longrightarrow> cyc g \<longleftrightarrow> \<not> acyclic (dg_edges g)"
    and topo: "dg_wf g \<Longrightarrow> acyclic (dg_edges g) \<Longrightarrow>
      \<exists>c. topo g = Some c \<and> distinct c \<and> set c = {..<length (dg_names g)} \<and> later_first (dg_edges g) (rev c)"

section \<open>Names and vertices\<close>

lemma find_vertex_Some: "find_vertex k n ms = Some u \<Longrightarrow> k \<le> u \<and> u - k < length ms \<and> ms ! (u - k) = n"
  by (induction k n ms rule: find_vertex.induct) (auto split: if_splits simp: nth_Cons' Suc_diff_Suc)

lemma find_vertex_None: "find_vertex k n ms = None \<longleftrightarrow> n \<notin> set ms"
  by (induction k n ms rule: find_vertex.induct) auto

lemma getVertexID_Some: "getVertexID n g = Some u \<Longrightarrow> u < length (dg_names g) \<and> dg_names g ! u = n"
  using find_vertex_Some [of 0 n "dg_names g" u] by (simp add: getVertexID_def)

lemma getVertexID_None: "getVertexID n g = None \<longleftrightarrow> n \<notin> set (dg_names g)"
  by (simp add: getVertexID_def find_vertex_None)

lemma dg_name_eq: "dg_wf g \<Longrightarrow> u < length (dg_names g) \<Longrightarrow> v < length (dg_names g) \<Longrightarrow> dg_names g ! u = dg_names g ! v \<longleftrightarrow> u = v"
  by (simp add: dg_wf_def nth_eq_iff_index_eq)

lemma getVertexID_nth:
  assumes "dg_wf g" "u < length (dg_names g)"
  shows "getVertexID (dg_names g ! u) g = Some u"
proof (cases "getVertexID (dg_names g ! u) g")
  case None
  then show ?thesis using assms(2) by (simp add: getVertexID_None)
next
  case (Some v)
  then show ?thesis using getVertexID_Some [OF Some] dg_name_eq [OF assms(1), of v u] assms(2) by simp
qed

lemma dg_edgesD: "dg_wf g \<Longrightarrow> (u, v) \<in> dg_edges g \<Longrightarrow> u < length (dg_names g) \<and> v < length (dg_names g)"
  by (auto simp: dg_wf_def dg_edges_def)

lemma finite_edges: "dg_wf g \<Longrightarrow> finite (dg_edges g)"
  by (rule finite_subset [of _ "{..<length (dg_names g)} \<times> {..<length (dg_names g)}"]) (auto dest: dg_edgesD)

lemma finite_depends: "dg_wf g \<Longrightarrow> finite (depends g)"
  by (simp add: depends_def finite_edges)

lemma dependsD: "(n, x) \<in> depends g \<Longrightarrow> \<exists>u v. (u, v) \<in> dg_edges g \<and> n = dg_names g ! u \<and> x = dg_names g ! v"
  by (auto simp: depends_def)

lemma dependsI: "(u, v) \<in> dg_edges g \<Longrightarrow> (dg_names g ! u, dg_names g ! v) \<in> depends g"
  unfolding depends_def by (rule image_eqI [of _ _ "(u, v)"]) simp_all

lemma depends_iff:
  assumes "dg_wf g" "u < length (dg_names g)" "v < length (dg_names g)"
  shows "(dg_names g ! u, dg_names g ! v) \<in> depends g \<longleftrightarrow> (u, v) \<in> dg_edges g"
proof
  assume "(dg_names g ! u, dg_names g ! v) \<in> depends g"
  then obtain a b where ab: "(a, b) \<in> dg_edges g" "dg_names g ! u = dg_names g ! a" "dg_names g ! v = dg_names g ! b"
    by (auto simp: depends_def)
  then have "u = a" "v = b" using dg_edgesD [OF assms(1) ab(1)] assms(2,3) dg_name_eq [OF assms(1)] by simp_all
  then show "(u, v) \<in> dg_edges g" using ab by simp
qed (auto simp: depends_def)

lemma acyclic_depends:
  assumes "dg_wf g"
  shows "acyclic (depends g) \<longleftrightarrow> acyclic (dg_edges g)"
proof
  assume "acyclic (depends g)"
  then have "wf (inv_image (depends g) (\<lambda>u. dg_names g ! u))" using finite_depends [OF assms] by (simp add: finite_acyclic_wf)
  moreover have "dg_edges g \<subseteq> inv_image (depends g) (\<lambda>u. dg_names g ! u)" by (auto simp: depends_def inv_image_def)
  ultimately show "acyclic (dg_edges g)" using wf_subset wf_acyclic by blast
next
  assume "acyclic (dg_edges g)"
  then have "wf (inv_image (dg_edges g) (\<lambda>n. the (getVertexID n g)))" using finite_edges [OF assms] by (simp add: finite_acyclic_wf)
  moreover have "depends g \<subseteq> inv_image (dg_edges g) (\<lambda>n. the (getVertexID n g))"
  proof
    fix x
    assume "x \<in> depends g"
    then obtain u v where uv: "(u, v) \<in> dg_edges g" "x = (dg_names g ! u, dg_names g ! v)" by (auto simp: depends_def)
    then show "x \<in> inv_image (dg_edges g) (\<lambda>n. the (getVertexID n g))"
      using dg_edgesD [OF assms uv(1)] by (simp add: inv_image_def getVertexID_nth [OF assms])
  qed
  ultimately show "acyclic (depends g)" using wf_subset wf_acyclic by blast
qed

lemma getDependency_set:
  assumes "dg_wf g"
  shows "set (getDependency n g) = depends g `` {n}" "distinct (getDependency n g)"
proof -
  have "set (getDependency n g) = depends g `` {n} \<and> distinct (getDependency n g)"
  proof (cases "getVertexID n g")
    case None
    then have "n \<notin> set (dg_names g)" by (simp add: getVertexID_None)
    then have "(n, x) \<notin> depends g" for x by (auto simp: depends_def dest: dg_edgesD [OF assms])
    then have "depends g `` {n} = {}" by blast
    then show ?thesis using None by (simp add: getDependency_def)
  next
    case (Some u)
    note u = getVertexID_Some [OF Some]
    have len: "length (dg_out g) = length (dg_names g)" using assms by (simp add: dg_wf_def)
    have tgt: "v < length (dg_names g)" if "v \<in> set (dg_out g ! u)" for v
    proof -
      have "(u, v) \<in> dg_edges g" using that u len by (simp add: dg_edges_def)
      then show ?thesis using dg_edgesD [OF assms] by blast
    qed
    have mem: "depends g `` {n} = (\<lambda>v. dg_names g ! v) ` set (dg_out g ! u)"
    proof (intro set_eqI iffI)
      fix x
      assume "x \<in> depends g `` {n}"
      then have "(n, x) \<in> depends g" by simp
      from dependsD [OF this] obtain a b where ab: "(a, b) \<in> dg_edges g" "n = dg_names g ! a" "x = dg_names g ! b" by blast
      have "a = u" using dg_edgesD [OF assms ab(1)] u ab(2) dg_name_eq [OF assms, of a u] by metis
      then show "x \<in> (\<lambda>v. dg_names g ! v) ` set (dg_out g ! u)" using ab by (simp add: dg_edges_def)
    next
      fix x
      assume "x \<in> (\<lambda>v. dg_names g ! v) ` set (dg_out g ! u)"
      then obtain v where v: "v \<in> set (dg_out g ! u)" "x = dg_names g ! v" by blast
      have "(u, v) \<in> dg_edges g" using u len v by (simp add: dg_edges_def)
      from dependsI [OF this] have "(n, x) \<in> depends g" using u v by simp
      then show "x \<in> depends g `` {n}" by blast
    qed
    have "inj_on (\<lambda>v. dg_names g ! v) (set (dg_out g ! u))"
      using tgt dg_name_eq [OF assms] by (auto simp: inj_on_def)
    moreover have "distinct (dg_out g ! u)" using assms u len by (simp add: dg_wf_def)
    ultimately show ?thesis using Some mem by (simp add: getDependency_def distinct_map)
  qed
  then show "set (getDependency n g) = depends g `` {n}" "distinct (getDependency n g)" by auto
qed

section \<open>Changing a graph\<close>

lemma add_vertex_edges: "dg_edges (snd (add_vertex n g)) = dg_edges g"
  by (auto simp: dg_edges_def add_vertex_def nth_append split: if_splits)

lemma add_vertex_ok:
  assumes "dg_wf g" "n \<notin> set (dg_names g)"
  shows "dg_wf (snd (add_vertex n g))" "depends (snd (add_vertex n g)) = depends g"
proof -
  show "dg_wf (snd (add_vertex n g))" unfolding dg_wf_def add_vertex_edges
    using assms dg_edgesD [OF assms(1)] by (fastforce simp: add_vertex_def dg_wf_def)
  have "dg_names (snd (add_vertex n g)) ! u = dg_names g ! u" if "u < length (dg_names g)" for u
    using that by (simp add: add_vertex_def nth_append)
  then show "depends (snd (add_vertex n g)) = depends g" unfolding depends_def add_vertex_edges
    by (intro image_cong) (use dg_edgesD [OF assms(1)] in auto)
qed

lemma vertex_for_ok:
  assumes "dg_wf g"
  obtains u g' where "vertex_for n g = Some (u, g')" "dg_wf g'" "depends g' = depends g" "u < length (dg_names g')" "dg_names g' ! u = n"
    "\<forall>i < length (dg_names g). i < length (dg_names g') \<and> dg_names g' ! i = dg_names g ! i" "dg_edges g' = dg_edges g"
    "n \<in> set (dg_names g) \<longrightarrow> g' = g" "set (dg_names g') = insert n (set (dg_names g))"
proof (cases "n \<in> set (dg_names g)")
  case True
  then obtain u where u: "getVertexID n g = Some u" using getVertexID_None [of n g] by auto
  have "vertex_for n g = Some (u, g)" using True u by (simp add: vertex_for_def hasVertex_def)
  then show ?thesis by (rule that) (use getVertexID_Some [OF u] assms True in auto)
next
  case False
  obtain u g' where g': "add_vertex n g = (u, g')" by (cases "add_vertex n g")
  have "vertex_for n g = Some (u, g')" using False g' by (simp add: vertex_for_def hasVertex_def)
  then show ?thesis
    by (rule that) (use add_vertex_ok [OF assms False] add_vertex_edges [of n g] g' False in \<open>auto simp: add_vertex_def nth_append\<close>)
qed

lemma add_edge_ok:
  assumes "dg_wf g" "u < length (dg_names g)" "v < length (dg_names g)" "(u, v) \<notin> dg_edges g"
  shows "dg_wf (add_edge u v g)" "depends (add_edge u v g) = insert (dg_names g ! u, dg_names g ! v) (depends g)"
    "remove_edge u v (add_edge u v g) = g" "dg_names (add_edge u v g) = dg_names g"
proof -
  have len: "length (dg_out g) = length (dg_names g)" using assms(1) by (simp add: dg_wf_def)
  have fresh: "v \<notin> set (dg_out g ! u)" using assms(2,4) len by (simp add: dg_edges_def)
  show n: "dg_names (add_edge u v g) = dg_names g" by (simp add: add_edge_def)
  have e: "dg_edges (add_edge u v g) = insert (u, v) (dg_edges g)"
    using assms(2) len by (auto simp: dg_edges_def add_edge_def nth_list_update split: if_splits)
  have "distinct vs" if "vs \<in> set (dg_out (add_edge u v g))" for vs
  proof -
    have "vs \<in> insert (dg_out g ! u @ [v]) (set (dg_out g))"
      using that set_update_subset_insert [of "dg_out g" u "dg_out g ! u @ [v]"] by (auto simp: add_edge_def)
    then show ?thesis using assms(1,2) fresh len by (auto simp: dg_wf_def)
  qed
  then show "dg_wf (add_edge u v g)" unfolding dg_wf_def e n
    using assms(1,3) len by (auto simp: dg_wf_def add_edge_def)
  show "depends (add_edge u v g) = insert (dg_names g ! u, dg_names g ! v) (depends g)" by (simp add: depends_def e n)
  have "filter (\<lambda>w. w \<noteq> v) (dg_out g ! u) = dg_out g ! u" using fresh by (auto simp: filter_id_conv)
  then show "remove_edge u v (add_edge u v g) = g" using assms(2) len by (simp add: remove_edge_def add_edge_def)
qed

lemma remove_edge_ok:
  assumes "dg_wf g" "u < length (dg_names g)" "v < length (dg_names g)"
  shows "dg_wf (remove_edge u v g)" "depends (remove_edge u v g) = depends g - {(dg_names g ! u, dg_names g ! v)}"
proof -
  have len: "length (dg_out g) = length (dg_names g)" using assms(1) by (simp add: dg_wf_def)
  have n: "dg_names (remove_edge u v g) = dg_names g" by (simp add: remove_edge_def)
  have e: "dg_edges (remove_edge u v g) = dg_edges g - {(u, v)}"
    using assms(2) len by (auto simp: dg_edges_def remove_edge_def nth_list_update split: if_splits)
  have "distinct vs" if "vs \<in> set (dg_out (remove_edge u v g))" for vs
  proof -
    have "vs \<in> insert (filter (\<lambda>w. w \<noteq> v) (dg_out g ! u)) (set (dg_out g))"
      using that set_update_subset_insert [of "dg_out g" u "filter (\<lambda>w. w \<noteq> v) (dg_out g ! u)"] by (auto simp: remove_edge_def)
    then show ?thesis using assms(1,2) len by (auto simp: dg_wf_def)
  qed
  then show "dg_wf (remove_edge u v g)" unfolding dg_wf_def e n
    using assms(1) len by (auto simp: dg_wf_def remove_edge_def)
  show "depends (remove_edge u v g) = depends g - {(dg_names g ! u, dg_names g ! v)}"
  proof (intro set_eqI iffI)
    fix x
    assume "x \<in> depends (remove_edge u v g)"
    then obtain a b where ab: "(a, b) \<in> dg_edges g" "(a, b) \<noteq> (u, v)" "x = (dg_names g ! a, dg_names g ! b)"
      by (auto simp: depends_def e n)
    then show "x \<in> depends g - {(dg_names g ! u, dg_names g ! v)}"
      using dg_edgesD [OF assms(1) ab(1)] dg_name_eq [OF assms(1)] assms(2,3) by (auto simp: depends_def)
  qed (auto simp: depends_def e n)
qed

section \<open>A search that keeps the promises\<close>

fun peel :: "nat \<Rightarrow> depgraph \<Rightarrow> nat list \<Rightarrow> nat list" where
  "peel 0 g c = c"
| "peel (Suc n) g c =
     (case List.find (\<lambda>u. u \<notin> set c \<and> set (dg_out g ! u) \<subseteq> set c) [0..<length (dg_names g)] of
        None \<Rightarrow> c
      | Some u \<Rightarrow> peel n g (c @ [u]))"

definition peel_sort :: "depgraph \<Rightarrow> nat list option" where
  "peel_sort g = (let n = length (dg_names g); c = peel n g [] in if length c = n then Some c else None)"

definition peel_cyclic :: "depgraph \<Rightarrow> bool" where
  "peel_cyclic g \<longleftrightarrow> peel_sort g = None"

definition peeled :: "depgraph \<Rightarrow> nat list \<Rightarrow> bool" where
  "peeled g c \<longleftrightarrow> distinct c \<and> set c \<subseteq> {..<length (dg_names g)} \<and> (\<forall>i < length c. set (dg_out g ! (c ! i)) \<subseteq> set (take i c))"

lemma peel_peeled: "peeled g c \<Longrightarrow> peeled g (peel n g c)"
proof (induction n g c rule: peel.induct)
  case (2 n g c)
  show ?case
  proof (cases "List.find (\<lambda>u. u \<notin> set c \<and> set (dg_out g ! u) \<subseteq> set c) [0..<length (dg_names g)]")
    case (Some u)
    then have u: "u \<notin> set c" "set (dg_out g ! u) \<subseteq> set c" "u < length (dg_names g)"
      by (auto simp: find_Some_iff)
    then have "peeled g (c @ [u])" using 2(2) by (auto simp: peeled_def nth_append less_Suc_eq)
    then show ?thesis using 2(1) [OF Some] Some by simp
  qed (use 2 in simp)
qed simp

lemma peeled_length: "peeled g c \<Longrightarrow> length c \<le> length (dg_names g)"
  unfolding peeled_def by (metis card_lessThan card_mono distinct_card finite_lessThan)

lemma peel_all:
  assumes wf: "dg_wf g" and ac: "acyclic (dg_edges g)"
  shows "peeled g c \<Longrightarrow> length c + n = length (dg_names g) \<Longrightarrow> length (peel n g c) = length (dg_names g)"
proof (induction n arbitrary: c)
  case (Suc n)
  have len: "length (dg_out g) = length (dg_names g)" using wf by (simp add: dg_wf_def)
  define R where "R = {..<length (dg_names g)} - set c"
  have "card (set c) < card {..<length (dg_names g)}" using Suc.prems by (simp add: peeled_def distinct_card)
  then have "R \<noteq> {}" unfolding R_def by (metis card_mono diff_shunt_var finite_set linorder_not_le)
  moreover have "wf ((dg_edges g)\<inverse>)" using finite_acyclic_wf_converse [OF finite_edges [OF wf] ac] .
  ultimately obtain u where u: "u \<in> R" "\<And>v. (v, u) \<in> (dg_edges g)\<inverse> \<Longrightarrow> v \<notin> R" by (metis wfE_min')
  have "v \<in> set c" if v: "v \<in> set (dg_out g ! u)" for v
  proof -
    have e: "(u, v) \<in> dg_edges g" using u(1) v len by (simp add: dg_edges_def R_def)
    then have "v \<notin> R" using u(2) by blast
    then show ?thesis using dg_edgesD [OF wf e] by (simp add: R_def)
  qed
  then obtain w where w: "List.find (\<lambda>u. u \<notin> set c \<and> set (dg_out g ! u) \<subseteq> set c) [0..<length (dg_names g)] = Some w"
    using u(1) by (cases "List.find (\<lambda>u. u \<notin> set c \<and> set (dg_out g ! u) \<subseteq> set c) [0..<length (dg_names g)]")
      (auto simp: find_None_iff R_def)
  then have "w \<notin> set c" "set (dg_out g ! w) \<subseteq> set c" "w < length (dg_names g)" by (auto simp: find_Some_iff)
  then have "peeled g (c @ [w])" using Suc.prems(1) by (auto simp: peeled_def nth_append less_Suc_eq)
  then show ?case using Suc.IH [of "c @ [w]"] Suc.prems(2) w by simp
qed simp

lemma peeledD: "peeled g c \<Longrightarrow> i < length c \<Longrightarrow> (c ! i, v) \<in> dg_edges g \<Longrightarrow> v \<in> set (take i c)"
  unfolding peeled_def dg_edges_def by blast

lemma peeled_sorted: "peeled g c \<Longrightarrow> later_first (dg_edges g) (rev c)"
proof -
  assume p: "peeled g c"
  have "(c ! i, c ! j) \<notin> dg_edges g" if ij: "i < j" "j < length c" for i j
  proof
    assume "(c ! i, c ! j) \<in> dg_edges g"
    then have "c ! j \<in> set (take i c)" using peeledD [OF p] ij by simp
    then obtain k where "k < i" "c ! k = c ! j" using ij by (auto simp: in_set_conv_nth)
    then show False using p ij by (auto simp: peeled_def nth_eq_iff_index_eq)
  qed
  then have "sorted_wrt (\<lambda>a b. (a, b) \<notin> dg_edges g) c" by (simp add: sorted_wrt_iff_nth_less)
  then show ?thesis by (simp add: later_first_def sorted_wrt_rev)
qed

lemma peeled_acyclic:
  assumes wf: "dg_wf g" and p: "peeled g c" and l: "length c = length (dg_names g)"
  shows "acyclic (dg_edges g)"
proof -
  define pos where "pos u = (THE i. i < length c \<and> c ! i = u)" for u
  have pos: "pos (c ! i) = i" if "i < length c" for i
    unfolding pos_def using p that by (auto simp: peeled_def nth_eq_iff_index_eq)
  have all: "set c = {..<length (dg_names g)}"
    using p l by (intro card_subset_eq) (auto simp: peeled_def distinct_card)
  have "(dg_edges g)\<inverse> \<subseteq> measure pos"
  proof clarify
    fix u v
    assume e: "(u, v) \<in> dg_edges g"
    then have "u \<in> set c" using dg_edgesD [OF wf e] all by simp
    then obtain i where i: "i < length c" "u = c ! i" by (auto simp: in_set_conv_nth)
    then have "v \<in> set (take i c)" using peeledD [OF p] e by simp
    then obtain k where "k < i" "v = c ! k" using i by (auto simp: in_set_conv_nth)
    then show "(v, u) \<in> measure pos" using i pos by simp
  qed
  then have "wf ((dg_edges g)\<inverse>)" by (rule wf_subset [OF wf_measure])
  then show ?thesis using wf_acyclic acyclic_converse by blast
qed

lemma peel_sort_Some:
  assumes "peel_sort g = Some c"
  shows "peeled g c \<and> length c = length (dg_names g)"
proof -
  have "peeled g []" by (simp add: peeled_def)
  from peel_peeled [OF this] show ?thesis using assms by (auto simp: peel_sort_def Let_def split: if_splits)
qed

lemma peel_sort_acyclic:
  assumes "dg_wf g" "acyclic (dg_edges g)"
  obtains c where "peel_sort g = Some c"
proof -
  have "peeled g []" by (simp add: peeled_def)
  from peel_all [OF assms this] show ?thesis using that by (simp add: peel_sort_def Let_def)
qed

interpretation peel: graph_library peel_cyclic peel_sort
proof
  fix g
  assume wf: "dg_wf g"
  show "peel_cyclic g \<longleftrightarrow> \<not> acyclic (dg_edges g)"
  proof (cases "peel_sort g")
    case None
    then show ?thesis using peel_sort_acyclic [OF wf] by (auto simp: peel_cyclic_def)
  next
    case (Some c)
    then show ?thesis using peel_sort_Some [OF Some] peeled_acyclic [OF wf] by (auto simp: peel_cyclic_def)
  qed
  assume ac: "acyclic (dg_edges g)"
  obtain c where c: "peel_sort g = Some c" by (rule peel_sort_acyclic [OF wf ac])
  note p = peel_sort_Some [OF c]
  have "set c = {..<length (dg_names g)}" using p by (intro card_subset_eq) (auto simp: peeled_def distinct_card)
  then show "\<exists>c. peel_sort g = Some c \<and> distinct c \<and> set c = {..<length (dg_names g)} \<and> later_first (dg_edges g) (rev c)"
    using c p peeled_sorted by (auto simp: peeled_def)
qed

section \<open>Adding and removing dependencies\<close>

context graph_library
begin

lemma cyc_depends: "dg_wf g \<Longrightarrow> cyc g \<longleftrightarrow> \<not> acyclic (depends g)"
  by (simp add: cyc acyclic_depends)

lemma addDependency_new:
  assumes ok: "dep_ok g" and ne: "c \<noteq> p" and new: "(c, p) \<notin> depends g"
  shows "\<exists>g'. addDependency cyc c p g = Some (if (p, c) \<in> (depends g)\<^sup>* then ERROR else OK, g') \<and> dep_ok g' \<and>
     depends g' = (if (p, c) \<in> (depends g)\<^sup>* then depends g else insert (c, p) (depends g)) \<and>
     set (dg_names g') = set (dg_names g) \<union> {c, p}"
proof -
  have wf: "dg_wf g" and ac: "acyclic (depends g)" using ok by (simp_all add: dep_ok_def)
  obtain u g1 where u: "vertex_for c g = Some (u, g1)" "dg_wf g1" "depends g1 = depends g" "u < length (dg_names g1)" "dg_names g1 ! u = c"
    "set (dg_names g1) = insert c (set (dg_names g))"
    by (rule vertex_for_ok [OF wf])
  obtain v g2 where v: "vertex_for p g1 = Some (v, g2)" "dg_wf g2" "depends g2 = depends g1" "v < length (dg_names g2)" "dg_names g2 ! v = p"
    "\<forall>i < length (dg_names g1). i < length (dg_names g2) \<and> dg_names g2 ! i = dg_names g1 ! i"
    "set (dg_names g2) = insert p (set (dg_names g1))"
    by (rule vertex_for_ok [OF u(2)])
  have u2: "u < length (dg_names g2)" "dg_names g2 ! u = c" using v(6) u(4,5) by auto
  have fresh: "(u, v) \<notin> dg_edges g2" using depends_iff [OF v(2) u2(1) v(4)] new u2 v(3,5) u(3) by simp
  define g3 where "g3 = add_edge u v g2"
  note g3 = add_edge_ok [OF v(2) u2(1) v(4) fresh, folded g3_def, unfolded u2(2) v(5)]
  have d3: "depends g3 = insert (c, p) (depends g)" using g3(2) v(3) u(3) by simp
  have cy: "cyc g3 \<longleftrightarrow> (p, c) \<in> (depends g)\<^sup>*" using cyc_depends [OF g3(1)] ac by (simp add: d3 acyclic_insert)
  have "p \<notin> set (getDependency c g)" using new getDependency_set(1) [OF wf] by blast
  then have res: "addDependency cyc c p g = Some (if cyc g3 then (ERROR, g2) else (OK, g3))"
    using ne u(1) v(1) g3(3) by (simp add: addDependency_def Let_def flip: g3_def)
  show ?thesis
  proof (cases "(p, c) \<in> (depends g)\<^sup>*")
    case True
    then show ?thesis using res cy v u ac by (intro exI [of _ g2]) (auto simp: dep_ok_def)
  next
    case False
    then show ?thesis using res cy g3 d3 u v ac by (intro exI [of _ g3]) (auto simp: dep_ok_def acyclic_insert)
  qed
qed

lemma addDependency_any:
  assumes ok: "dep_ok g"
  shows "\<exists>r g'. addDependency cyc c p g = Some (r, g') \<and> dep_ok g' \<and> (r = OK \<longleftrightarrow> c = p \<or> (p, c) \<notin> (depends g)\<^sup>*) \<and>
     depends g' = (if c = p \<or> r = ERROR then depends g else insert (c, p) (depends g))"
proof -
  have wf: "dg_wf g" and ac: "acyclic (depends g)" using ok by (simp_all add: dep_ok_def)
  consider "c = p" | "c \<noteq> p" "(c, p) \<in> depends g" | "c \<noteq> p" "(c, p) \<notin> depends g" by blast
  then show ?thesis
  proof cases
    case 1
    then show ?thesis using ok by (simp add: addDependency_def)
  next
    case 2
    have "(p, c) \<notin> (depends g)\<^sup>*"
      using ac 2(2) unfolding acyclic_def by (meson r_into_trancl' rtrancl_into_trancl2)
    then show ?thesis using 2 ok getDependency_set(1) [OF wf, of c] by (auto simp: addDependency_def insert_absorb)
  next
    case 3
    obtain g' where "addDependency cyc c p g = Some (if (p, c) \<in> (depends g)\<^sup>* then ERROR else OK, g')" "dep_ok g'"
      "depends g' = (if (p, c) \<in> (depends g)\<^sup>* then depends g else insert (c, p) (depends g))"
      using addDependency_new [OF ok 3] by blast
    then show ?thesis using 3 by (cases "(p, c) \<in> (depends g)\<^sup>*") auto
  qed
qed

lemma sorted_list:
  assumes ok: "dep_ok g"
  shows "\<exists>xs. getSortedList topo g = Some xs \<and> distinct xs \<and> set xs = set (dg_names g) \<and> later_first (depends g) xs"
proof -
  have wf: "dg_wf g" using ok by (simp add: dep_ok_def)
  obtain c where c: "topo g = Some c" "distinct c" "set c = {..<length (dg_names g)}" "later_first (dg_edges g) (rev c)"
    using topo [OF wf] ok acyclic_depends [OF wf] by (auto simp: dep_ok_def)
  define xs where "xs = map (\<lambda>u. dg_names g ! u) (rev c)"
  have "distinct xs" using c dg_name_eq [OF wf] by (auto simp: xs_def distinct_map inj_on_def)
  moreover have "set xs = (\<lambda>u. dg_names g ! u) ` {..<length (dg_names g)}" using c(3) by (simp add: xs_def)
  then have "set xs = set (dg_names g)" by (auto simp: set_conv_nth)
  moreover have "later_first (depends g) xs"
  proof -
    have "sorted_wrt (\<lambda>a b. (dg_names g ! b, dg_names g ! a) \<notin> depends g) (rev c)"
      by (rule sorted_wrt_mono_rel [OF _ c(4) [unfolded later_first_def]]) (use c(3) depends_iff [OF wf] in auto)
    then show ?thesis by (simp add: later_first_def xs_def sorted_wrt_map)
  qed
  ultimately show ?thesis using c(1) by (auto simp: getSortedList_def xs_def)
qed

end

lemma rmDependency_ok:
  assumes ok: "dep_ok g"
  shows "dep_ok (rmDependency c p g)" "depends (rmDependency c p g) = depends g - {(c, p)}"
proof -
  have wf: "dg_wf g" using ok by (simp add: dep_ok_def)
  show "dep_ok (rmDependency c p g)" and "depends (rmDependency c p g) = depends g - {(c, p)}"
  proof -
    consider u v where "getVertexID c g = Some u" "getVertexID p g = Some v" | "getVertexID c g = None \<or> getVertexID p g = None"
      by (cases "getVertexID c g"; cases "getVertexID p g") auto
    then have "dep_ok (rmDependency c p g) \<and> depends (rmDependency c p g) = depends g - {(c, p)}"
    proof cases
      case (1 u v)
      note r = remove_edge_ok [OF wf, of u v]
      show ?thesis using 1 r getVertexID_Some [OF 1(1)] getVertexID_Some [OF 1(2)] ok
        by (auto simp: rmDependency_def dep_ok_def intro: acyclic_subset)
    next
      case 2
      then have "rmDependency c p g = g" by (auto simp: rmDependency_def split: option.split)
      moreover have "(c, p) \<notin> depends g" using 2 dg_edgesD [OF wf] by (auto simp: getVertexID_None dest!: dependsD)
      ultimately show ?thesis using ok by simp
    qed
    then show "dep_ok (rmDependency c p g)" "depends (rmDependency c p g) = depends g - {(c, p)}" by blast+
  qed
qed

lemma dep_new_ok: "dep_ok dg_new" "dep_ok (dep_clear g)" "depends (dep_clear g) = {}"
  by (simp_all add: dep_ok_def dg_wf_def dg_new_def dep_clear_def depends_def dg_edges_def acyclic_def)

section \<open>Sequences of changes\<close>

datatype dep_op = DepAdd string string | DepRm string string | DepClear

definition dep_apply :: "(depgraph \<Rightarrow> bool) \<Rightarrow> dep_op \<Rightarrow> depgraph \<Rightarrow> depgraph option" where
  "dep_apply cyc op g =
     (case op of
        DepAdd c p \<Rightarrow> map_option snd (addDependency cyc c p g)
      | DepRm c p \<Rightarrow> Some (rmDependency c p g)
      | DepClear \<Rightarrow> Some (dep_clear g))"

fun dep_run :: "(depgraph \<Rightarrow> bool) \<Rightarrow> dep_op list \<Rightarrow> depgraph \<Rightarrow> depgraph option" where
  "dep_run cyc [] g = Some g"
| "dep_run cyc (op # ops) g = do { g \<leftarrow> dep_apply cyc op g; dep_run cyc ops g }"

lemma dep_apply_ok:
  assumes "graph_library cyc topo" "dep_ok g"
  obtains g' where "dep_apply cyc op g = Some g'" "dep_ok g'"
proof (cases op)
  case (DepAdd c p)
  obtain r g' where "addDependency cyc c p g = Some (r, g')" "dep_ok g'"
    using graph_library.addDependency_any [OF assms] by blast
  then show ?thesis using that [of g'] DepAdd by (simp add: dep_apply_def)
qed (use that assms(2) rmDependency_ok dep_new_ok in \<open>simp_all add: dep_apply_def\<close>)

lemma dep_run_ok: "graph_library cyc topo \<Longrightarrow> dep_ok g \<Longrightarrow> \<exists>g'. dep_run cyc ops g = Some g' \<and> dep_ok g'"
proof (induction ops arbitrary: g)
  case (Cons op ops)
  obtain g1 where "dep_apply cyc op g = Some g1" "dep_ok g1" by (rule dep_apply_ok [OF Cons.prems])
  then show ?case using Cons.IH [OF Cons.prems(1)] by simp
qed simp

text \<open>C23: Adding a dependency is refused if and only if it would close a cycle, in which case nothing
  changes; otherwise it adds just this dependency.  A module does not depend on itself, which is no
  error.  The graph never gets a cycle and no assertion fails.\<close>

theorem addDependency_spec:
  assumes "graph_library cyc topo" "dep_ok g"
  shows "\<exists>r g'. addDependency cyc c p g = Some (r, g') \<and> dep_ok g' \<and> (r = OK \<longleftrightarrow> c = p \<or> (p, c) \<notin> (depends g)\<^sup>*) \<and>
    depends g' = (if c = p \<or> r = ERROR then depends g else insert (c, p) (depends g))"
  by (rule graph_library.addDependency_any [OF assms])

definition two_modules :: depgraph where
  "two_modules = \<lparr>dg_names = [''dvb'', ''msgcore''], dg_out = [[1], []], dg_count = 2\<rparr>"

lemma two_modules_ok: "dep_ok two_modules \<and> depends two_modules = {(''dvb'', ''msgcore'')}"
proof -
  have e: "dg_edges two_modules = {(0, 1)}" by (auto simp: dg_edges_def two_modules_def nth_Cons' less_Suc_eq split: if_splits)
  then have "depends two_modules = {(''dvb'', ''msgcore'')}" by (simp add: depends_def two_modules_def)
  moreover have "dg_wf two_modules" using e by (auto simp: dg_wf_def two_modules_def)
  ultimately show ?thesis by (simp add: dep_ok_def acyclic_insert wf_acyclic)
qed

theorem addDependency_spec_witness:
  "\<exists>g'. addDependency peel_cyclic ''msgcore'' ''dvb'' two_modules = Some (ERROR, g') \<and> depends g' = {(''dvb'', ''msgcore'')}"
proof -
  obtain r g' where "addDependency peel_cyclic ''msgcore'' ''dvb'' two_modules = Some (r, g')"
    "r = OK \<longleftrightarrow> ''msgcore'' = ''dvb'' \<or> (''dvb'', ''msgcore'') \<notin> (depends two_modules)\<^sup>*"
    "depends g' = (if ''msgcore'' = ''dvb'' \<or> r = ERROR then depends two_modules else insert (''msgcore'', ''dvb'') (depends two_modules))"
    using addDependency_spec [OF peel.graph_library_axioms, of two_modules "''msgcore''" "''dvb''"] two_modules_ok by blast
  then show ?thesis using two_modules_ok by (cases r) auto
qed

text \<open>After any sequence of changes of the dependencies the modules can be sorted, every module
  once, so that each is before those it needs.\<close>

theorem dep_always_sorted:
  assumes "graph_library cyc topo"
  shows "\<exists>g xs. dep_run cyc ops dg_new = Some g \<and> getSortedList topo g = Some xs \<and> distinct xs \<and>
    set xs = set (dg_names g) \<and> later_first (depends g) xs"
  using dep_run_ok [OF assms dep_new_ok(1)] graph_library.sorted_list [OF assms] by blast

theorem dep_always_sorted_witness:
  "\<exists>g xs. dep_run peel_cyclic [DepAdd ''dvb'' ''msgcore'', DepAdd ''msgcore'' ''dvb''] dg_new = Some g \<and>
    getSortedList peel_sort g = Some xs \<and> distinct xs \<and> set xs = set (dg_names g) \<and> later_first (depends g) xs"
  by (rule dep_always_sorted [OF peel.graph_library_axioms])

end
