(* ===== verification/Semaphore.thy ===== *)
theory Semaphore
  imports Moddep
begin

text \<open>
  Semaphores and triggers, \<^verbatim>\<open>src/common/klksemaphore.cpp\<close> and \<^verbatim>\<open>src/common/thread.cpp\<close>.  A semaphore is
  its count.  A call that blocks is \<open>None\<close>; whether a call with a time limit gets a post in time is an
  argument.  The kernel reports no other errors.
\<close>

type_synonym sem = nat

definition sem_wait :: "sem \<Rightarrow> sem option" where
  "sem_wait c = (if c = 0 then None else Some (c - 1))"

definition sem_post :: "sem \<Rightarrow> sem" where
  "sem_post c = c + 1"

text \<open>True if the count was not zero.\<close>

definition sem_trywait :: "sem \<Rightarrow> bool \<times> sem" where
  "sem_trywait c = (if c = 0 then (False, c) else (True, c - 1))"

text \<open>\<open>posts\<close> is the number of posts before the time is over.\<close>

definition timedwait :: "nat \<Rightarrow> sem \<Rightarrow> result \<times> sem" where
  "timedwait posts c = (case sem_wait (c + posts) of None \<Rightarrow> (ERROR, sem_post (c + posts)) | Some c \<Rightarrow> (OK, c))"

definition isLocked :: "sem \<Rightarrow> bool \<times> sem" where
  "isLocked c = (case sem_trywait c of (False, c) \<Rightarrow> (True, c) | (True, c) \<Rightarrow> (False, sem_post c))"

definition sem_init :: "sem \<Rightarrow> sem" where
  "sem_init c = 0"

section \<open>Triggers\<close>

definition trigger_isStopped :: "sem \<Rightarrow> bool \<times> sem" where
  "trigger_isStopped c = (case isLocked c of (l, c) \<Rightarrow> (\<not> l, c))"

definition trigger_wait :: "sem \<Rightarrow> sem option" where
  "trigger_wait c = map_option sem_post (sem_wait c)"

definition trigger_stop :: "sem \<Rightarrow> sem" where
  "trigger_stop = sem_post"

definition trigger_init :: "sem \<Rightarrow> sem" where
  "trigger_init = sem_init"

lemma trigger_isStopped_eq: "trigger_isStopped c = (c \<noteq> 0, c)"
  by (simp add: trigger_isStopped_def isLocked_def sem_trywait_def sem_post_def)

lemma trigger_simps: "trigger_stop c \<noteq> 0" "trigger_init c = 0"
  by (simp_all add: trigger_stop_def trigger_init_def sem_post_def sem_init_def)

text \<open>A wait that fails leaves a semaphore that is not locked any more.\<close>

lemma timedwait_fails: "fst (timedwait posts c) = ERROR \<Longrightarrow> snd (timedwait posts c) = 1"
  by (simp add: timedwait_def sem_wait_def sem_post_def split: if_splits)

section \<open>Several threads that ask a trigger\<close>

text \<open>Asking is two calls of the kernel, the attempt to wait and the post behind it, and other threads
  run between them.\<close>

datatype asking = Asks | Took | Told bool

record asked =
  as_sem :: sem
  as_thread :: "nat \<Rightarrow> asking"

inductive ask_step :: "asked \<Rightarrow> asked \<Rightarrow> bool" where
  take: "as_thread s t = Asks \<Longrightarrow> sem_trywait (as_sem s) = (True, c) \<Longrightarrow>
    ask_step s (s\<lparr>as_sem := c, as_thread := (as_thread s)(t := Took)\<rparr>)"
| locked: "as_thread s t = Asks \<Longrightarrow> sem_trywait (as_sem s) = (False, c) \<Longrightarrow>
    ask_step s (s\<lparr>as_sem := c, as_thread := (as_thread s)(t := Told False)\<rparr>)"
| give: "as_thread s t = Took \<Longrightarrow>
    ask_step s (s\<lparr>as_sem := sem_post (as_sem s), as_thread := (as_thread s)(t := Told True)\<rparr>)"
| stop: "ask_step s (s\<lparr>as_sem := trigger_stop (as_sem s)\<rparr>)"
| again: "as_thread s t = Told b \<Longrightarrow> ask_step s (s\<lparr>as_thread := (as_thread s)(t := Asks)\<rparr>)"

inductive ask_steps :: "asked \<Rightarrow> asked \<Rightarrow> bool" where
  refl: "ask_steps s s"
| step: "ask_steps s s1 \<Longrightarrow> ask_step s1 s2 \<Longrightarrow> ask_steps s s2"

definition took :: "asked \<Rightarrow> nat set" where
  "took s = {t. as_thread s t = Took}"

lemma took_upd: "took (s\<lparr>as_sem := c, as_thread := (as_thread s)(t := x)\<rparr>) = (if x = Took then insert t (took s) else took s - {t})"
  by (auto simp: took_def)

text \<open>The count and the threads between their two calls together: what asking does not change.\<close>

definition stopped_once :: "asked \<Rightarrow> bool" where
  "stopped_once s \<longleftrightarrow> finite (took s) \<and> 0 < as_sem s + card (took s)"

lemma stopped_once_step: "ask_step s s' \<Longrightarrow> stopped_once s \<Longrightarrow> stopped_once s'"
proof (induction rule: ask_step.induct)
  case (take s t c)
  have "t \<notin> took s" using take(1) by (simp add: took_def)
  then show ?case using take by (auto simp: stopped_once_def took_upd sem_trywait_def split: if_splits)
next
  case (locked s t c)
  have "t \<notin> took s" using locked(1) by (simp add: took_def)
  then show ?case using locked by (auto simp: stopped_once_def took_upd sem_trywait_def split: if_splits)
next
  case (give s t)
  have "t \<in> took s" using give(1) by (simp add: took_def)
  then show ?case using give by (auto simp: stopped_once_def took_upd sem_post_def card_Diff_singleton)
next
  case (stop s)
  have "took (s\<lparr>as_sem := trigger_stop (as_sem s)\<rparr>) = took s" by (simp add: took_def)
  then show ?case using stop by (simp add: stopped_once_def trigger_stop_def sem_post_def)
next
  case (again s t b)
  have "took (s\<lparr>as_thread := (as_thread s)(t := Asks)\<rparr>) = took s" using again(1) by (auto simp: took_def)
  then show ?case using again by (simp add: stopped_once_def)
qed

lemma stopped_once_steps: "ask_steps s s' \<Longrightarrow> stopped_once s \<Longrightarrow> stopped_once s'"
  by (induction rule: ask_steps.induct) (auto dest: stopped_once_step)

text \<open>A trigger that has been stopped stays stopped whatever the threads that ask it do in
  between: a thread that asks alone, when no other is between its two calls, is told so.\<close>

theorem trigger_stays_stopped:
  assumes "ask_steps s s'" "stopped_once s" "took s' = {}"
  shows "fst (trigger_isStopped (as_sem s'))"
  using stopped_once_steps [OF assms(1,2)] assms(3) by (simp add: stopped_once_def trigger_isStopped_eq)

definition two_ask :: asked where
  "two_ask = \<lparr>as_sem = 1, as_thread = \<lambda>t. Asks\<rparr>"

lemma two_ask_stopped: "stopped_once two_ask"
  by (simp add: stopped_once_def two_ask_def took_def)

theorem trigger_stays_stopped_witness:
  "fst (trigger_isStopped (as_sem (two_ask\<lparr>as_sem := 1, as_thread := (\<lambda>t. Asks)(0 := Told True)\<rparr>)))"
proof -
  let ?s1 = "two_ask\<lparr>as_sem := 0, as_thread := (as_thread two_ask)(0 := Took)\<rparr>"
  let ?s2 = "?s1\<lparr>as_sem := sem_post (as_sem ?s1), as_thread := (as_thread ?s1)(0 := Told True)\<rparr>"
  have "ask_step two_ask ?s1" by (rule ask_step.take) (simp_all add: two_ask_def sem_trywait_def)
  moreover have "ask_step ?s1 ?s2" by (rule ask_step.give) simp
  ultimately have steps: "ask_steps two_ask ?s2" by (meson ask_steps.intros)
  have "took ?s2 = {}" by (auto simp: took_def two_ask_def)
  from trigger_stays_stopped [OF steps two_ask_stopped this] show ?thesis by (simp add: two_ask_def sem_post_def)
qed

text \<open>Of two threads that ask a stopped trigger at the same time, one can be told that it runs.\<close>

theorem trigger_ask_race: "\<exists>s. ask_steps two_ask s \<and> as_thread s 1 = Told False"
proof -
  let ?s1 = "two_ask\<lparr>as_sem := 0, as_thread := (as_thread two_ask)(0 := Took)\<rparr>"
  let ?s2 = "?s1\<lparr>as_sem := 0, as_thread := (as_thread ?s1)(1 := Told False)\<rparr>"
  have "ask_step two_ask ?s1" by (rule ask_step.take) (simp_all add: two_ask_def sem_trywait_def)
  moreover have "ask_step ?s1 ?s2" by (rule ask_step.locked) (simp_all add: two_ask_def sem_trywait_def)
  ultimately have "ask_steps two_ask ?s2" by (meson ask_steps.intros)
  then show ?thesis by (intro exI [of _ ?s2]) simp
qed

section \<open>Events\<close>

text \<open>\<^verbatim>\<open>Event\<close>: one thread waits and others end its wait.  A call of the kernel that waits comes back because it
  was woken, with or without a reason, because its time is over, or because of a signal of the system.\<close>

record event =
  ev_exit :: bool
  ev_loop :: bool

datatype wakeup = Wake | Wake_timeout | Wake_interrupted

definition event_new :: event where
  "event_new = \<lparr>ev_exit = False, ev_loop = False\<rparr>"

definition event_done :: "result \<Rightarrow> event \<Rightarrow> result option \<times> event" where
  "event_done rc e = (Some rc, e\<lparr>ev_loop := False, ev_exit := False\<rparr>)"

text \<open>The head of the loop in \<^verbatim>\<open>startWait\<close>; without a result the thread waits.\<close>

definition startWait :: "event \<Rightarrow> result option \<times> event" where
  "startWait e = (if ev_exit e then event_done OK e else (None, e\<lparr>ev_loop := True\<rparr>))"

definition wait_end :: "nat \<Rightarrow> wakeup \<Rightarrow> event \<Rightarrow> result option \<times> event" where
  "wait_end interval w e =
     (if interval \<noteq> 0
      then (case w of Wake_timeout \<Rightarrow> event_done ERROR e | Wake \<Rightarrow> event_done OK e | Wake_interrupted \<Rightarrow> startWait e)
      else startWait e)"

text \<open>True if the waiting thread is woken.\<close>

definition stopWait :: "event \<Rightarrow> bool \<times> event" where
  "stopWait e = (if ev_loop e then (True, e\<lparr>ev_exit := True\<rparr>) else (False, e))"

text \<open>An event that nobody waits for is forgotten.\<close>

lemma stopWait_lost: "\<not> ev_loop e \<Longrightarrow> stopWait e = (False, e)"
  by (simp add: stopWait_def)

text \<open>A thread that waits is woken, and its wait ends when it runs, unless its time was over.\<close>

lemma stopWait_wakes:
  "ev_loop e \<Longrightarrow> fst (stopWait e) \<and> (w \<noteq> Wake_timeout \<or> interval = 0 \<longrightarrow> fst (wait_end interval w (snd (stopWait e))) = Some OK)"
  by (cases w) (simp_all add: stopWait_def wait_end_def startWait_def event_done_def)

end
