(* ===== verification/Scheduler.thy ===== *)
theory Scheduler
  imports Semaphore
begin

text \<open>
  The scheduler of threads, \<^verbatim>\<open>src/common/scheduler.cpp\<close> and \<^verbatim>\<open>src/common/modulescheduler.cpp\<close>.

  A thread is a name; the object behind it, with its virtual methods, is in a table.  The methods are
  \<open>thread_ops\<close>: \<^verbatim>\<open>init\<close>, \<^verbatim>\<open>stop\<close> and \<^verbatim>\<open>isStopped\<close>; the locale \<open>thread_object\<close> states what the scheduler
  relies on, and it holds for the threads of \<^verbatim>\<open>thread.cpp\<close>.  Threads that are made and joined are
  written to a log.  \<open>create\<close> says whether the kernel makes a thread.  A call that throws gives
  \<open>Thrown\<close> together with the state it leaves.
\<close>

datatype outcome = Done | Thrown

datatype sevent = Created string | Stopping string | Joined string

record 'o thread_ops =
  th_init :: "'o \<Rightarrow> 'o"
  th_stop :: "'o \<Rightarrow> 'o"
  th_isStopped :: "'o \<Rightarrow> bool"

record 'o sched =
  sc_threads :: "string list"
  sc_stop :: sem
  sc_obj :: "string \<Rightarrow> 'o"
  sc_log :: "sevent list"

definition sched_new :: "(string \<Rightarrow> 'o) \<Rightarrow> 'o sched" where
  "sched_new objs = \<lparr>sc_threads = [], sc_stop = 0, sc_obj = objs, sc_log = []\<rparr>"

definition isStartedUnsafe :: "string \<Rightarrow> 'o sched \<Rightarrow> bool" where
  "isStartedUnsafe t s \<longleftrightarrow> t \<in> set (sc_threads s)"

definition set_obj :: "string \<Rightarrow> 'o \<Rightarrow> 'o sched \<Rightarrow> 'o sched" where
  "set_obj t ob s = s\<lparr>sc_obj := (sc_obj s)(t := ob)\<rparr>"

definition startThread :: "'o thread_ops \<Rightarrow> (string \<Rightarrow> bool) \<Rightarrow> string \<Rightarrow> 'o sched \<Rightarrow> outcome \<times> 'o sched" where
  "startThread ops create t s =
     (if fst (trigger_isStopped (sc_stop s)) then (Done, s)
      else if isStartedUnsafe t s then (Done, s)
      else
        (let s = set_obj t (th_init ops (sc_obj s t)) s
         in if \<not> create t then (Thrown, s)
            else (Done, s\<lparr>sc_threads := t # sc_threads s, sc_log := sc_log s @ [Created t]\<rparr>)))"

text \<open>The thread ends once it has been stopped, so joining it returns.\<close>

definition stopThreadByInfo :: "'o thread_ops \<Rightarrow> string \<Rightarrow> 'o sched \<Rightarrow> 'o sched" where
  "stopThreadByInfo ops t s =
     (if th_isStopped ops (sc_obj s t) then s
      else (set_obj t (th_stop ops (sc_obj s t)) s)\<lparr>sc_log := sc_log s @ [Stopping t, Joined t]\<rparr>)"

definition eraseThread :: "string \<Rightarrow> 'o sched \<Rightarrow> 'o sched" where
  "eraseThread t s = s\<lparr>sc_threads := remove1 t (sc_threads s)\<rparr>"

definition stopThread :: "'o thread_ops \<Rightarrow> string \<Rightarrow> 'o sched \<Rightarrow> outcome \<times> 'o sched" where
  "stopThread ops t s =
     (if fst (trigger_isStopped (sc_stop s)) then (Done, s)
      else if t \<notin> set (sc_threads s) then (Thrown, s)
      else (Done, eraseThread t (stopThreadByInfo ops t s)))"

definition sched_stop :: "'o thread_ops \<Rightarrow> 'o sched \<Rightarrow> 'o sched" where
  "sched_stop ops s =
     (let s = s\<lparr>sc_stop := trigger_stop (sc_stop s)\<rparr>;
          s = foldl (\<lambda>s t. stopThreadByInfo ops t s) s (sc_threads s)
      in s\<lparr>sc_threads := []\<rparr>)"

definition sched_clear :: "'o sched \<Rightarrow> 'o sched" where
  "sched_clear s = s\<lparr>sc_stop := trigger_init (sc_stop s)\<rparr>"

section \<open>The scheduler of a module\<close>

text \<open>\<open>ms_list\<close> holds the threads of the module; an assertion keeps a thread from being in it twice.\<close>

record 'o mod_sched =
  ms_base :: "'o sched"
  ms_list :: "string list"

definition addThread :: "string \<Rightarrow> 'o mod_sched \<Rightarrow> outcome \<times> 'o mod_sched" where
  "addThread t m = (if t \<in> set (ms_list m) then (Thrown, m) else (Done, m\<lparr>ms_list := ms_list m @ [t]\<rparr>))"

fun start_each :: "'o thread_ops \<Rightarrow> (string \<Rightarrow> bool) \<Rightarrow> string list \<Rightarrow> 'o sched \<Rightarrow> outcome \<times> 'o sched" where
  "start_each ops create [] s = (Done, s)"
| "start_each ops create (t # ts) s =
     (case startThread ops create t s of (Thrown, s) \<Rightarrow> (Thrown, s) | (Done, s) \<Rightarrow> start_each ops create ts s)"

definition mod_sched_start :: "'o thread_ops \<Rightarrow> (string \<Rightarrow> bool) \<Rightarrow> 'o mod_sched \<Rightarrow> outcome \<times> 'o mod_sched" where
  "mod_sched_start ops create m =
     (case start_each ops create (ms_list m) (sched_clear (ms_base m)) of (r, s) \<Rightarrow> (r, m\<lparr>ms_base := s\<rparr>))"

section \<open>Threads\<close>

text \<open>What the scheduler needs of the objects behind the threads.\<close>

locale thread_object =
  fixes ops :: "'o thread_ops"
  assumes init_runs: "\<not> th_isStopped ops (th_init ops ob)"
    and stop_stops: "th_isStopped ops (th_stop ops ob)"

text \<open>The class of threads holds a trigger.\<close>

definition thread_init :: "sem \<Rightarrow> sem" where
  "thread_init = trigger_init"

definition thread_stop :: "sem \<Rightarrow> sem" where
  "thread_stop = trigger_stop"

definition thread_isStopped :: "sem \<Rightarrow> bool" where
  "thread_isStopped c = fst (trigger_isStopped c)"

definition base_thread :: "sem thread_ops" where
  "base_thread = \<lparr>th_init = thread_init, th_stop = thread_stop, th_isStopped = thread_isStopped\<rparr>"

interpretation base_thread: thread_object base_thread
  by unfold_locales
    (simp_all add: base_thread_def thread_init_def thread_stop_def thread_isStopped_def trigger_isStopped_eq trigger_simps)

section \<open>What the scheduler keeps\<close>

text \<open>No thread is there twice and none of them has been stopped.\<close>

definition sched_ok :: "'o thread_ops \<Rightarrow> 'o sched \<Rightarrow> bool" where
  "sched_ok ops s \<longleftrightarrow> distinct (sc_threads s) \<and> (\<forall>t \<in> set (sc_threads s). \<not> th_isStopped ops (sc_obj s t))"

text \<open>The threads stopped by a log, in order.\<close>

definition stops_of :: "sevent list \<Rightarrow> string list" where
  "stops_of es = List.map_filter (\<lambda>e. case e of Stopping t \<Rightarrow> Some t | _ \<Rightarrow> None) es"

lemma stops_of_simps [simp]: "stops_of [] = []" "stops_of (xs @ ys) = stops_of xs @ stops_of ys"
  "stops_of (Created t # es) = stops_of es" "stops_of (Stopping t # es) = t # stops_of es" "stops_of (Joined t # es) = stops_of es"
  by (simp_all add: stops_of_def map_filter_simps List.map_filter_def)

context thread_object
begin

lemma startThread_cases:
  assumes "sc_stop s = 0"
  shows "startThread ops create t s =
     (if t \<in> set (sc_threads s) then (Done, s)
      else if create t then (Done, s\<lparr>sc_obj := (sc_obj s)(t := th_init ops (sc_obj s t)), sc_threads := t # sc_threads s,
                                   sc_log := sc_log s @ [Created t]\<rparr>)
      else (Thrown, s\<lparr>sc_obj := (sc_obj s)(t := th_init ops (sc_obj s t))\<rparr>))"
  using assms by (simp add: startThread_def trigger_isStopped_eq isStartedUnsafe_def set_obj_def Let_def)

lemma startThread_ok:
  assumes "sched_ok ops s" "sc_stop s = 0" "startThread ops create t s = (r, s')"
  shows "sched_ok ops s'"
  using assms(1,3) unfolding startThread_cases [OF assms(2)]
  by (auto simp: sched_ok_def init_runs split: if_splits)

lemma stopThread_cases:
  assumes "sched_ok ops s" "sc_stop s = 0" "t \<in> set (sc_threads s)"
  shows "stopThread ops t s = (Done, s\<lparr>sc_obj := (sc_obj s)(t := th_stop ops (sc_obj s t)),
      sc_log := sc_log s @ [Stopping t, Joined t], sc_threads := remove1 t (sc_threads s)\<rparr>)"
  using assms
  by (simp add: stopThread_def trigger_isStopped_eq eraseThread_def stopThreadByInfo_def set_obj_def sched_ok_def)

lemma stopThread_ok:
  assumes "sched_ok ops s" "sc_stop s = 0" "t \<in> set (sc_threads s)" "stopThread ops t s = (r, s')"
  shows "sched_ok ops s'"
  using assms(1,4) unfolding stopThread_cases [OF assms(1-3)] by (auto simp: sched_ok_def)

text \<open>Stopping a list of running threads.\<close>

lemma stop_each:
  "distinct ts \<Longrightarrow> \<forall>t \<in> set ts. \<not> th_isStopped ops (sc_obj s t) \<Longrightarrow>
   \<exists>s'. foldl (\<lambda>s t. stopThreadByInfo ops t s) s ts = s' \<and> stops_of (sc_log s') = stops_of (sc_log s) @ ts \<and>
     sc_threads s' = sc_threads s \<and> sc_stop s' = sc_stop s \<and> (\<forall>t \<in> set ts. th_isStopped ops (sc_obj s' t)) \<and>
     (\<forall>t. t \<notin> set ts \<longrightarrow> sc_obj s' t = sc_obj s t)"
proof (induction ts arbitrary: s)
  case (Cons t ts)
  define s1 where "s1 = stopThreadByInfo ops t s"
  have s1: "sc_log s1 = sc_log s @ [Stopping t, Joined t]" "sc_obj s1 = (sc_obj s)(t := th_stop ops (sc_obj s t))"
    "sc_threads s1 = sc_threads s" "sc_stop s1 = sc_stop s"
    using Cons.prems(2) by (simp_all add: s1_def stopThreadByInfo_def set_obj_def)
  have "\<forall>u \<in> set ts. \<not> th_isStopped ops (sc_obj s1 u)" using Cons.prems s1(2) by auto
  then obtain s' where "foldl (\<lambda>s t. stopThreadByInfo ops t s) s1 ts = s'" "stops_of (sc_log s') = stops_of (sc_log s1) @ ts"
    "sc_threads s' = sc_threads s1" "sc_stop s' = sc_stop s1" "\<forall>t \<in> set ts. th_isStopped ops (sc_obj s' t)"
    "\<forall>t. t \<notin> set ts \<longrightarrow> sc_obj s' t = sc_obj s1 t"
    using Cons.IH [of s1] Cons.prems(1) by auto
  then show ?case using s1 Cons.prems(1) stop_stops by (auto simp flip: s1_def)
qed simp

lemma sched_stop_all:
  assumes "sched_ok ops s"
  shows "sc_threads (sched_stop ops s) = []" "stops_of (sc_log (sched_stop ops s)) = stops_of (sc_log s) @ sc_threads s"
    "\<forall>t \<in> set (sc_threads s). th_isStopped ops (sc_obj (sched_stop ops s) t)" "0 < sc_stop (sched_stop ops s)"
    "\<forall>t. t \<notin> set (sc_threads s) \<longrightarrow> sc_obj (sched_stop ops s) t = sc_obj s t"
proof -
  let ?s = "s\<lparr>sc_stop := trigger_stop (sc_stop s)\<rparr>"
  have "distinct (sc_threads ?s)" "\<forall>t \<in> set (sc_threads ?s). \<not> th_isStopped ops (sc_obj ?s t)"
    using assms by (simp_all add: sched_ok_def)
  from stop_each [OF this] show "sc_threads (sched_stop ops s) = []"
    "stops_of (sc_log (sched_stop ops s)) = stops_of (sc_log s) @ sc_threads s"
    "\<forall>t \<in> set (sc_threads s). th_isStopped ops (sc_obj (sched_stop ops s) t)" "0 < sc_stop (sched_stop ops s)"
    "\<forall>t. t \<notin> set (sc_threads s) \<longrightarrow> sc_obj (sched_stop ops s) t = sc_obj s t"
    by (auto simp: sched_stop_def Let_def trigger_stop_def sem_post_def)
qed

lemma start_each_all:
  "sched_ok ops s \<Longrightarrow> sc_stop s = 0 \<Longrightarrow> \<forall>t \<in> set ts. create t \<Longrightarrow>
   \<exists>s'. start_each ops create ts s = (Done, s') \<and> sched_ok ops s' \<and> sc_stop s' = 0 \<and>
     set (sc_threads s') = set (sc_threads s) \<union> set ts"
proof (induction ts arbitrary: s)
  case (Cons t ts)
  obtain s1 where s1: "startThread ops create t s = (Done, s1)" "sc_stop s1 = 0" "set (sc_threads s1) = insert t (set (sc_threads s))"
    using Cons.prems unfolding startThread_cases [OF Cons.prems(2)] by (cases "t \<in> set (sc_threads s)") auto
  have "sched_ok ops s1" by (rule startThread_ok [OF Cons.prems(1,2) s1(1)])
  then show ?case using Cons.IH [of s1] Cons.prems s1 by auto
qed simp

end

text \<open>The scheduler of a module can be started again after a stop: it then runs every thread of
  the module, each once, and none of them has been stopped.\<close>

theorem mod_sched_restart:
  assumes "thread_object ops" "sched_ok ops (ms_base m)" "\<forall>t. create t"
  shows "\<exists>s. mod_sched_start ops create (m\<lparr>ms_base := sched_stop ops (ms_base m)\<rparr>) = (Done, m\<lparr>ms_base := s\<rparr>) \<and>
     sched_ok ops s \<and> set (sc_threads s) = set (ms_list m)"
proof -
  let ?b = "sched_clear (sched_stop ops (ms_base m))"
  note stop = thread_object.sched_stop_all [OF assms(1,2)]
  have "sched_ok ops ?b" "sc_stop ?b = 0" "sc_threads ?b = []"
    using stop by (simp_all add: sched_ok_def sched_clear_def trigger_simps)
  then show ?thesis using thread_object.start_each_all [OF assms(1), of ?b "ms_list m" create] assms(3)
    by (auto simp: mod_sched_start_def)
qed

theorem mod_sched_restart_witness:
  "\<exists>s. mod_sched_start base_thread (\<lambda>t. True)
     (\<lparr>ms_base = sched_new (\<lambda>t. 0), ms_list = [''timer'']\<rparr>\<lparr>ms_base := sched_stop base_thread (sched_new (\<lambda>t. 0))\<rparr>) =
       (Done, \<lparr>ms_base = s, ms_list = [''timer'']\<rparr>) \<and> sched_ok base_thread s \<and> set (sc_threads s) = {''timer''}"
  using mod_sched_restart [OF base_thread.thread_object_axioms, of "\<lparr>ms_base = sched_new (\<lambda>t. 0), ms_list = [''timer'']\<rparr>" "\<lambda>t. True"]
  by (simp add: sched_ok_def sched_new_def)

end
