(* ===== verification/Modfactory.thy ===== *)
theory Modfactory
  imports Scheduler
begin

text \<open>
  The factory of modules, \<^verbatim>\<open>src/common/modfactory.cpp\<close>, with the start of a module from
  \<^verbatim>\<open>src/common/module.cpp\<close>: a module is loaded after the modules it needs, and all are unloaded in
  the reverse order.

  The modules themselves are libraries.  What the factory sees of them is in the environment: which
  of them there are (\<open>me_lib\<close>), the dependencies each registers (\<open>me_reg\<close>), whether it has devices
  (\<open>me_res\<close>), whether the kernel makes its thread (\<open>me_create\<close>) and how many of its start-up
  checkpoints its threads pass before and during the wait for it (\<open>me_before\<close>, \<open>me_during\<close>).  The lock
  of the factory makes an operation one step.
\<close>

section \<open>The object of a module\<close>

record modobj =
  mo_stop :: sem
  mo_start_sem :: sem
  mo_checkpoints :: int

definition modobj_new :: modobj where
  "modobj_new = \<lparr>mo_stop = 0, mo_start_sem = 0, mo_checkpoints = 0\<rparr>"

definition registerStartupCheckpoint :: "modobj \<Rightarrow> modobj" where
  "registerStartupCheckpoint m = m\<lparr>mo_checkpoints := mo_checkpoints m + 1\<rparr>"

definition passStartupCheckpoint :: "modobj \<Rightarrow> modobj" where
  "passStartupCheckpoint m =
     (let m = m\<lparr>mo_checkpoints := mo_checkpoints m - 1\<rparr>
      in if mo_checkpoints m \<le> 0 then m\<lparr>mo_checkpoints := 0, mo_start_sem := sem_post (mo_start_sem m)\<rparr> else m)"

definition module_isStarted :: "modobj \<Rightarrow> bool" where
  "module_isStarted m \<longleftrightarrow> \<not> mo_checkpoints m > 0"

text \<open>The queues of messages are started here, too; they are a model of their own.\<close>

definition module_init :: "modobj \<Rightarrow> modobj" where
  "module_init m =
     (let m = m\<lparr>mo_stop := thread_init (mo_stop m)\<rparr>;
          m = m\<lparr>mo_start_sem := sem_init (mo_start_sem m)\<rparr>
      in registerStartupCheckpoint m)"

definition module_stop :: "modobj \<Rightarrow> modobj" where
  "module_stop m = m\<lparr>mo_stop := thread_stop (mo_stop m)\<rparr>"

definition module_isStopped :: "modobj \<Rightarrow> bool" where
  "module_isStopped m = thread_isStopped (mo_stop m)"

definition module_ops :: "modobj thread_ops" where
  "module_ops = \<lparr>th_init = module_init, th_stop = module_stop, th_isStopped = module_isStopped\<rparr>"

text \<open>Checkpoints passed before the wait begins and while it lasts.\<close>

definition waitStart :: "nat \<Rightarrow> nat \<Rightarrow> modobj \<Rightarrow> outcome \<times> modobj" where
  "waitStart before during m =
     (let m = (passStartupCheckpoint ^^ before) m
      in if module_isStarted m then (Done, m)
         else
           (let m = (passStartupCheckpoint ^^ during) m
            in case timedwait 0 (mo_start_sem m) of
                 (OK, c) \<Rightarrow> (Done, m\<lparr>mo_start_sem := c\<rparr>)
               | (ERROR, c) \<Rightarrow> (Thrown, m\<lparr>mo_start_sem := c\<rparr>)))"

interpretation module_thread: thread_object module_ops
  by unfold_locales
    (simp_all add: module_ops_def module_init_def module_stop_def module_isStopped_def registerStartupCheckpoint_def
      thread_init_def thread_stop_def thread_isStopped_def trigger_isStopped_eq trigger_simps)

section \<open>The factory\<close>

record menv =
  me_cyc :: "depgraph \<Rightarrow> bool"
  me_topo :: "depgraph \<Rightarrow> nat list option"
  me_lib :: "string \<Rightarrow> bool"
  me_reg :: "string \<Rightarrow> string list"
  me_res :: "string \<Rightarrow> bool"
  me_create :: "string \<Rightarrow> bool"
  me_before :: "string \<Rightarrow> nat"
  me_during :: "string \<Rightarrow> nat"

record modfactory =
  mf_modules :: "string list"
  mf_resources :: "string \<rightharpoonup> bool"
  mf_devices :: "string list"
  mf_graph :: depgraph
  mf_sched :: "modobj sched"

definition mf_new :: modfactory where
  "mf_new = \<lparr>mf_modules = [], mf_resources = Map.empty, mf_devices = [], mf_graph = dg_new,
     mf_sched = sched_new (\<lambda>_. modobj_new)\<rparr>"

text \<open>The dependencies a module registers for itself; a refusal is an assertion that fails.\<close>

fun registerProcessors :: "menv \<Rightarrow> string \<Rightarrow> string list \<Rightarrow> depgraph \<Rightarrow> outcome \<times> depgraph" where
  "registerProcessors env m [] g = (Done, g)"
| "registerProcessors env m (d # ds) g =
     (if d = m then registerProcessors env m ds g
      else
        (case addDependency (me_cyc env) m d g of
           Some (OK, g) \<Rightarrow> registerProcessors env m ds g
         | Some (ERROR, g) \<Rightarrow> (Thrown, g)
         | None \<Rightarrow> (Thrown, g)))"

definition getModuleUnsafe :: "string \<Rightarrow> modfactory \<Rightarrow> bool" where
  "getModuleUnsafe m f \<longleftrightarrow> m \<in> set (mf_modules f)"

definition addModule :: "menv \<Rightarrow> string \<Rightarrow> modfactory \<Rightarrow> outcome \<times> modfactory" where
  "addModule env m f =
     (if getModuleUnsafe m f then (Thrown, f)
      else
        (case registerProcessors env m (me_reg env m) (mf_graph f) of
           (Thrown, g) \<Rightarrow> (Thrown, f\<lparr>mf_graph := g\<rparr>)
         | (Done, g) \<Rightarrow> (Done, f\<lparr>mf_graph := g, mf_modules := mf_modules f @ [m]\<rparr>)))"

definition getModule4Start :: "menv \<Rightarrow> string \<Rightarrow> modfactory \<Rightarrow> outcome \<times> modfactory" where
  "getModule4Start env m f =
     (if m = [] then (Thrown, f)
      else if getModuleUnsafe m f then (Done, f)
      else if me_lib env m then addModule env m f
      else (Thrown, f))"

text \<open>Resources of a module, true if there are any.  A module without resources is remembered, but
  asked again, since what is remembered is the null pointer.\<close>

definition getResources :: "menv \<Rightarrow> string \<Rightarrow> modfactory \<Rightarrow> bool \<times> modfactory" where
  "getResources env m f =
     (if mf_resources f m = Some True then (True, f)
      else
        (let r = me_res env m
         in (r, if mf_resources f m = None then f\<lparr>mf_resources := (mf_resources f)(m \<mapsto> r)\<rparr> else f)))"

definition startModuleThread :: "menv \<Rightarrow> string \<Rightarrow> modfactory \<Rightarrow> outcome \<times> modfactory" where
  "startModuleThread env m f =
     (case (if \<not> isStartedUnsafe m (mf_sched f) then
              (case getResources env m f of
                 (r, f) \<Rightarrow>
                   let f = (if r then f\<lparr>mf_devices := mf_devices f @ [m]\<rparr> else f)
                   in case startThread module_ops (me_create env) m (mf_sched f) of (r, s) \<Rightarrow> (r, f\<lparr>mf_sched := s\<rparr>))
            else (Done, f)) of
        (Thrown, f) \<Rightarrow> (Thrown, f)
      | (Done, f) \<Rightarrow> (if isStartedUnsafe m (mf_sched f) then Done else Thrown, f))"

definition waitModule :: "menv \<Rightarrow> string \<Rightarrow> modfactory \<Rightarrow> outcome \<times> modfactory" where
  "waitModule env m f =
     (case waitStart (me_before env m) (me_during env m) (sc_obj (mf_sched f) m) of
        (r, ob) \<Rightarrow> (r, f\<lparr>mf_sched := set_obj m ob (mf_sched f)\<rparr>))"

text \<open>Loading calls itself for the dependencies.  The first argument bounds the depth of the calls;
  \<open>None\<close> means that it was too small.\<close>

fun load :: "nat \<Rightarrow> menv \<Rightarrow> string \<Rightarrow> modfactory \<Rightarrow> (outcome \<times> modfactory) option"
  and load_each :: "nat \<Rightarrow> menv \<Rightarrow> string list \<Rightarrow> modfactory \<Rightarrow> (outcome \<times> modfactory) option" where
  "load 0 env m f = None"
| "load (Suc n) env m f =
     (case getModule4Start env m f of
        (Thrown, f) \<Rightarrow> Some (Thrown, f)
      | (Done, f) \<Rightarrow>
          (case load_each n env (getDependency m (mf_graph f)) f of
             None \<Rightarrow> None
           | Some (Thrown, f) \<Rightarrow> Some (Thrown, f)
           | Some (Done, f) \<Rightarrow>
               (case startModuleThread env m f of
                  (Thrown, f) \<Rightarrow> Some (Thrown, f)
                | (Done, f) \<Rightarrow> Some (waitModule env m f))))"
| "load_each n env [] f = Some (Done, f)"
| "load_each n env (d # ds) f =
     (case load n env d f of
        None \<Rightarrow> None
      | Some (Thrown, f) \<Rightarrow> Some (Thrown, f)
      | Some (Done, f) \<Rightarrow> load_each n env ds f)"

definition unload :: "string \<Rightarrow> modfactory \<Rightarrow> outcome \<times> modfactory" where
  "unload m f =
     (if m = [] then (Thrown, f)
      else if \<not> getModuleUnsafe m f then (Done, f)
      else
        (case (if isStartedUnsafe m (mf_sched f) then stopThread module_ops m (mf_sched f) else (Done, mf_sched f)) of
           (Thrown, s) \<Rightarrow> (Thrown, f\<lparr>mf_sched := s\<rparr>)
         | (Done, s) \<Rightarrow> (if isStartedUnsafe m s then Thrown else Done, f\<lparr>mf_sched := s\<rparr>)))"

fun unload_each :: "string list \<Rightarrow> modfactory \<Rightarrow> outcome \<times> modfactory" where
  "unload_each [] f = (Done, f)"
| "unload_each (m # ms) f = (case unload m f of (Thrown, f) \<Rightarrow> (Thrown, f) | (Done, f) \<Rightarrow> unload_each ms f)"

definition unloadAll :: "menv \<Rightarrow> modfactory \<Rightarrow> outcome \<times> modfactory" where
  "unloadAll env f =
     (case getSortedList (me_topo env) (mf_graph f) of
        None \<Rightarrow> (Thrown, f)
      | Some ms \<Rightarrow>
          (case unload_each ms f of
             (Thrown, f) \<Rightarrow> (Thrown, f)
           | (Done, f) \<Rightarrow> (Done, f\<lparr>mf_graph := dep_clear (mf_graph f), mf_sched := sched_stop module_ops (mf_sched f)\<rparr>)))"

definition isLoaded :: "string \<Rightarrow> modfactory \<Rightarrow> bool" where
  "isLoaded m f \<longleftrightarrow> m \<noteq> [] \<and> getModuleUnsafe m f \<and> isStartedUnsafe m (mf_sched f) \<and> module_isStarted (sc_obj (mf_sched f) m)"

section \<open>What loading keeps\<close>

text \<open>Everything an element needs is behind it.\<close>

fun needs_met :: "('a \<times> 'a) set \<Rightarrow> 'a list \<Rightarrow> bool" where
  "needs_met r [] = True"
| "needs_met r (t # ts) = (r `` {t} \<subseteq> set ts \<and> needs_met r ts)"

lemma needs_met_cong: "needs_met r ts \<Longrightarrow> (\<And>t. t \<in> set ts \<Longrightarrow> r' `` {t} = r `` {t}) \<Longrightarrow> needs_met r' ts"
  by (induction ts) auto

lemma needs_met_trancl: "(a, b) \<in> r\<^sup>+ \<Longrightarrow> needs_met r (a # ts) \<Longrightarrow> b \<in> set ts"
proof (induction arbitrary: ts rule: converse_trancl_induct)
  case (base y)
  then show ?case by auto
next
  case (step y z)
  then have "z \<in> set ts" "needs_met r ts" by auto
  then obtain xs ys where ts: "ts = xs @ z # ys" by (meson split_list)
  have "needs_met r (xs @ z # ys) \<Longrightarrow> needs_met r (z # ys)" by (induction xs) auto
  then show ?case using step.IH [of ys] \<open>needs_met r ts\<close> by (simp add: ts)
qed

lemma needs_met_append: "needs_met r (xs @ ys) \<Longrightarrow> needs_met r ys"
  by (induction xs) auto

definition needs :: "modfactory \<Rightarrow> (string \<times> string) set" where
  "needs f = depends (mf_graph f)"

definition running :: "modfactory \<Rightarrow> string list" where
  "running f = sc_threads (mf_sched f)"

definition mf_ok :: "modfactory \<Rightarrow> bool" where
  "mf_ok f \<longleftrightarrow> dep_ok (mf_graph f) \<and> sched_ok module_ops (mf_sched f) \<and> sc_stop (mf_sched f) = 0 \<and>
     set (running f) \<subseteq> set (mf_modules f) \<and> needs_met (needs f) (running f)"

definition grows :: "modfactory \<Rightarrow> modfactory \<Rightarrow> bool" where
  "grows f f' \<longleftrightarrow> set (mf_modules f) \<subseteq> set (mf_modules f') \<and> (\<exists>ts. running f' = ts @ running f) \<and>
     needs f \<subseteq> needs f' \<and> (\<forall>m \<in> set (mf_modules f). needs f' `` {m} = needs f `` {m})"

lemma grows_refl: "grows f f"
  by (simp add: grows_def)

lemma grows_trans: "grows f f1 \<Longrightarrow> grows f1 f2 \<Longrightarrow> grows f f2"
  unfolding grows_def by fastforce

definition env_ok :: "menv \<Rightarrow> bool" where
  "env_ok env \<longleftrightarrow> graph_library (me_cyc env) (me_topo env)"

lemma registerProcessors_ok:
  "env_ok env \<Longrightarrow> dep_ok g \<Longrightarrow> registerProcessors env m ds g = (r, g') \<Longrightarrow>
   dep_ok g' \<and> depends g \<subseteq> depends g' \<and> depends g' \<subseteq> depends g \<union> {m} \<times> set ds"
proof (induction ds arbitrary: g)
  case (Cons d ds)
  show ?case
  proof (cases "d = m")
    case False
    obtain q g1 where add: "addDependency (me_cyc env) m d g = Some (q, g1)" "dep_ok g1"
      "depends g1 = (if m = d \<or> q = ERROR then depends g else insert (m, d) (depends g))"
      using addDependency_spec [OF Cons.prems(1) [unfolded env_ok_def] Cons.prems(2)] by blast
    show ?thesis
    proof (cases q)
      case OK
      then show ?thesis using Cons.IH [OF Cons.prems(1) add(2)] Cons.prems(3) add False by auto
    next
      case ERROR
      then show ?thesis using Cons.prems(3) add False by auto
    qed
  qed (use Cons in auto)
qed simp

lemma registerProcessors_other:
  "env_ok env \<Longrightarrow> dep_ok g \<Longrightarrow> registerProcessors env m ds g = (r, g') \<Longrightarrow> x \<noteq> m \<Longrightarrow> depends g' `` {x} = depends g `` {x}"
  using registerProcessors_ok [of env g m ds r g'] by auto

lemma getModule4Start_ok:
  assumes env: "env_ok env" and ok: "mf_ok f" and get: "getModule4Start env m f = (r, f')"
  shows "mf_ok f' \<and> grows f f' \<and> running f' = running f \<and> (r = Done \<longrightarrow> m \<in> set (mf_modules f')) \<and>
     needs f' \<subseteq> needs f \<union> {m} \<times> set (me_reg env m)"
proof (cases "m \<noteq> [] \<and> m \<notin> set (mf_modules f) \<and> me_lib env m")
  case False
  then show ?thesis using ok get by (auto simp: getModule4Start_def getModuleUnsafe_def grows_refl split: if_splits)
next
  case True
  obtain q g where reg: "registerProcessors env m (me_reg env m) (mf_graph f) = (q, g)" by fastforce
  have d: "dep_ok (mf_graph f)" using ok by (simp add: mf_ok_def)
  note r = registerProcessors_ok [OF env d reg] registerProcessors_other [OF env d reg]
  have f': "mf_graph f' = g" "mf_sched f' = mf_sched f" "r = q"
    "mf_modules f' = (if q = Done then mf_modules f @ [m] else mf_modules f)"
    using get True reg by (auto simp: getModule4Start_def addModule_def getModuleUnsafe_def split: outcome.splits)
  have run: "running f' = running f" using f' by (simp add: running_def)
  have same: "needs f' `` {t} = needs f `` {t}" if "t \<noteq> m" for t using r(2) [OF that] f'(1) by (simp add: needs_def)
  have "needs_met (needs f') (running f')" unfolding run
  proof (rule needs_met_cong [of "needs f"])
    show "needs_met (needs f) (running f)" using ok by (simp add: mf_ok_def)
    show "needs f' `` {t} = needs f `` {t}" if "t \<in> set (running f)" for t
      by (rule same) (use that ok True in \<open>auto simp: mf_ok_def\<close>)
  qed
  then have "mf_ok f'" using ok r(1) f' run by (auto simp: mf_ok_def)
  moreover have "needs f' `` {t} = needs f `` {t}" if "t \<in> set (mf_modules f)" for t
    by (rule same) (use that True in auto)
  then have "grows f f'" using r(1) f' run by (simp add: grows_def needs_def) blast
  ultimately show ?thesis using run f' r(1) by (auto simp: needs_def)
qed

lemma startModuleThread_ok:
  assumes ok: "mf_ok f" and m: "m \<in> set (mf_modules f)" and deps: "needs f `` {m} \<subseteq> set (running f)"
    and start: "startModuleThread env m f = (r, f')"
  shows "mf_ok f' \<and> grows f f' \<and> (r = Done \<longrightarrow> m \<in> set (running f')) \<and> mf_modules f' = mf_modules f \<and> needs f' = needs f"
proof (cases "m \<in> set (running f)")
  case True
  then show ?thesis using ok start
    by (auto simp: startModuleThread_def isStartedUnsafe_def running_def grows_refl)
next
  case False
  obtain hr f1 where f1: "getResources env m f = (hr, f1)" by fastforce
  have same: "mf_sched f1 = mf_sched f" "mf_graph f1 = mf_graph f" "mf_modules f1 = mf_modules f"
    using f1 by (auto simp: getResources_def Let_def split: if_splits)
  obtain q s where s: "startThread module_ops (me_create env) m (mf_sched f) = (q, s)" by fastforce
  have ss: "sched_ok module_ops (mf_sched f)" "sc_stop (mf_sched f) = 0" using ok by (simp_all add: mf_ok_def)
  have sok: "sched_ok module_ops s" by (rule module_thread.startThread_ok [OF ss s])
  have sc: "sc_stop s = 0" "sc_threads s = (if q = Done then m # running f else running f)"
    using s False ss(2) unfolding module_thread.startThread_cases [OF ss(2)] running_def by (auto split: if_splits)
  have f': "mf_sched f' = s" "mf_graph f' = mf_graph f" "mf_modules f' = mf_modules f" "r = q"
    using start False f1 s same sc
    by (auto simp: startModuleThread_def isStartedUnsafe_def running_def Let_def split: outcome.splits if_splits)
  have nd: "needs f' = needs f" using f' by (simp add: needs_def)
  have run: "running f' = (if q = Done then m # running f else running f)" using f'(1) sc(2) by (simp add: running_def)
  have "needs_met (needs f') (running f')" using ok deps unfolding run nd by (auto simp: mf_ok_def)
  then have "mf_ok f'" using ok m f' sok sc(1) run by (auto simp: mf_ok_def)
  moreover have "grows f f'" using f' run nd by (auto simp: grows_def)
  ultimately show ?thesis using f' run nd by simp
qed

lemma waitModule_ok:
  assumes "mf_ok f" "waitModule env m f = (r, f')"
  shows "mf_ok f' \<and> grows f f' \<and> running f' = running f \<and> needs f' = needs f"
proof -
  obtain q ob where w: "waitStart (me_before env m) (me_during env m) (sc_obj (mf_sched f) m) = (q, ob)" by fastforce
  have pass: "mo_stop ((passStartupCheckpoint ^^ k) x) = mo_stop x" for k x
    by (induction k) (auto simp: passStartupCheckpoint_def Let_def)
  have "mo_stop ob = mo_stop (sc_obj (mf_sched f) m)"
    using w pass by (auto simp: waitStart_def Let_def split: if_splits prod.splits result.splits)
  then have st: "th_isStopped module_ops ob = th_isStopped module_ops (sc_obj (mf_sched f) m)"
    by (simp add: module_ops_def module_isStopped_def)
  have f': "f' = f\<lparr>mf_sched := set_obj m ob (mf_sched f)\<rparr>" using assms(2) w by (simp add: waitModule_def)
  then have "running f' = running f" "needs f' = needs f" "mf_modules f' = mf_modules f"
    by (simp_all add: running_def needs_def set_obj_def)
  then show ?thesis using assms(1) st f' by (auto simp: mf_ok_def grows_def sched_ok_def set_obj_def)
qed

text \<open>A set of modules that is closed under the dependencies they register.\<close>

definition reg_closed :: "menv \<Rightarrow> string set \<Rightarrow> bool" where
  "reg_closed env U \<longleftrightarrow> (\<forall>m \<in> U. set (me_reg env m) \<subseteq> U)"

definition load_post :: "string set \<Rightarrow> modfactory \<Rightarrow> modfactory \<Rightarrow> bool" where
  "load_post U f f' \<longleftrightarrow> mf_ok f' \<and> grows f f' \<and> needs f' \<subseteq> U \<times> U"

lemma load_post_trans: "load_post U f f1 \<Longrightarrow> load_post U f1 f2 \<Longrightarrow> load_post U f f2"
  unfolding load_post_def using grows_trans by blast

lemma load_postD: "load_post U f f' \<Longrightarrow> mf_ok f'" "load_post U f f' \<Longrightarrow> grows f f'" "load_post U f f' \<Longrightarrow> needs f' \<subseteq> U \<times> U"
  by (simp_all add: load_post_def)

lemma grows_running: "grows f f' \<Longrightarrow> set (running f) \<subseteq> set (running f')"
  by (auto simp: grows_def)

text \<open>The steps of loading one module.\<close>

lemma load_get:
  assumes "env_ok env" "reg_closed env U" "mf_ok f" "m \<in> U" "needs f \<subseteq> U \<times> U" "getModule4Start env m f = (r, f1)"
  shows "load_post U f f1" "r = Done \<longrightarrow> m \<in> set (mf_modules f1)" "set (getDependency m (mf_graph f1)) = needs f1 `` {m}"
    "set (getDependency m (mf_graph f1)) \<subseteq> U"
proof -
  note p = getModule4Start_ok [OF assms(1,3,6)]
  have "set (me_reg env m) \<subseteq> U" using assms(2,4) by (simp add: reg_closed_def)
  then show lp: "load_post U f f1" using p assms(4,5) by (auto simp: load_post_def)
  show "r = Done \<longrightarrow> m \<in> set (mf_modules f1)" using p by blast
  have "dg_wf (mf_graph f1)" using p by (simp add: mf_ok_def dep_ok_def)
  then show d: "set (getDependency m (mf_graph f1)) = needs f1 `` {m}" using getDependency_set(1) by (simp add: needs_def)
  show "set (getDependency m (mf_graph f1)) \<subseteq> U" unfolding d using load_postD(3) [OF lp] by blast
qed

lemma load_start:
  assumes "load_post U f1 f2" "m \<in> set (mf_modules f1)" "needs f1 `` {m} \<subseteq> set (running f2)" "startModuleThread env m f2 = (r, f3)"
  shows "load_post U f2 f3" "r = Done \<longrightarrow> m \<in> set (running f3)"
proof -
  have g: "grows f1 f2" by (rule load_postD(2) [OF assms(1)])
  have "m \<in> set (mf_modules f2)" "needs f2 `` {m} = needs f1 `` {m}" using g assms(2) unfolding grows_def by blast+
  then have p: "mf_ok f3 \<and> grows f2 f3 \<and> (r = Done \<longrightarrow> m \<in> set (running f3)) \<and> mf_modules f3 = mf_modules f2 \<and> needs f3 = needs f2"
    by (intro startModuleThread_ok [OF load_postD(1) [OF assms(1)] _ _ assms(4)]) (use assms(3) in simp_all)
  then show "load_post U f2 f3" using load_postD(3) [OF assms(1)] by (simp add: load_post_def)
  show "r = Done \<longrightarrow> m \<in> set (running f3)" using p by blast
qed

lemma load_wait: "load_post U f2 f3 \<Longrightarrow> waitModule env m f3 = (r, f') \<Longrightarrow> load_post U f3 f' \<and> running f' = running f3"
  using waitModule_ok [of f3 env m r f'] by (auto simp: load_post_def)

lemma load_ok:
  "env_ok env \<Longrightarrow> reg_closed env U \<Longrightarrow> mf_ok f \<Longrightarrow> m \<in> U \<Longrightarrow> needs f \<subseteq> U \<times> U \<Longrightarrow> load n env m f = Some (r, f') \<Longrightarrow>
   load_post U f f' \<and> (r = Done \<longrightarrow> m \<in> set (running f'))"
  "env_ok env \<Longrightarrow> reg_closed env U \<Longrightarrow> mf_ok f \<Longrightarrow> set ds \<subseteq> U \<Longrightarrow> needs f \<subseteq> U \<times> U \<Longrightarrow> load_each n env ds f = Some (r, f') \<Longrightarrow>
   load_post U f f' \<and> (r = Done \<longrightarrow> set ds \<subseteq> set (running f'))"
proof (induction n env m f and n env ds f arbitrary: r f' and r f' rule: load_load_each.induct)
  case (2 n env m f)
  note prems = 2(2-7)
  obtain r1 f1 where g: "getModule4Start env m f = (r1, f1)" by fastforce
  note p1 = load_get [OF prems(1-5) g]
  show ?case
  proof (cases r1)
    case Thrown
    then show ?thesis using prems(6) g p1(1) by auto
  next
    case d1: Done
    then obtain r2 f2 where l: "load_each n env (getDependency m (mf_graph f1)) f1 = Some (r2, f2)"
      using prems(6) g by (auto split: option.splits)
    have p2: "load_post U f1 f2 \<and> (r2 = Done \<longrightarrow> set (getDependency m (mf_graph f1)) \<subseteq> set (running f2))"
      by (rule 2(1) [OF g [symmetric] d1 prems(1,2) load_postD(1) [OF p1(1)] p1(4) load_postD(3) [OF p1(1)] l])
    have lp2: "load_post U f f2" by (rule load_post_trans [OF p1(1)]) (use p2 in blast)
    show ?thesis
    proof (cases r2)
      case Thrown
      then show ?thesis using prems(6) g l d1 lp2 by simp
    next
      case d2: Done
      obtain r3 f3 where s: "startModuleThread env m f2 = (r3, f3)" by fastforce
      have p3: "load_post U f2 f3" "r3 = Done \<longrightarrow> m \<in> set (running f3)"
        by (rule load_start [OF _ _ _ s, of U f1]; use p2 p1(2,3) d1 d2 in simp)+
      have p13: "load_post U f f3" by (rule load_post_trans [OF lp2 p3(1)])
      show ?thesis
      proof (cases r3)
        case Thrown
        then show ?thesis using prems(6) g l d1 d2 s p13 by simp
      next
        case d3: Done
        have w: "waitModule env m f3 = (r, f')" using prems(6) g l d1 d2 s d3 by simp
        note p4 = load_wait [OF p3(1) w]
        have "load_post U f f'" by (rule load_post_trans [OF p13]) (use p4 in blast)
        then show ?thesis using p3(2) d3 p4 by simp
      qed
    qed
  qed
next
  case (4 n env d ds f)
  note prems = 4(3-8)
  obtain r1 f1 where l: "load n env d f = Some (r1, f1)" using prems(6) by (auto split: option.splits)
  have p1: "load_post U f f1 \<and> (r1 = Done \<longrightarrow> d \<in> set (running f1))"
    by (rule 4(1) [OF prems(1-3) _ prems(5) l]) (use prems(4) in simp)
  show ?case
  proof (cases r1)
    case Thrown
    then show ?thesis using prems(6) l p1 by simp
  next
    case Done
    then have l2: "load_each n env ds f1 = Some (r, f')" using prems(6) l by simp
    have lp1: "load_post U f f1" using p1 by blast
    have p2: "load_post U f1 f' \<and> (r = Done \<longrightarrow> set ds \<subseteq> set (running f'))"
      by (rule 4(2) [OF l _ _ prems(1,2) load_postD(1) [OF lp1] _ load_postD(3) [OF lp1] l2]) (use prems(4) Done in simp_all)
    have "load_post U f f'" by (rule load_post_trans [OF lp1]) (use p2 in blast)
    moreover have "d \<in> set (running f')" using p1 p2 Done grows_running [of f1 f'] by (auto simp: load_post_def)
    ultimately show ?thesis using p2 by simp
  qed
qed (auto simp: load_post_def grows_refl)

section \<open>Loading ends\<close>

lemma load_returns:
  "env_ok env \<Longrightarrow> reg_closed env U \<Longrightarrow> finite U \<Longrightarrow> mf_ok f \<Longrightarrow> m \<in> U \<Longrightarrow> needs f \<subseteq> U \<times> U \<Longrightarrow>
   S \<subseteq> U \<Longrightarrow> \<forall>s \<in> S. (s, m) \<in> (needs f)\<^sup>+ \<Longrightarrow> card (U - S) < n \<Longrightarrow> load n env m f \<noteq> None"
  "env_ok env \<Longrightarrow> reg_closed env U \<Longrightarrow> finite U \<Longrightarrow> mf_ok f \<Longrightarrow> set ds \<subseteq> U \<Longrightarrow> needs f \<subseteq> U \<times> U \<Longrightarrow>
   S \<subseteq> U \<Longrightarrow> \<forall>d \<in> set ds. \<forall>s \<in> S. (s, d) \<in> (needs f)\<^sup>+ \<Longrightarrow> card (U - S) < n \<Longrightarrow> load_each n env ds f \<noteq> None"
proof (induction n env m f and n env ds f arbitrary: S and S rule: load_load_each.induct)
  case (2 n env m f)
  note prems = 2(2-10)
  obtain r1 f1 where g: "getModule4Start env m f = (r1, f1)" by fastforce
  note p1 = load_get [OF prems(1,2,4-6) g]
  show ?case
  proof (cases r1)
    case Thrown
    then show ?thesis using g by simp
  next
    case d1: Done
    have grow: "needs f \<subseteq> needs f1" using load_postD(2) [OF p1(1)] by (simp add: grows_def)
    have ac: "acyclic (needs f)" using prems(4) by (simp add: mf_ok_def dep_ok_def needs_def)
    then have mS: "m \<notin> S" using prems(8) by (auto simp: acyclic_def)
    have "(s, d) \<in> (needs f1)\<^sup>+" if "d \<in> set (getDependency m (mf_graph f1))" "s \<in> insert m S" for s d
    proof -
      have md: "(m, d) \<in> needs f1" using that(1) p1(3) by blast
      show ?thesis
      proof (cases "s = m")
        case False
        then have "(s, m) \<in> (needs f1)\<^sup>+" using prems(8) that(2) trancl_mono [OF _ grow] by blast
        then show ?thesis using md by (rule trancl_into_trancl)
      qed (use md in blast)
    qed
    moreover have "card (U - insert m S) < n"
    proof -
      have "finite (U - S)" "m \<in> U - S" using prems(3,5) mS by simp_all
      then have "card (U - S - {m}) < card (U - S)" by (rule card_Diff1_less)
      moreover have "U - insert m S = U - S - {m}" by blast
      ultimately show ?thesis using prems(9) by simp
    qed
    ultimately have "load_each n env (getDependency m (mf_graph f1)) f1 \<noteq> None"
      by (intro 2(1) [OF g [symmetric] d1 prems(1-3) load_postD(1) [OF p1(1)] p1(4) load_postD(3) [OF p1(1)], of "insert m S"])
        (use prems(5,7) in auto)
    then show ?thesis using g d1 by (auto split: prod.splits outcome.splits)
  qed
next
  case (4 n env d ds f)
  note prems = 4(3-11)
  have "load n env d f \<noteq> None" by (rule 4(1) [OF prems(1-4) _ prems(6,7) _ prems(9)]) (use prems(5,8) in auto)
  then obtain r1 f1 where l: "load n env d f = Some (r1, f1)" by auto
  show ?case
  proof (cases r1)
    case Thrown
    then show ?thesis using l by simp
  next
    case Done
    have lp1: "load_post U f f1" using load_ok(1) [OF prems(1,2,4) _ prems(6) l] prems(5) by simp
    have grow: "needs f \<subseteq> needs f1" using load_postD(2) [OF lp1] by (simp add: grows_def)
    have st: "\<forall>e \<in> set ds. \<forall>s \<in> S. (s, e) \<in> (needs f1)\<^sup>+"
    proof (intro ballI)
      fix e s
      assume "e \<in> set ds" "s \<in> S"
      then have "(s, e) \<in> (needs f)\<^sup>+" using prems(8) by simp
      then show "(s, e) \<in> (needs f1)\<^sup>+" by (rule trancl_mono) (rule grow)
    qed
    have "load_each n env ds f1 \<noteq> None"
      by (rule 4(2) [OF l _ _ prems(1-3) load_postD(1) [OF lp1] _ load_postD(3) [OF lp1] prems(7) st prems(9)])
        (use prems(5) Done in simp_all)
    then show ?thesis using l Done by simp
  qed
qed simp_all

section \<open>Unloading\<close>

lemma unload_each_ok:
  "[] \<notin> set ms \<Longrightarrow> distinct ms \<Longrightarrow> sched_ok module_ops (mf_sched f) \<Longrightarrow> sc_stop (mf_sched f) = 0 \<Longrightarrow>
   set (running f) \<subseteq> set (mf_modules f) \<Longrightarrow>
   \<exists>f'. unload_each ms f = (Done, f') \<and> running f' = filter (\<lambda>m. m \<notin> set ms) (running f) \<and> sched_ok module_ops (mf_sched f') \<and>
     sc_stop (mf_sched f') = 0 \<and> mf_graph f' = mf_graph f \<and> mf_modules f' = mf_modules f \<and>
     stops_of (sc_log (mf_sched f')) = stops_of (sc_log (mf_sched f)) @ filter (\<lambda>m. m \<in> set (running f)) ms"
proof (induction ms arbitrary: f)
  case (Cons m ms)
  show ?case
  proof (cases "m \<in> set (running f)")
    case False
    then have u: "unload m f = (Done, f)"
      using Cons.prems(1) by (auto simp: unload_def isStartedUnsafe_def running_def)
    have "filter (\<lambda>n. n \<notin> set (m # ms)) (running f) = filter (\<lambda>n. n \<notin> set ms) (running f)"
      using False by (intro filter_cong) auto
    then show ?thesis using Cons.IH [of f] Cons.prems u False by auto
  next
    case True
    define s where "s = mf_sched f"
    have d: "distinct (running f)" using Cons.prems(3) by (simp add: sched_ok_def running_def)
    have mem: "m \<in> set (sc_threads s)" using True by (simp add: running_def s_def)
    obtain r s1 where st: "stopThread module_ops m s = (r, s1)" by fastforce
    have s1: "r = Done" "sc_threads s1 = remove1 m (sc_threads s)" "sc_stop s1 = sc_stop s"
      "sc_log s1 = sc_log s @ [Stopping m, Joined m]"
      using st module_thread.stopThread_cases [of s m] Cons.prems(3,4) mem by (simp_all add: s_def)
    have ok1: "sched_ok module_ops s1"
      by (rule module_thread.stopThread_ok [OF _ _ mem st]) (use Cons.prems(3,4) in \<open>simp_all add: s_def\<close>)
    define f1 where "f1 = f\<lparr>mf_sched := s1\<rparr>"
    have r1: "running f1 = filter (\<lambda>n. n \<noteq> m) (running f)"
      using s1(2) d by (simp add: f1_def running_def s_def distinct_remove1_removeAll removeAll_filter_not_eq eq_commute)
    have u: "unload m f = (Done, f1)"
      using Cons.prems(1,5) True st s1(1,2) d
      by (auto simp: unload_def isStartedUnsafe_def running_def getModuleUnsafe_def f1_def s_def)
    have "\<exists>f'. unload_each ms f1 = (Done, f') \<and> running f' = filter (\<lambda>m. m \<notin> set ms) (running f1) \<and> sched_ok module_ops (mf_sched f') \<and>
       sc_stop (mf_sched f') = 0 \<and> mf_graph f' = mf_graph f1 \<and> mf_modules f' = mf_modules f1 \<and>
       stops_of (sc_log (mf_sched f')) = stops_of (sc_log (mf_sched f1)) @ filter (\<lambda>m. m \<in> set (running f1)) ms"
      by (rule Cons.IH) (use Cons.prems ok1 r1 s1(3) in \<open>auto simp: f1_def s_def\<close>)
    then obtain f' where f': "unload_each ms f1 = (Done, f')" "running f' = filter (\<lambda>m. m \<notin> set ms) (running f1)"
      "sched_ok module_ops (mf_sched f')" "sc_stop (mf_sched f') = 0" "mf_graph f' = mf_graph f1" "mf_modules f' = mf_modules f1"
      "stops_of (sc_log (mf_sched f')) = stops_of (sc_log (mf_sched f1)) @ filter (\<lambda>m. m \<in> set (running f1)) ms" by blast
    have "filter (\<lambda>n. n \<in> set (running f1)) ms = filter (\<lambda>n. n \<in> set (running f)) ms"
      using Cons.prems(2) r1 by (intro filter_cong) auto
    moreover have "filter (\<lambda>n. n \<notin> set ms) (running f1) = filter (\<lambda>n. n \<notin> set (m # ms)) (running f)"
      by (simp add: r1 conj_commute)
    ultimately show ?thesis using u f' True s1(4) by (auto simp: f1_def s_def)
  qed
qed simp

lemma later_first_filter: "later_first r xs \<Longrightarrow> later_first r (filter P xs)"
  by (simp add: later_first_def sorted_wrt_filter)

lemma later_first_append: "later_first r (xs @ ys) \<longleftrightarrow> later_first r xs \<and> later_first r ys \<and> (\<forall>x \<in> set xs. \<forall>y \<in> set ys. (y, x) \<notin> r)"
  by (auto simp: later_first_def sorted_wrt_append)

lemma later_first_outside: "\<forall>x \<in> set xs. r `` {x} = {} \<Longrightarrow> later_first r xs"
  unfolding later_first_def by (induction xs) auto

lemma unloadAll_ok:
  assumes env: "env_ok env" and ok: "mf_ok f" and names: "[] \<notin> set (dg_names (mf_graph f))"
  shows "\<exists>f' ss. unloadAll env f = (Done, f') \<and> running f' = [] \<and> needs f' = {} \<and>
     stops_of (sc_log (mf_sched f')) = stops_of (sc_log (mf_sched f)) @ ss \<and>
     distinct ss \<and> set ss = set (running f) \<and> later_first (needs f) ss"
proof -
  have dok: "dep_ok (mf_graph f)" using ok by (simp add: mf_ok_def)
  then have wf: "dg_wf (mf_graph f)" by (simp add: dep_ok_def)
  obtain ms where ms: "getSortedList (me_topo env) (mf_graph f) = Some ms" "distinct ms" "set ms = set (dg_names (mf_graph f))"
    "later_first (needs f) ms"
    using graph_library.sorted_list [OF env [unfolded env_ok_def] dok] by (auto simp: needs_def)
  have d: "distinct (running f)" using ok by (simp add: mf_ok_def sched_ok_def running_def)
  obtain f1 where f1: "unload_each ms f = (Done, f1)" "running f1 = filter (\<lambda>m. m \<notin> set ms) (running f)" "sched_ok module_ops (mf_sched f1)"
    "mf_graph f1 = mf_graph f"
    "stops_of (sc_log (mf_sched f1)) = stops_of (sc_log (mf_sched f)) @ filter (\<lambda>m. m \<in> set (running f)) ms"
    using unload_each_ok [OF _ ms(2), of f] ok names ms(3) by (auto simp: mf_ok_def)
  define ss where "ss = filter (\<lambda>m. m \<in> set (running f)) ms @ running f1"
  define f' where "f' = f1\<lparr>mf_graph := dep_clear (mf_graph f1), mf_sched := sched_stop module_ops (mf_sched f1)\<rparr>"
  note stop = module_thread.sched_stop_all [OF f1(3)]
  have outside: "needs f `` {x} = {}" if "x \<notin> set ms" for x
    using that ms(3) dg_edgesD [OF wf] by (auto simp: needs_def dest!: dependsD)
  have "later_first (needs f) ss"
    unfolding ss_def later_first_append
    using later_first_filter [OF ms(4)] later_first_outside [of "running f1" "needs f"] outside f1(2) by auto
  moreover have "distinct ss" "set ss = set (running f)" using ms(2) d f1(2) by (auto simp: ss_def)
  moreover have "unloadAll env f = (Done, f')" using ms(1) f1(1) by (simp add: unloadAll_def f'_def)
  moreover have "running f' = []" "needs f' = {}" "stops_of (sc_log (mf_sched f')) = stops_of (sc_log (mf_sched f)) @ ss"
    using stop f1(5) dep_new_ok(3) by (simp_all add: f'_def running_def needs_def ss_def)
  ultimately show ?thesis by blast
qed

section \<open>What loading and unloading promise\<close>

text \<open>A sequence of modules that are loaded one after the other, whether this succeeds or not.\<close>

fun loads :: "nat \<Rightarrow> menv \<Rightarrow> string list \<Rightarrow> modfactory \<Rightarrow> modfactory option" where
  "loads n env [] f = Some f"
| "loads n env (m # ms) f = do { (r, f) \<leftarrow> load n env m f; loads n env ms f }"

lemma mf_new_ok: "mf_ok mf_new" "needs mf_new = {}" "running mf_new = []"
  using dep_new_ok(1)
  by (simp_all add: mf_ok_def mf_new_def sched_ok_def sched_new_def running_def needs_def depends_def dg_edges_def dg_new_def)

lemma loads_ok: "env_ok env \<Longrightarrow> mf_ok f \<Longrightarrow> loads n env ms f = Some f' \<Longrightarrow> mf_ok f'"
proof (induction ms arbitrary: f)
  case (Cons m ms)
  obtain r f1 where l: "load n env m f = Some (r, f1)" "loads n env ms f1 = Some f'"
    using Cons.prems(3) by (auto simp: bind_eq_Some_conv)
  have "reg_closed env UNIV" by (simp add: reg_closed_def)
  then have "mf_ok f1" using load_ok(1) [OF Cons.prems(1) _ Cons.prems(2) _ _ l(1), of UNIV] by (simp add: load_post_def)
  then show ?case using Cons.IH [OF Cons.prems(1) _ l(2)] by simp
qed simp

text \<open>Three modules, one of them with devices.\<close>

definition demo_env :: menv where
  "demo_env = \<lparr>me_cyc = peel_cyclic, me_topo = peel_sort, me_lib = (\<lambda>m. m \<in> {''dvb'', ''core'', ''cli''}),
     me_reg = (\<lambda>m. if m = ''dvb'' then [''core'', ''cli''] else if m = ''cli'' then [''core''] else []),
     me_res = (\<lambda>m. m = ''dvb''), me_create = (\<lambda>_. True), me_before = (\<lambda>_. 0), me_during = (\<lambda>_. 1)\<rparr>"

definition demo_loaded :: modfactory where
  "demo_loaded = the (loads 4 demo_env [''dvb''] mf_new)"

lemma demo_env_ok: "env_ok demo_env"
  using peel.graph_library_axioms by (simp add: env_ok_def demo_env_def)

lemma demo_loads: "loads 4 demo_env [''dvb''] mf_new = Some demo_loaded"
proof -
  have "loads 4 demo_env [''dvb''] mf_new \<noteq> None" by code_simp
  then show ?thesis by (auto simp: demo_loaded_def)
qed

lemma demo_running: "running demo_loaded = [''dvb'', ''cli'', ''core''] \<and> mf_graph demo_loaded =
    \<lparr>dg_names = [''dvb'', ''core'', ''cli''], dg_out = [[1, 2], [], [1]], dg_count = 3\<rparr>"
  by code_simp

lemma demo_edges: "dg_edges (mf_graph demo_loaded) = {(0, 1), (0, 2), (2, 1)}"
proof -
  have "mf_graph demo_loaded = \<lparr>dg_names = [''dvb'', ''core'', ''cli''], dg_out = [[1, 2], [], [1]], dg_count = 3\<rparr>"
    using demo_running by blast
  then show ?thesis by (auto simp: dg_edges_def nth_Cons' less_Suc_eq numeral_3_eq_3 split: if_splits)
qed

lemma demo_needs: "needs demo_loaded = {(''dvb'', ''core''), (''dvb'', ''cli''), (''cli'', ''core'')}"
  unfolding needs_def depends_def demo_edges using demo_running by simp

text \<open>C4: Whatever modules have been loaded, and whether this failed in between or not, a module runs
  only together with all modules it needs, directly or not, and each of them was started before it:
  the scheduler puts a new thread in front.\<close>

theorem module_needs_running:
  assumes "env_ok env" "loads n env ms mf_new = Some f" "running f = xs @ m # ys" "(m, d) \<in> (needs f)\<^sup>+"
  shows "d \<in> set ys"
proof -
  have "needs_met (needs f) (running f)" using loads_ok [OF assms(1) mf_new_ok(1) assms(2)] by (simp add: mf_ok_def)
  then have "needs_met (needs f) (m # ys)" unfolding assms(3) by (rule needs_met_append)
  then show ?thesis using needs_met_trancl [OF assms(4)] by blast
qed

theorem module_needs_running_witness: "''core'' \<in> set [''cli'', ''core'']"
  by (rule module_needs_running [OF demo_env_ok demo_loads, of "[]" "''dvb''"]) (use demo_running demo_needs in auto)

text \<open>C30: Loading a module returns, also if modules need each other in a circle: for modules from a
  finite set the calls nest at most once for each of them.\<close>

theorem load_terminates:
  assumes "env_ok env" "reg_closed env U" "finite U" "mf_ok f" "needs f \<subseteq> U \<times> U" "m \<in> U"
  shows "\<exists>r f'. load (card U + 1) env m f = Some (r, f')"
  using load_returns(1) [OF assms(1-4,6,5), of "{}" "card U + 1"] by auto

definition ring_env :: menv where
  "ring_env = demo_env\<lparr>me_reg := (\<lambda>m. if m = ''dvb'' then [''core''] else if m = ''core'' then [''dvb''] else [])\<rparr>"

theorem load_terminates_witness: "\<exists>r f'. load (card {''dvb'', ''core''} + 1) ring_env ''dvb'' mf_new = Some (r, f')"
  by (rule load_terminates)
    (use demo_env_ok mf_new_ok in \<open>auto simp: ring_env_def env_ok_def demo_env_def reg_closed_def\<close>)

text \<open>Loading a module that reports success has started it and all modules it needs.\<close>

theorem load_success:
  assumes "env_ok env" "mf_ok f" "load n env m f = Some (Done, f')"
  shows "m \<in> set (running f') \<and> (\<forall>d. (m, d) \<in> (needs f')\<^sup>+ \<longrightarrow> d \<in> set (running f'))"
proof -
  have "reg_closed env UNIV" by (simp add: reg_closed_def)
  from load_ok(1) [OF assms(1) this assms(2) _ _ assms(3)]
  have p: "mf_ok f'" "m \<in> set (running f')" by (simp_all add: load_post_def)
  then obtain xs ys where r: "running f' = xs @ m # ys" by (meson split_list)
  have "needs_met (needs f') (xs @ m # ys)" using p(1) r by (simp add: mf_ok_def)
  then have "needs_met (needs f') (m # ys)" by (rule needs_met_append)
  then show ?thesis using p(2) r needs_met_trancl by fastforce
qed

theorem load_success_witness: "''core'' \<in> set (running demo_loaded)"
proof -
  have "map_option fst (load 4 demo_env ''dvb'' mf_new) = Some Done" by code_simp
  then obtain f where f: "load 4 demo_env ''dvb'' mf_new = Some (Done, f)" by (auto simp del: load.simps)
  then have "f = demo_loaded" using demo_loads by (simp del: load.simps)
  then have "load 4 demo_env ''dvb'' mf_new = Some (Done, demo_loaded)" using f by simp
  from load_success [OF demo_env_ok mf_new_ok(1) this] show ?thesis using demo_needs by blast
qed

text \<open>C29: Unloading all modules stops every running one exactly once, each before those it needs, and
  nothing is left that runs.\<close>

theorem unloadAll_order:
  assumes "env_ok env" "mf_ok f" "[] \<notin> set (dg_names (mf_graph f))"
  shows "\<exists>f' ss. unloadAll env f = (Done, f') \<and> running f' = [] \<and>
     stops_of (sc_log (mf_sched f')) = stops_of (sc_log (mf_sched f)) @ ss \<and>
     distinct ss \<and> set ss = set (running f) \<and> later_first (needs f) ss"
  using unloadAll_ok [OF assms] by blast

theorem unloadAll_order_witness:
  "\<exists>f' ss. unloadAll demo_env demo_loaded = (Done, f') \<and> running f' = [] \<and>
     stops_of (sc_log (mf_sched f')) = stops_of (sc_log (mf_sched demo_loaded)) @ ss \<and>
     distinct ss \<and> set ss = {''dvb'', ''cli'', ''core''} \<and> later_first (needs demo_loaded) ss"
proof -
  have "mf_ok demo_loaded" by (rule loads_ok [OF demo_env_ok mf_new_ok(1) demo_loads])
  moreover have "[] \<notin> set (dg_names (mf_graph demo_loaded))" "set (running demo_loaded) = {''dvb'', ''cli'', ''core''}"
    using demo_running by auto
  ultimately show ?thesis using unloadAll_order [OF demo_env_ok] by metis
qed

section \<open>Failures of the start\<close>

text \<open>A module that did not start in time is reported as started when it is loaded again, since
  the time limit leaves its semaphore open.\<close>

theorem wait_after_timeout:
  assumes "waitStart before during m = (Thrown, m')"
  shows "\<exists>m''. waitStart 0 0 m' = (Done, m'') \<and> \<not> module_isStarted m''"
proof -
  define m1 where "m1 = (passStartupCheckpoint ^^ during) ((passStartupCheckpoint ^^ before) m)"
  have w: "\<not> module_isStarted ((passStartupCheckpoint ^^ before) m)" "mo_start_sem m1 = 0" "m' = m1\<lparr>mo_start_sem := 1\<rparr>"
    using assms
    by (auto simp: waitStart_def Let_def timedwait_def sem_wait_def sem_post_def m1_def split: if_splits)
  have keep: "0 < mo_checkpoints ((passStartupCheckpoint ^^ k) x)"
    if "0 < mo_checkpoints x" "mo_start_sem ((passStartupCheckpoint ^^ k) x) = 0" for k x
    using that
  proof (induction k)
    case (Suc k)
    then show ?case by (auto simp: passStartupCheckpoint_def Let_def sem_post_def split: if_splits)
  qed simp
  have "0 < mo_checkpoints m1" unfolding m1_def
    by (rule keep) (use w in \<open>simp_all add: module_isStarted_def m1_def\<close>)
  then show ?thesis using w(3) by (simp add: waitStart_def module_isStarted_def Let_def timedwait_def sem_wait_def)
qed

theorem wait_after_timeout_witness:
  "\<exists>m''. waitStart 0 0 ((module_init modobj_new)\<lparr>mo_start_sem := 1\<rparr>) = (Done, m'') \<and> \<not> module_isStarted m''"
  by (rule wait_after_timeout [of 0 0 "module_init modobj_new"]) code_simp

text \<open>A module whose start has failed is not started by the checkpoint it passes at the next start.\<close>

theorem restart_after_failure:
  "\<not> module_isStarted (passStartupCheckpoint (module_init (module_stop (module_init modobj_new))))"
  by code_simp

end
