(* ===== verification/Message.thy ===== *)
theory Message
  imports Moddep
begin

text \<open>
  Messages between modules and the factory that makes them, \<^verbatim>\<open>src/common/message.cpp\<close>,
  \<^verbatim>\<open>src/common/basemessage.cpp\<close> and \<^verbatim>\<open>src/common/msgfactory.cpp\<close>.  A call that throws an exception
  gives \<open>None\<close> or \<open>False\<close> together with the state it leaves.
\<close>

datatype mtype = UNDEF | ASYNC | SYNC_REQ | SYNC_RES

record message =
  m_id :: string
  m_uuid :: "32 word"
  m_type :: mtype
  m_sender :: string
  m_values :: "string \<rightharpoonup> string"
  m_lists :: "string \<rightharpoonup> string list"
  m_receivers :: "string list"

text \<open>The constructor leaves the type as it is in memory; the factory sets it.\<close>

definition message_new :: "string \<Rightarrow> 32 word \<Rightarrow> message" where
  "message_new i u = \<lparr>m_id = i, m_uuid = u, m_type = UNDEF, m_sender = [], m_values = Map.empty, m_lists = Map.empty, m_receivers = []\<rparr>"

definition getType :: "message \<Rightarrow> mtype option" where
  "getType m = (if m_type m = UNDEF then None else Some (m_type m))"

definition setSenderID :: "string \<Rightarrow> message \<Rightarrow> message option" where
  "setSenderID s m = (if s = [] then None else Some (m\<lparr>m_sender := s\<rparr>))"

definition addReceiver :: "string \<Rightarrow> message \<Rightarrow> message option" where
  "addReceiver r m = (if r \<in> set (m_receivers m) then None else Some (m\<lparr>m_receivers := m_receivers m @ [r]\<rparr>))"

definition getValue :: "string \<Rightarrow> message \<Rightarrow> string option" where
  "getValue k m = m_values m k"

definition getList :: "string \<Rightarrow> message \<Rightarrow> string list option" where
  "getList k m = m_lists m k"

definition setValue :: "string \<Rightarrow> string \<Rightarrow> message \<Rightarrow> message" where
  "setValue k v m = m\<lparr>m_values := (m_values m)(k \<mapsto> v)\<rparr>"

definition setList :: "string \<Rightarrow> string list \<Rightarrow> message \<Rightarrow> message" where
  "setList k v m = m\<lparr>m_lists := (m_lists m)(k \<mapsto> v)\<rparr>"

definition hasValue :: "string \<Rightarrow> message \<Rightarrow> bool" where
  "hasValue k m \<longleftrightarrow> m_values m k \<noteq> None"

definition clearReceiverList :: "message \<Rightarrow> message" where
  "clearReceiverList m = m\<lparr>m_receivers := []\<rparr>"

fun add_receivers :: "string list \<Rightarrow> message \<Rightarrow> message option" where
  "add_receivers [] m = Some m"
| "add_receivers (r # rs) m = do { m \<leftarrow> addReceiver r m; add_receivers rs m }"

section \<open>The factory\<close>

record msgfactory =
  mq_uuid :: "32 word"
  mq_sync :: "string \<rightharpoonup> string"
  mq_async :: "string \<rightharpoonup> string list"

definition msgfactory_new :: msgfactory where
  "msgfactory_new = \<lparr>mq_uuid = 0, mq_sync = Map.empty, mq_async = Map.empty\<rparr>"

definition generateUUID :: "msgfactory \<Rightarrow> 32 word \<times> msgfactory" where
  "generateUUID f = (mq_uuid f, f\<lparr>mq_uuid := mq_uuid f + 1\<rparr>)"

definition getResponse :: "message \<Rightarrow> message option" where
  "getResponse q = (if getType q = Some SYNC_REQ then Some ((message_new (m_id q) (m_uuid q))\<lparr>m_type := SYNC_RES\<rparr>) else None)"

definition getMessage :: "string \<Rightarrow> msgfactory \<Rightarrow> message option \<times> msgfactory" where
  "getMessage i f =
     (case mq_async f i of
        Some rs \<Rightarrow>
          (case generateUUID f of
             (u, f) \<Rightarrow> (map_option (\<lambda>m. m\<lparr>m_type := ASYNC\<rparr>) (add_receivers rs (message_new i u)), f))
      | None \<Rightarrow>
          (case mq_sync f i of
             None \<Rightarrow> (None, f)
           | Some r \<Rightarrow>
               (case generateUUID f of
                  (u, f) \<Rightarrow> (map_option (\<lambda>m. m\<lparr>m_type := SYNC_REQ\<rparr>) (addReceiver r (message_new i u)), f))))"

definition hasMessage :: "string \<Rightarrow> msgfactory \<Rightarrow> bool" where
  "hasMessage i f \<longleftrightarrow> mq_async f i \<noteq> None \<or> mq_sync f i \<noteq> None"

text \<open>Looking for an asynchronous message makes an entry for it.\<close>

definition registerMessage :: "string \<Rightarrow> string \<Rightarrow> mtype \<Rightarrow> msgfactory \<Rightarrow> bool \<times> msgfactory" where
  "registerMessage i m ty f =
     (case ty of
        SYNC_REQ \<Rightarrow> (if mq_sync f i \<noteq> None then (False, f) else (True, f\<lparr>mq_sync := (mq_sync f)(i \<mapsto> m)\<rparr>))
      | ASYNC \<Rightarrow>
          (let rs = (case mq_async f i of None \<Rightarrow> [] | Some rs \<Rightarrow> rs)
           in if m \<in> set rs then (False, f) else (True, f\<lparr>mq_async := (mq_async f)(i \<mapsto> rs @ [m])\<rparr>))
      | _ \<Rightarrow> (False, f))"

text \<open>Erasing a module that is not in the list of receivers is undefined, \<open>None\<close>.\<close>

definition unregisterMessage :: "string \<Rightarrow> string \<Rightarrow> msgfactory \<Rightarrow> msgfactory option" where
  "unregisterMessage i m f =
     (case mq_sync f i of
        Some _ \<Rightarrow> Some (f\<lparr>mq_sync := (mq_sync f)(i := None)\<rparr>)
      | None \<Rightarrow>
          (case mq_async f i of
             Some rs \<Rightarrow> if m \<in> set rs then Some (f\<lparr>mq_async := (mq_async f)(i \<mapsto> remove1 m rs)\<rparr>) else None
           | None \<Rightarrow> Some f))"

section \<open>What is registered\<close>

definition msgfactory_ok :: "msgfactory \<Rightarrow> bool" where
  "msgfactory_ok f \<longleftrightarrow> (\<forall>i rs. mq_async f i = Some rs \<longrightarrow> distinct rs)"

lemma msgfactory_new_ok: "msgfactory_ok msgfactory_new"
  by (simp add: msgfactory_ok_def msgfactory_new_def)

lemma registerMessage_ok: "msgfactory_ok f \<Longrightarrow> registerMessage i m ty f = (b, f') \<Longrightarrow> msgfactory_ok f'"
  by (auto simp: msgfactory_ok_def registerMessage_def Let_def split: mtype.splits if_splits option.splits)

lemma unregisterMessage_ok: "msgfactory_ok f \<Longrightarrow> unregisterMessage i m f = Some f' \<Longrightarrow> msgfactory_ok f'"
  by (auto simp: msgfactory_ok_def unregisterMessage_def split: if_splits option.splits)

lemma getMessage_ok: "msgfactory_ok f \<Longrightarrow> getMessage i f = (r, f') \<Longrightarrow> msgfactory_ok f'"
  by (auto simp: msgfactory_ok_def getMessage_def generateUUID_def split: option.splits)

lemma add_receivers_eq:
  "distinct (m_receivers m @ rs) \<Longrightarrow> add_receivers rs m = Some (m\<lparr>m_receivers := m_receivers m @ rs\<rparr>)"
  by (induction rs arbitrary: m) (simp_all add: addReceiver_def)

lemma getMessage_async:
  assumes "msgfactory_ok f" "mq_async f i = Some rs"
  shows "getMessage i f = (Some ((message_new i (mq_uuid f))\<lparr>m_type := ASYNC, m_receivers := rs\<rparr>), f\<lparr>mq_uuid := mq_uuid f + 1\<rparr>)"
proof -
  have "distinct rs" using assms by (simp add: msgfactory_ok_def)
  then show ?thesis using assms(2) by (simp add: getMessage_def generateUUID_def add_receivers_eq message_new_def)
qed

lemma getMessage_sync:
  assumes "mq_async f i = None" "mq_sync f i = Some r"
  shows "getMessage i f = (Some ((message_new i (mq_uuid f))\<lparr>m_type := SYNC_REQ, m_receivers := [r]\<rparr>), f\<lparr>mq_uuid := mq_uuid f + 1\<rparr>)"
  using assms by (simp add: getMessage_def generateUUID_def addReceiver_def message_new_def)

text \<open>Changes of the registrations.\<close>

datatype msg_op = MsgRegister string string mtype | MsgUnregister string string | MsgGet string

definition msg_apply :: "msg_op \<Rightarrow> msgfactory \<Rightarrow> msgfactory option" where
  "msg_apply op f =
     (case op of
        MsgRegister i m ty \<Rightarrow> Some (snd (registerMessage i m ty f))
      | MsgUnregister i m \<Rightarrow> unregisterMessage i m f
      | MsgGet i \<Rightarrow> Some (snd (getMessage i f)))"

fun msg_run :: "msg_op list \<Rightarrow> msgfactory \<Rightarrow> msgfactory option" where
  "msg_run [] f = Some f"
| "msg_run (op # ops) f = do { f \<leftarrow> msg_apply op f; msg_run ops f }"

lemma msg_apply_ok: "msgfactory_ok f \<Longrightarrow> msg_apply op f = Some f' \<Longrightarrow> msgfactory_ok f'"
  by (cases op)
    (auto simp: msg_apply_def intro: registerMessage_ok [OF _ prod.collapse [symmetric]] unregisterMessage_ok
      getMessage_ok [OF _ prod.collapse [symmetric]])

lemma msg_run_ok: "msgfactory_ok f \<Longrightarrow> msg_run ops f = Some f' \<Longrightarrow> msgfactory_ok f'"
  by (induction ops arbitrary: f) (auto simp: bind_eq_Some_conv dest: msg_apply_ok)

text \<open>A message the factory makes goes to all modules registered for it, each once, if it is
  asynchronous, and otherwise to the one registered for it; there is none if it is not registered.
  Its number is that of the last one plus one.\<close>

theorem getMessage_receivers:
  assumes "msg_run ops msgfactory_new = Some f"
  shows "getMessage i f =
    (case (mq_async f i, mq_sync f i) of
       (Some rs, _) \<Rightarrow> (Some ((message_new i (mq_uuid f))\<lparr>m_type := ASYNC, m_receivers := rs\<rparr>), f\<lparr>mq_uuid := mq_uuid f + 1\<rparr>)
     | (None, Some r) \<Rightarrow> (Some ((message_new i (mq_uuid f))\<lparr>m_type := SYNC_REQ, m_receivers := [r]\<rparr>), f\<lparr>mq_uuid := mq_uuid f + 1\<rparr>)
     | (None, None) \<Rightarrow> (None, f)) \<and>
    (\<forall>rs. mq_async f i = Some rs \<longrightarrow> distinct rs)"
proof -
  have ok: "msgfactory_ok f" by (rule msg_run_ok [OF msgfactory_new_ok assms])
  show ?thesis
  proof (cases "mq_async f i")
    case None
    then show ?thesis using getMessage_sync [OF None] by (cases "mq_sync f i") (auto simp: getMessage_def)
  next
    case (Some rs)
    then show ?thesis using getMessage_async [OF ok Some] ok by (auto simp: msgfactory_ok_def split: option.split)
  qed
qed

theorem getMessage_receivers_witness:
  "m_receivers (the (fst (getMessage ''change'' (the (msg_run [MsgRegister ''change'' ''dvb'' ASYNC, MsgRegister ''change'' ''cli'' ASYNC,
      MsgRegister ''change'' ''dvb'' ASYNC] msgfactory_new))))) = [''dvb'', ''cli'']"
proof -
  obtain f where f: "msg_run [MsgRegister ''change'' ''dvb'' ASYNC, MsgRegister ''change'' ''cli'' ASYNC,
      MsgRegister ''change'' ''dvb'' ASYNC] msgfactory_new = Some f" "mq_async f ''change'' = Some [''dvb'', ''cli'']"
    by (simp add: msg_apply_def registerMessage_def msgfactory_new_def)
  then show ?thesis using getMessage_receivers [OF f(1), of "''change''"] by (simp split: option.split)
qed

text \<open>The numbers of up to 2 to the 32 messages in a row are different.\<close>

lemma uuid_distinct:
  assumes "i < j" "j < 2 ^ 32"
  shows "(word_of_nat i + u :: 32 word) \<noteq> word_of_nat j + u"
proof
  assume "(word_of_nat i + u :: 32 word) = word_of_nat j + u"
  then have "unat (word_of_nat i :: 32 word) = unat (word_of_nat j :: 32 word)" by simp
  then show False using assms by (simp add: unsigned_of_nat take_bit_nat_eq_self)
qed

text \<open>Taking back the registration of a synchronous message does not ask who registered it.\<close>

theorem unregister_foreign:
  assumes "mq_sync f i = Some owner" "unregisterMessage i other f = Some f'"
  shows "mq_sync f' i = None"
  using assms by (auto simp: unregisterMessage_def)

theorem unregister_foreign_witness:
  "mq_sync (the (unregisterMessage ''get'' ''cli'' (msgfactory_new\<lparr>mq_sync := [''get'' \<mapsto> ''dvb'']\<rparr>))) ''get'' = None"
proof -
  have "unregisterMessage ''get'' ''cli'' (msgfactory_new\<lparr>mq_sync := [''get'' \<mapsto> ''dvb'']\<rparr>) =
      Some (the (unregisterMessage ''get'' ''cli'' (msgfactory_new\<lparr>mq_sync := [''get'' \<mapsto> ''dvb'']\<rparr>)))"
    by (simp add: unregisterMessage_def)
  from unregister_foreign [OF _ this, of "''dvb''"] show ?thesis by simp
qed

end
