(* ===== verification/Holder.thy ===== *)
theory Holder
  imports Message
begin

text \<open>
  The queue of messages of a module, \<^verbatim>\<open>src/common/messageholder.cpp\<close>, between the thread of the module
  and the threads that send to it.

  The base class \<^verbatim>\<open>MessageHolderBase\<close> waits and wakes; what it holds is behind virtual methods,
  \<open>container_ops\<close>, with two implementations, a queue and a single place.  Everything between \<^verbatim>\<open>lock\<close>
  and \<^verbatim>\<open>unlock\<close> is one step, and so is the part of \<^verbatim>\<open>get\<close> before and behind a wait on the condition
  variable.  A call of \<^verbatim>\<open>get\<close> that waits is \<open>None\<close>.  The kernel may wake a waiting thread at any time.
\<close>

section \<open>Containers\<close>

record 'c container_ops =
  co_empty :: "'c \<Rightarrow> bool"
  co_get :: "'c \<Rightarrow> message option \<times> 'c"
  co_add :: "message \<Rightarrow> 'c \<Rightarrow> bool \<times> 'c"

definition standard_ops :: "message list container_ops" where
  "standard_ops = \<lparr>co_empty = (\<lambda>c. c = []),
     co_get = (\<lambda>c. case c of [] \<Rightarrow> (None, []) | m # ms \<Rightarrow> (Some m, ms)),
     co_add = (\<lambda>m c. (True, c @ [m]))\<rparr>"

text \<open>The place for a response; only responses are accepted.\<close>

definition syncres_ops :: "message option container_ops" where
  "syncres_ops = \<lparr>co_empty = (\<lambda>c. c = None),
     co_get = (\<lambda>c. (c, None)),
     co_add = (\<lambda>m c. if getType m = Some SYNC_RES then (True, Some m) else (False, c))\<rparr>"

section \<open>The holder\<close>

record 'c holder =
  ho_cont :: 'c
  ho_stop :: bool
  ho_exit :: bool
  ho_loop :: bool

definition holder_new :: "'c \<Rightarrow> 'c holder" where
  "holder_new c = \<lparr>ho_cont = c, ho_stop = False, ho_exit = False, ho_loop = False\<rparr>"

definition get_finish :: "'c container_ops \<Rightarrow> 'c holder \<Rightarrow> message option \<times> 'c holder" where
  "get_finish ops h =
     (let h = h\<lparr>ho_loop := False, ho_exit := False\<rparr>
      in if ho_stop h then (None, h)
         else (case co_get ops (ho_cont h) of (r, c) \<Rightarrow> (r, h\<lparr>ho_cont := c\<rparr>)))"

text \<open>The head of the loop: wait, or leave it.\<close>

definition get_loop :: "'c container_ops \<Rightarrow> 'c holder \<Rightarrow> message option option \<times> 'c holder" where
  "get_loop ops h =
     (if \<not> ho_exit h then (None, h\<lparr>ho_loop := True\<rparr>)
      else (case get_finish ops h of (r, h) \<Rightarrow> (Some r, h)))"

definition get_enter :: "'c container_ops \<Rightarrow> 'c holder \<Rightarrow> message option option \<times> 'c holder" where
  "get_enter ops h =
     (if co_empty ops (ho_cont h) then get_loop ops h
      else (case get_finish ops h of (r, h) \<Rightarrow> (Some r, h)))"

text \<open>The end of a wait with a time limit.  Without one the loop just goes on.\<close>

datatype wake = Signalled | Interrupted | TimedOut

definition get_wake :: "'c container_ops \<Rightarrow> bool \<Rightarrow> wake \<Rightarrow> 'c holder \<Rightarrow> message option option \<times> 'c holder" where
  "get_wake ops timed w h =
     (if timed \<and> w \<noteq> Interrupted then (case get_finish ops h of (r, h) \<Rightarrow> (Some r, h)) else get_loop ops h)"

text \<open>Waking is setting the flag, if a thread waits, and the broadcast.\<close>

definition wake_up :: "'c holder \<Rightarrow> bool \<times> 'c holder" where
  "wake_up h = (if ho_loop h then (True, h\<lparr>ho_exit := True\<rparr>) else (False, h))"

text \<open>The result, whether there was a broadcast, and the holder.\<close>

definition holder_add :: "'c container_ops \<Rightarrow> message \<Rightarrow> 'c holder \<Rightarrow> result \<times> bool \<times> 'c holder" where
  "holder_add ops m h =
     (if ho_stop h then (ERROR, False, h)
      else
        (case co_add ops m (ho_cont h) of
           (False, c) \<Rightarrow> (ERROR, False, h\<lparr>ho_cont := c\<rparr>)
         | (True, c) \<Rightarrow> (OK, wake_up (h\<lparr>ho_cont := c\<rparr>))))"

definition holder_start :: "'c holder \<Rightarrow> 'c holder" where
  "holder_start h = h\<lparr>ho_stop := False, ho_loop := False, ho_exit := False\<rparr>"

definition holder_stop :: "'c holder \<Rightarrow> bool \<times> 'c holder" where
  "holder_stop h = wake_up (h\<lparr>ho_stop := True\<rparr>)"

text \<open>Both kinds of holders throw away what they hold, without the lock, before they stop.\<close>

definition standard_clear :: "message list holder \<Rightarrow> message list holder" where
  "standard_clear h = h\<lparr>ho_cont := []\<rparr>"

definition syncres_clear :: "message option holder \<Rightarrow> message option holder" where
  "syncres_clear h = h\<lparr>ho_cont := None\<rparr>"

section \<open>What a container promises\<close>

locale message_container =
  fixes ops :: "'c container_ops" and contents :: "'c \<Rightarrow> message list"
  assumes empty: "co_empty ops c \<longleftrightarrow> contents c = []"
    and get: "contents c = m # ms \<Longrightarrow> \<exists>c'. co_get ops c = (Some m, c') \<and> contents c' = ms"
    and none: "contents c = [] \<Longrightarrow> \<exists>c'. co_get ops c = (None, c') \<and> contents c' = []"
    and add: "co_add ops m c = (True, c') \<Longrightarrow> contents c' \<noteq> []"
    and refused: "co_add ops m c = (False, c') \<Longrightarrow> c' = c"

locale fifo_container = message_container +
  assumes add_last: "\<exists>c'. co_add ops m c = (True, c') \<and> contents c' = contents c @ [m]"

interpretation standard: fifo_container standard_ops "\<lambda>c. c"
  by unfold_locales (auto simp: standard_ops_def split: list.split)

interpretation syncres: message_container syncres_ops "\<lambda>c. case c of None \<Rightarrow> [] | Some m \<Rightarrow> [m]"
  by unfold_locales (auto simp: syncres_ops_def split: option.splits if_splits)

section \<open>One reader and many writers\<close>

text \<open>The reader is in its wait (\<open>hs_wait\<close>) and has been woken from it (\<open>hs_woken\<close>); what it was given
  and what was accepted are kept.\<close>

record 'c hsys =
  hs_holder :: "'c holder"
  hs_wait :: bool
  hs_woken :: bool
  hs_got :: "message list"
  hs_added :: "message list"

definition hsys_new :: "'c \<Rightarrow> 'c hsys" where
  "hsys_new c = \<lparr>hs_holder = holder_new c, hs_wait = False, hs_woken = False, hs_got = [], hs_added = []\<rparr>"

text \<open>What the reader does with the end of a part of \<^verbatim>\<open>get\<close>.\<close>

definition reader_end :: "message option option \<times> 'c holder \<Rightarrow> 'c hsys \<Rightarrow> 'c hsys" where
  "reader_end rh s =
     (case rh of
        (None, h) \<Rightarrow> s\<lparr>hs_holder := h, hs_wait := True, hs_woken := False\<rparr>
      | (Some r, h) \<Rightarrow> s\<lparr>hs_holder := h, hs_wait := False, hs_woken := False,
          hs_got := hs_got s @ (case r of None \<Rightarrow> [] | Some m \<Rightarrow> [m])\<rparr>)"

definition woken_by :: "bool \<Rightarrow> 'c holder \<Rightarrow> 'c hsys \<Rightarrow> 'c hsys" where
  "woken_by b h s = s\<lparr>hs_holder := h, hs_woken := hs_woken s \<or> (b \<and> hs_wait s)\<rparr>"

text \<open>A thread that is not woken may still wake up by itself.\<close>

inductive hstep :: "'c container_ops \<Rightarrow> bool \<Rightarrow> 'c hsys \<Rightarrow> 'c hsys \<Rightarrow> bool" for ops timed where
  enter: "\<not> hs_wait s \<Longrightarrow> hstep ops timed s (reader_end (get_enter ops (hs_holder s)) s)"
| wake: "hs_wait s \<Longrightarrow> hstep ops timed s (reader_end (get_wake ops timed w (hs_holder s)) s)"
| add: "holder_add ops m (hs_holder s) = (r, b, h) \<Longrightarrow>
    hstep ops timed s (woken_by b h (s\<lparr>hs_added := hs_added s @ (if r = OK then [m] else [])\<rparr>))"
| stop: "holder_stop (hs_holder s) = (b, h) \<Longrightarrow> hstep ops timed s (woken_by b h s)"

inductive hsteps :: "'c container_ops \<Rightarrow> bool \<Rightarrow> 'c hsys \<Rightarrow> 'c hsys \<Rightarrow> bool" for ops timed where
  refl: "hsteps ops timed s s"
| step: "hsteps ops timed s s1 \<Longrightarrow> hstep ops timed s1 s2 \<Longrightarrow> hsteps ops timed s s2"

text \<open>A waiting reader has its flag set, and once there is a message it has been woken for good.\<close>

definition wake_inv :: "('c \<Rightarrow> message list) \<Rightarrow> 'c hsys \<Rightarrow> bool" where
  "wake_inv contents s \<longleftrightarrow> (hs_wait s \<longrightarrow> ho_loop (hs_holder s) \<and>
     (contents (ho_cont (hs_holder s)) \<noteq> [] \<longrightarrow> ho_exit (hs_holder s) \<and> hs_woken s))"

definition fifo_inv :: "('c \<Rightarrow> message list) \<Rightarrow> 'c hsys \<Rightarrow> bool" where
  "fifo_inv contents s \<longleftrightarrow> hs_added s = hs_got s @ contents (ho_cont (hs_holder s))"

section \<open>What the holder keeps\<close>

lemma reader_end_simps [simp]:
  "hs_wait (reader_end rh s) = (fst rh = None)" "hs_holder (reader_end rh s) = snd rh" "\<not> hs_woken (reader_end rh s)"
  "hs_added (reader_end rh s) = hs_added s"
  by (auto simp: reader_end_def split: prod.split option.split)

lemma woken_by_simps [simp]:
  "hs_wait (woken_by b h s) = hs_wait s" "hs_holder (woken_by b h s) = h" "hs_woken (woken_by b h s) = (hs_woken s \<or> b \<and> hs_wait s)"
  "hs_added (woken_by b h s) = hs_added s" "hs_got (woken_by b h s) = hs_got s"
  by (simp_all add: woken_by_def)

context message_container
begin

text \<open>A part of \<^verbatim>\<open>get\<close> that waits has set its flag and left the rest.\<close>

lemma get_loop_cases:
  "get_loop ops h = (if ho_exit h then (Some (fst (get_finish ops h)), snd (get_finish ops h)) else (None, h\<lparr>ho_loop := True\<rparr>))"
  by (simp add: get_loop_def split: prod.split)

lemma wake_up_cases: "wake_up h = (ho_loop h, if ho_loop h then h\<lparr>ho_exit := True\<rparr> else h)"
  by (simp add: wake_up_def)

lemma get_enter_waits: "get_enter ops h = (None, h') \<Longrightarrow> h' = h\<lparr>ho_loop := True\<rparr> \<and> contents (ho_cont h) = []"
  by (auto simp: get_enter_def get_loop_cases empty split: if_splits prod.splits)

lemma get_wake_waits: "get_wake ops timed w h = (None, h') \<Longrightarrow> h' = h\<lparr>ho_loop := True\<rparr> \<and> \<not> ho_exit h"
  by (auto simp: get_wake_def get_loop_cases split: if_splits prod.splits)

lemma holder_add_cases:
  assumes "holder_add ops m h = (r, b, h')"
  obtains "r = ERROR" "\<not> b" "h' = h" | c where "r = OK" "\<not> ho_stop h" "co_add ops m (ho_cont h) = (True, c)" "b = ho_loop h"
    "h' = (if ho_loop h then h\<lparr>ho_cont := c, ho_exit := True\<rparr> else h\<lparr>ho_cont := c\<rparr>)"
proof (cases "ho_stop h")
  case True
  then show ?thesis using assms that(1) by (simp add: holder_add_def)
next
  case False
  obtain q c where q: "co_add ops m (ho_cont h) = (q, c)" by fastforce
  show ?thesis
  proof (cases q)
    case True
    then show ?thesis using assms q False that(2) [of c] by (simp add: holder_add_def wake_up_cases split: if_splits)
  next
    case no: False
    then have "c = ho_cont h" using refused [of m "ho_cont h" c] q by simp
    then show ?thesis using assms q False no that(1) by (simp add: holder_add_def)
  qed
qed

lemma wake_inv_step: "hstep ops timed s s' \<Longrightarrow> wake_inv contents s \<Longrightarrow> wake_inv contents s'"
proof (induction rule: hstep.induct)
  case (enter s)
  then show ?case using get_enter_waits [of "hs_holder s"] by (cases "get_enter ops (hs_holder s)") (auto simp: wake_inv_def)
next
  case (wake s w)
  then show ?case using get_wake_waits [of timed w "hs_holder s"]
    by (cases "get_wake ops timed w (hs_holder s)") (auto simp: wake_inv_def)
next
  case (add m s r b h)
  from add(1) show ?case by (rule holder_add_cases) (use add(2) in \<open>auto simp: wake_inv_def\<close>)
next
  case (stop s b h)
  then show ?case by (auto simp: wake_inv_def holder_stop_def wake_up_cases)
qed

lemma wake_inv_steps: "hsteps ops timed s s' \<Longrightarrow> wake_inv contents s \<Longrightarrow> wake_inv contents s'"
  by (induction rule: hsteps.induct) (auto dest: wake_inv_step)

lemma get_finish_first:
  assumes "contents (ho_cont h) = m # ms"
  shows "fst (get_finish ops h) = (if ho_stop h then None else Some m)"
  using get [OF assms] by (auto simp: get_finish_def Let_def)

text \<open>A waiting reader for whom there is a message has been woken, and gets it once it runs.\<close>

lemma no_lost_message:
  assumes "hsteps ops timed s s'" "wake_inv contents s" "hs_wait s'" "contents (ho_cont (hs_holder s')) = m # ms"
  shows "hs_woken s' \<and> fst (get_wake ops timed w (hs_holder s')) = Some (if ho_stop (hs_holder s') then None else Some m)"
proof -
  have "wake_inv contents s'" by (rule wake_inv_steps [OF assms(1,2)])
  then have "hs_woken s'" "ho_exit (hs_holder s')" using assms(3,4) by (simp_all add: wake_inv_def)
  then show ?thesis using get_finish_first [OF assms(4)] by (auto simp: get_wake_def get_loop_cases split: prod.split)
qed

end

context fifo_container
begin

lemma get_finish_fifo:
  "contents (ho_cont h) = (case fst (get_finish ops h) of None \<Rightarrow> [] | Some m \<Rightarrow> [m]) @ contents (ho_cont (snd (get_finish ops h)))"
proof (cases "contents (ho_cont h)")
  case Nil
  from none [OF this] show ?thesis using Nil by (auto simp: get_finish_def Let_def)
next
  case (Cons m ms)
  from get [OF this] show ?thesis using Cons by (auto simp: get_finish_def Let_def)
qed

lemma get_enter_fifo:
  "contents (ho_cont h) = (case fst (get_enter ops h) of Some (Some m) \<Rightarrow> [m] | _ \<Rightarrow> []) @ contents (ho_cont (snd (get_enter ops h)))"
  using get_finish_fifo [of h] by (auto simp: get_enter_def get_loop_cases split: prod.split option.split)

lemma get_wake_fifo:
  "contents (ho_cont h) = (case fst (get_wake ops timed w h) of Some (Some m) \<Rightarrow> [m] | _ \<Rightarrow> []) @ contents (ho_cont (snd (get_wake ops timed w h)))"
  using get_finish_fifo [of h] by (auto simp: get_wake_def get_loop_cases split: prod.split option.split)

lemma reader_end_got: "hs_got (reader_end rh s) = hs_got s @ (case fst rh of Some (Some m) \<Rightarrow> [m] | _ \<Rightarrow> [])"
  by (auto simp: reader_end_def split: prod.split option.split)

lemma fifo_inv_step: "hstep ops timed s s' \<Longrightarrow> fifo_inv contents s \<Longrightarrow> fifo_inv contents s'"
proof (induction rule: hstep.induct)
  case (enter s)
  then show ?case using get_enter_fifo [of "hs_holder s"] by (simp add: fifo_inv_def reader_end_got)
next
  case (wake s w)
  then show ?case using get_wake_fifo [of "hs_holder s" timed w] by (simp add: fifo_inv_def reader_end_got)
next
  case (add m s r b h)
  from add(1) show ?case
  proof (rule holder_add_cases)
    fix c
    assume c: "r = OK" "co_add ops m (ho_cont (hs_holder s)) = (True, c)"
      "h = (if ho_loop (hs_holder s) then (hs_holder s)\<lparr>ho_cont := c, ho_exit := True\<rparr> else (hs_holder s)\<lparr>ho_cont := c\<rparr>)"
    have "contents c = contents (ho_cont (hs_holder s)) @ [m]" using add_last [of m "ho_cont (hs_holder s)"] c(2) by auto
    then show ?thesis using add(2) c(1,3) by (auto simp: fifo_inv_def)
  qed (use add(2) in \<open>simp add: fifo_inv_def\<close>)
next
  case (stop s b h)
  then show ?case by (auto simp: fifo_inv_def holder_stop_def wake_up_cases)
qed

lemma fifo_inv_steps: "hsteps ops timed s s' \<Longrightarrow> fifo_inv contents s \<Longrightarrow> fifo_inv contents s'"
  by (induction rule: hsteps.induct) (auto dest: fifo_inv_step)

end

text \<open>Adding to a holder that runs.\<close>

lemma standard_add:
  assumes "\<not> ho_stop h"
  shows "\<exists>b h'. holder_add standard_ops m h = (OK, b, h') \<and> ho_cont h' = ho_cont h @ [m] \<and> \<not> ho_stop h'"
  using assms by (cases "ho_loop h") (auto simp: holder_add_def standard_ops_def wake_up_def)

lemma syncres_add:
  assumes "\<not> ho_stop h" "getType m = Some SYNC_RES"
  shows "\<exists>b h'. holder_add syncres_ops m h = (OK, b, h') \<and> ho_cont h' = Some m \<and> \<not> ho_stop h'"
  using assms by (cases "ho_loop h") (auto simp: holder_add_def syncres_ops_def wake_up_def)

section \<open>The queue of a module\<close>

lemma hsys_new_inv: "wake_inv (\<lambda>c. c) (hsys_new [])" "fifo_inv (\<lambda>c. c) (hsys_new [])"
  by (simp_all add: wake_inv_def fifo_inv_def hsys_new_def holder_new_def)



text \<open>A run: the module waits, a message is sent, the module wakes up.\<close>

definition ping :: message where
  "ping = (message_new ''ping'' 1)\<lparr>m_type := ASYNC\<rparr>"

definition waiting_sys :: "message list hsys" where
  "waiting_sys = reader_end (get_enter standard_ops (holder_new [])) (hsys_new [])"

definition pinged_sys :: "message list hsys" where
  "pinged_sys = woken_by True ((holder_new [ping])\<lparr>ho_loop := True, ho_exit := True\<rparr>) (waiting_sys\<lparr>hs_added := [ping]\<rparr>)"

lemma waiting_reached: "hsteps standard_ops False (hsys_new []) waiting_sys"
proof -
  have "hstep standard_ops False (hsys_new []) (reader_end (get_enter standard_ops (hs_holder (hsys_new []))) (hsys_new []))"
    by (rule hstep.enter) (simp add: hsys_new_def)
  then have "hstep standard_ops False (hsys_new []) waiting_sys" by (simp add: waiting_sys_def hsys_new_def)
  then show ?thesis by (meson hsteps.intros)
qed

lemma waiting_sys_eq: "waiting_sys = \<lparr>hs_holder = (holder_new [])\<lparr>ho_loop := True\<rparr>, hs_wait = True, hs_woken = False, hs_got = [], hs_added = []\<rparr>"
  by (simp add: waiting_sys_def reader_end_def get_enter_def get_loop_def standard_ops_def holder_new_def hsys_new_def)

lemma pinged_reached: "hsteps standard_ops False (hsys_new []) pinged_sys"
proof -
  have "holder_add standard_ops ping (hs_holder waiting_sys) =
      (OK, True, (holder_new [ping])\<lparr>ho_loop := True, ho_exit := True\<rparr>)"
    by (simp add: holder_add_def standard_ops_def waiting_sys_eq holder_new_def wake_up_def)
  from hstep.add [OF this, of False] have "hstep standard_ops False waiting_sys pinged_sys"
    by (simp add: pinged_sys_def waiting_sys_eq)
  then show ?thesis using waiting_reached by (meson hsteps.intros)
qed



section \<open>Stopping\<close>

text \<open>The reader waits, the holder is stopped, and its flag to leave the wait is not set.\<close>

definition stuck :: "message list hsys \<Rightarrow> bool" where
  "stuck s \<longleftrightarrow> hs_wait s \<and> ho_stop (hs_holder s) \<and> \<not> ho_exit (hs_holder s)"

definition stopped_sys :: "message list hsys" where
  "stopped_sys = (hsys_new [])\<lparr>hs_holder := (holder_new [])\<lparr>ho_stop := True\<rparr>\<rparr>"

text \<open>A module that is stopped between its look at the stop flag and its call of \<^verbatim>\<open>get\<close> is not woken:
  the flag to leave the wait is set only for a reader that waits already, and \<^verbatim>\<open>get\<close> does not look at
  the stop flag before it waits.  As nothing is accepted any more, it waits on, whether the kernel
  wakes it or not, until the holder is stopped once more.\<close>

theorem stop_before_get_waits:
  "\<exists>s. hsteps standard_ops False (hsys_new []) stopped_sys \<and> hstep standard_ops False stopped_sys s \<and> stuck s \<and>
     (\<forall>w. stuck (reader_end (get_wake standard_ops False w (hs_holder s)) s)) \<and>
     (\<forall>m. holder_add standard_ops m (hs_holder s) = (ERROR, False, hs_holder s))"
proof -
  let ?s = "reader_end (get_enter standard_ops (hs_holder stopped_sys)) stopped_sys"
  have "hstep standard_ops False (hsys_new []) (woken_by False ((holder_new [])\<lparr>ho_stop := True\<rparr>) (hsys_new []))"
    by (rule hstep.stop) (simp add: holder_stop_def wake_up_def hsys_new_def holder_new_def)
  then have "hstep standard_ops False (hsys_new []) stopped_sys" by (simp add: woken_by_def stopped_sys_def hsys_new_def)
  then have "hsteps standard_ops False (hsys_new []) stopped_sys" by (meson hsteps.intros)
  moreover have "hstep standard_ops False stopped_sys ?s" by (rule hstep.enter) (simp add: stopped_sys_def hsys_new_def)
  moreover have s: "?s = stopped_sys\<lparr>hs_holder := (holder_new [])\<lparr>ho_stop := True, ho_loop := True\<rparr>, hs_wait := True, hs_woken := False\<rparr>"
    by (simp add: reader_end_def get_enter_def get_loop_def standard_ops_def stopped_sys_def holder_new_def)
  moreover have "stuck ?s" unfolding s by (simp add: stuck_def holder_new_def)
  moreover have "stuck (reader_end (get_wake standard_ops False w (hs_holder ?s)) ?s)" for w
    unfolding s by (simp add: stuck_def get_wake_def get_loop_def holder_new_def)
  moreover have "holder_add standard_ops m (hs_holder ?s) = (ERROR, False, hs_holder ?s)" for m
    unfolding s by (simp add: holder_add_def holder_new_def)
  ultimately show ?thesis by blast
qed

section \<open>The place for a response\<close>

text \<open>A response that has not been read is overwritten by the next one, which can be that of another
  request.\<close>

theorem syncres_overwrites:
  assumes "getType m = Some SYNC_RES" "getType n = Some SYNC_RES" "\<not> ho_stop h"
  shows "ho_cont (snd (snd (holder_add syncres_ops n (snd (snd (holder_add syncres_ops m h)))))) = Some n"
  using assms by (simp add: holder_add_def syncres_ops_def wake_up_def)

text \<open>A wake-up without a message ends the wait for a response as a failure.\<close>

theorem syncres_wakes_early:
  "fst (get_wake syncres_ops True Signalled (snd (get_enter syncres_ops (holder_new None)))) = Some None"
  by (simp add: get_wake_def get_enter_def get_loop_def get_finish_def syncres_ops_def holder_new_def)

end
