(* ===== verification/Processor.thy ===== *)
theory Processor
  imports Message
begin

text \<open>
  The processor of the messages of a module, \<^verbatim>\<open>src/common/processor.cpp\<close>, with the reading and writing
  of command line requests from \<^verbatim>\<open>src/common/cliutils.cpp\<close>.

  The functions the module registers are numbers, and so are its commands; what they do is in the
  environment: \<open>pv_async\<close> and \<open>pv_sync\<close> for the functions, \<open>pv_process\<close> and \<open>pv_complete\<close> for the commands.
  An exception is a value of \<open>exn\<close>, with the text \<open>pv_what\<close>.  The names of the fields of a message are
  set when the program is built, so they are in \<open>pv_keys\<close>.  The map from messages to functions is an
  association list; nothing depends on its order.
\<close>

section \<open>Exceptions and names\<close>

datatype exn = NoValue string string | NoList string string | Assertion | UnsupportedMode | NoProcessor string | Failure string

record keys =
  k_all :: string
  k_type :: string
  k_params :: string
  k_process :: string
  k_complete :: string
  k_status :: string
  k_ok :: string
  k_failed :: string
  k_error :: string
  k_cliresult :: string

definition keys_ok :: "keys \<Rightarrow> bool" where
  "keys_ok ks \<longleftrightarrow> k_process ks \<noteq> k_complete ks \<and> k_ok ks \<noteq> k_failed ks \<and> distinct [k_status ks, k_error ks, k_cliresult ks, k_type ks]"

record penv =
  pv_keys :: keys
  pv_async :: "nat \<Rightarrow> message \<Rightarrow> exn option"
  pv_sync :: "nat \<Rightarrow> message \<Rightarrow> message \<Rightarrow> exn option \<times> message"
  pv_process :: "string \<Rightarrow> string list \<Rightarrow> exn + string"
  pv_complete :: "string \<Rightarrow> string list \<Rightarrow> exn + string list"
  pv_what :: "exn \<Rightarrow> string"

section \<open>Command line requests\<close>

datatype cmdmode = PROCESS | GETCOMPLETION | UNKNOWN

definition setParams :: "keys \<Rightarrow> string list \<Rightarrow> message \<Rightarrow> message" where
  "setParams ks ps m = setList (k_params ks) ps m"

definition setProcessParams :: "keys \<Rightarrow> string list \<Rightarrow> message \<Rightarrow> message" where
  "setProcessParams ks ps m = setValue (k_type ks) (k_process ks) (setParams ks ps m)"

definition setCompletionRequest :: "keys \<Rightarrow> string list \<Rightarrow> message \<Rightarrow> message" where
  "setCompletionRequest ks ps m = setValue (k_type ks) (k_complete ks) (setParams ks ps m)"

definition value_of :: "string \<Rightarrow> message \<Rightarrow> exn + string" where
  "value_of k m = (case getValue k m of None \<Rightarrow> Inl (NoValue k (m_id m)) | Some v \<Rightarrow> Inr v)"

definition list_of :: "string \<Rightarrow> message \<Rightarrow> exn + string list" where
  "list_of k m = (case getList k m of None \<Rightarrow> Inl (NoList k (m_id m)) | Some v \<Rightarrow> Inr v)"

definition getParams :: "keys \<Rightarrow> message \<Rightarrow> exn + string list" where
  "getParams ks m = list_of (k_params ks) m"

definition getCommandMode :: "keys \<Rightarrow> message \<Rightarrow> exn + cmdmode" where
  "getCommandMode ks m =
     (case value_of (k_type ks) m of
        Inl e \<Rightarrow> Inl e
      | Inr v \<Rightarrow> Inr (if v = k_complete ks then GETCOMPLETION else if v = k_process ks then PROCESS else UNKNOWN))"

definition getProcessParams :: "keys \<Rightarrow> message \<Rightarrow> exn + string list" where
  "getProcessParams ks m =
     (case value_of (k_type ks) m of Inl e \<Rightarrow> Inl e | Inr v \<Rightarrow> if v = k_process ks then getParams ks m else Inl Assertion)"

definition getCompletionRequest :: "keys \<Rightarrow> message \<Rightarrow> exn + string list" where
  "getCompletionRequest ks m =
     (case value_of (k_type ks) m of Inl e \<Rightarrow> Inl e | Inr v \<Rightarrow> if v = k_complete ks then getParams ks m else Inl Assertion)"

definition setCompletionResponse :: "keys \<Rightarrow> string list \<Rightarrow> message \<Rightarrow> message" where
  "setCompletionResponse ks ps m = setParams ks ps m"

definition getCompletionResponse :: "keys \<Rightarrow> message \<Rightarrow> exn + string list" where
  "getCompletionResponse ks m = getParams ks m"

section \<open>The processor\<close>

record ccommand =
  cc_name :: string
  cc_msgid :: string

datatype handler = HAsync nat | HSync nat | HCli

record processor =
  pr_modid :: string
  pr_handlers :: "(string \<times> handler) list"
  pr_cli :: "ccommand list"

definition processor_new :: "string \<Rightarrow> processor" where
  "processor_new m = \<lparr>pr_modid = m, pr_handlers = [], pr_cli = []\<rparr>"

text \<open>The function is entered before the message is registered, and stays if that fails.\<close>

definition register_handler :: "handler \<Rightarrow> mtype \<Rightarrow> string \<Rightarrow> processor \<Rightarrow> msgfactory \<Rightarrow> bool \<times> processor \<times> msgfactory" where
  "register_handler hnd ty i p f =
     (if map_of (pr_handlers p) i \<noteq> None then (False, p, f)
      else
        (let p = p\<lparr>pr_handlers := (i, hnd) # pr_handlers p\<rparr>
         in case registerMessage i (pr_modid p) ty f of (b, f) \<Rightarrow> (b, p, f)))"

definition registerASync :: "string \<Rightarrow> nat \<Rightarrow> processor \<Rightarrow> msgfactory \<Rightarrow> bool \<times> processor \<times> msgfactory" where
  "registerASync i fn = register_handler (HAsync fn) ASYNC i"

definition registerSync :: "string \<Rightarrow> nat \<Rightarrow> processor \<Rightarrow> msgfactory \<Rightarrow> bool \<times> processor \<times> msgfactory" where
  "registerSync i fn = register_handler (HSync fn) SYNC_REQ i"

definition registerCLI :: "ccommand \<Rightarrow> processor \<Rightarrow> msgfactory \<Rightarrow> bool \<times> processor \<times> msgfactory" where
  "registerCLI c p f =
     (if \<exists>d \<in> set (pr_cli p). cc_name d = cc_name c then (False, p, f)
      else register_handler HCli SYNC_REQ (cc_msgid c) (p\<lparr>pr_cli := pr_cli p @ [c]\<rparr>) f)"

fun unregister_each :: "string list \<Rightarrow> string \<Rightarrow> msgfactory \<Rightarrow> msgfactory option" where
  "unregister_each [] m f = Some f"
| "unregister_each (i # is) m f = do { f \<leftarrow> unregisterMessage i m f; unregister_each is m f }"

definition unregisterAll :: "processor \<Rightarrow> msgfactory \<Rightarrow> (processor \<times> msgfactory) option" where
  "unregisterAll p f = do { f \<leftarrow> unregister_each (map fst (pr_handlers p)) (pr_modid p) f; Some (p\<lparr>pr_handlers := []\<rparr>, f) }"

text \<open>A command, and what it puts into the answer.\<close>

definition processCLI :: "penv \<Rightarrow> processor \<Rightarrow> message \<Rightarrow> message \<Rightarrow> exn option \<times> message" where
  "processCLI env p m out =
     (let ks = pv_keys env
      in case find (\<lambda>c. cc_msgid c = m_id m) (pr_cli p) of
           None \<Rightarrow> (Some Assertion, out)
         | Some c \<Rightarrow>
             (case getCommandMode ks m of
                Inl e \<Rightarrow> (Some e, out)
              | Inr PROCESS \<Rightarrow>
                  (case getProcessParams ks m of
                     Inl e \<Rightarrow> (Some e, out)
                   | Inr ps \<Rightarrow> (case pv_process env (cc_name c) ps of
                                 Inl e \<Rightarrow> (Some e, out)
                               | Inr r \<Rightarrow> (None, setValue (k_cliresult ks) r out)))
              | Inr GETCOMPLETION \<Rightarrow>
                  (case getCompletionRequest ks m of
                     Inl e \<Rightarrow> (Some e, out)
                   | Inr ps \<Rightarrow> (case pv_complete env (cc_name c) ps of
                                 Inl e \<Rightarrow> (Some e, out)
                               | Inr r \<Rightarrow> (None, setCompletionResponse ks r out)))
              | Inr UNKNOWN \<Rightarrow> (Some UnsupportedMode, out)))"

text \<open>The answer, and the module it is for; \<open>None\<close> if an assertion fails before.\<close>

definition processSync :: "penv \<Rightarrow> (message \<Rightarrow> message \<Rightarrow> exn option \<times> message) \<Rightarrow> message \<Rightarrow> (string \<times> message) option" where
  "processSync env func m = do {
     out \<leftarrow> getResponse m;
     let ks = pv_keys env;
     Some (m_sender m,
       case func m out of
         (None, out) \<Rightarrow> setValue (k_status ks) (k_ok ks) out
       | (Some e, out) \<Rightarrow> setValue (k_error ks) (pv_what env e) (setValue (k_status ks) (k_failed ks) out))
   }"

text \<open>An exception, or the answer if there is one.\<close>

definition process :: "penv \<Rightarrow> processor \<Rightarrow> message \<Rightarrow> exn + (string \<times> message) option" where
  "process env p m =
     (case (case map_of (pr_handlers p) (m_id m) of
              None \<Rightarrow> map_of (pr_handlers p) (k_all (pv_keys env))
            | Some hnd \<Rightarrow> Some hnd) of
        None \<Rightarrow> Inl (NoProcessor (m_id m))
      | Some (HAsync fn) \<Rightarrow> (case pv_async env fn m of None \<Rightarrow> Inr None | Some e \<Rightarrow> Inl e)
      | Some (HSync fn) \<Rightarrow> (case processSync env (pv_sync env fn) m of None \<Rightarrow> Inl Assertion | Some r \<Rightarrow> Inr (Some r))
      | Some HCli \<Rightarrow> (case processSync env (processCLI env p) m of None \<Rightarrow> Inl Assertion | Some r \<Rightarrow> Inr (Some r)))"

section \<open>Requests and answers\<close>

text \<open>What is put into a command line request is what is read from it: its kind and its
  parameters, whatever else is in the message.\<close>

theorem cli_request_roundtrip:
  assumes "keys_ok ks"
  shows "getCommandMode ks (setProcessParams ks ps m) = Inr PROCESS \<and> getProcessParams ks (setProcessParams ks ps m) = Inr ps \<and>
    getCommandMode ks (setCompletionRequest ks ps m) = Inr GETCOMPLETION \<and>
    getCompletionRequest ks (setCompletionRequest ks ps m) = Inr ps \<and>
    getCompletionResponse ks (setCompletionResponse ks ps m) = Inr ps"
  using assms
  by (simp add: keys_ok_def getCommandMode_def getProcessParams_def getCompletionRequest_def getCompletionResponse_def
      setCompletionResponse_def setProcessParams_def setCompletionRequest_def setParams_def getParams_def value_of_def list_of_def
      getValue_def getList_def setValue_def setList_def)

definition demo_keys :: keys where
  "demo_keys = \<lparr>k_all = ''all'', k_type = ''type'', k_params = ''params'', k_process = ''process'', k_complete = ''complete'',
     k_status = ''status'', k_ok = ''OK'', k_failed = ''FAILED'', k_error = ''error'', k_cliresult = ''result''\<rparr>"

lemma demo_keys_ok: "keys_ok demo_keys"
  by (simp add: keys_ok_def demo_keys_def)

theorem cli_request_roundtrip_witness:
  "getProcessParams demo_keys (setProcessParams demo_keys [''show'', ''dvb''] (message_new ''cli'' 1)) = Inr [''show'', ''dvb'']"
  using cli_request_roundtrip [OF demo_keys_ok] by blast

text \<open>The functions of a module change the fields of the answer, not its identity.\<close>

definition keeps_identity :: "(message \<Rightarrow> message \<Rightarrow> exn option \<times> message) \<Rightarrow> bool" where
  "keeps_identity func \<longleftrightarrow> (\<forall>m out. m_id (snd (func m out)) = m_id out \<and> m_uuid (snd (func m out)) = m_uuid out \<and>
     m_type (snd (func m out)) = m_type out)"

lemma processCLI_identity: "keeps_identity (processCLI env p)"
  by (auto simp: keeps_identity_def processCLI_def Let_def setValue_def setCompletionResponse_def setParams_def setList_def
      split: option.split sum.split cmdmode.split)

lemma processSync_answer:
  assumes "keeps_identity func" "m_type m = SYNC_REQ" "keys_ok (pv_keys env)"
  obtains out where "processSync env func m = Some (m_sender m, out)" "m_id out = m_id m" "m_uuid out = m_uuid m" "m_type out = SYNC_RES"
    "getValue (k_status (pv_keys env)) out =
       Some (case fst (func m ((message_new (m_id m) (m_uuid m))\<lparr>m_type := SYNC_RES\<rparr>)) of
               None \<Rightarrow> k_ok (pv_keys env) | Some _ \<Rightarrow> k_failed (pv_keys env))"
    "\<And>e. fst (func m ((message_new (m_id m) (m_uuid m))\<lparr>m_type := SYNC_RES\<rparr>)) = Some e \<Longrightarrow>
       getValue (k_error (pv_keys env)) out = Some (pv_what env e)"
proof -
  let ?o = "(message_new (m_id m) (m_uuid m))\<lparr>m_type := SYNC_RES\<rparr>"
  have resp: "getResponse m = Some ?o" using assms(2) by (simp add: getResponse_def getType_def)
  obtain r out where f: "func m ?o = (r, out)" by fastforce
  have "m_id (snd (func m ?o)) = m_id ?o \<and> m_uuid (snd (func m ?o)) = m_uuid ?o \<and> m_type (snd (func m ?o)) = m_type ?o"
    using assms(1) unfolding keeps_identity_def by blast
  then have idn: "m_id out = m_id m" "m_uuid out = m_uuid m" "m_type out = SYNC_RES" using f by (simp_all add: message_new_def)
  define out' where "out' = (case r of None \<Rightarrow> setValue (k_status (pv_keys env)) (k_ok (pv_keys env)) out
     | Some e \<Rightarrow> setValue (k_error (pv_keys env)) (pv_what env e) (setValue (k_status (pv_keys env)) (k_failed (pv_keys env)) out))"
  have "processSync env func m = Some (m_sender m, out')"
    using resp f by (cases r) (simp_all add: processSync_def Let_def out'_def)
  moreover have "m_id out' = m_id m" "m_uuid out' = m_uuid m" "m_type out' = SYNC_RES"
    using idn by (simp_all add: out'_def setValue_def split: option.split)
  moreover have "getValue (k_status (pv_keys env)) out' =
       Some (case fst (func m ?o) of None \<Rightarrow> k_ok (pv_keys env) | Some _ \<Rightarrow> k_failed (pv_keys env))"
    using assms(3) f by (cases r) (auto simp: out'_def getValue_def setValue_def keys_ok_def)
  moreover have "getValue (k_error (pv_keys env)) out' = Some (pv_what env e)" if "fst (func m ?o) = Some e" for e
    using f that by (simp add: out'_def getValue_def setValue_def)
  ultimately show ?thesis by (rule that)
qed

text \<open>Every request for which a module has registered a function is answered, also if the function
  throws: the answer goes to the sender, has the number of the request, and says whether the function
  succeeded or else what the exception was.\<close>

theorem sync_request_answered:
  assumes "map_of (pr_handlers p) (m_id m) = Some (HSync fn)" "m_type m = SYNC_REQ" "keys_ok (pv_keys env)" "keeps_identity (pv_sync env fn)"
  shows "\<exists>out. process env p m = Inr (Some (m_sender m, out)) \<and> m_id out = m_id m \<and> m_uuid out = m_uuid m \<and> m_type out = SYNC_RES \<and>
    (case fst (pv_sync env fn m ((message_new (m_id m) (m_uuid m))\<lparr>m_type := SYNC_RES\<rparr>)) of
       None \<Rightarrow> getValue (k_status (pv_keys env)) out = Some (k_ok (pv_keys env))
     | Some e \<Rightarrow> getValue (k_status (pv_keys env)) out = Some (k_failed (pv_keys env)) \<and>
         getValue (k_error (pv_keys env)) out = Some (pv_what env e))"
  by (rule processSync_answer [OF assms(4,2,3)]) (use assms(1) in \<open>auto simp: process_def split: option.split\<close>)

definition demo_penv :: penv where
  "demo_penv = \<lparr>pv_keys = demo_keys, pv_async = (\<lambda>_ _. None), pv_sync = (\<lambda>_ _ out. (Some (Failure ''no device''), out)),
     pv_process = (\<lambda>_ ps. Inr (concat ps)), pv_complete = (\<lambda>_ ps. Inr ps),
     pv_what = (\<lambda>e. case e of Failure t \<Rightarrow> t | _ \<Rightarrow> ''exception'')\<rparr>"

definition demo_request :: message where
  "demo_request = (message_new ''get'' 7)\<lparr>m_type := SYNC_REQ, m_sender := ''cli''\<rparr>"

definition demo_proc :: processor where
  "demo_proc = \<lparr>pr_modid = ''dvb'', pr_handlers = [(''get'', HSync 0)], pr_cli = []\<rparr>"

theorem sync_request_answered_witness:
  "\<exists>out. process demo_penv demo_proc demo_request = Inr (Some (''cli'', out)) \<and> m_id out = ''get'' \<and> m_uuid out = 7 \<and> m_type out = SYNC_RES \<and>
     getValue ''status'' out = Some ''FAILED'' \<and> getValue ''error'' out = Some ''no device''"
  using sync_request_answered [of demo_proc demo_request 0 demo_penv] demo_keys_ok
  by (simp add: demo_proc_def demo_request_def demo_penv_def keeps_identity_def message_new_def) (simp add: demo_keys_def)

section \<open>What is registered\<close>

text \<open>Everything a processor can process is registered for its module.\<close>

definition registered :: "processor \<Rightarrow> msgfactory \<Rightarrow> bool" where
  "registered p f \<longleftrightarrow> (\<forall>i hnd. map_of (pr_handlers p) i = Some hnd \<longrightarrow>
     (case hnd of
        HAsync _ \<Rightarrow> (\<exists>rs. mq_async f i = Some rs \<and> pr_modid p \<in> set rs)
      | _ \<Rightarrow> mq_sync f i = Some (pr_modid p)))"

lemma register_handler_ok:
  assumes "registered p f" "register_handler hnd ty i p f = (True, p', f')" "ty = (case hnd of HAsync _ \<Rightarrow> ASYNC | _ \<Rightarrow> SYNC_REQ)"
  shows "registered p' f'"
proof -
  have new: "map_of (pr_handlers p) i = None" using assms(2) by (auto simp: register_handler_def split: if_splits)
  have p': "pr_handlers p' = (i, hnd) # pr_handlers p" "pr_modid p' = pr_modid p"
    and reg: "registerMessage i (pr_modid p) ty f = (True, f')"
    using assms(2) new by (auto simp: register_handler_def Let_def split: prod.splits)
  have f': "mq_sync f' = (if ty = SYNC_REQ then (mq_sync f)(i \<mapsto> pr_modid p) else mq_sync f)"
    "mq_async f' = (if ty = ASYNC then (mq_async f)(i \<mapsto> (case mq_async f i of None \<Rightarrow> [] | Some rs \<Rightarrow> rs) @ [pr_modid p]) else mq_async f)"
    using reg assms(3) by (auto simp: registerMessage_def Let_def split: if_splits handler.splits)
  show ?thesis unfolding registered_def
  proof (intro allI impI)
    fix j k
    assume j: "map_of (pr_handlers p') j = Some k"
    show "case k of HAsync _ \<Rightarrow> (\<exists>rs. mq_async f' j = Some rs \<and> pr_modid p' \<in> set rs) | _ \<Rightarrow> mq_sync f' j = Some (pr_modid p')"
    proof (cases "j = i")
      case True
      then have "k = hnd" using j p' by simp
      then show ?thesis using True p' f' assms(3) by (cases hnd) auto
    next
      case False
      then have "map_of (pr_handlers p) j = Some k" using j p' by simp
      then have "case k of HAsync _ \<Rightarrow> (\<exists>rs. mq_async f j = Some rs \<and> pr_modid p \<in> set rs) | _ \<Rightarrow> mq_sync f j = Some (pr_modid p)"
        using assms(1) by (simp add: registered_def)
      then show ?thesis using False p'(2) f' by (cases k) auto
    qed
  qed
qed

text \<open>Registering for another module keeps this one registered.\<close>

lemma registerMessage_keeps:
  assumes "registered p f" "registerMessage i m ty f = (b, f')"
  shows "registered p f'"
proof -
  have f': "mq_sync f \<subseteq>\<^sub>m mq_sync f'" "\<And>j rs. mq_async f j = Some rs \<Longrightarrow> \<exists>rs'. mq_async f' j = Some rs' \<and> set rs \<subseteq> set rs'"
    using assms(2) by (auto simp: registerMessage_def Let_def map_le_def split: mtype.splits if_splits option.splits)
  show ?thesis unfolding registered_def
  proof (intro allI impI)
    fix j k
    assume "map_of (pr_handlers p) j = Some k"
    then have "case k of HAsync _ \<Rightarrow> (\<exists>rs. mq_async f j = Some rs \<and> pr_modid p \<in> set rs) | _ \<Rightarrow> mq_sync f j = Some (pr_modid p)"
      using assms(1) by (simp add: registered_def)
    then show "case k of HAsync _ \<Rightarrow> (\<exists>rs. mq_async f' j = Some rs \<and> pr_modid p \<in> set rs) | _ \<Rightarrow> mq_sync f' j = Some (pr_modid p)"
      using f' by (cases k) (fastforce simp: map_le_def dom_def)+
  qed
qed

text \<open>A module whose message has been registered gets it: the factory addresses it to the module,
  and the module has a function for it.\<close>

theorem registered_message_processed:
  assumes "registerSync i fn p f = (True, p', f')" "mq_async f i = None"
  shows "\<exists>m f2. getMessage i f' = (Some m, f2) \<and> m_id m = i \<and> m_receivers m = [pr_modid p] \<and> m_type m = SYNC_REQ \<and>
    map_of (pr_handlers p') (m_id m) = Some (HSync fn)"
proof -
  have new: "map_of (pr_handlers p) i = None" using assms(1) by (auto simp: registerSync_def register_handler_def split: if_splits)
  have p': "pr_handlers p' = (i, HSync fn) # pr_handlers p"
    and reg: "registerMessage i (pr_modid p) SYNC_REQ f = (True, f')"
    using assms(1) new by (auto simp: registerSync_def register_handler_def Let_def split: prod.splits)
  have "mq_sync f' i = Some (pr_modid p)" "mq_async f' i = None"
    using reg assms(2) by (auto simp: registerMessage_def split: if_splits)
  from getMessage_sync [OF this(2,1)] show ?thesis using p' by (simp add: message_new_def)
qed

theorem registered_message_processed_witness:
  "\<exists>m f2. getMessage ''get'' (snd (snd (registerSync ''get'' 0 (processor_new ''dvb'') msgfactory_new))) = (Some m, f2) \<and> m_receivers m = [''dvb'']"
proof -
  obtain b p' f' where r: "registerSync ''get'' 0 (processor_new ''dvb'') msgfactory_new = (b, p', f')" by (rule prod_cases3)
  then have "b" by (auto simp: registerSync_def register_handler_def registerMessage_def processor_new_def msgfactory_new_def)
  with r have "registerSync ''get'' 0 (processor_new ''dvb'') msgfactory_new = (True, p', f')" by simp
  from registered_message_processed [OF this] r show ?thesis by (auto simp: msgfactory_new_def processor_new_def)
qed

text \<open>A module that fails to register a message because another one has it takes that registration
  away when it is destroyed: its function is entered before the message is registered, and taking
  registrations back does not look at whose they are.\<close>

theorem failed_registration_evicts:
  assumes "mq_sync f i = Some owner" "pr_handlers p = []" "registerSync i fn p f = (b, p', f')"
  shows "\<not> b \<and> (\<exists>p2 f2. unregisterAll p' f' = Some (p2, f2) \<and> mq_sync f2 i = None)"
proof -
  have "\<not> b" "f' = f" "pr_handlers p' = [(i, HSync fn)]"
    using assms by (auto simp: registerSync_def register_handler_def registerMessage_def)
  then show ?thesis using assms(1) by (auto simp: unregisterAll_def unregisterMessage_def)
qed

theorem failed_registration_evicts_witness:
  "mq_sync (snd (the (unregisterAll (fst (snd (registerSync ''get'' 0 (processor_new ''cli'') (msgfactory_new\<lparr>mq_sync := [''get'' \<mapsto> ''dvb'']\<rparr>))))
     (snd (snd (registerSync ''get'' 0 (processor_new ''cli'') (msgfactory_new\<lparr>mq_sync := [''get'' \<mapsto> ''dvb'']\<rparr>))))))) ''get'' = None"
proof -
  obtain b p' f' where r: "registerSync ''get'' 0 (processor_new ''cli'') (msgfactory_new\<lparr>mq_sync := [''get'' \<mapsto> ''dvb'']\<rparr>) = (b, p', f')"
    by (rule prod_cases3)
  from failed_registration_evicts [OF _ _ this, of "''dvb''"] r show ?thesis by (auto simp: processor_new_def)
qed

end
