(* ===== verification/Routing.thy ===== *)
theory Routing
  imports Holder Processor
begin

text \<open>
  The way of a message from one module to another: \<^verbatim>\<open>addMessage\<close> and \<^verbatim>\<open>sendSyncMessage\<close> of
  \<^verbatim>\<open>src/common/module.cpp\<close>, \<^verbatim>\<open>sendMessage\<close> of \<^verbatim>\<open>src/common/modfactory.cpp\<close> and the message core,
  \<^verbatim>\<open>src/modules/msgcore/msgcore.cpp\<close>.

  A module has its two holders, its processor and its stop flag; the modules that are known are a map
  from their names.  A call that throws gives \<open>False\<close> together with the state it leaves.
\<close>

record module =
  md_queue :: "message list holder"
  md_resp :: "message option holder"
  md_proc :: processor
  md_stopped :: bool

type_synonym modules = "string \<rightharpoonup> module"

definition module_new :: "processor \<Rightarrow> module" where
  "module_new p = \<lparr>md_queue = holder_new [], md_resp = holder_new None, md_proc = p, md_stopped = False\<rparr>"

definition addMessage :: "message \<Rightarrow> module \<Rightarrow> bool \<times> module" where
  "addMessage m d =
     (case getType m of
        None \<Rightarrow> (False, d)
      | Some SYNC_RES \<Rightarrow>
          (case holder_add syncres_ops m (md_resp d) of (r, b, h) \<Rightarrow> (r = OK, d\<lparr>md_resp := h\<rparr>))
      | Some _ \<Rightarrow>
          (case holder_add standard_ops m (md_queue d) of (r, b, h) \<Rightarrow> (md_stopped d \<or> r = OK, d\<lparr>md_queue := h\<rparr>)))"

definition deliver :: "string \<Rightarrow> message \<Rightarrow> modules \<Rightarrow> bool \<times> modules" where
  "deliver r m ms = (case ms r of None \<Rightarrow> (False, ms) | Some d \<Rightarrow> (case addMessage m d of (b, d) \<Rightarrow> (b, ms(r \<mapsto> d))))"

definition sendMessage :: "string \<Rightarrow> message \<Rightarrow> modules \<Rightarrow> bool \<times> modules" where
  "sendMessage core m ms =
     (if (case m_type m of
            ASYNC \<Rightarrow> m_receivers m \<noteq> []
          | SYNC_REQ \<Rightarrow> length (m_receivers m) = 1
          | SYNC_RES \<Rightarrow> length (m_receivers m) = 1
          | UNDEF \<Rightarrow> False)
      then deliver core m ms else (False, ms))"

text \<open>The message core gives a message to one receiver after the other; the first that is not known
  ends this.\<close>

fun deliver_each :: "string list \<Rightarrow> message \<Rightarrow> modules \<Rightarrow> bool \<times> modules" where
  "deliver_each [] m ms = (True, ms)"
| "deliver_each (r # rs) m ms = (case deliver r m ms of (False, ms) \<Rightarrow> (False, ms) | (True, ms) \<Rightarrow> deliver_each rs m ms)"

definition core_process :: "message \<Rightarrow> modules \<Rightarrow> bool \<times> modules" where
  "core_process m ms = (if m_type m = ASYNC then deliver_each (m_receivers m) m ms else (False, ms))"

text \<open>A request, before the wait for the response.\<close>

definition sync_send :: "string \<Rightarrow> message \<Rightarrow> modules \<Rightarrow> (bool \<times> modules)" where
  "sync_send self m ms =
     (case setSenderID self (m\<lparr>m_type := SYNC_REQ\<rparr>) of
        None \<Rightarrow> (False, ms)
      | Some m \<Rightarrow> (case m_receivers m of [r] \<Rightarrow> deliver r m ms | _ \<Rightarrow> (False, ms)))"

text \<open>The loop over what the holder of responses gives: a response to another request is dropped, a
  failure ends the loop.  \<open>None\<close> is a loop that is not over.\<close>

fun sync_wait :: "32 word \<Rightarrow> message option list \<Rightarrow> message option option" where
  "sync_wait u [] = None"
| "sync_wait u (None # rs) = Some None"
| "sync_wait u (Some m # rs) = (if m_uuid m \<noteq> u then sync_wait u rs else Some (Some m))"

text \<open>One turn of the main loop of a module: the first message of its queue is processed, and the
  answer is given to the module it is for.\<close>

definition processMessage :: "penv \<Rightarrow> string \<Rightarrow> modules \<Rightarrow> modules" where
  "processMessage env self ms =
     (case ms self of
        None \<Rightarrow> ms
      | Some d \<Rightarrow>
          (case get_enter standard_ops (md_queue d) of
             (r, h) \<Rightarrow>
               let ms = ms(self \<mapsto> d\<lparr>md_queue := h\<rparr>)
               in case r of
                    Some (Some m) \<Rightarrow>
                      (case process env (md_proc d) m of
                         Inr (Some (to, out)) \<Rightarrow> snd (deliver to out ms)
                       | _ \<Rightarrow> ms)
                  | _ \<Rightarrow> ms))"

section \<open>Messages to many\<close>

text \<open>A module that takes messages.\<close>

definition takes :: "module \<Rightarrow> bool" where
  "takes d \<longleftrightarrow> \<not> ho_stop (md_queue d)"

definition queued :: "module \<Rightarrow> message list" where
  "queued d = ho_cont (md_queue d)"

lemma deliver_async:
  assumes "m_type m = ASYNC \<or> m_type m = SYNC_REQ" "ms r = Some d" "takes d"
  shows "\<exists>d'. deliver r m ms = (True, ms(r \<mapsto> d')) \<and> queued d' = queued d @ [m] \<and> md_resp d' = md_resp d \<and> md_proc d' = md_proc d \<and>
    md_stopped d' = md_stopped d \<and> takes d'"
proof -
  obtain b h where h: "holder_add standard_ops m (md_queue d) = (OK, b, h)" "ho_cont h = ho_cont (md_queue d) @ [m]" "\<not> ho_stop h"
    using standard_add [of "md_queue d" m] assms(3) by (auto simp: takes_def)
  then have "addMessage m d = (True, d\<lparr>md_queue := h\<rparr>)" using assms(1) by (auto simp: addMessage_def getType_def)
  then show ?thesis using assms(2) h by (auto simp: deliver_def queued_def takes_def)
qed

lemma deliver_each_all:
  "m_type m = ASYNC \<Longrightarrow> distinct rs \<Longrightarrow> \<forall>r \<in> set rs. \<exists>d. ms r = Some d \<and> takes d \<Longrightarrow>
   \<exists>ms'. deliver_each rs m ms = (True, ms') \<and>
     (\<forall>r. if r \<in> set rs then (\<exists>d d'. ms r = Some d \<and> ms' r = Some d' \<and> queued d' = queued d @ [m] \<and> md_resp d' = md_resp d \<and> takes d')
          else ms' r = ms r)"
proof (induction rs arbitrary: ms)
  case (Cons r rs)
  obtain d where d: "ms r = Some d" "takes d" using Cons.prems(3) by auto
  obtain d1 where d1: "deliver r m ms = (True, ms(r \<mapsto> d1))" "queued d1 = queued d @ [m]" "md_resp d1 = md_resp d" "takes d1"
    using deliver_async [where m = m and ms = ms and r = r and d = d] Cons.prems(1) d by blast
  let ?ms = "ms(r \<mapsto> d1)"
  have known: "\<forall>q \<in> set rs. \<exists>d. ?ms q = Some d \<and> takes d" using Cons.prems(2,3) by auto
  have rd: "distinct rs" "r \<notin> set rs" using Cons.prems(2) by simp_all
  obtain ms' where ms': "deliver_each rs m ?ms = (True, ms')"
    and each: "\<forall>q. if q \<in> set rs then (\<exists>d d'. ?ms q = Some d \<and> ms' q = Some d' \<and> queued d' = queued d @ [m] \<and> md_resp d' = md_resp d \<and> takes d')
          else ms' q = ?ms q"
    using Cons.IH [OF Cons.prems(1) rd(1) known] by blast
  have fin: "if q \<in> set (r # rs) then (\<exists>d d'. ms q = Some d \<and> ms' q = Some d' \<and> queued d' = queued d @ [m] \<and> md_resp d' = md_resp d \<and> takes d')
          else ms' q = ms q" for q
    using each [rule_format, of q] rd(2) d d1 by (cases "q = r") (auto split: if_splits)
  show ?case by (intro exI [of _ ms'] conjI allI fin) (simp add: d1(1) ms')
qed simp


definition demo_modules :: modules where
  "demo_modules = [''dvb'' \<mapsto> module_new demo_proc, ''cli'' \<mapsto> module_new (processor_new ''cli'')]"


text \<open>The first receiver that is not known ends the delivery: those behind it do not get the
  message.\<close>

theorem core_unknown_receiver:
  assumes "m_type m = ASYNC" "m_receivers m = rs @ r # rs'" "ms r = None" "distinct (m_receivers m)"
    and "\<forall>q \<in> set rs. \<exists>d. ms q = Some d \<and> takes d"
  shows "\<exists>ms'. core_process m ms = (False, ms') \<and> (\<forall>q \<in> set rs'. ms' q = ms q)"
proof -
  have d: "distinct rs" "r \<notin> set rs" "set rs \<inter> set rs' = {}" using assms(2,4) by auto
  obtain ms' where ms': "deliver_each rs m ms = (True, ms')"
    and each: "\<And>q. if q \<in> set rs then (\<exists>d d'. ms q = Some d \<and> ms' q = Some d' \<and> queued d' = queued d @ [m] \<and> md_resp d' = md_resp d \<and> takes d')
          else ms' q = ms q"
    using deliver_each_all [OF assms(1) d(1) assms(5)] by blast
  have split: "deliver_each (xs @ ys) m ms = (case deliver_each xs m ms of (False, ms) \<Rightarrow> (False, ms) | (True, ms) \<Rightarrow> deliver_each ys m ms)"
    for xs ys ms by (induction xs arbitrary: ms) (auto split: prod.split bool.split)
  have "ms' r = None" using each [of r] d(2) assms(3) by simp
  then have "core_process m ms = (False, ms')" using assms(1,2) ms' by (simp add: core_process_def split deliver_def)
  moreover have "ms' q = ms q" if "q \<in> set rs'" for q using each [of q] d(3) that by (auto split: if_splits)
  ultimately show ?thesis by blast
qed

theorem core_unknown_receiver_witness:
  "\<exists>ms'. core_process (ping\<lparr>m_receivers := [''gone'', ''dvb'']\<rparr>) demo_modules = (False, ms') \<and> ms' ''dvb'' = demo_modules ''dvb''"
  using core_unknown_receiver [of "ping\<lparr>m_receivers := [''gone'', ''dvb'']\<rparr>" "[]" "''gone''" "[''dvb'']" demo_modules]
  by (simp add: ping_def demo_modules_def)

section \<open>Requests and responses\<close>

text \<open>The loop of a request ends with a response that has the number of the request, or with a
  failure, and drops only responses to other requests before it.\<close>

theorem sync_wait_result:
  "(case sync_wait u rs of
      None \<Rightarrow> (\<forall>r \<in> set rs. \<exists>m. r = Some m \<and> m_uuid m \<noteq> u)
    | Some None \<Rightarrow> (\<exists>xs ys. rs = xs @ None # ys \<and> (\<forall>r \<in> set xs. \<exists>m. r = Some m \<and> m_uuid m \<noteq> u))
    | Some (Some m) \<Rightarrow> m_uuid m = u \<and> (\<exists>xs ys. rs = xs @ Some m # ys \<and> (\<forall>r \<in> set xs. \<exists>m. r = Some m \<and> m_uuid m \<noteq> u)))"
proof (induction u rs rule: sync_wait.induct)
  case (3 u m rs)
  show ?case
  proof (cases "m_uuid m = u")
    case True
    then show ?thesis by (auto intro: exI [of _ "[]"])
  next
    case False
    note IH = 3 [OF False]
    show ?thesis
    proof (cases "sync_wait u rs")
      case None
      then show ?thesis using IH False by auto
    next
      case (Some x)
      then show ?thesis using IH False
        by (cases x) (auto, (metis append_Cons option.inject set_ConsD)+)
    qed
  qed
qed (auto intro: exI [of _ "[]"])

text \<open>C13: A request is answered across both modules: the receiver processes it in one turn of its loop,
  also if the registered function throws, and the sender then finds the response with the number of its
  request in its place for responses.\<close>

theorem sync_call_answered:
  assumes "ms a = Some da" "ms b = Some db" "a \<noteq> b" "a \<noteq> []" "m_receivers m = [b]"
    and "takes db" "queued db = []" "\<not> ho_stop (md_resp da)"
    and "map_of (pr_handlers (md_proc db)) (m_id m) = Some (HSync fn)" "keys_ok (pv_keys env)" "keeps_identity (pv_sync env fn)"
  shows "\<exists>ms1 d out. sync_send a m ms = (True, ms1) \<and> processMessage env b ms1 a = Some d \<and>
     fst (get_enter syncres_ops (md_resp d)) = Some (Some out) \<and> sync_wait (m_uuid m) [Some out] = Some (Some out) \<and> m_id out = m_id m"
proof -
  define q where "q = m\<lparr>m_type := SYNC_REQ, m_sender := a\<rparr>"
  have q: "m_id q = m_id m" "m_uuid q = m_uuid m" "m_type q = SYNC_REQ" "m_sender q = a" "m_receivers q = [b]"
    using assms(5) by (simp_all add: q_def)
  obtain d1 where d1: "deliver b q ms = (True, ms(b \<mapsto> d1))" "queued d1 = [q]" "md_proc d1 = md_proc db" "takes d1"
    using deliver_async [where m = q and ms = ms and r = b and d = db] q(3) assms(2,6,7) by auto
  define ms1 where "ms1 = ms(b \<mapsto> d1)"
  have send: "sync_send a m ms = (True, ms1)"
    using assms(4) d1(1) q(5) by (simp add: sync_send_def setSenderID_def ms1_def flip: q_def)
  obtain h where h: "get_enter standard_ops (md_queue d1) = (Some (Some q), h)"
    using d1(2,4) by (auto simp: get_enter_def get_finish_def standard_ops_def queued_def takes_def Let_def)
  obtain out where out: "process env (md_proc db) q = Inr (Some (a, out))" "m_id out = m_id m" "m_uuid out = m_uuid m" "m_type out = SYNC_RES"
  proof -
    have "map_of (pr_handlers (md_proc db)) (m_id q) = Some (HSync fn)" using assms(9) q by simp
    from sync_request_answered [OF this q(3) assms(10,11)] show ?thesis using that q by auto
  qed
  define ms2 where "ms2 = ms1(b \<mapsto> d1\<lparr>md_queue := h\<rparr>)"
  have "ms2 a = Some da" using assms(1,3) by (simp add: ms2_def ms1_def)
  moreover obtain w g where g: "holder_add syncres_ops out (md_resp da) = (OK, w, g)" "ho_cont g = Some out" "\<not> ho_stop g"
    using syncres_add [OF assms(8), of out] out(4) by (auto simp: getType_def)
  ultimately have "deliver a out ms2 = (True, ms2(a \<mapsto> da\<lparr>md_resp := g\<rparr>))"
    using out(4) by (simp add: deliver_def addMessage_def getType_def)
  then have p: "processMessage env b ms1 a = Some (da\<lparr>md_resp := g\<rparr>)"
    using h out(1) d1(3) by (simp add: processMessage_def ms1_def Let_def) (simp add: ms2_def ms1_def)
  moreover have "fst (get_enter syncres_ops g) = Some (Some out)"
    using g(2,3) by (simp add: get_enter_def get_finish_def syncres_ops_def Let_def)
  ultimately show ?thesis using send out(2,3) by (intro exI [of _ ms1] exI [of _ "da\<lparr>md_resp := g\<rparr>"] exI [of _ out]) simp
qed

theorem sync_call_answered_witness:
  "\<exists>ms1 d out. sync_send ''cli'' (demo_request\<lparr>m_receivers := [''dvb'']\<rparr>) demo_modules = (True, ms1) \<and>
     processMessage demo_penv ''dvb'' ms1 ''cli'' = Some d \<and> fst (get_enter syncres_ops (md_resp d)) = Some (Some out) \<and>
     sync_wait 7 [Some out] = Some (Some out) \<and> m_id out = ''get''"
proof -
  have "\<exists>ms1 d out. sync_send ''cli'' (demo_request\<lparr>m_receivers := [''dvb'']\<rparr>) demo_modules = (True, ms1) \<and>
     processMessage demo_penv ''dvb'' ms1 ''cli'' = Some d \<and> fst (get_enter syncres_ops (md_resp d)) = Some (Some out) \<and>
     sync_wait (m_uuid (demo_request\<lparr>m_receivers := [''dvb'']\<rparr>)) [Some out] = Some (Some out) \<and>
     m_id out = m_id (demo_request\<lparr>m_receivers := [''dvb'']\<rparr>)"
    by (rule sync_call_answered [where da = "module_new (processor_new ''cli'')" and db = "module_new demo_proc" and fn = 0])
      (use demo_keys_ok in \<open>simp_all add: demo_modules_def takes_def queued_def module_new_def holder_new_def demo_proc_def demo_request_def
        demo_penv_def keeps_identity_def message_new_def\<close>)
  then show ?thesis by (simp add: demo_request_def message_new_def)
qed

end
