(* ===== verification/Http_Parse.thy ===== *)
theory Http_Parse
  imports Cstring
begin

text \<open>
  The texts of an HTTP request, as \<^verbatim>\<open>libhttp.c\<close> reads them: the line with the command, the lines of the
  header, and how lines are taken out of the input of a connection.
\<close>

datatype hc_cmd = HC_CMD_UNKNOWN | HC_CMD_GET | HC_CMD_POST | HC_CMD_HEAD

datatype hc_proto = HP_UNKNOWN | HP_HTTP | HP_HTTP10 | HP_HTTP11

definition http_get_cmd :: "string \<Rightarrow> hc_cmd" where
  "http_get_cmd cmd =
     (if c_strcasecmp ''GET'' cmd = 0 then HC_CMD_GET
      else if c_strcasecmp ''POST'' cmd = 0 then HC_CMD_POST
      else if c_strcasecmp ''HEAD'' cmd = 0 then HC_CMD_HEAD
      else HC_CMD_UNKNOWN)"

definition is_blank :: "char \<Rightarrow> bool" where
  "is_blank c \<longleftrightarrow> c = CHR '' '' \<or> c = TAB"

definition is_gap :: "char \<Rightarrow> bool" where
  "is_gap c \<longleftrightarrow> is_blank c \<or> c = CR \<or> c = NL"

text \<open>A word is ended by the zero that is written when the gap behind it is skipped, so the last word
  that has a place is not ended.\<close>

fun split_string_by_space :: "string \<Rightarrow> nat \<Rightarrow> string list" where
  "split_string_by_space s 0 = []"
| "split_string_by_space s (Suc n) =
     (let w = dropWhile is_gap s;
          r = dropWhile (\<lambda>c. \<not> is_blank c) w
      in if w = [] then []
         else if r = [] then [w]
         else if n = 0 then [w]
         else takeWhile (\<lambda>c. \<not> is_blank c) w # split_string_by_space r n)"

definition http_parse_proto :: "string \<Rightarrow> hc_proto" where
  "http_parse_proto pstr =
     (if c_strncasecmp pstr ''HTTP'' 4 \<noteq> 0 then HP_UNKNOWN
      else
        (case dropWhile (\<lambda>c. c \<noteq> CHR ''/'') pstr of
           [] \<Rightarrow> HP_HTTP
         | _ # pver \<Rightarrow>
             (case c_strtol 10 pver of
                (major, dotptr) \<Rightarrow>
                  (case dotptr of
                     [] \<Rightarrow> HP_HTTP
                   | d # rest \<Rightarrow>
                       if d \<noteq> CHR ''.'' then HP_HTTP
                       else
                         (case c_strtol 10 rest of
                            (minor, endptr) \<Rightarrow>
                              if endptr \<noteq> [] then HP_HTTP
                              else if to_int major = 1 \<and> to_int minor = 0 then HP_HTTP10
                              else if to_int major = 1 \<and> to_int minor = 1 then HP_HTTP11
                              else HP_HTTP)))))"

section \<open>A connection\<close>

text \<open>Events a handler is called for, and the handlers a connection can have: the one for addresses that
  are not registered and the one of the outputs.\<close>

datatype hc_status = HC_STATUS_HEAD | HC_STATUS_BODY | HC_STATUS_END

datatype hcb = HCB_QUERY | HCB_WRITE | HCB_READ | HCB_ERROR | HCB_END

datatype url_handler = Handler_404 | Handler_output

text \<open>A connection is named by its number \<^verbatim>\<open>cid\<close>; \<open>hc_in\<close> and \<open>hc_out\<close> are the two buffers of its
  \<^verbatim>\<open>bufferevent\<close>, \<open>hc_arg\<close> is the receiver the application has stored, and \<open>hc_hdr\<close> the header that
  is being built, whose length is \<^verbatim>\<open>hsize\<close>.\<close>

record conn =
  hc_fd :: int
  hc_status :: hc_status
  hc_keepalive :: bool
  hc_cmd :: hc_cmd
  hc_url :: "string option"
  hc_proto :: hc_proto
  hc_attrib :: "(string \<times> string) list"
  hc_handler :: url_handler
  hc_arg :: "nat option"
  hc_hdr :: string
  hc_in :: string
  hc_out :: "u8 list"

definition conn_new :: "int \<Rightarrow> conn" where
  "conn_new fd =
     \<lparr>hc_fd = fd, hc_status = HC_STATUS_HEAD, hc_keepalive = False, hc_cmd = HC_CMD_UNKNOWN, hc_url = None,
      hc_proto = HP_UNKNOWN, hc_attrib = [], hc_handler = Handler_404, hc_arg = None, hc_hdr = [], hc_in = [], hc_out = []\<rparr>"

definition http_parse_command_url :: "string \<Rightarrow> conn \<Rightarrow> bool \<times> conn" where
  "http_parse_command_url line hc =
     (case split_string_by_space line 10 of
        [cmd, url, proto] \<Rightarrow>
          let hc = hc\<lparr>hc_cmd := http_get_cmd cmd\<rparr>
          in if hc_cmd hc = HC_CMD_UNKNOWN then (False, hc)
             else
               let p = http_parse_proto proto
               in (True, hc\<lparr>hc_url := Some url, hc_proto := p, hc_keepalive := (p = HP_HTTP11)\<rparr>)
      | _ \<Rightarrow> (False, hc))"

definition parse_attrib :: "string \<Rightarrow> (string \<times> string) option" where
  "parse_attrib line =
     (let t = takeWhile (\<lambda>c. c \<noteq> CHR '':'' \<and> c \<noteq> CHR '' '') line
      in case dropWhile (\<lambda>c. c \<noteq> CHR '':'' \<and> c \<noteq> CHR '' '') line of
           [] \<Rightarrow> None
         | c # r \<Rightarrow> if c = CHR '':'' then Some (t, dropWhile is_blank r) else None)"

definition http_parse_attrib :: "string \<Rightarrow> conn \<Rightarrow> bool \<times> conn" where
  "http_parse_attrib line hc =
     (case parse_attrib line of
        None \<Rightarrow> (False, hc)
      | Some ha \<Rightarrow> (True, hc\<lparr>hc_attrib := hc_attrib hc @ [ha]\<rparr>))"

text \<open>The first line of the input without its end, and what is behind it.\<close>

definition take_line :: "string \<Rightarrow> (string \<times> string) option" where
  "take_line inp =
     (case dropWhile (\<lambda>c. c \<noteq> NL) inp of
        [] \<Rightarrow> None
      | _ # rest \<Rightarrow>
          let raw = takeWhile (\<lambda>c. c \<noteq> NL) inp
          in Some (if raw \<noteq> [] \<and> last raw = CR then butlast raw else raw, rest))"

lemma take_line_length: "take_line inp = Some (l, rest) \<Longrightarrow> length rest < length inp"
proof -
  assume a: "take_line inp = Some (l, rest)"
  have "length (dropWhile (\<lambda>c. c \<noteq> NL) inp) \<le> length inp" by (rule length_dropWhile_le)
  then show ?thesis using a by (auto simp: take_line_def Let_def split: list.splits)
qed

lemma take_line_split:
  "NL \<notin> set raw \<Longrightarrow> take_line (raw @ NL # rest) = Some (if raw \<noteq> [] \<and> last raw = CR then butlast raw else raw, rest)"
proof -
  assume a: "NL \<notin> set raw"
  have "takeWhile (\<lambda>c. c \<noteq> NL) (raw @ NL # rest) = raw" using a by (subst takeWhile_append2) auto
  moreover have "dropWhile (\<lambda>c. c \<noteq> NL) (raw @ NL # rest) = NL # rest" using a by (subst dropWhile_append2) auto
  ultimately show ?thesis by (simp add: take_line_def)
qed

lemma take_line_None: "take_line inp = None \<longleftrightarrow> NL \<notin> set inp"
proof
  assume a: "take_line inp = None"
  show "NL \<notin> set inp"
  proof
    assume "NL \<in> set inp"
    then obtain raw rest where "inp = raw @ NL # rest" "NL \<notin> set raw" by (meson split_list_first)
    then show False using a take_line_split by simp
  qed
next
  assume "NL \<notin> set inp"
  then have n: "dropWhile (\<lambda>c. c \<noteq> NL) inp = []" by (auto simp: dropWhile_eq_Nil_conv)
  show "take_line inp = None" unfolding take_line_def n by simp
qed

lemma take_line_append:
  assumes "take_line inp = Some (l, rest)"
  shows "take_line (inp @ s) = Some (l, rest @ s)"
proof -
  have "NL \<in> set inp" using assms take_line_None by (metis option.distinct(1))
  then obtain raw r where r: "inp = raw @ NL # r" "NL \<notin> set raw" by (meson split_list_first)
  with assms take_line_split [of raw r] take_line_split [of raw "r @ s"] show ?thesis by simp
qed

lemma take_line_CRLF: "NL \<notin> set l \<Longrightarrow> take_line (l @ CR # NL # rest) = Some (l, rest)"
  using take_line_split [of "l @ [CR]" rest] by (simp add: CR_def NL_def)

section \<open>Requests\<close>

text \<open>The words of a request are printable: no blank, no line end, no zero.\<close>

definition req_word :: "string \<Rightarrow> bool" where
  "req_word w \<longleftrightarrow> w \<noteq> [] \<and> (\<forall>c \<in> set w. \<not> is_gap c \<and> c \<noteq> NUL)"

lemma dropWhile_word: "(\<forall>c \<in> set w. \<not> P c) \<Longrightarrow> w \<noteq> [] \<Longrightarrow> dropWhile P (w @ s) = w @ s"
  by (cases w) auto

lemma split_word:
  assumes "req_word w"
  shows "split_string_by_space (w @ CHR '' '' # s) (Suc (Suc n)) = w # split_string_by_space (CHR '' '' # s) (Suc n)"
proof -
  have a: "dropWhile is_gap (w @ CHR '' '' # s) = w @ CHR '' '' # s" using assms by (intro dropWhile_word) (auto simp: req_word_def)
  have nb: "\<forall>c \<in> set w. \<not> is_blank c" using assms by (auto simp: req_word_def is_gap_def)
  then have "takeWhile (\<lambda>c. \<not> is_blank c) (w @ CHR '' '' # s) = w" "dropWhile (\<lambda>c. \<not> is_blank c) (w @ CHR '' '' # s) = CHR '' '' # s"
    by (subst takeWhile_append2 dropWhile_append2, simp, simp add: is_blank_def)+
  with a assms show ?thesis by (simp add: Let_def req_word_def)
qed

lemma split_blank: "split_string_by_space (CHR '' '' # s) n = split_string_by_space s n"
  by (cases n) (simp_all add: is_gap_def is_blank_def Let_def)

lemma split_last: "req_word w \<Longrightarrow> split_string_by_space w (Suc n) = [w]"
proof -
  assume a: "req_word w"
  then have "dropWhile is_gap w = w" using dropWhile_word [of w is_gap "[]"] by (simp add: req_word_def)
  moreover have "dropWhile (\<lambda>c. \<not> is_blank c) w = []" using a by (auto simp: req_word_def is_gap_def)
  ultimately show ?thesis using a by (simp add: Let_def req_word_def)
qed

lemma split_request: "req_word c \<Longrightarrow> req_word u \<Longrightarrow> req_word p \<Longrightarrow> split_string_by_space (c @ '' '' @ u @ '' '' @ p) 10 = [c, u, p]"
  by (simp add: eval_nat_numeral split_word split_blank split_last del: split_string_by_space.simps)

lemma http_parse_command_request:
  "req_word c \<Longrightarrow> req_word u \<Longrightarrow> req_word p \<Longrightarrow> http_get_cmd c \<noteq> HC_CMD_UNKNOWN \<Longrightarrow>
   http_parse_command_url (c @ '' '' @ u @ '' '' @ p) hc =
     (True, hc\<lparr>hc_cmd := http_get_cmd c, hc_url := Some u, hc_proto := http_parse_proto p, hc_keepalive := (http_parse_proto p = HP_HTTP11)\<rparr>)"
  using split_request [of c u p] by (simp add: http_parse_command_url_def Let_def)

text \<open>A name of the header has no colon and no blank, and a value starts with neither blank nor tab.\<close>

definition attrib_ok :: "string \<times> string \<Rightarrow> bool" where
  "attrib_ok a \<longleftrightarrow>
     (case a of (t, v) \<Rightarrow>
       (\<forall>c \<in> set t. c \<noteq> CHR '':'' \<and> c \<noteq> CHR '' '' \<and> c \<noteq> NL \<and> c \<noteq> NUL) \<and>
       (\<forall>c \<in> set v. c \<noteq> NL \<and> c \<noteq> NUL) \<and> (v \<noteq> [] \<longrightarrow> \<not> is_blank (hd v)))"

definition attrib_line :: "string \<times> string \<Rightarrow> string" where
  "attrib_line a = fst a @ '': '' @ snd a"

lemma parse_attrib_line: "attrib_ok a \<Longrightarrow> parse_attrib (attrib_line a) = Some a"
proof -
  assume a: "attrib_ok a"
  obtain t v where tv: "a = (t, v)" by (cases a)
  have tk: "takeWhile (\<lambda>c. c \<noteq> CHR '':'' \<and> c \<noteq> CHR '' '') (t @ CHR '':'' # s) = t"
    "dropWhile (\<lambda>c. c \<noteq> CHR '':'' \<and> c \<noteq> CHR '' '') (t @ CHR '':'' # s) = CHR '':'' # s" for s
    using a by (subst takeWhile_append2 dropWhile_append2, auto simp: attrib_ok_def tv)+
  have "dropWhile is_blank v = v" using a by (cases v) (auto simp: attrib_ok_def tv)
  then show ?thesis using tk [of "CHR '' '' # v"] by (simp add: parse_attrib_def attrib_line_def tv is_blank_def)
qed

end
