(* ===== verification/Http.thy ===== *)
theory Http
  imports Http_Parse Sap
begin

text \<open>
  The HTTP server \<^verbatim>\<open>libhttp.c\<close> and the output over HTTP, \<^verbatim>\<open>output_http.c\<close>, which call each other: the
  server calls the handler of a connection, and the handler of an output answers and ends connections.

  Connections and receivers are allocated objects, named by numbers that are not used again; an
  object that has been freed is not in its map any more.  \<open>None\<close> is the use of a freed object or
  of a null pointer, or a header longer than its array.  \<open>date\<close> is the text of \<^verbatim>\<open>strftime\<close>.  The results
  of the calls of the kernel are arguments; what libevent does with a connection are the events at
  the end.
\<close>

section \<open>State\<close>

record receiver =
  hr_hc :: nat
  hr_output :: nat
  hr_overflow :: nat

record houtp = outp +
  o_url :: string
  o_http_receiver :: "nat list"

record hserver =
  hs_port :: nat
  hs_fd :: int
  hs_cid :: nat
  hs_conn :: "nat list"
  hs_urls :: "string \<rightharpoonup> nat"
  hs_heap :: "nat \<rightharpoonup> conn"
  hs_rnew :: nat
  hs_recv :: "nat \<rightharpoonup> receiver"
  hs_outs :: "nat \<rightharpoonup> houtp"
  hs_closed :: "int list"

definition upd_conn :: "nat \<Rightarrow> (conn \<Rightarrow> conn) \<Rightarrow> hserver \<Rightarrow> hserver option" where
  "upd_conn i f hs = do { hc \<leftarrow> hs_heap hs i; Some (hs\<lparr>hs_heap := (hs_heap hs)(i \<mapsto> f hc)\<rparr>) }"

section \<open>Headers\<close>

definition MAX_HEADER_SIZE :: nat where "MAX_HEADER_SIZE = 3000"

text \<open>Putting a text and its zero at the end of the header.\<close>

definition hdr_put :: "string \<Rightarrow> conn \<Rightarrow> conn option" where
  "hdr_put s hc = (if length (hc_hdr hc) + length s < MAX_HEADER_SIZE then Some (hc\<lparr>hc_hdr := hc_hdr hc @ s\<rparr>) else None)"

definition http_header_add :: "string \<Rightarrow> conn \<Rightarrow> conn option" where
  "http_header_add s hc = hdr_put (s @ CRLF) hc"

definition bufferevent_write :: "u8 list \<Rightarrow> conn \<Rightarrow> conn" where
  "bufferevent_write bs hc = hc\<lparr>hc_out := hc_out hc @ bs\<rparr>"

definition http_header_end :: "conn \<Rightarrow> conn option" where
  "http_header_end hc = do {
     hc \<leftarrow> http_header_add (if hc_keepalive hc then ''Connection: keep-alive'' else ''Connection: close'') hc;
     hc \<leftarrow> hdr_put CRLF hc;
     Some ((bufferevent_write (map of_char (hc_hdr hc)) hc)\<lparr>hc_hdr := []\<rparr>)
   }"

definition http_header_clength :: "int \<Rightarrow> conn \<Rightarrow> conn option" where
  "http_header_clength len hc =
     (if len \<ge> 0 then http_header_add (''Content-Length: '' @ dec_int len) hc
      else if hc_proto hc = HP_HTTP11 then http_header_add ''Transfer-Encoding: chunked'' hc
      else Some hc)"

definition http_header_nocache :: "conn \<Rightarrow> conn option" where
  "http_header_nocache hc = do {
     hc \<leftarrow> http_header_add ''Pragma: no-cache'' hc;
     http_header_add ''Cache-Control: no-cache'' hc
   }"

text \<open>A date that does not fit is left out by \<^verbatim>\<open>strftime\<close>.\<close>

definition hdr_try :: "string \<Rightarrow> conn \<Rightarrow> conn" where
  "hdr_try s hc = (case hdr_put s hc of None \<Rightarrow> hc | Some hc \<Rightarrow> hc)"

definition http_header_start :: "string \<Rightarrow> string \<Rightarrow> string \<Rightarrow> conn \<Rightarrow> conn option" where
  "http_header_start date result type hc = do {
     hc \<leftarrow> hdr_put (''HTTP/1.1 '' @ result @ CRLF) (hc\<lparr>hc_hdr := []\<rparr>);
     hc \<leftarrow> hdr_put ''Date: '' hc;
     http_header_add (''Content-Type: '' @ type) (hdr_try (date @ CRLF) hc)
   }"

definition http_return_simple :: "string \<Rightarrow> string \<Rightarrow> string \<Rightarrow> u8 list \<Rightarrow> conn \<Rightarrow> conn option" where
  "http_return_simple date result type data hc = do {
     hc \<leftarrow> http_header_start date result type hc;
     hc \<leftarrow> http_header_clength (int (length data)) hc;
     hc \<leftarrow> http_header_end hc;
     Some ((bufferevent_write data hc)\<lparr>hc_status := HC_STATUS_END\<rparr>)
   }"

section \<open>Streams\<close>

fun hex_nat :: "nat \<Rightarrow> string" where
  "hex_nat n = (if n < 16 then [''0123456789abcdef'' ! n] else hex_nat (n div 16) @ [''0123456789abcdef'' ! (n mod 16)])"

declare hex_nat.simps [simp del]

definition http_get_queue :: "conn \<Rightarrow> nat" where
  "http_get_queue hc = length (hc_out hc)"

text \<open>The data of a chunk, or the null pointer for the end of the stream.\<close>

definition http_return_stream :: "u8 list option \<Rightarrow> conn \<Rightarrow> conn" where
  "http_return_stream data hc =
     (case data of
        None \<Rightarrow>
          (let hc = (if hc_proto hc = HP_HTTP11 then bufferevent_write (map of_char (''0'' @ CRLF @ CRLF)) hc else hc)
           in hc\<lparr>hc_status := HC_STATUS_END\<rparr>)
      | Some bs \<Rightarrow>
          if hc_proto hc = HP_HTTP11
          then bufferevent_write (map of_char (hex_nat (length bs) @ CRLF) @ bs @ map of_char CRLF) hc
          else bufferevent_write bs hc)"

section \<open>Ends of requests and connections\<close>

definition http_request_free :: "conn \<Rightarrow> conn" where
  "http_request_free hc = hc\<lparr>hc_url := None, hc_attrib := []\<rparr>"

definition http_drop_connection :: "nat \<Rightarrow> hserver \<Rightarrow> hserver option" where
  "http_drop_connection i hs = do {
     hc \<leftarrow> hs_heap hs i;
     Some (hs\<lparr>hs_conn := remove1 i (hs_conn hs), hs_closed := hs_closed hs @ [hc_fd hc], hs_heap := (hs_heap hs)(i := None)\<rparr>)
   }"

definition http_request_end :: "nat \<Rightarrow> hserver \<Rightarrow> hserver option" where
  "http_request_end i hs = do {
     hc \<leftarrow> hs_heap hs i;
     if \<not> hc_keepalive hc then http_drop_connection i hs
     else upd_conn i (\<lambda>hc. (http_request_free hc)\<lparr>hc_status := HC_STATUS_HEAD, hc_handler := Handler_404, hc_hdr := []\<rparr>) hs
   }"

section \<open>Handlers\<close>

definition http_static_msg_404 :: string where
  "http_static_msg_404 =
     ''<!DOCTYPE HTML PUBLIC '' @ [DQ] @ ''-//IETF//DTD HTML 2.0//EN'' @ [DQ] @ ''> <html><head> <title>404 Not Found</title> </head><body> <h1>404 Not Found</h1> </body> </html>''"

definition http_url_handler_404 :: "string \<Rightarrow> nat \<Rightarrow> hcb \<Rightarrow> hserver \<Rightarrow> hserver option" where
  "http_url_handler_404 date i cbtype hs =
     (if cbtype = HCB_QUERY
      then do {
        hc \<leftarrow> hs_heap hs i;
        hc \<leftarrow> http_return_simple date ''404 Not found'' ''text/html'' (map of_char http_static_msg_404) hc;
        upd_conn i (\<lambda>_. hc) hs
      }
      else http_request_end i hs)"

text \<open>The message of the log reads the connection.\<close>

definition output_remove_receiver :: "nat \<Rightarrow> hserver \<Rightarrow> hserver option" where
  "output_remove_receiver r hs = do {
     hr \<leftarrow> hs_recv hs r;
     out \<leftarrow> hs_outs hs (hr_output hr);
     let out = out\<lparr>o_http_receiver := remove1 r (o_http_receiver out), o_receiver := o_receiver out - 1\<rparr>;
     hs \<leftarrow> http_drop_connection (hr_hc hr) (hs\<lparr>hs_outs := (hs_outs hs)(hr_output hr \<mapsto> out)\<rparr>);
     Some (hs\<lparr>hs_recv := (hs_recv hs)(r := None)\<rparr>)
   }"

definition output_cb_http :: "string \<Rightarrow> nat \<Rightarrow> hcb \<Rightarrow> nat option \<Rightarrow> hserver \<Rightarrow> hserver option" where
  "output_cb_http date i cbtype arg hs =
     (case cbtype of
        HCB_QUERY \<Rightarrow> do {
          ou \<leftarrow> arg;
          out \<leftarrow> hs_outs hs ou;
          let r = hs_rnew hs;
          let out = out\<lparr>o_http_receiver := o_http_receiver out @ [r], o_receiver := o_receiver out + 1\<rparr>;
          hc \<leftarrow> hs_heap hs i;
          hc \<leftarrow> http_header_start date ''200 OK'' ''application/octet-stream'' (hc\<lparr>hc_arg := Some r\<rparr>);
          hc \<leftarrow> http_header_nocache hc;
          hc \<leftarrow> http_header_clength (-1) hc;
          hc \<leftarrow> http_header_end hc;
          Some (hs\<lparr>hs_rnew := r + 1, hs_recv := (hs_recv hs)(r \<mapsto> \<lparr>hr_hc = i, hr_output = ou, hr_overflow = 0\<rparr>),
                  hs_outs := (hs_outs hs)(ou \<mapsto> out), hs_heap := (hs_heap hs)(i \<mapsto> hc)\<rparr>)
        }
      | HCB_ERROR \<Rightarrow> do { r \<leftarrow> arg; output_remove_receiver r hs }
      | _ \<Rightarrow> Some hs)"

definition call_url_handler :: "string \<Rightarrow> nat \<Rightarrow> hcb \<Rightarrow> nat option \<Rightarrow> hserver \<Rightarrow> hserver option" where
  "call_url_handler date i cbtype arg hs = do {
     hc \<leftarrow> hs_heap hs i;
     case hc_handler hc of
       Handler_404 \<Rightarrow> http_url_handler_404 date i cbtype hs
     | Handler_output \<Rightarrow> output_cb_http date i cbtype arg hs
   }"

section \<open>Requests\<close>

text \<open>Every handler returns 1.\<close>

definition http_process_query :: "string \<Rightarrow> nat \<Rightarrow> hserver \<Rightarrow> hserver option" where
  "http_process_query date i hs = do {
     hc \<leftarrow> hs_heap hs i;
     url \<leftarrow> hc_url hc;
     case hs_urls hs url of
       Some hu \<Rightarrow> do {
         hs \<leftarrow> upd_conn i (\<lambda>hc. hc\<lparr>hc_handler := Handler_output\<rparr>) hs;
         call_url_handler date i HCB_QUERY (Some hu) hs
       }
     | None \<Rightarrow> call_url_handler date i HCB_QUERY None hs
   }"

text \<open>A line of the header; the parsers see it as a text that ends at a zero.\<close>

definition http_head_line :: "string \<Rightarrow> nat \<Rightarrow> string \<Rightarrow> hserver \<Rightarrow> (bool \<times> hserver) option" where
  "http_head_line date i line hs = do {
     hc \<leftarrow> hs_heap hs i;
     if hc_url hc = None
     then (let (ok, hc) = http_parse_command_url (c_str line) hc
           in Some (ok, hs\<lparr>hs_heap := (hs_heap hs)(i \<mapsto> hc)\<rparr>))
     else if line = []
     then do { hs \<leftarrow> http_process_query date i hs; Some (True, hs) }
     else (let (ok, hc) = http_parse_attrib (c_str line) hc
           in Some (ok, hs\<lparr>hs_heap := (hs_heap hs)(i \<mapsto> hc)\<rparr>))
   }"

text \<open>The loop over the lines of the input.\<close>

function read_head :: "string \<Rightarrow> nat \<Rightarrow> string \<Rightarrow> hserver \<Rightarrow> (bool \<times> hserver) option" where
  "read_head date i inp hs =
     (case take_line inp of
        None \<Rightarrow> Some (True, hs)
      | Some (line, rest) \<Rightarrow> do {
          (ok, hs) \<leftarrow> http_head_line date i line hs;
          hs \<leftarrow> upd_conn i (\<lambda>hc. hc\<lparr>hc_in := rest\<rparr>) hs;
          if ok then read_head date i rest hs else Some (False, hs)
        })"
  by pat_completeness auto

termination read_head
  by (relation "measure (\<lambda>(_, _, inp, _). length inp)") (auto dest: take_line_length)

declare read_head.simps [simp del]

definition http_read_head :: "string \<Rightarrow> nat \<Rightarrow> hserver \<Rightarrow> (bool \<times> hserver) option" where
  "http_read_head date i hs = do { hc \<leftarrow> hs_heap hs i; read_head date i (hc_in hc) hs }"

section \<open>Callbacks of libevent\<close>

definition http_cb_read :: "string \<Rightarrow> nat \<Rightarrow> hserver \<Rightarrow> hserver option" where
  "http_cb_read date i hs = do {
     hc \<leftarrow> hs_heap hs i;
     case hc_status hc of
       HC_STATUS_END \<Rightarrow> call_url_handler date i HCB_END (hc_arg hc) hs
     | HC_STATUS_HEAD \<Rightarrow> do {
         (ok, hs) \<leftarrow> http_read_head date i hs;
         if ok then Some hs
         else do { hc \<leftarrow> hs_heap hs i; call_url_handler date i HCB_ERROR (hc_arg hc) hs }
       }
     | HC_STATUS_BODY \<Rightarrow> call_url_handler date i HCB_READ (hc_arg hc) hs
   }"

definition http_cb_write :: "string \<Rightarrow> nat \<Rightarrow> hserver \<Rightarrow> hserver option" where
  "http_cb_write date i hs = do {
     hc \<leftarrow> hs_heap hs i;
     hs \<leftarrow> (if hc_status hc \<noteq> HC_STATUS_END then call_url_handler date i HCB_WRITE (hc_arg hc) hs else Some hs);
     hc \<leftarrow> hs_heap hs i;
     if hc_status hc = HC_STATUS_END then call_url_handler date i HCB_END (hc_arg hc) hs else Some hs
   }"

definition http_cb_error :: "string \<Rightarrow> nat \<Rightarrow> hserver \<Rightarrow> hserver option" where
  "http_cb_error date i hs = do { hc \<leftarrow> hs_heap hs i; call_url_handler date i HCB_ERROR (hc_arg hc) hs }"

text \<open>\<open>nfd\<close> is the result of \<^verbatim>\<open>accept\<close>.\<close>

definition http_connect :: "int \<Rightarrow> hserver \<Rightarrow> hserver" where
  "http_connect nfd hs =
     (if nfd < 0 then hs
      else hs\<lparr>hs_cid := hs_cid hs + 1, hs_heap := (hs_heap hs)(hs_cid hs \<mapsto> conn_new nfd), hs_conn := hs_conn hs @ [hs_cid hs]\<rparr>)"

definition http_register_url :: "string \<Rightarrow> nat \<Rightarrow> hserver \<Rightarrow> hserver" where
  "http_register_url url ou hs = hs\<lparr>hs_urls := (hs_urls hs)(url \<mapsto> ou)\<rparr>"

text \<open>The results of \<^verbatim>\<open>socket\<close>, \<^verbatim>\<open>bind\<close> and \<^verbatim>\<open>listen\<close>; the outputs are those of the program.\<close>

definition http_init :: "nat \<Rightarrow> int \<Rightarrow> int \<Rightarrow> int \<Rightarrow> (nat \<rightharpoonup> houtp) \<Rightarrow> hserver option" where
  "http_init port fd bnd lst outs =
     (if bnd \<noteq> 0 then None
      else if lst \<noteq> 0 then None
      else Some \<lparr>hs_port = port, hs_fd = fd, hs_cid = 0, hs_conn = [], hs_urls = Map.empty, hs_heap = Map.empty,
                 hs_rnew = 0, hs_recv = Map.empty, hs_outs = outs, hs_closed = []\<rparr>)"

section \<open>The output\<close>

definition HTTP_MAX_TS :: nat where "HTTP_MAX_TS = 20000 div 188"
definition HTTP_MAX_QUEUED :: nat where "HTTP_MAX_QUEUED = 200 * 1024"
definition HTTP_MAX_OVERFLOW :: nat where "HTTP_MAX_OVERFLOW = 20"

text \<open>Without a port for HTTP in the configuration there is no server.\<close>

definition output_init_http :: "u8 list \<Rightarrow> nat \<Rightarrow> hserver option \<Rightarrow> hserver option" where
  "output_init_http junk ou hserver = do {
     hs \<leftarrow> hserver;
     out \<leftarrow> hs_outs hs ou;
     let out = out\<lparr>o_buffer := Buf (sb_init junk HTTP_MAX_TS 188 0)\<rparr>;
     Some (http_register_url (o_url out) ou (hs\<lparr>hs_outs := (hs_outs hs)(ou \<mapsto> out)\<rparr>))
   }"

definition output_send_http_one :: "nat \<Rightarrow> nat \<Rightarrow> hserver \<Rightarrow> hserver option" where
  "output_send_http_one ou r hs = do {
     hr \<leftarrow> hs_recv hs r;
     hc \<leftarrow> hs_heap hs (hr_hc hr);
     if http_get_queue hc > HTTP_MAX_QUEUED
     then (let n = hr_overflow hr + 1;
               hs = hs\<lparr>hs_recv := (hs_recv hs)(r \<mapsto> hr\<lparr>hr_overflow := n\<rparr>)\<rparr>
           in if n > HTTP_MAX_OVERFLOW then output_remove_receiver r hs else Some hs)
     else do {
       let hs = hs\<lparr>hs_recv := (hs_recv hs)(r \<mapsto> hr\<lparr>hr_overflow := 0\<rparr>)\<rparr>;
       out \<leftarrow> hs_outs hs ou;
       sb \<leftarrow> (case o_buffer out of Buf sb \<Rightarrow> Some sb | _ \<Rightarrow> None);
       upd_conn (hr_hc hr) (http_return_stream (Some (sb_block sb))) hs
     }
   }"

text \<open>\<^verbatim>\<open>g_list_foreach\<close> reads the link to the next element before it calls the function.\<close>

fun send_each :: "nat \<Rightarrow> nat list \<Rightarrow> hserver \<Rightarrow> hserver option" where
  "send_each ou [] hs = Some hs"
| "send_each ou (r # rs) hs = do { hs \<leftarrow> output_send_http_one ou r hs; send_each ou rs hs }"

definition output_send_http :: "nat \<Rightarrow> u8 list \<Rightarrow> hserver \<Rightarrow> hserver option" where
  "output_send_http ou tsp hs = do {
     out \<leftarrow> hs_outs hs ou;
     sb \<leftarrow> (case o_buffer out of Buf sb \<Rightarrow> Some sb | _ \<Rightarrow> None);
     (sb, _) \<leftarrow> sb_add_atoms sb tsp 1;
     let hs = hs\<lparr>hs_outs := (hs_outs hs)(ou \<mapsto> out\<lparr>o_buffer := Buf sb\<rparr>)\<rparr>;
     if sb_free_atoms sb \<noteq> 0 then Some hs
     else do {
       hs \<leftarrow> send_each ou (o_http_receiver out) hs;
       out \<leftarrow> hs_outs hs ou;
       sb \<leftarrow> (case o_buffer out of Buf sb \<Rightarrow> Some sb | _ \<Rightarrow> None);
       Some (hs\<lparr>hs_outs := (hs_outs hs)(ou \<mapsto> out\<lparr>o_buffer := Buf (sb_zap sb)\<rparr>)\<rparr>)
     }
   }"

end
