(* ===== verification/Http_Request.thy ===== *)
theory Http_Request
  imports Http
begin

text \<open>
  How a connection of the HTTP server is run by libevent, and what a request leads to: however the
  bytes of a request come in, the handler of its address is asked once, with the command, protocol and
  header of the request in the connection.
\<close>

section \<open>Events\<close>

text \<open>A new connection, bytes that came in, bytes that the kernel took, an error or the end of the
  connection, and a packet of a stream.  Nothing happens to a connection that is gone, and nothing is
  written for one that has no output.\<close>

datatype hevent = Accept int | Data nat string | Taken nat nat | Lost nat | Packet nat "u8 list"

definition hevent_step :: "string \<Rightarrow> hevent \<Rightarrow> hserver \<Rightarrow> hserver option" where
  "hevent_step date e hs =
     (case e of
        Accept fd \<Rightarrow> Some (http_connect fd hs)
      | Data i ds \<Rightarrow>
          (if hs_heap hs i = None then Some hs
           else do { hs \<leftarrow> upd_conn i (\<lambda>hc. hc\<lparr>hc_in := hc_in hc @ ds\<rparr>) hs; http_cb_read date i hs })
      | Taken i n \<Rightarrow>
          (case hs_heap hs i of
             None \<Rightarrow> Some hs
           | Some hc \<Rightarrow>
               if hc_out hc = [] then Some hs
               else do {
                 hs \<leftarrow> upd_conn i (\<lambda>hc. hc\<lparr>hc_out := drop n (hc_out hc)\<rparr>) hs;
                 if length (hc_out hc) \<le> n then http_cb_write date i hs else Some hs
               })
      | Lost i \<Rightarrow> (if hs_heap hs i = None then Some hs else http_cb_error date i hs)
      | Packet ou tsp \<Rightarrow> (if map_option o_receiver (hs_outs hs ou) = Some 0 then Some hs else output_send_http ou tsp hs))"

fun hevents :: "string \<Rightarrow> hevent list \<Rightarrow> hserver \<Rightarrow> hserver option" where
  "hevents date [] hs = Some hs"
| "hevents date (e # es) hs = do { hs \<leftarrow> hevent_step date e hs; hevents date es hs }"

section \<open>The input of a connection\<close>

definition put_in :: "nat \<Rightarrow> string \<Rightarrow> hserver \<Rightarrow> hserver" where
  "put_in i x hs = hs\<lparr>hs_heap := (hs_heap hs)(i := map_option (\<lambda>hc. hc\<lparr>hc_in := x\<rparr>) (hs_heap hs i))\<rparr>"

lemma put_in_heap [simp]: "hs_heap (put_in i x hs) i = map_option (\<lambda>hc. hc\<lparr>hc_in := x\<rparr>) (hs_heap hs i)"
  by (simp add: put_in_def)

lemma put_in_put_in [simp]: "put_in i x (put_in i y hs) = put_in i x hs"
  by (simp add: put_in_def option.map_comp comp_def)

lemma put_in_other [simp]: "hs_urls (put_in i x hs) = hs_urls hs" "hs_outs (put_in i x hs) = hs_outs hs" "hs_rnew (put_in i x hs) = hs_rnew hs"
  "hs_recv (put_in i x hs) = hs_recv hs"
  by (simp_all add: put_in_def)

lemma put_in_same: "hs_heap hs i = Some hc \<Longrightarrow> hc_in hc = x \<Longrightarrow> put_in i x hs = hs"
  by (cases hs, simp add: put_in_def fun_upd_idem)

lemma upd_conn_in: "upd_conn i (\<lambda>hc. hc\<lparr>hc_in := x\<rparr>) hs = (if hs_heap hs i = None then None else Some (put_in i x hs))"
  by (auto simp: upd_conn_def put_in_def)

text \<open>The header functions neither read nor write the input.\<close>

lemma conn_in_comm:
  "hc\<lparr>hc_status := a, hc_in := x\<rparr> = hc\<lparr>hc_in := x, hc_status := a\<rparr>"
  "hc\<lparr>hc_cmd := b, hc_in := x\<rparr> = hc\<lparr>hc_in := x, hc_cmd := b\<rparr>"
  "hc\<lparr>hc_url := c, hc_in := x\<rparr> = hc\<lparr>hc_in := x, hc_url := c\<rparr>"
  "hc\<lparr>hc_proto := d, hc_in := x\<rparr> = hc\<lparr>hc_in := x, hc_proto := d\<rparr>"
  "hc\<lparr>hc_keepalive := e, hc_in := x\<rparr> = hc\<lparr>hc_in := x, hc_keepalive := e\<rparr>"
  "hc\<lparr>hc_attrib := f, hc_in := x\<rparr> = hc\<lparr>hc_in := x, hc_attrib := f\<rparr>"
  "hc\<lparr>hc_handler := g, hc_in := x\<rparr> = hc\<lparr>hc_in := x, hc_handler := g\<rparr>"
  "hc\<lparr>hc_arg := h, hc_in := x\<rparr> = hc\<lparr>hc_in := x, hc_arg := h\<rparr>"
  "hc\<lparr>hc_hdr := i, hc_in := x\<rparr> = hc\<lparr>hc_in := x, hc_hdr := i\<rparr>"
  "hc\<lparr>hc_out := j, hc_in := x\<rparr> = hc\<lparr>hc_in := x, hc_out := j\<rparr>"
  for hc :: conn
  by simp_all

lemma hdr_put_in: "hdr_put s (hc\<lparr>hc_in := x\<rparr>) = map_option (\<lambda>hc. hc\<lparr>hc_in := x\<rparr>) (hdr_put s hc)"
  by (simp add: hdr_put_def)

lemma hdr_try_in: "hdr_try s (hc\<lparr>hc_in := x\<rparr>) = (hdr_try s hc)\<lparr>hc_in := x\<rparr>"
  by (simp add: hdr_try_def hdr_put_in split: option.splits)

lemma bind_map_option: "Option.bind (map_option f x) g = Option.bind x (g \<circ> f)"
  by (cases x) simp_all

lemma map_bind_option: "map_option f (Option.bind x g) = Option.bind x (\<lambda>y. map_option f (g y))"
  by (cases x) simp_all

lemma http_header_start_in:
  "http_header_start date r t (hc\<lparr>hc_in := x\<rparr>) = map_option (\<lambda>hc. hc\<lparr>hc_in := x\<rparr>) (http_header_start date r t hc)"
proof -
  have a: "hdr_put s (hc\<lparr>hc_in := x, hc_hdr := []\<rparr>) = map_option (\<lambda>hc. hc\<lparr>hc_in := x\<rparr>) (hdr_put s (hc\<lparr>hc_hdr := []\<rparr>))" for s
    using hdr_put_in [where hc = "hc\<lparr>hc_hdr := []\<rparr>"] by (simp add: conn_in_comm)
  show ?thesis
    by (simp add: http_header_start_def http_header_add_def a hdr_put_in hdr_try_in bind_map_option map_bind_option comp_def Let_def)
qed

lemma http_header_end_in: "http_header_end (hc\<lparr>hc_in := x\<rparr>) = map_option (\<lambda>hc. hc\<lparr>hc_in := x\<rparr>) (http_header_end hc)"
  by (simp add: http_header_end_def http_header_add_def hdr_put_in bind_map_option map_bind_option comp_def bufferevent_write_def conn_in_comm)

lemma http_header_clength_in:
  "http_header_clength n (hc\<lparr>hc_in := x\<rparr>) = map_option (\<lambda>hc. hc\<lparr>hc_in := x\<rparr>) (http_header_clength n hc)"
  by (simp add: http_header_clength_def http_header_add_def hdr_put_in)

lemma http_header_nocache_in:
  "http_header_nocache (hc\<lparr>hc_in := x\<rparr>) = map_option (\<lambda>hc. hc\<lparr>hc_in := x\<rparr>) (http_header_nocache hc)"
  by (simp add: http_header_nocache_def http_header_add_def hdr_put_in bind_map_option map_bind_option comp_def)

lemmas header_in = http_header_start_in http_header_end_in http_header_clength_in http_header_nocache_in

lemma http_return_simple_in:
  "http_return_simple date r t d (hc\<lparr>hc_in := x\<rparr>) = map_option (\<lambda>hc. hc\<lparr>hc_in := x\<rparr>) (http_return_simple date r t d hc)"
  by (simp add: http_return_simple_def header_in bind_map_option map_bind_option comp_def bufferevent_write_def conn_in_comm)

lemma query_404_in: "http_url_handler_404 date i HCB_QUERY (put_in i x hs) = map_option (put_in i x) (http_url_handler_404 date i HCB_QUERY hs)"
  by (cases "hs_heap hs i")
    (simp_all add: http_url_handler_404_def http_return_simple_in bind_map_option map_bind_option comp_def upd_conn_def put_in_def conn_in_comm)

lemma query_output_in: "output_cb_http date i HCB_QUERY a (put_in i x hs) = map_option (put_in i x) (output_cb_http date i HCB_QUERY a hs)"
proof (cases "hs_heap hs i")
  case (Some hc)
  have "http_header_start date r t (hc\<lparr>hc_in := x, hc_arg := b\<rparr>) = map_option (\<lambda>hc. hc\<lparr>hc_in := x\<rparr>) (http_header_start date r t (hc\<lparr>hc_arg := b\<rparr>))"
    for r t b using http_header_start_in [where hc = "hc\<lparr>hc_arg := b\<rparr>"] by (simp add: conn_in_comm)
  then show ?thesis using Some
    by (simp add: output_cb_http_def header_in bind_map_option map_bind_option comp_def put_in_def Let_def)
qed (simp add: output_cb_http_def map_bind_option Let_def)

lemma call_query_in: "call_url_handler date i HCB_QUERY a (put_in i x hs) = map_option (put_in i x) (call_url_handler date i HCB_QUERY a hs)"
  by (cases "hs_heap hs i") (simp_all add: call_url_handler_def query_404_in query_output_in split: url_handler.splits)

lemma process_query_in: "http_process_query date i (put_in i x hs) = map_option (put_in i x) (http_process_query date i hs)"
proof (cases "hs_heap hs i")
  case (Some hc)
  have "upd_conn i (\<lambda>hc. hc\<lparr>hc_handler := Handler_output\<rparr>) (put_in i x hs) =
      map_option (put_in i x) (upd_conn i (\<lambda>hc. hc\<lparr>hc_handler := Handler_output\<rparr>) hs)"
    using Some by (simp add: upd_conn_def put_in_def conn_in_comm)
  then show ?thesis using Some
    by (cases "hc_url hc") (simp_all add: http_process_query_def call_query_in bind_map_option map_bind_option comp_def split: option.splits)
qed (simp add: http_process_query_def)

lemma parse_line_in:
  "http_parse_command_url l (hc\<lparr>hc_in := x\<rparr>) = map_prod id (\<lambda>hc. hc\<lparr>hc_in := x\<rparr>) (http_parse_command_url l hc)"
  "http_parse_attrib l (hc\<lparr>hc_in := x\<rparr>) = map_prod id (\<lambda>hc. hc\<lparr>hc_in := x\<rparr>) (http_parse_attrib l hc)"
  by (simp_all add: http_parse_command_url_def http_parse_attrib_def Let_def conn_in_comm split: list.splits option.splits)

lemma head_line_in: "http_head_line date i l (put_in i x hs) = map_option (map_prod id (put_in i x)) (http_head_line date i l hs)"
proof (cases "hs_heap hs i")
  case (Some hc)
  have "http_process_query date i (hs\<lparr>hs_heap := (hs_heap hs)(i \<mapsto> hc\<lparr>hc_in := x\<rparr>)\<rparr>) = map_option (put_in i x) (http_process_query date i hs)"
    using process_query_in [of date i x hs] Some by (simp add: put_in_def)
  then show ?thesis using Some
    by (cases "http_parse_command_url (c_str l) hc"; cases "http_parse_attrib (c_str l) hc")
      (auto simp: http_head_line_def parse_line_in bind_map_option map_bind_option comp_def put_in_def)
qed (simp add: http_head_line_def)

text \<open>A line never frees the connection.\<close>

lemma call_query_live: "call_url_handler date i HCB_QUERY a hs = Some hs' \<Longrightarrow> hs_heap hs' i \<noteq> None"
  by (auto simp: call_url_handler_def http_url_handler_404_def output_cb_http_def upd_conn_def Let_def
      split: Option.bind_splits url_handler.splits)

lemma process_query_live: "http_process_query date i hs = Some hs' \<Longrightarrow> hs_heap hs' i \<noteq> None"
  by (auto simp: http_process_query_def split: Option.bind_splits option.splits dest: call_query_live)

lemma head_line_live: "http_head_line date i l hs = Some (ok, hs') \<Longrightarrow> hs_heap hs' i \<noteq> None"
  by (auto simp: http_head_line_def split: Option.bind_splits if_splits prod.splits dest: process_query_live)

section \<open>Bytes that come in pieces\<close>

lemma read_head_split:
  "hs_heap hs i \<noteq> None \<Longrightarrow> read_head date i (a @ b) (put_in i (a @ b) hs) =
    (case read_head date i a (put_in i a hs) of
       None \<Rightarrow> None
     | Some (ok, hs') \<Rightarrow>
         (let r = (case hs_heap hs' i of None \<Rightarrow> [] | Some hc \<Rightarrow> hc_in hc) @ b
          in if ok then read_head date i r (put_in i r hs') else Some (False, put_in i r hs')))"
proof (induction a arbitrary: hs rule: length_induct)
  case (1 a)
  show ?case
  proof (cases "take_line a")
    case None
    then show ?thesis using 1(2) by (subst (2) read_head.simps) (auto simp: Let_def)
  next
    case (Some p)
    obtain l rest where p: "p = (l, rest)" by (cases p)
    then have tl: "take_line a = Some (l, rest)" "take_line (a @ b) = Some (l, rest @ b)"
      using Some take_line_append by simp_all
    show ?thesis
    proof (cases "http_head_line date i l hs")
      case None
      then show ?thesis using tl by (subst (1 2) read_head.simps) (simp add: head_line_in)
    next
      case (Some q)
      obtain ok hs1 where q: "q = (ok, hs1)" by (cases q)
      then have hl: "http_head_line date i l hs = Some (ok, hs1)" using Some by simp
      then obtain hc where hc: "hs_heap hs1 i = Some hc" using head_line_live by blast
      have "length rest < length a" using tl(1) by (rule take_line_length)
      with 1(1) hc have ih: "read_head date i (rest @ b) (put_in i (rest @ b) hs1) =
          (case read_head date i rest (put_in i rest hs1) of
             None \<Rightarrow> None
           | Some (ok, hs') \<Rightarrow>
               (let r = (case hs_heap hs' i of None \<Rightarrow> [] | Some hc \<Rightarrow> hc_in hc) @ b
                in if ok then read_head date i r (put_in i r hs') else Some (False, put_in i r hs')))"
        by simp
      have "read_head date i (a @ b) (put_in i (a @ b) hs) =
          (if ok then read_head date i (rest @ b) (put_in i (rest @ b) hs1) else Some (False, put_in i (rest @ b) hs1))"
        using tl(2) hl hc by (subst read_head.simps) (simp add: head_line_in upd_conn_in)
      moreover have "read_head date i a (put_in i a hs) =
          (if ok then read_head date i rest (put_in i rest hs1) else Some (False, put_in i rest hs1))"
        using tl(1) hl hc by (subst read_head.simps) (simp add: head_line_in upd_conn_in)
      ultimately show ?thesis using ih hc by simp
    qed
  qed
qed

lemma read_head_live: "read_head date i inp hs = Some (ok, hs') \<Longrightarrow> hs_heap hs i \<noteq> None \<Longrightarrow> hs_heap hs' i \<noteq> None"
proof (induction inp arbitrary: hs rule: length_induct)
  case (1 inp)
  show ?case
  proof (cases "take_line inp")
    case None
    then show ?thesis using 1(2,3) by (subst (asm) read_head.simps) simp
  next
    case (Some p)
    obtain l rest where p: "p = (l, rest)" by (cases p)
    have lt: "length rest < length inp" using Some p take_line_length by simp
    obtain ok1 hs1 where hl: "http_head_line date i l hs = Some (ok1, hs1)"
      using 1(2) Some p by (subst (asm) read_head.simps) (auto split: Option.bind_splits)
    obtain hc where hc: "hs_heap hs1 i = Some hc" using head_line_live [OF hl] by blast
    have "(if ok1 then read_head date i rest (put_in i rest hs1) else Some (False, put_in i rest hs1)) = Some (ok, hs')"
      using 1(2) Some p hl hc by (subst (asm) read_head.simps) (simp add: upd_conn_in)
    then show ?thesis using 1(1) lt hc by (auto split: if_splits)
  qed
qed

text \<open>Two pieces of bytes lead to the same state as the two at once, as long as the first one does not
  end the request or the connection.\<close>

lemma data_step: "hs_heap hs i = Some hc \<Longrightarrow> hc_status hc = HC_STATUS_HEAD \<Longrightarrow> hevent_step date (Data i ds) hs =
   do { (ok, hs) \<leftarrow> read_head date i (hc_in hc @ ds) (put_in i (hc_in hc @ ds) hs);
        if ok then Some hs else do { hc \<leftarrow> hs_heap hs i; call_url_handler date i HCB_ERROR (hc_arg hc) hs } }"
proof -
  assume a: "hs_heap hs i = Some hc" "hc_status hc = HC_STATUS_HEAD"
  have "upd_conn i (\<lambda>hc. hc\<lparr>hc_in := hc_in hc @ ds\<rparr>) hs = Some (put_in i (hc_in hc @ ds) hs)"
    using a(1) by (simp add: upd_conn_def put_in_def)
  then show ?thesis using a by (simp add: hevent_step_def http_cb_read_def http_read_head_def)
qed

lemma feed_append:
  assumes hc: "hs_heap hs i = Some hc" "hc_status hc = HC_STATUS_HEAD"
    and a: "read_head date i (hc_in hc @ a) (put_in i (hc_in hc @ a) hs) = Some (True, hs1)"
    and hc1: "hs_heap hs1 i = Some hc1" "hc_status hc1 = HC_STATUS_HEAD"
  shows "hevent_step date (Data i (a @ b)) hs = hevent_step date (Data i b) hs1"
  using read_head_split [of hs i date "hc_in hc @ a" b] a hc hc1
  by (simp add: data_step Let_def)

section \<open>Lines of a header\<close>

text \<open>A line that is not empty changes nothing but the connection.\<close>

definition head_conn :: "string \<Rightarrow> conn \<Rightarrow> bool \<times> conn" where
  "head_conn l hc = (if hc_url hc = None then http_parse_command_url (c_str l) hc else http_parse_attrib (c_str l) hc)"

fun head_fold :: "string list \<Rightarrow> conn \<Rightarrow> conn option" where
  "head_fold [] hc = Some hc"
| "head_fold (l # ls) hc =
     (if l = [] \<or> NL \<in> set l then None else case head_conn l hc of (ok, hc) \<Rightarrow> if ok then head_fold ls hc else None)"

definition put_conn :: "nat \<Rightarrow> conn \<Rightarrow> hserver \<Rightarrow> hserver" where
  "put_conn i hc hs = hs\<lparr>hs_heap := (hs_heap hs)(i \<mapsto> hc)\<rparr>"

lemma put_conn_simps [simp]: "hs_heap (put_conn i hc hs) i = Some hc" "put_conn i hc (put_conn i hc' hs) = put_conn i hc hs"
  "put_in i x (put_conn i hc hs) = put_conn i (hc\<lparr>hc_in := x\<rparr>) hs"
  "hs_urls (put_conn i hc hs) = hs_urls hs" "hs_outs (put_conn i hc hs) = hs_outs hs"
  "hs_rnew (put_conn i hc hs) = hs_rnew hs" "hs_recv (put_conn i hc hs) = hs_recv hs"
  by (simp_all add: put_conn_def put_in_def)

lemma put_conn_same: "hs_heap hs i = Some hc \<Longrightarrow> put_conn i hc hs = hs"
  by (cases hs) (simp add: put_conn_def fun_upd_idem)

lemma head_line_conn:
  "hs_heap hs i = Some hc \<Longrightarrow> l \<noteq> [] \<Longrightarrow> head_conn l hc = (ok, hc') \<Longrightarrow> http_head_line date i l hs = Some (ok, put_conn i hc' hs)"
  by (cases "hc_url hc") (simp_all add: http_head_line_def head_conn_def put_conn_def)

definition lines_text :: "string list \<Rightarrow> string" where
  "lines_text ls = concat (map (\<lambda>l. l @ CRLF) ls)"

lemma lines_text_simps [simp]: "lines_text [] = []" "lines_text (l # ls) = l @ CRLF @ lines_text ls"
  "lines_text (ls @ ls') = lines_text ls @ lines_text ls'"
  by (simp_all add: lines_text_def)

lemma CRLF_chars: "CRLF = [CR, NL]"
  by (simp add: CRLF_def CR_def NL_def)

lemma read_head_lines:
  "hs_heap hs i = Some hc \<Longrightarrow> head_fold ls hc = Some hc' \<Longrightarrow>
   read_head date i (lines_text ls @ r) (put_in i (lines_text ls @ r) hs) = read_head date i r (put_conn i (hc'\<lparr>hc_in := r\<rparr>) hs)"
proof (induction ls arbitrary: hs hc)
  case Nil
  then show ?case using put_conn_same [of hs i hc] put_conn_simps(3) [of i r hc hs] by simp
next
  case (Cons l ls)
  obtain hc1 where l: "l \<noteq> []" "NL \<notin> set l" "head_conn l hc = (True, hc1)" "head_fold ls hc1 = Some hc'"
    using Cons.prems(2) by (auto split: if_splits prod.splits)
  let ?t = "lines_text ls @ r"
  have tl: "take_line (lines_text (l # ls) @ r) = Some (l, ?t)" using take_line_CRLF [OF l(2), of ?t] by (simp add: CRLF_chars)
  have "http_head_line date i l (put_in i (lines_text (l # ls) @ r) hs) = Some (True, put_in i (lines_text (l # ls) @ r) (put_conn i hc1 hs))"
    using head_line_conn [OF Cons.prems(1) l(1,3)] by (simp add: head_line_in)
  then have "read_head date i (lines_text (l # ls) @ r) (put_in i (lines_text (l # ls) @ r) hs) = read_head date i ?t (put_in i ?t (put_conn i hc1 hs))"
    using tl by (subst read_head.simps) (simp add: upd_conn_in del: lines_text_simps)
  also have "\<dots> = read_head date i r (put_conn i (hc'\<lparr>hc_in := r\<rparr>) hs)"
    using Cons.IH [of "put_conn i hc1 hs" hc1] l(4) by simp
  finally show ?case .
qed

lemma head_fold_prefix: "head_fold (ls @ ls') hc \<noteq> None \<Longrightarrow> head_fold ls hc \<noteq> None"
  by (induction ls arbitrary: hc) (auto split: if_splits prod.splits)

lemma head_fold_status: "head_fold ls hc = Some hc' \<Longrightarrow> hc_status hc' = hc_status hc"
  by (induction ls arbitrary: hc)
    (auto simp: head_conn_def http_parse_command_url_def http_parse_attrib_def Let_def split: if_splits prod.splits list.splits option.splits)

text \<open>A beginning of a text of lines is some of its lines and a part of the next one.\<close>

lemma lines_text_beginning:
  assumes "lines_text ls = x @ y" "y \<noteq> []" "\<forall>l \<in> set ls. NL \<notin> set l"
  shows "\<exists>ls1 l ls2 r. ls = ls1 @ l # ls2 \<and> x = lines_text ls1 @ r \<and> NL \<notin> set r"
  using assms
proof (induction ls arbitrary: x)
  case (Cons l ls)
  have later: ?case if x: "x = l @ CRLF @ x'" and y: "lines_text ls = x' @ y" for x'
  proof -
    obtain ls1 l1 ls2 r where "ls = ls1 @ l1 # ls2" "x' = lines_text ls1 @ r" "NL \<notin> set r"
      using Cons.IH [OF y] Cons.prems(2,3) by auto
    then show ?thesis using x by (intro exI [of _ "l # ls1"] exI [of _ l1] exI [of _ ls2] exI [of _ r]) simp
  qed
  have "(l @ CRLF) @ lines_text ls = x @ y" using Cons.prems(1) by simp
  then obtain us where us: "l @ CRLF = x @ us \<and> us @ lines_text ls = y \<or> x = (l @ CRLF) @ us \<and> lines_text ls = us @ y"
    unfolding append_eq_append_conv2 by blast
  show ?case
  proof (cases "l @ CRLF = x @ us \<and> us @ lines_text ls = y \<and> us \<noteq> []")
    case True
    then have "butlast (l @ CRLF) = x @ butlast us" by (metis butlast_append)
    then have "x @ butlast us = l @ [CR]" by (simp add: CRLF_chars butlast_append)
    then have "set x \<subseteq> set (l @ [CR])" by (metis Un_upper1 set_append)
    then have "NL \<notin> set x" using Cons.prems(3) by (auto simp: CR_def NL_def)
    then show ?thesis by (intro exI [of _ "[]"] exI [of _ l] exI [of _ ls] exI [of _ x]) simp
  next
    case False
    then have "x = l @ CRLF @ us \<and> lines_text ls = us @ y" using us by auto
    then show ?thesis using later by blast
  qed
qed simp

section \<open>Requests in pieces\<close>

text \<open>Lines that are accepted and the empty line, in whatever pieces they come, ask for the answer
  once, with all lines in the connection.\<close>

lemma data_pieces:
  assumes hc: "hs_heap hs i = Some hc" "hc_status hc = HC_STATUS_HEAD"
    and ls: "head_fold ls hc = Some hc'"
    and T: "lines_text (ls @ [[]]) = hc_in hc @ a @ concat ps" "ps \<noteq> []" "[] \<notin> set ps"
    and hs1: "read_head date i (hc_in hc @ a) (put_in i (hc_in hc @ a) hs) = Some (True, hs1)"
      "hs_heap hs1 i = Some hc1" "hc_status hc1 = HC_STATUS_HEAD"
  shows "hevents date (map (Data i) ps) hs1 = hevent_step date (Data i (a @ concat ps)) hs"
  using T hs1
proof (induction ps arbitrary: a hs1 hc1)
  case (Cons p ps)
  show ?case
  proof (cases ps)
    case Nil
    then show ?thesis using feed_append [OF hc Cons.prems(4-6), of p] by (cases "hevent_step date (Data i p) hs1") simp_all
  next
    case (Cons p' ps')
    have ne: "concat ps \<noteq> []" using Cons Cons.prems(3) by auto
    have NLs: "\<forall>l \<in> set (ls @ [[]]). NL \<notin> set l" using ls
      by (induction ls arbitrary: hc) (auto split: if_splits prod.splits)
    obtain ls1 l ls2 r where b: "ls @ [[]] = ls1 @ l # ls2" "hc_in hc @ a @ p = lines_text ls1 @ r" "NL \<notin> set r"
      using lines_text_beginning [of "ls @ [[]]" "hc_in hc @ a @ p" "concat ps"] Cons.prems(1) ne NLs by auto
    have "\<exists>zs. ls = ls1 @ zs" using b(1) by (metis append_butlast_last_id butlast_append butlast_snoc list.distinct(1))
    then obtain hc2 where hc2: "head_fold ls1 hc = Some hc2" using ls head_fold_prefix by (metis not_None_eq option.distinct(1))
    define hs2 where "hs2 = put_conn i (hc2\<lparr>hc_in := r\<rparr>) hs"
    have "read_head date i (hc_in hc @ a @ p) (put_in i (hc_in hc @ a @ p) hs) = read_head date i r hs2"
      unfolding b(2) hs2_def by (rule read_head_lines [OF hc(1) hc2])
    also have "\<dots> = Some (True, hs2)" using take_line_None [of r] b(3) by (subst read_head.simps) simp
    finally have rh: "read_head date i (hc_in hc @ a @ p) (put_in i (hc_in hc @ a @ p) hs) = Some (True, hs2)" .
    have hc2': "hs_heap hs2 i = Some (hc2\<lparr>hc_in := r\<rparr>)" "hc_status (hc2\<lparr>hc_in := r\<rparr>) = HC_STATUS_HEAD"
      using head_fold_status [OF hc2] hc(2) by (simp_all add: hs2_def)
    have "hevent_step date (Data i p) hs1 = Some hs2"
      using feed_append [OF hc Cons.prems(4-6), of p] rh by (simp add: data_step [OF hc])
    moreover have "hevents date (map (Data i) ps) hs2 = hevent_step date (Data i ((a @ p) @ concat ps)) hs"
      by (rule Cons.IH [of "a @ p" hs2 "hc2\<lparr>hc_in := r\<rparr>"]) (use Cons.prems(1,3) ne rh hc2' in auto)
    ultimately show ?thesis by simp
  qed
qed simp

section \<open>Answers\<close>

definition stream_header :: "string \<Rightarrow> conn \<Rightarrow> string" where
  "stream_header date hc =
     lines_text ([''HTTP/1.1 200 OK'', ''Date: '' @ date, ''Content-Type: application/octet-stream'', ''Pragma: no-cache'', ''Cache-Control: no-cache''] @
       (if hc_proto hc = HP_HTTP11 then [''Transfer-Encoding: chunked''] else []) @
       [if hc_keepalive hc then ''Connection: keep-alive'' else ''Connection: close'', []])"

definition page_404 :: "string \<Rightarrow> conn \<Rightarrow> string" where
  "page_404 date hc =
     lines_text [''HTTP/1.1 404 Not found'', ''Date: '' @ date, ''Content-Type: text/html'',
       ''Content-Length: '' @ dec_int (int (length http_static_msg_404)),
       if hc_keepalive hc then ''Connection: keep-alive'' else ''Connection: close'', []] @ http_static_msg_404"

text \<open>The state after the answer to a request whose line and header are in \<open>hc\<close>.\<close>

definition answered :: "string \<Rightarrow> nat \<Rightarrow> conn \<Rightarrow> string \<Rightarrow> hserver \<Rightarrow> hserver option" where
  "answered date i hc u hs =
     (case hs_urls hs u of
        None \<Rightarrow> Some (put_conn i (hc\<lparr>hc_status := HC_STATUS_END, hc_out := hc_out hc @ map of_char (page_404 date hc), hc_hdr := []\<rparr>) hs)
      | Some ou \<Rightarrow> do {
          out \<leftarrow> hs_outs hs ou;
          let r = hs_rnew hs;
          Some (put_conn i (hc\<lparr>hc_handler := Handler_output, hc_arg := Some r, hc_out := hc_out hc @ map of_char (stream_header date hc), hc_hdr := []\<rparr>)
            (hs\<lparr>hs_rnew := r + 1, hs_recv := (hs_recv hs)(r \<mapsto> \<lparr>hr_hc = i, hr_output = ou, hr_overflow = 0\<rparr>),
               hs_outs := (hs_outs hs)(ou \<mapsto> out\<lparr>o_http_receiver := o_http_receiver out @ [r], o_receiver := o_receiver out + 1\<rparr>)\<rparr>))
        })"

lemma length_404: "length http_static_msg_404 = 145"
  by (simp add: http_static_msg_404_def)

lemma dec_145: "dec_int 145 = ''145''"
  by code_simp

lemmas header_calc = http_header_start_def http_header_nocache_def http_header_clength_def http_header_end_def http_header_add_def
  hdr_put_def hdr_try_def MAX_HEADER_SIZE_def CRLF_def bufferevent_write_def

lemma stream_header_made:
  "length date \<le> 1000 \<Longrightarrow>
   do { hc \<leftarrow> http_header_start date ''200 OK'' ''application/octet-stream'' hc;
        hc \<leftarrow> http_header_nocache hc; hc \<leftarrow> http_header_clength (-1) hc; http_header_end hc } =
   Some (hc\<lparr>hc_out := hc_out hc @ map of_char (stream_header date hc), hc_hdr := []\<rparr>)"
  by (simp add: header_calc stream_header_def)

lemma page_404_made:
  "length date \<le> 1000 \<Longrightarrow>
   http_return_simple date ''404 Not found'' ''text/html'' (map of_char http_static_msg_404) hc =
   Some (hc\<lparr>hc_status := HC_STATUS_END, hc_out := hc_out hc @ map of_char (page_404 date hc), hc_hdr := []\<rparr>)"
  by (simp add: http_return_simple_def header_calc page_404_def length_404 dec_145)

lemma process_query_registered:
  assumes hc: "hs_heap hs i = Some hc" "hc_url hc = Some u" and ou: "hs_urls hs u = Some ou" and date: "length date \<le> 1000"
  shows "http_process_query date i hs = answered date i hc u hs"
proof -
  have "http_process_query date i hs = output_cb_http date i HCB_QUERY (Some ou) (put_conn i (hc\<lparr>hc_handler := Handler_output\<rparr>) hs)"
    using hc ou by (simp add: http_process_query_def call_url_handler_def upd_conn_def put_conn_def)
  also have "\<dots> = answered date i hc u hs"
  proof (cases "hs_outs hs ou")
    case (Some out)
    let ?hc = "hc\<lparr>hc_handler := Handler_output, hc_arg := Some (hs_rnew hs)\<rparr>"
    have "do { hc \<leftarrow> http_header_start date ''200 OK'' ''application/octet-stream'' ?hc;
        hc \<leftarrow> http_header_nocache hc; hc \<leftarrow> http_header_clength (-1) hc; hc \<leftarrow> http_header_end hc; Some (f hc) } =
      Some (f (?hc\<lparr>hc_out := hc_out ?hc @ map of_char (stream_header date ?hc), hc_hdr := []\<rparr>))" for f :: "conn \<Rightarrow> hserver"
      using stream_header_made [OF date, of ?hc] by (auto simp: bind_eq_Some_conv)
    then show ?thesis using Some ou
      by (simp add: output_cb_http_def answered_def Let_def stream_header_def put_conn_def)
  qed (simp add: output_cb_http_def answered_def ou)
  finally show ?thesis .
qed

lemma process_query_answered:
  assumes "hs_heap hs i = Some hc" "hc_url hc = Some u" "hc_handler hc = Handler_404" "length date \<le> 1000"
  shows "http_process_query date i hs = answered date i hc u hs"
proof (cases "hs_urls hs u")
  case None
  then show ?thesis using assms
    by (simp add: http_process_query_def call_url_handler_def http_url_handler_404_def page_404_made answered_def upd_conn_def put_conn_def)
next
  case (Some ou)
  then show ?thesis using process_query_registered assms by blast
qed

text \<open>The empty line that ends a header.\<close>

lemma read_head_empty:
  assumes "hs_heap hs i = Some hc" "hc_url hc = Some u"
  shows "read_head date i (CRLF @ r) hs = do { hs1 \<leftarrow> http_process_query date i hs; read_head date i r (put_in i r hs1) }"
proof -
  have tl: "take_line (CRLF @ r) = Some ([], r)" using take_line_CRLF [of "[]" r] by (simp add: CRLF_chars)
  show ?thesis
  proof (cases "http_process_query date i hs")
    case None
    then show ?thesis using assms tl by (subst read_head.simps) (simp add: http_head_line_def)
  next
    case (Some hs1)
    then obtain hc1 where "hs_heap hs1 i = Some hc1" using process_query_live by blast
    then show ?thesis using assms tl Some by (subst read_head.simps) (simp add: http_head_line_def upd_conn_in)
  qed
qed

lemma read_head_Nil [simp]: "read_head date i [] hs = Some (True, hs)"
  by (simp add: read_head.simps take_line_def)

section \<open>Requests\<close>

definition request_text :: "string \<Rightarrow> string \<Rightarrow> string \<Rightarrow> (string \<times> string) list \<Rightarrow> string" where
  "request_text c u p as = lines_text (((c @ '' '' @ u @ '' '' @ p) # map attrib_line as) @ [[]])"

definition request_ok :: "string \<Rightarrow> string \<Rightarrow> string \<Rightarrow> (string \<times> string) list \<Rightarrow> bool" where
  "request_ok c u p as \<longleftrightarrow> req_word c \<and> req_word u \<and> req_word p \<and> http_get_cmd c \<noteq> HC_CMD_UNKNOWN \<and> (\<forall>a \<in> set as. attrib_ok a)"

definition requested :: "string \<Rightarrow> string \<Rightarrow> string \<Rightarrow> (string \<times> string) list \<Rightarrow> conn \<Rightarrow> conn" where
  "requested c u p as hc =
     hc\<lparr>hc_cmd := http_get_cmd c, hc_url := Some u, hc_proto := http_parse_proto p, hc_keepalive := (http_parse_proto p = HP_HTTP11),
        hc_attrib := hc_attrib hc @ as\<rparr>"

text \<open>A connection that waits for a request.\<close>

definition waits_request :: "conn \<Rightarrow> bool" where
  "waits_request hc \<longleftrightarrow> hc_status hc = HC_STATUS_HEAD \<and> hc_url hc = None \<and> hc_in hc = [] \<and> hc_handler hc = Handler_404"

lemma attrib_fold:
  "hc_url hc \<noteq> None \<Longrightarrow> \<forall>a \<in> set as. attrib_ok a \<Longrightarrow> head_fold (map attrib_line as) hc = Some (hc\<lparr>hc_attrib := hc_attrib hc @ as\<rparr>)"
proof (induction as arbitrary: hc)
  case (Cons a as)
  obtain t v where a: "a = (t, v)" by (cases a)
  have ok: "attrib_ok a" using Cons.prems(2) by simp
  have n: "attrib_line a \<noteq> []" "NL \<notin> set (attrib_line a)" "NUL \<notin> set (attrib_line a)"
    using ok by (auto simp: attrib_line_def a attrib_ok_def NL_def NUL_def)
  have "head_conn (attrib_line a) hc = (True, hc\<lparr>hc_attrib := hc_attrib hc @ [a]\<rparr>)"
    using Cons.prems(1) n(3) parse_attrib_line [OF ok] by (cases "hc_url hc") (simp_all add: head_conn_def http_parse_attrib_def c_str_id)
  then show ?case using n Cons.IH [of "hc\<lparr>hc_attrib := hc_attrib hc @ [a]\<rparr>"] Cons.prems by simp
qed simp

lemma req_word_chars: "req_word w \<Longrightarrow> w \<noteq> [] \<and> CHR 0x0A \<notin> set w \<and> CHR 0x00 \<notin> set w"
  by (auto simp: req_word_def is_gap_def NL_def NUL_def)

lemma request_fold:
  assumes "request_ok c u p as" "hc_url hc = None"
  shows "head_fold ((c @ '' '' @ u @ '' '' @ p) # map attrib_line as) hc = Some (requested c u p as hc)"
proof -
  let ?l = "c @ '' '' @ u @ '' '' @ p"
  note ok = assms(1) [unfolded request_ok_def]
  have n: "?l \<noteq> []" "NL \<notin> set ?l" "NUL \<notin> set ?l"
    using req_word_chars ok by (simp_all add: NL_def NUL_def)
  have "head_conn ?l hc = (True, hc\<lparr>hc_cmd := http_get_cmd c, hc_url := Some u, hc_proto := http_parse_proto p,
      hc_keepalive := (http_parse_proto p = HP_HTTP11)\<rparr>)"
    using http_parse_command_request [of c u p hc] ok assms(2) c_str_id [OF n(3)] by (simp add: head_conn_def)
  then show ?thesis using n ok by (simp add: attrib_fold requested_def)
qed

text \<open>A request, in whatever pieces its bytes come in, is asked of the output of its address, which gets a
  new receiver for the connection and answers with the header of a stream; a request for any other
  address is answered with the page that says so.  The parsed request is in the connection.\<close>

theorem http_request_served:
  assumes "hs_heap hs i = Some hc" "waits_request hc" "request_ok c u p as" "length date \<le> 1000"
    and "concat ps = request_text c u p as" "[] \<notin> set ps"
  shows "hevents date (map (Data i) ps) hs = answered date i (requested c u p as hc) u hs"
proof -
  note w = assms(2) [unfolded waits_request_def]
  let ?ls = "(c @ '' '' @ u @ '' '' @ p) # map attrib_line as"
  have fold: "head_fold ?ls hc = Some (requested c u p as hc)" using request_fold assms(3) w by blast
  have ps: "ps \<noteq> []" using assms(5) by (auto simp: request_text_def)
  have hs: "put_in i [] hs = hs" using put_in_same assms(1) w by simp
  have "hevents date (map (Data i) ps) hs = hevent_step date (Data i ([] @ concat ps)) hs"
    by (rule data_pieces [where ?hs1.0 = hs and ?hc1.0 = hc, OF assms(1) _ fold])
      (use w ps assms hs in \<open>simp_all add: request_text_def read_head.simps take_line_def\<close>)
  also have "\<dots> = do { (ok, hs) \<leftarrow> read_head date i CRLF (put_conn i ((requested c u p as hc)\<lparr>hc_in := CRLF\<rparr>) hs);
        if ok then Some hs else do { hc \<leftarrow> hs_heap hs i; call_url_handler date i HCB_ERROR (hc_arg hc) hs } }"
  proof -
    have t: "concat ps = lines_text ?ls @ CRLF" using assms(5) by (simp add: request_text_def)
    show ?thesis using w read_head_lines [OF assms(1) fold, of date CRLF] by (simp only: data_step [OF assms(1)] t append_Nil)
  qed
  also have "\<dots> = answered date i (requested c u p as hc) u hs"
  proof -
    let ?rc = "requested c u p as hc"
    have "http_process_query date i (put_in i CRLF (put_conn i ?rc hs)) = map_option (put_in i CRLF) (answered date i ?rc u hs)"
      using process_query_answered [of "put_conn i ?rc hs" i ?rc u date] w assms(4)
      by (simp only: process_query_in) (simp add: requested_def answered_def put_conn_def split: option.splits)
    moreover have "put_in i [] hs2 = hs2" if "answered date i ?rc u hs = Some hs2" for hs2
      using that w by (intro put_in_same [of _ _ "the (hs_heap hs2 i)"]) (auto simp: answered_def requested_def Let_def split: option.splits Option.bind_splits)
    ultimately show ?thesis
      using read_head_empty [of "put_conn i (?rc\<lparr>hc_in := CRLF\<rparr>) hs" i "?rc\<lparr>hc_in := CRLF\<rparr>" u date "[]"]
      by (cases "answered date i ?rc u hs") (simp_all add: requested_def)
  qed
  finally show ?thesis .
qed

end
