(* ===== verification/Http_Safe.thy ===== *)
theory Http_Safe
  imports Http_Request
begin

text \<open>
  What connections, receivers and outputs have to do with each other, and what keeps it.  With clients
  that send nothing behind the empty line of a request before its answer has been read, the server
  uses no freed object; of the two that do not, one is left in the list of an output after its
  connection was freed, and the other is looked at after it was freed.
\<close>

section \<open>Invariant\<close>

definition sb_ready :: "simplebuffer \<Rightarrow> bool" where
  "sb_ready sb \<longleftrightarrow> sb_wf sb \<and> sb_atoms sb = HTTP_MAX_TS \<and> sb_atomsize sb = 188 \<and> sb_headroom sb = 0"

definition buffered :: "houtp \<Rightarrow> bool" where
  "buffered out \<longleftrightarrow> (\<exists>sb. o_buffer out = Buf sb \<and> sb_ready sb)"

definition conn_ok :: "(nat \<rightharpoonup> receiver) \<Rightarrow> nat \<Rightarrow> conn \<Rightarrow> bool" where
  "conn_ok rv i hc \<longleftrightarrow>
     (case hc_handler hc of
        Handler_404 \<Rightarrow> hc_status hc \<noteq> HC_STATUS_BODY \<and> (hc_out hc \<noteq> [] \<longrightarrow> hc_status hc = HC_STATUS_END \<or> hc_keepalive hc)
      | Handler_output \<Rightarrow> hc_status hc = HC_STATUS_HEAD \<and> (\<exists>r hr. hc_arg hc = Some r \<and> rv r = Some hr \<and> hr_hc hr = i))"

definition recv_ok :: "(nat \<rightharpoonup> conn) \<Rightarrow> (nat \<rightharpoonup> houtp) \<Rightarrow> nat \<Rightarrow> receiver \<Rightarrow> bool" where
  "recv_ok hp os r hr \<longleftrightarrow>
     (\<exists>hc. hp (hr_hc hr) = Some hc \<and> hc_handler hc = Handler_output \<and> hc_arg hc = Some r) \<and>
     (\<exists>out. os (hr_output hr) = Some out \<and> r \<in> set (o_http_receiver out))"

definition out_ok :: "(nat \<rightharpoonup> receiver) \<Rightarrow> nat \<Rightarrow> houtp \<Rightarrow> bool" where
  "out_ok rv ou out \<longleftrightarrow>
     distinct (o_http_receiver out) \<and> o_receiver out = int (length (o_http_receiver out)) \<and>
     (\<forall>r \<in> set (o_http_receiver out). \<exists>hr. rv r = Some hr \<and> hr_output hr = ou) \<and>
     (o_http_receiver out \<noteq> [] \<longrightarrow> buffered out)"

definition hs_ok :: "hserver \<Rightarrow> bool" where
  "hs_ok hs \<longleftrightarrow>
     (\<forall>i hc. hs_heap hs i = Some hc \<longrightarrow> conn_ok (hs_recv hs) i hc) \<and>
     (\<forall>r hr. hs_recv hs r = Some hr \<longrightarrow> recv_ok (hs_heap hs) (hs_outs hs) r hr) \<and>
     (\<forall>ou out. hs_outs hs ou = Some out \<longrightarrow> out_ok (hs_recv hs) ou out) \<and>
     (\<forall>u ou. hs_urls hs u = Some ou \<longrightarrow> (\<exists>out. hs_outs hs ou = Some out \<and> buffered out)) \<and>
     dom (hs_heap hs) = set (hs_conn hs) \<and> distinct (hs_conn hs) \<and>
     (\<forall>i \<in> set (hs_conn hs). i < hs_cid hs) \<and> (\<forall>r \<in> dom (hs_recv hs). r < hs_rnew hs)"

lemma hs_okD:
  assumes "hs_ok hs"
  shows "hs_heap hs i = Some hc \<Longrightarrow> conn_ok (hs_recv hs) i hc"
    and "hs_recv hs r = Some hr \<Longrightarrow> recv_ok (hs_heap hs) (hs_outs hs) r hr"
    and "hs_outs hs ou = Some out \<Longrightarrow> out_ok (hs_recv hs) ou out"
    and "hs_urls hs u = Some ou \<Longrightarrow> \<exists>out. hs_outs hs ou = Some out \<and> buffered out"
    and "dom (hs_heap hs) = set (hs_conn hs)" "distinct (hs_conn hs)" "i \<in> set (hs_conn hs) \<Longrightarrow> i < hs_cid hs"
    and "hs_recv hs r = Some hr \<Longrightarrow> r < hs_rnew hs"
  using assms unfolding hs_ok_def by (auto simp: dom_def)

lemma hs_okI:
  assumes "\<And>i hc. hs_heap hs i = Some hc \<Longrightarrow> conn_ok (hs_recv hs) i hc"
    and "\<And>r hr. hs_recv hs r = Some hr \<Longrightarrow> recv_ok (hs_heap hs) (hs_outs hs) r hr"
    and "\<And>ou out. hs_outs hs ou = Some out \<Longrightarrow> out_ok (hs_recv hs) ou out"
    and "\<And>u ou. hs_urls hs u = Some ou \<Longrightarrow> \<exists>out. hs_outs hs ou = Some out \<and> buffered out"
    and "dom (hs_heap hs) = set (hs_conn hs)" "distinct (hs_conn hs)" "\<And>i. i \<in> set (hs_conn hs) \<Longrightarrow> i < hs_cid hs"
    and "\<And>r hr. hs_recv hs r = Some hr \<Longrightarrow> r < hs_rnew hs"
  shows "hs_ok hs"
  using assms unfolding hs_ok_def by blast

text \<open>A connection of a receiver keeps its handler and its receiver.\<close>

definition same_role :: "conn \<Rightarrow> conn \<Rightarrow> bool" where
  "same_role hc hc' \<longleftrightarrow> hc_handler hc' = hc_handler hc \<and> (hc_handler hc = Handler_output \<longrightarrow> hc_arg hc' = hc_arg hc)"

lemma recv_not_404: "hs_ok hs \<Longrightarrow> hs_heap hs i = Some hc \<Longrightarrow> hc_handler hc = Handler_404 \<Longrightarrow> hs_recv hs r = Some hr \<Longrightarrow> hr_hc hr \<noteq> i"
  using hs_okD(2) unfolding recv_ok_def by fastforce

lemma put_conn_ok:
  assumes ok: "hs_ok hs" and hc: "hs_heap hs i = Some hc" "conn_ok (hs_recv hs) i hc'" "same_role hc hc'"
  shows "hs_ok (put_conn i hc' hs)"
proof (rule hs_okI)
  show "conn_ok (hs_recv (put_conn i hc' hs)) j h" if "hs_heap (put_conn i hc' hs) j = Some h" for j h
    using that hc hs_okD(1) [OF ok] by (auto simp: put_conn_def split: if_splits)
  show "recv_ok (hs_heap (put_conn i hc' hs)) (hs_outs (put_conn i hc' hs)) r hr" if "hs_recv (put_conn i hc' hs) r = Some hr" for r hr
    using hs_okD(2) [OF ok, of r hr] that hc by (auto simp: put_conn_def recv_ok_def same_role_def)
  show "dom (hs_heap (put_conn i hc' hs)) = set (hs_conn (put_conn i hc' hs))"
    using hs_okD(5) [OF ok] hc(1) by (auto simp: put_conn_def dom_def)
qed (use hs_okD [OF ok] in \<open>auto simp: put_conn_def\<close>)

lemma drop_404_ok:
  assumes ok: "hs_ok hs" and hc: "hs_heap hs i = Some hc" "hc_handler hc = Handler_404"
  shows "\<exists>hs'. http_drop_connection i hs = Some hs' \<and> hs_ok hs' \<and> hs_heap hs' i = None"
proof -
  let ?hs = "hs\<lparr>hs_conn := remove1 i (hs_conn hs), hs_closed := hs_closed hs @ [hc_fd hc], hs_heap := (hs_heap hs)(i := None)\<rparr>"
  have "hs_ok ?hs"
  proof (rule hs_okI)
    show "recv_ok (hs_heap ?hs) (hs_outs ?hs) r hr" if "hs_recv ?hs r = Some hr" for r hr
      using hs_okD(2) [OF ok, of r hr] recv_not_404 [OF ok hc, of r hr] that by (auto simp: recv_ok_def)
    show "dom (hs_heap ?hs) = set (hs_conn ?hs)" using hs_okD(5,6) [OF ok] by auto
  qed (use hs_okD [OF ok] notin_set_remove1 in \<open>auto split: if_splits\<close>)
  then show ?thesis using hc(1) by (simp add: http_drop_connection_def)
qed

lemma request_end_ok:
  assumes ok: "hs_ok hs" and hc: "hs_heap hs i = Some hc" "hc_handler hc = Handler_404"
  shows "\<exists>hs'. http_request_end i hs = Some hs' \<and> hs_ok hs' \<and>
    hs_heap hs' i = (if hc_keepalive hc then Some ((http_request_free hc)\<lparr>hc_status := HC_STATUS_HEAD, hc_handler := Handler_404, hc_hdr := []\<rparr>) else None)"
proof (cases "hc_keepalive hc")
  case False
  then show ?thesis using drop_404_ok [OF assms] hc by (simp add: http_request_end_def)
next
  case True
  let ?hc = "(http_request_free hc)\<lparr>hc_status := HC_STATUS_HEAD, hc_handler := Handler_404, hc_hdr := []\<rparr>"
  have "hs_ok (put_conn i ?hc hs)"
    by (rule put_conn_ok [OF ok hc(1)]) (use True hc(2) in \<open>simp_all add: conn_ok_def same_role_def http_request_free_def\<close>)
  then show ?thesis using True hc(1) by (simp add: http_request_end_def upd_conn_def put_conn_def)
qed

lemma remove_receiver_ok:
  assumes ok: "hs_ok hs" and hr: "hs_recv hs r = Some hr"
  shows "\<exists>hs'. output_remove_receiver r hs = Some hs' \<and> hs_ok hs' \<and> hs_heap hs' (hr_hc hr) = None \<and> hs_recv hs' = (hs_recv hs)(r := None) \<and>
    (\<forall>i. i \<noteq> hr_hc hr \<longrightarrow> hs_heap hs' i = hs_heap hs i) \<and>
    hs_outs hs' = (hs_outs hs)(hr_output hr := map_option (\<lambda>out. out\<lparr>o_http_receiver := remove1 r (o_http_receiver out), o_receiver := o_receiver out - 1\<rparr>) (hs_outs hs (hr_output hr))) \<and>
    hs_urls hs' = hs_urls hs"
proof -
  obtain hc out where h: "hs_heap hs (hr_hc hr) = Some hc" "hc_handler hc = Handler_output" "hc_arg hc = Some r"
    and out: "hs_outs hs (hr_output hr) = Some out" "r \<in> set (o_http_receiver out)"
    using hs_okD(2) [OF ok hr] by (auto simp: recv_ok_def)
  let ?out = "out\<lparr>o_http_receiver := remove1 r (o_http_receiver out), o_receiver := o_receiver out - 1\<rparr>"
  let ?hs = "hs\<lparr>hs_outs := (hs_outs hs)(hr_output hr \<mapsto> ?out), hs_conn := remove1 (hr_hc hr) (hs_conn hs),
     hs_closed := hs_closed hs @ [hc_fd hc], hs_heap := (hs_heap hs)(hr_hc hr := None), hs_recv := (hs_recv hs)(r := None)\<rparr>"
  have oo: "out_ok (hs_recv hs) (hr_output hr) out" using hs_okD(3) [OF ok out(1)] .
  have own: "hr_hc hr' \<noteq> hr_hc hr" if "hs_recv hs r' = Some hr'" "r' \<noteq> r" for r' hr'
    using hs_okD(2) [OF ok that(1)] h that(2) by (auto simp: recv_ok_def)
  have "hs_ok ?hs"
  proof (rule hs_okI)
    show "conn_ok (hs_recv ?hs) j c" if c: "hs_heap ?hs j = Some c" for j c
    proof (cases "hc_handler c")
      case Handler_404
      then show ?thesis using hs_okD(1) [OF ok, of j c] c by (simp add: conn_ok_def split: if_splits)
    next
      case Handler_output
      then obtain r' hr' where r': "hc_arg c = Some r'" "hs_recv hs r' = Some hr'" "hr_hc hr' = j" "hc_status c = HC_STATUS_HEAD"
        using hs_okD(1) [OF ok, of j c] c by (auto simp: conn_ok_def split: if_splits)
      then have "r' \<noteq> r" using c hr by (auto split: if_splits)
      then show ?thesis using r' Handler_output by (simp add: conn_ok_def)
    qed
    show "recv_ok (hs_heap ?hs) (hs_outs ?hs) r' hr'" if "hs_recv ?hs r' = Some hr'" for r' hr'
      using hs_okD(2) [OF ok, of r' hr'] that own [of r' hr'] out by (auto simp: recv_ok_def split: if_splits)
    show "out_ok (hs_recv ?hs) ou o'" if "hs_outs ?hs ou = Some o'" for ou o'
    proof (cases "ou = hr_output hr")
      case True
      then have "o' = ?out" using that by simp
      moreover have "1 \<le> length (o_http_receiver out)" using out(2) by (cases "o_http_receiver out") auto
      ultimately show ?thesis using oo out(2) True
        by (auto simp: out_ok_def buffered_def set_remove1_eq length_remove1 of_nat_diff)
    next
      case False
      then have "hs_outs hs ou = Some o'" using that by simp
      then show ?thesis using hs_okD(3) [OF ok] False hr by (fastforce simp: out_ok_def)
    qed
    show "\<exists>out. hs_outs ?hs ou = Some out \<and> buffered out" if "hs_urls ?hs u = Some ou" for u ou
      using hs_okD(4) [OF ok, of u ou] that out(1) by (auto simp: buffered_def)
    show "dom (hs_heap ?hs) = set (hs_conn ?hs)" using hs_okD(5,6) [OF ok] by auto
  qed (use hs_okD [OF ok] notin_set_remove1 in \<open>auto split: if_splits\<close>)
  then show ?thesis using h(1) hr out(1) by (auto simp: output_remove_receiver_def http_drop_connection_def Let_def)
qed

section \<open>Requests of polite clients\<close>

text \<open>The answer to a request.\<close>

lemma answered_ok:
  assumes ok: "hs_ok hs" and hc: "hs_heap hs i = Some hc" "hc_handler hc = Handler_404" "hc_status hc = HC_STATUS_HEAD"
  shows "\<exists>hs' hc'. answered date i hc u hs = Some hs' \<and> hs_ok hs' \<and> hs_heap hs' i = Some hc'"
proof (cases "hs_urls hs u")
  case None
  let ?hc = "hc\<lparr>hc_status := HC_STATUS_END, hc_out := hc_out hc @ map of_char (page_404 date hc), hc_hdr := []\<rparr>"
  have "hs_ok (put_conn i ?hc hs)"
    by (rule put_conn_ok [OF ok hc(1)]) (use hc in \<open>simp_all add: conn_ok_def same_role_def\<close>)
  then show ?thesis using None by (simp add: answered_def)
next
  case (Some ou)
  obtain out where out: "hs_outs hs ou = Some out" "buffered out" using hs_okD(4) [OF ok Some] by blast
  let ?r = "hs_rnew hs"
  let ?hc = "hc\<lparr>hc_handler := Handler_output, hc_arg := Some ?r, hc_out := hc_out hc @ map of_char (stream_header date hc), hc_hdr := []\<rparr>"
  let ?out = "out\<lparr>o_http_receiver := o_http_receiver out @ [?r], o_receiver := o_receiver out + 1\<rparr>"
  let ?hs = "put_conn i ?hc (hs\<lparr>hs_rnew := ?r + 1, hs_recv := (hs_recv hs)(?r \<mapsto> \<lparr>hr_hc = i, hr_output = ou, hr_overflow = 0\<rparr>),
     hs_outs := (hs_outs hs)(ou \<mapsto> ?out)\<rparr>)"
  have new: "hs_recv hs ?r = None" using hs_okD(8) [OF ok, of ?r] by (cases "hs_recv hs ?r") auto
  have oo: "out_ok (hs_recv hs) ou out" using hs_okD(3) [OF ok out(1)] .
  have nl: "?r \<notin> set (o_http_receiver out)" using oo new by (auto simp: out_ok_def)
  have "hs_ok ?hs"
  proof (rule hs_okI)
    show "conn_ok (hs_recv ?hs) j c" if "hs_heap ?hs j = Some c" for j c
    proof (cases "j = i")
      case True
      then show ?thesis using that hc by (auto simp: conn_ok_def put_conn_def)
    next
      case False
      then have "conn_ok (hs_recv hs) j c" using that hs_okD(1) [OF ok] by (simp add: put_conn_def)
      then show ?thesis using new by (fastforce simp: conn_ok_def split: url_handler.splits)
    qed
    show "recv_ok (hs_heap ?hs) (hs_outs ?hs) r hr" if "hs_recv ?hs r = Some hr" for r hr
    proof (cases "r = ?r")
      case True
      then have "hr = \<lparr>hr_hc = i, hr_output = ou, hr_overflow = 0\<rparr>" using that by (simp add: put_conn_def)
      then show ?thesis using True by (simp add: recv_ok_def put_conn_def)
    next
      case False
      then have r: "hs_recv hs r = Some hr" using that by (simp add: put_conn_def)
      then show ?thesis using hs_okD(2) [OF ok r] recv_not_404 [OF ok hc(1,2) r] out(1) by (auto simp: recv_ok_def put_conn_def)
    qed
    show "out_ok (hs_recv ?hs) o' out'" if "hs_outs ?hs o' = Some out'" for o' out'
    proof (cases "o' = ou")
      case True
      then have "out' = ?out" using that by (simp add: put_conn_def)
      then show ?thesis using oo nl True out(2) by (auto simp: out_ok_def put_conn_def buffered_def)
    next
      case False
      then have "hs_outs hs o' = Some out'" using that by (simp add: put_conn_def)
      then have o: "out_ok (hs_recv hs) o' out'" using hs_okD(3) [OF ok] by simp
      then have "?r \<notin> set (o_http_receiver out')" using new by (auto simp: out_ok_def)
      then show ?thesis using o by (auto simp: out_ok_def put_conn_def)
    qed
    show "\<exists>out. hs_outs ?hs o' = Some out \<and> buffered out" if "hs_urls ?hs v = Some o'" for v o'
      using hs_okD(4) [OF ok, of v o'] that out by (auto simp: buffered_def put_conn_def)
    show "dom (hs_heap ?hs) = set (hs_conn ?hs)" using hs_okD(5) [OF ok] hc(1) by (auto simp: put_conn_def dom_def)
    show "r < hs_rnew ?hs" if "hs_recv ?hs r = Some hr" for r hr
      using hs_okD(8) [OF ok, of r hr] that by (auto simp: put_conn_def split: if_splits)
  qed (use hs_okD [OF ok] in \<open>auto simp: put_conn_def\<close>)
  then show ?thesis using Some out(1) by (simp add: answered_def Let_def)
qed

text \<open>The first empty line is the end of the bytes.\<close>

function ends_once :: "string \<Rightarrow> bool" where
  "ends_once inp = (case take_line inp of None \<Rightarrow> True | Some (l, rest) \<Rightarrow> if l = [] then rest = [] else ends_once rest)"
  by pat_completeness auto

termination ends_once
  by (relation "measure length") (auto dest: take_line_length)

declare ends_once.simps [simp del]

definition reading :: "hserver \<Rightarrow> nat \<Rightarrow> bool" where
  "reading hs i \<longleftrightarrow> hs_ok hs \<and>
     (\<exists>hc. hs_heap hs i = Some hc \<and> hc_handler hc = Handler_404 \<and> hc_status hc = HC_STATUS_HEAD \<and> hc_out hc = [])"

lemma reading_put:
  assumes "reading hs i" "hs_heap hs i = Some hc" "hc_handler hc' = Handler_404" "hc_status hc' = HC_STATUS_HEAD" "hc_out hc' = []"
  shows "reading (put_conn i hc' hs) i"
proof -
  have ok: "hs_ok hs" and hc: "hc_handler hc = Handler_404" using assms(1,2) by (auto simp: reading_def)
  have "hs_ok (put_conn i hc' hs)"
    by (rule put_conn_ok [OF ok assms(2)]) (use hc assms(3-5) in \<open>simp_all add: conn_ok_def same_role_def\<close>)
  then show ?thesis using assms(3-5) by (simp add: reading_def)
qed

lemma reading_put_in:
  assumes "reading hs i"
  shows "reading (put_in i x hs) i"
proof -
  obtain hc where hc: "hs_heap hs i = Some hc" "hc_handler hc = Handler_404" "hc_status hc = HC_STATUS_HEAD" "hc_out hc = []"
    using assms by (auto simp: reading_def)
  have "put_in i x hs = put_conn i (hc\<lparr>hc_in := x\<rparr>) hs" using hc(1) by (simp add: put_in_def put_conn_def)
  then show ?thesis using reading_put [OF assms hc(1)] hc by simp
qed

lemma head_conn_keeps:
  "head_conn l hc = (ok, hc') \<Longrightarrow> hc_handler hc' = hc_handler hc \<and> hc_status hc' = hc_status hc \<and> hc_out hc' = hc_out hc"
  by (auto simp: head_conn_def http_parse_command_url_def http_parse_attrib_def Let_def split: if_splits list.splits option.splits)

lemma put_in_ok: "hs_ok hs \<Longrightarrow> hs_ok (put_in i x hs)"
proof (cases "hs_heap hs i")
  case None
  assume "hs_ok hs"
  moreover have "put_in i x hs = hs" using None by (cases hs) (simp add: put_in_def fun_upd_idem)
  ultimately show ?thesis by simp
next
  case (Some hc)
  assume ok: "hs_ok hs"
  have "hs_ok (put_conn i (hc\<lparr>hc_in := x\<rparr>) hs)"
    by (rule put_conn_ok [OF ok Some]) (use hs_okD(1) [OF ok Some] in \<open>simp_all add: conn_ok_def same_role_def split: url_handler.splits\<close>)
  then show ?thesis using Some by (simp add: put_in_def put_conn_def)
qed

text \<open>Reading the header: the connection still waits, or it was answered and nothing is left.\<close>

lemma read_head_ok:
  assumes "length date \<le> 1000"
  shows "reading hs i \<Longrightarrow> ends_once inp \<Longrightarrow>
    \<exists>ok hs'. read_head date i inp hs = Some (ok, hs') \<and> hs_ok hs' \<and> (\<not> ok \<longrightarrow> reading hs' i)"
proof (induction inp arbitrary: hs rule: length_induct)
  case (1 inp)
  show ?case
  proof (cases "take_line inp")
    case None
    then show ?thesis using 1(2) by (subst read_head.simps) (auto simp: reading_def)
  next
    case (Some p)
    obtain l rest where p: "p = (l, rest)" by (cases p)
    then have tl: "take_line inp = Some (l, rest)" using Some by simp
    obtain hc where hc: "hs_heap hs i = Some hc" "hc_handler hc = Handler_404" "hc_status hc = HC_STATUS_HEAD" "hc_out hc = []"
      and ok: "hs_ok hs" using 1(2) by (auto simp: reading_def)
    show ?thesis
    proof (cases "l = [] \<and> hc_url hc \<noteq> None")
      case True
      then obtain u where u: "hc_url hc = Some u" by blast
      obtain hs1 hc1 where a: "answered date i hc u hs = Some hs1" "hs_ok hs1" "hs_heap hs1 i = Some hc1"
        using answered_ok [OF ok hc(1-3)] by blast
      have "http_head_line date i l hs = Some (True, hs1)"
        using True hc(1) u process_query_answered [OF hc(1) u hc(2) assms] a(1) by (simp add: http_head_line_def)
      moreover have "rest = []" using 1(3) True tl by (subst (asm) ends_once.simps) simp
      moreover have "read_head date i [] hs2 = Some (True, hs2)" for hs2 by (simp add: read_head.simps take_line_def)
      ultimately show ?thesis using tl a put_in_ok [OF a(2)] by (subst read_head.simps) (auto simp: upd_conn_in)
    next
      case False
      obtain ok1 hc1 where h: "head_conn l hc = (ok1, hc1)" by (cases "head_conn l hc")
      have hl: "http_head_line date i l hs = Some (ok1, put_conn i hc1 hs)"
        using False hc(1) h by (cases "hc_url hc") (auto simp: http_head_line_def head_conn_def put_conn_def)
      have r: "reading (put_in i rest (put_conn i hc1 hs)) i"
        using reading_put_in [OF reading_put [OF 1(2) hc(1)]] head_conn_keeps [OF h] hc by simp
      have step: "read_head date i inp hs =
          (if ok1 then read_head date i rest (put_in i rest (put_conn i hc1 hs)) else Some (False, put_in i rest (put_conn i hc1 hs)))"
        using tl hl by (subst read_head.simps) (simp add: upd_conn_in)
      show ?thesis
      proof (cases ok1)
        case False
        then show ?thesis using step r by (auto simp: reading_def)
      next
        case True
        have "l \<noteq> []"
        proof
          assume "l = []"
          then have "hc_url hc = None" using False \<open>\<not> (l = [] \<and> hc_url hc \<noteq> None)\<close> by blast
          then show False using h True \<open>l = []\<close> by (simp add: head_conn_def http_parse_command_url_def c_str_def eval_nat_numeral)
        qed
        then have "ends_once rest" using 1(3) tl by (subst (asm) ends_once.simps) simp
        then show ?thesis using 1(1) take_line_length [OF tl] r step True by simp
      qed
    qed
  qed
qed

section \<open>Sending\<close>

lemma put_recv_ok:
  assumes ok: "hs_ok hs" and hr: "hs_recv hs r = Some hr" "hr_hc hr' = hr_hc hr" "hr_output hr' = hr_output hr"
  shows "hs_ok (hs\<lparr>hs_recv := (hs_recv hs)(r \<mapsto> hr')\<rparr>)"
proof (rule hs_okI)
  let ?hs = "hs\<lparr>hs_recv := (hs_recv hs)(r \<mapsto> hr')\<rparr>"
  show "conn_ok (hs_recv ?hs) j c" if "hs_heap ?hs j = Some c" for j c
    using hs_okD(1) [OF ok, of j c] that hr by (auto simp: conn_ok_def split: url_handler.splits)
  show "recv_ok (hs_heap ?hs) (hs_outs ?hs) r' h'" if "hs_recv ?hs r' = Some h'" for r' h'
  proof (cases "r' = r")
    case True
    then show ?thesis using hs_okD(2) [OF ok hr(1)] that hr(2,3) by (simp add: recv_ok_def)
  next
    case False
    then show ?thesis using hs_okD(2) [OF ok, of r' h'] that by simp
  qed
  show "out_ok (hs_recv ?hs) ou out" if "hs_outs ?hs ou = Some out" for ou out
    using hs_okD(3) [OF ok, of ou out] that hr by (auto simp: out_ok_def)
  show "r' < hs_rnew ?hs" if "hs_recv ?hs r' = Some h'" for r' h'
    using hs_okD(8) [OF ok] that hr(1) by (simp split: if_splits)
qed (use hs_okD(4-7) [OF ok] in simp_all)

lemma put_buffer_ok:
  assumes ok: "hs_ok hs" and out: "hs_outs hs ou = Some out" and sb: "sb_ready sb"
  shows "hs_ok (hs\<lparr>hs_outs := (hs_outs hs)(ou \<mapsto> out\<lparr>o_buffer := Buf sb\<rparr>)\<rparr>)"
proof (rule hs_okI)
  let ?hs = "hs\<lparr>hs_outs := (hs_outs hs)(ou \<mapsto> out\<lparr>o_buffer := Buf sb\<rparr>)\<rparr>"
  show "recv_ok (hs_heap ?hs) (hs_outs ?hs) r hr" if "hs_recv ?hs r = Some hr" for r hr
    using hs_okD(2) [OF ok, of r hr] that out by (auto simp: recv_ok_def)
  show "out_ok (hs_recv ?hs) o' out'" if "hs_outs ?hs o' = Some out'" for o' out'
    using hs_okD(3) [OF ok] that out sb by (auto simp: out_ok_def buffered_def split: if_splits)
  show "\<exists>out. hs_outs ?hs o' = Some out \<and> buffered out" if "hs_urls ?hs u = Some o'" for u o'
    using hs_okD(4) [OF ok, of u o'] that sb by (auto simp: buffered_def)
qed (use hs_okD [OF ok] in auto)

text \<open>What stays of an output while its block is sent.\<close>

definition same_buffer :: "hserver \<Rightarrow> hserver \<Rightarrow> nat \<Rightarrow> bool" where
  "same_buffer hs hs' ou \<longleftrightarrow> map_option o_buffer (hs_outs hs' ou) = map_option o_buffer (hs_outs hs ou)"

text \<open>What sending a block to the receiver \<open>r\<close> does to its connection, if its queue is not too long.\<close>

definition got_block :: "u8 list \<Rightarrow> hserver \<Rightarrow> nat \<Rightarrow> hserver \<Rightarrow> bool" where
  "got_block blk hs r hs' \<longleftrightarrow>
     (\<forall>hr hc. hs_recv hs r = Some hr \<and> hs_heap hs (hr_hc hr) = Some hc \<and> http_get_queue hc \<le> HTTP_MAX_QUEUED \<longrightarrow>
        hs_heap hs' (hr_hc hr) = Some (http_return_stream (Some blk) hc) \<and> hs_recv hs' r = Some (hr\<lparr>hr_overflow := 0\<rparr>))"

definition untouched :: "hserver \<Rightarrow> nat \<Rightarrow> hserver \<Rightarrow> bool" where
  "untouched hs r hs' \<longleftrightarrow> hs_recv hs' r = hs_recv hs r \<and> (\<forall>hr. hs_recv hs r = Some hr \<longrightarrow> hs_heap hs' (hr_hc hr) = hs_heap hs (hr_hc hr))"

lemma recv_own: "hs_ok hs \<Longrightarrow> hs_recv hs r = Some hr \<Longrightarrow> hs_recv hs r' = Some hr' \<Longrightarrow> hr_hc hr = hr_hc hr' \<Longrightarrow> r = r'"
  using hs_okD(2) [of hs r hr] hs_okD(2) [of hs r' hr'] by (auto simp: recv_ok_def)

lemma send_one_ok:
  assumes ok: "hs_ok hs" and hr: "hs_recv hs r = Some hr" "hr_output hr = ou"
    and out: "hs_outs hs ou = Some out" "o_buffer out = Buf sb"
  shows "\<exists>hs'. output_send_http_one ou r hs = Some hs' \<and> hs_ok hs' \<and> same_buffer hs hs' ou \<and>
    got_block (sb_block sb) hs r hs' \<and> (\<forall>r'. r' \<noteq> r \<longrightarrow> untouched hs r' hs')"
proof -
  obtain hc where hc: "hs_heap hs (hr_hc hr) = Some hc" "hc_handler hc = Handler_output"
    using hs_okD(2) [OF ok hr(1)] by (auto simp: recv_ok_def)
  let ?put = "\<lambda>n. hs\<lparr>hs_recv := (hs_recv hs)(r \<mapsto> hr\<lparr>hr_overflow := n\<rparr>)\<rparr>"
  have p: "hs_ok (?put n)" for n by (rule put_recv_ok [OF ok hr(1)]) simp_all
  have own: "hr_hc hr' \<noteq> hr_hc hr" if "hs_recv hs r' = Some hr'" "r' \<noteq> r" for r' hr'
    using recv_own [OF ok that(1) hr(1)] that(2) by blast
  consider (full) "HTTP_MAX_QUEUED < http_get_queue hc" "\<not> HTTP_MAX_OVERFLOW < hr_overflow hr + 1"
    | (drop) "HTTP_MAX_QUEUED < http_get_queue hc" "HTTP_MAX_OVERFLOW < hr_overflow hr + 1"
    | (send) "\<not> HTTP_MAX_QUEUED < http_get_queue hc" by blast
  then show ?thesis
  proof cases
    case full
    then show ?thesis using hr hc p by (auto simp: output_send_http_one_def Let_def same_buffer_def got_block_def untouched_def)
  next
    case drop
    have "hs_recv (?put (hr_overflow hr + 1)) r = Some (hr\<lparr>hr_overflow := hr_overflow hr + 1\<rparr>)" by simp
    from remove_receiver_ok [OF p this] show ?thesis using drop hr hc out own
      by (auto simp: output_send_http_one_def Let_def same_buffer_def got_block_def untouched_def)
  next
    case send
    let ?hs = "put_conn (hr_hc hr) (http_return_stream (Some (sb_block sb)) hc) (?put 0)"
    have "hs_ok ?hs"
    proof (rule put_conn_ok [OF p])
      show "hs_heap (?put 0) (hr_hc hr) = Some hc" using hc by simp
      show "conn_ok (hs_recv (?put 0)) (hr_hc hr) (http_return_stream (Some (sb_block sb)) hc)"
        using hs_okD(1) [OF p, of 0 "hr_hc hr" hc] hc by (auto simp: conn_ok_def http_return_stream_def bufferevent_write_def)
    qed (simp add: same_role_def http_return_stream_def bufferevent_write_def)
    moreover have "output_send_http_one ou r hs = Some ?hs"
      using send hr hc out by (simp add: output_send_http_one_def Let_def upd_conn_def put_conn_def)
    moreover have "untouched hs r' ?hs" if "r' \<noteq> r" for r'
      using own that by (auto simp: untouched_def put_conn_def)
    moreover have "got_block (sb_block sb) hs r ?hs" using hr hc by (auto simp: got_block_def put_conn_def)
    ultimately show ?thesis using out by (auto simp: same_buffer_def)
  qed
qed

lemma send_each_ok:
  "hs_ok hs \<Longrightarrow> distinct rs \<Longrightarrow> \<forall>r \<in> set rs. \<exists>hr. hs_recv hs r = Some hr \<and> hr_output hr = ou \<Longrightarrow>
   hs_outs hs ou = Some out \<Longrightarrow> o_buffer out = Buf sb \<Longrightarrow>
   \<exists>hs'. send_each ou rs hs = Some hs' \<and> hs_ok hs' \<and> same_buffer hs hs' ou \<and>
     (\<forall>r \<in> set rs. got_block (sb_block sb) hs r hs') \<and> (\<forall>r. r \<notin> set rs \<longrightarrow> untouched hs r hs')"
proof (induction rs arbitrary: hs out)
  case (Cons r rs)
  obtain hr where hr: "hs_recv hs r = Some hr" "hr_output hr = ou" using Cons.prems(3) by auto
  obtain hs1 where hs1: "output_send_http_one ou r hs = Some hs1" "hs_ok hs1" "same_buffer hs hs1 ou"
    "got_block (sb_block sb) hs r hs1" "\<And>r'. r' \<noteq> r \<Longrightarrow> untouched hs r' hs1"
    using send_one_ok [OF Cons.prems(1) hr Cons.prems(4,5)] by blast
  obtain out1 where out1: "hs_outs hs1 ou = Some out1" "o_buffer out1 = Buf sb"
    using hs1(3) Cons.prems(4,5) by (auto simp: same_buffer_def)
  have "\<forall>r' \<in> set rs. \<exists>hr. hs_recv hs1 r' = Some hr \<and> hr_output hr = ou"
  proof
    fix r' assume r': "r' \<in> set rs"
    then have "r' \<noteq> r" using Cons.prems(2) by auto
    then show "\<exists>hr. hs_recv hs1 r' = Some hr \<and> hr_output hr = ou" using hs1(5) [of r'] Cons.prems(3) r' by (simp add: untouched_def)
  qed
  then obtain hs2 where hs2: "send_each ou rs hs1 = Some hs2" "hs_ok hs2" "same_buffer hs1 hs2 ou"
    "\<And>r. r \<in> set rs \<Longrightarrow> got_block (sb_block sb) hs1 r hs2" "\<And>r. r \<notin> set rs \<Longrightarrow> untouched hs1 r hs2"
    using Cons.IH [OF hs1(2) _ _ out1] Cons.prems(2) by auto
  have "got_block (sb_block sb) hs r hs2" using hs1(4) hs2(5) [of r] Cons.prems(2) by (auto simp: got_block_def untouched_def)
  moreover have "got_block (sb_block sb) hs r' hs2" if "r' \<in> set rs" for r'
  proof -
    have "r' \<noteq> r" using that Cons.prems(2) by auto
    then show ?thesis using hs2(4) [OF that] hs1(5) [of r'] by (auto simp: got_block_def untouched_def)
  qed
  moreover have "untouched hs r' hs2" if "r' \<notin> set (r # rs)" for r'
    using that hs2(5) [of r'] hs1(5) [of r'] by (auto simp: untouched_def)
  ultimately show ?case using hs1(1,3) hs2(1-3) by (auto simp: same_buffer_def)
qed (simp add: same_buffer_def untouched_def)

lemma sb_ready_zap: "sb_ready sb \<Longrightarrow> sb_ready (sb_zap sb)"
  by (simp add: sb_ready_def sb_zap_def sb_wf_def)

lemma send_ok:
  assumes ok: "hs_ok hs" and out: "hs_outs hs ou = Some out" "o_receiver out \<noteq> 0" and tsp: "length tsp = 188"
  shows "\<exists>hs'. output_send_http ou tsp hs = Some hs' \<and> hs_ok hs'"
proof -
  have oo: "out_ok (hs_recv hs) ou out" using hs_okD(3) [OF ok out(1)] .
  then obtain sb where sb: "o_buffer out = Buf sb" "sb_ready sb" using out(2) by (auto simp: out_ok_def buffered_def)
  then have "sb_wf sb" "1 * sb_atomsize sb \<le> length tsp" using tsp by (simp_all add: sb_ready_def)
  then obtain sb' k where add: "sb_add_atoms sb tsp 1 = Some (sb', k)" and
    r': "sb_wf sb'" "sb_atoms sb' = sb_atoms sb" "sb_atomsize sb' = sb_atomsize sb" "sb_headroom sb' = sb_headroom sb"
    by (rule sb_add)
  have r: "sb_ready sb'" using r' sb(2) by (simp add: sb_ready_def)
  define hs1 where "hs1 = hs\<lparr>hs_outs := (hs_outs hs)(ou \<mapsto> out\<lparr>o_buffer := Buf sb'\<rparr>)\<rparr>"
  have ok1: "hs_ok hs1" unfolding hs1_def by (rule put_buffer_ok [OF ok out(1) r])
  have "distinct (o_http_receiver out)" "\<forall>r \<in> set (o_http_receiver out). \<exists>hr. hs_recv hs1 r = Some hr \<and> hr_output hr = ou"
    using oo by (auto simp: hs1_def out_ok_def)
  then have "\<exists>hs2. send_each ou (o_http_receiver out) hs1 = Some hs2 \<and> hs_ok hs2 \<and> same_buffer hs1 hs2 ou"
    using send_each_ok [OF ok1, of "o_http_receiver out" ou "out\<lparr>o_buffer := Buf sb'\<rparr>" sb'] by (auto simp: hs1_def)
  then obtain hs2 out2 where hs2: "send_each ou (o_http_receiver out) hs1 = Some hs2" "hs_ok hs2"
    "hs_outs hs2 ou = Some out2" "o_buffer out2 = Buf sb'" by (auto simp: same_buffer_def hs1_def)
  have "hs_ok (hs2\<lparr>hs_outs := (hs_outs hs2)(ou \<mapsto> out2\<lparr>o_buffer := Buf (sb_zap sb')\<rparr>)\<rparr>)"
    by (rule put_buffer_ok [OF hs2(2,3)]) (rule sb_ready_zap [OF r])
  then show ?thesis using out(1) sb(1) add hs2 ok1
    by (cases "sb_free_atoms sb' = 0") (simp_all add: output_send_http_def flip: hs1_def)
qed

section \<open>Polite runs\<close>

text \<open>A client is polite if it sends only while it waits for no answer, and nothing behind a request; a
  stream sends packets to outputs that exist.\<close>

definition polite_event :: "hserver \<Rightarrow> hevent \<Rightarrow> bool" where
  "polite_event hs e =
     (case e of
        Data i ds \<Rightarrow>
          (case hs_heap hs i of
             None \<Rightarrow> True
           | Some hc \<Rightarrow> hc_handler hc = Handler_404 \<and> hc_status hc = HC_STATUS_HEAD \<and> hc_out hc = [] \<and> ends_once (hc_in hc @ ds))
      | Packet ou tsp \<Rightarrow> hs_outs hs ou \<noteq> None \<and> length tsp = 188
      | _ \<Rightarrow> True)"

fun polite_run :: "string \<Rightarrow> hevent list \<Rightarrow> hserver \<Rightarrow> bool" where
  "polite_run date [] hs = True"
| "polite_run date (e # es) hs =
     (polite_event hs e \<and> (case hevent_step date e hs of None \<Rightarrow> True | Some hs' \<Rightarrow> polite_run date es hs'))"

lemma connect_ok: "hs_ok hs \<Longrightarrow> hs_ok (http_connect fd hs)"
proof (cases "fd < 0")
  case False
  assume ok: "hs_ok hs"
  let ?i = "hs_cid hs" and ?hs = "http_connect fd hs"
  have d: "hs_heap hs ?i = None" using hs_okD(5,7) [OF ok] by (metis domIff less_irrefl)
  have n: "hr_hc hr \<noteq> ?i" if "hs_recv hs r = Some hr" for r hr
    using hs_okD(2) [OF ok that] d by (auto simp: recv_ok_def)
  show ?thesis
  proof (rule hs_okI)
    show "conn_ok (hs_recv ?hs) j c" if "hs_heap ?hs j = Some c" for j c
    proof (cases "j = ?i")
      case True
      then have "c = conn_new fd" using that False by (simp add: http_connect_def)
      then show ?thesis by (simp add: conn_ok_def conn_new_def)
    next
      case j: False
      then show ?thesis using hs_okD(1) [OF ok, of j c] that False by (simp add: http_connect_def)
    qed
    show "recv_ok (hs_heap ?hs) (hs_outs ?hs) r hr" if "hs_recv ?hs r = Some hr" for r hr
      using hs_okD(2) [OF ok, of r hr] n [of r hr] that False by (simp add: http_connect_def recv_ok_def)
    show "dom (hs_heap ?hs) = set (hs_conn ?hs)" using hs_okD(5) [OF ok] False by (auto simp: http_connect_def)
    show "distinct (hs_conn ?hs)" using hs_okD(5,6) [OF ok] d False by (auto simp: http_connect_def)
    show "j < hs_cid ?hs" if "j \<in> set (hs_conn ?hs)" for j
      using hs_okD(7) [OF ok, of j] that False by (auto simp: http_connect_def)
  qed (use hs_okD(3,4,8) [OF ok] False in \<open>simp_all add: http_connect_def\<close>)
qed (simp add: http_connect_def)

lemma data_ok:
  assumes ok: "hs_ok hs" and hc: "hs_heap hs i = Some hc" and pol: "polite_event hs (Data i ds)" and date: "length date \<le> 1000"
  shows "\<exists>hs'. hevent_step date (Data i ds) hs = Some hs' \<and> hs_ok hs'"
proof -
  have p: "hc_handler hc = Handler_404" "hc_status hc = HC_STATUS_HEAD" "hc_out hc = []" "ends_once (hc_in hc @ ds)"
    using pol hc by (simp_all add: polite_event_def)
  have "reading (put_in i (hc_in hc @ ds) hs) i"
    by (rule reading_put_in) (use ok hc p in \<open>simp add: reading_def\<close>)
  then obtain r hs1 where r: "read_head date i (hc_in hc @ ds) (put_in i (hc_in hc @ ds) hs) = Some (r, hs1)" "hs_ok hs1" "\<not> r \<longrightarrow> reading hs1 i"
    using read_head_ok [OF date] p(4) by blast
  show ?thesis
  proof (cases r)
    case True
    then show ?thesis using r data_step [OF hc p(2)] by simp
  next
    case False
    then obtain hc1 where h: "hs_heap hs1 i = Some hc1" "hc_handler hc1 = Handler_404" using r(3) by (auto simp: reading_def)
    then show ?thesis using False r data_step [OF hc p(2)] request_end_ok [OF r(2) h]
      by (auto simp: call_url_handler_def http_url_handler_404_def)
  qed
qed

lemma lost_ok:
  assumes ok: "hs_ok hs"
  shows "\<exists>hs'. hevent_step date (Lost i) hs = Some hs' \<and> hs_ok hs'"
proof (cases "hs_heap hs i")
  case (Some hc)
  show ?thesis
  proof (cases "hc_handler hc")
    case Handler_404
    then show ?thesis using Some request_end_ok [OF ok Some Handler_404]
      by (auto simp: hevent_step_def http_cb_error_def call_url_handler_def http_url_handler_404_def)
  next
    case Handler_output
    then obtain r hr where r: "hc_arg hc = Some r" "hs_recv hs r = Some hr"
      using hs_okD(1) [OF ok Some] by (auto simp: conn_ok_def)
    then show ?thesis using Some Handler_output remove_receiver_ok [OF ok r(2)]
      by (auto simp: hevent_step_def http_cb_error_def call_url_handler_def output_cb_http_def)
  qed
qed (simp add: hevent_step_def ok)

lemma taken_ok:
  assumes ok: "hs_ok hs"
  shows "\<exists>hs'. hevent_step date (Taken i n) hs = Some hs' \<and> hs_ok hs'"
proof (cases "hs_heap hs i")
  case (Some hc)
  let ?hc = "hc\<lparr>hc_out := drop n (hc_out hc)\<rparr>"
  let ?hs = "put_conn i ?hc hs"
  have c: "conn_ok (hs_recv hs) i hc" by (rule hs_okD(1) [OF ok Some])
  then have ok1: "hs_ok ?hs"
    by (intro put_conn_ok [OF ok Some]) (auto simp: conn_ok_def same_role_def split: url_handler.splits)
  have u: "upd_conn i (\<lambda>hc. hc\<lparr>hc_out := drop n (hc_out hc)\<rparr>) hs = Some ?hs" using Some by (simp add: upd_conn_def put_conn_def)
  consider "hc_out hc = []" | "hc_out hc \<noteq> []" "n < length (hc_out hc)" | "hc_out hc \<noteq> []" "length (hc_out hc) \<le> n" by linarith
  then show ?thesis
  proof cases
    case 1
    then show ?thesis using Some ok by (simp add: hevent_step_def)
  next
    case 2
    then show ?thesis using Some ok1 u by (simp add: hevent_step_def)
  next
    case 3
    have hc1: "hs_heap ?hs i = Some ?hc" by simp
    have step: "hevent_step date (Taken i n) hs = http_cb_write date i ?hs" using 3 Some u by (simp add: hevent_step_def)
    show ?thesis
    proof (cases "hc_handler hc")
      case Handler_output
      then have "hc_status hc = HC_STATUS_HEAD" using c by (simp add: conn_ok_def)
      then show ?thesis using step Handler_output ok1 by (simp add: http_cb_write_def call_url_handler_def output_cb_http_def)
    next
      case Handler_404
      have h4: "hc_handler ?hc = Handler_404" using Handler_404 by simp
      obtain hs2 where e: "http_request_end i ?hs = Some hs2" "hs_ok hs2"
        "hs_heap hs2 i = (if hc_keepalive hc then Some ((http_request_free ?hc)\<lparr>hc_status := HC_STATUS_HEAD, hc_handler := Handler_404, hc_hdr := []\<rparr>) else None)"
        using request_end_ok [OF ok1 hc1 h4] by auto
      show ?thesis
      proof (cases "hc_status hc = HC_STATUS_END")
        case True
        then show ?thesis using step Handler_404 e by (simp add: http_cb_write_def call_url_handler_def http_url_handler_404_def)
      next
        case False
        then have "hc_keepalive hc" using c 3(1) Handler_404 by (auto simp: conn_ok_def)
        then show ?thesis using step False Handler_404 e by (simp add: http_cb_write_def call_url_handler_def http_url_handler_404_def)
      qed
    qed
  qed
qed (simp add: hevent_step_def ok)

lemma polite_step:
  assumes ok: "hs_ok hs" and pol: "polite_event hs e" and date: "length date \<le> 1000"
  shows "\<exists>hs'. hevent_step date e hs = Some hs' \<and> hs_ok hs'"
proof (cases e)
  case (Accept fd)
  then show ?thesis using connect_ok [OF ok] by (simp add: hevent_step_def)
next
  case (Data i ds)
  then show ?thesis using data_ok [OF ok _ pol [unfolded Data] date] ok by (cases "hs_heap hs i") (simp_all add: hevent_step_def)
next
  case (Taken i n)
  then show ?thesis using taken_ok [OF ok] by simp
next
  case (Lost i)
  then show ?thesis using lost_ok [OF ok] by simp
next
  case (Packet ou tsp)
  then obtain out where "hs_outs hs ou = Some out" "length tsp = 188" using pol by (auto simp: polite_event_def)
  then show ?thesis using send_ok [OF ok] ok Packet by (cases "o_receiver out = 0") (simp_all add: hevent_step_def)
qed

text \<open>C27: Whatever connections come and go, and whatever is sent: with polite clients no freed connection or
  receiver is used, every receiver in the list of an output has its connection and the connection has
  the receiver, and the number of receivers of an output is the length of its list.\<close>

theorem http_polite_safe:
  assumes "hs_ok hs" "polite_run date es hs" "length date \<le> 1000"
  shows "\<exists>hs'. hevents date es hs = Some hs' \<and> hs_ok hs'"
  using assms
proof (induction es arbitrary: hs)
  case (Cons e es)
  then obtain hs1 where "hevent_step date e hs = Some hs1" "hs_ok hs1" using polite_step by fastforce
  then show ?case using Cons.IH [of hs1] Cons.prems(2,3) by simp
qed simp

end
