(* ===== verification/Http_Stream.thy ===== *)
theory Http_Stream
  imports Http_Safe Output
begin

text \<open>
  What a client of a stream over HTTP gets: chunks that a decoder of chunked transfers takes apart to
  the packets of the stream.  The output is one more instance of the locale \<open>batcher\<close>, with a client
  that reads all there is after every packet.  Also, what becomes of clients that are too slow, that
  send a second empty line, or that ask again before they have read an answer.
\<close>

section \<open>Chunks\<close>

definition crlf_bytes :: "u8 list" where
  "crlf_bytes = map of_char CRLF"

definition chunk :: "u8 list \<Rightarrow> u8 list" where
  "chunk bs = map of_char (hex_nat (length bs)) @ crlf_bytes @ bs @ crlf_bytes"

lemma http_return_stream_chunk:
  "http_return_stream (Some bs) hc = hc\<lparr>hc_out := hc_out hc @ (if hc_proto hc = HP_HTTP11 then chunk bs else bs)\<rparr>"
  by (simp add: http_return_stream_def bufferevent_write_def chunk_def crlf_bytes_def)

text \<open>The decoder of a client: a number in hexadecimal digits, the end of the line, so many bytes and
  again the end of the line.\<close>

definition hex_digit :: "u8 \<Rightarrow> nat option" where
  "hex_digit b =
     (let n = unat b in
      if 48 \<le> n \<and> n < 58 then Some (n - 48) else if 97 \<le> n \<and> n < 103 then Some (n - 87)
      else if 65 \<le> n \<and> n < 71 then Some (n - 55) else None)"

fun read_hex :: "nat \<Rightarrow> u8 list \<Rightarrow> nat \<times> u8 list" where
  "read_hex a [] = (a, [])"
| "read_hex a (b # bs) = (case hex_digit b of None \<Rightarrow> (a, b # bs) | Some d \<Rightarrow> read_hex (16 * a + d) bs)"

lemma read_hex_length: "read_hex a bs = (n, r) \<Longrightarrow> length r \<le> length bs"
  by (induction a bs arbitrary: n r rule: read_hex.induct) (auto split: option.splits intro: le_SucI)

lemma read_hex_less: "(n, r) = read_hex a bs \<Longrightarrow> bs \<noteq> [] \<Longrightarrow> length r - (n + 4) < length bs"
  using read_hex_length [of a bs n r] by (cases bs) simp_all

function dechunk :: "u8 list \<Rightarrow> u8 list list option" where
  "dechunk bs =
     (if bs = [] then Some []
      else
        (case read_hex 0 bs of
           (n, r) \<Rightarrow>
             if length r < n + 4 \<or> take 2 r \<noteq> crlf_bytes \<or> take 2 (drop (n + 2) r) \<noteq> crlf_bytes then None
             else map_option ((#) (take n (drop 2 r))) (dechunk (drop (n + 4) r))))"
  by pat_completeness auto

termination dechunk
  by (relation "measure length") (auto dest: read_hex_less)

declare dechunk.simps [simp del]

lemma hex_digit_of: "k < 16 \<Longrightarrow> hex_digit (of_char (''0123456789abcdef'' ! k)) = Some k"
  by (simp add: less_Suc_eq numeral_eq_Suc hex_digit_def) (elim disjE, simp_all)

lemma read_hex_nat: "read_hex a (map of_char (hex_nat n) @ xs) = read_hex (a * 16 ^ length (hex_nat n) + n) xs"
proof (induction n arbitrary: xs rule: hex_nat.induct)
  case (1 n)
  show ?case
  proof (cases "n < 16")
    case True
    then have "hex_nat n = [''0123456789abcdef'' ! n]" by (subst hex_nat.simps) simp
    then show ?thesis using hex_digit_of [OF True] by (simp add: mult.commute del: nth_Cons_numeral)
  next
    case False
    have d: "hex_digit (of_char (''0123456789abcdef'' ! (n mod 16))) = Some (n mod 16)" by (rule hex_digit_of) simp
    have h: "hex_nat n = hex_nat (n div 16) @ [''0123456789abcdef'' ! (n mod 16)]" using False by (subst hex_nat.simps) simp
    let ?l = "length (hex_nat (n div 16))"
    have "read_hex a (map of_char (hex_nat n) @ xs) = read_hex (16 * (a * 16 ^ ?l + n div 16) + n mod 16) xs"
      unfolding h using 1 [OF False, of "of_char (''0123456789abcdef'' ! (n mod 16)) # xs"] d by simp
    also have "16 * (a * 16 ^ ?l + n div 16) + n mod 16 = a * 16 ^ length (hex_nat n) + n"
      using mult_div_mod_eq [of 16 n] by (simp add: h algebra_simps)
    finally show ?thesis .
  qed
qed

lemma hex_digit_CR: "hex_digit (of_char CR) = None"
  by (simp add: hex_digit_def CR_def)

lemma crlf_bytes_eq: "crlf_bytes = [of_char CR, of_char NL]"
  by (simp add: crlf_bytes_def CRLF_def CR_def NL_def)

lemma hex_nat_not_Nil: "hex_nat n \<noteq> []"
  by (subst hex_nat.simps) simp

lemma dechunk_chunk: "dechunk (chunk bs @ xs) = map_option ((#) bs) (dechunk xs)"
proof -
  have "read_hex 0 (chunk bs @ xs) = (length bs, crlf_bytes @ bs @ crlf_bytes @ xs)"
    using read_hex_nat [of 0 "length bs" "crlf_bytes @ bs @ crlf_bytes @ xs"] hex_digit_CR by (simp add: chunk_def crlf_bytes_eq)
  moreover have "chunk bs \<noteq> []" using hex_nat_not_Nil by (simp add: chunk_def)
  moreover have "drop (length bs + 4) (crlf_bytes @ bs @ crlf_bytes @ xs) = xs" by (simp add: crlf_bytes_eq numeral_eq_Suc)
  ultimately show ?thesis by (subst dechunk.simps) (simp add: crlf_bytes_eq)
qed

text \<open>Decoding the chunks gives back what was put into them.\<close>

lemma dechunk_chunks: "dechunk (concat (map chunk bs)) = Some bs"
proof (induction bs)
  case Nil
  then show ?case by (simp add: dechunk.simps)
next
  case (Cons b bs)
  then show ?case by (simp add: dechunk_chunk)
qed

section \<open>A client that keeps up\<close>

text \<open>A client on connection \<open>i\<close>, served by output \<open>ou\<close>, with all it has read so far.\<close>

definition keeps_up :: "nat \<Rightarrow> nat \<Rightarrow> hserver \<Rightarrow> bool" where
  "keeps_up ou i hs \<longleftrightarrow> hs_ok hs \<and>
     (\<exists>hc r hr out sb. hs_heap hs i = Some hc \<and> hc_handler hc = Handler_output \<and> hc_proto hc = HP_HTTP11 \<and> hc_out hc = [] \<and>
        hc_arg hc = Some r \<and> hs_recv hs r = Some hr \<and> hr_hc hr = i \<and> hr_output hr = ou \<and>
        hs_outs hs ou = Some out \<and> o_buffer out = Buf sb \<and> pktbuf HTTP_MAX_TS 0 sb)"

definition http_items :: "nat \<Rightarrow> hserver \<Rightarrow> u8 list list" where
  "http_items ou hs = (case hs_outs hs ou of Some out \<Rightarrow> (case o_buffer out of Buf sb \<Rightarrow> sb_items sb | _ \<Rightarrow> []) | None \<Rightarrow> [])"

text \<open>A packet is sent, and the client reads all there is for it.\<close>

definition http_put :: "string \<Rightarrow> nat \<Rightarrow> nat \<Rightarrow> u8 list \<Rightarrow> hserver \<times> u8 list \<Rightarrow> (hserver \<times> u8 list) option" where
  "http_put date ou i tsp s = do {
     hs \<leftarrow> hevent_step date (Packet ou tsp) (fst s);
     hc \<leftarrow> hs_heap hs i;
     hs \<leftarrow> hevent_step date (Taken i (length (hc_out hc))) hs;
     Some (hs, snd s @ hc_out hc)
   }"

lemma drained:
  assumes "hs_ok hs" "hs_heap hs i = Some hc" "hc_handler hc = Handler_output"
  shows "hevent_step date (Taken i (length (hc_out hc))) hs = Some (put_conn i (hc\<lparr>hc_out := []\<rparr>) hs)"
proof -
  have st: "hc_status hc = HC_STATUS_HEAD" using hs_okD(1) [OF assms(1,2)] assms(3) by (simp add: conn_ok_def)
  show ?thesis
  proof (cases "hc_out hc = []")
    case True
    then have e: "hc\<lparr>hc_out := []\<rparr> = hc" by simp
    show ?thesis unfolding e using True assms(2) put_conn_same [OF assms(2)] by (simp add: hevent_step_def)
  next
    case False
    then show ?thesis using assms st
      by (simp add: hevent_step_def upd_conn_def http_cb_write_def call_url_handler_def output_cb_http_def put_conn_def)
  qed
qed

lemma drained_ok: "hs_ok hs \<Longrightarrow> hs_heap hs i = Some hc \<Longrightarrow> hc_handler hc = Handler_output \<Longrightarrow> hs_ok (put_conn i (hc\<lparr>hc_out := []\<rparr>) hs)"
  by (rule put_conn_ok) (auto simp: conn_ok_def same_role_def dest: hs_okD(1))

lemma keeps_up_put:
  assumes ku: "keeps_up ou i hs" and tsp: "length tsp = TS_PACKET_SIZE"
  shows "\<exists>hs' new. http_put date ou i tsp (hs, got) = Some (hs', got @ new) \<and> keeps_up ou i hs' \<and>
    (if Suc (length (http_items ou hs)) < HTTP_MAX_TS then http_items ou hs' = http_items ou hs @ [tsp] \<and> new = []
     else http_items ou hs' = [] \<and> new = chunk (concat (http_items ou hs @ [tsp])) \<and>
       (\<forall>y \<in> set (http_items ou hs @ [tsp]). length y = TS_PACKET_SIZE))"
proof -
  obtain hc r hr out sb where ok: "hs_ok hs" and hc: "hs_heap hs i = Some hc" "hc_handler hc = Handler_output" "hc_proto hc = HP_HTTP11"
    "hc_out hc = []" "hc_arg hc = Some r" and r: "hs_recv hs r = Some hr" "hr_hc hr = i" "hr_output hr = ou"
    and out: "hs_outs hs ou = Some out" "o_buffer out = Buf sb" and b: "pktbuf HTTP_MAX_TS 0 sb"
    using ku by (auto simp: keeps_up_def)
  obtain sb' where a: "sb_add_atoms sb tsp 1 = Some (sb', 1)" "sb_wf sb'" "sb_items sb' = sb_items sb @ [tsp]"
    "sb_atoms sb' = HTTP_MAX_TS" "sb_atomsize sb' = TS_PACKET_SIZE" "sb_headroom sb' = 0" "sb_fill sb' = sb_fill sb + 1"
    "sb_free_atoms sb' = HTTP_MAX_TS - (sb_fill sb + 1)" and len: "\<forall>y \<in> set (sb_items sb'). length y = TS_PACKET_SIZE"
    by (rule pktbuf_add [OF b tsp])
  have it: "http_items ou hs = sb_items sb" using out by (simp add: http_items_def)
  have rdy: "sb_ready sb'" using a by (simp add: sb_ready_def TS_PACKET_SIZE_def)
  define hs1 where "hs1 = hs\<lparr>hs_outs := (hs_outs hs)(ou \<mapsto> out\<lparr>o_buffer := Buf sb'\<rparr>)\<rparr>"
  have ok1: "hs_ok hs1" unfolding hs1_def by (rule put_buffer_ok [OF ok out(1) rdy])
  have oo: "out_ok (hs_recv hs) ou out" by (rule hs_okD(3) [OF ok out(1)])
  have mem: "r \<in> set (o_http_receiver out)" using hs_okD(2) [OF ok r(1)] r(3) out(1) by (auto simp: recv_ok_def)
  then have rc: "o_receiver out \<noteq> 0" using oo by (auto simp: out_ok_def)
  show ?thesis
  proof (cases "Suc (length (http_items ou hs)) < HTTP_MAX_TS")
    case True
    have "hevent_step date (Packet ou tsp) hs = Some hs1"
      using True it a rc out by (simp add: hevent_step_def output_send_http_def hs1_def)
    moreover have hc1: "hs_heap hs1 i = Some hc" using hc(1) by (simp add: hs1_def)
    moreover have "put_conn i (hc\<lparr>hc_out := []\<rparr>) hs1 = hs1"
    proof -
      have e: "hc\<lparr>hc_out := []\<rparr> = hc" using hc(4) by simp
      show ?thesis unfolding e by (rule put_conn_same [OF hc1])
    qed
    ultimately have "http_put date ou i tsp (hs, got) = Some (hs1, got @ [])"
      using drained [OF ok1 hc1 hc(2)] hc(4) by (simp add: http_put_def)
    moreover have "keeps_up ou i hs1" using ok1 hc r out True it a by (auto simp: keeps_up_def hs1_def pktbuf_def)
    moreover have "http_items ou hs1 = http_items ou hs @ [tsp]" using a(3) it by (simp add: http_items_def hs1_def)
    ultimately show ?thesis using True by auto
  next
    case False
    have f: "sb_fill sb < HTTP_MAX_TS" using b by (simp add: pktbuf_def)
    have blk: "sb_block sb' = concat (sb_items sb')" using sb_block_items [OF a(2)] a(6) by simp
    have "distinct (o_http_receiver out)" "\<forall>r \<in> set (o_http_receiver out). \<exists>hr. hs_recv hs1 r = Some hr \<and> hr_output hr = ou"
      using oo by (auto simp: hs1_def out_ok_def)
    then obtain hs2 where hs2: "send_each ou (o_http_receiver out) hs1 = Some hs2" "hs_ok hs2" "same_buffer hs1 hs2 ou"
      "\<forall>r \<in> set (o_http_receiver out). got_block (sb_block sb') hs1 r hs2"
      using send_each_ok [OF ok1, of "o_http_receiver out" ou "out\<lparr>o_buffer := Buf sb'\<rparr>" sb'] by (auto simp: hs1_def)
    obtain out2 where out2: "hs_outs hs2 ou = Some out2" "o_buffer out2 = Buf sb'" using hs2(3) by (auto simp: same_buffer_def hs1_def)
    let ?hc = "hc\<lparr>hc_out := chunk (sb_block sb')\<rparr>"
    have "got_block (sb_block sb') hs1 r hs2" using hs2(4) mem by blast
    then have h2: "hs_heap hs2 i = Some ?hc" "hs_recv hs2 r = Some (hr\<lparr>hr_overflow := 0\<rparr>)"
      using hc r by (auto simp: got_block_def hs1_def http_get_queue_def http_return_stream_chunk)
    define hs3 where "hs3 = hs2\<lparr>hs_outs := (hs_outs hs2)(ou \<mapsto> out2\<lparr>o_buffer := Buf (sb_zap sb')\<rparr>)\<rparr>"
    have ok3: "hs_ok hs3" unfolding hs3_def by (rule put_buffer_ok [OF hs2(2) out2(1) sb_ready_zap [OF rdy]])
    have h3: "hs_heap hs3 i = Some ?hc" "hc_handler ?hc = Handler_output" using h2 hc(2) by (simp_all add: hs3_def)
    have "hevent_step date (Packet ou tsp) hs = Some hs3"
      using False it a f rc out hs2(1) out2 by (simp add: hevent_step_def output_send_http_def hs3_def flip: hs1_def)
    then have "http_put date ou i tsp (hs, got) = Some (put_conn i (?hc\<lparr>hc_out := []\<rparr>) hs3, got @ chunk (sb_block sb'))"
      using drained [OF ok3 h3] h3(1) by (simp add: http_put_def)
    moreover have "keeps_up ou i (put_conn i (?hc\<lparr>hc_out := []\<rparr>) hs3)"
      using drained_ok [OF ok3 h3] hc h2(2) r out2 pktbuf_zap [OF a(2,4-6)]
      by (auto simp: keeps_up_def hs3_def put_conn_def HTTP_MAX_TS_def)
    moreover have "http_items ou (put_conn i (?hc\<lparr>hc_out := []\<rparr>) hs3) = []" by (simp add: http_items_def hs3_def)
    ultimately show ?thesis using False blk a(3) it len by auto
  qed
qed

definition http_blocks :: "u8 list \<Rightarrow> u8 list list list" where
  "http_blocks got = (case dechunk got of None \<Rightarrow> [] | Some bs \<Rightarrow> map (pkts_of HTTP_MAX_TS) bs)"

definition http_client_ok :: "nat \<Rightarrow> nat \<Rightarrow> hserver \<times> u8 list \<Rightarrow> bool" where
  "http_client_ok ou i s \<longleftrightarrow> keeps_up ou i (fst s) \<and>
     (\<exists>bs. snd s = concat (map chunk bs) \<and> (\<forall>b \<in> set bs. length b = HTTP_MAX_TS * TS_PACKET_SIZE))"

interpretation http: batcher "http_client_ok ou i" "\<lambda>x. length x = TS_PACKET_SIZE" "\<lambda>s. http_items ou (fst s)"
  "\<lambda>s. http_blocks (snd s)" HTTP_MAX_TS "http_put date ou i" for ou i date
proof
  fix s :: "hserver \<times> u8 list" and x :: "u8 list"
  assume ok: "http_client_ok ou i s"
  then have ku: "keeps_up ou i (fst s)" by (simp add: http_client_ok_def)
  then show bound: "length (http_items ou (fst s)) < HTTP_MAX_TS" by (auto simp: keeps_up_def http_items_def pktbuf_def)
  assume x: "length x = TS_PACKET_SIZE"
  obtain bs where bs: "snd s = concat (map chunk bs)" "\<forall>b \<in> set bs. length b = HTTP_MAX_TS * TS_PACKET_SIZE"
    using ok by (auto simp: http_client_ok_def)
  let ?it = "http_items ou (fst s)"
  obtain hs' new where p: "http_put date ou i x s = Some (hs', snd s @ new)" "keeps_up ou i hs'"
    "if Suc (length ?it) < HTTP_MAX_TS then http_items ou hs' = ?it @ [x] \<and> new = []
     else http_items ou hs' = [] \<and> new = chunk (concat (?it @ [x])) \<and> (\<forall>y \<in> set (?it @ [x]). length y = TS_PACKET_SIZE)"
    using keeps_up_put [OF ku x, of date "snd s"] by (cases s) auto
  show "\<exists>s'. http_put date ou i x s = Some s' \<and> http_client_ok ou i s' \<and>
      (if Suc (length ?it) < HTTP_MAX_TS then http_items ou (fst s') = ?it @ [x] \<and> http_blocks (snd s') = http_blocks (snd s)
       else http_items ou (fst s') = [] \<and> http_blocks (snd s') = http_blocks (snd s) @ [?it @ [x]])"
  proof (cases "Suc (length ?it) < HTTP_MAX_TS")
    case True
    then show ?thesis using p bs by (intro exI [of _ "(hs', snd s @ new)"]) (auto simp: http_client_ok_def)
  next
    case False
    let ?b = "concat (?it @ [x])"
    have n: "snd s @ new = concat (map chunk (bs @ [?b]))" using p(3) False bs(1) by simp
    have l: "\<forall>y \<in> set (?it @ [x]). length y = TS_PACKET_SIZE" "length (?it @ [x]) = HTTP_MAX_TS" using p(3) False bound by auto
    then have "length ?b = HTTP_MAX_TS * TS_PACKET_SIZE" using concat_pkts_length [OF l(1)] by simp
    then have c: "http_client_ok ou i (hs', snd s @ new)" using p(2) n bs(2) unfolding http_client_ok_def
      by (intro conjI exI [of _ "bs @ [?b]"]) auto
    have "dechunk (snd s @ new) = Some (bs @ [?b])" unfolding n by (rule dechunk_chunks)
    moreover have "dechunk (snd s) = Some bs" unfolding bs(1) by (rule dechunk_chunks)
    ultimately have "http_blocks (snd s @ new) = http_blocks (snd s) @ [?it @ [x]]"
      using pkts_of_concat [OF l] by (simp add: http_blocks_def)
    then show ?thesis using False p(1,3) c by (intro exI [of _ "(hs', snd s @ new)"]) simp
  qed
qed

text \<open>A client of HTTP/1.1 that reads what is there after every packet gets chunks that decode to blocks of
  106 packets: all packets of the stream in their order from the ones that waited when it came on, none
  lost or doubled, and fewer than 106 still wait.\<close>

fun http_send_all :: "string \<Rightarrow> nat \<Rightarrow> nat \<Rightarrow> u8 list list \<Rightarrow> hserver \<times> u8 list \<Rightarrow> (hserver \<times> u8 list) option" where
  "http_send_all date ou i [] s = Some s"
| "http_send_all date ou i (tsp # tsps) s = do { s \<leftarrow> http_put date ou i tsp s; http_send_all date ou i tsps s }"

lemma http_send_all_put: "http_send_all date ou i ps s = http.put_all date ou i ps s"
proof (induction ps arbitrary: s)
  case (Cons p ps)
  then show ?case by (cases "http_put date ou i p s") simp_all
qed simp

theorem http_stream_received:
  assumes "keeps_up ou i hs" "\<forall>p \<in> set ps. length p = TS_PACKET_SIZE"
  shows "\<exists>hs' got bs. http_send_all date ou i ps (hs, []) = Some (hs', got) \<and> dechunk got = Some (map concat bs) \<and>
    (\<forall>b \<in> set bs. length b = 106) \<and> concat bs @ http_items ou hs' = http_items ou hs @ ps \<and> length (http_items ou hs') < 106"
proof -
  have 106: "HTTP_MAX_TS = 106" by (simp add: HTTP_MAX_TS_def)
  have ok: "http_client_ok ou i (hs, [])" using assms(1) unfolding http_client_ok_def by (intro conjI exI [of _ "[]"]) simp_all
  obtain s' new where r: "http.put_all date ou i ps (hs, []) = Some s'" "http_client_ok ou i s'"
    "http_blocks (snd s') = http_blocks [] @ new" "\<forall>b \<in> set new. length b = HTTP_MAX_TS" "concat new @ http_items ou (fst s') = http_items ou hs @ ps"
    using http.put_all_batches [OF ok assms(2)] by fastforce
  obtain bs where bs: "snd s' = concat (map chunk bs)" "\<forall>b \<in> set bs. length b = HTTP_MAX_TS * TS_PACKET_SIZE"
    using r(2) by (auto simp: http_client_ok_def)
  then have d: "dechunk (snd s') = Some bs" using dechunk_chunks by simp
  then have "new = map (pkts_of HTTP_MAX_TS) bs" using r(3) by (simp add: http_blocks_def dechunk.simps)
  then have "map concat new = bs" using bs(2) concat_pkts_of by (auto intro!: map_idI)
  then show ?thesis using r d http.queued_bound [OF r(2)] 106 by (cases s') (auto simp: http_send_all_put)
qed

section \<open>From the request to the stream\<close>

lemma answered_keeps_up:
  assumes ok: "hs_ok hs" and hc: "hs_heap hs i = Some hc" "hc_handler hc = Handler_404" "hc_status hc = HC_STATUS_HEAD"
    "hc_proto hc' = HP_HTTP11" "hc_out hc' = []" "hc_status hc' = HC_STATUS_HEAD" "hc_handler hc' = Handler_404"
    and u: "hs_urls hs u = Some ou" and out: "hs_outs hs ou = Some out" "o_buffer out = Buf sb" "pktbuf HTTP_MAX_TS 0 sb"
  shows "\<exists>hs1 hc1 hs2. answered date i hc' u hs = Some hs1 \<and> hs_heap hs1 i = Some hc1 \<and>
    hc_out hc1 = map of_char (stream_header date hc') \<and> hevent_step date (Taken i (length (hc_out hc1))) hs1 = Some hs2 \<and>
    keeps_up ou i hs2 \<and> http_items ou hs2 = http_items ou hs"
proof -
  have ok0: "hs_ok (put_conn i hc' hs)"
    by (rule put_conn_ok [OF ok hc(1)]) (use hc in \<open>simp_all add: conn_ok_def same_role_def\<close>)
  have a: "answered date i hc' u (put_conn i hc' hs) = answered date i hc' u hs"
    by (simp add: answered_def put_conn_def split: option.splits)
  obtain hs1 where h1: "answered date i hc' u hs = Some hs1" "hs_ok hs1"
    using answered_ok [OF ok0 _ hc(7,6), of i date u] a by auto
  let ?r = "hs_rnew hs"
  let ?hc1 = "hc'\<lparr>hc_handler := Handler_output, hc_arg := Some ?r, hc_out := map of_char (stream_header date hc'), hc_hdr := []\<rparr>"
  let ?out = "out\<lparr>o_http_receiver := o_http_receiver out @ [?r], o_receiver := o_receiver out + 1\<rparr>"
  have h1': "hs1 = put_conn i ?hc1 (hs\<lparr>hs_rnew := ?r + 1, hs_recv := (hs_recv hs)(?r \<mapsto> \<lparr>hr_hc = i, hr_output = ou, hr_overflow = 0\<rparr>),
       hs_outs := (hs_outs hs)(ou \<mapsto> ?out)\<rparr>)"
    using h1(1) u out(1) hc(5) by (simp add: answered_def Let_def)
  have c: "hs_heap hs1 i = Some ?hc1" "hc_handler ?hc1 = Handler_output" by (simp_all add: h1')
  let ?hs2 = "put_conn i (?hc1\<lparr>hc_out := []\<rparr>) hs1"
  have "keeps_up ou i ?hs2"
    using drained_ok [OF h1(2) c] hc(4) out(2,3) by (auto simp: keeps_up_def h1' put_conn_def)
  moreover have "http_items ou ?hs2 = http_items ou hs" using out by (simp add: http_items_def h1')
  ultimately show ?thesis using h1(1) c(1) drained [OF h1(2) c, of date]
    by (intro exI [of _ hs1] exI [of _ ?hc1] exI [of _ ?hs2]) simp
qed

text \<open>C9: A client of HTTP/1.1 that asks for an output, with its request in any pieces, reads the header and
  then all that is there after every packet, gets the header of a stream and behind it chunks that decode
  to blocks of 106 packets: all packets of the stream in their order from the ones that waited when
  it came on, none lost or doubled, and fewer than 106 still wait.\<close>

theorem http_stream_client:
  assumes ok: "hs_ok hs" and hc: "hs_heap hs i = Some hc" "waits_request hc" "hc_out hc = []"
    and req: "request_ok c u p as" "http_parse_proto p = HP_HTTP11" "concat qs = request_text c u p as" "[] \<notin> set qs"
    and u: "hs_urls hs u = Some ou" and out: "hs_outs hs ou = Some out" "o_buffer out = Buf sb" "pktbuf HTTP_MAX_TS 0 sb"
    and ps: "\<forall>q \<in> set ps. length q = TS_PACKET_SIZE" and date: "length date \<le> 1000"
  shows "\<exists>hs1 hc1 hs2 hs3 got bs. hevents date (map (Data i) qs) hs = Some hs1 \<and> hs_heap hs1 i = Some hc1 \<and>
    hc_out hc1 = map of_char (stream_header date (requested c u p as hc)) \<and>
    hevent_step date (Taken i (length (hc_out hc1))) hs1 = Some hs2 \<and>
    http_send_all date ou i ps (hs2, []) = Some (hs3, got) \<and> dechunk got = Some (map concat bs) \<and>
    (\<forall>b \<in> set bs. length b = 106) \<and> concat bs @ http_items ou hs3 = http_items ou hs @ ps \<and> length (http_items ou hs3) < 106"
proof -
  note w = hc(2) [unfolded waits_request_def]
  have "\<exists>hs1 hc1 hs2. answered date i (requested c u p as hc) u hs = Some hs1 \<and> hs_heap hs1 i = Some hc1 \<and>
      hc_out hc1 = map of_char (stream_header date (requested c u p as hc)) \<and>
      hevent_step date (Taken i (length (hc_out hc1))) hs1 = Some hs2 \<and> keeps_up ou i hs2 \<and> http_items ou hs2 = http_items ou hs"
    by (rule answered_keeps_up [OF ok hc(1) _ _ _ _ _ _ u out]) (use w hc(3) req(2) in \<open>simp_all add: requested_def\<close>)
  then show ?thesis using http_request_served [OF hc(1,2) req(1) date req(3,4)] http_stream_received [OF _ ps] by metis
qed

section \<open>Slow clients\<close>

lemma send_slow:
  assumes "hs_recv hs r = Some hr" "hs_heap hs (hr_hc hr) = Some hc" "HTTP_MAX_QUEUED < http_get_queue hc" "hr_overflow hr + k \<le> HTTP_MAX_OVERFLOW"
  shows "send_each ou (replicate k r) hs = Some (if k = 0 then hs else hs\<lparr>hs_recv := (hs_recv hs)(r \<mapsto> hr\<lparr>hr_overflow := hr_overflow hr + k\<rparr>)\<rparr>)"
  using assms
proof (induction k arbitrary: hs hr)
  case (Suc k)
  let ?hr = "hr\<lparr>hr_overflow := hr_overflow hr + 1\<rparr>"
  let ?hs = "hs\<lparr>hs_recv := (hs_recv hs)(r \<mapsto> ?hr)\<rparr>"
  have "output_send_http_one ou r hs = Some ?hs" using Suc.prems by (simp add: output_send_http_one_def Let_def)
  moreover have "send_each ou (replicate k r) ?hs = Some (if k = 0 then ?hs else ?hs\<lparr>hs_recv := (hs_recv ?hs)(r \<mapsto> ?hr\<lparr>hr_overflow := hr_overflow ?hr + k\<rparr>)\<rparr>)"
    by (rule Suc.IH) (use Suc.prems in simp_all)
  ultimately show ?case by simp
qed simp

lemma send_each_append: "send_each ou (rs @ rs') hs = Option.bind (send_each ou rs hs) (send_each ou rs')"
  by (induction rs arbitrary: hs) (auto split: Option.bind_splits)

text \<open>A client whose queue stays longer than 200 kB gets nothing for 20 blocks and is disconnected by the
  next one.\<close>

theorem http_slow_client_dropped:
  assumes ok: "hs_ok hs" and r: "hs_recv hs r = Some hr" "hr_output hr = ou" "hr_overflow hr = 0"
    and hc: "hs_heap hs (hr_hc hr) = Some hc" "HTTP_MAX_QUEUED < http_get_queue hc"
  shows "\<exists>hs20 hs21. send_each ou (replicate 20 r) hs = Some hs20 \<and> hs_heap hs20 = hs_heap hs \<and> hs_conn hs20 = hs_conn hs \<and>
    output_send_http_one ou r hs20 = Some hs21 \<and> hs_heap hs21 (hr_hc hr) = None \<and> hs_recv hs21 r = None \<and> hs_ok hs21"
proof -
  let ?hs = "hs\<lparr>hs_recv := (hs_recv hs)(r \<mapsto> hr\<lparr>hr_overflow := 20\<rparr>)\<rparr>"
  have 20: "send_each ou (replicate 20 r) hs = Some ?hs"
    using send_slow [OF r(1) hc, of 20] r(3) by (simp add: HTTP_MAX_OVERFLOW_def)
  let ?hs' = "hs\<lparr>hs_recv := (hs_recv hs)(r \<mapsto> hr\<lparr>hr_overflow := 21\<rparr>)\<rparr>"
  have "output_send_http_one ou r ?hs = output_remove_receiver r ?hs'"
    using hc by (simp add: output_send_http_one_def Let_def HTTP_MAX_OVERFLOW_def)
  moreover have "hs_ok ?hs'" by (rule put_recv_ok [OF ok r(1)]) simp_all
  then have "\<exists>hs'. output_remove_receiver r ?hs' = Some hs' \<and> hs_ok hs' \<and> hs_heap hs' (hr_hc hr) = None \<and> hs_recv hs' r = None"
    using remove_receiver_ok [of ?hs' r "hr\<lparr>hr_overflow := 21\<rparr>"] by auto
  ultimately show ?thesis using 20 by auto
qed

section \<open>Impolite clients\<close>

text \<open>C40: An empty line behind the request asks the output again.  It makes a second receiver for the same
  connection, and when the connection is lost only this one is removed: the first stays in the list of
  the output with a connection that has been freed, and the next block is a fault.\<close>

theorem http_second_query_dangling:
  assumes ok: "hs_ok hs" and hc: "hs_heap hs i = Some hc" "waits_request hc" and req: "request_ok c u p as" "length date \<le> 1000"
    and u: "hs_urls hs u = Some ou"
  shows "\<exists>hs' out r. hevents date [Data i (request_text c u p as @ CRLF), Lost i] hs = Some hs' \<and> hs_heap hs' i = None \<and>
    hs_outs hs' ou = Some out \<and> r \<in> set (o_http_receiver out) \<and> output_send_http_one ou r hs' = None"
proof -
  note w = hc(2) [unfolded waits_request_def]
  let ?ls = "(c @ '' '' @ u @ '' '' @ p) # map attrib_line as" and ?rc = "requested c u p as hc"
  have fold: "head_fold ?ls hc = Some ?rc" using request_fold req(1) w by blast
  obtain out where out: "hs_outs hs ou = Some out" using hs_okD(4) [OF ok u] by blast
  let ?r = "hs_rnew hs"
  define hs0 where "hs0 = put_conn i (?rc\<lparr>hc_in := CRLF @ CRLF\<rparr>) hs"
  have url: "hs_heap hs0 i = Some (?rc\<lparr>hc_in := CRLF @ CRLF\<rparr>)" "hc_url (?rc\<lparr>hc_in := CRLF @ CRLF\<rparr>) = Some u" "hs_urls hs0 u = Some ou"
    using u by (simp_all add: hs0_def requested_def)
  obtain hs1 hc1 where h1: "http_process_query date i hs0 = Some hs1" "hs_heap hs1 i = Some hc1" "hc_url hc1 = Some u" "hs_urls hs1 = hs_urls hs"
    "hs_rnew hs1 = ?r + 1" "hs_recv hs1 ?r = Some \<lparr>hr_hc = i, hr_output = ou, hr_overflow = 0\<rparr>"
    "hs_outs hs1 ou = Some (out\<lparr>o_http_receiver := o_http_receiver out @ [?r], o_receiver := o_receiver out + 1\<rparr>)"
    using process_query_registered [OF url req(2)] url out u
    by (auto simp: answered_def hs0_def Let_def put_conn_def)
  define hs1' where "hs1' = put_in i CRLF hs1"
  have h1': "hs_heap hs1' i = Some (hc1\<lparr>hc_in := CRLF\<rparr>)" "hc_url (hc1\<lparr>hc_in := CRLF\<rparr>) = Some u" "hs_urls hs1' u = Some ou"
    using h1 u by (simp_all add: hs1'_def)
  obtain hs2 hc2 where h2: "http_process_query date i hs1' = Some hs2" "hs_heap hs2 i = Some hc2" "hc_handler hc2 = Handler_output"
    "hc_arg hc2 = Some (?r + 1)" "hs_recv hs2 ?r = Some \<lparr>hr_hc = i, hr_output = ou, hr_overflow = 0\<rparr>"
    "hs_recv hs2 (?r + 1) = Some \<lparr>hr_hc = i, hr_output = ou, hr_overflow = 0\<rparr>"
    "hs_outs hs2 ou = Some (out\<lparr>o_http_receiver := (o_http_receiver out @ [?r]) @ [?r + 1], o_receiver := o_receiver out + 1 + 1\<rparr>)"
    using process_query_registered [OF h1' req(2)] h1' h1 u
    by (auto simp: answered_def hs1'_def Let_def put_conn_def)
  have "hevent_step date (Data i (request_text c u p as @ CRLF)) hs = Some (put_in i [] hs2)"
  proof -
    have t: "request_text c u p as @ CRLF = lines_text ?ls @ CRLF @ CRLF" by (simp add: request_text_def)
    have e: "hc_in hc = []" "hc_status hc = HC_STATUS_HEAD" using w by simp_all
    have "read_head date i (lines_text ?ls @ CRLF @ CRLF) (put_in i (lines_text ?ls @ CRLF @ CRLF) hs) = Some (True, put_in i [] hs2)"
      unfolding read_head_lines [OF hc(1) fold] hs0_def [symmetric]
      using read_head_empty [of hs0 i _ u date CRLF] url h1(1) read_head_empty [of hs1' i _ u date "[]"] h1' h2(1) by (simp add: hs1'_def)
    then show ?thesis unfolding data_step [OF hc(1) e(2)] t e(1) append_Nil by simp
  qed
  moreover have "hevent_step date (Lost i) (put_in i [] hs2) = output_remove_receiver (?r + 1) (put_in i [] hs2)"
    using h2 by (simp add: hevent_step_def http_cb_error_def call_url_handler_def output_cb_http_def)
  moreover have "?r + 1 \<notin> set (o_http_receiver out @ [?r])"
    using hs_okD(3) [OF ok out] hs_okD(8) [OF ok] by (fastforce simp: out_ok_def)
  then have "remove1 (?r + 1) ((o_http_receiver out @ [?r]) @ [?r + 1]) = o_http_receiver out @ [?r]"
    by (subst remove1_append) simp
  then have "\<exists>hs' out'. output_remove_receiver (?r + 1) (put_in i [] hs2) = Some hs' \<and> hs_heap hs' i = None \<and> hs_outs hs' ou = Some out' \<and>
      o_http_receiver out' = o_http_receiver out @ [?r] \<and> hs_recv hs' ?r = Some \<lparr>hr_hc = i, hr_output = ou, hr_overflow = 0\<rparr>"
    using h2(2,5-7) by (simp add: output_remove_receiver_def http_drop_connection_def Let_def del: append_assoc)
  ultimately obtain hs' out' where e: "hevents date [Data i (request_text c u p as @ CRLF), Lost i] hs = Some hs'"
    "hs_heap hs' i = None" "hs_outs hs' ou = Some out'" "o_http_receiver out' = o_http_receiver out @ [?r]"
    "hs_recv hs' ?r = Some \<lparr>hr_hc = i, hr_output = ou, hr_overflow = 0\<rparr>" by auto
  then have "output_send_http_one ou ?r hs' = None" by (simp add: output_send_http_one_def)
  then show ?thesis using e by (intro exI [of _ hs'] exI [of _ out'] exI [of _ ?r]) simp
qed

text \<open>A connection of HTTP/1.1 that is lost while it waits for a request stays open: its descriptor is not
  closed and it stays in the list of the server.\<close>

theorem http_lost_stays:
  assumes "hs_heap hs i = Some hc" "hc_handler hc = Handler_404" "hc_keepalive hc"
  shows "\<exists>hs'. hevent_step date (Lost i) hs = Some hs' \<and> hs_heap hs' i \<noteq> None \<and> hs_conn hs' = hs_conn hs \<and> hs_closed hs' = hs_closed hs"
  using assms
  by (simp add: hevent_step_def http_cb_error_def call_url_handler_def http_url_handler_404_def http_request_end_def upd_conn_def)

section \<open>Start\<close>

lemma http_init_ok:
  assumes "http_init port fd bnd lst outs = Some hs" "\<And>ou out. outs ou = Some out \<Longrightarrow> o_http_receiver out = [] \<and> o_receiver out = 0"
  shows "hs_ok hs"
  using assms by (auto simp: http_init_def hs_ok_def out_ok_def split: if_splits)

lemma output_init_http_ok:
  assumes ok: "hs_ok hs" and out: "hs_outs hs ou = Some out" "o_http_receiver out = []"
  shows "\<exists>hs'. output_init_http junk ou (Some hs) = Some hs' \<and> hs_ok hs' \<and> hs_urls hs' (o_url out) = Some ou"
proof -
  let ?sb = "sb_init junk HTTP_MAX_TS 188 0"
  let ?hs = "hs\<lparr>hs_outs := (hs_outs hs)(ou \<mapsto> out\<lparr>o_buffer := Buf ?sb\<rparr>)\<rparr>"
  have sb: "sb_ready ?sb" by (simp add: sb_ready_def sb_init_wf) (simp add: sb_init_def Let_def)
  have ok1: "hs_ok ?hs" by (rule put_buffer_ok [OF ok out(1) sb])
  have "hs_ok (http_register_url (o_url out) ou ?hs)"
  proof (rule hs_okI)
    show "\<exists>x. hs_outs (http_register_url (o_url out) ou ?hs) o' = Some x \<and> buffered x"
      if "hs_urls (http_register_url (o_url out) ou ?hs) v = Some o'" for v o'
      using hs_okD(4) [OF ok1, of v o'] that sb by (auto simp: http_register_url_def buffered_def split: if_splits)
  qed (use hs_okD [OF ok1] in \<open>simp_all add: http_register_url_def\<close>)
  then show ?thesis using out(1) by (simp add: output_init_http_def http_register_url_def)
qed

definition example_http_out :: houtp where
  "example_http_out =
     \<lparr>o_type = OTYPE_HTTP, o_buffer = Buf_null, o_remoteaddr = None, o_remoteport = 0, o_ttl = 0, o_localaddr = None, o_sap = None,
      o_receiver = 0, o_sockfd = 0, o_rtpreceiver = [], o_rtpseq = 0, o_rtpssrc = 0, o_rtpport = 0, o_pipe_filename = [],
      o_pipe_fd = -1, o_pipe_event = None, o_klkstat = False, o_url = ''/tv'', o_http_receiver = []\<rparr>"

text \<open>A server with one output and one client that has just connected.\<close>

definition example_server :: hserver where
  "example_server =
     http_connect 7
       (http_register_url ''/tv'' 0
         \<lparr>hs_port = 80, hs_fd = 3, hs_cid = 0, hs_conn = [], hs_urls = Map.empty, hs_heap = Map.empty, hs_rnew = 0, hs_recv = Map.empty,
          hs_outs = [0 \<mapsto> example_http_out\<lparr>o_buffer := Buf (sb_init [] HTTP_MAX_TS 188 0)\<rparr>], hs_closed = []\<rparr>)"

lemma example_server_ok: "hs_ok example_server"
proof -
  obtain hs where hs: "http_init 80 3 0 0 [0 \<mapsto> example_http_out] = Some hs" by (simp add: http_init_def)
  have "hs_ok hs" by (rule http_init_ok [OF hs]) (auto simp: example_http_out_def split: if_splits)
  moreover have "hs_outs hs 0 = Some example_http_out" using hs by (auto simp: http_init_def)
  ultimately obtain hs' where "output_init_http [] 0 (Some hs) = Some hs'" "hs_ok hs'"
    using output_init_http_ok by (fastforce simp: example_http_out_def)
  moreover have "example_server = http_connect 7 hs'"
    using calculation(1) hs by (auto simp: example_server_def output_init_http_def http_init_def example_http_out_def)
  ultimately show ?thesis by (metis connect_ok)
qed

lemma example_server_conn: "hs_heap example_server 0 = Some (conn_new 7)" "waits_request (conn_new 7)"
  "hs_urls example_server ''/tv'' = Some 0" "hs_urls example_server ''/x'' = None"
  by (simp_all add: example_server_def http_connect_def http_register_url_def waits_request_def conn_new_def)

lemma example_request: "request_ok ''GET'' ''/tv'' ''HTTP/1.1'' [(''Host'', ''tv'')]"
  by code_simp

theorem http_second_query_dangling_witness:
  "\<exists>hs' out r. hevents ''now'' [Data 0 (request_text ''GET'' ''/tv'' ''HTTP/1.1'' [(''Host'', ''tv'')] @ CRLF), Lost 0] example_server = Some hs' \<and>
     hs_heap hs' 0 = None \<and> hs_outs hs' 0 = Some out \<and> r \<in> set (o_http_receiver out) \<and> output_send_http_one 0 r hs' = None"
  by (rule http_second_query_dangling [OF example_server_ok example_server_conn(1,2) example_request _ example_server_conn(3)]) simp

lemma example_requested: "hs_heap example_server 0 = Some (conn_new 7)" "hc_out (conn_new 7) = []"
  "hs_outs example_server 0 = Some (example_http_out\<lparr>o_buffer := Buf (sb_init [] HTTP_MAX_TS 188 0)\<rparr>)"
  "http_parse_proto ''HTTP/1.1'' = HP_HTTP11" "http_items 0 example_server = []"
  by (simp_all add: example_server_def http_connect_def http_register_url_def conn_new_def http_items_def sb_init_wf) code_simp

theorem http_stream_client_witness:
  "\<exists>hs1 hc1 hs2 hs3 got bs.
    hevents ''now'' [Data 0 ''GET /t'', Data 0 (drop 6 (request_text ''GET'' ''/tv'' ''HTTP/1.1'' []))] example_server = Some hs1 \<and>
    hs_heap hs1 0 = Some hc1 \<and> hevent_step ''now'' (Taken 0 (length (hc_out hc1))) hs1 = Some hs2 \<and>
    http_send_all ''now'' 0 0 (replicate 250 (replicate 188 0x47)) (hs2, []) = Some (hs3, got) \<and> dechunk got = Some (map concat bs) \<and>
    concat bs @ http_items 0 hs3 = replicate 250 (replicate 188 0x47)"
proof -
  let ?qs = "[''GET /t'', drop 6 (request_text ''GET'' ''/tv'' ''HTTP/1.1'' [])]" and ?ps = "replicate 250 (replicate 188 (0x47 :: u8))"
  have q: "concat ?qs = request_text ''GET'' ''/tv'' ''HTTP/1.1'' []" "[] \<notin> set ?qs" by (simp_all add: request_text_def)
  have r: "request_ok ''GET'' ''/tv'' ''HTTP/1.1'' []" by code_simp
  have ps: "\<forall>q \<in> set ?ps. length q = TS_PACKET_SIZE" by (simp only: length_replicate TS_PACKET_SIZE_def set_replicate_conv_if ball_simps) simp
  have b: "pktbuf HTTP_MAX_TS 0 (sb_init [] HTTP_MAX_TS 188 0)" using pktbuf_init [of HTTP_MAX_TS 0 "[]"] by (simp add: HTTP_MAX_TS_def TS_PACKET_SIZE_def)
  have m: "map (Data 0) ?qs = [Data 0 ''GET /t'', Data 0 (drop 6 (request_text ''GET'' ''/tv'' ''HTTP/1.1'' []))]" by (simp only: list.map)
  note run = http_stream_client [OF example_server_ok example_server_conn(1,2) example_requested(2) r example_requested(4) q
        example_server_conn(3) example_requested(3) _ b ps, of "''now''", unfolded m example_requested(5) append_Nil]
  have "o_buffer (example_http_out\<lparr>o_buffer := Buf (sb_init [] HTTP_MAX_TS 188 0)\<rparr>) = Buf (sb_init [] HTTP_MAX_TS 188 0)" "length ''now'' \<le> 1000"
    by simp_all
  from run [OF this] show ?thesis by blast
qed

text \<open>The client of the example and its politeness.\<close>

theorem http_polite_safe_witness:
  "\<exists>hs'. hevents ''now'' [Accept 9, Data 1 ''GET /x HTTP/1.0'', Lost 0] example_server = Some hs' \<and> hs_ok hs'"
proof -
  have "take_line ''GET /x HTTP/1.0'' = None" by (simp add: take_line_None NL_def)
  then have "polite_run ''now'' [Accept 9, Data 1 ''GET /x HTTP/1.0'', Lost 0] example_server"
    by (simp add: polite_event_def hevent_step_def http_connect_def conn_new_def example_server_def http_register_url_def ends_once.simps
        split: option.splits)
  from http_polite_safe [OF example_server_ok this] show ?thesis by simp
qed

text \<open>A client of HTTP/1.1 that asks for an unknown address, sends the beginning of the next request before
  it has read the answer, and then the rest of it, of HTTP/1.0: when the kernel has taken the answer,
  the callback calls the handler for unknown addresses, which frees the connection, and then looks at
  the state of the connection.\<close>

lemma taken_frees:
  assumes "hs_heap hs i = Some hc" "hc_handler hc = Handler_404" "hc_status hc = HC_STATUS_HEAD" "\<not> hc_keepalive hc"
    "hc_out hc \<noteq> []" "length (hc_out hc) \<le> n"
  shows "hevent_step date (Taken i n) hs = None"
  using assms
  by (simp add: hevent_step_def upd_conn_def http_cb_write_def call_url_handler_def http_url_handler_404_def http_request_end_def
      http_drop_connection_def)

theorem http_write_after_free:
  "hevents ''now'' [Data 0 (request_text ''GET'' ''/x'' ''HTTP/1.1'' []), Data 0 ''G'', Data 0 (''ET /y HTTP/1.0'' @ CRLF), Taken 0 1000] example_server = None"
proof -
  have r: "request_ok ''GET'' ''/x'' ''HTTP/1.1'' []" by code_simp
  let ?rc = "requested ''GET'' ''/x'' ''HTTP/1.1'' [] (conn_new 7)"
  let ?out = "map of_char (page_404 ''now'' ?rc) :: u8 list"
  let ?c1 = "?rc\<lparr>hc_status := HC_STATUS_END, hc_out := ?out, hc_hdr := []\<rparr>"
  have rc: "hc_handler ?rc = Handler_404" "hc_keepalive ?rc" "hc_arg ?rc = None" "hc_in ?rc = []" "hc_out ?rc = []" "hc_hdr ?rc = []"
    using example_requested(4) by (simp_all add: requested_def conn_new_def)
  have "hevents ''now'' (map (Data 0) [request_text ''GET'' ''/x'' ''HTTP/1.1'' []]) example_server = answered ''now'' 0 ?rc ''/x'' example_server"
    by (rule http_request_served [OF example_server_conn(1,2) r]) (simp_all add: request_text_def)
  then have s1: "hevent_step ''now'' (Data 0 (request_text ''GET'' ''/x'' ''HTTP/1.1'' [])) example_server = Some (put_conn 0 ?c1 example_server)"
    using example_server_conn(4) rc by (simp add: answered_def bind_eq_Some_conv)
  let ?c2 = "(http_request_free (?c1\<lparr>hc_in := ''G''\<rparr>))\<lparr>hc_status := HC_STATUS_HEAD, hc_handler := Handler_404, hc_hdr := []\<rparr>"
  have s2: "hevent_step ''now'' (Data 0 ''G'') (put_conn 0 ?c1 example_server) = Some (put_conn 0 ?c2 example_server)"
    using rc by (simp add: hevent_step_def upd_conn_def http_cb_read_def call_url_handler_def http_url_handler_404_def http_request_end_def put_conn_def)
  let ?l = "''GET /y HTTP/1.0''"
  have l: "split_string_by_space (c_str ?l) 10 = [''GET'', ''/y'', ''HTTP/1.0'']" "http_get_cmd ''GET'' = HC_CMD_GET"
    "http_parse_proto ''HTTP/1.0'' = HP_HTTP10" "NL \<notin> set ?l" by code_simp+
  let ?c3 = "?c2\<lparr>hc_cmd := HC_CMD_GET, hc_url := Some ''/y'', hc_proto := HP_HTTP10, hc_keepalive := False\<rparr>"
  have fold: "head_fold [?l] ?c2 = Some ?c3"
    using l by (simp add: head_conn_def http_request_free_def http_parse_command_url_def)
  have t: "hc_in ?c2 @ (''ET /y HTTP/1.0'' @ CRLF) = lines_text [?l] @ []" by (simp add: http_request_free_def)
  have c2: "hs_heap (put_conn 0 ?c2 example_server) 0 = Some ?c2" "hc_status ?c2 = HC_STATUS_HEAD" by simp_all
  have s3: "hevent_step ''now'' (Data 0 (''ET /y HTTP/1.0'' @ CRLF)) (put_conn 0 ?c2 example_server) =
      Some (put_conn 0 (?c3\<lparr>hc_in := []\<rparr>) (put_conn 0 ?c2 example_server))"
    unfolding data_step [OF c2] t read_head_lines [OF c2(1) fold] by simp
  have "?out \<noteq> [] \<and> length ?out \<le> 1000"
    by (simp add: page_404_def length_404 dec_145 CRLF_def)
  then have s4: "hevent_step ''now'' (Taken 0 1000) (put_conn 0 (?c3\<lparr>hc_in := []\<rparr>) (put_conn 0 ?c2 example_server)) = None"
    by (intro taken_frees [of _ _ "?c3\<lparr>hc_in := []\<rparr>"]) (simp_all add: http_request_free_def)
  show ?thesis using s1 s2 s3 s4 by (simp only: hevents.simps Option.bind.simps)
qed

end
