(* ===== verification/Utils.thy ===== *)
theory Utils
  imports Cstring
begin

text \<open>
  The functions on strings of \<^verbatim>\<open>src/common/utils.cpp\<close>: replacing, splitting and joining, the lines of a
  file of settings, times and sizes, names of files, and the number of characters of a text in UTF-8.
  The bytes of a text are characters; a \<^verbatim>\<open>char\<close> has a sign.
\<close>

section \<open>Searching and replacing\<close>

text \<open>\<^verbatim>\<open>std::string::find\<close>.\<close>

fun find_at :: "string \<Rightarrow> string \<Rightarrow> nat option" where
  "find_at w [] = (if w = [] then Some 0 else None)"
| "find_at w (c # s) = (if prefix w (c # s) then Some 0 else map_option Suc (find_at w s))"

definition find_from :: "string \<Rightarrow> nat \<Rightarrow> string \<Rightarrow> nat option" where
  "find_from w pos s = (if pos \<le> length s then map_option ((+) pos) (find_at w (drop pos s)) else None)"

text \<open>The loop may not end; this is the result \<open>None\<close>.\<close>

partial_function (option) replace_loop :: "string \<Rightarrow> string \<Rightarrow> string \<Rightarrow> nat \<Rightarrow> string option" where
  "replace_loop w r s pos =
     (case find_from w pos s of
        None \<Rightarrow> Some s
      | Some p \<Rightarrow> replace_loop w r (take p s @ r @ drop (p + length w) s) (p + 1))"

declare replace_loop.simps [code]

definition replaceAll :: "string \<Rightarrow> string \<Rightarrow> string \<Rightarrow> string option" where
  "replaceAll initial replaceWhat replaceWithWhat = replace_loop replaceWhat replaceWithWhat initial 0"

text \<open>Replacing every occurrence from the left, without looking at what was put in.\<close>

lemma find_at_SomeD: "find_at w s = Some p \<Longrightarrow> p + length w \<le> length s \<and> take (length w) (drop p s) = w"
proof (induction w s arbitrary: p rule: find_at.induct)
  case (2 w c s)
  show ?case
  proof (cases "prefix w (c # s)")
    case True
    then obtain u where "c # s = w @ u" by (auto simp: prefix_def)
    then show ?thesis using 2(2) True by (metis (no_types, lifting) append_eq_conv_conj drop0 find_at.simps(2) length_append le_add1 option.sel plus_nat.add_0)
  next
    case False
    then show ?thesis using 2 by auto
  qed
qed (auto split: if_splits)

function replaced :: "string \<Rightarrow> string \<Rightarrow> string \<Rightarrow> string" where
  "replaced w r s =
     (if w = [] then s
      else case find_at w s of None \<Rightarrow> s | Some p \<Rightarrow> take p s @ r @ replaced w r (drop (p + length w) s))"
  by pat_completeness auto
termination
proof (relation "measure (\<lambda>(w, r, s). length s)")
  fix w r s p
  assume w: "w \<noteq> []" "find_at w s = Some p"
  then have "0 < length w" by simp
  then show "((w, r, drop (p + length w) s), w, r, s) \<in> measure (\<lambda>(w, r, s). length s)"
    using conjunct1 [OF find_at_SomeD [OF w(2)]] by (auto simp del: length_greater_0_conv)
qed simp

declare replaced.simps [simp del]

text \<open>No occurrence of a text begins inside of the other, behind its first character.\<close>

definition apart :: "string \<Rightarrow> string \<Rightarrow> bool" where
  "apart w r \<longleftrightarrow> (\<forall>k \<in> {1..<length r}. \<not> prefix (drop k r) w \<and> \<not> prefix w (drop k r))"

lemma find_at_skip:
  "(\<And>k. k < length u \<Longrightarrow> \<not> prefix (drop k u) w \<and> \<not> prefix w (drop k u)) \<Longrightarrow>
   find_at w (u @ v) = map_option ((+) (length u)) (find_at w v)"
proof (induction u)
  case (Cons c u)
  have "\<not> prefix w (c # u @ v)" using Cons.prems [of 0] by (metis append_Cons drop0 length_Cons prefixI prefix_same_cases zero_less_Suc)
  moreover have "find_at w (u @ v) = map_option ((+) (length u)) (find_at w v)"
    by (rule Cons.IH) (use Cons.prems [of "Suc k" for k] in auto)
  ultimately show ?case by (cases "find_at w v") auto
qed (cases "find_at w v"; simp)

lemma find_from_append: "find_from w (length a) (a @ s) = map_option ((+) (length a)) (find_at w s)"
  by (simp add: find_from_def)

lemma replace_loop_cong:
  "find_from w pos s = find_from w pos' s \<Longrightarrow> replace_loop w r s pos = replace_loop w r s pos'"
  by (simp add: replace_loop.simps [of w r s])

lemma replace_loop_replaced:
  "w \<noteq> [] \<Longrightarrow> r \<noteq> [] \<Longrightarrow> apart w r \<Longrightarrow> replace_loop w r (a @ s) (length a) = Some (a @ replaced w r s)"
proof (induction w r s arbitrary: a rule: replaced.induct)
  case (1 w r s)
  show ?case
  proof (cases "find_at w s")
    case None
    then show ?thesis using 1(2) by (simp add: replace_loop.simps [of w r "a @ s"] replaced.simps [of w r s] find_from_def)
  next
    case (Some p)
    let ?t = "drop (p + length w) s" and ?b = "a @ take p s"
    have p: "p + length w \<le> length s" using find_at_SomeD [OF Some] by simp
    obtain c r' where r: "r = c # r'" using 1(3) by (cases r) auto
    have skip: "find_at w (r' @ ?t) = map_option ((+) (length r')) (find_at w ?t)"
      by (rule find_at_skip) (use 1(4) r in \<open>fastforce simp: apart_def dest: bspec [of _ _ "Suc k" for k]\<close>)
    have "replace_loop w r (a @ s) (length a) = replace_loop w r (?b @ r @ ?t) (length a + p + 1)"
      using Some p by (simp add: replace_loop.simps [of w r "a @ s"] find_from_def)
    also have "\<dots> = replace_loop w r (?b @ r @ ?t) (length (?b @ r))"
    proof (rule replace_loop_cong)
      have "find_from w (length a + p + 1) (?b @ r @ ?t) = find_from w (length (?b @ [c])) ((?b @ [c]) @ r' @ ?t)"
        using p by (simp add: r)
      also have "\<dots> = find_from w (length (?b @ r)) ((?b @ r) @ ?t)"
        unfolding find_from_append skip by (cases "find_at w ?t") (simp_all add: r)
      finally show "find_from w (length a + p + 1) (?b @ r @ ?t) = find_from w (length (?b @ r)) (?b @ r @ ?t)" by simp
    qed
    also have "\<dots> = Some ((?b @ r) @ replaced w r ?t)"
      using 1(1) [OF 1(2) Some 1(2-4), of "?b @ r"] by simp
    finally show ?thesis using 1(2) Some by (simp add: replaced.simps [of w r s])
  qed
qed

text \<open>A text is replaced everywhere, from the left, if what is put in is not empty and no occurrence of
  the text can begin inside of it, in particular if it is one character.\<close>

theorem replaceAll_replaced:
  assumes "w \<noteq> []" "r \<noteq> []" "apart w r"
  shows "replaceAll s w r = Some (replaced w r s)"
  using replace_loop_replaced [OF assms, of "[]" s] by (simp add: replaceAll_def)

theorem replaceAll_replaced_witness: "replaceAll ''a, b, c'' '', '' ''|'' = Some ''a|b|c''"
proof -
  have "replaced '', '' ''|'' ''a, b, c'' = ''a|b|c''" by code_simp
  then show ?thesis using replaceAll_replaced [of "'', ''" "''|''" "''a, b, c''"] by (simp add: apart_def)
qed

text \<open>The loop does not end if the text occurs in what is put in, behind its first character.\<close>

lemma find_at_append: "find_at w (u @ w @ v) \<noteq> None"
proof (induction u)
  case Nil
  have "prefix w (w @ v)" by simp
  then show ?case by (cases "w @ v") (simp_all del: prefix_code)
qed auto

lemma replace_loop_diverges:
  assumes "replace_loop w r s pos = Some t"
  shows "r = c # u @ w @ v \<longrightarrow> find_from w pos s = None"
proof (rule replace_loop.raw_induct [where P = "\<lambda>w r s pos t. r = c # u @ w @ v \<longrightarrow> find_from w pos s = None", OF _ assms])
  fix loop w r s pos t
  assume 1: "\<And>w r s pos t. loop w r s pos = Some t \<Longrightarrow> r = c # u @ w @ v \<longrightarrow> find_from w pos s = None"
    "(case find_from w pos s of None \<Rightarrow> Some s | Some p \<Rightarrow> loop w r (take p s @ r @ drop (p + length w) s) (p + 1)) = Some t"
  show "r = c # u @ w @ v \<longrightarrow> find_from w pos s = None"
  proof (rule impI, rule ccontr)
    assume r: "r = c # u @ w @ v" and f: "find_from w pos s \<noteq> None"
    then obtain p where p: "find_from w pos s = Some p" by auto
    let ?t = "drop (p + length w) s"
    have "loop w r (take p s @ r @ ?t) (p + 1) = Some t" using 1(2) p by simp
    from 1(1) [OF this] have "find_from w (p + 1) (take p s @ r @ ?t) = None" using r by simp
    moreover obtain q where "find_at w (drop pos s) = Some q" "p = pos + q" "pos \<le> length s"
      using p by (auto simp: find_from_def split: if_splits)
    then have "length (take p s @ [c]) = p + 1" using find_at_SomeD by fastforce
    then have "find_from w (p + 1) (take p s @ r @ ?t) = map_option ((+) (p + 1)) (find_at w (u @ w @ (v @ ?t)))"
      using find_from_append [of w "take p s @ [c]" "u @ w @ v @ ?t"] by (simp add: r)
    ultimately show False using find_at_append by simp
  qed
qed

text \<open>Replacing a text by one that has it behind its first character never ends, unless there is
  nothing to replace.\<close>

theorem replaceAll_diverges:
  "replaceAll s w (c # u @ w @ v) = (if find_at w s = None then Some s else None)"
proof (cases "find_at w s")
  case None
  then show ?thesis by (simp add: replaceAll_def replace_loop.simps [of w _ s] find_from_def)
next
  case (Some p)
  then have "find_from w 0 s \<noteq> None" by (simp add: find_from_def)
  then show ?thesis using replace_loop_diverges [of w "c # u @ w @ v" s 0] Some
    by (cases "replace_loop w (c # u @ w @ v) s 0") (auto simp: replaceAll_def)
qed

text \<open>Occurrences are missed if nothing is put in.\<close>

theorem replaceAll_removal_misses: "replaceAll ''aa'' ''a'' [] = Some ''a''"
  by code_simp

section \<open>Splitting and joining\<close>

text \<open>\<^verbatim>\<open>boost::split\<close>: the parts between the separators, which may be empty.\<close>

fun split_parts :: "string \<Rightarrow> string \<Rightarrow> string list" where
  "split_parts del [] = [[]]"
| "split_parts del (c # s) = (if c \<in> set del then [] # split_parts del s
     else case split_parts del s of [] \<Rightarrow> [[c]] | p # ps \<Rightarrow> (c # p) # ps)"

definition split_data :: "string \<Rightarrow> string \<Rightarrow> string list" where
  "split_data data del = filter (\<lambda>p. p \<noteq> []) (split_parts del data)"

text \<open>\<^verbatim>\<open>std::accumulate\<close> with \<^verbatim>\<open>StringListAccumulator\<close>.\<close>

definition accumulator :: "string \<Rightarrow> string \<Rightarrow> string \<Rightarrow> string" where
  "accumulator sep initial element = (if initial = [] then element else initial @ sep @ element)"

definition convert2String :: "string list \<Rightarrow> string \<Rightarrow> string" where
  "convert2String ps sep = foldl (accumulator sep) [] ps"

lemma split_parts_not_Nil [simp]: "split_parts del s \<noteq> []"
  by (cases s) (auto split: list.split)

lemma split_parts_part: "set p \<inter> set del = {} \<Longrightarrow> split_parts del p = [p]"
  by (induction p) auto

lemma split_parts_append:
  "set p \<inter> set del = {} \<Longrightarrow> d \<in> set del \<Longrightarrow> split_parts del (p @ d # s) = p # split_parts del s"
  by (induction p) auto

lemma split_data_part: "set p \<inter> set del = {} \<Longrightarrow> p \<noteq> [] \<Longrightarrow> split_data p del = [p]"
  by (simp add: split_data_def split_parts_part)

lemma split_data_seps: "set sep \<subseteq> set del \<Longrightarrow> split_data (sep @ s) del = split_data s del"
  by (induction sep) (auto simp: split_data_def)

lemma split_data_append:
  assumes "set p \<inter> set del = {}" "p \<noteq> []" "sep \<noteq> []" "set sep \<subseteq> set del"
  shows "split_data (p @ sep @ s) del = p # split_data s del"
proof -
  obtain d sep' where sep: "sep = d # sep'" using assms(3) by (cases sep) auto
  have "split_data (p @ sep @ s) del = p # split_data (sep' @ s) del"
    using assms sep by (simp add: split_data_def split_parts_append)
  then show ?thesis using split_data_seps [of sep' del s] assms(4) sep by simp
qed

fun joined_by :: "string \<Rightarrow> string list \<Rightarrow> string" where
  "joined_by sep [] = []"
| "joined_by sep [p] = p"
| "joined_by sep (p # q # ps) = p @ sep @ joined_by sep (q # ps)"

lemma foldl_accumulator: "s \<noteq> [] \<Longrightarrow> foldl (accumulator sep) s ps = joined_by sep (s # ps)"
proof (induction ps arbitrary: s)
  case (Cons p ps)
  have "joined_by sep ((s @ sep @ p) # ps) = s @ sep @ joined_by sep (p # ps)" by (cases ps) auto
  then show ?case using Cons by (simp add: accumulator_def)
qed simp

lemma convert2String_joined: "[] \<notin> set ps \<Longrightarrow> convert2String ps sep = joined_by sep ps"
  by (cases ps) (auto simp: convert2String_def accumulator_def foldl_accumulator)

lemma split_joined:
  assumes "\<forall>p \<in> set ps. p \<noteq> [] \<and> set p \<inter> set del = {}" "sep \<noteq> []" "set sep \<subseteq> set del"
  shows "split_data (joined_by sep ps) del = ps"
  using assms
proof (induction sep ps rule: joined_by.induct)
  case (3 sep p q ps)
  have "split_data (joined_by sep (q # ps)) del = q # ps" by (rule 3(1)) (use 3(2-4) in auto)
  then show ?case using 3(2-4) split_data_append [of p del sep "joined_by sep (q # ps)"] by simp
qed (auto simp: split_data_def split_parts_part)

text \<open>Splitting what was joined gives the list again, if no item is empty or has a separator.\<close>

theorem split_convert2String:
  assumes "\<forall>p \<in> set ps. p \<noteq> [] \<and> set p \<inter> set del = {}" "sep \<noteq> []" "set sep \<subseteq> set del"
  shows "split_data (convert2String ps sep) del = ps"
proof -
  have "[] \<notin> set ps" using assms(1) by auto
  then show ?thesis using split_joined [OF assms] by (simp add: convert2String_joined)
qed

theorem split_convert2String_witness:
  "split_data (convert2String [''one'', ''two''] '', '') '' ,'' = [''one'', ''two''] \<and> convert2String [''one'', ''two''] '', '' = ''one, two''"
  using split_convert2String [of "[''one'', ''two'']" "'' ,''" "'', ''"] by (simp add: convert2String_def accumulator_def)

text \<open>The separators behind empty items at the beginning are lost.\<close>

theorem convert2String_empty_items: "convert2String [[], ''a'', [], ''b''] '','' = ''a,,b''"
  by (simp add: convert2String_def accumulator_def)

section \<open>Files of settings\<close>

text \<open>\<^verbatim>\<open>getline\<close> into a buffer of \<open>n\<close> bytes: what was stored, what is left of the file, and whether the
  stream is still good.  It stops at the end of the file, at the end of the line, which is taken
  away, or when the buffer is full.\<close>

fun getline :: "nat \<Rightarrow> string \<Rightarrow> string \<times> string \<times> bool" where
  "getline n [] = ([], [], False)"
| "getline n (c # s) = (if c = NL then ([], s, True) else if n \<le> 1 then ([], c # s, False)
     else case getline (n - 1) s of (line, r, good) \<Rightarrow> (c # line, r, good))"

lemma getline_length: "getline n s = (line, r, True) \<Longrightarrow> length r < length s"
  by (induction n s arbitrary: line r rule: getline.induct) (auto split: if_splits prod.splits)

text \<open>The buffer is read as a C string, the comment is cut off and blanks are taken away at both ends.\<close>

definition is_garbage :: "char \<Rightarrow> bool" where
  "is_garbage c \<longleftrightarrow> c \<in> {CHR '' '', CR, NL, TAB}"

definition trim_blanks :: "string \<Rightarrow> string" where
  "trim_blanks s = rev (dropWhile is_garbage (rev (dropWhile is_garbage s)))"

definition config_line :: "string \<Rightarrow> string" where
  "config_line buff = trim_blanks (takeWhile (\<lambda>c. c \<noteq> CHR ''#'') (takeWhile (\<lambda>c. c \<noteq> NUL) buff))"

definition add_line :: "string \<Rightarrow> string list \<Rightarrow> string list" where
  "add_line l ls = (if l = [] then ls else l # ls)"

function config_loop :: "string \<Rightarrow> string list" where
  "config_loop s = (case getline 1024 s of (buff, r, good) \<Rightarrow>
     add_line (config_line buff) (if good then config_loop r else []))"
  by pat_completeness auto
termination
proof (relation "measure length")
  fix s buff y r good
  assume "(buff, y) = getline 1024 s" "(r, good) = y" good
  then have "getline 1024 s = (buff, r, True)" by simp
  then show "(r, s) \<in> measure length" using getline_length by simp
qed simp

declare config_loop.simps [simp del]

text \<open>The file is its bytes, or \<open>None\<close> if it cannot be opened, which is an exception.\<close>

definition getConfig :: "string option \<Rightarrow> string list option" where
  "getConfig file = (case file of None \<Rightarrow> None | Some s \<Rightarrow> Some (config_loop s))"

lemma getline_line:
  "NL \<notin> set l \<Longrightarrow> length l < n \<Longrightarrow> getline n (l @ NL # s) = (l, s, True)"
  by (induction l arbitrary: n) auto

lemma getline_last: "NL \<notin> set l \<Longrightarrow> length l < n \<Longrightarrow> getline n l = (l, [], False)"
  by (induction l arbitrary: n) auto

lemma config_loop_line:
  "NL \<notin> set l \<Longrightarrow> length l < 1024 \<Longrightarrow> config_loop (l @ NL # s) = add_line (config_line l) (config_loop s)"
  by (subst config_loop.simps) (simp add: getline_line)

lemma config_loop_last: "NL \<notin> set l \<Longrightarrow> length l < 1024 \<Longrightarrow> config_loop l = add_line (config_line l) []"
  by (subst config_loop.simps) (simp add: getline_last)

text \<open>Every line of a file of settings is read, however the last one ends: the comments, the blanks
  around a setting and the lines without one are left out, and the settings come in their order.
  Lines may have up to 1023 bytes.\<close>

theorem getConfig_lines:
  assumes "\<forall>l \<in> set ls. NL \<notin> set l \<and> length l < 1024" "NL \<notin> set e \<and> length e < 1024"
  shows "getConfig (Some (concat (map (\<lambda>l. l @ [NL]) ls) @ e)) = Some (filter (\<lambda>l. l \<noteq> []) (map config_line (ls @ [e])))"
  using assms(1)
proof (induction ls)
  case Nil
  then show ?case using assms(2) by (simp add: getConfig_def config_loop_last add_line_def)
next
  case (Cons l ls)
  then show ?case by (simp add: getConfig_def config_loop_line add_line_def)
qed

theorem getConfig_lines_witness:
  "getConfig (Some (''# options'' @ [NL] @ ''  port 80 # http'' @ [CR, NL, NL] @ ''name x'')) = Some [''port 80'', ''name x'']"
proof -
  have "config_line ''# options'' = [] \<and> config_line (''  port 80 # http'' @ [CR]) = ''port 80'' \<and> config_line [] = [] \<and>
    config_line ''name x'' = ''name x''"
    by code_simp
  then show ?thesis using getConfig_lines [of "[''# options'', ''  port 80 # http'' @ [CR], []]" "''name x''"] by (simp add: NL_def CR_def)
qed

text \<open>A line that does not fit into the buffer ends the file: its beginning is a setting and all that is
  behind it is lost.\<close>

theorem getConfig_long_line:
  assumes "NL \<notin> set l" "length l = 1023" "c \<noteq> NL"
  shows "getConfig (Some (l @ c # s)) = Some (add_line (config_line l) [])"
proof -
  have "NL \<notin> set l \<Longrightarrow> length l + 1 = n \<Longrightarrow> getline n (l @ c # s) = (l, c # s, False)" for n
    by (induction l arbitrary: n) (use assms(3) in auto)
  then have "getline 1024 (l @ c # s) = (l, c # s, False)" using assms by simp
  then show ?thesis by (simp add: getConfig_def config_loop.simps [of "l @ c # s"])
qed

section \<open>Times and sizes\<close>

text \<open>\<^verbatim>\<open>%.2d\<close>, at least two digits.\<close>

definition two_digits :: "int \<Rightarrow> string" where
  "two_digits n = (let d = dec_nat (nat \<bar>n\<bar>) in (if n < 0 then ''-'' else []) @ replicate (2 - length d) CHR ''0'' @ d)"

definition time2Str :: "int \<Rightarrow> string" where
  "time2Str time =
     (let day = cdiv time 86400;
          pre = (if day > 0 then dec_int day @ '' d. '' else []);
          time = (if day > 0 then time - day * 86400 else time);
          hour = to_int (cdiv time 3600);
          time = (if hour > 0 then time - hour * 3600 else time);
          minute = to_int (cdiv time 60);
          time = (if minute > 0 then time - minute * 60 else time);
          second = to_int time
      in pre @ take 126 (two_digits hour @ '':'' @ two_digits minute @ '':'' @ two_digits second))"

definition memsize2Str :: "int \<Rightarrow> string" where
  "memsize2Str val =
     (if val > 1024 * 1024 * 1024 then dec_int (cdiv val (1024 * 1024 * 1024)) @ '' Gb''
      else if val > 1024 * 1024 then dec_int (cdiv val (1024 * 1024)) @ '' Mb''
      else if val > 1024 then dec_int (cdiv val 1024) @ '' kb''
      else dec_int val @ '' b'')"

lemma to_int_small: "0 \<le> v \<Longrightarrow> v < 2 ^ 31 \<Longrightarrow> to_int v = v"
  by (simp add: to_int_def sint_sbintrunc' signed_take_bit_int_eq_self)

lemma cdiv_nonneg: "0 \<le> a \<Longrightarrow> cdiv a b = a div b"
  by (simp add: cdiv_def)

definition pair_of :: "nat \<Rightarrow> string" where
  "pair_of n = [char_of (48 + n div 10), char_of (48 + n mod 10)]"

definition clock_of :: "nat \<Rightarrow> string" where
  "clock_of n = pair_of (n div 3600) @ '':'' @ pair_of (n div 60 mod 60) @ '':'' @ pair_of (n mod 60)"

lemma two_digits_small: "n < 100 \<Longrightarrow> two_digits (int n) = pair_of n"
proof -
  assume n: "n < 100"
  have "char_of (48 :: nat) = CHR ''0''" by code_simp
  then show ?thesis using n
    by (cases "n < 10") (simp_all add: two_digits_def pair_of_def Let_def dec_nat.simps [of n] dec_nat.simps [of "n div 10"])
qed

lemma digit_char_inj: "i < 10 \<Longrightarrow> j < 10 \<Longrightarrow> (char_of (48 + i) :: char) = char_of (48 + j) \<Longrightarrow> i = (j :: nat)"
proof -
  assume b: "i < 10" "j < 10" and "(char_of (48 + i) :: char) = char_of (48 + j)"
  then have "(of_char (char_of (48 + i) :: char) :: nat) = of_char (char_of (48 + j) :: char)" by simp
  then show "i = j" using b by simp
qed

lemma pair_of_inj: "m < 100 \<Longrightarrow> n < 100 \<Longrightarrow> pair_of m = pair_of n \<Longrightarrow> m = n"
proof -
  assume b: "m < 100" "n < 100" and eq: "pair_of m = pair_of n"
  have "m div 10 = n div 10" by (rule digit_char_inj) (use b eq in \<open>auto simp: pair_of_def\<close>)
  moreover have "m mod 10 = n mod 10" by (rule digit_char_inj) (use eq in \<open>auto simp: pair_of_def\<close>)
  ultimately show "m = n" by (metis div_mult_mod_eq)
qed

lemma rest_of: "0 < d \<Longrightarrow> (if 0 < int (t div d) then int t - int (t div d) * int d else int t) = int (t mod d)"
proof -
  assume "0 < d"
  have "t = t div d * d + t mod d" by simp
  then have "int t = int (t div d) * int d + int (t mod d)" by (metis of_nat_add of_nat_mult)
  then show ?thesis by (cases "t div d") auto
qed

lemma minute_of: "(r :: nat) mod 3600 mod 60 = r mod 60" "r mod 3600 div 60 = r div 60 mod 60"
proof -
  have "r mod 3600 = 60 * (r div 60 mod 60) + r mod 60" using mod_mult2_eq [of r 60 60] by simp
  then show "r mod 3600 mod 60 = r mod 60" "r mod 3600 div 60 = r div 60 mod 60" by simp_all
qed

text \<open>A time is shown as its days, if there are any, and hours, minutes and seconds with two digits.\<close>

theorem time2Str_spec:
  "time2Str (int t) = (if t < 86400 then [] else dec_nat (t div 86400) @ '' d. '') @ clock_of (t mod 86400)"
proof -
  define r where "r = t mod 86400"
  have r: "r < 86400" by (simp add: r_def)
  have rest: "(if 0 < int (t div 86400) then int t - int (t div 86400) * 86400 else int t) = int r"
    "(if 0 < int (r div 3600) then int r - int (r div 3600) * 3600 else int r) = int (r mod 3600)"
    "(if 0 < int (r mod 3600 div 60) then int (r mod 3600) - int (r mod 3600 div 60) * 60 else int (r mod 3600)) = int (r mod 3600 mod 60)"
    unfolding r_def by (rule rest_of [OF zero_less_numeral, unfolded of_nat_numeral])+
  have div: "cdiv (int t) 86400 = int (t div 86400)" "cdiv (int r) 3600 = int (r div 3600)" "cdiv (int (r mod 3600)) 60 = int (r mod 3600 div 60)"
    by (simp_all add: cdiv_def zdiv_int)
  have small: "to_int (int k) = int k" if "k < 100" for k using that by (simp add: to_int_small)
  have b: "r div 3600 < 100" "r mod 3600 div 60 < 100" "r mod 3600 mod 60 < 100" using r by auto
  have day: "dec_int (int (t div 86400)) = dec_nat (t div 86400)" by (simp only: dec_int_def) simp
  have l: "length (clock_of r) \<le> 126" by (simp add: clock_of_def pair_of_def)
  have "time2Str (int t) = (if 0 < int (t div 86400) then dec_int (int (t div 86400)) @ '' d. '' else []) @
      take 126 (two_digits (int (r div 3600)) @ '':'' @ two_digits (int (r mod 3600 div 60)) @ '':'' @ two_digits (int (r mod 3600 mod 60)))"
    unfolding time2Str_def Let_def div rest small [OF b(1)] small [OF b(2)] small [OF b(3)] ..
  also have "\<dots> = (if 0 < int (t div 86400) then dec_int (int (t div 86400)) @ '' d. '' else []) @ clock_of r"
    using l unfolding two_digits_small [OF b(1)] two_digits_small [OF b(2)] two_digits_small [OF b(3)]
    unfolding minute_of clock_of_def by (simp only: take_all)
  finally show ?thesis unfolding day r_def by (simp add: div_greater_zero_iff not_less)
qed

lemma clock_of_length: "length (clock_of n) = 8"
  by (simp add: clock_of_def pair_of_def)

lemma clock_of_inj:
  assumes "m < 86400" "n < 86400" "clock_of m = clock_of n"
  shows "m = n"
proof -
  have p: "pair_of (m div 3600) = pair_of (n div 3600)" "pair_of (m div 60 mod 60) = pair_of (n div 60 mod 60)"
    "pair_of (m mod 60) = pair_of (n mod 60)"
    using assms(3) by (simp_all add: clock_of_def pair_of_def)
  have "m div 3600 = n div 3600" by (rule pair_of_inj [OF _ _ p(1)]) (use assms in auto)
  moreover have "m div 60 mod 60 = n div 60 mod 60" "m mod 60 = n mod 60"
    by (rule pair_of_inj [OF _ _ p(2)] pair_of_inj [OF _ _ p(3)]; rule order.strict_trans [OF mod_less_divisor]; simp)+
  ultimately have "m div 3600 = n div 3600 \<and> m mod (60 * 60) = n mod (60 * 60)" by (simp only: mod_mult2_eq)
  then have "m div 3600 = n div 3600" "m mod 3600 = n mod 3600" by simp_all
  then show "m = n" by (metis div_mult_mod_eq)
qed

text \<open>Two times that are shown alike are the same.\<close>

theorem time2Str_inj: "time2Str (int t) = time2Str (int u) \<longleftrightarrow> t = u"
proof
  assume eq: "time2Str (int t) = time2Str (int u)"
  let ?pre = "\<lambda>t. if t < 86400 then [] else dec_nat (t div 86400) @ '' d. ''"
  have "?pre t = ?pre u \<and> clock_of (t mod 86400) = clock_of (u mod 86400)"
    by (rule iffD1 [OF append_eq_append_conv eq [unfolded time2Str_spec]]) (simp add: clock_of_length)
  then have m: "t mod 86400 = u mod 86400" and pre: "?pre t = ?pre u" using clock_of_inj [of "t mod 86400" "u mod 86400"] by auto
  have "t div 86400 = u div 86400"
  proof (cases "t < 86400 \<or> u < 86400")
    case True
    then show ?thesis using pre by (auto split: if_splits)
  next
    case False
    then show ?thesis using pre dec_nat_inj by simp
  qed
  then show "t = u" using m by (metis div_mult_mod_eq)
qed simp

text \<open>A size is shown in the largest unit it is more than one of, rounded down.\<close>

theorem memsize2Str_units:
  "memsize2Str (int n) =
     (if n \<le> 2 ^ 10 then dec_nat n @ '' b'' else if n \<le> 2 ^ 20 then dec_nat (n div 2 ^ 10) @ '' kb''
      else if n \<le> 2 ^ 30 then dec_nat (n div 2 ^ 20) @ '' Mb'' else dec_nat (n div 2 ^ 30) @ '' Gb'')"
proof -
  have "cdiv (int n) (int k) = int (n div k)" for k by (simp add: cdiv_def zdiv_int)
  from this [of 1024] this [of "1024 * 1024"] this [of "1024 * 1024 * 1024"] show ?thesis
    by (simp add: memsize2Str_def dec_int_def)
qed

section \<open>Names of files\<close>

definition after_last :: "char \<Rightarrow> string \<Rightarrow> string" where
  "after_last d s = (if d \<in> set s then rev (takeWhile (\<lambda>c. c \<noteq> d) (rev s)) else s)"

definition getFileExt :: "string \<Rightarrow> string" where "getFileExt fname = after_last CHR ''.'' fname"
definition getFileName :: "string \<Rightarrow> string" where "getFileName fpath = after_last CHR ''/'' fpath"

lemma after_last_append: "d \<notin> set t \<Longrightarrow> after_last d (s @ d # t) = t"
  by (simp add: after_last_def) (subst takeWhile_append2; auto)

text \<open>The name of a file is what is behind the last slash, its extension what is behind the last dot.\<close>

theorem getFileName_path:
  assumes "CHR ''/'' \<notin> set f"
  shows "getFileName (dir @ CHR ''/'' # f) = f"
  using assms by (simp add: getFileName_def after_last_append)

theorem getFileName_path_witness: "getFileName ''/srv/tv/one.mpg'' = ''one.mpg''"
  using getFileName_path [of "''one.mpg''" "''/srv/tv''"] by simp

text \<open>The extension of a file without one is its name, or a part of its path.\<close>

theorem getFileExt_no_dot: "getFileExt ''/srv/media.d/file'' = ''d/file''"
  by code_simp

section \<open>Characters of a text in UTF-8\<close>

text \<open>A byte as a \<^verbatim>\<open>signed char\<close>; behind the text is a zero.\<close>

definition schar :: "char \<Rightarrow> int" where
  "schar c = (let n = of_char c :: nat in if n < 128 then int n else int n - 256)"

definition char_at :: "string \<Rightarrow> nat \<Rightarrow> int" where
  "char_at s i = (if i < length s then schar (s ! i) else 0)"

text \<open>The number of ASCII characters the text begins with.\<close>

definition ascii_run :: "string \<Rightarrow> nat" where
  "ascii_run s = length (takeWhile (\<lambda>c. schar c > 0) s)"

text \<open>The step from the first byte of a character, by its upper four bits.\<close>

definition char_step :: "int \<Rightarrow> nat" where
  "char_step b = (if b > 0 then 1 else let k = (b mod 256) div 16 in if k = 14 then 3 else if k = 15 then 4 else 2)"

text \<open>\<open>None\<close> is the exception.  The bytes are read up to the end of the text and its zero, never behind.\<close>

function char_loop :: "string \<Rightarrow> nat \<Rightarrow> nat \<Rightarrow> nat option" where
  "char_loop s i count =
     (if length s \<le> i \<or> char_at s i = 0 then Some count
      else let i = i + char_step (char_at s i) in if i > length s then None else char_loop s i (count + 1))"
  by pat_completeness auto
termination
  by (relation "measure (\<lambda>(s, i, _). length s - i)") (auto simp: char_step_def Let_def)

declare char_loop.simps [simp del]

definition charLength :: "string \<Rightarrow> nat option" where
  "charLength s = (let i = ascii_run s in if char_at s i \<le> -65 then None else char_loop s i i)"

text \<open>\<^verbatim>\<open>align\<close> may not throw; the exception ends the program, which is \<open>None\<close>.\<close>

definition align :: "string \<Rightarrow> nat \<Rightarrow> string option" where
  "align initial sz = map_option (\<lambda>n. initial @ replicate (sz - n) CHR '' '') (charLength initial)"

text \<open>The bytes of a character.\<close>

definition byte :: "nat \<Rightarrow> char" where "byte n = char_of n"

definition utf8 :: "nat \<Rightarrow> string" where
  "utf8 u =
     (if u < 0x80 then [byte u]
      else if u < 0x800 then [byte (0xC0 + u div 64), byte (0x80 + u mod 64)]
      else if u < 0x10000 then [byte (0xE0 + u div 4096), byte (0x80 + u div 64 mod 64), byte (0x80 + u mod 64)]
      else [byte (0xF0 + u div 262144), byte (0x80 + u div 4096 mod 64), byte (0x80 + u div 64 mod 64), byte (0x80 + u mod 64)])"

lemma schar_byte: "n < 256 \<Longrightarrow> schar (byte n) = (if n < 128 then int n else int n - 256)"
  by (simp add: schar_def byte_def Let_def)

lemma schar_ascii: "0 < u \<Longrightarrow> u < 128 \<Longrightarrow> schar (byte u) = int u \<and> utf8 u = [byte u]"
  by (simp add: schar_byte utf8_def)

lemma char_step_lead:
  "n < 32 \<Longrightarrow> char_step (int (192 + n) - 256) = 2" "n < 16 \<Longrightarrow> char_step (int (224 + n) - 256) = 3"
  "n < 16 \<Longrightarrow> char_step (int (240 + n) - 256) = 4"
proof -
  have m: "(x - 256) mod 256 = x" if "0 \<le> x" "x < 256" for x :: int using that by (simp add: minus_mod_self2)
  show "char_step (int (192 + n) - 256) = 2" if "n < 32"
  proof -
    have "(192 + n) div 16 < 14" by (rule less_mult_imp_div_less) (use that in simp)
    then have "int ((192 + n) div 16) < 14" by linarith
    then have "int (192 + n) div 16 \<noteq> 14 \<and> int (192 + n) div 16 \<noteq> 15" by (simp only: zdiv_int) simp
    then show ?thesis using m [of "int (192 + n)"] that unfolding char_step_def Let_def by simp
  qed
  show "char_step (int (224 + n) - 256) = 3" if "n < 16"
  proof -
    have "int (224 + n) div 16 = 14" by (rule int_div_pos_eq [of _ _ _ "int n"]) (use that in simp_all)
    then show ?thesis using m [of "int (224 + n)"] that unfolding char_step_def Let_def by simp
  qed
  show "char_step (int (240 + n) - 256) = 4" if "n < 16"
  proof -
    have "int (240 + n) div 16 = 15" by (rule int_div_pos_eq [of _ _ _ "int n"]) (use that in simp_all)
    then show ?thesis using m [of "int (240 + n)"] that unfolding char_step_def Let_def by simp
  qed
qed

text \<open>The first byte of a character tells its length.\<close>

lemma utf8_lead:
  assumes "0 < u" "u < 0x110000"
  shows "\<exists>c cs. utf8 u = c # cs \<and> char_step (schar c) = length (utf8 u) \<and> schar c \<noteq> 0 \<and> schar c > -65 \<and> (128 \<le> u \<longrightarrow> schar c < 0)"
proof -
  consider "u < 0x80" | "0x80 \<le> u" "u < 0x800" | "0x800 \<le> u" "u < 0x10000" | "0x10000 \<le> u" by linarith
  then show ?thesis
  proof cases
    case 1
    then show ?thesis using assms(1) schar_ascii by (simp add: char_step_def)
  next
    case 2
    then have "u div 64 < 32" by auto
    then show ?thesis using 2 char_step_lead(1) [of "u div 64"] by (simp add: utf8_def schar_byte)
  next
    case 3
    then have "u div 4096 < 16" by auto
    then show ?thesis using 3 char_step_lead(2) [of "u div 4096"] by (simp add: utf8_def schar_byte)
  next
    case 4
    then have "u div 262144 < 16" using assms(2) by auto
    then show ?thesis using 4 char_step_lead(3) [of "u div 262144"] by (simp add: utf8_def schar_byte)
  qed
qed

lemma char_loop_utf8:
  "\<forall>u \<in> set us. 0 < u \<and> u < 0x110000 \<Longrightarrow>
   char_loop (a @ concat (map utf8 us) @ t) (length a) n =
   char_loop (a @ concat (map utf8 us) @ t) (length (a @ concat (map utf8 us))) (n + length us)"
proof (induction us arbitrary: a n)
  case (Cons u us)
  obtain c cs where c: "utf8 u = c # cs" "char_step (schar c) = length (utf8 u)" "schar c \<noteq> 0"
    using utf8_lead Cons.prems by (metis list.set_intros(1))
  have "char_loop (a @ concat (map utf8 (u # us)) @ t) (length a) n =
      char_loop ((a @ utf8 u) @ concat (map utf8 us) @ t) (length (a @ utf8 u)) (n + 1)"
    using c by (subst char_loop.simps) (simp add: char_at_def nth_append Let_def)
  then show ?case using Cons.IH [of "a @ utf8 u" "n + 1"] Cons.prems by simp
qed simp

lemma utf8_ascii_list:
  "\<forall>u \<in> set us. 0 < u \<and> u < 128 \<Longrightarrow> concat (map utf8 us) = map byte us \<and> (\<forall>c \<in> set (map byte us). schar c > 0)"
  using schar_ascii by (induction us) auto

text \<open>The first loop counts the characters before the first that is not ASCII.\<close>

lemma charLength_loop:
  assumes us: "\<forall>u \<in> set us. 0 < u \<and> u < 0x110000" and t: "t = [] \<or> schar (hd t) < 0 \<and> schar (hd t) > -65"
  shows "charLength (concat (map utf8 us) @ t) = char_loop (concat (map utf8 us) @ t) (length (concat (map utf8 us))) (length us)"
proof -
  define as vs where "as = takeWhile (\<lambda>u. u < 128) us" and "vs = dropWhile (\<lambda>u. u < 128) us"
  have u: "us = as @ vs" by (simp add: as_def vs_def)
  have as: "\<forall>u \<in> set as. 0 < u \<and> u < 128" using us set_takeWhileD unfolding as_def by metis
  note ascii = utf8_ascii_list [OF as]
  have vs: "\<forall>u \<in> set vs. 0 < u \<and> u < 0x110000" using us u by simp
  define w where "w = concat (map utf8 vs) @ t"
  have w: "w = [] \<or> schar (hd w) < 0 \<and> schar (hd w) > -65"
  proof (cases vs)
    case (Cons v vs')
    then have "128 \<le> v" unfolding vs_def by (metis hd_dropWhile list.distinct(1) list.sel(1) not_less)
    moreover obtain c cs where "utf8 v = c # cs" "schar c > -65" "128 \<le> v \<longrightarrow> schar c < 0"
      using utf8_lead [of v] vs Cons by auto
    ultimately show ?thesis using Cons by (simp add: w_def)
  qed (use t in \<open>simp add: w_def\<close>)
  have s: "concat (map utf8 us) @ t = map byte as @ w" using ascii by (simp add: u w_def)
  have "takeWhile (\<lambda>c. schar c > 0) (map byte as @ w) = map byte as @ takeWhile (\<lambda>c. schar c > 0) w"
    using ascii by (intro takeWhile_append2) blast
  moreover have "takeWhile (\<lambda>c. schar c > 0) w = []" using w by (cases w) auto
  ultimately have run: "ascii_run (map byte as @ w) = length as" by (simp add: ascii_run_def)
  have "char_at (map byte as @ w) (length as) > -65" using w by (cases w) (auto simp: char_at_def nth_append)
  then have "charLength (map byte as @ w) = char_loop (map byte as @ concat (map utf8 vs) @ t) (length (map byte as)) (length as)"
    by (simp add: charLength_def run [unfolded w_def] w_def Let_def)
  also have "\<dots> = char_loop (map byte as @ concat (map utf8 vs) @ t) (length (map byte as @ concat (map utf8 vs))) (length as + length vs)"
    by (rule char_loop_utf8 [OF vs])
  finally show ?thesis using ascii by (simp add: u w_def)
qed

text \<open>The length of a text in UTF-8 is its number of characters, wherever the first character that
  is not ASCII stands.\<close>

theorem charLength_utf8:
  assumes "\<forall>u \<in> set us. 0 < u \<and> u < 0x110000"
  shows "charLength (concat (map utf8 us)) = Some (length us)"
  using charLength_loop [OF assms, of "[]"] by (simp add: char_loop.simps)

theorem charLength_utf8_witness: "charLength ([byte 65] @ utf8 0xE9 @ utf8 0x20AC @ utf8 0x1F600) = Some 4"
  using charLength_utf8 [of "[65, 0xE9, 0x20AC, 0x1F600]"] by (simp add: utf8_def)

text \<open>A text that is cut off within its last character throws, and because \<^verbatim>\<open>align\<close> must not throw this
  ends the program.\<close>

theorem align_cut:
  assumes "\<forall>u \<in> set us. 0 < u \<and> u < 0x110000" "0x80 \<le> v" "v < 0x110000" "n < length (utf8 v)" "0 < n"
  shows "align (concat (map utf8 us) @ take n (utf8 v)) sz = None"
proof -
  obtain c cs where c: "utf8 v = c # cs" "char_step (schar c) = length (utf8 v)" "schar c < 0" "schar c > -65"
    using utf8_lead [of v] assms(2,3) by auto
  let ?b = "concat (map utf8 us)" and ?t = "take n (utf8 v)"
  have t: "?t \<noteq> []" "hd ?t = c" "length ?t = n" using c(1) assms(4,5) by (auto simp: hd_take)
  have "char_at (?b @ ?t) (length ?b) = schar c" using t by (simp add: char_at_def nth_append hd_conv_nth)
  then have "char_loop (?b @ ?t) (length ?b) (length us) = None"
    using t c assms(4) by (subst char_loop.simps) (simp add: Let_def)
  then show ?thesis using charLength_loop [OF assms(1), of ?t] c t by (simp add: align_def)
qed

theorem align_cut_witness: "align ([byte 65] @ [byte 0xE2, byte 0x82]) 10 = None"
  using align_cut [of "[65]" "0x20AC" 2 10] by (simp add: utf8_def)

end
