(* ===== verification/Schedule.thy ===== *)
theory Schedule
  imports Utils
begin

text \<open>
  Scheduled playback of the transcode application, \<^verbatim>\<open>src/app/transcode/scheduleinfo.cpp\<close>: a start time
  in the form of crontab(5) and a duration.  An exception is \<open>None\<close>.  The local time is a record; the
  times of GStreamer are nanoseconds.
\<close>

section \<open>Numbers\<close>

text \<open>\<^verbatim>\<open>boost::lexical_cast<int>\<close>: a sign and digits, all of the text, within the range of an int.\<close>

definition lexical_int :: "string \<Rightarrow> int option" where
  "lexical_int s =
     (let neg = (s \<noteq> [] \<and> hd s = CHR ''-'');
          t = (if s \<noteq> [] \<and> (hd s = CHR ''-'' \<or> hd s = CHR ''+'') then tl s else s);
          v = (if neg then - int (dec_value 0 t) else int (dec_value 0 t))
      in if t = [] \<or> \<not> list_all (\<lambda>c. c_digit c < 10) t \<or> v < - (2 ^ 31) \<or> 2 ^ 31 \<le> v then None else Some v)"

section \<open>Times\<close>

text \<open>The members of \<^verbatim>\<open>struct tm\<close> that are compared; months count from 0, the days of the week from Sunday.\<close>

record tm =
  tm_min :: int
  tm_hour :: int
  tm_mday :: int
  tm_mon :: int
  tm_wday :: int

record cron =
  cr_minute :: string
  cr_hour :: string
  cr_day_of_month :: string
  cr_month :: string
  cr_day_of_week :: string

text \<open>A field is an asterisk or a number between two bounds.\<close>

definition field_ok :: "int \<Rightarrow> int \<Rightarrow> string \<Rightarrow> bool" where
  "field_ok lo hi f \<longleftrightarrow> f = ''*'' \<or> (case lexical_int f of None \<Rightarrow> False | Some v \<Rightarrow> lo \<le> v \<and> v \<le> hi)"

definition cron_init :: "string \<Rightarrow> cron option" where
  "cron_init info =
     (case split_data info [CHR '' '', TAB, CR, NL] of
        [mi, h, d, mo, w] \<Rightarrow>
          if \<not> field_ok 0 59 mi then None
          else if \<not> field_ok 0 23 h then None
          else if \<not> field_ok 1 31 d then None
          else if \<not> field_ok 1 12 mo then None
          else if \<not> field_ok 0 7 w then None
          else Some \<lparr>cr_minute = mi, cr_hour = h, cr_day_of_month = d, cr_month = mo, cr_day_of_week = w\<rparr>
      | _ \<Rightarrow> None)"

definition REBOOT :: string where "REBOOT = ''@reboot''"

definition ALIASES :: "(string \<times> string) list" where
  "ALIASES = [(''@always'', ''* * * * *''), (''@yearly'', ''0 0 1 1 *''), (''@annually'', ''0 0 1 1 *''), (''@monthly'', ''0 0 1 * *''),
     (''@weekly'', ''0 0 * * 0''), (''@daily'', ''0 0 * * *''), (''@midnight'', ''0 0 * * *''), (''@hourly'', ''0 * * * *'')]"

definition crontab :: "string \<Rightarrow> cron option" where
  "crontab info =
     (if info \<noteq> REBOOT then cron_init (case map_of ALIASES info of None \<Rightarrow> info | Some s \<Rightarrow> s)
      else Some \<lparr>cr_minute = [], cr_hour = [], cr_day_of_month = [], cr_month = [], cr_day_of_week = []\<rparr>)"

text \<open>The cast may throw, which is caught: the pattern does not match then.\<close>

definition cron_check :: "string \<Rightarrow> int \<Rightarrow> bool" where
  "cron_check pattern val \<longleftrightarrow> pattern = ''*'' \<or> lexical_int pattern = Some val"

definition isMatch :: "cron \<Rightarrow> tm \<Rightarrow> bool" where
  "isMatch c t \<longleftrightarrow> cron_check (cr_minute c) (tm_min t) \<and> cron_check (cr_hour c) (tm_hour t) \<and>
     cron_check (cr_day_of_month c) (tm_mday t) \<and> cron_check (cr_month c) (tm_mon t) \<and> cron_check (cr_day_of_week c) (tm_wday t)"

section \<open>The schedule of a task\<close>

record schedule =
  sc_cron :: cron
  sc_once :: bool
  sc_duration :: nat

definition ScheduleInfo :: "string \<Rightarrow> int \<Rightarrow> schedule option" where
  "ScheduleInfo start duration = (case crontab start of
     None \<Rightarrow> None
   | Some c \<Rightarrow> Some \<lparr>sc_cron = c, sc_once = (start = REBOOT), sc_duration = nat ((duration * 1000000000) mod 2 ^ 64)\<rparr>)"

text \<open>The time the task has been running and the number of its runs are those of the task.\<close>

definition isExperied :: "schedule \<Rightarrow> nat \<Rightarrow> bool" where
  "isExperied sc actual \<longleftrightarrow> sc_duration sc \<noteq> 0 \<and> sc_duration sc < actual"

definition needStart :: "schedule \<Rightarrow> tm \<Rightarrow> nat \<Rightarrow> nat \<Rightarrow> bool" where
  "needStart sc now count actual \<longleftrightarrow>
     (if sc_once sc then \<not> (count > 0 \<or> actual > 0) else isMatch (sc_cron sc) now \<and> actual = 0)"

section \<open>What a schedule promises\<close>

lemma c_digit_dec: "c \<in> set (dec_nat n) \<Longrightarrow> c_digit c < 10"
  using dec_nat_digits [of c n] by (auto simp: c_digit_def Let_def)

lemma lexical_int_nat: "n < 2 ^ 31 \<Longrightarrow> lexical_int (dec_nat n) = Some (int n)"
proof -
  assume n: "n < 2 ^ 31"
  have c: "hd (dec_nat n) \<in> set (dec_nat n)" by simp
  have "hd (dec_nat n) \<noteq> CHR ''-'' \<and> hd (dec_nat n) \<noteq> CHR ''+''" using dec_nat_digits [OF c] by auto
  moreover have "list_all (\<lambda>c. c_digit c < 10) (dec_nat n)" using c_digit_dec by (auto simp: list_all_iff)
  ultimately show ?thesis using n by (simp add: lexical_int_def dec_value_nat)
qed

text \<open>A field as it is meant: any value or one.\<close>

definition field_text :: "nat option \<Rightarrow> string" where
  "field_text f = (case f of None \<Rightarrow> ''*'' | Some n \<Rightarrow> dec_nat n)"

definition field_matches :: "nat option \<Rightarrow> int \<Rightarrow> bool" where
  "field_matches f v = (case f of None \<Rightarrow> True | Some n \<Rightarrow> v = int n)"

definition in_bounds :: "nat \<Rightarrow> nat \<Rightarrow> nat option \<Rightarrow> bool" where
  "in_bounds lo hi f = (case f of None \<Rightarrow> True | Some n \<Rightarrow> lo \<le> n \<and> n \<le> hi)"

lemma dec_nat_not_star: "dec_nat n \<noteq> ''*''"
proof
  assume "dec_nat n = ''*''"
  then have "CHR ''*'' \<in> set (dec_nat n)" by simp
  then show False using dec_nat_digits by fastforce
qed

lemma cron_check_field: "in_bounds lo hi f \<Longrightarrow> hi < 2 ^ 31 \<Longrightarrow> cron_check (field_text f) v = field_matches f v"
  by (cases f) (auto simp: cron_check_def field_text_def field_matches_def in_bounds_def lexical_int_nat dec_nat_not_star)

lemma field_ok_field: "in_bounds lo hi f \<Longrightarrow> hi < 2 ^ 31 \<Longrightarrow> field_ok (int lo) (int hi) (field_text f)"
  by (cases f) (auto simp: field_ok_def field_text_def in_bounds_def lexical_int_nat)

lemma field_not_blank: "field_text f \<noteq> [] \<and> set (field_text f) \<inter> set [CHR '' '', TAB, CR, NL] = {}"
proof (cases f)
  case (Some n)
  have "c \<noteq> CHR '' '' \<and> c \<noteq> TAB \<and> c \<noteq> CR \<and> c \<noteq> NL" if "c \<in> set (dec_nat n)" for c
    using dec_nat_digits [OF that] by (auto simp: TAB_def CR_def NL_def)
  then show ?thesis using Some by (auto simp: field_text_def)
qed (simp add: field_text_def TAB_def CR_def NL_def)

lemma alias_at: "map_of ALIASES s = Some t \<Longrightarrow> hd s = CHR ''@''"
  by (auto simp: ALIASES_def split: if_splits)

lemma field_not_at: "hd (field_text f @ s) \<noteq> CHR ''@''"
proof (cases f)
  case (Some n)
  have "hd (dec_nat n) \<in> set (dec_nat n)" by simp
  then have "hd (dec_nat n) \<noteq> CHR ''@''" using dec_nat_digits by fastforce
  then show ?thesis using Some by (simp add: field_text_def)
qed (simp add: field_text_def)



text \<open>The months of a time count from 0 and those of a schedule from 1, so a schedule for December never
  starts, and one for January starts in February.  The days of the week of a time end with 6, so a
  schedule for day 7 never starts.\<close>

theorem crontab_off:
  "(\<exists>c. crontab ''0 0 1 12 *'' = Some c \<and> (\<forall>t. tm_mon t \<le> 11 \<longrightarrow> \<not> isMatch c t)) \<and>
   (\<exists>c. crontab ''0 0 * * 7'' = Some c \<and> (\<forall>t. tm_wday t \<le> 6 \<longrightarrow> \<not> isMatch c t)) \<and>
   (\<exists>c. crontab ''@yearly'' = Some c \<and> (\<forall>t. isMatch c t \<longrightarrow> tm_mon t = 1))"
proof -
  have c: "crontab ''0 0 1 12 *'' = Some \<lparr>cr_minute = ''0'', cr_hour = ''0'', cr_day_of_month = ''1'', cr_month = ''12'', cr_day_of_week = ''*''\<rparr>"
    "crontab ''0 0 * * 7'' = Some \<lparr>cr_minute = ''0'', cr_hour = ''0'', cr_day_of_month = ''*'', cr_month = ''*'', cr_day_of_week = ''7''\<rparr>"
    "crontab ''@yearly'' = Some \<lparr>cr_minute = ''0'', cr_hour = ''0'', cr_day_of_month = ''1'', cr_month = ''1'', cr_day_of_week = ''*''\<rparr>"
    by code_simp+
  have n: "lexical_int ''12'' = Some 12" "lexical_int ''7'' = Some 7" "lexical_int ''1'' = Some 1" by code_simp+
  show ?thesis unfolding c by (auto simp: isMatch_def cron_check_def n)
qed

end
