(* ===== verification/Reader.thy ===== *)
theory Reader
  imports Cstring
begin

text \<open>
  How the http streamer reads the programs that are sent to it: sockets as \<^verbatim>\<open>src/common/socket/\<close> has
  them, the buffers of \<^verbatim>\<open>src/common/binarydata.cpp\<close> and the readers in
  \<^verbatim>\<open>src/app/http-streamer/\<close> \<^verbatim>\<open>flvreader.cpp\<close>, \<^verbatim>\<open>txtreader.cpp\<close>, \<^verbatim>\<open>mpegtsreader.cpp\<close> and \<^verbatim>\<open>theora.cpp\<close>.
  A socket is the list of the pieces in which its data comes; behind the last the connection is
  closed.  \<open>None\<close> is an exception, also that of a failed assertion.
\<close>

section \<open>Sockets\<close>

type_synonym pieces = "u8 list list"

text \<open>\<^verbatim>\<open>TCPSocket::recv\<close>: at most \<open>n\<close> bytes of the next piece.\<close>

fun tcp_recv :: "nat \<Rightarrow> pieces \<Rightarrow> (u8 list \<times> pieces) option" where
  "tcp_recv n [] = None"
| "tcp_recv n (p # ps) =
     (if n = 0 then None
      else if p = [] then tcp_recv n ps
      else if length p \<le> n then Some (p, ps)
      else Some (take n p, drop n p # ps))"

text \<open>\<^verbatim>\<open>Socket::recvAll\<close>: the loop has \<open>got\<close> and needs \<open>n\<close> bytes more.  A wait that is over without data is
  repeated, so only the data matters.\<close>

lemma tcp_recv_size: "tcp_recv n ps = Some (d, qs) \<Longrightarrow> d \<noteq> [] \<and> length d \<le> n \<and> concat ps = d @ concat qs"
  by (induction n ps rule: tcp_recv.induct) (auto split: if_splits)

function recv_loop :: "nat \<Rightarrow> u8 list \<Rightarrow> pieces \<Rightarrow> (u8 list \<times> pieces) option" where
  "recv_loop n got ps =
     (if n = 0 then Some (got, ps)
      else case tcp_recv n ps of None \<Rightarrow> None | Some (d, qs) \<Rightarrow> recv_loop (n - length d) (got @ d) qs)"
  by pat_completeness auto
termination
proof (relation "measure (\<lambda>(n, _, _). n)")
  fix n :: nat and got :: "u8 list" and ps :: pieces and r d qs
  assume "n \<noteq> 0" "tcp_recv n ps = Some r" "(d, qs) = r"
  then have "d \<noteq> []" "length d \<le> n" using tcp_recv_size [of n ps d qs] by simp_all
  then show "((n - length d, got @ d, qs), (n, got, ps)) \<in> measure (\<lambda>(n, _, _). n)" using \<open>n \<noteq> 0\<close> by simp
qed simp

declare recv_loop.simps [simp del]

definition recvAll :: "nat \<Rightarrow> pieces \<Rightarrow> (u8 list \<times> pieces) option" where
  "recvAll n ps = (case tcp_recv n ps of None \<Rightarrow> None | Some (d, qs) \<Rightarrow> recv_loop (n - length d) d qs)"

lemma tcp_recv_none: "tcp_recv n ps = None \<longleftrightarrow> n = 0 \<and> ps \<noteq> [] \<or> concat ps = []"
  by (induction n ps rule: tcp_recv.induct) auto

lemma recv_loop_spec:
  "if n \<le> length (concat ps)
   then \<exists>qs. recv_loop n got ps = Some (got @ take n (concat ps), qs) \<and> concat qs = drop n (concat ps)
   else recv_loop n got ps = None"
proof (induction n got ps rule: recv_loop.induct)
  case (1 n got ps)
  show ?case
  proof (cases "n = 0 \<or> tcp_recv n ps = None")
    case True
    then consider "n = 0" | "n \<noteq> 0" "tcp_recv n ps = None" by (cases "n = 0") auto
    then show ?thesis
    proof cases
      case 2
      then have "concat ps = []" using tcp_recv_none [of n ps] by simp
      then have "\<not> n \<le> length (concat ps)" using 2(1) by (simp only: list.size)
      moreover have "recv_loop n got ps = None" using 2 by (subst recv_loop.simps) simp
      ultimately show ?thesis by simp
    qed (simp add: recv_loop.simps [of 0])
  next
    case False
    then obtain d qs where r: "tcp_recv n ps = Some (d, qs)" by auto
    note s = tcp_recv_size [OF r]
    have e: "recv_loop n got ps = recv_loop (n - length d) (got @ d) qs"
      using False r by (subst recv_loop.simps) simp
    have "n \<le> length (concat ps) \<longleftrightarrow> n - length d \<le> length (concat qs)" using s by auto
    moreover have "take n (concat ps) = d @ take (n - length d) (concat qs)"
      "drop n (concat ps) = drop (n - length d) (concat qs)" using s by auto
    ultimately show ?thesis using 1 [OF _ r refl] False unfolding e append_assoc by presburger
  qed
qed

text \<open>All the bytes asked for, or an exception if the connection is closed before.\<close>

lemma recvAll_loop: "0 < n \<Longrightarrow> recvAll n ps = recv_loop n [] ps"
  by (auto simp: recvAll_def recv_loop.simps [of n] split: option.splits)

lemma recvAll_SomeI:
  assumes "0 < n" "n \<le> length (concat ps)"
  obtains qs where "recvAll n ps = Some (take n (concat ps), qs)" "concat qs = drop n (concat ps)"
  using assms recv_loop_spec [of n ps "[]"] by (auto simp: recvAll_loop)

lemma recvAll_SomeD:
  assumes "recvAll n ps = Some (d, qs)"
  shows "0 < n" "length d = n" "concat ps = d @ concat qs"
proof -
  show n: "0 < n"
  proof (rule ccontr)
    assume "\<not> 0 < n"
    then have "tcp_recv n ps = None" using tcp_recv_size [of n ps] by (cases "tcp_recv n ps") auto
    then show False using assms by (simp add: recvAll_def)
  qed
  then show "length d = n" "concat ps = d @ concat qs"
    using assms recv_loop_spec [of n ps "[]"] by (auto simp: recvAll_loop split: if_splits)
qed

section \<open>Readers\<close>

text \<open>What every reader promises: the data it gives is what comes from its socket, without a gap, and is
  not empty.\<close>

locale lossless_reader =
  fixes getData :: "'s \<Rightarrow> (u8 list \<times> 's) option"
    and pending :: "'s \<Rightarrow> u8 list"
  assumes lossless: "getData s = Some (d, s') \<Longrightarrow> pending s = d @ pending s'"
    and not_empty: "getData s = Some (d, s') \<Longrightarrow> d \<noteq> []"

primrec reads :: "('s \<Rightarrow> (u8 list \<times> 's) option) \<Rightarrow> nat \<Rightarrow> 's \<Rightarrow> (u8 list list \<times> 's) option" where
  "reads get 0 s = Some ([], s)"
| "reads get (Suc n) s = (case get s of
     None \<Rightarrow> None
   | Some (d, s) \<Rightarrow> map_option (\<lambda>(ds, s). (d # ds, s)) (reads get n s))"

context lossless_reader begin

lemma reads_lossless: "reads getData n s = Some (ds, s') \<Longrightarrow> pending s = concat ds @ pending s' \<and> length ds = n"
  by (induction n arbitrary: s ds) (auto split: option.splits dest!: lossless)

lemma reads_end: "reads getData n s \<noteq> None \<Longrightarrow> n \<le> length (pending s)"
proof (induction n arbitrary: s)
  case (Suc n)
  then obtain d s' where d: "getData s = Some (d, s')" by (auto split: option.splits)
  moreover have "reads getData n s' \<noteq> None" using Suc.prems d by simp
  moreover have "0 < length d" using not_empty [OF d] by simp
  ultimately show ?case using Suc.IH [of s'] lossless [OF d] by (cases d) simp_all
qed simp

end

section \<open>Flash video\<close>

record flv =
  fl_real :: "u8 list"
  fl_broken :: nat
  fl_in :: pieces

definition FLV_UI32 :: "u8 list \<Rightarrow> int" where
  "FLV_UI32 x = (let n = ((uint (x ! 0) * 256 + uint (x ! 1)) * 256 + uint (x ! 2)) * 256 + uint (x ! 3)
     in if n < 2 ^ 31 then n else n - 2 ^ 32)"

definition FLV_UI24 :: "u8 list \<Rightarrow> nat" where
  "FLV_UI24 x = (unat (x ! 0) * 256 + unat (x ! 1)) * 256 + unat (x ! 2)"

definition flv_header :: "u8 list" where
  "flv_header = [0x46, 0x4C, 0x56, 1, 5, 0, 0, 0, 9, 0, 0, 0, 0]"

definition flv_new :: "pieces \<Rightarrow> flv" where
  "flv_new ps = \<lparr>fl_real = [], fl_broken = 0, fl_in = ps\<rparr>"

text \<open>The header of the file: its length without the first tag size is in its last four bytes.  A length
  that is not more than the nine bytes that have been read already is a failed assertion; a negative
  one is an exception of the allocation.\<close>

definition flv_start :: "flv \<Rightarrow> flv option" where
  "flv_start s = do {
     (header, ps) \<leftarrow> recvAll 9 (fl_in s);
     let real_size = FLV_UI32 (drop 5 header) + 4;
     if real_size \<le> 9 \<or> 2 ^ 31 \<le> real_size then None else do {
       (rest, ps) \<leftarrow> recvAll (nat real_size - 9) ps;
       Some (s\<lparr>fl_real := header @ rest, fl_in := ps\<rparr>) } }"

definition flv_getData :: "flv \<Rightarrow> (u8 list \<times> flv) option" where
  "flv_getData s = do {
     s \<leftarrow> (if fl_real s = [] then flv_start s else Some s);
     (tag, ps) \<leftarrow> recvAll 11 (fl_in s);
     (real, ps) \<leftarrow> recvAll (FLV_UI24 (drop 1 tag) + 4) ps;
     Some (tag @ real, s\<lparr>fl_in := ps, fl_broken := fl_broken s + (if tag ! 0 \<in> {8, 9, 18} then 0 else 1)\<rparr>) }"

text \<open>The bytes behind the header.\<close>

definition flv_pending :: "flv \<Rightarrow> u8 list" where
  "flv_pending s = (let bs = concat (fl_in s) in if fl_real s = [] then drop (nat (FLV_UI32 (take 4 (drop 5 bs)) + 4)) bs else bs)"

lemma flv_start_SomeD:
  assumes "flv_start s = Some s'" "fl_real s = []"
  shows "fl_real s' \<noteq> []" "concat (fl_in s) = fl_real s' @ concat (fl_in s')"
    "int (length (fl_real s')) = FLV_UI32 (drop 5 (fl_real s')) + 4" "fl_broken s' = fl_broken s"
    "9 \<le> length (fl_real s')"
proof -
  obtain header ps rest ps' where
    h: "recvAll 9 (fl_in s) = Some (header, ps)" "9 < FLV_UI32 (drop 5 header) + 4"
      "recvAll (nat (FLV_UI32 (drop 5 header) + 4) - 9) ps = Some (rest, ps')"
      "s' = s\<lparr>fl_real := header @ rest, fl_in := ps'\<rparr>"
    using assms(1) unfolding flv_start_def by (auto simp: Let_def Option.bind_eq_Some_conv split: if_splits)
  note a = recvAll_SomeD [OF h(1)] and b = recvAll_SomeD [OF h(3)]
  have u: "FLV_UI32 (drop 5 (header @ rest)) = FLV_UI32 (drop 5 header)"
    using a(2) by (simp add: FLV_UI32_def nth_append)
  show "fl_real s' \<noteq> []" "concat (fl_in s) = fl_real s' @ concat (fl_in s')" "fl_broken s' = fl_broken s" "9 \<le> length (fl_real s')"
    using a b h(4) by auto
  show "int (length (fl_real s')) = FLV_UI32 (drop 5 (fl_real s')) + 4"
    using a(2) b(2) h(2,4) u by simp
qed

lemma flv_getData_SomeD:
  assumes "flv_getData s = Some (d, s')"
  shows "flv_pending s = d @ flv_pending s'" "11 \<le> length d" "fl_real s' \<noteq> []"
proof -
  obtain s1 tag ps real ps' where
    s1: "(if fl_real s = [] then flv_start s else Some s) = Some s1"
    and t: "recvAll 11 (fl_in s1) = Some (tag, ps)" "recvAll (FLV_UI24 (drop 1 tag) + 4) ps = Some (real, ps')"
    and d: "d = tag @ real" and s': "fl_in s' = ps'" "fl_real s' = fl_real s1"
    using assms unfolding flv_getData_def by (auto simp: Option.bind_eq_Some_conv split: prod.splits)
  note a = recvAll_SomeD [OF t(1)] and b = recvAll_SomeD [OF t(2)]
  have p: "fl_real s1 \<noteq> [] \<and> flv_pending s = concat (fl_in s1)"
  proof (cases "fl_real s = []")
    case True
    then have st: "flv_start s = Some s1" using s1 by simp
    note h = flv_start_SomeD [OF st True]
    have "FLV_UI32 (take 4 (drop 5 (concat (fl_in s)))) = FLV_UI32 (drop 5 (fl_real s1))"
      using h(2,5) by (simp add: FLV_UI32_def nth_append)
    then show ?thesis using h True by (simp add: flv_pending_def Let_def)
  next
    case False
    then show ?thesis using s1 by (simp add: flv_pending_def)
  qed
  then show "flv_pending s = d @ flv_pending s'" "fl_real s' \<noteq> []" "11 \<le> length d"
    using a b s' d by (simp_all add: flv_pending_def)
qed

interpretation flv: lossless_reader flv_getData flv_pending
proof
  fix s d s'
  assume a: "flv_getData s = Some (d, s')"
  show "flv_pending s = d @ flv_pending s'" by (rule flv_getData_SomeD(1) [OF a])
  show "d \<noteq> []" using flv_getData_SomeD(2) [OF a] by auto
qed

text \<open>A header and a tag as they are meant: the lengths they contain are their own.\<close>

definition flv_head_ok :: "u8 list \<Rightarrow> bool" where
  "flv_head_ok h \<longleftrightarrow> 9 < length h \<and> length h < 2 ^ 31 \<and> FLV_UI32 (drop 5 h) + 4 = int (length h)"

definition flv_tag_ok :: "u8 list \<Rightarrow> bool" where
  "flv_tag_ok t \<longleftrightarrow> 11 \<le> length t \<and> length t = 11 + (FLV_UI24 (drop 1 t) + 4)"

definition flv_known :: "u8 list \<Rightarrow> bool" where
  "flv_known t \<longleftrightarrow> t ! 0 \<in> {8, 9, 18}"

lemma recvAll_append:
  assumes "concat ps = a @ r" "a \<noteq> []"
  obtains qs where "recvAll (length a) ps = Some (a, qs)" "concat qs = r"
proof -
  have "0 < length a" "length a \<le> length (concat ps)" using assms by simp_all
  then obtain qs where "recvAll (length a) ps = Some (take (length a) (concat ps), qs)" "concat qs = drop (length a) (concat ps)"
    by (rule recvAll_SomeI)
  then show thesis using that assms(1) by simp
qed

lemma cut_at:
  assumes "0 < k" "k \<le> length t"
  shows "t @ r = take k t @ drop k t @ r" "take k t \<noteq> []" "length (take k t) = k" "length (drop k t) = length t - k"
  using assms by auto

lemma flv_tag_read:
  assumes "flv_tag_ok t" "concat (fl_in s) = t @ r" "fl_real s \<noteq> []"
  obtains s' where "flv_getData s = Some (t, s')" "concat (fl_in s') = r" "fl_real s' = fl_real s"
    "fl_broken s' = fl_broken s + (if flv_known t then 0 else 1)"
proof -
  have l: "11 \<le> length t" "length t = 11 + (FLV_UI24 (drop 1 t) + 4)" using assms(1) unfolding flv_tag_ok_def by blast+
  note c = cut_at [OF zero_less_numeral l(1)]
  have t: "concat (fl_in s) = take 11 t @ drop 11 t @ r" "take 11 t \<noteq> []"
    unfolding assms(2) by (rule c)+
  have n0: "length (take 11 t) = 11" by (rule c)
  obtain ps where a: "recvAll 11 (fl_in s) = Some (take 11 t, ps)" "concat ps = drop 11 t @ r"
    by (rule recvAll_append [OF t, unfolded n0])
  have u: "FLV_UI24 (drop 1 (take 11 t)) = FLV_UI24 (drop 1 t)" using l(1) by (simp add: FLV_UI24_def)
  have n: "length (drop 11 t) = FLV_UI24 (drop 1 (take 11 t)) + 4"
    unfolding u by (subst c(4), subst l(2)) (rule add_diff_cancel_left')
  then have "drop 11 t \<noteq> []" by (cases "drop 11 t") simp_all
  then obtain qs where b: "recvAll (length (drop 11 t)) ps = Some (drop 11 t, qs)" "concat qs = r"
    by (rule recvAll_append [OF a(2)])
  show thesis
    using that [of "s\<lparr>fl_in := qs, fl_broken := fl_broken s + (if flv_known t then 0 else 1)\<rparr>"] a b assms(3) n l(1)
    by (simp add: flv_getData_def flv_known_def)
qed

lemma flv_head_read:
  assumes "flv_head_ok h" "concat (fl_in s) = h @ r"
  obtains s' where "flv_start s = Some s'" "concat (fl_in s') = r" "fl_real s' = h" "fl_broken s' = fl_broken s"
proof -
  have l: "9 < length h" "length h < 2 ^ 31" "FLV_UI32 (drop 5 h) + 4 = int (length h)" using assms(1) unfolding flv_head_ok_def by blast+
  note c = cut_at [OF zero_less_numeral less_imp_le [OF l(1)]]
  have t: "concat (fl_in s) = take 9 h @ drop 9 h @ r" "take 9 h \<noteq> []"
    unfolding assms(2) by (rule c)+
  have n0: "length (take 9 h) = 9" by (rule c)
  obtain ps where a: "recvAll 9 (fl_in s) = Some (take 9 h, ps)" "concat ps = drop 9 h @ r"
    by (rule recvAll_append [OF t, unfolded n0])
  have u: "FLV_UI32 (drop 5 (take 9 h)) = FLV_UI32 (drop 5 h)" using l(1) by (simp add: FLV_UI32_def)
  obtain qs where b: "recvAll (length (drop 9 h)) ps = Some (drop 9 h, qs)" "concat qs = r"
    by (rule recvAll_append [OF a(2)]) (use l in auto)
  have n: "nat (FLV_UI32 (drop 5 (take 9 h)) + 4) - 9 = length (drop 9 h)" using l u by simp
  show thesis
    using that [of "s\<lparr>fl_real := h, fl_in := qs\<rparr>"] a b(1) b(2) l u n
    by (simp add: flv_start_def Let_def)
qed

lemma flv_tags_read:
  assumes "\<forall>t \<in> set tags. flv_tag_ok t" "concat (fl_in s) = concat tags @ r" "fl_real s \<noteq> []"
  shows "\<exists>s'. reads flv_getData (length tags) s = Some (tags, s') \<and> concat (fl_in s') = r \<and>
    fl_broken s' = fl_broken s + length (filter (\<lambda>t. \<not> flv_known t) tags)"
  using assms
proof (induction tags arbitrary: s)
  case (Cons t tags)
  have ok: "flv_tag_ok t" "concat (fl_in s) = t @ concat tags @ r" using Cons.prems by simp_all
  obtain s1 where s1: "flv_getData s = Some (t, s1)" "concat (fl_in s1) = concat tags @ r" "fl_real s1 = fl_real s"
    "fl_broken s1 = fl_broken s + (if flv_known t then 0 else 1)"
    using flv_tag_read [OF ok Cons.prems(3)] by blast
  obtain s' where "reads flv_getData (length tags) s1 = Some (tags, s')" "concat (fl_in s') = r"
    "fl_broken s' = fl_broken s1 + length (filter (\<lambda>t. \<not> flv_known t) tags)"
    using Cons.IH [of s1] Cons.prems s1 by auto
  then show ?case using s1 by simp
qed simp

text \<open>A stream of flash video is taken apart into its tags, in whatever pieces it comes: after the header
  of the stream every read gives the next tag, complete and nothing else, and the tags of an unknown
  type are counted as broken.\<close>

theorem flv_stream_tags:
  assumes "flv_head_ok h" "\<forall>t \<in> set tags. flv_tag_ok t" "concat ps = h @ concat tags @ rest" "tags \<noteq> []"
  shows "\<exists>s. reads flv_getData (length tags) (flv_new ps) = Some (tags, s) \<and> concat (fl_in s) = rest \<and>
    fl_real s = h \<and> fl_broken s = length (filter (\<lambda>t. \<not> flv_known t) tags)"
proof -
  obtain t ts where tags: "tags = t # ts" using assms(4) by (cases tags) auto
  have p: "concat (fl_in (flv_new ps)) = h @ concat tags @ rest" "fl_real (flv_new ps) = []" "fl_broken (flv_new ps) = 0"
    using assms(3) by (simp_all add: flv_new_def)
  obtain s0 where s0: "flv_start (flv_new ps) = Some s0" "concat (fl_in s0) = concat tags @ rest" "fl_real s0 = h"
    "fl_broken s0 = fl_broken (flv_new ps)" by (rule flv_head_read [OF assms(1) p(1)])
  have h: "h \<noteq> []" using assms(1) by (auto simp: flv_head_ok_def)
  have g: "flv_getData (flv_new ps) = flv_getData s0" using s0(1,3) h p(2) by (simp add: flv_getData_def)
  have r: "reads flv_getData (length tags) (flv_new ps) = reads flv_getData (length tags) s0"
    unfolding tags by (simp add: g)
  have real: "reads flv_getData n s = Some (ds, s') \<Longrightarrow> fl_real s = h \<Longrightarrow> fl_real s' = h" for n s ds s'
  proof (induction n arbitrary: s ds)
    case (Suc n)
    then obtain d s1 where d: "flv_getData s = Some (d, s1)" by (auto split: option.splits)
    have "fl_real s1 = fl_real s" using d Suc.prems(2) h
      by (auto simp: flv_getData_def Option.bind_eq_Some_conv split: prod.splits)
    then show ?case using Suc d by (auto split: option.splits)
  qed simp
  show ?thesis
    using flv_tags_read [of tags s0 rest] assms(2) s0 p(3) h r real by fastforce
qed

definition example_flv :: "u8 list" where
  "example_flv = flv_header @ [9, 0, 0, 2, 0, 0, 0, 0, 0, 0, 0, 7, 7, 0, 0, 0, 13] @ [5, 0, 0, 0, 0, 0, 40, 0, 0, 0, 0, 0, 0, 0, 11]"

theorem flv_stream_tags_witness:
  "\<exists>s. reads flv_getData 2 (flv_new (map (\<lambda>b. [b]) example_flv)) =
     Some ([[9, 0, 0, 2, 0, 0, 0, 0, 0, 0, 0, 7, 7, 0, 0, 0, 13], [5, 0, 0, 0, 0, 0, 40, 0, 0, 0, 0, 0, 0, 0, 11]], s) \<and>
   fl_real s = flv_header \<and> fl_broken s = 1"
proof -
  let ?tags = "[[9, 0, 0, 2, 0, 0, 0, 0, 0, 0, 0, 7, 7, 0, 0, 0, 13], [5, 0, 0, 0, 0, 0, 40, 0, 0, 0, 0, 0, 0, 0, 11]] :: u8 list list"
  have h: "flv_head_ok flv_header" by (simp add: flv_head_ok_def flv_header_def FLV_UI32_def)
  have t: "\<forall>t \<in> set ?tags. flv_tag_ok t" by (simp add: flv_tag_ok_def FLV_UI24_def)
  have c: "concat (map (\<lambda>b. [b]) example_flv) = flv_header @ concat ?tags @ []" by (simp add: example_flv_def)
  have n: "length ?tags = 2" "?tags \<noteq> []" by simp_all
  have k: "length (filter (\<lambda>t. \<not> flv_known t) ?tags) = 1" by (simp add: flv_known_def)
  show ?thesis using flv_stream_tags [OF h t c n(2)] unfolding n(1) k by blast
qed

text \<open>A header whose length is not larger than the part that is read first is refused.\<close>

lemma flv_short_header: "concat ps = h @ r \<Longrightarrow> length h = 9 \<Longrightarrow> FLV_UI32 (drop 5 h) \<le> 5 \<Longrightarrow> flv_getData (flv_new ps) = None"
proof -
  assume a: "concat ps = h @ r" "length h = 9" "FLV_UI32 (drop 5 h) \<le> 5"
  then obtain qs where "recvAll 9 ps = Some (h, qs)" using recvAll_append [OF a(1)] by (metis list.size(3) zero_neq_numeral)
  then show ?thesis using a(3) by (simp add: flv_getData_def flv_start_def flv_new_def Let_def)
qed

section \<open>Transport streams and plain data\<close>

definition MPEGTS_PACKET_SIZE :: nat where "MPEGTS_PACKET_SIZE = 188"
definition SOCKBUFFSIZE :: nat where "SOCKBUFFSIZE = 16384"

definition mpegts_getData :: "pieces \<Rightarrow> (u8 list \<times> pieces) option" where
  "mpegts_getData ps = recvAll (MPEGTS_PACKET_SIZE * 1050) ps"

interpretation mpegts: lossless_reader mpegts_getData concat
proof
  fix ps d qs
  assume "mpegts_getData ps = Some (d, qs)"
  note r = recvAll_SomeD [OF this [unfolded mpegts_getData_def]]
  show "concat ps = d @ concat qs" by (rule r(3))
  show "d \<noteq> []" using r(1,2) by (metis list.size(3) less_numeral_extra(3))
qed

text \<open>Reading goes on while the buffer has been filled; \<open>data\<close> is what was read before.\<close>

function txt_loop :: "u8 list \<Rightarrow> pieces \<Rightarrow> (u8 list \<times> pieces) option" where
  "txt_loop data ps = (case tcp_recv SOCKBUFFSIZE ps of
     None \<Rightarrow> None
   | Some (tmp, ps) \<Rightarrow> if length tmp = SOCKBUFFSIZE then txt_loop (data @ tmp) ps else Some (data @ tmp, ps))"
  by pat_completeness auto
termination
proof (relation "measure (\<lambda>(_, ps). length (concat ps))")
  fix data :: "u8 list" and ps r tmp qs
  assume "tcp_recv SOCKBUFFSIZE ps = Some r" "(tmp, qs) = r"
  then have "tmp \<noteq> []" "concat ps = tmp @ concat qs" using tcp_recv_size [of SOCKBUFFSIZE ps tmp qs] by simp_all
  then show "((data @ tmp, qs), (data, ps)) \<in> measure (\<lambda>(_, ps). length (concat ps))" by (cases tmp) simp_all
qed simp

declare txt_loop.simps [simp del]

definition txt_getData :: "pieces \<Rightarrow> (u8 list \<times> pieces) option" where
  "txt_getData ps = txt_loop [] ps"

lemma txt_loop_SomeD: "txt_loop data ps = Some (d, qs) \<Longrightarrow> \<exists>e. e \<noteq> [] \<and> d = data @ e \<and> concat ps = e @ concat qs"
proof (induction data ps rule: txt_loop.induct)
  case (1 data ps)
  then obtain tmp rs where r: "tcp_recv SOCKBUFFSIZE ps = Some (tmp, rs)" by (subst (asm) txt_loop.simps) (auto split: option.splits)
  note s = tcp_recv_size [OF r]
  show ?case
  proof (cases "length tmp = SOCKBUFFSIZE")
    case True
    then have "txt_loop (data @ tmp) rs = Some (d, qs)" using 1(2) r by (subst (asm) txt_loop.simps) simp
    then show ?thesis using 1(1) [OF r refl True] s by auto
  next
    case False
    then show ?thesis using 1(2) r s by (subst (asm) txt_loop.simps) auto
  qed
qed

interpretation plain: lossless_reader txt_getData concat
  by unfold_locales (auto simp: txt_getData_def dest!: txt_loop_SomeD)

text \<open>What came before the end of the connection is lost if it just fills the buffer.\<close>

lemma txt_end_lost: "length d = SOCKBUFFSIZE \<Longrightarrow> txt_getData [d] = None"
proof -
  assume d: "length d = SOCKBUFFSIZE"
  then have "d \<noteq> []" "SOCKBUFFSIZE \<noteq> 0" by (auto simp: SOCKBUFFSIZE_def)
  then have "tcp_recv SOCKBUFFSIZE [d] = Some (d, [])" using d by simp
  then have "txt_loop [] [d] = txt_loop ([] @ d) []" using d by (subst txt_loop.simps) simp
  moreover have "txt_loop ([] @ d) [] = None" by (subst txt_loop.simps) simp
  ultimately show ?thesis by (simp add: txt_getData_def)
qed

section \<open>Theora\<close>

text \<open>A page of an OGG stream as the library \<^verbatim>\<open>libogg\<close> gives it.  The library is a function \<open>pageout\<close> from the
  bytes it has been given to a page, or \<open>None\<close> if there is none yet, and the bytes it keeps.\<close>

record ogg_page =
  pg_header :: "u8 list"
  pg_body :: "u8 list"
  pg_serial :: int
  pg_bos :: bool
  pg_continued :: bool

type_synonym pageout = "u8 list \<Rightarrow> ogg_page option \<times> u8 list"

record theora =
  to_header :: "u8 list"
  to_sync :: "u8 list"
  to_streams :: "int \<Rightarrow> bool"
  to_in :: pieces

definition page2Data :: "ogg_page \<Rightarrow> u8 list" where
  "page2Data p = pg_header p @ pg_body p"

text \<open>The buffer is as large as the data that was read last, at first 4096 bytes.\<close>

function getPage :: "pageout \<Rightarrow> nat \<Rightarrow> u8 list \<Rightarrow> pieces \<Rightarrow> (ogg_page \<times> u8 list \<times> pieces) option" where
  "getPage out n buf ps = (case out buf of
     (Some p, buf) \<Rightarrow> Some (p, buf, ps)
   | (None, buf) \<Rightarrow> (case tcp_recv n ps of None \<Rightarrow> None | Some (d, ps) \<Rightarrow> getPage out (length d) (buf @ d) ps))"
  by pat_completeness auto
termination
proof (relation "measure (\<lambda>(_, _, _, ps). length (concat ps))", goal_cases)
  case (2 out n buf ps x buf' r d qs)
  then have "d \<noteq> []" "concat ps = d @ concat qs" using tcp_recv_size [of n ps d qs] by auto
  then show ?case by (cases d) simp_all
qed simp

declare getPage.simps [simp del]

text \<open>More pages are read as long as the last one is continued from one before.\<close>

function continued :: "pageout \<Rightarrow> bool \<Rightarrow> u8 list \<Rightarrow> u8 list \<Rightarrow> pieces \<Rightarrow> nat \<Rightarrow> (u8 list \<times> u8 list \<times> pieces) option" where
  "continued out c data buf ps 0 = None"
| "continued out c data buf ps (Suc n) =
     (if \<not> c then Some (data, buf, ps)
      else case getPage out 4096 buf ps of
        None \<Rightarrow> None
      | Some (p, buf, ps) \<Rightarrow>
          if page2Data p = [] then Some (data, buf, ps)
          else continued out (pg_continued p) (data @ page2Data p) buf ps n)"
  by pat_completeness auto
termination by (relation "measure (\<lambda>(_, _, _, _, _, n). n)") simp_all

text \<open>Every page takes some of the bytes that are left, so their number is enough fuel.\<close>

definition theora_getData :: "pageout \<Rightarrow> theora \<Rightarrow> (u8 list \<times> theora) option" where
  "theora_getData out s = do {
     (p, buf, ps) \<leftarrow> getPage out 4096 (to_sync s) (to_in s);
     let s = s\<lparr>to_sync := buf, to_in := ps\<rparr>;
     if page2Data p = [] then Some ([], s)
     else if pg_bos p
     then Some (page2Data p, s\<lparr>to_streams := (to_streams s)(pg_serial p := False), to_header := to_header s @ page2Data p\<rparr>)
     else do {
       (d, buf, ps) \<leftarrow> continued out (pg_continued p) (page2Data p) buf ps (length buf + length (concat ps) + 1);
       let s = s\<lparr>to_sync := buf, to_in := ps\<rparr>;
       Some (d, if to_streams s (pg_serial p) then s
         else s\<lparr>to_streams := (to_streams s)(pg_serial p := True), to_header := to_header s @ d\<rparr>) } }"

text \<open>A stream without garbage between its pages: the library takes the bytes of a page, and none if it does
  not give one.\<close>

definition ogg_clean :: "pageout \<Rightarrow> bool" where
  "ogg_clean out \<longleftrightarrow> (\<forall>b. case out b of (Some p, r) \<Rightarrow> b = page2Data p @ r | (None, r) \<Rightarrow> r = b)"

lemma getPage_clean:
  "ogg_clean out \<Longrightarrow> getPage out n buf ps = Some (p, buf', ps') \<Longrightarrow> buf @ concat ps = page2Data p @ buf' @ concat ps'"
proof (induction out n buf ps rule: getPage.induct)
  case (1 out n buf ps)
  obtain o' r where o: "out buf = (o', r)" by fastforce
  have c: "case (o', r) of (Some p, r) \<Rightarrow> buf = page2Data p @ r | (None, r) \<Rightarrow> r = buf"
    using spec [OF 1(2) [unfolded ogg_clean_def], of buf] o by simp
  show ?case
  proof (cases o')
    case None
    then obtain d qs where d: "tcp_recv n ps = Some (d, qs)" "getPage out (length d) (r @ d) qs = Some (p, buf', ps')"
      using 1(3) o by (subst (asm) getPage.simps) (auto split: option.splits)
    then have "(r @ d) @ concat qs = page2Data p @ buf' @ concat ps'"
      using 1(1) [OF o [symmetric] None _ refl] 1(2) by blast
    then show ?thesis using c None tcp_recv_size [OF d(1)] by simp
  next
    case (Some q)
    then show ?thesis using 1(3) o c by (subst (asm) getPage.simps) simp
  qed
qed

lemma continued_clean:
  "ogg_clean out \<Longrightarrow> continued out c data buf ps n = Some (d, buf', ps') \<Longrightarrow>
   \<exists>e. d = data @ e \<and> buf @ concat ps = e @ buf' @ concat ps'"
proof (induction n arbitrary: c data buf ps)
  case (Suc n)
  show ?case
  proof (cases c)
    case True
    then obtain p b qs where p: "getPage out 4096 buf ps = Some (p, b, qs)" using Suc.prems(2) by (auto split: option.splits)
    note g = getPage_clean [OF Suc.prems(1) p]
    show ?thesis
    proof (cases "page2Data p = []")
      case False
      then have "continued out (pg_continued p) (data @ page2Data p) b qs n = Some (d, buf', ps')" using Suc.prems(2) True p by simp
      from Suc.IH [OF Suc.prems(1) this] show ?thesis using g by auto
    qed (use Suc.prems(2) True p g in auto)
  qed (use Suc.prems in auto)
qed simp

lemma continued_fuel:
  "ogg_clean out \<Longrightarrow> length buf + length (concat ps) < n \<Longrightarrow> continued out c data buf ps (Suc n) = continued out c data buf ps n"
proof (induction n arbitrary: c data buf ps)
  case (Suc n)
  show ?case
  proof (cases "c \<and> (\<exists>p b qs. getPage out 4096 buf ps = Some (p, b, qs) \<and> page2Data p \<noteq> [])")
    case True
    then obtain p b qs where p: "getPage out 4096 buf ps = Some (p, b, qs)" "page2Data p \<noteq> []" by blast
    have "length (buf @ concat ps) = length (page2Data p @ b @ concat qs)" using getPage_clean [OF Suc.prems(1) p(1)] by simp
    then have "length b + length (concat qs) < n" using Suc.prems(2) p(2) by (cases "page2Data p") auto
    from Suc.IH [OF Suc.prems(1) this] show ?thesis using True p by simp
  next
    case False
    then show ?thesis by (auto split: option.splits)
  qed
qed simp

definition theora_pending :: "theora \<Rightarrow> u8 list" where
  "theora_pending s = to_sync s @ concat (to_in s)"

lemma theora_lossless:
  assumes "ogg_clean out" "theora_getData out s = Some (d, s')"
  shows "theora_pending s = d @ theora_pending s'"
proof -
  obtain p buf ps where p: "getPage out 4096 (to_sync s) (to_in s) = Some (p, buf, ps)"
    using assms(2) by (auto simp: theora_getData_def Option.bind_eq_Some_conv)
  note g = getPage_clean [OF assms(1) p]
  show ?thesis
  proof (cases "page2Data p = [] \<or> pg_bos p")
    case True
    then show ?thesis using assms(2) p g by (auto simp: theora_getData_def theora_pending_def Let_def split: if_splits)
  next
    case False
    then obtain b qs where c: "continued out (pg_continued p) (page2Data p) buf ps (length buf + length (concat ps) + 1) = Some (d, b, qs)"
      "to_sync s' = b" "to_in s' = qs"
      using assms(2) p by (auto simp: theora_getData_def Let_def Option.bind_eq_Some_conv split: if_splits)
    then show ?thesis using continued_clean [OF assms(1) c(1)] g by (auto simp: theora_pending_def)
  qed
qed

text \<open>What a client is sent first: every page that begins a stream, and the first packet of every stream.\<close>

lemma theora_header:
  assumes "theora_getData out s = Some (d, s')"
  shows "to_header s' = to_header s \<or> to_header s' = to_header s @ d"
proof -
  show ?thesis using assms
    by (auto simp: theora_getData_def Let_def Option.bind_eq_Some_conv split: if_splits)
qed

end
