(* ===== verification/Connthread.thy ===== *)
theory Connthread
  imports Reader Utils Semaphore Http_Stream
begin

text \<open>
  The connections of the http streamer, \<^verbatim>\<open>src/app/http-streamer/conthread.cpp\<close> and \<^verbatim>\<open>safelist.h\<close>: a thread
  reads the request of a client, answers it and sends what the thread of the program puts into its list.
  Its steps are interleaved with those of other threads, which add data or stop it.  \<^verbatim>\<open>send\<close> puts bytes into
  \<open>cx_out\<close> or fails, which ends the thread.  A date, the name of the version and what the reader of a
  program says are arguments.
\<close>

section \<open>The request\<close>

datatype request_type = REQ_UNKNOWN | HEAD | GET
datatype response_type = RES_UNKNOWN | RES_OK | RES_NOT_FOUND
datatype http_version = HTTP_UNKNOWN | HTTP10 | HTTP11

record http_conn =
  cx_request_type :: request_type
  cx_response_type :: response_type
  cx_http_version :: http_version
  cx_path :: string
  cx_data :: "u8 list list"
  cx_hang_time :: int
  cx_out :: "u8 list"

definition cx_new :: http_conn where
  "cx_new = \<lparr>cx_request_type = REQ_UNKNOWN, cx_response_type = RES_UNKNOWN, cx_http_version = HTTP_UNKNOWN,
     cx_path = [], cx_data = [], cx_hang_time = 0, cx_out = []\<rparr>"

text \<open>\<^verbatim>\<open>BinaryData::toString\<close> ends at the first zero.\<close>

definition data_string :: "u8 list \<Rightarrow> string" where
  "data_string bs = map (\<lambda>b. char_of (unat b)) (takeWhile (\<lambda>b. b \<noteq> 0) bs)"

definition string_data :: "string \<Rightarrow> u8 list" where
  "string_data s = map of_char s"

definition has_separator :: "string \<Rightarrow> bool" where
  "has_separator request \<longleftrightarrow> find_at [CR, NL, CR, NL] request \<noteq> None \<or> find_at [NL, NL] request \<noteq> None"

function read_request :: "string \<Rightarrow> pieces \<Rightarrow> (string \<times> pieces) option" where
  "read_request request ps =
     (case tcp_recv SOCKBUFFSIZE ps of
        None \<Rightarrow> None
      | Some (buff, ps) \<Rightarrow>
          let request = request @ data_string buff
          in if has_separator request then Some (request, ps) else read_request request ps)"
  by pat_completeness auto
termination
proof (relation "measure (\<lambda>(_, ps). length (concat ps))")
  fix request x :: string and ps r buff qs
  assume "tcp_recv SOCKBUFFSIZE ps = Some r" "(buff, qs) = r"
  then have "buff \<noteq> []" "concat ps = buff @ concat qs" using tcp_recv_size [of SOCKBUFFSIZE ps buff qs] by simp_all
  then show "((x, qs), (request, ps)) \<in> measure (\<lambda>(_, ps). length (concat ps))" by (cases buff) simp_all
qed simp

declare read_request.simps [simp del]

text \<open>The result is false for an exception.  What was stored before it stays.\<close>

definition parseRequest :: "string \<Rightarrow> http_conn \<Rightarrow> bool \<times> http_conn" where
  "parseRequest reqstr cx =
     (case split_data reqstr [TAB, CHR '' ''] of
        [m, p, v] \<Rightarrow>
          if m \<noteq> ''HEAD'' \<and> m \<noteq> ''GET'' then (False, cx)
          else
            (let cx = cx\<lparr>cx_request_type := if m = ''HEAD'' then HEAD else GET\<rparr>
             in if hd p \<noteq> CHR ''/'' then (False, cx)
                else
                  (let cx = cx\<lparr>cx_path := p, cx_http_version := HTTP_UNKNOWN\<rparr>
                   in if v = ''HTTP/1.0'' then (True, cx\<lparr>cx_http_version := HTTP10\<rparr>)
                      else if v = ''HTTP/1.1'' then (True, cx\<lparr>cx_http_version := HTTP11\<rparr>)
                      else (False, cx)))
      | _ \<Rightarrow> (False, cx))"

section \<open>The answer\<close>

definition ok_response :: "string \<Rightarrow> string \<Rightarrow> string \<Rightarrow> http_conn \<Rightarrow> string" where
  "ok_response date version ctype cx =
     ''HTTP/1.1 200 OK'' @ CRLF @ ''Date: '' @ date @ CRLF @ ''Server: '' @ version @ CRLF @
     ''Pragma: no-cache,private'' @ CRLF @ ''Cache-Control: no-cache'' @ CRLF @ ''Content-Type: '' @ ctype @ CRLF @
     (if cx_http_version cx = HTTP11 then ''Transfer-Encoding: chunked'' @ CRLF
      else ''Accept-Ranges: bytes'' @ CRLF @ ''Length: unspecified ['' @ ctype @ '']'' @ CRLF) @
     (if cx_http_version cx = HTTP11 \<and> cx_request_type cx = GET then ''Connection: keep-alive'' @ CRLF
      else ''Connection: close'' @ CRLF) @ CRLF"

definition page_not_found :: string where
  "page_not_found = ''<!DOCTYPE HTML PUBLIC '' @ [DQ] @ ''-//IETF//DTD HTML 2.0//EN'' @ [DQ] @
     ''><html><head><title>404 Not Found</title></head><body><h1>404 Not Found</h1></body></html>''"

definition not_found_response :: "string \<Rightarrow> string \<Rightarrow> http_conn \<Rightarrow> string" where
  "not_found_response date version cx =
     ''HTTP/1.1 404 Not Found'' @ CRLF @ ''Date: '' @ date @ CRLF @ ''Server: '' @ version @ CRLF @
     ''Pragma: no-cache,private'' @ CRLF @ ''Cache-Control: no-cache'' @ CRLF @ ''Connection: close'' @ CRLF @ CRLF @
     (if cx_request_type cx = GET then page_not_found else [])"

definition cx_send :: "u8 list \<Rightarrow> http_conn \<Rightarrow> http_conn" where
  "cx_send bs cx = cx\<lparr>cx_out := cx_out cx @ bs\<rparr>"

text \<open>A program with a reader, one whose source is not connected, or none for the path.  The result is false if
  the reader is missing, which is an exception.\<close>

datatype found = Not_found | No_reader | Program string

definition processResponse :: "string \<Rightarrow> string \<Rightarrow> found \<Rightarrow> http_conn \<Rightarrow> bool \<times> http_conn" where
  "processResponse date version inthread cx =
     (case inthread of
        Program ctype \<Rightarrow>
          (let cx = cx\<lparr>cx_response_type := RES_OK\<rparr> in (True, cx_send (string_data (ok_response date version ctype cx)) cx))
      | No_reader \<Rightarrow> (False, cx\<lparr>cx_response_type := RES_OK\<rparr>)
      | Not_found \<Rightarrow>
          (let cx = cx\<lparr>cx_response_type := RES_NOT_FOUND\<rparr>
           in (True, cx_send (string_data (not_found_response date version cx)) cx)))"

section \<open>Data\<close>

definition CONNECTIONBUFFER_MAX_SIZE :: nat where "CONNECTIONBUFFER_MAX_SIZE = 1 * 1024 * 1024"
definition WAITINTERVAL :: nat where "WAITINTERVAL = 100"
definition WAITINTERVAL4SLOW :: int where "WAITINTERVAL4SLOW = 60 * 10"

definition data_size :: "u8 list list \<Rightarrow> nat" where
  "data_size l = foldl (\<lambda>initial element. initial + length element) 0 l"

text \<open>The bytes that are sent for a portion of data.\<close>

definition data_bytes :: "http_version \<Rightarrow> u8 list \<Rightarrow> u8 list" where
  "data_bytes v data =
     (if data = [] \<and> v = HTTP11 then string_data (''0'' @ CRLF @ CRLF) else []) @
     (if v = HTTP11 then string_data (hex_nat (length data mod 2 ^ 32) @ CRLF) @ data @ string_data CRLF else data)"

definition sendData :: "u8 list \<Rightarrow> http_conn \<Rightarrow> http_conn" where
  "sendData data cx = cx_send (data_bytes (cx_http_version cx) data) cx"

section \<open>A request in pieces\<close>

text \<open>What the thread looks at: the first line that is not empty.\<close>

definition is_eol :: "char \<Rightarrow> bool" where
  "is_eol c \<longleftrightarrow> c = CR \<or> c = NL"

definition first_line :: "string \<Rightarrow> string" where
  "first_line s = takeWhile (\<lambda>c. \<not> is_eol c) (dropWhile is_eol s)"

lemma split_lines_hd:
  "dropWhile is_eol s \<noteq> [] \<Longrightarrow> \<exists>ls. split_data s [CR, NL] = first_line s # ls"
proof -
  assume ne: "dropWhile is_eol s \<noteq> []"
  let ?a = "takeWhile is_eol s" and ?t = "dropWhile is_eol s"
  have a: "set ?a \<subseteq> set [CR, NL]" by (auto simp: is_eol_def dest!: set_takeWhileD)
  have s: "split_data s [CR, NL] = split_data ?t [CR, NL]"
    using split_data_seps [OF a, of ?t] unfolding takeWhile_dropWhile_id .
  let ?l = "takeWhile (\<lambda>c. \<not> is_eol c) ?t" and ?r = "dropWhile (\<lambda>c. \<not> is_eol c) ?t"
  have nl: "set ?l \<inter> set [CR, NL] = {}" by (auto simp: is_eol_def dest!: set_takeWhileD)
  have l: "?l \<noteq> []" using ne hd_dropWhile [of is_eol s] by (metis takeWhile_eq_Nil_iff)
  show ?thesis
  proof (cases ?r)
    case Nil
    have "?l @ [] = ?t" using takeWhile_dropWhile_id [of "\<lambda>c. \<not> is_eol c" ?t] unfolding Nil .
    then have "?t = ?l" unfolding append_Nil2 by (rule sym)
    then have "split_data ?t [CR, NL] = [?l]" using split_data_part [OF nl l] by simp
    then show ?thesis using s by (simp add: first_line_def)
  next
    case (Cons d r)
    have "is_eol d" using hd_dropWhile [of "\<lambda>c. \<not> is_eol c" ?t] unfolding Cons by simp
    then have d: "set [d] \<subseteq> set [CR, NL]" by (auto simp: is_eol_def)
    have "?t = ?l @ [d] @ r" using takeWhile_dropWhile_id [of "\<lambda>c. \<not> is_eol c" ?t] Cons by simp
    then have "split_data ?t [CR, NL] = ?l # split_data r [CR, NL]" using split_data_append [OF nl l _ d, of r] by simp
    then show ?thesis using s by (simp add: first_line_def)
  qed
qed

lemma split_lines_none: "dropWhile is_eol s = [] \<Longrightarrow> split_data s [CR, NL] = []"
proof -
  assume "dropWhile is_eol s = []"
  then have "set s \<subseteq> set [CR, NL]" by (auto simp: dropWhile_eq_Nil_conv is_eol_def)
  then show ?thesis using split_data_seps [of s "[CR, NL]" "[]"] by (simp add: split_data_def)
qed

text \<open>Text behind the end of the first line does not change it.\<close>

lemma first_line_append:
  assumes "dropWhile (\<lambda>c. \<not> is_eol c) (dropWhile is_eol s) \<noteq> []"
  shows "first_line (s @ t) = first_line s"
proof -
  have d: "dropWhile is_eol (s @ t) = dropWhile is_eol s @ t"
  proof -
    have "dropWhile is_eol s \<noteq> []" using assms by (metis dropWhile.simps(1))
    then obtain x where "x \<in> set s" "\<not> is_eol x" by (auto simp: dropWhile_eq_Nil_conv)
    then show ?thesis by (rule dropWhile_append1)
  qed
  obtain x where "x \<in> set (dropWhile is_eol s)" "is_eol x" using assms by (auto simp: dropWhile_eq_Nil_conv)
  then show ?thesis unfolding first_line_def d by (intro takeWhile_append1) auto
qed

lemma data_string_append: "0 \<notin> set a \<Longrightarrow> data_string (a @ b) = data_string a @ data_string b"
proof -
  assume "0 \<notin> set a"
  then have "takeWhile (\<lambda>b. b \<noteq> 0) (a @ b) = a @ takeWhile (\<lambda>b. b \<noteq> 0) b" "takeWhile (\<lambda>b. b \<noteq> 0) a = a"
    by (induction a) auto
  then show ?thesis unfolding data_string_def by (simp only: map_append)
qed

lemma read_request_whole:
  "0 \<notin> set (concat ps) \<Longrightarrow> \<not> has_separator req \<Longrightarrow> has_separator (req @ data_string (concat ps)) \<Longrightarrow>
   \<exists>req' ps'. read_request req ps = Some (req', ps') \<and> has_separator req' \<and>
     req' @ data_string (concat ps') = req @ data_string (concat ps)"
proof (induction req ps rule: read_request.induct)
  case (1 req ps)
  have "concat ps \<noteq> []"
  proof
    assume "concat ps = []"
    then have "data_string (concat ps) = []" by (simp only: data_string_def takeWhile.simps list.map)
    then show False using 1(3,4) by simp
  qed
  then obtain buff qs where r: "tcp_recv SOCKBUFFSIZE ps = Some (buff, qs)"
    using tcp_recv_none [of SOCKBUFFSIZE ps] by (cases "tcp_recv SOCKBUFFSIZE ps") (auto simp: SOCKBUFFSIZE_def)
  note s = tcp_recv_size [OF r]
  have nz: "0 \<notin> set buff" "0 \<notin> set (concat qs)" using 1(2) unfolding conjunct2 [OF conjunct2 [OF s]] by simp_all
  have d: "req @ data_string (concat ps) = (req @ data_string buff) @ data_string (concat qs)"
    unfolding conjunct2 [OF conjunct2 [OF s]] data_string_append [OF nz(1)] by simp
  show ?case
  proof (cases "has_separator (req @ data_string buff)")
    case True
    then have "read_request req ps = Some (req @ data_string buff, qs)" using r by (subst read_request.simps) (simp add: Let_def)
    then show ?thesis using True d by simp
  next
    case False
    then have e: "read_request req ps = read_request (req @ data_string buff) qs" using r by (subst read_request.simps) (simp add: Let_def)
    show ?thesis unfolding e d by (rule 1(1) [OF r HOL.refl HOL.refl False nz(2) False]) (use 1(4) d in simp)
  qed
qed

lemma find_at_set: "find_at w s = Some p \<Longrightarrow> set w \<subseteq> set s"
proof -
  assume "find_at w s = Some p"
  then have "take (length w) (drop p s) = w" by (rule conjunct2 [OF find_at_SomeD])
  then show ?thesis using set_take_subset [of "length w" "drop p s"] set_drop_subset [of p s] by auto
qed

lemma has_separator_eol: "has_separator s \<Longrightarrow> \<exists>c \<in> set s. is_eol c"
  by (auto simp: has_separator_def is_eol_def dest!: find_at_set)

text \<open>C26: However the bytes of a request come in, the thread finds the end of it and takes the same first line
  as if it had come at once.\<close>

theorem request_in_pieces:
  assumes "0 \<notin> set (concat ps)" "has_separator (data_string (concat ps))" "\<not> is_eol (hd (data_string (concat ps)))"
  shows "\<exists>req ps' ls. read_request [] ps = Some (req, ps') \<and>
    split_data req [CR, NL] = first_line (data_string (concat ps)) # ls"
proof -
  have "\<not> has_separator []" by (simp add: has_separator_def)
  from read_request_whole [OF assms(1) this] obtain req ps' where
    r: "read_request [] ps = Some (req, ps')" "has_separator req" "req @ data_string (concat ps') = data_string (concat ps)"
    using assms(2) by auto
  obtain c where c: "c \<in> set req" "is_eol c" using has_separator_eol [OF r(2)] by blast
  have "req \<noteq> []" using c by auto
  then have h: "\<not> is_eol (hd req)" using assms(3) unfolding r(3) [symmetric] by simp
  then have d: "dropWhile is_eol req = req" using \<open>req \<noteq> []\<close> by (cases req) simp_all
  have "dropWhile (\<lambda>c. \<not> is_eol c) (dropWhile is_eol req) \<noteq> []"
    using c unfolding d by (auto simp: dropWhile_eq_Nil_conv)
  then have "first_line (data_string (concat ps)) = first_line req"
    unfolding r(3) [symmetric] by (rule first_line_append)
  then show ?thesis using split_lines_hd [of req] r(1) d \<open>req \<noteq> []\<close> by auto
qed

definition example_request :: string where
  "example_request = ''GET /tv HTTP/1.1'' @ CRLF @ ''Host: a'' @ CRLF @ CRLF"

theorem request_in_pieces_witness:
  "\<exists>req ps' ls. read_request [] (map (\<lambda>b. [b]) (string_data example_request)) = Some (req, ps') \<and>
    split_data req [CR, NL] = ''GET /tv HTTP/1.1'' # ls"
proof -
  let ?ps = "map (\<lambda>b. [b]) (string_data example_request)"
  have c: "concat ?ps = string_data example_request" by simp
  have s: "data_string (concat ?ps) = example_request" unfolding c by code_simp
  have z: "0 \<notin> set (concat ?ps)" unfolding c by code_simp
  have h: "has_separator (data_string (concat ?ps))" unfolding s by code_simp
  have n: "\<not> is_eol (hd (data_string (concat ?ps)))" unfolding s by code_simp
  have l: "first_line example_request = ''GET /tv HTTP/1.1''" by code_simp
  show ?thesis using request_in_pieces [OF z h n] unfolding s l .
qed

text \<open>A request that has no line is undefined: the thread takes the first of an empty list.\<close>

lemma request_without_line: "dropWhile is_eol req = [] \<Longrightarrow> split_data req [CR, NL] = []"
  by (rule split_lines_none)

section \<open>The thread and the others\<close>

text \<open>Where the thread is: before the request, the answer or the header of the program, at the head of the main
  loop, before or in the wait for data, behind it, at the loop that sends, behind its end, or behind an access
  outside of a vector.\<close>

datatype cpc = At_read | At_response | At_header | At_check | At_enter | At_wait | At_woken | At_send | At_end | At_undefined

record cthread =
  ct_pc :: cpc
  ct_cx :: http_conn
  ct_wait :: event
  ct_stopped :: bool

definition cthread_new :: cthread where
  "cthread_new = \<lparr>ct_pc = At_read, ct_cx = cx_new, ct_wait = event_new, ct_stopped = False\<rparr>"

definition isPathMatch :: "string \<Rightarrow> cthread \<Rightarrow> bool" where
  "isPathMatch path t \<longleftrightarrow> path = cx_path (ct_cx t)"

definition connect_stop :: "cthread \<Rightarrow> cthread" where
  "connect_stop t = t\<lparr>ct_stopped := True, ct_wait := snd (stopWait (ct_wait t))\<rparr>"

definition set_hang :: "int \<Rightarrow> cthread \<Rightarrow> cthread" where
  "set_hang v t = t\<lparr>ct_cx := (ct_cx t)\<lparr>cx_hang_time := v\<rparr>\<rparr>"

text \<open>Called by the thread of the program.\<close>

definition addData :: "string \<Rightarrow> u8 list \<Rightarrow> int \<Rightarrow> cthread \<Rightarrow> cthread" where
  "addData path data now t =
     (if \<not> isPathMatch path t then t
      else if data_size (cx_data (ct_cx t)) > CONNECTIONBUFFER_MAX_SIZE
      then
        (if cx_hang_time (ct_cx t) = 0
         then (set_hang now t)\<lparr>ct_wait := snd (stopWait (ct_wait t))\<rparr>
         else if now - cx_hang_time (ct_cx t) > WAITINTERVAL4SLOW then connect_stop t
         else t\<lparr>ct_wait := snd (stopWait (ct_wait t))\<rparr>)
      else
        (let t = set_hang 0 t
         in t\<lparr>ct_cx := (ct_cx t)\<lparr>cx_data := cx_data (ct_cx t) @ [data]\<rparr>, ct_wait := snd (stopWait (ct_wait t))\<rparr>))"

text \<open>Steps of other threads and results of calls: the pieces of a request, what is found for a path, the header
  of a program (or an exception if its reader is gone), the end of a wait, bytes of a portion that could
  be sent before \<^verbatim>\<open>send\<close> failed.\<close>

datatype clabel =
  Request pieces
| Respond string string found
| Header "u8 list option"
| Step
| Wait_ends wakeup
| Broken nat
| Add string "u8 list" int
| Stop

definition own :: "clabel \<Rightarrow> bool" where
  "own l \<longleftrightarrow> (case l of Add _ _ _ \<Rightarrow> False | Stop \<Rightarrow> False | _ \<Rightarrow> True)"

definition after_request :: "bool \<Rightarrow> cpc" where
  "after_request ok = (if ok then At_response else At_end)"

definition after_response :: "bool \<Rightarrow> http_conn \<Rightarrow> cpc" where
  "after_response ok cx = (if ok \<and> cx_request_type cx = GET \<and> cx_response_type cx = RES_OK then At_header else At_end)"

definition after_wait :: "result option \<Rightarrow> cpc" where
  "after_wait r = (case r of None \<Rightarrow> At_wait | Some rc \<Rightarrow> if rc = OK then At_woken else At_end)"

definition unless_stopped :: "cthread \<Rightarrow> cpc \<Rightarrow> cpc" where
  "unless_stopped t pc = (if ct_stopped t then At_end else pc)"

definition header_data :: "u8 list \<Rightarrow> u8 list list" where
  "header_data h = (if h = [] then [] else [h])"

lemmas after_defs = after_request_def after_response_def after_wait_def unless_stopped_def header_data_def

inductive cstep :: "cthread \<Rightarrow> clabel \<Rightarrow> cthread \<Rightarrow> bool" where
  read_fails: "ct_pc t = At_read \<Longrightarrow> read_request [] ps = None \<Longrightarrow> cstep t (Request ps) (t\<lparr>ct_pc := At_end\<rparr>)"
| read_undefined: "ct_pc t = At_read \<Longrightarrow> read_request [] ps = Some (req, ps') \<Longrightarrow> split_data req [CR, NL] = [] \<Longrightarrow>
    cstep t (Request ps) (t\<lparr>ct_pc := At_undefined\<rparr>)"
| read_parsed: "ct_pc t = At_read \<Longrightarrow> read_request [] ps = Some (req, ps') \<Longrightarrow> split_data req [CR, NL] = l # ls \<Longrightarrow>
    parseRequest l (ct_cx t) = (ok, cx) \<Longrightarrow> cstep t (Request ps) (t\<lparr>ct_cx := cx, ct_pc := after_request ok\<rparr>)"
| respond: "ct_pc t = At_response \<Longrightarrow> processResponse date version fnd (ct_cx t) = (ok, cx) \<Longrightarrow>
    cstep t (Respond date version fnd)
      (t\<lparr>ct_cx := cx,
         ct_pc := after_response ok cx\<rparr>)"
| header_gone: "ct_pc t = At_header \<Longrightarrow> cstep t (Header None) (t\<lparr>ct_pc := At_end\<rparr>)"
| header: "ct_pc t = At_header \<Longrightarrow>
    cstep t (Header (Some h))
      (t\<lparr>ct_cx := (ct_cx t)\<lparr>cx_data := cx_data (ct_cx t) @ header_data h\<rparr>, ct_pc := At_check\<rparr>)"
| check: "ct_pc t = At_check \<Longrightarrow> cstep t Step (t\<lparr>ct_pc := unless_stopped t At_enter\<rparr>)"
| enter: "ct_pc t = At_enter \<Longrightarrow> startWait (ct_wait t) = (r, e) \<Longrightarrow>
    cstep t Step (t\<lparr>ct_wait := e, ct_pc := after_wait r\<rparr>)"
| wake: "ct_pc t = At_wait \<Longrightarrow> wait_end WAITINTERVAL w (ct_wait t) = (r, e) \<Longrightarrow>
    cstep t (Wait_ends w)
      (t\<lparr>ct_wait := e, ct_pc := after_wait r\<rparr>)"
| woken: "ct_pc t = At_woken \<Longrightarrow> cstep t Step (t\<lparr>ct_pc := unless_stopped t At_send\<rparr>)"
| send_none: "ct_pc t = At_send \<Longrightarrow> cx_data (ct_cx t) = [] \<Longrightarrow> cstep t Step (t\<lparr>ct_pc := At_check\<rparr>)"
| send: "ct_pc t = At_send \<Longrightarrow> cx_data (ct_cx t) = d # ds \<Longrightarrow>
    cstep t Step (t\<lparr>ct_cx := sendData d ((ct_cx t)\<lparr>cx_data := ds\<rparr>)\<rparr>)"
| send_fails: "ct_pc t = At_send \<Longrightarrow> cx_data (ct_cx t) = d # ds \<Longrightarrow>
    cstep t (Broken n)
      (t\<lparr>ct_cx := cx_send (take n (data_bytes (cx_http_version (ct_cx t)) d)) ((ct_cx t)\<lparr>cx_data := ds\<rparr>), ct_pc := At_end\<rparr>)"
| respond_fails: "ct_pc t = At_response \<Longrightarrow> processResponse date version fnd (ct_cx t) = (ok, cx) \<Longrightarrow>
    cstep t (Broken n) (t\<lparr>ct_cx := cx\<lparr>cx_out := take n (cx_out cx)\<rparr>, ct_pc := At_end\<rparr>)"
| add: "path \<noteq> [] \<Longrightarrow> cstep t (Add path data now) (addData path data now t)"
| stop: "cstep t Stop (connect_stop t)"

inductive_cases cstepE: "cstep t l t'"

text \<open>The data that is put into the list.\<close>

definition accepted :: "cthread \<Rightarrow> clabel \<Rightarrow> u8 list list" where
  "accepted t l = (case l of
     Add path data _ \<Rightarrow> if isPathMatch path t \<and> data_size (cx_data (ct_cx t)) \<le> CONNECTIONBUFFER_MAX_SIZE then [data] else []
   | _ \<Rightarrow> [])"

text \<open>A run, with the labels of its steps and the data that was accepted.\<close>

inductive crun :: "cthread \<Rightarrow> clabel list \<Rightarrow> u8 list list \<Rightarrow> cthread \<Rightarrow> bool" where
  none: "crun t [] [] t"
| more: "crun t ls acc t' \<Longrightarrow> cstep t' l t'' \<Longrightarrow> crun t (ls @ [l]) (acc @ accepted t' l) t''"

section \<open>What a client gets\<close>

lemma conn_simps [simp]:
  "cx_request_type (cx_send b cx) = cx_request_type cx" "cx_response_type (cx_send b cx) = cx_response_type cx"
  "cx_http_version (cx_send b cx) = cx_http_version cx" "cx_path (cx_send b cx) = cx_path cx"
  "cx_data (cx_send b cx) = cx_data cx" "cx_hang_time (cx_send b cx) = cx_hang_time cx" "cx_out (cx_send b cx) = cx_out cx @ b"
  "cx_out (sendData d cx) = cx_out cx @ data_bytes (cx_http_version cx) d" "cx_data (sendData d cx) = cx_data cx"
  "cx_http_version (sendData d cx) = cx_http_version cx" "cx_request_type (sendData d cx) = cx_request_type cx"
  "cx_path (sendData d cx) = cx_path cx"
  by (simp_all add: cx_send_def sendData_def)

lemma addData_fields [simp]:
  "ct_pc (addData path d now t) = ct_pc t"
  "cx_out (ct_cx (addData path d now t)) = cx_out (ct_cx t)"
  "cx_path (ct_cx (addData path d now t)) = cx_path (ct_cx t)"
  "cx_http_version (ct_cx (addData path d now t)) = cx_http_version (ct_cx t)"
  "cx_request_type (ct_cx (addData path d now t)) = cx_request_type (ct_cx t)"
  "cx_data (ct_cx (addData path d now t)) = cx_data (ct_cx t) @ accepted t (Add path d now)"
  by (simp_all add: addData_def connect_stop_def set_hang_def accepted_def Let_def)

lemma connect_stop_fields [simp]: "ct_pc (connect_stop t) = ct_pc t" "ct_cx (connect_stop t) = ct_cx t"
  by (simp_all add: connect_stop_def)

text \<open>The answer to a request and what has been sent behind it, with the portions that came before the header
  of the program and those behind it.\<close>

definition answered_with :: "http_conn \<Rightarrow> u8 list \<Rightarrow> bool" where
  "answered_with cx resp \<longleftrightarrow> cx_request_type cx = GET \<and> cx_http_version cx \<in> {HTTP10, HTTP11} \<and>
     (\<exists>date version ctype. resp = string_data (ok_response date version ctype cx))"

definition streams :: "u8 list set \<Rightarrow> http_conn \<Rightarrow> u8 list list \<Rightarrow> u8 list list \<Rightarrow> bool" where
  "streams H cx acc taken \<longleftrightarrow>
     (\<exists>resp hs early late. answered_with cx resp \<and> cx_out cx = resp @ concat (map (data_bytes (cx_http_version cx)) taken) \<and>
        acc = early @ late \<and> taken @ cx_data cx = early @ hs @ late \<and> (hs = [] \<or> (\<exists>h \<in> H. h \<noteq> [] \<and> hs = [h])))"

definition cinv :: "u8 list set \<Rightarrow> cthread \<Rightarrow> u8 list list \<Rightarrow> bool" where
  "cinv H t acc \<longleftrightarrow> (case ct_pc t of
     At_read \<Rightarrow> cx_out (ct_cx t) = [] \<and> cx_data (ct_cx t) = [] \<and> cx_path (ct_cx t) = [] \<and> acc = []
   | At_response \<Rightarrow> cx_out (ct_cx t) = [] \<and> cx_data (ct_cx t) = acc \<and> cx_http_version (ct_cx t) \<in> {HTTP10, HTTP11}
   | At_header \<Rightarrow> answered_with (ct_cx t) (cx_out (ct_cx t)) \<and> cx_data (ct_cx t) = acc
   | At_end \<Rightarrow> True
   | At_undefined \<Rightarrow> True
   | _ \<Rightarrow> (\<exists>taken. streams H (ct_cx t) acc taken))"

definition serving :: "cthread \<Rightarrow> bool" where
  "serving t \<longleftrightarrow> ct_pc t \<in> {At_check, At_enter, At_wait, At_woken, At_send}"

lemma parseRequest_SomeD:
  "parseRequest l cx = (True, cx') \<Longrightarrow> cx_http_version cx' \<in> {HTTP10, HTTP11} \<and> cx_out cx' = cx_out cx \<and> cx_data cx' = cx_data cx"
  by (auto simp: parseRequest_def Let_def split: list.splits if_splits)

lemma ok_response_data [simp]:
  "ok_response date version ctype (cx\<lparr>cx_data := d\<rparr>) = ok_response date version ctype cx"
  "ok_response date version ctype (cx\<lparr>cx_hang_time := h\<rparr>) = ok_response date version ctype cx"
  "ok_response date version ctype (cx\<lparr>cx_out := b\<rparr>) = ok_response date version ctype cx"
  by (simp_all add: ok_response_def)

lemma answered_with_cong:
  "cx_request_type cx' = cx_request_type cx \<Longrightarrow> cx_http_version cx' = cx_http_version cx \<Longrightarrow>
   answered_with cx' resp = answered_with cx resp"
  by (simp add: answered_with_def ok_response_def)

lemma answered_with_addData [simp]: "answered_with (ct_cx (addData path d now t)) resp = answered_with (ct_cx t) resp"
  by (rule answered_with_cong) simp_all

lemma streams_addData:
  assumes "streams H (ct_cx t) acc taken"
  shows "streams H (ct_cx (addData path d now t)) (acc @ accepted t (Add path d now)) taken"
proof -
  obtain resp hs early late where s: "answered_with (ct_cx t) resp"
    "cx_out (ct_cx t) = resp @ concat (map (data_bytes (cx_http_version (ct_cx t))) taken)" "acc = early @ late"
    "taken @ cx_data (ct_cx t) = early @ hs @ late" "hs = [] \<or> (\<exists>h \<in> H. h \<noteq> [] \<and> hs = [h])"
    using assms unfolding streams_def by blast
  have "taken @ cx_data (ct_cx t) @ accepted t (Add path d now) = early @ hs @ late @ accepted t (Add path d now)"
    using s(4) by (metis append_assoc)
  then show ?thesis using s unfolding streams_def
    by (intro exI [of _ resp] exI [of _ hs] exI [of _ early] exI [of _ "late @ accepted t (Add path d now)"]) simp
qed

lemma streams_send:
  assumes "streams H cx acc taken" "cx_data cx = d # ds"
  shows "streams H (sendData d (cx\<lparr>cx_data := ds\<rparr>)) acc (taken @ [d])"
proof -
  have "answered_with (sendData d (cx\<lparr>cx_data := ds\<rparr>)) resp = answered_with cx resp" for resp by (rule answered_with_cong) simp_all
  then show ?thesis using assms unfolding streams_def by auto
qed

lemma streams_begin:
  assumes "answered_with cx (cx_out cx)" "cx_data cx = acc" "h \<in> H"
  shows "streams H (cx\<lparr>cx_data := acc @ header_data h\<rparr>) acc []"
proof -
  have "answered_with (cx\<lparr>cx_data := acc @ header_data h\<rparr>) (cx_out cx)"
    using assms(1) by (subst answered_with_cong [of _ cx]) (simp_all add: header_data_def)
  then show ?thesis using assms(3) unfolding streams_def
    by (intro exI [of _ "cx_out cx"] exI [of _ "if h = [] then [] else [h]"] exI [of _ acc] exI [of _ "[]"]) (simp add: header_data_def)
qed

lemma streams_fields [simp]: "streams H (ct_cx (t\<lparr>ct_pc := p\<rparr>)) acc taken = streams H (ct_cx t) acc taken" by simp

lemma accepted_own [simp]:
  "accepted t Step = []" "accepted t (Request ps) = []" "accepted t (Respond date version fnd) = []" "accepted t (Header h) = []"
  "accepted t (Wait_ends w) = []" "accepted t (Broken n) = []" "accepted t Stop = []"
  by (simp_all add: accepted_def)

lemma processResponse_program:
  assumes "processResponse date version fnd cx = (True, cx')" "cx_response_type cx' = RES_OK" "cx_out cx = []"
  shows "\<exists>ctype. cx_out cx' = string_data (ok_response date version ctype cx')" "cx_http_version cx' = cx_http_version cx"
    "cx_data cx' = cx_data cx"
  using assms by (auto simp: processResponse_def Let_def ok_response_def split: found.splits)

lemma cinv_step: "cstep t l t' \<Longrightarrow> cinv H t acc \<Longrightarrow> (\<And>h. l = Header (Some h) \<Longrightarrow> h \<in> H) \<Longrightarrow> cinv H t' (acc @ accepted t l)"
proof (induction rule: cstep.induct)
  case (read_parsed t ps req ps' l ls ok cx)
  then show ?case using parseRequest_SomeD [of l "ct_cx t" cx] by (cases ok) (simp_all add: cinv_def after_defs)
next
  case (respond t date version fnd ok cx)
  show ?case
  proof (cases "ok \<and> cx_request_type cx = GET \<and> cx_response_type cx = RES_OK")
    case True
    note p = processResponse_program [of date version fnd "ct_cx t" cx]
    have "answered_with cx (cx_out cx) \<and> cx_data cx = acc"
      using p True respond by (auto simp: cinv_def answered_with_def)
    then show ?thesis using True by (simp add: cinv_def after_defs)
  next
    case False
    then show ?thesis unfolding cinv_def after_defs by (simp only: if_False select_convs) simp
  qed
next
  case (header t h)
  then show ?case using streams_begin [of "ct_cx t" acc h H] by (auto simp: cinv_def after_defs)
next
  case (enter t r e)
  then show ?case by (auto simp: cinv_def after_defs split: option.split)
next
  case (wake t w r e)
  then show ?case by (auto simp: cinv_def after_defs split: option.split)
next
  case (send t d ds)
  then obtain taken where "streams H (ct_cx t) acc taken" by (auto simp: cinv_def after_defs)
  from streams_send [OF this send(2)] show ?case using send(1) by (auto simp: cinv_def after_defs)
next
  case (add path t data now)
  have "accepted t (Add path data now) = []" if "ct_pc t = At_read"
    using add that by (simp add: accepted_def isPathMatch_def cinv_def)
  then show ?case using add streams_addData [of H t acc _ path data now] by (auto simp: cinv_def after_defs split: cpc.splits)
qed (auto simp: cinv_def after_defs split: cpc.splits)

lemma cinv_new: "cinv H cthread_new []"
  by (simp add: cinv_def cthread_new_def cx_new_def)

lemma cinv_run: "crun t ls acc t' \<Longrightarrow> cinv H t [] \<Longrightarrow> (\<And>h. Header (Some h) \<in> set ls \<Longrightarrow> h \<in> H) \<Longrightarrow> cinv H t' acc"
  by (induction rule: crun.induct) (auto dest: cinv_step)

text \<open>The portions as the client decodes them.\<close>

lemma data_bytes_decode:
  assumes "v \<in> {HTTP10, HTTP11}" "[] \<notin> set ds" "\<forall>d \<in> set ds. length d < 2 ^ 32"
  shows "if v = HTTP11 then dechunk (concat (map (data_bytes v) ds)) = Some ds else concat (map (data_bytes v) ds) = concat ds"
proof -
  have "data_bytes v d = (if v = HTTP11 then chunk d else d)" if "d \<in> set ds" for d
    using that assms by (auto simp: data_bytes_def chunk_def string_data_def crlf_bytes_def)
  then have m: "map (data_bytes v) ds = (if v = HTTP11 then map chunk ds else ds)" by (auto intro: map_idI)
  show ?thesis unfolding m using dechunk_chunks [of ds] by simp
qed

lemma queue_suffix: "taken @ q = early @ hs @ late \<Longrightarrow> set taken \<subseteq> set early \<union> set hs \<union> set late"
  by (metis Un_assoc le_sup_iff order_refl set_append)


text \<open>The steps as a function, which runs an example.\<close>

fun cnext :: "clabel \<Rightarrow> cthread \<Rightarrow> cthread option" where
  "cnext (Request ps) t =
     (if ct_pc t \<noteq> At_read then None
      else case read_request [] ps of
        None \<Rightarrow> Some (t\<lparr>ct_pc := At_end\<rparr>)
      | Some (req, _) \<Rightarrow> (case split_data req [CR, NL] of
          [] \<Rightarrow> Some (t\<lparr>ct_pc := At_undefined\<rparr>)
        | l # _ \<Rightarrow> (case parseRequest l (ct_cx t) of (ok, cx) \<Rightarrow> Some (t\<lparr>ct_cx := cx, ct_pc := after_request ok\<rparr>))))"
| "cnext (Respond date version fnd) t =
     (if ct_pc t \<noteq> At_response then None
      else case processResponse date version fnd (ct_cx t) of (ok, cx) \<Rightarrow>
        Some (t\<lparr>ct_cx := cx, ct_pc := after_response ok cx\<rparr>))"
| "cnext (Header h) t =
     (if ct_pc t \<noteq> At_header then None
      else case h of None \<Rightarrow> Some (t\<lparr>ct_pc := At_end\<rparr>)
      | Some h \<Rightarrow> Some (t\<lparr>ct_cx := (ct_cx t)\<lparr>cx_data := cx_data (ct_cx t) @ header_data h\<rparr>, ct_pc := At_check\<rparr>))"
| "cnext Step t =
     (case ct_pc t of
        At_check \<Rightarrow> Some (t\<lparr>ct_pc := unless_stopped t At_enter\<rparr>)
      | At_enter \<Rightarrow> (case startWait (ct_wait t) of (r, e) \<Rightarrow>
          Some (t\<lparr>ct_wait := e, ct_pc := after_wait r\<rparr>))
      | At_woken \<Rightarrow> Some (t\<lparr>ct_pc := unless_stopped t At_send\<rparr>)
      | At_send \<Rightarrow> (case cx_data (ct_cx t) of
          [] \<Rightarrow> Some (t\<lparr>ct_pc := At_check\<rparr>)
        | d # ds \<Rightarrow> Some (t\<lparr>ct_cx := sendData d ((ct_cx t)\<lparr>cx_data := ds\<rparr>)\<rparr>))
      | _ \<Rightarrow> None)"
| "cnext (Wait_ends w) t =
     (if ct_pc t \<noteq> At_wait then None
      else case wait_end WAITINTERVAL w (ct_wait t) of (r, e) \<Rightarrow>
        Some (t\<lparr>ct_wait := e, ct_pc := after_wait r\<rparr>))"
| "cnext (Broken n) t = None"
| "cnext (Add path data now) t = (if path = [] then None else Some (addData path data now t))"
| "cnext Stop t = Some (connect_stop t)"

lemma cnext_cstep: "cnext l t = Some t' \<Longrightarrow> cstep t l t'"
  by (induction l t rule: cnext.induct) (auto split: if_splits option.splits list.splits prod.splits cpc.splits intro: cstep.intros)

definition follow :: "clabel list \<Rightarrow> cthread \<Rightarrow> (u8 list list \<times> cthread) option" where
  "follow ls t = foldl (\<lambda>s l. case s of None \<Rightarrow> None | Some (acc, t) \<Rightarrow> map_option (\<lambda>t'. (acc @ accepted t l, t')) (cnext l t))
     (Some ([], t)) ls"

lemma follow_run: "follow ls t = Some (acc, t') \<Longrightarrow> crun t ls acc t'"
  by (induction ls arbitrary: acc t' rule: rev_induct)
    (auto simp: follow_def split: option.splits intro: crun.intros dest: cnext_cstep)

text \<open>A client asks for \<^verbatim>\<open>/tv\<close> in the version before chunks; a portion comes before the header of the program,
  and another one before the first has been sent.\<close>

definition tv_labels :: "clabel list" where
  "tv_labels = [Request [string_data (''GET /tv HTTP/1.0'' @ CRLF @ CRLF)], Add ''/tv'' [1, 2] 5,
     Respond ''today'' ''v'' (Program ''a/b''), Header (Some [9]), Step, Step, Add ''/tv'' [3] 6, Wait_ends Wake, Step, Step]"

lemma tv_run: "\<exists>t. follow tv_labels cthread_new = Some ([[1, 2], [3]], t) \<and> ct_pc t = At_send \<and> cx_data (ct_cx t) = [[9], [3]]"
proof -
  let ?r = "''GET /tv HTTP/1.0'' @ CRLF @ CRLF"
  have d: "data_string (string_data ?r) = ?r" by code_simp
  have sep: "has_separator ?r" by code_simp
  have l: "length (string_data ?r) \<le> SOCKBUFFSIZE" "string_data ?r \<noteq> []" "SOCKBUFFSIZE \<noteq> 0"
    by (simp_all add: SOCKBUFFSIZE_def string_data_def CRLF_def)
  have "tcp_recv SOCKBUFFSIZE [string_data ?r] = Some (string_data ?r, [])" using l by simp
  then have rr: "read_request [] [string_data ?r] = Some (?r, [])"
    by (subst read_request.simps) (simp only: option.case prod.case append_Nil Let_def d sep if_True)
  have sp: "split_data ?r [CR, NL] = [''GET /tv HTTP/1.0'']" by code_simp
  have w: "split_data ''GET /tv HTTP/1.0'' [TAB, CHR '' ''] = [''GET'', ''/tv'', ''HTTP/1.0'']" by code_simp
  show ?thesis
    by (simp add: follow_def tv_labels_def rr [simplified] sp [simplified] parseRequest_def w cthread_new_def cx_new_def addData_def accepted_def isPathMatch_def
        data_size_def CONNECTIONBUFFER_MAX_SIZE_def set_hang_def Let_def processResponse_def after_defs stopWait_def event_new_def
        startWait_def wait_end_def event_done_def WAITINTERVAL_def)
qed


section \<open>The list is bounded\<close>

lemma data_size_sum: "data_size l = sum_list (map length l)"
proof -
  have "foldl (\<lambda>s e. s + length e) n l = n + sum_list (map length l)" for n by (induction l arbitrary: n) simp_all
  then show ?thesis by (simp add: data_size_def)
qed

text \<open>The list holds what was accepted when it was not full, and the header.\<close>

definition label_small :: "nat \<Rightarrow> clabel \<Rightarrow> bool" where
  "label_small n l \<longleftrightarrow> (case l of Add _ d _ \<Rightarrow> length d \<le> n | Header (Some h) \<Rightarrow> length h \<le> n | _ \<Rightarrow> True)"

definition early_pc :: "cpc \<Rightarrow> bool" where
  "early_pc pc \<longleftrightarrow> pc \<in> {At_read, At_response, At_header}"

definition room :: "nat \<Rightarrow> cthread \<Rightarrow> bool" where
  "room n t \<longleftrightarrow> data_size (cx_data (ct_cx t)) \<le> CONNECTIONBUFFER_MAX_SIZE + (if early_pc (ct_pc t) then n else 2 * n)"

lemma processResponse_data: "processResponse date version fnd cx = (ok, cx') \<Longrightarrow> cx_data cx' = cx_data cx"
  by (auto simp: processResponse_def Let_def split: found.splits)

lemma parseRequest_data: "parseRequest l cx = (ok, cx') \<Longrightarrow> cx_data cx' = cx_data cx"
  by (auto simp: parseRequest_def Let_def split: list.splits if_splits)

lemma accepted_size:
  "label_small n (Add path d now) \<Longrightarrow> data_size (cx_data (ct_cx t)) \<le> B \<Longrightarrow> CONNECTIONBUFFER_MAX_SIZE + n \<le> B \<Longrightarrow>
   data_size (cx_data (ct_cx t) @ accepted t (Add path d now)) \<le> B"
  by (auto simp: accepted_def label_small_def data_size_sum)

lemma room_step: "cstep t l t' \<Longrightarrow> label_small n l \<Longrightarrow> room n t \<Longrightarrow> room n t'"
proof (induction rule: cstep.induct)
  case (add path t data now)
  then show ?case unfolding room_def addData_fields by (intro accepted_size) auto
next
  case (header t h)
  then show ?case by (auto simp: room_def label_small_def data_size_sum header_data_def early_pc_def)
next
  case (respond t date version fnd ok cx)
  then show ?case using processResponse_data [OF respond(2)] by (auto simp: room_def early_pc_def after_defs)
next
  case (respond_fails t date version fnd ok cx m)
  then show ?case using processResponse_data [OF respond_fails(2)] by (auto simp: room_def early_pc_def)
next
  case (read_parsed t ps req ps' l ls ok cx)
  then show ?case using parseRequest_data [OF read_parsed(4)] by (auto simp: room_def early_pc_def after_defs)
qed (auto simp: room_def early_pc_def data_size_sum after_defs split: option.split)

lemma room_run: "crun t ls acc t' \<Longrightarrow> \<forall>l \<in> set ls. label_small n l \<Longrightarrow> room n t \<Longrightarrow> room n t'"
  by (induction rule: crun.induct) (auto dest: room_step)

text \<open>C24: Whatever is sent to a client that does not read, what waits for it is bounded: at most a mebibyte and
  two portions more, of which one is the header of the program.\<close>

theorem connection_bounded:
  assumes "crun cthread_new ls acc t" "\<forall>l \<in> set ls. label_small n l"
  shows "data_size (cx_data (ct_cx t)) \<le> CONNECTIONBUFFER_MAX_SIZE + 2 * n"
proof -
  have "room n cthread_new" by (simp add: room_def cthread_new_def cx_new_def data_size_def)
  from room_run [OF assms this] show ?thesis by (auto simp: room_def split: if_splits)
qed

theorem connection_bounded_witness:
  "\<exists>t. crun cthread_new tv_labels [[1, 2], [3]] t \<and> data_size (cx_data (ct_cx t)) \<le> CONNECTIONBUFFER_MAX_SIZE + 2 * 2"
proof -
  obtain t where t: "follow tv_labels cthread_new = Some ([[1, 2], [3]], t)" using tv_run by blast
  have l: "\<forall>l \<in> set tv_labels. label_small 2 l" by (simp add: tv_labels_def label_small_def)
  show ?thesis using connection_bounded [OF follow_run [OF t] l] follow_run [OF t] by blast
qed

section \<open>Events that are lost\<close>

text \<open>A stop that comes behind the look at the stop flag and before the wait is not noticed: the thread waits for
  data, and only the end of the wait lets it look again.\<close>

theorem connection_stop_lost:
  assumes "ct_pc t = At_enter" "ct_wait t = event_new"
  shows "\<exists>t' t''. cstep t Stop t' \<and> cstep t' Step t'' \<and> ct_stopped t'' \<and> ct_pc t'' = At_wait \<and> \<not> ev_exit (ct_wait t'')"
proof -
  let ?t' = "connect_stop t" and ?e = "event_new\<lparr>ev_loop := True\<rparr>"
  have s: "startWait (ct_wait ?t') = (None, ?e)"
    using assms(2) by (simp add: connect_stop_def stopWait_def startWait_def event_new_def)
  let ?t2 = "?t'\<lparr>ct_wait := ?e, ct_pc := after_wait None\<rparr>"
  have a: "cstep t Stop ?t'" by (rule cstep.stop)
  have b: "cstep ?t' Step ?t2" by (rule cstep.enter) (simp_all add: assms(1) s)
  have c: "ct_stopped ?t2 \<and> ct_pc ?t2 = At_wait \<and> \<not> ev_exit (ct_wait ?t2)"
    by (simp add: connect_stop_def after_wait_def event_new_def)
  from a b c show ?thesis by blast
qed

theorem connection_stop_lost_witness:
  "\<exists>t' t''. cstep (cthread_new\<lparr>ct_pc := At_enter\<rparr>) Stop t' \<and> cstep t' Step t'' \<and> ct_stopped t'' \<and> ct_pc t'' = At_wait"
  using connection_stop_lost [of "cthread_new\<lparr>ct_pc := At_enter\<rparr>"] by (auto simp: cthread_new_def)

text \<open>Data that comes there waits for the next portion, too; if there is none the thread gives up with the data
  in its list.\<close>

theorem connection_data_stuck:
  assumes "ct_pc t = At_enter" "ct_wait t = event_new" "isPathMatch path t" "path \<noteq> []" "cx_data (ct_cx t) = []"
  shows "\<exists>t' t'' t3. cstep t (Add path d now) t' \<and> cstep t' Step t'' \<and> cstep t'' (Wait_ends Wake_timeout) t3 \<and>
    ct_pc t'' = At_wait \<and> \<not> ev_exit (ct_wait t'') \<and> ct_pc t3 = At_end \<and> cx_data (ct_cx t3) = [d]"
proof -
  let ?t' = "addData path d now t" and ?e = "event_new\<lparr>ev_loop := True\<rparr>"
  let ?t2 = "?t'\<lparr>ct_wait := ?e, ct_pc := after_wait None\<rparr>"
  have s: "startWait (ct_wait ?t') = (None, ?e)"
    using assms(2,3,5) by (simp add: addData_def set_hang_def stopWait_def startWait_def event_new_def Let_def data_size_def)
  have a: "cstep t (Add path d now) ?t'" by (rule cstep.add [OF assms(4)])
  have b: "cstep ?t' Step ?t2" by (rule cstep.enter) (simp_all add: assms(1) s)
  let ?t3 = "?t2\<lparr>ct_wait := ?e\<lparr>ev_loop := False, ev_exit := False\<rparr>, ct_pc := after_wait (Some ERROR)\<rparr>"
  have c: "cstep ?t2 (Wait_ends Wake_timeout) ?t3"
    by (rule cstep.wake) (simp_all add: after_wait_def wait_end_def event_done_def WAITINTERVAL_def)
  have d: "cx_data (ct_cx ?t3) = [d]" using assms(3,5) by (simp add: accepted_def data_size_def)
  have e: "ct_pc ?t2 = At_wait \<and> \<not> ev_exit (ct_wait ?t2) \<and> ct_pc ?t3 = At_end"
    by (simp add: after_wait_def event_new_def)
  from a b c d e show ?thesis by blast
qed

theorem connection_data_stuck_witness:
  "\<exists>t3 :: cthread. ct_pc t3 = At_end \<and> cx_data (ct_cx t3) = [[7]]"
  using connection_data_stuck [of "cthread_new\<lparr>ct_pc := At_enter, ct_cx := cx_new\<lparr>cx_path := ''/a''\<rparr>\<rparr>" "''/a''" "[7]" 0]
  by (simp add: cthread_new_def isPathMatch_def cx_new_def) blast

end
