(* ===== verification/Streaming.thy ===== *)
theory Streaming
  imports Connthread
begin

text \<open>
  The http streamer as a whole, \<^verbatim>\<open>src/app/http-streamer/\<close> \<^verbatim>\<open>inthread.cpp\<close>, \<^verbatim>\<open>conthread.cpp\<close> and
  \<^verbatim>\<open>stopthread.cpp\<close>: the threads of the programs, each with the reader of its source, the list of the
  connections and the list of those to be stopped.  A connection is a number that names its thread.
\<close>

section \<open>Programs\<close>

record 'r in_thread =
  in_path :: string
  in_uuid :: string
  in_reader :: "'r option"
  in_count :: nat

definition trim_slashes :: "string \<Rightarrow> string" where
  "trim_slashes s = rev (dropWhile (\<lambda>c. c = CHR ''/'') (rev (dropWhile (\<lambda>c. c = CHR ''/'') s)))"

definition isRouteMatch :: "string \<Rightarrow> 'r in_thread \<Rightarrow> bool" where
  "isRouteMatch path thread \<longleftrightarrow>
     (let path1 = trim_slashes path; path2 = trim_slashes (in_path thread)
      in if path1 = [] \<or> path2 = [] then False else path1 = path2)"

definition getThreadByPath :: "string \<Rightarrow> 'r in_thread list \<Rightarrow> nat option" where
  "getThreadByPath path ins = (if path = [] then None else find (\<lambda>k. isRouteMatch path (ins ! k)) [0 ..< length ins])"

text \<open>A program that is there already gets the new values; a new one must have a path of its own.\<close>

definition addInfo :: "string \<Rightarrow> string \<Rightarrow> 'r in_thread list \<Rightarrow> 'r in_thread list option" where
  "addInfo uuid path ins =
     (case find (\<lambda>k. in_uuid (ins ! k) = uuid) [0 ..< length ins] of
        Some k \<Rightarrow> Some (ins[k := (ins ! k)\<lparr>in_path := path\<rparr>])
      | None \<Rightarrow>
          if find (isRouteMatch path) ins \<noteq> None then None
          else Some (ins @ [\<lparr>in_path = path, in_uuid = uuid, in_reader = None, in_count = 0\<rparr>]))"

definition increaseConnectionCount :: "nat \<Rightarrow> 'r in_thread list \<Rightarrow> 'r in_thread list" where
  "increaseConnectionCount k ins = ins[k := (ins ! k)\<lparr>in_count := in_count (ins ! k) + 1\<rparr>]"

definition decreaseConnectionCount :: "nat \<Rightarrow> 'r in_thread list \<Rightarrow> 'r in_thread list" where
  "decreaseConnectionCount k ins =
     (if in_count (ins ! k) > 0 then ins[k := (ins ! k)\<lparr>in_count := in_count (ins ! k) - 1\<rparr>] else ins)"

lemma getThreadByPath_SomeD: "getThreadByPath path ins = Some k \<Longrightarrow> k < length ins \<and> isRouteMatch path (ins ! k) \<and> path \<noteq> []"
  by (auto simp: getThreadByPath_def find_Some_iff split: if_splits)

section \<open>Connections\<close>

record 'r http_streamer =
  hy_ins :: "'r in_thread list"
  hy_thread :: "nat \<Rightarrow> cthread"
  hy_list :: "nat list"
  hy_stopping :: "nat list"
  hy_known :: "nat set"
  hy_stop :: bool

definition sendConnectionData :: "string \<Rightarrow> u8 list \<Rightarrow> int \<Rightarrow> 'r http_streamer \<Rightarrow> 'r http_streamer" where
  "sendConnectionData path data now hy =
     (if hy_stop hy then hy
      else hy\<lparr>hy_thread := fold (\<lambda>i th. th(i := addData path data now (th i))) (hy_list hy) (hy_thread hy)\<rparr>)"

definition startConnectThread :: "nat \<Rightarrow> 'r http_streamer \<Rightarrow> 'r http_streamer" where
  "startConnectThread i hy =
     (if hy_stop hy then hy else hy\<lparr>hy_list := hy_list hy @ [i], hy_thread := (hy_thread hy)(i := cthread_new)\<rparr>)"

definition notifyStopConnectThread :: "nat \<Rightarrow> 'r http_streamer \<Rightarrow> 'r http_streamer" where
  "notifyStopConnectThread i hy =
     (if hy_stop hy \<or> i \<notin> set (hy_list hy) then hy
      else hy\<lparr>hy_stopping := hy_stopping hy @ [i], hy_list := remove1 i (hy_list hy)\<rparr>)"

text \<open>The connections whose path is exactly that of the program.\<close>

definition stopThreads :: "string \<Rightarrow> 'r http_streamer \<Rightarrow> 'r http_streamer" where
  "stopThreads path hy =
     (let stoplist = filter (\<lambda>i. cx_path (ct_cx (hy_thread hy i)) = path) (hy_list hy)
      in hy\<lparr>hy_stopping := hy_stopping hy @ stoplist, hy_list := filter (\<lambda>i. i \<notin> set stoplist) (hy_list hy)\<rparr>)"

definition delInfo :: "string \<Rightarrow> 'r http_streamer \<Rightarrow> 'r http_streamer option" where
  "delInfo path hy = (case getThreadByPath path (hy_ins hy) of
     None \<Rightarrow> None
   | Some k \<Rightarrow> Some (stopThreads (in_path (hy_ins hy ! k)) (hy\<lparr>hy_ins := take k (hy_ins hy) @ drop (k + 1) (hy_ins hy)\<rparr>)))"

text \<open>What a connection finds for its path.\<close>

definition find_program :: "('r \<Rightarrow> string) \<Rightarrow> string \<Rightarrow> 'r in_thread list \<Rightarrow> found" where
  "find_program ctype path ins = (case getThreadByPath path ins of
     None \<Rightarrow> Not_found
   | Some k \<Rightarrow> (case in_reader (ins ! k) of None \<Rightarrow> No_reader | Some r \<Rightarrow> Program (ctype r)))"

definition count_found :: "string \<Rightarrow> 'r in_thread list \<Rightarrow> 'r in_thread list" where
  "count_found path ins = (case getThreadByPath path ins of None \<Rightarrow> ins | Some k \<Rightarrow> increaseConnectionCount k ins)"

definition uncount_found :: "string \<Rightarrow> 'r in_thread list \<Rightarrow> 'r in_thread list" where
  "uncount_found path ins = (case getThreadByPath path ins of None \<Rightarrow> ins | Some k \<Rightarrow> decreaseConnectionCount k ins)"

definition end_connection :: "nat \<Rightarrow> 'r http_streamer \<Rightarrow> 'r http_streamer" where
  "end_connection i hy =
     notifyStopConnectThread i (hy\<lparr>hy_ins := uncount_found (cx_path (ct_cx (hy_thread hy i))) (hy_ins hy)\<rparr>)"

lemma fold_threads:
  "distinct is \<Longrightarrow> fold (\<lambda>i th. th(i := f (th i))) is th = (\<lambda>i. if i \<in> set is then f (th i) else th i)"
proof (induction "is" arbitrary: th)
  case (Cons j js)
  then show ?case by (auto simp: fun_eq_iff)
qed simp

lemma sendConnectionData_threads:
  assumes "distinct (hy_list hy)" "\<not> hy_stop hy"
  shows "hy_thread (sendConnectionData path d now hy) =
    (\<lambda>i. if i \<in> set (hy_list hy) then addData path d now (hy_thread hy i) else hy_thread hy i)"
  using fold_threads [OF assms(1)] assms(2) by (simp add: sendConnectionData_def)

section \<open>The streamer at work\<close>

text \<open>\<open>hy_known\<close> are the connections there have been, so that a new one has a number of its own.
  \<open>getData\<close>, \<open>ctype\<close> and \<open>head\<close> are the functions of the readers.  A program reads a portion for its
  connections, or loses its source and stops them; a source comes; a connection comes, does a step or ends;
  the stop thread stops one.\<close>

inductive ystep :: "('r \<Rightarrow> (u8 list \<times> 'r) option) \<Rightarrow> ('r \<Rightarrow> string) \<Rightarrow> ('r \<Rightarrow> u8 list) \<Rightarrow> 'r http_streamer \<Rightarrow> 'r http_streamer \<Rightarrow> bool"
  for getData ctype head where
  input_data: "k < length (hy_ins hy) \<Longrightarrow> in_reader (hy_ins hy ! k) = Some r \<Longrightarrow> getData r = Some (d, r') \<Longrightarrow>
    in_path (hy_ins hy ! k) \<noteq> [] \<Longrightarrow>
    ystep getData ctype head hy
      (sendConnectionData (in_path (hy_ins hy ! k)) d now (hy\<lparr>hy_ins := (hy_ins hy)[k := (hy_ins hy ! k)\<lparr>in_reader := Some r'\<rparr>]\<rparr>))"
| input_lost: "k < length (hy_ins hy) \<Longrightarrow> in_reader (hy_ins hy ! k) = Some r \<Longrightarrow> getData r = None \<Longrightarrow>
    ystep getData ctype head hy
      (stopThreads (in_path (hy_ins hy ! k)) (hy\<lparr>hy_ins := (hy_ins hy)[k := (hy_ins hy ! k)\<lparr>in_reader := None\<rparr>]\<rparr>))"
| source: "k < length (hy_ins hy) \<Longrightarrow> in_reader (hy_ins hy ! k) = None \<Longrightarrow>
    ystep getData ctype head hy (hy\<lparr>hy_ins := (hy_ins hy)[k := (hy_ins hy ! k)\<lparr>in_reader := Some r\<rparr>]\<rparr>)"
| connect: "i \<notin> hy_known hy \<Longrightarrow> ystep getData ctype head hy (startConnectThread i (hy\<lparr>hy_known := insert i (hy_known hy)\<rparr>))"
| respond: "cstep (hy_thread hy i) (Respond date version (find_program ctype (cx_path (ct_cx (hy_thread hy i))) (hy_ins hy))) t \<Longrightarrow>
    ystep getData ctype head hy
      (hy\<lparr>hy_thread := (hy_thread hy)(i := t), hy_ins := count_found (cx_path (ct_cx (hy_thread hy i))) (hy_ins hy)\<rparr>)"
| header: "k < length (hy_ins hy) \<Longrightarrow> isRouteMatch (cx_path (ct_cx (hy_thread hy i))) (hy_ins hy ! k) \<Longrightarrow>
    cstep (hy_thread hy i) (Header (map_option head (in_reader (hy_ins hy ! k)))) t \<Longrightarrow>
    ystep getData ctype head hy (hy\<lparr>hy_thread := (hy_thread hy)(i := t)\<rparr>)"
| respond_broken: "ct_pc (hy_thread hy i) = At_response \<Longrightarrow> cstep (hy_thread hy i) (Broken n) t \<Longrightarrow>
    ystep getData ctype head hy
      (hy\<lparr>hy_thread := (hy_thread hy)(i := t), hy_ins := count_found (cx_path (ct_cx (hy_thread hy i))) (hy_ins hy)\<rparr>)"
| own: "cstep (hy_thread hy i) l t \<Longrightarrow>
    (\<exists>ps. l = Request ps) \<or> l = Step \<or> (\<exists>w. l = Wait_ends w) \<or> (\<exists>n. l = Broken n \<and> ct_pc (hy_thread hy i) = At_send) \<Longrightarrow>
    ystep getData ctype head hy (hy\<lparr>hy_thread := (hy_thread hy)(i := t)\<rparr>)"
| ended: "ct_pc (hy_thread hy i) = At_end \<Longrightarrow> i \<in> set (hy_list hy) \<Longrightarrow> ystep getData ctype head hy (end_connection i hy)"
| stopped: "hy_stopping hy = i # is \<Longrightarrow>
    ystep getData ctype head hy (hy\<lparr>hy_stopping := is, hy_thread := (hy_thread hy)(i := connect_stop (hy_thread hy i))\<rparr>)"

section \<open>From a source to its clients\<close>

lemma count_simps [simp]:
  "length (count_found path ins) = length ins" "length (uncount_found path ins) = length ins"
  "j < length ins \<Longrightarrow> in_path (count_found path ins ! j) = in_path (ins ! j)"
  "j < length ins \<Longrightarrow> in_path (uncount_found path ins ! j) = in_path (ins ! j)"
  "j < length ins \<Longrightarrow> in_reader (count_found path ins ! j) = in_reader (ins ! j)"
  "j < length ins \<Longrightarrow> in_reader (uncount_found path ins ! j) = in_reader (ins ! j)"
  by (auto simp: count_found_def uncount_found_def increaseConnectionCount_def decreaseConnectionCount_def nth_list_update
      split: option.split dest: getThreadByPath_SomeD)

lemma container_simps [simp]:
  "hy_ins (sendConnectionData path d now hy) = hy_ins hy" "hy_list (sendConnectionData path d now hy) = hy_list hy"
  "hy_known (sendConnectionData path d now hy) = hy_known hy" "hy_stop (sendConnectionData path d now hy) = hy_stop hy"
  "hy_ins (stopThreads path hy) = hy_ins hy" "hy_thread (stopThreads path hy) = hy_thread hy"
  "hy_known (stopThreads path hy) = hy_known hy" "hy_stop (stopThreads path hy) = hy_stop hy"
  "hy_list (stopThreads path hy) = filter (\<lambda>i. cx_path (ct_cx (hy_thread hy i)) \<noteq> path) (hy_list hy)"
  "hy_ins (notifyStopConnectThread i hy) = hy_ins hy" "hy_thread (notifyStopConnectThread i hy) = hy_thread hy"
  "hy_known (notifyStopConnectThread i hy) = hy_known hy" "hy_stop (notifyStopConnectThread i hy) = hy_stop hy"
  "hy_ins (startConnectThread i hy) = hy_ins hy" "hy_known (startConnectThread i hy) = hy_known hy"
  "hy_stop (startConnectThread i hy) = hy_stop hy"
  by (auto simp: sendConnectionData_def stopThreads_def notifyStopConnectThread_def startConnectThread_def Let_def intro: filter_cong)

text \<open>The list of connections has each of them once.\<close>

definition ywf :: "'r http_streamer \<Rightarrow> bool" where
  "ywf hy \<longleftrightarrow> distinct (hy_list hy) \<and> set (hy_list hy) \<subseteq> hy_known hy"

lemma ywf_step: "ystep getData ctype head hy hy' \<Longrightarrow> ywf hy \<Longrightarrow> ywf hy'"
proof (induction rule: ystep.induct)
  case (ended hy i)
  then show ?case using set_remove1_subset [of i "hy_list hy"]
    by (auto simp: ywf_def end_connection_def notifyStopConnectThread_def)
qed (auto simp: ywf_def startConnectThread_def)

text \<open>What an own step does to a thread that serves a client.\<close>

lemma serving_step:
  assumes "cstep t l t'" "own l" "serving t"
  shows "cx_path (ct_cx t') = cx_path (ct_cx t) \<and> cx_http_version (ct_cx t') = cx_http_version (ct_cx t) \<and>
    (ct_pc t' = At_end \<or> serving t' \<and>
       (\<exists>x. cx_out (ct_cx t') = cx_out (ct_cx t) @ concat (map (data_bytes (cx_http_version (ct_cx t))) x) \<and>
          cx_data (ct_cx t) = x @ cx_data (ct_cx t')))"
  using assms
proof (induction rule: cstep.induct)
  case (send t d ds)
  then have "\<exists>x. cx_out (sendData d ((ct_cx t)\<lparr>cx_data := ds\<rparr>)) = cx_out (ct_cx t) @ concat (map (data_bytes (cx_http_version (ct_cx t))) x) \<and>
      cx_data (ct_cx t) = x @ ds" by (intro exI [of _ "[d]"]) simp
  then show ?case using send by (simp add: serving_def)
qed (auto simp: serving_def own_def after_defs cx_send_def split: option.split)

text \<open>A run, all of whose states satisfy a condition.\<close>

inductive yrun :: "('r http_streamer \<Rightarrow> bool) \<Rightarrow> ('r \<Rightarrow> (u8 list \<times> 'r) option) \<Rightarrow> ('r \<Rightarrow> string) \<Rightarrow> ('r \<Rightarrow> u8 list) \<Rightarrow>
    'r http_streamer \<Rightarrow> 'r http_streamer \<Rightarrow> bool"
  for P getData ctype head where
  begins: "P hy \<Longrightarrow> yrun P getData ctype head hy hy"
| goes_on: "yrun P getData ctype head hy hy' \<Longrightarrow> ystep getData ctype head hy' hy'' \<Longrightarrow> P hy'' \<Longrightarrow> yrun P getData ctype head hy hy''"

text \<open>Connection \<open>i\<close> is in the list and its own list is not full.\<close>

definition keeping :: "nat \<Rightarrow> 'r http_streamer \<Rightarrow> bool" where
  "keeping i hy \<longleftrightarrow> i \<in> set (hy_list hy) \<and> data_size (cx_data (ct_cx (hy_thread hy i))) \<le> CONNECTIONBUFFER_MAX_SIZE"

text \<open>Connection \<open>i\<close> asked for the path of program \<open>k\<close>, which no other program has.\<close>

definition client_of :: "nat \<Rightarrow> nat \<Rightarrow> 'r http_streamer \<Rightarrow> bool" where
  "client_of k i hy \<longleftrightarrow> ywf hy \<and> \<not> hy_stop hy \<and> k < length (hy_ins hy) \<and> in_path (hy_ins hy ! k) \<noteq> [] \<and>
     cx_path (ct_cx (hy_thread hy i)) = in_path (hy_ins hy ! k) \<and>
     (\<forall>j < length (hy_ins hy). j \<noteq> k \<longrightarrow> in_path (hy_ins hy ! j) \<noteq> in_path (hy_ins hy ! k)) \<and>
     (serving (hy_thread hy i) \<or> ct_pc (hy_thread hy i) = At_end) \<and> in_reader (hy_ins hy ! k) \<noteq> None"

text \<open>What is still to come for the client: its list and what the reader has.\<close>

definition to_come :: "('r \<Rightarrow> u8 list) \<Rightarrow> nat \<Rightarrow> nat \<Rightarrow> 'r http_streamer \<Rightarrow> u8 list" where
  "to_come pending k i hy = concat (cx_data (ct_cx (hy_thread hy i))) @ pending (the (in_reader (hy_ins hy ! k)))"

definition went_out :: "('r \<Rightarrow> u8 list) \<Rightarrow> nat \<Rightarrow> nat \<Rightarrow> 'r http_streamer \<Rightarrow> 'r http_streamer \<Rightarrow> bool" where
  "went_out pending k i hy hy' \<longleftrightarrow>
     (let v = cx_http_version (ct_cx (hy_thread hy i)) in
      cx_http_version (ct_cx (hy_thread hy' i)) = v \<and>
      (ct_pc (hy_thread hy' i) = At_end \<or>
       (\<exists>x. cx_out (ct_cx (hy_thread hy' i)) = cx_out (ct_cx (hy_thread hy i)) @ concat (map (data_bytes v) x) \<and>
          to_come pending k i hy = concat x @ to_come pending k i hy')))"

lemma went_out_refl: "went_out pending k i hy hy"
  by (simp add: went_out_def Let_def) (intro disjI2 exI [of _ "[]"], simp)

lemma went_out_trans:
  assumes "went_out pending k i a b" "went_out pending k i b c" "ct_pc (hy_thread b i) = At_end \<longrightarrow> ct_pc (hy_thread c i) = At_end"
  shows "went_out pending k i a c"
proof (cases "ct_pc (hy_thread c i) = At_end")
  case False
  then obtain x y where "cx_out (ct_cx (hy_thread b i)) = cx_out (ct_cx (hy_thread a i)) @ concat (map (data_bytes (cx_http_version (ct_cx (hy_thread a i)))) x)"
    "to_come pending k i a = concat x @ to_come pending k i b"
    "cx_out (ct_cx (hy_thread c i)) = cx_out (ct_cx (hy_thread b i)) @ concat (map (data_bytes (cx_http_version (ct_cx (hy_thread a i)))) y)"
    "to_come pending k i b = concat y @ to_come pending k i c"
    using assms by (auto simp: went_out_def Let_def)
  then have "cx_out (ct_cx (hy_thread c i)) = cx_out (ct_cx (hy_thread a i)) @ concat (map (data_bytes (cx_http_version (ct_cx (hy_thread a i)))) (x @ y)) \<and>
      to_come pending k i a = concat (x @ y) @ to_come pending k i c" by simp
  then show ?thesis using assms(1,2) unfolding went_out_def Let_def by metis
qed (use assms in \<open>simp add: went_out_def Let_def\<close>)

lemma went_out_same:
  assumes "hy_thread hy' i = hy_thread hy i" "in_reader (hy_ins hy' ! k) = in_reader (hy_ins hy ! k)"
  shows "went_out pending k i hy hy'"
  using went_out_refl [of pending k i hy] assms by (simp add: went_out_def to_come_def)

lemma end_stays: "cstep t l t' \<Longrightarrow> ct_pc t = At_end \<Longrightarrow> own l \<Longrightarrow> False"
  by (induction rule: cstep.induct) (auto simp: own_def)

text \<open>An own step of a client, or of another connection.\<close>

lemma client_own_step:
  assumes "cstep (hy_thread hy j) l t" "own l" "client_of k i hy" "ywf hy'"
    and h: "hy_thread hy' = (hy_thread hy)(j := t)" "hy_list hy' = hy_list hy" "hy_stop hy' = hy_stop hy"
    "length (hy_ins hy') = length (hy_ins hy)"
    "\<forall>m < length (hy_ins hy). in_path (hy_ins hy' ! m) = in_path (hy_ins hy ! m) \<and> in_reader (hy_ins hy' ! m) = in_reader (hy_ins hy ! m)"
  shows "client_of k i hy' \<and> went_out pending k i hy hy' \<and> (ct_pc (hy_thread hy i) = At_end \<longrightarrow> ct_pc (hy_thread hy' i) = At_end)"
proof (cases "j = i")
  case True
  then have s: "serving (hy_thread hy i)" using assms(1-3) end_stays by (auto simp: client_of_def)
  note st = serving_step [OF assms(1,2), unfolded True, OF s]
  have k: "k < length (hy_ins hy)" using assms(3) by (simp add: client_of_def)
  have "went_out pending k i hy hy'" using st h k True unfolding went_out_def to_come_def Let_def by auto
  moreover have "client_of k i hy'" using st h assms(3,4) k True by (auto simp: client_of_def)
  moreover have "ct_pc (hy_thread hy i) \<noteq> At_end" using s by (auto simp: serving_def)
  ultimately show ?thesis by blast
next
  case False
  then have e: "hy_thread hy' i = hy_thread hy i" using h(1) by simp
  have k: "k < length (hy_ins hy)" using assms(3) by (simp add: client_of_def)
  have "went_out pending k i hy hy'" by (rule went_out_same [OF e]) (use h(5) k in simp)
  moreover have "client_of k i hy'" using assms(3,4) h e k by (auto simp: client_of_def)
  ultimately show ?thesis using e by simp
qed

context lossless_reader begin

lemma client_step:
  assumes "ystep getData ctype head hy hy'" "client_of k i hy" "keeping i hy" "keeping i hy'"
  shows "client_of k i hy' \<and> went_out pending k i hy hy' \<and> (ct_pc (hy_thread hy i) = At_end \<longrightarrow> ct_pc (hy_thread hy' i) = At_end)"
  using assms
proof (induction rule: ystep.induct)
  case (input_data m hy r d r' now)
  let ?ins = "(hy_ins hy)[m := (hy_ins hy ! m)\<lparr>in_reader := Some r'\<rparr>]"
  let ?p = "in_path (hy_ins hy ! m)" and ?hy = "hy\<lparr>hy_ins := (hy_ins hy)[m := (hy_ins hy ! m)\<lparr>in_reader := Some r'\<rparr>]\<rparr>"
  let ?hy' = "sendConnectionData ?p d now ?hy"
  have c: "ywf hy" "\<not> hy_stop hy" "k < length (hy_ins hy)" "cx_path (ct_cx (hy_thread hy i)) = in_path (hy_ins hy ! k)"
    "m = k \<longleftrightarrow> ?p = in_path (hy_ins hy ! k)"
    using input_data by (auto simp: client_of_def)
  have t: "hy_thread ?hy' i = addData ?p d now (hy_thread hy i)"
    using sendConnectionData_threads [of ?hy ?p d now] c(1,2) input_data(6) by (simp add: ywf_def keeping_def)
  have w: "ywf ?hy'" using c(1) by (simp add: ywf_def)
  show ?case
  proof (cases "m = k")
    case True
    have a: "accepted (hy_thread hy i) (Add ?p d now) = [d]"
      using input_data(6) c(4,5) True by (simp add: accepted_def isPathMatch_def keeping_def)
    have "to_come pending k i ?hy' = to_come pending k i hy"
      using t a True c(3) input_data(2) lossless [OF input_data(3)] by (simp add: to_come_def)
    then have "went_out pending k i hy ?hy'"
      using t unfolding went_out_def Let_def by (simp, intro disjI2 exI [of _ "[]"], simp)
    moreover have "client_of k i ?hy'" using input_data t w True c by (auto simp: client_of_def serving_def nth_list_update)
    ultimately show ?thesis using t by simp
  next
    case False
    have e: "hy_thread ?hy' i = hy_thread hy i"
      unfolding t using False c(4,5) by (simp add: addData_def isPathMatch_def)
    have "went_out pending k i hy ?hy'" by (rule went_out_same [OF e]) (use False in simp)
    moreover have "client_of k i ?hy'" using input_data e w False c by (auto simp: client_of_def nth_list_update)
    ultimately show ?thesis using e by simp
  qed
next
  case (input_lost m hy r)
  let ?p = "in_path (hy_ins hy ! m)" and ?hy = "hy\<lparr>hy_ins := (hy_ins hy)[m := (hy_ins hy ! m)\<lparr>in_reader := None\<rparr>]\<rparr>"
  have "m \<noteq> k"
  proof
    assume "m = k"
    then have "cx_path (ct_cx (hy_thread hy i)) = ?p" using input_lost(4) by (simp add: client_of_def)
    then have "i \<notin> set (hy_list (stopThreads ?p ?hy))" by simp
    then show False using input_lost(6) by (simp add: keeping_def)
  qed
  moreover have "ywf (stopThreads ?p ?hy)" using input_lost(4) by (auto simp: ywf_def client_of_def)
  ultimately have "client_of k i (stopThreads ?p ?hy)" using input_lost(1,4) by (auto simp: client_of_def nth_list_update)
  moreover have "went_out pending k i hy (stopThreads ?p ?hy)" by (rule went_out_same) (use \<open>m \<noteq> k\<close> in simp_all)
  ultimately show ?case by simp
next
  case (source m hy r)
  then have "m \<noteq> k" by (auto simp: client_of_def)
  let ?hy = "hy\<lparr>hy_ins := (hy_ins hy)[m := (hy_ins hy ! m)\<lparr>in_reader := Some r\<rparr>]\<rparr>"
  have "client_of k i ?hy" using source \<open>m \<noteq> k\<close> by (auto simp: client_of_def nth_list_update ywf_def)
  moreover have "went_out pending k i hy ?hy" by (rule went_out_same) (use \<open>m \<noteq> k\<close> in simp_all)
  ultimately show ?case by simp
next
  case (connect j hy)
  let ?hy = "startConnectThread j (hy\<lparr>hy_known := insert j (hy_known hy)\<rparr>)"
  have "j \<noteq> i" using connect by (auto simp: keeping_def client_of_def ywf_def)
  then have e: "hy_thread ?hy i = hy_thread hy i" by (simp add: startConnectThread_def)
  have "ywf ?hy" using ywf_step [OF ystep.connect [OF connect(1)]] connect(2) by (simp add: client_of_def)
  then have "client_of k i ?hy" using connect(2) e by (auto simp: client_of_def)
  moreover have "went_out pending k i hy ?hy" by (rule went_out_same [OF e]) simp
  ultimately show ?case using e by simp
next
  case (respond hy j date version t)
  show ?case by (rule client_own_step [OF respond(1) _ respond(2)]) (use respond(2) in \<open>simp_all add: own_def client_of_def ywf_def\<close>)
next
  case (header m hy j t)
  show ?case by (rule client_own_step [OF header(3) _ header(4)]) (use header(4) in \<open>simp_all add: own_def client_of_def ywf_def\<close>)
next
  case (respond_broken hy j n t)
  show ?case by (rule client_own_step [OF respond_broken(2) _ respond_broken(3)]) (use respond_broken(3) in \<open>simp_all add: own_def client_of_def ywf_def\<close>)
next
  case (own hy j l t)
  have "own l" using own(2) by (auto simp: own_def)
  then show ?case by (rule client_own_step [OF own(1) _ own(3)]) (use own(3) in \<open>simp_all add: client_of_def ywf_def\<close>)
next
  case (ended hy j)
  let ?hy = "end_connection j hy"
  have e: "hy_thread ?hy i = hy_thread hy i" by (simp add: end_connection_def)
  have "ywf ?hy" using ywf_step [OF ystep.ended [OF ended(1,2)]] ended(3) by (simp add: client_of_def)
  then have "client_of k i ?hy" using ended(3) e by (auto simp: client_of_def end_connection_def)
  moreover have "went_out pending k i hy ?hy"
    by (rule went_out_same [OF e]) (use ended(3) in \<open>simp add: client_of_def end_connection_def\<close>)
  ultimately show ?case using e by simp
next
  case (stopped hy j js)
  let ?hy = "hy\<lparr>hy_stopping := js, hy_thread := (hy_thread hy)(j := connect_stop (hy_thread hy j))\<rparr>"
  have e: "ct_cx (hy_thread ?hy i) = ct_cx (hy_thread hy i)" "ct_pc (hy_thread ?hy i) = ct_pc (hy_thread hy i)" by simp_all
  have "client_of k i ?hy" using stopped(2) e by (auto simp: client_of_def serving_def ywf_def)
  moreover have "went_out pending k i hy ?hy"
    using went_out_refl [of pending k i hy] by (cases "i = j") (simp_all add: went_out_def to_come_def Let_def)
  ultimately show ?case using e by simp
qed

lemma client_run:
  assumes "yrun (keeping i) getData ctype head hy hy'" "client_of k i hy"
  shows "client_of k i hy' \<and> went_out pending k i hy hy' \<and> keeping i hy' \<and> (ct_pc (hy_thread hy i) = At_end \<longrightarrow> ct_pc (hy_thread hy' i) = At_end)"
  using assms
proof (induction rule: yrun.induct)
  case (begins hy)
  then show ?case using went_out_refl by simp
next
  case (goes_on hy hy' hy'')
  then have c: "client_of k i hy'" "went_out pending k i hy hy'" "keeping i hy'" by auto
  note s = client_step [OF goes_on(2) c(1,3) goes_on(3)]
  show ?case using went_out_trans [OF c(2)] s goes_on by blast
qed

end


definition example_streamer :: "flv http_streamer" where
  "example_streamer = \<lparr>
     hy_ins = [\<lparr>in_path = ''/tv'', in_uuid = ''1'', in_reader = Some (flv_new [example_flv]), in_count = 1\<rparr>],
     hy_thread = (\<lambda>_. cthread_new)(7 := cthread_new\<lparr>ct_pc := At_send, ct_cx := cx_new\<lparr>cx_path := ''/tv'', cx_http_version := HTTP10\<rparr>\<rparr>),
     hy_list = [7], hy_stopping = [], hy_known = {7}, hy_stop = False\<rparr>"

lemma example_flv_read:
  "\<exists>s. flv_getData (flv_new [example_flv]) = Some ([9, 0, 0, 2, 0, 0, 0, 0, 0, 0, 0, 7, 7, 0, 0, 0, 13], s)"
proof -
  let ?t = "[9, 0, 0, 2, 0, 0, 0, 0, 0, 0, 0, 7, 7, 0, 0, 0, 13] :: u8 list"
  have h: "flv_head_ok flv_header" by (simp add: flv_head_ok_def flv_header_def FLV_UI32_def)
  have t: "flv_tag_ok ?t" by (simp add: flv_tag_ok_def FLV_UI24_def)
  have c: "concat (fl_in (flv_new [example_flv])) = flv_header @ ?t @ [5, 0, 0, 0, 0, 0, 40, 0, 0, 0, 0, 0, 0, 0, 11]"
    by (simp add: example_flv_def flv_new_def)
  obtain s0 where s0: "flv_start (flv_new [example_flv]) = Some s0" "concat (fl_in s0) = ?t @ [5, 0, 0, 0, 0, 0, 40, 0, 0, 0, 0, 0, 0, 0, 11]"
    "fl_real s0 = flv_header" by (rule flv_head_read [OF h c])
  have n: "fl_real s0 \<noteq> []" unfolding s0(3) by (simp add: flv_header_def)
  obtain s1 where "flv_getData s0 = Some (?t, s1)" by (rule flv_tag_read [OF t s0(2) n])
  moreover have "flv_getData (flv_new [example_flv]) = flv_getData s0" using s0(1) n by (simp add: flv_getData_def flv_new_def)
  ultimately show ?thesis by simp
qed


section \<open>Paths\<close>

text \<open>A path with a slash at its end finds the program without one, but no data is sent for it: the answer is
  the only thing its client gets.\<close>

lemma trim_slash_end: "trim_slashes (p @ ''/'') = trim_slashes p"
proof (cases "\<exists>c \<in> set p. c \<noteq> CHR ''/''")
  case True
  then have "dropWhile (\<lambda>c. c = CHR ''/'') (p @ ''/'') = dropWhile (\<lambda>c. c = CHR ''/'') p @ ''/''" by auto
  then show ?thesis by (simp add: trim_slashes_def)
next
  case False
  then have "dropWhile (\<lambda>c. c = CHR ''/'') p = []" unfolding dropWhile_eq_Nil_conv by blast
  moreover have "dropWhile (\<lambda>c. c = CHR ''/'') (p @ ''/'') = []" unfolding dropWhile_eq_Nil_conv using False by auto
  ultimately show ?thesis unfolding trim_slashes_def by (simp only:)
qed

theorem slash_client_starves:
  assumes "k < length ins" "trim_slashes (in_path (ins ! k)) \<noteq> []" "cx_path (ct_cx t) = in_path (ins ! k) @ ''/''"
  shows "(\<exists>j. getThreadByPath (cx_path (ct_cx t)) ins = Some j) \<and> addData (in_path (ins ! k)) d now t = t"
proof
  have "isRouteMatch (cx_path (ct_cx t)) (ins ! k)" using assms(2,3) trim_slash_end by (simp add: isRouteMatch_def Let_def)
  then have "find (\<lambda>k. isRouteMatch (cx_path (ct_cx t)) (ins ! k)) [0 ..< length ins] \<noteq> None" using assms(1) by (auto simp: find_None_iff)
  then show "\<exists>j. getThreadByPath (cx_path (ct_cx t)) ins = Some j" using assms(3) by (simp add: getThreadByPath_def)
  show "addData (in_path (ins ! k)) d now t = t" using assms(3) by (simp add: addData_def isPathMatch_def)
qed

theorem slash_client_starves_witness:
  "\<exists>j. getThreadByPath ''/tv/'' (hy_ins example_streamer) = Some j"
  using slash_client_starves [of 0 "hy_ins example_streamer" "cthread_new\<lparr>ct_cx := cx_new\<lparr>cx_path := ''/tv/''\<rparr>\<rparr>"]
  by (simp add: example_streamer_def trim_slashes_def)

text \<open>A new program has a path that no other has, whatever slashes there are around it; a program that is changed
  is not checked.\<close>

theorem addInfo_new_path:
  assumes "addInfo uuid path ins = Some ins'" "\<forall>p \<in> set ins. in_uuid p \<noteq> uuid" "trim_slashes path \<noteq> []"
  shows "\<exists>p. ins' = ins @ [p] \<and> in_path p = path \<and> (\<forall>q \<in> set ins. trim_slashes (in_path q) \<noteq> trim_slashes path)"
proof -
  have "find (\<lambda>k. in_uuid (ins ! k) = uuid) [0 ..< length ins] = None" using assms(2) by (auto simp: find_None_iff)
  then have "find (isRouteMatch path) ins = None" "ins' = ins @ [\<lparr>in_path = path, in_uuid = uuid, in_reader = None, in_count = 0\<rparr>]"
    using assms(1) by (auto simp: addInfo_def split: if_splits)
  then show ?thesis using assms(3) by (auto simp: find_None_iff isRouteMatch_def Let_def split: if_splits)
qed

theorem addInfo_new_path_witness: "\<exists>ins'. addInfo ''2'' ''/radio'' (hy_ins example_streamer) = Some ins' \<and> length ins' = 2"
  using addInfo_new_path [of "''2''" "''/radio''" "hy_ins example_streamer"]
  by (simp add: addInfo_def example_streamer_def isRouteMatch_def trim_slashes_def)

theorem addInfo_same_path:
  "addInfo ''2'' ''/tv'' [\<lparr>in_path = ''/tv'', in_uuid = ''1'', in_reader = None, in_count = 0\<rparr>,
     \<lparr>in_path = ''/radio'', in_uuid = ''2'', in_reader = None, in_count = 0\<rparr>] =
   Some [\<lparr>in_path = ''/tv'', in_uuid = ''1'', in_reader = None, in_count = 0\<rparr>,
     \<lparr>in_path = ''/tv'', in_uuid = ''2'', in_reader = None, in_count = 0\<rparr>]"
  by (simp add: addInfo_def upt_rec)

text \<open>A request whose version is refused has its path already: the end of its thread takes one from the count of
  the program's clients, to which it never was added.\<close>

theorem bad_version_uncounts:
  "case parseRequest ''GET /tv HTTP/2'' cx_new of (ok, cx) \<Rightarrow>
     \<not> ok \<and> map in_count (uncount_found (cx_path cx) (hy_ins example_streamer)) = [0]"
proof -
  have w: "split_data ''GET /tv HTTP/2'' [TAB, CHR '' ''] = [''GET'', ''/tv'', ''HTTP/2'']" by code_simp
  show ?thesis
    by (simp add: parseRequest_def w Let_def uncount_found_def getThreadByPath_def isRouteMatch_def trim_slashes_def
        example_streamer_def decreaseConnectionCount_def)
qed

end
