(* ===== verification/Infoset.thy ===== *)
theory Infoset
  imports Prelude "HOL-Library.List_Lexorder" "HOL-Library.Char_ord"
begin

text \<open>
  The containers in which modules keep what they know of devices, files, tasks and routes,
  \<^verbatim>\<open>src/common/mod/info.cpp\<close> and \<^verbatim>\<open>infocontainer.h\<close>, and how a container is brought up to date with the
  database.  A container is a \<^verbatim>\<open>std::set\<close> ordered by UUID, here a list in this order.  \<open>None\<close> is an exception.
\<close>

section \<open>Information\<close>

record info =
  mi_uuid :: string
  mi_name :: string
  mi_inuse :: bool

definition info_new :: "string \<Rightarrow> string \<Rightarrow> info option" where
  "info_new uuid name = (if uuid = [] \<or> name = [] then None else Some \<lparr>mi_uuid = uuid, mi_name = name, mi_inuse = False\<rparr>)"

definition setInUse :: "bool \<Rightarrow> 'a info_scheme \<Rightarrow> 'a info_scheme" where
  "setInUse value i = i\<lparr>mi_inuse := value\<rparr>"

definition updateInfo :: "'a info_scheme \<Rightarrow> 'a info_scheme \<Rightarrow> 'a info_scheme" where
  "updateInfo value i = i\<lparr>mi_name := mi_name value\<rparr>"

definition infoLess :: "'a info_scheme \<Rightarrow> 'a info_scheme \<Rightarrow> bool" where
  "infoLess i1 i2 \<longleftrightarrow> mi_uuid i1 < mi_uuid i2"

section \<open>The container\<close>

text \<open>\<^verbatim>\<open>std::set::insert\<close>, \<^verbatim>\<open>erase\<close> and \<^verbatim>\<open>find\<close> by the order of UUIDs.\<close>

fun set_insert :: "'a info_scheme \<Rightarrow> 'a info_scheme list \<Rightarrow> 'a info_scheme list" where
  "set_insert x [] = [x]"
| "set_insert x (y # ys) = (if infoLess x y then x # y # ys else if infoLess y x then y # set_insert x ys else y # ys)"

fun set_erase :: "'a info_scheme \<Rightarrow> 'a info_scheme list \<Rightarrow> 'a info_scheme list" where
  "set_erase x [] = []"
| "set_erase x (y # ys) = (if infoLess x y then y # ys else if infoLess y x then y # set_erase x ys else ys)"

fun set_find :: "'a info_scheme \<Rightarrow> 'a info_scheme list \<Rightarrow> 'a info_scheme option" where
  "set_find x [] = None"
| "set_find x (y # ys) = (if infoLess x y then None else if infoLess y x then set_find x ys else Some y)"

fun set_update :: "('a info_scheme \<Rightarrow> 'a info_scheme) \<Rightarrow> 'a info_scheme \<Rightarrow> 'a info_scheme list \<Rightarrow> 'a info_scheme list" where
  "set_update f x [] = []"
| "set_update f x (y # ys) = (if \<not> infoLess x y \<and> \<not> infoLess y x then f y # ys else y # set_update f x ys)"

text \<open>\<^verbatim>\<open>std::set_difference\<close> goes through both sets at the same time.\<close>

fun set_difference :: "'a info_scheme list \<Rightarrow> 'a info_scheme list \<Rightarrow> 'a info_scheme list" where
  "set_difference [] ys = []"
| "set_difference (x # xs) [] = x # xs"
| "set_difference (x # xs) (y # ys) =
     (if infoLess x y then x # set_difference xs (y # ys)
      else if infoLess y x then set_difference (x # xs) ys
      else set_difference xs ys)"

datatype selector = SELECT_ALL | SELECT_USED | SELECT_NOT_USED
datatype value_type = NAME | UUID

definition getValues :: "selector \<Rightarrow> value_type \<Rightarrow> 'a info_scheme list \<Rightarrow> string list" where
  "getValues sel ty c =
     map (case ty of NAME \<Rightarrow> mi_name | UUID \<Rightarrow> mi_uuid)
       (filter (\<lambda>i. case sel of SELECT_ALL \<Rightarrow> True | SELECT_USED \<Rightarrow> mi_inuse i | SELECT_NOT_USED \<Rightarrow> \<not> mi_inuse i) c)"

definition getInfoByUUID :: "string \<Rightarrow> 'a info_scheme list \<Rightarrow> 'a info_scheme option" where
  "getInfoByUUID uuid c = (if uuid = [] then None else find (\<lambda>i. mi_uuid i = uuid) c)"

definition getDel :: "'a info_scheme list \<Rightarrow> 'a info_scheme list \<Rightarrow> 'a info_scheme list" where
  "getDel s c = set_difference c s"

definition getAdd :: "'a info_scheme list \<Rightarrow> 'a info_scheme list \<Rightarrow> 'a info_scheme list" where
  "getAdd s c = set_difference s c"

definition delElem :: "bool \<Rightarrow> 'a info_scheme \<Rightarrow> 'a info_scheme list \<Rightarrow> 'a info_scheme list" where
  "delElem ignore_not_used e c = (if ignore_not_used \<and> mi_inuse e then c else set_erase e c)"

definition info_del :: "bool \<Rightarrow> 'a info_scheme list \<Rightarrow> 'a info_scheme list \<Rightarrow> 'a info_scheme list" where
  "info_del ignore_not_used s c = fold (delElem ignore_not_used) s c"

text \<open>The method \<^verbatim>\<open>updateInfo\<close> is virtual: a parameter here.\<close>

definition addElem :: "('a info_scheme \<Rightarrow> 'a info_scheme \<Rightarrow> 'a info_scheme) \<Rightarrow> bool \<Rightarrow> 'a info_scheme \<Rightarrow> 'a info_scheme list \<Rightarrow> 'a info_scheme list" where
  "addElem upd update e c =
     (case set_find e c of None \<Rightarrow> set_insert e c | Some _ \<Rightarrow> if update then set_update (upd e) e c else c)"

definition info_add :: "('a info_scheme \<Rightarrow> 'a info_scheme \<Rightarrow> 'a info_scheme) \<Rightarrow> bool \<Rightarrow> 'a info_scheme list \<Rightarrow> 'a info_scheme list \<Rightarrow> 'a info_scheme list" where
  "info_add upd update s c = fold (addElem upd update) s c"

text \<open>Bringing a container up to date with what was read from the database.\<close>

definition processDB :: "('a info_scheme \<Rightarrow> 'a info_scheme \<Rightarrow> 'a info_scheme) \<Rightarrow> 'a info_scheme list \<Rightarrow> 'a info_scheme list \<Rightarrow> 'a info_scheme list" where
  "processDB upd db_set c = info_add upd True db_set (info_del True (getDel db_set c) c)"

text \<open>The end of the use of an element; \<open>None\<close> is an exception.\<close>

definition doStop :: "string \<Rightarrow> 'a info_scheme list \<Rightarrow> 'a info_scheme list option" where
  "doStop uuid c = (case getInfoByUUID uuid c of
     None \<Rightarrow> None
   | Some i \<Rightarrow> if \<not> mi_inuse i then None else Some (set_update (setInUse False) i c))"

section \<open>Sets\<close>

definition info_ok :: "'a info_scheme list \<Rightarrow> bool" where
  "info_ok c \<longleftrightarrow> sorted_wrt infoLess c"

lemma infoLess_trans: "infoLess x y \<Longrightarrow> infoLess y z \<Longrightarrow> infoLess x z"
  by (simp add: infoLess_def)

lemma infoLess_linear: "\<not> infoLess x y \<Longrightarrow> \<not> infoLess y x \<Longrightarrow> mi_uuid x = mi_uuid y"
  by (simp add: infoLess_def)

lemma infoLess_irrefl [simp]: "\<not> infoLess x x"
  by (simp add: infoLess_def)

lemma infoLess_uuid: "infoLess x y \<Longrightarrow> mi_uuid x \<noteq> mi_uuid y"
  by (auto simp: infoLess_def)

lemma set_find_find: "info_ok c \<Longrightarrow> set_find x c = find (\<lambda>i. mi_uuid i = mi_uuid x) c"
proof (induction x c rule: set_find.induct)
  case (2 x y ys)
  show ?case
  proof (cases "infoLess x y")
    case True
    then have "\<forall>z \<in> set (y # ys). mi_uuid z \<noteq> mi_uuid x"
      using 2(2) infoLess_trans infoLess_uuid unfolding info_ok_def by (metis set_ConsD sorted_wrt.simps(2))
    then have "find (\<lambda>i. mi_uuid i = mi_uuid x) (y # ys) = None" by (simp only: find_None_iff) blast
    then show ?thesis using True by simp
  next
    case False
    then show ?thesis using 2 infoLess_linear [of x y] infoLess_uuid [of y x] by (auto simp: info_ok_def)
  qed
qed simp

lemma set_insert_set: "info_ok c \<Longrightarrow> \<forall>y \<in> set c. mi_uuid y \<noteq> mi_uuid x \<Longrightarrow> info_ok (set_insert x c) \<and> set (set_insert x c) = insert x (set c)"
proof (induction x c rule: set_insert.induct)
  case (2 x y ys)
  then show ?case using infoLess_linear [of x y] infoLess_trans [of x y] by (auto simp: info_ok_def)
qed (simp add: info_ok_def)

lemma set_erase_filter: "info_ok c \<Longrightarrow> set_erase x c = filter (\<lambda>y. mi_uuid y \<noteq> mi_uuid x) c"
proof (induction x c rule: set_erase.induct)
  case (2 x y ys)
  consider "infoLess x y" | "\<not> infoLess x y" "infoLess y x" | "\<not> infoLess x y" "\<not> infoLess y x" by blast
  then show ?case
  proof cases
    case 1
    then have "\<forall>z \<in> set (y # ys). mi_uuid z \<noteq> mi_uuid x"
      using 2(2) infoLess_trans infoLess_uuid unfolding info_ok_def by (metis set_ConsD sorted_wrt.simps(2))
    then have "filter (\<lambda>y. mi_uuid y \<noteq> mi_uuid x) (y # ys) = y # ys" by (simp only: filter_True)
    then show ?thesis using 1 by simp
  next
    case 2
    then show ?thesis using "2.IH" "2.prems" infoLess_uuid [of y x] by (simp add: info_ok_def)
  next
    case 3
    then have "mi_uuid x = mi_uuid y" by (rule infoLess_linear)
    moreover have "\<forall>z \<in> set ys. mi_uuid z \<noteq> mi_uuid y" using "2.prems" by (auto simp: info_ok_def infoLess_def)
    ultimately show ?thesis using 3 by simp
  qed
qed simp

lemma set_update_map:
  "info_ok c \<Longrightarrow> set_update f x c = map (\<lambda>y. if mi_uuid y = mi_uuid x then f y else y) c"
proof (induction f x c rule: set_update.induct)
  case (2 f x y ys)
  show ?case
  proof (cases "mi_uuid y = mi_uuid x")
    case True
    then have "\<forall>z \<in> set ys. mi_uuid z \<noteq> mi_uuid x" using "2.prems" by (auto simp: info_ok_def infoLess_def)
    then have "map (\<lambda>y. if mi_uuid y = mi_uuid x then f y else y) ys = ys" by (simp add: map_idI)
    then show ?thesis using True by (simp add: infoLess_def)
  next
    case False
    then show ?thesis using 2 by (auto simp: info_ok_def infoLess_def)
  qed
qed simp

text \<open>The difference is what is in the first set and not in the second.\<close>

lemma set_difference_filter:
  "info_ok xs \<Longrightarrow> info_ok ys \<Longrightarrow> set_difference xs ys = filter (\<lambda>x. \<forall>y \<in> set ys. mi_uuid y \<noteq> mi_uuid x) xs"
proof (induction xs ys rule: set_difference.induct)
  case (3 x xs y ys)
  have ok: "info_ok xs" "info_ok ys" using 3(4,5) by (simp_all add: info_ok_def)
  consider "infoLess x y" | "\<not> infoLess x y" "infoLess y x" | "\<not> infoLess x y" "\<not> infoLess y x" by blast
  then show ?case
  proof cases
    case 1
    then have "\<forall>z \<in> set (y # ys). mi_uuid z \<noteq> mi_uuid x"
      using 3(5) infoLess_trans infoLess_uuid unfolding info_ok_def by (metis set_ConsD sorted_wrt.simps(2))
    then show ?thesis using 1 3(1) [OF 1 ok(1) 3(5)] by simp
  next
    case 2
    then have "\<forall>z \<in> set (x # xs). mi_uuid y \<noteq> mi_uuid z"
      using 3(4) infoLess_trans infoLess_uuid unfolding info_ok_def by (metis set_ConsD sorted_wrt.simps(2))
    then have "filter (\<lambda>z. \<forall>v \<in> set (y # ys). mi_uuid v \<noteq> mi_uuid z) (x # xs) = filter (\<lambda>z. \<forall>v \<in> set ys. mi_uuid v \<noteq> mi_uuid z) (x # xs)"
      by (intro filter_cong) auto
    then show ?thesis using 2 3(2) [OF 2 3(4) ok(2)] by simp
  next
    case 3: 3
    then have e: "mi_uuid x = mi_uuid y" by (rule infoLess_linear)
    have "\<forall>z \<in> set xs. mi_uuid y \<noteq> mi_uuid z" using "3.prems"(1) e by (auto simp: info_ok_def infoLess_def)
    then have "filter (\<lambda>z. \<forall>v \<in> set (y # ys). mi_uuid v \<noteq> mi_uuid z) (x # xs) = filter (\<lambda>z. \<forall>v \<in> set ys. mi_uuid v \<noteq> mi_uuid z) xs"
      using e by (simp cong: filter_cong)
    then show ?thesis using 3 "3.IH"(3) [OF 3 ok] by simp
  qed
qed auto

lemma info_ok_filter: "info_ok c \<Longrightarrow> info_ok (filter P c)"
  by (simp add: info_ok_def sorted_wrt_filter)

lemma info_ok_map: "info_ok c \<Longrightarrow> (\<And>i. mi_uuid (f i) = mi_uuid i) \<Longrightarrow> info_ok (map f c)"
  by (induction c) (auto simp: info_ok_def infoLess_def)

lemma info_ok_unique: "info_ok c \<Longrightarrow> i \<in> set c \<Longrightarrow> j \<in> set c \<Longrightarrow> mi_uuid i = mi_uuid j \<Longrightarrow> i = j"
  by (induction c) (auto simp: info_ok_def infoLess_def)

lemma info_ok_distinct: "info_ok c \<Longrightarrow> distinct c"
  by (induction c) (auto simp: info_ok_def)

lemma set_insert_ok:
  assumes "info_ok c"
  shows "info_ok (set_insert x c)" "set (set_insert x c) \<subseteq> insert x (set c)"
proof -
  have "info_ok (set_insert x c) \<and> set (set_insert x c) \<subseteq> insert x (set c)"
    using assms
  proof (induction x c rule: set_insert.induct)
    case (2 x y ys)
    then show ?case using infoLess_trans [of x y] by (auto simp: info_ok_def)
  qed (simp add: info_ok_def)
  then show "info_ok (set_insert x c)" "set (set_insert x c) \<subseteq> insert x (set c)" by simp_all
qed

text \<open>What a container has for a UUID.\<close>

definition lk :: "'a info_scheme list \<Rightarrow> string \<Rightarrow> 'a info_scheme option" where
  "lk c u = find (\<lambda>i. mi_uuid i = u) c"

lemma lk_Nil [simp]: "lk [] u = None"
  by (simp add: lk_def)

lemma lk_Cons [simp]: "lk (x # c) u = (if mi_uuid x = u then Some x else lk c u)"
  by (simp add: lk_def)

lemma lk_None: "lk c u = None \<longleftrightarrow> (\<forall>i \<in> set c. mi_uuid i \<noteq> u)"
  by (auto simp: lk_def find_None_iff)

lemma lk_Some: "info_ok c \<Longrightarrow> lk c u = Some i \<longleftrightarrow> i \<in> set c \<and> mi_uuid i = u"
proof (induction c)
  case (Cons x c)
  then have "\<forall>y \<in> set c. mi_uuid y \<noteq> mi_uuid x" "info_ok c" by (auto simp: info_ok_def infoLess_def)
  then show ?case using Cons.IH by auto
qed simp

lemma lk_uuid: "lk c u = Some i \<Longrightarrow> mi_uuid i = u"
  by (induction c) (auto split: if_splits)

lemma lk_filter_uuid: "lk (filter (\<lambda>y. P (mi_uuid y)) c) u = (if P u then lk c u else None)"
  by (induction c) auto

lemma lk_filter: "info_ok c \<Longrightarrow> lk (filter P c) u = (case lk c u of None \<Rightarrow> None | Some i \<Rightarrow> if P i then Some i else None)"
proof (induction c)
  case (Cons x c)
  then have n: "\<forall>y \<in> set c. mi_uuid y \<noteq> mi_uuid x" and o: "info_ok c" by (auto simp: info_ok_def infoLess_def)
  have "mi_uuid x = u \<Longrightarrow> lk (filter P c) u = None" using n by (auto simp: lk_None)
  then show ?case using Cons.IH [OF o] by simp
qed simp

lemma lk_map: "(\<And>i. mi_uuid (f i) = mi_uuid i) \<Longrightarrow> lk (map f c) u = map_option f (lk c u)"
  by (induction c) auto

lemma set_find_lk: "info_ok c \<Longrightarrow> set_find x c = lk c (mi_uuid x)"
  by (simp add: set_find_find lk_def)

lemma lk_set_insert:
  assumes "info_ok c" "lk c (mi_uuid x) = None"
  shows "lk (set_insert x c) u = (if u = mi_uuid x then Some x else lk c u)"
proof -
  note i = set_insert_set [OF assms(1), of x]
  from assms(2) have "\<forall>y \<in> set c. mi_uuid y \<noteq> mi_uuid x" by (simp add: lk_None)
  from i [OF this] have ok: "info_ok (set_insert x c)" and s: "set (set_insert x c) = insert x (set c)" by simp_all
  show ?thesis
  proof (cases "u = mi_uuid x")
    case True
    then show ?thesis using lk_Some [OF ok] s by auto
  next
    case False
    then have "lk (set_insert x c) u = Some j \<longleftrightarrow> lk c u = Some j" for j
      using lk_Some [OF ok] lk_Some [OF assms(1)] s by auto
    then show ?thesis using False by (metis not_Some_eq)
  qed
qed

lemma info_ok_lk: "info_ok c \<Longrightarrow> info_ok d \<Longrightarrow> lk c = lk d \<Longrightarrow> set c = set d"
  using lk_Some by (metis subsetI subset_antisym)

text \<open>What is deleted, and when it is kept.\<close>

lemma info_del_filter:
  "info_ok c \<Longrightarrow> info_del b s c = filter (\<lambda>y. \<forall>e \<in> set s. mi_uuid e = mi_uuid y \<longrightarrow> b \<and> mi_inuse e) c"
proof (induction s arbitrary: c)
  case (Cons e s)
  have d: "delElem b e c = (if b \<and> mi_inuse e then c else filter (\<lambda>y. mi_uuid y \<noteq> mi_uuid e) c)"
    using Cons.prems by (simp add: delElem_def set_erase_filter)
  then have "info_ok (delElem b e c)" using Cons.prems by (simp add: info_ok_filter)
  from Cons.IH [OF this] show ?case using Cons.prems
    by (auto simp: info_del_def d filter_filter intro!: filter_cong)
qed (simp add: info_del_def)

lemma info_del_getDel:
  assumes "info_ok c" "info_ok db_set"
  shows "info_del True (getDel db_set c) c = filter (\<lambda>i. lk db_set (mi_uuid i) \<noteq> None \<or> mi_inuse i) c"
proof -
  have g: "set (getDel db_set c) = {x \<in> set c. lk db_set (mi_uuid x) = None}"
    using set_difference_filter [OF assms] by (auto simp: getDel_def lk_None)
  show ?thesis unfolding info_del_filter [OF assms(1)]
    using info_ok_unique [OF assms(1)] by (intro filter_cong) (auto simp: g)
qed

section \<open>The contract of an update\<close>

text \<open>An update of an element leaves its UUID and who uses it alone.\<close>

locale updatable =
  fixes upd :: "'a info_scheme \<Rightarrow> 'a info_scheme \<Rightarrow> 'a info_scheme"
  assumes upd_uuid: "mi_uuid (upd v i) = mi_uuid i"
    and upd_inuse: "mi_inuse (upd v i) = mi_inuse i"
begin

lemma addElem_lk:
  assumes "info_ok c"
  shows "info_ok (addElem upd True e c)"
    "lk (addElem upd True e c) u =
       (if u = mi_uuid e then Some (case lk c u of None \<Rightarrow> e | Some j \<Rightarrow> upd e j) else lk c u)"
proof -
  let ?f = "\<lambda>y. if mi_uuid y = mi_uuid e then upd e y else y"
  have f: "mi_uuid (?f y) = mi_uuid y" for y by (simp add: upd_uuid)
  have a: "addElem upd True e c = (if lk c (mi_uuid e) = None then set_insert e c else map ?f c)"
    by (auto simp: addElem_def set_find_lk [OF assms] set_update_map [OF assms] split: option.split)
  have m: "lk (map ?f c) u = map_option ?f (lk c u)" by (rule lk_map) (rule f)
  show "info_ok (addElem upd True e c)"
    unfolding a using set_insert_set [OF assms, of e] info_ok_map [OF assms, of ?f, OF f] by (auto simp: lk_None)
  show "lk (addElem upd True e c) u =
       (if u = mi_uuid e then Some (case lk c u of None \<Rightarrow> e | Some j \<Rightarrow> upd e j) else lk c u)"
  proof (cases "lk c (mi_uuid e)")
    case None
    then show ?thesis using lk_set_insert [OF assms None] by (simp add: a)
  next
    case (Some j)
    have "lk (map ?f c) u = (if u = mi_uuid e then Some (case lk c u of None \<Rightarrow> e | Some j \<Rightarrow> upd e j) else lk c u)"
      unfolding m using Some lk_uuid [of c u] by (cases "lk c u") auto
    then show ?thesis using Some by (simp add: a)
  qed
qed

lemma info_add_lk:
  assumes "info_ok c" "info_ok s"
  shows "info_ok (info_add upd True s c)"
    "lk (info_add upd True s c) u =
       (case lk s u of None \<Rightarrow> lk c u | Some e \<Rightarrow> Some (case lk c u of None \<Rightarrow> e | Some j \<Rightarrow> upd e j))"
proof -
  have "info_ok (info_add upd True s c) \<and> lk (info_add upd True s c) u =
       (case lk s u of None \<Rightarrow> lk c u | Some e \<Rightarrow> Some (case lk c u of None \<Rightarrow> e | Some j \<Rightarrow> upd e j))"
    using assms
  proof (induction s arbitrary: c)
    case (Cons e s)
    have n: "lk s (mi_uuid e) = None" and o: "info_ok s"
      using Cons.prems(2) by (auto simp: lk_None info_ok_def infoLess_def)
    have s: "info_add upd True (e # s) c = info_add upd True s (addElem upd True e c)" by (simp add: info_add_def)
    show ?case unfolding s using Cons.IH [OF addElem_lk(1) [OF Cons.prems(1)] o] n
      by (auto simp: addElem_lk(2) [OF Cons.prems(1)] split: option.split)
  qed (simp add: info_add_def)
  then show "info_ok (info_add upd True s c)" "lk (info_add upd True s c) u =
       (case lk s u of None \<Rightarrow> lk c u | Some e \<Rightarrow> Some (case lk c u of None \<Rightarrow> e | Some j \<Rightarrow> upd e j))" by simp_all
qed

lemma processDB_lk:
  assumes "info_ok c" "info_ok db_set"
  shows "info_ok (processDB upd db_set c)"
    "lk (processDB upd db_set c) u = (case lk db_set u of
        None \<Rightarrow> (case lk c u of None \<Rightarrow> None | Some i \<Rightarrow> if mi_inuse i then Some i else None)
      | Some e \<Rightarrow> Some (case lk c u of None \<Rightarrow> e | Some i \<Rightarrow> upd e i))"
proof -
  let ?P = "\<lambda>i. lk db_set (mi_uuid i) \<noteq> None \<or> mi_inuse i"
  have p: "processDB upd db_set c = info_add upd True db_set (filter ?P c)"
    by (simp only: processDB_def info_del_getDel [OF assms])
  have ok: "info_ok (filter ?P c)" by (rule info_ok_filter [OF assms(1)])
  show "info_ok (processDB upd db_set c)" unfolding p by (rule info_add_lk(1) [OF ok assms(2)])
  have "lk (filter ?P c) u = (case lk c u of None \<Rightarrow> None | Some i \<Rightarrow> if lk db_set u \<noteq> None \<or> mi_inuse i then Some i else None)"
    unfolding lk_filter [OF assms(1)] using lk_uuid [of c u] by (cases "lk c u") auto
  then show "lk (processDB upd db_set c) u = (case lk db_set u of
        None \<Rightarrow> (case lk c u of None \<Rightarrow> None | Some i \<Rightarrow> if mi_inuse i then Some i else None)
      | Some e \<Rightarrow> Some (case lk c u of None \<Rightarrow> e | Some i \<Rightarrow> upd e i))"
    unfolding p info_add_lk(2) [OF ok assms(2)] by (auto split: option.splits)
qed

text \<open>Who uses an element is not changed by an update.\<close>

lemma processDB_inuse:
  assumes "info_ok c" "info_ok db_set" "\<forall>i \<in> set db_set. \<not> mi_inuse i"
  shows "(\<exists>i. lk (processDB upd db_set c) u = Some i \<and> mi_inuse i) \<longleftrightarrow> (\<exists>i. lk c u = Some i \<and> mi_inuse i)"
proof -
  have "\<not> mi_inuse e" if "lk db_set u = Some e" for e using that lk_Some [OF assms(2)] assms(3) by auto
  then show ?thesis unfolding processDB_lk(2) [OF assms(1,2)] by (auto simp: upd_inuse split: option.splits)
qed

end

interpretation base: updatable updateInfo
  by unfold_locales (simp_all add: updateInfo_def)

lemma doStop_lk:
  assumes "info_ok c" "doStop u c = Some c'"
  shows "info_ok c'" "lk c' v = (if v = u then map_option (setInUse False) (lk c v) else lk c v)"
    "\<exists>i. lk c u = Some i \<and> mi_inuse i"
proof -
  from assms(2) obtain i where i: "lk c u = Some i" "mi_inuse i" and c': "c' = set_update (setInUse False) i c"
    by (auto simp: doStop_def getInfoByUUID_def lk_def split: option.splits if_splits)
  have u: "mi_uuid i = u" using i lk_uuid by fastforce
  let ?f = "\<lambda>y. if mi_uuid y = u then setInUse False y else y"
  have f: "mi_uuid (?f y) = mi_uuid y" for y by (simp add: setInUse_def)
  have m: "c' = map ?f c" by (simp add: c' set_update_map [OF assms(1)] u)
  show "info_ok c'" unfolding m by (rule info_ok_map [OF assms(1)]) (rule f)
  show "lk c' v = (if v = u then map_option (setInUse False) (lk c v) else lk c v)"
    unfolding m using lk_map [of ?f c v, OF f] lk_uuid [of c v] by (cases "lk c v") auto
  show "\<exists>i. lk c u = Some i \<and> mi_inuse i" using i by blast
qed

end
