(* ===== verification/Files.thy ===== *)
theory Files
  imports Infoset Message
begin

text \<open>
  The module of files, \<^verbatim>\<open>src/modules/file/\<close>: who uses a file, and the folders that give out new files; the
  sources of HTTP, \<^verbatim>\<open>src/modules/httpsrc/\<close>.  \<open>None\<close> is an exception, also that of a failed assertion.  What the
  file system, the clock and the database say at a request is given with the request.
\<close>

section \<open>Creating folders\<close>

text \<open>What there is under a path, \<open>True\<close> for a folder.  The system call is a parameter.\<close>

type_synonym fs = "string \<Rightarrow> bool option"

definition parent_of :: "string \<Rightarrow> string option" where
  "parent_of path = (if CHR ''/'' \<in> set path then Some (rev (tl (dropWhile (\<lambda>c. c \<noteq> CHR ''/'') (rev path)))) else None)"

lemma parent_of_length: "parent_of path = Some q \<Longrightarrow> length q < length path"
proof -
  assume p: "parent_of path = Some q"
  then have i: "CHR ''/'' \<in> set path" by (auto simp: parent_of_def split: if_splits)
  have "length (dropWhile (\<lambda>c. c \<noteq> CHR ''/'') (rev path)) \<le> length path" using length_dropWhile_le [of _ "rev path"] by simp
  moreover have "0 < length path" using length_pos_if_in_set [OF i] .
  ultimately have "length (dropWhile (\<lambda>c. c \<noteq> CHR ''/'') (rev path)) - Suc 0 < length path" by linarith
  then show ?thesis using p i by (auto simp: parent_of_def)
qed

function mkdir :: "(string \<Rightarrow> fs \<Rightarrow> fs option) \<Rightarrow> string \<Rightarrow> fs \<Rightarrow> fs option"
  and mkParentDir :: "(string \<Rightarrow> fs \<Rightarrow> fs option) \<Rightarrow> string \<Rightarrow> fs \<Rightarrow> fs option" where
  "mkdir sys path fs =
     (case fs path of
        Some True \<Rightarrow> Some fs
      | Some False \<Rightarrow> None
      | None \<Rightarrow> if path = [] then None else (case mkParentDir sys path fs of None \<Rightarrow> None | Some fs' \<Rightarrow> sys path fs'))"
| "mkParentDir sys path fs =
     (case parent_of path of
        None \<Rightarrow> None
      | Some parent \<Rightarrow> (case fs parent of None \<Rightarrow> mkdir sys parent fs | Some True \<Rightarrow> Some fs | Some False \<Rightarrow> None))"
  by pat_completeness auto
termination
  by (relation "measure (case_sum (\<lambda>(_, p, _). 2 * length p + 1) (\<lambda>(_, p, _). 2 * length p))") (auto dest: parent_of_length)

declare mkdir.simps [simp del] mkParentDir.simps [simp del]

text \<open>The folder of a path below another.\<close>

definition below :: "string \<Rightarrow> string list \<Rightarrow> string" where
  "below base ns = base @ concat (map (\<lambda>n. CHR ''/'' # n) ns)"

lemma parent_of_below: "CHR ''/'' \<notin> set n \<Longrightarrow> parent_of (below base (ns @ [n])) = Some (below base ns)"
proof -
  assume n: "CHR ''/'' \<notin> set n"
  have "dropWhile (\<lambda>c. c \<noteq> CHR ''/'') (rev n @ CHR ''/'' # rev (below base ns)) = CHR ''/'' # rev (below base ns)"
    using n by (subst dropWhile_append2) auto
  then show ?thesis by (simp add: parent_of_def below_def)
qed

lemma below_snoc: "below base (ns @ [n]) = below base ns @ CHR ''/'' # n"
  by (simp add: below_def)

text \<open>The folders on the way to it, and that none of them is there.\<close>

fun paths :: "string \<Rightarrow> string list \<Rightarrow> string list" where
  "paths base [] = []"
| "paths base (n # ns) = (base @ CHR ''/'' # n) # paths (base @ CHR ''/'' # n) ns"

definition missing :: "string list \<Rightarrow> fs \<Rightarrow> bool" where
  "missing ps fs \<longleftrightarrow> (\<forall>p \<in> set ps. fs p = None)"

definition with_folders :: "string list \<Rightarrow> fs \<Rightarrow> fs" where
  "with_folders ps fs = (\<lambda>p. if p \<in> set ps then Some True else fs p)"

lemma paths_snoc: "paths base (ns @ [n]) = paths base ns @ [below base (ns @ [n])]"
  by (induction ns arbitrary: base) (simp_all add: below_def)

lemma paths_length: "p \<in> set (paths base ns) \<Longrightarrow> length p \<le> length (below base ns)"
  by (induction ns arbitrary: base) (fastforce simp: below_def)+

lemma with_folders_snoc: "with_folders (ps @ [p]) fs = (with_folders ps fs)(p \<mapsto> True)"
  by (auto simp: with_folders_def fun_eq_iff)

text \<open>A folder is made with all that is missing above it, when a folder above it exists.\<close>

lemma mkdir_below:
  assumes sys: "\<And>p q g. g p = None \<Longrightarrow> parent_of p = Some q \<Longrightarrow> g q = Some True \<Longrightarrow> sys p g = Some (g(p \<mapsto> True))"
    and base: "fs base = Some True" and n: "\<forall>n \<in> set ns. CHR ''/'' \<notin> set n" and m: "missing (paths base ns) fs"
  shows "mkdir sys (below base ns) fs = Some (with_folders (paths base ns) fs)"
  using n m
proof (induction ns rule: rev_induct)
  case Nil
  then show ?case using base by (simp add: mkdir.simps below_def with_folders_def)
next
  case (snoc n ns)
  let ?p = "below base (ns @ [n])" and ?q = "below base ns" and ?g = "with_folders (paths base ns) fs"
  have par: "parent_of ?p = Some ?q" using snoc.prems(1) by (intro parent_of_below) simp
  have mi: "missing (paths base ns) fs" and p: "fs ?p = None" using snoc.prems(2) by (simp_all add: missing_def paths_snoc)
  have IH: "mkdir sys ?q fs = Some ?g" using snoc.IH snoc.prems(1) mi by simp
  have "?p \<notin> set (paths base ns)" using paths_length [of ?p base ns] by (auto simp: below_snoc)
  then have gp: "?g ?p = None" using p by (simp add: with_folders_def)
  have "mkParentDir sys ?p fs = Some ?g \<and> ?g ?q = Some True"
  proof (cases ns rule: rev_cases)
    case Nil
    then have "?q = base" "?g = fs" by (simp_all add: below_def with_folders_def)
    then show ?thesis using base par by (simp add: mkParentDir.simps)
  next
    case (snoc ms k)
    then have q: "?q \<in> set (paths base ns)" by (simp add: paths_snoc)
    then have "fs ?q = None" using mi by (simp add: missing_def)
    then show ?thesis using par IH q by (simp add: mkParentDir.simps with_folders_def)
  qed
  moreover have "?p \<noteq> []" by (simp add: below_snoc)
  ultimately show ?case using p sys [where p = ?p and q = ?q and g = ?g] gp par by (simp add: mkdir.simps paths_snoc with_folders_snoc fun_upd_def)
qed

text \<open>A folder at the root is not made: its parent is empty, and the assertion on it fails.\<close>

lemma mkdir_at_root: "n \<noteq> [] \<Longrightarrow> CHR ''/'' \<notin> set n \<Longrightarrow> fs (CHR ''/'' # n) = None \<Longrightarrow> fs [] = None \<Longrightarrow> mkdir sys (CHR ''/'' # n) fs = None"
  using parent_of_below [of n "[]" "[]"] by (simp add: mkdir.simps mkParentDir.simps below_def)

section \<open>Information on files and folders\<close>

record file_info = info +
  fi_path :: string
  fi_folder :: bool
  fi_file_uuid :: string

record file_row =
  fw_uuid :: string
  fw_name :: string
  fw_path :: string
  fw_type :: string

definition FILE_TYPE_REGULAR :: string where "FILE_TYPE_REGULAR = ''02bbe91f-ea6c-4694-bb88-e1501b52f54b''"
definition FILE_TYPE_FOLDER :: string where "FILE_TYPE_FOLDER = ''7fcec050-3344-4dad-9e58-ce55b0ecb0e1''"

definition FileInfo :: "bool \<Rightarrow> file_row \<Rightarrow> file_info option" where
  "FileInfo folder r =
     (case info_new (fw_uuid r) (fw_name r) of
        None \<Rightarrow> None
      | Some i \<Rightarrow> if fw_path r = [] then None
          else Some \<lparr>mi_uuid = mi_uuid i, mi_name = mi_name i, mi_inuse = mi_inuse i, fi_path = fw_path r, fi_folder = folder, fi_file_uuid = []\<rparr>)"

definition file_row_info :: "file_row \<Rightarrow> file_info option" where
  "file_row_info r =
     (if fw_type r = FILE_TYPE_REGULAR then FileInfo False r
      else if fw_type r = FILE_TYPE_FOLDER then FileInfo True r
      else None)"

fun file_rows :: "file_row list \<Rightarrow> file_info list \<Rightarrow> file_info list option" where
  "file_rows [] s = Some s"
| "file_rows (r # rs) s = (case file_row_info r of None \<Rightarrow> None | Some i \<Rightarrow> file_rows rs (set_insert i s))"

definition getInfoFromDB :: "file_row list \<Rightarrow> file_info list option" where
  "getInfoFromDB rows = file_rows rows []"

definition file_updateInfo :: "file_info \<Rightarrow> file_info \<Rightarrow> file_info" where
  "file_updateInfo value i = (updateInfo value i)\<lparr>fi_path := fi_path value\<rparr>"

interpretation fileinfo: updatable file_updateInfo
  by unfold_locales (simp_all add: file_updateInfo_def updateInfo_def)

section \<open>Requests\<close>

definition FILESTART :: string where "FILESTART = ''de11a09f-621c-4375-b422-1fbf837bcfc1''"
definition FILESTOP :: string where "FILESTOP = ''e459510e-f561-4a07-8147-1c1d2ca8c418''"
definition FILEINFO :: string where "FILEINFO = ''54d7768b-b3f7-436a-b475-60ca848fb359''"
definition FILEPATH :: string where "FILEPATH = ''file_path''"
definition FILEMODE :: string where "FILEMODE = ''file_mode''"
definition FILEREAD :: string where "FILEREAD = ''file_mode_read''"
definition FILEWRITE :: string where "FILEWRITE = ''file_mode_write''"
definition MODINFOUUID :: string where "MODINFOUUID = ''modinfo_uuid''"
definition MODINFONAME :: string where "MODINFONAME = ''modinfo_name''"

text \<open>
  What is outside of the program at a request: the file system, its call that makes a folder, the local
  time as \<^verbatim>\<open>/%Y/%m/%d/%H\<close>, a random UUID, and the two procedures of the database for a child of a folder, its
  name, path and the UUID of the folder, and for the end of its time.
\<close>

record fenv =
  fe_fs :: fs
  fe_mkdir :: "string \<Rightarrow> fs \<Rightarrow> fs option"
  fe_time :: string
  fe_uuid :: string
  fe_add_child :: "string \<Rightarrow> string \<Rightarrow> string \<Rightarrow> string option"
  fe_end_time :: "string \<Rightarrow> bool"

definition file_check :: "fenv \<Rightarrow> file_info \<Rightarrow> message \<Rightarrow> bool" where
  "file_check env i m =
     (case getValue FILEMODE m of
        None \<Rightarrow> False
      | Some mode \<Rightarrow>
          if mode = FILEREAD then fe_fs env (fi_path i) \<noteq> None
          else if mode = FILEWRITE then m_id m = FILESTART
          else False)"

definition folder_check :: "fenv \<Rightarrow> file_info \<Rightarrow> message \<Rightarrow> bool" where
  "folder_check env i m =
     (case getValue FILEMODE m of None \<Rightarrow> False | Some mode \<Rightarrow> if mode = FILEREAD then False else file_check env i m)"

definition info_check :: "fenv \<Rightarrow> file_info \<Rightarrow> message \<Rightarrow> bool" where
  "info_check env i m = (if fi_folder i then folder_check env i m else file_check env i m)"

definition info_fillOutMessage :: "'a info_scheme \<Rightarrow> message \<Rightarrow> message" where
  "info_fillOutMessage i out = setValue MODINFONAME (mi_name i) out"

definition file_fillOutMessage :: "file_info \<Rightarrow> message \<Rightarrow> message" where
  "file_fillOutMessage i out = setValue FILEPATH (fi_path i) (info_fillOutMessage i out)"

text \<open>A folder remembers the file it gave out last; the answer is \<open>None\<close> for an exception.\<close>

definition folder_fillOutMessage :: "fenv \<Rightarrow> file_info \<Rightarrow> message \<Rightarrow> file_info \<times> message option" where
  "folder_fillOutMessage env i out =
     (let folder = fi_path i @ fe_time env;
          name = fe_uuid env @ ''.bin'';
          path = folder @ ''/'' @ name
      in case mkdir (fe_mkdir env) folder (fe_fs env) of
           None \<Rightarrow> (i, None)
         | Some _ \<Rightarrow>
             (case fe_add_child env name path (mi_uuid i) of
                None \<Rightarrow> (i, None)
              | Some file \<Rightarrow>
                  (let file_uuid = fi_file_uuid i
                   in if file = [] then (i, None)
                      else (let i = i\<lparr>fi_file_uuid := file\<rparr>
                            in if file_uuid \<noteq> [] \<and> \<not> fe_end_time env file_uuid then (i, None)
                               else (i, Some (setValue FILEPATH path (info_fillOutMessage i out)))))))"

definition fillOutMessage :: "fenv \<Rightarrow> file_info \<Rightarrow> message \<Rightarrow> file_info \<times> message option" where
  "fillOutMessage env i out = (if fi_folder i then folder_fillOutMessage env i out else (i, Some (file_fillOutMessage i out)))"

definition getModuleInfo :: "message \<Rightarrow> 'a info_scheme list \<Rightarrow> 'a info_scheme option" where
  "getModuleInfo m c = (case getValue MODINFOUUID m of None \<Rightarrow> None | Some uuid \<Rightarrow> getInfoByUUID uuid c)"

text \<open>The element is marked before the answer is made.\<close>

definition file_doStart :: "fenv \<Rightarrow> message \<Rightarrow> message \<Rightarrow> file_info list \<Rightarrow> file_info list \<times> message option" where
  "file_doStart env m out c =
     (case getModuleInfo m c of
        None \<Rightarrow> (c, None)
      | Some i \<Rightarrow>
          if mi_inuse i then (c, None)
          else if \<not> info_check env i m then (c, None)
          else (case fillOutMessage env (setInUse True i) out of (i', r) \<Rightarrow> (set_update (\<lambda>_. i') i c, r)))"

definition file_doInfo :: "fenv \<Rightarrow> message \<Rightarrow> message \<Rightarrow> file_info list \<Rightarrow> file_info list \<times> message option" where
  "file_doInfo env m out c =
     (case getModuleInfo m c of
        None \<Rightarrow> (c, None)
      | Some i \<Rightarrow>
          if \<not> info_check env i m then (c, None)
          else (case fillOutMessage env i out of (i', r) \<Rightarrow> (set_update (\<lambda>_. i') i c, r)))"

definition file_doStop :: "message \<Rightarrow> message \<Rightarrow> file_info list \<Rightarrow> file_info list \<times> message option" where
  "file_doStop m out c =
     (case getValue MODINFOUUID m of
        None \<Rightarrow> (c, None)
      | Some uuid \<Rightarrow> (case doStop uuid c of None \<Rightarrow> (c, None) | Some c' \<Rightarrow> (c', Some out)))"

text \<open>The handlers by the messages they are registered for.\<close>

definition file_request :: "fenv \<Rightarrow> message \<Rightarrow> message \<Rightarrow> file_info list \<Rightarrow> file_info list \<times> message option" where
  "file_request env m out c =
     (if m_id m = FILESTART then file_doStart env m out c
      else if m_id m = FILESTOP then file_doStop m out c
      else if m_id m = FILEINFO then file_doInfo env m out c
      else (c, None))"

definition file_processDB :: "file_row list \<Rightarrow> file_info list \<Rightarrow> file_info list" where
  "file_processDB rows c = (case getInfoFromDB rows of None \<Rightarrow> c | Some db_set \<Rightarrow> processDB file_updateInfo db_set c)"

section \<open>Who uses a file\<close>

lemma file_row_info_new: "file_row_info r = Some i \<Longrightarrow> \<not> mi_inuse i \<and> fi_path i \<noteq> [] \<and> mi_uuid i \<noteq> []"
  by (auto simp: file_row_info_def FileInfo_def info_new_def split: if_splits option.splits)

text \<open>What comes from the database is in order, and not in use.\<close>

lemma file_rows_new:
  "file_rows rows s = Some t \<Longrightarrow> info_ok s \<Longrightarrow> \<forall>i \<in> set s. \<not> mi_inuse i \<Longrightarrow> info_ok t \<and> (\<forall>i \<in> set t. \<not> mi_inuse i)"
proof (induction rows s rule: file_rows.induct)
  case (2 r rs s)
  from "2.prems"(1) obtain i where i: "file_row_info r = Some i" "file_rows rs (set_insert i s) = Some t"
    by (auto split: option.splits)
  have "\<forall>j \<in> set (set_insert i s). \<not> mi_inuse j"
    using set_insert_ok(2) [OF "2.prems"(2), of i] "2.prems"(3) file_row_info_new [OF i(1)] by auto
  then show ?case using "2.IH" [OF i] set_insert_ok(1) [OF "2.prems"(2)] by simp
qed simp

definition in_use :: "string \<Rightarrow> 'a info_scheme list \<Rightarrow> bool" where
  "in_use u c \<longleftrightarrow> (\<exists>i. lk c u = Some i \<and> mi_inuse i)"

lemma file_processDB_use: "info_ok c \<Longrightarrow> info_ok (file_processDB rows c) \<and> in_use u (file_processDB rows c) = in_use u c"
proof (cases "getInfoFromDB rows")
  case (Some db_set)
  assume c: "info_ok c"
  have d: "info_ok db_set" "\<forall>i \<in> set db_set. \<not> mi_inuse i"
    using Some file_rows_new [of rows "[]" db_set] by (auto simp: getInfoFromDB_def info_ok_def)
  show ?thesis
    using fileinfo.processDB_lk(1) [OF c d(1)] fileinfo.processDB_inuse [OF c d] Some
    by (simp add: file_processDB_def in_use_def)
qed (simp add: file_processDB_def)

lemma set_update_lk:
  assumes "info_ok c" "lk c u = Some i" "mi_uuid j = u"
  shows "info_ok (set_update (\<lambda>_. j) i c)" "lk (set_update (\<lambda>_. j) i c) v = (if v = u then Some j else lk c v)"
proof -
  have iu: "mi_uuid i = u" using assms(2) by (rule lk_uuid)
  let ?f = "\<lambda>y. if mi_uuid y = u then j else y"
  have f: "mi_uuid (?f y) = mi_uuid y" for y using assms(3) by simp
  have m: "set_update (\<lambda>_. j) i c = map ?f c" by (simp add: set_update_map [OF assms(1)] iu)
  show "info_ok (set_update (\<lambda>_. j) i c)" unfolding m by (rule info_ok_map [OF assms(1)]) (rule f)
  show "lk (set_update (\<lambda>_. j) i c) v = (if v = u then Some j else lk c v)"
    unfolding m using lk_map [of ?f c v, OF f] lk_uuid [of c v] assms(2) by (cases "lk c v") auto
qed

lemma fillOutMessage_kept: "fillOutMessage env i out = (j, r) \<Longrightarrow> mi_uuid j = mi_uuid i \<and> mi_inuse j = mi_inuse i"
  by (auto simp: fillOutMessage_def folder_fillOutMessage_def Let_def split: if_splits option.splits)

lemma getModuleInfo_lk: "getModuleInfo m c = Some i \<Longrightarrow> getValue MODINFOUUID m = Some (mi_uuid i) \<and> lk c (mi_uuid i) = Some i"
  by (auto simp: getModuleInfo_def getInfoByUUID_def lk_def [symmetric] dest: lk_uuid split: option.splits if_splits)

text \<open>The events of a run of requests and updates from the database: who got a file and who gave it back.\<close>

datatype file_step = Sync fenv message message | Db "file_row list"
datatype file_event = Started string | Stopped string

definition file_event_of :: "message \<Rightarrow> message option \<Rightarrow> file_event option" where
  "file_event_of m r =
     (case (getValue MODINFOUUID m, r) of
        (Some u, Some _) \<Rightarrow> if m_id m = FILESTART then Some (Started u) else if m_id m = FILESTOP then Some (Stopped u) else None
      | _ \<Rightarrow> None)"

fun file_do :: "file_step \<Rightarrow> file_info list \<Rightarrow> file_info list \<times> file_event option" where
  "file_do (Sync env m out) c = (case file_request env m out c of (c', r) \<Rightarrow> (c', file_event_of m r))"
| "file_do (Db rows) c = (file_processDB rows c, None)"

fun file_run :: "file_step list \<Rightarrow> file_info list \<Rightarrow> file_event list" where
  "file_run [] c = []"
| "file_run (s # ss) c = (case file_do s c of (c', e) \<Rightarrow> (case e of None \<Rightarrow> [] | Some e \<Rightarrow> [e]) @ file_run ss c')"

text \<open>Nobody gets what another has not given back.\<close>

fun exclusive :: "string \<Rightarrow> bool \<Rightarrow> file_event list \<Rightarrow> bool" where
  "exclusive u held [] = True"
| "exclusive u held (Started v # es) = (if v = u then \<not> held \<and> exclusive u True es else exclusive u held es)"
| "exclusive u held (Stopped v # es) = (if v = u then exclusive u False es else exclusive u held es)"

lemma file_doStart_use:
  assumes "info_ok c" "file_doStart env m out c = (c', r)"
  shows "info_ok c'" "in_use v c \<Longrightarrow> in_use v c'"
    "r = Some x \<Longrightarrow> getValue MODINFOUUID m = Some u \<Longrightarrow> \<not> in_use u c \<and> in_use u c'"
proof -
  have "info_ok c' \<and> (in_use v c \<longrightarrow> in_use v c') \<and> (r = Some x \<longrightarrow> getValue MODINFOUUID m = Some u \<longrightarrow> \<not> in_use u c \<and> in_use u c')"
  proof (cases "c' = c \<and> r = None")
    case True
    then show ?thesis using assms(1) by simp
  next
    case False
    then obtain i j where i: "getModuleInfo m c = Some i" "\<not> mi_inuse i"
      and j: "fillOutMessage env (setInUse True i) out = (j, r)" and c': "c' = set_update (\<lambda>_. j) i c"
      using assms(2) by (auto simp: file_doStart_def split: option.splits if_splits prod.splits)
    from getModuleInfo_lk [OF i(1)] have g: "getValue MODINFOUUID m = Some (mi_uuid i)" and l: "lk c (mi_uuid i) = Some i" by simp_all
    from fillOutMessage_kept [OF j] have k: "mi_uuid j = mi_uuid i" "mi_inuse j" by (simp_all add: setInUse_def)
    show ?thesis
      using set_update_lk [OF assms(1) l k(1)] g l i(2) k(2) by (auto simp: c' in_use_def)
  qed
  then show "info_ok c'" "in_use v c \<Longrightarrow> in_use v c'"
    "r = Some x \<Longrightarrow> getValue MODINFOUUID m = Some u \<Longrightarrow> \<not> in_use u c \<and> in_use u c'" by simp_all
qed

lemma file_doInfo_use:
  assumes "info_ok c" "file_doInfo env m out c = (c', r)"
  shows "info_ok c'" "in_use v c' = in_use v c"
proof -
  have "info_ok c' \<and> in_use v c' = in_use v c"
  proof (cases "c' = c")
    case True
    then show ?thesis using assms(1) by simp
  next
    case False
    then obtain i j where i: "getModuleInfo m c = Some i"
      and j: "fillOutMessage env i out = (j, r)" and c': "c' = set_update (\<lambda>_. j) i c"
      using assms(2) by (auto simp: file_doInfo_def split: option.splits if_splits prod.splits)
    from getModuleInfo_lk [OF i] have l: "lk c (mi_uuid i) = Some i" by simp
    from fillOutMessage_kept [OF j] have k: "mi_uuid j = mi_uuid i" "mi_inuse j = mi_inuse i" by simp_all
    show ?thesis
      using set_update_lk [OF assms(1) l k(1)] l k(2) by (auto simp: c' in_use_def)
  qed
  then show "info_ok c'" "in_use v c' = in_use v c" by simp_all
qed

lemma file_doStop_use:
  assumes "info_ok c" "file_doStop m out c = (c', r)"
  shows "info_ok c'" "in_use v c \<Longrightarrow> r = None \<or> getValue MODINFOUUID m \<noteq> Some v \<Longrightarrow> in_use v c'"
proof -
  have "info_ok c' \<and> (in_use v c \<longrightarrow> r = None \<or> getValue MODINFOUUID m \<noteq> Some v \<longrightarrow> in_use v c')"
  proof (cases "c' = c \<and> r = None")
    case True
    then show ?thesis using assms(1) by simp
  next
    case False
    then obtain u where u: "getValue MODINFOUUID m = Some u" and c': "doStop u c = Some c'" and r: "r = Some out"
      using assms(2) by (auto simp: file_doStop_def split: option.splits)
    show ?thesis using doStop_lk [OF assms(1) c'] u r by (auto simp: in_use_def)
  qed
  then show "info_ok c'" "in_use v c \<Longrightarrow> r = None \<or> getValue MODINFOUUID m \<noteq> Some v \<Longrightarrow> in_use v c'" by simp_all
qed

lemma file_ids: "FILESTART \<noteq> FILESTOP" "FILESTART \<noteq> FILEINFO" "FILESTOP \<noteq> FILEINFO"
  by (simp_all add: FILESTART_def FILESTOP_def FILEINFO_def)

lemma file_do_use:
  assumes "info_ok c" "file_do s c = (c', e)"
  shows "info_ok c' \<and> (e = Some (Started u) \<longrightarrow> \<not> in_use u c \<and> in_use u c') \<and> (in_use u c \<longrightarrow> e \<noteq> Some (Stopped u) \<longrightarrow> in_use u c')"
proof (cases s)
  case (Db rows)
  then show ?thesis using file_processDB_use [OF assms(1)] assms(2) by auto
next
  case (Sync env m out)
  obtain r where r: "file_request env m out c = (c', r)" and e: "e = file_event_of m r"
    using assms(2) Sync by (auto split: prod.splits)
  consider "m_id m = FILESTART" | "m_id m = FILESTOP" | "m_id m = FILEINFO" | "m_id m \<notin> {FILESTART, FILESTOP, FILEINFO}" by blast
  then show ?thesis
  proof cases
    case 1
    then have "file_doStart env m out c = (c', r)" using r by (simp add: file_request_def)
    note st = file_doStart_use [OF assms(1) this]
    have ev: "e = Some (Started u) \<Longrightarrow> getValue MODINFOUUID m = Some u \<and> (\<exists>x. r = Some x)"
      using 1 by (auto simp: e file_event_of_def split: option.splits if_splits)
    show ?thesis using st(1) st(2) [of u] st(3) [of _ u] ev by blast
  next
    case 2
    then have "file_doStop m out c = (c', r)" using r file_ids by (simp add: file_request_def)
    note st = file_doStop_use [OF assms(1) this]
    have "e \<noteq> Some (Started u)" "e \<noteq> Some (Stopped u) \<Longrightarrow> r = None \<or> getValue MODINFOUUID m \<noteq> Some u"
      using 2 file_ids by (auto simp: e file_event_of_def split: option.splits if_splits)
    then show ?thesis using st(1) st(2) [of u] by blast
  next
    case 3
    then have "file_doInfo env m out c = (c', r)" using r file_ids by (simp add: file_request_def)
    note st = file_doInfo_use [OF assms(1) this]
    have "e = None" using 3 file_ids by (auto simp: e file_event_of_def split: option.splits)
    then show ?thesis using st(1) st(2) [of u] by simp
  next
    case 4
    then have "c' = c" "e = None" using r by (auto simp: file_request_def e file_event_of_def split: option.splits)
    then show ?thesis using assms(1) by simp
  qed
qed

text \<open>C21: In a run of requests and updates from the database, in any order and whatever the environment does,
  nobody is given a file that another was given and has not given back.\<close>

theorem file_exclusive_use: "exclusive u False (file_run ss [])"
proof -
  have "info_ok c \<Longrightarrow> (held \<Longrightarrow> in_use u c) \<Longrightarrow> exclusive u held (file_run ss c)" for c held
  proof (induction ss arbitrary: c held)
    case (Cons s ss)
    obtain c' e where d: "file_do s c = (c', e)" by (cases "file_do s c")
    have ok: "info_ok c'" "\<And>u. e = Some (Started u) \<Longrightarrow> \<not> in_use u c \<and> in_use u c'" "\<And>u. in_use u c \<Longrightarrow> e \<noteq> Some (Stopped u) \<Longrightarrow> in_use u c'"
      using file_do_use [OF Cons.prems(1) d] by blast+
    show ?case
    proof (cases e)
      case None
      then show ?thesis using Cons.IH [OF ok(1), of held] ok(3) Cons.prems(2) d by simp
    next
      case (Some ev)
      then show ?thesis using Cons.IH [OF ok(1)] ok(2,3) Cons.prems(2) d by (cases ev) auto
    qed
  qed simp
  from this [of "[]" False] show ?thesis by (simp add: info_ok_def)
qed

text \<open>A file that is there, is not used and is asked for reading is given out with its name and path.\<close>

lemma regular_file_start:
  assumes "getValue MODINFOUUID m = Some u" "u \<noteq> []" "lk c u = Some i" "\<not> fi_folder i" "\<not> mi_inuse i"
    and "m_id m = FILESTART" "getValue FILEMODE m = Some FILEREAD" "fe_fs env (fi_path i) = Some False"
  shows "file_request env m out c =
     (set_update (\<lambda>_. setInUse True i) i c, Some (setValue FILEPATH (fi_path i) (setValue MODINFONAME (mi_name i) out)))"
  using assms
  by (simp add: file_request_def file_doStart_def getModuleInfo_def getInfoByUUID_def lk_def info_check_def file_check_def
      fillOutMessage_def file_fillOutMessage_def info_fillOutMessage_def setInUse_def)

text \<open>A folder that cannot make a new file is not given out, but is marked as in use.\<close>

lemma folder_stays_locked:
  assumes "info_ok c" "getValue MODINFOUUID m = Some u" "u \<noteq> []" "lk c u = Some i" "fi_folder i" "\<not> mi_inuse i"
    and "m_id m = FILESTART" "getValue FILEMODE m = Some FILEWRITE"
    and "mkdir (fe_mkdir env) (fi_path i @ fe_time env) (fe_fs env) = None"
  shows "\<exists>c'. file_request env m out c = (c', None) \<and> in_use u c'"
proof -
  have u: "mi_uuid i = u" using assms(4) by (rule lk_uuid)
  have "FILEWRITE \<noteq> FILEREAD" by (simp add: FILEWRITE_def FILEREAD_def)
  then have "file_request env m out c = (set_update (\<lambda>_. setInUse True i) i c, None)"
    using assms(2-9)
    by (simp add: file_request_def file_doStart_def getModuleInfo_def getInfoByUUID_def lk_def info_check_def folder_check_def
        file_check_def fillOutMessage_def folder_fillOutMessage_def setInUse_def Let_def)
  moreover have "in_use u (set_update (\<lambda>_. setInUse True i) i c)"
    using set_update_lk(2) [OF assms(1,4), of "setInUse True i" u] u by (simp add: in_use_def setInUse_def)
  ultimately show ?thesis by blast
qed

text \<open>A file of the same UUID that became a folder in the database stays a file.\<close>

lemma type_not_updated: "fi_folder (file_updateInfo value i) = fi_folder i"
  by (simp add: file_updateInfo_def updateInfo_def)

text \<open>C22: After an update from the database the module has the files of the database: one it had keeps its use and
  takes the new name and path; one that is gone stays only while it is in use.\<close>

theorem files_updated:
  assumes "info_ok c" "getInfoFromDB rows = Some db_set"
  shows "lk (file_processDB rows c) u = (case lk db_set u of
        None \<Rightarrow> (case lk c u of None \<Rightarrow> None | Some i \<Rightarrow> if mi_inuse i then Some i else None)
      | Some e \<Rightarrow> Some (case lk c u of None \<Rightarrow> e | Some i \<Rightarrow> i\<lparr>mi_name := mi_name e, fi_path := fi_path e\<rparr>))"
proof -
  have d: "info_ok db_set"
    using assms(2) file_rows_new [of rows "[]" db_set] by (auto simp: getInfoFromDB_def info_ok_def)
  have e: "file_updateInfo e i = i\<lparr>mi_name := mi_name e, fi_path := fi_path e\<rparr>" for e i
    by (simp add: file_updateInfo_def updateInfo_def)
  show ?thesis
    using fileinfo.processDB_lk(2) [OF assms(1) d, of u] assms(2) by (simp add: file_processDB_def e split: option.split)
qed

lemma files_updated_witness:
  "lk (file_processDB [\<lparr>fw_uuid = ''u'', fw_name = ''new'', fw_path = ''/b'', fw_type = FILE_TYPE_REGULAR\<rparr>]
     [\<lparr>mi_uuid = ''u'', mi_name = ''old'', mi_inuse = True, fi_path = ''/a'', fi_folder = False, fi_file_uuid = []\<rparr>]) ''u'' =
   Some \<lparr>mi_uuid = ''u'', mi_name = ''new'', mi_inuse = True, fi_path = ''/b'', fi_folder = False, fi_file_uuid = []\<rparr>"
proof -
  let ?r = "\<lparr>fw_uuid = ''u'', fw_name = ''new'', fw_path = ''/b'', fw_type = FILE_TYPE_REGULAR\<rparr>"
  let ?c = "[\<lparr>mi_uuid = ''u'', mi_name = ''old'', mi_inuse = True, fi_path = ''/a'', fi_folder = False, fi_file_uuid = []\<rparr>]"
  have c: "info_ok ?c" by (simp add: info_ok_def)
  have d: "getInfoFromDB [?r] =
      Some [\<lparr>mi_uuid = ''u'', mi_name = ''new'', mi_inuse = False, fi_path = ''/b'', fi_folder = False, fi_file_uuid = []\<rparr>]"
    by (simp add: getInfoFromDB_def file_row_info_def FileInfo_def info_new_def)
  from files_updated [OF c d, of "''u''"] show ?thesis by simp
qed

section \<open>Sources of HTTP\<close>

record http_info = info +
  hi_addr :: string
  hi_login :: string
  hi_passwd :: string

definition http_updateInfo :: "http_info \<Rightarrow> http_info \<Rightarrow> http_info" where
  "http_updateInfo value i =
     (updateInfo value i)\<lparr>hi_addr := hi_addr value, hi_login := hi_login value, hi_passwd := hi_passwd value\<rparr>"

interpretation httpinfo: updatable http_updateInfo
  by unfold_locales (simp_all add: http_updateInfo_def updateInfo_def)

definition HTTPSRC_ADDR :: string where "HTTPSRC_ADDR = ''httpsrc_addr''"
definition HTTPSRC_LOGIN :: string where "HTTPSRC_LOGIN = ''httpsrc_login''"
definition HTTPSRC_PWD :: string where "HTTPSRC_PWD = ''httpsrc_pwd''"

definition http_fillOutMessage :: "http_info \<Rightarrow> message \<Rightarrow> message" where
  "http_fillOutMessage i out =
     setValue HTTPSRC_PWD (hi_passwd i) (setValue HTTPSRC_LOGIN (hi_login i) (setValue HTTPSRC_ADDR (hi_addr i) out))"

text \<open>A source can have many clients: nothing is marked.\<close>

definition http_doStart :: "message \<Rightarrow> message \<Rightarrow> http_info list \<Rightarrow> message option" where
  "http_doStart m out c = map_option (\<lambda>i. http_fillOutMessage i out) (getModuleInfo m c)"

lemma http_doStart_updated:
  assumes "info_ok c" "info_ok db_set" "lk db_set u = Some e" "getValue MODINFOUUID m = Some u" "u \<noteq> []"
  shows "\<exists>r. http_doStart m out (processDB http_updateInfo db_set c) = Some r \<and>
     getValue HTTPSRC_ADDR r = Some (hi_addr e) \<and> getValue HTTPSRC_LOGIN r = Some (hi_login e) \<and> getValue HTTPSRC_PWD r = Some (hi_passwd e)"
proof -
  have "HTTPSRC_ADDR \<noteq> HTTPSRC_LOGIN" "HTTPSRC_ADDR \<noteq> HTTPSRC_PWD" "HTTPSRC_LOGIN \<noteq> HTTPSRC_PWD"
    by (simp_all add: HTTPSRC_ADDR_def HTTPSRC_LOGIN_def HTTPSRC_PWD_def)
  then show ?thesis
    using httpinfo.processDB_lk(2) [OF assms(1,2), of u] assms(3-5)
    by (cases "lk c u") (simp_all add: http_doStart_def getModuleInfo_def getInfoByUUID_def lk_def [symmetric]
        http_fillOutMessage_def setValue_def getValue_def http_updateInfo_def updateInfo_def)
qed

end
