(* ===== verification/Trans.thy ===== *)
theory Trans
  imports Infoset Schedule
begin

text \<open>
  The transcode application, \<^verbatim>\<open>src/app/transcode/\<close>: tasks from the database, their runs in pipelines, one for a
  source, and the scheduled playback that starts and stops them.  What GStreamer answers and the clock are given
  with each step.  An exception inside of a step is caught where the code catches it.
\<close>

section \<open>State\<close>

text \<open>
  The changing part of a \<^verbatim>\<open>TaskInfo\<close> is an object of its own: a run keeps a pointer to it.  The callback for the
  duration is a raw pointer to the run, \<^verbatim>\<open>None\<close> for the default.
\<close>

record tinfo_obj =
  to_time :: nat
  to_count :: nat
  to_callback :: "nat option"

definition tinfo_new :: tinfo_obj where
  "tinfo_new = \<lparr>to_time = 0, to_count = 0, to_callback = None\<rparr>"

record task_info = info +
  ti_obj :: nat
  ti_source :: string
  ti_schedule :: schedule

record task =
  tk_id :: nat
  tk_uuid :: string
  tk_source :: string
  tk_obj :: nat
  tk_branch :: bool
  tk_time :: nat

text \<open>\<open>pl_started\<close>: the scheduler has a thread for the pipeline; \<open>pl_live\<close>: its loop runs.\<close>

record pipeline =
  pl_tasks :: "task list"
  pl_started :: bool
  pl_live :: bool

record trans =
  tr_info :: "task_info list"
  tr_objs :: "nat \<Rightarrow> tinfo_obj"
  tr_pipes :: "string \<Rightarrow> pipeline option"
  tr_fresh :: nat
  tr_traps :: "string list"

definition trans_new :: trans where
  "trans_new = \<lparr>tr_info = [], tr_objs = (\<lambda>_. tinfo_new), tr_pipes = (\<lambda>_. None), tr_fresh = 0, tr_traps = []\<rparr>"

text \<open>
  The environment of a step: the local time, the time a run has been playing, whether the source and destination of
  a task can be made, whether its branch can be made and linked, whether a pipeline can be set up, and whether the
  state of a branch can be changed.
\<close>

record tenv =
  te_now :: tm
  te_clock :: "nat \<Rightarrow> nat"
  te_init :: "string \<Rightarrow> bool"
  te_branch :: "string \<Rightarrow> bool"
  te_pipe :: "string \<Rightarrow> bool"
  te_state :: "string \<Rightarrow> bool"

section \<open>Runs of tasks\<close>

definition setDurationCallBack :: "nat option \<Rightarrow> nat \<Rightarrow> trans \<Rightarrow> trans" where
  "setDurationCallBack cb ob s = s\<lparr>tr_objs := (tr_objs s)(ob := (tr_objs s ob)\<lparr>to_callback := cb\<rparr>)\<rparr>"

definition addRunningTime :: "nat \<Rightarrow> nat \<Rightarrow> trans \<Rightarrow> trans" where
  "addRunningTime duration ob s =
     (if duration \<noteq> 0
      then s\<lparr>tr_objs := (tr_objs s)(ob := (tr_objs s ob)\<lparr>to_time := to_time (tr_objs s ob) + duration, to_count := to_count (tr_objs s ob) + 1\<rparr>)\<rparr>
      else s)"

definition task_getRunningTime :: "tenv \<Rightarrow> task \<Rightarrow> nat" where
  "task_getRunningTime env t = (if tk_branch t then te_clock env (tk_id t) else 0)"

definition updateRunningTime :: "tenv \<Rightarrow> task \<Rightarrow> task" where
  "updateRunningTime env t = t\<lparr>tk_time := tk_time t + task_getRunningTime env t\<rparr>"

definition task_getActualDuration :: "tenv \<Rightarrow> task \<Rightarrow> nat" where
  "task_getActualDuration env t = tk_time t + task_getRunningTime env t"

text \<open>The constructor; a failure clears the callback that was there.\<close>

definition task_new :: "tenv \<Rightarrow> task_info \<Rightarrow> trans \<Rightarrow> task option \<times> trans" where
  "task_new env i s =
     (let t = \<lparr>tk_id = tr_fresh s, tk_uuid = mi_uuid i, tk_source = ti_source i, tk_obj = ti_obj i, tk_branch = False, tk_time = 0\<rparr>
      in if te_init env (mi_uuid i)
         then (Some t, setDurationCallBack (Some (tk_id t)) (ti_obj i) (s\<lparr>tr_fresh := tr_fresh s + 1\<rparr>))
         else (None, setDurationCallBack None (ti_obj i) s))"

definition task_destroy :: "task \<Rightarrow> trans \<Rightarrow> trans" where
  "task_destroy t s =
     (let s = addRunningTime (tk_time t) (tk_obj t) (setDurationCallBack None (tk_obj t) s)
      in if tk_time t = 0 then s\<lparr>tr_traps := tr_traps s @ [tk_uuid t]\<rparr> else s)"

text \<open>What the callback of a task answers; \<open>None\<close> is the use of a run that is no more.\<close>

definition task_at :: "trans \<Rightarrow> string \<Rightarrow> nat \<Rightarrow> task option" where
  "task_at s src k = (case tr_pipes s src of None \<Rightarrow> None | Some p \<Rightarrow> find (\<lambda>t. tk_id t = k) (pl_tasks p))"

definition getActualDuration :: "tenv \<Rightarrow> trans \<Rightarrow> task_info \<Rightarrow> nat option" where
  "getActualDuration env s i =
     (case to_callback (tr_objs s (ti_obj i)) of
        None \<Rightarrow> Some 0
      | Some k \<Rightarrow> map_option (task_getActualDuration env) (task_at s (ti_source i) k))"

section \<open>Pipelines\<close>

definition pipeline_new :: pipeline where
  "pipeline_new = \<lparr>pl_tasks = [], pl_started = False, pl_live = False\<rparr>"

definition set_pipe :: "string \<Rightarrow> pipeline option \<Rightarrow> trans \<Rightarrow> trans" where
  "set_pipe src p s = s\<lparr>tr_pipes := (tr_pipes s)(src := p)\<rparr>"

definition findTask :: "string \<Rightarrow> pipeline \<Rightarrow> task option" where
  "findTask uuid p = find (\<lambda>t. tk_uuid t = uuid) (pl_tasks p)"

definition pipeline_addTask :: "task \<Rightarrow> pipeline \<Rightarrow> pipeline option" where
  "pipeline_addTask t p = (if findTask (tk_uuid t) p \<noteq> None then None else Some (p\<lparr>pl_tasks := pl_tasks p @ [t]\<rparr>))"

text \<open>The destruction of the runs a pipeline has.\<close>

definition pipeline_clean :: "string \<Rightarrow> pipeline \<Rightarrow> trans \<Rightarrow> trans" where
  "pipeline_clean src p s = fold task_destroy (pl_tasks p) (set_pipe src (Some (p\<lparr>pl_tasks := [], pl_live := False\<rparr>)) s)"

text \<open>Only the start of the thread makes branches, for the tasks that are there.\<close>

definition pipeline_init :: "tenv \<Rightarrow> string \<Rightarrow> pipeline \<Rightarrow> trans \<Rightarrow> trans" where
  "pipeline_init env src p s =
     (if te_pipe env src \<and> pl_tasks p \<noteq> [] \<and> list_all (\<lambda>t. te_branch env (tk_uuid t)) (pl_tasks p)
      then set_pipe src (Some (p\<lparr>pl_tasks := map (\<lambda>t. t\<lparr>tk_branch := True\<rparr>) (pl_tasks p), pl_started := True, pl_live := True\<rparr>)) s
      else pipeline_clean src p s)"

text \<open>A run without a branch cannot be deleted; \<open>None\<close> is an exception.\<close>

fun erase_task :: "string \<Rightarrow> task list \<Rightarrow> task list" where
  "erase_task uuid [] = []"
| "erase_task uuid (t # ts) = (if tk_uuid t = uuid then ts else t # erase_task uuid ts)"

fun update_task :: "string \<Rightarrow> (task \<Rightarrow> task) \<Rightarrow> task list \<Rightarrow> task list" where
  "update_task uuid f [] = []"
| "update_task uuid f (t # ts) = (if tk_uuid t = uuid then f t # ts else t # update_task uuid f ts)"

definition pipeline_delTask :: "tenv \<Rightarrow> string \<Rightarrow> string \<Rightarrow> pipeline \<Rightarrow> trans \<Rightarrow> bool \<times> trans" where
  "pipeline_delTask env uuid src p s =
     (case findTask uuid p of
        None \<Rightarrow> (True, s)
      | Some t \<Rightarrow>
          (let t' = updateRunningTime env t
           in if \<not> tk_branch t then (False, s)
              else if \<not> te_state env uuid then (False, set_pipe src (Some (p\<lparr>pl_tasks := update_task uuid (updateRunningTime env) (pl_tasks p)\<rparr>)) s)
              else (True, task_destroy t' (set_pipe src (Some (p\<lparr>pl_tasks := erase_task uuid (pl_tasks p)\<rparr>)) s))))"

section \<open>The scheduler\<close>

definition sched_addTask :: "task \<Rightarrow> trans \<Rightarrow> trans" where
  "sched_addTask t s =
     (let p = (case tr_pipes s (tk_source t) of None \<Rightarrow> pipeline_new | Some p \<Rightarrow> p)
      in case pipeline_addTask t p of
           Some p \<Rightarrow> set_pipe (tk_source t) (Some p) s
         | None \<Rightarrow> task_destroy t (set_pipe (tk_source t) (Some p) s))"

text \<open>The thread of a pipeline that is not started cannot be stopped.  The pipeline goes with its runs.\<close>

definition stopPipeline :: "tenv \<Rightarrow> string \<Rightarrow> trans \<Rightarrow> trans" where
  "stopPipeline env src s =
     (case tr_pipes s src of
        None \<Rightarrow> s
      | Some p \<Rightarrow>
          if \<not> pl_started p then s
          else (let ts = (if pl_live p then map (updateRunningTime env) (pl_tasks p) else pl_tasks p)
                in fold task_destroy ts (set_pipe src None s)))"

definition sched_delTask :: "tenv \<Rightarrow> task_info \<Rightarrow> trans \<Rightarrow> trans" where
  "sched_delTask env i s =
     (case tr_pipes s (ti_source i) of
        None \<Rightarrow> s
      | Some p \<Rightarrow>
          (case pipeline_delTask env (mi_uuid i) (ti_source i) p s of
             (False, s) \<Rightarrow> s
           | (True, s) \<Rightarrow>
               (case tr_pipes s (ti_source i) of
                  None \<Rightarrow> s
                | Some p \<Rightarrow> if pl_tasks p = [] then stopPipeline env (ti_source i) s else s)))"

definition playPipeline :: "tenv \<Rightarrow> string \<Rightarrow> trans \<Rightarrow> trans" where
  "playPipeline env src s =
     (case tr_pipes s src of None \<Rightarrow> s | Some p \<Rightarrow> if pl_started p then s else pipeline_init env src p s)"

definition getPipelines :: "trans \<Rightarrow> task_info list \<Rightarrow> string list" where
  "getPipelines s tasks =
     foldl (\<lambda>acc i. if tr_pipes s (ti_source i) \<noteq> None \<and> ti_source i \<notin> set acc then acc @ [ti_source i] else acc) [] tasks"

definition playPipelines :: "tenv \<Rightarrow> task_info list \<Rightarrow> trans \<Rightarrow> trans" where
  "playPipelines env tasks s = fold (playPipeline env) (getPipelines s tasks) s"

section \<open>The application\<close>

definition trans_initTask :: "tenv \<Rightarrow> task_info \<Rightarrow> trans \<Rightarrow> trans" where
  "trans_initTask env i s = (case task_new env i s of (None, s) \<Rightarrow> s | (Some t, s) \<Rightarrow> sched_addTask t s)"

definition deinitInfo :: "tenv \<Rightarrow> task_info \<Rightarrow> trans \<Rightarrow> trans" where
  "deinitInfo env i s = sched_delTask env i s"

definition durations_ok :: "tenv \<Rightarrow> trans \<Rightarrow> bool" where
  "durations_ok env s \<longleftrightarrow> list_all (\<lambda>i. getActualDuration env s i \<noteq> None) (tr_info s)"

definition getStopList :: "tenv \<Rightarrow> trans \<Rightarrow> task_info list option" where
  "getStopList env s =
     (if durations_ok env s
      then Some (filter (\<lambda>i. isExperied (ti_schedule i) (the (getActualDuration env s i))) (tr_info s)) else None)"

definition getStartList :: "tenv \<Rightarrow> trans \<Rightarrow> task_info list option" where
  "getStartList env s =
     (if durations_ok env s
      then Some (filter (\<lambda>i. needStart (ti_schedule i) (te_now env) (to_count (tr_objs s (ti_obj i))) (the (getActualDuration env s i))) (tr_info s))
      else None)"

definition doSchedulePlayback :: "tenv \<Rightarrow> tenv \<Rightarrow> trans \<Rightarrow> trans option" where
  "doSchedulePlayback env1 env2 s = do {
     stop_list \<leftarrow> getStopList env1 s;
     let s = playPipelines env1 stop_list (fold (deinitInfo env1) stop_list s);
     start_list \<leftarrow> getStartList env2 s;
     Some (playPipelines env2 start_list (fold (trans_initTask env2) start_list s))
   }"

text \<open>A row of the database: the task, its source, the start and the duration.  A bad row is an exception.\<close>

record task_row =
  tw_uuid :: string
  tw_name :: string
  tw_source :: string
  tw_start :: string
  tw_duration :: int

definition TaskInfo :: "nat \<Rightarrow> task_row \<Rightarrow> task_info option" where
  "TaskInfo ob r = (case (info_new (tw_uuid r) (tw_name r), ScheduleInfo (tw_start r) (tw_duration r)) of
     (Some i, Some sc) \<Rightarrow> Some \<lparr>mi_uuid = mi_uuid i, mi_name = mi_name i, mi_inuse = mi_inuse i, ti_obj = ob, ti_source = tw_source r, ti_schedule = sc\<rparr>
   | _ \<Rightarrow> None)"

text \<open>The objects are new ones.\<close>

fun getTaskInfoFromDB :: "nat \<Rightarrow> task_row list \<Rightarrow> task_info list \<Rightarrow> task_info list option" where
  "getTaskInfoFromDB n [] s = Some s"
| "getTaskInfoFromDB n (r # rs) s = (case TaskInfo n r of None \<Rightarrow> None | Some i \<Rightarrow> getTaskInfoFromDB (n + 1) rs (set_insert i s))"

definition trans_processDB :: "tenv \<Rightarrow> task_row list \<Rightarrow> trans \<Rightarrow> trans" where
  "trans_processDB env rows s =
     (case getTaskInfoFromDB (tr_fresh s) rows [] of
        None \<Rightarrow> s
      | Some db \<Rightarrow>
          (let c = tr_info s;
               s = fold (deinitInfo env) (getDel db c) (s\<lparr>tr_fresh := tr_fresh s + length rows\<rparr>)
           in s\<lparr>tr_info := info_add updateInfo True db (info_del True (getDel db c) c)\<rparr>))"

text \<open>
  What happens to the application: a tick of the timer, a change of the database, the end of a stream, which waits
  for the thread of events, that thread stopping a pipeline, and a thread whose pipeline does not play.
\<close>

datatype tstep = Tick tenv tenv | Database tenv "task_row list" | Eos tenv string | StopEvent tenv string | PlayFails string

definition processStageChange :: "tenv \<Rightarrow> string \<Rightarrow> trans \<Rightarrow> trans" where
  "processStageChange env src s =
     (case tr_pipes s src of
        None \<Rightarrow> s
      | Some p \<Rightarrow> if pl_live p then set_pipe src (Some (p\<lparr>pl_tasks := map (updateRunningTime env) (pl_tasks p)\<rparr>)) s else s)"

definition play_fails :: "string \<Rightarrow> trans \<Rightarrow> trans" where
  "play_fails src s =
     (case tr_pipes s src of None \<Rightarrow> s | Some p \<Rightarrow> if pl_live p then pipeline_clean src p s else s)"

fun trans_step :: "tstep \<Rightarrow> trans \<Rightarrow> trans option" where
  "trans_step (Tick env1 env2) s = doSchedulePlayback env1 env2 s"
| "trans_step (Database env rows) s = Some (trans_processDB env rows s)"
| "trans_step (Eos env src) s = Some (processStageChange env src s)"
| "trans_step (StopEvent env src) s = Some (stopPipeline env src s)"
| "trans_step (PlayFails src) s = Some (play_fails src s)"

fun trans_run :: "tstep list \<Rightarrow> trans \<Rightarrow> trans option" where
  "trans_run [] s = Some s"
| "trans_run (x # xs) s = Option.bind (trans_step x s) (trans_run xs)"

section \<open>No callback outlives its run\<close>

text \<open>The runs of a pipeline, and the callback of an object.\<close>

definition runs :: "trans \<Rightarrow> string \<Rightarrow> (nat \<times> nat) set" where
  "runs s src = (case tr_pipes s src of None \<Rightarrow> {} | Some p \<Rightarrow> (\<lambda>t. (tk_id t, tk_obj t)) ` set (pl_tasks p))"

definition callback :: "trans \<Rightarrow> nat \<Rightarrow> nat option" where
  "callback s ob = to_callback (tr_objs s ob)"

definition once :: "trans \<Rightarrow> bool" where
  "once s \<longleftrightarrow> (\<forall>src p. tr_pipes s src = Some p \<longrightarrow> distinct (map tk_uuid (pl_tasks p)))"

definition trans_ok :: "trans \<Rightarrow> bool" where
  "trans_ok s \<longleftrightarrow> info_ok (tr_info s) \<and> inj_on ti_obj (set (tr_info s)) \<and> (\<forall>i \<in> set (tr_info s). ti_obj i < tr_fresh s) \<and>
     (\<forall>ob \<ge> tr_fresh s. callback s ob = None) \<and>
     (\<forall>i \<in> set (tr_info s). \<forall>k. callback s (ti_obj i) = Some k \<longrightarrow> (k, ti_obj i) \<in> runs s (ti_source i)) \<and> once s"

text \<open>A step that starts nothing: callbacks are kept or cleared, and every run that goes has its callback cleared.\<close>

definition winds_down :: "trans \<Rightarrow> trans \<Rightarrow> bool" where
  "winds_down s s' \<longleftrightarrow> tr_info s' = tr_info s \<and> tr_fresh s \<le> tr_fresh s' \<and>
     (\<forall>ob. callback s' ob = callback s ob \<or> callback s' ob = None) \<and>
     (\<forall>src k ob. (k, ob) \<in> runs s src \<longrightarrow> (k, ob) \<in> runs s' src \<or> callback s' ob = None) \<and> (once s \<longrightarrow> once s')"

lemma winds_down_refl [simp]: "winds_down s s"
  by (simp add: winds_down_def)

lemma winds_down_trans: "winds_down s t \<Longrightarrow> winds_down t u \<Longrightarrow> winds_down s u"
  unfolding winds_down_def by (metis order_trans)

lemma winds_down_ok: "trans_ok s \<Longrightarrow> winds_down s s' \<Longrightarrow> trans_ok s' \<and> tr_info s' = tr_info s"
  unfolding trans_ok_def winds_down_def by (metis (no_types, lifting) le_trans option.distinct(1) order_less_le_trans)

lemma winds_down_fold: "(\<And>x s. winds_down s (f x s)) \<Longrightarrow> winds_down s (fold f xs s)"
  by (induction xs arbitrary: s) (auto intro: winds_down_trans)

lemma task_destroy_simps [simp]:
  "tr_info (task_destroy t s) = tr_info s" "tr_fresh (task_destroy t s) = tr_fresh s" "tr_pipes (task_destroy t s) = tr_pipes s"
  "callback (task_destroy t s) ob = (if ob = tk_obj t then None else callback s ob)"
  by (simp_all add: task_destroy_def addRunningTime_def setDurationCallBack_def callback_def Let_def)

lemma task_destroys [simp]:
  "tr_info (fold task_destroy ts s) = tr_info s" "tr_fresh (fold task_destroy ts s) = tr_fresh s"
  "tr_pipes (fold task_destroy ts s) = tr_pipes s"
  "callback (fold task_destroy ts s) ob = (if ob \<in> tk_obj ` set ts then None else callback s ob)"
  by (induction ts arbitrary: s) auto

lemma callback_fresh [simp]: "callback (s\<lparr>tr_fresh := n\<rparr>) ob = callback s ob"
  by (simp add: callback_def)

lemma set_pipe_simps [simp]:
  "tr_info (set_pipe src p s) = tr_info s" "tr_fresh (set_pipe src p s) = tr_fresh s" "callback (set_pipe src p s) ob = callback s ob"
  "tr_pipes (set_pipe src p s) = (tr_pipes s)(src := p)"
  by (simp_all add: set_pipe_def callback_def)

lemma runs_pipes: "tr_pipes s' = (tr_pipes s)(src := p) \<Longrightarrow>
   runs s' v = (if v = src then (case p of None \<Rightarrow> {} | Some p \<Rightarrow> (\<lambda>t. (tk_id t, tk_obj t)) ` set (pl_tasks p)) else runs s v)"
  by (simp add: runs_def)

lemma updateRunningTime_simps [simp]:
  "tk_id (updateRunningTime env t) = tk_id t" "tk_obj (updateRunningTime env t) = tk_obj t"
  "tk_uuid (updateRunningTime env t) = tk_uuid t" "tk_branch (updateRunningTime env t) = tk_branch t"
  by (simp_all add: updateRunningTime_def)

text \<open>A pipeline that loses some runs, their callbacks cleared.\<close>

lemma winds_down_pipe:
  assumes "tr_pipes s src = Some p" "tr_pipes s' = (tr_pipes s)(src := q)" "tr_info s' = tr_info s" "tr_fresh s' = tr_fresh s"
    and "\<And>ob. callback s' ob = callback s ob \<or> callback s' ob = None"
    and "\<And>t. t \<in> set (pl_tasks p) \<Longrightarrow> (\<exists>q' t'. q = Some q' \<and> t' \<in> set (pl_tasks q') \<and> tk_id t' = tk_id t \<and> tk_obj t' = tk_obj t) \<or> callback s' (tk_obj t) = None"
    and "\<And>q'. q = Some q' \<Longrightarrow> distinct (map tk_uuid (pl_tasks p)) \<Longrightarrow> distinct (map tk_uuid (pl_tasks q'))"
  shows "winds_down s s'"
proof -
  have "(k, ob) \<in> runs s' v \<or> callback s' ob = None" if r: "(k, ob) \<in> runs s v" for v k ob
  proof (cases "v = src")
    case True
    then obtain t where t: "t \<in> set (pl_tasks p)" "k = tk_id t" "ob = tk_obj t" using r assms(1) by (auto simp: runs_def)
    show ?thesis
    proof (cases "callback s' (tk_obj t) = None")
      case False
      then obtain q' t' where q: "q = Some q'" "t' \<in> set (pl_tasks q')" "tk_id t' = tk_id t" "tk_obj t' = tk_obj t"
        using assms(6) [OF t(1)] by auto
      have "(tk_id t', tk_obj t') \<in> (\<lambda>t. (tk_id t, tk_obj t)) ` set (pl_tasks q')" using q(2) by (rule imageI)
      then show ?thesis using q t True by (simp add: runs_pipes [OF assms(2)])
    qed (simp add: t)
  next
    case False
    then show ?thesis using r by (simp add: runs_pipes [OF assms(2)])
  qed
  moreover have "once s \<Longrightarrow> once s'" using assms(1,2,7) by (auto simp: once_def)
  ultimately show ?thesis using assms(3-5) by (simp add: winds_down_def)
qed

lemma erase_task_set: "t \<in> set ts \<Longrightarrow> find (\<lambda>t. tk_uuid t = uuid) ts = Some u \<Longrightarrow> t \<in> set (erase_task uuid ts) \<or> t = u"
  by (induction ts) (auto split: if_splits)

lemma erase_task_uuids: "map tk_uuid (erase_task uuid ts) = remove1 uuid (map tk_uuid ts)"
  by (induction ts) auto

lemma update_task_kept:
  assumes "\<And>t. tk_id (f t) = tk_id t \<and> tk_obj (f t) = tk_obj t \<and> tk_uuid (f t) = tk_uuid t"
  shows "map tk_uuid (update_task uuid f ts) = map tk_uuid ts"
    "t \<in> set ts \<Longrightarrow> \<exists>t' \<in> set (update_task uuid f ts). tk_id t' = tk_id t \<and> tk_obj t' = tk_obj t"
  using assms by (induction ts) auto

lemma winds_down_clean: "tr_pipes s src = Some p \<Longrightarrow> winds_down s (pipeline_clean src p s)"
  by (rule winds_down_pipe) (auto simp: pipeline_clean_def)

lemma winds_down_init: "tr_pipes s src = Some p \<Longrightarrow> winds_down s (pipeline_init env src p s)"
  unfolding pipeline_init_def
  by (auto intro: winds_down_clean winds_down_pipe simp: comp_def image_image intro!: bexI)

lemma winds_down_delTask:
  assumes p: "tr_pipes s src = Some p" and d: "pipeline_delTask env uuid src p s = (b, s')"
  shows "winds_down s s'"
proof -
  let ?f = "updateRunningTime env"
  have f: "tk_id (?f t) = tk_id t \<and> tk_obj (?f t) = tk_obj t \<and> tk_uuid (?f t) = tk_uuid t" for t by simp
  consider "s' = s"
    | "s' = set_pipe src (Some (p\<lparr>pl_tasks := update_task uuid ?f (pl_tasks p)\<rparr>)) s"
    | t where "findTask uuid p = Some t" "s' = task_destroy (?f t) (set_pipe src (Some (p\<lparr>pl_tasks := erase_task uuid (pl_tasks p)\<rparr>)) s)"
    using d by (auto simp: pipeline_delTask_def Let_def split: option.splits if_splits)
  then show ?thesis
  proof cases
    case 2
    have u: "\<exists>t' \<in> set (update_task uuid ?f (pl_tasks p)). tk_id t' = tk_id t \<and> tk_obj t' = tk_obj t" if "t \<in> set (pl_tasks p)" for t
      using update_task_kept(2) [of ?f, OF f that] .
    have "map tk_uuid (update_task uuid ?f (pl_tasks p)) = map tk_uuid (pl_tasks p)"
      using update_task_kept(1) [of ?f, OF f] .
    then show ?thesis by (intro winds_down_pipe [OF p]) (auto simp: 2 dest!: u)
  next
    case 3
    have e: "t' \<in> set (erase_task uuid (pl_tasks p)) \<or> t' = t" if "t' \<in> set (pl_tasks p)" for t'
      using erase_task_set [OF that] 3(1) by (simp add: findTask_def)
    then show ?thesis
      by (intro winds_down_pipe [OF p]) (auto simp: 3(2) erase_task_uuids dest!: e)
  qed simp
qed

lemma winds_down_stop: "winds_down s (stopPipeline env src s)"
proof (cases "tr_pipes s src")
  case (Some p)
  then show ?thesis unfolding stopPipeline_def
    by (auto simp: Let_def image_image split: if_splits intro!: winds_down_pipe [OF Some])
qed (simp add: stopPipeline_def)

lemma winds_down_deinit: "winds_down s (deinitInfo env i s)"
proof (cases "tr_pipes s (ti_source i)")
  case (Some p)
  obtain b s' where d: "pipeline_delTask env (mi_uuid i) (ti_source i) p s = (b, s')" by force
  have w: "winds_down s s'" by (rule winds_down_delTask [OF Some d])
  show ?thesis using Some d w winds_down_trans [OF w winds_down_stop]
    by (cases b) (auto simp: deinitInfo_def sched_delTask_def split: option.split)
qed (simp add: deinitInfo_def sched_delTask_def)

lemma winds_down_play: "winds_down s (playPipeline env src s)"
  by (auto simp: playPipeline_def winds_down_init split: option.split)

lemma winds_down_plays: "winds_down s (playPipelines env is s)"
  unfolding playPipelines_def by (rule winds_down_fold) (rule winds_down_play)

lemma winds_down_stage: "winds_down s (processStageChange env src s)"
proof (cases "tr_pipes s src")
  case (Some p)
  then show ?thesis unfolding processStageChange_def
    by (auto simp: comp_def intro!: winds_down_pipe [OF Some])
qed (simp add: processStageChange_def)

lemma winds_down_fails: "winds_down s (play_fails src s)"
  by (auto simp: play_fails_def winds_down_clean split: option.split)

lemma winds_down_deinits: "winds_down s (fold (deinitInfo env) is s)"
  by (rule winds_down_fold) (rule winds_down_deinit)

text \<open>A task that is started has the callback, and its run is in the pipeline of its source.\<close>

lemma callback_set [simp]: "callback (setDurationCallBack cb ob s) v = (if v = ob then cb else callback s v)"
  by (simp add: callback_def setDurationCallBack_def)

lemma setDurationCallBack_simps [simp]:
  "tr_info (setDurationCallBack cb ob s) = tr_info s" "tr_fresh (setDurationCallBack cb ob s) = tr_fresh s"
  "tr_pipes (setDurationCallBack cb ob s) = tr_pipes s"
  by (simp_all add: setDurationCallBack_def)

lemma winds_down_callbacks:
  assumes "tr_pipes s' = tr_pipes s" "tr_info s' = tr_info s" "tr_fresh s \<le> tr_fresh s'"
    "\<And>ob. callback s' ob = callback s ob \<or> callback s' ob = None"
  shows "winds_down s s'"
proof -
  have "runs s' src = runs s src" for src by (simp add: runs_def assms(1))
  then show ?thesis using assms by (simp add: winds_down_def once_def)
qed

lemma trans_initTask_ok:
  assumes ok: "trans_ok s" and i: "i \<in> set (tr_info s)"
  shows "trans_ok (trans_initTask env i s) \<and> tr_info (trans_initTask env i s) = tr_info s"
proof -
  let ?p = "case tr_pipes s (ti_source i) of None \<Rightarrow> pipeline_new | Some p \<Rightarrow> p"
  let ?t = "\<lparr>tk_id = tr_fresh s, tk_uuid = mi_uuid i, tk_source = ti_source i, tk_obj = ti_obj i, tk_branch = False, tk_time = 0\<rparr>"
  let ?s = "trans_initTask env i s"
  let ?q = "?p\<lparr>pl_tasks := pl_tasks ?p @ [?t]\<rparr>"
  consider "\<not> te_init env (mi_uuid i)" | "te_init env (mi_uuid i)" "findTask (mi_uuid i) ?p \<noteq> None"
    | "te_init env (mi_uuid i)" "findTask (mi_uuid i) ?p = None" by blast
  then show ?thesis
  proof cases
    case 1
    then have "winds_down s ?s" by (intro winds_down_callbacks) (simp_all add: trans_initTask_def task_new_def Let_def)
    then show ?thesis by (rule winds_down_ok [OF ok])
  next
    case 2
    then obtain p where p: "tr_pipes s (ti_source i) = Some p"
      by (cases "tr_pipes s (ti_source i)") (simp_all add: findTask_def pipeline_new_def)
    have "winds_down s ?s" using 2 p
      by (intro winds_down_callbacks)
        (auto simp: trans_initTask_def task_new_def sched_addTask_def pipeline_addTask_def Let_def fun_upd_idem)
    then show ?thesis by (rule winds_down_ok [OF ok])
  next
    case 3
    then have e: "?s = set_pipe (ti_source i) (Some ?q) (setDurationCallBack (Some (tr_fresh s)) (ti_obj i) (s\<lparr>tr_fresh := tr_fresh s + 1\<rparr>))"
      by (simp add: trans_initTask_def task_new_def sched_addTask_def pipeline_addTask_def Let_def)
    have pipes: "tr_pipes ?s = (tr_pipes s)(ti_source i := Some ?q)" by (simp add: e)
    have cb: "callback ?s ob = (if ob = ti_obj i then Some (tr_fresh s) else callback s ob)" for ob
      by (simp add: e)
    have info: "tr_info ?s = tr_info s" and fr: "tr_fresh ?s = tr_fresh s + 1" by (simp_all add: e)
    have r: "runs s src \<subseteq> runs ?s src" for src
      by (cases "tr_pipes s src") (auto simp: runs_def pipes)
    have new: "(tr_fresh s, ti_obj i) \<in> runs ?s (ti_source i)" by (simp add: runs_def pipes)
    have once: "once ?s" using ok 3(2)
      by (auto simp: once_def trans_ok_def pipes findTask_def find_None_iff pipeline_new_def split: option.splits if_splits)
    have cbs: "(k, ti_obj j) \<in> runs ?s (ti_source j)" if j: "j \<in> set (tr_info s)" "callback ?s (ti_obj j) = Some k" for j k
    proof (cases "ti_obj j = ti_obj i")
      case True
      then have "j = i" using ok i j(1) by (auto simp: trans_ok_def inj_on_def)
      then show ?thesis using j(2) new by (simp add: cb)
    next
      case False
      then have "(k, ti_obj j) \<in> runs s (ti_source j)" using j ok by (auto simp: cb trans_ok_def)
      then show ?thesis using r by blast
    qed
    have lt: "ti_obj i < tr_fresh s" using ok i by (simp add: trans_ok_def)
    have "trans_ok ?s" using ok once cbs lt unfolding trans_ok_def info fr cb
      by (auto intro: less_SucI)
    then show ?thesis using info by simp
  qed
qed

lemma trans_initTasks_ok:
  "trans_ok s \<Longrightarrow> set is \<subseteq> set (tr_info s) \<Longrightarrow> trans_ok (fold (trans_initTask env) is s) \<and> tr_info (fold (trans_initTask env) is s) = tr_info s"
  by (induction "is" arbitrary: s) (auto simp: trans_initTask_ok)

lemma find_hit: "t \<in> set ts \<Longrightarrow> \<exists>y. find (\<lambda>u. tk_id u = tk_id t) ts = Some y"
  by (induction ts) auto

text \<open>Every duration can be read, so the lists are made.\<close>

lemma durations_ok: "trans_ok s \<Longrightarrow> durations_ok env s"
proof -
  assume ok: "trans_ok s"
  have "getActualDuration env s i \<noteq> None" if i: "i \<in> set (tr_info s)" for i
  proof (cases "callback s (ti_obj i)")
    case (Some k)
    then have "(k, ti_obj i) \<in> runs s (ti_source i)" using ok i by (auto simp: trans_ok_def)
    then have "task_at s (ti_source i) k \<noteq> None"
      by (auto simp: runs_def task_at_def dest: find_hit split: option.splits)
    then show ?thesis using Some by (auto simp: getActualDuration_def callback_def)
  qed (simp add: getActualDuration_def callback_def)
  then show ?thesis by (auto simp: durations_ok_def list_all_iff)
qed

lemma playback_ok:
  assumes "trans_ok s"
  shows "\<exists>s'. doSchedulePlayback env1 env2 s = Some s' \<and> trans_ok s'"
proof -
  obtain stops where stops: "getStopList env1 s = Some stops"
    using durations_ok [OF assms] by (simp add: getStopList_def)
  let ?s1 = "playPipelines env1 stops (fold (deinitInfo env1) stops s)"
  have "winds_down s ?s1" by (rule winds_down_trans [OF winds_down_deinits winds_down_plays])
  from winds_down_ok [OF assms this] have ok1: "trans_ok ?s1" by simp
  obtain starts where starts: "getStartList env2 ?s1 = Some starts" "set starts \<subseteq> set (tr_info ?s1)"
    using durations_ok [OF ok1] by (auto simp: getStartList_def)
  from trans_initTasks_ok [OF ok1 starts(2)] have ok2: "trans_ok (fold (trans_initTask env2) starts ?s1)" by simp
  show ?thesis using stops starts(1) winds_down_ok [OF ok2 winds_down_plays]
    by (simp add: doSchedulePlayback_def Let_def)
qed

text \<open>The rows of the database make new objects.\<close>

lemma TaskInfo_new: "TaskInfo n r = Some i \<Longrightarrow> ti_obj i = n \<and> \<not> mi_inuse i \<and> mi_uuid i \<noteq> []"
  by (auto simp: TaskInfo_def info_new_def split: option.splits if_splits)

lemma getTaskInfoFromDB_new:
  assumes "getTaskInfoFromDB n rows c = Some db" "info_ok c" "inj_on ti_obj (set c)" "\<forall>i \<in> set c. m \<le> ti_obj i \<and> ti_obj i < n" "m \<le> n"
  shows "info_ok db \<and> inj_on ti_obj (set db) \<and> (\<forall>i \<in> set db. m \<le> ti_obj i \<and> ti_obj i < n + length rows)"
  using assms
proof (induction n rows c rule: getTaskInfoFromDB.induct)
  case (2 n r rs c)
  from "2.prems"(1) obtain i where i: "TaskInfo n r = Some i" "getTaskInfoFromDB (n + 1) rs (set_insert i c) = Some db"
    by (cases "TaskInfo n r") simp_all
  have o: "ti_obj i = n" using TaskInfo_new [OF i(1)] by simp
  have "inj_on ti_obj (insert i (set c))" using "2.prems"(3,4) o by auto
  then have "inj_on ti_obj (set (set_insert i c))" by (rule inj_on_subset [OF _ set_insert_ok(2) [OF "2.prems"(2)]])
  moreover have "\<forall>j \<in> set (set_insert i c). m \<le> ti_obj j \<and> ti_obj j < n + 1"
    using "2.prems"(4,5) o set_insert_ok(2) [OF "2.prems"(2), of i] by fastforce
  moreover have "m \<le> n + 1" using "2.prems"(5) by simp
  ultimately show ?case using "2.IH" [OF i set_insert_ok(1) [OF "2.prems"(2)]] by simp
qed simp

lemma updated_from:
  assumes "info_ok c" "info_ok db" "i \<in> set (processDB updateInfo db c)"
  shows "\<exists>j. (j \<in> set c \<or> j \<in> set db) \<and> ti_obj j = ti_obj i \<and> ti_source j = ti_source i \<and> mi_uuid j = mi_uuid i"
proof -
  have l: "lk (processDB updateInfo db c) (mi_uuid i) = Some i"
    using assms base.processDB_lk(1) [OF assms(1,2)] by (simp add: lk_Some)
  show ?thesis
  proof (cases "lk db (mi_uuid i)")
    case None
    then have "lk c (mi_uuid i) = Some i"
      using l by (simp add: base.processDB_lk(2) [OF assms(1,2)] split: option.splits if_splits)
    then show ?thesis using lk_Some [OF assms(1)] by blast
  next
    case (Some e)
    then have e: "e \<in> set db" "mi_uuid e = mi_uuid i" using lk_Some [OF assms(2)] by blast+
    have u: "i = (case lk c (mi_uuid i) of None \<Rightarrow> e | Some j \<Rightarrow> updateInfo e j)"
      using l Some by (simp add: base.processDB_lk(2) [OF assms(1,2)])
    show ?thesis
    proof (cases "lk c (mi_uuid i)")
      case None
      then show ?thesis using u e by auto
    next
      case (Some j)
      then have "j \<in> set c" "mi_uuid j = mi_uuid i" using lk_Some [OF assms(1)] by blast+
      moreover have "ti_obj i = ti_obj j \<and> ti_source i = ti_source j" using u Some by (simp add: updateInfo_def)
      ultimately show ?thesis by auto
    qed
  qed
qed

lemma database_ok:
  assumes ok: "trans_ok s"
  shows "trans_ok (trans_processDB env rows s)"
proof (cases "getTaskInfoFromDB (tr_fresh s) rows []")
  case (Some db)
  let ?c = "tr_info s" and ?s1 = "s\<lparr>tr_fresh := tr_fresh s + length rows\<rparr>"
  let ?s2 = "fold (deinitInfo env) (getDel db ?c) ?s1" and ?d = "processDB updateInfo db ?c"
  have c: "info_ok ?c" using ok by (simp add: trans_ok_def)
  have db: "info_ok db" "inj_on ti_obj (set db)" "\<And>i. i \<in> set db \<Longrightarrow> tr_fresh s \<le> ti_obj i \<and> ti_obj i < tr_fresh s + length rows"
    using getTaskInfoFromDB_new [OF Some, of "tr_fresh s"] by (simp_all add: info_ok_def)
  have w1: "winds_down s ?s1" by (rule winds_down_callbacks) simp_all
  have w2: "winds_down ?s1 ?s2" by (rule winds_down_deinits)
  have w: "winds_down s ?s2" by (rule winds_down_trans [OF w1 w2])
  from winds_down_ok [OF ok w] have ok2: "trans_ok ?s2" and i2: "tr_info ?s2 = ?c" by simp_all
  have fr: "tr_fresh s + length rows \<le> tr_fresh ?s2" using w2 by (simp add: winds_down_def)
  have e: "trans_processDB env rows s = ?s2\<lparr>tr_info := ?d\<rparr>" by (simp add: trans_processDB_def Some processDB_def Let_def)
  have cb: "callback (?s2\<lparr>tr_info := ?d\<rparr>) ob = callback ?s2 ob" "runs (?s2\<lparr>tr_info := ?d\<rparr>) src = runs ?s2 src"
    "once (?s2\<lparr>tr_info := ?d\<rparr>) = once ?s2" for ob src
    by (simp_all add: callback_def runs_def once_def)
  have old: "ti_obj j < tr_fresh s" if "j \<in> set ?c" for j using ok that by (auto simp: trans_ok_def)
  have inj: "inj_on ti_obj (set ?d)"
  proof (rule inj_onI)
    fix i j assume i: "i \<in> set ?d" and j: "j \<in> set ?d" and ij: "ti_obj i = ti_obj j"
    obtain i' where i': "i' \<in> set ?c \<or> i' \<in> set db" "ti_obj i' = ti_obj i" "mi_uuid i' = mi_uuid i"
      using updated_from [OF c db(1) i] by blast
    obtain j' where j': "j' \<in> set ?c \<or> j' \<in> set db" "ti_obj j' = ti_obj j" "mi_uuid j' = mi_uuid j"
      using updated_from [OF c db(1) j] by blast
    have o: "ti_obj i' = ti_obj j'" using i'(2) j'(2) ij by simp
    have injc: "inj_on ti_obj (set ?c)" using ok by (simp add: trans_ok_def)
    have "i' = j'"
    proof (cases "ti_obj i' < tr_fresh s")
      case True
      then have "i' \<in> set ?c" "j' \<in> set ?c" using i'(1) j'(1) db(3) o by fastforce+
      then show ?thesis using injc o by (simp add: inj_on_eq_iff)
    next
      case False
      then have "i' \<in> set db" "j' \<in> set db" using i'(1) j'(1) old o by fastforce+
      then show ?thesis using db(2) o by (simp add: inj_on_eq_iff)
    qed
    then have "mi_uuid i = mi_uuid j" using i'(3) j'(3) by simp
    then show "i = j" by (rule info_ok_unique [OF base.processDB_lk(1) [OF c db(1)] i j])
  qed
  have new: "callback ?s2 (ti_obj j) = None" if j: "j \<in> set db" for j
  proof -
    have "callback s (ti_obj j) = None" using ok db(3) [OF j] by (simp add: trans_ok_def)
    moreover have "callback ?s2 (ti_obj j) = callback s (ti_obj j) \<or> callback ?s2 (ti_obj j) = None"
      using w by (simp only: winds_down_def)
    ultimately show ?thesis by auto
  qed
  have run: "(k, ti_obj i) \<in> runs ?s2 (ti_source i)" if i: "i \<in> set ?d" and k: "callback ?s2 (ti_obj i) = Some k" for i k
  proof -
    obtain j where j: "j \<in> set ?c \<or> j \<in> set db" "ti_obj j = ti_obj i" "ti_source j = ti_source i"
      using updated_from [OF c db(1) i] by blast
    have "j \<in> set ?c" using j new k by fastforce
    moreover have "\<forall>i \<in> set ?c. \<forall>k. callback ?s2 (ti_obj i) = Some k \<longrightarrow> (k, ti_obj i) \<in> runs ?s2 (ti_source i)"
      using ok2 unfolding trans_ok_def i2 by simp
    ultimately have "callback ?s2 (ti_obj j) = Some k \<longrightarrow> (k, ti_obj j) \<in> runs ?s2 (ti_source j)" by blast
    then show ?thesis using j(2,3) k by simp
  qed
  have lt: "ti_obj i < tr_fresh ?s2" if i: "i \<in> set ?d" for i
    using updated_from [OF c db(1) i] old db(3) fr by fastforce
  show ?thesis unfolding e trans_ok_def cb
    using ok2 base.processDB_lk(1) [OF c db(1)] inj run lt by (simp add: trans_ok_def)
qed (simp add: trans_processDB_def ok)

lemma trans_new_ok: "trans_ok trans_new"
  by (simp add: trans_ok_def trans_new_def info_ok_def callback_def tinfo_new_def once_def)

lemma trans_steps_ok: "trans_ok s \<Longrightarrow> \<exists>s'. trans_run steps s = Some s' \<and> trans_ok s'"
proof (induction steps arbitrary: s)
  case (Cons x xs)
  have "\<exists>s'. trans_step x s = Some s' \<and> trans_ok s'"
    using playback_ok [OF Cons.prems] database_ok [OF Cons.prems] winds_down_ok [OF Cons.prems winds_down_stage]
      winds_down_ok [OF Cons.prems winds_down_stop] winds_down_ok [OF Cons.prems winds_down_fails] by (cases x) auto
  then show ?case using Cons.IH by auto
qed simp

lemma trans_run_ok: "trans_run steps trans_new = Some s \<Longrightarrow> trans_ok s"
  using trans_steps_ok [OF trans_new_ok, of steps] by auto

text \<open>C12: Whatever happens, no callback for a duration outlives the run it points to, so that each tick of the timer
  reads the durations of all tasks; and no pipeline ever has two runs of a task.\<close>

theorem transcode_runs_safe: "\<exists>s. trans_run steps trans_new = Some s \<and> durations_ok env s \<and> once s"
  using trans_steps_ok [OF trans_new_ok, of steps] durations_ok by (auto simp: trans_ok_def)

section \<open>A task that is due is started\<close>

lemma deinit_other: "v \<noteq> ti_source i \<Longrightarrow> tr_pipes (deinitInfo env i s) v = tr_pipes s v"
  by (auto simp: deinitInfo_def sched_delTask_def pipeline_delTask_def stopPipeline_def Let_def split: option.splits if_splits prod.splits)

lemma deinit_none: "tr_pipes s v = None \<Longrightarrow> tr_pipes (deinitInfo env i s) v = None"
proof (cases "v = ti_source i")
  case True
  assume "tr_pipes s v = None"
  then show ?thesis using True by (simp add: deinitInfo_def sched_delTask_def)
qed (simp add: deinit_other)

lemma play_other: "v \<noteq> src \<Longrightarrow> tr_pipes (playPipeline env src s) v = tr_pipes s v"
  by (auto simp: playPipeline_def pipeline_init_def pipeline_clean_def split: option.splits)

lemma play_none: "tr_pipes s v = None \<Longrightarrow> tr_pipes (playPipeline env src s) v = None"
  by (cases "v = src") (simp_all add: play_other, simp add: playPipeline_def)

lemma deinits_none: "tr_pipes s v = None \<Longrightarrow> tr_pipes (fold (deinitInfo env) is s) v = None"
  by (induction "is" arbitrary: s) (simp_all add: deinit_none)

lemma plays_none: "tr_pipes s v = None \<Longrightarrow> tr_pipes (fold (playPipeline env) vs s) v = None"
  by (induction vs arbitrary: s) (simp_all add: play_none)

text \<open>What a start does to the pipeline of a source and to the other callbacks.\<close>

definition joined :: "trans \<Rightarrow> string \<Rightarrow> task list" where
  "joined s v = (case tr_pipes s v of None \<Rightarrow> [] | Some p \<Rightarrow> pl_tasks p)"

lemma joined_pipe: "t \<in> set (joined s v) \<Longrightarrow> tr_pipes s v \<noteq> None"
  by (cases "tr_pipes s v") (simp_all add: joined_def)

definition idle :: "trans \<Rightarrow> string \<Rightarrow> bool" where
  "idle s v \<longleftrightarrow> (\<forall>p. tr_pipes s v = Some p \<longrightarrow> \<not> pl_started p)"

lemma initTask_joined:
  "joined (trans_initTask env j s) v = joined s v \<or>
     (\<exists>t. joined (trans_initTask env j s) v = joined s v @ [t] \<and> tk_uuid t = mi_uuid j)"
  by (cases "tr_pipes s (ti_source j)")
    (auto simp: trans_initTask_def task_new_def sched_addTask_def pipeline_addTask_def Let_def joined_def pipeline_new_def)

lemma initTask_idle: "idle s v \<Longrightarrow> idle (trans_initTask env j s) v"
  by (cases "tr_pipes s (ti_source j)")
    (auto simp: trans_initTask_def task_new_def sched_addTask_def pipeline_addTask_def Let_def idle_def pipeline_new_def)

lemma initTask_callback: "ti_obj j \<noteq> ob \<Longrightarrow> callback (trans_initTask env j s) ob = callback s ob"
  by (cases "tr_pipes s (ti_source j)")
    (auto simp: trans_initTask_def task_new_def sched_addTask_def pipeline_addTask_def Let_def)

lemma initTasks_before:
  "idle s v \<Longrightarrow> idle (fold (trans_initTask env) js s) v \<and>
     tk_uuid ` set (joined (fold (trans_initTask env) js s) v) \<subseteq> tk_uuid ` set (joined s v) \<union> mi_uuid ` set js"
proof (induction js arbitrary: s)
  case (Cons j js)
  have "tk_uuid ` set (joined (trans_initTask env j s) v) \<subseteq> insert (mi_uuid j) (tk_uuid ` set (joined s v))"
    using initTask_joined [of env j s v] by auto
  then show ?case using Cons.IH [OF initTask_idle [OF Cons.prems, of env j]] by (simp only: fold.simps comp_apply list.set image_insert) blast
qed simp

lemma initTasks_after:
  "idle s v \<Longrightarrow> t \<in> set (joined s v) \<Longrightarrow> \<forall>j \<in> set js. ti_obj j \<noteq> ob \<Longrightarrow>
     idle (fold (trans_initTask env) js s) v \<and> t \<in> set (joined (fold (trans_initTask env) js s) v) \<and>
     callback (fold (trans_initTask env) js s) ob = callback s ob"
proof (induction js arbitrary: s)
  case (Cons j js)
  have "t \<in> set (joined (trans_initTask env j s) v)" using initTask_joined [of env j s v] Cons.prems(2) by auto
  then show ?case using Cons.IH [OF initTask_idle [OF Cons.prems(1)]] Cons.prems(3) initTask_callback by auto
qed simp

lemma initTask_starts:
  assumes "te_init env (mi_uuid i)" "mi_uuid i \<notin> tk_uuid ` set (joined s (ti_source i))"
  shows "\<exists>t. t \<in> set (joined (trans_initTask env i s) (ti_source i)) \<and> tk_uuid t = mi_uuid i \<and>
     callback (trans_initTask env i s) (ti_obj i) = Some (tk_id t)"
  using assms
  by (cases "tr_pipes s (ti_source i)")
    (auto simp: trans_initTask_def task_new_def sched_addTask_def pipeline_addTask_def Let_def joined_def pipeline_new_def findTask_def find_None_iff image_iff)

lemma getPipelines_in:
  assumes "i \<in> set is" "tr_pipes s (ti_source i) \<noteq> None"
  shows "ti_source i \<in> set (getPipelines s is)"
proof -
  let ?f = "\<lambda>acc i. if tr_pipes s (ti_source i) \<noteq> None \<and> ti_source i \<notin> set acc then acc @ [ti_source i] else acc"
  have mono: "set acc \<subseteq> set (foldl ?f acc is)" for acc "is"
    by (induction "is" arbitrary: acc) (auto, fastforce+)
  have "i \<in> set is \<Longrightarrow> ti_source i \<in> set (foldl ?f acc is)" for acc
  proof (induction "is" arbitrary: acc)
    case (Cons j js)
    show ?case
    proof (cases "i = j")
      case True
      then have "ti_source i \<in> set (?f acc j)" using assms(2) by simp
      then show ?thesis using mono [of "?f acc j" js] by (simp only: foldl_Cons) blast
    next
      case False
      then show ?thesis using Cons by simp
    qed
  qed simp
  then show ?thesis using assms(1) by (simp only: getPipelines_def)
qed

text \<open>With pipelines and branches that can be made, nothing is lost, and the pipeline is started.\<close>

lemma play_callback:
  assumes "\<And>v. te_pipe env v" "\<And>u. te_branch env u"
  shows "callback (playPipeline env src s) ob = callback s ob"
proof (cases "tr_pipes s src")
  case (Some p)
  then show ?thesis using assms by (simp add: playPipeline_def pipeline_init_def pipeline_clean_def list_all_iff)
qed (simp add: playPipeline_def)

definition running :: "trans \<Rightarrow> task_info \<Rightarrow> bool" where
  "running s i \<longleftrightarrow> (\<exists>p t. tr_pipes s (ti_source i) = Some p \<and> pl_started p \<and> t \<in> set (pl_tasks p) \<and>
     tk_uuid t = mi_uuid i \<and> tk_branch t \<and> callback s (ti_obj i) = Some (tk_id t))"

lemma play_running:
  assumes e: "\<And>v. te_pipe env v" "\<And>u. te_branch env u" and r: "running s i"
  shows "running (playPipeline env src s) i"
proof -
  from r obtain p where p: "tr_pipes s (ti_source i) = Some p" "pl_started p" by (auto simp: running_def)
  have "tr_pipes (playPipeline env src s) (ti_source i) = tr_pipes s (ti_source i)"
    using p play_other [of "ti_source i" src env s] by (cases "src = ti_source i") (simp_all add: playPipeline_def)
  then show ?thesis using r by (simp add: running_def play_callback [OF e])
qed

lemma play_starts:
  assumes e: "\<And>v. te_pipe env v" "\<And>u. te_branch env u"
    and t: "idle s (ti_source i)" "t \<in> set (joined s (ti_source i))" "tk_uuid t = mi_uuid i" "callback s (ti_obj i) = Some (tk_id t)"
  shows "running (playPipeline env (ti_source i) s) i"
proof -
  from t(2) obtain p where p: "tr_pipes s (ti_source i) = Some p" "t \<in> set (pl_tasks p)"
    by (cases "tr_pipes s (ti_source i)") (simp_all add: joined_def)
  then have ne: "pl_tasks p \<noteq> []" "\<not> pl_started p" using t(1) by (auto simp: idle_def)
  let ?t = "t\<lparr>tk_branch := True\<rparr>" and ?q = "p\<lparr>pl_tasks := map (\<lambda>t. t\<lparr>tk_branch := True\<rparr>) (pl_tasks p), pl_started := True, pl_live := True\<rparr>"
  have "tr_pipes (playPipeline env (ti_source i) s) (ti_source i) = Some ?q"
    using p(1) ne e by (simp add: playPipeline_def pipeline_init_def list_all_iff)
  moreover have "?t \<in> set (pl_tasks ?q)" using p(2) by simp
  moreover have "pl_started ?q" "tk_branch ?t" "tk_uuid ?t = mi_uuid i" using t(3) by simp_all
  moreover have "callback (playPipeline env (ti_source i) s) (ti_obj i) = Some (tk_id ?t)"
    using t(4) by (simp add: play_callback [OF e])
  ultimately show ?thesis unfolding running_def by blast
qed

lemma plays_start:
  assumes e: "\<And>v. te_pipe env v" "\<And>u. te_branch env u"
  shows "idle s (ti_source i) \<and> t \<in> set (joined s (ti_source i)) \<and> tk_uuid t = mi_uuid i \<and> callback s (ti_obj i) = Some (tk_id t) \<and>
      ti_source i \<in> set vs \<or> running s i \<Longrightarrow> running (fold (playPipeline env) vs s) i"
proof (induction vs arbitrary: s)
  case (Cons v vs)
  consider "running s i" | "v = ti_source i" "\<not> running s i" | "v \<noteq> ti_source i" "\<not> running s i" by blast
  then have "idle (playPipeline env v s) (ti_source i) \<and> t \<in> set (joined (playPipeline env v s) (ti_source i)) \<and> tk_uuid t = mi_uuid i \<and>
      callback (playPipeline env v s) (ti_obj i) = Some (tk_id t) \<and> ti_source i \<in> set vs \<or> running (playPipeline env v s) i"
  proof cases
    case 1
    then show ?thesis using play_running [OF e] by blast
  next
    case 2
    then show ?thesis using Cons.prems play_starts [OF e] by blast
  next
    case 3
    then have "tr_pipes (playPipeline env v s) (ti_source i) = tr_pipes s (ti_source i)" by (intro play_other) simp
    then show ?thesis using Cons.prems 3 by (simp add: idle_def joined_def play_callback [OF e])
  qed
  then show ?case using Cons.IH by simp
qed simp

lemma playPipelines_start:
  assumes "\<And>v. te_pipe env v" "\<And>u. te_branch env u" "idle s (ti_source i)" "t \<in> set (joined s (ti_source i))"
    "tk_uuid t = mi_uuid i" "callback s (ti_obj i) = Some (tk_id t)" "i \<in> set is"
  shows "running (playPipelines env is s) i"
  unfolding playPipelines_def
  using getPipelines_in [OF assms(7) joined_pipe [OF assms(4)]] assms(3-6) by (intro plays_start [OF assms(1,2), where t = t]) simp

text \<open>C31: A task whose start time is now, whose source is not played by another pipeline and whose elements can be made is running
  after the tick: its pipeline is started, its run has a branch, and its duration is that of the run.\<close>

theorem playback_starts:
  assumes "trans_run steps trans_new = Some s" "i \<in> set (tr_info s)" "tr_pipes s (ti_source i) = None"
    and "\<not> sc_once (ti_schedule i)" "isMatch (sc_cron (ti_schedule i)) (te_now env2)"
    and "te_init env2 (mi_uuid i)" "\<And>v. te_pipe env2 v" "\<And>u. te_branch env2 u"
  shows "\<exists>s'. trans_step (Tick env1 env2) s = Some s' \<and> running s' i"
proof -
  have ok: "trans_ok s" by (rule trans_run_ok [OF assms(1)])
  obtain stops where stops: "getStopList env1 s = Some stops"
    using durations_ok [OF ok] by (simp add: getStopList_def)
  let ?s1 = "playPipelines env1 stops (fold (deinitInfo env1) stops s)"
  have w: "winds_down s ?s1" by (rule winds_down_trans [OF winds_down_deinits winds_down_plays])
  from winds_down_ok [OF ok w] have ok1: "trans_ok ?s1" and info: "tr_info ?s1 = tr_info s" by simp_all
  have none: "tr_pipes ?s1 (ti_source i) = None"
    unfolding playPipelines_def by (rule plays_none) (rule deinits_none [OF assms(3)])
  then have "callback ?s1 (ti_obj i) = None" using ok1 assms(2) info by (auto simp: trans_ok_def runs_def)
  then have dur: "getActualDuration env2 ?s1 i = Some 0" by (simp add: getActualDuration_def callback_def)
  let ?starts = "filter (\<lambda>i. needStart (ti_schedule i) (te_now env2) (to_count (tr_objs ?s1 (ti_obj i))) (the (getActualDuration env2 ?s1 i))) (tr_info ?s1)"
  have starts: "getStartList env2 ?s1 = Some ?starts" using durations_ok [OF ok1] by (simp add: getStartList_def)
  have "i \<in> set ?starts" using assms(2,4,5) dur by (simp add: info needStart_def)
  then obtain as bs where split: "?starts = as @ i # bs" by (meson split_list)
  have "info_ok ?starts" using ok1 by (simp add: trans_ok_def info_ok_filter)
  then have uu: "mi_uuid i \<notin> mi_uuid ` set as" unfolding split by (auto simp: info_ok_def sorted_wrt_append infoLess_def)
  have "distinct ?starts" using \<open>info_ok ?starts\<close> by (rule info_ok_distinct)
  then have "i \<notin> set bs" unfolding split by simp
  moreover have "set bs \<subseteq> set (tr_info s)" using split info by (metis (no_types, lifting) filter_is_subset set_append set_subset_Cons le_sup_iff dual_order.trans)
  ultimately have bs: "\<forall>j \<in> set bs. ti_obj j \<noteq> ti_obj i" using ok assms(2) by (auto simp: trans_ok_def inj_on_def)
  let ?s2 = "fold (trans_initTask env2) as ?s1" and ?v = "ti_source i"
  have "idle ?s1 ?v" "joined ?s1 ?v = []" using none by (simp_all add: idle_def joined_def)
  with initTasks_before [OF \<open>idle ?s1 ?v\<close>, of env2 as] have A: "idle ?s2 ?v" "mi_uuid i \<notin> tk_uuid ` set (joined ?s2 ?v)"
    using uu by auto
  obtain t where t: "t \<in> set (joined (trans_initTask env2 i ?s2) ?v)" "tk_uuid t = mi_uuid i"
      "callback (trans_initTask env2 i ?s2) (ti_obj i) = Some (tk_id t)"
    using initTask_starts [OF assms(6) A(2)] by blast
  let ?s3 = "fold (trans_initTask env2) ?starts ?s1"
  have s3: "?s3 = fold (trans_initTask env2) bs (trans_initTask env2 i ?s2)" by (simp add: split)
  have B: "idle ?s3 ?v" "t \<in> set (joined ?s3 ?v)" "callback ?s3 (ti_obj i) = Some (tk_id t)"
    using initTasks_after [OF initTask_idle [OF A(1)] t(1) bs] t(3) unfolding s3 by simp_all
  have "running (playPipelines env2 ?starts ?s3) i"
    by (rule playPipelines_start [OF assms(7,8) B(1,2) t(2) B(3) \<open>i \<in> set ?starts\<close>])
  then show ?thesis using stops starts by (simp add: doSchedulePlayback_def Let_def)
qed

lemma always_schedule:
  "ScheduleInfo ''@always'' 0 = Some \<lparr>sc_cron = \<lparr>cr_minute = ''*'', cr_hour = ''*'', cr_day_of_month = ''*'', cr_month = ''*'', cr_day_of_week = ''*''\<rparr>,
     sc_once = False, sc_duration = 0\<rparr>"
  by code_simp

definition quiet_env :: tenv where
  "quiet_env = \<lparr>te_now = \<lparr>tm_min = 0, tm_hour = 0, tm_mday = 1, tm_mon = 0, tm_wday = 0\<rparr>, te_clock = (\<lambda>_. 0),
     te_init = (\<lambda>_. True), te_branch = (\<lambda>_. True), te_pipe = (\<lambda>_. True), te_state = (\<lambda>_. True)\<rparr>"

lemma playback_starts_witness:
  "\<exists>s i s'. trans_run [Database quiet_env [\<lparr>tw_uuid = ''t'', tw_name = ''task'', tw_source = ''s'', tw_start = ''@always'', tw_duration = 0\<rparr>]] trans_new = Some s \<and>
     i \<in> set (tr_info s) \<and> trans_step (Tick quiet_env quiet_env) s = Some s' \<and> running s' i"
proof -
  let ?r = "\<lparr>tw_uuid = ''t'', tw_name = ''task'', tw_source = ''s'', tw_start = ''@always'', tw_duration = 0\<rparr>"
  let ?i = "\<lparr>mi_uuid = ''t'', mi_name = ''task'', mi_inuse = False, ti_obj = 0, ti_source = ''s'', ti_schedule = the (ScheduleInfo ''@always'' 0)\<rparr>"
  have "TaskInfo 0 ?r = Some ?i" by (simp add: TaskInfo_def info_new_def always_schedule)
  then have "getTaskInfoFromDB 0 [?r] [] = Some [?i]" by simp
  then have run: "trans_run [Database quiet_env [?r]] trans_new = Some (trans_new\<lparr>tr_fresh := 1, tr_info := [?i]\<rparr>)"
    by (simp add: trans_processDB_def trans_new_def Let_def getDel_def info_del_def info_add_def addElem_def)
  have "\<exists>s'. trans_step (Tick quiet_env quiet_env) (trans_new\<lparr>tr_fresh := 1, tr_info := [?i]\<rparr>) = Some s' \<and> running s' ?i"
    by (rule playback_starts [OF run])
      (simp_all add: trans_new_def quiet_env_def always_schedule isMatch_def cron_check_def)
  moreover have "?i \<in> set (tr_info (trans_new\<lparr>tr_fresh := 1, tr_info := [?i]\<rparr>))" by simp
  ultimately show ?thesis using run by blast
qed

section \<open>What goes wrong\<close>

text \<open>A task that is due while its source is already played gets no branch, and so no time.\<close>

lemma late_task:
  assumes "tr_pipes s (ti_source i) = Some p" "pl_started p" "findTask (mi_uuid i) p = None" "te_init env (mi_uuid i)"
  shows "\<exists>q t. tr_pipes (playPipelines env [i] (trans_initTask env i s)) (ti_source i) = Some q \<and> t \<in> set (pl_tasks q) \<and>
     tk_uuid t = mi_uuid i \<and> \<not> tk_branch t"
proof -
  let ?t = "\<lparr>tk_id = tr_fresh s, tk_uuid = mi_uuid i, tk_source = ti_source i, tk_obj = ti_obj i, tk_branch = False, tk_time = 0\<rparr>"
  let ?q = "p\<lparr>pl_tasks := pl_tasks p @ [?t]\<rparr>" and ?s = "trans_initTask env i s"
  have q: "tr_pipes ?s (ti_source i) = Some ?q"
    using assms(1,3,4) by (simp add: trans_initTask_def task_new_def sched_addTask_def pipeline_addTask_def Let_def)
  then have "playPipelines env [i] ?s = ?s" using assms(2) by (simp add: playPipelines_def getPipelines_def playPipeline_def)
  moreover have "?t \<in> set (pl_tasks ?q)" "tk_uuid ?t = mi_uuid i" "\<not> tk_branch ?t" by simp_all
  ultimately show ?thesis using q by metis
qed

text \<open>It is started again then, which fails, and takes the callback from the run that is there.\<close>

lemma second_start:
  assumes "tr_pipes s (ti_source i) = Some p" "findTask (mi_uuid i) p \<noteq> None"
  shows "callback (trans_initTask env i s) (ti_obj i) = None"
  using assms by (auto simp: trans_initTask_def task_new_def sched_addTask_def pipeline_addTask_def Let_def)

text \<open>Without a branch it cannot be deleted either.\<close>

lemma late_task_stays:
  assumes "tr_pipes s (ti_source i) = Some p" "findTask (mi_uuid i) p = Some t" "\<not> tk_branch t"
  shows "deinitInfo env i s = s"
  using assms by (simp add: deinitInfo_def sched_delTask_def pipeline_delTask_def Let_def)

text \<open>At the end of a stream the time of a run is added twice: with the event and when the thread is stopped.\<close>

lemma eos_counts_twice:
  assumes "tr_pipes s src = Some p" "pl_started p" "pl_live p" "pl_tasks p = [t]" "tk_branch t" "te_clock env (tk_id t) > 0"
  shows "to_time (tr_objs (stopPipeline env src (processStageChange env src s)) (tk_obj t)) =
     to_time (tr_objs s (tk_obj t)) + tk_time t + 2 * te_clock env (tk_id t)"
  using assms
  by (simp add: stopPipeline_def processStageChange_def set_pipe_def task_destroy_def addRunningTime_def setDurationCallBack_def
      updateRunningTime_def task_getRunningTime_def Let_def)

end
