(* ===== verification/Spec2Isabelle.thy ===== *)
theory Spec2Isabelle
  imports Fe Psi Fifo Ringbuffer Simplebuffer Adapter Dmx Pat Dvr Pmt Dispatch Socket Sap Output Pipe Stream Steps Libconf_Validate Getconf_Safe Cli_Worker Modfactory Routing Http_Stream Schedule Streaming Files Trans
begin

text \<open>
  A model of the media server kalinka: \<^emph>\<open>getstream2\<close>, the part of its DVB streamer that takes the
  transport stream of a DVB card apart and sends programs over the network; the command line driver of
  its client; and the module system of its server, with the functions its programs share.  Files of
  getstream2 are named without their folder \<^verbatim>\<open>src/app/dvb/streamer/plugin/getstream2/\<close>, those of
  the client are in \<^verbatim>\<open>src/client/\<close>, the others are named from \<^verbatim>\<open>src/\<close>.

  \<^bold>\<open>The streamer.\<close>  An adapter (\<^verbatim>\<open>struct adapter_s\<close>) is tuned by \<^verbatim>\<open>fe.c\<close>, sets filters for pids
  by \<^verbatim>\<open>dmx.c\<close> and reads packets by \<^verbatim>\<open>dvr.c\<close>, which calls the callbacks registered for the
  packet's pid.  For pids with section callbacks it reassembles sections by \<^verbatim>\<open>psi.c\<close>, checked by
  \<^verbatim>\<open>crc32.c\<close>.  The program association table (\<^verbatim>\<open>pat.c\<close>) tells the pids of the program maps
  (\<^verbatim>\<open>pmt.c\<close>), and these the pids of a program, for which its receivers are registered.  The
  receivers are streams (\<^verbatim>\<open>stream.c\<close>, \<^verbatim>\<open>input.c\<close>), which pass their packets to outputs
  (\<^verbatim>\<open>output*.c\<close>, \<^verbatim>\<open>socket.c\<close>) and announce themselves (\<^verbatim>\<open>sap.c\<close>).  An output over HTTP is an address
  of a server of its own, \<^verbatim>\<open>libhttp.c\<close>.  Configuration files are read and checked by \<^verbatim>\<open>libconf.c\<close>, and
  \<^verbatim>\<open>config.c\<close> builds adapters, streams and outputs from them.

  \<^bold>\<open>The client.\<close>  \<^verbatim>\<open>clidriver.c\<close> keeps a table of commands, linked entries that the modules of the client
  register and remove (\<^verbatim>\<open>garbage.cpp\<close>).  Its loop splits a line into words, finds the command and runs its
  handler, and answers the line editor when it asks for completions.

  \<^bold>\<open>The server.\<close>  The server is a set of modules, each a thread with two queues of messages.  The factory
  of modules (\<^verbatim>\<open>src/common/modfactory.cpp\<close>) loads them in the order of their dependencies
  (\<^verbatim>\<open>src/common/mod/dep.cpp\<close>) and starts them by a scheduler of threads; a message goes to the message
  core (\<^verbatim>\<open>src/modules/msgcore/msgcore.cpp\<close>), which hands it to its receivers, whose processors run the
  functions registered for it.

  \<^bold>\<open>Theories: the streamer.\<close>
  \<^item> \<open>Prelude\<close>: C memory accesses with their bounds, C integers, numbers as digits, hint collections.
  \<^item> \<open>Ts\<close>: the packet accessors of \<^verbatim>\<open>getstream.h\<close>.
  \<^item> \<open>Crc32\<close>: \<^verbatim>\<open>crc32.c\<close>, the table-driven loops with their alignment code, and the bitwise
    CRC they compute; linearity of the CRC gives the facts about damage.
  \<^item> \<open>Psi\<close>: \<^verbatim>\<open>psi.c\<close>, sections, their reassembly from packets, their segmentation into packets,
    and the table of the sections received.  The locale \<open>psi_receiver\<close> is the contract of whatever
    takes packets of a section; it is interpreted by the reassembly itself and, in \<open>Dispatch\<close>, by the
    adapter.
  \<^item> \<open>Fifo\<close>, \<open>Ringbuffer\<close>, \<open>Simplebuffer\<close>: the packet buffers.  The locale \<open>bounded_fifo\<close> is their
    abstract specification, a queue of atoms with a bound; the locale \<open>batcher\<close> is the contract of
    an output that sends a full buffer.
  \<^item> \<open>Fe\<close>: \<^verbatim>\<open>fe.c\<close>, tuning, satellite switches and the event and timer handlers.
  \<^item> \<open>Adapter\<close>: the state of an adapter.  \<open>Dmx\<close>, \<open>Dvr\<close>, \<open>Pat\<close>, \<open>Pmt\<close>: the operations of the files of
    these names on it.  \<open>Dispatch\<close>: reading and delivering packets, with everything the callbacks do.
  \<^item> \<open>Socket\<close>, \<open>Sap\<close>, \<open>Output\<close>, \<open>Pipe\<close>: the outputs, UDP as it is built, RTP and pipes as they are in
    the sources, and the announcements.  \<open>Stream\<close>: streams, inputs and the composition with the adapter.
  \<^item> \<open>Steps\<close>: the life of an adapter as a step relation, with its invariant.
  \<^item> \<open>Http_Parse\<close>, \<open>Http\<close>: \<^verbatim>\<open>libhttp.c\<close> and \<^verbatim>\<open>output_http.c\<close>; the buffers of libevent are lists of bytes, and
    its calls are events.  \<open>Http_Request\<close>: a request in any pieces asks the handler of its address once.
    \<open>Http_Safe\<close>: connections, receivers and outputs, and the invariant that no freed one is used if the
    clients wait for their answers.  \<open>Http_Stream\<close>: what a client of a stream decodes; the output is an
    instance of \<open>batcher\<close>.
  \<^item> \<open>Libconf\<close>: the tokeniser and the parser of configuration files, with their entries in a store.
    \<open>Libconf_Validate\<close>: the checks of the entries against a table of options.  \<open>Getconf\<close>: the tables and
    callbacks of \<^verbatim>\<open>config.c\<close>; \<open>Getconf_Safe\<close> describes each callback by the static variables it needs and
    sets and the type of its value, checks the tables by it as a type system does, and concludes that
    reading a file is safe.

  \<^bold>\<open>Theories: the client.\<close>
  \<^item> \<open>Cstring\<close>: the string functions of the C library.  \<open>Cli_Args\<close>: splitting and joining
    words.  \<open>Cli\<close>: the operations on the table of commands, help and the dispatch.  \<open>Cli_Table\<close>: the linked
    entries as a list, and the table's invariant.  \<open>Cli_Run\<close>: looking up and running commands.
    \<open>Cli_Complete\<close>: completion, display and output.  \<open>Cli_Worker\<close>: the main loop.

  \<^bold>\<open>Theories: the server.\<close>
  \<^item> \<open>Moddep\<close>: \<^verbatim>\<open>mod/dep.cpp\<close>, the graph of dependencies; the searches of the graph library are parameters.
  \<^item> \<open>Semaphore\<close>: \<^verbatim>\<open>klksemaphore.cpp\<close> and the triggers of \<^verbatim>\<open>thread.cpp\<close>.  \<open>Scheduler\<close>:
    \<^verbatim>\<open>scheduler.cpp\<close> and \<^verbatim>\<open>modulescheduler.cpp\<close>, over the virtual methods of a thread.
  \<^item> \<open>Modfactory\<close>: \<^verbatim>\<open>modfactory.cpp\<close>, loading, starting and unloading.
  \<^item> \<open>Message\<close>: messages and their factory.  \<open>Holder\<close>: the queues, \<^verbatim>\<open>messageholder.cpp\<close>, as a step relation of a
    reader and of the threads that write.  \<open>Processor\<close>: \<^verbatim>\<open>processor.cpp\<close> and \<^verbatim>\<open>cliutils.cpp\<close>.
    \<open>Routing\<close>: the way of a message and of a request with its response.
  \<^item> \<open>Utils\<close>: the functions of \<^verbatim>\<open>utils.cpp\<close> on texts and settings.  \<open>Schedule\<close>: start times of tasks,
    \<^verbatim>\<open>src/app/transcode/scheduleinfo.cpp\<close>.
  \<^item> \<open>Reader\<close>: the readers of the http streamer (\<^verbatim>\<open>src/app/http-streamer/\<close>) on sockets that give their data
    in any pieces.  The locale \<open>lossless_reader\<close> is their contract, interpreted by the readers of flash
    video, of transport streams and of plain data; pages of OGG come from a library, a parameter.
    \<open>Connthread\<close>: the thread of a connection (\<^verbatim>\<open>conthread.cpp\<close>) as a step relation, interleaved with those
    that give it data or stop it.  \<open>Streaming\<close>: all programs and connections; what a client gets, whatever
    the others do, is proved in the locale for every reader.
  \<^item> \<open>Infoset\<close>: what modules know of their resources (\<^verbatim>\<open>src/common/mod/info.cpp\<close>, \<^verbatim>\<open>infocontainer.h\<close>) and its update
    from the database.  The locale \<open>updatable\<close> is the contract of the virtual method that updates an element;
    it is interpreted by the base class, by files and by HTTP sources.  \<open>Files\<close>: the modules of files and of HTTP sources
    (\<^verbatim>\<open>src/modules/file/\<close>, \<^verbatim>\<open>src/modules/httpsrc/\<close>), and the folders they make.
  \<^item> \<open>Trans\<close>: the transcode application (\<^verbatim>\<open>src/app/transcode/\<close>), tasks, pipelines and scheduled playback.  GStreamer
    is an environment that says for each element whether it can be made, and how long it has been playing.
  This theory: properties that span components.

  \<^bold>\<open>Conventions.\<close>  A buffer is the list of its bytes.  In the models of C code a result \<open>None\<close> is undefined
  behaviour: an access outside of a buffer, a use of a null pointer or of freed memory (the header of each theory
  says which); \<^verbatim>\<open>exit\<close> is \<open>None\<close> too.  So that an operation gives \<open>Some\<close> is a statement about memory
  safety.  In the models of C++ code \<open>None\<close> is an exception that leaves the function.
  Shared structures live in stores, maps from an identifier to the structure, and
  \<^verbatim>\<open>free\<close> removes the entry.  The kernel is a log of system calls and an arbitrary function from the
  log to the result of its last call; where a theorem needs it, a hypothesis says that a new
  descriptor is not one that is open (\<open>kernel_fresh\<close>, \<open>net_fresh\<close>).  Integers whose wrap-around
  matters are words or are taken modulo their range.  Timers are the time they are set to.  Code that is
  not in the repository is a parameter: the resolver of addresses, the graph searches, the generators and
  handlers of commands outside of the driver, the functions of modules.

  \<^bold>\<open>Loops.\<close>  Loops are structural recursion or \<open>function\<close>s with a measure.  \<open>dvr_del_rec\<close> takes fuel
  for nested calls; \<open>dvr_del_pcb\<close> gives it 2, because a section callback can only remove the pid's
  reassembly, which is a packet callback.  \<open>walk\<close> and \<open>dvr_reassemble_loop\<close> are partial functions,
  because a callback may change the list that is being walked and a section may end at offset 0;
  \<open>dvr_section_reassemble_total\<close> and \<open>dvr_input_delivers\<close> show that they end.  The loops over linked
  commands are partial too, and end in a table that is well formed.  \<open>ast_cli_generator\<close> gets as fuel the length of the
  line and two, because \<^verbatim>\<open>help\<close> starts the search again with a shorter line; \<open>cli_complete_returns\<close> shows that
  it is enough.  \<open>load\<close> takes fuel for modules that load those they need; \<open>load_terminates\<close> shows that one
  more than the number of modules is enough.  \<open>replace_loop\<close> is partial, since the loop of the source may run
  forever (\<open>replaceAll_diverges\<close>).

  \<^bold>\<open>What is shown.\<close>  The CRC computed with tables is the CRC by division and detects any damage of up
  to four bytes in a row; sections segmented into packets arrive at every receiver of a pid once,
  intact; the buffers are bounded queues; the table of pids and the demultiplexer's descriptors stay
  consistent under every sequence of events; a changed program map makes a program receive exactly
  its pids; the outputs send packets in order and in full batches, over HTTP as well; the association table of a stream
  says what a receiver needs; and, for adapter and streams together, every stream gets its
  packets whatever else happens.  A printed configuration is read back, its checks are those of the tree it
  stands for, and reading it builds well-formed objects without touching a null pointer.  In the client,
  arguments come out as they were quoted, the table of commands behaves as a map, the right handler runs, completion offers
  exactly what fits, and no session uses freed memory.  In the server, modules start behind those they
  need and stop before them, messages reach their receivers in order and none is lost, and a request is
  answered.  A file is given to one client at a time, a task that is due runs, and no callback outlives the run
  it points to.  The theorems about errors show where the code fails: a section other
  than number 0 coming first, a very short table, a program left, an output that could not be opened,
  a command that frees itself, a command behind a shorter one, a second request before the first is
  answered, an announcement before the first output, a module stopped just before it waits, a task for December, a task
  whose source is already played.

  \<^bold>\<open>Not modelled.\<close>  Log messages, except where a log is the purpose of a function.  Memory allocation
  does not fail.  Code that is compiled out (\<^verbatim>\<open>MULTIPROTO\<close>, \<^verbatim>\<open>#if 0\<close>).  The set-up of the line editor in the
  client.  \<^verbatim>\<open>tsdecode.c\<close>, \<^verbatim>\<open>getstream.c\<close> and \<^verbatim>\<open>logging.c\<close>.  \<^verbatim>\<open>libhttp.c\<close> and \<^verbatim>\<open>config.c\<close> are modelled
  as they are in the sources, though the build leaves them out.  The steps of \<open>Steps\<close> leave out programs joined
  while packets arrive.  Of the C++ code, what only calls a library is left out: the database, XML, SNMP, D-Bus,
  GStreamer and Python, and with them the modules and commands that are queries of the database.
\<close>


definition example_system :: system where
  "example_system = \<lparr>sys_adapter = example_adapter\<lparr>
       a_pcbs := [4 \<mapsto> \<lparr>pcb_callback = CB_external 0, pcb_pid = 17, pcb_type = DVRCB_TS, pcb_pidt = PID_STATIC\<rparr>],
       a_pt := (a_pt example_adapter)(17 := (a_pt example_adapter 17)\<lparr>pt_callback := [4]\<rparr>)\<rparr>,
     sys_streams = [0 \<mapsto> example_stream], sys_net = example_net\<rparr>"


end
